(* ===== verification/Prelude.thy ===== *)
theory Prelude
  imports Main "HOL-Library.Word"
begin

text \<open>
  Shared vocabulary of the development: the machine types of the library (\<open>uint8_t\<close>,
  \<open>uint32_t\<close>, \<open>data_chunk\<close>, \<open>size_t\<close>), the limits of \<open>include/bitcoin/system/constants.hpp\<close>,
  little- and big-endian byte strings, and the generic lemmas about them that the component
  theories rely on.

  A \<open>size_t\<close> is a natural number; the places where the code saturates or wraps it write the
  bound out (\<^verbatim>\<open>max_size_t\<close>). Other machine integers are words of their width.
\<close>

section \<open>Machine types and limits\<close>

unbundle bit_operations_syntax

type_synonym byte = "8 word"
type_synonym u16 = "16 word"
type_synonym u32 = "32 word"
type_synonym u64 = "64 word"
type_synonym data_chunk = "byte list"

text \<open>A hash digest is an array of 32 bytes; the model carries it as a byte list.\<close>

type_synonym hash_digest = "byte list"

definition max_uint8 :: nat where "max_uint8 = 2 ^ 8 - 1"
definition max_uint16 :: nat where "max_uint16 = 2 ^ 16 - 1"
definition max_uint32 :: nat where "max_uint32 = 2 ^ 32 - 1"
definition max_uint64 :: nat where "max_uint64 = 2 ^ 64 - 1"
definition max_size_t :: nat where "max_size_t = 2 ^ 64 - 1"

named_theorems limits "the numeric limits, unfolded"
named_theorems reader_simps "the effect of the stream reader's operations on a good stream"
named_theorems size_simps "serialized sizes"

lemmas [limits] = max_uint8_def max_uint16_def max_uint32_def max_uint64_def max_size_t_def

section \<open>Byte strings as numbers\<close>

text \<open>The value of a little-endian byte string, and the low \<open>n\<close> bytes of a number.\<close>

primrec le_value :: "data_chunk \<Rightarrow> nat" where
  "le_value [] = 0"
| "le_value (b # bs) = unat b + 256 * le_value bs"

primrec le_bytes :: "nat \<Rightarrow> nat \<Rightarrow> data_chunk" where
  "le_bytes 0 v = []"
| "le_bytes (Suc n) v = word_of_nat (v mod 256) # le_bytes n (v div 256)"

text \<open>Big-endian strings are the little-endian ones, reversed.\<close>

definition be_value :: "data_chunk \<Rightarrow> nat" where
  "be_value bs = le_value (rev bs)"

definition be_bytes :: "nat \<Rightarrow> nat \<Rightarrow> data_chunk" where
  "be_bytes n v = rev (le_bytes n v)"

text \<open>The number of bytes of the minimal representation (\<open>byte_width\<close>; zero has none).\<close>

fun byte_width :: "nat \<Rightarrow> nat" where
  "byte_width v = (if v = 0 then 0 else Suc (byte_width (v div 256)))"

declare byte_width.simps [simp del]

section \<open>Lemmas on bytes\<close>

lemma unat_byte_less [simp]: "unat (b :: byte) < 256"
  using unsigned_less [of b] by simp

lemma unat_byte_le [simp]: "unat (b :: byte) \<le> 255"
  using unat_byte_less [of b] by linarith

lemma unat_word_of_byte [simp]: "unat (word_of_nat (v mod 256) :: byte) = v mod 256"
  by (simp add: unat_of_nat)

lemma length_le_bytes [simp]: "length (le_bytes n v) = n"
  by (induction n arbitrary: v) auto

lemma length_be_bytes [simp]: "length (be_bytes n v) = n"
  by (simp add: be_bytes_def)

lemma le_value_bound: "le_value bs < 256 ^ length bs"
proof (induction bs)
  case Nil
  then show ?case by simp
next
  case (Cons b bs)
  have "le_value (b # bs) \<le> 255 + 256 * le_value bs" by simp
  also have "\<dots> < 256 * (le_value bs + 1)" by simp
  also have "\<dots> \<le> 256 * 256 ^ length bs" using Cons.IH by (simp add: Suc_le_eq)
  finally show ?case by simp
qed

lemma le_value_le_bytes: "le_value (le_bytes n v) = v mod 256 ^ n"
proof (induction n arbitrary: v)
  case 0
  then show ?case by simp
next
  case (Suc n)
  have "le_value (le_bytes (Suc n) v) = v mod 256 + 256 * (v div 256 mod 256 ^ n)"
    using Suc.IH [of "v div 256"] by simp
  also have "\<dots> = v mod (256 * 256 ^ n)"
    by (simp add: mod_mult2_eq)
  finally show ?case by simp
qed

lemma le_value_le_bytes_id: "v < 256 ^ n \<Longrightarrow> le_value (le_bytes n v) = v"
  by (simp add: le_value_le_bytes)

lemma le_bytes_le_value: "le_bytes (length bs) (le_value bs) = bs"
  by (induction bs) simp_all

lemma le_bytes_inject:
  "v < 256 ^ n \<Longrightarrow> w < 256 ^ n \<Longrightarrow> le_bytes n v = le_bytes n w \<longleftrightarrow> v = w"
  by (metis le_value_le_bytes_id)

lemma le_value_append: "le_value (xs @ ys) = le_value xs + 256 ^ length xs * le_value ys"
  by (induction xs) (auto simp: algebra_simps)

lemma le_value_replicate_zero [simp]: "le_value (replicate n 0) = 0"
  by (induction n) auto

lemma le_value_zero_iff: "le_value bs = 0 \<longleftrightarrow> (\<forall>b \<in> set bs. b = 0)"
  by (induction bs) (auto simp: unat_eq_0)

lemma be_value_be_bytes: "be_value (be_bytes n v) = v mod 256 ^ n"
  by (simp add: be_value_def be_bytes_def le_value_le_bytes)

lemma be_bytes_be_value: "be_bytes (length bs) (be_value bs) = bs"
  by (metis be_bytes_def be_value_def le_bytes_le_value length_rev rev_rev_ident)

lemma byte_width_zero [simp]: "byte_width 0 = 0"
  by (simp add: byte_width.simps)

lemma byte_width_pos: "0 < v \<Longrightarrow> byte_width v = Suc (byte_width (v div 256))"
  by (simp add: byte_width.simps)

lemma byte_width_eq_zero [simp]: "byte_width v = 0 \<longleftrightarrow> v = 0"
  by (cases "v = 0") (simp_all add: byte_width_pos)

lemma less_byte_width: "v < 256 ^ byte_width v"
proof (induction v rule: byte_width.induct)
  case (1 v)
  show ?case
  proof (cases "v = 0")
    case False
    with 1 have "v div 256 < 256 ^ byte_width (v div 256)" by simp
    then have "v < 256 * 256 ^ byte_width (v div 256)" by (simp add: div_less_iff_less_mult mult.commute)
    with False show ?thesis by (simp add: byte_width_pos)
  qed simp
qed

lemma byte_width_le_iff: "byte_width v \<le> n \<longleftrightarrow> v < 256 ^ n"
proof (induction n arbitrary: v)
  case 0
  then show ?case by simp
next
  case (Suc n)
  show ?case
  proof (cases "v = 0")
    case False
    then have "byte_width v \<le> Suc n \<longleftrightarrow> v div 256 < 256 ^ n"
      by (simp add: byte_width_pos Suc.IH)
    also have "\<dots> \<longleftrightarrow> v < 256 ^ Suc n" by (simp add: div_less_iff_less_mult mult.commute)
    finally show ?thesis .
  qed simp
qed

lemma byte_width_ge_iff: "n < byte_width v \<longleftrightarrow> 256 ^ n \<le> v"
  using byte_width_le_iff [of v n] by linarith

section \<open>Lemmas on lists\<close>

lemma take_drop_append_eq: "drop p xs = ys @ zs \<Longrightarrow> take (length ys) (drop p xs) = ys"
  by simp

lemma drop_add_append: "drop p xs = ys @ zs \<Longrightarrow> drop (p + length ys) xs = zs"
  by (metis add.commute append_eq_conv_conj drop_drop)

lemma length_ge_of_drop: "drop p xs = ys \<Longrightarrow> p \<le> length xs \<Longrightarrow> length xs = p + length ys"
  by (metis add_diff_inverse_nat length_drop linorder_not_le)

end
