(* ===== verification/Streams.thy ===== *)
theory Streams
  imports Prelude
begin

text \<open>
  The byte streams of the library: the reader \<open>byte_reader\<close> over the in-memory stream
  \<open>istream\<close> (files \<open>impl/stream/streamers/byte_reader.ipp\<close> and
  \<open>impl/stream/iostream/istream.ipp\<close>), and what \<open>byte_writer\<close> appends to a sink.

  A reader is the record of its stream (buffer, position, state) and its own read limit
  (\<open>remaining_\<close>). Every operation returns the updated reader. As in the code a failed
  operation leaves the stream in its error state, a limited read moves nothing and a short
  read moves to the end of the buffer. A writer appends, so a write is the list of bytes
  written.
\<close>

section \<open>The reader\<close>

record reader =
  rbuf :: data_chunk
  rpos :: nat
  rgood :: bool
  rlimit :: u64

abbreviation remaining :: "reader \<Rightarrow> nat" where
  "remaining r \<equiv> unat (rlimit r)"

definition reader_of :: "data_chunk \<Rightarrow> reader" where
  "reader_of bs = \<lparr>rbuf = bs, rpos = 0, rgood = True, rlimit = word_of_nat max_size_t\<rparr>"

definition ceilinged_add :: "nat \<Rightarrow> nat \<Rightarrow> nat" where
  "ceilinged_add a b = (if a + b > max_size_t then max_size_t else a + b)"

definition ceilinged_multiply :: "nat \<Rightarrow> nat \<Rightarrow> nat" where
  "ceilinged_multiply a b = (if a * b > max_size_t then max_size_t else a * b)"

definition ceilinged_divide :: "nat \<Rightarrow> nat \<Rightarrow> nat" where
  "ceilinged_divide a b = a div b + (if a mod b = 0 then 0 else 1)"

definition floored_subtract :: "'a::{minus,zero,ord} \<Rightarrow> 'a \<Rightarrow> 'a" where
  "floored_subtract a b = (if a < b then 0 else a - b)"

definition invalidate :: "reader \<Rightarrow> reader" where
  "invalidate r = r\<lparr>rgood := False\<rparr>"

definition clear_state :: "reader \<Rightarrow> reader" where
  "clear_state r = r\<lparr>rgood := True\<rparr>"

definition get_read_position :: "reader \<Rightarrow> nat" where
  "get_read_position r = rpos r"

definition set_limit :: "nat \<Rightarrow> reader \<Rightarrow> reader" where
  "set_limit n r = r\<lparr>rlimit := word_of_nat n\<rparr>"

definition get_exhausted :: "reader \<Rightarrow> bool" where
  "get_exhausted r \<longleftrightarrow> (if remaining r = 0 then True else if \<not> rgood r then True
     else length (rbuf r) \<le> rpos r)"

definition limiter :: "nat \<Rightarrow> reader \<Rightarrow> bool \<times> reader" where
  "limiter sz r = (if sz > remaining r then (True, invalidate r)
     else (False, r\<lparr>rlimit := rlimit r - word_of_nat sz\<rparr>))"

text \<open>\<open>istream::read\<close> into a zero-filled buffer of \<open>sz\<close> bytes.\<close>

definition istream_read :: "nat \<Rightarrow> reader \<Rightarrow> data_chunk \<times> reader" where
  "istream_read sz r =
     (if \<not> rgood r then (replicate sz 0, r)
      else let available = length (rbuf r) - rpos r in
        if sz > available
        then (drop (rpos r) (rbuf r) @ replicate (sz - available) 0,
              r\<lparr>rpos := length (rbuf r), rgood := False\<rparr>)
        else (take sz (drop (rpos r) (rbuf r)), r\<lparr>rpos := rpos r + sz\<rparr>))"

definition do_read_bytes :: "nat \<Rightarrow> reader \<Rightarrow> data_chunk \<times> reader" where
  "do_read_bytes sz r = (case limiter sz r of
       (True, r') \<Rightarrow> (replicate sz 0, r')
     | (False, r') \<Rightarrow> istream_read sz r')"

text \<open>\<open>istream::seekg\<close> relative to the current position, forwards and backwards; a zero
  offset is a no-op (\<open>byte_reader::seeker\<close>).\<close>

definition seek_forward :: "nat \<Rightarrow> reader \<Rightarrow> reader" where
  "seek_forward n r = (if n = 0 then r else if \<not> rgood r then r
     else if n > length (rbuf r) - rpos r then invalidate r else r\<lparr>rpos := rpos r + n\<rparr>)"

definition seek_backward :: "nat \<Rightarrow> reader \<Rightarrow> reader" where
  "seek_backward n r = (if n = 0 then r else if \<not> rgood r then r
     else if n > rpos r then invalidate r else r\<lparr>rpos := rpos r - n\<rparr>)"

definition skip_bytes :: "nat \<Rightarrow> reader \<Rightarrow> reader" where
  "skip_bytes sz r = (case limiter sz r of (True, r') \<Rightarrow> r' | (False, r') \<Rightarrow> seek_forward sz r')"

definition rewind_bytes :: "nat \<Rightarrow> reader \<Rightarrow> reader" where
  "rewind_bytes sz r = seek_backward sz (r\<lparr>rlimit := word_of_nat (ceilinged_add (remaining r) sz)\<rparr>)"

definition set_position :: "nat \<Rightarrow> reader \<Rightarrow> reader" where
  "set_position absolute r =
     (let r' = clear_state r; position = get_read_position r' in
      if absolute = position then r'
      else if absolute > position then skip_bytes (absolute - position) r'
      else rewind_bytes (position - absolute) r')"

definition read_byte :: "reader \<Rightarrow> byte \<times> reader" where
  "read_byte r = (case do_read_bytes 1 r of (bs, r') \<Rightarrow> (hd bs, r'))"

definition peek_byte :: "reader \<Rightarrow> byte \<times> reader" where
  "peek_byte r = (if remaining r = 0 then (0, invalidate r)
     else if \<not> rgood r \<or> length (rbuf r) \<le> rpos r then (0, invalidate r)
     else (rbuf r ! rpos r, r))"

definition read_little_endian :: "nat \<Rightarrow> reader \<Rightarrow> nat \<times> reader" where
  "read_little_endian sz r = (case do_read_bytes sz r of (bs, r') \<Rightarrow> (le_value bs, r'))"

definition read_big_endian :: "nat \<Rightarrow> reader \<Rightarrow> nat \<times> reader" where
  "read_big_endian sz r = (case do_read_bytes sz r of (bs, r') \<Rightarrow> (be_value bs, r'))"

definition varint_two_bytes :: byte where "varint_two_bytes = 0xfd"
definition varint_four_bytes :: byte where "varint_four_bytes = 0xfe"
definition varint_eight_bytes :: byte where "varint_eight_bytes = 0xff"

definition read_variable :: "reader \<Rightarrow> nat \<times> reader" where
  "read_variable r =
     (case read_byte r of (sz, r1) \<Rightarrow>
        if sz = varint_eight_bytes then
          (case read_little_endian 8 r1 of (v, r2) \<Rightarrow>
             if v > max_uint32 then (v, r2) else (0, invalidate r2))
        else if sz = varint_four_bytes then
          (case read_little_endian 4 r1 of (v, r2) \<Rightarrow>
             if v > max_uint16 then (v, r2) else (0, invalidate r2))
        else if sz = varint_two_bytes then
          (case read_little_endian 2 r1 of (v, r2) \<Rightarrow>
             if v \<ge> unat varint_two_bytes then (v, r2) else (0, invalidate r2))
        else (unat sz, r1))"

definition read_size :: "nat \<Rightarrow> reader \<Rightarrow> nat \<times> reader" where
  "read_size limit r = (case read_variable r of (sz, r') \<Rightarrow>
     if sz > limit then (0, invalidate r') else (sz, r'))"

definition read_bytes :: "nat \<Rightarrow> reader \<Rightarrow> data_chunk \<times> reader" where
  "read_bytes sz r = (if sz = 0 then ([], r) else if \<not> rgood r then ([], r)
     else do_read_bytes sz r)"

text \<open>The counting loop of \<open>read_bytes()\<close>: skip byte by byte until exhausted.\<close>

function count_bytes :: "nat \<Rightarrow> reader \<Rightarrow> nat \<times> reader" where
  "count_bytes sz r = (if get_exhausted r then (sz, r)
     else count_bytes (Suc sz) (skip_bytes 1 r))"
  by pat_completeness auto
termination
  by (relation "measure (\<lambda>(sz, r). length (rbuf r) - rpos r)")
    (auto simp: get_exhausted_def skip_bytes_def limiter_def seek_forward_def split: if_splits)

declare count_bytes.simps [simp del]

definition read_all_bytes :: "reader \<Rightarrow> data_chunk \<times> reader" where
  "read_all_bytes r = (case count_bytes 0 r of (sz, r') \<Rightarrow> read_bytes sz (rewind_bytes sz r'))"

definition read_hash :: "reader \<Rightarrow> hash_digest \<times> reader" where
  "read_hash r = do_read_bytes 32 r"

section \<open>The writer\<close>

definition write_byte :: "byte \<Rightarrow> data_chunk" where
  "write_byte b = [b]"

definition write_little_endian :: "nat \<Rightarrow> nat \<Rightarrow> data_chunk" where
  "write_little_endian sz v = le_bytes sz v"

definition write_variable :: "nat \<Rightarrow> data_chunk" where
  "write_variable v =
     (if v < unat varint_two_bytes then write_byte (word_of_nat v)
      else if v \<le> max_uint16 then write_byte varint_two_bytes @ write_little_endian 2 v
      else if v \<le> max_uint32 then write_byte varint_four_bytes @ write_little_endian 4 v
      else write_byte varint_eight_bytes @ write_little_endian 8 v)"

definition variable_size :: "nat \<Rightarrow> nat" where
  "variable_size v = (if v < unat varint_two_bytes then 1 else if v \<le> max_uint16 then 1 + 2
     else if v \<le> max_uint32 then 1 + 4 else 1 + 8)"

section \<open>Reading what was written\<close>

text \<open>
  \<open>feeds r bs\<close>: the stream is good and its next bytes, within the limit, are \<open>bs\<close>.
  \<open>advance n r\<close>: the reader after \<open>n\<close> bytes were read.
\<close>

definition feeds :: "reader \<Rightarrow> data_chunk \<Rightarrow> bool" where
  "feeds r bs \<longleftrightarrow> rgood r \<and> rpos r \<le> length (rbuf r) \<and>
     length bs \<le> remaining r \<and> take (length bs) (drop (rpos r) (rbuf r)) = bs"

definition advance :: "nat \<Rightarrow> reader \<Rightarrow> reader" where
  "advance n r = r\<lparr>rpos := rpos r + n, rlimit := rlimit r - word_of_nat n\<rparr>"


lemma advance_add [simp]: "advance n (advance m r) = advance (m + n) r"
  by (simp add: advance_def)

lemma advance_zero [simp]: "advance 0 r = r"
  by (simp add: advance_def)

lemma advance_sel [simp]:
  "rbuf (advance n r) = rbuf r" "rpos (advance n r) = rpos r + n"
  "rgood (advance n r) = rgood r"
  by (simp_all add: advance_def)

lemma unat_sub_nat: "n \<le> unat w \<Longrightarrow> unat (w - word_of_nat n :: u64) = unat w - n"
  by (metis le_unat_uoi unat_sub word_le_nat_alt)

lemma remaining_advance [simp]: "n \<le> remaining r \<Longrightarrow> remaining (advance n r) = remaining r - n"
  by (simp add: advance_def unat_sub_nat)

lemma unat_of_nat_u64: "n \<le> max_size_t \<Longrightarrow> unat (word_of_nat n :: u64) = n"
  by (simp add: unat_of_nat max_size_t_def)

lemma remaining_le_max: "remaining r \<le> max_size_t"
proof -
  have "remaining r < 2 ^ LENGTH(64)" by (rule unsigned_less)
  then show ?thesis by (simp add: max_size_t_def)
qed

lemma feedsI:
  "rgood r \<Longrightarrow> rpos r \<le> length (rbuf r) \<Longrightarrow>
   length bs \<le> remaining r \<Longrightarrow> drop (rpos r) (rbuf r) = bs @ rest \<Longrightarrow> feeds r bs"
  by (simp add: feeds_def)

lemma feeds_rgood [simp, dest]: "feeds r bs \<Longrightarrow> rgood r"
  by (simp add: feeds_def)

lemma feeds_remaining: "feeds r bs \<Longrightarrow> length bs \<le> remaining r"
  by (simp add: feeds_def)

lemma feeds_length: "feeds r bs \<Longrightarrow> rpos r + length bs \<le> length (rbuf r)"
proof -
  assume f: "feeds r bs"
  then have "length (take (length bs) (drop (rpos r) (rbuf r))) = length bs"
    by (simp add: feeds_def)
  then have "length bs \<le> length (rbuf r) - rpos r" by simp
  moreover have "rpos r \<le> length (rbuf r)" using f by (simp add: feeds_def)
  ultimately show ?thesis by linarith
qed

lemma feeds_append:
  "feeds r (xs @ ys) \<longleftrightarrow> feeds r xs \<and> feeds (advance (length xs) r) ys"
proof
  assume f: "feeds r (xs @ ys)"
  have t: "take (length xs + length ys) (drop (rpos r) (rbuf r)) = xs @ ys"
    using f by (simp add: feeds_def)
  have x: "take (length xs) (drop (rpos r) (rbuf r)) = xs"
    using arg_cong [OF t, of "take (length xs)"] by simp
  have y: "take (length ys) (drop (rpos r + length xs) (rbuf r)) = ys"
    using arg_cong [OF t, of "drop (length xs)"] by (simp add: drop_take add.commute)
  from feeds_length [OF f] f x y show "feeds r xs \<and> feeds (advance (length xs) r) ys"
    by (auto simp: feeds_def)
next
  assume f: "feeds r xs \<and> feeds (advance (length xs) r) ys"
  then have "take (length xs + length ys) (drop (rpos r) (rbuf r)) = xs @ ys"
    by (simp add: feeds_def take_add drop_drop add.commute)
  with f show "feeds r (xs @ ys)" by (auto simp: feeds_def)
qed

lemma feeds_Cons: "feeds r (x # xs) \<longleftrightarrow> feeds r [x] \<and> feeds (advance 1 r) xs"
  using feeds_append [of r "[x]" xs] by simp

lemma feeds_tl [dest]: "feeds r (x # xs) \<Longrightarrow> feeds (advance (Suc 0) r) xs"
  using feeds_append [of r "[x]" xs] by simp

lemma feeds_prefix: "feeds r (xs @ ys) \<Longrightarrow> feeds r xs"
  by (simp add: feeds_append)

lemma do_read_bytes_feeds [reader_simps]:
  assumes "feeds r bs" "length bs = n"
  shows "do_read_bytes n r = (bs, advance n r)"
  using assms feeds_length [OF assms(1)]
  by (auto simp: do_read_bytes_def limiter_def istream_read_def feeds_def advance_def Let_def)

lemma read_byte_feeds [reader_simps]: "feeds r (b # bs) \<Longrightarrow> read_byte r = (b, advance 1 r)"
  using feeds_append [of r "[b]" bs] do_read_bytes_feeds [of r "[b]" 1] by (simp add: read_byte_def)

lemma read_little_endian_feeds [reader_simps]:
  "feeds r (le_bytes n v) \<Longrightarrow> v < 256 ^ n \<Longrightarrow> read_little_endian n r = (v, advance n r)"
  by (simp add: read_little_endian_def do_read_bytes_feeds le_value_le_bytes_id)

lemma read_bytes_feeds [reader_simps]:
  "feeds r bs \<Longrightarrow> length bs = n \<Longrightarrow> read_bytes n r = (bs, advance n r)"
  by (auto simp: read_bytes_def do_read_bytes_feeds)

lemma read_hash_feeds [reader_simps]:
  "feeds r bs \<Longrightarrow> length bs = 32 \<Longrightarrow> read_hash r = (bs, advance 32 r)"
  by (simp add: read_hash_def do_read_bytes_feeds)

lemma skip_bytes_feeds [reader_simps]:
  "feeds r bs \<Longrightarrow> length bs = n \<Longrightarrow> skip_bytes n r = advance n r"
  using feeds_length [of r bs]
  by (auto simp: skip_bytes_def limiter_def seek_forward_def feeds_def advance_def)

lemmas varint_simps = varint_two_bytes_def varint_four_bytes_def varint_eight_bytes_def

lemma length_write_variable [size_simps]: "length (write_variable v) = variable_size v"
  by (simp add: write_variable_def variable_size_def write_byte_def write_little_endian_def)

lemma read_variable_feeds [reader_simps]:
  assumes "feeds r (write_variable v)" "v \<le> max_uint64"
  shows "read_variable r = (v, advance (variable_size v) r)"
proof -
  consider "v < 253" | "253 \<le> v" "v \<le> max_uint16" | "max_uint16 < v" "v \<le> max_uint32" | "max_uint32 < v"
    by linarith
  then show ?thesis
  proof cases
    case 1
    then have s: "unat (word_of_nat v :: byte) = v"
      by (simp add: unat_of_nat)
    have big: "(word_of_nat v :: byte) \<noteq> b" if "253 \<le> unat b" for b :: byte
      using 1 s that by auto
    have "(word_of_nat v :: byte) \<noteq> 0xff" "(word_of_nat v :: byte) \<noteq> 0xfe"
      "(word_of_nat v :: byte) \<noteq> 0xfd"
      by (rule big, simp)+
    with 1 s assms show ?thesis
      by (simp add: read_variable_def write_variable_def write_byte_def variable_size_def
          varint_simps read_byte_feeds)
  next
    case 2
    then have w: "write_variable v = 0xfd # le_bytes 2 v" and b: "v < 256 ^ 2"
      using assms(2)
      by (simp_all add: write_variable_def write_byte_def write_little_endian_def varint_simps limits)
    from assms(1) w have "feeds r (0xfd # le_bytes 2 v)" by simp
    from this feeds_tl [OF this] 2 b show ?thesis
      by (simp add: read_variable_def variable_size_def varint_simps read_byte_feeds
          read_little_endian_feeds limits)
  next
    case 3
    then have w: "write_variable v = 0xfe # le_bytes 4 v" and b: "v < 256 ^ 4"
      using assms(2)
      by (simp_all add: write_variable_def write_byte_def write_little_endian_def varint_simps limits)
    from assms(1) w have "feeds r (0xfe # le_bytes 4 v)" by simp
    from this feeds_tl [OF this] 3 b show ?thesis
      by (simp add: read_variable_def variable_size_def varint_simps read_byte_feeds
          read_little_endian_feeds limits)
  next
    case 4
    then have w: "write_variable v = 0xff # le_bytes 8 v" and b: "v < 256 ^ 8"
      using assms(2)
      by (simp_all add: write_variable_def write_byte_def write_little_endian_def varint_simps limits)
    from assms(1) w have "feeds r (0xff # le_bytes 8 v)" by simp
    from this feeds_tl [OF this] 4 b show ?thesis
      by (simp add: read_variable_def variable_size_def varint_simps read_byte_feeds
          read_little_endian_feeds limits)
  qed
qed

lemma read_size_feeds [reader_simps]:
  "feeds r (write_variable v) \<Longrightarrow> v \<le> limit \<Longrightarrow> v \<le> max_uint64 \<Longrightarrow>
   read_size limit r = (v, advance (variable_size v) r)"
  by (simp add: read_size_def read_variable_feeds)

lemma feeds_reader_of: "length bs \<le> max_size_t \<Longrightarrow> feeds (reader_of bs) bs"
  by (simp add: feeds_def reader_of_def unat_of_nat limits)

section \<open>The window of a reader\<close>

text \<open>
  What a reader can still deliver: the bytes up to its limit or the end of the stream. A read
  within the window succeeds; a longer one fails, either at the limit (nothing moves) or at the
  end of the stream (the position moves to the end). \<open>lost r s\<close> says that \<open>s\<close> is such a failed
  descendant of \<open>r\<close>, from which \<open>set_position\<close> recovers \<open>r\<close> with the same window.
\<close>

definition window :: "reader \<Rightarrow> data_chunk" where
  "window r = take (remaining r) (drop (rpos r) (rbuf r))"

definition ready :: "reader \<Rightarrow> bool" where
  "ready r \<longleftrightarrow> rgood r \<and> rpos r \<le> length (rbuf r)"

definition lost :: "reader \<Rightarrow> reader \<Rightarrow> bool" where
  "lost r s \<longleftrightarrow> rbuf s = rbuf r \<and> rpos r \<le> rpos s \<and> rpos s \<le> length (rbuf r) \<and>
     length (window r) \<le> remaining s + (rpos s - rpos r) \<and>
     remaining s + (rpos s - rpos r) \<le> remaining r"

lemma length_window: "length (window r) = min (remaining r) (length (rbuf r) - rpos r)"
  by (simp add: window_def min_def)

lemma window_le: "length (window r) \<le> remaining r" "length (window r) \<le> length (rbuf r) - rpos r"
  by (simp_all add: length_window)

lemma feeds_window: "ready r \<Longrightarrow> feeds r (window r)"
  by (auto simp: ready_def feeds_def window_def min_def)

lemma feeds_iff_window: "feeds r bs \<longleftrightarrow> ready r \<and> (\<exists>rest. window r = bs @ rest)"
proof
  assume f: "feeds r bs"
  then have "take (length bs) (window r) = bs" by (simp add: feeds_def window_def min_def)
  then have "window r = bs @ drop (length bs) (window r)" by (metis append_take_drop_id)
  with f show "ready r \<and> (\<exists>rest. window r = bs @ rest)" by (auto simp: feeds_def ready_def)
next
  assume "ready r \<and> (\<exists>rest. window r = bs @ rest)"
  then show "feeds r bs" by (metis feeds_prefix feeds_window)
qed

lemma window_advance: "n \<le> length (window r) \<Longrightarrow> window (advance n r) = drop n (window r)"
  using window_le [of r] by (simp add: window_def drop_take add.commute)

lemma ready_advance: "ready r \<Longrightarrow> n \<le> length (window r) \<Longrightarrow> ready (advance n r)"
  using window_le [of r] by (auto simp: ready_def)

lemma get_exhausted_window: "ready r \<Longrightarrow> get_exhausted r \<longleftrightarrow> window r = []"
  by (auto simp: get_exhausted_def window_def ready_def)

lemma not_exhausted_ready: "\<not> get_exhausted r \<Longrightarrow> ready r \<and> window r \<noteq> []"
  by (auto simp: get_exhausted_def window_def ready_def split: if_splits)

lemma do_read_bytes_window:
  "ready r \<Longrightarrow> n \<le> length (window r) \<Longrightarrow> do_read_bytes n r = (take n (window r), advance n r)"
  using feeds_window [of r] feeds_append [of r "take n (window r)" "drop n (window r)"]
  by (simp add: do_read_bytes_feeds)

lemma skip_bytes_window:
  "ready r \<Longrightarrow> n \<le> length (window r) \<Longrightarrow> skip_bytes n r = advance n r"
  using feeds_window [of r] feeds_append [of r "take n (window r)" "drop n (window r)"]
  by (simp add: skip_bytes_feeds [of r "take n (window r)"])

lemma lost_refl: "ready r \<Longrightarrow> lost r r"
  using window_le [of r] by (simp add: lost_def ready_def)

lemma lost_rgood [simp]: "lost r (s\<lparr>rgood := b\<rparr>) \<longleftrightarrow> lost r s"
  by (simp add: lost_def)

lemma lost_invalidate [simp]: "lost r (invalidate s) \<longleftrightarrow> lost r s"
  by (simp add: invalidate_def)

lemma lost_advance:
  "ready r \<Longrightarrow> n \<le> length (window r) \<Longrightarrow> lost (advance n r) s \<Longrightarrow> lost r s"
  using window_le [of r] by (auto simp: lost_def window_advance)

lemma do_read_bytes_short:
  assumes "ready r" "length (window r) < n" "do_read_bytes n r = (d, s)"
  shows "\<not> rgood s" "lost r s" "length d = n"
    "rpos r + remaining r \<le> length (rbuf r) \<Longrightarrow> d = replicate n 0 \<and> s = invalidate r"
proof -
  have "n > remaining r \<or> (n \<le> remaining r \<and> n > length (rbuf r) - rpos r)"
    using assms(2) by (auto simp: length_window)
  then show "\<not> rgood s" "lost r s" "length d = n"
    "rpos r + remaining r \<le> length (rbuf r) \<Longrightarrow> d = replicate n 0 \<and> s = invalidate r"
    using assms(1,3) lost_refl [OF assms(1)] unat_sub_nat [of n "rlimit r"]
    by (auto simp: do_read_bytes_def limiter_def istream_read_def ready_def Let_def lost_def
        length_window invalidate_def)
qed

lemma set_position_lost:
  assumes "ready r" "lost r s"
  obtains l where "set_position (rpos r) s = r\<lparr>rlimit := l\<rparr>" "length (window r) \<le> unat l"
    "unat l \<le> remaining r"
proof -
  define k where "k = rpos s - rpos r"
  have le: "remaining s + k \<le> max_size_t"
    using assms(2) remaining_le_max [of r] unfolding lost_def k_def by linarith
  let ?l = "word_of_nat (remaining s + k) :: u64"
  have l: "unat ?l = remaining s + k" using le by (rule unat_of_nat_u64)
  have eq: "set_position (rpos r) s = r\<lparr>rlimit := ?l\<rparr>"
    using assms le
    by (cases r, cases s)
      (auto simp: set_position_def clear_state_def get_read_position_def lost_def k_def Let_def
        rewind_bytes_def seek_backward_def ceilinged_add_def ready_def)
  show thesis
    by (rule that [OF eq]; unfold l; use assms(2) in \<open>simp only: lost_def k_def\<close>)
qed

lemma window_rlimit:
  "length (window r) \<le> unat l \<Longrightarrow> unat l \<le> remaining r \<Longrightarrow> window (r\<lparr>rlimit := l\<rparr>) = window r"
  by (auto simp: window_def min_def split: if_splits)

lemma count_bytes_window:
  "ready r \<Longrightarrow> count_bytes k r = (k + length (window r), advance (length (window r)) r)"
proof (induction k r rule: count_bytes.induct)
  case (1 k r)
  show ?case
  proof (cases "get_exhausted r")
    case True
    then show ?thesis using "1.prems" by (simp add: count_bytes.simps get_exhausted_window)
  next
    case False
    then have w: "1 \<le> length (window r)" using not_exhausted_ready [of r] by (simp add: Suc_le_eq)
    then have "skip_bytes 1 r = advance 1 r" "ready (advance 1 r)"
      "window (advance 1 r) = drop 1 (window r)"
      using "1.prems" by (auto simp only: skip_bytes_window ready_advance window_advance)
    then show ?thesis using False "1.IH" w
      by (cases "length (window r)") (simp_all add: count_bytes.simps [of k r])
  qed
qed

lemma read_all_bytes_window:
  assumes "ready r"
  shows "read_all_bytes r = (window r, advance (length (window r)) r)"
proof -
  let ?n = "length (window r)"
  have n: "?n \<le> remaining r" "?n \<le> length (rbuf r) - rpos r" by (rule window_le)+
  have "rewind_bytes ?n (advance ?n r) = r"
    using assms n remaining_le_max [of r]
    by (cases r) (auto simp: rewind_bytes_def seek_backward_def ready_def ceilinged_add_def advance_def
        unat_sub_nat)
  then have "read_all_bytes r = read_bytes ?n r"
    by (simp add: read_all_bytes_def count_bytes_window [OF assms])
  also have "\<dots> = (window r, advance ?n r)"
    using feeds_window [OF assms] by (simp add: read_bytes_feeds)
  finally show ?thesis .
qed

section \<open>Properties\<close>

text \<open>
  Variable length integers: what \<open>write_variable\<close> writes for a 64 bit value has the length
  that \<open>variable_size\<close> announces, and \<open>read_size\<close> reads the value back from any position of any
  stream with that many bytes left, moving by that length; a value above the caller's limit
  invalidates the stream and reads as zero instead.
\<close>

theorem variable_roundtrip:
  assumes "feeds r (write_variable v)" "v \<le> max_uint64"
  shows "length (write_variable v) = variable_size v \<and>
    read_size limit r = (if v \<le> limit then (v, advance (variable_size v) r)
      else (0, invalidate (advance (variable_size v) r)))"
  using assms by (simp add: read_size_def read_variable_feeds length_write_variable)

theorem variable_roundtrip_witness:
  "read_size 1000 (reader_of (write_variable 300)) = (300, advance (variable_size 300) (reader_of (write_variable 300)))"
  using variable_roundtrip [of "reader_of (write_variable 300)" 300 1000]
    feeds_reader_of [of "write_variable 300"]
  by (simp add: length_write_variable limits) (simp add: variable_size_def)

end
