(* ===== verification/Number.thy ===== *)
theory Number
  imports Prelude
begin

text \<open>
  Script numbers (\<open>include/bitcoin/system/impl/machine/number_*.ipp\<close>): the conversions
  between the byte strings of the script stack, 64-bit integers and booleans. A negative number
  is its magnitude with the sign in the high bit of its last byte; a magnitude that already
  uses that bit gets one more byte.

  The signed C++ integers are modelled by \<open>int\<close>; the sizes (4 and 5 bytes in the
  interpreter) keep every intermediate value inside \<open>int64_t\<close>.
\<close>

section \<open>Bit widths and byte negation\<close>

fun bit_width :: "nat \<Rightarrow> nat" where
  "bit_width v = (if v = 0 then 0 else Suc (bit_width (v div 2)))"

declare bit_width.simps [simp del]

definition is_negated :: "nat \<Rightarrow> bool" where
  "is_negated v \<longleftrightarrow> v \<noteq> 0 \<and> bit_width v mod 8 + 1 = 1"

definition to_negated :: "byte \<Rightarrow> byte" where
  "to_negated b = b OR 0x80"

text \<open>\<open>to_unnegated\<close> clears the highest set bit, which carries the sign, and negates.\<close>

definition to_unnegated :: "nat \<Rightarrow> int" where
  "to_unnegated v = (if \<not> is_negated v then int v else - int (v - 2 ^ (bit_width v - 1)))"

definition positive_sign_byte :: byte where "positive_sign_byte = 0x00"
definition negative_sign_byte :: byte where "negative_sign_byte = 0x80"

section \<open>Integers\<close>

definition bitcoin_max :: "nat \<Rightarrow> int" where
  "bitcoin_max n = 2 ^ (8 * n - 1) - 1"

definition bitcoin_min :: "nat \<Rightarrow> int" where
  "bitcoin_min n = - bitcoin_max n"

definition integer_is_overflow :: "nat \<Rightarrow> int \<Rightarrow> bool" where
  "integer_is_overflow n v \<longleftrightarrow> v < bitcoin_min n \<or> v > bitcoin_max n"

text \<open>\<open>integer<n>::from_chunk\<close>: the success flag and the out parameter.\<close>

definition integer_from_chunk :: "nat \<Rightarrow> data_chunk \<Rightarrow> bool \<times> int" where
  "integer_from_chunk n vary =
     (if vary = [] then (True, 0)
      else if length vary > n then (False, 0)
      else let out = le_value vary in
        if is_negated (unat (last vary)) then (True, to_unnegated out) else (True, int out))"

definition chunk_from_bool :: "bool \<Rightarrow> data_chunk" where
  "chunk_from_bool vary = (if vary then [1] else [])"

definition chunk_from_integer :: "int \<Rightarrow> data_chunk" where
  "chunk_from_integer vary =
     (if vary = 0 then []
      else let value = nat \<bar>vary\<bar>; negated = is_negated value; negative = vary < 0;
               bytes = le_bytes (byte_width value) value
        in if negated \<and> negative then bytes @ [negative_sign_byte]
           else if negated then bytes @ [positive_sign_byte]
           else if negative then butlast bytes @ [to_negated (last bytes)]
           else bytes)"

section \<open>Booleans\<close>

definition boolean_from_integer :: "int \<Rightarrow> bool" where
  "boolean_from_integer vary \<longleftrightarrow> vary \<noteq> 0"

definition is_sign_byte :: "byte \<Rightarrow> bool" where
  "is_sign_byte b \<longleftrightarrow> b = positive_sign_byte \<or> b = negative_sign_byte"

definition boolean_from_chunk :: "data_chunk \<Rightarrow> bool" where
  "boolean_from_chunk vary =
     (if vary = [] then False else if \<not> is_sign_byte (last vary) then True
      else list_ex (\<lambda>b. b \<noteq> 0) (butlast vary))"

text \<open>The two-result variants report whether the boolean is minimally encoded.\<close>

definition boolean_from_integer_minimal :: "int \<Rightarrow> bool \<times> bool" where
  "boolean_from_integer_minimal vary = (vary = 0 \<or> vary = 1, vary \<noteq> 0)"

definition boolean_from_chunk_minimal :: "data_chunk \<Rightarrow> bool \<times> bool" where
  "boolean_from_chunk_minimal vary = (if vary = [] then (True, False)
     else (length vary = 1 \<and> hd vary = 1, boolean_from_chunk vary))"

definition boolean_from_chunk_strict :: "data_chunk \<Rightarrow> bool" where
  "boolean_from_chunk_strict vary \<longleftrightarrow> vary \<noteq> []"

section \<open>Lemmas\<close>

lemma bit_width_zero [simp]: "bit_width 0 = 0"
  by (simp add: bit_width.simps)

lemma bit_width_pos: "0 < v \<Longrightarrow> bit_width v = Suc (bit_width (v div 2))"
  by (simp add: bit_width.simps)

lemma bit_width_le_iff: "bit_width v \<le> n \<longleftrightarrow> v < 2 ^ n"
proof (induction n arbitrary: v)
  case 0
  then show ?case by (cases "v = 0") (auto simp: bit_width_pos)
next
  case (Suc n)
  show ?case
  proof (cases "v = 0")
    case False
    then have "bit_width v \<le> Suc n \<longleftrightarrow> v div 2 < 2 ^ n" by (simp add: bit_width_pos Suc.IH)
    also have "\<dots> \<longleftrightarrow> v < 2 ^ Suc n" by (simp add: div_less_iff_less_mult mult.commute)
    finally show ?thesis .
  qed simp
qed

lemma bit_width_eqI: "2 ^ n \<le> v \<Longrightarrow> v < 2 ^ Suc n \<Longrightarrow> bit_width v = Suc n"
  using bit_width_le_iff [of v n] bit_width_le_iff [of v "Suc n"] by linarith

lemma pow_256: "(256 :: nat) ^ n = 2 ^ (8 * n)"
  by (simp add: power_mult)

text \<open>The value of a byte string by its last byte.\<close>

lemma le_value_snoc: "le_value (xs @ [b]) = le_value xs + 256 ^ length xs * unat b"
  by (simp add: le_value_append)

lemma bit_width_snoc:
  assumes "128 \<le> unat b"
  shows "bit_width (le_value (xs @ [b])) = 8 * Suc (length xs)"
proof -
  let ?n = "length xs"
  have "2 ^ (8 * ?n + 7) = (256 :: nat) ^ ?n * 128" by (simp add: pow_256 power_add)
  also have "\<dots> \<le> 256 ^ ?n * unat b" using assms by simp
  also have "\<dots> \<le> le_value (xs @ [b])" by (simp add: le_value_snoc)
  finally have "2 ^ (8 * ?n + 7) \<le> le_value (xs @ [b])" .
  moreover have "le_value (xs @ [b]) < 2 ^ Suc (8 * ?n + 7)"
    using le_value_bound [of "xs @ [b]"] by (simp add: pow_256 power_add)
  ultimately show ?thesis using bit_width_eqI by fastforce
qed

lemma bit_width_mod_snoc:
  assumes "0 < unat b" "unat b < 128"
  shows "bit_width (le_value (xs @ [b])) mod 8 \<noteq> 0"
proof -
  let ?n = "length xs" and ?w = "bit_width (le_value (xs @ [b]))"
  have "(256 :: nat) ^ ?n \<le> 256 ^ ?n * unat b" using assms by simp
  then have lo: "2 ^ (8 * ?n) \<le> le_value (xs @ [b])"
    by (simp add: le_value_snoc pow_256 [symmetric] trans_le_add2)
  have "le_value (xs @ [b]) < 256 ^ ?n + 256 ^ ?n * unat b"
    using le_value_bound [of xs] by (simp add: le_value_snoc)
  also have "\<dots> = 256 ^ ?n * Suc (unat b)" by simp
  also have "\<dots> \<le> 256 ^ ?n * 128" using assms by simp
  finally have hi: "le_value (xs @ [b]) < 2 ^ (8 * ?n + 7)" by (simp add: pow_256 power_add)
  from lo hi have "8 * ?n < ?w" "?w \<le> 8 * ?n + 7"
    using bit_width_le_iff [of "le_value (xs @ [b])"] by (simp_all add: not_le [symmetric])
  then show ?thesis by presburger
qed

lemma is_negated_snoc:
  "unat b \<noteq> 0 \<Longrightarrow> is_negated (le_value (xs @ [b])) \<longleftrightarrow> 128 \<le> unat b"
  using bit_width_snoc [of b xs] bit_width_mod_snoc [of b xs]
  by (cases "128 \<le> unat b") (auto simp: is_negated_def le_value_snoc)

lemma is_negated_byte: "is_negated (unat (b :: byte)) \<longleftrightarrow> 128 \<le> unat b"
  using is_negated_snoc [of b "[]"] by (cases "unat b = 0") (auto simp: is_negated_def)

lemma to_unnegated_snoc:
  assumes "128 \<le> unat b"
  shows "to_unnegated (le_value (xs @ [b])) =
    - int (le_value xs + 256 ^ length xs * (unat b - 128))"
proof -
  have "is_negated (le_value (xs @ [b]))" using assms is_negated_snoc by simp
  moreover have "le_value (xs @ [b]) - 2 ^ (8 * Suc (length xs) - 1) =
      le_value xs + 256 ^ length xs * (unat b - 128)"
    using assms by (simp add: le_value_snoc pow_256 power_add diff_mult_distrib2)
  ultimately show ?thesis using bit_width_snoc [OF assms, of xs]
    by (simp add: to_unnegated_def)
qed

lemma unat_to_negated: "unat b < 128 \<Longrightarrow> unat (to_negated b) = unat b + 128"
proof -
  assume b: "unat b < 128"
  have "b AND 0x80 = 0"
  proof (rule bit_word_eqI)
    fix n
    have "\<not> bit (unat b) 7" using b by (simp add: bit_iff_odd)
    then have "\<not> bit b 7" by (simp add: bit_unsigned_iff)
    moreover have "bit (0x80 :: byte) n \<longleftrightarrow> n = 7"
      using bit_exp_iff [of 7 n, where 'a = byte] by auto
    ultimately show "bit (b AND 0x80) n \<longleftrightarrow> bit 0 n"
      by (auto simp: bit_and_iff)
  qed
  then have "to_negated b = b + 0x80" by (simp add: to_negated_def disjunctive_add_eq_or)
  with b show ?thesis by (simp add: unat_word_ariths)
qed


text \<open>A chunk by its last byte: the number it encodes.\<close>

lemma integer_from_chunk_snoc:
  assumes "length xs < n"
  shows "integer_from_chunk n (xs @ [b]) = (True,
    if 128 \<le> unat b then - int (le_value xs + 256 ^ length xs * (unat b - 128))
    else int (le_value xs + 256 ^ length xs * unat b))"
  using assms to_unnegated_snoc [of b xs]
  by (simp add: integer_from_chunk_def is_negated_byte le_value_snoc)

lemma last_le_bytes:
  "0 < v \<Longrightarrow> \<exists>xs b. le_bytes (byte_width v) v = xs @ [b] \<and> unat b \<noteq> 0 \<and> length xs = byte_width v - 1"
proof -
  assume v: "0 < v"
  let ?w = "byte_width v"
  have ne: "le_bytes ?w v \<noteq> []" using v by (simp add: byte_width_pos)
  then obtain xs b where xb: "le_bytes ?w v = xs @ [b]" by (meson rev_exhaust)
  have len: "length xs = ?w - 1" using arg_cong [OF xb, of length] by simp
  have "le_value (xs @ [b]) = v" using less_byte_width [of v]
    by (simp add: xb [symmetric] le_value_le_bytes_id)
  moreover have "256 ^ (?w - 1) \<le> v"
    using v by (simp add: byte_width_ge_iff [symmetric] byte_width_pos)
  ultimately have "unat b \<noteq> 0"
    using le_value_bound [of xs] len by (intro notI) (simp add: le_value_snoc)
  with xb len show ?thesis by blast
qed

text \<open>Every number is encoded by a nonempty prefix and a last byte, in one of four shapes.\<close>

lemma chunk_from_integer_cases:
  assumes "v \<noteq> 0"
  obtains (plain) xs b where "chunk_from_integer v = xs @ [b]" "0 < unat b" "unat b < 128" "0 < v"
      "nat \<bar>v\<bar> = le_value xs + 256 ^ length xs * unat b"
    | (signed) xs b where "chunk_from_integer v = xs @ [to_negated b]" "0 < unat b" "unat b < 128"
      "v < 0" "nat \<bar>v\<bar> = le_value xs + 256 ^ length xs * unat b"
    | (extended) xs b s where "chunk_from_integer v = xs @ [b, s]" "128 \<le> unat b"
      "s = (if v < 0 then 0x80 else 0)" "nat \<bar>v\<bar> = le_value (xs @ [b])"
proof -
  define a where "a = nat \<bar>v\<bar>"
  have a: "0 < a" using assms by (simp add: a_def)
  obtain xs b where xb: "le_bytes (byte_width a) a = xs @ [b]" and b: "unat b \<noteq> 0"
    using last_le_bytes [OF a] by blast
  have val: "le_value (xs @ [b]) = a" using less_byte_width [of a]
    by (simp add: xb [symmetric] le_value_le_bytes_id)
  have neg: "is_negated a \<longleftrightarrow> 128 \<le> unat b" using is_negated_snoc [OF b, of xs] val by simp
  have cfi: "chunk_from_integer v = (if is_negated a then (xs @ [b]) @ [if v < 0 then 0x80 else 0]
      else if v < 0 then xs @ [to_negated b] else xs @ [b])"
    using assms xb
    by (auto simp: chunk_from_integer_def a_def Let_def negative_sign_byte_def positive_sign_byte_def)
  consider "128 \<le> unat b" | "unat b < 128" "v < 0" | "unat b < 128" "0 < v"
    using assms by linarith
  then show thesis
  proof cases
    case 1
    then show thesis using neg cfi val by (intro extended [of xs b]) (auto simp: a_def)
  next
    case 2
    then show thesis using neg cfi val b by (intro signed [of xs b]) (auto simp: a_def le_value_snoc)
  next
    case 3
    then show thesis using neg cfi val b by (intro plain [of xs b]) (auto simp: a_def le_value_snoc)
  qed
qed

text \<open>The number of bytes that the two kinds of last byte stand for.\<close>

lemma plain_bounds:
  assumes "a = le_value xs + 256 ^ length xs * unat b" "0 < unat b" "unat b < 128"
  shows "2 ^ (8 * length xs) \<le> a" "a < 2 ^ (8 * length xs + 7)"
proof -
  show "2 ^ (8 * length xs) \<le> a" using assms by (simp add: pow_256 trans_le_add2)
  have "a < 256 ^ length xs * Suc (unat b)" using assms le_value_bound [of xs] by simp
  also have "\<dots> \<le> 256 ^ length xs * 128" using assms by simp
  finally show "a < 2 ^ (8 * length xs + 7)" by (simp add: pow_256 power_add)
qed

lemma extended_bounds:
  assumes "a = le_value (xs @ [b])" "128 \<le> unat b"
  shows "2 ^ (8 * length xs + 7) \<le> a" "a < 2 ^ (8 * length xs + 8)"
proof -
  have "2 ^ (8 * length xs + 7) = (256 :: nat) ^ length xs * 128" by (simp add: pow_256 power_add)
  also have "\<dots> \<le> a" using assms by (simp add: le_value_snoc trans_le_add2)
  finally show "2 ^ (8 * length xs + 7) \<le> a" .
  show "a < 2 ^ (8 * length xs + 8)"
    using assms le_value_bound [of "xs @ [b]"] by (simp add: pow_256 power_add)
qed

lemma between_powers:
  assumes "2 ^ i \<le> a" "a < 2 ^ j" "\<And>m. i < 8 * m - 1 \<longleftrightarrow> k \<le> m" "\<And>m. k \<le> m \<Longrightarrow> j \<le> 8 * m - 1"
  shows "k \<le> n \<longleftrightarrow> a < (2 :: nat) ^ (8 * n - 1)"
proof
  assume "k \<le> n"
  then have "(2 :: nat) ^ j \<le> 2 ^ (8 * n - 1)" using assms(4) by (intro power_increasing) auto
  with assms(2) show "a < 2 ^ (8 * n - 1)" by linarith
next
  assume "a < 2 ^ (8 * n - 1)"
  with assms(1) have "(2 :: nat) ^ i < 2 ^ (8 * n - 1)" by linarith
  then show "k \<le> n" using assms(3) by (simp only: power_strict_increasing_iff)
qed

lemma not_overflow_iff: "0 < n \<Longrightarrow> \<not> integer_is_overflow n v \<longleftrightarrow> nat \<bar>v\<bar> < 2 ^ (8 * n - 1)"
  by (auto simp: integer_is_overflow_def bitcoin_min_def bitcoin_max_def nat_less_iff)

lemma length_chunk_from_integer:
  assumes "0 < n"
  shows "length (chunk_from_integer v) \<le> n \<longleftrightarrow> \<not> integer_is_overflow n v"
proof (cases "v = 0")
  case True
  then show ?thesis using assms by (simp add: chunk_from_integer_def not_overflow_iff)
next
  case False
  then show ?thesis
  proof (cases v rule: chunk_from_integer_cases)
    case (plain xs b)
    have "Suc (length xs) \<le> n \<longleftrightarrow> nat \<bar>v\<bar> < 2 ^ (8 * n - 1)"
      by (rule between_powers [OF plain_bounds [OF plain(5,2,3)]]) arith+
    then show ?thesis by (simp only: plain(1) not_overflow_iff [OF assms] length_append_singleton)
  next
    case (signed xs b)
    have "Suc (length xs) \<le> n \<longleftrightarrow> nat \<bar>v\<bar> < 2 ^ (8 * n - 1)"
      by (rule between_powers [OF plain_bounds [OF signed(5,2,3)]]) arith+
    then show ?thesis by (simp only: signed(1) not_overflow_iff [OF assms] length_append_singleton)
  next
    case (extended xs b s)
    have "length (chunk_from_integer v) \<le> n \<longleftrightarrow> Suc (Suc (length xs)) \<le> n" by (simp add: extended(1))
    also have "\<dots> \<longleftrightarrow> nat \<bar>v\<bar> < 2 ^ (8 * n - 1)"
      by (rule between_powers [OF extended_bounds [OF extended(4,2)]]) arith+
    finally show ?thesis by (simp only: not_overflow_iff [OF assms])
  qed
qed

lemma chunk_roundtrip:
  assumes "0 < n" "\<not> integer_is_overflow n v"
  shows "integer_from_chunk n (chunk_from_integer v) = (True, v)"
proof (cases "v = 0")
  case True
  then show ?thesis by (simp add: chunk_from_integer_def integer_from_chunk_def)
next
  case False
  have len: "length (chunk_from_integer v) \<le> n" using assms length_chunk_from_integer by simp
  from False show ?thesis
  proof (cases v rule: chunk_from_integer_cases)
    case (plain xs b)
    then have "v = int (le_value xs + 256 ^ length xs * unat b)" by linarith
    with plain len show ?thesis by (simp add: integer_from_chunk_snoc)
  next
    case (signed xs b)
    then have "v = - int (le_value xs + 256 ^ length xs * unat b)" by linarith
    with signed len show ?thesis by (simp add: integer_from_chunk_snoc unat_to_negated)
  next
    case (extended xs b s)
    then have "int (le_value (xs @ [b])) = \<bar>v\<bar>" by linarith
    moreover have "unat s = (if v < 0 then 128 else 0)" using extended(3) by simp
    ultimately have "integer_from_chunk n ((xs @ [b]) @ [s]) = (True, v)"
      using len extended(1) by (subst integer_from_chunk_snoc) simp_all
    then show ?thesis using extended(1) by simp
  qed
qed

text \<open>The boolean reading of a chunk is the zero test of its integer reading.\<close>

lemma integer_from_chunk_zero:
  "snd (integer_from_chunk (Suc (length xs)) (xs @ [b])) = 0 \<longleftrightarrow>
    le_value xs = 0 \<and> (unat b = 0 \<or> unat b = 128)"
  by (simp only: integer_from_chunk_snoc [OF lessI] snd_conv if_distrib [of "\<lambda>x. x = 0"]
      neg_equal_0_iff_equal of_nat_eq_0_iff) auto

lemma boolean_from_chunk_iff:
  "boolean_from_chunk bs \<longleftrightarrow> snd (integer_from_chunk (length bs) bs) \<noteq> 0"
proof (cases bs rule: rev_cases)
  case Nil
  then show ?thesis by (simp add: boolean_from_chunk_def integer_from_chunk_def)
next
  case (snoc xs b)
  have "list_ex (\<lambda>b. b \<noteq> 0) xs \<longleftrightarrow> le_value xs \<noteq> 0"
    by (auto simp: list_ex_iff le_value_zero_iff)
  moreover have "b = 0 \<longleftrightarrow> unat b = 0" "b = 0x80 \<longleftrightarrow> unat b = 128"
    by (simp_all add: word_unat_eq_iff)
  ultimately show ?thesis using snoc integer_from_chunk_zero [of xs b]
    by (simp add: boolean_from_chunk_def is_sign_byte_def positive_sign_byte_def negative_sign_byte_def)
qed

section \<open>Minimal encodings\<close>

text \<open>
  The encodings without a redundant sign byte: the last byte carries more than the sign, or
  the byte before it uses its high bit. They are exactly what \<open>chunk_from_integer\<close> produces.
\<close>

definition minimal_encoding :: "data_chunk \<Rightarrow> bool" where
  "minimal_encoding bs \<longleftrightarrow> bs = [] \<or> unat (last bs) mod 128 \<noteq> 0 \<or>
     (2 \<le> length bs \<and> 128 \<le> unat (last (butlast bs)))"

lemma minimal_chunk_from_integer: "minimal_encoding (chunk_from_integer v)"
proof (cases "v = 0")
  case True
  then show ?thesis by (simp add: minimal_encoding_def chunk_from_integer_def)
next
  case False
  then show ?thesis
    by (cases v rule: chunk_from_integer_cases)
      (auto simp: minimal_encoding_def unat_to_negated butlast_append)
qed

lemma byte_width_snoc: "unat b \<noteq> 0 \<Longrightarrow> byte_width (le_value (xs @ [b])) = Suc (length xs)"
proof -
  assume "unat b \<noteq> 0"
  then have "256 ^ length xs \<le> le_value (xs @ [b])" by (simp add: le_value_snoc trans_le_add2)
  moreover have "le_value (xs @ [b]) < 256 ^ Suc (length xs)"
    using le_value_bound [of "xs @ [b]"] by simp
  ultimately show ?thesis
    using byte_width_le_iff [of _ "Suc (length xs)"] byte_width_ge_iff [of "length xs"]
    by (metis Suc_leI le_antisym)
qed

lemma chunk_from_le_value:
  assumes "unat b \<noteq> 0" "\<bar>v\<bar> = int (le_value (xs @ [b]))"
  shows "chunk_from_integer v =
    (if 128 \<le> unat b then (xs @ [b]) @ [if v < 0 then 0x80 else 0]
     else if v < 0 then xs @ [to_negated b] else xs @ [b])"
proof -
  have "nat \<bar>v\<bar> = le_value (xs @ [b])" using assms(2) by simp
  moreover have "le_bytes (byte_width (le_value (xs @ [b]))) (le_value (xs @ [b])) = xs @ [b]"
    using le_bytes_le_value [of "xs @ [b]"] by (simp add: byte_width_snoc [OF assms(1)])
  moreover have "0 < le_value (xs @ [b])" using assms(1) by (simp add: le_value_snoc)
  then have "v \<noteq> 0" using assms(2) by linarith
  ultimately show ?thesis using is_negated_snoc [OF assms(1), of xs]
    by (auto simp: chunk_from_integer_def Let_def negative_sign_byte_def positive_sign_byte_def)
qed

lemma chunk_from_integer_unique:
  assumes "minimal_encoding bs" "integer_from_chunk (length bs) bs = (True, v)"
  shows "chunk_from_integer v = bs"
proof (cases bs rule: rev_cases)
  case Nil
  with assms show ?thesis by (simp add: integer_from_chunk_def chunk_from_integer_def)
next
  case (snoc xs b)
  define c :: byte where "c = word_of_nat (unat b mod 128)"
  have c: "unat c = unat b mod 128" by (simp add: c_def unat_of_nat)
  have small: "unat b < 128 \<Longrightarrow> b = c" using c by (simp add: word_unat_eq_iff)
  have large: "128 \<le> unat b \<Longrightarrow> b = to_negated c"
  proof -
    assume "128 \<le> unat b"
    then have "unat b mod 128 = (unat b - 128) mod 128" by (rule le_mod_geq)
    also have "unat b - 128 < 128" using unat_byte_less [of b] by arith
    then have "(unat b - 128) mod 128 = unat b - 128" by (rule mod_less)
    finally have "unat b mod 128 = unat b - 128" .
    with \<open>128 \<le> unat b\<close> c have "unat b = unat (to_negated c)" by (simp add: unat_to_negated)
    then show "b = to_negated c" by (simp only: word_unat_eq_iff)
  qed
  have v: "v = (if 128 \<le> unat b then - int (le_value (xs @ [c])) else int (le_value (xs @ [c])))"
  proof (cases "128 \<le> unat b")
    case True
    then have "unat b - 128 = unat c" using large c unat_to_negated [of c] by simp
    with True assms(2) snoc show ?thesis by (simp add: integer_from_chunk_snoc le_value_snoc)
  next
    case False
    with small assms(2) snoc show ?thesis by (simp add: integer_from_chunk_snoc le_value_snoc)
  qed
  show ?thesis
  proof (cases "unat c = 0")
    case False
    then have "0 < le_value (xs @ [c])" by (simp add: le_value_snoc)
    moreover have "unat c < 128" using c by simp
    ultimately show ?thesis using chunk_from_le_value [OF False, of v xs] v small large snoc
      by (cases "128 \<le> unat b") auto
  next
    case True
    then obtain ys d where xs: "xs = ys @ [d]" "128 \<le> unat d"
      using assms(1) snoc c by (cases xs rule: rev_cases) (auto simp: minimal_encoding_def butlast_append)
    then have "0 < le_value xs" by (simp add: le_value_snoc)
    moreover have "\<bar>v\<bar> = int (le_value xs)" using v True by (auto simp: le_value_snoc)
    moreover have "c = 0" using True by (simp add: unat_eq_0)
    then have "b = (if v < 0 then 0x80 else 0)"
      using small large v \<open>0 < le_value xs\<close>
      by (cases "128 \<le> unat b") (auto simp: to_negated_def le_value_snoc)
    ultimately show ?thesis using chunk_from_le_value [of d v ys] xs snoc by auto
  qed
qed

section \<open>Properties\<close>

text \<open>
  Script numbers survive the stack: an integer that is within the arithmetic range of
  \<open>n\<close> bytes encodes into at most \<open>n\<close> bytes, and the operand parser of that width
  accepts the encoding and returns the integer; an integer outside the range encodes longer.
\<close>

theorem number_roundtrip:
  assumes "0 < n"
  shows "if integer_is_overflow n v then length (chunk_from_integer v) > n
    else length (chunk_from_integer v) \<le> n \<and>
      integer_from_chunk n (chunk_from_integer v) = (True, v)"
  using length_chunk_from_integer [OF assms, of v] chunk_roundtrip [OF assms, of v]
  by (auto simp: not_le [symmetric])

theorem number_roundtrip_witness:
  "integer_from_chunk 4 (chunk_from_integer (- 255)) = (True, - 255)"
  using number_roundtrip [of 4 "- 255"]
  by (simp add: integer_is_overflow_def bitcoin_min_def bitcoin_max_def)

text \<open>
  The encoding of a number is the only minimal one: it has no redundant sign byte, and every
  byte string without a redundant sign byte is the encoding of the number it reads as.
\<close>

theorem number_minimal_encoding:
  "minimal_encoding bs \<longleftrightarrow> chunk_from_integer (snd (integer_from_chunk (length bs) bs)) = bs"
proof
  assume "minimal_encoding bs"
  moreover have "fst (integer_from_chunk (length bs) bs)"
    by (simp add: integer_from_chunk_def Let_def)
  ultimately show "chunk_from_integer (snd (integer_from_chunk (length bs) bs)) = bs"
    using chunk_from_integer_unique by (metis prod.collapse)
next
  assume "chunk_from_integer (snd (integer_from_chunk (length bs) bs)) = bs"
  then show "minimal_encoding bs" using minimal_chunk_from_integer by metis
qed

text \<open>
  The truth value of a stack element is that of the number it encodes: false exactly for
  zero and negative zero of any length.
\<close>

theorem boolean_is_nonzero:
  "boolean_from_chunk bs \<longleftrightarrow> boolean_from_integer (snd (integer_from_chunk (length bs) bs))"
  unfolding boolean_from_integer_def by (rule boolean_from_chunk_iff)

end
