(* ===== verification/Opcode.thy ===== *)
theory Opcode
  imports Prelude
begin

text \<open>
  The script opcodes (\<open>include/bitcoin/system/chain/enums/opcode.hpp\<close>) and their
  categories and conversions (\<open>impl/chain/operation_patterns.ipp\<close>).

  \<open>enum class opcode : uint8_t\<close> has a name for each of the 256 byte values and the code
  casts freely between the two, so an opcode is a byte. The enumerators the code refers to are
  abbreviations of their values.
\<close>

section \<open>The enumeration\<close>

type_synonym opcode = "8 word"

abbreviation opcode_push_size_0 :: opcode where "opcode_push_size_0 \<equiv> 0"
abbreviation opcode_push_size_1 :: opcode where "opcode_push_size_1 \<equiv> 1"
abbreviation opcode_push_size_75 :: opcode where "opcode_push_size_75 \<equiv> 75"
abbreviation opcode_push_one_size :: opcode where "opcode_push_one_size \<equiv> 76"
abbreviation opcode_push_two_size :: opcode where "opcode_push_two_size \<equiv> 77"
abbreviation opcode_push_four_size :: opcode where "opcode_push_four_size \<equiv> 78"
abbreviation opcode_push_negative_1 :: opcode where "opcode_push_negative_1 \<equiv> 79"
abbreviation opcode_reserved_80 :: opcode where "opcode_reserved_80 \<equiv> 80"
abbreviation opcode_push_positive_1 :: opcode where "opcode_push_positive_1 \<equiv> 81"
abbreviation opcode_push_positive_16 :: opcode where "opcode_push_positive_16 \<equiv> 96"
abbreviation opcode_nop :: opcode where "opcode_nop \<equiv> 97"
abbreviation opcode_op_ver :: opcode where "opcode_op_ver \<equiv> 98"
abbreviation opcode_if :: opcode where "opcode_if \<equiv> 99"
abbreviation opcode_notif :: opcode where "opcode_notif \<equiv> 100"
abbreviation opcode_op_verif :: opcode where "opcode_op_verif \<equiv> 101"
abbreviation opcode_op_vernotif :: opcode where "opcode_op_vernotif \<equiv> 102"
abbreviation opcode_else :: opcode where "opcode_else \<equiv> 103"
abbreviation opcode_endif :: opcode where "opcode_endif \<equiv> 104"
abbreviation opcode_verify :: opcode where "opcode_verify \<equiv> 105"
abbreviation opcode_op_return :: opcode where "opcode_op_return \<equiv> 106"
abbreviation opcode_toaltstack :: opcode where "opcode_toaltstack \<equiv> 107"
abbreviation opcode_fromaltstack :: opcode where "opcode_fromaltstack \<equiv> 108"
abbreviation opcode_drop2 :: opcode where "opcode_drop2 \<equiv> 109"
abbreviation opcode_dup2 :: opcode where "opcode_dup2 \<equiv> 110"
abbreviation opcode_dup3 :: opcode where "opcode_dup3 \<equiv> 111"
abbreviation opcode_over2 :: opcode where "opcode_over2 \<equiv> 112"
abbreviation opcode_rot2 :: opcode where "opcode_rot2 \<equiv> 113"
abbreviation opcode_swap2 :: opcode where "opcode_swap2 \<equiv> 114"
abbreviation opcode_ifdup :: opcode where "opcode_ifdup \<equiv> 115"
abbreviation opcode_depth :: opcode where "opcode_depth \<equiv> 116"
abbreviation opcode_drop :: opcode where "opcode_drop \<equiv> 117"
abbreviation opcode_dup :: opcode where "opcode_dup \<equiv> 118"
abbreviation opcode_nip :: opcode where "opcode_nip \<equiv> 119"
abbreviation opcode_over :: opcode where "opcode_over \<equiv> 120"
abbreviation opcode_pick :: opcode where "opcode_pick \<equiv> 121"
abbreviation opcode_roll :: opcode where "opcode_roll \<equiv> 122"
abbreviation opcode_rot :: opcode where "opcode_rot \<equiv> 123"
abbreviation opcode_swap :: opcode where "opcode_swap \<equiv> 124"
abbreviation opcode_tuck :: opcode where "opcode_tuck \<equiv> 125"
abbreviation opcode_op_cat :: opcode where "opcode_op_cat \<equiv> 126"
abbreviation opcode_op_substr :: opcode where "opcode_op_substr \<equiv> 127"
abbreviation opcode_op_left :: opcode where "opcode_op_left \<equiv> 128"
abbreviation opcode_op_right :: opcode where "opcode_op_right \<equiv> 129"
abbreviation opcode_size :: opcode where "opcode_size \<equiv> 130"
abbreviation opcode_op_invert :: opcode where "opcode_op_invert \<equiv> 131"
abbreviation opcode_op_and :: opcode where "opcode_op_and \<equiv> 132"
abbreviation opcode_op_or :: opcode where "opcode_op_or \<equiv> 133"
abbreviation opcode_op_xor :: opcode where "opcode_op_xor \<equiv> 134"
abbreviation opcode_equal :: opcode where "opcode_equal \<equiv> 135"
abbreviation opcode_equalverify :: opcode where "opcode_equalverify \<equiv> 136"
abbreviation opcode_reserved_137 :: opcode where "opcode_reserved_137 \<equiv> 137"
abbreviation opcode_reserved_138 :: opcode where "opcode_reserved_138 \<equiv> 138"
abbreviation opcode_add1 :: opcode where "opcode_add1 \<equiv> 139"
abbreviation opcode_sub1 :: opcode where "opcode_sub1 \<equiv> 140"
abbreviation opcode_op_mul2 :: opcode where "opcode_op_mul2 \<equiv> 141"
abbreviation opcode_op_div2 :: opcode where "opcode_op_div2 \<equiv> 142"
abbreviation opcode_negate :: opcode where "opcode_negate \<equiv> 143"
abbreviation opcode_abs :: opcode where "opcode_abs \<equiv> 144"
abbreviation opcode_not :: opcode where "opcode_not \<equiv> 145"
abbreviation opcode_nonzero :: opcode where "opcode_nonzero \<equiv> 146"
abbreviation opcode_add :: opcode where "opcode_add \<equiv> 147"
abbreviation opcode_sub :: opcode where "opcode_sub \<equiv> 148"
abbreviation opcode_op_mul :: opcode where "opcode_op_mul \<equiv> 149"
abbreviation opcode_op_div :: opcode where "opcode_op_div \<equiv> 150"
abbreviation opcode_op_mod :: opcode where "opcode_op_mod \<equiv> 151"
abbreviation opcode_op_lshift :: opcode where "opcode_op_lshift \<equiv> 152"
abbreviation opcode_op_rshift :: opcode where "opcode_op_rshift \<equiv> 153"
abbreviation opcode_booland :: opcode where "opcode_booland \<equiv> 154"
abbreviation opcode_boolor :: opcode where "opcode_boolor \<equiv> 155"
abbreviation opcode_numequal :: opcode where "opcode_numequal \<equiv> 156"
abbreviation opcode_numequalverify :: opcode where "opcode_numequalverify \<equiv> 157"
abbreviation opcode_numnotequal :: opcode where "opcode_numnotequal \<equiv> 158"
abbreviation opcode_lessthan :: opcode where "opcode_lessthan \<equiv> 159"
abbreviation opcode_greaterthan :: opcode where "opcode_greaterthan \<equiv> 160"
abbreviation opcode_lessthanorequal :: opcode where "opcode_lessthanorequal \<equiv> 161"
abbreviation opcode_greaterthanorequal :: opcode where "opcode_greaterthanorequal \<equiv> 162"
abbreviation opcode_min :: opcode where "opcode_min \<equiv> 163"
abbreviation opcode_max :: opcode where "opcode_max \<equiv> 164"
abbreviation opcode_within :: opcode where "opcode_within \<equiv> 165"
abbreviation opcode_ripemd160 :: opcode where "opcode_ripemd160 \<equiv> 166"
abbreviation opcode_sha1 :: opcode where "opcode_sha1 \<equiv> 167"
abbreviation opcode_sha256 :: opcode where "opcode_sha256 \<equiv> 168"
abbreviation opcode_hash160 :: opcode where "opcode_hash160 \<equiv> 169"
abbreviation opcode_hash256 :: opcode where "opcode_hash256 \<equiv> 170"
abbreviation opcode_codeseparator :: opcode where "opcode_codeseparator \<equiv> 171"
abbreviation opcode_checksig :: opcode where "opcode_checksig \<equiv> 172"
abbreviation opcode_checksigverify :: opcode where "opcode_checksigverify \<equiv> 173"
abbreviation opcode_checkmultisig :: opcode where "opcode_checkmultisig \<equiv> 174"
abbreviation opcode_checkmultisigverify :: opcode where "opcode_checkmultisigverify \<equiv> 175"
abbreviation opcode_nop1 :: opcode where "opcode_nop1 \<equiv> 176"
abbreviation opcode_nop2 :: opcode where "opcode_nop2 \<equiv> 177"
abbreviation opcode_checklocktimeverify :: opcode where "opcode_checklocktimeverify \<equiv> 177"
abbreviation opcode_nop3 :: opcode where "opcode_nop3 \<equiv> 178"
abbreviation opcode_checksequenceverify :: opcode where "opcode_checksequenceverify \<equiv> 178"
abbreviation opcode_nop4 :: opcode where "opcode_nop4 \<equiv> 179"
abbreviation opcode_nop5 :: opcode where "opcode_nop5 \<equiv> 180"
abbreviation opcode_nop6 :: opcode where "opcode_nop6 \<equiv> 181"
abbreviation opcode_nop7 :: opcode where "opcode_nop7 \<equiv> 182"
abbreviation opcode_nop8 :: opcode where "opcode_nop8 \<equiv> 183"
abbreviation opcode_nop9 :: opcode where "opcode_nop9 \<equiv> 184"
abbreviation opcode_nop10 :: opcode where "opcode_nop10 \<equiv> 185"
abbreviation opcode_reserved_186 :: opcode where "opcode_reserved_186 \<equiv> 186"
abbreviation opcode_checksigadd :: opcode where "opcode_checksigadd \<equiv> 186"
abbreviation opcode_reserved_187 :: opcode where "opcode_reserved_187 \<equiv> 187"
abbreviation opcode_reserved_254 :: opcode where "opcode_reserved_254 \<equiv> 254"
abbreviation opcode_reserved_255 :: opcode where "opcode_reserved_255 \<equiv> 255"

section \<open>Conversions\<close>

definition opcode_to_positive :: "opcode \<Rightarrow> byte" where
  "opcode_to_positive code = code - (opcode_push_positive_1 - 1)"

definition opcode_to_nonnegative :: "opcode \<Rightarrow> byte" where
  "opcode_to_nonnegative code = (if code = opcode_push_size_0 then 0 else opcode_to_positive code)"

definition opcode_to_maximum_size :: "opcode \<Rightarrow> nat" where
  "opcode_to_maximum_size code =
     (if code = opcode_push_one_size then max_uint8
      else if code = opcode_push_two_size then max_uint16
      else if code = opcode_push_four_size then max_uint32
      else if code \<le> opcode_push_size_75 then unat code else 0)"

definition opcode_from_size :: "nat \<Rightarrow> opcode" where
  "opcode_from_size sz =
     (if sz \<le> unat opcode_push_size_75 then word_of_nat sz
      else if sz \<le> max_uint8 then opcode_push_one_size
      else if sz \<le> max_uint16 then opcode_push_two_size
      else opcode_push_four_size)"

definition opcode_from_positive :: "byte \<Rightarrow> opcode" where
  "opcode_from_positive v = v + (opcode_push_positive_1 - 1)"

definition opcode_from_nonnegative :: "byte \<Rightarrow> opcode" where
  "opcode_from_nonnegative v = (if v = 0 then opcode_push_size_0 else opcode_from_positive v)"

text \<open>The stack bytes of the numbers -1 to 16 (\<open>enum numbers\<close>).\<close>

definition numbers_negative_1 :: byte where "numbers_negative_1 = 0x80 OR 0x01"
definition numbers_number_0 :: byte where "numbers_number_0 = 0"
definition numbers_positive_1 :: byte where "numbers_positive_1 = 1"
definition numbers_positive_16 :: byte where "numbers_positive_16 = 16"

lemmas numbers_defs = numbers_negative_1_def numbers_number_0_def numbers_positive_1_def
  numbers_positive_16_def

definition minimal_opcode_from_data :: "data_chunk \<Rightarrow> opcode" where
  "minimal_opcode_from_data bs =
     (if length bs = 1 \<and> hd bs = numbers_negative_1 then opcode_push_negative_1
      else if length bs = 1 \<and> hd bs = numbers_number_0 then opcode_push_size_0
      else if length bs = 1 \<and> numbers_positive_1 \<le> hd bs \<and> hd bs \<le> numbers_positive_16
        then opcode_from_positive (hd bs)
      else opcode_from_size (length bs))"

definition nominal_opcode_from_data :: "data_chunk \<Rightarrow> opcode" where
  "nominal_opcode_from_data bs = opcode_from_size (length bs)"

section \<open>Categories of opcodes\<close>

definition is_relaxed_push :: "opcode \<Rightarrow> bool" where
  "is_relaxed_push code \<longleftrightarrow> code \<le> opcode_push_positive_16"

definition is_push :: "opcode \<Rightarrow> bool" where
  "is_push code \<longleftrightarrow> is_relaxed_push code \<and> code \<noteq> opcode_reserved_80"

definition is_payload :: "opcode \<Rightarrow> bool" where
  "is_payload code \<longleftrightarrow> code \<ge> opcode_push_size_1 \<and> code \<le> opcode_push_four_size"

definition is_positive :: "opcode \<Rightarrow> bool" where
  "is_positive code \<longleftrightarrow> code \<ge> opcode_push_positive_1 \<and> code \<le> opcode_push_positive_16"

definition is_nonnegative :: "opcode \<Rightarrow> bool" where
  "is_nonnegative code \<longleftrightarrow> code = opcode_push_size_0 \<or> is_positive code"

definition is_number :: "opcode \<Rightarrow> bool" where
  "is_number code \<longleftrightarrow> code = opcode_push_negative_1 \<or> is_nonnegative code"

definition is_timelock :: "opcode \<Rightarrow> bool" where
  "is_timelock code \<longleftrightarrow> code = opcode_checklocktimeverify \<or> code = opcode_checksequenceverify"

definition is_threshold :: "opcode \<Rightarrow> bool" where
  "is_threshold code \<longleftrightarrow> code \<in> {opcode_numequal, opcode_numequalverify, opcode_numnotequal,
     opcode_lessthan, opcode_greaterthan, opcode_lessthanorequal, opcode_greaterthanorequal,
     opcode_within}"

definition is_roller :: "opcode \<Rightarrow> bool" where
  "is_roller code \<longleftrightarrow> code = opcode_roll"

definition is_counted :: "opcode \<Rightarrow> bool" where
  "is_counted code \<longleftrightarrow> code \<ge> opcode_nop"

definition is_success :: "opcode \<Rightarrow> bool" where
  "is_success code \<longleftrightarrow> code \<in> {opcode_reserved_80, opcode_op_ver, opcode_op_cat, opcode_op_substr,
     opcode_op_left, opcode_op_right, opcode_op_invert, opcode_op_and, opcode_op_or, opcode_op_xor,
     opcode_reserved_137, opcode_reserved_138, opcode_op_mul2, opcode_op_div2, opcode_op_mul,
     opcode_op_div, opcode_op_mod, opcode_op_lshift, opcode_op_rshift} \<or>
     (code \<ge> opcode_reserved_187 \<and> code \<le> opcode_reserved_254)"

definition is_invalid :: "opcode \<Rightarrow> bool" where
  "is_invalid code \<longleftrightarrow> code \<in> {opcode_op_verif, opcode_op_vernotif, opcode_op_cat,
     opcode_op_substr, opcode_op_left, opcode_op_right, opcode_op_invert, opcode_op_and,
     opcode_op_or, opcode_op_xor, opcode_op_mul2, opcode_op_div2, opcode_op_mul, opcode_op_div,
     opcode_op_mod, opcode_op_lshift, opcode_op_rshift}"

definition is_conditional :: "opcode \<Rightarrow> bool" where
  "is_conditional code \<longleftrightarrow> code \<in> {opcode_if, opcode_notif, opcode_else, opcode_endif}"

definition is_reserved :: "opcode \<Rightarrow> bool" where
  "is_reserved code \<longleftrightarrow> code \<in> {opcode_op_ver, opcode_op_return, opcode_reserved_80,
     opcode_reserved_137, opcode_reserved_138} \<or> code \<ge> opcode_reserved_186"

lemmas opcode_category_defs = is_relaxed_push_def is_push_def is_payload_def is_positive_def
  is_nonnegative_def is_number_def is_timelock_def is_threshold_def is_roller_def is_counted_def
  is_success_def is_invalid_def is_conditional_def is_reserved_def

section \<open>Lemmas\<close>

text \<open>A statement about every opcode is a statement about 256 numerals.\<close>

lemma all_opcodes:
  assumes "\<And>n. n < 256 \<Longrightarrow> P (word_of_nat n)"
  shows "P (c :: opcode)"
  using assms [of "unat c"] by simp

lemma opcode_from_size_small: "sz \<le> 75 \<Longrightarrow> unat (opcode_from_size sz) = sz"
  by (simp add: opcode_from_size_def unat_of_nat)

lemma opcode_from_size_maximum:
  "sz \<le> max_uint32 \<Longrightarrow> sz \<le> opcode_to_maximum_size (opcode_from_size sz)"
  by (auto simp: opcode_from_size_def opcode_to_maximum_size_def unat_of_nat word_le_nat_alt
      word_unat_eq_iff limits)

end
