(* ===== verification/Operation.thy ===== *)
theory Operation
  imports Streams Number Opcode
begin

text \<open>
  Script operations (\<open>src/chain/operation.cpp\<close>, \<open>impl/chain/operation_patterns.ipp\<close>): the
  operation object, its deserialization from a stream, its serialization and its push data
  rules. The shared pointer to the push data is an \<open>option\<close>; a null pointer and an empty chunk
  compare equal in the code and read as empty data (\<open>get_data\<close>).

  A push that claims more bytes than the script has becomes an underflow operation that keeps
  every remaining byte. Every byte string therefore deserializes, and the abstract parser
  \<open>parse_op\<close> on byte lists says how: the stream implementation refines it.
\<close>

section \<open>Operations\<close>

record operation =
  op_code :: opcode
  op_data :: "data_chunk option"
  op_underflow :: bool

definition any_invalid :: opcode where
  "any_invalid = opcode_op_verif"

text \<open>The default operation, invalid by its combination of code and data.\<close>

definition default_operation :: operation where
  "default_operation = \<lparr>op_code = any_invalid, op_data = Some [0x42], op_underflow = False\<rparr>"

definition get_data :: "operation \<Rightarrow> data_chunk" where
  "get_data op = (case op_data op of None \<Rightarrow> [] | Some d \<Rightarrow> d)"

definition data_empty :: "operation \<Rightarrow> bool" where
  "data_empty op \<longleftrightarrow> get_data op = []"

definition data_size :: "operation \<Rightarrow> nat" where
  "data_size op = length (get_data op)"

definition operation_equal :: "operation \<Rightarrow> operation \<Rightarrow> bool" where
  "operation_equal a b \<longleftrightarrow> op_code a = op_code b \<and> (op_data a = op_data b \<or> get_data a = get_data b) \<and>
     op_underflow a = op_underflow b"

definition operation_is_valid :: "operation \<Rightarrow> bool" where
  "operation_is_valid op \<longleftrightarrow> \<not> (op_code op = any_invalid \<and> \<not> op_underflow op \<and> \<not> data_empty op)"

section \<open>Deserialization\<close>

definition max_block_size :: nat where "max_block_size = 1000000"
definition max_block_weight :: nat where "max_block_weight = 4 * max_block_size"
definition max_bytes :: nat where "max_bytes = max_block_weight"

definition read_data_size :: "opcode \<Rightarrow> reader \<Rightarrow> nat \<times> reader" where
  "read_data_size code r =
     (if code = opcode_push_one_size then (case read_byte r of (b, r') \<Rightarrow> (unat b, r'))
      else if code = opcode_push_two_size then read_little_endian 2 r
      else if code = opcode_push_four_size then read_little_endian 4 r
      else if code \<le> opcode_push_size_75 then (unat code, r) else (0, r))"

definition operation_from_data :: "reader \<Rightarrow> operation \<times> reader" where
  "operation_from_data r =
     (if \<not> rgood r then (default_operation, r)
      else let
          start = get_read_position r;
          (code, r1) = read_byte r;
          (sz, r2) = read_data_size code r1;
          r3 = (if sz > max_bytes then invalidate r2 else r2);
          (push, r4) = (if rgood r3 \<and> sz \<noteq> 0
            then (case read_bytes sz r3 of (d, r') \<Rightarrow> (Some d, r')) else (None, r3))
        in if \<not> rgood r4
           then (case read_all_bytes (set_position start r4) of (d, r5) \<Rightarrow>
             (\<lparr>op_code = any_invalid, op_data = Some d, op_underflow = True\<rparr>, r5))
           else (\<lparr>op_code = code, op_data = push, op_underflow = False\<rparr>, r4))"

definition opcode_from_data :: "data_chunk \<Rightarrow> bool \<Rightarrow> opcode" where
  "opcode_from_data bs minimal = (if minimal then minimal_opcode_from_data bs
     else nominal_opcode_from_data bs)"

definition from_push_data :: "data_chunk \<Rightarrow> bool \<Rightarrow> operation" where
  "from_push_data bs minimal = (let code = opcode_from_data bs minimal in
     \<lparr>op_code = code, op_data = (if is_payload code then Some bs else None), op_underflow = False\<rparr>)"

text \<open>Skip one operation; false when the stream is exhausted.\<close>

definition count_op :: "reader \<Rightarrow> bool \<times> reader" where
  "count_op r = (if get_exhausted r then (False, r)
     else case read_byte r of (code, r1) \<Rightarrow>
       (case read_data_size code r1 of (sz, r2) \<Rightarrow> (True, skip_bytes sz r2)))"

section \<open>Serialization\<close>

definition operation_to_data :: "operation \<Rightarrow> data_chunk" where
  "operation_to_data op =
     (if op_underflow op then get_data op
      else write_byte (op_code op) @
        (if op_code op = opcode_push_one_size then write_byte (word_of_nat (data_size op))
         else if op_code op = opcode_push_two_size then write_little_endian 2 (data_size op)
         else if op_code op = opcode_push_four_size then write_little_endian 4 (data_size op)
         else []) @ get_data op)"

definition operation_serialized_size :: "operation \<Rightarrow> nat" where
  "operation_serialized_size op =
     (if op_underflow op then data_size op
      else if op_code op = opcode_push_one_size then 1 + 1 + data_size op
      else if op_code op = opcode_push_two_size then 1 + 2 + data_size op
      else if op_code op = opcode_push_four_size then 1 + 4 + data_size op
      else 1 + data_size op)"

section \<open>Properties of operations\<close>

definition as_unsigned :: "nat \<Rightarrow> nat \<Rightarrow> operation \<Rightarrow> nat option" where
  "as_unsigned n maximum op =
     (if is_nonnegative (op_code op) then Some (unat (opcode_to_nonnegative (op_code op)))
      else case integer_from_chunk n (get_data op) of (ok, v) \<Rightarrow>
        if \<not> is_payload (op_code op) \<or> \<not> ok \<or> v < 0 \<or> v > int maximum then None else Some (nat v))"

definition as_unsigned32 :: "operation \<Rightarrow> nat option" where
  "as_unsigned32 op = as_unsigned 4 max_uint32 op"

definition as_unsigned40 :: "operation \<Rightarrow> nat option" where
  "as_unsigned40 op = as_unsigned 5 max_uint64 op"

definition is_minimal_push :: "operation \<Rightarrow> bool" where
  "is_minimal_push op = (if is_payload (op_code op)
     then op_code op = minimal_opcode_from_data (get_data op) else is_number (op_code op))"

definition is_nominal_push :: "operation \<Rightarrow> bool" where
  "is_nominal_push op = (if is_payload (op_code op)
     then op_code op = nominal_opcode_from_data (get_data op) else is_number (op_code op))"

definition is_underclaimed :: "operation \<Rightarrow> bool" where
  "is_underclaimed op \<longleftrightarrow> data_size op > opcode_to_maximum_size (op_code op)"

definition max_push_data_size :: nat where "max_push_data_size = 520"

definition operation_is_oversized :: "operation \<Rightarrow> bool" where
  "operation_is_oversized op \<longleftrightarrow> data_size op > max_push_data_size"

section \<open>The abstract parser\<close>

definition header_size :: "opcode \<Rightarrow> nat" where
  "header_size c = (if c = opcode_push_one_size then 1 else if c = opcode_push_two_size then 2
     else if c = opcode_push_four_size then 4 else 0)"

definition claimed_size :: "opcode \<Rightarrow> data_chunk \<Rightarrow> nat" where
  "claimed_size c t = (if header_size c \<noteq> 0 then le_value (take (header_size c) t)
     else if c \<le> opcode_push_size_75 then unat c else 0)"

text \<open>The next operation of a script, or nothing when its push data is short.\<close>

fun parse_op :: "data_chunk \<Rightarrow> (operation \<times> data_chunk) option" where
  "parse_op [] = None"
| "parse_op (c # t) = (let n = claimed_size c t; body = drop (header_size c) t in
     if length t < header_size c \<or> n > max_bytes \<or> length body < n then None
     else Some (\<lparr>op_code = c, op_data = (if n = 0 then None else Some (take n body)),
       op_underflow = False\<rparr>, drop n body))"

definition underflow_op :: "data_chunk \<Rightarrow> operation" where
  "underflow_op w = \<lparr>op_code = any_invalid, op_data = Some w, op_underflow = True\<rparr>"

lemma parse_op_shorter: "parse_op w = Some (op, rest) \<Longrightarrow> length rest < length w"
  by (cases w) (auto simp: Let_def split: if_splits)

function parse_ops :: "data_chunk \<Rightarrow> operation list" where
  "parse_ops w = (if w = [] then [] else case parse_op w of
     None \<Rightarrow> [underflow_op w] | Some (op, rest) \<Rightarrow> op # parse_ops rest)"
  by pat_completeness auto
termination
  by (relation "measure length") (auto dest: parse_op_shorter)

declare parse_ops.simps [simp del]

section \<open>The stream parser refines the abstract one\<close>

lemma read_byte_window:
  "ready r \<Longrightarrow> window r = b # t \<Longrightarrow> read_byte r = (b, advance 1 r)"
  using feeds_window [of r] by (simp add: read_byte_feeds)

lemma le_value_single [simp]: "le_value (take (Suc 0) w) = (if w = [] then 0 else unat (hd w))"
  by (cases w) auto

lemma read_data_size_window:
  assumes "ready r" "header_size c \<le> length (window r)"
  shows "read_data_size c r = (claimed_size c (window r), advance (header_size c) r)"
  using assms do_read_bytes_window [OF assms(1), of 1] do_read_bytes_window [OF assms(1), of 2]
    do_read_bytes_window [OF assms(1), of 4]
  by (auto simp: read_data_size_def header_size_def claimed_size_def read_byte_def
      read_little_endian_def hd_take split: if_splits)

lemma le_value_less_pow: "length bs \<le> n \<Longrightarrow> le_value bs < 256 ^ n"
  using le_value_bound [of bs] power_increasing [of "length bs" n 256] by (simp add: order_less_le_trans)

lemma read_data_size_short:
  assumes "ready r" "length (window r) < header_size c" "read_data_size c r = (sz, s)"
  shows "\<not> rgood s" "lost r s" "sz < 2 ^ 32"
    "rpos r + remaining r \<le> length (rbuf r) \<Longrightarrow> sz = 0 \<and> s = invalidate r"
proof -
  obtain d where d: "do_read_bytes (header_size c) r = (d, s)" and sz: "sz = le_value d"
  proof (cases "do_read_bytes (header_size c) r")
    case (Pair d s')
    moreover have "length d = header_size c" using do_read_bytes_short(3) [OF assms(1,2) Pair] .
    then have "header_size c = 1 \<Longrightarrow> le_value d = unat (hd d)" by (cases d) auto
    ultimately show thesis using assms(2,3) that [of d]
      by (auto simp: read_data_size_def header_size_def read_byte_def read_little_endian_def
          split: if_splits)
  qed
  note short = do_read_bytes_short [OF assms(1,2) d]
  show "\<not> rgood s" "lost r s" by (rule short)+
  have "length d \<le> 4" using short(3) by (simp add: header_size_def)
  then show "sz < 2 ^ 32" using sz le_value_less_pow [of d 4] by simp
  show "rpos r + remaining r \<le> length (rbuf r) \<Longrightarrow> sz = 0 \<and> s = invalidate r"
    using short(4) sz by simp
qed

text \<open>A failed parse returns to the start and takes every byte of the window.\<close>

lemma underflow_recovery:
  assumes "ready r" "lost r s"
  obtains l where "read_all_bytes (set_position (rpos r) s) =
      (window r, advance (length (window r)) (r\<lparr>rlimit := l\<rparr>))"
    "length (window r) \<le> unat l" "unat l \<le> remaining r"
proof -
  obtain l where l: "set_position (rpos r) s = r\<lparr>rlimit := l\<rparr>" "length (window r) \<le> unat l"
      "unat l \<le> remaining r"
    using set_position_lost [OF assms] .
  have "ready (r\<lparr>rlimit := l\<rparr>)" using assms(1) by (simp add: ready_def)
  from read_all_bytes_window [OF this] l that show thesis
    by (simp add: window_rlimit)
qed

lemma operation_from_data_complete:
  assumes "ready r" "parse_op (window r) = Some (op, rest)"
  shows "operation_from_data r = (op, advance (length (window r) - length rest) r)"
proof -
  obtain c t where w: "window r = c # t" using assms(2) by (cases "window r") auto
  define n where "n = claimed_size c t"
  define h where "h = header_size c"
  from assms(2) w have ok: "h \<le> length t" "n \<le> max_bytes" "n \<le> length (drop h t)"
    and op: "op = \<lparr>op_code = c, op_data = (if n = 0 then None else Some (take n (drop h t))),
      op_underflow = False\<rparr>" and rest: "rest = drop n (drop h t)"
    by (auto simp: Let_def n_def h_def not_less split: if_splits)
  have r1: "ready (advance 1 r)" "window (advance 1 r) = t"
    using assms(1) w by (simp_all add: ready_advance window_advance)
  have r2: "ready (advance (1 + h) r)" "window (advance (1 + h) r) = drop h t"
    using ready_advance [OF r1(1), of h] window_advance [of h "advance 1 r"] r1 ok by simp_all
  have sz: "read_data_size c (advance 1 r) = (n, advance (1 + h) r)"
    using read_data_size_window [OF r1(1), of c] r1(2) ok by (simp add: n_def h_def)
  have body: "n \<noteq> 0 \<Longrightarrow> read_bytes n (advance (1 + h) r) = (take n (drop h t), advance (1 + h + n) r)"
    using do_read_bytes_window [OF r2(1), of n] r2 ok by (simp add: read_bytes_def ready_def)
  have good: "rgood (advance k r)" for k using assms(1) by (simp add: ready_def)
  have len: "length (window r) - length rest = 1 + h + n" using w rest ok by simp
  show ?thesis
    using assms(1) read_byte_window [OF assms(1) w] sz body ok good len op
    by (auto simp: operation_from_data_def ready_def)
qed

lemma operation_from_data_underflow:
  assumes "ready r" "window r \<noteq> []" "parse_op (window r) = None"
  obtains l where "operation_from_data r =
      (underflow_op (window r), advance (length (window r)) (r\<lparr>rlimit := l\<rparr>))"
    "length (window r) \<le> unat l" "unat l \<le> remaining r"
proof -
  obtain c t where w: "window r = c # t" using assms(2) by (cases "window r") auto
  define h where "h = header_size c"
  have r1: "ready (advance 1 r)" "window (advance 1 r) = t"
    using assms(1) w by (simp_all add: ready_advance window_advance)
  have lost1: "lost (advance 1 r) s \<Longrightarrow> lost r s" for s
    using lost_advance [OF assms(1), of 1 s] w by simp
  obtain sz r2 where sz: "read_data_size c (advance 1 r) = (sz, r2)" by fastforce
  define r3 where "r3 = (if sz > max_bytes then invalidate r2 else r2)"
  define r4 where "r4 = (if rgood r3 \<and> sz \<noteq> 0 then snd (read_bytes sz r3) else r3)"
  have r4: "\<not> rgood r4 \<and> lost r r4"
  proof (cases "length t < h")
    case True
    then show ?thesis
      using read_data_size_short(1,2) [OF r1(1) _ sz] r1(2) lost1
      by (auto simp: r4_def r3_def h_def invalidate_def)
  next
    case False
    then have sz': "sz = claimed_size c t" "r2 = advance (1 + h) r"
      using read_data_size_window [OF r1(1), of c] r1(2) sz by (simp_all add: h_def)
    have r2: "ready r2" "window r2 = drop h t"
      using ready_advance [OF r1(1), of h] window_advance [of h "advance 1 r"] r1 False sz'(2) by simp_all
    have lost2: "lost r2 s \<Longrightarrow> lost r s" for s
      using lost_advance [OF r1(1), of h s] lost1 r1(2) False sz'(2) by simp
    have "sz > max_bytes \<or> length (drop h t) < sz"
      using assms(3) w False sz'(1) by (auto simp: Let_def h_def split: if_splits)
    then consider "sz > max_bytes" | "sz \<le> max_bytes" "length (window r2) < sz"
      using r2 by fastforce
    then show ?thesis
    proof cases
      case 1
      then show ?thesis using lost2 lost_refl [OF r2(1)] by (simp add: r4_def r3_def invalidate_def)
    next
      case 2
      then show ?thesis using do_read_bytes_short(1,2) [OF r2(1) 2(2)] lost2 r2(1)
        by (cases "do_read_bytes sz r2") (auto simp: r4_def r3_def read_bytes_def ready_def)
    qed
  qed
  obtain l where l: "read_all_bytes (set_position (rpos r) r4) =
      (window r, advance (length (window r)) (r\<lparr>rlimit := l\<rparr>))"
    "length (window r) \<le> unat l" "unat l \<le> remaining r"
    using underflow_recovery [OF assms(1)] r4 by blast
  have "operation_from_data r = (underflow_op (window r), advance (length (window r)) (r\<lparr>rlimit := l\<rparr>))"
    using assms(1) read_byte_window [OF assms(1) w] sz r4 l(1)
    by (auto simp: operation_from_data_def ready_def get_read_position_def Let_def underflow_op_def
        r3_def r4_def split: prod.splits if_splits)
  with l(2,3) that show thesis by blast
qed

section \<open>Serialization of parsed operations\<close>

lemma length_operation_to_data [size_simps]:
  "length (operation_to_data op) = operation_serialized_size op"
  by (simp add: operation_to_data_def operation_serialized_size_def write_byte_def
      write_little_endian_def data_size_def)

lemma operation_to_data_underflow [simp]: "operation_to_data (underflow_op w) = w"
  by (simp add: operation_to_data_def underflow_op_def get_data_def)

text \<open>Writing the claimed size again gives the header bytes back.\<close>

lemma write_claimed_size:
  assumes "header_size c \<le> length t" "header_size c \<noteq> 0"
  shows "le_bytes (header_size c) (claimed_size c t) = take (header_size c) t"
  using le_bytes_le_value [of "take (header_size c) t"] assms by (simp add: claimed_size_def min.absorb2)

lemma operation_to_data_header:
  assumes "\<not> op_underflow op"
  shows "operation_to_data op = op_code op # le_bytes (header_size (op_code op)) (data_size op) @ get_data op"
proof -
  have "write_byte (word_of_nat n) = le_bytes 1 n" for n
    by (simp add: write_byte_def word_unat_eq_iff unat_of_nat)
  then show ?thesis using assms
    by (auto simp: operation_to_data_def header_size_def write_byte_def write_little_endian_def)
qed

lemma parse_op_to_data:
  assumes "parse_op w = Some (op, rest)"
  shows "operation_to_data op @ rest = w"
proof -
  obtain c t where w: "w = c # t" using assms by (cases w) auto
  define n where "n = claimed_size c t"
  define h where "h = header_size c"
  from assms w have ok: "h \<le> length t" "n \<le> length (drop h t)"
    and op: "op_code op = c" "get_data op = take n (drop h t)" "\<not> op_underflow op"
    and rest: "rest = drop n (drop h t)"
    by (auto simp: Let_def n_def h_def get_data_def not_less split: if_splits)
  have "le_bytes h n = take h t"
    using write_claimed_size [of c t] ok by (cases "h = 0") (simp_all add: n_def h_def)
  moreover have "data_size op = n" using op ok by (simp add: data_size_def)
  ultimately have "operation_to_data op = c # take h t @ take n (drop h t)"
    using op by (simp add: operation_to_data_header h_def)
  then show ?thesis using w rest by (metis append_Cons append_assoc append_take_drop_id)
qed

lemma parse_ops_to_data: "concat (map operation_to_data (parse_ops w)) = w"
proof (induction w rule: parse_ops.induct)
  case (1 w)
  then show ?case
    by (cases "parse_op w") (auto simp: parse_ops.simps [of w] parse_op_to_data)
qed

text \<open>
  The operations that a parser can return: the data is present exactly when it is not empty
  and has the size that the code and its header express.
\<close>

definition operation_wf :: "operation \<Rightarrow> bool" where
  "operation_wf op \<longleftrightarrow> \<not> op_underflow op \<and> op_data op \<noteq> Some [] \<and> data_size op \<le> max_bytes \<and>
     (if header_size (op_code op) \<noteq> 0 then data_size op < 256 ^ header_size (op_code op)
      else data_size op = (if op_code op \<le> opcode_push_size_75 then unat (op_code op) else 0))"

lemma parse_op_operation_to_data:
  assumes "operation_wf op"
  shows "parse_op (operation_to_data op @ rest) = Some (op, rest)"
proof -
  let ?h = "header_size (op_code op)"
  have u: "\<not> op_underflow op" using assms by (simp add: operation_wf_def)
  have "claimed_size (op_code op) (le_bytes ?h (data_size op) @ get_data op @ rest) = data_size op"
    using assms by (auto simp: claimed_size_def operation_wf_def le_value_le_bytes_id)
  moreover have "op_data op = (if data_size op = 0 then None else Some (get_data op))"
    using assms by (auto simp: operation_wf_def data_size_def get_data_def split: option.splits)
  moreover have "op = \<lparr>op_code = op_code op, op_data = op_data op, op_underflow = False\<rparr>"
    using u by (cases op) simp
  ultimately show ?thesis using assms u
    by (simp add: operation_to_data_header operation_wf_def Let_def) (simp add: data_size_def)
qed

lemma parse_op_wf: "parse_op w = Some (op, rest) \<Longrightarrow> operation_wf op"
proof -
  assume p: "parse_op w = Some (op, rest)"
  obtain c t where w: "w = c # t" using p by (cases w) auto
  have "header_size c \<noteq> 0 \<Longrightarrow> header_size c \<le> length t \<Longrightarrow> claimed_size c t < 256 ^ header_size c"
    using le_value_less_pow [of "take (header_size c) t" "header_size c"] by (simp add: claimed_size_def)
  with p w show ?thesis
    by (auto simp: operation_wf_def Let_def data_size_def get_data_def claimed_size_def not_less
        split: if_splits)
qed

text \<open>An operation built from push data: its code is the size code or carries no data.\<close>

lemma opcode_from_data_cases:
  "opcode_from_data bs minimal = opcode_from_size (length bs) \<or>
   opcode_from_data bs minimal = opcode_push_size_0 \<or> 79 \<le> unat (opcode_from_data bs minimal)"
proof -
  have "79 \<le> unat (opcode_from_positive b)" if "numbers_positive_1 \<le> b" "b \<le> numbers_positive_16" for b
    using that by (simp add: opcode_from_positive_def numbers_defs word_le_nat_alt unat_word_ariths)
  then show ?thesis
    by (simp add: opcode_from_data_def nominal_opcode_from_data_def minimal_opcode_from_data_def)
qed

lemma opcode_from_size_payload:
  "is_payload (opcode_from_size n) \<longleftrightarrow> n \<noteq> 0"
proof (cases "n \<le> 75")
  case True
  then show ?thesis using opcode_from_size_small [of n]
    by (auto simp: is_payload_def word_le_nat_alt)
next
  case False
  then show ?thesis by (auto simp: opcode_from_size_def is_payload_def)
qed

lemma opcode_from_size_header:
  assumes "n \<le> max_bytes"
  shows "if header_size (opcode_from_size n) \<noteq> 0 then n < 256 ^ header_size (opcode_from_size n)
    else n = (if opcode_from_size n \<le> opcode_push_size_75 then unat (opcode_from_size n) else 0)"
proof (cases "n \<le> 75")
  case True
  then show ?thesis using opcode_from_size_small [of n]
    by (auto simp: header_size_def word_le_nat_alt)
next
  case False
  with assms show ?thesis
    by (auto simp: opcode_from_size_def header_size_def max_bytes_def max_block_weight_def
        max_block_size_def limits)
qed

lemma from_push_data_wf:
  assumes "length bs \<le> max_bytes"
  shows "operation_wf (from_push_data bs minimal)"
proof -
  define c where "c = opcode_from_data bs minimal"
  have op: "from_push_data bs minimal =
      \<lparr>op_code = c, op_data = (if is_payload c then Some bs else None), op_underflow = False\<rparr>"
    by (simp add: from_push_data_def c_def Let_def)
  consider "c = opcode_from_size (length bs)" | "c = opcode_push_size_0 \<or> 79 \<le> unat c"
    using opcode_from_data_cases [of bs minimal] c_def by auto
  then show ?thesis
  proof cases
    case 1
    then show ?thesis
      using assms opcode_from_size_header [OF assms] opcode_from_size_payload [of "length bs"]
      by (auto simp: op operation_wf_def data_size_def get_data_def split: if_splits)
  next
    case 2
    then have "\<not> is_payload c" "header_size c = 0" "c \<le> 75 \<longrightarrow> unat c = 0"
      by (auto simp: is_payload_def header_size_def word_le_nat_alt)
    then show ?thesis by (simp add: op operation_wf_def data_size_def get_data_def max_bytes_def)
  qed
qed

section \<open>Properties\<close>

text \<open>
  An operation built from push data, with the minimal or the nominal encoding, serializes to
  bytes that parse back to that operation, whatever follows them.
\<close>

theorem push_data_roundtrip:
  assumes "length bs \<le> max_bytes" "ready r"
    "window r = operation_to_data (from_push_data bs minimal) @ rest"
  shows "operation_from_data r = (from_push_data bs minimal,
    advance (operation_serialized_size (from_push_data bs minimal)) r)"
  using operation_from_data_complete [OF assms(2)] assms(3)
    parse_op_operation_to_data [OF from_push_data_wf [OF assms(1)]]
  by (simp add: length_operation_to_data)

theorem push_data_roundtrip_witness:
  "fst (operation_from_data (reader_of [2, 7, 8, 0xac])) = from_push_data [7, 8] True"
proof -
  let ?r = "reader_of [2, 7, 8, 0xac]"
  have op: "from_push_data [7, 8] True = \<lparr>op_code = 2, op_data = Some [7, 8], op_underflow = False\<rparr>"
    by (simp add: from_push_data_def opcode_from_data_def minimal_opcode_from_data_def
        opcode_from_size_def is_payload_def)
  have "ready ?r" "window ?r = operation_to_data (from_push_data [7, 8] True) @ [0xac]"
    unfolding op by (simp_all add: ready_def window_def reader_of_def operation_to_data_def
        get_data_def data_size_def write_byte_def limits)
  from push_data_roundtrip [OF _ this] show ?thesis
    by (simp add: max_bytes_def max_block_weight_def max_block_size_def)
qed

text \<open>
  Parsing an operation never fails: either the bytes hold a complete operation, whose
  serialization is what was consumed, or the whole remainder of the stream becomes one underflow
  operation that serializes to it. In both cases the serialization is the bytes consumed.
\<close>

theorem operation_from_data_consumes:
  assumes "ready r" "window r \<noteq> []"
  shows "let (op, s) = operation_from_data r in
    rgood s \<and> rpos s = rpos r + operation_serialized_size op \<and>
    operation_to_data op = take (operation_serialized_size op) (window r) \<and>
    (op_underflow op \<longleftrightarrow> parse_op (window r) = None)"
proof (cases "parse_op (window r)")
  case None
  obtain l where "operation_from_data r =
      (underflow_op (window r), advance (length (window r)) (r\<lparr>rlimit := l\<rparr>))"
    using operation_from_data_underflow [OF assms None] .
  with assms None show ?thesis
    by (simp add: ready_def length_operation_to_data [symmetric]) (simp add: underflow_op_def)
next
  case (Some a)
  then obtain op rest where p: "parse_op (window r) = Some (op, rest)" by (cases a) auto
  have w: "window r = operation_to_data op @ rest" using parse_op_to_data [OF p] by simp
  show ?thesis
    using operation_from_data_complete [OF assms(1) p] parse_op_wf [OF p] assms(1) p w
    by (simp add: ready_def operation_wf_def length_operation_to_data [symmetric])
qed

theorem operation_from_data_consumes_witness:
  "let (op, s) = operation_from_data (reader_of [0x4c, 9, 1]) in
    rgood s \<and> rpos s = operation_serialized_size op"
  using operation_from_data_consumes [of "reader_of [0x4c, 9, 1]"]
  by (simp add: ready_def window_def reader_of_def limits split: prod.splits)

text \<open>
  The minimal encoding loses the one byte datum zero: asked for a minimal push of the byte
  0x00 the operation becomes an empty push, while every other datum is preserved by its push
  operation or denotes it as a number code.
\<close>

theorem minimal_push_of_zero:
  "from_push_data [0] True = from_push_data [] True \<and>
   get_data (from_push_data [0] False) = [0] \<and> get_data (from_push_data [0] True) = []"
  by (simp add: from_push_data_def opcode_from_data_def minimal_opcode_from_data_def
      nominal_opcode_from_data_def opcode_from_size_def is_payload_def get_data_def numbers_defs)

end
