(* ===== verification/Codec.thy ===== *)
theory Codec
  imports Operation
begin

text \<open>
  The contract that every serializable object of the library has with the streams: reading
  what was written gives the object back, leaves a good stream behind the bytes written, and
  keeps enough of the stream's limit for what follows. It is stated once as the locale
  \<open>codec\<close>, with its consequences (no two objects share a serialization, a serialization is
  never a prefix of another object's, counted vectors of codec objects are codecs again), and
  each object's theory interprets it on its own \<open>from_data\<close> and \<open>to_data\<close>.

  A nested object may set a limit of its own and clear it afterwards (scripts do), so the
  reader that comes back is described by \<open>moved\<close> and not by \<open>advance\<close>.
\<close>

section \<open>A reader that has moved\<close>

definition moved :: "reader \<Rightarrow> nat \<Rightarrow> reader \<Rightarrow> bool" where
  "moved r n s \<longleftrightarrow> rgood s \<and> rbuf s = rbuf r \<and> rpos s = rpos r + n \<and> remaining r \<le> remaining s + n"

lemma moved_good: "moved r n s \<Longrightarrow> rgood s"
  by (simp add: moved_def)

lemma moved_refl: "rgood r \<Longrightarrow> moved r 0 r"
  by (simp add: moved_def)

lemma moved_trans: "moved r m s \<Longrightarrow> moved s n t \<Longrightarrow> moved r (m + n) t"
  by (simp add: moved_def)

lemma moved_advance: "feeds r bs \<Longrightarrow> moved r (length bs) (advance (length bs) r)"
  by (simp add: feeds_def moved_def)

lemma feeds_moved:
  assumes "feeds r (a @ b)" "moved r (length a) s"
  shows "feeds s b"
proof -
  have "take (length a + length b) (drop (rpos r) (rbuf r)) = a @ b"
    using assms(1) by (simp add: feeds_def)
  then have "drop (length a) (take (length a + length b) (drop (rpos r) (rbuf r))) = b" by simp
  then have "take (length b) (drop (rpos r + length a) (rbuf r)) = b"
    by (simp add: drop_take add.commute)
  moreover have "rpos r + length a \<le> length (rbuf r)" using feeds_length [OF assms(1)] by simp
  ultimately show ?thesis using assms by (simp add: feeds_def moved_def)
qed

text \<open>The primitive reads, in the form the objects' proofs chain them.\<close>

lemma read_little_endian_moved:
  assumes "feeds r (le_bytes n v)" "v < 256 ^ n"
  shows "read_little_endian n r = (v, advance n r)" "moved r n (advance n r)"
  using assms moved_advance [OF assms(1)] by (simp_all add: read_little_endian_feeds)

lemma read_size_moved:
  assumes "feeds r (write_variable v)" "v \<le> limit" "v \<le> max_uint64"
  shows "read_size limit r = (v, advance (variable_size v) r)"
    "moved r (length (write_variable v)) (advance (variable_size v) r)"
  using assms moved_advance [OF assms(1)] by (simp_all add: read_size_feeds size_simps)

lemma feeds_appendD: "feeds r (a @ b) \<Longrightarrow> feeds r a"
  by (rule feeds_prefix)

text \<open>Serialized sizes are accumulated with a ceiling.\<close>

lemma foldl_ceilinged:
  "acc \<le> max_size_t \<Longrightarrow>
   foldl (\<lambda>acc x. ceilinged_add acc (f x)) acc xs = min max_size_t (acc + sum_list (map f xs))"
proof (induction xs arbitrary: acc)
  case (Cons x xs)
  have "ceilinged_add acc (f x) \<le> max_size_t" by (simp add: ceilinged_add_def)
  from Cons.IH [OF this] show ?case by (simp add: ceilinged_add_def min_def)
qed simp

section \<open>Codecs\<close>

locale codec =
  fixes enc :: "'a \<Rightarrow> data_chunk"
    and dec :: "reader \<Rightarrow> 'a \<times> reader"
    and ok :: "'a \<Rightarrow> bool"
  assumes roundtrip: "ok x \<Longrightarrow> feeds r (enc x) \<Longrightarrow>
    fst (dec r) = x \<and> moved r (length (enc x)) (snd (dec r))"
begin

lemma dec_enc:
  "ok x \<Longrightarrow> feeds r (enc x) \<Longrightarrow> \<exists>s. dec r = (x, s) \<and> moved r (length (enc x)) s"
  using roundtrip [of x r] by (metis prod.collapse)

lemma dec_enc_then:
  assumes "ok x" "feeds r (enc x @ rest)"
  obtains s where "dec r = (x, s)" "moved r (length (enc x)) s" "feeds s rest"
  using dec_enc [OF assms(1) feeds_appendD [OF assms(2)]] feeds_moved [OF assms(2)] by blast

text \<open>Two serializations that agree as far as the shorter goes are of the same object.\<close>

lemma enc_prefix_free:
  assumes "ok x" "ok y" "enc x @ a = enc y @ b" "length (enc x @ a) \<le> max_size_t"
  shows "x = y \<and> a = b"
proof -
  let ?r = "reader_of (enc x @ a)"
  have "feeds ?r (enc x @ a)" using assms(4) by (rule feeds_reader_of)
  then have "feeds ?r (enc x)" "feeds ?r (enc y)" using assms(3) feeds_appendD by metis+
  then have "x = y" using roundtrip assms(1,2) by metis
  with assms(3) show ?thesis by simp
qed

lemma enc_inject:
  "ok x \<Longrightarrow> ok y \<Longrightarrow> enc x = enc y \<Longrightarrow> length (enc x) \<le> max_size_t \<Longrightarrow> x = y"
  using enc_prefix_free [of x y "[]" "[]"] by simp

end

section \<open>Canonical codecs\<close>

text \<open>
  The converse law: a read that leaves the stream good has consumed exactly the serialization of
  the object it returns, so an object has no second serialization. A bad stream stays bad. The
  law does not speak of the limit, which a nested object may have lifted.
\<close>

definition consumed :: "reader \<Rightarrow> data_chunk \<Rightarrow> reader \<Rightarrow> bool" where
  "consumed r bs s \<longleftrightarrow> rbuf s = rbuf r \<and> rpos s = rpos r + length bs \<and> rpos s \<le> length (rbuf r) \<and>
     take (length bs) (drop (rpos r) (rbuf r)) = bs"

lemma consumed_ready: "consumed r bs s \<Longrightarrow> rgood s \<Longrightarrow> ready s"
  by (simp add: consumed_def ready_def)

lemma consumed_refl: "ready r \<Longrightarrow> consumed r [] r"
  by (simp add: consumed_def ready_def)

lemma consumed_trans:
  assumes "consumed r a s" "consumed s b t"
  shows "consumed r (a @ b) t"
proof -
  let ?d = "drop (rpos r) (rbuf r)"
  have "take (length a) ?d = a" "take (length b) (drop (length a) ?d) = b"
    using assms by (auto simp: consumed_def add.commute)
  then have "take (length (a @ b)) ?d = a @ b" by (simp add: take_add)
  then show ?thesis using assms by (simp add: consumed_def)
qed

lemma moved_consumed: "feeds r bs \<Longrightarrow> moved r (length bs) s \<Longrightarrow> consumed r bs s"
  using feeds_length [of r bs] by (auto simp: consumed_def moved_def feeds_def)

locale canonical_codec = codec +
  assumes sticky: "rgood (snd (dec r)) \<Longrightarrow> rgood r"
    and canonical: "ready r \<Longrightarrow> dec r = (x, s) \<Longrightarrow> rgood s \<Longrightarrow> ok x \<and> consumed r (enc x) s"
begin

text \<open>Reading a whole buffer is the inverse of writing, in both directions.\<close>

lemma buffer_iff:
  assumes "length bs \<le> max_size_t" "ok x"
  shows "bs = enc x \<longleftrightarrow> (\<exists>s. dec (reader_of bs) = (x, s) \<and> rgood s \<and> rpos s = length bs)"
proof
  assume "bs = enc x"
  then show "\<exists>s. dec (reader_of bs) = (x, s) \<and> rgood s \<and> rpos s = length bs"
    using dec_enc [OF assms(2) feeds_reader_of] assms(1) by (auto simp: moved_def reader_of_def)
next
  assume "\<exists>s. dec (reader_of bs) = (x, s) \<and> rgood s \<and> rpos s = length bs"
  then obtain s where s: "dec (reader_of bs) = (x, s)" "rgood s" "rpos s = length bs" by blast
  have "ready (reader_of bs)" by (simp add: ready_def reader_of_def)
  from canonical [OF this s(1,2)] s(3) show "bs = enc x" by (auto simp: consumed_def reader_of_def)
qed

end

text \<open>The same law for the primitive reads.\<close>

lemma do_read_bytes_good:
  assumes "ready r" "do_read_bytes n r = (d, s)" "rgood s"
  shows "consumed r d s" "length d = n"
proof -
  have n: "n \<le> length (rbuf r) - rpos r" and d: "d = take n (drop (rpos r) (rbuf r))"
    and s: "rbuf s = rbuf r" "rpos s = rpos r + n"
    using assms by (auto simp: do_read_bytes_def limiter_def istream_read_def invalidate_def
        Let_def ready_def split: if_splits)
  show "length d = n" using n d by simp
  moreover have "rpos r + n \<le> length (rbuf r)" using assms(1) n unfolding ready_def by arith
  ultimately show "consumed r d s" using n d s by (simp add: consumed_def)
qed

lemma do_read_bytes_sticky: "rgood (snd (do_read_bytes n r)) \<Longrightarrow> rgood r"
  by (auto simp: do_read_bytes_def limiter_def istream_read_def invalidate_def Let_def split: if_splits)

lemma read_bytes_sticky: "rgood (snd (read_bytes n r)) \<Longrightarrow> rgood r"
  using do_read_bytes_sticky [of n r] by (simp add: read_bytes_def split: if_splits)

lemma read_little_endian_sticky: "rgood (snd (read_little_endian n r)) \<Longrightarrow> rgood r"
  using do_read_bytes_sticky [of n r] by (simp add: read_little_endian_def case_prod_beta)

lemma read_byte_sticky: "rgood (snd (read_byte r)) \<Longrightarrow> rgood r"
  using do_read_bytes_sticky [of 1 r] by (simp add: read_byte_def case_prod_beta)

lemma invalidate_bad [simp]: "\<not> rgood (invalidate r)"
  by (simp add: invalidate_def)

lemma read_variable_sticky: "rgood (snd (read_variable r)) \<Longrightarrow> rgood r"
  using read_byte_sticky [of r] read_little_endian_sticky [of _ "snd (read_byte r)"]
  by (auto simp: read_variable_def case_prod_beta split: if_splits)

lemma read_size_sticky: "rgood (snd (read_size limit r)) \<Longrightarrow> rgood r"
  using read_variable_sticky [of r] by (auto simp: read_size_def case_prod_beta split: if_splits)

lemmas read_sticky = do_read_bytes_sticky read_bytes_sticky read_little_endian_sticky
  read_byte_sticky read_variable_sticky read_size_sticky

lemma read_little_endian_good:
  assumes "ready r" "read_little_endian n r = (v, s)" "rgood s"
  shows "consumed r (le_bytes n v) s" "v < 256 ^ n"
proof -
  obtain d where d: "do_read_bytes n r = (d, s)" "v = le_value d"
    using assms(2) by (auto simp: read_little_endian_def split: prod.splits)
  note g = do_read_bytes_good [OF assms(1) d(1) assms(3)]
  have "le_bytes n v = d" using le_bytes_le_value [of d] g(2) d(2) by simp
  with g show "consumed r (le_bytes n v) s" by simp
  show "v < 256 ^ n" using le_value_bound [of d] d(2) g(2) by simp
qed

lemma read_byte_good:
  assumes "ready r" "read_byte r = (b, s)" "rgood s"
  shows "consumed r [b] s"
proof -
  obtain d where d: "do_read_bytes 1 r = (d, s)" "b = hd d"
    using assms(2) by (auto simp: read_byte_def split: prod.splits)
  note g = do_read_bytes_good [OF assms(1) d(1) assms(3)]
  have "d = [b]" using d(2) g(2) by (cases d) auto
  with g show "consumed r [b] s" by simp
qed

text \<open>A variable length integer is accepted only in its shortest form.\<close>

lemma read_variable_good:
  assumes "ready r" "read_variable r = (v, s)" "rgood s"
  shows "consumed r (write_variable v) s" "v \<le> max_uint64"
proof -
  obtain b r1 where b: "read_byte r = (b, r1)" by fastforce
  have more: "consumed r (b # le_bytes n v) s \<and> v < 256 ^ n"
    if "read_little_endian n r1 = (v, s)" for n
  proof -
    have "rgood r1" using read_little_endian_sticky [of n r1] that assms(3) by simp
    then have c: "consumed r [b] r1" "ready r1"
      using read_byte_good [OF assms(1) b] consumed_ready by blast+
    from read_little_endian_good [OF c(2) that assms(3)] consumed_trans [OF c(1)] show ?thesis by force
  qed
  consider "b = varint_eight_bytes" "read_little_endian 8 r1 = (v, s)" "v > max_uint32"
    | "b = varint_four_bytes" "read_little_endian 4 r1 = (v, s)" "v > max_uint16"
    | "b = varint_two_bytes" "read_little_endian 2 r1 = (v, s)" "v \<ge> unat varint_two_bytes"
    | "b \<noteq> varint_eight_bytes" "b \<noteq> varint_four_bytes" "b \<noteq> varint_two_bytes" "v = unat b" "s = r1"
    using assms(2,3) b by (auto simp: read_variable_def split: if_splits prod.splits)
  then have "consumed r (write_variable v) s \<and> v \<le> max_uint64"
  proof cases
    case 4
    have "unat b \<noteq> 255" "unat b \<noteq> 254" "unat b \<noteq> 253" "unat b < 256"
      using 4 unat_byte_less [of b] by (auto simp: varint_simps word_unat_eq_iff)
    then have "v < 253" using 4(4) by linarith
    then show ?thesis
      using read_byte_good [OF assms(1) b] assms(3) 4
      by (simp add: write_variable_def write_byte_def varint_simps limits)
  qed (use more [of 8] more [of 4] more [of 2] in \<open>simp_all add: write_variable_def write_byte_def
      write_little_endian_def varint_simps limits\<close>)
  then show "consumed r (write_variable v) s" "v \<le> max_uint64" by simp_all
qed

lemma read_size_good:
  assumes "ready r" "read_size limit r = (v, s)" "rgood s"
  shows "consumed r (write_variable v) s" "v \<le> max_uint64" "v \<le> limit"
proof -
  obtain w t where w: "read_variable r = (w, t)" by fastforce
  then have "w = v" "t = s" "v \<le> limit" using assms(2,3) by (auto simp: read_size_def split: if_splits)
  with read_variable_good [OF assms(1) w] assms(3)
  show "consumed r (write_variable v) s" "v \<le> max_uint64" "v \<le> limit" by simp_all
qed

section \<open>Vectors of objects\<close>

text \<open>
  \<open>read_puts\<close> (\<open>transaction.cpp\<close>) reads a count and then that many objects; the loop does not
  look at the state of the stream.
\<close>

fun read_each :: "(reader \<Rightarrow> 'a \<times> reader) \<Rightarrow> nat \<Rightarrow> reader \<Rightarrow> 'a list \<times> reader" where
  "read_each dec 0 r = ([], r)"
| "read_each dec (Suc n) r = (let (x, s) = dec r; (xs, t) = read_each dec n s in (x # xs, t))"

definition max_count :: nat where "max_count = max_block_size"

definition read_puts :: "(reader \<Rightarrow> 'a \<times> reader) \<Rightarrow> reader \<Rightarrow> 'a list \<times> reader" where
  "read_puts dec r = (let (count, s) = read_size max_count r in read_each dec count s)"

definition write_puts :: "('a \<Rightarrow> data_chunk) \<Rightarrow> 'a list \<Rightarrow> data_chunk" where
  "write_puts enc xs = write_variable (length xs) @ concat (map enc xs)"

definition puts_ok :: "('a \<Rightarrow> bool) \<Rightarrow> 'a list \<Rightarrow> bool" where
  "puts_ok ok xs \<longleftrightarrow> length xs \<le> max_count \<and> list_all ok xs"

lemma max_count_less: "max_count \<le> max_uint64"
  by (simp add: max_count_def max_block_size_def limits)

context codec
begin

lemma read_each_concat:
  "list_all ok xs \<Longrightarrow> feeds r (concat (map enc xs)) \<Longrightarrow>
   fst (read_each dec (length xs) r) = xs \<and>
   moved r (length (concat (map enc xs))) (snd (read_each dec (length xs) r))"
proof (induction xs arbitrary: r)
  case Nil
  then show ?case by (simp add: moved_refl feeds_def)
next
  case (Cons x xs)
  from Cons.prems obtain s where s: "dec r = (x, s)" "moved r (length (enc x)) s"
      "feeds s (concat (map enc xs))"
    using dec_enc_then [of x r "concat (map enc xs)"] by auto
  with Cons.IH [OF _ s(3)] Cons.prems(1) moved_trans [OF s(2)] show ?case
    by (auto split: prod.splits)
qed

lemma puts_roundtrip:
  assumes "puts_ok ok xs" "feeds r (write_puts enc xs)"
  shows "fst (read_puts dec r) = xs \<and> moved r (length (write_puts enc xs)) (snd (read_puts dec r))"
proof -
  let ?b = "concat (map enc xs)"
  have n: "length xs \<le> max_count" "list_all ok xs" using assms(1) by (simp_all add: puts_ok_def)
  have f: "feeds r (write_variable (length xs) @ ?b)" using assms(2) by (simp add: write_puts_def)
  obtain s where s: "read_size max_count r = (length xs, s)"
      "moved r (length (write_variable (length xs))) s"
    using read_size_moved [OF feeds_appendD [OF f] n(1)] n(1) max_count_less by auto
  from read_each_concat [OF n(2) feeds_moved [OF f s(2)]] moved_trans [OF s(2)] s(1)
  show ?thesis by (auto simp: read_puts_def write_puts_def)
qed

lemma puts_codec: "codec (write_puts enc) (read_puts dec) (puts_ok ok)"
  by unfold_locales (rule puts_roundtrip)

end

context canonical_codec
begin

lemma read_each_sticky: "rgood (snd (read_each dec n r)) \<Longrightarrow> rgood r"
  by (induction n arbitrary: r) (auto simp: case_prod_beta dest: sticky)

lemma read_each_canonical:
  "ready r \<Longrightarrow> read_each dec n r = (xs, s) \<Longrightarrow> rgood s \<Longrightarrow>
   length xs = n \<and> list_all ok xs \<and> consumed r (concat (map enc xs)) s"
proof (induction n arbitrary: r xs)
  case 0
  then show ?case by (auto simp: consumed_refl)
next
  case (Suc n)
  obtain x t where x: "dec r = (x, t)" by fastforce
  obtain ys where ys: "read_each dec n t = (ys, s)" "xs = x # ys"
    using Suc.prems(2) x by (auto split: prod.splits)
  have t: "rgood t" using read_each_sticky [of n t] ys(1) Suc.prems(3) by simp
  have c: "ok x" "consumed r (enc x) t" using canonical [OF Suc.prems(1) x t] by simp_all
  from Suc.IH [OF consumed_ready [OF c(2) t] ys(1) Suc.prems(3)] consumed_trans [OF c(2)] c(1) ys(2)
  show ?case by simp
qed

lemma puts_canonical_codec: "canonical_codec (write_puts enc) (read_puts dec) (puts_ok ok)"
proof (intro canonical_codec.intro puts_codec canonical_codec_axioms.intro)
  show "rgood r" if "rgood (snd (read_puts dec r))" for r
    using that read_each_sticky [of "fst (read_size max_count r)" "snd (read_size max_count r)"]
      read_size_sticky [of max_count r]
    by (simp add: read_puts_def case_prod_beta)
  show "puts_ok ok xs \<and> consumed r (write_puts enc xs) s"
    if "ready r" "read_puts dec r = (xs, s)" "rgood s" for r xs s
  proof -
    obtain n t where n: "read_size max_count r = (n, t)" by fastforce
    then have xs: "read_each dec n t = (xs, s)" using that(2) by (simp add: read_puts_def)
    then have t: "rgood t" using read_each_sticky [of n t] that(3) by simp
    note sz = read_size_good [OF that(1) n t]
    have "length xs = n" "list_all ok xs" "consumed t (concat (map enc xs)) s"
      using read_each_canonical [OF consumed_ready [OF sz(1) t] xs that(3)] by simp_all
    then show ?thesis using sz consumed_trans [OF sz(1)] by (simp add: puts_ok_def write_puts_def)
  qed
qed

end

end
