(* ===== verification/Script.thy ===== *)
theory Script
  imports Codec
begin

text \<open>
  Scripts (\<open>src/chain/script.cpp\<close>, \<open>src/chain/script_extract.cpp\<close>): deserialization with and
  without a size prefix, serialization from the current offset, the flags a script caches
  about its operations, and signature operation counting, once over the parsed operations and
  once directly over the stream.

  The iterator \<open>offset\<close> into the operations is an index. \<open>op_count\<close> only sizes a reservation
  in the code, but it moves the stream and its limit, so it is modelled with its effect.
\<close>

section \<open>Progress of the stream\<close>

text \<open>No read moves the stream backwards or changes its buffer; the loops below stop for that.\<close>

lemma skip_bytes_mono: "rbuf (skip_bytes n r) = rbuf r" "rpos r \<le> rpos (skip_bytes n r)"
  by (auto simp: skip_bytes_def limiter_def seek_forward_def invalidate_def split: if_splits)

lemma read_data_size_mono:
  assumes "ready r" "read_data_size c r = (sz, s)"
  shows "rbuf s = rbuf r \<and> rpos r \<le> rpos s"
proof (cases "header_size c \<le> length (window r)")
  case True
  then show ?thesis using assms read_data_size_window by fastforce
next
  case False
  then show ?thesis using read_data_size_short(2) [OF assms(1) _ assms(2)] by (simp add: lost_def)
qed

lemma count_op_progress:
  assumes "count_op r = (True, s)"
  shows "rbuf s = rbuf r" "rpos r < rpos s" "rpos r < length (rbuf r)"
proof -
  from assms have ne: "\<not> get_exhausted r" by (auto simp: count_op_def split: if_splits)
  then obtain c t where r: "ready r" "window r = c # t"
    using not_exhausted_ready by (metis neq_Nil_conv)
  have r1: "ready (advance 1 r)" using ready_advance [OF r(1), of 1] r(2) by simp
  obtain sz s2 where d: "read_data_size c (advance 1 r) = (sz, s2)" by fastforce
  have s: "s = skip_bytes sz s2"
    using assms ne d read_byte_window [OF r] by (simp add: count_op_def)
  have m: "rbuf s2 = rbuf r" "rpos r + 1 \<le> rpos s2"
    using read_data_size_mono [OF r1 d] by simp_all
  show "rbuf s = rbuf r" "rpos r < rpos s" using m skip_bytes_mono [where n = sz and r = s2] s by simp_all
  show "rpos r < length (rbuf r)" using window_le(2) [of r] r by simp
qed

lemma count_op_measure:
  "count_op r = (True, s) \<Longrightarrow> length (rbuf s) - rpos s < length (rbuf r) - rpos r"
  using count_op_progress [of r s] by simp

lemma operation_from_data_progress:
  assumes "\<not> get_exhausted r"
  shows "rbuf (snd (operation_from_data r)) = rbuf r"
    "rpos r < rpos (snd (operation_from_data r))" "rpos r < length (rbuf r)"
proof -
  have r: "ready r" "window r \<noteq> []" using not_exhausted_ready [OF assms] by simp_all
  show "rpos r < length (rbuf r)" using window_le(2) [of r] r by (cases "window r") simp_all
  have "rbuf (snd (operation_from_data r)) = rbuf r \<and> rpos r < rpos (snd (operation_from_data r))"
  proof (cases "parse_op (window r)")
    case None
    obtain l where "operation_from_data r =
        (underflow_op (window r), advance (length (window r)) (r\<lparr>rlimit := l\<rparr>))"
      using operation_from_data_underflow [OF r None] .
    with r show ?thesis by simp
  next
    case (Some a)
    then obtain op rest where "parse_op (window r) = Some (op, rest)" by (cases a) auto
    with operation_from_data_complete [OF r(1) this] parse_op_shorter [OF this]
    show ?thesis by simp
  qed
  then show "rbuf (snd (operation_from_data r)) = rbuf r"
    "rpos r < rpos (snd (operation_from_data r))" by simp_all
qed

lemma operation_from_data_measure:
  "\<not> get_exhausted r \<Longrightarrow> operation_from_data r = (op, s) \<Longrightarrow>
   length (rbuf s) - rpos s < length (rbuf r) - rpos r"
  using operation_from_data_progress [of r] by simp

section \<open>Scripts\<close>

record script =
  script_ops :: "operation list"
  script_valid :: bool
  script_easier :: bool
  script_failer :: bool
  script_roller :: bool
  script_size :: nat
  script_offset :: nat

definition make_script :: "operation list \<Rightarrow> bool \<Rightarrow> nat \<Rightarrow> script" where
  "make_script ops valid sz = \<lparr>script_ops = ops, script_valid = valid,
     script_easier = list_ex (\<lambda>op. is_success (op_code op)) ops,
     script_failer = list_ex (\<lambda>op. is_invalid (op_code op)) ops,
     script_roller = list_ex (\<lambda>op. is_roller (op_code op)) ops,
     script_size = sz, script_offset = 0\<rparr>"

definition default_script :: script where
  "default_script = \<lparr>script_ops = [], script_valid = False, script_easier = False,
     script_failer = False, script_roller = False, script_size = 0, script_offset = 0\<rparr>"

definition script_equal :: "script \<Rightarrow> script \<Rightarrow> bool" where
  "script_equal a b \<longleftrightarrow> script_size a = script_size b \<and> list_all2 operation_equal (script_ops a) (script_ops b)"

definition op_size :: "nat \<Rightarrow> operation \<Rightarrow> nat" where
  "op_size acc op = ceilinged_add acc (operation_serialized_size op)"

definition ops_serialized_size :: "operation list \<Rightarrow> nat" where
  "ops_serialized_size ops = foldl op_size 0 ops"

definition from_operations :: "operation list \<Rightarrow> script" where
  "from_operations ops = make_script ops True (ops_serialized_size ops)"

section \<open>Deserialization\<close>

function count_ops :: "nat \<Rightarrow> reader \<Rightarrow> nat \<times> reader" where
  "count_ops n r = (case count_op r of (True, s) \<Rightarrow> count_ops (Suc n) s | (False, s) \<Rightarrow> (n, s))"
  by pat_completeness auto
termination
  by (relation "measure (\<lambda>(n, r). length (rbuf r) - rpos r)")
    (auto dest!: count_op_measure [OF sym])

declare count_ops.simps [simp del]

definition op_count :: "reader \<Rightarrow> nat \<times> reader" where
  "op_count r = (if \<not> rgood r then (0, r)
     else let start = get_read_position r in
       case count_ops 0 r of (n, s) \<Rightarrow> (n, set_position start s))"

function read_ops :: "reader \<Rightarrow> operation list \<times> reader" where
  "read_ops r = (if get_exhausted r then ([], r)
     else let (op, s) = operation_from_data r; (ops, t) = read_ops s in (op # ops, t))"
  by pat_completeness auto
termination
  by (relation "measure (\<lambda>r. length (rbuf r) - rpos r)")
    (auto dest: operation_from_data_measure [OF _ sym])

declare read_ops.simps [simp del]

definition script_from_data :: "reader \<Rightarrow> bool \<Rightarrow> script \<times> reader" where
  "script_from_data r prefix =
     (let (expected, r1) = (if prefix
            then (case read_size max_size_t r of (n, s) \<Rightarrow> (n, set_limit n s)) else (0, r));
          (_, r2) = op_count r1;
          start = get_read_position r2;
          (ops, r3) = read_ops r2;
          sz = get_read_position r3 - start;
          r4 = (if prefix
            then (let s = set_limit max_size_t r3 in if sz \<noteq> expected then invalidate s else s) else r3)
      in (make_script ops (rgood r4) sz, r4))"

section \<open>Serialization\<close>

definition script_serialized_size :: "script \<Rightarrow> bool \<Rightarrow> nat" where
  "script_serialized_size s prefix =
     (let sz = (if script_offset s = 0 then script_size s
            else ops_serialized_size (drop (script_offset s) (script_ops s)))
      in if prefix then ceilinged_add sz (variable_size sz) else sz)"

definition script_to_data :: "script \<Rightarrow> bool \<Rightarrow> data_chunk" where
  "script_to_data s prefix =
     (if prefix then write_variable (script_serialized_size s False) else []) @
     concat (map operation_to_data (drop (script_offset s) (script_ops s)))"

definition clear_offset :: "script \<Rightarrow> script" where
  "clear_offset s = s\<lparr>script_offset := 0\<rparr>"

section \<open>Properties\<close>

definition script_is_underflow :: "script \<Rightarrow> bool" where
  "script_is_underflow s \<longleftrightarrow> script_failer s \<and> op_underflow (last (script_ops s))"

definition max_script_size :: nat where "max_script_size = 20000 div 2"

definition script_is_oversized :: "script \<Rightarrow> bool" where
  "script_is_oversized s \<longleftrightarrow> script_serialized_size s False > max_script_size"

definition is_unspendable :: "script \<Rightarrow> bool" where
  "is_unspendable s = (case script_ops s of [] \<Rightarrow> False
     | op # _ \<Rightarrow> is_reserved (op_code op) \<or> is_invalid (op_code op))"

section \<open>Signature operations\<close>

definition multisig_default_sigops :: nat where "multisig_default_sigops = 20"

definition multisig_sigops :: "bool \<Rightarrow> opcode \<Rightarrow> nat" where
  "multisig_sigops accurate code = (if accurate \<and> is_positive code
     then unat (opcode_to_positive code) else multisig_default_sigops)"

definition is_single_sigop :: "opcode \<Rightarrow> bool" where
  "is_single_sigop code \<longleftrightarrow> code = opcode_checksig \<or> code = opcode_checksigverify"

definition is_multiple_sigop :: "opcode \<Rightarrow> bool" where
  "is_multiple_sigop code \<longleftrightarrow> code = opcode_checkmultisig \<or> code = opcode_checkmultisigverify"

definition sigop_step :: "bool \<Rightarrow> opcode \<Rightarrow> opcode \<Rightarrow> nat \<Rightarrow> nat" where
  "sigop_step accurate last_code code acc =
     (if is_single_sigop code then ceilinged_add acc 1
      else if is_multiple_sigop code then ceilinged_add acc (multisig_sigops accurate last_code)
      else acc)"

fun count_sigops :: "bool \<Rightarrow> opcode list \<Rightarrow> opcode \<Rightarrow> nat \<Rightarrow> nat" where
  "count_sigops accurate [] last_code acc = acc"
| "count_sigops accurate (code # codes) last_code acc =
     count_sigops accurate codes code (sigop_step accurate last_code code acc)"

definition signature_operations :: "script \<Rightarrow> bool \<Rightarrow> nat" where
  "signature_operations s accurate =
     count_sigops accurate (map op_code (script_ops s)) opcode_push_negative_1 0"

text \<open>The same count from the stream, without building the operations.\<close>

function stream_sigops :: "bool \<Rightarrow> reader \<Rightarrow> opcode \<Rightarrow> nat \<Rightarrow> nat" where
  "stream_sigops accurate r last_code acc = (if get_exhausted r then acc
     else let (code, r1) = read_byte r; (sz, r2) = read_data_size code r1; r3 = skip_bytes sz r2
       in stream_sigops accurate r3 code (sigop_step accurate last_code code acc))"
  by pat_completeness auto
termination
proof (relation "measure (\<lambda>(accurate, r, last_code, acc). length (rbuf r) - rpos r)", simp, clarsimp)
  fix r :: reader and code r1 sz r2
  assume "\<not> get_exhausted r" "(code, r1) = read_byte r" "(sz, r2) = read_data_size code r1"
  then have "count_op r = (True, skip_bytes sz r2)"
    by (simp add: count_op_def) (metis case_prod_conv)
  from count_op_progress [OF this]
  show "length (rbuf (skip_bytes sz r2)) - rpos (skip_bytes sz r2) < length (rbuf r) - rpos r"
    by simp
qed

declare stream_sigops.simps [simp del]

definition signature_operations_stream :: "reader \<Rightarrow> bool \<Rightarrow> nat" where
  "signature_operations_stream r accurate = stream_sigops accurate r opcode_push_negative_1 0"

section \<open>The stream parser refines the abstract parser\<close>

lemma read_ops_refines:
  "ready r \<Longrightarrow> \<exists>s. read_ops r = (parse_ops (window r), s) \<and> ready s \<and> rbuf s = rbuf r \<and>
     rpos s = rpos r + length (window r)"
proof (induction r rule: read_ops.induct)
  case (1 r)
  show ?case
  proof (cases "get_exhausted r")
    case True
    then show ?thesis using "1.prems"
      by (simp add: read_ops.simps [of r] parse_ops.simps get_exhausted_window)
  next
    case False
    then have w: "window r \<noteq> []" using not_exhausted_ready by blast
    show ?thesis
    proof (cases "parse_op (window r)")
      case None
      obtain l where l: "operation_from_data r =
          (underflow_op (window r), advance (length (window r)) (r\<lparr>rlimit := l\<rparr>))"
        "length (window r) \<le> unat l" "unat l \<le> remaining r"
        using operation_from_data_underflow [OF "1.prems" w None] .
      let ?s = "advance (length (window r)) (r\<lparr>rlimit := l\<rparr>)"
      have wl: "window (r\<lparr>rlimit := l\<rparr>) = window r" using l(2,3) by (rule window_rlimit)
      have s: "ready ?s" "window ?s = []"
        using "1.prems" wl ready_advance [of "r\<lparr>rlimit := l\<rparr>"] window_advance [of _ "r\<lparr>rlimit := l\<rparr>"]
        by (simp_all add: ready_def)
      then have "read_ops ?s = ([], ?s)" by (simp add: read_ops.simps [of ?s] get_exhausted_window)
      then show ?thesis using False l(1) s w None
        by (simp add: read_ops.simps [of r] parse_ops.simps [of "window r"])
    next
      case (Some a)
      then obtain op rest where p: "parse_op (window r) = Some (op, rest)" by (cases a) auto
      let ?k = "length (window r) - length rest"
      have o: "operation_from_data r = (op, advance ?k r)"
        by (rule operation_from_data_complete [OF "1.prems" p])
      have k: "length rest \<le> length (window r)" using parse_op_shorter [OF p] by simp
      have "drop ?k (operation_to_data op @ rest) = rest"
        by (simp add: parse_op_to_data [OF p, symmetric])
      then have wk: "window (advance ?k r) = rest"
        by (simp add: window_advance parse_op_to_data [OF p])
      have rk: "ready (advance ?k r)" by (rule ready_advance [OF "1.prems"]) simp
      obtain s where s: "read_ops (advance ?k r) = (parse_ops rest, s)" "ready s" "rbuf s = rbuf r"
          "rpos s = rpos r + length (window r)"
        using "1.IH" [OF False o [symmetric] refl rk] wk k by auto
      have "read_ops r = (op # parse_ops rest, s)" using False o s(1) by (simp add: read_ops.simps [of r])
      moreover have "parse_ops (window r) = op # parse_ops rest"
        using w p by (simp add: parse_ops.simps [of "window r"])
      ultimately show ?thesis using s by simp
    qed
  qed
qed

text \<open>
  The limit lies inside the stream, or so far beyond its end that a failed skip cannot
  matter: the two ways in which scripts are read (with a size prefix, or to the end of a
  buffer).
\<close>

definition bounded :: "reader \<Rightarrow> bool" where
  "bounded r \<longleftrightarrow> rpos r + remaining r \<le> length (rbuf r) \<or>
     length (rbuf r) + 2 ^ 33 \<le> rpos r + remaining r"

lemma bounded_advance: "bounded r \<Longrightarrow> n \<le> length (window r) \<Longrightarrow> bounded (advance n r)"
  using window_le [of r] by (auto simp: bounded_def)

lemma do_read_bytes_remaining:
  "do_read_bytes n r = (d, s) \<Longrightarrow> remaining r \<le> remaining s + n"
  using unat_sub_nat [of n "rlimit r"]
  by (auto simp: do_read_bytes_def limiter_def istream_read_def invalidate_def Let_def split: if_splits)

lemma read_data_size_remaining:
  "read_data_size c r = (sz, s) \<Longrightarrow> remaining r \<le> remaining s + 4"
  by (auto simp: read_data_size_def read_byte_def read_little_endian_def
      split: prod.splits if_splits dest!: do_read_bytes_remaining)

lemma claimed_size_bound: "claimed_size c t < 2 ^ 32"
proof -
  have "header_size c \<le> 4" by (simp add: header_size_def)
  then have "le_value (take (header_size c) t) < 256 ^ 4"
    by (intro le_value_less_pow) simp
  moreover have "unat c < 2 ^ 32" by (rule less_trans [OF unat_byte_less]) simp
  ultimately show ?thesis by (simp add: claimed_size_def)
qed

lemma skip_bytes_bad: "\<not> rgood s \<Longrightarrow> \<not> rgood (skip_bytes n s) \<and> rpos (skip_bytes n s) = rpos s \<and>
    rbuf (skip_bytes n s) = rbuf s \<and> remaining (skip_bytes n s) \<le> remaining s \<and>
    remaining s \<le> remaining (skip_bytes n s) + n"
  using unat_sub_nat [of n "rlimit s"]
  by (auto simp: skip_bytes_def limiter_def seek_forward_def invalidate_def)

lemma skip_bytes_short:
  assumes "ready r" "length (window r) < n" "bounded r" "n < 2 ^ 32"
  shows "\<not> rgood (skip_bytes n r)" "lost r (skip_bytes n r)"
proof -
  have c: "n > remaining r \<or> (n \<le> remaining r \<and> n > length (rbuf r) - rpos r)"
    using assms(2) by (auto simp: length_window)
  then show "\<not> rgood (skip_bytes n r)"
    using assms(1) by (auto simp: skip_bytes_def limiter_def seek_forward_def invalidate_def ready_def)
  show "lost r (skip_bytes n r)"
  proof (cases "n > remaining r")
    case True
    then show ?thesis using lost_refl [OF assms(1)] by (simp add: skip_bytes_def limiter_def)
  next
    case False
    then have far: "length (rbuf r) + 2 ^ 33 \<le> rpos r + remaining r"
      using c assms(1,3) by (auto simp: bounded_def ready_def)
    have "skip_bytes n r = invalidate (r\<lparr>rlimit := rlimit r - word_of_nat n\<rparr>)"
      using False c assms(1) by (simp add: skip_bytes_def limiter_def seek_forward_def ready_def)
    then show ?thesis
      using False far assms(1,4) window_le [of r]
      by (simp add: lost_def ready_def unat_sub_nat invalidate_def)
  qed
qed

lemma lost_cong: "lost r s \<Longrightarrow> rbuf s' = rbuf s \<Longrightarrow> rpos s' = rpos s \<Longrightarrow>
    remaining s' = remaining s \<Longrightarrow> lost r s'"
  by (simp only: lost_def)

text \<open>Skipping one operation either passes over it or fails and leaves a lost reader.\<close>

lemma count_op_cases:
  assumes "ready r" "bounded r" "window r = c # t"
  obtains (pass) k where "count_op r = (True, advance k r)" "k \<le> length (window r)"
      "k = 1 + header_size c + claimed_size c t" "header_size c \<le> length t"
    | (fail) s where "count_op r = (True, s)" "\<not> rgood s" "lost r s"
      "length t < header_size c \<or> length (drop (header_size c) t) < claimed_size c t"
proof -
  let ?h = "header_size c" and ?n = "claimed_size c t"
  have ne: "\<not> get_exhausted r" using assms get_exhausted_window by auto
  have r1: "ready (advance 1 r)" "window (advance 1 r) = t" "bounded (advance 1 r)"
    using assms bounded_advance [OF assms(2), of 1] by (simp_all add: ready_advance window_advance)
  have lost1: "lost (advance 1 r) s \<Longrightarrow> lost r s" for s
    using lost_advance [OF assms(1), of 1 s] assms(3) by simp
  obtain sz r2 where d: "read_data_size c (advance 1 r) = (sz, r2)" by fastforce
  have co: "count_op r = (True, skip_bytes sz r2)"
    using ne d read_byte_window [OF assms(1,3)] by (simp add: count_op_def)
  show thesis
  proof (cases "length t < ?h")
    case True
    note short = read_data_size_short [OF r1(1) _ d, unfolded r1(2), OF True]
    note skip = skip_bytes_bad [OF short(1), of sz]
    have "lost (advance 1 r) (skip_bytes sz r2)"
    proof (cases "rpos (advance 1 r) + remaining (advance 1 r) \<le> length (rbuf r)")
      case True
      then have "sz = 0" using short(4) by simp
      with skip have "remaining (skip_bytes sz r2) = remaining r2" by simp
      then show ?thesis using lost_cong [OF short(2)] skip by blast
    next
      case False
      then show ?thesis
        using r1(3) short(2,3) skip read_data_size_remaining [OF d] window_le(2) [of "advance 1 r"]
        by (auto simp: lost_def bounded_def)
    qed
    then show ?thesis using fail [OF co] skip lost1 True by blast
  next
    case False
    then have sz: "sz = ?n" "r2 = advance (1 + ?h) r"
      using read_data_size_window [OF r1(1), of c] r1(2) d by simp_all
    have r2: "ready r2" "window r2 = drop ?h t" "bounded r2"
      using ready_advance [OF r1(1), of ?h] window_advance [of ?h "advance 1 r"]
        bounded_advance [OF r1(3), of ?h] r1 False sz(2) by simp_all
    have lost2: "lost r2 s \<Longrightarrow> lost r s" for s
      using lost_advance [OF r1(1), of ?h s] lost1 r1(2) False sz(2) by simp
    show ?thesis
    proof (cases "?n \<le> length (drop ?h t)")
      case True
      then have "skip_bytes sz r2 = advance (1 + ?h + ?n) r"
        using skip_bytes_window [OF r2(1), of ?n] r2(2) sz by simp
      then show ?thesis using pass co True False assms(3) by simp
    next
      case short: False
      then show ?thesis
        using fail [OF co] skip_bytes_short [OF r2(1) _ r2(3)] claimed_size_bound r2(2) sz(1) lost2 by simp
    qed
  qed
qed

lemma count_op_exhausted: "get_exhausted r \<Longrightarrow> count_op r = (False, r)"
  by (simp add: count_op_def)

lemma count_ops_lost: "ready r \<Longrightarrow> bounded r \<Longrightarrow> lost r (snd (count_ops n r))"
proof (induction n r rule: count_ops.induct)
  case (1 n r)
  show ?case
  proof (cases "window r")
    case Nil
    then show ?thesis using "1.prems" lost_refl
      by (simp add: count_ops.simps [of n r] count_op_exhausted get_exhausted_window)
  next
    case (Cons c t)
    from "1.prems" Cons show ?thesis
    proof (cases rule: count_op_cases)
      case (pass k)
      then have "lost (advance k r) (snd (count_ops (Suc n) (advance k r)))"
        using "1.IH" [OF pass(1) [symmetric] refl] "1.prems" ready_advance bounded_advance by simp
      then show ?thesis using lost_advance "1.prems"(1) pass
        by (simp add: count_ops.simps [of n r])
    next
      case (fail s)
      then show ?thesis
        by (simp add: count_ops.simps [of n r] count_ops.simps [of _ s] count_op_exhausted
            get_exhausted_def)
    qed
  qed
qed

text \<open>
  Counting the operations ahead of reading them moves the stream back to where it started;
  the limit may shrink, but not below what the script occupies.
\<close>

lemma op_count_window:
  assumes "ready r" "bounded r"
  obtains l n where "op_count r = (n, r\<lparr>rlimit := l\<rparr>)" "window (r\<lparr>rlimit := l\<rparr>) = window r"
    "ready (r\<lparr>rlimit := l\<rparr>)"
proof -
  obtain n s where c: "count_ops 0 r = (n, s)" by fastforce
  have "lost r s" using count_ops_lost [OF assms, of 0] c by simp
  then obtain l where l: "set_position (rpos r) s = r\<lparr>rlimit := l\<rparr>" "length (window r) \<le> unat l"
      "unat l \<le> remaining r"
    using set_position_lost [OF assms(1)] by blast
  show thesis
  proof
    show "op_count r = (n, r\<lparr>rlimit := l\<rparr>)"
      using assms(1) c l(1) by (simp add: op_count_def get_read_position_def ready_def)
    show "window (r\<lparr>rlimit := l\<rparr>) = window r" using window_rlimit [OF l(2,3)] .
    show "ready (r\<lparr>rlimit := l\<rparr>)" using assms(1) by (simp add: ready_def)
  qed
qed

lemma script_from_data_body:
  assumes "ready r" "bounded r"
  obtains l n s where "op_count r = (n, r\<lparr>rlimit := l\<rparr>)"
    "read_ops (r\<lparr>rlimit := l\<rparr>) = (parse_ops (window r), s)" "ready s" "rbuf s = rbuf r"
    "rpos s = rpos r + length (window r)"
proof -
  obtain l n where l: "op_count r = (n, r\<lparr>rlimit := l\<rparr>)" "window (r\<lparr>rlimit := l\<rparr>) = window r"
      "ready (r\<lparr>rlimit := l\<rparr>)"
    using op_count_window [OF assms] .
  from read_ops_refines [OF l(3)] l show thesis using that by auto
qed

section \<open>Any byte vector is a valid script\<close>

lemma script_from_data_unprefixed:
  assumes "ready r" "bounded r"
  shows "fst (script_from_data r False) = make_script (parse_ops (window r)) True (length (window r))"
proof -
  obtain l n s where s: "op_count r = (n, r\<lparr>rlimit := l\<rparr>)"
    "read_ops (r\<lparr>rlimit := l\<rparr>) = (parse_ops (window r), s)" "ready s" "rbuf s = rbuf r"
    "rpos s = rpos r + length (window r)"
    using script_from_data_body [OF assms] .
  then show ?thesis
    by (simp add: script_from_data_def get_read_position_def ready_def)
qed

lemma reader_of_window:
  "length bs + 2 ^ 33 \<le> max_size_t \<Longrightarrow>
   ready (reader_of bs) \<and> bounded (reader_of bs) \<and> window (reader_of bs) = bs"
  by (simp add: ready_def reader_of_def bounded_def window_def limits)

definition script_of_bytes :: "data_chunk \<Rightarrow> script" where
  "script_of_bytes bs = fst (script_from_data (reader_of bs) False)"

lemma script_of_bytes_parse:
  "length bs + 2 ^ 33 \<le> max_size_t \<Longrightarrow>
   script_of_bytes bs = make_script (parse_ops bs) True (length bs)"
  using reader_of_window [of bs] script_from_data_unprefixed [of "reader_of bs"]
  by (simp add: script_of_bytes_def)

lemma script_to_data_make [simp]:
  "script_to_data (make_script ops valid sz) False = concat (map operation_to_data ops)"
  by (simp add: script_to_data_def make_script_def)

section \<open>Well formed operation sequences\<close>

definition underflow_wf :: "operation \<Rightarrow> bool" where
  "underflow_wf op \<longleftrightarrow> get_data op \<noteq> [] \<and> parse_op (get_data op) = None \<and>
     op = underflow_op (get_data op)"

fun ops_wf :: "operation list \<Rightarrow> bool" where
  "ops_wf [] = True"
| "ops_wf (op # ops) = (if op_underflow op then ops = [] \<and> underflow_wf op
     else operation_wf op \<and> ops_wf ops)"

lemma operation_to_data_nonempty [simp]: "operation_wf op \<Longrightarrow> operation_to_data op \<noteq> []"
  by (simp add: operation_to_data_header operation_wf_def)

lemma ops_wf_parse: "ops_wf (parse_ops w)"
proof (induction w rule: parse_ops.induct)
  case (1 w)
  show ?case
  proof (cases "w = [] \<or> parse_op w = None")
    case True
    then show ?thesis
      by (auto simp: parse_ops.simps [of w] underflow_wf_def underflow_op_def get_data_def)
  next
    case False
    then obtain op rest where p: "w \<noteq> []" "parse_op w = Some (op, rest)" by auto
    then show ?thesis using "1.IH" [OF p(1) p(2) refl] parse_op_wf [OF p(2)]
      by (simp add: parse_ops.simps [of w] operation_wf_def)
  qed
qed

lemma parse_ops_concat: "ops_wf ops \<Longrightarrow> parse_ops (concat (map operation_to_data ops)) = ops"
proof (induction ops)
  case Nil
  then show ?case by (simp add: parse_ops.simps)
next
  case (Cons op ops)
  show ?case
  proof (cases "op_underflow op")
    case True
    then have u: "ops = []" "underflow_wf op" using Cons.prems by simp_all
    then have "operation_to_data op = get_data op" by (metis operation_to_data_underflow underflow_wf_def)
    with u show ?thesis
      by (auto simp: underflow_wf_def parse_ops.simps [of "get_data op"] split: option.splits)
  next
    case False
    then have w: "operation_wf op" "ops_wf ops" using Cons.prems by simp_all
    let ?w = "operation_to_data op @ concat (map operation_to_data ops)"
    have "?w \<noteq> []" using w(1) by simp
    then show ?thesis using parse_op_operation_to_data [OF w(1)] Cons.IH [OF w(2)]
      by (simp add: parse_ops.simps [of ?w])
  qed
qed

text \<open>The cached size is the length of the serialization.\<close>

lemma ops_serialized_size_length:
  "ops_serialized_size ops = min max_size_t (length (concat (map operation_to_data ops)))"
  using foldl_ceilinged [of 0 operation_serialized_size ops]
  by (simp add: ops_serialized_size_def op_size_def [abs_def] length_concat comp_def
      length_operation_to_data)

section \<open>Prefixed scripts\<close>

definition script_wf :: "script \<Rightarrow> bool" where
  "script_wf s \<longleftrightarrow> ops_wf (script_ops s) \<and> s = from_operations (script_ops s)"

lemma script_wfE:
  assumes "script_wf s"
  obtains ops where "s = make_script ops True (ops_serialized_size ops)" "ops_wf ops" "script_ops s = ops"
  using assms by (auto simp: script_wf_def from_operations_def)

lemma script_serialized_size_make [simp]:
  "script_serialized_size (make_script ops valid sz) False = sz"
  by (simp add: script_serialized_size_def make_script_def)

lemma script_wf_size:
  "script_wf s \<Longrightarrow> script_serialized_size s False = min max_size_t (length (script_to_data s False))"
  by (elim script_wfE) (simp add: ops_serialized_size_length)

lemma script_to_data_prefix:
  "script_to_data s True = write_variable (script_serialized_size s False) @ script_to_data s False"
  by (simp add: script_to_data_def)

lemma set_limit_good [simp]: "rgood (set_limit n r) = rgood r"
  by (simp add: set_limit_def)

lemma script_from_data_roundtrip:
  assumes "script_wf s" "feeds r (script_to_data s True)"
  shows "fst (script_from_data r True) = s \<and>
    moved r (length (script_to_data s True)) (snd (script_from_data r True))"
proof -
  define body where "body = script_to_data s False"
  let ?n = "length body"
  have len: "length (script_to_data s True) \<le> max_size_t"
    using assms(2) remaining_le_max [of r] by (simp add: feeds_def)
  then have n: "script_serialized_size s False = ?n" "?n \<le> max_size_t"
    using script_wf_size [OF assms(1)] by (simp_all add: body_def script_to_data_prefix)
  have f: "feeds r (write_variable ?n @ body)"
    using assms(2) n(1) by (simp add: body_def script_to_data_prefix)
  obtain r1 where r1: "read_size max_size_t r = (?n, r1)" "moved r (length (write_variable ?n)) r1"
    using read_size_moved [OF feeds_appendD [OF f] n(2)] n(2) by (auto simp: limits)
  define r2 where "r2 = set_limit ?n r1"
  have fb: "feeds r1 body" by (rule feeds_moved [OF f r1(2)])
  have rem: "remaining r2 = ?n" using n(2) by (simp add: r2_def set_limit_def unat_of_nat_u64)
  have r2: "ready r2" "window r2 = body" "bounded r2"
    using fb rem feeds_length [OF fb] by (auto simp: feeds_def ready_def window_def bounded_def r2_def set_limit_def)
  obtain l k s3 where s3: "op_count r2 = (k, r2\<lparr>rlimit := l\<rparr>)"
      "read_ops (r2\<lparr>rlimit := l\<rparr>) = (parse_ops body, s3)" "ready s3" "rbuf s3 = rbuf r2"
      "rpos s3 = rpos r2 + ?n"
    using script_from_data_body [OF r2(1,3)] unfolding r2(2) .
  obtain ops where ops: "s = make_script ops True (ops_serialized_size ops)" "ops_wf ops"
    using assms(1) by (rule script_wfE)
  have parse: "parse_ops body = ops" using ops parse_ops_concat by (simp add: body_def)
  have s: "make_script ops True ?n = s" using ops n by simp
  have "script_from_data r True = (make_script ops True ?n, set_limit max_size_t s3)"
    using r1(1) s3 parse
    by (simp add: script_from_data_def r2_def [symmetric] get_read_position_def ready_def)
  moreover have "moved r1 ?n (set_limit max_size_t s3)"
    using s3 remaining_le_max [of r1]
    by (simp add: moved_def set_limit_def ready_def r2_def unat_of_nat_u64)
  ultimately show ?thesis
    using s moved_trans [OF r1(2)] n(1) by (simp add: script_to_data_prefix body_def)
qed

text \<open>
  The converse: a prefixed read that leaves the stream good has found as many bytes as the prefix
  claims, so the limit lay inside the stream and the parse consumed exactly those bytes.
\<close>

lemma count_ops_progress: "rbuf (snd (count_ops n r)) = rbuf r \<and> rpos r \<le> rpos (snd (count_ops n r))"
proof (induction n r rule: count_ops.induct)
  case (1 n r)
  obtain b s where c: "count_op r = (b, s)" by fastforce
  show ?case
  proof (cases b)
    case True
    with c have "count_op r = (True, s)" by simp
    from "1.IH" [OF this [symmetric] refl] count_op_progress [OF this] this show ?thesis
      by (simp add: count_ops.simps [of n r])
  next
    case False
    with c have "s = r" by (auto simp: count_op_def split: if_splits prod.splits)
    with c False show ?thesis by (simp add: count_ops.simps [of n r])
  qed
qed

lemma op_count_position:
  assumes "rgood r"
  shows "rgood (snd (op_count r))" "rbuf (snd (op_count r)) = rbuf r" "rpos (snd (op_count r)) = rpos r"
proof -
  obtain n s where c: "count_ops 0 r = (n, s)" by fastforce
  have "rbuf s = rbuf r" "rpos r \<le> rpos s" using count_ops_progress [of 0 r] c by simp_all
  then show "rgood (snd (op_count r))" "rbuf (snd (op_count r)) = rbuf r" "rpos (snd (op_count r)) = rpos r"
    using assms c by (auto simp: op_count_def get_read_position_def set_position_def clear_state_def
        Let_def rewind_bytes_def seek_backward_def)
qed

lemma script_from_data_sticky: "rgood (snd (script_from_data r prefix)) \<Longrightarrow> rgood r"
proof -
  have bad: "\<not> rgood s \<Longrightarrow> op_count s = (0, s) \<and> read_ops s = ([], s)" for s
    by (simp add: op_count_def read_ops.simps [of s] get_exhausted_def)
  assume g: "rgood (snd (script_from_data r prefix))"
  show "rgood r"
  proof (rule ccontr)
    assume r: "\<not> rgood r"
    then have "\<not> rgood (set_limit n (snd (read_size max_size_t r)))" for n
      using read_size_sticky [of max_size_t r] by auto
    with g r show False
      by (cases prefix) (auto simp: script_from_data_def case_prod_beta bad Let_def split: if_splits)
  qed
qed

lemma script_prefix_parts:
  assumes "script_from_data r True = (x, s)" "rgood s"
  obtains n r1 k r2 ops r3 where "read_size max_size_t r = (n, r1)" "op_count (set_limit n r1) = (k, r2)"
    "read_ops r2 = (ops, r3)" "rpos r3 - rpos r2 = n" "s = set_limit max_size_t r3"
    "x = make_script ops True n" "rgood r3"
proof -
  obtain n r1 where n: "read_size max_size_t r = (n, r1)" by fastforce
  obtain k r2 where k: "op_count (set_limit n r1) = (k, r2)" by fastforce
  obtain ops r3 where o: "read_ops r2 = (ops, r3)" by fastforce
  show thesis
    by (rule that [OF n k o])
      (use assms n k o in \<open>auto simp: script_from_data_def get_read_position_def Let_def split: if_splits\<close>)
qed

lemma script_from_data_canonical:
  assumes "ready r" "script_from_data r True = (x, s)" "rgood s"
  shows "script_wf x \<and> consumed r (script_to_data x True) s"
proof -
  obtain n r1 k r2 ops r3 where p: "read_size max_size_t r = (n, r1)"
      "op_count (set_limit n r1) = (k, r2)" "read_ops r2 = (ops, r3)" "rpos r3 - rpos r2 = n"
      "s = set_limit max_size_t r3" "x = make_script ops True n" "rgood r3"
    using script_prefix_parts [OF assms(2,3)] .
  let ?l = "set_limit n r1"
  have r1: "rgood r1"
  proof (rule ccontr)
    assume bad: "\<not> rgood r1"
    then have "op_count ?l = (0, ?l)" "read_ops ?l = ([], ?l)"
      by (simp_all add: op_count_def read_ops.simps [of ?l] get_exhausted_def)
    then have "r3 = ?l" using p(2,3) by auto
    with p(7) bad show False by simp
  qed
  note sz = read_size_good [OF assms(1) p(1) r1]
  have l: "ready ?l" "remaining ?l = n" "rpos ?l = rpos r1" "rbuf ?l = rbuf r1"
    using consumed_ready [OF sz(1) r1] sz(3) by (simp_all add: ready_def set_limit_def unat_of_nat_u64)
  have r2: "ready r2" "rpos r2 = rpos r1" "rbuf r2 = rbuf r1"
    using op_count_position [of ?l] p(2) l by (simp_all add: ready_def)
  have "rpos r3 \<le> length (rbuf r1)"
    using read_ops_refines [OF r2(1)] window_le(2) [of r2] p(3) r2 by (auto simp: ready_def)
  then have fit: "rpos r1 + n \<le> length (rbuf r1)"
    using p(4) r2 l(1,3) by (cases "n = 0") (auto simp: ready_def l)
  then have "bounded ?l" using l by (simp add: bounded_def)
  with l(1) obtain q m t where body: "op_count ?l = (m, ?l\<lparr>rlimit := q\<rparr>)"
      "read_ops (?l\<lparr>rlimit := q\<rparr>) = (parse_ops (window ?l), t)" "rbuf t = rbuf ?l"
      "rpos t = rpos ?l + length (window ?l)"
    using script_from_data_body by metis
  then have q: "r2 = ?l\<lparr>rlimit := q\<rparr>" "ops = parse_ops (window ?l)" "rbuf r3 = rbuf r1"
      "rpos r3 = rpos r1 + length (window ?l)"
    using p(2,3) l by auto
  have w: "length (window ?l) = n" using fit l by (simp add: length_window)
  let ?b = "script_to_data x False"
  have b: "?b = window ?l" using p(6) q(2) parse_ops_to_data by simp
  have x: "x = from_operations ops" "script_serialized_size x False = n"
    using p(6) q(2) w sz(3) parse_ops_to_data [of "window ?l"]
    by (simp_all add: from_operations_def ops_serialized_size_length)
  have "script_wf x" using x(1) q(2) ops_wf_parse by (simp add: script_wf_def from_operations_def make_script_def)
  moreover have "consumed r1 ?b s"
    using b w fit q p(5) l by (simp add: consumed_def set_limit_def window_def)
  ultimately show ?thesis using consumed_trans [OF sz(1)] x(2) by (simp add: script_to_data_prefix)
qed

interpretation script_codec: canonical_codec
  "\<lambda>s. script_to_data s True" "\<lambda>r. script_from_data r True" script_wf
  by unfold_locales
    (rule script_from_data_roundtrip script_from_data_sticky script_from_data_canonical; assumption)+

section \<open>Signature operations from the stream\<close>

lemma stream_sigops_step:
  assumes "ready r" "window r = c # t" "count_op r = (True, s)"
  shows "stream_sigops accurate r last_code acc =
    stream_sigops accurate s c (sigop_step accurate last_code c acc)"
proof -
  have ne: "\<not> get_exhausted r" using assms get_exhausted_window by auto
  obtain sz r2 where d: "read_data_size c (advance 1 r) = (sz, r2)" by fastforce
  have "s = skip_bytes sz r2"
    using assms(3) ne d read_byte_window [OF assms(1,2)] by (simp add: count_op_def)
  then show ?thesis using ne d read_byte_window [OF assms(1,2)]
    by (simp add: stream_sigops.simps [of accurate r])
qed

lemma stream_sigops_exhausted: "get_exhausted r \<Longrightarrow> stream_sigops accurate r last_code acc = acc"
  by (simp add: stream_sigops.simps [of accurate r])

text \<open>Only codes that cannot be signature operations claim bytes that may be missing.\<close>

lemma claiming_not_sigop:
  assumes "length t < header_size c \<or> length (drop (header_size c) t) < claimed_size c t"
  shows "sigop_step accurate last_code c acc = acc"
proof -
  have "header_size c \<noteq> 0 \<or> claimed_size c t \<noteq> 0" using assms by auto
  then have "unat c \<le> 78"
    by (auto simp: header_size_def claimed_size_def word_le_nat_alt split: if_splits)
  then show ?thesis
    by (auto simp: sigop_step_def is_single_sigop_def is_multiple_sigop_def)
qed

lemma count_sigops_underflow:
  "count_sigops accurate (map op_code [underflow_op w]) last_code acc = acc"
  by (simp add: underflow_op_def sigop_step_def is_single_sigop_def is_multiple_sigop_def
      any_invalid_def)

lemma parse_ops_Some: "parse_op w = Some (op, rest) \<Longrightarrow> parse_ops w = op # parse_ops rest"
  by (cases w) (auto simp: parse_ops.simps)

lemma parse_ops_None: "parse_op w = None \<Longrightarrow> w \<noteq> [] \<Longrightarrow> parse_ops w = [underflow_op w]"
  by (simp add: parse_ops.simps)

lemma stream_sigops_refines:
  "ready r \<Longrightarrow> bounded r \<Longrightarrow> length (window r) \<le> max_bytes \<Longrightarrow>
   stream_sigops accurate r last_code acc =
   count_sigops accurate (map op_code (parse_ops (window r))) last_code acc"
proof (induction "length (window r)" arbitrary: r last_code acc rule: less_induct)
  case less
  show ?case
  proof (cases "window r")
    case Nil
    then show ?thesis using less.prems
      by (simp add: stream_sigops_exhausted get_exhausted_window parse_ops.simps)
  next
    case (Cons c t)
    let ?acc = "sigop_step accurate last_code c acc"
    from less.prems(1,2) Cons show ?thesis
    proof (cases rule: count_op_cases)
      case (pass k)
      let ?n = "claimed_size c t" and ?h = "header_size c"
      have fit: "?n \<le> length (drop ?h t)" "?h \<le> length t" using pass(2,3,4) Cons by simp_all
      then have p: "parse_op (window r) = Some (\<lparr>op_code = c,
          op_data = (if ?n = 0 then None else Some (take ?n (drop ?h t))), op_underflow = False\<rparr>,
          drop ?n (drop ?h t))"
        using Cons less.prems(3) by (simp add: Let_def)
      have w: "window (advance k r) = drop ?n (drop ?h t)"
        using pass(2,3) Cons by (simp add: window_advance add.commute)
      have "stream_sigops accurate (advance k r) c ?acc =
          count_sigops accurate (map op_code (parse_ops (window (advance k r)))) c ?acc"
        by (rule less.hyps) (use less.prems pass(2) w Cons in
            \<open>auto simp: ready_advance bounded_advance\<close>)
      then show ?thesis
        using stream_sigops_step [OF less.prems(1) Cons pass(1)] w
        by (simp add: parse_ops_Some [OF p])
    next
      case (fail s)
      then have "parse_op (window r) = None" using Cons by (auto simp: Let_def)
      then have "parse_ops (window r) = [underflow_op (window r)]" using Cons by (intro parse_ops_None) simp_all
      moreover have "stream_sigops accurate r last_code acc = acc"
        using stream_sigops_step [OF less.prems(1) Cons fail(1)] fail(2) claiming_not_sigop [OF fail(4)]
        by (simp add: stream_sigops_exhausted get_exhausted_def)
      ultimately show ?thesis
        using count_sigops_underflow by metis
    qed
  qed
qed

section \<open>Properties of scripts\<close>

text \<open>
  Any byte vector is a valid script: parsing it without a prefix succeeds, the operations
  serialize to exactly the bytes read, and the cached size is their number.
\<close>

theorem script_bytes_roundtrip:
  assumes "length bs + 2 ^ 33 \<le> max_size_t"
  shows "script_valid (script_of_bytes bs) \<and> script_to_data (script_of_bytes bs) False = bs \<and>
    script_serialized_size (script_of_bytes bs) False = length bs"
  using parse_ops_to_data [of bs]
  by (simp add: script_of_bytes_parse [OF assms]) (simp add: make_script_def)

theorem script_bytes_roundtrip_witness:
  "script_to_data (script_of_bytes [0x4d, 5, 0, 1]) False = [0x4d, 5, 0, 1]"
  using script_bytes_roundtrip [of "[0x4d, 5, 0, 1]"] by (simp add: limits)

text \<open>
  A well formed script written with its size prefix is read back as the same script from any
  stream that delivers those bytes, and the stream stands behind them, in a good state, with its
  limit not below what was left of it.
\<close>

theorem script_prefix_roundtrip:
  assumes "script_wf s" "feeds r (script_to_data s True)"
  shows "fst (script_from_data r True) = s \<and>
    moved r (length (script_to_data s True)) (snd (script_from_data r True))"
  by (rule script_codec.roundtrip [OF assms])

theorem script_prefix_roundtrip_witness:
  "fst (script_from_data (reader_of (script_to_data (from_operations [from_push_data [] True]) True)) True) =
   from_operations [from_push_data [] True]"
proof -
  let ?s = "from_operations [from_push_data [] True]"
  have op: "from_push_data [] True = \<lparr>op_code = 0, op_data = None, op_underflow = False\<rparr>"
    by (simp add: from_push_data_def opcode_from_data_def minimal_opcode_from_data_def
        opcode_from_size_def is_payload_def)
  have w: "operation_wf (from_push_data [] True)"
    by (rule from_push_data_wf) (simp add: max_bytes_def)
  then have "script_wf ?s"
    by (simp add: script_wf_def from_operations_def make_script_def operation_wf_def)
  moreover have "length (script_to_data ?s True) \<le> max_size_t"
    by (simp add: script_to_data_def from_operations_def make_script_def size_simps op
        operation_serialized_size_def variable_size_def script_serialized_size_def
        ops_serialized_size_def op_size_def ceilinged_add_def varint_simps limits data_size_def get_data_def)
  ultimately show ?thesis
    using script_prefix_roundtrip [of ?s "reader_of (script_to_data ?s True)"] feeds_reader_of by blast
qed

text \<open>
  The signature operation count taken directly from a serialized script, without building
  its operations, is the count over the parsed operations, for every script that fits a block;
  this includes scripts that end in an incomplete operation.
\<close>

theorem signature_operations_stream_parsed:
  assumes "length bs \<le> max_bytes"
  shows "signature_operations_stream (reader_of bs) accurate =
    signature_operations (script_of_bytes bs) accurate"
proof -
  have b: "length bs + 2 ^ 33 \<le> max_size_t"
    using assms by (simp add: max_bytes_def max_block_weight_def max_block_size_def limits)
  show ?thesis
    using reader_of_window [OF b] stream_sigops_refines [of "reader_of bs"] assms
    by (simp add: signature_operations_stream_def signature_operations_def script_of_bytes_parse [OF b])
      (simp add: make_script_def)
qed

theorem signature_operations_stream_parsed_witness:
  "signature_operations_stream (reader_of [0x52, 0xae, 0xac, 0x4c, 9]) True =
   signature_operations (script_of_bytes [0x52, 0xae, 0xac, 0x4c, 9]) True"
  using signature_operations_stream_parsed [of "[0x52, 0xae, 0xac, 0x4c, 9]" True]
  by (simp add: max_bytes_def max_block_weight_def max_block_size_def)

end
