(* ===== verification/Flags.thy ===== *)
theory Flags
  imports Prelude
begin

text \<open>
  Consensus rule flags (\<open>include/bitcoin/system/chain/enums/flags.hpp\<close>): one bit per rule of a
  32 bit set, and the test \<open>script::is_enabled\<close> that every component uses on them.
\<close>

type_synonym flags = u32

definition flag :: "nat \<Rightarrow> flags" where
  "flag n = push_bit n 1"

definition no_rules :: flags where "no_rules = 0"
definition difficult :: flags where "difficult = flag 0"
definition retarget :: flags where "retarget = flag 1"
definition bip16_rule :: flags where "bip16_rule = flag 2"
definition bip30_rule :: flags where "bip30_rule = flag 3"
definition bip34_rule :: flags where "bip34_rule = flag 4"
definition bip66_rule :: flags where "bip66_rule = flag 5"
definition bip65_rule :: flags where "bip65_rule = flag 6"
definition bip90_rule :: flags where "bip90_rule = flag 7"
definition bip68_rule :: flags where "bip68_rule = flag 8"
definition bip112_rule :: flags where "bip112_rule = flag 9"
definition bip113_rule :: flags where "bip113_rule = flag 10"
definition bip141_rule :: flags where "bip141_rule = flag 11"
definition bip143_rule :: flags where "bip143_rule = flag 12"
definition bip147_rule :: flags where "bip147_rule = flag 13"
definition bip42_rule :: flags where "bip42_rule = flag 14"
definition bip341_rule :: flags where "bip341_rule = flag 15"
definition bip342_rule :: flags where "bip342_rule = flag 16"
definition nops_rule :: flags where "nops_rule = flag 17"
definition cats_rule :: flags where "cats_rule = flag 19"
definition bip50_rule :: flags where "bip50_rule = flag 24"
definition time_warp_patch :: flags where "time_warp_patch = flag 27"
definition block_storm_patch :: flags where "block_storm_patch = flag 28"
definition ltc_time_warp_patch :: flags where "ltc_time_warp_patch = flag 29"
definition ltc_retarget_overflow_patch :: flags where "ltc_retarget_overflow_patch = flag 30"
definition ltc_scrypt_proof_of_work :: flags where "ltc_scrypt_proof_of_work = flag 31"

lemmas flag_defs = flag_def no_rules_def difficult_def retarget_def bip16_rule_def bip30_rule_def
  bip34_rule_def bip66_rule_def bip65_rule_def bip90_rule_def bip68_rule_def bip112_rule_def
  bip113_rule_def bip141_rule_def bip143_rule_def bip147_rule_def bip42_rule_def bip341_rule_def
  bip342_rule_def nops_rule_def cats_rule_def bip50_rule_def time_warp_patch_def block_storm_patch_def ltc_time_warp_patch_def
  ltc_retarget_overflow_patch_def ltc_scrypt_proof_of_work_def

definition bip34_activations :: flags where
  "bip34_activations = bip34_rule OR bip65_rule OR bip66_rule"

definition bip9_bit0_group :: flags where
  "bip9_bit0_group = bip68_rule OR bip112_rule OR bip113_rule"

definition bip9_bit1_group :: flags where
  "bip9_bit1_group = bip141_rule OR bip143_rule OR bip147_rule"

definition bip9_bit2_group :: flags where
  "bip9_bit2_group = bip341_rule OR bip342_rule"

definition is_enabled :: "flags \<Rightarrow> flags \<Rightarrow> bool" where
  "is_enabled active_flags f \<longleftrightarrow> f AND active_flags \<noteq> 0"

lemma is_enabled_none [simp]: "\<not> is_enabled 0 f"
  by (simp add: is_enabled_def)

lemma is_enabled_or [simp]: "is_enabled (a OR b) f \<longleftrightarrow> is_enabled a f \<or> is_enabled b f"
  by (simp add: is_enabled_def bit_simps bit_eq_iff) blast

lemma is_enabled_flag: "n < 32 \<Longrightarrow> is_enabled a (flag n) \<longleftrightarrow> bit a n"
  by (simp add: is_enabled_def flag_def bit_eq_iff [where 'a = "32 word"] bit_simps)

end
