(* ===== verification/ScriptPatterns.thy ===== *)
theory ScriptPatterns
  imports Script Flags
begin

text \<open>
  Script templates (\<open>include/bitcoin/system/impl/chain/script_patterns.ipp\<close>, the pattern and
  extraction part of \<open>src/chain/script_extract.cpp\<close>, and the key form tests of
  \<open>src/crypto/secp256k1/keys.cpp\<close>): the predicates over operations, the functions that build the
  templates, and the classification of a script. The theorems show that the output patterns
  exclude one another, that the builders produce their own pattern, and how the input patterns
  overlap.
\<close>

section \<open>Key and signature forms\<close>

definition ec_compressed_size :: nat where "ec_compressed_size = 33"
definition ec_uncompressed_size :: nat where "ec_uncompressed_size = 65"
definition ec_xonly_size :: nat where "ec_xonly_size = 32"
definition min_endorsement_size :: nat where "min_endorsement_size = 9"
definition max_endorsement_size :: nat where "max_endorsement_size = 73"
definition short_hash_size :: nat where "short_hash_size = 20"

lemmas key_sizes = ec_compressed_size_def ec_uncompressed_size_def ec_xonly_size_def
  min_endorsement_size_def max_endorsement_size_def short_hash_size_def

definition is_compressed_key :: "data_chunk \<Rightarrow> bool" where
  "is_compressed_key point \<longleftrightarrow> length point = ec_compressed_size \<and> (hd point = 2 \<or> hd point = 3)"

definition is_uncompressed_key :: "data_chunk \<Rightarrow> bool" where
  "is_uncompressed_key point \<longleftrightarrow> length point = ec_uncompressed_size \<and> hd point = 4"

definition is_public_key :: "data_chunk \<Rightarrow> bool" where
  "is_public_key point \<longleftrightarrow> is_compressed_key point \<or> is_uncompressed_key point"

definition is_endorsement :: "data_chunk \<Rightarrow> bool" where
  "is_endorsement e \<longleftrightarrow> min_endorsement_size \<le> length e \<and> length e \<le> max_endorsement_size"

section \<open>Patterns\<close>

definition is_push_only_pattern :: "operation list \<Rightarrow> bool" where
  "is_push_only_pattern ops \<longleftrightarrow> list_all (\<lambda>op. is_push (op_code op)) ops"

definition is_relaxed_push_pattern :: "operation list \<Rightarrow> bool" where
  "is_relaxed_push_pattern ops \<longleftrightarrow> list_all (\<lambda>op. is_relaxed_push (op_code op)) ops"

definition is_nominal_push_pattern :: "operation list \<Rightarrow> bool" where
  "is_nominal_push_pattern ops \<longleftrightarrow> length ops = 1 \<and> is_nominal_push (ops ! 0)"

definition witness_head :: nat where "witness_head = 0xaa21a9ed"

definition is_commitment_pattern :: "operation list \<Rightarrow> bool" where
  "is_commitment_pattern ops \<longleftrightarrow> length ops > 1 \<and> op_code (ops ! 0) = opcode_op_return \<and>
     op_code (ops ! 1) = 36 \<and> data_size (ops ! 1) \<ge> 4 \<and>
     take 4 (get_data (ops ! 1)) = be_bytes 4 witness_head"

definition min_witness_program :: nat where "min_witness_program = 2"
definition max_witness_program :: nat where "max_witness_program = 40"
definition max_null_data_size :: nat where "max_null_data_size = 80"

definition is_pay_witness_pattern :: "operation list \<Rightarrow> bool" where
  "is_pay_witness_pattern ops \<longleftrightarrow> length ops = 2 \<and> is_nonnegative (op_code (ops ! 0)) \<and>
     is_minimal_push (ops ! 1) \<and> data_size (ops ! 1) \<ge> min_witness_program \<and>
     data_size (ops ! 1) \<le> max_witness_program"

definition is_pay_anchor_pattern :: "operation list \<Rightarrow> bool" where
  "is_pay_anchor_pattern ops \<longleftrightarrow> is_pay_witness_pattern ops \<and>
     op_code (ops ! 0) = opcode_push_positive_1 \<and> data_size (ops ! 1) = 2 \<and>
     get_data (ops ! 1) ! 0 = 0x4e \<and> get_data (ops ! 1) ! 1 = 0x73"

definition is_pay_witness_taproot_pattern :: "operation list \<Rightarrow> bool" where
  "is_pay_witness_taproot_pattern ops \<longleftrightarrow> length ops = 2 \<and>
     op_code (ops ! 0) = opcode_from_nonnegative 1 \<and> op_code (ops ! 1) = 32"

definition is_pay_witness_unknown_pattern :: "operation list \<Rightarrow> bool" where
  "is_pay_witness_unknown_pattern ops \<longleftrightarrow> is_pay_witness_pattern ops \<and>
     op_code (ops ! 0) \<noteq> opcode_push_size_0 \<and> \<not> is_pay_witness_taproot_pattern ops \<and>
     \<not> is_pay_anchor_pattern ops"

definition is_pay_null_data_pattern :: "operation list \<Rightarrow> bool" where
  "is_pay_null_data_pattern ops \<longleftrightarrow> length ops = 2 \<and> op_code (ops ! 0) = opcode_op_return \<and>
     is_minimal_push (ops ! 1) \<and> data_size (ops ! 1) \<le> max_null_data_size"

definition is_pay_op_return_pattern :: "operation list \<Rightarrow> bool" where
  "is_pay_op_return_pattern ops \<longleftrightarrow> ops \<noteq> [] \<and> op_code (ops ! 0) = opcode_op_return"

definition is_pay_public_key_pattern :: "operation list \<Rightarrow> bool" where
  "is_pay_public_key_pattern ops \<longleftrightarrow> length ops = 2 \<and> is_public_key (get_data (ops ! 0)) \<and>
     op_code (ops ! 1) = opcode_checksig"

definition is_pay_key_hash_pattern :: "operation list \<Rightarrow> bool" where
  "is_pay_key_hash_pattern ops \<longleftrightarrow> length ops = 5 \<and> op_code (ops ! 0) = opcode_dup \<and>
     op_code (ops ! 1) = opcode_hash160 \<and> data_size (ops ! 2) = short_hash_size \<and>
     op_code (ops ! 3) = opcode_equalverify \<and> op_code (ops ! 4) = opcode_checksig"

definition is_pay_script_hash_pattern :: "operation list \<Rightarrow> bool" where
  "is_pay_script_hash_pattern ops \<longleftrightarrow> length ops = 3 \<and> op_code (ops ! 0) = opcode_hash160 \<and>
     op_code (ops ! 1) = 20 \<and> op_code (ops ! 2) = opcode_equal"

definition is_pay_witness_key_hash_pattern :: "operation list \<Rightarrow> bool" where
  "is_pay_witness_key_hash_pattern ops \<longleftrightarrow> length ops = 2 \<and>
     op_code (ops ! 0) = opcode_from_nonnegative 0 \<and> op_code (ops ! 1) = 20"

definition is_pay_witness_script_hash_pattern :: "operation list \<Rightarrow> bool" where
  "is_pay_witness_script_hash_pattern ops \<longleftrightarrow> length ops = 2 \<and>
     op_code (ops ! 0) = opcode_from_nonnegative 0 \<and> op_code (ops ! 1) = 32"

definition is_pay_taproot_key_path_pattern :: "operation list \<Rightarrow> bool" where
  "is_pay_taproot_key_path_pattern ops \<longleftrightarrow> length ops = 1 \<and> op_code (ops ! 0) = opcode_checksig"

definition is_pay_tapscript_single_pattern :: "operation list \<Rightarrow> bool" where
  "is_pay_tapscript_single_pattern ops \<longleftrightarrow> length ops = 2 \<and> data_size (ops ! 0) = ec_xonly_size \<and>
     op_code (ops ! 1) = opcode_checksig"

definition is_pay_tapscript_timelock_pattern :: "operation list \<Rightarrow> bool" where
  "is_pay_tapscript_timelock_pattern ops \<longleftrightarrow> length ops = 5 \<and> is_nonnegative (op_code (ops ! 0)) \<and>
     is_timelock (op_code (ops ! 1)) \<and> op_code (ops ! 2) = opcode_drop \<and>
     data_size (ops ! 3) = ec_xonly_size \<and> op_code (ops ! 4) = opcode_checksig"

definition is_pay_tapscript_inscription_pattern :: "operation list \<Rightarrow> bool" where
  "is_pay_tapscript_inscription_pattern ops \<longleftrightarrow> length ops > 4 \<and> data_size (ops ! 0) = ec_xonly_size \<and>
     op_code (ops ! 1) = opcode_checksig \<and> op_code (ops ! 2) = opcode_push_size_0 \<and>
     op_code (ops ! 3) = opcode_if \<and> op_code (last ops) = opcode_endif"

text \<open>The loops over pairs of a key and a signature code.\<close>

fun key_pairs :: "opcode \<Rightarrow> operation list \<Rightarrow> bool" where
  "key_pairs code (key # op # ops) \<longleftrightarrow>
     data_size key = ec_xonly_size \<and> op_code op = code \<and> key_pairs code ops"
| "key_pairs code [] = True"
| "key_pairs code [_] = False"

definition is_pay_tapscript_threshold_pattern :: "operation list \<Rightarrow> bool" where
  "is_pay_tapscript_threshold_pattern ops =
     (let sz = length ops in
      if sz = 0 then False
      else let within = (op_code (last ops) = opcode_within); extra = (if within then 1 else 0) in
        if even sz = within \<or> sz < 4 + extra then False
        else data_size (ops ! 0) = ec_xonly_size \<and> op_code (ops ! 1) = opcode_checksig \<and>
          key_pairs opcode_checksigadd (take (sz - 2 - extra - 2) (drop 2 ops)) \<and>
          as_unsigned32 (ops ! (sz - 2 - extra)) \<noteq> None \<and>
          (within \<longrightarrow> as_unsigned32 (ops ! (sz - 2)) \<noteq> None) \<and>
          is_threshold (op_code (last ops)))"

definition is_pay_tapscript_multisig_pattern :: "operation list \<Rightarrow> bool" where
  "is_pay_tapscript_multisig_pattern ops \<longleftrightarrow> length ops \<ge> 2 \<and> even (length ops) \<and>
     key_pairs opcode_checksigverify (take (length ops - 2) ops) \<and>
     key_pairs opcode_checksig (drop (length ops - 2) ops)"

definition is_pay_multisig_standard_pattern :: "operation list \<Rightarrow> bool" where
  "is_pay_multisig_standard_pattern ops =
     (if length ops < 4 \<or> op_code (last ops) \<noteq> opcode_checkmultisig then False
      else let m_op = hd ops; n_op = ops ! (length ops - 2) in
        if \<not> is_positive (op_code m_op) \<or> \<not> is_positive (op_code n_op) then False
        else let m = unat (opcode_to_positive (op_code m_op)); n = unat (opcode_to_positive (op_code n_op))
          in if m = 0 \<or> n = 0 \<or> m > n \<or> n > 16 \<or> n \<noteq> length ops - 3 then False
             else list_all (\<lambda>op. is_public_key (get_data op)) (take (length ops - 3) (tl ops)))"

definition max_multisig_public_keys :: nat where "max_multisig_public_keys = 20"

definition multisig_signatures :: "operation \<Rightarrow> nat" where
  "multisig_signatures op = (case as_unsigned32 op of None \<Rightarrow> 0
     | Some count \<Rightarrow> if count < 1 \<or> count > max_multisig_public_keys then 0 else count)"

definition is_pay_multisig_pattern :: "operation list \<Rightarrow> bool" where
  "is_pay_multisig_pattern ops =
     (if length ops < 4 \<or> op_code (last ops) \<noteq> opcode_checkmultisig then False
      else let m = multisig_signatures (hd ops); n = multisig_signatures (ops ! (length ops - 2))
        in m \<noteq> 0 \<and> n \<noteq> 0 \<and> \<not> m > n \<and> n = length ops - 3)"

definition is_sign_multisig_pattern :: "operation list \<Rightarrow> bool" where
  "is_sign_multisig_pattern ops \<longleftrightarrow> length ops \<ge> 2 \<and> op_code (ops ! 0) = opcode_push_size_0 \<and>
     list_all (\<lambda>op. is_endorsement (get_data op)) (tl ops)"

definition is_sign_public_key_pattern :: "operation list \<Rightarrow> bool" where
  "is_sign_public_key_pattern ops \<longleftrightarrow> length ops = 1 \<and> is_endorsement (get_data (ops ! 0))"

definition is_sign_key_hash_pattern :: "operation list \<Rightarrow> bool" where
  "is_sign_key_hash_pattern ops \<longleftrightarrow> length ops = 2 \<and> is_endorsement (get_data (ops ! 0)) \<and>
     is_public_key (get_data (ops ! 1))"

definition is_sign_witness_key_hash_pattern :: "operation list \<Rightarrow> bool" where
  "is_sign_witness_key_hash_pattern ops \<longleftrightarrow> length ops = 1 \<and> op_code (ops ! 0) = 22 \<and>
     data_size (ops ! 0) = short_hash_size + 2 \<and> get_data (ops ! 0) ! 0 = opcode_push_size_0 \<and>
     get_data (ops ! 0) ! 1 = 20"

definition is_sign_script_hash_pattern :: "operation list \<Rightarrow> bool" where
  "is_sign_script_hash_pattern ops \<longleftrightarrow> ops \<noteq> [] \<and> is_push_only_pattern ops \<and>
     get_data (last ops) \<noteq> []"

section \<open>Builders\<close>

definition op_of_code :: "opcode \<Rightarrow> operation" where
  "op_of_code code = \<lparr>op_code = code, op_data = None, op_underflow = False\<rparr>"

definition to_pay_null_data_pattern :: "data_chunk \<Rightarrow> operation list" where
  "to_pay_null_data_pattern bs = (if length bs > max_null_data_size then []
     else [op_of_code opcode_op_return, from_push_data bs False])"

definition to_pay_public_key_pattern :: "data_chunk \<Rightarrow> operation list" where
  "to_pay_public_key_pattern point = (if \<not> is_public_key point then []
     else [from_push_data point False, op_of_code opcode_checksig])"

definition to_pay_key_hash_pattern :: "data_chunk \<Rightarrow> operation list" where
  "to_pay_key_hash_pattern hash = [op_of_code opcode_dup, op_of_code opcode_hash160,
     from_push_data hash False, op_of_code opcode_equalverify, op_of_code opcode_checksig]"

definition to_pay_script_hash_pattern :: "data_chunk \<Rightarrow> operation list" where
  "to_pay_script_hash_pattern hash =
     [op_of_code opcode_hash160, from_push_data hash False, op_of_code opcode_equal]"

definition to_pay_multisig_pattern :: "byte \<Rightarrow> data_chunk list \<Rightarrow> operation list" where
  "to_pay_multisig_pattern signatures points =
     (let base = unat opcode_push_positive_1 - 1; maximum = unat opcode_push_positive_16 - base;
          m = unat signatures; n = length points
      in if m < 1 \<or> m > n \<or> n < 1 \<or> n > maximum then []
         else if \<not> list_all is_public_key points then []
         else op_of_code (word_of_nat (m + base)) # map (\<lambda>point. from_push_data point False) points @
           [op_of_code (word_of_nat (n + base)), op_of_code opcode_checkmultisig])"

definition to_pay_witness_pattern :: "byte \<Rightarrow> data_chunk \<Rightarrow> operation list" where
  "to_pay_witness_pattern version bs =
     [op_of_code (opcode_from_nonnegative version), from_push_data bs False]"

definition to_pay_witness_key_hash_pattern :: "data_chunk \<Rightarrow> operation list" where
  "to_pay_witness_key_hash_pattern hash = to_pay_witness_pattern 0 hash"

definition to_pay_witness_script_hash_pattern :: "data_chunk \<Rightarrow> operation list" where
  "to_pay_witness_script_hash_pattern hash = to_pay_witness_pattern 0 hash"

definition to_pay_witness_taproot_pattern :: "data_chunk \<Rightarrow> operation list" where
  "to_pay_witness_taproot_pattern hash = to_pay_witness_pattern 1 hash"

section \<open>Classification and extraction\<close>

datatype script_version = segwit | taproot | reserved | unversioned

datatype script_pattern = pay_null_data | pay_multisig | pay_public_key | pay_key_hash
  | pay_script_hash | pay_witness_key_hash | pay_witness_script_hash | pay_witness_v1_taproot
  | pay_anchor | pay_witness_unknown | sign_multisig | sign_public_key | sign_key_hash
  | sign_script_hash | witness_reservation | non_standard

definition witness_program :: "script \<Rightarrow> data_chunk" where
  "witness_program s = (if is_pay_witness_pattern (script_ops s) then get_data (script_ops s ! 1) else [])"

definition version_value :: "script \<Rightarrow> nat" where
  "version_value s = (if is_pay_witness_pattern (script_ops s)
     then unat (opcode_to_nonnegative (op_code (hd (script_ops s)))) else 18)"

definition script_version_of :: "script \<Rightarrow> script_version" where
  "script_version_of s = (let v = version_value s in
     if v = 0 then segwit else if v = 1 then taproot else if v = 18 then unversioned else reserved)"

definition public_key :: "script \<Rightarrow> data_chunk" where
  "public_key s = (if is_pay_public_key_pattern (script_ops s) then get_data (hd (script_ops s)) else [])"

definition multisig_required :: "script \<Rightarrow> nat" where
  "multisig_required s = (if is_pay_multisig_pattern (script_ops s)
     then (case as_unsigned32 (hd (script_ops s)) of None \<Rightarrow> 0 | Some count \<Rightarrow> count) else 0)"

definition multisig_keys :: "script \<Rightarrow> data_chunk list" where
  "multisig_keys s = (if is_pay_multisig_pattern (script_ops s)
     then map get_data (take (length (script_ops s) - 3) (tl (script_ops s))) else [])"

definition endorsements :: "script \<Rightarrow> data_chunk list" where
  "endorsements s = (if is_sign_multisig_pattern (script_ops s)
     then map get_data (tl (script_ops s)) else [])"

definition output_pattern :: "script \<Rightarrow> script_pattern" where
  "output_pattern s = (let ops = script_ops s in
     if is_pay_key_hash_pattern ops then pay_key_hash
     else if is_pay_script_hash_pattern ops then pay_script_hash
     else if is_pay_null_data_pattern ops then pay_null_data
     else if is_pay_public_key_pattern ops then pay_public_key
     else if is_pay_multisig_pattern ops then pay_multisig
     else if is_pay_witness_key_hash_pattern ops then pay_witness_key_hash
     else if is_pay_witness_script_hash_pattern ops then pay_witness_script_hash
     else if is_pay_witness_taproot_pattern ops then pay_witness_v1_taproot
     else if is_pay_anchor_pattern ops then pay_anchor
     else if is_pay_witness_unknown_pattern ops then pay_witness_unknown
     else non_standard)"

definition input_pattern :: "script \<Rightarrow> script_pattern" where
  "input_pattern s = (let ops = script_ops s in
     if is_sign_key_hash_pattern ops then sign_key_hash
     else if is_sign_public_key_pattern ops then sign_public_key
     else if is_sign_multisig_pattern ops then sign_multisig
     else if is_sign_script_hash_pattern ops then sign_script_hash
     else non_standard)"

definition pattern :: "script \<Rightarrow> script_pattern" where
  "pattern s = (let output = output_pattern s in
     if output = non_standard then input_pattern s else output)"

definition extract_sigop_script :: "script \<Rightarrow> script \<Rightarrow> script option" where
  "extract_sigop_script s prevout_script =
     (if \<not> is_pay_script_hash_pattern (script_ops prevout_script) then None
      else if script_ops s = [] \<or> \<not> is_relaxed_push_pattern (script_ops s) then None
      else Some (script_of_bytes (get_data (last (script_ops s)))))"

definition extract_tapscript_threshold :: "script \<Rightarrow> nat \<Rightarrow> nat \<Rightarrow> nat \<times> nat \<times> opcode" where
  "extract_tapscript_threshold s lo hi = (let ops = script_ops s; sz = length ops in
     if is_pay_tapscript_multisig_pattern ops then (sz div 2, sz div 2, opcode_checksig)
     else if is_pay_tapscript_threshold_pattern ops then
       (case as_unsigned32 (ops ! (sz - 2)) of None \<Rightarrow> (lo, hi, opcode_op_xor)
        | Some v \<Rightarrow>
          if op_code (last ops) \<noteq> opcode_within then (v, v, op_code (last ops))
          else (case as_unsigned32 (ops ! (sz - 3)) of None \<Rightarrow> (v, v, opcode_op_xor)
            | Some w \<Rightarrow> (w, v, op_code (last ops))))
     else (lo, hi, opcode_op_xor))"

definition is_pay_to_witness :: "script \<Rightarrow> flags \<Rightarrow> bool" where
  "is_pay_to_witness s active_flags \<longleftrightarrow>
     is_enabled active_flags bip141_rule \<and> is_pay_witness_pattern (script_ops s)"

definition is_pay_to_script_hash :: "script \<Rightarrow> flags \<Rightarrow> bool" where
  "is_pay_to_script_hash s active_flags \<longleftrightarrow>
     is_enabled active_flags bip16_rule \<and> is_pay_script_hash_pattern (script_ops s)"

section \<open>Output patterns exclude one another\<close>

lemma minimal_push_code: "is_minimal_push op \<Longrightarrow> op_code op \<le> opcode_push_positive_16"
  by (auto simp: is_minimal_push_def is_payload_def is_number_def is_nonnegative_def is_positive_def
      word_le_nat_alt split: if_splits)

lemma minimal_push_two: "is_minimal_push op \<Longrightarrow> data_size op = 2 \<Longrightarrow> op_code op \<noteq> 32"
  by (auto simp: is_minimal_push_def is_payload_def data_size_def minimal_opcode_from_data_def
      opcode_from_size_def)

lemma nonnegative_code: "is_nonnegative c \<Longrightarrow> c \<noteq> opcode_op_return"
  by (auto simp: is_nonnegative_def is_positive_def)

text \<open>The shape that each pattern forces on the operations.\<close>

lemma key_hash_shape: "is_pay_key_hash_pattern ops \<Longrightarrow> length ops = 5 \<and> op_code (last ops) = opcode_checksig"
  by (cases "ops = []") (auto simp: is_pay_key_hash_pattern_def last_conv_nth)

lemma script_hash_shape: "is_pay_script_hash_pattern ops \<Longrightarrow> length ops = 3"
  by (simp add: is_pay_script_hash_pattern_def)

lemma multisig_shape: "is_pay_multisig_pattern ops \<Longrightarrow> length ops \<ge> 4 \<and> op_code (last ops) = opcode_checkmultisig"
  by (auto simp: is_pay_multisig_pattern_def split: if_splits)

lemma null_data_shape:
  "is_pay_null_data_pattern ops \<Longrightarrow> length ops = 2 \<and> op_code (ops ! 0) = opcode_op_return \<and>
     op_code (ops ! 1) \<le> opcode_push_positive_16"
  by (simp add: is_pay_null_data_pattern_def minimal_push_code)

lemma public_key_shape:
  "is_pay_public_key_pattern ops \<Longrightarrow> length ops = 2 \<and> op_code (ops ! 1) = opcode_checksig"
  by (simp add: is_pay_public_key_pattern_def)

lemma witness_key_hash_shape:
  "is_pay_witness_key_hash_pattern ops \<Longrightarrow>
   length ops = 2 \<and> op_code (ops ! 0) = opcode_push_size_0 \<and> op_code (ops ! 1) = 20"
  by (simp add: is_pay_witness_key_hash_pattern_def opcode_from_nonnegative_def)

lemma witness_script_hash_shape:
  "is_pay_witness_script_hash_pattern ops \<Longrightarrow>
   length ops = 2 \<and> op_code (ops ! 0) = opcode_push_size_0 \<and> op_code (ops ! 1) = 32"
  by (simp add: is_pay_witness_script_hash_pattern_def opcode_from_nonnegative_def)

lemma taproot_shape:
  "is_pay_witness_taproot_pattern ops \<Longrightarrow>
   length ops = 2 \<and> op_code (ops ! 0) = opcode_push_positive_1 \<and> op_code (ops ! 1) = 32"
  by (simp add: is_pay_witness_taproot_pattern_def opcode_from_nonnegative_def opcode_from_positive_def)

lemma witness_shape:
  "is_pay_witness_pattern ops \<Longrightarrow> length ops = 2 \<and> op_code (ops ! 0) \<noteq> opcode_op_return \<and>
     op_code (ops ! 1) \<le> opcode_push_positive_16"
  using nonnegative_code by (auto simp: is_pay_witness_pattern_def minimal_push_code)

lemma anchor_shape:
  "is_pay_anchor_pattern ops \<Longrightarrow> length ops = 2 \<and> op_code (ops ! 0) = opcode_push_positive_1 \<and>
     op_code (ops ! 1) \<noteq> 32 \<and> op_code (ops ! 1) \<le> opcode_push_positive_16"
  using minimal_push_two by (auto simp: is_pay_anchor_pattern_def is_pay_witness_pattern_def minimal_push_code)

lemma witness_unknown_shape:
  "is_pay_witness_unknown_pattern ops \<Longrightarrow> length ops = 2 \<and> op_code (ops ! 0) \<noteq> opcode_op_return \<and>
     op_code (ops ! 0) \<noteq> opcode_push_size_0 \<and> op_code (ops ! 1) \<le> opcode_push_positive_16 \<and>
     \<not> is_pay_witness_taproot_pattern ops \<and> \<not> is_pay_anchor_pattern ops"
  using witness_shape by (auto simp: is_pay_witness_unknown_pattern_def)

lemmas pattern_shapes = key_hash_shape script_hash_shape multisig_shape null_data_shape
  public_key_shape witness_key_hash_shape witness_script_hash_shape taproot_shape anchor_shape
  witness_unknown_shape

lemma output_pattern_iff:
  "(output_pattern s = pay_key_hash) = is_pay_key_hash_pattern (script_ops s) \<and>
    (output_pattern s = pay_script_hash) = is_pay_script_hash_pattern (script_ops s) \<and>
    (output_pattern s = pay_null_data) = is_pay_null_data_pattern (script_ops s) \<and>
    (output_pattern s = pay_public_key) = is_pay_public_key_pattern (script_ops s) \<and>
    (output_pattern s = pay_multisig) = is_pay_multisig_pattern (script_ops s) \<and>
    (output_pattern s = pay_witness_key_hash) = is_pay_witness_key_hash_pattern (script_ops s) \<and>
    (output_pattern s = pay_witness_script_hash) = is_pay_witness_script_hash_pattern (script_ops s) \<and>
    (output_pattern s = pay_witness_v1_taproot) = is_pay_witness_taproot_pattern (script_ops s) \<and>
    (output_pattern s = pay_anchor) = is_pay_anchor_pattern (script_ops s) \<and>
    (output_pattern s = pay_witness_unknown) = is_pay_witness_unknown_pattern (script_ops s)"
  unfolding output_pattern_def Let_def
  using pattern_shapes [of "script_ops s"] by (intro conjI) (auto split: if_splits)

text \<open>
  Output patterns are mutually unambiguous: the classification of an output script, although
  it tests the ten templates in an order, reports a template exactly when the script matches
  that template's own predicate.
\<close>

theorem output_pattern_unambiguous:
  fixes s :: script
  defines "ops \<equiv> script_ops s"
  shows "(output_pattern s = pay_key_hash) = is_pay_key_hash_pattern ops \<and>
    (output_pattern s = pay_script_hash) = is_pay_script_hash_pattern ops \<and>
    (output_pattern s = pay_null_data) = is_pay_null_data_pattern ops \<and>
    (output_pattern s = pay_public_key) = is_pay_public_key_pattern ops \<and>
    (output_pattern s = pay_multisig) = is_pay_multisig_pattern ops \<and>
    (output_pattern s = pay_witness_key_hash) = is_pay_witness_key_hash_pattern ops \<and>
    (output_pattern s = pay_witness_script_hash) = is_pay_witness_script_hash_pattern ops \<and>
    (output_pattern s = pay_witness_v1_taproot) = is_pay_witness_taproot_pattern ops \<and>
    (output_pattern s = pay_anchor) = is_pay_anchor_pattern ops \<and>
    (output_pattern s = pay_witness_unknown) = is_pay_witness_unknown_pattern ops"
  unfolding ops_def by (rule output_pattern_iff)

section \<open>Builders produce their patterns\<close>

lemma nominal_push [simp]:
  "bs \<noteq> [] \<Longrightarrow> op_code (from_push_data bs False) = opcode_from_size (length bs)"
  "bs \<noteq> [] \<Longrightarrow> get_data (from_push_data bs False) = bs"
  using opcode_from_size_payload [of "length bs"]
  by (simp_all add: from_push_data_def opcode_from_data_def nominal_opcode_from_data_def get_data_def)

lemma nominal_push_empty [simp]: "get_data (from_push_data [] False) = []"
  "op_code (from_push_data [] False) = opcode_push_size_0"
  by (simp_all add: from_push_data_def opcode_from_data_def nominal_opcode_from_data_def
      opcode_from_size_def is_payload_def get_data_def)

lemma nominal_push_size: "data_size (from_push_data bs False) = length bs"
  by (cases "bs = []") (simp_all add: data_size_def)

lemma op_of_code_simps [simp]: "op_code (op_of_code c) = c" "get_data (op_of_code c) = []"
  by (simp_all add: op_of_code_def get_data_def)

lemma public_key_nonempty: "is_public_key k \<Longrightarrow> k \<noteq> []"
  by (auto simp: is_public_key_def is_compressed_key_def is_uncompressed_key_def key_sizes)

definition pays :: "operation list \<Rightarrow> script_pattern" where
  "pays ops = output_pattern (from_operations ops)"

lemma script_ops_from_operations [simp]: "script_ops (from_operations ops) = ops"
  by (simp add: from_operations_def make_script_def)

text \<open>
  The template builders produce scripts that are classified as their own template: pay to key
  hash, script hash, witness key hash, witness script hash and taproot for digests of the
  template's size, and pay to public key for every key of a compressed or uncompressed form, from
  which the key is extracted again.
\<close>

theorem builders_classified:
  assumes "length short = short_hash_size" "length long = 32" "is_public_key key"
  shows "pays (to_pay_key_hash_pattern short) = pay_key_hash \<and>
    pays (to_pay_script_hash_pattern short) = pay_script_hash \<and>
    pays (to_pay_witness_key_hash_pattern short) = pay_witness_key_hash \<and>
    pays (to_pay_witness_script_hash_pattern long) = pay_witness_script_hash \<and>
    pays (to_pay_witness_taproot_pattern long) = pay_witness_v1_taproot \<and>
    pays (to_pay_public_key_pattern key) = pay_public_key \<and>
    public_key (from_operations (to_pay_public_key_pattern key)) = key"
proof -
  have ne: "short \<noteq> []" "long \<noteq> []" "key \<noteq> []"
    using assms public_key_nonempty by (auto simp: key_sizes)
  have "is_pay_public_key_pattern (to_pay_public_key_pattern key)"
    using assms(3) ne by (simp add: to_pay_public_key_pattern_def is_pay_public_key_pattern_def)
  moreover have "is_pay_key_hash_pattern (to_pay_key_hash_pattern short)"
    "is_pay_script_hash_pattern (to_pay_script_hash_pattern short)"
    "is_pay_witness_key_hash_pattern (to_pay_witness_key_hash_pattern short)"
    "is_pay_witness_script_hash_pattern (to_pay_witness_script_hash_pattern long)"
    "is_pay_witness_taproot_pattern (to_pay_witness_taproot_pattern long)"
    using assms ne nominal_push_size [of short]
    by (simp_all add: to_pay_key_hash_pattern_def is_pay_key_hash_pattern_def
        to_pay_script_hash_pattern_def is_pay_script_hash_pattern_def
        to_pay_witness_key_hash_pattern_def is_pay_witness_key_hash_pattern_def
        to_pay_witness_script_hash_pattern_def is_pay_witness_script_hash_pattern_def
        to_pay_witness_taproot_pattern_def is_pay_witness_taproot_pattern_def
        to_pay_witness_pattern_def opcode_from_size_def key_sizes)
  ultimately show ?thesis using assms(3) ne
    by (simp add: pays_def output_pattern_iff public_key_def) (simp add: to_pay_public_key_pattern_def)
qed

theorem builders_classified_witness:
  "pays (to_pay_key_hash_pattern (replicate 20 7)) = pay_key_hash"
  using builders_classified [of "replicate 20 7" "replicate 32 7" "2 # replicate 32 9"]
  by (simp add: key_sizes is_public_key_def is_compressed_key_def)

text \<open>
  The null data builder and the null data pattern disagree on one byte data: the builder
  always makes the nominal push, the pattern demands the minimal one, so the script built for up
  to 80 bytes matches its pattern except for the single bytes that are numbers with their own
  code (0x81, 0x00 and 0x01 to 0x10).
\<close>

theorem null_data_builder:
  assumes "length bs \<le> max_null_data_size"
  shows "is_pay_null_data_pattern (to_pay_null_data_pattern bs) \<longleftrightarrow>
    \<not> (length bs = 1 \<and> (hd bs = 0x81 \<or> hd bs \<le> 16))"
proof (cases "bs = []")
  case True
  then show ?thesis
    by (simp add: to_pay_null_data_pattern_def is_pay_null_data_pattern_def is_minimal_push_def
        is_payload_def is_number_def is_nonnegative_def data_size_def)
next
  case False
  have codes: "minimal_opcode_from_data bs = opcode_from_size (length bs) \<longleftrightarrow>
      \<not> (length bs = 1 \<and> (hd bs = 0x81 \<or> hd bs \<le> 16))"
  proof (cases "length bs = 1")
    case True
    have "79 \<le> unat (opcode_from_positive b)" if "1 \<le> b" "b \<le> 16" for b :: byte
      using that by (simp add: opcode_from_positive_def word_le_nat_alt unat_word_ariths)
    then have pos: "opcode_from_positive b \<noteq> 1" if "1 \<le> b" "b \<le> 16" for b using that by force
    have "b = 0 \<or> 1 \<le> b" for b :: byte by (simp add: word_le_nat_alt unat_gt_0 Suc_le_eq)
    with True pos show ?thesis
      by (auto simp: minimal_opcode_from_data_def opcode_from_size_def numbers_defs)
  qed (simp add: minimal_opcode_from_data_def)
  have "is_payload (opcode_from_size (length bs))" using False opcode_from_size_payload by simp
  then show ?thesis using False assms codes
    by (auto simp: to_pay_null_data_pattern_def is_pay_null_data_pattern_def is_minimal_push_def
        nominal_push_size)
qed

theorem null_data_builder_witness:
  "\<not> is_pay_null_data_pattern (to_pay_null_data_pattern [5])"
  using null_data_builder [of "[5]"] by (simp add: max_null_data_size_def)

section \<open>Multiple signatures\<close>

lemma positive_code:
  assumes "1 \<le> m" "m \<le> 16"
  shows "is_positive (word_of_nat (m + 80))" "unat (opcode_to_positive (word_of_nat (m + 80))) = m"
    "as_unsigned32 (op_of_code (word_of_nat (m + 80))) = Some m"
proof -
  let ?c = "word_of_nat (m + 80) :: opcode"
  have u: "unat ?c = m + 80" using assms by (subst unat_of_nat) simp
  then show p: "is_positive ?c" using assms by (simp add: is_positive_def word_le_nat_alt)
  have "unat (?c - 80) = m" using u by (subst unat_sub_if') (simp add: word_le_nat_alt)
  then show pos: "unat (opcode_to_positive ?c) = m" by (simp add: opcode_to_positive_def)
  have "?c \<noteq> 0" using u by auto
  then show "as_unsigned32 (op_of_code ?c) = Some m"
    using p pos by (simp add: as_unsigned32_def as_unsigned_def is_nonnegative_def opcode_to_nonnegative_def)
qed

text \<open>
  A multisignature template built for \<open>m\<close> of \<open>n\<close> valid public keys (at most 16) matches
  both the standard and the relaxed pattern, and the extractors return \<open>m\<close> and exactly the keys,
  in order; any other arguments build the empty script.
\<close>

theorem multisig_builder:
  defines "s m keys \<equiv> from_operations (to_pay_multisig_pattern m keys)"
  shows "if 1 \<le> unat m \<and> unat m \<le> length keys \<and> length keys \<le> 16 \<and> list_all is_public_key keys
    then is_pay_multisig_standard_pattern (to_pay_multisig_pattern m keys) \<and>
      output_pattern (s m keys) = pay_multisig \<and> multisig_required (s m keys) = unat m \<and>
      multisig_keys (s m keys) = keys
    else to_pay_multisig_pattern m keys = []"
proof (cases "1 \<le> unat m \<and> unat m \<le> length keys \<and> length keys \<le> 16 \<and> list_all is_public_key keys")
  case True
  let ?n = "length keys"
  let ?push = "map (\<lambda>k. from_push_data k False) keys"
  let ?tail = "[op_of_code (word_of_nat (?n + 80)), op_of_code opcode_checkmultisig]"
  let ?ops = "op_of_code (word_of_nat (unat m + 80)) # ?push @ ?tail"
  have ops: "to_pay_multisig_pattern m keys = ?ops"
    using True by (auto simp: to_pay_multisig_pattern_def Let_def)
  have nth: "?ops ! (length ?ops - 2) = op_of_code (word_of_nat (?n + 80))"
    by (simp add: nth_append)
  have n: "1 \<le> ?n" "?n \<le> 16" "1 \<le> unat m" "unat m \<le> 16" using True by auto
  have keys: "map get_data ?push = keys"
    using True public_key_nonempty by (auto simp: list_all_iff intro!: map_idI)
  then have valid: "list_all (\<lambda>op. is_public_key (get_data op)) ?push"
    using True by (metis list.pred_map comp_def list.pred_cong)
  have std: "is_pay_multisig_standard_pattern ?ops"
    using positive_code [OF n(1,2)] positive_code [OF n(3,4)] True n valid nth
    by (auto simp: is_pay_multisig_standard_pattern_def Let_def)
  have pay: "is_pay_multisig_pattern ?ops"
    using positive_code(3) [OF n(1,2)] positive_code(3) [OF n(3,4)] True n nth
    by (auto simp: is_pay_multisig_pattern_def Let_def multisig_signatures_def max_multisig_public_keys_def)
  show ?thesis
    using True std pay keys positive_code(3) [OF n(3,4)]
    by (simp add: s_def ops output_pattern_iff multisig_required_def multisig_keys_def)
next
  case False
  then show ?thesis by (auto simp: to_pay_multisig_pattern_def Let_def)
qed

section \<open>Input patterns\<close>

lemma wf_not_underflow: "operation_wf op \<Longrightarrow> \<not> op_underflow op"
  by (simp add: operation_wf_def)

lemma parsed_push_code:
  "operation_wf op \<Longrightarrow> get_data op \<noteq> [] \<Longrightarrow> is_push (op_code op)"
  by (auto simp: operation_wf_def data_size_def header_size_def is_push_def is_relaxed_push_def
      word_le_nat_alt split: if_splits)

text \<open>Bytes that are a public key parse as an operation, so no underflow holds a public key.\<close>

lemma public_key_not_underflow:
  assumes "is_public_key k"
  shows "parse_op k \<noteq> None"
proof -
  obtain c t where k: "k = c # t" using public_key_nonempty [OF assms] by (cases k) auto
  then have "c = 2 \<or> c = 3 \<or> c = 4" "32 \<le> length t"
    using assms by (auto simp: is_public_key_def is_compressed_key_def is_uncompressed_key_def key_sizes)
  then show ?thesis unfolding k
    by (auto simp: Let_def header_size_def claimed_size_def max_bytes_def max_block_weight_def
        max_block_size_def)
qed

text \<open>
  In every script that comes from the parser, a script that signs a key hash is also a script
  that may sign a script hash, as the classification announces.
\<close>

theorem sign_key_hash_signs_script_hash:
  assumes "ops_wf ops" "is_sign_key_hash_pattern ops"
  shows "is_sign_script_hash_pattern ops"
proof -
  obtain a b where ops: "ops = [a, b]"
    using assms(2) by (auto simp: is_sign_key_hash_pattern_def length_Suc_conv numeral_2_eq_2)
  have key: "is_public_key (get_data b)" and "is_endorsement (get_data a)"
    using assms(2) by (simp_all add: ops is_sign_key_hash_pattern_def)
  then have ne: "get_data a \<noteq> []" "get_data b \<noteq> []"
    using public_key_nonempty by (auto simp: is_endorsement_def key_sizes)
  have "\<not> op_underflow b"
    using assms(1) public_key_not_underflow [OF key]
    by (auto simp: ops underflow_wf_def split: if_splits)
  then have "operation_wf a" "operation_wf b"
    using assms(1) by (auto simp: ops split: if_splits)
  with ne show ?thesis
    by (simp add: ops is_sign_script_hash_pattern_def is_push_only_pattern_def parsed_push_code)
qed

theorem sign_key_hash_signs_script_hash_witness:
  "is_sign_script_hash_pattern
     [from_push_data (replicate 9 1) False, from_push_data (2 # replicate 32 1) False]"
proof -
  have "ops_wf [from_push_data (replicate 9 1) False, from_push_data (2 # replicate 32 1) False]"
    using from_push_data_wf [of "replicate 9 1" False] from_push_data_wf [of "2 # replicate 32 1" False]
    by (simp add: wf_not_underflow max_bytes_def max_block_weight_def max_block_size_def)
  then show ?thesis
    by (rule sign_key_hash_signs_script_hash)
      (simp add: is_sign_key_hash_pattern_def is_endorsement_def is_public_key_def
        is_compressed_key_def key_sizes)
qed

text \<open>
  The other two signature patterns are not subsumed by the script hash pattern: a truncated
  push of nine bytes parses to a single underflow operation, whose bytes are taken for an
  endorsement although the script is not push only. Conversely a pay to witness key hash output
  also matches the script hash input pattern.
\<close>

theorem sign_patterns_not_subsumed:
  "(let s = script_of_bytes (0x4b # replicate 8 1) in
      input_pattern s = sign_public_key \<and> \<not> is_sign_script_hash_pattern (script_ops s)) \<and>
   is_sign_script_hash_pattern (to_pay_witness_key_hash_pattern (replicate 20 1)) \<and>
   pays (to_pay_witness_key_hash_pattern (replicate 20 1)) = pay_witness_key_hash"
proof -
  let ?bs = "0x4b # replicate 8 (1 :: byte)"
  have "parse_op ?bs = None" by (simp add: Let_def header_size_def claimed_size_def)
  then have "script_ops (script_of_bytes ?bs) = [underflow_op ?bs]"
    using script_of_bytes_parse [of ?bs] parse_ops_None [of ?bs] by (simp add: make_script_def limits)
  then have "let s = script_of_bytes ?bs in
     input_pattern s = sign_public_key \<and> \<not> is_sign_script_hash_pattern (script_ops s)"
    by (simp add: input_pattern_def is_sign_key_hash_pattern_def is_sign_public_key_pattern_def
        is_endorsement_def key_sizes underflow_op_def get_data_def is_sign_script_hash_pattern_def
        is_push_only_pattern_def is_push_def is_relaxed_push_def any_invalid_def)
  moreover have "is_sign_script_hash_pattern (to_pay_witness_key_hash_pattern (replicate 20 1)) \<and>
     pays (to_pay_witness_key_hash_pattern (replicate 20 1)) = pay_witness_key_hash"
    by (simp add: pays_def output_pattern_iff to_pay_witness_key_hash_pattern_def
        to_pay_witness_pattern_def is_pay_witness_key_hash_pattern_def is_sign_script_hash_pattern_def
        is_push_only_pattern_def is_push_def is_relaxed_push_def opcode_from_nonnegative_def
        opcode_from_size_def)
  ultimately show ?thesis by simp
qed

end
