(* ===== verification/Errors.thy ===== *)
theory Errors
  imports Prelude
begin

text \<open>
  Error codes (\<open>include/bitcoin/system/error\<close>): the enumerations of transaction, block,
  script and operation errors, and the \<open>code\<close> that the validation functions return. Every category has its own
  success value, which converts to false; any other value is a failure.
\<close>

datatype transaction_error_t = error_transaction_success | error_empty_transaction
  | error_previous_output_null | error_spend_overflow | error_invalid_coinbase_script_size
  | error_coinbase_transaction | error_transaction_internal_double_spend
  | error_transaction_size_limit | error_transaction_legacy_sigop_limit
  | error_unexpected_witness_transaction | error_premature_validation | error_unspent_duplicate
  | error_missing_previous_output | error_double_spend | error_coinbase_maturity
  | error_spend_exceeds_value | error_transaction_sigop_limit | error_absolute_time_locked
  | error_relative_time_locked | error_transaction_weight_limit | error_unconfirmed_spend
  | error_confirmed_double_spend

datatype block_error_t = error_block_success | error_invalid_proof_of_work
  | error_futuristic_timestamp | error_checkpoint_conflict | error_insufficient_block_version
  | error_anachronistic_timestamp | error_incorrect_proof_of_work | error_early_timestamp
  | error_orphan_block | error_block_size_limit | error_empty_block | error_first_not_coinbase
  | error_extra_coinbases | error_internal_duplicate | error_block_internal_double_spend
  | error_forward_reference | error_invalid_transaction_commitment
  | error_block_legacy_sigop_limit | error_block_non_final | error_coinbase_height_mismatch
  | error_coinbase_value_limit | error_block_sigop_limit | error_invalid_witness_commitment
  | error_block_weight_limit | error_temporary_hash_limit | error_invalid_signature
  | error_unspent_coinbase_collision

datatype script_error_t = error_script_success | error_inputs_overflow | error_prefail_script
  | error_prevalid_script | error_invalid_script | error_invalid_script_size
  | error_invalid_push_data_size | error_invalid_operation_count | error_invalid_stack_size
  | error_invalid_stack_scope | error_invalid_script_embed | error_unversioned_script
  | error_unexpected_witness | error_invalid_witness | error_invalid_witness_stack
  | error_invalid_commitment | error_dirty_witness | error_dirty_embed | error_stack_false

text \<open>
  The errors of script operations, one or more for each operation. The enumeration continues the
  numbers of the script errors; its enumerators are abbreviations of their values.
\<close>

type_synonym op_error_t = nat

abbreviation (input) error_op_success :: op_error_t where "error_op_success \<equiv> 0"
abbreviation (input) error_op_not_implemented :: op_error_t where "error_op_not_implemented \<equiv> 42"
abbreviation (input) error_op_invalid :: op_error_t where "error_op_invalid \<equiv> 43"
abbreviation (input) error_op_reserved :: op_error_t where "error_op_reserved \<equiv> 44"
abbreviation (input) error_op_push_size :: op_error_t where "error_op_push_size \<equiv> 45"
abbreviation (input) error_op_push_one_size :: op_error_t where "error_op_push_one_size \<equiv> 46"
abbreviation (input) error_op_push_two_size :: op_error_t where "error_op_push_two_size \<equiv> 47"
abbreviation (input) error_op_push_four_size :: op_error_t where "error_op_push_four_size \<equiv> 48"
abbreviation (input) error_op_if1 :: op_error_t where "error_op_if1 \<equiv> 49"
abbreviation (input) error_op_if2 :: op_error_t where "error_op_if2 \<equiv> 50"
abbreviation (input) error_op_notif1 :: op_error_t where "error_op_notif1 \<equiv> 51"
abbreviation (input) error_op_notif2 :: op_error_t where "error_op_notif2 \<equiv> 52"
abbreviation (input) error_op_else :: op_error_t where "error_op_else \<equiv> 53"
abbreviation (input) error_op_endif :: op_error_t where "error_op_endif \<equiv> 54"
abbreviation (input) error_op_verify1 :: op_error_t where "error_op_verify1 \<equiv> 55"
abbreviation (input) error_op_verify2 :: op_error_t where "error_op_verify2 \<equiv> 56"
abbreviation (input) error_op_return :: op_error_t where "error_op_return \<equiv> 57"
abbreviation (input) error_op_to_alt_stack :: op_error_t where "error_op_to_alt_stack \<equiv> 58"
abbreviation (input) error_op_from_alt_stack :: op_error_t where "error_op_from_alt_stack \<equiv> 59"
abbreviation (input) error_op_drop2 :: op_error_t where "error_op_drop2 \<equiv> 60"
abbreviation (input) error_op_dup2 :: op_error_t where "error_op_dup2 \<equiv> 61"
abbreviation (input) error_op_dup3 :: op_error_t where "error_op_dup3 \<equiv> 62"
abbreviation (input) error_op_over2 :: op_error_t where "error_op_over2 \<equiv> 63"
abbreviation (input) error_op_rot2 :: op_error_t where "error_op_rot2 \<equiv> 64"
abbreviation (input) error_op_swap2 :: op_error_t where "error_op_swap2 \<equiv> 65"
abbreviation (input) error_op_if_dup :: op_error_t where "error_op_if_dup \<equiv> 66"
abbreviation (input) error_op_drop :: op_error_t where "error_op_drop \<equiv> 67"
abbreviation (input) error_op_dup :: op_error_t where "error_op_dup \<equiv> 68"
abbreviation (input) error_op_nip :: op_error_t where "error_op_nip \<equiv> 69"
abbreviation (input) error_op_over :: op_error_t where "error_op_over \<equiv> 70"
abbreviation (input) error_op_pick :: op_error_t where "error_op_pick \<equiv> 71"
abbreviation (input) error_op_roll :: op_error_t where "error_op_roll \<equiv> 72"
abbreviation (input) error_op_rot :: op_error_t where "error_op_rot \<equiv> 73"
abbreviation (input) error_op_swap :: op_error_t where "error_op_swap \<equiv> 74"
abbreviation (input) error_op_tuck :: op_error_t where "error_op_tuck \<equiv> 75"
abbreviation (input) error_op_size :: op_error_t where "error_op_size \<equiv> 76"
abbreviation (input) error_op_equal :: op_error_t where "error_op_equal \<equiv> 77"
abbreviation (input) error_op_equal_verify1 :: op_error_t where "error_op_equal_verify1 \<equiv> 78"
abbreviation (input) error_op_equal_verify2 :: op_error_t where "error_op_equal_verify2 \<equiv> 79"
abbreviation (input) error_op_add1 :: op_error_t where "error_op_add1 \<equiv> 80"
abbreviation (input) error_op_sub1 :: op_error_t where "error_op_sub1 \<equiv> 81"
abbreviation (input) error_op_negate :: op_error_t where "error_op_negate \<equiv> 82"
abbreviation (input) error_op_abs :: op_error_t where "error_op_abs \<equiv> 83"
abbreviation (input) error_op_not :: op_error_t where "error_op_not \<equiv> 84"
abbreviation (input) error_op_nonzero :: op_error_t where "error_op_nonzero \<equiv> 85"
abbreviation (input) error_op_add :: op_error_t where "error_op_add \<equiv> 86"
abbreviation (input) error_op_sub :: op_error_t where "error_op_sub \<equiv> 87"
abbreviation (input) error_op_bool_and :: op_error_t where "error_op_bool_and \<equiv> 88"
abbreviation (input) error_op_bool_or :: op_error_t where "error_op_bool_or \<equiv> 89"
abbreviation (input) error_op_num_equal :: op_error_t where "error_op_num_equal \<equiv> 90"
abbreviation (input) error_op_num_equal_verify1 :: op_error_t where "error_op_num_equal_verify1 \<equiv> 91"
abbreviation (input) error_op_num_equal_verify2 :: op_error_t where "error_op_num_equal_verify2 \<equiv> 92"
abbreviation (input) error_op_num_not_equal :: op_error_t where "error_op_num_not_equal \<equiv> 93"
abbreviation (input) error_op_less_than :: op_error_t where "error_op_less_than \<equiv> 94"
abbreviation (input) error_op_greater_than :: op_error_t where "error_op_greater_than \<equiv> 95"
abbreviation (input) error_op_less_than_or_equal :: op_error_t where "error_op_less_than_or_equal \<equiv> 96"
abbreviation (input) error_op_greater_than_or_equal :: op_error_t where "error_op_greater_than_or_equal \<equiv> 97"
abbreviation (input) error_op_min :: op_error_t where "error_op_min \<equiv> 98"
abbreviation (input) error_op_max :: op_error_t where "error_op_max \<equiv> 99"
abbreviation (input) error_op_within :: op_error_t where "error_op_within \<equiv> 100"
abbreviation (input) error_op_ripemd160 :: op_error_t where "error_op_ripemd160 \<equiv> 101"
abbreviation (input) error_op_sha1 :: op_error_t where "error_op_sha1 \<equiv> 102"
abbreviation (input) error_op_sha256 :: op_error_t where "error_op_sha256 \<equiv> 103"
abbreviation (input) error_op_hash160 :: op_error_t where "error_op_hash160 \<equiv> 104"
abbreviation (input) error_op_hash256 :: op_error_t where "error_op_hash256 \<equiv> 105"
abbreviation (input) error_op_check_sig_low_stack :: op_error_t where "error_op_check_sig_low_stack \<equiv> 106"
abbreviation (input) error_op_check_sig_verify1 :: op_error_t where "error_op_check_sig_verify1 \<equiv> 107"
abbreviation (input) error_op_check_sig_verify2 :: op_error_t where "error_op_check_sig_verify2 \<equiv> 108"
abbreviation (input) error_op_check_sig_verify3 :: op_error_t where "error_op_check_sig_verify3 \<equiv> 109"
abbreviation (input) error_op_check_sig_verify4 :: op_error_t where "error_op_check_sig_verify4 \<equiv> 110"
abbreviation (input) error_op_check_sig_empty_key :: op_error_t where "error_op_check_sig_empty_key \<equiv> 111"
abbreviation (input) error_op_check_sig_schnorr1 :: op_error_t where "error_op_check_sig_schnorr1 \<equiv> 112"
abbreviation (input) error_op_check_sig_schnorr2 :: op_error_t where "error_op_check_sig_schnorr2 \<equiv> 113"
abbreviation (input) error_op_check_sig_schnorr3 :: op_error_t where "error_op_check_sig_schnorr3 \<equiv> 114"
abbreviation (input) error_op_check_sig_budget :: op_error_t where "error_op_check_sig_budget \<equiv> 115"
abbreviation (input) error_op_check_sig_decode_signature :: op_error_t where "error_op_check_sig_decode_signature \<equiv> 116"
abbreviation (input) error_op_check_multisig_verify1 :: op_error_t where "error_op_check_multisig_verify1 \<equiv> 117"
abbreviation (input) error_op_check_multisig_verify2 :: op_error_t where "error_op_check_multisig_verify2 \<equiv> 118"
abbreviation (input) error_op_check_multisig_verify3 :: op_error_t where "error_op_check_multisig_verify3 \<equiv> 119"
abbreviation (input) error_op_check_multisig_verify4 :: op_error_t where "error_op_check_multisig_verify4 \<equiv> 120"
abbreviation (input) error_op_check_multisig_verify5 :: op_error_t where "error_op_check_multisig_verify5 \<equiv> 121"
abbreviation (input) error_op_check_multisig_verify6 :: op_error_t where "error_op_check_multisig_verify6 \<equiv> 122"
abbreviation (input) error_op_check_multisig_verify7 :: op_error_t where "error_op_check_multisig_verify7 \<equiv> 123"
abbreviation (input) error_op_check_multisig_verify8 :: op_error_t where "error_op_check_multisig_verify8 \<equiv> 124"
abbreviation (input) error_op_check_multisig_verify9 :: op_error_t where "error_op_check_multisig_verify9 \<equiv> 125"
abbreviation (input) error_op_check_multisig_mismatch :: op_error_t where "error_op_check_multisig_mismatch \<equiv> 126"
abbreviation (input) error_op_check_multisig_decode_signature :: op_error_t where "error_op_check_multisig_decode_signature \<equiv> 127"
abbreviation (input) error_op_check_locktime_verify1 :: op_error_t where "error_op_check_locktime_verify1 \<equiv> 128"
abbreviation (input) error_op_check_locktime_verify2 :: op_error_t where "error_op_check_locktime_verify2 \<equiv> 129"
abbreviation (input) error_op_check_locktime_verify3 :: op_error_t where "error_op_check_locktime_verify3 \<equiv> 130"
abbreviation (input) error_op_check_locktime_verify4 :: op_error_t where "error_op_check_locktime_verify4 \<equiv> 131"
abbreviation (input) error_op_check_sequence_verify1 :: op_error_t where "error_op_check_sequence_verify1 \<equiv> 132"
abbreviation (input) error_op_check_sequence_verify2 :: op_error_t where "error_op_check_sequence_verify2 \<equiv> 133"
abbreviation (input) error_op_check_sequence_verify3 :: op_error_t where "error_op_check_sequence_verify3 \<equiv> 134"
abbreviation (input) error_op_check_sequence_verify4 :: op_error_t where "error_op_check_sequence_verify4 \<equiv> 135"
abbreviation (input) error_op_check_sequence_verify5 :: op_error_t where "error_op_check_sequence_verify5 \<equiv> 136"
abbreviation (input) error_op_check_sig_add1 :: op_error_t where "error_op_check_sig_add1 \<equiv> 137"
abbreviation (input) error_op_check_sig_add2 :: op_error_t where "error_op_check_sig_add2 \<equiv> 138"
abbreviation (input) error_op_check_sig_add3 :: op_error_t where "error_op_check_sig_add3 \<equiv> 139"
abbreviation (input) error_op_check_sig_add4 :: op_error_t where "error_op_check_sig_add4 \<equiv> 140"
abbreviation (input) error_op_check_sig_add5 :: op_error_t where "error_op_check_sig_add5 \<equiv> 141"
abbreviation (input) error_op_check_sig_add6 :: op_error_t where "error_op_check_sig_add6 \<equiv> 142"
abbreviation (input) error_op_check_sig_add7 :: op_error_t where "error_op_check_sig_add7 \<equiv> 143"

datatype code = tx_code transaction_error_t | block_code block_error_t
  | script_code script_error_t | op_error_code op_error_t

definition failed :: "code \<Rightarrow> bool" where
  "failed ec \<longleftrightarrow> ec \<notin> {tx_code error_transaction_success, block_code error_block_success,
     script_code error_script_success, op_error_code error_op_success}"

text \<open>
  A validation function is a sequence of guarded returns; the first guard that holds decides.
\<close>

fun first_error :: "code \<Rightarrow> (bool \<times> code) list \<Rightarrow> code" where
  "first_error ok [] = ok"
| "first_error ok ((guard, ec) # checks) = (if guard then ec else first_error ok checks)"

lemma first_error_ok:
  "\<not> failed ok \<Longrightarrow> list_all (\<lambda>(guard, ec). failed ec) checks \<Longrightarrow>
   \<not> failed (first_error ok checks) \<longleftrightarrow> list_all (\<lambda>(guard, ec). \<not> guard) checks"
  by (induction checks) (auto split: if_splits)

lemma failed_simps [simp]:
  "failed (tx_code e) \<longleftrightarrow> e \<noteq> error_transaction_success"
  "failed (block_code b) \<longleftrightarrow> b \<noteq> error_block_success"
  "failed (script_code s) \<longleftrightarrow> s \<noteq> error_script_success"
  "failed (op_error_code n) \<longleftrightarrow> n \<noteq> error_op_success"
  by (simp_all add: failed_def)

end
