(* ===== verification/Witness.thy ===== *)
theory Witness
  imports ScriptPatterns Errors
begin

text \<open>
  Witnesses (\<open>src/chain/witness.cpp\<close>, \<open>src/chain/witness_extract.cpp\<close>, \<open>src/chain/taproot.cpp\<close>
  and the patterns of \<open>witness_patterns.ipp\<close>, \<open>annex.ipp\<close> and \<open>tapscript.ipp\<close>): the stack of
  elements, its two serializations, skipping a serialized witness, and the extraction of the
  script and the initial stack that a witness program executes.

  The hashes that the extraction compares are arguments of the definitions: \<open>sha256\<close> for the
  script hash and \<open>tagged\<close> for the tagged hashes of taproot, each a function of the bytes
  written to the hash sink; \<open>verify_commitment\<close> is the schnorr check of the secp256k1 library.
\<close>

section \<open>The annex\<close>

definition taproot_annex_prefix :: byte where "taproot_annex_prefix = 0x50"

definition is_annex_pattern :: "data_chunk list \<Rightarrow> bool" where
  "is_annex_pattern stack \<longleftrightarrow> \<not> length stack \<le> 1 \<and>
     last stack \<noteq> [] \<and> hd (last stack) = taproot_annex_prefix"

definition drop_annex :: "data_chunk list \<Rightarrow> bool \<times> data_chunk list" where
  "drop_annex stack = (if \<not> is_annex_pattern stack then (False, stack) else (True, butlast stack))"

section \<open>Witnesses\<close>

record witness =
  wit_stack :: "data_chunk list"
  wit_valid :: bool
  wit_size :: nat
  wit_annex :: "data_chunk option"

definition element_size :: "data_chunk \<Rightarrow> nat" where
  "element_size e = ceilinged_add (variable_size (length e)) (length e)"

definition stack_serialized_size :: "data_chunk list \<Rightarrow> bool \<Rightarrow> nat" where
  "stack_serialized_size stack prefix =
     (let sz = foldl (\<lambda>acc e. ceilinged_add acc (element_size e)) 0 stack
      in if prefix then ceilinged_add (variable_size (length stack)) sz else sz)"

definition make_witness :: "data_chunk list \<Rightarrow> bool \<Rightarrow> nat \<Rightarrow> witness" where
  "make_witness stack valid sz = \<lparr>wit_stack = stack, wit_valid = valid, wit_size = sz,
     wit_annex = (if is_annex_pattern stack then Some (last stack) else None)\<rparr>"

definition default_witness :: witness where
  "default_witness = make_witness [] False 0"

definition witness_of_stack :: "data_chunk list \<Rightarrow> witness" where
  "witness_of_stack stack = make_witness stack True (stack_serialized_size stack False)"

definition witness_equal :: "witness \<Rightarrow> witness \<Rightarrow> bool" where
  "witness_equal a b \<longleftrightarrow> wit_stack a = wit_stack b"

definition read_element :: "reader \<Rightarrow> data_chunk \<times> reader" where
  "read_element r = (let (sz, s) = read_size max_bytes r in
     if sz = 0 then ([], s) else read_bytes sz s)"

definition skip_element :: "reader \<Rightarrow> reader" where
  "skip_element r = (let (sz, s) = read_size max_bytes r in skip_bytes sz s)"

section \<open>Progress\<close>

definition onward :: "reader \<Rightarrow> reader \<Rightarrow> bool" where
  "onward r s \<longleftrightarrow> rbuf s = rbuf r \<and> rpos r \<le> rpos s \<and> rpos s \<le> length (rbuf r)"

lemma onward_trans: "onward r s \<Longrightarrow> onward s t \<Longrightarrow> onward r t"
  by (simp add: onward_def)

lemma onward_refl: "onward r s \<Longrightarrow> onward s s"
  by (simp add: onward_def)

lemma onward_invalidate [simp]: "onward r (invalidate s) = onward r s"
  by (simp add: onward_def invalidate_def)

lemma do_read_bytes_onward: "onward r r \<Longrightarrow> onward r (snd (do_read_bytes n r))"
  by (auto simp: onward_def do_read_bytes_def limiter_def istream_read_def invalidate_def Let_def)

lemma read_bytes_onward: "onward r r \<Longrightarrow> onward r (snd (read_bytes n r))"
  by (simp add: read_bytes_def do_read_bytes_onward)

lemma read_little_endian_onward: "onward r r \<Longrightarrow> onward r (snd (read_little_endian n r))"
  using do_read_bytes_onward [of r n] by (simp add: read_little_endian_def case_prod_beta)

lemma read_size_progress:
  assumes "\<not> get_exhausted r"
  shows "onward (advance 1 r) (snd (read_size limit r))"
proof -
  obtain c t where r: "ready r" "window r = c # t"
    using not_exhausted_ready [OF assms] by (metis neq_Nil_conv)
  have o: "onward (advance 1 r) (advance 1 r)"
    using ready_advance [OF r(1), of 1] r(2) by (simp add: onward_def ready_def)
  note le = read_little_endian_onward [OF o]
  have "onward (advance 1 r) (snd (read_variable r))"
    using read_byte_window [OF r] o le [of 2] le [of 4] le [of 8]
    by (simp add: read_variable_def case_prod_beta)
  then show ?thesis by (simp add: read_size_def case_prod_beta)
qed

lemma read_element_measure:
  assumes "\<not> get_exhausted r"
  shows "length (rbuf (snd (read_element r))) - rpos (snd (read_element r)) < length (rbuf r) - rpos r"
    "length (rbuf (skip_element r)) - rpos (skip_element r) < length (rbuf r) - rpos r"
proof -
  obtain n s where n: "read_size max_bytes r = (n, s)" by fastforce
  have p: "onward (advance 1 r) s" using read_size_progress [OF assms, of max_bytes] n by simp
  have l: "rpos r < length (rbuf r)"
    using window_le(2) [of r] not_exhausted_ready [OF assms] by (cases "window r") simp_all
  have "onward (advance 1 r) (snd (read_element r))"
    using n p onward_trans [OF p read_bytes_onward [OF onward_refl [OF p]]]
    by (simp add: read_element_def)
  moreover have "rbuf (skip_element r) = rbuf r" "rpos r < rpos (skip_element r)"
    using n p skip_bytes_mono [where n = n and r = s] by (simp_all add: skip_element_def onward_def)
  ultimately show
    "length (rbuf (snd (read_element r))) - rpos (snd (read_element r)) < length (rbuf r) - rpos r"
    "length (rbuf (skip_element r)) - rpos (skip_element r) < length (rbuf r) - rpos r"
    using diff_less_mono2 [OF _ l] by (simp_all add: onward_def)
qed

section \<open>Deserialization\<close>

function read_elements :: "reader \<Rightarrow> data_chunk list \<times> reader" where
  "read_elements r = (if get_exhausted r then ([], r)
     else let (e, s) = read_element r; (es, t) = read_elements s in (e # es, t))"
  by pat_completeness auto
termination
  by (relation "measure (\<lambda>r. length (rbuf r) - rpos r)")
    (auto dest!: read_element_measure(1) simp: prod_eq_iff [of _ "read_element _"])

declare read_elements.simps [simp del]

text \<open>
  The accumulated size is a plain sum in the code; at most \<open>max_bytes\<close> elements of at most
  \<open>max_bytes\<close> bytes cannot wrap a 64 bit \<open>size_t\<close>.
\<close>

definition witness_from_data :: "reader \<Rightarrow> bool \<Rightarrow> witness \<times> reader" where
  "witness_from_data r prefix =
     (let (stack, s) = (if prefix
            then (let (count, s) = read_size max_bytes r in read_each read_element count s)
            else read_elements r)
      in (make_witness stack (rgood s) (sum_list (map element_size stack)), s))"

fun skip_each :: "nat \<Rightarrow> reader \<Rightarrow> reader" where
  "skip_each 0 r = r"
| "skip_each (Suc n) r = skip_each n (skip_element r)"

function skip_elements :: "bool \<Rightarrow> reader \<Rightarrow> bool \<times> reader" where
  "skip_elements superfluous r = (if get_exhausted r then (superfluous, r)
     else skip_elements False (skip_element r))"
  by pat_completeness auto
termination
  by (relation "measure (\<lambda>(_, r). length (rbuf r) - rpos r)") (use read_element_measure(2) in fastforce)+

declare skip_elements.simps [simp del]

definition witness_skip :: "reader \<Rightarrow> bool \<Rightarrow> bool \<times> reader" where
  "witness_skip r prefix =
     (if prefix then (let (count, s) = read_size max_bytes r in (count \<noteq> 0, skip_each count s))
      else (let (superfluous, s) = skip_elements True r in (\<not> superfluous, s)))"

section \<open>Serialization\<close>

definition write_element :: "data_chunk \<Rightarrow> data_chunk" where
  "write_element e = write_variable (length e) @ e"

definition witness_to_data :: "witness \<Rightarrow> bool \<Rightarrow> data_chunk" where
  "witness_to_data w prefix =
     (if prefix then write_variable (length (wit_stack w)) else []) @
     concat (map write_element (wit_stack w))"

definition witness_serialized_size :: "witness \<Rightarrow> bool \<Rightarrow> nat" where
  "witness_serialized_size w prefix =
     (if prefix then ceilinged_add (variable_size (length (wit_stack w))) (wit_size w) else wit_size w)"

section \<open>Patterns\<close>

definition hash_size :: nat where "hash_size = 32"

definition is_push_size :: "data_chunk list \<Rightarrow> bool" where
  "is_push_size stack \<longleftrightarrow> list_all (\<lambda>e. length e \<le> max_push_data_size) stack"

definition is_reserved_pattern :: "data_chunk list \<Rightarrow> bool" where
  "is_reserved_pattern stack \<longleftrightarrow> length stack = 1 \<and> length (hd stack) = hash_size"

section \<open>Tapscript control blocks\<close>

definition taproot_max_keys :: nat where "taproot_max_keys = 128"
definition tapscript_mask :: byte where "tapscript_mask = 0xfe"
definition tapscript_version :: byte where "tapscript_version = 0xc0"

definition is_control :: "data_chunk \<Rightarrow> bool" where
  "is_control control \<longleftrightarrow> length control \<ge> 1 + ec_xonly_size \<and>
     length control \<le> 1 + ec_xonly_size * (1 + taproot_max_keys) \<and>
     (length control - 1) mod ec_xonly_size = 0"

definition control_parity :: "data_chunk \<Rightarrow> bool" where
  "control_parity control \<longleftrightarrow> hd control AND NOT tapscript_mask \<noteq> 0"

definition control_version :: "data_chunk \<Rightarrow> byte" where
  "control_version control = hd control AND tapscript_mask"

definition is_tapscript :: "data_chunk \<Rightarrow> bool" where
  "is_tapscript control \<longleftrightarrow> control_version control = tapscript_version"

definition control_key :: "data_chunk \<Rightarrow> data_chunk" where
  "control_key control = take ec_xonly_size (drop 1 control)"

definition control_count :: "data_chunk \<Rightarrow> nat" where
  "control_count control = (length control - (1 + ec_xonly_size)) div ec_xonly_size"

definition control_keys :: "data_chunk \<Rightarrow> nat \<Rightarrow> hash_digest" where
  "control_keys control i = take ec_xonly_size (drop (1 + ec_xonly_size + i * ec_xonly_size) control)"

section \<open>Taproot commitments\<close>

type_synonym tagged_hash = "string \<Rightarrow> data_chunk \<Rightarrow> hash_digest"

fun bytes_less :: "data_chunk \<Rightarrow> data_chunk \<Rightarrow> bool" where
  "bytes_less [] [] = False"
| "bytes_less [] (_ # _) = True"
| "bytes_less (_ # _) [] = False"
| "bytes_less (a # as) (b # bs) = (if a < b then True else if b < a then False else bytes_less as bs)"

definition branch_hash :: "tagged_hash \<Rightarrow> hash_digest \<Rightarrow> hash_digest \<Rightarrow> hash_digest" where
  "branch_hash tagged first second = tagged ''TapBranch'' (first @ second)"

definition sorted_branch_hash :: "tagged_hash \<Rightarrow> hash_digest \<Rightarrow> hash_digest \<Rightarrow> hash_digest" where
  "sorted_branch_hash tagged left right = (if bytes_less left right
     then branch_hash tagged left right else branch_hash tagged right left)"

definition taproot_merkle_root :: "tagged_hash \<Rightarrow> (nat \<Rightarrow> hash_digest) \<Rightarrow> nat \<Rightarrow> hash_digest \<Rightarrow> hash_digest" where
  "taproot_merkle_root tagged keys count leaf =
     foldl (\<lambda>hash key. sorted_branch_hash tagged hash (keys key)) leaf [0..<count]"

definition tweak_hash :: "tagged_hash \<Rightarrow> data_chunk \<Rightarrow> hash_digest \<Rightarrow> hash_digest" where
  "tweak_hash tagged key merkle = tagged ''TapTweak'' (key @ merkle)"

definition leaf_hash :: "tagged_hash \<Rightarrow> byte \<Rightarrow> script \<Rightarrow> hash_digest" where
  "leaf_hash tagged version s = tagged ''TapLeaf'' (write_byte version @ script_to_data s True)"

type_synonym commitment_check = "data_chunk \<Rightarrow> hash_digest \<Rightarrow> data_chunk \<Rightarrow> bool \<Rightarrow> bool"

definition verify_commit ::
  "tagged_hash \<Rightarrow> commitment_check \<Rightarrow> data_chunk \<Rightarrow> data_chunk \<Rightarrow> hash_digest \<Rightarrow> bool" where
  "verify_commit tagged verify_commitment control out_key leaf =
     (let root = taproot_merkle_root tagged (control_keys control) (control_count control) leaf;
          tweak = tweak_hash tagged (control_key control) root
      in verify_commitment (control_key control) tweak out_key (control_parity control))"

section \<open>Extraction\<close>

definition checksig_script :: script where
  "checksig_script = from_operations [op_of_code opcode_checksig]"

definition success_script :: script where
  "success_script = from_operations [op_of_code opcode_reserved_80]"

definition null_hash :: hash_digest where "null_hash = replicate hash_size 0"

definition script_hash :: "(data_chunk \<Rightarrow> hash_digest) \<Rightarrow> script \<Rightarrow> hash_digest" where
  "script_hash sha256 s = (if \<not> script_valid s then null_hash else sha256 (script_to_data s False))"

definition witness_extract_sigop_script :: "witness \<Rightarrow> script \<Rightarrow> script option" where
  "witness_extract_sigop_script w program_script =
     (case script_version_of program_script of
        segwit \<Rightarrow> (let sz = length (witness_program program_script) in
          if sz = short_hash_size then Some checksig_script
          else if sz = hash_size then
            (if wit_stack w \<noteq> [] then Some (script_of_bytes (last (wit_stack w))) else Some default_script)
          else Some default_script)
      | taproot \<Rightarrow> Some default_script
      | reserved \<Rightarrow> Some default_script
      | unversioned \<Rightarrow> None)"

record extracted =
  ext_code :: code
  ext_script :: "script option"
  ext_stack :: "data_chunk list"
  ext_leaf :: "hash_digest option"

definition extract_segwit :: "(data_chunk \<Rightarrow> hash_digest) \<Rightarrow> witness \<Rightarrow> script \<Rightarrow> extracted" where
  "extract_segwit sha256 w program_script =
     (let program = witness_program program_script; stack = wit_stack w in
      if length program = short_hash_size then
        \<lparr>ext_code = (if length stack = 2 then script_code error_script_success
           else script_code error_invalid_witness),
         ext_script = Some (from_operations (to_pay_key_hash_pattern program)), ext_stack = stack,
         ext_leaf = None\<rparr>
      else if length program = hash_size then
        (if stack = [] then \<lparr>ext_code = script_code error_invalid_witness, ext_script = None,
           ext_stack = stack, ext_leaf = None\<rparr>
         else let s = script_of_bytes (last stack) in
           \<lparr>ext_code = (if program = script_hash sha256 s then script_code error_script_success
              else script_code error_invalid_witness),
            ext_script = Some s, ext_stack = butlast stack, ext_leaf = None\<rparr>)
      else \<lparr>ext_code = script_code error_invalid_witness, ext_script = None, ext_stack = stack,
        ext_leaf = None\<rparr>)"

definition extract_taproot ::
  "tagged_hash \<Rightarrow> commitment_check \<Rightarrow> witness \<Rightarrow> script \<Rightarrow> extracted" where
  "extract_taproot tagged verify_commitment w program_script =
     (let program = witness_program program_script in
      if length program = ec_xonly_size then
        (let (_, stack) = drop_annex (wit_stack w) in
         if length stack > 1 then
           (let control = last stack; stack1 = butlast stack in
            if \<not> is_control control then \<lparr>ext_code = script_code error_invalid_witness,
              ext_script = None, ext_stack = stack1, ext_leaf = None\<rparr>
            else let tapleaf = script_of_bytes (last stack1); stack2 = butlast stack1;
                     leaf = leaf_hash tagged (control_version control) tapleaf in
              if \<not> verify_commit tagged verify_commitment control program leaf
              then \<lparr>ext_code = script_code error_invalid_commitment, ext_script = None,
                ext_stack = stack2, ext_leaf = None\<rparr>
              else if is_tapscript control
              then \<lparr>ext_code = script_code error_script_success, ext_script = Some tapleaf,
                ext_stack = stack2, ext_leaf = Some leaf\<rparr>
              else \<lparr>ext_code = script_code error_script_success, ext_script = Some success_script,
                ext_stack = [], ext_leaf = None\<rparr>)
         else if length stack = 1 then \<lparr>ext_code = script_code error_script_success,
           ext_script = Some checksig_script, ext_stack = stack @ [program], ext_leaf = None\<rparr>
         else \<lparr>ext_code = script_code error_invalid_witness, ext_script = None, ext_stack = stack,
           ext_leaf = None\<rparr>)
      else \<lparr>ext_code = script_code error_script_success, ext_script = Some success_script,
        ext_stack = [], ext_leaf = None\<rparr>)"

section \<open>Witness codecs\<close>

lemma length_write_element: "length e \<le> max_bytes \<Longrightarrow> length (write_element e) = element_size e"
  by (simp add: write_element_def element_size_def size_simps ceilinged_add_def max_bytes_def
      max_block_weight_def max_block_size_def limits variable_size_def)

lemma max_bytes_less: "max_bytes \<le> max_uint64"
  by (simp add: max_bytes_def max_block_weight_def max_block_size_def limits)

lemma read_element_roundtrip:
  assumes "length e \<le> max_bytes" "feeds r (write_element e)"
  shows "fst (read_element r) = e \<and> moved r (length (write_element e)) (snd (read_element r))"
proof -
  have f: "feeds r (write_variable (length e) @ e)" using assms(2) by (simp add: write_element_def)
  obtain r1 where r1: "read_size max_bytes r = (length e, r1)"
      "moved r (length (write_variable (length e))) r1"
    using read_size_moved [OF feeds_appendD [OF f] assms(1)] assms(1) max_bytes_less by auto
  have f1: "feeds r1 e" by (rule feeds_moved [OF f r1(2)])
  have "e \<noteq> [] \<Longrightarrow> read_bytes (length e) r1 = (e, advance (length e) r1)"
    using f1 moved_good [OF r1(2)] by (simp add: read_bytes_def do_read_bytes_feeds)
  then show ?thesis
    using r1 moved_trans [OF r1(2) moved_advance [OF f1]] by (auto simp: read_element_def write_element_def)
qed

lemma read_element_sticky: "rgood (snd (read_element r)) \<Longrightarrow> rgood r"
  using read_size_sticky [of max_bytes r]
    read_bytes_sticky [of "fst (read_size max_bytes r)" "snd (read_size max_bytes r)"]
  by (simp add: read_element_def case_prod_beta split: if_splits)

text \<open>A good element read, with the skip that passes over the same bytes.\<close>

lemma read_element_good:
  assumes "ready r" "read_element r = (e, s)" "rgood s"
  shows "length e \<le> max_bytes \<and> consumed r (write_element e) s" "skip_element r = s"
proof -
  obtain n t where n: "read_size max_bytes r = (n, t)" by fastforce
  have s: "if n = 0 then e = [] \<and> s = t else do_read_bytes n t = (e, s) \<and> rgood t"
    using assms(2,3) n by (auto simp: read_element_def read_bytes_def split: if_splits)
  then have t: "rgood t" using assms(3) by (auto split: if_splits)
  note sz = read_size_good [OF assms(1) n t]
  have rt: "ready t" by (rule consumed_ready [OF sz(1) t])
  have "length e = n \<and> consumed t e s \<and> skip_bytes n t = s"
  proof (cases "n = 0")
    case True
    then show ?thesis using s rt by (simp add: consumed_refl skip_bytes_def limiter_def seek_forward_def)
  next
    case False
    then have d: "do_read_bytes n t = (e, s)" using s by simp
    have "skip_bytes n t = s"
      using d assms(3) t False
      by (auto simp: do_read_bytes_def skip_bytes_def limiter_def istream_read_def seek_forward_def
          Let_def split: if_splits)
    with do_read_bytes_good [OF rt d assms(3)] show ?thesis by simp
  qed
  then show "length e \<le> max_bytes \<and> consumed r (write_element e) s" "skip_element r = s"
    using sz consumed_trans [OF sz(1)] n by (auto simp: write_element_def skip_element_def)
qed

interpretation element_codec: canonical_codec write_element read_element "\<lambda>e. length e \<le> max_bytes"
  by unfold_locales
    (rule read_element_roundtrip read_element_sticky read_element_good(1); assumption)+

definition witness_ok :: "witness \<Rightarrow> bool" where
  "witness_ok w \<longleftrightarrow> w = witness_of_stack (wit_stack w) \<and> length (wit_stack w) \<le> max_bytes \<and>
     list_all (\<lambda>e. length e \<le> max_bytes) (wit_stack w)"

lemma stack_serialized_size_length:
  assumes "list_all (\<lambda>e. length e \<le> max_bytes) stack"
  shows "stack_serialized_size stack False = min max_size_t (length (concat (map write_element stack)))"
    "sum_list (map element_size stack) = length (concat (map write_element stack))"
proof -
  show "sum_list (map element_size stack) = length (concat (map write_element stack))"
    using assms by (induction stack) (simp_all add: length_write_element)
  then show "stack_serialized_size stack False = min max_size_t (length (concat (map write_element stack)))"
    using foldl_ceilinged [of 0 element_size stack] by (simp add: stack_serialized_size_def)
qed

lemma witness_from_data_roundtrip:
  assumes "witness_ok w" "feeds r (witness_to_data w True)"
  shows "fst (witness_from_data r True) = w \<and>
    moved r (length (witness_to_data w True)) (snd (witness_from_data r True))"
proof -
  define st where "st = wit_stack w"
  let ?b = "concat (map write_element st)"
  have w: "w = witness_of_stack st" "length st \<le> max_bytes" "list_all (\<lambda>e. length e \<le> max_bytes) st"
    using assms(1) by (simp_all add: witness_ok_def st_def)
  have f: "feeds r (write_variable (length st) @ ?b)"
    using assms(2) by (simp add: witness_to_data_def st_def)
  obtain r1 where r1: "read_size max_bytes r = (length st, r1)"
      "moved r (length (write_variable (length st))) r1"
    using read_size_moved [OF feeds_appendD [OF f] w(2)] w(2) max_bytes_less by auto
  obtain s where s: "read_each read_element (length st) r1 = (st, s)" "moved r1 (length ?b) s"
    using element_codec.read_each_concat [OF w(3) feeds_moved [OF f r1(2)]] by (metis prod.collapse)
  have "length ?b \<le> max_size_t"
    using f remaining_le_max [of r] by (simp add: feeds_def)
  then have "sum_list (map element_size st) = stack_serialized_size st False"
    using stack_serialized_size_length [OF w(3)] by simp
  then have "witness_from_data r True = (w, s)"
    using w(1) r1(1) s moved_good [OF s(2)] by (simp add: witness_from_data_def witness_of_stack_def)
  with moved_trans [OF r1(2) s(2)] show ?thesis by (simp add: witness_to_data_def st_def)
qed

lemma witness_from_data_sticky: "rgood (snd (witness_from_data r True)) \<Longrightarrow> rgood r"
  using element_codec.read_each_sticky [of "fst (read_size max_bytes r)" "snd (read_size max_bytes r)"]
    read_size_sticky [of max_bytes r]
  by (simp add: witness_from_data_def case_prod_beta)

lemma read_each_skip:
  "ready r \<Longrightarrow> read_each read_element n r = (st, s) \<Longrightarrow> rgood s \<Longrightarrow> skip_each n r = s"
proof (induction n arbitrary: r st)
  case (Suc n)
  obtain e t where e: "read_element r = (e, t)" by fastforce
  obtain es where es: "read_each read_element n t = (es, s)"
    using Suc.prems(2) e by (auto split: prod.splits)
  have t: "rgood t" using element_codec.read_each_sticky [of n t] es Suc.prems(3) by simp
  note g = read_element_good [OF Suc.prems(1) e t]
  show ?case using Suc.IH [OF consumed_ready [OF conjunct2 [OF g(1)] t] es Suc.prems(3)] g(2) by simp
qed simp

lemma witness_from_data_good:
  assumes "ready r" "witness_from_data r True = (w, s)" "rgood s"
  shows "witness_ok w \<and> consumed r (witness_to_data w True) s"
    "witness_skip r True = (wit_stack w \<noteq> [], s)"
proof -
  obtain n t where n: "read_size max_bytes r = (n, t)" by fastforce
  obtain st where st: "read_each read_element n t = (st, s)"
      "w = make_witness st True (sum_list (map element_size st))"
    using assms(2,3) n by (auto simp: witness_from_data_def split: prod.splits)
  have t: "rgood t" using element_codec.read_each_sticky [of n t] st(1) assms(3) by simp
  note sz = read_size_good [OF assms(1) n t]
  note rt = consumed_ready [OF sz(1) t]
  have c: "length st = n" "list_all (\<lambda>e. length e \<le> max_bytes) st"
      "consumed t (concat (map write_element st)) s"
    using element_codec.read_each_canonical [OF rt st(1) assms(3)] by simp_all
  have stack: "wit_stack w = st" using st(2) by (simp add: make_witness_def)
  have "length (concat (map write_element st)) \<le> max_size_t"
  proof -
    have "sum_list (map element_size st) \<le> length st * (max_bytes + 9)"
      using c(2) by (induction st) (auto simp: element_size_def ceilinged_add_def variable_size_def)
    also have "\<dots> \<le> max_bytes * (max_bytes + 9)" using c(1) sz(3) by simp
    also have "\<dots> \<le> max_size_t" by (simp add: max_bytes_def max_block_weight_def max_block_size_def limits)
    finally show ?thesis using stack_serialized_size_length(2) [OF c(2)] by simp
  qed
  then have "witness_ok w"
    using c(1,2) sz(3) st(2) stack stack_serialized_size_length [OF c(2)]
    by (simp add: witness_ok_def witness_of_stack_def)
  then show "witness_ok w \<and> consumed r (witness_to_data w True) s"
    using consumed_trans [OF sz(1) c(3)] c(1) stack by (simp add: witness_to_data_def)
  show "witness_skip r True = (wit_stack w \<noteq> [], s)"
    using n read_each_skip [OF rt st(1) assms(3)] stack c(1) by (auto simp: witness_skip_def)
qed

interpretation witness_codec: canonical_codec
  "\<lambda>w. witness_to_data w True" "\<lambda>r. witness_from_data r True" witness_ok
  by unfold_locales
    (rule witness_from_data_roundtrip witness_from_data_sticky witness_from_data_good(1); assumption)+

section \<open>Properties of witnesses\<close>

text \<open>
  Skipping a serialized witness is reading it and dropping the result: whenever the reader
  accepts a witness, the skip leaves the stream in the same state and reports emptiness of the
  same stack.
\<close>

theorem witness_skip_reads:
  assumes "ready r" "witness_from_data r True = (w, s)" "rgood s"
  shows "witness_skip r True = (wit_stack w \<noteq> [], s)"
  by (rule witness_from_data_good(2) [OF assms])

theorem witness_skip_reads_witness:
  "fst (witness_skip (reader_of (witness_to_data (witness_of_stack [[7], []]) True)) True)"
proof -
  let ?w = "witness_of_stack [[7], []]" and ?r = "reader_of (witness_to_data (witness_of_stack [[7], []]) True)"
  have ok: "witness_ok ?w"
    by (simp add: witness_ok_def witness_of_stack_def make_witness_def max_bytes_def
        max_block_weight_def max_block_size_def)
  have "length (witness_to_data ?w True) \<le> max_size_t"
    by (simp add: witness_to_data_def witness_of_stack_def make_witness_def write_element_def
        size_simps variable_size_def limits)
  from witness_codec.dec_enc [OF ok feeds_reader_of [OF this]] obtain s where
    s: "witness_from_data ?r True = (?w, s)" "rgood s" by (auto simp: moved_def)
  have "ready ?r" by (simp add: ready_def reader_of_def)
  from witness_skip_reads [OF this s] show ?thesis by (simp add: witness_of_stack_def make_witness_def)
qed

text \<open>
  The program that a version zero witness executes is bound to the output: extraction
  succeeds exactly for a key hash program with two stack elements, or for a script hash program
  whose top element is a script that hashes to the program; then the script executed is that
  element and the remaining elements are its stack.
\<close>

theorem extract_segwit_success:
  assumes "program = witness_program s"
  shows "ext_code (extract_segwit sha256 w s) = script_code error_script_success \<longleftrightarrow>
    length program = short_hash_size \<and> length (wit_stack w) = 2 \<or>
    length program = hash_size \<and> wit_stack w \<noteq> [] \<and>
      program = script_hash sha256 (script_of_bytes (last (wit_stack w))) \<and>
      ext_script (extract_segwit sha256 w s) = Some (script_of_bytes (last (wit_stack w))) \<and>
      ext_stack (extract_segwit sha256 w s) = butlast (wit_stack w)"
  using assms by (auto simp: extract_segwit_def Let_def key_sizes hash_size_def)

theorem extract_segwit_success_witness:
  "ext_code (extract_segwit (\<lambda>_. replicate 32 9) (witness_of_stack [[1], [2]])
     (from_operations (to_pay_witness_key_hash_pattern (replicate 20 5)))) =
   script_code error_script_success"
proof -
  let ?s = "from_operations (to_pay_witness_key_hash_pattern (replicate 20 5))"
  have "witness_program ?s = replicate 20 5"
    by (simp add: witness_program_def to_pay_witness_key_hash_pattern_def to_pay_witness_pattern_def
        is_pay_witness_pattern_def is_nonnegative_def opcode_from_nonnegative_def is_minimal_push_def
        is_payload_def opcode_from_size_def minimal_opcode_from_data_def nominal_push_size
        min_witness_program_def max_witness_program_def)
  with extract_segwit_success [OF refl, of "\<lambda>_. replicate 32 9" "witness_of_stack [[1], [2]]" ?s]
  show ?thesis by (simp add: key_sizes witness_of_stack_def make_witness_def)
qed

end
