(* ===== verification/Puts.thy ===== *)
theory Puts
  imports Witness
begin

text \<open>
  Points, outputs and inputs (\<open>src/chain/point.cpp\<close>, \<open>src/chain/outpoint.cpp\<close>,
  \<open>src/chain/output.cpp\<close>, \<open>src/chain/input.cpp\<close>): their serialization, the sizes they cache,
  signature operation counts, dust, and relative time locks. Each of the three interprets the
  contract of \<open>Codec\<close>.

  Shared pointers are the objects they point to; the metadata of an input (its previous output
  and the heights a node has found for it) is part of its record.
\<close>

section \<open>Points\<close>

record point =
  point_hash :: hash_digest
  point_index :: u32
  point_valid :: bool

definition null_index :: u32 where "null_index = word_of_nat max_uint32"

definition default_point :: point where
  "default_point = \<lparr>point_hash = null_hash, point_index = null_index, point_valid = False\<rparr>"

definition make_point :: "hash_digest \<Rightarrow> u32 \<Rightarrow> point" where
  "make_point hash index = \<lparr>point_hash = hash, point_index = index, point_valid = True\<rparr>"

definition point_equal :: "point \<Rightarrow> point \<Rightarrow> bool" where
  "point_equal a b \<longleftrightarrow> point_hash a = point_hash b \<and> point_index a = point_index b"

definition point_less :: "point \<Rightarrow> point \<Rightarrow> bool" where
  "point_less left right = (if point_index left = point_index right
     then bytes_less (point_hash left) (point_hash right) else point_index left < point_index right)"

definition point_from_data :: "reader \<Rightarrow> point \<times> reader" where
  "point_from_data r = (let (hash, r1) = read_hash r; (index, r2) = read_little_endian 4 r1
     in (\<lparr>point_hash = hash, point_index = word_of_nat index, point_valid = rgood r2\<rparr>, r2))"

definition point_to_data :: "point \<Rightarrow> data_chunk" where
  "point_to_data p = point_hash p @ write_little_endian 4 (unat (point_index p))"

definition point_serialized_size :: nat where "point_serialized_size = hash_size + 4"

definition is_null :: "point \<Rightarrow> bool" where
  "is_null p \<longleftrightarrow> point_index p = null_index \<and> point_hash p = null_hash"

definition point_ok :: "point \<Rightarrow> bool" where
  "point_ok p \<longleftrightarrow> point_valid p \<and> length (point_hash p) = hash_size"

section \<open>Outpoints\<close>

record outpoint =
  outpoint_point :: point
  outpoint_value :: u64
  outpoint_valid :: bool

definition outpoint_from_data :: "reader \<Rightarrow> outpoint \<times> reader" where
  "outpoint_from_data r = (let (p, r1) = point_from_data r; (v, r2) = read_little_endian 8 r1
     in (\<lparr>outpoint_point = p, outpoint_value = word_of_nat v, outpoint_valid = rgood r2\<rparr>, r2))"

definition outpoint_to_data :: "outpoint \<Rightarrow> data_chunk" where
  "outpoint_to_data p = point_to_data (outpoint_point p) @
     write_little_endian 8 (unat (outpoint_value p))"

definition outpoint_equal :: "outpoint \<Rightarrow> outpoint \<Rightarrow> bool" where
  "outpoint_equal a b \<longleftrightarrow> point_equal (outpoint_point a) (outpoint_point b)"

definition outpoint_ok :: "outpoint \<Rightarrow> bool" where
  "outpoint_ok p \<longleftrightarrow> outpoint_valid p \<and> point_ok (outpoint_point p)"

section \<open>Outputs\<close>

record chain_output =
  out_value :: u64
  out_script :: script
  out_valid :: bool
  out_size :: nat

definition output_serialized_size :: "script \<Rightarrow> nat" where
  "output_serialized_size s = ceilinged_add 8 (script_serialized_size s True)"

definition make_output :: "u64 \<Rightarrow> script \<Rightarrow> bool \<Rightarrow> chain_output" where
  "make_output v s valid = \<lparr>out_value = v, out_script = s, out_valid = valid,
     out_size = output_serialized_size s\<rparr>"

definition output_equal :: "chain_output \<Rightarrow> chain_output \<Rightarrow> bool" where
  "output_equal a b \<longleftrightarrow> out_value a = out_value b \<and> script_equal (out_script a) (out_script b)"

definition output_from_data :: "reader \<Rightarrow> chain_output \<times> reader" where
  "output_from_data r = (let (v, r1) = read_little_endian 8 r; (s, r2) = script_from_data r1 True
     in (make_output (word_of_nat v) s (rgood r2), r2))"

definition output_to_data :: "chain_output \<Rightarrow> data_chunk" where
  "output_to_data p = write_little_endian 8 (unat (out_value p)) @ script_to_data (out_script p) True"

definition committed_hash :: "chain_output \<Rightarrow> hash_digest option" where
  "committed_hash p = (let ops = script_ops (out_script p) in
     if \<not> is_commitment_pattern ops then None
     else Some (take hash_size (drop 4 (get_data (ops ! 1)))))"

definition heavy_sigops_factor :: nat where "heavy_sigops_factor = 4"

definition output_signature_operations :: "chain_output \<Rightarrow> bool \<Rightarrow> nat" where
  "output_signature_operations p bip141 =
     (let factor = (if bip141 then heavy_sigops_factor else 1)
      in signature_operations (out_script p) False * factor)"

definition is_dust :: "chain_output \<Rightarrow> u64 \<Rightarrow> bool" where
  "is_dust p minimum_value \<longleftrightarrow> out_value p < minimum_value \<and> \<not> is_unspendable (out_script p)"

definition output_ok :: "chain_output \<Rightarrow> bool" where
  "output_ok p \<longleftrightarrow> p = make_output (out_value p) (out_script p) True \<and> script_wf (out_script p)"

section \<open>Inputs\<close>

record prevout =
  prevout_coinbase :: bool
  prevout_mtp :: u32
  prevout_height :: nat
  prevout_spender_height :: u32

definition default_prevout :: prevout where
  "default_prevout = \<lparr>prevout_coinbase = True, prevout_mtp = word_of_nat max_uint32,
     prevout_height = max_uint32, prevout_spender_height = word_of_nat max_uint32\<rparr>"

record chain_input =
  in_point :: point
  in_script :: script
  in_witness :: witness
  in_sequence :: u32
  in_valid :: bool
  in_nominal_size :: nat
  in_witnessed_size :: nat
  in_prevout :: "chain_output option"
  in_metadata :: prevout

definition input_nominal_size :: "script \<Rightarrow> nat" where
  "input_nominal_size s = ceilinged_add (ceilinged_add point_serialized_size 4) (script_serialized_size s True)"

definition input_witnessed_size :: "script \<Rightarrow> witness \<Rightarrow> nat" where
  "input_witnessed_size s w = ceilinged_add (input_nominal_size s) (witness_serialized_size w True)"

definition make_input :: "point \<Rightarrow> script \<Rightarrow> witness \<Rightarrow> u32 \<Rightarrow> bool \<Rightarrow> chain_input" where
  "make_input p s w sequence valid = \<lparr>in_point = p, in_script = s, in_witness = w,
     in_sequence = sequence, in_valid = valid, in_nominal_size = input_nominal_size s,
     in_witnessed_size = input_witnessed_size s w, in_prevout = None, in_metadata = default_prevout\<rparr>"

definition input_equal :: "chain_input \<Rightarrow> chain_input \<Rightarrow> bool" where
  "input_equal a b \<longleftrightarrow> in_sequence a = in_sequence b \<and> point_equal (in_point a) (in_point b) \<and>
     script_equal (in_script a) (in_script b) \<and> witness_equal (in_witness a) (in_witness b)"

definition input_from_data :: "reader \<Rightarrow> chain_input \<times> reader" where
  "input_from_data r = (let (p, r1) = point_from_data r; (s, r2) = script_from_data r1 True;
     (sequence, r3) = read_little_endian 4 r2
     in (make_input p s default_witness (word_of_nat sequence) (rgood r3), r3))"

definition input_to_data :: "chain_input \<Rightarrow> data_chunk" where
  "input_to_data i = point_to_data (in_point i) @ script_to_data (in_script i) True @
     write_little_endian 4 (unat (in_sequence i))"

definition set_witness :: "chain_input \<Rightarrow> reader \<Rightarrow> bool \<times> chain_input \<times> reader" where
  "set_witness i r = (let (w, s) = witness_from_data r True;
     i' = i\<lparr>in_witness := w,
       in_witnessed_size := ceilinged_add (in_nominal_size i) (witness_serialized_size w True)\<rparr>
     in (wit_stack w \<noteq> [], i', s))"

definition max_input_sequence :: u32 where "max_input_sequence = word_of_nat max_uint32"

definition input_is_final :: "chain_input \<Rightarrow> bool" where
  "input_is_final i \<longleftrightarrow> in_sequence i = max_input_sequence"

definition input_is_roller :: "chain_input \<Rightarrow> bool" where
  "input_is_roller i \<longleftrightarrow> script_roller (in_script i) \<or>
     (case in_prevout i of None \<Rightarrow> False | Some p \<Rightarrow> script_roller (out_script p))"

definition input_is_coinbase :: "chain_input \<Rightarrow> bool" where
  "input_is_coinbase i \<longleftrightarrow> is_null (in_point i)"

definition relative_locktime_disabled_bit :: nat where "relative_locktime_disabled_bit = 31"
definition relative_locktime_time_locked_bit :: nat where "relative_locktime_time_locked_bit = 22"
definition relative_locktime_seconds_shift_left :: nat where "relative_locktime_seconds_shift_left = 9"
definition relative_locktime_mask_left :: nat where "relative_locktime_mask_left = 16"

definition is_relative_locktime_applied :: "u32 \<Rightarrow> bool" where
  "is_relative_locktime_applied sequence \<longleftrightarrow> \<not> bit sequence relative_locktime_disabled_bit"

definition is_relative_locked_at :: "u32 \<Rightarrow> nat \<Rightarrow> u32 \<Rightarrow> nat \<Rightarrow> u32 \<Rightarrow> bool" where
  "is_relative_locked_at sequence height mtp out_height out_mtp =
     (if \<not> is_relative_locktime_applied sequence then False
      else let blocks = take_bit (32 - relative_locktime_mask_left) sequence in
        if bit sequence relative_locktime_time_locked_bit
        then floored_subtract mtp out_mtp < push_bit relative_locktime_seconds_shift_left blocks
        else floored_subtract height out_height < unat blocks)"

definition is_relative_locked :: "chain_input \<Rightarrow> nat \<Rightarrow> u32 \<Rightarrow> bool" where
  "is_relative_locked i height mtp = is_relative_locked_at (in_sequence i) height mtp
     (prevout_height (in_metadata i)) (prevout_mtp (in_metadata i))"

definition reserved_hash :: "chain_input \<Rightarrow> hash_digest option" where
  "reserved_hash i = (if is_reserved_pattern (wit_stack (in_witness i))
     then Some (take hash_size (hd (wit_stack (in_witness i)))) else None)"

definition input_signature_operations :: "chain_input \<Rightarrow> bool \<Rightarrow> bool \<Rightarrow> nat" where
  "input_signature_operations i bip16 bip141 =
     (let factor = (if bip141 then heavy_sigops_factor else 1);
          sigops = signature_operations (in_script i) False * factor in
      case in_prevout i of None \<Rightarrow> sigops
      | Some prevout \<Rightarrow>
        (case (if bip141 then witness_extract_sigop_script (in_witness i) (out_script prevout) else None) of
           Some s \<Rightarrow> ceilinged_add sigops (signature_operations s True)
         | None \<Rightarrow>
           (case (if bip16 then extract_sigop_script (in_script i) (out_script prevout) else None) of
              None \<Rightarrow> sigops
            | Some embedded \<Rightarrow>
              (case (if bip141 then witness_extract_sigop_script (in_witness i) embedded else None) of
                 Some s \<Rightarrow> ceilinged_add sigops (signature_operations s True)
               | None \<Rightarrow> ceilinged_add sigops (signature_operations embedded True * factor)))))"

definition input_ok :: "chain_input \<Rightarrow> bool" where
  "input_ok i \<longleftrightarrow> i = make_input (in_point i) (in_script i) default_witness (in_sequence i) True \<and>
     point_ok (in_point i) \<and> script_wf (in_script i)"

section \<open>Codecs\<close>

text \<open>Fixed size fields, as the objects read them.\<close>

lemma read_word_moved:
  fixes w :: "'a::len word"
  assumes "feeds r (write_little_endian n (unat w))" "LENGTH('a) = 8 * n"
  shows "read_little_endian n r = (unat w, advance n r)" "moved r n (advance n r)"
proof -
  have "unat w < 256 ^ n" using unsigned_less [of w] assms(2) by (simp add: power_mult)
  with assms(1) show "read_little_endian n r = (unat w, advance n r)" "moved r n (advance n r)"
    by (auto simp: write_little_endian_def intro: read_little_endian_moved)
qed

lemma read_word_good:
  assumes "ready r" "read_little_endian n r = (v, s)" "rgood s" "LENGTH('a::len) = 8 * n"
  shows "consumed r (write_little_endian n (unat (word_of_nat v :: 'a word))) s"
proof -
  have "v < 2 ^ LENGTH('a)" using read_little_endian_good(2) [OF assms(1-3)] assms(4) by (simp add: power_mult)
  then have "unat (word_of_nat v :: 'a word) = v" by (simp add: unat_of_nat)
  then show ?thesis using read_little_endian_good(1) [OF assms(1-3)] by (simp add: write_little_endian_def)
qed

lemma read_hash_moved:
  assumes "feeds r h" "length h = hash_size"
  shows "read_hash r = (h, advance hash_size r)" "moved r (length h) (advance hash_size r)"
  using assms moved_advance [OF assms(1)] do_read_bytes_feeds [OF assms(1)]
  by (simp_all add: read_hash_def hash_size_def)

lemma read_hash_good:
  assumes "ready r" "read_hash r = (h, s)" "rgood s"
  shows "consumed r h s" "length h = hash_size"
  using do_read_bytes_good [OF assms(1) _ assms(3)] assms(2) by (simp_all add: read_hash_def hash_size_def)

lemma read_hash_sticky: "rgood (snd (read_hash r)) \<Longrightarrow> rgood r"
  by (simp add: read_hash_def do_read_bytes_sticky)

lemma point_from_data_roundtrip:
  assumes "point_ok p" "feeds r (point_to_data p)"
  shows "fst (point_from_data r) = p \<and> moved r (length (point_to_data p)) (snd (point_from_data r))"
proof -
  let ?i = "write_little_endian 4 (unat (point_index p))"
  have f: "feeds r (point_hash p @ ?i)" using assms(2) by (simp add: point_to_data_def)
  have h: "length (point_hash p) = hash_size" using assms(1) by (simp add: point_ok_def)
  note r1 = read_hash_moved [OF feeds_appendD [OF f] h]
  note r2 = read_word_moved [OF feeds_moved [OF f r1(2)]]
  have "moved r (length (point_to_data p)) (advance 4 (advance hash_size r))"
    using moved_trans [OF r1(2) r2(2)] by (simp add: point_to_data_def write_little_endian_def)
  moreover from this have "rgood r" by (simp add: moved_def)
  ultimately show ?thesis using r1(1) r2(1) assms(1)
    by (cases p) (auto simp: point_from_data_def point_ok_def)
qed

lemma point_from_data_sticky: "rgood (snd (point_from_data r)) \<Longrightarrow> rgood r"
  by (auto simp: point_from_data_def case_prod_beta dest!: read_little_endian_sticky read_hash_sticky)

lemma point_from_data_canonical:
  assumes "ready r" "point_from_data r = (p, s)" "rgood s"
  shows "point_ok p \<and> consumed r (point_to_data p) s"
proof -
  obtain h r1 where h: "read_hash r = (h, r1)" by fastforce
  obtain v where v: "read_little_endian 4 r1 = (v, s)"
      "p = \<lparr>point_hash = h, point_index = word_of_nat v, point_valid = True\<rparr>"
    using assms(2,3) h by (auto simp: point_from_data_def split: prod.splits)
  have g: "rgood r1" using read_little_endian_sticky [of 4 r1] v(1) assms(3) by simp
  note c = read_hash_good [OF assms(1) h g]
  have "consumed r1 (write_little_endian 4 (unat (word_of_nat v :: u32))) s"
    by (rule read_word_good [OF consumed_ready [OF c(1) g] v(1) assms(3)]) simp
  from consumed_trans [OF c(1) this] c(2) v(2) show ?thesis
    by (simp add: point_to_data_def point_ok_def)
qed

interpretation point_codec: canonical_codec point_to_data point_from_data point_ok
  by unfold_locales
    (rule point_from_data_roundtrip point_from_data_sticky point_from_data_canonical; assumption)+

text \<open>An outpoint is a point and the value of the output it refers to.\<close>

lemma outpoint_from_data_roundtrip:
  assumes "outpoint_ok p" "feeds r (outpoint_to_data p)"
  shows "fst (outpoint_from_data r) = p \<and> moved r (length (outpoint_to_data p)) (snd (outpoint_from_data r))"
proof -
  have f: "feeds r (point_to_data (outpoint_point p) @ write_little_endian 8 (unat (outpoint_value p)))"
    using assms(2) by (simp add: outpoint_to_data_def)
  have "point_ok (outpoint_point p)" using assms(1) by (simp add: outpoint_ok_def)
  from point_codec.dec_enc_then [OF this f] obtain r1 where r1:
      "point_from_data r = (outpoint_point p, r1)" "moved r (length (point_to_data (outpoint_point p))) r1"
      "feeds r1 (write_little_endian 8 (unat (outpoint_value p)))" .
  note r2 = read_word_moved [OF r1(3)]
  have "moved r (length (outpoint_to_data p)) (advance 8 r1)"
    using moved_trans [OF r1(2) r2(2)] by (simp add: outpoint_to_data_def write_little_endian_def)
  then show ?thesis using r1(1) r2(1) assms(1) moved_good [OF r1(2)]
    by (cases p) (auto simp: outpoint_from_data_def outpoint_ok_def)
qed

lemma outpoint_from_data_sticky: "rgood (snd (outpoint_from_data r)) \<Longrightarrow> rgood r"
  by (auto simp: outpoint_from_data_def case_prod_beta dest!: read_little_endian_sticky point_codec.sticky)

lemma outpoint_from_data_canonical:
  assumes "ready r" "outpoint_from_data r = (p, s)" "rgood s"
  shows "outpoint_ok p \<and> consumed r (outpoint_to_data p) s"
proof -
  obtain q r1 where q: "point_from_data r = (q, r1)" by fastforce
  obtain v where v: "read_little_endian 8 r1 = (v, s)"
      "p = \<lparr>outpoint_point = q, outpoint_value = word_of_nat v, outpoint_valid = True\<rparr>"
    using assms(2,3) q by (auto simp: outpoint_from_data_def split: prod.splits)
  have g: "rgood r1" using read_little_endian_sticky [of 8 r1] v(1) assms(3) by simp
  have c: "point_ok q" "consumed r (point_to_data q) r1"
    using point_codec.canonical [OF assms(1) q g] by simp_all
  have "consumed r1 (write_little_endian 8 (unat (word_of_nat v :: u64))) s"
    by (rule read_word_good [OF consumed_ready [OF c(2) g] v(1) assms(3)]) simp
  from consumed_trans [OF c(2) this] c(1) v(2) show ?thesis
    by (simp add: outpoint_to_data_def outpoint_ok_def)
qed

interpretation outpoint_codec: canonical_codec outpoint_to_data outpoint_from_data outpoint_ok
  by unfold_locales
    (rule outpoint_from_data_roundtrip outpoint_from_data_sticky outpoint_from_data_canonical; assumption)+

lemma output_from_data_roundtrip:
  assumes "output_ok p" "feeds r (output_to_data p)"
  shows "fst (output_from_data r) = p \<and> moved r (length (output_to_data p)) (snd (output_from_data r))"
proof -
  let ?v = "write_little_endian 8 (unat (out_value p))"
  have f: "feeds r (?v @ script_to_data (out_script p) True)"
    using assms(2) by (simp add: output_to_data_def)
  have ok: "script_wf (out_script p)" "p = make_output (out_value p) (out_script p) True"
    using assms(1) by (simp_all add: output_ok_def)
  note r1 = read_word_moved [OF feeds_appendD [OF f]]
  have m: "moved r (length ?v) (advance 8 r)" using r1(2) by (simp add: write_little_endian_def)
  obtain s where s: "script_from_data (advance 8 r) True = (out_script p, s)"
      "moved (advance 8 r) (length (script_to_data (out_script p) True)) s"
    using script_codec.dec_enc [OF ok(1) feeds_moved [OF f m]] by blast
  have "output_from_data r = (p, s)"
    using r1(1) s moved_good [OF s(2)] ok(2) by (simp add: output_from_data_def)
  with moved_trans [OF m s(2)] show ?thesis by (simp add: output_to_data_def)
qed

lemma output_from_data_sticky: "rgood (snd (output_from_data r)) \<Longrightarrow> rgood r"
  by (auto simp: output_from_data_def case_prod_beta dest!: read_little_endian_sticky script_from_data_sticky)

lemma output_from_data_canonical:
  assumes "ready r" "output_from_data r = (p, s)" "rgood s"
  shows "output_ok p \<and> consumed r (output_to_data p) s"
proof -
  obtain v r1 where v: "read_little_endian 8 r = (v, r1)" by fastforce
  obtain x where x: "script_from_data r1 True = (x, s)" "p = make_output (word_of_nat v) x True"
    using assms(2,3) v by (auto simp: output_from_data_def split: prod.splits)
  have g: "rgood r1" using script_codec.sticky [of r1] x(1) assms(3) by simp
  have c: "consumed r (write_little_endian 8 (unat (word_of_nat v :: u64))) r1"
    by (rule read_word_good [OF assms(1) v g]) simp
  have "script_wf x" "consumed r1 (script_to_data x True) s"
    using script_codec.canonical [OF consumed_ready [OF c g] x(1) assms(3)] by simp_all
  with consumed_trans [OF c] x(2) show ?thesis
    by (simp add: output_to_data_def output_ok_def make_output_def)
qed

interpretation output_codec: canonical_codec output_to_data output_from_data output_ok
  by unfold_locales
    (rule output_from_data_roundtrip output_from_data_sticky output_from_data_canonical; assumption)+

lemma input_from_data_roundtrip:
  assumes "input_ok i" "feeds r (input_to_data i)"
  shows "fst (input_from_data r) = i \<and> moved r (length (input_to_data i)) (snd (input_from_data r))"
proof -
  let ?s = "script_to_data (in_script i) True" and ?q = "write_little_endian 4 (unat (in_sequence i))"
  have f: "feeds r (point_to_data (in_point i) @ ?s @ ?q)"
    using assms(2) by (simp add: input_to_data_def)
  have ok: "point_ok (in_point i)" "script_wf (in_script i)"
      "i = make_input (in_point i) (in_script i) default_witness (in_sequence i) True"
    using assms(1) by (simp_all add: input_ok_def)
  obtain r1 where r1: "point_from_data r = (in_point i, r1)"
      "moved r (length (point_to_data (in_point i))) r1" "feeds r1 (?s @ ?q)"
    using point_codec.dec_enc_then [OF ok(1) f] .
  obtain r2 where r2: "script_from_data r1 True = (in_script i, r2)" "moved r1 (length ?s) r2"
      "feeds r2 ?q"
    using script_codec.dec_enc_then [OF ok(2) r1(3)] .
  note r3 = read_word_moved [OF r2(3)]
  have m: "moved r2 (length ?q) (advance 4 r2)" using r3(2) by (simp add: write_little_endian_def)
  have "input_from_data r = (i, advance 4 r2)"
    using r1(1) r2(1) r3(1) moved_good [OF m] ok(3) by (simp add: input_from_data_def)
  with moved_trans [OF r1(2) moved_trans [OF r2(2) m]] show ?thesis
    by (simp add: input_to_data_def add.assoc)
qed

lemma input_from_data_sticky: "rgood (snd (input_from_data r)) \<Longrightarrow> rgood r"
  by (auto simp: input_from_data_def case_prod_beta
      dest!: read_little_endian_sticky script_from_data_sticky point_codec.sticky)

lemma input_from_data_canonical:
  assumes "ready r" "input_from_data r = (i, s)" "rgood s"
  shows "input_ok i \<and> consumed r (input_to_data i) s"
proof -
  obtain p r1 where p: "point_from_data r = (p, r1)" by fastforce
  obtain x r2 where x: "script_from_data r1 True = (x, r2)" by fastforce
  obtain v where v: "read_little_endian 4 r2 = (v, s)"
      "i = make_input p x default_witness (word_of_nat v) True"
    using assms(2,3) p x by (auto simp: input_from_data_def split: prod.splits)
  have g2: "rgood r2" using read_little_endian_sticky [of 4 r2] v(1) assms(3) by simp
  have g1: "rgood r1" using script_codec.sticky [of r1] x g2 by simp
  have c1: "point_ok p" "consumed r (point_to_data p) r1"
    using point_codec.canonical [OF assms(1) p g1] by simp_all
  have c2: "script_wf x" "consumed r1 (script_to_data x True) r2"
    using script_codec.canonical [OF consumed_ready [OF c1(2) g1] x g2] by simp_all
  have "consumed r2 (write_little_endian 4 (unat (word_of_nat v :: u32))) s"
    by (rule read_word_good [OF consumed_ready [OF c2(2) g2] v(1) assms(3)]) simp
  from consumed_trans [OF c1(2) consumed_trans [OF c2(2) this]] c1(1) c2(1) v(2) show ?thesis
    by (simp add: input_to_data_def input_ok_def make_input_def)
qed

interpretation input_codec: canonical_codec input_to_data input_from_data input_ok
  by unfold_locales
    (rule input_from_data_roundtrip input_from_data_sticky input_from_data_canonical; assumption)+

section \<open>Relative locks\<close>

text \<open>
  Relative lock times in whole numbers: an input is locked when bit 31 of its sequence is
  clear, the low sixteen bits are a positive count, and the chain has not advanced by that many
  blocks (or, with bit 22 set, by 512 times that many seconds of median time) beyond its previous
  output. The shift and the subtraction of the code never wrap.
\<close>

theorem relative_lock_arithmetic:
  "is_relative_locked_at sequence height mtp out_height out_mtp \<longleftrightarrow>
     (let blocks = unat sequence mod 65536 in
      \<not> bit sequence 31 \<and> blocks \<noteq> 0 \<and>
      (if bit sequence 22 then unat mtp < unat out_mtp + 512 * blocks
       else height < out_height + blocks))"
proof -
  let ?b = "take_bit 16 sequence" and ?n = "unat sequence mod 65536"
  have b: "unat ?b = ?n" by (simp only: unsigned_take_bit_eq) (simp add: take_bit_eq_mod)
  have "unat (push_bit 9 ?b) = 512 * ?n"
  proof -
    have "512 * ?n < 2 ^ 32" by (rule le_less_trans [of _ "512 * 65535"]) simp_all
    then show ?thesis using b by (simp add: push_bit_eq_mult unat_word_ariths mult.commute)
  qed
  then have time: "floored_subtract mtp out_mtp < push_bit 9 ?b \<longleftrightarrow>
      ?n \<noteq> 0 \<and> unat mtp < unat out_mtp + 512 * ?n"
    by (auto simp: floored_subtract_def word_less_nat_alt unat_sub word_le_nat_alt not_less)
  have blocks: "floored_subtract height out_height < unat ?b \<longleftrightarrow> ?n \<noteq> 0 \<and> height < out_height + ?n"
    using b by (auto simp: floored_subtract_def)
  show ?thesis
    unfolding is_relative_locked_at_def is_relative_locktime_applied_def
      relative_locktime_disabled_bit_def relative_locktime_time_locked_bit_def
      relative_locktime_seconds_shift_left_def relative_locktime_mask_left_def
    using time blocks by (simp add: Let_def)
qed

end
