(* ===== verification/Transaction.thy ===== *)
theory Transaction
  imports Puts "HOL-Library.List_Lexorder"
begin

text \<open>
  Transactions (\<open>src/chain/transaction.cpp\<close>) and the context they are validated in
  (\<open>include/bitcoin/system/chain/context.hpp\<close>): the two serializations of bip144, cached sizes
  and weight, signature operations, values, time locks, and the guard, check, accept and confirm
  functions with every error they return. Signature hashing and script execution (\<open>connect\<close>)
  are not part of this theory.
\<close>

section \<open>Context\<close>

record chain_context =
  ctx_flags :: flags
  ctx_timestamp :: u32
  ctx_median_time_past :: u32
  ctx_height :: nat
  ctx_minimum_block_version :: u32
  ctx_work_required :: u32
  ctx_previous_timestamp :: u32

definition ctx_enabled :: "chain_context \<Rightarrow> flags \<Rightarrow> bool" where
  "ctx_enabled ctx f \<longleftrightarrow> f AND ctx_flags ctx \<noteq> 0"

definition is_insufficient_version :: "chain_context \<Rightarrow> u32 \<Rightarrow> bool" where
  "is_insufficient_version ctx version \<longleftrightarrow> ctx_minimum_block_version ctx \<noteq> 0 \<and>
     sint version < sint (ctx_minimum_block_version ctx)"

definition is_anachronistic_timestamp :: "chain_context \<Rightarrow> u32 \<Rightarrow> bool" where
  "is_anachronistic_timestamp ctx time_stamp \<longleftrightarrow> time_stamp \<le> ctx_median_time_past ctx"

definition is_invalid_work :: "chain_context \<Rightarrow> u32 \<Rightarrow> bool" where
  "is_invalid_work ctx bits \<longleftrightarrow> bits \<noteq> ctx_work_required ctx"

definition max_timewarp :: nat where "max_timewarp = 600"

definition is_early_timestamp :: "chain_context \<Rightarrow> nat \<Rightarrow> bool" where
  "is_early_timestamp ctx retargeting_interval \<longleftrightarrow> ctx_enabled ctx time_warp_patch \<and>
     ctx_height ctx mod retargeting_interval = 0 \<and>
     unat (ctx_timestamp ctx) < floored_subtract (unat (ctx_previous_timestamp ctx)) max_timewarp"

section \<open>Distinct points\<close>

text \<open>
  Points are compared by index and then by hash; the order is total on them, and
  \<open>is_distinct\<close> sorts by it and looks for equal neighbours.
\<close>

datatype point_key = Point_key (key_index: u32) (key_hash: "data_chunk")

instantiation point_key :: linorder
begin

definition less_point_key :: "point_key \<Rightarrow> point_key \<Rightarrow> bool" where
  "less_point_key a b = (if key_index a = key_index b then key_hash a < key_hash b
     else key_index a < key_index b)"

definition less_eq_point_key :: "point_key \<Rightarrow> point_key \<Rightarrow> bool" where
  "less_eq_point_key a b \<longleftrightarrow> a < b \<or> a = b"

instance
proof
  fix a b c :: point_key
  show "a < b \<longleftrightarrow> a \<le> b \<and> \<not> b \<le> a"
    by (auto simp: less_point_key_def less_eq_point_key_def split: if_splits)
  show "a \<le> a" by (simp add: less_eq_point_key_def)
  show "a \<le> b \<Longrightarrow> b \<le> c \<Longrightarrow> a \<le> c"
    by (auto simp: less_point_key_def less_eq_point_key_def split: if_splits)
  show "a \<le> b \<Longrightarrow> b \<le> a \<Longrightarrow> a = b"
    by (auto simp: less_point_key_def less_eq_point_key_def split: if_splits)
  show "a \<le> b \<or> b \<le> a"
    by (cases a; cases b) (auto simp: less_point_key_def less_eq_point_key_def)
qed

end

definition point_key :: "point \<Rightarrow> point_key" where
  "point_key p = Point_key (point_index p) (point_hash p)"

definition is_distinct :: "'a::linorder list \<Rightarrow> bool" where
  "is_distinct xs = (let s = sort xs in remdups_adj s = s)"

section \<open>Transactions\<close>

record transaction =
  tx_version :: u32
  tx_inputs :: "chain_input list"
  tx_outputs :: "chain_output list"
  tx_locktime :: u32
  tx_segregated :: bool
  tx_valid :: bool
  tx_nominal_size :: nat
  tx_witnessed_size :: nat

definition base_size :: "chain_input list \<Rightarrow> chain_output list \<Rightarrow> nat" where
  "base_size ins outs = ceilinged_add (ceilinged_add (ceilinged_add (4 + 4)
     (variable_size (length ins))) (variable_size (length outs)))
     (foldl (\<lambda>acc p. ceilinged_add acc (out_size p)) 0 outs)"

definition tx_sizes :: "chain_input list \<Rightarrow> chain_output list \<Rightarrow> bool \<Rightarrow> nat \<times> nat" where
  "tx_sizes ins outs segregated =
     (let nominal = foldl (\<lambda>acc i. ceilinged_add acc (in_nominal_size i)) 0 ins;
          witnessed = (if segregated
            then foldl (\<lambda>acc i. ceilinged_add acc (in_witnessed_size i)) 0 ins else 0);
          base = base_size ins outs;
          nominal_size = ceilinged_add base nominal;
          witnessed_size = (if segregated then ceilinged_add (ceilinged_add base (1 + 1)) witnessed
            else nominal_size)
      in (nominal_size, witnessed_size))"

definition make_transaction ::
  "u32 \<Rightarrow> chain_input list \<Rightarrow> chain_output list \<Rightarrow> u32 \<Rightarrow> bool \<Rightarrow> bool \<Rightarrow> transaction" where
  "make_transaction version ins outs locktime segregated valid =
     \<lparr>tx_version = version, tx_inputs = ins, tx_outputs = outs, tx_locktime = locktime,
      tx_segregated = segregated, tx_valid = valid,
      tx_nominal_size = fst (tx_sizes ins outs segregated),
      tx_witnessed_size = snd (tx_sizes ins outs segregated)\<rparr>"

definition inputs_segregated :: "chain_input list \<Rightarrow> bool" where
  "inputs_segregated ins \<longleftrightarrow> list_ex (\<lambda>i. wit_stack (in_witness i) \<noteq> []) ins"

definition transaction_equal :: "transaction \<Rightarrow> transaction \<Rightarrow> bool" where
  "transaction_equal a b \<longleftrightarrow> tx_version a = tx_version b \<and> tx_locktime a = tx_locktime b \<and>
     list_all2 input_equal (tx_inputs a) (tx_inputs b) \<and>
     list_all2 output_equal (tx_outputs a) (tx_outputs b)"

section \<open>Deserialization\<close>

definition witness_marker :: byte where "witness_marker = 0"
definition witness_enabled :: byte where "witness_enabled = 1"

text \<open>The loop over the inputs that reads or skips their witnesses; true if one is not empty.\<close>

fun set_witnesses :: "bool \<Rightarrow> chain_input list \<Rightarrow> reader \<Rightarrow> bool \<times> chain_input list \<times> reader" where
  "set_witnesses witness [] r = (False, [], r)"
| "set_witnesses witness (i # ins) r =
     (let (nonempty, i', s) = (if witness then set_witness i r
            else (case witness_skip r True of (b, s) \<Rightarrow> (b, i, s)));
          (more, ins', t) = set_witnesses witness ins s
      in (nonempty \<or> more, i' # ins', t))"

definition read_segregated :: "bool \<Rightarrow> reader \<Rightarrow> chain_input list \<times> chain_output list \<times> reader" where
  "read_segregated witness r =
     (let (ins, s1) = read_puts input_from_data (skip_bytes 1 r);
          (outs, s2) = read_puts output_from_data s1;
          (nonempty, ins', s3) = set_witnesses witness ins s2
      in (ins', outs, if \<not> nonempty then invalidate s3 else s3))"

definition transaction_from_data :: "reader \<Rightarrow> bool \<Rightarrow> transaction \<times> reader" where
  "transaction_from_data r witness =
     (let (version, r1) = read_little_endian 4 r;
          (ins, r2) = read_puts input_from_data r1;
          (peeked, r3) = (if length ins = unat witness_marker then peek_byte r2 else (0, r2));
          has_witness = (length ins = unat witness_marker \<and> peeked = witness_enabled);
          (ins', outs, r4) = (if has_witness
            then read_segregated witness r3
            else (let (outs1, s2) = read_puts output_from_data r3 in (ins, outs1, s2)));
          (locktime, r5) = read_little_endian 4 r4
      in (make_transaction (word_of_nat version) ins' outs (word_of_nat locktime)
            (has_witness \<and> witness) (rgood r5), r5))"

section \<open>Serialization\<close>

definition transaction_to_data :: "transaction \<Rightarrow> bool \<Rightarrow> data_chunk" where
  "transaction_to_data t wit = (let witness = (wit \<and> tx_segregated t) in
     write_little_endian 4 (unat (tx_version t)) @
     (if witness then write_byte witness_marker @ write_byte witness_enabled else []) @
     write_variable (length (tx_inputs t)) @ concat (map input_to_data (tx_inputs t)) @
     write_variable (length (tx_outputs t)) @ concat (map output_to_data (tx_outputs t)) @
     (if witness then concat (map (\<lambda>i. witness_to_data (in_witness i) True) (tx_inputs t)) else []) @
     write_little_endian 4 (unat (tx_locktime t)))"

definition transaction_serialized_size :: "transaction \<Rightarrow> bool \<Rightarrow> nat" where
  "transaction_serialized_size t wit = (let witness = (wit \<and> tx_segregated t) in
     if witness then tx_witnessed_size t else tx_nominal_size t)"

section \<open>Properties\<close>

definition tx_is_coinbase :: "transaction \<Rightarrow> bool" where
  "tx_is_coinbase t \<longleftrightarrow> length (tx_inputs t) = 1 \<and> is_null (in_point (hd (tx_inputs t)))"

definition spends :: "transaction \<Rightarrow> nat" where
  "spends t = (if tx_is_coinbase t then 0 else length (tx_inputs t))"

definition tx_value :: "transaction \<Rightarrow> nat" where
  "tx_value t = foldl (\<lambda>acc i. ceilinged_add acc
     (case in_prevout i of None \<Rightarrow> 0 | Some p \<Rightarrow> unat (out_value p))) 0 (tx_inputs t)"

definition tx_spend :: "transaction \<Rightarrow> nat" where
  "tx_spend t = foldl (\<lambda>acc p. ceilinged_add acc (unat (out_value p))) 0 (tx_outputs t)"

definition fee :: "transaction \<Rightarrow> nat" where
  "fee t = floored_subtract (tx_value t) (tx_spend t)"

definition is_overspent :: "transaction \<Rightarrow> bool" where
  "is_overspent t \<longleftrightarrow> tx_spend t > tx_value t"

definition is_dusty :: "transaction \<Rightarrow> u64 \<Rightarrow> bool" where
  "is_dusty t minimum_output_value \<longleftrightarrow> list_ex (\<lambda>p. is_dust p minimum_output_value) (tx_outputs t)"

fun find_commitment :: "chain_output list \<Rightarrow> hash_digest option" where
  "find_commitment [] = None"
| "find_commitment (p # ps) = (case committed_hash p of Some h \<Rightarrow> Some h | None \<Rightarrow> find_commitment ps)"

definition get_witness_commitment :: "transaction \<Rightarrow> hash_digest option" where
  "get_witness_commitment t = find_commitment (rev (tx_outputs t))"

definition get_witness_reservation :: "transaction \<Rightarrow> hash_digest option" where
  "get_witness_reservation t = (if tx_inputs t \<noteq> [] then reserved_hash (hd (tx_inputs t)) else None)"

definition tx_signature_operations :: "transaction \<Rightarrow> bool \<Rightarrow> bool \<Rightarrow> nat" where
  "tx_signature_operations t bip16 bip141 = ceilinged_add
     (foldl (\<lambda>acc i. ceilinged_add acc (input_signature_operations i bip16 bip141)) 0 (tx_inputs t))
     (foldl (\<lambda>acc p. ceilinged_add acc (output_signature_operations p bip141)) 0 (tx_outputs t))"

definition points :: "transaction \<Rightarrow> point list" where
  "points t = map in_point (tx_inputs t)"

definition is_internal_double_spend :: "transaction \<Rightarrow> bool" where
  "is_internal_double_spend t \<longleftrightarrow> \<not> is_distinct (map point_key (points t))"

definition tx_is_oversized :: "transaction \<Rightarrow> bool" where
  "tx_is_oversized t \<longleftrightarrow> transaction_serialized_size t False > max_block_size"

definition base_size_contribution :: nat where "base_size_contribution = 3"
definition total_size_contribution :: nat where "total_size_contribution = 1"

definition tx_weight :: "transaction \<Rightarrow> nat" where
  "tx_weight t = ceilinged_add
     (ceilinged_multiply base_size_contribution (transaction_serialized_size t False))
     (ceilinged_multiply total_size_contribution (transaction_serialized_size t True))"

definition tx_virtual_size :: "transaction \<Rightarrow> nat" where
  "tx_virtual_size t = ceilinged_divide (tx_weight t) (base_size_contribution + total_size_contribution)"

definition is_overweight :: "transaction \<Rightarrow> bool" where
  "is_overweight t \<longleftrightarrow> tx_weight t > max_block_weight"

definition max_block_sigops :: nat where "max_block_sigops = max_block_size div 50"
definition max_fast_sigops :: nat where "max_fast_sigops = heavy_sigops_factor * max_block_sigops"

definition is_signature_operations_limited :: "transaction \<Rightarrow> bool \<Rightarrow> bool \<Rightarrow> bool" where
  "is_signature_operations_limited t bip16 bip141 \<longleftrightarrow>
     tx_signature_operations t bip16 bip141 > (if bip141 then max_fast_sigops else max_block_sigops)"

section \<open>Guards\<close>

definition is_empty :: "transaction \<Rightarrow> bool" where
  "is_empty t \<longleftrightarrow> tx_inputs t = [] \<or> tx_outputs t = []"

definition is_null_non_coinbase :: "transaction \<Rightarrow> bool" where
  "is_null_non_coinbase t \<longleftrightarrow> list_ex (\<lambda>i. is_null (in_point i)) (tx_inputs t)"

definition min_coinbase_size :: nat where "min_coinbase_size = 2"
definition max_coinbase_size :: nat where "max_coinbase_size = 100"

definition is_invalid_coinbase_size :: "transaction \<Rightarrow> bool" where
  "is_invalid_coinbase_size t =
     (let script_sz = script_serialized_size (in_script (hd (tx_inputs t))) False
      in script_sz < min_coinbase_size \<or> script_sz > max_coinbase_size)"

definition locktime_threshold :: nat where "locktime_threshold = 500000000"

definition is_absolute_locked :: "transaction \<Rightarrow> nat \<Rightarrow> u32 \<Rightarrow> u32 \<Rightarrow> bool \<Rightarrow> bool" where
  "is_absolute_locked t height timestamp mtp bip113 =
     (let time = (if bip113 then mtp else timestamp); locktime = unat (tx_locktime t);
          height_time = (if locktime < locktime_threshold then height else unat time)
      in \<not> (locktime = 0 \<or> locktime < height_time \<or> list_all input_is_final (tx_inputs t)))"

definition is_missing_prevouts :: "transaction \<Rightarrow> bool" where
  "is_missing_prevouts t \<longleftrightarrow> list_ex (\<lambda>i. in_prevout i = None) (tx_inputs t)"

definition is_non_coinbase_immature :: "nat \<Rightarrow> nat \<Rightarrow> bool" where
  "is_non_coinbase_immature out_height height \<longleftrightarrow> height < out_height"

definition coinbase_maturity :: nat where "coinbase_maturity = 100"

definition is_coinbase_immature :: "nat \<Rightarrow> nat \<Rightarrow> bool" where
  "is_coinbase_immature coinbase_height height \<longleftrightarrow>
     coinbase_height = 0 \<or> height < ceilinged_add coinbase_height coinbase_maturity"

definition is_immature :: "transaction \<Rightarrow> nat \<Rightarrow> bool" where
  "is_immature t height \<longleftrightarrow> list_ex (\<lambda>i. let out_height = prevout_height (in_metadata i) in
     if prevout_coinbase (in_metadata i) then is_coinbase_immature out_height height
     else is_non_coinbase_immature out_height height) (tx_inputs t)"

definition relative_locktime_min_version :: nat where "relative_locktime_min_version = 2"

definition tx_relative_locktime_applied :: "bool \<Rightarrow> u32 \<Rightarrow> u32 \<Rightarrow> bool" where
  "tx_relative_locktime_applied coinbase version sequence \<longleftrightarrow> \<not> coinbase \<and>
     is_relative_locktime_applied sequence \<and> unat version \<ge> relative_locktime_min_version"

definition is_internally_locked :: "transaction \<Rightarrow> chain_input \<Rightarrow> bool" where
  "is_internally_locked t i = (if unat (tx_version t) < relative_locktime_min_version then False
     else is_relative_locked i (prevout_height (in_metadata i)) (prevout_mtp (in_metadata i)))"

definition tx_is_relative_locked :: "transaction \<Rightarrow> nat \<Rightarrow> u32 \<Rightarrow> bool" where
  "tx_is_relative_locked t height mtp = (if unat (tx_version t) < relative_locktime_min_version
     then False else list_ex (\<lambda>i. is_relative_locked i height mtp) (tx_inputs t))"

definition is_unconfirmed_spend :: "transaction \<Rightarrow> nat \<Rightarrow> bool" where
  "is_unconfirmed_spend t height \<longleftrightarrow> list_ex (\<lambda>i. height < prevout_height (in_metadata i)) (tx_inputs t)"

definition is_confirmed_double_spend :: "transaction \<Rightarrow> nat \<Rightarrow> bool" where
  "is_confirmed_double_spend t height \<longleftrightarrow>
     list_ex (\<lambda>i. height > unat (prevout_spender_height (in_metadata i))) (tx_inputs t)"

definition is_unconfirmed_immature :: "transaction \<Rightarrow> nat \<Rightarrow> bool" where
  "is_unconfirmed_immature t height \<longleftrightarrow> list_ex (\<lambda>i. prevout_coinbase (in_metadata i) \<and>
     is_coinbase_immature (prevout_height (in_metadata i)) height) (tx_inputs t)"

definition is_confirmed_conflict :: "transaction \<Rightarrow> bool" where
  "is_confirmed_conflict t \<longleftrightarrow> list_ex (\<lambda>i. let height = prevout_spender_height (in_metadata i) in
     height \<noteq> 0 \<and> height \<noteq> word_of_nat max_uint32) (tx_inputs t)"

definition is_unconfirmed_conflict :: "transaction \<Rightarrow> bool" where
  "is_unconfirmed_conflict t \<longleftrightarrow> list_ex (\<lambda>i. prevout_spender_height (in_metadata i) = 0) (tx_inputs t)"

section \<open>Validation\<close>

abbreviation tx_success :: code where "tx_success \<equiv> tx_code error_transaction_success"

definition tx_check_guard :: "transaction \<Rightarrow> code" where
  "tx_check_guard t = first_error tx_success
     [(tx_is_coinbase t, tx_code error_coinbase_transaction),
      (is_internal_double_spend t, tx_code error_transaction_internal_double_spend),
      (tx_is_oversized t, tx_code error_transaction_size_limit)]"

definition tx_check_guard_context :: "transaction \<Rightarrow> chain_context \<Rightarrow> code" where
  "tx_check_guard_context t ctx = (let bip141 = ctx_enabled ctx bip141_rule in
     first_error tx_success
       [(\<not> bip141 \<and> tx_segregated t, tx_code error_unexpected_witness_transaction),
        (bip141 \<and> is_overweight t, tx_code error_transaction_weight_limit)])"

definition tx_confirm_guard :: "transaction \<Rightarrow> chain_context \<Rightarrow> code" where
  "tx_confirm_guard t ctx = (let bip68 = ctx_enabled ctx bip68_rule in
     first_error tx_success
       [(tx_is_coinbase t, tx_success),
        (bip68 \<and> tx_is_relative_locked t (ctx_height ctx) (ctx_median_time_past ctx),
          tx_code error_relative_time_locked),
        (is_unconfirmed_immature t (ctx_height ctx), tx_code error_coinbase_maturity),
        (is_confirmed_conflict t, tx_code error_confirmed_double_spend),
        (is_unconfirmed_conflict t, tx_code error_double_spend)])"

definition tx_accept_guard :: "transaction \<Rightarrow> chain_context \<Rightarrow> code" where
  "tx_accept_guard t ctx =
     (let bip16 = ctx_enabled ctx bip16_rule; bip141 = ctx_enabled ctx bip141_rule in
      first_error tx_success
        [(is_missing_prevouts t, tx_code error_missing_previous_output),
         (is_signature_operations_limited t bip16 bip141, tx_code error_transaction_sigop_limit)])"

definition tx_check :: "transaction \<Rightarrow> code" where
  "tx_check t = (let coinbase = tx_is_coinbase t in
     first_error tx_success
       [(is_empty t, tx_code error_empty_transaction),
        (coinbase \<and> is_invalid_coinbase_size t, tx_code error_invalid_coinbase_script_size),
        (\<not> coinbase \<and> is_null_non_coinbase t, tx_code error_previous_output_null)])"

definition tx_check_context :: "transaction \<Rightarrow> chain_context \<Rightarrow> code" where
  "tx_check_context t ctx = (let bip113 = ctx_enabled ctx bip113_rule in
     first_error tx_success
       [(is_absolute_locked t (ctx_height ctx) (ctx_timestamp ctx) (ctx_median_time_past ctx) bip113,
         tx_code error_absolute_time_locked)])"

definition tx_accept :: "transaction \<Rightarrow> chain_context \<Rightarrow> code" where
  "tx_accept t ctx = first_error tx_success
     [(tx_is_coinbase t, tx_success),
      (is_missing_prevouts t, tx_code error_missing_previous_output),
      (is_overspent t, tx_code error_spend_exceeds_value)]"

definition tx_confirm :: "transaction \<Rightarrow> chain_context \<Rightarrow> code" where
  "tx_confirm t ctx = (let bip68 = ctx_enabled ctx bip68_rule in
     first_error tx_success
       [(tx_is_coinbase t, tx_success),
        (bip68 \<and> tx_is_relative_locked t (ctx_height ctx) (ctx_median_time_past ctx),
          tx_code error_relative_time_locked),
        (is_unconfirmed_spend t (ctx_height ctx), tx_code error_unconfirmed_spend),
        (is_immature t (ctx_height ctx), tx_code error_coinbase_maturity),
        (is_confirmed_double_spend t (ctx_height ctx), tx_code error_confirmed_double_spend)])"

section \<open>Well formed transactions\<close>

definition plain :: "chain_input \<Rightarrow> chain_input" where
  "plain i = make_input (in_point i) (in_script i) default_witness (in_sequence i) True"

definition tx_input_ok :: "bool \<Rightarrow> chain_input \<Rightarrow> bool" where
  "tx_input_ok segregated i \<longleftrightarrow>
     i = make_input (in_point i) (in_script i) (in_witness i) (in_sequence i) True \<and>
     point_ok (in_point i) \<and> script_wf (in_script i) \<and>
     (if segregated then witness_ok (in_witness i) else in_witness i = default_witness)"

text \<open>
  The serialization is ambiguous for a transaction without inputs and with exactly one output:
  its count bytes are those of the witness marker and flag. Such a transaction is not valid
  (\<open>is_empty\<close>), and it is excluded here.
\<close>

definition transaction_ok :: "transaction \<Rightarrow> bool" where
  "transaction_ok t \<longleftrightarrow>
     t = make_transaction (tx_version t) (tx_inputs t) (tx_outputs t) (tx_locktime t)
       (tx_segregated t) True \<and>
     tx_segregated t = inputs_segregated (tx_inputs t) \<and>
     length (tx_inputs t) \<le> max_count \<and> list_all (tx_input_ok (tx_segregated t)) (tx_inputs t) \<and>
     puts_ok output_ok (tx_outputs t) \<and> (tx_inputs t = [] \<longrightarrow> length (tx_outputs t) \<noteq> 1)"

lemma plain_ok: "tx_input_ok b i \<Longrightarrow> input_ok (plain i)"
  by (simp add: tx_input_ok_def input_ok_def plain_def make_input_def)

lemma plain_to_data [simp]: "input_to_data (plain i) = input_to_data i"
  by (simp add: plain_def input_to_data_def make_input_def)

lemma plain_id: "input_ok i \<Longrightarrow> plain i = i"
  by (simp add: input_ok_def plain_def)

lemma tx_input_unsegregated: "tx_input_ok False i \<longleftrightarrow> input_ok i"
  by (cases i) (auto simp: tx_input_ok_def input_ok_def make_input_def)

lemma set_witness_plain:
  assumes "tx_input_ok True i" "witness_from_data r True = (in_witness i, s)"
  shows "set_witness (plain i) r = (wit_stack (in_witness i) \<noteq> [], i, s)"
proof -
  have "i = make_input (in_point i) (in_script i) (in_witness i) (in_sequence i) True"
    using assms(1) by (simp add: tx_input_ok_def)
  then have "(plain i)\<lparr>in_witness := in_witness i, in_witnessed_size := ceilinged_add
      (in_nominal_size (plain i)) (witness_serialized_size (in_witness i) True)\<rparr> = i"
    by (metis (no_types, lifting) plain_def make_input_def input_witnessed_size_def
        chain_input.update_convs(3,7) chain_input.select_convs(6))
  then show ?thesis using assms(2) by (simp add: set_witness_def Let_def)
qed

abbreviation witnesses_data :: "chain_input list \<Rightarrow> data_chunk" where
  "witnesses_data ins \<equiv> concat (map (\<lambda>i. witness_to_data (in_witness i) True) ins)"

lemma set_witnesses_roundtrip:
  "list_all (tx_input_ok True) ins \<Longrightarrow> feeds r (witnesses_data ins) \<Longrightarrow>
   \<exists>s. set_witnesses w (map plain ins) r =
       (inputs_segregated ins, if w then ins else map plain ins, s) \<and>
     moved r (length (witnesses_data ins)) s"
proof (induction ins arbitrary: r)
  case Nil
  then show ?case by (auto simp: inputs_segregated_def moved_refl feeds_def)
next
  case (Cons i ins)
  have ok: "witness_ok (in_witness i)" using Cons.prems(1) by (simp add: tx_input_ok_def)
  have f: "feeds r (witness_to_data (in_witness i) True @ witnesses_data ins)"
    using Cons.prems(2) by simp
  obtain s where s: "witness_from_data r True = (in_witness i, s)"
      "moved r (length (witness_to_data (in_witness i) True)) s" "feeds s (witnesses_data ins)"
    using witness_codec.dec_enc_then [OF ok f] .
  have "ready r" using f by (simp add: feeds_def ready_def)
  from witness_from_data_good(2) [OF this s(1) moved_good [OF s(2)]]
  have skip: "witness_skip r True = (wit_stack (in_witness i) \<noteq> [], s)" .
  obtain t where t: "set_witnesses w (map plain ins) s =
       (inputs_segregated ins, if w then ins else map plain ins, t)"
      "moved s (length (witnesses_data ins)) t"
    using Cons.IH [OF _ s(3)] Cons.prems(1) by auto
  have "set_witness (plain i) r = (wit_stack (in_witness i) \<noteq> [], i, s)"
    using set_witness_plain [OF _ s(1)] Cons.prems(1) by simp
  with t skip moved_trans [OF s(2) t(2)] show ?case
    by (auto simp: inputs_segregated_def)
qed

lemma write_variable_zero: "write_variable 0 = [0]"
  by (simp add: write_variable_def write_byte_def varint_simps)

lemma write_variable_marker: "\<exists>b bs. write_variable v = b # bs \<and> (b = witness_enabled \<longleftrightarrow> v = 1)"
proof (cases "v < 253")
  case True
  then have "word_of_nat v = (1 :: byte) \<longleftrightarrow> v = 1"
    by (simp add: word_unat_eq_iff unat_of_nat)
  with True show ?thesis by (simp add: write_variable_def write_byte_def varint_simps witness_enabled_def)
next
  case False
  then show ?thesis by (auto simp: write_variable_def write_byte_def varint_simps witness_enabled_def)
qed

lemma peek_byte_feeds: "feeds r (b # bs) \<Longrightarrow> peek_byte r = (b, r)"
proof -
  assume f: "feeds r (b # bs)"
  then have "take (Suc (length bs)) (drop (rpos r) (rbuf r)) = b # bs" by (simp add: feeds_def)
  then have "rbuf r ! rpos r = b" "rpos r < length (rbuf r)"
    using feeds_length [OF f] by (auto simp: take_Suc hd_drop_conv_nth split: list.splits)
  with f show ?thesis by (auto simp: peek_byte_def feeds_def)
qed

section \<open>The transaction codec\<close>

interpretation inputs_codec: canonical_codec
  "write_puts input_to_data" "read_puts input_from_data" "puts_ok input_ok"
  by (rule input_codec.puts_canonical_codec)

interpretation outputs_codec: canonical_codec
  "write_puts output_to_data" "read_puts output_from_data" "puts_ok output_ok"
  by (rule output_codec.puts_canonical_codec)

lemma plain_puts:
  "length ins \<le> max_count \<Longrightarrow> list_all (tx_input_ok b) ins \<Longrightarrow> puts_ok input_ok (map plain ins)"
  by (auto simp: puts_ok_def list_all_iff plain_ok)

lemma plain_write_puts: "write_puts input_to_data (map plain ins) = write_puts input_to_data ins"
  by (simp add: write_puts_def comp_def)

text \<open>
  Reading what a well formed transaction writes, with the witnesses kept or skipped: the bytes
  after the version are taken apart in the order in which they were written.
\<close>

lemma read_segregated_roundtrip:
  assumes "length ins \<le> max_count" "list_all (tx_input_ok True) ins" "puts_ok output_ok outs"
    "inputs_segregated ins"
    "feeds r ([witness_enabled] @ write_puts input_to_data ins @ write_puts output_to_data outs @
      witnesses_data ins)"
  obtains s where "read_segregated w r = (if w then ins else map plain ins, outs, s)"
    "moved r (length ([witness_enabled] @ write_puts input_to_data ins @
      write_puts output_to_data outs @ witnesses_data ins)) s"
proof -
  have f: "feeds r [witness_enabled]" using assms(5) by (rule feeds_appendD)
  have r0: "skip_bytes 1 r = advance 1 r" "moved r 1 (advance 1 r)"
    using skip_bytes_feeds [OF f] moved_advance [OF f] by simp_all
  have f1: "feeds (advance 1 r) (write_puts input_to_data (map plain ins) @
      write_puts output_to_data outs @ witnesses_data ins)"
    unfolding plain_write_puts by (rule feeds_moved [OF assms(5)]) (use r0(2) in simp)
  obtain r1 where r1: "read_puts input_from_data (advance 1 r) = (map plain ins, r1)"
      "moved (advance 1 r) (length (write_puts input_to_data ins)) r1"
      "feeds r1 (write_puts output_to_data outs @ witnesses_data ins)"
    using inputs_codec.dec_enc_then [OF plain_puts [OF assms(1,2)] f1] unfolding plain_write_puts .
  obtain r2 where r2: "read_puts output_from_data r1 = (outs, r2)"
      "moved r1 (length (write_puts output_to_data outs)) r2" "feeds r2 (witnesses_data ins)"
    using outputs_codec.dec_enc_then [OF assms(3) r1(3)] .
  obtain s where s: "set_witnesses w (map plain ins) r2 = (True, if w then ins else map plain ins, s)"
      "moved r2 (length (witnesses_data ins)) s"
    using set_witnesses_roundtrip [OF assms(2) r2(3)] assms(4) by auto
  show thesis
  proof (rule that)
    show "read_segregated w r = (if w then ins else map plain ins, outs, s)"
      using r0(1) r1(1) r2(1) s(1) by (simp add: read_segregated_def)
    show "moved r (length ([witness_enabled] @ write_puts input_to_data ins @
        write_puts output_to_data outs @ witnesses_data ins)) s"
      using moved_trans [OF r0(2) moved_trans [OF r1(2) moved_trans [OF r2(2) s(2)]]] by simp
  qed
qed

lemma read_no_inputs:
  assumes "feeds r ([witness_marker] @ rest)"
  obtains s where "read_puts input_from_data r = ([], s)" "moved r 1 s" "feeds s rest"
proof -
  have "feeds r (write_puts input_to_data [] @ rest)"
    using assms by (simp add: write_puts_def write_variable_zero witness_marker_def)
  moreover have "puts_ok input_ok []" by (simp add: puts_ok_def)
  ultimately obtain s where "read_puts input_from_data r = ([], s)"
      "moved r (length (write_puts input_to_data [])) s" "feeds s rest"
    using inputs_codec.dec_enc_then by blast
  then show thesis using that by (simp add: write_puts_def write_variable_zero)
qed

lemma tx_witness_roundtrip:
  assumes "transaction_ok t" "tx_segregated t" "feeds r (transaction_to_data t True)"
  shows "transaction_from_data r w = (if w then t else make_transaction (tx_version t)
      (map plain (tx_inputs t)) (tx_outputs t) (tx_locktime t) False True,
    snd (transaction_from_data r w)) \<and>
    moved r (length (transaction_to_data t True)) (snd (transaction_from_data r w))"
proof -
  let ?v = "write_little_endian 4 (unat (tx_version t))" and ?l = "write_little_endian 4 (unat (tx_locktime t))"
  let ?b = "[witness_enabled] @ write_puts input_to_data (tx_inputs t) @
    write_puts output_to_data (tx_outputs t) @ witnesses_data (tx_inputs t)"
  have ok: "length (tx_inputs t) \<le> max_count" "list_all (tx_input_ok True) (tx_inputs t)"
      "puts_ok output_ok (tx_outputs t)" "inputs_segregated (tx_inputs t)"
      "t = make_transaction (tx_version t) (tx_inputs t) (tx_outputs t) (tx_locktime t) True True"
    using assms(1,2) by (auto simp: transaction_ok_def)
  have d: "transaction_to_data t True = ?v @ [witness_marker] @ ?b @ ?l"
    using assms(2) by (simp add: transaction_to_data_def write_puts_def write_byte_def)
  have f: "feeds r (?v @ [witness_marker] @ ?b @ ?l)" using assms(3) d by simp
  note r1 = read_word_moved [OF feeds_appendD [OF f]]
  have m1: "moved r (length ?v) (advance 4 r)" using r1(2) by (simp add: write_little_endian_def)
  obtain r2 where r2: "read_puts input_from_data (advance 4 r) = ([], r2)" "moved (advance 4 r) 1 r2"
      "feeds r2 (?b @ ?l)"
    using read_no_inputs [OF feeds_moved [OF f m1]] .
  have peek: "peek_byte r2 = (witness_enabled, r2)"
    using peek_byte_feeds [of r2 witness_enabled] r2(3) by simp
  obtain r3 where r3: "read_segregated w r2 =
        (if w then tx_inputs t else map plain (tx_inputs t), tx_outputs t, r3)"
      "moved r2 (length ?b) r3"
    using read_segregated_roundtrip [OF ok(1-4) feeds_appendD [OF r2(3)]] .
  note r4 = read_word_moved [OF feeds_moved [OF r2(3) r3(2)]]
  have m4: "moved r3 (length ?l) (advance 4 r3)" using r4(2) by (simp add: write_little_endian_def)
  have m: "moved r (length (transaction_to_data t True)) (advance 4 r3)"
    using moved_trans [OF m1 moved_trans [OF r2(2) moved_trans [OF r3(2) m4]]] d by (simp add: add.assoc)
  have "transaction_from_data r w = (make_transaction (tx_version t)
      (if w then tx_inputs t else map plain (tx_inputs t)) (tx_outputs t) (tx_locktime t) w True, advance 4 r3)"
    using r1(1) r2(1) peek r3(1) r4(1) moved_good [OF m]
    by (simp add: transaction_from_data_def witness_marker_def)
  with m ok(5) show ?thesis by (cases w) simp_all
qed

text \<open>The plain serialization, of a transaction with or without witnesses.\<close>

definition stripped :: "transaction \<Rightarrow> transaction" where
  "stripped t = make_transaction (tx_version t) (map plain (tx_inputs t)) (tx_outputs t)
     (tx_locktime t) False True"

lemma stripped_id: "transaction_ok t \<Longrightarrow> \<not> tx_segregated t \<Longrightarrow> stripped t = t"
proof -
  assume ok: "transaction_ok t" "\<not> tx_segregated t"
  then have "map plain (tx_inputs t) = tx_inputs t"
    by (auto simp: transaction_ok_def tx_input_unsegregated list_all_iff plain_id intro!: map_idI)
  with ok show ?thesis by (simp add: stripped_def transaction_ok_def)
qed

lemma tx_plain_roundtrip:
  assumes "transaction_ok t" "feeds r (transaction_to_data t False)"
  shows "fst (transaction_from_data r w) = stripped t \<and>
    moved r (length (transaction_to_data t False)) (snd (transaction_from_data r w))"
proof -
  let ?v = "write_little_endian 4 (unat (tx_version t))" and ?l = "write_little_endian 4 (unat (tx_locktime t))"
  let ?i = "write_puts input_to_data (map plain (tx_inputs t))" and ?o = "write_puts output_to_data (tx_outputs t)"
  have ok: "puts_ok input_ok (map plain (tx_inputs t))" "puts_ok output_ok (tx_outputs t)"
    using assms(1) plain_puts by (auto simp: transaction_ok_def)
  have d: "transaction_to_data t False = ?v @ ?i @ ?o @ ?l"
    by (simp add: transaction_to_data_def plain_write_puts) (simp add: write_puts_def)
  have f: "feeds r (?v @ ?i @ ?o @ ?l)" using assms(2) d by simp
  note r1 = read_word_moved [OF feeds_appendD [OF f]]
  have m1: "moved r (length ?v) (advance 4 r)" using r1(2) by (simp add: write_little_endian_def)
  obtain r2 where r2: "read_puts input_from_data (advance 4 r) = (map plain (tx_inputs t), r2)"
      "moved (advance 4 r) (length ?i) r2" "feeds r2 (?o @ ?l)"
    using inputs_codec.dec_enc_then [OF ok(1) feeds_moved [OF f m1]] .
  obtain b bs where b: "write_variable (length (tx_outputs t)) = b # bs"
      "b = witness_enabled \<longleftrightarrow> length (tx_outputs t) = 1"
    using write_variable_marker by blast
  then have "feeds r2 (b # bs @ concat (map output_to_data (tx_outputs t)) @ ?l)"
    using r2(3) by (simp add: write_puts_def)
  then have peek: "peek_byte r2 = (b, r2)" by (rule peek_byte_feeds)
  have unmarked: "tx_inputs t = [] \<Longrightarrow> b \<noteq> witness_enabled"
    using assms(1) b(2) by (simp add: transaction_ok_def)
  obtain r3 where r3: "read_puts output_from_data r2 = (tx_outputs t, r3)" "moved r2 (length ?o) r3"
      "feeds r3 ?l"
    using outputs_codec.dec_enc_then [OF ok(2) r2(3)] .
  note r4 = read_word_moved [OF r3(3)]
  have m4: "moved r3 (length ?l) (advance 4 r3)" using r4(2) by (simp add: write_little_endian_def)
  have m: "moved r (length (transaction_to_data t False)) (advance 4 r3)"
    using moved_trans [OF m1 moved_trans [OF r2(2) moved_trans [OF r3(2) m4]]] d by (simp add: add.assoc)
  have "transaction_from_data r w = (stripped t, advance 4 r3)"
    using r1(1) r2(1) peek r3(1) r4(1) moved_good [OF m] unmarked
    by (cases "tx_inputs t = []") (simp_all add: transaction_from_data_def witness_marker_def stripped_def)
  with m show ?thesis by simp
qed

lemma tx_data_unsegregated: "\<not> tx_segregated t \<Longrightarrow> transaction_to_data t True = transaction_to_data t False"
  by (simp add: transaction_to_data_def)

lemma transaction_from_data_roundtrip:
  assumes "transaction_ok t" "feeds r (transaction_to_data t True)"
  shows "fst (transaction_from_data r True) = t \<and>
    moved r (length (transaction_to_data t True)) (snd (transaction_from_data r True))"
proof (cases "tx_segregated t")
  case True
  then show ?thesis using tx_witness_roundtrip [OF assms(1) True assms(2), of True] by (metis fst_conv)
next
  case False
  then show ?thesis using tx_plain_roundtrip [OF assms(1)] assms(2) stripped_id [OF assms(1)]
    by (simp add: tx_data_unsegregated)
qed

text \<open>The converse: what a good read has consumed.\<close>

lemma peek_byte_good:
  assumes "peek_byte r = (b, s)" "rgood s"
  shows "s = r" "rgood r" "rpos r < length (rbuf r)" "b = rbuf r ! rpos r"
  using assms by (auto simp: peek_byte_def split: if_splits)

lemma consumed_first:
  assumes "consumed r (b # bs) s"
  shows "rbuf r ! rpos r = b"
proof -
  have "take (Suc (length bs)) (drop (rpos r) (rbuf r)) = b # bs" using assms by (simp add: consumed_def)
  then have "drop (rpos r) (rbuf r) ! 0 = b" by (metis nth_Cons_0 nth_take zero_less_Suc)
  moreover have "rpos r \<le> length (rbuf r)" using assms by (simp add: consumed_def)
  ultimately show ?thesis by simp
qed

lemma skip_byte_good:
  assumes "ready r" "rgood (skip_bytes 1 r)"
  shows "consumed r [rbuf r ! rpos r] (skip_bytes 1 r)"
proof -
  have s: "rbuf (skip_bytes 1 r) = rbuf r" "rpos (skip_bytes 1 r) = rpos r + 1" "rpos r < length (rbuf r)"
    using assms by (auto simp: skip_bytes_def limiter_def seek_forward_def invalidate_def ready_def
        split: if_splits)
  then show ?thesis by (simp add: consumed_def take_Suc_conv_app_nth hd_drop_conv_nth take_Suc)
qed

lemma skip_bytes_sticky: "rgood (skip_bytes n r) \<Longrightarrow> rgood r"
  by (auto simp: skip_bytes_def limiter_def seek_forward_def invalidate_def split: if_splits)

lemma set_witnesses_sticky: "rgood (snd (snd (set_witnesses True ins r))) \<Longrightarrow> rgood r"
proof (induction ins arbitrary: r)
  case (Cons i ins)
  then show ?case using witness_codec.sticky [of r]
    by (auto simp: set_witness_def case_prod_beta Let_def)
qed simp

lemma set_witnesses_canonical:
  "ready r \<Longrightarrow> list_all input_ok ins \<Longrightarrow> set_witnesses True ins r = (nonempty, ins', s) \<Longrightarrow> rgood s \<Longrightarrow>
   length ins' = length ins \<and> list_all (tx_input_ok True) ins' \<and> nonempty = inputs_segregated ins' \<and>
   map input_to_data ins' = map input_to_data ins \<and> consumed r (witnesses_data ins') s"
proof (induction ins arbitrary: r nonempty ins')
  case Nil
  then show ?case by (auto simp: inputs_segregated_def consumed_refl)
next
  case (Cons i ins)
  obtain w t where w: "witness_from_data r True = (w, t)" by fastforce
  let ?i = "i\<lparr>in_witness := w,
      in_witnessed_size := ceilinged_add (in_nominal_size i) (witness_serialized_size w True)\<rparr>"
  obtain ne ins1 where rest: "set_witnesses True ins t = (ne, ins1, s)"
      "ins' = ?i # ins1" "nonempty \<longleftrightarrow> wit_stack w \<noteq> [] \<or> ne"
    using Cons.prems(3) w by (auto simp: set_witness_def Let_def split: prod.splits)
  have t: "rgood t" using set_witnesses_sticky [of ins t] rest(1) Cons.prems(4) by simp
  have c: "witness_ok w" "consumed r (witness_to_data w True) t"
    using witness_codec.canonical [OF Cons.prems(1) w t] by simp_all
  have i: "tx_input_ok True ?i" "input_to_data ?i = input_to_data i"
    using Cons.prems(2) c(1)
    by (cases i, auto simp: input_ok_def tx_input_ok_def make_input_def input_witnessed_size_def
        input_to_data_def)
  from Cons.IH [OF consumed_ready [OF c(2) t] _ rest(1) Cons.prems(4)] Cons.prems(2)
  have "length ins1 = length ins \<and> list_all (tx_input_ok True) ins1 \<and> ne = inputs_segregated ins1 \<and>
     map input_to_data ins1 = map input_to_data ins \<and> consumed t (witnesses_data ins1) s" by simp
  with rest i consumed_trans [OF c(2)] show ?case by (simp add: inputs_segregated_def)
qed

lemma read_segregated_sticky: "rgood (snd (snd (read_segregated True r))) \<Longrightarrow> rgood r"
  by (auto simp: read_segregated_def case_prod_beta Let_def split: if_splits
      dest!: set_witnesses_sticky outputs_codec.sticky inputs_codec.sticky skip_bytes_sticky)

lemma read_segregated_canonical:
  assumes "ready r" "read_segregated True r = (ins, outs, s)" "rgood s"
  shows "inputs_segregated ins" "length ins \<le> max_count" "list_all (tx_input_ok True) ins"
    "puts_ok output_ok outs"
    "consumed r ([rbuf r ! rpos r] @ write_puts input_to_data ins @ write_puts output_to_data outs @
      witnesses_data ins) s"
proof -
  obtain ins0 s1 where s1: "read_puts input_from_data (skip_bytes 1 r) = (ins0, s1)" by fastforce
  obtain s2 where s2: "read_puts output_from_data s1 = (outs, s2)"
    and w: "set_witnesses True ins0 s2 = (True, ins, s)"
    using assms(2,3) s1 by (auto simp: read_segregated_def split: prod.splits if_splits)
  have g2: "rgood s2" using set_witnesses_sticky [of ins0 s2] w assms(3) by simp
  have g1: "rgood s1" using outputs_codec.sticky [of s1] s2 g2 by simp
  have g0: "rgood (skip_bytes 1 r)" using inputs_codec.sticky [of "skip_bytes 1 r"] s1 g1 by simp
  note c0 = skip_byte_good [OF assms(1) g0]
  have c1: "puts_ok input_ok ins0" "consumed (skip_bytes 1 r) (write_puts input_to_data ins0) s1"
    using inputs_codec.canonical [OF consumed_ready [OF c0 g0] s1 g1] by simp_all
  have c2: "puts_ok output_ok outs" "consumed s1 (write_puts output_to_data outs) s2"
    using outputs_codec.canonical [OF consumed_ready [OF c1(2) g1] s2 g2] by simp_all
  have c3: "length ins = length ins0" "list_all (tx_input_ok True) ins" "inputs_segregated ins"
      "map input_to_data ins = map input_to_data ins0" "consumed s2 (witnesses_data ins) s"
    using set_witnesses_canonical [OF consumed_ready [OF c2(2) g2] _ w assms(3)] c1(1)
    by (auto simp: puts_ok_def)
  show "inputs_segregated ins" "length ins \<le> max_count" "list_all (tx_input_ok True) ins"
    "puts_ok output_ok outs" using c1(1) c2(1) c3 by (simp_all add: puts_ok_def)
  have "write_puts input_to_data ins = write_puts input_to_data ins0"
    using c3(1,4) by (simp add: write_puts_def)
  then show "consumed r ([rbuf r ! rpos r] @ write_puts input_to_data ins @
      write_puts output_to_data outs @ witnesses_data ins) s"
    using consumed_trans [OF c0 consumed_trans [OF c1(2) consumed_trans [OF c2(2) c3(5)]]] by simp
qed

lemma transaction_from_data_parts:
  assumes "transaction_from_data r True = (t, s)" "rgood s"
  obtains v r1 ins0 r2 ins outs r4 l seg where "read_little_endian 4 r = (v, r1)"
    "read_puts input_from_data r1 = (ins0, r2)"
    "if seg then ins0 = [] \<and> peek_byte r2 = (witness_enabled, r2) \<and> read_segregated True r2 = (ins, outs, r4)
     else ins = ins0 \<and> read_puts output_from_data r2 = (outs, r4) \<and>
       (ins0 = [] \<longrightarrow> (\<exists>b. peek_byte r2 = (b, r2) \<and> b \<noteq> witness_enabled))"
    "read_little_endian 4 r4 = (l, s)"
    "t = make_transaction (word_of_nat v) ins outs (word_of_nat l) seg True"
proof -
  obtain v r1 where v: "read_little_endian 4 r = (v, r1)" by fastforce
  obtain ins0 r2 where i: "read_puts input_from_data r1 = (ins0, r2)" by fastforce
  obtain b r3 where b: "(if ins0 = [] then peek_byte r2 else (0, r2)) = (b, r3)" by fastforce
  define seg where "seg \<longleftrightarrow> ins0 = [] \<and> b = witness_enabled"
  obtain ins outs r4 where m: "(if seg then read_segregated True r3
      else (let (outs1, s2) = read_puts output_from_data r3 in (ins0, outs1, s2))) = (ins, outs, r4)"
    by (metis prod_cases3)
  obtain l r5 where l: "read_little_endian 4 r4 = (l, r5)" by fastforce
  have t: "t = make_transaction (word_of_nat v) ins outs (word_of_nat l) seg (rgood r5)" "s = r5"
    using assms(1) v i b m l by (auto simp: transaction_from_data_def witness_marker_def seg_def
        split: if_splits)
  have "rgood r4" using read_little_endian_sticky [of 4 r4] l t(2) assms(2) by simp
  then have "rgood r3"
    using m read_segregated_sticky [of r3] outputs_codec.sticky [of r3]
    by (auto split: if_splits prod.splits)
  then have "r3 = r2" using b peek_byte_good(1) [of r2 b r3] by (auto split: if_splits)
  with that [OF v i _ l [folded t(2)], of seg ins outs] t assms(2) b m seg_def show thesis
    by (auto split: if_splits prod.splits)
qed

lemma transaction_from_data_sticky: "rgood (snd (transaction_from_data r True)) \<Longrightarrow> rgood r"
proof -
  assume g: "rgood (snd (transaction_from_data r True))"
  obtain t s where ts: "transaction_from_data r True = (t, s)" by fastforce
  with g have s: "rgood s" by simp
  from ts s show "rgood r"
  proof (rule transaction_from_data_parts)
    fix v r1 ins0 r2 ins outs r4 l seg
    assume p: "read_little_endian 4 r = (v, r1)" "read_puts input_from_data r1 = (ins0, r2)"
      "if seg then ins0 = [] \<and> peek_byte r2 = (witness_enabled, r2) \<and> read_segregated True r2 = (ins, outs, r4)
       else ins = ins0 \<and> read_puts output_from_data r2 = (outs, r4) \<and>
         (ins0 = [] \<longrightarrow> (\<exists>b. peek_byte r2 = (b, r2) \<and> b \<noteq> witness_enabled))"
      "read_little_endian 4 r4 = (l, s)"
    have "rgood r4" using read_little_endian_sticky [of 4 r4] p(4) s by simp
    then have "rgood r2" using p(3) read_segregated_sticky [of r2] outputs_codec.sticky [of r2]
      by (auto split: if_splits)
    then show "rgood r" using inputs_codec.sticky [of r1] read_little_endian_sticky [of 4 r] p(1,2) by simp
  qed
qed

text \<open>The bytes between the version and the lock time.\<close>

abbreviation tx_body :: "bool \<Rightarrow> chain_input list \<Rightarrow> chain_output list \<Rightarrow> data_chunk" where
  "tx_body seg ins outs \<equiv> (if seg then [witness_marker, witness_enabled] else []) @
     write_puts input_to_data ins @ write_puts output_to_data outs @
     (if seg then witnesses_data ins else [])"

definition body_ok :: "bool \<Rightarrow> chain_input list \<Rightarrow> chain_output list \<Rightarrow> bool" where
  "body_ok seg ins outs \<longleftrightarrow> seg = inputs_segregated ins \<and> length ins \<le> max_count \<and>
     list_all (tx_input_ok seg) ins \<and> puts_ok output_ok outs \<and> (ins = [] \<longrightarrow> length outs \<noteq> 1)"

lemma input_ok_witness: "input_ok i \<Longrightarrow> wit_stack (in_witness i) = []"
  by (cases i) (auto simp: input_ok_def make_input_def default_witness_def make_witness_def)

lemma unsegregated_inputs:
  "list_all input_ok ins \<Longrightarrow> list_all (tx_input_ok False) ins \<and> \<not> inputs_segregated ins"
  by (auto simp: inputs_segregated_def list_all_iff list_ex_iff tx_input_unsegregated input_ok_witness)

lemma segregated_body_canonical:
  assumes "ready r2" "consumed r1 (write_puts input_to_data ([] :: chain_input list)) r2"
    "peek_byte r2 = (witness_enabled, r2)" "read_segregated True r2 = (ins, outs, r4)" "rgood r4"
  shows "body_ok True ins outs \<and> consumed r1 (tx_body True ins outs) r4"
proof -
  have "rbuf r2 ! rpos r2 = witness_enabled"
    using peek_byte_good(4) [OF assms(3)] assms(1) by (simp add: ready_def)
  with read_segregated_canonical [OF assms(1,4,5)] consumed_trans [OF assms(2)] show ?thesis
    by (auto simp: write_puts_def write_variable_zero witness_marker_def inputs_segregated_def body_ok_def)
qed

lemma plain_body_canonical:
  assumes "ready r2" "puts_ok input_ok ins" "consumed r1 (write_puts input_to_data ins) r2"
    "read_puts output_from_data r2 = (outs, r4)" "rgood r4"
    "ins = [] \<Longrightarrow> \<exists>b. peek_byte r2 = (b, r2) \<and> b \<noteq> witness_enabled"
  shows "body_ok False ins outs \<and> consumed r1 (tx_body False ins outs) r4"
proof -
  have c: "puts_ok output_ok outs" "consumed r2 (write_puts output_to_data outs) r4"
    using outputs_codec.canonical [OF assms(1,4,5)] by simp_all
  have "length outs \<noteq> 1" if "ins = []"
  proof -
    from assms(6) [OF that] obtain b where b: "peek_byte r2 = (b, r2)" "b \<noteq> witness_enabled" by blast
    obtain b' bs where w: "write_variable (length outs) = b' # bs"
        "b' = witness_enabled \<longleftrightarrow> length outs = 1" using write_variable_marker by blast
    have "b = b'"
      using c(2) consumed_first [of r2 b'] peek_byte_good(4) [OF b(1)] assms(1) w(1)
      by (simp add: write_puts_def ready_def)
    with b(2) w(2) show ?thesis by simp
  qed
  with c assms(2) unsegregated_inputs [of ins] consumed_trans [OF assms(3) c(2)] show ?thesis
    by (auto simp: puts_ok_def body_ok_def)
qed

lemma transaction_from_data_canonical:
  assumes "ready r" "transaction_from_data r True = (t, s)" "rgood s"
  shows "transaction_ok t \<and> consumed r (transaction_to_data t True) s"
proof -
  obtain v r1 ins0 r2 ins outs r4 l seg where p: "read_little_endian 4 r = (v, r1)"
    "read_puts input_from_data r1 = (ins0, r2)"
    "if seg then ins0 = [] \<and> peek_byte r2 = (witness_enabled, r2) \<and> read_segregated True r2 = (ins, outs, r4)
     else ins = ins0 \<and> read_puts output_from_data r2 = (outs, r4) \<and>
       (ins0 = [] \<longrightarrow> (\<exists>b. peek_byte r2 = (b, r2) \<and> b \<noteq> witness_enabled))"
    "read_little_endian 4 r4 = (l, s)"
    "t = make_transaction (word_of_nat v) ins outs (word_of_nat l) seg True"
    using transaction_from_data_parts [OF assms(2,3)] .
  have g4: "rgood r4" using read_little_endian_sticky [of 4 r4] p(4) assms(3) by simp
  then have g2: "rgood r2" using p(3) read_segregated_sticky [of r2] outputs_codec.sticky [of r2]
    by (auto split: if_splits)
  then have g1: "rgood r1" using inputs_codec.sticky [of r1] p(2) by simp
  have c1: "consumed r (write_little_endian 4 (unat (word_of_nat v :: u32))) r1"
    by (rule read_word_good [OF assms(1) p(1) g1]) simp
  have c2: "puts_ok input_ok ins0" "consumed r1 (write_puts input_to_data ins0) r2"
    using inputs_codec.canonical [OF consumed_ready [OF c1 g1] p(2) g2] by simp_all
  have body: "body_ok seg ins outs \<and> consumed r1 (tx_body seg ins outs) r4"
    using p(3) c2 segregated_body_canonical [OF consumed_ready [OF c2(2) g2] _ _ _ g4]
      plain_body_canonical [OF consumed_ready [OF c2(2) g2] _ _ _ g4]
    by (cases seg) auto
  then have c4: "consumed r1 (tx_body seg ins outs) r4" ..
  have c5: "consumed r4 (write_little_endian 4 (unat (word_of_nat l :: u32))) s"
    by (rule read_word_good [OF consumed_ready [OF c4 g4] p(4) assms(3)]) simp
  have "transaction_to_data t True = write_little_endian 4 (unat (word_of_nat v :: u32)) @
      tx_body seg ins outs @ write_little_endian 4 (unat (word_of_nat l :: u32))"
    using p(5) by (simp add: transaction_to_data_def make_transaction_def write_puts_def write_byte_def)
  moreover have "transaction_ok t"
    using body unfolding p(5) transaction_ok_def body_ok_def by (auto simp: make_transaction_def)
  ultimately show ?thesis using consumed_trans [OF c1 consumed_trans [OF c4 c5]] by simp
qed

interpretation transaction_codec: canonical_codec
  "\<lambda>t. transaction_to_data t True" "\<lambda>r. transaction_from_data r True" transaction_ok
  by unfold_locales
    (rule transaction_from_data_roundtrip transaction_from_data_sticky
      transaction_from_data_canonical; assumption)+

section \<open>Sizes\<close>

text \<open>Every cached size is the length of the serialization, up to the ceiling of \<open>size_t\<close>.\<close>

lemma ceilinged_add_min: "ceilinged_add a b = min max_size_t (a + b)"
  by (simp add: ceilinged_add_def min_def)

lemma min_absorb_add: "min M (min M a + b) = min M (a + b)" "min M (a + min M b) = min M (a + (b :: nat))"
  by auto

lemma min_sum_list: "min M (sum_list (map (\<lambda>x. min M (f x)) xs)) = min M (sum_list (map f xs) :: nat)"
proof (induction xs)
  case (Cons x xs)
  have "min M (min M (f x) + sum_list (map (\<lambda>x. min M (f x)) xs)) =
      min M (f x + min M (sum_list (map (\<lambda>x. min M (f x)) xs)))"
    by (simp only: min_absorb_add)
  also have "\<dots> = min M (f x + sum_list (map f xs))" by (simp only: Cons.IH min_absorb_add)
  finally show ?case by simp
qed simp

lemma foldl_sizes:
  assumes "\<And>x. x \<in> set xs \<Longrightarrow> size_of x = min max_size_t (length (data x))"
  shows "foldl (\<lambda>acc x. ceilinged_add acc (size_of x)) 0 xs = min max_size_t (length (concat (map data xs)))"
proof -
  have eq: "map size_of xs = map (\<lambda>x. min max_size_t (length (data x))) xs" using assms by simp
  have "foldl (\<lambda>acc x. ceilinged_add acc (size_of x)) 0 xs = min max_size_t (sum_list (map size_of xs))"
    by (simp add: foldl_ceilinged)
  also have "\<dots> = min max_size_t (sum_list (map (\<lambda>x. min max_size_t (length (data x))) xs))"
    by (simp only: eq)
  also have "\<dots> = min max_size_t (sum_list (map (\<lambda>x. length (data x)) xs))" by (rule min_sum_list)
  finally show ?thesis by (simp add: length_concat comp_def)
qed

lemma script_prefixed_size:
  "script_wf s \<Longrightarrow> script_serialized_size s True = min max_size_t (length (script_to_data s True))"
  using script_wf_size [of s]
  by (simp add: script_to_data_prefix size_simps script_serialized_size_def Let_def ceilinged_add_min
      min_absorb_add add.commute)

lemma output_size_length: "output_ok p \<Longrightarrow> out_size p = min max_size_t (length (output_to_data p))"
  by (cases p) (auto simp: output_ok_def make_output_def output_serialized_size_def output_to_data_def
      write_little_endian_def ceilinged_add_min script_prefixed_size min_absorb_add)

lemma witness_size_length:
  assumes "witness_ok w"
  shows "witness_serialized_size w True = min max_size_t (length (witness_to_data w True))"
proof -
  have "wit_size w = stack_serialized_size (wit_stack w) False"
    using assms by (cases w) (auto simp: witness_ok_def witness_of_stack_def make_witness_def)
  then show ?thesis
    using stack_serialized_size_length(1) [of "wit_stack w"] assms
    by (simp add: witness_ok_def witness_serialized_size_def witness_to_data_def size_simps
        ceilinged_add_min min_absorb_add)
qed

lemma input_size_length:
  assumes "tx_input_ok seg i"
  shows "in_nominal_size i = min max_size_t (length (input_to_data i))"
    "seg \<Longrightarrow> in_witnessed_size i =
       min max_size_t (length (input_to_data i) + length (witness_to_data (in_witness i) True))"
proof -
  have h: "length (point_hash (in_point i)) = 32" and w: "script_wf (in_script i)"
    and i: "i = make_input (in_point i) (in_script i) (in_witness i) (in_sequence i) True"
    using assms by (simp_all add: tx_input_ok_def point_ok_def hash_size_def)
  have n: "input_nominal_size (in_script i) = min max_size_t (length (input_to_data i))"
    using h by (simp add: input_nominal_size_def input_to_data_def point_to_data_def
        point_serialized_size_def hash_size_def write_little_endian_def ceilinged_add_min
        script_prefixed_size [OF w] min_absorb_add add.commute add.left_commute)
  have "in_nominal_size i = input_nominal_size (in_script i)"
    "in_witnessed_size i = input_witnessed_size (in_script i) (in_witness i)"
    by (subst i, simp add: make_input_def)+
  then show "in_nominal_size i = min max_size_t (length (input_to_data i))"
    "seg \<Longrightarrow> in_witnessed_size i =
       min max_size_t (length (input_to_data i) + length (witness_to_data (in_witness i) True))"
    using n witness_size_length [of "in_witness i"] assms
    by (simp_all add: input_witnessed_size_def ceilinged_add_min min_absorb_add tx_input_ok_def)
qed

lemma base_size_length:
  assumes "puts_ok output_ok outs"
  shows "base_size ins outs = min max_size_t
    (8 + variable_size (length ins) + length (write_puts output_to_data outs))"
proof -
  have "foldl (\<lambda>acc p. ceilinged_add acc (out_size p)) 0 outs =
      min max_size_t (length (concat (map output_to_data outs)))"
    using assms by (intro foldl_sizes) (auto simp: puts_ok_def list_all_iff output_size_length)
  then show ?thesis
    by (simp add: base_size_def ceilinged_add_min min_absorb_add write_puts_def size_simps add.assoc)
qed

lemma transaction_size_length:
  assumes "transaction_ok t"
  shows "transaction_serialized_size t w = min max_size_t (length (transaction_to_data t w))"
proof -
  let ?ins = "tx_inputs t" and ?outs = "tx_outputs t" and ?seg = "tx_segregated t"
  have t: "t = make_transaction (tx_version t) ?ins ?outs (tx_locktime t) ?seg True"
    and ok: "list_all (tx_input_ok ?seg) ?ins" "puts_ok output_ok ?outs"
    using assms unfolding transaction_ok_def by blast+
  have nominal: "foldl (\<lambda>acc i. ceilinged_add acc (in_nominal_size i)) 0 ?ins =
      min max_size_t (length (concat (map input_to_data ?ins)))"
    using ok(1) by (intro foldl_sizes) (auto simp: list_all_iff intro: input_size_length(1))
  have witnessed: "foldl (\<lambda>acc i. ceilinged_add acc (in_witnessed_size i)) 0 ?ins =
      min max_size_t (length (concat (map input_to_data ?ins)) + length (witnesses_data ?ins))" if ?seg
  proof -
    have "foldl (\<lambda>acc i. ceilinged_add acc (in_witnessed_size i)) 0 ?ins = min max_size_t
        (length (concat (map (\<lambda>i. input_to_data i @ witness_to_data (in_witness i) True) ?ins)))"
      using ok(1) that by (intro foldl_sizes) (auto simp: list_all_iff input_size_length(2))
    then show ?thesis by (simp add: length_concat comp_def sum_list_addf)
  qed
  have sizes: "tx_nominal_size t = fst (tx_sizes ?ins ?outs ?seg)"
    "tx_witnessed_size t = snd (tx_sizes ?ins ?outs ?seg)"
    by (subst t, simp add: make_transaction_def)+
  show ?thesis
    using nominal witnessed base_size_length [OF ok(2), of ?ins]
    by (auto simp: transaction_serialized_size_def sizes tx_sizes_def Let_def ceilinged_add_min
        min_absorb_add transaction_to_data_def write_puts_def size_simps write_little_endian_def
        write_byte_def add.commute add.left_commute)
qed

section \<open>Properties of transactions\<close>

text \<open>
  Reading and writing a transaction are inverse on whole buffers: for a well formed
  transaction, with or without witnesses, a buffer is its serialization exactly when reading the
  buffer succeeds, uses every byte and returns the transaction.
\<close>

theorem transaction_roundtrip:
  assumes "length bs \<le> max_size_t" "transaction_ok t"
  shows "bs = transaction_to_data t True \<longleftrightarrow>
    (\<exists>s. transaction_from_data (reader_of bs) True = (t, s) \<and> rgood s \<and> rpos s = length bs)"
  by (rule transaction_codec.buffer_iff [OF assms])

text \<open>A transaction that spends one output with a witness, for the examples.\<close>

definition example_transaction :: transaction where
  "example_transaction = make_transaction 2
     [make_input (make_point (replicate 32 1) 7) (from_operations []) (witness_of_stack [[5], [6]]) 9 True]
     [make_output 1000 (from_operations []) True, make_output 2000 (from_operations []) True] 0 True True"

lemma example_transaction_ok: "transaction_ok example_transaction"
proof -
  have "script_wf (from_operations [])"
    by (simp add: script_wf_def from_operations_def make_script_def)
  then show ?thesis
    by (simp add: transaction_ok_def example_transaction_def make_transaction_def inputs_segregated_def
        make_input_def tx_input_ok_def point_ok_def make_point_def hash_size_def witness_ok_def
        witness_of_stack_def make_witness_def puts_ok_def output_ok_def make_output_def
        max_count_def max_bytes_def max_block_weight_def max_block_size_def)
qed

lemma example_transaction_length: "length (transaction_to_data example_transaction w) \<le> max_size_t"
  by (simp add: transaction_to_data_def example_transaction_def make_transaction_def size_simps
      input_to_data_def output_to_data_def point_to_data_def make_input_def make_output_def
      make_point_def witness_to_data_def witness_of_stack_def make_witness_def write_element_def
      script_to_data_def script_serialized_size_def from_operations_def make_script_def
      ops_serialized_size_def write_little_endian_def write_byte_def variable_size_def limits)

theorem transaction_roundtrip_witness:
  "\<exists>s. transaction_from_data (reader_of (transaction_to_data example_transaction True)) True =
     (example_transaction, s) \<and> rgood s"
  using transaction_roundtrip [OF example_transaction_length example_transaction_ok] by blast

text \<open>
  C30. Transaction serialization is canonical: if reading at any position leaves the stream good,
  the transaction is well formed and the bytes consumed are exactly its serialization, so no
  second byte string deserializes to the same transaction (non-minimal counts and superfluous
  witness flags are rejected).
\<close>

theorem transaction_canonical:
  assumes "ready r" "transaction_from_data r True = (t, s)" "rgood s"
  shows "transaction_ok t \<and> consumed r (transaction_to_data t True) s"
  by (rule transaction_codec.canonical [OF assms])

theorem transaction_canonical_witness:
  "\<exists>s. consumed (reader_of (transaction_to_data example_transaction True))
     (transaction_to_data example_transaction True) s"
proof -
  let ?r = "reader_of (transaction_to_data example_transaction True)"
  obtain s where s: "transaction_from_data ?r True = (example_transaction, s)" "rgood s"
    using transaction_codec.dec_enc [OF example_transaction_ok feeds_reader_of [OF example_transaction_length]]
    by (auto simp: moved_def)
  have "ready ?r" by (simp add: ready_def reader_of_def)
  from transaction_canonical [OF this s] show ?thesis by blast
qed

text \<open>
  A reader without witness support accepts the witness serialization of a segregated
  transaction and obtains the stripped transaction: the one whose own serialization is the plain
  serialization (the hash preimage of the transaction identifier) of the original.
\<close>

theorem transaction_stripped:
  assumes "transaction_ok t" "tx_segregated t" "feeds r (transaction_to_data t True)"
  shows "fst (transaction_from_data r False) = stripped t \<and>
    moved r (length (transaction_to_data t True)) (snd (transaction_from_data r False)) \<and>
    transaction_to_data (stripped t) True = transaction_to_data t False"
proof -
  have "transaction_to_data (stripped t) True = transaction_to_data t False"
    by (simp add: transaction_to_data_def stripped_def make_transaction_def comp_def)
  with tx_witness_roundtrip [OF assms, of False] show ?thesis by (simp add: stripped_def) (metis fst_conv)
qed

theorem transaction_stripped_witness:
  "fst (transaction_from_data (reader_of (transaction_to_data example_transaction True)) False) =
   stripped example_transaction"
proof -
  have "tx_segregated example_transaction" by (simp add: example_transaction_def make_transaction_def)
  from transaction_stripped [OF example_transaction_ok this feeds_reader_of [OF example_transaction_length]]
  show ?thesis by blast
qed

text \<open>
  The sizes cached at construction are exact: for a well formed transaction the announced
  size, with and without witnesses, is the length of the serialization (or the ceiling of
  \<open>size_t\<close>), and the weight is three times the plain size plus the full size whenever that fits.
\<close>

theorem transaction_sizes:
  assumes "transaction_ok t"
  shows "transaction_serialized_size t w = min max_size_t (length (transaction_to_data t w)) \<and>
    (3 * length (transaction_to_data t False) + length (transaction_to_data t True) \<le> max_size_t \<longrightarrow>
     tx_weight t = 3 * length (transaction_to_data t False) + length (transaction_to_data t True))"
  using transaction_size_length [OF assms]
  by (simp add: tx_weight_def ceilinged_multiply_def ceilinged_add_def base_size_contribution_def
      total_size_contribution_def)

theorem transaction_sizes_witness:
  "transaction_serialized_size example_transaction True =
   length (transaction_to_data example_transaction True)"
  using transaction_sizes [OF example_transaction_ok, of True] example_transaction_length [of True] by simp

lemma sorted_remdups_adj: "sorted xs \<Longrightarrow> remdups_adj xs = xs \<longleftrightarrow> distinct xs"
proof (induction xs rule: remdups_adj.induct)
  case (3 x y xs)
  show ?case
  proof (cases "x = y")
    case True
    then have "remdups_adj (x # y # xs) \<noteq> x # y # xs"
      using remdups_adj_length [of "y # xs"] by (metis Suc_n_not_le_n length_Cons remdups_adj.simps(3))
    with True show ?thesis by simp
  next
    case False
    with "3.prems" have "x \<notin> set (y # xs)" by auto
    with False "3.IH"(2) "3.prems" show ?thesis by simp
  qed
qed simp_all

text \<open>
  Double spends inside a transaction are found: sorting the points and comparing neighbours
  reports a double spend exactly when two inputs refer to the same output.
\<close>

theorem internal_double_spend_found:
  "is_internal_double_spend t \<longleftrightarrow>
   \<not> distinct (map (\<lambda>i. (point_hash (in_point i), point_index (in_point i))) (tx_inputs t))"
proof -
  have "is_distinct xs = distinct xs" for xs :: "point_key list"
    using sorted_remdups_adj [of "sort xs"] by (simp add: is_distinct_def Let_def)
  then show ?thesis
    by (auto simp: is_internal_double_spend_def points_def distinct_map point_key_def comp_def inj_on_def)
qed

lemma tx_spend_sum: "tx_spend t = min max_size_t (sum_list (map (\<lambda>p. unat (out_value p)) (tx_outputs t)))"
  by (simp add: tx_spend_def foldl_ceilinged)

lemma tx_value_sum: "tx_value t = min max_size_t (sum_list (map (\<lambda>i. case in_prevout i of None \<Rightarrow> 0
    | Some p \<Rightarrow> unat (out_value p)) (tx_inputs t)))"
  by (simp add: tx_value_def foldl_ceilinged)

text \<open>
  An accepted transaction creates no value: if every previous output is known and their sum
  is below the ceiling, a transaction that is not a coinbase passes \<open>accept\<close> exactly when its
  outputs sum to no more than its previous outputs, and then the fee is the difference.
\<close>

theorem accept_no_inflation:
  fixes t :: transaction
  defines "outs \<equiv> sum_list (map (\<lambda>p. unat (out_value p)) (tx_outputs t))"
    and "ins \<equiv> sum_list (map (\<lambda>i. case in_prevout i of None \<Rightarrow> 0 | Some p \<Rightarrow> unat (out_value p)) (tx_inputs t))"
  assumes "\<not> tx_is_coinbase t" "list_all (\<lambda>i. in_prevout i \<noteq> None) (tx_inputs t)" "ins < max_size_t"
  shows "tx_accept t ctx = (if outs \<le> ins then tx_success else tx_code error_spend_exceeds_value) \<and>
    (outs \<le> ins \<longrightarrow> fee t = ins - outs)"
proof -
  have "\<not> is_missing_prevouts t" using assms(4) by (simp add: is_missing_prevouts_def list_ex_iff list_all_iff)
  moreover have "tx_value t = ins" using assms(5) by (simp add: tx_value_sum ins_def)
  moreover have "tx_spend t = min max_size_t outs" by (simp add: tx_spend_sum outs_def)
  ultimately show ?thesis using assms(3,5)
    by (auto simp: tx_accept_def is_overspent_def fee_def floored_subtract_def)
qed

theorem accept_no_inflation_witness:
  "tx_accept (example_transaction\<lparr>tx_inputs := map (\<lambda>i. i\<lparr>in_prevout :=
      Some (make_output 3500 (from_operations []) True)\<rparr>) (tx_inputs example_transaction)\<rparr>)
    \<lparr>ctx_flags = 0, ctx_timestamp = 0, ctx_median_time_past = 0, ctx_height = 0,
     ctx_minimum_block_version = 0, ctx_work_required = 0, ctx_previous_timestamp = 0\<rparr> = tx_success"
proof -
  let ?t = "example_transaction\<lparr>tx_inputs := map (\<lambda>i. i\<lparr>in_prevout :=
      Some (make_output 3500 (from_operations []) True)\<rparr>) (tx_inputs example_transaction)\<rparr>"
  have "\<not> tx_is_coinbase ?t"
    by (simp add: tx_is_coinbase_def example_transaction_def make_transaction_def make_input_def
        make_point_def is_null_def null_index_def max_uint32_def)
  then show ?thesis
    using accept_no_inflation [of ?t]
    by (simp add: example_transaction_def make_transaction_def make_input_def make_output_def limits)
qed

text \<open>
  Confirmation in terms of heights: a transaction confirms exactly when it is a coinbase, or
  no relative lock applies to it and every input spends an output confirmed at or below the
  height, not spent below it, and, if that output is of a coinbase, not of the genesis block and
  at least one hundred blocks deep.
\<close>

theorem confirm_success:
  assumes "ctx_height ctx < max_size_t"
  shows "tx_confirm t ctx = tx_success \<longleftrightarrow> tx_is_coinbase t \<or>
    \<not> (ctx_enabled ctx bip68_rule \<and>
      tx_is_relative_locked t (ctx_height ctx) (ctx_median_time_past ctx)) \<and>
    list_all (\<lambda>i. let m = in_metadata i in prevout_height m \<le> ctx_height ctx \<and>
      ctx_height ctx \<le> unat (prevout_spender_height m) \<and>
      (if prevout_coinbase m then prevout_height m \<noteq> 0 \<and> prevout_height m + 100 \<le> ctx_height ctx
       else True)) (tx_inputs t)"
proof -
  have mature: "is_coinbase_immature h (ctx_height ctx) \<longleftrightarrow> h = 0 \<or> ctx_height ctx < h + 100" for h
    using assms by (auto simp: is_coinbase_immature_def coinbase_maturity_def ceilinged_add_def)
  have all: "\<not> is_unconfirmed_spend t (ctx_height ctx) \<and> \<not> is_immature t (ctx_height ctx) \<and>
      \<not> is_confirmed_double_spend t (ctx_height ctx) \<longleftrightarrow>
    list_all (\<lambda>i. let m = in_metadata i in prevout_height m \<le> ctx_height ctx \<and>
      ctx_height ctx \<le> unat (prevout_spender_height m) \<and>
      (if prevout_coinbase m then prevout_height m \<noteq> 0 \<and> prevout_height m + 100 \<le> ctx_height ctx
       else True)) (tx_inputs t)"
    unfolding is_unconfirmed_spend_def is_immature_def is_confirmed_double_spend_def
      is_non_coinbase_immature_def mature Let_def list_ex_iff list_all_iff
    by (auto simp: not_less)
  show ?thesis unfolding all [symmetric] by (simp add: tx_confirm_def Let_def)
qed

theorem confirm_success_witness:
  "tx_confirm example_transaction
    \<lparr>ctx_flags = 0, ctx_timestamp = 0, ctx_median_time_past = 0, ctx_height = 5,
     ctx_minimum_block_version = 0, ctx_work_required = 0, ctx_previous_timestamp = 0\<rparr> \<noteq> tx_success"
  using confirm_success [of "\<lparr>ctx_flags = 0, ctx_timestamp = 0, ctx_median_time_past = 0, ctx_height = 5,
     ctx_minimum_block_version = 0, ctx_work_required = 0, ctx_previous_timestamp = 0\<rparr>" example_transaction]
  by (simp add: example_transaction_def make_transaction_def make_input_def make_point_def
      tx_is_coinbase_def is_null_def null_index_def default_prevout_def limits)

end
