(* ===== verification/Compact.thy ===== *)
theory Compact
  imports Streams Number
begin

text \<open>
  The compact form of proof of work targets (\<open>include/bitcoin/system/impl/chain/compact.ipp\<close> over
  \<open>base256e\<close>, the instance \<open>base2n<256, 24, 256>\<close> of \<open>include/bitcoin/system/radix/base_2n.hpp\<close>):
  a 24 bit mantissa and an exponent in base 256. Numbers are naturals; the 32 bit compact form is
  below \<open>2 ^ 32\<close> and the expanded number below \<open>2 ^ 256\<close>, and shifts of the latter are taken
  modulo \<open>2 ^ 256\<close>.
\<close>

section \<open>Base 256 exponentials\<close>

definition precision :: nat where "precision = 24"
definition span :: nat where "span = 256"
definition factor :: nat where "factor = 8"
definition e_max :: nat where "e_max = span div factor"
definition m_bytes :: nat where "m_bytes = precision div factor"

lemmas compact_constants = precision_def span_def factor_def e_max_def m_bytes_def

definition raise :: "nat \<Rightarrow> nat" where "raise exponent = exponent * factor"
definition lower :: "nat \<Rightarrow> nat" where "lower exponent = exponent div factor"

definition base256e_expand :: "nat \<Rightarrow> nat" where
  "base256e_expand exponential =
     (let shift = raise (exponential div 2 ^ precision); mantissa = exponential mod 2 ^ precision in
      if shift > span then 0
      else if shift > precision then (mantissa * 2 ^ (shift - precision)) mod 2 ^ span
      else mantissa div 2 ^ (precision - shift))"

definition base256e_compress :: "nat \<Rightarrow> nat" where
  "base256e_compress number =
     (if number = 0 then 0
      else let shift = raise (ceilinged_divide (bit_width number) factor);
               mantissa = (if shift > precision then number div 2 ^ (shift - precision)
                 else (number * 2 ^ (precision - shift)) mod 2 ^ span) mod 2 ^ 32
        in (lower shift * 2 ^ precision) OR mantissa)"

section \<open>Compact targets\<close>

record parsed =
  negative :: bool
  exponent :: nat
  mantissa :: nat

definition to_compact :: "nat \<Rightarrow> parsed" where
  "to_compact small = \<lparr>negative = bit small (precision - 1),
     exponent = (small div 2 ^ precision) mod 256, mantissa = small mod 2 ^ precision\<rparr>"

definition from_compact :: "parsed \<Rightarrow> nat" where
  "from_compact c = (exponent c * 2 ^ precision) OR mantissa c"

definition expand :: "nat \<Rightarrow> nat" where
  "expand exponential = (let c = to_compact exponential in
     if negative c then 0
     else if exponent c = e_max + 1 \<and> is_negated (mantissa c) \<and> byte_width (mantissa c) = m_bytes - 1
     then base256e_expand (from_compact (c\<lparr>exponent := exponent c - 1,
       mantissa := (mantissa c * 2 ^ raise 1) mod 2 ^ 32\<rparr>))
     else base256e_expand (from_compact c))"

definition compress :: "nat \<Rightarrow> nat" where
  "compress number = (let c = to_compact (base256e_compress number) in
     from_compact (if negative c
       then c\<lparr>exponent := (exponent c + 1) mod 256, mantissa := mantissa c div 2 ^ raise 1,
         negative := False\<rparr>
       else c))"

section \<open>Lemmas\<close>

lemma ceilinged_divide_le: "ceilinged_divide a 8 \<le> k \<longleftrightarrow> a \<le> 8 * k"
proof -
  have "a = 8 * (a div 8) + a mod 8" "a mod 8 < 8" by simp_all
  then show ?thesis unfolding ceilinged_divide_def by (cases "a mod 8 = 0"; simp; linarith)
qed

lemma byte_width_bits: "ceilinged_divide (bit_width n) 8 = byte_width n"
proof -
  have "byte_width n \<le> k \<longleftrightarrow> ceilinged_divide (bit_width n) 8 \<le> k" for k
    by (simp add: ceilinged_divide_le bit_width_le_iff byte_width_le_iff pow_256)
  then show ?thesis by (metis le_antisym order_refl)
qed

lemma or_disjoint: "m < 2 ^ k \<Longrightarrow> (e * 2 ^ k) OR m = e * 2 ^ k + (m :: nat)"
proof -
  assume m: "m < 2 ^ k"
  have "bit (e * 2 ^ k) i \<Longrightarrow> bit m i \<Longrightarrow> False" for i
  proof -
    assume "bit (e * 2 ^ k) i" "bit m i"
    moreover have "bit (push_bit k e) i \<Longrightarrow> k \<le> i" by (simp add: bit_push_bit_iff)
    moreover have "take_bit k m = m" using m by (simp add: take_bit_nat_eq_self)
    then have "bit m i \<Longrightarrow> i < k" by (metis bit_take_bit_iff)
    ultimately show False by (simp add: push_bit_eq_mult)
  qed
  then have "(e * 2 ^ k) AND m = 0" by (auto simp: bit_eq_iff bit_and_iff)
  then show ?thesis by (simp add: disjunctive_add_eq_or)
qed

text \<open>The fields of a compact number with exponent \<open>e\<close> and mantissa \<open>m\<close>.\<close>

abbreviation compact_of :: "nat \<Rightarrow> nat \<Rightarrow> nat" where
  "compact_of e m \<equiv> e * 2 ^ 24 + m"

lemma high_bit: "m < 2 ^ 24 \<Longrightarrow> bit (compact_of e m) 23 \<longleftrightarrow> 2 ^ 23 \<le> m"
proof -
  assume m: "m < 2 ^ 24"
  have "bit (compact_of e m) 23 \<longleftrightarrow> odd ((e * 2 ^ 24 + m) div 2 ^ 23)" by (simp add: bit_iff_odd)
  also have "(e * 2 ^ 24 + m) div 2 ^ 23 = 2 * e + m div 2 ^ 23"
    using div_mult_self3 [of "2 ^ 23" m "2 * e"] by (simp add: add.commute)
  also have "m div 2 ^ 23 = (if 2 ^ 23 \<le> m then 1 else 0)" using m by (simp add: div_nat_eqI)
  also have "odd (2 * e + \<dots>) \<longleftrightarrow> 2 ^ 23 \<le> m" by simp
  finally show ?thesis .
qed

lemma to_compact_of:
  assumes "m < 2 ^ 24" "e < 256"
  shows "to_compact (compact_of e m) = \<lparr>negative = 2 ^ 23 \<le> m, exponent = e, mantissa = m\<rparr>"
  using assms high_bit [OF assms(1), of e] by (simp add: to_compact_def compact_constants)

lemma from_compact_of: "m < 2 ^ 24 \<Longrightarrow> from_compact \<lparr>negative = b, exponent = e, mantissa = m\<rparr> = compact_of e m"
  using or_disjoint [of m 24 e] by (simp add: from_compact_def compact_constants)

lemma base256e_expand_of:
  assumes "m < 2 ^ 24" "e \<le> 32"
  shows "base256e_expand (compact_of e m) = (if e > 3 then m * 256 ^ (e - 3) else m div 256 ^ (3 - e))"
proof -
  have "m * 256 ^ (e - 3) < 2 ^ 256" if "e > 3"
  proof -
    have "m * 256 ^ (e - 3) < 2 ^ 24 * 256 ^ (e - 3)" using assms(1) by simp
    also have "\<dots> \<le> 2 ^ 24 * 256 ^ 29" using assms(2) by (intro mult_left_mono power_increasing) simp_all
    finally show ?thesis by simp
  qed
  moreover have "8 * e - 24 = 8 * (e - 3)" "24 - 8 * e = 8 * (3 - e)" by simp_all
  ultimately show ?thesis using assms
    by (simp add: base256e_expand_def compact_constants raise_def pow_256 mult.commute)
qed

text \<open>The mantissa that compression keeps: the three highest bytes.\<close>

definition top3 :: "nat \<Rightarrow> nat" where
  "top3 n = (if byte_width n > 3 then n div 256 ^ (byte_width n - 3) else n * 256 ^ (3 - byte_width n))"

lemma top3_bounds:
  assumes "0 < n"
  shows "2 ^ 16 \<le> top3 n" "top3 n < 2 ^ 24"
proof -
  let ?e = "byte_width n"
  have e: "0 < ?e" using assms by (metis byte_width_eq_zero neq0_conv)
  have lo: "256 ^ (?e - 1) \<le> n" and hi: "n < 256 ^ ?e"
    using e byte_width_ge_iff [of "?e - 1" n] less_byte_width [of n] by simp_all
  have "2 ^ 16 \<le> top3 n \<and> top3 n < 2 ^ 24"
  proof (cases "?e > 3")
    case True
    then obtain k where "?e = k + 3" by (metis less_imp_add_positive add.commute)
    then have "256 ^ (?e - 1) = (2 ^ 16 :: nat) * 256 ^ (?e - 3)" "256 ^ ?e = (2 ^ 24 :: nat) * 256 ^ (?e - 3)"
      by (simp_all add: power_add)
    with True lo hi show ?thesis
      by (simp add: top3_def less_eq_div_iff_mult_less_eq div_less_iff_less_mult mult.commute)
  next
    case False
    then consider "?e = 1" | "?e = 2" | "?e = 3" using e by linarith
    then show ?thesis using lo hi by cases (simp_all add: top3_def)
  qed
  then show "2 ^ 16 \<le> top3 n" "top3 n < 2 ^ 24" by simp_all
qed

lemma base256e_compress_of:
  assumes "0 < n" "n < 2 ^ 256"
  shows "base256e_compress n = compact_of (byte_width n) (top3 n)"
proof -
  let ?e = "byte_width n"
  have "?e * 8 - 24 = 8 * (?e - 3)" "24 - ?e * 8 = 8 * (3 - ?e)" by simp_all
  moreover have "n * 256 ^ (3 - ?e) < 2 ^ 256" if "\<not> ?e > 3"
    using top3_bounds(2) [OF assms(1)] that by (simp add: top3_def)
  ultimately have "(if ?e * 8 > 24 then n div 2 ^ (?e * 8 - 24)
      else (n * 2 ^ (24 - ?e * 8)) mod 2 ^ 256) mod 2 ^ 32 = top3 n"
    using top3_bounds(2) [OF assms(1)] by (auto simp: top3_def pow_256 [symmetric])
  then show ?thesis
    using assms or_disjoint [OF top3_bounds(2) [OF assms(1)], of ?e] byte_width_bits [of n]
    by (simp add: base256e_compress_def Let_def compact_constants raise_def lower_def split: if_splits)
qed

lemma byte_width_bound: "n < 2 ^ 256 \<Longrightarrow> byte_width n \<le> 32"
  by (simp add: byte_width_le_iff)

lemma compress_of:
  assumes "0 < n" "n < 2 ^ 256"
  shows "compress n = (if 2 ^ 23 \<le> top3 n then compact_of (byte_width n + 1) (top3 n div 256)
    else compact_of (byte_width n) (top3 n))"
proof -
  have e: "byte_width n \<le> 32" using assms(2) by (rule byte_width_bound)
  have "to_compact (base256e_compress n) =
      \<lparr>negative = 2 ^ 23 \<le> top3 n, exponent = byte_width n, mantissa = top3 n\<rparr>"
    using base256e_compress_of [OF assms] to_compact_of [OF top3_bounds(2) [OF assms(1)], of "byte_width n"] e
    by simp
  then show ?thesis
    using from_compact_of [OF top3_bounds(2) [OF assms(1)], of False "byte_width n"]
      from_compact_of [of "top3 n div 256" False "byte_width n + 1"] top3_bounds(2) [OF assms(1)] e
    by (simp add: compress_def raise_def compact_constants)
qed

text \<open>Two mantissa bytes with the high bit set: the form that the sign work-around produces.\<close>

lemma expand_of:
  assumes "m < 2 ^ 23" "e \<le> 32"
  shows "expand (compact_of e m) = (if e > 3 then m * 256 ^ (e - 3) else m div 256 ^ (3 - e))"
  using assms to_compact_of [of m e] from_compact_of [of m False e] base256e_expand_of [of m e]
  by (simp add: expand_def compact_constants)

lemma expand_33:
  assumes "2 ^ 15 \<le> m" "m < 2 ^ 16"
  shows "expand (compact_of 33 m) = m * 256 ^ 30"
proof -
  have "bit_width m = 16" using bit_width_eqI [of 15 m] assms by simp
  then have "is_negated m" using assms by (simp add: is_negated_def)
  moreover have "byte_width m = 2"
    using byte_width_le_iff [of m 2] byte_width_ge_iff [of 1 m] assms by simp
  ultimately have "expand (compact_of 33 m) = base256e_expand (compact_of 32 (m * 256))"
    using assms to_compact_of [of m 33] from_compact_of [of "m * 256" False 32]
    by (simp add: expand_def compact_constants raise_def)
  then show ?thesis using base256e_expand_of [of "m * 256" 32] assms by simp
qed

text \<open>What expansion gives back: the number with its low bytes cleared.\<close>

definition kept :: "nat \<Rightarrow> nat" where
  "kept n = byte_width n - (if 2 ^ 23 \<le> top3 n then 2 else 3)"

lemma top3_div: "byte_width n > 3 \<Longrightarrow> top3 n = n div 256 ^ (byte_width n - 3)"
  by (simp add: top3_def)

lemma expand_compress_kept:
  assumes "0 < n" "n < 2 ^ 256"
  shows "expand (compress n) = n div 256 ^ kept n * 256 ^ kept n"
proof (cases "2 ^ 23 \<le> top3 n")
  case False
  then show ?thesis
    using expand_of [of "top3 n" "byte_width n"] compress_of [OF assms] byte_width_bound [OF assms(2)]
    by (auto simp: kept_def top3_def)
next
  case True
  let ?e = "byte_width n" and ?m = "top3 n div 256"
  have m: "2 ^ 15 \<le> ?m" "?m < 2 ^ 16" using True top3_bounds(2) [OF assms(1)] by simp_all
  have c: "compress n = compact_of (?e + 1) ?m" using compress_of [OF assms] True by simp
  have e: "?e \<le> 32" "0 < ?e"
    using byte_width_bound [OF assms(2)] assms(1) by (simp, metis byte_width_eq_zero neq0_conv)
  have big: "?m = n div 256 ^ (?e - 2)" if "?e > 3"
  proof -
    have "Suc (?e - 3) = ?e - 2" using that by simp
    then have "(256 :: nat) ^ (?e - 3) * 256 = 256 ^ (?e - 2)"
      using power_Suc [of "256 :: nat" "?e - 3"] by (simp add: mult.commute)
    then show ?thesis using top3_div [OF that] by (simp add: div_mult2_eq [symmetric])
  qed
  consider "?e = 32" | "3 < ?e" "?e < 32" | "?e = 3" | "?e = 2" | "?e = 1" using e by linarith
  then show ?thesis
  proof cases
    case 1
    then show ?thesis using expand_33 [OF m] c big True by (simp add: kept_def)
  next
    case 2
    then have "?e + 1 - 3 = ?e - 2" by simp
    then show ?thesis using expand_of [of ?m "?e + 1"] 2 m(2) c big True by (simp add: kept_def)
  qed (use expand_of [of ?m "?e + 1"] m(2) c True in \<open>auto simp: kept_def top3_def\<close>)
qed

lemma byte_width_truncate:
  assumes "k < byte_width n"
  shows "byte_width (n div 256 ^ k * 256 ^ k) = byte_width n"
proof -
  let ?e = "byte_width n" and ?t = "n div 256 ^ k * 256 ^ k"
  have "256 ^ (?e - 1) \<le> n" using assms byte_width_ge_iff [of "?e - 1" n] by simp
  moreover have split: "(256 :: nat) ^ (?e - 1) = 256 ^ (?e - 1 - k) * 256 ^ k"
    using assms by (simp add: power_add [symmetric])
  ultimately have "256 ^ (?e - 1 - k) \<le> n div 256 ^ k" by (simp add: less_eq_div_iff_mult_less_eq)
  then have lo: "256 ^ (?e - 1) \<le> ?t" unfolding split by (rule mult_le_mono1)
  have "?t \<le> n" by simp
  then have "?t < 256 ^ ?e" using less_byte_width [of n] by linarith
  then have "byte_width ?t \<le> ?e" by (simp add: byte_width_le_iff)
  moreover have "?e - 1 < byte_width ?t" using lo by (simp add: byte_width_ge_iff)
  ultimately show ?thesis by simp
qed

lemma top3_truncate:
  assumes "0 < n"
  shows "top3 (n div 256 ^ kept n * 256 ^ kept n) =
    (if 2 ^ 23 \<le> top3 n then top3 n div 256 * 256 else top3 n)"
proof -
  let ?e = "byte_width n" and ?t = "n div 256 ^ kept n * 256 ^ kept n"
  have e: "0 < ?e" using assms by (metis byte_width_eq_zero neq0_conv)
  then have w: "byte_width ?t = ?e" by (intro byte_width_truncate) (simp add: kept_def)
  show ?thesis
  proof (cases "?e > 3")
    case True
    then obtain j where j: "?e = j + 3" "0 < j" by (metis less_imp_add_positive add.commute)
    show ?thesis
    proof (cases "2 ^ 23 \<le> top3 n")
      case True
      let ?q = "n div (256 ^ j * 256)"
      have k: "kept n = Suc j" using True j by (simp add: kept_def)
      have "top3 n div 256 = ?q" using j by (simp add: top3_def div_mult2_eq)
      moreover have "?t = 256 ^ j * (?q * 256)" by (simp add: k mult.commute mult.left_commute)
      then have "top3 ?t = ?q * 256" using w j by (simp add: top3_def)
      ultimately show ?thesis using True by simp
    next
      case False
      with j w show ?thesis by (simp add: top3_def kept_def)
    qed
  next
    case False
    then consider "?e = 3" | "?e = 2" | "?e = 1" using e by linarith
    then show ?thesis using w by cases (auto simp: top3_def kept_def)
  qed
qed

section \<open>Properties\<close>

text \<open>
  Compact targets lose precision only downwards and only once: expanding the compact form of
  a 256 bit number gives the number with all but its three highest bytes cleared (its two highest
  when the top bit would be taken for a sign), and compressing that again gives the same compact
  form.
\<close>

theorem compact_roundtrip:
  assumes "0 < n" "n < 2 ^ 256"
  shows "expand (compress n) = n div 256 ^ kept n * 256 ^ kept n \<and> expand (compress n) \<le> n \<and>
    compress (expand (compress n)) = compress n"
proof -
  let ?t = "n div 256 ^ kept n * 256 ^ kept n"
  have t: "expand (compress n) = ?t" by (rule expand_compress_kept [OF assms])
  have le: "?t \<le> n" by simp
  have e: "0 < byte_width n" using assms(1) by (metis byte_width_eq_zero neq0_conv)
  then have w: "byte_width ?t = byte_width n" by (intro byte_width_truncate) (simp add: kept_def)
  then have "0 < ?t" using e by (metis byte_width_eq_zero neq0_conv)
  moreover have "?t < 2 ^ 256" using le assms(2) by linarith
  moreover have "2 ^ 23 \<le> top3 n \<Longrightarrow> 2 ^ 23 \<le> top3 n div 256 * 256"
    using div_le_mono [of "2 ^ 23" "top3 n" 256] by simp
  ultimately have "compress ?t = compress n"
    using compress_of [of ?t] compress_of [OF assms] w top3_truncate [OF assms(1)]
    by (cases "2 ^ 23 \<le> top3 n") simp_all
  with t le show ?thesis by simp
qed

theorem compact_roundtrip_witness:
  "compress (expand (compress 0x80ff12)) = compress 0x80ff12"
proof -
  have "0 < (0x80ff12 :: nat)" "0x80ff12 < (2 :: nat) ^ 256" by simp_all
  from compact_roundtrip [OF this] show ?thesis by blast
qed

end
