(* ===== verification/Header.thy ===== *)
theory Header
  imports Transaction Compact
begin

text \<open>
  Block headers (\<open>src/chain/header.cpp\<close>, \<open>include/bitcoin/system/chain/header.hpp\<close>): their
  serialization, the work a header proves, and its context free and contextual validation. The
  hash functions are arguments, and so is the wall clock; the cached hash and chain state are not
  modelled, as they do not change a result.
\<close>

section \<open>Headers\<close>

record header =
  hdr_version :: u32
  hdr_previous_block_hash :: hash_digest
  hdr_merkle_root :: hash_digest
  hdr_timestamp :: u32
  hdr_bits :: u32
  hdr_nonce :: u32
  hdr_valid :: bool

definition header_equal :: "header \<Rightarrow> header \<Rightarrow> bool" where
  "header_equal a b \<longleftrightarrow> hdr_version a = hdr_version b \<and>
     hdr_previous_block_hash a = hdr_previous_block_hash b \<and>
     hdr_merkle_root a = hdr_merkle_root b \<and> hdr_timestamp a = hdr_timestamp b \<and>
     hdr_bits a = hdr_bits b \<and> hdr_nonce a = hdr_nonce b"

definition header_from_data :: "reader \<Rightarrow> header \<times> reader" where
  "header_from_data r =
     (let (version, r1) = read_little_endian 4 r;
          (previous_block_hash, r2) = read_hash r1;
          (merkle_root, r3) = read_hash r2;
          (timestamp, r4) = read_little_endian 4 r3;
          (bits, r5) = read_little_endian 4 r4;
          (nonce, r6) = read_little_endian 4 r5
      in (\<lparr>hdr_version = word_of_nat version, hdr_previous_block_hash = previous_block_hash,
            hdr_merkle_root = merkle_root, hdr_timestamp = word_of_nat timestamp,
            hdr_bits = word_of_nat bits, hdr_nonce = word_of_nat nonce, hdr_valid = rgood r6\<rparr>, r6))"

definition header_to_data :: "header \<Rightarrow> data_chunk" where
  "header_to_data h = write_little_endian 4 (unat (hdr_version h)) @ hdr_previous_block_hash h @
     hdr_merkle_root h @ write_little_endian 4 (unat (hdr_timestamp h)) @
     write_little_endian 4 (unat (hdr_bits h)) @ write_little_endian 4 (unat (hdr_nonce h))"

definition header_serialized_size :: nat where
  "header_serialized_size = 4 + hash_size + hash_size + 4 + 4 + 4"

definition header_ok :: "header \<Rightarrow> bool" where
  "header_ok h \<longleftrightarrow> hdr_valid h \<and> length (hdr_previous_block_hash h) = hash_size \<and>
     length (hdr_merkle_root h) = hash_size"

section \<open>Work\<close>

type_synonym u256 = "256 word"

definition proof_of :: "u32 \<Rightarrow> u256" where
  "proof_of bits = (let target = word_of_nat (expand (unat bits)) in
     if target = 0 then target else NOT target div (target + 1) + 1)"

definition header_proof :: "header \<Rightarrow> u256" where
  "header_proof h = proof_of (hdr_bits h)"

definition header_hash :: "(data_chunk \<Rightarrow> hash_digest) \<Rightarrow> header \<Rightarrow> hash_digest" where
  "header_hash bitcoin_hash h = bitcoin_hash (header_to_data h)"

definition to_uintx :: "hash_digest \<Rightarrow> nat" where
  "to_uintx hash = le_value hash"

definition is_invalid_proof_of_work ::
  "(data_chunk \<Rightarrow> hash_digest) \<Rightarrow> (data_chunk \<Rightarrow> hash_digest) \<Rightarrow> header \<Rightarrow> u32 \<Rightarrow> bool \<Rightarrow> bool" where
  "is_invalid_proof_of_work bitcoin_hash scrypt_hash h proof_of_work_limit scrypt =
     (let limit = expand (unat proof_of_work_limit); target = expand (unat (hdr_bits h)) in
      if target = 0 then True
      else if target > limit then True
      else to_uintx (if scrypt then scrypt_hash (header_to_data h) else header_hash bitcoin_hash h) > target)"

definition is_futuristic_timestamp :: "u32 \<Rightarrow> u32 \<Rightarrow> u64 \<Rightarrow> bool" where
  "is_futuristic_timestamp timestamp timestamp_limit_seconds now \<longleftrightarrow>
     (ucast timestamp :: u64) > now + ucast timestamp_limit_seconds"

section \<open>Validation\<close>

definition header_check :: "(data_chunk \<Rightarrow> hash_digest) \<Rightarrow> (data_chunk \<Rightarrow> hash_digest) \<Rightarrow> u64 \<Rightarrow>
  header \<Rightarrow> u32 \<Rightarrow> u32 \<Rightarrow> bool \<Rightarrow> code" where
  "header_check bitcoin_hash scrypt_hash now h timestamp_limit_seconds proof_of_work_limit scrypt =
     first_error (block_code error_block_success)
      [(is_invalid_proof_of_work bitcoin_hash scrypt_hash h proof_of_work_limit scrypt,
          block_code error_invalid_proof_of_work),
       (is_futuristic_timestamp (hdr_timestamp h) timestamp_limit_seconds now,
          block_code error_futuristic_timestamp)]"

definition header_accept :: "header \<Rightarrow> chain_context \<Rightarrow> nat \<Rightarrow> code" where
  "header_accept h ctx retargeting_interval =
     first_error (block_code error_block_success)
      [(is_insufficient_version ctx (hdr_version h), block_code error_insufficient_block_version),
       (is_anachronistic_timestamp ctx (hdr_timestamp h), block_code error_anachronistic_timestamp),
       (is_invalid_work ctx (hdr_bits h), block_code error_incorrect_proof_of_work),
       (is_early_timestamp ctx retargeting_interval, block_code error_early_timestamp)]"

section \<open>Serialization\<close>

lemma header_from_data_sticky: "rgood (snd (header_from_data r)) \<Longrightarrow> rgood r"
  by (auto simp: header_from_data_def case_prod_beta dest!: read_little_endian_sticky read_hash_sticky)

lemma header_from_data_roundtrip:
  assumes "header_ok h" "feeds r (header_to_data h)"
  shows "fst (header_from_data r) = h \<and> moved r (length (header_to_data h)) (snd (header_from_data r))"
proof -
  have len: "length (hdr_previous_block_hash h) = hash_size" "length (hdr_merkle_root h) = hash_size"
    using assms(1) by (simp_all add: header_ok_def)
  note f1 = assms(2) [unfolded header_to_data_def]
  note r1 = read_word_moved [OF feeds_appendD [OF f1]]
  have m1: "moved r (length (write_little_endian 4 (unat (hdr_version h)))) (advance 4 r)"
    using r1(2) by (simp add: write_little_endian_def)
  note f2 = feeds_moved [OF f1 m1]
  note r2 = read_hash_moved [OF feeds_appendD [OF f2] len(1)]
  note f3 = feeds_moved [OF f2 r2(2)]
  note r3 = read_hash_moved [OF feeds_appendD [OF f3] len(2)]
  note f4 = feeds_moved [OF f3 r3(2)]
  note r4 = read_word_moved [OF feeds_appendD [OF f4]]
  have m4: "moved (advance hash_size (advance hash_size (advance 4 r)))
      (length (write_little_endian 4 (unat (hdr_timestamp h))))
      (advance 4 (advance hash_size (advance hash_size (advance 4 r))))"
    using r4(2) by (simp add: write_little_endian_def)
  note f5 = feeds_moved [OF f4 m4]
  note r5 = read_word_moved [OF feeds_appendD [OF f5]]
  have m5: "moved (advance 4 (advance hash_size (advance hash_size (advance 4 r))))
      (length (write_little_endian 4 (unat (hdr_bits h))))
      (advance 4 (advance 4 (advance hash_size (advance hash_size (advance 4 r)))))"
    using r5(2) by (simp add: write_little_endian_def)
  note r6 = read_word_moved [OF feeds_moved [OF f5 m5]]
  have m: "moved r (length (header_to_data h))
      (advance 4 (advance 4 (advance 4 (advance hash_size (advance hash_size (advance 4 r))))))"
    using moved_trans [OF m1 moved_trans [OF r2(2) moved_trans [OF r3(2) moved_trans [OF m4
        moved_trans [OF m5 r6(2)]]]]] len
    by (simp add: header_to_data_def write_little_endian_def)
  show ?thesis using r1(1) r2(1) r3(1) r4(1) r5(1) r6(1) m moved_good [OF m] assms(1)
    by (cases h) (auto simp: header_from_data_def header_ok_def)
qed

lemma header_from_data_canonical:
  assumes "ready r" "header_from_data r = (h, s)" "rgood s"
  shows "header_ok h \<and> consumed r (header_to_data h) s"
proof -
  obtain v r1 where v: "read_little_endian 4 r = (v, r1)" by fastforce
  obtain p r2 where p: "read_hash r1 = (p, r2)" by fastforce
  obtain m r3 where m: "read_hash r2 = (m, r3)" by fastforce
  obtain t r4 where t: "read_little_endian 4 r3 = (t, r4)" by fastforce
  obtain b r5 where b: "read_little_endian 4 r4 = (b, r5)" by fastforce
  obtain n where n: "read_little_endian 4 r5 = (n, s)" and h:
    "h = \<lparr>hdr_version = word_of_nat v, hdr_previous_block_hash = p, hdr_merkle_root = m,
       hdr_timestamp = word_of_nat t, hdr_bits = word_of_nat b, hdr_nonce = word_of_nat n,
       hdr_valid = True\<rparr>"
    using assms(2,3) v p m t b by (auto simp: header_from_data_def split: prod.splits)
  have g5: "rgood r5" using read_little_endian_sticky [of 4 r5] n assms(3) by simp
  have g4: "rgood r4" using read_little_endian_sticky [of 4 r4] b g5 by simp
  have g3: "rgood r3" using read_little_endian_sticky [of 4 r3] t g4 by simp
  have g2: "rgood r2" using read_hash_sticky [of r2] m g3 by simp
  have g1: "rgood r1" using read_hash_sticky [of r1] p g2 by simp
  have c1: "consumed r (write_little_endian 4 (unat (word_of_nat v :: u32))) r1"
    by (rule read_word_good [OF assms(1) v g1]) simp
  note c2 = read_hash_good [OF consumed_ready [OF c1 g1] p g2]
  note c3 = read_hash_good [OF consumed_ready [OF c2(1) g2] m g3]
  have c4: "consumed r3 (write_little_endian 4 (unat (word_of_nat t :: u32))) r4"
    by (rule read_word_good [OF consumed_ready [OF c3(1) g3] t g4]) simp
  have c5: "consumed r4 (write_little_endian 4 (unat (word_of_nat b :: u32))) r5"
    by (rule read_word_good [OF consumed_ready [OF c4 g4] b g5]) simp
  have c6: "consumed r5 (write_little_endian 4 (unat (word_of_nat n :: u32))) s"
    by (rule read_word_good [OF consumed_ready [OF c5 g5] n assms(3)]) simp
  note consumed_trans [OF c1 consumed_trans [OF c2(1) consumed_trans [OF c3(1)
    consumed_trans [OF c4 consumed_trans [OF c5 c6]]]]]
  with c2(2) c3(2) h show ?thesis by (simp add: header_ok_def header_to_data_def)
qed

interpretation header_codec: canonical_codec header_to_data header_from_data header_ok
  by unfold_locales
    (rule header_from_data_roundtrip header_from_data_sticky header_from_data_canonical; assumption)+

lemma header_to_data_size: "header_ok h \<Longrightarrow> length (header_to_data h) = header_serialized_size"
  by (simp add: header_ok_def header_to_data_def header_serialized_size_def write_little_endian_def)

section \<open>Targets\<close>

text \<open>
  The three shapes of an expanded target: nothing (a sign, or an exponent beyond the range), a
  mantissa of at most 23 bits shifted by at most 29 bytes, or the two byte mantissa of exponent 33.
\<close>

lemma expand_cases:
  assumes "c < 2 ^ 32"
  obtains "expand c = 0"
  | m e where "m < 2 ^ 23" "e \<le> 32" "expand c = (if e > 3 then m * 256 ^ (e - 3) else m div 256 ^ (3 - e))"
  | m where "2 ^ 15 \<le> m" "m < 2 ^ 16" "expand c = m * 256 ^ 30"
proof -
  define e where "e = c div 2 ^ 24"
  define m where "m = c mod 2 ^ 24"
  have c: "c = compact_of e m" and m: "m < 2 ^ 24" by (simp_all add: e_def m_def)
  have e: "e < 256" using assms by (simp add: e_def)
  note tc = to_compact_of [OF m e]
  consider "2 ^ 23 \<le> m" | "m < 2 ^ 23" "e \<le> 32" | "m < 2 ^ 23" "e = 33" "is_negated m" "byte_width m = 2"
    | "m < 2 ^ 23" "32 < e" "\<not> (e = 33 \<and> is_negated m \<and> byte_width m = 2)" by linarith
  then show thesis
  proof cases
    case 1 then show thesis using that(1) tc c by (simp add: expand_def)
  next
    case 2 then show thesis using that(2) [OF 2] expand_of [OF 2] c by simp
  next
    case 3
    have u: "m < 2 ^ 16" using byte_width_le_iff [of m 2] 3(4) by simp
    have "2 ^ 8 \<le> m" using byte_width_ge_iff [of 1 m] 3(4) by simp
    then have "8 < bit_width m" using bit_width_le_iff [of m 8] by simp
    moreover have "bit_width m \<le> 16" using u by (simp add: bit_width_le_iff)
    moreover have "bit_width m mod 8 = 0" using 3(3) by (simp add: is_negated_def)
    ultimately have "bit_width m = 16" by presburger
    then have "2 ^ 15 \<le> m" using bit_width_le_iff [of m 15] by simp
    then show thesis using that(3) [OF _ u] expand_33 [OF _ u] c 3(2) by simp
  next
    case 4
    have "expand c = base256e_expand c"
      using tc c 4 from_compact_of [OF m, of False e] by (auto simp: expand_def compact_constants Let_def)
    also have "\<dots> = 0" using 4(2) m by (simp add: base256e_expand_def c compact_constants raise_def)
    finally show thesis by (rule that(1))
  qed
qed

lemma expand_bound: "c < 2 ^ 32 \<Longrightarrow> expand c < 2 ^ 256 - 1"
proof (erule expand_cases)
  fix m e assume a: "m < 2 ^ 23" "e \<le> (32 :: nat)"
    and x: "expand c = (if e > 3 then m * 256 ^ (e - 3) else m div 256 ^ (3 - e))"
  have "m * 256 ^ (e - 3) < 2 ^ 23 * 256 ^ (e - 3)" using a(1) by simp
  also have "\<dots> \<le> 2 ^ 23 * 256 ^ 29" using a(2) by (intro mult_left_mono power_increasing) simp_all
  finally have "m * 256 ^ (e - 3) < 2 ^ 255" by simp
  moreover have "m div 256 ^ (3 - e) < 2 ^ 255"
    by (rule le_less_trans [OF div_le_dividend]) (use a(1) in simp)
  ultimately have "expand c < 2 ^ 255" using x by simp
  then show ?thesis by simp
qed simp_all

lemma unat_complement: "unat (NOT w) = 2 ^ LENGTH('a) - 1 - unat w" for w :: "'a::len word"
proof -
  have "NOT w = - 1 - w" by (simp add: not_eq_complement)
  moreover have "w \<le> - 1" by (rule word_n1_ge)
  ultimately show ?thesis by (simp add: unat_sub unsigned_minus_1_eq_mask mask_eq_exp_minus_1)
qed

lemma proof_of_unat:
  "unat (proof_of bits) =
     (if expand (unat bits) = 0 then 0 else 2 ^ 256 div (expand (unat bits) + 1)) \<and>
   (word_of_nat (expand (unat bits)) + 1 :: u256) \<noteq> 0"
proof -
  let ?t = "expand (unat bits)"
  let ?w = "word_of_nat ?t :: u256"
  have b: "?t < 2 ^ 256 - 1" using unsigned_less [of bits] by (intro expand_bound) simp
  then have w: "unat ?w = ?t" by (simp add: unat_of_nat)
  have w1: "unat (?w + 1) = ?t + 1" using b w by (simp add: unat_word_ariths)
  have nt: "unat (NOT ?w) = 2 ^ 256 - 1 - ?t" using w by (simp add: unat_complement)
  have "unat (NOT ?w div (?w + 1)) = (2 ^ 256 - 1 - ?t) div (?t + 1)"
    using w1 nt by (simp add: unat_div)
  moreover have "2 ^ 256 = (2 ^ 256 - 1 - ?t) + (?t + 1)" using b by simp
  then have q: "2 ^ 256 div (?t + 1) = (2 ^ 256 - 1 - ?t) div (?t + 1) + 1"
    by (metis add.commute add_gr_0 div_add_self1 less_numeral_extra(1) not_gr_zero add_is_0 one_neq_zero)
  moreover have "2 ^ 256 div (?t + 1) < 2 ^ 256" if "?t \<noteq> 0"
    using that by (intro div_less_dividend) simp_all
  ultimately have "unat (NOT ?w div (?w + 1) + 1) = 2 ^ 256 div (?t + 1)" if "?t \<noteq> 0"
    using that by (simp add: unat_word_ariths)
  moreover have "?w = 0 \<longleftrightarrow> ?t = 0" using w by (metis unat_eq_zero unat_0)
  moreover have "?w + 1 \<noteq> 0" using w1 by (metis add_is_0 one_neq_zero unat_0)
  ultimately show ?thesis by (simp add: proof_of_def Let_def)
qed

text \<open>
  The work of a header. The proof computed at 256 bits, by complement, addition and division
  that wrap, is the quotient of \<open>2 ^ 256\<close>, a number those bits cannot hold, by the target plus
  one, and zero exactly for a target of zero. The division never fails: no target is
  \<open>2 ^ 256 - 1\<close>.
\<close>

theorem proof_is_work:
  "unat (proof_of bits) =
     (if expand (unat bits) = 0 then 0 else 2 ^ 256 div (expand (unat bits) + 1)) \<and>
   (word_of_nat (expand (unat bits)) + 1 :: u256) \<noteq> 0"
  by (rule proof_of_unat)

section \<open>Validation\<close>

lemma unat_widened: "unat (ucast x :: u64) = unat x" for x :: u32
proof -
  have "unat x < 2 ^ LENGTH(32)" by (rule unsigned_less)
  then have "unat x < 2 ^ 64" by simp
  then show ?thesis by (simp only: unsigned_ucast_eq len_num0 len_num1 len_bit0 len_bit1)
      (simp add: take_bit_nat_eq_self)
qed

text \<open>
  A header that passes its check has a target of at least one and at most the limit, its hash
  as a little endian number does not exceed the target, the work it proves is not less than the
  work of the limit, and its time is at most the clock's plus the limit in seconds (the clock being
  a number of seconds that does not reach the end of 64 bits).
\<close>

theorem header_check_work:
  assumes "\<not> failed (header_check bitcoin_hash scrypt_hash now h seconds limit scrypt)"
    and "unat now + unat seconds < 2 ^ 64"
  shows "0 < expand (unat (hdr_bits h)) \<and> expand (unat (hdr_bits h)) \<le> expand (unat limit) \<and>
    le_value ((if scrypt then scrypt_hash else bitcoin_hash) (header_to_data h))
      \<le> expand (unat (hdr_bits h)) \<and>
    unat (proof_of limit) \<le> unat (header_proof h) \<and>
    unat (hdr_timestamp h) \<le> unat now + unat seconds"
proof -
  let ?t = "expand (unat (hdr_bits h))"
  have t: "?t \<noteq> 0" "?t \<le> expand (unat limit)"
    "le_value ((if scrypt then scrypt_hash else bitcoin_hash) (header_to_data h)) \<le> ?t"
    "\<not> is_futuristic_timestamp (hdr_timestamp h) seconds now"
    using assms(1) by (auto simp: header_check_def is_invalid_proof_of_work_def Let_def
        header_hash_def to_uintx_def split: if_splits)
  have "2 ^ 256 div (expand (unat limit) + 1) \<le> 2 ^ 256 div (?t + 1)"
    using t(2) by (intro div_le_mono2) simp_all
  then have "unat (proof_of limit) \<le> unat (header_proof h)"
    using proof_of_unat [of limit] proof_of_unat [of "hdr_bits h"] t(1,2)
    by (simp add: header_proof_def)
  moreover have "unat (hdr_timestamp h) \<le> unat now + unat seconds"
    using t(4) assms(2) by (simp add: is_futuristic_timestamp_def not_less word_le_nat_alt
        unat_word_ariths unat_widened)
  ultimately show ?thesis using t by simp
qed

text \<open>A header of 2 seconds after the epoch under the limit of the regression test network.\<close>

definition example_header :: header where
  "example_header = \<lparr>hdr_version = 1, hdr_previous_block_hash = null_hash,
     hdr_merkle_root = null_hash, hdr_timestamp = 2, hdr_bits = 0x207fffff, hdr_nonce = 0,
     hdr_valid = True\<rparr>"

theorem header_check_work_witness:
  "\<not> failed (header_check (\<lambda>_. null_hash) (\<lambda>_. null_hash) 1 example_header 7200 0x207fffff False) \<and>
   0 < expand (unat (hdr_bits example_header))"
proof -
  have e: "expand 0x207fffff \<noteq> 0" using expand_of [of "0x7fffff" 32] by simp
  have "le_value null_hash = 0" by code_simp
  with e have c: "\<not> failed (header_check (\<lambda>_. null_hash) (\<lambda>_. null_hash) 1 example_header 7200 0x207fffff False)"
    by (simp add: header_check_def is_invalid_proof_of_work_def Let_def header_hash_def
        to_uintx_def example_header_def is_futuristic_timestamp_def)
  from header_check_work [OF c] c show ?thesis by simp
qed

end
