(* ===== verification/Merkle.thy ===== *)
theory Merkle
  imports Streams
begin

text \<open>
  Merkle trees: the root computed in place over a vector of digests
  (\<open>include/bitcoin/system/impl/hash/sha/algorithm_merkle.ipp\<close>, the normal form that the
  vectorized forms fall back to), the branch of a leaf, and the tests for a block's malleation by
  cloned nodes (\<open>src/chain/block.cpp\<close>). The hash of two digests is an argument, and digests are
  of any type, so that the same functions build the free tree over the leaves.
\<close>

section \<open>Root and branch\<close>

text \<open>
  The loop of \<open>merkle_hash_\<close>: a digest is overwritten with the hash of a pair that starts at twice
  its position.
\<close>

function merkle_hash_loop :: "('a \<Rightarrow> 'a \<Rightarrow> 'a) \<Rightarrow> nat \<Rightarrow> nat \<Rightarrow> 'a list \<Rightarrow> 'a list" where
  "merkle_hash_loop double_hash i blocks digests =
     (if i < blocks
      then merkle_hash_loop double_hash (i + 1) blocks
        (digests[i := double_hash (digests ! (i * 2)) (digests ! (i * 2 + 1))])
      else take blocks digests)"
  by pat_completeness auto
termination by (relation "measure (\<lambda>(_, i, blocks, _). blocks - i)") auto

declare merkle_hash_loop.simps [simp del]

definition merkle_hash :: "('a \<Rightarrow> 'a \<Rightarrow> 'a) \<Rightarrow> 'a list \<Rightarrow> 'a list" where
  "merkle_hash double_hash digests = merkle_hash_loop double_hash 0 (length digests div 2) digests"

definition push_odd :: "'a list \<Rightarrow> 'a list" where
  "push_odd digests = (if odd (length digests) then digests @ [last digests] else digests)"

lemma length_merkle_hash_loop: "length (merkle_hash_loop H i b ds) = min b (length ds)"
  by (induction H i b ds rule: merkle_hash_loop.induct) (subst merkle_hash_loop.simps, simp add: min.commute)

lemma length_merkle_hash: "length (merkle_hash H ds) = length ds div 2"
  by (simp add: merkle_hash_def length_merkle_hash_loop min_def)

lemma length_push_odd: "length (push_odd ds) = 2 * ((length ds + 1) div 2)"
  by (simp add: push_odd_def odd_iff_mod_2_eq_one)

function merkle_reduce :: "('a \<Rightarrow> 'a \<Rightarrow> 'a) \<Rightarrow> 'a list \<Rightarrow> 'a list" where
  "merkle_reduce double_hash digests =
     (if length digests \<le> 1 then digests
      else merkle_reduce double_hash (merkle_hash double_hash (push_odd digests)))"
  by pat_completeness auto
termination
  by (relation "measure (\<lambda>(_, digests). length digests)")
    (auto simp: length_merkle_hash length_push_odd)

declare merkle_reduce.simps [simp del]

definition merkle_root :: "('a \<Rightarrow> 'a \<Rightarrow> 'a) \<Rightarrow> 'a \<Rightarrow> 'a list \<Rightarrow> 'a" where
  "merkle_root double_hash null digests =
     (if digests = [] then null else hd (merkle_reduce double_hash digests))"

function merkle_branch_loop :: "('a \<Rightarrow> 'a \<Rightarrow> 'a) \<Rightarrow> nat \<Rightarrow> 'a list \<Rightarrow> 'a list" where
  "merkle_branch_loop double_hash at leaves =
     (if length leaves > 1
      then let pushed = push_odd leaves
        in pushed ! (if even at then at + 1 else at - 1) #
           merkle_branch_loop double_hash (at div 2) (merkle_hash double_hash pushed)
      else [])"
  by pat_completeness auto
termination
  by (relation "measure (\<lambda>(_, _, leaves). length leaves)")
    (auto simp: length_merkle_hash length_push_odd)

declare merkle_branch_loop.simps [simp del]

definition merkle_branch :: "('a \<Rightarrow> 'a \<Rightarrow> 'a) \<Rightarrow> nat \<Rightarrow> 'a list \<Rightarrow> 'a list" where
  "merkle_branch double_hash position leaves =
     (if position \<ge> length leaves then [] else merkle_branch_loop double_hash position leaves)"

section \<open>Malleation\<close>

definition is_power2 :: "nat \<Rightarrow> bool" where
  "is_power2 v \<longleftrightarrow> v \<noteq> 0 \<and> v AND (v - 1) = 0"

definition is_malleable32_width :: "nat \<Rightarrow> nat \<Rightarrow> bool" where
  "is_malleable32_width leaves width =
     (if \<not> is_power2 width then False
      else let count = ceilinged_divide leaves width in odd count \<and> count \<noteq> 1)"

function merkle_index_loop :: "nat \<Rightarrow> nat \<Rightarrow> nat \<Rightarrow> nat \<Rightarrow> nat" where
  "merkle_index_loop base position count width =
     (if count < width
      then let width' = width div 2
        in if count \<le> width' then merkle_index_loop base (position mod width') count width'
           else if position < width' then base + position
           else merkle_index_loop (base + width') (position - width') (count - width') width'
      else base + position)"
  by pat_completeness auto
termination by (relation "measure (\<lambda>(_, _, _, width). width)") auto

declare merkle_index_loop.simps [simp del]

definition merkle_index :: "nat \<Rightarrow> nat \<Rightarrow> nat \<Rightarrow> nat" where
  "merkle_index position count width = merkle_index_loop 0 position count width"

definition is_malleated32_width :: "'a list \<Rightarrow> nat \<Rightarrow> bool" where
  "is_malleated32_width txids width =
     (let malleated = length txids in
      if \<not> is_power2 width \<or> width > malleated div 2 then False
      else let count = ceilinged_divide malleated width in
        if odd count \<or> count \<le> 2 then False
        else let last = (count - 1) * width; prior = last - width; leaves = malleated - last
          in list_all (\<lambda>at. txids ! (last + merkle_index at leaves width) = txids ! (prior + at))
               [0..<width])"

text \<open>The loop over the widths, which stops at the first width that the test holds for.\<close>

function find_width :: "(nat \<Rightarrow> bool) \<Rightarrow> nat \<Rightarrow> nat \<Rightarrow> nat option" where
  "find_width test limit width =
     (if width = 0 \<or> limit < width then None
      else if test width then Some width else find_width test limit (width * 2))"
  by pat_completeness auto
termination by (relation "measure (\<lambda>(_, limit, width). limit + 1 - width)") auto

declare find_width.simps [simp del]

definition malleated32_size :: "'a list \<Rightarrow> nat" where
  "malleated32_size txids =
     (case find_width (is_malleated32_width txids) (length txids div 2) 1 of
        Some width \<Rightarrow> width | None \<Rightarrow> 0)"

definition is_malleated32 :: "'a list \<Rightarrow> bool" where
  "is_malleated32 txids =
     (find_width (is_malleated32_width txids) (length txids div 2) 1 \<noteq> None)"

definition is_malleable32 :: "nat \<Rightarrow> bool" where
  "is_malleable32 unmalleated =
     (find_width (is_malleable32_width unmalleated) unmalleated 1 \<noteq> None)"

section \<open>Levels\<close>

text \<open>A level of the tree as a function of the one below it.\<close>

fun pairs :: "('a \<Rightarrow> 'a \<Rightarrow> 'a) \<Rightarrow> 'a list \<Rightarrow> 'a list" where
  "pairs H (x # y # xs) = H x y # pairs H xs"
| "pairs H _ = []"

lemma length_pairs [simp]: "length (pairs H xs) = length xs div 2"
  by (induction H xs rule: pairs.induct) auto

lemma pairs_nth: "i < length xs div 2 \<Longrightarrow> pairs H xs ! i = H (xs ! (i * 2)) (xs ! (i * 2 + 1))"
proof (induction H xs arbitrary: i rule: pairs.induct)
  case (1 H x y xs) then show ?case by (cases i) auto
qed auto

lemma pairs_append: "even (length xs) \<Longrightarrow> pairs H (xs @ ys) = pairs H xs @ pairs H ys"
  by (induction H xs rule: pairs.induct) auto

text \<open>Overwriting in place does not reach a pair that is still to be read.\<close>

lemma merkle_hash_loop_nth:
  assumes "i \<le> b" "b \<le> length ds div 2" "j < b"
  shows "merkle_hash_loop H i b ds ! j =
    (if j < i then ds ! j else H (ds ! (j * 2)) (ds ! (j * 2 + 1)))"
  using assms
proof (induction H i b ds rule: merkle_hash_loop.induct)
  case (1 H i b ds)
  let ?ds = "ds[i := H (ds ! (i * 2)) (ds ! (i * 2 + 1))]"
  show ?case
  proof (cases "i < b")
    case True
    then have "merkle_hash_loop H i b ds ! j = merkle_hash_loop H (i + 1) b ?ds ! j"
      by (subst merkle_hash_loop.simps) simp
    also have "\<dots> = (if j < i + 1 then ?ds ! j else H (?ds ! (j * 2)) (?ds ! (j * 2 + 1)))"
      using 1 True by simp
    finally show ?thesis using 1(3,4) True
      by (auto simp: nth_list_update not_less less_Suc_eq split: if_splits)
  next
    case False
    with 1(2-4) show ?thesis by (subst merkle_hash_loop.simps) simp
  qed
qed

lemma merkle_hash_pairs: "merkle_hash H ds = pairs H ds"
  by (intro nth_equalityI)
    (simp_all add: length_merkle_hash merkle_hash_def length_merkle_hash_loop merkle_hash_loop_nth pairs_nth)

definition level :: "('a \<Rightarrow> 'a \<Rightarrow> 'a) \<Rightarrow> 'a list \<Rightarrow> 'a list" where
  "level H xs = pairs H (push_odd xs)"

lemma level_Nil [simp]: "level H [] = []"
  by (simp add: level_def push_odd_def)

lemma length_level [simp]: "length (level H xs) = (length xs + 1) div 2"
  by (simp add: level_def length_push_odd)

lemma level_append: "even (length xs) \<Longrightarrow> level H (xs @ ys) = level H xs @ level H ys"
  by (cases "ys = []") (auto simp: level_def push_odd_def pairs_append)

lemma level_single [simp]: "level H [x] = [H x x]"
  by (simp add: level_def push_odd_def)

lemma level_two [simp]: "level H [x, y] = [H x y]"
  by (simp add: level_def push_odd_def)

lemma merkle_reduce_level:
  "merkle_reduce H ds = (if length ds \<le> 1 then ds else merkle_reduce H (level H ds))"
  by (subst merkle_reduce.simps) (simp add: level_def merkle_hash_pairs)

abbreviation levels :: "('a \<Rightarrow> 'a \<Rightarrow> 'a) \<Rightarrow> nat \<Rightarrow> 'a list \<Rightarrow> 'a list" where
  "levels H k \<equiv> level H ^^ k"

text \<open>The number of nodes at a depth.\<close>

definition nodes :: "nat \<Rightarrow> nat \<Rightarrow> nat" where
  "nodes n w = (n + w - 1) div w"

lemma nodes_le_iff: "w > 0 \<Longrightarrow> nodes n w \<le> k \<longleftrightarrow> n \<le> k * w"
proof -
  assume w: "w > 0"
  have "nodes n w \<le> k \<longleftrightarrow> (n + w - 1) div w < k + 1" by (auto simp: nodes_def)
  also have "\<dots> \<longleftrightarrow> n + w - 1 < (k + 1) * w" using w by (simp add: div_less_iff_less_mult)
  also have "\<dots> \<longleftrightarrow> n \<le> k * w" using w by auto
  finally show ?thesis .
qed

lemma nodes_eqI: "w > 0 \<Longrightarrow> (\<And>k. v \<le> k \<longleftrightarrow> n \<le> k * w) \<Longrightarrow> nodes n w = v"
  using nodes_le_iff by (metis le_antisym order_refl)

lemma nodes_times [simp]: "w > 0 \<Longrightarrow> nodes (q * w) w = q"
  by (rule nodes_eqI) auto

lemma nodes_pos: "w > 0 \<Longrightarrow> 0 < nodes n w \<longleftrightarrow> 0 < n"
  using nodes_le_iff [of w n 0] by auto

lemma nodes_Suc: "(nodes n (2 ^ k) + 1) div 2 = nodes n (2 ^ Suc k)"
proof (rule nodes_eqI [symmetric])
  fix j
  have "(nodes n (2 ^ k) + 1) div 2 \<le> j \<longleftrightarrow> nodes n (2 ^ k) \<le> 2 * j" by presburger
  then show "(nodes n (2 ^ k) + 1) div 2 \<le> j \<longleftrightarrow> n \<le> j * 2 ^ Suc k"
    by (simp add: nodes_le_iff ac_simps)
qed simp

lemma length_levels: "length (levels H k xs) = nodes (length xs) (2 ^ k)"
proof (induction k)
  case (Suc k) then show ?case using nodes_Suc [of "length xs" k] by simp
qed (simp add: nodes_def)

lemma ceilinged_divide_nodes: "w > 0 \<Longrightarrow> ceilinged_divide n w = nodes n w"
proof (rule nodes_eqI [symmetric])
  fix k assume w: "w > 0"
  have n: "n = n div w * w + n mod w" by simp
  show "ceilinged_divide n w \<le> k \<longleftrightarrow> n \<le> k * w"
  proof (cases "n mod w = 0")
    case True
    then have "n \<le> k * w \<longleftrightarrow> n div w * w \<le> k * w" using n by simp
    then show ?thesis using True w by (simp add: ceilinged_divide_def)
  next
    case False
    then have "n \<noteq> k * w" by auto
    then show ?thesis using False div_less_iff_less_mult [OF w, of n k]
      by (auto simp: ceilinged_divide_def)
  qed
qed

lemma nodes_mono: "m \<le> n \<Longrightarrow> nodes m w \<le> nodes n w"
  by (simp add: nodes_def div_le_mono)

lemma levels_append:
  "2 ^ k dvd length xs \<Longrightarrow> levels H k (xs @ ys) = levels H k xs @ levels H k ys"
proof (induction k)
  case (Suc k)
  obtain q where q: "length xs = 2 ^ Suc k * q" using Suc.prems by auto
  then have "length xs = (2 * q) * 2 ^ k" by simp
  then have "even (length (levels H k xs))" by (simp only: length_levels) simp
  moreover have "2 ^ k dvd length xs" using Suc.prems by (rule power_le_dvd) simp
  ultimately show ?case using Suc.IH by (simp add: level_append)
qed simp

lemma levels_single: "length xs \<le> 2 ^ k \<Longrightarrow> xs \<noteq> [] \<Longrightarrow> \<exists>t. levels H k xs = [t]"
proof -
  assume a: "length xs \<le> 2 ^ k" "xs \<noteq> []"
  then have "nodes (length xs) (2 ^ k) \<le> 1" "0 < nodes (length xs) (2 ^ k)"
    by (simp_all add: nodes_le_iff nodes_pos)
  then have "length (levels H k xs) = 1" by (simp add: length_levels)
  then show ?thesis by (simp add: length_Suc_conv)
qed

text \<open>The root is reached at the first depth with one node.\<close>

lemma merkle_reduce_above:
  "\<forall>j<k. 2 ^ j < length xs \<Longrightarrow> merkle_reduce H xs = merkle_reduce H (levels H k xs)"
proof (induction k)
  case (Suc k)
  have "\<not> nodes (length xs) (2 ^ k) \<le> 1" using Suc.prems by (simp add: nodes_le_iff not_le)
  then have "merkle_reduce H (levels H k xs) = merkle_reduce H (level H (levels H k xs))"
    by (subst merkle_reduce_level) (simp add: length_levels)
  then show ?case using Suc by simp
qed simp

lemma merkle_reduce_levels:
  assumes "length xs \<le> 2 ^ d" "\<forall>j<d. 2 ^ j < length xs"
  shows "merkle_reduce H xs = levels H d xs"
proof -
  have "length (levels H d xs) \<le> 1" using assms(1) by (simp add: length_levels nodes_le_iff)
  then show ?thesis using merkle_reduce_above [OF assms(2)] by (subst (asm) (2) merkle_reduce_level) simp
qed

lemma depth_exists:
  assumes "n > 0"
  obtains d where "n \<le> 2 ^ d" "\<forall>j<d. 2 ^ j < (n :: nat)"
proof -
  have "n \<le> 2 ^ n" using less_exp [of n] by simp
  then have "n \<le> 2 ^ (LEAST d. n \<le> 2 ^ d)" by (rule LeastI)
  moreover have "\<forall>j<LEAST d. n \<le> 2 ^ d. 2 ^ j < n" using not_less_Least by fastforce
  ultimately show thesis by (rule that)
qed

section \<open>Padded nodes\<close>

text \<open>
  The last node at a depth covers the leaves that remain, which cloning extends to the node's
  width; \<open>merkle_index\<close> names the leaf at a position of the extended node.
\<close>

lemma merkle_index_loop_base:
  "merkle_index_loop base p c w = base + merkle_index_loop 0 p c w"
proof (induction w arbitrary: base p c rule: less_induct)
  case (less w)
  show ?case
  proof (cases "c < w")
    case True
    then have "w div 2 < w" by simp
    note IH = less.IH [OF this]
    show ?thesis using True IH [of base "p mod (w div 2)" c]
        IH [of "base + w div 2" "p - w div 2" "c - w div 2"] IH [of "w div 2" "p - w div 2" "c - w div 2"]
      by (simp add: merkle_index_loop.simps [of _ p c w] Let_def)
  qed (simp add: merkle_index_loop.simps)
qed

lemma merkle_index_full: "w \<le> c \<Longrightarrow> merkle_index p c w = p"
  by (simp add: merkle_index_def merkle_index_loop.simps)

lemma merkle_index_low:
  "c \<le> w \<Longrightarrow> 0 < w \<Longrightarrow> merkle_index p c (2 * w) = merkle_index (p mod w) c w"
  by (simp add: merkle_index_def merkle_index_loop.simps [of 0 p c "2 * w"])

lemma merkle_index_high:
  assumes "w < c" "c < 2 * w"
  shows "merkle_index p c (2 * w) = (if p < w then p else w + merkle_index (p - w) (c - w) w)"
  using assms merkle_index_loop_base [of w "p - w" "c - w" w]
  by (simp add: merkle_index_def merkle_index_loop.simps [of 0 p c "2 * w"])

definition padded :: "nat \<Rightarrow> 'a list \<Rightarrow> 'a list" where
  "padded k xs = map (\<lambda>i. xs ! merkle_index i (length xs) (2 ^ k)) [0..<2 ^ k]"

lemma length_padded [simp]: "length (padded k xs) = 2 ^ k"
  by (simp add: padded_def)

lemma padded_full: "length xs = 2 ^ k \<Longrightarrow> padded k xs = xs"
  using map_nth [of xs] by (simp add: padded_def merkle_index_full)

lemma padded_low: "length xs \<le> 2 ^ k \<Longrightarrow> padded (Suc k) xs = padded k xs @ padded k xs"
proof (rule nth_equalityI)
  fix i assume a: "length xs \<le> 2 ^ k" "i < length (padded (Suc k) xs)"
  then have "padded (Suc k) xs ! i = xs ! merkle_index (i mod 2 ^ k) (length xs) (2 ^ k)"
    by (simp add: padded_def merkle_index_low)
  then show "padded (Suc k) xs ! i = (padded k xs @ padded k xs) ! i"
    using a(2) by (auto simp: nth_append padded_def mod_if)
qed simp

lemma padded_high:
  assumes "2 ^ k < length xs" "length xs < 2 * 2 ^ k"
  shows "padded (Suc k) xs = take (2 ^ k) xs @ padded k (drop (2 ^ k) xs)"
proof (rule nth_equalityI)
  fix i assume i: "i < length (padded (Suc k) xs)"
  then have "padded (Suc k) xs ! i = xs ! (if i < 2 ^ k then i
      else 2 ^ k + merkle_index (i - 2 ^ k) (length xs - 2 ^ k) (2 ^ k))"
    using merkle_index_high [OF assms, of i] by (simp add: padded_def)
  then show "padded (Suc k) xs ! i = (take (2 ^ k) xs @ padded k (drop (2 ^ k) xs)) ! i"
    using i assms by (auto simp: nth_append padded_def)
qed (use assms in simp)

lemma levels_padded:
  "xs \<noteq> [] \<Longrightarrow> length xs \<le> 2 ^ k \<Longrightarrow> levels H k (padded k xs) = levels H k xs"
proof (induction k arbitrary: xs)
  case 0
  then have "length xs = 2 ^ 0" by (simp add: le_Suc_eq)
  then show ?case by (simp only: padded_full)
next
  case (Suc k)
  consider "length xs = 2 ^ Suc k" | "length xs \<le> 2 ^ k" | "2 ^ k < length xs" "length xs < 2 * 2 ^ k"
    using Suc.prems(2) by fastforce
  then show ?case
  proof cases
    case 1 then show ?thesis by (simp only: padded_full)
  next
    case 2
    obtain t where t: "levels H k xs = [t]" using levels_single [OF 2 Suc.prems(1)] by blast
    have "levels H k (padded (Suc k) xs) = [t] @ [t]"
      using Suc.IH [OF Suc.prems(1) 2] t by (simp add: padded_low [OF 2] levels_append)
    then show ?thesis using t by simp
  next
    case 3
    let ?a = "take (2 ^ k) xs" and ?b = "drop (2 ^ k) xs"
    have a: "length ?a = 2 ^ k" using 3 by simp
    have "levels H k ?a @ levels H k ?b = levels H k xs" using a by (simp flip: levels_append)
    moreover have "levels H k (padded k ?b) = levels H k ?b" using 3 by (intro Suc.IH) simp_all
    ultimately have "levels H k (padded (Suc k) xs) = levels H k xs"
      using a by (simp add: padded_high [OF 3] levels_append)
    then show ?thesis by simp
  qed
qed

text \<open>The nodes of a list cut at a multiple of the width.\<close>

lemma levels_split:
  assumes "q * 2 ^ k < length xs" "length xs \<le> Suc q * 2 ^ k"
  shows "levels H k xs = levels H k (take (q * 2 ^ k) xs) @ levels H k (padded k (drop (q * 2 ^ k) xs))"
proof -
  have "levels H k xs = levels H k (take (q * 2 ^ k) xs @ drop (q * 2 ^ k) xs)" by simp
  also have "\<dots> = levels H k (take (q * 2 ^ k) xs) @ levels H k (drop (q * 2 ^ k) xs)"
    using assms(1) by (intro levels_append) (simp add: min_def)
  finally show ?thesis using assms by (simp add: levels_padded)
qed

section \<open>Malleated lists have the root of a shorter list\<close>

lemma is_power2_power [simp]: "is_power2 (2 ^ k)"
proof -
  have "(2 ^ k :: nat) AND mask k = take_bit k (2 ^ k)" by (rule take_bit_eq_mask [symmetric])
  then show ?thesis by (simp add: is_power2_def mask_eq_exp_minus_1)
qed

lemma find_width_None:
  "width > 0 \<Longrightarrow> find_width test limit width = None \<longleftrightarrow> (\<forall>k. width * 2 ^ k \<le> limit \<longrightarrow> \<not> test (width * 2 ^ k))"
proof (induction test limit width rule: find_width.induct)
  case (1 test limit width)
  have grow: "width \<le> width * 2 ^ k" for k by simp
  show ?case
  proof (cases "limit < width \<or> test width")
    case True
    have "limit < width \<Longrightarrow> \<not> width * 2 ^ k \<le> limit" for k using grow [of k] by linarith
    moreover have "test width \<Longrightarrow> \<not> limit < width \<Longrightarrow> \<exists>k. width * 2 ^ k \<le> limit \<and> test (width * 2 ^ k)"
      by (rule exI [of _ 0]) simp
    ultimately show ?thesis using 1(2) True by (subst find_width.simps) auto
  next
    case False
    then have "find_width test limit width = find_width test limit (width * 2)"
      using 1(2) by (subst find_width.simps) simp
    also have "\<dots> = None \<longleftrightarrow> (\<forall>k. width * 2 * 2 ^ k \<le> limit \<longrightarrow> \<not> test (width * 2 * 2 ^ k))"
      using 1 False by simp
    also have "\<dots> \<longleftrightarrow> (\<forall>k. width * 2 ^ Suc k \<le> limit \<longrightarrow> \<not> test (width * 2 ^ Suc k))"
      by (simp add: mult.assoc)
    also have "\<dots> \<longleftrightarrow> (\<forall>k. width * 2 ^ k \<le> limit \<longrightarrow> \<not> test (width * 2 ^ k))"
      using False by (metis mult.right_neutral not0_implies_Suc power_0)
    finally show ?thesis .
  qed
qed

text \<open>The test at a width: the last two nodes of an even number above two have the same leaves.\<close>

definition cloned :: "nat \<Rightarrow> 'a list \<Rightarrow> bool" where
  "cloned k xs \<longleftrightarrow> (let c = nodes (length xs) (2 ^ k) in even c \<and> 2 < c \<and>
     padded k (drop ((c - 1) * 2 ^ k) xs) = take (2 ^ k) (drop ((c - 2) * 2 ^ k) xs))"

lemma nodes_bounds: "w > 0 \<Longrightarrow> 0 < n \<Longrightarrow> (nodes n w - 1) * w < n \<and> n \<le> nodes n w * w"
  using nodes_le_iff [of w n "nodes n w"] nodes_le_iff [of w n "nodes n w - 1"] nodes_pos [of w n]
  by linarith

lemma is_malleated32_width_iff: "is_malleated32_width xs (2 ^ k) \<longleftrightarrow> cloned k xs"
proof -
  let ?w = "2 ^ k" and ?n = "length xs"
  let ?c = "nodes ?n ?w"
  let ?last = "(?c - 1) * ?w" and ?prior = "(?c - 2) * ?w"
  have "?w > ?n div 2 \<Longrightarrow> ?c \<le> 2" by (simp add: nodes_le_iff)
  moreover have "padded k (drop ?last xs) = take ?w (drop ?prior xs) \<longleftrightarrow>
      list_all (\<lambda>at. xs ! (?last + merkle_index at (?n - ?last) ?w) = xs ! (?last - ?w + at)) [0..<?w]"
    if c: "2 < ?c"
  proof -
    have n: "?last < ?n" using nodes_bounds [of ?w ?n] c nodes_pos [of ?w ?n] by simp
    have p: "?prior = ?last - ?w" "?prior + ?w = ?last" using c by (simp_all add: algebra_simps)
    have "take ?w (drop ?prior xs) = map (\<lambda>at. xs ! (?prior + at)) [0..<?w]"
    proof (rule nth_equalityI)
      have "?w \<le> ?n - ?prior" using n p(2) by linarith
      then show "length (take ?w (drop ?prior xs)) = length (map (\<lambda>at. xs ! (?prior + at)) [0..<?w])"
        by simp
    next
      have "?prior \<le> ?n" using n p(2) by linarith
      then show "i < length (take ?w (drop ?prior xs)) \<Longrightarrow>
          take ?w (drop ?prior xs) ! i = map (\<lambda>at. xs ! (?prior + at)) [0..<?w] ! i" for i by simp
    qed
    then show ?thesis using n p(1)
      by (auto simp: padded_def list_all_iff)
  qed
  ultimately show ?thesis
    by (auto simp: is_malleated32_width_def cloned_def Let_def ceilinged_divide_nodes not_le)
qed

lemma is_malleated32_iff: "is_malleated32 xs \<longleftrightarrow> (\<exists>k. cloned k xs)"
proof -
  have "cloned k xs \<Longrightarrow> 2 ^ k \<le> length xs div 2" for k
    using nodes_le_iff [of "2 ^ k" "length xs" 2] by (auto simp: cloned_def Let_def not_le)
  then show ?thesis
    unfolding is_malleated32_def by (auto simp: find_width_None is_malleated32_width_iff)
qed

text \<open>The list without the leaves of its cloned node.\<close>

definition unmalleated :: "nat \<Rightarrow> 'a list \<Rightarrow> 'a list" where
  "unmalleated w xs = take ((nodes (length xs) w - 1) * w) xs"

lemma cloned_levels:
  assumes "cloned k xs"
  obtains L t where "levels H k xs = L @ [t, t]" "levels H k (unmalleated (2 ^ k) xs) = L @ [t]"
    "even (length L)"
proof -
  let ?w = "2 ^ k :: nat" and ?n = "length xs"
  let ?c = "nodes ?n ?w"
  let ?B = "drop ((?c - 1) * ?w) xs" and ?P = "take ?w (drop ((?c - 2) * ?w) xs)"
    and ?L = "levels H k (take ((?c - 2) * ?w) xs)"
  have c: "even ?c" "2 < ?c" and eq: "padded k ?B = ?P"
    using assms by (simp_all add: cloned_def Let_def)
  have n: "(?c - 1) * ?w < ?n" "?n \<le> Suc (?c - 1) * ?w"
    using nodes_bounds [of ?w ?n] c(2) nodes_pos [of ?w ?n] by simp_all
  have p: "(?c - 1) * ?w = (?c - 2) * ?w + ?w" using c(2) by (simp add: algebra_simps)
  have len: "length (take ((?c - 2) * ?w) xs) = (?c - 2) * ?w" using n(1) p by simp
  have u: "unmalleated ?w xs = take ((?c - 2) * ?w) xs @ ?P"
    unfolding unmalleated_def p by (rule take_add)
  have "length ?P \<le> 2 ^ k" "?P \<noteq> []" using n(1) p by simp_all
  then obtain t where t: "levels H k ?P = [t]" using levels_single by blast
  have 1: "levels H k (unmalleated ?w xs) = ?L @ [t]"
    unfolding u using len t by (subst levels_append) simp_all
  moreover have "levels H k xs = ?L @ [t, t]"
    using levels_split [OF n, of H] 1 t eq by (simp add: unmalleated_def)
  moreover have "even (length ?L)" unfolding length_levels len using c by simp
  ultimately show thesis using that by blast
qed

lemma unmalleated_length:
  assumes "cloned k xs"
  shows "length (unmalleated (2 ^ k) xs) < length xs" "2 * 2 ^ k < length (unmalleated (2 ^ k) xs)"
proof -
  let ?c = "nodes (length xs) (2 ^ k)"
  have c: "2 < ?c" "even ?c" using assms by (simp_all add: cloned_def Let_def)
  then have n: "(?c - 1) * 2 ^ k < length xs"
    using nodes_bounds [of "2 ^ k" "length xs"] nodes_pos [of "2 ^ k" "length xs"] by simp
  then show "length (unmalleated (2 ^ k) xs) < length xs" by (simp add: unmalleated_def)
  have "2 < ?c - 1" using c by presburger
  then have "2 * 2 ^ k < (?c - 1) * 2 ^ k" by (intro mult_strict_right_mono) simp_all
  then show "2 * 2 ^ k < length (unmalleated (2 ^ k) xs)" using n by (simp add: unmalleated_def)
qed

lemma cloned_root:
  assumes "cloned k xs"
  shows "merkle_reduce H (unmalleated (2 ^ k) xs) = merkle_reduce H xs"
proof -
  let ?u = "unmalleated (2 ^ k) xs"
  obtain L t where L: "levels H k xs = L @ [t, t]" "levels H k ?u = L @ [t]" "even (length L)"
    by (rule cloned_levels [OF assms])
  have "levels H (Suc k) xs = levels H (Suc k) ?u" using L by (simp add: level_append)
  moreover have "\<forall>j<Suc k. 2 ^ j < length ?u"
  proof (intro allI impI)
    fix j assume "j < Suc k"
    then have "2 ^ j \<le> (2 ^ k :: nat)" by simp
    then show "2 ^ j < length ?u" using unmalleated_length(2) [OF assms] by linarith
  qed
  moreover from this have "\<forall>j<Suc k. 2 ^ j < length xs"
    using unmalleated_length(1) [OF assms] by (meson order.strict_trans)
  ultimately show ?thesis using merkle_reduce_above [of "Suc k"] by metis
qed

section \<open>Free trees\<close>

text \<open>
  The same functions over a hash that forgets nothing. Two lists with the same free root are equal,
  or the longer is malleated.
\<close>

datatype 'a merkle_tree = Tx 'a | Fork "'a merkle_tree" "'a merkle_tree"

lemma pairs_Fork_inject:
  "even (length xs) \<Longrightarrow> even (length ys) \<Longrightarrow> pairs Fork xs = pairs Fork ys \<Longrightarrow> xs = ys"
proof (induction "Fork :: 'a merkle_tree \<Rightarrow> _" xs arbitrary: ys rule: pairs.induct)
  case (1 x y xs)
  then obtain u v zs where "ys = u # v # zs" by (cases ys rule: remdups_adj.cases) auto
  with 1 show ?case by simp
next
  case "2_1"
  then show ?case by (cases ys rule: remdups_adj.cases) auto
qed simp

lemma even_push_odd: "even (length (push_odd xs))"
  by (simp add: length_push_odd)

lemma level_Fork_inject: "level Fork xs = level Fork ys \<Longrightarrow> push_odd xs = push_odd ys"
  unfolding level_def by (rule pairs_Fork_inject [OF even_push_odd even_push_odd])

lemma levels_Fork_inject:
  "length xs = q * 2 ^ k \<Longrightarrow> length ys = q * 2 ^ k \<Longrightarrow> levels Fork k xs = levels Fork k ys \<Longrightarrow> xs = ys"
proof (induction k arbitrary: q)
  case (Suc k)
  have l: "length xs = (q * 2) * 2 ^ k" "length ys = (q * 2) * 2 ^ k" using Suc.prems by simp_all
  then have "even (length (levels Fork k xs))" "even (length (levels Fork k ys))"
    unfolding length_levels by simp_all
  then have "levels Fork k xs = levels Fork k ys"
    using level_Fork_inject [of "levels Fork k xs" "levels Fork k ys"] Suc.prems(3) by (simp add: push_odd_def)
  with Suc.IH [OF l] show ?case by simp
qed simp

fun spine :: "'a merkle_tree \<Rightarrow> nat" where
  "spine (Tx x) = 0"
| "spine (Fork l r) = Suc (spine l)"

lemma spine_level: "xs \<noteq> [] \<Longrightarrow> spine (hd (level Fork xs)) = Suc (spine (hd xs))"
  by (cases xs rule: remdups_adj.cases) (auto simp: level_def push_odd_def)

lemma spine_levels: "xs \<noteq> [] \<Longrightarrow> spine (hd (levels Fork k xs)) = k + spine (hd xs)"
proof (induction k)
  case (Suc k)
  have "levels Fork k xs \<noteq> []"
    using length_levels [of k Fork xs] nodes_pos [of "2 ^ k" "length xs"] Suc.prems by fastforce
  then show ?case using Suc by (simp add: spine_level)
qed simp

text \<open>Where two levels of different lists have the same parents, the longer ends in a clone.\<close>

lemma same_parents:
  assumes "push_odd xs = push_odd ys" "xs \<noteq> ys" "length ys \<le> length xs"
  obtains L t where "xs = L @ [t, t]" "ys = L @ [t]" "even (length L)"
proof -
  have "\<not> (odd (length xs) \<and> odd (length ys))"
    using assms(1,2) by (metis append1_eq_conv push_odd_def)
  moreover have "\<not> (even (length xs) \<and> even (length ys))"
    using assms(1,2) by (auto simp: push_odd_def)
  moreover have "\<not> (odd (length xs) \<and> even (length ys))"
  proof
    assume a: "odd (length xs) \<and> even (length ys)"
    then have "length ys = length xs + 1"
      using arg_cong [OF assms(1), of length] by (simp add: push_odd_def)
    then show False using assms(3) by simp
  qed
  ultimately have *: "even (length xs)" "odd (length ys)" by auto
  then have "ys \<noteq> []" by auto
  then obtain L t where "ys = L @ [t]" by (metis append_butlast_last_id)
  then show thesis using that [of L t] assms(1) * by (simp add: push_odd_def)
qed

lemma levels_cloned:
  assumes "levels Fork k xs = L @ [t, t]" "even (length L)" "L \<noteq> []"
  shows "cloned k xs"
proof -
  let ?w = "2 ^ k :: nat" and ?n = "length xs"
  let ?c = "nodes ?n ?w"
  let ?B = "drop ((?c - 1) * ?w) xs" and ?P = "take ?w (drop ((?c - 2) * ?w) xs)"
  have c: "?c = length L + 2" using length_levels [of k Fork xs] assms(1) by simp
  moreover have "0 < length L" using assms(3) by simp
  ultimately have c2: "2 < ?c" by simp
  have n: "(?c - 1) * ?w < ?n" "?n \<le> Suc (?c - 1) * ?w"
    using nodes_bounds [of ?w ?n] c2 nodes_pos [of ?w ?n] by simp_all
  have p: "(?c - 1) * ?w = (?c - 2) * ?w + ?w" using c2 by (simp add: algebra_simps)
  have len: "length (take ((?c - 2) * ?w) xs) = (?c - 2) * ?w" "length ?P = ?w" using n(1) p by simp_all
  have "take ((?c - 1) * ?w) xs = take ((?c - 2) * ?w) xs @ ?P" unfolding p by (rule take_add)
  then have "levels Fork k (take ((?c - 1) * ?w) xs) = levels Fork k (take ((?c - 2) * ?w) xs) @ levels Fork k ?P"
    using len(1) by (simp add: levels_append)
  then have "L @ [t, t] = levels Fork k (take ((?c - 2) * ?w) xs) @ levels Fork k ?P @ levels Fork k (padded k ?B)"
    using levels_split [OF n, of Fork] assms(1) by simp
  moreover have "length (levels Fork k (take ((?c - 2) * ?w) xs)) = length L"
    unfolding length_levels len(1) using c by simp
  ultimately have "levels Fork k ?P @ levels Fork k (padded k ?B) = [t, t]" by (metis append_eq_append_conv)
  moreover have "?P \<noteq> []" using len(2) by fastforce
  then obtain u where "levels Fork k ?P = [u]" using levels_single [of ?P k Fork] len(2) by auto
  ultimately have "levels Fork k (padded k ?B) = levels Fork k ?P" by simp
  then have "padded k ?B = ?P" using levels_Fork_inject [of "padded k ?B" 1 k ?P] len(2) by simp
  then show ?thesis using c c2 assms(2) by (simp add: cloned_def Let_def)
qed

lemma free_root_malleated:
  assumes "length ys < length xs" "ys \<noteq> []" "spine (hd xs) = spine (hd ys)"
    and "merkle_reduce Fork xs = merkle_reduce Fork ys"
  shows "\<exists>k. cloned k xs"
proof -
  have "xs \<noteq> []" using assms(1) by auto
  obtain d where d: "length xs \<le> 2 ^ d" "\<forall>j<d. 2 ^ j < length xs"
    using depth_exists [of "length xs"] \<open>xs \<noteq> []\<close> by (metis length_greater_0_conv)
  obtain e where e: "length ys \<le> 2 ^ e" "\<forall>j<e. 2 ^ j < length ys"
    using depth_exists [of "length ys"] assms(2) by (metis length_greater_0_conv)
  have eq: "levels Fork d xs = levels Fork e ys"
    using merkle_reduce_levels [OF d] merkle_reduce_levels [OF e] assms(4) by metis
  then have "d = e"
    using spine_levels [OF \<open>xs \<noteq> []\<close>, of d] spine_levels [OF assms(2), of e] assms(3) by simp
  define j where "j = (LEAST j. levels Fork j xs = levels Fork j ys)"
  have j: "levels Fork j xs = levels Fork j ys" "j \<le> d"
    unfolding j_def using eq \<open>d = e\<close> by (auto intro: LeastI Least_le)
  have "j \<noteq> 0" using j(1) assms(1) by (cases j) auto
  then obtain k where k: "j = Suc k" by (cases j) auto
  have ne: "levels Fork k xs \<noteq> levels Fork k ys" using not_less_Least [of k "\<lambda>j. levels Fork j xs = levels Fork j ys"] k
    by (simp flip: j_def)
  have "push_odd (levels Fork k xs) = push_odd (levels Fork k ys)"
    using j(1) k by (intro level_Fork_inject) simp
  moreover have "length (levels Fork k ys) \<le> length (levels Fork k xs)"
    unfolding length_levels using assms(1) by (intro nodes_mono) simp
  ultimately obtain L t where L: "levels Fork k xs = L @ [t, t]" "levels Fork k ys = L @ [t]"
      "even (length L)"
    using same_parents ne by blast
  have "\<not> nodes (length ys) (2 ^ k) \<le> 1" using e(2) \<open>d = e\<close> j(2) k by (simp add: nodes_le_iff not_le)
  then have "L \<noteq> []" using L(2) length_levels [of k Fork ys] by auto
  with levels_cloned [OF L(1,3)] show ?thesis by blast
qed

section \<open>From free trees to digests\<close>

fun digest :: "('a \<Rightarrow> 'a \<Rightarrow> 'a) \<Rightarrow> 'a merkle_tree \<Rightarrow> 'a" where
  "digest H (Tx x) = x"
| "digest H (Fork l r) = H (digest H l) (digest H r)"

fun tree_pairs :: "('a \<Rightarrow> 'a \<Rightarrow> 'a) \<Rightarrow> 'a merkle_tree \<Rightarrow> ('a \<times> 'a) set" where
  "tree_pairs H (Tx x) = {}"
| "tree_pairs H (Fork l r) = insert (digest H l, digest H r) (tree_pairs H l \<union> tree_pairs H r)"

lemma digest_inject:
  assumes "inj_on (case_prod H) S" "\<forall>x\<in>set_merkle_tree t \<union> set_merkle_tree u. x \<notin> case_prod H ` S"
    and "tree_pairs H t \<subseteq> S" "tree_pairs H u \<subseteq> S" "digest H t = digest H u"
  shows "t = u"
  using assms
proof (induction t arbitrary: u)
  case (Tx x)
  then show ?case by (cases u) (auto simp: image_def)
next
  case (Fork l r)
  then show ?case
  proof (cases u)
    case u: (Fork l' r')
    have "(digest H l, digest H r) = (digest H l', digest H r')"
      using Fork.prems u by (intro inj_onD [OF Fork.prems(1)]) auto
    then show ?thesis using Fork u by auto
  qed (auto simp: image_def)
qed

text \<open>The pairs that the computation of a root hashes.\<close>

fun adjacent :: "'a list \<Rightarrow> ('a \<times> 'a) list" where
  "adjacent (x # y # xs) = (x, y) # adjacent xs"
| "adjacent _ = []"

function hashed :: "('a \<Rightarrow> 'a \<Rightarrow> 'a) \<Rightarrow> 'a list \<Rightarrow> ('a \<times> 'a) list" where
  "hashed H xs = (if length xs \<le> 1 then []
     else adjacent (push_odd xs) @ hashed H (merkle_hash H (push_odd xs)))"
  by pat_completeness auto
termination
  by (relation "measure (\<lambda>(_, xs). length xs)") (auto simp: length_merkle_hash length_push_odd)

declare hashed.simps [simp del]

lemma push_odd_map: "push_odd (map f xs) = map f (push_odd xs)"
  by (cases "xs = []") (auto simp: push_odd_def last_map)

lemma pairs_digest: "pairs H (map (digest H) ts) = map (digest H) (pairs Fork ts)"
  by (induction "Fork :: 'a merkle_tree \<Rightarrow> _" ts rule: pairs.induct) simp_all

lemma level_digest: "level H (map (digest H) ts) = map (digest H) (level Fork ts)"
  by (simp add: level_def push_odd_map pairs_digest)

lemma set_push_odd [simp]: "set (push_odd xs) = set xs"
  by (cases "xs = []") (auto simp: push_odd_def)

lemma merkle_reduce_digest:
  "merkle_reduce H (map (digest H) ts) = map (digest H) (merkle_reduce Fork ts)"
proof (induction "Fork :: 'a merkle_tree \<Rightarrow> _" ts rule: merkle_reduce.induct)
  case (1 ts)
  then show ?case
    by (subst (1 2) merkle_reduce_level) (auto simp: level_def merkle_hash_pairs push_odd_map pairs_digest)
qed

lemma pairs_tree_pairs:
  "t \<in> set (pairs Fork ts) \<Longrightarrow>
   tree_pairs H t \<subseteq> (\<Union>u\<in>set ts. tree_pairs H u) \<union> set (adjacent (map (digest H) ts))"
  by (induction "Fork :: 'a merkle_tree \<Rightarrow> _" ts rule: pairs.induct) auto

lemma pairs_leaves:
  "t \<in> set (pairs Fork ts) \<Longrightarrow> set_merkle_tree t \<subseteq> (\<Union>u\<in>set ts. set_merkle_tree u)"
  by (induction "Fork :: 'a merkle_tree \<Rightarrow> _" ts rule: pairs.induct) auto

lemma merkle_reduce_trees:
  "t \<in> set (merkle_reduce Fork ts) \<Longrightarrow>
   tree_pairs H t \<subseteq> (\<Union>u\<in>set ts. tree_pairs H u) \<union> set (hashed H (map (digest H) ts)) \<and>
   set_merkle_tree t \<subseteq> (\<Union>u\<in>set ts. set_merkle_tree u)"
proof (induction "Fork :: 'a merkle_tree \<Rightarrow> _" ts arbitrary: t rule: merkle_reduce.induct)
  case (1 ts)
  show ?case
  proof (cases "length ts \<le> 1")
    case True
    then have "t \<in> set ts" using 1(2) by (subst (asm) merkle_reduce.simps) simp
    then show ?thesis by auto
  next
    case False
    let ?us = "pairs Fork (push_odd ts)"
    have "t \<in> set (merkle_reduce Fork ?us)"
      using 1(2) False by (subst (asm) merkle_reduce.simps) (simp add: merkle_hash_pairs)
    then have IH: "tree_pairs H t \<subseteq> (\<Union>u\<in>set ?us. tree_pairs H u) \<union> set (hashed H (map (digest H) ?us))"
      "set_merkle_tree t \<subseteq> (\<Union>u\<in>set ?us. set_merkle_tree u)"
      using 1(1) [OF False] by (simp_all add: merkle_hash_pairs)
    have h: "set (hashed H (map (digest H) ts)) = set (adjacent (map (digest H) (push_odd ts))) \<union>
        set (hashed H (map (digest H) ?us))"
      using False by (subst hashed.simps) (simp add: push_odd_map merkle_hash_pairs pairs_digest)
    have A: "(\<Union>u\<in>set ?us. tree_pairs H u) \<subseteq>
        (\<Union>u\<in>set ts. tree_pairs H u) \<union> set (adjacent (map (digest H) (push_odd ts)))"
      by (intro UN_least) (use pairs_tree_pairs [of _ "push_odd ts" H] in simp)
    have B: "(\<Union>u\<in>set ?us. set_merkle_tree u) \<subseteq> (\<Union>u\<in>set ts. set_merkle_tree u)"
      by (intro UN_least) (use pairs_leaves [of _ "push_odd ts"] in simp)
    have "tree_pairs H t \<subseteq> (\<Union>u\<in>set ts. tree_pairs H u) \<union> set (hashed H (map (digest H) ts))"
      using subset_trans [OF IH(1) Un_mono [OF A subset_refl]] unfolding h by (simp only: Un_assoc)
    with subset_trans [OF IH(2) B] show ?thesis by simp
  qed
qed

lemma merkle_index_less: "p < 2 ^ k \<Longrightarrow> 0 < c \<Longrightarrow> c \<le> 2 ^ k \<Longrightarrow> merkle_index p c (2 ^ k) < c"
proof (induction k arbitrary: p c)
  case (Suc k)
  consider "c = 2 ^ Suc k" | "c \<le> 2 ^ k" | "2 ^ k < c" "c < 2 * 2 ^ k"
    using Suc.prems(3) by fastforce
  then show ?case
  proof cases
    case 1 then show ?thesis using Suc.prems by (simp add: merkle_index_full)
  next
    case 2 then show ?thesis using Suc by (simp add: merkle_index_low)
  next
    case 3
    have "merkle_index (p - 2 ^ k) (c - 2 ^ k) (2 ^ k) < c - 2 ^ k" if "\<not> p < 2 ^ k"
      using 3 Suc.prems that by (intro Suc.IH) auto
    then show ?thesis using merkle_index_high [OF 3, of p] 3(1) by auto
  qed
qed (simp add: merkle_index_full)

lemma cloned_map:
  assumes "inj f"
  shows "cloned k (map f xs) \<longleftrightarrow> cloned k xs"
proof -
  let ?w = "2 ^ k" and ?n = "length xs"
  let ?c = "nodes ?n ?w"
  have "padded k (map f ys) = map f (padded k ys)" if "0 < length ys" "length ys \<le> ?w" for ys
    using merkle_index_less that by (auto simp: padded_def)
  moreover have "0 < ?n - (?c - 1) * ?w" "?n - (?c - 1) * ?w \<le> ?w" if "2 < ?c"
    using nodes_bounds [of ?w ?n] nodes_pos [of ?w ?n] that by (auto simp: algebra_simps)
  ultimately have "padded k (drop ((?c - 1) * ?w) (map f xs)) = map f (padded k (drop ((?c - 1) * ?w) xs))"
    if "2 < ?c" using that by (simp add: drop_map)
  then show ?thesis
    using inj_map_eq_map [OF assms] by (auto simp: cloned_def Let_def take_map drop_map)
qed

text \<open>
  The two trees hold no collision: no two pairs with the same hash, and no pair whose hash is a
  leaf (a leaf that is a pair's hash is the other kind of malleation, of 64 byte transactions).
\<close>

definition collision_free :: "('a \<Rightarrow> 'a \<Rightarrow> 'a) \<Rightarrow> 'a list \<Rightarrow> 'a list \<Rightarrow> bool" where
  "collision_free double_hash xs ys =
     (let pairs = set (hashed double_hash xs) \<union> set (hashed double_hash ys)
      in inj_on (case_prod double_hash) pairs \<and>
         (set xs \<union> set ys) \<inter> case_prod double_hash ` pairs = {})"

lemma free_root: "zs \<noteq> [] \<Longrightarrow> \<exists>t. merkle_reduce Fork (map Tx zs) = [t]"
  using depth_exists [of "length zs"] merkle_reduce_levels [of "map Tx zs" _ Fork]
    levels_single [of "map Tx zs" _ Fork] by (metis length_greater_0_conv length_map map_is_Nil_conv)

lemma same_free_root:
  assumes "xs \<noteq> []" "ys \<noteq> []" "collision_free H xs ys"
    and "merkle_root H null xs = merkle_root H null ys"
  shows "merkle_reduce Fork (map Tx xs) = merkle_reduce Fork (map Tx ys)"
proof -
  obtain t where t: "merkle_reduce Fork (map Tx xs) = [t]" using free_root [OF assms(1)] by blast
  obtain u where u: "merkle_reduce Fork (map Tx ys) = [u]" using free_root [OF assms(2)] by blast
  have digest: "map (digest H) (map Tx zs) = zs" for zs by (simp add: comp_def)
  have "merkle_reduce H xs = [digest H t]" "merkle_reduce H ys = [digest H u]"
    using merkle_reduce_digest [of H "map Tx xs"] merkle_reduce_digest [of H "map Tx ys"] t u
    by (simp_all only: digest) simp_all
  then have eq: "digest H t = digest H u" using assms(1,2,4) by (simp add: merkle_root_def)
  have "tree_pairs H t \<subseteq> set (hashed H xs)" "set_merkle_tree t \<subseteq> set xs"
      "tree_pairs H u \<subseteq> set (hashed H ys)" "set_merkle_tree u \<subseteq> set ys"
    using merkle_reduce_trees [of t "map Tx xs" H] merkle_reduce_trees [of u "map Tx ys" H] t u
    by (auto simp: comp_def)
  moreover have inj: "inj_on (case_prod H) (set (hashed H xs) \<union> set (hashed H ys))"
    and "(set xs \<union> set ys) \<inter> case_prod H ` (set (hashed H xs) \<union> set (hashed H ys)) = {}"
    using assms(3) by (simp_all only: collision_free_def Let_def)
  ultimately have "t = u" by (intro digest_inject [OF inj _ _ _ eq]) auto
  with t u show ?thesis by simp
qed

lemma free_lists_eq:
  assumes "length xs = length ys" "xs \<noteq> []" "merkle_reduce Fork xs = merkle_reduce Fork ys"
  shows "xs = ys"
proof -
  obtain d where d: "length xs \<le> 2 ^ d" "\<forall>j<d. 2 ^ j < length xs"
    using depth_exists [of "length xs"] assms(2) by (metis length_greater_0_conv)
  have "levels Fork d xs = levels Fork d ys"
    using merkle_reduce_levels [OF d] merkle_reduce_levels [of ys d] d assms(1,3) by metis
  moreover have "levels Fork k xs = levels Fork k ys \<Longrightarrow> xs = ys" for k
  proof (induction k)
    case (Suc k)
    have "push_odd (levels Fork k xs) = push_odd (levels Fork k ys)"
      using Suc.prems by (intro level_Fork_inject) simp
    moreover have "length (levels Fork k xs) = length (levels Fork k ys)"
      by (simp only: length_levels assms(1))
    ultimately have "levels Fork k xs = levels Fork k ys"
      by (metis append_same_eq push_odd_def append1_eq_conv)
    then show ?case by (rule Suc.IH)
  qed simp
  ultimately show ?thesis by blast
qed

lemma shorter_root_malleated:
  assumes "ys \<noteq> []" "length ys < length xs" "collision_free H xs ys"
    and "merkle_root H null xs = merkle_root H null ys"
  shows "is_malleated32 xs"
proof -
  have "xs \<noteq> []" using assms(2) by auto
  with assms have "\<exists>k. cloned k (map Tx xs)"
    by (intro free_root_malleated [of "map Tx ys"]) (auto simp: hd_map intro: same_free_root)
  then show ?thesis using cloned_map [of Tx _ xs] by (simp add: is_malleated32_iff inj_def)
qed

text \<open>
  Malleation by cloning is found. If a list of transaction hashes has the merkle root of a
  shorter one, and hashing the pairs of the two trees gives no collision and no hash that is
  also a leaf, the longer list is reported as malleated.
\<close>

theorem malleated32_complete:
  assumes "ys \<noteq> []" "length ys < length xs" "collision_free double_hash xs ys"
    and "merkle_root double_hash null xs = merkle_root double_hash null ys"
  shows "is_malleated32 xs"
  by (rule shorter_root_malleated [OF assms])

lemmas merkle_eval = merkle_root_def merkle_reduce_level level_def push_odd_def hashed.simps merkle_hash_pairs

lemma is_power2_small [simp]: "is_power2 (Suc 0)" "is_power2 2" "is_power2 4"
  using is_power2_power [of 0] is_power2_power [of 1] is_power2_power [of 2] by simp_all

lemmas malleated_eval = is_malleated32_def malleated32_size_def find_width.simps
  is_malleated32_width_def ceilinged_divide_def merkle_index_def merkle_index_loop.simps upt_rec

theorem malleated32_complete_witness:
  "is_malleated32 [1, 2, 3, 3 :: nat] \<and>
   merkle_root (\<lambda>a b. 100 * a + b + 10) 0 [1, 2, 3, 3 :: nat] = merkle_root (\<lambda>a b. 100 * a + b + 10) 0 [1, 2, 3]"
proof -
  let ?H = "\<lambda>a b :: nat. 100 * a + b + 10"
  have r: "merkle_root ?H 0 [1, 2, 3, 3] = merkle_root ?H 0 [1, 2, 3]" by (simp add: merkle_eval)
  have "hashed ?H [1, 2, 3, 3] = [(1, 2), (3, 3), (112, 313)]" "hashed ?H [1, 2, 3] = [(1, 2), (3, 3), (112, 313)]"
    by (simp_all add: merkle_eval)
  then have "collision_free ?H [1, 2, 3, 3] [1, 2, 3]" by (simp add: collision_free_def inj_on_def)
  from malleated32_complete [OF _ _ this r] r show ?thesis by simp
qed

lemma same_root_same_list:
  assumes "xs \<noteq> []" "ys \<noteq> []" "\<not> is_malleated32 xs" "\<not> is_malleated32 ys"
    and "collision_free H xs ys" "merkle_root H null xs = merkle_root H null ys"
  shows "xs = ys"
proof -
  have "collision_free H ys xs"
    using assms(5) by (simp only: collision_free_def Let_def Un_commute [of "set ys"] Un_commute [of "set (hashed H ys)"])
  then have "\<not> length xs < length ys" using shorter_root_malleated [OF assms(1) _ _ assms(6) [symmetric]] assms(4) by blast
  moreover have "\<not> length ys < length xs" using shorter_root_malleated [OF assms(2) _ assms(5,6)] assms(3) by blast
  ultimately have len: "length (map Tx xs) = length (map Tx ys)" by simp
  have "map Tx xs \<noteq> []" using assms(1) by simp
  from free_lists_eq [OF len this same_free_root [OF assms(1,2,5,6)]] have "map Tx xs = map Tx ys" .
  then show ?thesis using inj_map_eq_map [of Tx xs ys] by (simp add: inj_def)
qed

text \<open>
  C6. The merkle root commits to the list. Two lists with the same root, neither of them reported
  as malleated, are the same list, provided their trees hold no collision.
\<close>

theorem merkle_root_binds:
  assumes "xs \<noteq> []" "ys \<noteq> []" "\<not> is_malleated32 xs" "\<not> is_malleated32 ys"
    and "collision_free double_hash xs ys"
    and "merkle_root double_hash null xs = merkle_root double_hash null ys"
  shows "xs = ys"
  by (rule same_root_same_list [OF assms])

theorem merkle_root_binds_witness:
  "\<not> is_malleated32 [1, 2, 3 :: nat] \<and> [1, 2, 3 :: nat] = [1, 2, 3]"
proof -
  let ?H = "\<lambda>a b :: nat. 100 * a + b + 10"
  have m: "\<not> is_malleated32 [1, 2, 3 :: nat]" by (simp add: malleated_eval)
  have "hashed ?H [1, 2, 3] = [(1, 2), (3, 3), (112, 313)]" by (simp add: merkle_eval)
  then have "collision_free ?H [1, 2, 3] [1, 2, 3]" by (simp add: collision_free_def inj_on_def)
  from merkle_root_binds [OF _ _ m m this refl] m show ?thesis by simp
qed

lemma find_width_Some:
  "find_width test limit width = Some w \<Longrightarrow> test w \<and> (\<exists>k. w = width * 2 ^ k)"
proof (induction test limit width rule: find_width.induct)
  case (1 test limit width)
  show ?case
  proof (cases "width = 0 \<or> limit < width \<or> test width")
    case True
    then have "test w" "w = width * 2 ^ 0"
      using 1(2) by (subst (asm) find_width.simps; simp split: if_splits)+
    then show ?thesis by blast
  next
    case False
    then have "find_width test limit (width * 2) = Some w"
      using 1(2) by (subst (asm) find_width.simps) simp
    then have "test w" "\<exists>k. w = width * 2 * 2 ^ k" using 1(1) False by blast+
    moreover have "width * 2 * 2 ^ k = width * 2 ^ Suc k" for k by simp
    ultimately show ?thesis by metis
  qed
qed

text \<open>
  What is reported as malleated is: without the leaves of the node that the reported width
  clones, the list is shorter, not empty, and has the same merkle root, whatever the hash
  function. The width is zero exactly when nothing is reported.
\<close>

theorem malleated32_sound:
  assumes "is_malleated32 xs"
  shows "malleated32_size xs \<noteq> 0 \<and> unmalleated (malleated32_size xs) xs \<noteq> [] \<and>
    length (unmalleated (malleated32_size xs) xs) < length xs \<and>
    merkle_root double_hash null (unmalleated (malleated32_size xs) xs) = merkle_root double_hash null xs"
proof -
  obtain w where w: "find_width (is_malleated32_width xs) (length xs div 2) 1 = Some w"
    using assms by (auto simp: is_malleated32_def)
  then obtain k where k: "w = 2 ^ k" "cloned k xs"
    using find_width_Some [OF w] by (auto simp: is_malleated32_width_iff)
  have m: "malleated32_size xs = 2 ^ k" using w k(1) by (simp add: malleated32_size_def)
  have "unmalleated (2 ^ k) xs \<noteq> []" "xs \<noteq> []" using unmalleated_length [OF k(2)] by auto
  then show ?thesis using unmalleated_length(1) [OF k(2)] cloned_root [OF k(2), of double_hash]
    unfolding m by (simp add: merkle_root_def)
qed

theorem malleated32_sound_witness:
  "is_malleated32 [1, 2, 3, 4, 5, 6, 5, 6 :: nat] \<and> malleated32_size [1, 2, 3, 4, 5, 6, 5, 6 :: nat] = 2 \<and>
   length (unmalleated 2 [1, 2, 3, 4, 5, 6, 5, 6 :: nat]) < 8"
proof -
  have m: "is_malleated32 [1, 2, 3, 4, 5, 6, 5, 6 :: nat]" by (simp add: malleated_eval)
  have "malleated32_size [1, 2, 3, 4, 5, 6, 5, 6 :: nat] = 2" by (simp add: malleated_eval)
  with malleated32_sound [OF m, of plus 0] m show ?thesis by simp
qed

section \<open>Branches\<close>

text \<open>What a branch is for: hashing a leaf with it, side by side, gives the root.\<close>

fun climb :: "('a \<Rightarrow> 'a \<Rightarrow> 'a) \<Rightarrow> nat \<Rightarrow> 'a \<Rightarrow> 'a list \<Rightarrow> 'a" where
  "climb H at h [] = h"
| "climb H at h (b # bs) = climb H (at div 2) (if even at then H h b else H b h) bs"

lemma push_odd_nth: "i < length xs \<Longrightarrow> push_odd xs ! i = xs ! i"
  by (simp add: push_odd_def nth_append)

lemma climb_branch_loop:
  "at < length xs \<Longrightarrow> climb H at (xs ! at) (merkle_branch_loop H at xs) = hd (merkle_reduce H xs)"
proof (induction H at xs rule: merkle_branch_loop.induct)
  case (1 H at xs)
  show ?case
  proof (cases "length xs > 1")
    case True
    let ?p = "push_odd xs"
    let ?up = "merkle_hash H ?p"
    have at: "at div 2 < length ?p div 2" using 1(2) by (simp add: length_push_odd)
    then have "?up ! (at div 2) = H (?p ! (at div 2 * 2)) (?p ! (at div 2 * 2 + 1))"
      by (simp add: merkle_hash_pairs pairs_nth)
    moreover have "?p ! at = xs ! at" using 1(2) by (rule push_odd_nth)
    ultimately have "?up ! (at div 2) = (if even at then H (xs ! at) (?p ! (at + 1)) else H (?p ! (at - 1)) (xs ! at))"
      by (auto elim!: evenE oddE simp: mult.commute [of _ 2])
    then have "climb H at (xs ! at) (merkle_branch_loop H at xs) =
        climb H (at div 2) (?up ! (at div 2)) (merkle_branch_loop H (at div 2) ?up)"
      using True by (subst merkle_branch_loop.simps) (simp add: Let_def)
    also have "\<dots> = hd (merkle_reduce H ?up)"
      using 1(1) True at by (simp add: length_merkle_hash)
    also have "\<dots> = hd (merkle_reduce H xs)"
      using True by (subst (2) merkle_reduce.simps) simp
    finally show ?thesis .
  next
    case False
    then have "xs = [hd xs]" "at = 0" using 1(2) by (cases xs; simp)+
    then show ?thesis using False
      by (subst merkle_branch_loop.simps, subst merkle_reduce.simps) (simp, metis nth_Cons_0)
  qed
qed

text \<open>
  The branch that is computed for a position proves the leaf there: hashed with the branch
  from the position upwards it gives the merkle root of all leaves, whatever the hash function.
\<close>

theorem merkle_branch_proves:
  assumes "position < length leaves"
  shows "climb double_hash position (leaves ! position) (merkle_branch double_hash position leaves) =
    merkle_root double_hash null leaves"
  using climb_branch_loop [OF assms] assms by (auto simp: merkle_branch_def merkle_root_def)

theorem merkle_branch_proves_witness:
  "climb (\<lambda>a b. 2 * a + 3 * b) 4 5 (merkle_branch (\<lambda>a b. 2 * a + 3 * b) 4 [1, 2, 3, 4, 5 :: nat]) =
   merkle_root (\<lambda>a b. 2 * a + 3 * b) 0 [1, 2, 3, 4, 5]"
  using merkle_branch_proves [of 4 "[1, 2, 3, 4, 5 :: nat]" "\<lambda>a b. 2 * a + 3 * b" 0] by simp

end
