(* ===== verification/Block.thy ===== *)
theory Block
  imports Header Merkle
begin

text \<open>
  Blocks (\<open>src/chain/block.cpp\<close>) and the identity hashes of their transactions
  (\<open>src/chain/transaction_cache.cpp\<close>): serialization, cached sizes, the hashes that are taken
  from the wire buffer, forward references and double spends, commitments, malleation, subsidy and
  reward, the population of previous outputs inside a block, and the identify, check, accept and
  confirm functions with every error they return.

  \<open>bitcoin_hash\<close> is the double SHA-256 of a byte sequence and an argument of what hashes. Hash
  caches are the hashes they cache, which \<open>set_hashes_exact\<close> justifies. Script execution
  (\<open>connect\<close>) is not part of this theory.
\<close>

section \<open>Identity hashes\<close>

definition desegregated :: "nat \<Rightarrow> nat \<Rightarrow> data_chunk \<Rightarrow> data_chunk" where
  "desegregated witnessed unwitnessed data =
     (let preamble = 4 + 2 * 1; puts = floored_subtract unwitnessed (2 * 4);
          locktime = floored_subtract witnessed 4
      in take 4 data @ take puts (drop preamble data) @ take 4 (drop locktime data))"

definition desegregated_hash ::
  "(data_chunk \<Rightarrow> hash_digest) \<Rightarrow> nat \<Rightarrow> nat \<Rightarrow> data_chunk \<Rightarrow> hash_digest" where
  "desegregated_hash bitcoin_hash witnessed unwitnessed data =
     bitcoin_hash (desegregated witnessed unwitnessed data)"

definition transaction_hash :: "(data_chunk \<Rightarrow> hash_digest) \<Rightarrow> transaction \<Rightarrow> bool \<Rightarrow> hash_digest" where
  "transaction_hash bitcoin_hash t wit =
     (if tx_segregated t \<and> wit \<and> tx_is_coinbase t then null_hash
      else bitcoin_hash (transaction_to_data t wit))"

text \<open>\<open>sha256::double_hash\<close> of two digests.\<close>

definition double_hash :: "(data_chunk \<Rightarrow> hash_digest) \<Rightarrow> hash_digest \<Rightarrow> hash_digest \<Rightarrow> hash_digest" where
  "double_hash bitcoin_hash left right = bitcoin_hash (left @ right)"

section \<open>Blocks\<close>

record chain_block =
  blk_header :: header
  blk_txs :: "transaction list"
  blk_valid :: bool
  blk_nominal_size :: nat
  blk_witnessed_size :: nat

definition block_sizes :: "transaction list \<Rightarrow> nat \<times> nat" where
  "block_sizes txs =
     (let nominal = foldl (\<lambda>acc t. ceilinged_add acc (transaction_serialized_size t False)) 0 txs;
          witnessed = foldl (\<lambda>acc t. ceilinged_add acc (transaction_serialized_size t True)) 0 txs;
          base = ceilinged_add header_serialized_size (variable_size (length txs))
      in (ceilinged_add base nominal, ceilinged_add base witnessed))"

definition make_block :: "header \<Rightarrow> transaction list \<Rightarrow> bool \<Rightarrow> chain_block" where
  "make_block h txs valid = \<lparr>blk_header = h, blk_txs = txs, blk_valid = valid,
     blk_nominal_size = fst (block_sizes txs), blk_witnessed_size = snd (block_sizes txs)\<rparr>"

definition block_equal :: "chain_block \<Rightarrow> chain_block \<Rightarrow> bool" where
  "block_equal a b \<longleftrightarrow> header_equal (blk_header a) (blk_header b) \<and>
     list_all2 transaction_equal (blk_txs a) (blk_txs b)"

definition block_from_data :: "reader \<Rightarrow> bool \<Rightarrow> chain_block \<times> reader" where
  "block_from_data r wit =
     (let (h, r1) = header_from_data r;
          (count, r2) = read_size max_count r1;
          (txs, r3) = read_each (\<lambda>r. transaction_from_data r wit) count r2
      in (make_block h txs (rgood r3), r3))"

definition block_to_data :: "chain_block \<Rightarrow> bool \<Rightarrow> data_chunk" where
  "block_to_data b wit = header_to_data (blk_header b) @ write_variable (length (blk_txs b)) @
     concat (map (\<lambda>t. transaction_to_data t wit) (blk_txs b))"

definition block_serialized_size :: "chain_block \<Rightarrow> bool \<Rightarrow> nat" where
  "block_serialized_size b wit = (if wit then blk_witnessed_size b else blk_nominal_size b)"

definition block_ok :: "chain_block \<Rightarrow> bool" where
  "block_ok b \<longleftrightarrow> b = make_block (blk_header b) (blk_txs b) True \<and> header_ok (blk_header b) \<and>
     puts_ok transaction_ok (blk_txs b)"

section \<open>Hashes from the wire\<close>

definition size_variable :: "byte \<Rightarrow> nat" where
  "size_variable prefix =
     (if prefix = varint_eight_bytes then 1 + 8 else if prefix = varint_four_bytes then 1 + 4
      else if prefix = varint_two_bytes then 1 + 2 else 1)"

record hash_cache =
  nominal_hash :: "hash_digest option"
  witness_hash :: "hash_digest option"

fun set_tx_hashes ::
  "(data_chunk \<Rightarrow> hash_digest) \<Rightarrow> bool \<Rightarrow> data_chunk \<Rightarrow> transaction list \<Rightarrow> hash_cache list" where
  "set_tx_hashes bitcoin_hash coinbase start [] = []"
| "set_tx_hashes bitcoin_hash coinbase start (t # txs) =
     (let witness_size = transaction_serialized_size t True;
          cache = (if tx_segregated t
            then \<lparr>nominal_hash = Some (desegregated_hash bitcoin_hash witness_size
                    (transaction_serialized_size t False) start),
                  witness_hash = (if coinbase then None else Some (bitcoin_hash (take witness_size start)))\<rparr>
            else \<lparr>nominal_hash = Some (bitcoin_hash (take witness_size start)), witness_hash = None\<rparr>)
      in cache # set_tx_hashes bitcoin_hash False (drop witness_size start) txs)"

definition set_hashes :: "(data_chunk \<Rightarrow> hash_digest) \<Rightarrow> data_chunk \<Rightarrow> chain_block \<Rightarrow>
  hash_digest \<times> hash_cache list" where
  "set_hashes bitcoin_hash data b =
     (let start = drop header_serialized_size data;
          start' = drop (size_variable (hd start)) start
      in (bitcoin_hash (take header_serialized_size data),
          set_tx_hashes bitcoin_hash True start' (blk_txs b)))"

section \<open>Properties of a block\<close>

definition block_inputs :: "chain_block \<Rightarrow> chain_input list" where
  "block_inputs b = concat (map tx_inputs (blk_txs b))"

definition transaction_hashes :: "(data_chunk \<Rightarrow> hash_digest) \<Rightarrow> chain_block \<Rightarrow> bool \<Rightarrow> hash_digest list" where
  "transaction_hashes bitcoin_hash b wit = map (\<lambda>t. transaction_hash bitcoin_hash t wit) (blk_txs b)"

definition block_outputs :: "chain_block \<Rightarrow> nat" where
  "block_outputs b = foldl (\<lambda>acc t. ceilinged_add acc (length (tx_outputs t))) 0 (tl (blk_txs b))"

definition block_spends :: "chain_block \<Rightarrow> nat" where
  "block_spends b = foldl (\<lambda>acc t. ceilinged_add acc (length (tx_inputs t))) 0 (tl (blk_txs b))"

definition block_weight :: "chain_block \<Rightarrow> nat" where
  "block_weight b = ceilinged_add
     (ceilinged_multiply base_size_contribution (block_serialized_size b False))
     (ceilinged_multiply total_size_contribution (block_serialized_size b True))"

definition block_virtual_size :: "chain_block \<Rightarrow> nat" where
  "block_virtual_size b = ceilinged_divide (block_weight b) (base_size_contribution + total_size_contribution)"

definition block_is_segregated :: "chain_block \<Rightarrow> bool" where
  "block_is_segregated b \<longleftrightarrow> list_ex tx_segregated (blk_txs b)"

definition block_segregated :: "chain_block \<Rightarrow> nat" where
  "block_segregated b = length (filter tx_segregated (blk_txs b))"

section \<open>Checks\<close>

definition block_is_empty :: "chain_block \<Rightarrow> bool" where
  "block_is_empty b \<longleftrightarrow> blk_txs b = []"

definition block_is_oversized :: "chain_block \<Rightarrow> bool" where
  "block_is_oversized b \<longleftrightarrow> block_serialized_size b False > max_block_size"

definition is_first_non_coinbase :: "chain_block \<Rightarrow> bool" where
  "is_first_non_coinbase b \<longleftrightarrow> blk_txs b \<noteq> [] \<and> \<not> tx_is_coinbase (hd (blk_txs b))"

definition is_extra_coinbases :: "chain_block \<Rightarrow> bool" where
  "is_extra_coinbases b \<longleftrightarrow> blk_txs b \<noteq> [] \<and> list_ex tx_is_coinbase (tl (blk_txs b))"

text \<open>The loop runs from the last transaction to the first, over the hashes of those behind it.\<close>

fun scan_references ::
  "(data_chunk \<Rightarrow> hash_digest) \<Rightarrow> hash_digest list \<Rightarrow> transaction list \<Rightarrow> bool" where
  "scan_references bitcoin_hash hashes [] = False"
| "scan_references bitcoin_hash hashes (t # txs) =
     (if list_ex (\<lambda>i. point_hash (in_point i) \<in> set hashes) (tx_inputs t) then True
      else scan_references bitcoin_hash (transaction_hash bitcoin_hash t False # hashes) txs)"

definition is_forward_reference :: "(data_chunk \<Rightarrow> hash_digest) \<Rightarrow> transaction list \<Rightarrow> bool \<Rightarrow> bool" where
  "is_forward_reference bitcoin_hash txs coinbase =
     scan_references bitcoin_hash [] (rev (if coinbase then tl txs else txs))"

text \<open>Insertion into a set of points, until one is already there.\<close>

fun scan_points :: "point_key list \<Rightarrow> chain_input list \<Rightarrow> point_key list option" where
  "scan_points seen [] = Some seen"
| "scan_points seen (i # ins) =
     (if point_key (in_point i) \<in> set seen then None
      else scan_points (point_key (in_point i) # seen) ins)"

fun scan_spends :: "point_key list \<Rightarrow> transaction list \<Rightarrow> bool" where
  "scan_spends seen [] = False"
| "scan_spends seen (t # txs) =
     (case scan_points seen (tx_inputs t) of None \<Rightarrow> True | Some seen' \<Rightarrow> scan_spends seen' txs)"

definition block_internal_double_spend :: "transaction list \<Rightarrow> bool \<Rightarrow> bool" where
  "block_internal_double_spend txs coinbase = scan_spends [] (if coinbase then tl txs else txs)"

definition generate_merkle_root :: "(data_chunk \<Rightarrow> hash_digest) \<Rightarrow> chain_block \<Rightarrow> bool \<Rightarrow> hash_digest" where
  "generate_merkle_root bitcoin_hash b wit =
     merkle_root (double_hash bitcoin_hash) null_hash (transaction_hashes bitcoin_hash b wit)"

definition is_invalid_merkle_root :: "(data_chunk \<Rightarrow> hash_digest) \<Rightarrow> chain_block \<Rightarrow> bool" where
  "is_invalid_merkle_root bitcoin_hash b \<longleftrightarrow>
     generate_merkle_root bitcoin_hash b False \<noteq> hdr_merkle_root (blk_header b)"

definition block_is_overweight :: "chain_block \<Rightarrow> bool" where
  "block_is_overweight b \<longleftrightarrow> block_weight b > max_block_weight"

definition is_coinbase_pattern :: "operation list \<Rightarrow> nat \<Rightarrow> bool" where
  "is_coinbase_pattern ops height \<longleftrightarrow> ops \<noteq> [] \<and> is_minimal_push (hd ops) \<and>
     as_unsigned32 (hd ops) = Some height"

definition is_invalid_coinbase_script :: "chain_block \<Rightarrow> nat \<Rightarrow> bool" where
  "is_invalid_coinbase_script b height =
     (if blk_txs b = [] \<or> tx_inputs (hd (blk_txs b)) = [] then False
      else \<not> is_coinbase_pattern (script_ops (in_script (hd (tx_inputs (hd (blk_txs b)))))) height)"

definition hash_limit :: nat where "hash_limit = 4500"

definition is_hash_limit_exceeded :: "(data_chunk \<Rightarrow> hash_digest) \<Rightarrow> chain_block \<Rightarrow> bool" where
  "is_hash_limit_exceeded bitcoin_hash b =
     (if blk_txs b = [] then False
      else let hashes = transaction_hash bitcoin_hash (hd (blk_txs b)) False #
             concat (map (\<lambda>t. transaction_hash bitcoin_hash t False #
               map (\<lambda>i. point_hash (in_point i)) (tx_inputs t)) (tl (blk_txs b)))
        in card (set hashes) > hash_limit)"

section \<open>Malleation\<close>

definition is_malleable64 :: "transaction list \<Rightarrow> bool" where
  "is_malleable64 txs \<longleftrightarrow> txs \<noteq> [] \<and>
     list_all (\<lambda>t. transaction_serialized_size t False = 2 * hash_size) txs"

definition is_malleated64 :: "chain_block \<Rightarrow> bool" where
  "is_malleated64 b \<longleftrightarrow> blk_txs b \<noteq> [] \<and> \<not> tx_is_coinbase (hd (blk_txs b)) \<and> is_malleable64 (blk_txs b)"

definition is_malleable :: "chain_block \<Rightarrow> bool" where
  "is_malleable b \<longleftrightarrow> is_malleable64 (blk_txs b) \<or> is_malleable32 (length (blk_txs b))"

definition is_malleated :: "(data_chunk \<Rightarrow> hash_digest) \<Rightarrow> chain_block \<Rightarrow> bool" where
  "is_malleated bitcoin_hash b \<longleftrightarrow> is_malleated64 b \<or>
     malleated32_size (transaction_hashes bitcoin_hash b False) \<noteq> 0"

definition malleated_or :: "(data_chunk \<Rightarrow> hash_digest) \<Rightarrow> chain_block \<Rightarrow> code \<Rightarrow> code" where
  "malleated_or bitcoin_hash b ec =
     (if is_malleated bitcoin_hash b then block_code error_invalid_transaction_commitment else ec)"

section \<open>Witness commitment\<close>

definition invalid_witness_commitment ::
  "(data_chunk \<Rightarrow> hash_digest) \<Rightarrow> transaction \<Rightarrow> hash_digest \<Rightarrow> bool \<Rightarrow> bool" where
  "invalid_witness_commitment bitcoin_hash first witness_root segregated =
     (case get_witness_commitment first of
        None \<Rightarrow> segregated
      | Some commit \<Rightarrow>
        (case get_witness_reservation first of
           None \<Rightarrow> True
         | Some reserve \<Rightarrow> commit \<noteq> double_hash bitcoin_hash witness_root reserve))"

definition is_invalid_witness_commitment :: "(data_chunk \<Rightarrow> hash_digest) \<Rightarrow> chain_block \<Rightarrow> bool" where
  "is_invalid_witness_commitment bitcoin_hash b \<longleftrightarrow> blk_txs b \<noteq> [] \<and>
     invalid_witness_commitment bitcoin_hash (hd (blk_txs b))
       (generate_merkle_root bitcoin_hash b True) (block_is_segregated b)"

section \<open>Subsidy and reward\<close>

definition shift_right :: "u64 \<Rightarrow> nat \<Rightarrow> bool \<Rightarrow> u64" where
  "shift_right v shift overflow = (if overflow \<and> shift \<ge> 64 then 0 else drop_bit (shift mod 64) v)"

definition subsidy :: "nat \<Rightarrow> nat \<Rightarrow> u64 \<Rightarrow> bool \<Rightarrow> u64" where
  "subsidy height subsidy_interval initial_block_subsidy_satoshi bip42 =
     (let halves = height div subsidy_interval in shift_right initial_block_subsidy_satoshi halves bip42)"

definition fees :: "chain_block \<Rightarrow> nat" where
  "fees b = foldl (\<lambda>acc t. ceilinged_add acc (fee t)) 0 (blk_txs b)"

definition claim :: "chain_block \<Rightarrow> nat" where
  "claim b = (if blk_txs b = [] then 0 else tx_spend (hd (blk_txs b)))"

definition reward :: "chain_block \<Rightarrow> nat \<Rightarrow> nat \<Rightarrow> u64 \<Rightarrow> bool \<Rightarrow> nat" where
  "reward b height subsidy_interval initial bip42 =
     ceilinged_add (fees b) (unat (subsidy height subsidy_interval initial bip42))"

definition block_is_overspent :: "chain_block \<Rightarrow> nat \<Rightarrow> nat \<Rightarrow> u64 \<Rightarrow> bool \<Rightarrow> bool" where
  "block_is_overspent b height subsidy_interval initial bip42 \<longleftrightarrow>
     claim b > reward b height subsidy_interval initial bip42"

definition block_signature_operations :: "chain_block \<Rightarrow> bool \<Rightarrow> bool \<Rightarrow> nat" where
  "block_signature_operations b bip16 bip141 =
     foldl (\<lambda>acc t. ceilinged_add acc (tx_signature_operations t bip16 bip141)) 0 (blk_txs b)"

definition block_signature_operations_limited :: "chain_block \<Rightarrow> bool \<Rightarrow> bool \<Rightarrow> bool" where
  "block_signature_operations_limited b bip16 bip141 \<longleftrightarrow>
     block_signature_operations b bip16 bip141 > (if bip141 then max_fast_sigops else max_block_sigops)"

section \<open>Validation\<close>

abbreviation block_success :: code where "block_success \<equiv> block_code error_block_success"

text \<open>The loops that return the first failure of a transaction.\<close>

fun first_failure :: "(transaction \<Rightarrow> code) \<Rightarrow> transaction list \<Rightarrow> code" where
  "first_failure f [] = block_success"
| "first_failure f (t # txs) = (if failed (f t) then f t else first_failure f txs)"

definition check_transactions :: "chain_block \<Rightarrow> code" where
  "check_transactions b = first_failure tx_check (blk_txs b)"

definition check_transactions_context :: "chain_block \<Rightarrow> chain_context \<Rightarrow> code" where
  "check_transactions_context b ctx = first_failure (\<lambda>t. tx_check_context t ctx) (blk_txs b)"

definition accept_transactions :: "chain_block \<Rightarrow> chain_context \<Rightarrow> code" where
  "accept_transactions b ctx = first_failure (\<lambda>t. tx_accept t ctx) (tl (blk_txs b))"

definition confirm_transactions :: "chain_block \<Rightarrow> chain_context \<Rightarrow> code" where
  "confirm_transactions b ctx = first_failure (\<lambda>t. tx_confirm t ctx) (tl (blk_txs b))"

definition identify :: "(data_chunk \<Rightarrow> hash_digest) \<Rightarrow> chain_block \<Rightarrow> code" where
  "identify bitcoin_hash b =
     (let txids = transaction_hashes bitcoin_hash b False in
      if is_malleated64 b \<or> is_malleated32 txids \<or>
        merkle_root (double_hash bitcoin_hash) null_hash txids \<noteq> hdr_merkle_root (blk_header b)
      then block_code error_invalid_transaction_commitment else block_success)"

definition identify_context :: "(data_chunk \<Rightarrow> hash_digest) \<Rightarrow> chain_block \<Rightarrow> chain_context \<Rightarrow> code" where
  "identify_context bitcoin_hash b ctx =
     (if blk_txs b = [] then block_success
      else let invalid = (if ctx_enabled ctx bip141_rule
          then invalid_witness_commitment bitcoin_hash (hd (blk_txs b))
            (generate_merkle_root bitcoin_hash b True) (block_is_segregated b)
          else block_is_segregated b)
        in if invalid then block_code error_invalid_witness_commitment else block_success)"

definition block_check :: "(data_chunk \<Rightarrow> hash_digest) \<Rightarrow> chain_block \<Rightarrow> bool \<Rightarrow> code" where
  "block_check bitcoin_hash b identity =
     first_error (check_transactions b)
      [(block_is_empty b, block_code error_empty_block),
       (block_is_oversized b, block_code error_block_size_limit),
       (is_first_non_coinbase b, malleated_or bitcoin_hash b (block_code error_first_not_coinbase)),
       (is_extra_coinbases b, block_code error_extra_coinbases),
       (is_forward_reference bitcoin_hash (blk_txs b) True, block_code error_forward_reference),
       (block_internal_double_spend (blk_txs b) True,
          malleated_or bitcoin_hash b (block_code error_block_internal_double_spend)),
       (identity \<and> is_invalid_merkle_root bitcoin_hash b, block_code error_invalid_transaction_commitment)]"

definition block_check_context ::
  "(data_chunk \<Rightarrow> hash_digest) \<Rightarrow> chain_block \<Rightarrow> chain_context \<Rightarrow> bool \<Rightarrow> code" where
  "block_check_context bitcoin_hash b ctx identity =
     (let bip141 = ctx_enabled ctx bip141_rule; bip34 = ctx_enabled ctx bip34_rule;
          bip50 = ctx_enabled ctx bip50_rule in
      first_error (check_transactions_context b ctx)
       [(bip141 \<and> block_is_overweight b, block_code error_block_weight_limit),
        (bip34 \<and> is_invalid_coinbase_script b (ctx_height ctx), block_code error_coinbase_height_mismatch),
        (bip50 \<and> is_hash_limit_exceeded bitcoin_hash b, block_code error_temporary_hash_limit),
        (bip141 \<and> identity \<and> is_invalid_witness_commitment bitcoin_hash b,
           block_code error_invalid_witness_commitment)])"

definition block_accept :: "chain_block \<Rightarrow> chain_context \<Rightarrow> nat \<Rightarrow> u64 \<Rightarrow> code" where
  "block_accept b ctx subsidy_interval initial_subsidy =
     (let bip16 = ctx_enabled ctx bip16_rule; bip42 = ctx_enabled ctx bip42_rule;
          bip141 = ctx_enabled ctx bip141_rule in
      first_error (accept_transactions b ctx)
       [(block_is_overspent b (ctx_height ctx) subsidy_interval initial_subsidy bip42,
           block_code error_coinbase_value_limit),
        (block_signature_operations_limited b bip16 bip141, block_code error_block_sigop_limit)])"

definition block_confirm :: "chain_block \<Rightarrow> chain_context \<Rightarrow> code" where
  "block_confirm b ctx = confirm_transactions b ctx"

section \<open>Previous outputs inside a block\<close>

definition output_points :: "(data_chunk \<Rightarrow> hash_digest) \<Rightarrow> transaction list \<Rightarrow>
  ((hash_digest \<times> u32) \<times> chain_output) list" where
  "output_points bitcoin_hash txs = concat (map (\<lambda>t.
     zip (map (\<lambda>n. (transaction_hash bitcoin_hash t False, word_of_nat n)) [0..<length (tx_outputs t)])
       (tx_outputs t)) txs)"

fun populate_inputs :: "(hash_digest \<times> u32 \<Rightarrow> chain_output option) \<Rightarrow> hash_digest \<Rightarrow> bool \<Rightarrow> bool \<Rightarrow>
  transaction \<Rightarrow> chain_input list \<Rightarrow> code \<times> chain_input list" where
  "populate_inputs locate self coinbase bip68 t [] = (block_success, [])"
| "populate_inputs locate self coinbase bip68 t (i # ins) =
     (case locate (point_hash (in_point i), point_index (in_point i)) of
        None \<Rightarrow> (case populate_inputs locate self coinbase bip68 t ins of (ec, ins') \<Rightarrow> (ec, i # ins'))
      | Some out \<Rightarrow>
        (let own = coinbase \<and> point_hash (in_point i) = self;
             i' = i\<lparr>in_metadata := (in_metadata i)\<lparr>prevout_coinbase := own\<rparr>\<rparr>
         in if own then (tx_code error_coinbase_maturity, i' # ins)
            else if bip68 \<and> is_internally_locked t i' then (tx_code error_relative_time_locked, i' # ins)
            else (case populate_inputs locate self coinbase bip68 t ins of
              (ec, ins') \<Rightarrow> (ec, i'\<lparr>in_prevout := Some out\<rparr> # ins'))))"

fun populate_txs :: "(hash_digest \<times> u32 \<Rightarrow> chain_output option) \<Rightarrow> hash_digest \<Rightarrow> bool \<Rightarrow> bool \<Rightarrow>
  transaction list \<Rightarrow> code \<times> transaction list" where
  "populate_txs locate self coinbase bip68 [] = (block_success, [])"
| "populate_txs locate self coinbase bip68 (t # txs) =
     (case populate_inputs locate self coinbase bip68 t (tx_inputs t) of (ec, ins) \<Rightarrow>
        if failed ec then (ec, t\<lparr>tx_inputs := ins\<rparr> # txs)
        else (case populate_txs locate self coinbase bip68 txs of
          (ec', txs') \<Rightarrow> (ec', t\<lparr>tx_inputs := ins\<rparr> # txs')))"

definition populate :: "(data_chunk \<Rightarrow> hash_digest) \<Rightarrow> transaction list \<Rightarrow> chain_context \<Rightarrow> bool \<Rightarrow>
  code \<times> transaction list" where
  "populate bitcoin_hash txs ctx coinbase =
     (if txs = [] then (block_success, txs)
      else let locate = map_of (output_points bitcoin_hash txs);
               self = transaction_hash bitcoin_hash (hd txs) False;
               bip68 = ctx_enabled ctx bip68_rule
        in if coinbase then (case populate_txs locate self coinbase bip68 (tl txs) of
             (ec, txs') \<Rightarrow> (ec, hd txs # txs'))
           else populate_txs locate self coinbase bip68 txs)"

section \<open>Serialization\<close>

interpretation transactions_codec: canonical_codec
  "write_puts (\<lambda>t. transaction_to_data t True)" "read_puts (\<lambda>r. transaction_from_data r True)"
  "puts_ok transaction_ok"
  by (rule transaction_codec.puts_canonical_codec)

lemma block_from_data_puts:
  "block_from_data r wit = (case header_from_data r of (h, r1) \<Rightarrow>
     case read_puts (\<lambda>r. transaction_from_data r wit) r1 of (txs, r3) \<Rightarrow> (make_block h txs (rgood r3), r3))"
  by (simp add: block_from_data_def read_puts_def case_prod_beta Let_def)

lemma block_to_data_puts:
  "block_to_data b wit = header_to_data (blk_header b) @ write_puts (\<lambda>t. transaction_to_data t wit) (blk_txs b)"
  by (simp add: block_to_data_def write_puts_def)

lemma make_block_sel [simp]:
  "blk_header (make_block h txs v) = h" "blk_txs (make_block h txs v) = txs"
  by (simp_all add: make_block_def)

lemma block_from_data_roundtrip:
  assumes "block_ok b" "feeds r (block_to_data b True)"
  shows "fst (block_from_data r True) = b \<and> moved r (length (block_to_data b True)) (snd (block_from_data r True))"
proof -
  have ok: "b = make_block (blk_header b) (blk_txs b) True" "header_ok (blk_header b)"
      "puts_ok transaction_ok (blk_txs b)"
    using assms(1) unfolding block_ok_def by blast+
  from header_codec.dec_enc_then [OF ok(2) assms(2) [unfolded block_to_data_puts]]
  obtain r1 where r1: "header_from_data r = (blk_header b, r1)" "moved r (length (header_to_data (blk_header b))) r1"
      "feeds r1 (write_puts (\<lambda>t. transaction_to_data t True) (blk_txs b))" .
  from transactions_codec.dec_enc [OF ok(3) r1(3)] obtain r2 where r2:
      "read_puts (\<lambda>r. transaction_from_data r True) r1 = (blk_txs b, r2)"
      "moved r1 (length (write_puts (\<lambda>t. transaction_to_data t True) (blk_txs b))) r2" by blast
  show ?thesis using r1(1) r2(1) moved_trans [OF r1(2) r2(2)] moved_good [OF r2(2)] ok(1)
    by (simp add: block_from_data_puts block_to_data_puts)
qed

lemma block_from_data_sticky: "rgood (snd (block_from_data r True)) \<Longrightarrow> rgood r"
  by (auto simp: block_from_data_puts case_prod_beta dest!: transactions_codec.sticky header_codec.sticky)

lemma block_from_data_canonical:
  assumes "ready r" "block_from_data r True = (b, s)" "rgood s"
  shows "block_ok b \<and> consumed r (block_to_data b True) s"
proof -
  obtain h r1 where h: "header_from_data r = (h, r1)" by fastforce
  obtain txs where txs: "read_puts (\<lambda>r. transaction_from_data r True) r1 = (txs, s)" "b = make_block h txs True"
    using assms(2,3) h by (auto simp: block_from_data_puts split: prod.splits)
  have g: "rgood r1" using transactions_codec.sticky [of r1] txs(1) assms(3) by simp
  have c: "header_ok h" "consumed r (header_to_data h) r1" using header_codec.canonical [OF assms(1) h g] by simp_all
  have "puts_ok transaction_ok txs" "consumed r1 (write_puts (\<lambda>t. transaction_to_data t True) txs) s"
    using transactions_codec.canonical [OF consumed_ready [OF c(2) g] txs(1) assms(3)] by simp_all
  with c consumed_trans [OF c(2)] txs(2) show ?thesis by (simp add: block_ok_def block_to_data_puts)
qed

interpretation block_codec: canonical_codec
  "\<lambda>b. block_to_data b True" "\<lambda>r. block_from_data r True" block_ok
  by unfold_locales
    (rule block_from_data_roundtrip block_from_data_sticky block_from_data_canonical; assumption)+

lemma block_size_length:
  assumes "block_ok b"
  shows "block_serialized_size b w = min max_size_t (length (block_to_data b w))"
proof -
  have ok: "b = make_block (blk_header b) (blk_txs b) True" "header_ok (blk_header b)"
      "list_all transaction_ok (blk_txs b)"
    using assms unfolding block_ok_def puts_ok_def by blast+
  have "foldl (\<lambda>acc t. ceilinged_add acc (transaction_serialized_size t v)) 0 (blk_txs b) =
      min max_size_t (length (concat (map (\<lambda>t. transaction_to_data t v) (blk_txs b))))" for v
    using ok(3) by (intro foldl_sizes) (auto simp: list_all_iff transaction_size_length)
  moreover have "blk_nominal_size b = fst (block_sizes (blk_txs b))"
      "blk_witnessed_size b = snd (block_sizes (blk_txs b))"
    by (subst ok(1), simp add: make_block_def)+
  ultimately show ?thesis using header_to_data_size [OF ok(2)]
    by (simp add: block_serialized_size_def block_sizes_def Let_def ceilinged_add_min min_absorb_add
        block_to_data_def size_simps add.assoc) (auto simp: min_def)
qed

text \<open>
  C25. Blocks are read back as they were written and in no other way: a buffer is the serialization
  of a well formed block exactly when reading it returns that block from a good stream and uses
  every byte; and the size that the block announces is the length of that buffer.
\<close>

theorem block_roundtrip:
  assumes "length bs \<le> max_size_t" "block_ok b"
  shows "(bs = block_to_data b True \<longleftrightarrow>
      (\<exists>s. block_from_data (reader_of bs) True = (b, s) \<and> rgood s \<and> rpos s = length bs)) \<and>
    (bs = block_to_data b True \<longrightarrow> block_serialized_size b True = length bs)"
  using block_codec.buffer_iff [OF assms] block_size_length [OF assms(2), of True] assms(1) by auto

definition example_block :: chain_block where
  "example_block = make_block example_header [example_transaction] True"

lemma example_block_ok: "block_ok example_block"
  by (simp add: block_ok_def example_block_def example_transaction_ok puts_ok_def header_ok_def
      example_header_def hash_size_def null_hash_def max_count_def max_block_size_def)

lemma example_block_length: "length (block_to_data example_block True) \<le> max_size_t"
  using header_to_data_size [of example_header] example_block_ok
  by (simp add: example_block_def block_to_data_def block_ok_def size_simps header_serialized_size_def
        hash_size_def variable_size_def varint_simps transaction_to_data_def example_transaction_def
        make_transaction_def input_to_data_def output_to_data_def point_to_data_def make_input_def
        make_output_def make_point_def witness_to_data_def witness_of_stack_def make_witness_def
        write_element_def script_to_data_def script_serialized_size_def from_operations_def
        make_script_def ops_serialized_size_def write_little_endian_def write_byte_def limits)

theorem block_roundtrip_witness:
  "\<exists>s. block_from_data (reader_of (block_to_data example_block True)) True = (example_block, s) \<and> rgood s"
proof -
  from block_roundtrip [OF example_block_length example_block_ok] show ?thesis by blast
qed

section \<open>Hashes\<close>

text \<open>Dropping the marker, the flag and the witnesses of a serialization gives the plain one.\<close>

lemma desegregated_to_data:
  assumes "tx_segregated t"
  shows "desegregated (length (transaction_to_data t True)) (length (transaction_to_data t False))
    (transaction_to_data t True @ rest) = transaction_to_data t False"
proof -
  let ?v = "write_little_endian 4 (unat (tx_version t))" and ?l = "write_little_endian 4 (unat (tx_locktime t))"
  let ?m = "write_byte witness_marker @ write_byte witness_enabled"
  let ?w = "concat (map (\<lambda>i. witness_to_data (in_witness i) True) (tx_inputs t))"
  let ?p = "write_variable (length (tx_inputs t)) @ concat (map input_to_data (tx_inputs t)) @
     write_variable (length (tx_outputs t)) @ concat (map output_to_data (tx_outputs t))"
  have len: "length ?v = 4" "length ?l = 4" "length ?m = 2"
    by (simp_all add: write_little_endian_def write_byte_def)
  have T: "transaction_to_data t True = ?v @ ?m @ ?p @ ?w @ ?l"
    using assms by (simp add: transaction_to_data_def)
  have F: "transaction_to_data t False = ?v @ ?p @ ?l" by (simp add: transaction_to_data_def)
  have "length (transaction_to_data t True) - 4 = length (?v @ ?m @ ?p @ ?w)" using len unfolding T by simp
  then have l: "take 4 (drop (length (transaction_to_data t True) - 4) (transaction_to_data t True @ rest)) = ?l"
    using len unfolding T by simp
  have "length (transaction_to_data t False) - 8 = length ?p" using len unfolding F by simp
  moreover have "drop 6 (transaction_to_data t True @ rest) = ?p @ ?w @ ?l @ rest"
    using len unfolding T by simp
  ultimately have p: "take (length (transaction_to_data t False) - 8)
      (drop 6 (transaction_to_data t True @ rest)) = ?p" by simp
  have v: "take 4 (transaction_to_data t True @ rest) = ?v" using len unfolding T by simp
  have "\<not> length (transaction_to_data t True) < 4" "\<not> length (transaction_to_data t False) < 8"
    using len unfolding T F by simp_all
  then have "desegregated (length (transaction_to_data t True)) (length (transaction_to_data t False))
      (transaction_to_data t True @ rest) = ?v @ ?p @ ?l"
    unfolding desegregated_def floored_subtract_def Let_def using v p l by (simp del: take_append drop_append)
  then show ?thesis unfolding F .
qed

lemma size_variable_write: "n \<le> max_uint64 \<Longrightarrow> size_variable (hd (write_variable n @ rest)) = length (write_variable n)"
  by (auto simp: write_variable_def size_variable_def write_byte_def write_little_endian_def varint_simps
      limits word_unat_eq_iff unat_of_nat)

lemma set_tx_hashes_exact:
  assumes "list_all transaction_ok txs" "length (concat (map (\<lambda>t. transaction_to_data t True) txs)) \<le> max_size_t"
  shows "list_all2 (\<lambda>c t. nominal_hash c = Some (transaction_hash H t False) \<and>
      (\<forall>h. witness_hash c = Some h \<longrightarrow> \<not> tx_is_coinbase t \<longrightarrow> h = transaction_hash H t True))
    (set_tx_hashes H coinbase (concat (map (\<lambda>t. transaction_to_data t True) txs)) txs) txs"
  using assms
proof (induction txs arbitrary: coinbase)
  case (Cons t txs)
  let ?d = "transaction_to_data t True" and ?rest = "concat (map (\<lambda>t. transaction_to_data t True) txs)"
  have d: "length ?d \<le> max_size_t" "length ?rest \<le> max_size_t" using Cons.prems(2) by simp_all
  have short: "length (transaction_to_data t False) \<le> length ?d" by (simp add: transaction_to_data_def Let_def)
  have ok: "transaction_ok t" using Cons.prems(1) by simp
  have sz: "transaction_serialized_size t w = length (transaction_to_data t w)" for w
    using transaction_size_length [OF ok, of w] d(1) short by (cases w) simp_all
  have plain: "\<not> tx_segregated t \<Longrightarrow> ?d = transaction_to_data t False" by (simp add: transaction_to_data_def)
  from Cons.IH [OF _ d(2), of False] Cons.prems(1)
  show ?case
    using desegregated_to_data [of t ?rest] plain
    by (auto simp: sz Let_def transaction_hash_def desegregated_hash_def)
qed simp

text \<open>
  The hashes cached from the wire are the hashes of the objects: for the buffer a well formed
  block was read from, the cached header hash is the hash of the header, the cached identifiers
  are those of the transactions without their witnesses, and a cached witness hash is the one the
  transaction computes (unless the transaction is a coinbase, whose witness hash is null).
\<close>

theorem set_hashes_exact:
  assumes "block_ok b" "length (block_to_data b True) \<le> max_size_t"
  shows "fst (set_hashes bitcoin_hash (block_to_data b True) b) = header_hash bitcoin_hash (blk_header b) \<and>
    list_all2 (\<lambda>c t. nominal_hash c = Some (transaction_hash bitcoin_hash t False) \<and>
      (\<forall>h. witness_hash c = Some h \<longrightarrow> \<not> tx_is_coinbase t \<longrightarrow> h = transaction_hash bitcoin_hash t True))
    (snd (set_hashes bitcoin_hash (block_to_data b True) b)) (blk_txs b)"
proof -
  let ?t = "concat (map (\<lambda>t. transaction_to_data t True) (blk_txs b))" and ?n = "write_variable (length (blk_txs b))"
  have ok: "header_ok (blk_header b)" "length (blk_txs b) \<le> max_uint64" "list_all transaction_ok (blk_txs b)"
    using assms(1) max_count_less by (auto simp: block_ok_def puts_ok_def)
  note h = header_to_data_size [OF ok(1)]
  have "take header_serialized_size (block_to_data b True) = header_to_data (blk_header b)"
      "drop header_serialized_size (block_to_data b True) = ?n @ ?t"
    using h by (simp_all add: block_to_data_def)
  moreover have "drop (size_variable (hd (?n @ ?t))) (?n @ ?t) = ?t"
    using size_variable_write [OF ok(2), of ?t] by simp
  moreover have "length ?t \<le> max_size_t" using assms(2) by (simp add: block_to_data_def)
  ultimately show ?thesis using set_tx_hashes_exact [OF ok(3)]
    by (simp add: set_hashes_def Let_def header_hash_def)
qed

theorem set_hashes_exact_witness:
  "fst (set_hashes id (block_to_data example_block True) example_block) =
   header_hash id (blk_header example_block)"
  using set_hashes_exact [OF example_block_ok example_block_length, of id] by blast

section \<open>Scans\<close>

lemma scan_points_iff:
  "scan_points seen ins = (let keys = map (\<lambda>i. point_key (in_point i)) ins in
     if distinct keys \<and> set keys \<inter> set seen = {} then Some (rev keys @ seen) else None)"
  by (induction seen ins rule: scan_points.induct) (auto simp: Let_def)

lemma scan_spends_iff:
  "scan_spends seen txs \<longleftrightarrow> (let keys = map (\<lambda>i. point_key (in_point i)) (concat (map tx_inputs txs)) in
     \<not> (distinct keys \<and> set keys \<inter> set seen = {}))"
proof (induction seen txs rule: scan_spends.induct)
  case (2 seen t txs)
  show ?case
  proof (cases "scan_points seen (tx_inputs t)")
    case None
    then show ?thesis by (auto simp: scan_points_iff Let_def split: if_splits)
  next
    case (Some seen')
    let ?K = "map (\<lambda>i. point_key (in_point i)) (tx_inputs t)"
    let ?R = "map (\<lambda>i. point_key (in_point i)) (concat (map tx_inputs txs))"
    have K: "distinct ?K" "set ?K \<inter> set seen = {}" and seen': "set seen' = set ?K \<union> set seen"
      using Some by (auto simp: scan_points_iff Let_def split: if_splits)
    have "scan_spends seen' txs \<longleftrightarrow> \<not> (distinct ?R \<and> set ?R \<inter> set seen' = {})" using 2 [OF Some] by (simp only: Let_def)
    also have "\<dots> \<longleftrightarrow> \<not> (distinct (?K @ ?R) \<and> set (?K @ ?R) \<inter> set seen = {})"
      unfolding seen' distinct_append set_append using K by blast
    finally show ?thesis using Some by (simp only: Let_def scan_spends.simps option.case map_append concat.simps list.map)
  qed
qed (simp add: Let_def)

lemma point_key_eq: "point_key p = point_key q \<longleftrightarrow> point_hash p = point_hash q \<and> point_index p = point_index q"
  by (auto simp: point_key_def)

lemma distinct_point_keys:
  "distinct (map (\<lambda>i. point_key (in_point i)) ins) \<longleftrightarrow>
   distinct (map (\<lambda>i. (point_hash (in_point i), point_index (in_point i))) ins)"
  by (induction ins) (auto simp: point_key_eq)

lemma block_double_spend_iff:
  "block_internal_double_spend txs True \<longleftrightarrow>
   \<not> distinct (map (\<lambda>i. (point_hash (in_point i), point_index (in_point i))) (concat (map tx_inputs (tl txs))))"
  by (simp add: block_internal_double_spend_def scan_spends_iff distinct_point_keys)

text \<open>An input of one transaction that refers to a given hash.\<close>

definition refers :: "transaction \<Rightarrow> hash_digest \<Rightarrow> bool" where
  "refers t h \<longleftrightarrow> list_ex (\<lambda>i. point_hash (in_point i) = h) (tx_inputs t)"

lemma scan_references_iff:
  "scan_references H hashes txs \<longleftrightarrow> (\<exists>k<length txs. (\<exists>h\<in>set hashes. refers (txs ! k) h) \<or>
     (\<exists>j<k. refers (txs ! k) (transaction_hash H (txs ! j) False)))"
proof (induction H hashes txs rule: scan_references.induct)
  case (2 H hashes t txs)
  let ?h = "\<lambda>x. transaction_hash H x False"
  have hit: "list_ex (\<lambda>i. point_hash (in_point i) \<in> set hashes) (tx_inputs t) \<longleftrightarrow> (\<exists>h\<in>set hashes. refers t h)"
    by (auto simp: refers_def list_ex_iff)
  have step: "(\<exists>k<length (t # txs). (\<exists>h\<in>set hashes. refers ((t # txs) ! k) h) \<or>
      (\<exists>j<k. refers ((t # txs) ! k) (?h ((t # txs) ! j)))) \<longleftrightarrow>
    (\<exists>h\<in>set hashes. refers t h) \<or> (\<exists>k<length txs. (\<exists>h\<in>set (?h t # hashes). refers (txs ! k) h) \<or>
      (\<exists>j<k. refers (txs ! k) (?h (txs ! j))))"
    by (simp add: Ex_less_Suc2) auto
  show ?case
  proof (cases "\<exists>h\<in>set hashes. refers t h")
    case True
    then have "list_ex (\<lambda>i. point_hash (in_point i) \<in> set hashes) (tx_inputs t)" using hit by blast
    then show ?thesis using step True by simp
  next
    case False
    then have n: "\<not> list_ex (\<lambda>i. point_hash (in_point i) \<in> set hashes) (tx_inputs t)" using hit by blast
    then have "scan_references H hashes (t # txs) = scan_references H (?h t # hashes) txs" by simp
    then show ?thesis using 2 [OF n] step False by blast
  qed
qed simp

lemma rev_tl_nth: "0 < a \<Longrightarrow> a < length xs \<Longrightarrow> rev (tl xs) ! (length (tl xs) - a) = xs ! a"
proof (cases xs)
  case (Cons y ys)
  assume "0 < a" "a < length xs"
  with Cons have "length ys - Suc (length ys - a) = a - 1" "length ys - a < length ys" by auto
  with Cons \<open>0 < a\<close> show ?thesis by (simp add: rev_nth)
qed simp

lemma forward_reference_iff:
  "is_forward_reference H txs True \<longleftrightarrow> (\<exists>a b. 0 < a \<and> a < b \<and> b < length txs \<and>
     refers (txs ! a) (transaction_hash H (txs ! b) False))"
proof -
  let ?n = "length (tl txs)" and ?h = "\<lambda>x. transaction_hash H x False"
  have "is_forward_reference H txs True \<longleftrightarrow>
      (\<exists>k<?n. \<exists>j<k. refers (rev (tl txs) ! k) (?h (rev (tl txs) ! j)))"
    by (simp add: is_forward_reference_def scan_references_iff)
  also have "\<dots> \<longleftrightarrow> (\<exists>a b. 0 < a \<and> a < b \<and> b < length txs \<and> refers (txs ! a) (?h (txs ! b)))"
  proof
    assume "\<exists>k<?n. \<exists>j<k. refers (rev (tl txs) ! k) (?h (rev (tl txs) ! j))"
    then obtain k j where kj: "k < ?n" "j < k" "refers (rev (tl txs) ! k) (?h (rev (tl txs) ! j))" by blast
    then have "refers (txs ! (?n - k)) (?h (txs ! (?n - j)))" by (simp add: rev_nth nth_tl Suc_diff_Suc)
    moreover have "0 < ?n - k" "?n - k < ?n - j" "?n - j < length txs" using kj by auto
    ultimately show "\<exists>a b. 0 < a \<and> a < b \<and> b < length txs \<and> refers (txs ! a) (?h (txs ! b))" by blast
  next
    assume "\<exists>a b. 0 < a \<and> a < b \<and> b < length txs \<and> refers (txs ! a) (?h (txs ! b))"
    then obtain a b where ab: "0 < a" "a < b" "b < length txs" "refers (txs ! a) (?h (txs ! b))" by blast
    then have "rev (tl txs) ! (?n - a) = txs ! a" "rev (tl txs) ! (?n - b) = txs ! b"
      using rev_tl_nth [of a txs] rev_tl_nth [of b txs] by simp_all
    moreover have "?n - a < ?n" "?n - b < ?n - a" using ab by auto
    ultimately show "\<exists>k<?n. \<exists>j<k. refers (rev (tl txs) ! k) (?h (rev (tl txs) ! j))"
      using ab(4) by metis
  qed
  finally show ?thesis .
qed

lemma first_failure_ok: "\<not> failed (first_failure f txs) \<longleftrightarrow> list_all (\<lambda>t. \<not> failed (f t)) txs"
  by (induction f txs rule: first_failure.induct) auto

lemma failed_malleated_or: "failed ec \<Longrightarrow> failed (malleated_or H b ec)"
  by (simp add: malleated_or_def)

lemma first_error_failed:
  "list_all (\<lambda>(guard, ec). failed ec) checks \<Longrightarrow>
   failed (first_error final checks) \<longleftrightarrow> list_ex fst checks \<or> failed final"
  by (induction checks) (auto split: if_splits)

lemma block_check_ok:
  "\<not> failed (block_check H b identity) \<longleftrightarrow> blk_txs b \<noteq> [] \<and> \<not> block_is_oversized b \<and>
   tx_is_coinbase (hd (blk_txs b)) \<and> list_all (\<lambda>t. \<not> tx_is_coinbase t) (tl (blk_txs b)) \<and>
   \<not> is_forward_reference H (blk_txs b) True \<and> \<not> block_internal_double_spend (blk_txs b) True \<and>
   (identity \<longrightarrow> generate_merkle_root H b False = hdr_merkle_root (blk_header b)) \<and>
   list_all (\<lambda>t. \<not> failed (tx_check t)) (blk_txs b)"
  unfolding block_check_def
  by (subst first_error_failed)
    (auto simp: failed_malleated_or check_transactions_def first_failure_ok block_is_empty_def
      is_first_non_coinbase_def is_extra_coinbases_def is_invalid_merkle_root_def list_all_iff list_ex_iff)

text \<open>
  C3. What a block that passes its check is like: it has transactions, its size without witnesses
  is within the limit, the first and only the first transaction is a coinbase, no transaction
  spends an output of a later one, no two inputs spend the same output, the merkle root of the
  transaction identifiers is the one in the header, and every transaction passes its own check.
  Any other block is rejected.
\<close>

theorem block_check_exact:
  "\<not> failed (block_check bitcoin_hash b True) \<longleftrightarrow>
   blk_txs b \<noteq> [] \<and> block_serialized_size b False \<le> max_block_size \<and>
   (\<forall>k<length (blk_txs b). tx_is_coinbase (blk_txs b ! k) \<longleftrightarrow> k = 0) \<and>
   (\<forall>a b'. 0 < a \<and> a < b' \<and> b' < length (blk_txs b) \<longrightarrow>
     \<not> refers (blk_txs b ! a) (transaction_hash bitcoin_hash (blk_txs b ! b') False)) \<and>
   distinct (map (\<lambda>i. (point_hash (in_point i), point_index (in_point i)))
     (concat (map tx_inputs (tl (blk_txs b))))) \<and>
   merkle_root (double_hash bitcoin_hash) null_hash
     (map (\<lambda>t. transaction_hash bitcoin_hash t False) (blk_txs b)) = hdr_merkle_root (blk_header b) \<and>
   (\<forall>t\<in>set (blk_txs b). \<not> failed (tx_check t))"
proof -
  have cb: "blk_txs b \<noteq> [] \<Longrightarrow> tx_is_coinbase (hd (blk_txs b)) \<and> (\<forall>t\<in>set (tl (blk_txs b)). \<not> tx_is_coinbase t) \<longleftrightarrow>
      (\<forall>k<length (blk_txs b). tx_is_coinbase (blk_txs b ! k) \<longleftrightarrow> k = 0)"
    by (cases "blk_txs b") (auto simp: all_set_conv_all_nth All_less_Suc2)
  show ?thesis
    unfolding block_check_ok block_is_oversized_def not_less forward_reference_iff
      block_double_spend_iff generate_merkle_root_def transaction_hashes_def list_all_iff
    using cb by blast
qed

text \<open>A block with a coinbase only.\<close>

definition example_coinbase :: transaction where
  "example_coinbase = make_transaction 1
     [make_input (make_point null_hash null_index)
        (from_operations [op_of_code opcode_push_positive_1, op_of_code opcode_push_positive_1])
        default_witness max_input_sequence True]
     [make_output 5000 (from_operations []) True] 0 False True"

definition coinbase_block :: chain_block where
  "coinbase_block = make_block example_header [example_coinbase] True"

lemma example_coinbase_facts:
  "tx_is_coinbase example_coinbase" "\<not> failed (tx_check example_coinbase)"
  "transaction_serialized_size example_coinbase False \<le> 100"
  by (simp_all add: example_coinbase_def make_transaction_def tx_is_coinbase_def make_input_def
      make_point_def is_null_def tx_check_def is_empty_def is_invalid_coinbase_size_def
      script_serialized_size_def from_operations_def make_script_def ops_serialized_size_def op_size_def
      operation_serialized_size_def op_of_code_def is_payload_def min_coinbase_size_def
      max_coinbase_size_def ceilinged_add_def limits Let_def transaction_serialized_size_def tx_sizes_def
      base_size_def input_nominal_size_def variable_size_def varint_simps make_output_def
      output_serialized_size_def point_serialized_size_def hash_size_def data_size_def get_data_def)

lemma example_coinbase_ok: "transaction_ok example_coinbase"
proof -
  have "script_wf (from_operations [])"
    by (simp add: script_wf_def from_operations_def make_script_def)
  moreover have "script_wf (from_operations [op_of_code opcode_push_positive_1, op_of_code opcode_push_positive_1])"
    by (simp add: script_wf_def from_operations_def make_script_def op_of_code_def operation_wf_def
        data_size_def get_data_def header_size_def)
  ultimately show ?thesis
    by (simp add: transaction_ok_def example_coinbase_def make_transaction_def inputs_segregated_def
        make_input_def tx_input_ok_def point_ok_def make_point_def hash_size_def null_hash_def
        default_witness_def make_witness_def puts_ok_def output_ok_def make_output_def
        max_count_def max_bytes_def max_block_weight_def max_block_size_def)
qed

lemma coinbase_block_size: "block_serialized_size coinbase_block False \<le> max_block_size"
  using example_coinbase_facts(3)
  by (simp add: block_serialized_size_def coinbase_block_def make_block_def block_sizes_def
      header_serialized_size_def hash_size_def variable_size_def varint_simps ceilinged_add_def
      limits max_block_size_def Let_def)

lemma coinbase_block_root: "merkle_root (double_hash (\<lambda>_. null_hash)) null_hash
    (map (\<lambda>t. transaction_hash (\<lambda>_. null_hash) t False) (blk_txs coinbase_block)) = null_hash"
  by (simp add: coinbase_block_def merkle_root_def merkle_reduce.simps transaction_hash_def)

theorem block_check_exact_witness:
  "\<not> failed (block_check (\<lambda>_. null_hash) coinbase_block True)"
  using block_check_exact [of "\<lambda>_. null_hash" coinbase_block] example_coinbase_facts(1,2)
    coinbase_block_size coinbase_block_root
  by (simp add: coinbase_block_def example_header_def)

lemma coinbase_block_checks: "\<not> failed (block_check (\<lambda>_. null_hash) coinbase_block True)"
  using example_coinbase_facts(1,2) coinbase_block_size coinbase_block_root
  by (simp add: block_check_ok coinbase_block_def example_header_def block_is_oversized_def
      forward_reference_iff block_double_spend_iff generate_merkle_root_def transaction_hashes_def)

lemma coinbase_block_ok: "block_ok coinbase_block"
  using example_block_ok
  by (simp add: block_ok_def coinbase_block_def example_block_def example_coinbase_ok puts_ok_def
      max_count_def max_block_size_def)

lemma coinbase_block_length: "length (block_to_data coinbase_block False) \<le> max_size_t"
  using block_size_length [OF coinbase_block_ok, of False] coinbase_block_size
  by (simp add: max_block_size_def limits)

section \<open>Malleation of checked blocks\<close>

text \<open>
  A cloned node repeats a transaction identifier, at two places behind the first transaction.
\<close>

lemma malleated32_repeats:
  assumes "is_malleated32 xs"
  obtains i j where "0 < i" "i < j" "j < length xs" "xs ! i = xs ! j"
proof -
  obtain k where k: "cloned k xs" using assms is_malleated32_iff by blast
  let ?w = "2 ^ k :: nat"
  let ?c = "nodes (length xs) ?w"
  have c: "2 < ?c" "even ?c" and eq: "padded k (drop ((?c - 1) * ?w) xs) = take ?w (drop ((?c - 2) * ?w) xs)"
    using k by (simp_all add: cloned_def Let_def)
  have n: "(?c - 1) * ?w < length xs" "length xs \<le> ?c * ?w"
    using nodes_bounds [of ?w "length xs"] c(1) nodes_pos [of ?w "length xs"] by simp_all
  let ?b = "drop ((?c - 1) * ?w) xs"
  have b: "0 < length ?b" "length ?b \<le> ?w" using n c(1) by (simp_all add: algebra_simps)
  have p: "(?c - 1) * ?w = (?c - 2) * ?w + ?w" using c(1) by (simp add: algebra_simps)
  define m where "m = merkle_index 0 (length ?b) ?w"
  have m: "m < length ?b" unfolding m_def using b by (intro merkle_index_less) simp_all
  have "padded k ?b ! 0 = ?b ! m" by (simp add: padded_def m_def)
  also have "\<dots> = xs ! ((?c - 1) * ?w + m)" using n(1) by simp
  finally have "xs ! ((?c - 2) * ?w) = xs ! ((?c - 1) * ?w + m)" using eq n(1) p by simp
  moreover have "0 < (?c - 2) * ?w" "(?c - 2) * ?w < (?c - 1) * ?w + m" "(?c - 1) * ?w + m < length xs"
    using c(1) p m by auto
  ultimately show thesis by (rule that [rotated 3])
qed

text \<open>Identifiers of well formed transactions decide the transactions up to their witnesses.\<close>

lemma plain_data_inject:
  assumes "transaction_ok t" "transaction_ok u" "transaction_to_data t False = transaction_to_data u False"
    "length (transaction_to_data t False) \<le> max_size_t"
  shows "stripped t = stripped u"
proof -
  let ?r = "reader_of (transaction_to_data t False)"
  have "feeds ?r (transaction_to_data t False)" "feeds ?r (transaction_to_data u False)"
    using feeds_reader_of [OF assms(4)] assms(3) by simp_all
  with tx_plain_roundtrip [OF assms(1), of ?r False] tx_plain_roundtrip [OF assms(2), of ?r False]
  show ?thesis by simp
qed

lemma stripped_points: "map in_point (tx_inputs (stripped t)) = map in_point (tx_inputs t)"
  by (simp add: stripped_def make_transaction_def plain_def make_input_def)

text \<open>No two of these transactions have the same hash with different serializations.\<close>

definition hash_separates :: "(data_chunk \<Rightarrow> hash_digest) \<Rightarrow> transaction list \<Rightarrow> bool" where
  "hash_separates bitcoin_hash txs \<longleftrightarrow>
     inj_on bitcoin_hash ((\<lambda>t. transaction_to_data t False) ` set txs)"

lemma hash_separates_append:
  "hash_separates H (xs @ ys) \<Longrightarrow> hash_separates H xs \<and> hash_separates H ys"
  by (auto simp: hash_separates_def inj_on_def)

lemma tx_data_length:
  assumes "t \<in> set (blk_txs b)" "length (block_to_data b False) \<le> max_size_t"
  shows "length (transaction_to_data t False) \<le> max_size_t"
  using assms member_le_sum_list [of "length (transaction_to_data t False)"
      "map (\<lambda>t. length (transaction_to_data t False)) (blk_txs b)"]
  by (simp add: block_to_data_def length_concat comp_def)

lemma same_id_stripped:
  assumes "transaction_ok t" "transaction_ok u" "length (transaction_to_data t False) \<le> max_size_t"
    and "hash_separates H txs" "t \<in> set txs" "u \<in> set txs"
    and "transaction_hash H t False = transaction_hash H u False"
  shows "stripped t = stripped u"
proof -
  have "H (transaction_to_data t False) = H (transaction_to_data u False)"
    using assms(7) by (simp add: transaction_hash_def)
  then have "transaction_to_data t False = transaction_to_data u False"
    using assms(4-6) by (auto simp: hash_separates_def dest: inj_onD)
  from plain_data_inject [OF assms(1,2) this assms(3)] show ?thesis .
qed

lemma repeated_not_distinct:
  assumes "i < j" "j < length xs" "xs ! i = xs ! j" "xs ! i \<noteq> []"
  shows "\<not> distinct (concat xs)"
proof
  assume d: "distinct (concat xs)"
  have "xs = take j xs @ xs ! j # drop (Suc j) xs" using assms(2) by (rule id_take_nth_drop)
  then have "concat xs = concat (take j xs) @ xs ! j @ concat (drop (Suc j) xs)"
    by (metis concat.simps(2) concat_append)
  then have "set (concat (take j xs)) \<inter> set (xs ! j) = {}" using d by (metis distinct_append disjoint_insert
        Int_Un_distrib Un_empty set_append)
  moreover have "take j xs ! i \<in> set (take j xs)" using assms(1,2) by (intro nth_mem) simp
  then have "xs ! i \<in> set (take j xs)" using assms(1) by simp
  moreover obtain x where "x \<in> set (xs ! i)" using assms(4) by (cases "xs ! i") auto
  ultimately show False using assms(3) by auto
qed

lemma double_spend_of_repeat:
  assumes "0 < i" "i < j" "j < length txs" "tx_inputs (txs ! i) \<noteq> []"
    and "map in_point (tx_inputs (txs ! i)) = map in_point (tx_inputs (txs ! j))"
  shows "block_internal_double_spend txs True"
proof -
  let ?k = "\<lambda>i. (point_hash (in_point i), point_index (in_point i))"
  let ?xs = "map (\<lambda>t. map ?k (tx_inputs t)) (tl txs)"
  have ij: "i - 1 < j - 1" "j - 1 < length ?xs" using assms(1-3) by auto
  have nth: "?xs ! (m - 1) = map ?k (tx_inputs (txs ! m))" if "0 < m" "m < length txs" for m
    using that by (cases txs) (simp_all add: nth_Cons')
  have k: "map ?k ins = map (\<lambda>p. (point_hash p, point_index p)) (map in_point ins)" for ins by simp
  have "?xs ! (i - 1) = map ?k (tx_inputs (txs ! i))" "?xs ! (j - 1) = map ?k (tx_inputs (txs ! j))"
    using assms(1-3) by (intro nth; simp)+
  then have same: "?xs ! (i - 1) = ?xs ! (j - 1)" unfolding k assms(5) by simp
  have ne: "?xs ! (i - 1) \<noteq> []" using nth [of i] assms by simp
  have "\<not> distinct (concat ?xs)" by (rule repeated_not_distinct [OF ij same ne])
  moreover have "map ?k (concat (map tx_inputs (tl txs))) = concat ?xs" by (simp add: map_concat comp_def)
  ultimately show ?thesis unfolding block_double_spend_iff by simp
qed

lemma checked_not_malleated32:
  assumes "block_ok b" "length (block_to_data b False) \<le> max_size_t" "hash_separates H (blk_txs b)"
    and "\<not> failed (block_check H b identity)"
  shows "\<not> is_malleated32 (transaction_hashes H b False)"
proof
  let ?txs = "blk_txs b" and ?ids = "transaction_hashes H b False"
  note ok = assms(4) [unfolded block_check_ok]
  assume "is_malleated32 ?ids"
  then obtain i j where ij: "0 < i" "i < j" "j < length ?ids" "?ids ! i = ?ids ! j"
    by (rule malleated32_repeats)
  then have len: "j < length ?txs" "i < length ?txs" by (simp_all add: transaction_hashes_def)
  have mem: "?txs ! i \<in> set ?txs" "?txs ! j \<in> set ?txs" using len by simp_all
  have id: "transaction_hash H (?txs ! i) False = transaction_hash H (?txs ! j) False"
    using ij(4) len by (simp add: transaction_hashes_def)
  have wf: "transaction_ok (?txs ! i)" "transaction_ok (?txs ! j)"
    using assms(1) mem by (auto simp: block_ok_def puts_ok_def list_all_iff)
  have "stripped (?txs ! i) = stripped (?txs ! j)"
    by (rule same_id_stripped [OF wf tx_data_length [OF mem(1) assms(2)] assms(3) mem id])
  then have pts: "map in_point (tx_inputs (?txs ! i)) = map in_point (tx_inputs (?txs ! j))"
    using stripped_points by metis
  have "\<not> failed (tx_check (?txs ! i))" using ok mem(1) by (simp add: list_all_iff)
  then have "tx_inputs (?txs ! i) \<noteq> []" by (auto simp: tx_check_def is_empty_def Let_def split: if_splits)
  with double_spend_of_repeat [OF ij(1,2) len(1) _ pts] ok show False by simp
qed

text \<open>
  C5. The two kinds of malleation are subsumed by other checks, as the comments of the check say:
  a well formed block that passes its check is not reported as malleated, provided that the hash
  separates the serializations of its transactions. A cloned node would repeat a transaction, and
  with it a spent point; transactions of 64 bytes throughout are reported only without a coinbase.
\<close>

theorem checked_not_malleated:
  assumes "block_ok b" "length (block_to_data b False) \<le> max_size_t"
    and "hash_separates bitcoin_hash (blk_txs b)" "\<not> failed (block_check bitcoin_hash b identity)"
  shows "\<not> is_malleated bitcoin_hash b"
proof -
  have "\<not> is_malleated64 b" using assms(4) [unfolded block_check_ok] by (simp add: is_malleated64_def)
  with checked_not_malleated32 [OF assms] show ?thesis
    by (auto simp: is_malleated_def malleated32_size_def is_malleated32_def split: option.splits)
qed

theorem checked_not_malleated_witness:
  "\<not> is_malleated (\<lambda>_. null_hash) coinbase_block"
proof (rule checked_not_malleated)
  show "hash_separates (\<lambda>_. null_hash) (blk_txs coinbase_block)" by (simp add: hash_separates_def coinbase_block_def)
  show "block_ok coinbase_block" by (rule coinbase_block_ok)
  show "length (block_to_data coinbase_block False) \<le> max_size_t" by (rule coinbase_block_length)
  show "\<not> failed (block_check (\<lambda>_. null_hash) coinbase_block True)" by (rule coinbase_block_checks)
qed

text \<open>
  C2. A header commits to its transactions: two well formed blocks that pass their checks under
  headers with the same merkle root have the same transactions, up to witnesses, provided that
  the hash separates their transactions and their merkle trees hold no collision.
\<close>

theorem checked_blocks_commit:
  assumes "block_ok b" "block_ok c" "length (block_to_data b False) \<le> max_size_t"
    and "length (block_to_data c False) \<le> max_size_t"
    and "hash_separates bitcoin_hash (blk_txs b @ blk_txs c)"
    and "collision_free (double_hash bitcoin_hash) (transaction_hashes bitcoin_hash b False)
      (transaction_hashes bitcoin_hash c False)"
    and "\<not> failed (block_check bitcoin_hash b True)" "\<not> failed (block_check bitcoin_hash c True)"
    and "hdr_merkle_root (blk_header b) = hdr_merkle_root (blk_header c)"
  shows "map stripped (blk_txs b) = map stripped (blk_txs c)"
proof -
  let ?ids = "\<lambda>b. transaction_hashes bitcoin_hash b False"
  note sep = hash_separates_append [OF assms(5)]
  have "\<not> is_malleated32 (?ids b)" "\<not> is_malleated32 (?ids c)"
    using checked_not_malleated32 assms sep by blast+
  moreover have "?ids b \<noteq> []" "?ids c \<noteq> []"
      "merkle_root (double_hash bitcoin_hash) null_hash (?ids b) = merkle_root (double_hash bitcoin_hash) null_hash (?ids c)"
    using assms(7,8) [unfolded block_check_ok] assms(9) by (simp_all add: transaction_hashes_def generate_merkle_root_def)
  ultimately have ids: "?ids b = ?ids c" using same_root_same_list [OF _ _ _ _ assms(6)] by blast
  then have len: "length (blk_txs b) = length (blk_txs c)" by (metis length_map transaction_hashes_def)
  show ?thesis
  proof (rule nth_equalityI)
    fix k assume "k < length (map stripped (blk_txs b))"
    then have k: "k < length (blk_txs b)" "k < length (blk_txs c)" using len by simp_all
    then have mem: "blk_txs b ! k \<in> set (blk_txs b)" "blk_txs c ! k \<in> set (blk_txs c)" by simp_all
    have wf: "transaction_ok (blk_txs b ! k)" "transaction_ok (blk_txs c ! k)"
      using assms(1,2) mem by (auto simp: block_ok_def puts_ok_def list_all_iff)
    have "?ids b ! k = ?ids c ! k" using ids by simp
    then have "transaction_hash bitcoin_hash (blk_txs b ! k) False = transaction_hash bitcoin_hash (blk_txs c ! k) False"
      using k by (simp add: transaction_hashes_def)
    then have "stripped (blk_txs b ! k) = stripped (blk_txs c ! k)"
      using mem by (intro same_id_stripped [OF wf tx_data_length [OF mem(1) assms(3)] assms(5)]) simp_all
    then show "map stripped (blk_txs b) ! k = map stripped (blk_txs c) ! k" using k by simp
  qed (use len in simp)
qed

theorem checked_blocks_commit_witness:
  "map stripped (blk_txs coinbase_block) = map stripped (blk_txs coinbase_block)"
proof (rule checked_blocks_commit [OF coinbase_block_ok coinbase_block_ok coinbase_block_length
      coinbase_block_length _ _ coinbase_block_checks coinbase_block_checks refl])
  show "hash_separates (\<lambda>_. null_hash) (blk_txs coinbase_block @ blk_txs coinbase_block)"
    by (simp add: hash_separates_def coinbase_block_def)
  show "collision_free (double_hash (\<lambda>_. null_hash)) (transaction_hashes (\<lambda>_. null_hash) coinbase_block False)
      (transaction_hashes (\<lambda>_. null_hash) coinbase_block False)"
    by (simp add: collision_free_def transaction_hashes_def coinbase_block_def hashed.simps)
qed

section \<open>Issuance\<close>

lemma subsidy_bip42: "unat (subsidy height interval initial True) = unat initial div 2 ^ (height div interval)"
proof (cases "height div interval \<ge> 64")
  case True
  have "unat initial < 2 ^ 64" using unsigned_less [of initial] by simp
  also have "(2 :: nat) ^ 64 \<le> 2 ^ (height div interval)" using True by (intro power_increasing) simp_all
  finally show ?thesis using True by (simp add: subsidy_def shift_right_def Let_def)
qed (simp add: subsidy_def shift_right_def Let_def unat_drop_bit_eq drop_bit_nat_def)

lemma halvings_sum: "(\<Sum>k<m. a div 2 ^ k) + 2 * (a div 2 ^ m) \<le> 2 * (a :: nat)"
proof (induction m)
  case (Suc m)
  have "a div 2 ^ Suc m = a div 2 ^ m div 2" using div_mult2_eq [of a "2 ^ m" 2] by (simp add: mult.commute)
  then have "2 * (a div 2 ^ Suc m) \<le> a div 2 ^ m" by simp
  with Suc show ?case by simp
qed simp

lemma interval_sum:
  assumes "0 < interval"
  shows "(\<Sum>height<m * interval. f (height div interval)) = (\<Sum>k<m. interval * (f k :: nat))"
proof (induction m)
  case (Suc m)
  have "(\<Sum>height\<in>{m * interval..<Suc m * interval}. f (height div interval)) =
      (\<Sum>height\<in>{m * interval..<Suc m * interval}. f m)"
  proof (rule sum.cong)
    fix h assume "h \<in> {m * interval..<Suc m * interval}"
    then have "h div interval = m" using assms by (intro div_nat_eqI) (simp_all add: mult.commute)
    then show "f (h div interval) = f m" by simp
  qed simp
  moreover have "{..<Suc m * interval} = {..<m * interval} \<union> {m * interval..<Suc m * interval}" by auto
  ultimately show ?case using Suc by (simp add: sum.union_disjoint ivl_disj_int)
qed simp

text \<open>
  Issuance is bounded under bip42: the subsidy of a height is the initial subsidy divided by
  two to the number of halvings, and the subsidies of all heights together never exceed twice the
  initial subsidy times the interval. Without bip42 the subsidy starts over after 64 halvings.
\<close>

theorem subsidy_bounded:
  assumes "0 < interval"
  shows "(\<Sum>height<n. unat (subsidy height interval initial True)) \<le> 2 * unat initial * interval \<and>
    subsidy (height + 64 * interval) interval initial False = subsidy height interval initial False"
proof
  let ?f = "\<lambda>k. unat initial div 2 ^ k"
  have "n \<le> n * interval" using assms by simp
  then have "(\<Sum>height<n. ?f (height div interval)) \<le> (\<Sum>height<n * interval. ?f (height div interval))"
    by (intro sum_mono2) auto
  also have "\<dots> = interval * (\<Sum>k<n. ?f k)"
    using interval_sum [OF assms, where m = n and f = ?f] by (simp add: sum_distrib_left)
  also have "\<dots> \<le> interval * (2 * unat initial)"
    using halvings_sum [of "unat initial" n] by (intro mult_left_mono) linarith+
  finally show "(\<Sum>height<n. unat (subsidy height interval initial True)) \<le> 2 * unat initial * interval"
    by (simp add: subsidy_bip42 ac_simps)
  have "(height + 64 * interval) div interval = height div interval + 64" using assms by simp
  then show "subsidy (height + 64 * interval) interval initial False = subsidy height interval initial False"
    by (simp add: subsidy_def shift_right_def Let_def)
qed

theorem subsidy_bounded_witness:
  "(\<Sum>height<1000000. unat (subsidy height 210000 5000000000 True)) \<le> 2100000000000000"
  using subsidy_bounded [where interval = 210000 and n = 1000000 and initial = 5000000000] by simp

section \<open>Population\<close>

text \<open>What population does to an input, when it does not fail.\<close>

definition populated :: "(hash_digest \<times> u32 \<Rightarrow> chain_output option) \<Rightarrow> hash_digest \<Rightarrow> bool \<Rightarrow> bool \<Rightarrow>
  transaction \<Rightarrow> chain_input \<Rightarrow> chain_input \<Rightarrow> bool" where
  "populated locate self coinbase bip68 t i i' =
     (case locate (point_hash (in_point i), point_index (in_point i)) of
        None \<Rightarrow> i' = i
      | Some out \<Rightarrow> i' = i\<lparr>in_metadata := (in_metadata i)\<lparr>prevout_coinbase := False\<rparr>, in_prevout := Some out\<rparr> \<and>
          \<not> (coinbase \<and> point_hash (in_point i) = self) \<and> \<not> (bip68 \<and> is_internally_locked t i))"

lemma populate_inputs_ok:
  "populate_inputs locate self coinbase bip68 t ins = (ec, ins') \<Longrightarrow> \<not> failed ec \<Longrightarrow>
   list_all2 (populated locate self coinbase bip68 t) ins ins'"
proof (induction ins arbitrary: ins')
  case (Cons i ins)
  let ?p = "populate_inputs locate self coinbase bip68 t ins"
  have lock: "is_internally_locked t (i\<lparr>in_metadata := (in_metadata i)\<lparr>prevout_coinbase := b\<rparr>\<rparr>) =
      is_internally_locked t i" for b
    by (simp add: is_internally_locked_def is_relative_locked_def)
  obtain ec0 ins0 where p: "?p = (ec0, ins0)" by fastforce
  show ?case
  proof (cases "locate (point_hash (in_point i), point_index (in_point i))")
    case None
    then show ?thesis using Cons p by (auto simp: populated_def)
  next
    case (Some out)
    have "\<not> (coinbase \<and> point_hash (in_point i) = self)" "\<not> (bip68 \<and> is_internally_locked t i)"
      using Cons.prems Some lock by (auto simp: Let_def split: if_splits)
    moreover from this have "ec = ec0" "ins' = i\<lparr>in_metadata := (in_metadata i)\<lparr>prevout_coinbase := False\<rparr>,
        in_prevout := Some out\<rparr> # ins0"
      using Cons.prems(1) Some lock p by (auto simp: Let_def split: if_splits)
    ultimately show ?thesis using Cons.IH [of ins0] Cons.prems(2) p Some by (simp add: populated_def)
  qed
qed simp

lemma populate_txs_ok:
  "populate_txs locate self coinbase bip68 txs = (ec, txs') \<Longrightarrow> \<not> failed ec \<Longrightarrow>
   list_all2 (\<lambda>t t'. t' = t\<lparr>tx_inputs := tx_inputs t'\<rparr> \<and>
     list_all2 (populated locate self coinbase bip68 t) (tx_inputs t) (tx_inputs t')) txs txs'"
proof (induction txs arbitrary: txs')
  case (Cons t txs)
  obtain ec0 ins where i: "populate_inputs locate self coinbase bip68 t (tx_inputs t) = (ec0, ins)" by fastforce
  obtain ec1 rest where r: "populate_txs locate self coinbase bip68 txs = (ec1, rest)" by fastforce
  have "\<not> failed ec0" using Cons.prems i by (auto split: if_splits)
  moreover from this have "ec = ec1" "txs' = t\<lparr>tx_inputs := ins\<rparr> # rest" using Cons.prems(1) i r by auto
  ultimately show ?case using populate_inputs_ok [OF i] Cons.IH [of rest] r Cons.prems(2) by simp
qed simp

text \<open>
  Previous outputs inside a block: when population succeeds, every input behind the coinbase
  that spends an output of the same block has that output as its previous output (of two
  transactions with the same identifier the first counts), is not marked as spending a coinbase,
  does not spend this block's own coinbase and is not locked against its own block; every other
  input and the rest of every transaction are as before.
\<close>

theorem populate_exact:
  assumes "txs \<noteq> []" "populate bitcoin_hash txs ctx True = (ec, txs')" "\<not> failed ec"
  shows "hd txs' = hd txs \<and>
    list_all2 (\<lambda>t t'. t' = t\<lparr>tx_inputs := tx_inputs t'\<rparr> \<and>
      list_all2 (\<lambda>i i'. case map_of (output_points bitcoin_hash txs) (point_hash (in_point i), point_index (in_point i)) of
          None \<Rightarrow> i' = i
        | Some out \<Rightarrow> in_prevout i' = Some out \<and> \<not> prevout_coinbase (in_metadata i') \<and>
            point_hash (in_point i) \<noteq> transaction_hash bitcoin_hash (hd txs) False \<and>
            \<not> (ctx_enabled ctx bip68_rule \<and> is_internally_locked t i) \<and>
            i' = i\<lparr>in_metadata := in_metadata i', in_prevout := in_prevout i'\<rparr>)
        (tx_inputs t) (tx_inputs t')) (tl txs) (tl txs')"
proof -
  let ?l = "map_of (output_points bitcoin_hash txs)" and ?s = "transaction_hash bitcoin_hash (hd txs) False"
    and ?b = "ctx_enabled ctx bip68_rule"
  obtain ec0 rest where r: "populate_txs ?l ?s True ?b (tl txs) = (ec0, rest)" by fastforce
  then have "txs' = hd txs # rest" "ec0 = ec" using assms(1,2) by (auto simp: populate_def)
  with populate_txs_ok [OF r] assms(3) show ?thesis
    by (auto elim!: list_all2_mono simp: populated_def split: option.splits)
qed

theorem populate_exact_witness:
  "hd (snd (populate (\<lambda>_. null_hash) [example_coinbase, example_transaction] \<lparr>ctx_flags = 0,
     ctx_timestamp = 0, ctx_median_time_past = 0, ctx_height = 5, ctx_minimum_block_version = 0,
     ctx_work_required = 0, ctx_previous_timestamp = 0\<rparr> True)) = example_coinbase"
proof -
  let ?ctx = "\<lparr>ctx_flags = 0, ctx_timestamp = 0, ctx_median_time_past = 0, ctx_height = 5,
    ctx_minimum_block_version = 0, ctx_work_required = 0, ctx_previous_timestamp = 0\<rparr>"
  let ?txs = "[example_coinbase, example_transaction]"
  let ?p = "populate (\<lambda>_. null_hash) ?txs ?ctx True"
  have "map_of (output_points (\<lambda>_. null_hash) ?txs) (replicate 32 1, 7) = None"
    by (auto simp: map_of_eq_None_iff output_points_def transaction_hash_def null_hash_def
        hash_size_def set_zip)
  then have "\<not> failed (fst ?p)"
    by (simp add: populate_def example_transaction_def make_transaction_def make_input_def make_point_def)
  with populate_exact [of ?txs "\<lambda>_. null_hash" ?ctx "fst ?p" "snd ?p"] show ?thesis by simp
qed

section \<open>Value\<close>

definition value_in :: "transaction \<Rightarrow> nat" where
  "value_in t = sum_list (map (\<lambda>i. case in_prevout i of None \<Rightarrow> 0 | Some p \<Rightarrow> unat (out_value p)) (tx_inputs t))"

definition value_out :: "transaction \<Rightarrow> nat" where
  "value_out t = sum_list (map (\<lambda>p. unat (out_value p)) (tx_outputs t))"

lemma accepted_value:
  assumes "\<not> failed (tx_accept t ctx)" "\<not> tx_is_coinbase t" "value_in t < max_size_t"
  shows "value_out t \<le> value_in t" "fee t = value_in t - value_out t"
  using assms tx_value_sum [of t] tx_spend_sum [of t]
  by (auto simp: tx_accept_def is_overspent_def fee_def floored_subtract_def value_in_def value_out_def
      min_def split: if_splits)

lemma sum_list_pointwise:
  "(\<And>x. x \<in> set xs \<Longrightarrow> f x + g x = (h x :: nat)) \<Longrightarrow> sum_list (map f xs) + sum_list (map g xs) = sum_list (map h xs)"
proof (induction xs)
  case (Cons x xs)
  from Cons.prems [of x] have "f x + g x = h x" by simp
  moreover from Cons have "sum_list (map f xs) + sum_list (map g xs) = sum_list (map h xs)" by simp
  ultimately show ?case by simp
qed simp

text \<open>
  C1. A block creates no value beyond its subsidy: if a block passes its check and is accepted,
  its coinbase has no previous output, and the values spent, issued and claimed do not reach the
  ceiling of 64 bits, then all its outputs together are worth no more than all the outputs it
  spends together with the subsidy of its height.
\<close>

theorem block_conserves_value:
  assumes "\<not> failed (block_check bitcoin_hash b identity)" "\<not> failed (block_accept b ctx interval initial)"
    and "value_in (hd (blk_txs b)) = 0"
    and "sum_list (map value_in (blk_txs b)) +
      unat (subsidy (ctx_height ctx) interval initial (ctx_enabled ctx bip42_rule)) < max_size_t"
  shows "sum_list (map value_out (blk_txs b)) \<le> sum_list (map value_in (blk_txs b)) +
    unat (subsidy (ctx_height ctx) interval initial (ctx_enabled ctx bip42_rule))"
proof -
  let ?s = "unat (subsidy (ctx_height ctx) interval initial (ctx_enabled ctx bip42_rule))"
  note ok = assms(1) [unfolded block_check_ok]
  obtain c txs where b: "blk_txs b = c # txs" using ok by (cases "blk_txs b") auto
  have ins: "value_in c = 0" "sum_list (map value_in txs) + ?s < max_size_t" using assms(3,4) b by simp_all
  have acc: "\<not> block_is_overspent b (ctx_height ctx) interval initial (ctx_enabled ctx bip42_rule)"
      "list_all (\<lambda>t. \<not> failed (tx_accept t ctx)) txs"
    using assms(2) b by (auto simp: block_accept_def Let_def accept_transactions_def first_failure_ok split: if_splits)
  have "tx_value c = min max_size_t (value_in c)" by (simp add: tx_value_sum value_in_def)
  then have fee_c: "fee c = 0" using ins(1) by (simp add: fee_def floored_subtract_def)
  have each: "value_out t \<le> value_in t \<and> fee t = value_in t - value_out t" if "t \<in> set txs" for t
  proof -
    have "value_in t \<le> sum_list (map value_in txs)" using that by (simp add: member_le_sum_list)
    then have "value_in t < max_size_t" using ins(2) by linarith
    then show ?thesis using accepted_value [of t ctx] acc(2) ok that b by (simp add: list_all_iff)
  qed
  then have sum: "sum_list (map value_out txs) + sum_list (map fee txs) = sum_list (map value_in txs)"
    by (intro sum_list_pointwise) auto
  have "fees b = min max_size_t (sum_list (map fee (c # txs)))" by (simp only: fees_def b foldl_ceilinged)
  then have "fees b = sum_list (map fee txs)" using ins(2) fee_c sum by simp
  then have "reward b (ctx_height ctx) interval initial (ctx_enabled ctx bip42_rule) = sum_list (map fee txs) + ?s"
    using ins(2) sum by (simp add: reward_def ceilinged_add_def)
  moreover have "claim b = min max_size_t (value_out c)" by (simp add: claim_def b tx_spend_sum value_out_def)
  ultimately have "min max_size_t (value_out c) \<le> sum_list (map fee txs) + ?s"
    using acc(1) unfolding block_is_overspent_def by linarith
  then have "value_out c \<le> sum_list (map fee txs) + ?s" using ins(2) sum by linarith
  then show ?thesis using sum by (simp add: b)
qed

theorem block_conserves_value_witness:
  "sum_list (map value_out (blk_txs coinbase_block)) \<le> 5000"
proof -
  let ?ctx = "\<lparr>ctx_flags = 0, ctx_timestamp = 0, ctx_median_time_past = 0, ctx_height = 0,
    ctx_minimum_block_version = 0, ctx_work_required = 0, ctx_previous_timestamp = 0\<rparr>"
  have s: "subsidy 0 210000 5000 bip42 = 5000" for bip42 by (simp add: subsidy_def shift_right_def)
  have v: "value_in example_coinbase = 0"
    by (simp add: value_in_def example_coinbase_def make_transaction_def make_input_def)
  have "claim coinbase_block = 5000"
    by (simp add: claim_def coinbase_block_def tx_spend_sum example_coinbase_def make_transaction_def
        make_output_def limits)
  moreover have "block_signature_operations coinbase_block p q = 0" for p q
    by (simp add: block_signature_operations_def coinbase_block_def example_coinbase_def
        make_transaction_def tx_signature_operations_def input_signature_operations_def
        output_signature_operations_def make_input_def make_output_def signature_operations_def
        from_operations_def make_script_def op_of_code_def is_single_sigop_def is_multiple_sigop_def
        ceilinged_add_def sigop_step_def Let_def)
  ultimately have a: "\<not> failed (block_accept coinbase_block ?ctx 210000 5000)"
    by (simp add: limits block_accept_def Let_def accept_transactions_def coinbase_block_def s
        block_is_overspent_def reward_def ceilinged_add_def block_signature_operations_limited_def)
  have "value_in (hd (blk_txs coinbase_block)) = 0" using v by (simp add: coinbase_block_def)
  from block_conserves_value [OF coinbase_block_checks a this] v s show ?thesis
    by (simp add: coinbase_block_def limits)
qed

end
