(* ===== verification/Settings.thy ===== *)
theory Settings
  imports Block
begin

text \<open>
  Checkpoints, the configuration of forks and the consensus settings of the four networks:
  \<open>src/chain/checkpoint.cpp\<close>, \<open>forks.hpp\<close>, \<open>settings.hpp\<close> and \<open>src/settings.cpp\<close>. Of the settings
  the minimum work is left out, which nothing here reads. A hash in the source is text, most
  significant byte first; here it is the little endian digest of the number that text denotes.
\<close>

section \<open>Checkpoints\<close>

record checkpoint =
  cp_hash :: hash_digest
  cp_height :: nat
  cp_valid :: bool

definition default_checkpoint :: checkpoint where
  "default_checkpoint = \<lparr>cp_hash = null_hash, cp_height = 0, cp_valid = False\<rparr>"

definition make_checkpoint :: "nat \<Rightarrow> nat \<Rightarrow> checkpoint" where
  "make_checkpoint hash height = \<lparr>cp_hash = le_bytes 32 hash, cp_height = height, cp_valid = True\<rparr>"

definition checkpoint_equals :: "checkpoint \<Rightarrow> hash_digest \<Rightarrow> nat \<Rightarrow> bool" where
  "checkpoint_equals c hash height \<longleftrightarrow> cp_hash c = hash \<and> cp_height c = height"

definition is_at :: "checkpoint list \<Rightarrow> nat \<Rightarrow> bool" where
  "is_at checkpoints height \<longleftrightarrow> list_ex (\<lambda>item. height = cp_height item) checkpoints"

definition is_under :: "checkpoint list \<Rightarrow> nat \<Rightarrow> bool" where
  "is_under checkpoints height \<longleftrightarrow> list_ex (\<lambda>item. height \<le> cp_height item) (rev checkpoints)"

definition is_conflict :: "checkpoint list \<Rightarrow> hash_digest \<Rightarrow> nat \<Rightarrow> bool" where
  "is_conflict checkpoints hash height =
     (case List.find (\<lambda>item. height = cp_height item) checkpoints of
        None \<Rightarrow> False
      | Some item \<Rightarrow> cp_hash item \<noteq> hash)"

section \<open>Forks\<close>

record forks =
  fork_bip16 :: bool
  fork_bip90 :: bool
  fork_bip30 :: bool
  fork_bip30_deactivate :: bool
  fork_bip30_reactivate :: bool
  fork_bip42 :: bool
  fork_bip34 :: bool
  fork_bip65 :: bool
  fork_bip66 :: bool
  fork_bip68 :: bool
  fork_bip112 :: bool
  fork_bip113 :: bool
  fork_bip141 :: bool
  fork_bip143 :: bool
  fork_bip147 :: bool
  fork_bip341 :: bool
  fork_bip342 :: bool
  fork_retarget :: bool
  fork_difficult :: bool
  fork_time_warp_patch :: bool
  fork_block_storm_patch :: bool
  fork_ltc_time_warp_patch :: bool
  fork_ltc_retarget_overflow_patch :: bool
  fork_ltc_scrypt_proof_of_work :: bool

section \<open>Settings\<close>

record settings =
  set_forks :: forks
  set_initial_subsidy_bitcoin :: u64
  set_subsidy_interval_blocks :: u32
  set_timestamp_limit_seconds :: u32
  set_checkpoints :: "checkpoint list"
  set_genesis_block :: chain_block
  set_retargeting_factor :: u32
  set_retargeting_interval_seconds :: u32
  set_block_spacing_seconds :: u32
  set_proof_of_work_limit :: u32
  set_first_version :: u32
  set_bip34_version :: u32
  set_bip66_version :: u32
  set_bip65_version :: u32
  set_bip9_version_bit0 :: u32
  set_bip9_version_bit1 :: u32
  set_bip9_version_bit2 :: u32
  set_bip9_version_base :: u32
  set_bip16_activation_time :: u32
  set_bip34_activation_threshold :: nat
  set_bip34_enforcement_threshold :: nat
  set_bip34_activation_sample :: nat
  set_bip90_bip34_height :: nat
  set_bip90_bip65_height :: nat
  set_bip90_bip66_height :: nat
  set_bip30_reactivate_height :: nat
  set_bip30_deactivate_checkpoint :: checkpoint
  set_bip9_bit0_active_checkpoint :: checkpoint
  set_bip9_bit1_active_checkpoint :: checkpoint
  set_bip9_bit2_active_checkpoint :: checkpoint
  set_milestone :: checkpoint

definition default_forks :: forks where
  "default_forks = \<lparr>fork_bip16 = True, fork_bip90 = True, fork_bip30 = True,
     fork_bip30_deactivate = True, fork_bip30_reactivate = True, fork_bip42 = True,
     fork_bip34 = True, fork_bip65 = True, fork_bip66 = True,
     fork_bip68 = True, fork_bip112 = True, fork_bip113 = True,
     fork_bip141 = True, fork_bip143 = True, fork_bip147 = True,
     fork_bip341 = True, fork_bip342 = True, fork_retarget = True,
     fork_difficult = True, fork_time_warp_patch = False, fork_block_storm_patch = False,
     fork_ltc_time_warp_patch = False, fork_ltc_retarget_overflow_patch = False,
     fork_ltc_scrypt_proof_of_work = False\<rparr>"

definition default_block :: chain_block where
  "default_block = make_block \<lparr>hdr_version = 0, hdr_previous_block_hash = null_hash, hdr_merkle_root = null_hash,
     hdr_timestamp = 0, hdr_bits = 0, hdr_nonce = 0, hdr_valid = False\<rparr> [] False"

definition default_settings :: settings where
  "default_settings = \<lparr>set_forks = default_forks, set_initial_subsidy_bitcoin = 50,
     set_subsidy_interval_blocks = 210000, set_timestamp_limit_seconds = 2 * 60 * 60,
     set_checkpoints = [], set_genesis_block = default_block, set_retargeting_factor = 4,
     set_retargeting_interval_seconds = 2 * 7 * 24 * 60 * 60, set_block_spacing_seconds = 10 * 60,
     set_proof_of_work_limit = 0x1d00ffff, set_first_version = 1, set_bip34_version = 2,
     set_bip66_version = 3, set_bip65_version = 4, set_bip9_version_bit0 = push_bit 0 1,
     set_bip9_version_bit1 = push_bit 1 1, set_bip9_version_bit2 = push_bit 2 1,
     set_bip9_version_base = 0x20000000, set_bip16_activation_time = 0,
     set_bip34_activation_threshold = 0, set_bip34_enforcement_threshold = 0,
     set_bip34_activation_sample = 0, set_bip90_bip34_height = 0, set_bip90_bip65_height = 0,
     set_bip90_bip66_height = 0, set_bip30_reactivate_height = 0,
     set_bip30_deactivate_checkpoint = default_checkpoint,
     set_bip9_bit0_active_checkpoint = default_checkpoint,
     set_bip9_bit1_active_checkpoint = default_checkpoint,
     set_bip9_bit2_active_checkpoint = default_checkpoint, set_milestone = default_checkpoint\<rparr>"

definition mainnet_genesis :: data_chunk where
  "mainnet_genesis = [0x01, 0x00, 0x00, 0x00, 0x00, 0x00, 0x00, 0x00, 0x00, 0x00, 0x00, 0x00, 0x00, 0x00, 0x00, 0x00,
     0x00, 0x00, 0x00, 0x00, 0x00, 0x00, 0x00, 0x00, 0x00, 0x00, 0x00, 0x00, 0x00, 0x00, 0x00, 0x00,
     0x00, 0x00, 0x00, 0x00, 0x3b, 0xa3, 0xed, 0xfd, 0x7a, 0x7b, 0x12, 0xb2, 0x7a, 0xc7, 0x2c, 0x3e,
     0x67, 0x76, 0x8f, 0x61, 0x7f, 0xc8, 0x1b, 0xc3, 0x88, 0x8a, 0x51, 0x32, 0x3a, 0x9f, 0xb8, 0xaa,
     0x4b, 0x1e, 0x5e, 0x4a, 0x29, 0xab, 0x5f, 0x49, 0xff, 0xff, 0x00, 0x1d, 0x1d, 0xac, 0x2b, 0x7c,
     0x01, 0x01, 0x00, 0x00, 0x00, 0x01, 0x00, 0x00, 0x00, 0x00, 0x00, 0x00, 0x00, 0x00, 0x00, 0x00,
     0x00, 0x00, 0x00, 0x00, 0x00, 0x00, 0x00, 0x00, 0x00, 0x00, 0x00, 0x00, 0x00, 0x00, 0x00, 0x00,
     0x00, 0x00, 0x00, 0x00, 0x00, 0x00, 0xff, 0xff, 0xff, 0xff, 0x4d, 0x04, 0xff, 0xff, 0x00, 0x1d,
     0x01, 0x04, 0x45, 0x54, 0x68, 0x65, 0x20, 0x54, 0x69, 0x6d, 0x65, 0x73, 0x20, 0x30, 0x33, 0x2f,
     0x4a, 0x61, 0x6e, 0x2f, 0x32, 0x30, 0x30, 0x39, 0x20, 0x43, 0x68, 0x61, 0x6e, 0x63, 0x65, 0x6c,
     0x6c, 0x6f, 0x72, 0x20, 0x6f, 0x6e, 0x20, 0x62, 0x72, 0x69, 0x6e, 0x6b, 0x20, 0x6f, 0x66, 0x20,
     0x73, 0x65, 0x63, 0x6f, 0x6e, 0x64, 0x20, 0x62, 0x61, 0x69, 0x6c, 0x6f, 0x75, 0x74, 0x20, 0x66,
     0x6f, 0x72, 0x20, 0x62, 0x61, 0x6e, 0x6b, 0x73, 0xff, 0xff, 0xff, 0xff, 0x01, 0x00, 0xf2, 0x05,
     0x2a, 0x01, 0x00, 0x00, 0x00, 0x43, 0x41, 0x04, 0x67, 0x8a, 0xfd, 0xb0, 0xfe, 0x55, 0x48, 0x27,
     0x19, 0x67, 0xf1, 0xa6, 0x71, 0x30, 0xb7, 0x10, 0x5c, 0xd6, 0xa8, 0x28, 0xe0, 0x39, 0x09, 0xa6,
     0x79, 0x62, 0xe0, 0xea, 0x1f, 0x61, 0xde, 0xb6, 0x49, 0xf6, 0xbc, 0x3f, 0x4c, 0xef, 0x38, 0xc4,
     0xf3, 0x55, 0x04, 0xe5, 0x1e, 0xc1, 0x12, 0xde, 0x5c, 0x38, 0x4d, 0xf7, 0xba, 0x0b, 0x8d, 0x57,
     0x8a, 0x4c, 0x70, 0x2b, 0x6b, 0xf1, 0x1d, 0x5f, 0xac, 0x00, 0x00, 0x00, 0x00]"

definition mainnet_forks :: forks where
  "mainnet_forks = \<lparr>fork_bip16 = True, fork_bip90 = True, fork_bip30 = True,
     fork_bip30_deactivate = True, fork_bip30_reactivate = True, fork_bip42 = True,
     fork_bip34 = True, fork_bip65 = True, fork_bip66 = True,
     fork_bip68 = True, fork_bip112 = True, fork_bip113 = True,
     fork_bip141 = True, fork_bip143 = True, fork_bip147 = True,
     fork_bip341 = True, fork_bip342 = True, fork_retarget = True,
     fork_difficult = True, fork_time_warp_patch = False, fork_block_storm_patch = False,
     fork_ltc_time_warp_patch = False, fork_ltc_retarget_overflow_patch = False,
     fork_ltc_scrypt_proof_of_work = False\<rparr>"

definition mainnet_settings :: settings where
  "mainnet_settings = default_settings\<lparr>set_forks := mainnet_forks,
     set_genesis_block := fst (block_from_data (reader_of mainnet_genesis) False),
     set_bip16_activation_time := 0x4f779a80,
     set_bip34_activation_threshold := 750,
     set_bip34_enforcement_threshold := 950,
     set_bip34_activation_sample := 1000,
     set_bip90_bip34_height := 227931,
     set_bip90_bip65_height := 388381,
     set_bip90_bip66_height := 363725,
     set_bip30_reactivate_height := 1983702,
     set_bip30_deactivate_checkpoint := make_checkpoint 0x24b89b42a942fe0d9fea3bb44ab7bd1b19115dd6a759c0808b8 227931,
     set_bip9_bit0_active_checkpoint := make_checkpoint 0x4a1b34462cb8aeebd5799177f7a29cf28f2d1961716b5b5 419328,
     set_bip9_bit1_active_checkpoint := make_checkpoint 0x1c8018d9cb3b742ef25114f27563e3fc4a1902167f9893 481824,
     set_bip9_bit2_active_checkpoint := make_checkpoint 0x687bca986194dc2c1f949318629b44bb54ec0a94d8244 709632,
     set_checkpoints := [make_checkpoint 0x4d9b4ef50f0f9d686fd69db2e03af35a100370c64632a983 295000,
       make_checkpoint 0x1ae8c72a0b0c301f67e3afca10e819efa9041e458e9bd7e40 279000,
       make_checkpoint 0x3887df1f29024b06fc2200b55f8af8f35453d7be294df2d214 250000,
       make_checkpoint 0x1c108384350f74090433e7fcf79a606b8e797f065b130575932 225430,
       make_checkpoint 0x1b4f4b433e81ee46494af945cf96014816a4e2370f11b23df4e 216116,
       make_checkpoint 0x48b95347e83192f69cf0366076336c639f9b7228e9ba171342e 210000,
       make_checkpoint 0x59f452a5f7340de6682a977387c17010ff6e6c3bd83ca8b1317 193000,
       make_checkpoint 0x99e61ea72015e79632f216fe6cb33d7899acb35b75c8303b763 168000,
       make_checkpoint 0x5b12ffd4cd315cd34ffd4a594f430ac814c91184a0d42d2b0fe 134444,
       make_checkpoint 0x291ce28027faea320c8d2b054b2e0fe44a773f3eefb151d6bdc97 105000,
       make_checkpoint 0x573993a3c9e41ce34471c079dcf5f52a0e824a81e7f953b8661a20 74000,
       make_checkpoint 0x2dd5588a74784eaa7ab0507a18ad16a236e7b1ce69f00d7ddfb5d0a6 33333,
       make_checkpoint 0x69e244f73d78e8fd29ba2fd2ed618bd6fa2ee92559f542fdb26e7c1d 11111],
     set_milestone := make_checkpoint 0x10b93c9ea1c29fea277383f0f7d1f26de8b5802e885ff 950000\<rparr>"

definition testnet3_genesis :: data_chunk where
  "testnet3_genesis = [0x01, 0x00, 0x00, 0x00, 0x00, 0x00, 0x00, 0x00, 0x00, 0x00, 0x00, 0x00, 0x00, 0x00, 0x00, 0x00,
     0x00, 0x00, 0x00, 0x00, 0x00, 0x00, 0x00, 0x00, 0x00, 0x00, 0x00, 0x00, 0x00, 0x00, 0x00, 0x00,
     0x00, 0x00, 0x00, 0x00, 0x3b, 0xa3, 0xed, 0xfd, 0x7a, 0x7b, 0x12, 0xb2, 0x7a, 0xc7, 0x2c, 0x3e,
     0x67, 0x76, 0x8f, 0x61, 0x7f, 0xc8, 0x1b, 0xc3, 0x88, 0x8a, 0x51, 0x32, 0x3a, 0x9f, 0xb8, 0xaa,
     0x4b, 0x1e, 0x5e, 0x4a, 0xda, 0xe5, 0x49, 0x4d, 0xff, 0xff, 0x00, 0x1d, 0x1a, 0xa4, 0xae, 0x18,
     0x01, 0x01, 0x00, 0x00, 0x00, 0x01, 0x00, 0x00, 0x00, 0x00, 0x00, 0x00, 0x00, 0x00, 0x00, 0x00,
     0x00, 0x00, 0x00, 0x00, 0x00, 0x00, 0x00, 0x00, 0x00, 0x00, 0x00, 0x00, 0x00, 0x00, 0x00, 0x00,
     0x00, 0x00, 0x00, 0x00, 0x00, 0x00, 0xff, 0xff, 0xff, 0xff, 0x4d, 0x04, 0xff, 0xff, 0x00, 0x1d,
     0x01, 0x04, 0x45, 0x54, 0x68, 0x65, 0x20, 0x54, 0x69, 0x6d, 0x65, 0x73, 0x20, 0x30, 0x33, 0x2f,
     0x4a, 0x61, 0x6e, 0x2f, 0x32, 0x30, 0x30, 0x39, 0x20, 0x43, 0x68, 0x61, 0x6e, 0x63, 0x65, 0x6c,
     0x6c, 0x6f, 0x72, 0x20, 0x6f, 0x6e, 0x20, 0x62, 0x72, 0x69, 0x6e, 0x6b, 0x20, 0x6f, 0x66, 0x20,
     0x73, 0x65, 0x63, 0x6f, 0x6e, 0x64, 0x20, 0x62, 0x61, 0x69, 0x6c, 0x6f, 0x75, 0x74, 0x20, 0x66,
     0x6f, 0x72, 0x20, 0x62, 0x61, 0x6e, 0x6b, 0x73, 0xff, 0xff, 0xff, 0xff, 0x01, 0x00, 0xf2, 0x05,
     0x2a, 0x01, 0x00, 0x00, 0x00, 0x43, 0x41, 0x04, 0x67, 0x8a, 0xfd, 0xb0, 0xfe, 0x55, 0x48, 0x27,
     0x19, 0x67, 0xf1, 0xa6, 0x71, 0x30, 0xb7, 0x10, 0x5c, 0xd6, 0xa8, 0x28, 0xe0, 0x39, 0x09, 0xa6,
     0x79, 0x62, 0xe0, 0xea, 0x1f, 0x61, 0xde, 0xb6, 0x49, 0xf6, 0xbc, 0x3f, 0x4c, 0xef, 0x38, 0xc4,
     0xf3, 0x55, 0x04, 0xe5, 0x1e, 0xc1, 0x12, 0xde, 0x5c, 0x38, 0x4d, 0xf7, 0xba, 0x0b, 0x8d, 0x57,
     0x8a, 0x4c, 0x70, 0x2b, 0x6b, 0xf1, 0x1d, 0x5f, 0xac, 0x00, 0x00, 0x00, 0x00]"

definition testnet3_forks :: forks where
  "testnet3_forks = \<lparr>fork_bip16 = True, fork_bip90 = True, fork_bip30 = True,
     fork_bip30_deactivate = True, fork_bip30_reactivate = True, fork_bip42 = True,
     fork_bip34 = True, fork_bip65 = True, fork_bip66 = True,
     fork_bip68 = True, fork_bip112 = True, fork_bip113 = True,
     fork_bip141 = True, fork_bip143 = True, fork_bip147 = True,
     fork_bip341 = True, fork_bip342 = True, fork_retarget = True,
     fork_difficult = False, fork_time_warp_patch = False, fork_block_storm_patch = False,
     fork_ltc_time_warp_patch = False, fork_ltc_retarget_overflow_patch = False,
     fork_ltc_scrypt_proof_of_work = False\<rparr>"

definition testnet3_settings :: settings where
  "testnet3_settings = default_settings\<lparr>set_forks := testnet3_forks,
     set_genesis_block := fst (block_from_data (reader_of testnet3_genesis) False),
     set_bip16_activation_time := 0x4f3af580,
     set_bip34_activation_threshold := 51,
     set_bip34_enforcement_threshold := 75,
     set_bip34_activation_sample := 100,
     set_bip90_bip34_height := 21111,
     set_bip90_bip65_height := 581885,
     set_bip90_bip66_height := 330776,
     set_bip30_reactivate_height := 486000000,
     set_bip30_deactivate_checkpoint := make_checkpoint 0x23b3a96d3484e5abb3755c413e7d41500f8e2a5c3f0dd01299cd8ef8 21111,
     set_bip9_bit0_active_checkpoint := make_checkpoint 0x25e930139bac5c6c31a403776da130831ab85be56578f3fa75369bb 770112,
     set_bip9_bit1_active_checkpoint := make_checkpoint 0x2b980fcd729daaa248fd9316a5200e9b367f4ff2c42453e84201ca 834624,
     set_bip9_bit2_active_checkpoint := make_checkpoint 0xeb906ab072652b86b05a1afeb95df53ed5c5a63aa3574e1f1b33 2011968,
     set_checkpoints := [make_checkpoint 0x2a936ca763904c3c35fce2f3556c559c0214345d31b1bcebf76acb70 546],
     set_milestone := make_checkpoint 0x93bcb68c03a9a168ae252572d348a2eaeba2cdf9231d73206f 2500000\<rparr>"

definition testnet4_genesis :: data_chunk where
  "testnet4_genesis = [0x01, 0x00, 0x00, 0x00, 0x00, 0x00, 0x00, 0x00, 0x00, 0x00, 0x00, 0x00, 0x00, 0x00, 0x00, 0x00,
     0x00, 0x00, 0x00, 0x00, 0x00, 0x00, 0x00, 0x00, 0x00, 0x00, 0x00, 0x00, 0x00, 0x00, 0x00, 0x00,
     0x00, 0x00, 0x00, 0x00, 0x4e, 0x7b, 0x2b, 0x91, 0x28, 0xfe, 0x02, 0x91, 0xdb, 0x06, 0x93, 0xaf,
     0x2a, 0xe4, 0x18, 0xb7, 0x67, 0xe6, 0x57, 0xcd, 0x40, 0x7e, 0x80, 0xcb, 0x14, 0x34, 0x22, 0x1e,
     0xae, 0xa7, 0xa0, 0x7a, 0x04, 0x6f, 0x35, 0x66, 0xff, 0xff, 0x00, 0x1d, 0xbb, 0x0c, 0x78, 0x17,
     0x01, 0x01, 0x00, 0x00, 0x00, 0x01, 0x00, 0x00, 0x00, 0x00, 0x00, 0x00, 0x00, 0x00, 0x00, 0x00,
     0x00, 0x00, 0x00, 0x00, 0x00, 0x00, 0x00, 0x00, 0x00, 0x00, 0x00, 0x00, 0x00, 0x00, 0x00, 0x00,
     0x00, 0x00, 0x00, 0x00, 0x00, 0x00, 0xff, 0xff, 0xff, 0xff, 0x55, 0x04, 0xff, 0xff, 0x00, 0x1d,
     0x01, 0x04, 0x4c, 0x4c, 0x30, 0x33, 0x2f, 0x4d, 0x61, 0x79, 0x2f, 0x32, 0x30, 0x32, 0x34, 0x20,
     0x30, 0x30, 0x30, 0x30, 0x30, 0x30, 0x30, 0x30, 0x30, 0x30, 0x30, 0x30, 0x30, 0x30, 0x30, 0x30,
     0x30, 0x30, 0x30, 0x30, 0x31, 0x65, 0x62, 0x64, 0x35, 0x38, 0x63, 0x32, 0x34, 0x34, 0x39, 0x37,
     0x30, 0x62, 0x33, 0x61, 0x61, 0x39, 0x64, 0x37, 0x38, 0x33, 0x62, 0x62, 0x30, 0x30, 0x31, 0x30,
     0x31, 0x31, 0x66, 0x62, 0x65, 0x38, 0x65, 0x61, 0x38, 0x65, 0x39, 0x38, 0x65, 0x30, 0x30, 0x65,
     0xff, 0xff, 0xff, 0xff, 0x01, 0x00, 0xf2, 0x05, 0x2a, 0x01, 0x00, 0x00, 0x00, 0x23, 0x21, 0x00,
     0x00, 0x00, 0x00, 0x00, 0x00, 0x00, 0x00, 0x00, 0x00, 0x00, 0x00, 0x00, 0x00, 0x00, 0x00, 0x00,
     0x00, 0x00, 0x00, 0x00, 0x00, 0x00, 0x00, 0x00, 0x00, 0x00, 0x00, 0x00, 0x00, 0x00, 0x00, 0x00,
     0xac, 0x00, 0x00, 0x00, 0x00]"

definition testnet4_forks :: forks where
  "testnet4_forks = \<lparr>fork_bip16 = True, fork_bip90 = True, fork_bip30 = True,
     fork_bip30_deactivate = True, fork_bip30_reactivate = True, fork_bip42 = True,
     fork_bip34 = True, fork_bip65 = True, fork_bip66 = True,
     fork_bip68 = True, fork_bip112 = True, fork_bip113 = True,
     fork_bip141 = True, fork_bip143 = True, fork_bip147 = True,
     fork_bip341 = True, fork_bip342 = True, fork_retarget = True,
     fork_difficult = False, fork_time_warp_patch = True, fork_block_storm_patch = True,
     fork_ltc_time_warp_patch = False, fork_ltc_retarget_overflow_patch = False,
     fork_ltc_scrypt_proof_of_work = False\<rparr>"

definition testnet4_settings :: settings where
  "testnet4_settings = default_settings\<lparr>set_forks := testnet4_forks,
     set_genesis_block := fst (block_from_data (reader_of testnet4_genesis) False),
     set_bip16_activation_time := 1329264000,
     set_bip34_activation_threshold := 51,
     set_bip34_enforcement_threshold := 75,
     set_bip34_activation_sample := 100,
     set_bip90_bip34_height := 1,
     set_bip90_bip65_height := 1,
     set_bip90_bip66_height := 1,
     set_bip30_reactivate_height := 486000000,
     set_bip30_deactivate_checkpoint := make_checkpoint 0x12982b6d5f621229286b880e909984df669c2afabb102ce311b13f28 1,
     set_bip9_bit0_active_checkpoint := make_checkpoint 0x12982b6d5f621229286b880e909984df669c2afabb102ce311b13f28 1,
     set_bip9_bit1_active_checkpoint := make_checkpoint 0x12982b6d5f621229286b880e909984df669c2afabb102ce311b13f28 1,
     set_bip9_bit2_active_checkpoint := make_checkpoint 0x12982b6d5f621229286b880e909984df669c2afabb102ce311b13f28 1,
     set_checkpoints := [make_checkpoint 0xda84f2bafbbc53dee25a72ae507ff4914b867c565be350b0da8bf043 0],
     set_milestone := make_checkpoint 0x2368b1e4ee27e2e85676ae6f9f9e69579b29093e9a82c170bf7cf8a 123613\<rparr>"

definition regtest_genesis :: data_chunk where
  "regtest_genesis = [0x01, 0x00, 0x00, 0x00, 0x00, 0x00, 0x00, 0x00, 0x00, 0x00, 0x00, 0x00, 0x00, 0x00, 0x00, 0x00,
     0x00, 0x00, 0x00, 0x00, 0x00, 0x00, 0x00, 0x00, 0x00, 0x00, 0x00, 0x00, 0x00, 0x00, 0x00, 0x00,
     0x00, 0x00, 0x00, 0x00, 0x3b, 0xa3, 0xed, 0xfd, 0x7a, 0x7b, 0x12, 0xb2, 0x7a, 0xc7, 0x2c, 0x3e,
     0x67, 0x76, 0x8f, 0x61, 0x7f, 0xc8, 0x1b, 0xc3, 0x88, 0x8a, 0x51, 0x32, 0x3a, 0x9f, 0xb8, 0xaa,
     0x4b, 0x1e, 0x5e, 0x4a, 0xda, 0xe5, 0x49, 0x4d, 0xff, 0xff, 0x7f, 0x20, 0x02, 0x00, 0x00, 0x00,
     0x01, 0x01, 0x00, 0x00, 0x00, 0x01, 0x00, 0x00, 0x00, 0x00, 0x00, 0x00, 0x00, 0x00, 0x00, 0x00,
     0x00, 0x00, 0x00, 0x00, 0x00, 0x00, 0x00, 0x00, 0x00, 0x00, 0x00, 0x00, 0x00, 0x00, 0x00, 0x00,
     0x00, 0x00, 0x00, 0x00, 0x00, 0x00, 0xff, 0xff, 0xff, 0xff, 0x4d, 0x04, 0xff, 0xff, 0x00, 0x1d,
     0x01, 0x04, 0x45, 0x54, 0x68, 0x65, 0x20, 0x54, 0x69, 0x6d, 0x65, 0x73, 0x20, 0x30, 0x33, 0x2f,
     0x4a, 0x61, 0x6e, 0x2f, 0x32, 0x30, 0x30, 0x39, 0x20, 0x43, 0x68, 0x61, 0x6e, 0x63, 0x65, 0x6c,
     0x6c, 0x6f, 0x72, 0x20, 0x6f, 0x6e, 0x20, 0x62, 0x72, 0x69, 0x6e, 0x6b, 0x20, 0x6f, 0x66, 0x20,
     0x73, 0x65, 0x63, 0x6f, 0x6e, 0x64, 0x20, 0x62, 0x61, 0x69, 0x6c, 0x6f, 0x75, 0x74, 0x20, 0x66,
     0x6f, 0x72, 0x20, 0x62, 0x61, 0x6e, 0x6b, 0x73, 0xff, 0xff, 0xff, 0xff, 0x01, 0x00, 0xf2, 0x05,
     0x2a, 0x01, 0x00, 0x00, 0x00, 0x43, 0x41, 0x04, 0x67, 0x8a, 0xfd, 0xb0, 0xfe, 0x55, 0x48, 0x27,
     0x19, 0x67, 0xf1, 0xa6, 0x71, 0x30, 0xb7, 0x10, 0x5c, 0xd6, 0xa8, 0x28, 0xe0, 0x39, 0x09, 0xa6,
     0x79, 0x62, 0xe0, 0xea, 0x1f, 0x61, 0xde, 0xb6, 0x49, 0xf6, 0xbc, 0x3f, 0x4c, 0xef, 0x38, 0xc4,
     0xf3, 0x55, 0x04, 0xe5, 0x1e, 0xc1, 0x12, 0xde, 0x5c, 0x38, 0x4d, 0xf7, 0xba, 0x0b, 0x8d, 0x57,
     0x8a, 0x4c, 0x70, 0x2b, 0x6b, 0xf1, 0x1d, 0x5f, 0xac, 0x00, 0x00, 0x00, 0x00]"

definition regtest_forks :: forks where
  "regtest_forks = \<lparr>fork_bip16 = True, fork_bip90 = True, fork_bip30 = True,
     fork_bip30_deactivate = True, fork_bip30_reactivate = True, fork_bip42 = True,
     fork_bip34 = True, fork_bip65 = True, fork_bip66 = True,
     fork_bip68 = True, fork_bip112 = True, fork_bip113 = True,
     fork_bip141 = True, fork_bip143 = True, fork_bip147 = True,
     fork_bip341 = True, fork_bip342 = True, fork_retarget = False,
     fork_difficult = True, fork_time_warp_patch = False, fork_block_storm_patch = False,
     fork_ltc_time_warp_patch = False, fork_ltc_retarget_overflow_patch = False,
     fork_ltc_scrypt_proof_of_work = False\<rparr>"

definition regtest_settings :: settings where
  "regtest_settings = default_settings\<lparr>set_forks := regtest_forks,
     set_genesis_block := fst (block_from_data (reader_of regtest_genesis) False),
     set_proof_of_work_limit := 0x207fffff,
     set_subsidy_interval_blocks := 150,
     set_bip16_activation_time := 0x4f3af580,
     set_bip34_activation_threshold := 0,
     set_bip34_enforcement_threshold := 0,
     set_bip34_activation_sample := 0,
     set_bip90_bip34_height := 100000000,
     set_bip90_bip65_height := 1351,
     set_bip90_bip66_height := 1251,
     set_bip30_reactivate_height := 0,
     set_bip30_deactivate_checkpoint := make_checkpoint 0x0 0,
     set_bip9_bit0_active_checkpoint := make_checkpoint 0xf9188f13cb7b2c71f2a335e3a4fc328bf5beb436012afca590b1a11466e2206 0,
     set_bip9_bit1_active_checkpoint := make_checkpoint 0xf9188f13cb7b2c71f2a335e3a4fc328bf5beb436012afca590b1a11466e2206 0,
     set_bip9_bit2_active_checkpoint := make_checkpoint 0xf9188f13cb7b2c71f2a335e3a4fc328bf5beb436012afca590b1a11466e2206 0,
     set_checkpoints := [],
     set_milestone := make_checkpoint 0xf9188f13cb7b2c71f2a335e3a4fc328bf5beb436012afca590b1a11466e2206 0\<rparr>"

section \<open>Computed properties\<close>

text \<open>
  The safe operations throw on overflow, which the callers here do not catch: \<open>None\<close>. The recursion
  of the maximum is over the halved subsidy.
\<close>

definition safe_add :: "nat \<Rightarrow> nat \<Rightarrow> nat option" where
  "safe_add a b = (if a + b > max_uint64 then None else Some (a + b))"

definition safe_multiply :: "nat \<Rightarrow> nat \<Rightarrow> nat option" where
  "safe_multiply a b = (if a * b > max_uint64 then None else Some (a * b))"

definition satoshi_per_bitcoin :: nat where "satoshi_per_bitcoin = 100000000"

definition bitcoin_to_satoshi :: "nat \<Rightarrow> nat option" where
  "bitcoin_to_satoshi v = safe_multiply v satoshi_per_bitcoin"

definition initial_subsidy :: "settings \<Rightarrow> nat option" where
  "initial_subsidy st = bitcoin_to_satoshi (unat (set_initial_subsidy_bitcoin st))"

fun total_money :: "nat \<Rightarrow> nat option" where
  "total_money s = (if s = 0 then Some 0
     else case total_money (s div 2) of None \<Rightarrow> None | Some t \<Rightarrow> safe_add s t)"

declare total_money.simps [simp del]

definition max_money :: "settings \<Rightarrow> nat option" where
  "max_money st = (case initial_subsidy st of None \<Rightarrow> None
     | Some i \<Rightarrow> case total_money i of None \<Rightarrow> None
     | Some t \<Rightarrow> safe_multiply t (unat (set_subsidy_interval_blocks st)))"

definition sorted_checkpoints :: "settings \<Rightarrow> checkpoint list" where
  "sorted_checkpoints st = sort_key cp_height (set_checkpoints st)"

definition top_checkpoint :: "(data_chunk \<Rightarrow> hash_digest) \<Rightarrow> settings \<Rightarrow> checkpoint" where
  "top_checkpoint bitcoin_hash st = (if set_checkpoints st = []
     then \<lparr>cp_hash = header_hash bitcoin_hash (blk_header (set_genesis_block st)), cp_height = 0, cp_valid = True\<rparr>
     else last (sorted_checkpoints st))"

definition minimum_timespan :: "settings \<Rightarrow> u32" where
  "minimum_timespan st = set_retargeting_interval_seconds st div set_retargeting_factor st"

definition maximum_timespan :: "settings \<Rightarrow> u32" where
  "maximum_timespan st = set_retargeting_interval_seconds st * set_retargeting_factor st"

definition retargeting_interval :: "settings \<Rightarrow> nat" where
  "retargeting_interval st = unat (set_retargeting_interval_seconds st div set_block_spacing_seconds st)"

lemmas settings_defs = default_settings_def mainnet_settings_def testnet3_settings_def
  testnet4_settings_def regtest_settings_def

section \<open>Checkpoint lemmas\<close>

text \<open>With distinct heights the first match is the only one, so a conflict is a conflict with any.\<close>

lemma is_conflict_any:
  assumes "distinct (map cp_height cs)"
  shows "is_conflict cs hash height \<longleftrightarrow> (\<exists>c\<in>set cs. cp_height c = height \<and> cp_hash c \<noteq> hash)"
proof (cases "List.find (\<lambda>item. height = cp_height item) cs")
  case None
  then have "height \<noteq> cp_height c" if "c \<in> set cs" for c using that by (auto simp: find_None_iff)
  then show ?thesis unfolding is_conflict_def None by auto
next
  case (Some c)
  then have c: "c \<in> set cs" "height = cp_height c" by (auto simp: find_Some_iff in_set_conv_nth)
  moreover have "d = c" if "d \<in> set cs" "cp_height d = height" for d
    using assms c that by (auto simp: distinct_map dest: inj_onD)
  ultimately show ?thesis using Some by (auto simp: is_conflict_def)
qed

lemma sorted_last_max: "sorted (map f xs) \<Longrightarrow> x \<in> set xs \<Longrightarrow> f x \<le> f (last xs)"
  by (induction xs) auto

lemma top_checkpoint_max:
  assumes "c \<in> set (set_checkpoints st)"
  shows "cp_height c \<le> cp_height (top_checkpoint bitcoin_hash st)"
proof -
  have "c \<in> set (sorted_checkpoints st)" using assms by (simp add: sorted_checkpoints_def)
  then have "cp_height c \<le> cp_height (last (sorted_checkpoints st))"
    by (intro sorted_last_max) (simp_all add: sorted_checkpoints_def)
  moreover have "set_checkpoints st \<noteq> []" using assms by auto
  ultimately show ?thesis by (simp add: top_checkpoint_def)
qed

section \<open>Money\<close>

lemma total_money_sum: "total_money s = Some t \<Longrightarrow> s < 2 ^ m \<Longrightarrow> t = (\<Sum>k<m. s div 2 ^ k)"
proof (induction m arbitrary: s t)
  case 0
  then show ?case by (simp add: total_money.simps)
next
  case (Suc m)
  show ?case
  proof (cases "s = 0")
    case False
    then obtain u where u: "total_money (s div 2) = Some u" "t = s + u"
      using Suc.prems(1) by (subst (asm) total_money.simps) (auto simp: safe_add_def split: option.splits if_splits)
    have "u = (\<Sum>k<m. s div 2 div 2 ^ k)" using Suc.prems(2) by (intro Suc.IH [OF u(1)]) simp
    then show ?thesis using u(2) by (simp add: sum.lessThan_Suc_shift div_mult2_eq del: sum.lessThan_Suc)
  qed (use Suc.prems(1) in \<open>simp add: total_money.simps\<close>)
qed

lemma subsidies_up_to:
  assumes "0 < interval"
  shows "(\<Sum>height<m * interval. unat (subsidy height interval initial True)) =
    interval * (\<Sum>k<m. unat initial div 2 ^ k)"
  using interval_sum [OF assms, where m = m and f = "\<lambda>k. unat initial div 2 ^ k"]
  by (simp add: subsidy_bip42 sum_distrib_left)

lemma halvings_end: "64 \<le> m \<Longrightarrow> a < 2 ^ 64 \<Longrightarrow> (\<Sum>k<m. a div 2 ^ k) = (\<Sum>k<64. a div 2 ^ k :: nat)"
proof (induction m rule: dec_induct)
  case (step m)
  have "a < 2 ^ m" using step.prems step.hyps(1) power_increasing [of 64 m "2 :: nat"] by linarith
  then show ?case using step by simp
qed simp

text \<open>
  C11. The maximum of money is exact: when its computation does not overflow, it is the sum of the
  subsidies of the first 64 intervals, and no number of blocks issues more under bip42.
\<close>

theorem max_money_exact:
  assumes "max_money st = Some m" "initial_subsidy st = Some i" "0 < set_subsidy_interval_blocks st"
  shows "(\<Sum>height<64 * unat (set_subsidy_interval_blocks st).
      unat (subsidy height (unat (set_subsidy_interval_blocks st)) (word_of_nat i) True)) = m \<and>
    (\<Sum>height<n. unat (subsidy height (unat (set_subsidy_interval_blocks st)) (word_of_nat i) True)) \<le> m"
proof -
  let ?I = "unat (set_subsidy_interval_blocks st)" and ?i = "word_of_nat i :: u64"
  have I: "0 < ?I" using assms(3) by (simp add: word_less_nat_alt)
  have lim: "i < 2 ^ 64"
    using assms(2) by (auto simp: initial_subsidy_def bitcoin_to_satoshi_def safe_multiply_def limits split: if_splits)
  then have i: "unat ?i = i" by (simp add: unat_of_nat)
  obtain t where t: "total_money i = Some t" "m = ?I * t"
    using assms(1,2) by (auto simp: max_money_def safe_multiply_def split: option.splits if_splits)
  have m: "m = ?I * (\<Sum>k<64. i div 2 ^ k)" using t total_money_sum [OF t(1) lim] by simp
  have "(\<Sum>height<n. unat (subsidy height ?I ?i True)) \<le> (\<Sum>height<(64 + n) * ?I. unat (subsidy height ?I ?i True))"
  proof (intro sum_mono2)
    have "n * 1 \<le> (64 + n) * ?I" using I by (intro mult_le_mono) simp_all
    then show "{..<n} \<subseteq> {..<(64 + n) * ?I}" by (intro lessThan_subset_iff [THEN iffD2]) simp
  qed simp_all
  also have "\<dots> = m" using halvings_end [of "64 + n" i] lim by (simp add: subsidies_up_to [OF I] i m)
  finally show ?thesis using subsidies_up_to [OF I, where m = 64 and initial = ?i] by (simp add: i m)
qed

lemma mainnet_initial: "initial_subsidy mainnet_settings = Some 5000000000"
  by (simp add: initial_subsidy_def bitcoin_to_satoshi_def safe_multiply_def satoshi_per_bitcoin_def
      mainnet_settings_def default_settings_def limits)

lemma mainnet_interval: "set_subsidy_interval_blocks mainnet_settings = 210000"
  by (simp add: mainnet_settings_def default_settings_def)

lemma mainnet_max_money: "max_money mainnet_settings = Some 2099999997690000"
  by (simp add: max_money_def mainnet_initial mainnet_interval total_money.simps safe_add_def
      safe_multiply_def limits)

theorem max_money_exact_witness:
  "(\<Sum>height<800000. unat (subsidy height 210000 5000000000 True)) \<le> 2099999997690000"
  using max_money_exact [OF mainnet_max_money mainnet_initial, where n = 800000]
  by (simp add: mainnet_interval)

end
