(* ===== verification/ChainState.thy ===== *)
theory ChainState
  imports Settings
begin

text \<open>
  The state of the chain at a height, which gives validation its context:
  \<open>src/chain/chain_state.cpp\<close> and \<open>chain/chain_state.hpp\<close>. Queues of the bits, versions and
  timestamps of the preceding headers are promoted from height to height; from them follow the
  active rules, the work that is required and the median of the past times.

  The queues are read at their back in places where the source does not test that they are not
  empty; the lemmas below show that they are not. Heights are 64 bit numbers, and wrap.
\<close>

unbundle bit_operations_syntax

section \<open>State\<close>

record chain_data =
  d_height :: nat
  d_hash :: hash_digest
  d_bip30_deactivate_hash :: hash_digest
  d_bip9_bit0_hash :: hash_digest
  d_bip9_bit1_hash :: hash_digest
  d_bip9_bit2_hash :: hash_digest
  d_cumulative_work :: u256
  d_bits_self :: u32
  d_bits :: "u32 list"
  d_version_self :: u32
  d_versions :: "u32 list"
  d_timestamp_self :: u32
  d_timestamp_retarget :: u32
  d_timestamps :: "u32 list"

record activations =
  act_flags :: u32
  act_minimum_block_version :: u32

record range_map =
  rng_count :: nat
  rng_high :: nat

record chain_map =
  map_bits :: range_map
  map_version :: range_map
  map_timestamp :: range_map
  map_timestamp_retarget :: nat
  map_bip30_deactivate_height :: nat
  map_bip9_bit0_height :: nat
  map_bip9_bit1_height :: nat
  map_bip9_bit2_height :: nat

definition unrequested :: nat where "unrequested = max_size_t"

definition add1_size :: "nat \<Rightarrow> nat" where "add1_size n = (n + 1) mod 2 ^ 64"

definition sub1_size :: "nat \<Rightarrow> nat" where "sub1_size n = (n + 2 ^ 64 - 1) mod 2 ^ 64"

section \<open>Inlines\<close>

definition is_active :: "nat \<Rightarrow> nat \<Rightarrow> bool" where
  "is_active count bip34_activation_threshold \<longleftrightarrow> count \<ge> bip34_activation_threshold"

definition is_enforced :: "nat \<Rightarrow> nat \<Rightarrow> bool" where
  "is_enforced count bip34_enforcement_threshold \<longleftrightarrow> count \<ge> bip34_enforcement_threshold"

definition retarget_distance :: "nat \<Rightarrow> nat \<Rightarrow> nat" where
  "retarget_distance height interval = height mod interval"

definition is_retarget_height :: "nat \<Rightarrow> nat \<Rightarrow> bool" where
  "is_retarget_height height interval \<longleftrightarrow> retarget_distance height interval = 0"

definition mainnet_bip30_exception_checkpoint1 :: checkpoint where
  "mainnet_bip30_exception_checkpoint1 =
     make_checkpoint 0x00000000000a4d0a398161ffc163c503763b1f4360639393e0e4c8e300e0caec 91842"

definition mainnet_bip30_exception_checkpoint2 :: checkpoint where
  "mainnet_bip30_exception_checkpoint2 =
     make_checkpoint 0x00000000000743f190a18c5577a3c2d2a1f610ae9601ac046a38084ccb7cd721 91880"

definition is_bip30_exception :: "hash_digest \<Rightarrow> nat \<Rightarrow> bool" where
  "is_bip30_exception hash height \<longleftrightarrow>
     (hash = cp_hash mainnet_bip30_exception_checkpoint1 \<and>
      height = cp_height mainnet_bip30_exception_checkpoint1) \<or>
     (hash = cp_hash mainnet_bip30_exception_checkpoint2 \<and>
      height = cp_height mainnet_bip30_exception_checkpoint2)"

definition timestamp_high :: "chain_data \<Rightarrow> u32" where
  "timestamp_high values = last (d_timestamps values)"

definition bits_high :: "chain_data \<Rightarrow> u32" where
  "bits_high values = last (d_bits values)"

section \<open>Activation\<close>

definition raised :: "(bool \<times> flags) list \<Rightarrow> flags" where
  "raised cs = foldl (\<lambda>acc c. if fst c then acc OR snd c else acc) no_rules cs"

definition configured_flags :: "forks \<Rightarrow> flags" where
  "configured_flags f = raised
    [(fork_retarget f, retarget), (fork_difficult f, difficult),
     (fork_ltc_time_warp_patch f, ltc_time_warp_patch),
     (fork_ltc_retarget_overflow_patch f, ltc_retarget_overflow_patch),
     (fork_ltc_scrypt_proof_of_work f, ltc_scrypt_proof_of_work),
     (fork_time_warp_patch f, time_warp_patch), (fork_block_storm_patch f, block_storm_patch),
     (fork_bip16 f, bip16_rule), (fork_bip30 f, bip30_rule), (fork_bip34 f, bip34_rule),
     (fork_bip42 f, bip42_rule), (fork_bip65 f, bip65_rule), (fork_bip66 f, bip66_rule),
     (fork_bip68 f, bip68_rule), (fork_bip90 f, bip90_rule), (fork_bip112 f, bip112_rule),
     (fork_bip113 f, bip113_rule), (fork_bip141 f, bip141_rule), (fork_bip143 f, bip143_rule),
     (fork_bip147 f, bip147_rule), (fork_bip341 f, bip341_rule), (fork_bip342 f, bip342_rule)]"

definition version_ge :: "u32 \<Rightarrow> u32 \<Rightarrow> bool" where
  "version_ge v version \<longleftrightarrow> sint v \<ge> sint version"

definition activation :: "chain_data \<Rightarrow> forks \<Rightarrow> settings \<Rightarrow> activations" where
  "activation values f st =
     (let height = d_height values; version = d_version_self values; history = d_versions values;
          count_2 = length (filter (\<lambda>v. version_ge v (set_bip34_version st)) history);
          count_3 = length (filter (\<lambda>v. version_ge v (set_bip66_version st)) history);
          count_4 = length (filter (\<lambda>v. version_ge v (set_bip65_version st)) history);
          bip90_bip34 = fork_bip90 f \<and> height \<ge> set_bip90_bip34_height st;
          bip90_bip65 = fork_bip90 f \<and> height \<ge> set_bip90_bip65_height st;
          bip90_bip66 = fork_bip90 f \<and> height \<ge> set_bip90_bip66_height st;
          bit0 = d_bip9_bit0_hash values = cp_hash (set_bip9_bit0_active_checkpoint st);
          bit1 = d_bip9_bit1_hash values = cp_hash (set_bip9_bit1_active_checkpoint st);
          bit2 = d_bip9_bit2_hash values = cp_hash (set_bip9_bit2_active_checkpoint st);
          bip30_deactivate = fork_bip30 f \<and> fork_bip30_deactivate f \<and>
            d_bip30_deactivate_hash values = cp_hash (set_bip30_deactivate_checkpoint st);
          bip30_reactivate = bip30_deactivate \<and> fork_bip30_reactivate f \<and>
            height \<ge> set_bip30_reactivate_height st
      in \<lparr>act_flags = raised
        [(fork_retarget f, retarget), (fork_difficult f, difficult),
         (fork_ltc_time_warp_patch f, ltc_time_warp_patch),
         (fork_ltc_retarget_overflow_patch f, ltc_retarget_overflow_patch),
         (fork_ltc_scrypt_proof_of_work f, ltc_scrypt_proof_of_work),
         (fork_bip42 f, bip42_rule), (fork_bip90 f, bip90_rule),
         (fork_time_warp_patch f, time_warp_patch), (fork_block_storm_patch f, block_storm_patch),
         (fork_bip16 f \<and> d_timestamp_self values \<ge> set_bip16_activation_time st, bip16_rule),
         (bip90_bip34 \<or> is_active count_2 (set_bip34_activation_threshold st) \<and>
            version_ge version (set_bip34_version st), bip34_rule),
         (bip90_bip66 \<or> is_active count_3 (set_bip34_activation_threshold st) \<and>
            version_ge version (set_bip66_version st), bip66_rule),
         (bip90_bip65 \<or> is_active count_4 (set_bip34_activation_threshold st) \<and>
            version_ge version (set_bip65_version st), bip65_rule),
         (bit0, bip68_rule), (bit0, bip112_rule), (bit0, bip113_rule),
         (bit1, bip141_rule), (bit1, bip143_rule), (bit1, bip147_rule),
         (bit2, bip341_rule), (bit2, bip342_rule),
         (fork_bip30 f \<and> (\<not> bip30_deactivate \<or> bip30_reactivate) \<and>
            \<not> is_bip30_exception (d_hash values) height, bip30_rule)],
        act_minimum_block_version =
          (if bip90_bip65 \<or> is_enforced count_4 (set_bip34_enforcement_threshold st) then set_bip65_version st
           else if bip90_bip66 \<or> is_enforced count_3 (set_bip34_enforcement_threshold st) then set_bip66_version st
           else if bip90_bip34 \<or> is_enforced count_2 (set_bip34_enforcement_threshold st) then set_bip34_version st
           else 0)\<rparr>)"

section \<open>Counts\<close>

definition median_time_past_interval :: nat where "median_time_past_interval = 11"

definition bits_count :: "nat \<Rightarrow> forks \<Rightarrow> nat \<Rightarrow> nat" where
  "bits_count height f interval =
     (if fork_difficult f then 1
      else if \<not> fork_retarget f then 1
      else if \<not> fork_block_storm_patch f \<and> is_retarget_height height interval then 1
      else min height interval)"

definition version_count :: "nat \<Rightarrow> forks \<Rightarrow> nat \<Rightarrow> nat" where
  "version_count height f bip34_activation_sample =
     (if fork_bip90 f \<or> (\<not> fork_bip34 f \<and> \<not> fork_bip65 f \<and> \<not> fork_bip66 f) then 0
      else min height bip34_activation_sample)"

definition timestamp_count :: "nat \<Rightarrow> forks \<Rightarrow> nat" where
  "timestamp_count height f = min height median_time_past_interval"

definition retarget_height :: "nat \<Rightarrow> forks \<Rightarrow> nat \<Rightarrow> nat" where
  "retarget_height height f interval =
     (if \<not> fork_retarget f then unrequested
      else height - (if is_retarget_height height interval then interval
                     else retarget_distance height interval))"

section \<open>Median time past\<close>

definition median_time_past :: "chain_data \<Rightarrow> u32" where
  "median_time_past values = (let times = sort (d_timestamps values)
     in if times = [] then 0 else times ! (length times div 2))"

section \<open>Work required\<close>

definition limit_u32 :: "u32 \<Rightarrow> u32 \<Rightarrow> u32 \<Rightarrow> u32" where
  "limit_u32 v mini maxi = (if v < mini then mini else if v > maxi then maxi else v)"

definition retarget_timespan :: "chain_data \<Rightarrow> u32 \<Rightarrow> u32 \<Rightarrow> u32" where
  "retarget_timespan values mini maxi =
     (let timespan = floored_subtract (timestamp_high values) (d_timestamp_retarget values)
      in limit_u32 timespan mini maxi)"

definition floored_log2 :: "u256 \<Rightarrow> nat" where
  "floored_log2 v = (if v < 1 then 0 else bit_width (unat v) - 1)"

definition patch_timewarp :: "forks \<Rightarrow> u256 \<Rightarrow> u256 \<Rightarrow> bool" where
  "patch_timewarp f limit target \<longleftrightarrow>
     fork_ltc_retarget_overflow_patch f \<and> floored_log2 target \<ge> floored_log2 limit"

definition is_retarget_or_non_limit :: "nat \<Rightarrow> u32 \<Rightarrow> nat \<Rightarrow> u32 \<Rightarrow> bool" where
  "is_retarget_or_non_limit height bits interval proof_of_work_limit \<longleftrightarrow>
     bits \<noteq> proof_of_work_limit \<or> is_retarget_height height interval"

text \<open>The loop over the bits from the highest, shared by two functions of the source.\<close>

fun search_bits :: "nat \<Rightarrow> u32 list \<Rightarrow> nat \<Rightarrow> u32 \<Rightarrow> u32 option" where
  "search_bits height [] interval proof_of_work_limit = None"
| "search_bits height (b # bits) interval proof_of_work_limit =
     (let h = sub1_size height in
      if is_retarget_or_non_limit h b interval proof_of_work_limit then Some b
      else search_bits h bits interval proof_of_work_limit)"

definition work_required_retarget_bits :: "chain_data \<Rightarrow> forks \<Rightarrow> u32 \<Rightarrow> nat \<Rightarrow> u32" where
  "work_required_retarget_bits values f proof_of_work_limit interval =
     (if fork_block_storm_patch f
      then case search_bits (d_height values) (rev (d_bits values)) interval proof_of_work_limit of
             Some b \<Rightarrow> b
           | None \<Rightarrow> bits_high values
      else bits_high values)"

definition expand_bits :: "u32 \<Rightarrow> u256" where
  "expand_bits bits = word_of_nat (expand (unat bits))"

definition work_required_retarget ::
  "chain_data \<Rightarrow> forks \<Rightarrow> u32 \<Rightarrow> u32 \<Rightarrow> u32 \<Rightarrow> nat \<Rightarrow> u32 \<Rightarrow> u32" where
  "work_required_retarget values f proof_of_work_limit mini maxi interval interval_seconds =
     (let limit = expand_bits proof_of_work_limit;
          target = expand_bits (work_required_retarget_bits values f proof_of_work_limit interval);
          timewarp = (if patch_timewarp f limit target then 1 else 0);
          target = drop_bit timewarp target;
          target = target * ucast (retarget_timespan values mini maxi);
          target = target div ucast interval_seconds;
          target = push_bit timewarp target
      in if target > limit then proof_of_work_limit else word_of_nat (compress (unat target)))"

definition easy_work_required :: "chain_data \<Rightarrow> nat \<Rightarrow> u32 \<Rightarrow> u32 \<Rightarrow> u32" where
  "easy_work_required values interval proof_of_work_limit block_spacing_seconds =
     (let easy_spacing_seconds = push_bit 1 block_spacing_seconds;
          bound = unat (timestamp_high values) + unat easy_spacing_seconds
      in if unat (d_timestamp_self values) > (if bound > max_uint32 then max_uint32 else bound)
         then proof_of_work_limit
         else case search_bits (d_height values) (rev (d_bits values)) interval proof_of_work_limit of
             Some b \<Rightarrow> b
           | None \<Rightarrow> proof_of_work_limit)"

definition work_required :: "chain_data \<Rightarrow> forks \<Rightarrow> settings \<Rightarrow> u32" where
  "work_required values f st =
     (if d_height values = 0 then 0
      else if expand (unat (bits_high values)) = 0 then 0
      else if \<not> fork_retarget f then bits_high values
      else if is_retarget_height (d_height values) (retargeting_interval st) then
        work_required_retarget values f (set_proof_of_work_limit st) (minimum_timespan st)
          (maximum_timespan st) (retargeting_interval st) (set_retargeting_interval_seconds st)
      else if \<not> fork_difficult f then
        easy_work_required values (retargeting_interval st) (set_proof_of_work_limit st)
          (set_block_spacing_seconds st)
      else bits_high values)"

section \<open>Map of the data to query\<close>

definition activation_height :: "nat \<Rightarrow> checkpoint \<Rightarrow> nat" where
  "activation_height height c = (if height < cp_height c then unrequested else cp_height c)"

definition default_map :: chain_map where
  "default_map = \<lparr>map_bits = \<lparr>rng_count = 0, rng_high = 0\<rparr>, map_version = \<lparr>rng_count = 0, rng_high = 0\<rparr>,
     map_timestamp = \<lparr>rng_count = 0, rng_high = 0\<rparr>, map_timestamp_retarget = 0,
     map_bip30_deactivate_height = unrequested, map_bip9_bit0_height = unrequested,
     map_bip9_bit1_height = unrequested, map_bip9_bit2_height = unrequested\<rparr>"

definition get_map :: "nat \<Rightarrow> settings \<Rightarrow> chain_map" where
  "get_map height st =
     (let f = set_forks st; interval = retargeting_interval st;
          m = default_map
            \<lparr>map_bip30_deactivate_height := (if fork_bip30 f \<and> fork_bip30_deactivate f
               then activation_height height (set_bip30_deactivate_checkpoint st) else unrequested),
             map_bip9_bit0_height := (if fork_bip68 f \<or> fork_bip112 f \<or> fork_bip113 f
               then activation_height height (set_bip9_bit0_active_checkpoint st) else unrequested),
             map_bip9_bit1_height := (if fork_bip141 f \<or> fork_bip143 f \<or> fork_bip147 f
               then activation_height height (set_bip9_bit1_active_checkpoint st) else unrequested),
             map_bip9_bit2_height := (if fork_bip341 f \<or> fork_bip342 f
               then activation_height height (set_bip9_bit2_active_checkpoint st) else unrequested)\<rparr>
      in if height = 0 then m
         else m\<lparr>map_bits := \<lparr>rng_count = bits_count height f interval, rng_high = height - 1\<rparr>,
                map_timestamp := \<lparr>rng_count = timestamp_count height f, rng_high = height - 1\<rparr>,
                map_version := \<lparr>rng_count = version_count height f (set_bip34_activation_sample st),
                  rng_high = height - 1\<rparr>,
                map_timestamp_retarget := retarget_height height f interval\<rparr>)"

definition signal_version :: "settings \<Rightarrow> u32" where
  "signal_version st = (let f = set_forks st in
     if fork_bip341 f \<or> fork_bip342 f then set_bip9_version_base st OR set_bip9_version_bit2 st
     else if fork_bip141 f \<or> fork_bip143 f \<or> fork_bip147 f then set_bip9_version_base st OR set_bip9_version_bit1 st
     else if fork_bip68 f \<or> fork_bip112 f \<or> fork_bip113 f then set_bip9_version_base st OR set_bip9_version_bit0 st
     else if fork_bip65 f then set_bip65_version st
     else if fork_bip66 f then set_bip66_version st
     else if fork_bip34 f then set_bip34_version st
     else set_first_version st)"

section \<open>Promotion\<close>

record chain_state =
  state_data :: chain_data
  state_forks :: forks
  state_activations :: activations
  state_work_required :: u32
  state_median_time_past :: u32

text \<open>The constructors differ in their data only.\<close>

definition make_state :: "chain_data \<Rightarrow> forks \<Rightarrow> settings \<Rightarrow> chain_state" where
  "make_state d f st = \<lparr>state_data = d, state_forks = f, state_activations = activation d f st,
     state_work_required = work_required d f st, state_median_time_past = median_time_past d\<rparr>"

definition dequeue :: "nat \<Rightarrow> 'a list \<Rightarrow> 'a list" where
  "dequeue count xs = (if length xs > count then tl xs else xs)"

definition to_pool :: "chain_state \<Rightarrow> settings \<Rightarrow> chain_data" where
  "to_pool tip st =
     (let f = state_forks tip; d = state_data tip; height = add1_size (d_height d);
          bits = dequeue (bits_count height f (retargeting_interval st)) (d_bits d @ [d_bits_self d]);
          versions = dequeue (version_count height f (set_bip34_activation_sample st))
            (d_versions d @ [d_version_self d]);
          timestamps = dequeue (timestamp_count height f) (d_timestamps d @ [d_timestamp_self d])
      in d\<lparr>d_bits := bits, d_versions := versions, d_timestamps := timestamps,
          d_timestamp_retarget :=
            (if fork_retarget f \<and> is_retarget_height (sub1_size height) (retargeting_interval st)
             then (if fork_ltc_time_warp_patch f \<and> height \<noteq> 1 then timestamps ! (length timestamps - 2)
                   else d_timestamp_self d)
             else d_timestamp_retarget d),
          d_height := height, d_hash := null_hash, d_bits_self := 0, d_version_self := signal_version st\<rparr>)"

definition pool_state :: "chain_state \<Rightarrow> settings \<Rightarrow> chain_state" where
  "pool_state tip st = make_state (to_pool tip st) (state_forks tip) st"

definition cache_hashes :: "settings \<Rightarrow> chain_data \<Rightarrow> chain_data" where
  "cache_hashes st d = (let at = (\<lambda>c old. if d_height d = cp_height c then d_hash d else old) in
     d\<lparr>d_bip30_deactivate_hash := at (set_bip30_deactivate_checkpoint st) (d_bip30_deactivate_hash d),
       d_bip9_bit0_hash := at (set_bip9_bit0_active_checkpoint st) (d_bip9_bit0_hash d),
       d_bip9_bit1_hash := at (set_bip9_bit1_active_checkpoint st) (d_bip9_bit1_hash d),
       d_bip9_bit2_hash := at (set_bip9_bit2_active_checkpoint st) (d_bip9_bit2_hash d)\<rparr>)"

definition enter_header :: "hash_digest \<Rightarrow> header \<Rightarrow> chain_data \<Rightarrow> chain_data" where
  "enter_header hash h d = d\<lparr>d_hash := hash, d_bits_self := hdr_bits h, d_version_self := hdr_version h,
     d_timestamp_self := hdr_timestamp h, d_cumulative_work := d_cumulative_work d + header_proof h\<rparr>"

definition to_block :: "chain_state \<Rightarrow> chain_block \<Rightarrow> settings \<Rightarrow> chain_data" where
  "to_block pool b st = cache_hashes st (enter_header null_hash (blk_header b) (state_data pool))"

definition block_state :: "chain_state \<Rightarrow> chain_block \<Rightarrow> settings \<Rightarrow> chain_state" where
  "block_state pool b st = make_state (to_block pool b st) (state_forks pool) st"

definition to_header :: "(data_chunk \<Rightarrow> hash_digest) \<Rightarrow> chain_state \<Rightarrow> header \<Rightarrow> settings \<Rightarrow> chain_data" where
  "to_header bitcoin_hash parent h st =
     cache_hashes st (enter_header (header_hash bitcoin_hash h) h (to_pool parent st))"

definition header_state :: "(data_chunk \<Rightarrow> hash_digest) \<Rightarrow> chain_state \<Rightarrow> header \<Rightarrow> settings \<Rightarrow> chain_state" where
  "header_state bitcoin_hash parent h st =
     make_state (to_header bitcoin_hash parent h st) (state_forks parent) st"

definition scratch_state :: "chain_data \<Rightarrow> settings \<Rightarrow> chain_state" where
  "scratch_state values st = make_state values (set_forks st) st"

section \<open>Properties\<close>

definition state_previous_timestamp :: "chain_state \<Rightarrow> u32" where
  "state_previous_timestamp s = (if d_timestamps (state_data s) = [] then 0 else timestamp_high (state_data s))"

definition state_context :: "chain_state \<Rightarrow> chain_context" where
  "state_context s = \<lparr>ctx_flags = act_flags (state_activations s),
     ctx_timestamp = d_timestamp_self (state_data s),
     ctx_median_time_past = state_median_time_past s,
     ctx_height = d_height (state_data s) mod 2 ^ 32,
     ctx_minimum_block_version = act_minimum_block_version (state_activations s),
     ctx_work_required = state_work_required s,
     ctx_previous_timestamp = state_previous_timestamp s\<rparr>"

section \<open>Queues\<close>

definition takelast :: "nat \<Rightarrow> 'a list \<Rightarrow> 'a list" where
  "takelast k xs = drop (length xs - k) xs"

lemma takelast_length [simp]: "length (takelast k xs) = min k (length xs)"
  by (simp add: takelast_def)

lemma takelast_last: "xs \<noteq> [] \<Longrightarrow> 0 < k \<Longrightarrow> last (takelast k xs) = last xs"
  by (simp add: takelast_def last_drop)

lemma takelast_nth: "k \<le> length xs \<Longrightarrow> i < k \<Longrightarrow> takelast k xs ! i = xs ! (length xs - k + i)"
  by (simp add: takelast_def)

lemma takelast_dequeue:
  assumes "k \<le> length xs" "k' \<le> k + 1" "k \<le> k'"
  shows "dequeue k' (takelast k xs @ [x]) = takelast k' (xs @ [x])"
proof (cases "k' = k")
  case True
  have "tl (drop (length xs - k) xs @ [x]) = drop (length xs + 1 - k) (xs @ [x])"
  proof (cases "k = 0")
    case False
    then have "drop (length xs - k) xs \<noteq> []" using assms(1) by simp
    then show ?thesis using False assms(1) by (simp add: tl_append2 tl_drop drop_Suc Suc_diff_le)
  qed simp
  then show ?thesis using True assms(1) by (simp add: dequeue_def takelast_def)
next
  case False
  then have "k' = k + 1" using assms by simp
  then show ?thesis using assms(1) by (simp add: dequeue_def takelast_def)
qed

lemma takelast_snoc:
  assumes "0 < k"
  shows "takelast k (xs @ [x]) = (if length (takelast k xs) < k then takelast k xs @ [x] else tl (takelast k xs) @ [x])"
proof (cases "length xs < k")
  case False
  then have "takelast k (xs @ [x]) = dequeue k (takelast k xs @ [x])" by (simp add: takelast_dequeue)
  moreover have "takelast k xs \<noteq> []" using False assms by (auto simp: takelast_def)
  ultimately show ?thesis using False by (simp add: dequeue_def)
qed (simp add: takelast_def)

lemma dequeue_suffix:
  assumes "q = takelast (length q) xs" "length q \<le> length xs"
  shows "dequeue c (q @ [x]) = takelast (length (dequeue c (q @ [x]))) (xs @ [x])"
proof (cases "length (q @ [x]) > c")
  case True
  then show ?thesis using takelast_dequeue [of "length q" xs "length q" x] assms by (simp add: dequeue_def)
next
  case False
  then show ?thesis using takelast_dequeue [of "length q" xs "length q + 1" x] assms by (simp add: dequeue_def)
qed

lemma dequeue_length: "length (dequeue c (q @ [x])) = (if length q \<ge> c then length q else length q + 1)"
  by (auto simp: dequeue_def)

section \<open>The chain as a list of headers\<close>

text \<open>
  A chain is the list of its headers from the genesis header on, so that a position in the list is
  a height. What the state at the last header should be is read off that list, without queues.
\<close>

abbreviation times_of :: "header list \<Rightarrow> u32 list" where "times_of hs \<equiv> map hdr_timestamp hs"
abbreviation bits_of :: "header list \<Rightarrow> u32 list" where "bits_of hs \<equiv> map hdr_bits hs"
abbreviation versions_of :: "header list \<Rightarrow> u32 list" where "versions_of hs \<equiv> map hdr_version hs"

definition period_start :: "nat \<Rightarrow> nat \<Rightarrow> nat" where
  "period_start interval k = k div interval * interval"

text \<open>The time at the start of the period that the parent of height \<open>n\<close> is in.\<close>

definition start_time :: "settings \<Rightarrow> forks \<Rightarrow> header list \<Rightarrow> nat \<Rightarrow> u32" where
  "start_time st f hs n = (let r = period_start (retargeting_interval st) (n - 1) in
     hdr_timestamp (hs ! (if fork_ltc_time_warp_patch f \<and> r \<noteq> 0 then r - 1 else r)))"

text \<open>The bits of the highest header, from height \<open>k\<close> down, that is not at the limit or starts a period.\<close>

fun walk_bits :: "header list \<Rightarrow> u32 \<Rightarrow> nat \<Rightarrow> nat \<Rightarrow> u32" where
  "walk_bits hs limit interval 0 = hdr_bits (hs ! 0)"
| "walk_bits hs limit interval (Suc k) =
     (if hdr_bits (hs ! Suc k) \<noteq> limit \<or> Suc k mod interval = 0 then hdr_bits (hs ! Suc k)
      else walk_bits hs limit interval k)"

definition cached_at :: "(data_chunk \<Rightarrow> hash_digest) \<Rightarrow> header list \<Rightarrow> checkpoint \<Rightarrow> hash_digest" where
  "cached_at bitcoin_hash hs c =
     (if cp_height c < length hs then header_hash bitcoin_hash (hs ! cp_height c) else null_hash)"

definition bits_needed :: "settings \<Rightarrow> forks \<Rightarrow> nat \<Rightarrow> nat" where
  "bits_needed st f n = (let interval = retargeting_interval st in
     if fork_difficult f \<or> \<not> fork_retarget f then min n 1
     else if fork_block_storm_patch f then min n interval
     else if n mod interval = 0 then min n 1 else n mod interval)"

definition tracks :: "(data_chunk \<Rightarrow> hash_digest) \<Rightarrow> settings \<Rightarrow> forks \<Rightarrow> header list \<Rightarrow> chain_data \<Rightarrow> bool" where
  "tracks bitcoin_hash st f hs d \<longleftrightarrow> hs \<noteq> [] \<and> (let ps = butlast hs; h = last hs; n = length hs - 1 in
     d_height d = n \<and> d_hash d = header_hash bitcoin_hash h \<and>
     d_bits_self d = hdr_bits h \<and> d_version_self d = hdr_version h \<and> d_timestamp_self d = hdr_timestamp h \<and>
     d_cumulative_work d = sum_list (map header_proof hs) \<and>
     d_timestamps d = takelast (timestamp_count n f) (times_of ps) \<and>
     d_versions d = takelast (version_count n f (set_bip34_activation_sample st)) (versions_of ps) \<and>
     d_bits d = takelast (length (d_bits d)) (bits_of ps) \<and>
     length (d_bits d) \<le> n \<and> bits_needed st f n \<le> length (d_bits d) \<and>
     (fork_difficult f \<longrightarrow> length (d_bits d) \<le> 1) \<and>
     (fork_retarget f \<and> 0 < n \<longrightarrow> d_timestamp_retarget d = start_time st f hs n) \<and>
     d_bip30_deactivate_hash d = cached_at bitcoin_hash hs (set_bip30_deactivate_checkpoint st) \<and>
     d_bip9_bit0_hash d = cached_at bitcoin_hash hs (set_bip9_bit0_active_checkpoint st) \<and>
     d_bip9_bit1_hash d = cached_at bitcoin_hash hs (set_bip9_bit1_active_checkpoint st) \<and>
     d_bip9_bit2_hash d = cached_at bitcoin_hash hs (set_bip9_bit2_active_checkpoint st))"

text \<open>The data of the genesis header, as a store provides it, and the states that follow from it.\<close>

definition genesis_data :: "(data_chunk \<Rightarrow> hash_digest) \<Rightarrow> settings \<Rightarrow> header \<Rightarrow> chain_data" where
  "genesis_data bitcoin_hash st g = cache_hashes st (enter_header (header_hash bitcoin_hash g) g
     \<lparr>d_height = 0, d_hash = null_hash, d_bip30_deactivate_hash = null_hash, d_bip9_bit0_hash = null_hash,
      d_bip9_bit1_hash = null_hash, d_bip9_bit2_hash = null_hash, d_cumulative_work = 0,
      d_bits_self = 0, d_bits = [], d_version_self = 0, d_versions = [],
      d_timestamp_self = 0, d_timestamp_retarget = 0, d_timestamps = []\<rparr>)"

definition headers_state ::
  "(data_chunk \<Rightarrow> hash_digest) \<Rightarrow> settings \<Rightarrow> header \<Rightarrow> header list \<Rightarrow> chain_state" where
  "headers_state bitcoin_hash st g hs =
     foldl (\<lambda>s h. header_state bitcoin_hash s h st) (scratch_state (genesis_data bitcoin_hash st g) st) hs"

section \<open>Simulation\<close>

lemma cache_hashes_sel [simp]:
  "d_height (cache_hashes st d) = d_height d" "d_hash (cache_hashes st d) = d_hash d"
  "d_cumulative_work (cache_hashes st d) = d_cumulative_work d"
  "d_bits_self (cache_hashes st d) = d_bits_self d" "d_bits (cache_hashes st d) = d_bits d"
  "d_version_self (cache_hashes st d) = d_version_self d" "d_versions (cache_hashes st d) = d_versions d"
  "d_timestamp_self (cache_hashes st d) = d_timestamp_self d"
  "d_timestamp_retarget (cache_hashes st d) = d_timestamp_retarget d"
  "d_timestamps (cache_hashes st d) = d_timestamps d"
  by (simp_all add: cache_hashes_def Let_def)

lemma genesis_tracks: "tracks bitcoin_hash st f [g] (genesis_data bitcoin_hash st g)"
  by (simp add: tracks_def genesis_data_def enter_header_def Let_def takelast_def bits_needed_def
      cache_hashes_def cached_at_def)

lemma bits_needed_step:
  assumes "0 < retargeting_interval st" "bits_needed st f n \<le> k" "k \<le> n"
  shows "bits_needed st f (n + 1) \<le> (if k \<ge> bits_count (n + 1) f (retargeting_interval st) then k else k + 1)"
proof -
  let ?I = "retargeting_interval st"
  have m: "(n + 1) mod ?I = (if Suc (n mod ?I) = ?I then 0 else Suc (n mod ?I))" by (simp add: mod_Suc)
  have "Suc (n mod ?I) \<le> min (Suc n) ?I" using assms(1) by (simp add: Suc_le_eq le_imp_less_Suc)
  with m assms show ?thesis
    by (auto simp: bits_needed_def bits_count_def is_retarget_height_def retarget_distance_def Let_def
        split: if_splits)
qed

lemma start_time_step:
  assumes "0 < retargeting_interval st" "0 < n" "n < length hs"
  shows "start_time st f (hs @ [h]) (n + 1) =
    (if n mod retargeting_interval st = 0
     then hdr_timestamp (hs ! (if fork_ltc_time_warp_patch f then n - 1 else n))
     else start_time st f hs n)"
proof -
  let ?I = "retargeting_interval st"
  have r: "period_start ?I n = (if n mod ?I = 0 then n else period_start ?I (n - 1))"
  proof (cases "n mod ?I = 0")
    case True
    then show ?thesis by (simp add: period_start_def dvd_div_mult_self mod_0_imp_dvd)
  next
    case False
    then show ?thesis using assms(2) div_Suc [of "n - 1" ?I] by (simp add: period_start_def)
  qed
  have "period_start ?I (n - 1) \<le> n - 1" by (simp add: period_start_def)
  then have "period_start ?I (n - 1) < length hs" using assms by linarith
  then show ?thesis using assms r by (auto simp: start_time_def nth_append Let_def)
qed

lemma cache_hashes_step:
  assumes "d_height d = length hs" "d_hash d = header_hash bitcoin_hash h"
  shows "d_bip30_deactivate_hash d = cached_at bitcoin_hash hs (set_bip30_deactivate_checkpoint st) \<Longrightarrow>
      d_bip30_deactivate_hash (cache_hashes st d) = cached_at bitcoin_hash (hs @ [h]) (set_bip30_deactivate_checkpoint st)"
    and "d_bip9_bit0_hash d = cached_at bitcoin_hash hs (set_bip9_bit0_active_checkpoint st) \<Longrightarrow>
      d_bip9_bit0_hash (cache_hashes st d) = cached_at bitcoin_hash (hs @ [h]) (set_bip9_bit0_active_checkpoint st)"
    and "d_bip9_bit1_hash d = cached_at bitcoin_hash hs (set_bip9_bit1_active_checkpoint st) \<Longrightarrow>
      d_bip9_bit1_hash (cache_hashes st d) = cached_at bitcoin_hash (hs @ [h]) (set_bip9_bit1_active_checkpoint st)"
    and "d_bip9_bit2_hash d = cached_at bitcoin_hash hs (set_bip9_bit2_active_checkpoint st) \<Longrightarrow>
      d_bip9_bit2_hash (cache_hashes st d) = cached_at bitcoin_hash (hs @ [h]) (set_bip9_bit2_active_checkpoint st)"
  using assms by (auto simp: cache_hashes_def cached_at_def nth_append Let_def)

lemma version_count_step:
  "version_count n f k \<le> n" "version_count n f k \<le> version_count (n + 1) f k"
  "version_count (n + 1) f k \<le> version_count n f k + 1"
  by (auto simp: version_count_def)

lemma to_pool_sel:
  assumes "tracks bitcoin_hash st f (ps @ [p]) d" "length ps + 1 < 2 ^ 64"
  shows "d_height (to_pool (make_state d f st) st) = length ps + 1"
    and "d_cumulative_work (to_pool (make_state d f st) st) = sum_list (map header_proof (ps @ [p]))"
    and "d_timestamps (to_pool (make_state d f st) st) =
      takelast (timestamp_count (length ps + 1) f) (times_of (ps @ [p]))"
    and "d_versions (to_pool (make_state d f st) st) =
      takelast (version_count (length ps + 1) f (set_bip34_activation_sample st)) (versions_of (ps @ [p]))"
    and "d_bits (to_pool (make_state d f st) st) =
      dequeue (bits_count (length ps + 1) f (retargeting_interval st)) (d_bits d @ [hdr_bits p])"
proof -
  note T = assms(1) [unfolded tracks_def Let_def, simplified]
  have h: "add1_size (length ps) = length ps + 1" using assms(2) by (simp add: add1_size_def)
  show "d_height (to_pool (make_state d f st) st) = length ps + 1"
      "d_cumulative_work (to_pool (make_state d f st) st) = sum_list (map header_proof (ps @ [p]))"
      "d_bits (to_pool (make_state d f st) st) =
        dequeue (bits_count (length ps + 1) f (retargeting_interval st)) (d_bits d @ [hdr_bits p])"
    using T h by (simp_all add: to_pool_def make_state_def Let_def)
  show "d_timestamps (to_pool (make_state d f st) st) =
      takelast (timestamp_count (length ps + 1) f) (times_of (ps @ [p]))"
    using T h takelast_dequeue [of "timestamp_count (length ps) f" "times_of ps"
        "timestamp_count (length ps + 1) f" "hdr_timestamp p"]
    by (simp add: to_pool_def make_state_def Let_def timestamp_count_def)
  show "d_versions (to_pool (make_state d f st) st) =
      takelast (version_count (length ps + 1) f (set_bip34_activation_sample st)) (versions_of (ps @ [p]))"
    using T h takelast_dequeue [of "version_count (length ps) f (set_bip34_activation_sample st)" "versions_of ps"
        "version_count (length ps + 1) f (set_bip34_activation_sample st)" "hdr_version p"]
      version_count_step [of "length ps" f "set_bip34_activation_sample st"]
    by (simp add: to_pool_def make_state_def Let_def)
qed

lemma to_pool_retarget:
  assumes "tracks bitcoin_hash st f (ps @ [p]) d" "length ps + 1 < 2 ^ 64" "0 < retargeting_interval st" "fork_retarget f"
  shows "d_timestamp_retarget (to_pool (make_state d f st) st) = start_time st f (ps @ [p, h]) (length ps + 1)"
proof -
  let ?n = "length ps" and ?I = "retargeting_interval st" and ?t = "takelast (timestamp_count (length ps + 1) f) (times_of (ps @ [p]))"
  note T = assms(1) [unfolded tracks_def Let_def, simplified]
  have h: "add1_size ?n = ?n + 1" "sub1_size (?n + 1) = ?n" using assms(2) by (simp_all add: add1_size_def sub1_size_def)
  have "d_timestamp_retarget (to_pool (make_state d f st) st) =
      (if ?n mod ?I = 0 then (if fork_ltc_time_warp_patch f \<and> ?n \<noteq> 0 then ?t ! (length ?t - 2) else hdr_timestamp p)
       else d_timestamp_retarget d)"
    using T h assms(4) to_pool_sel(3) [OF assms(1,2)]
    by (simp add: to_pool_def make_state_def Let_def is_retarget_height_def retarget_distance_def)
  moreover have "?t ! (length ?t - 2) = hdr_timestamp (ps ! (?n - 1))" if "?n \<noteq> 0"
    using that by (simp add: takelast_nth timestamp_count_def median_time_past_interval_def nth_append min_def)
  moreover have "start_time st f (ps @ [p, h]) (?n + 1) =
      (if ?n mod ?I = 0 then hdr_timestamp ((ps @ [p]) ! (if fork_ltc_time_warp_patch f then ?n - 1 else ?n))
       else start_time st f (ps @ [p]) ?n)" if "?n \<noteq> 0"
    using start_time_step [OF assms(3), of ?n "ps @ [p]" f h] that by simp
  ultimately show ?thesis
    using T assms(4) by (cases "?n = 0") (auto simp: nth_append start_time_def period_start_def)
qed

lemma to_header_tracks:
  assumes t: "tracks bitcoin_hash st f hs d" and i: "0 < retargeting_interval st" and l: "length hs < 2 ^ 64"
  shows "tracks bitcoin_hash st f (hs @ [h]) (to_header bitcoin_hash (make_state d f st) h st)"
proof -
  obtain ps p where hs: "hs = ps @ [p]" using t by (metis tracks_def append_butlast_last_id)
  note t' = t [unfolded hs] and l' = l [unfolded hs length_append list.size, simplified add_0_left, folded One_nat_def]
  note T = t' [unfolded tracks_def Let_def, simplified]
  let ?d = "to_pool (make_state d f st) st"
  let ?b = "dequeue (bits_count (length ps + 1) f (retargeting_interval st)) (d_bits d @ [hdr_bits p])"
  note P = to_pool_sel [OF t' l'] to_pool_retarget [OF t' l' i, of h]
  have q: "?b = takelast (length ?b) (bits_of hs)" "length ?b \<le> length hs" "bits_needed st f (length hs) \<le> length ?b"
    using T dequeue_suffix [of "d_bits d" "bits_of ps"] bits_needed_step [OF i, of f "length ps" "length (d_bits d)"]
    by (simp_all add: hs dequeue_length)
  have "fork_difficult f \<longrightarrow> length (d_bits d) \<le> 1" using T by simp
  then have e: "fork_difficult f \<longrightarrow> length ?b \<le> 1"
    unfolding dequeue_length bits_count_def by (cases "length (d_bits d)") auto
  have c: "d_bip30_deactivate_hash ?d = d_bip30_deactivate_hash d" "d_bip9_bit0_hash ?d = d_bip9_bit0_hash d"
      "d_bip9_bit1_hash ?d = d_bip9_bit1_hash d" "d_bip9_bit2_hash ?d = d_bip9_bit2_hash d"
    by (simp_all add: to_pool_def make_state_def Let_def)
  note C = cache_hashes_step [of "enter_header (header_hash bitcoin_hash h) h ?d" hs bitcoin_hash h st]
  obtain B where B: "?b = B" by simp
  show ?thesis
    using P q [unfolded B] e [unfolded B] T c C unfolding B tracks_def to_header_def Let_def
    by (simp add: enter_header_def hs butlast_append)
qed

lemma headers_state_tracks:
  assumes "0 < retargeting_interval st" "length hs < 2 ^ 64"
  shows "\<exists>d. headers_state bitcoin_hash st g hs = make_state d (set_forks st) st \<and>
    tracks bitcoin_hash st (set_forks st) (g # hs) d"
  using assms(2)
proof (induction hs rule: rev_induct)
  case Nil
  then show ?case using genesis_tracks by (fastforce simp: headers_state_def scratch_state_def)
next
  case (snoc h hs)
  then obtain d where d: "headers_state bitcoin_hash st g hs = make_state d (set_forks st) st"
      "tracks bitcoin_hash st (set_forks st) (g # hs) d" by auto
  let ?d = "to_header bitcoin_hash (make_state d (set_forks st) st) h st"
  have "headers_state bitcoin_hash st g (hs @ [h]) = make_state ?d (set_forks st) st"
    using d(1) by (simp add: headers_state_def header_state_def make_state_def)
  moreover have "tracks bitcoin_hash st (set_forks st) (g # hs @ [h]) ?d"
    using to_header_tracks [OF d(2) assms(1), of h] snoc.prems by simp
  ultimately show ?case by blast
qed

section \<open>Work\<close>

lemma takelast_rev: "rev (takelast k xs) = take k (rev xs)"
  by (cases "k \<le> length xs") (simp_all add: takelast_def rev_drop)

lemma sub1_size_Suc: "m + 1 < 2 ^ 64 \<Longrightarrow> sub1_size (Suc m) = m"
proof -
  have "Suc m + 2 ^ 64 - 1 = m + 2 ^ 64" by simp
  then show "m + 1 < 2 ^ 64 \<Longrightarrow> ?thesis" unfolding sub1_size_def by (simp only: mod_add_self2) simp
qed

lemma search_bits_walk:
  assumes "m < length hs" "m + 1 < 2 ^ 64" "m mod interval < k" "0 < interval"
  shows "search_bits (m + 1) (take k (rev (take (m + 1) (bits_of hs)))) interval limit =
    Some (walk_bits hs limit interval m)"
  using assms
proof (induction m arbitrary: k)
  case 0
  then show ?case
    by (cases k) (simp_all add: take_Suc_conv_app_nth is_retarget_or_non_limit_def is_retarget_height_def
        retarget_distance_def sub1_size_def)
next
  case (Suc m)
  then obtain k' where k: "k = Suc k'" by (cases k) auto
  have s: "sub1_size (Suc m + 1) = m + 1" using Suc.prems(2) sub1_size_Suc [of "m + 1"] by simp
  have e: "take k (rev (take (Suc m + 1) (bits_of hs))) =
      hdr_bits (hs ! Suc m) # take k' (rev (take (m + 1) (bits_of hs)))"
    using Suc.prems(1) k by (simp add: take_Suc_conv_app_nth [of "Suc m"])
  have "m mod interval < k'" if "Suc m mod interval \<noteq> 0"
    using Suc.prems(3) that k by (simp add: mod_Suc split: if_splits)
  with Suc.IH [of k'] Suc.prems(1,2,4) s show ?case unfolding e
    by (simp add: is_retarget_or_non_limit_def is_retarget_height_def retarget_distance_def Let_def)
qed

text \<open>
  The target after a period, in whole numbers: the target of the period scaled by the time it took,
  that time being bounded on both sides. The patch for wide limits drops a bit before it multiplies.
\<close>

definition period_time :: "settings \<Rightarrow> u32 \<Rightarrow> u32 \<Rightarrow> nat" where
  "period_time st start end_time = unat (limit_u32 (floored_subtract end_time start) (minimum_timespan st) (maximum_timespan st))"

definition scaled_target :: "settings \<Rightarrow> forks \<Rightarrow> nat \<Rightarrow> nat \<Rightarrow> nat" where
  "scaled_target st f target time =
     (if fork_ltc_retarget_overflow_patch f \<and>
         bit_width target - 1 \<ge> bit_width (expand (unat (set_proof_of_work_limit st))) - 1
      then target div 2 * time div unat (set_retargeting_interval_seconds st) * 2
      else target * time div unat (set_retargeting_interval_seconds st))"

definition period_bits :: "settings \<Rightarrow> forks \<Rightarrow> header list \<Rightarrow> u32" where
  "period_bits st f hs = (let n = length hs - 1 in
     if fork_block_storm_patch f \<and> \<not> fork_difficult f
     then walk_bits hs (set_proof_of_work_limit st) (retargeting_interval st) (n - 1)
     else hdr_bits (last (butlast hs)))"

definition required_bits :: "settings \<Rightarrow> forks \<Rightarrow> header list \<Rightarrow> u32" where
  "required_bits st f hs = (let n = length hs - 1; ps = butlast hs; p = last ps; h = last hs;
       interval = retargeting_interval st; limit = set_proof_of_work_limit st in
     if n = 0 then 0
     else if expand (unat (hdr_bits p)) = 0 then 0
     else if \<not> fork_retarget f then hdr_bits p
     else if n mod interval = 0 then
       (let target = scaled_target st f (expand (unat (period_bits st f hs))) (period_time st (start_time st f hs n) (hdr_timestamp p))
        in if target > expand (unat limit) then limit else word_of_nat (compress target))
     else if \<not> fork_difficult f then
       (if unat (hdr_timestamp h) >
          min max_uint32 (unat (hdr_timestamp p) + unat (push_bit 1 (set_block_spacing_seconds st)))
        then limit else walk_bits hs limit interval (n - 1))
     else hdr_bits p)"

lemma tracks_high:
  assumes "tracks bitcoin_hash st f (ps @ [h]) d" "ps \<noteq> []" "0 < retargeting_interval st"
  shows "bits_high d = hdr_bits (last ps)" "timestamp_high d = hdr_timestamp (last ps)"
proof -
  note T = assms(1) [unfolded tracks_def Let_def, simplified]
  have "bits_needed st f (length ps) > 0" using assms(2,3)
    by (auto simp: bits_needed_def Let_def min_def Suc_le_eq)
  then have "0 < length (d_bits d)" using T by linarith
  then show "bits_high d = hdr_bits (last ps)"
    using T takelast_last [of "bits_of ps" "length (d_bits d)"] assms(2) by (simp add: bits_high_def last_map)
  show "timestamp_high d = hdr_timestamp (last ps)"
    using T takelast_last [of "times_of ps" "timestamp_count (length ps) f"] assms(2)
    by (simp add: timestamp_high_def last_map timestamp_count_def median_time_past_interval_def)
qed

lemma tracks_search:
  assumes "tracks bitcoin_hash st f (ps @ [h]) d" "ps \<noteq> []" "0 < retargeting_interval st" "length ps < 2 ^ 64"
    and "fork_retarget f" "\<not> fork_difficult f"
    and "fork_block_storm_patch f \<or> length ps mod retargeting_interval st \<noteq> 0"
  shows "search_bits (d_height d) (rev (d_bits d)) (retargeting_interval st) limit =
    Some (walk_bits (ps @ [h]) limit (retargeting_interval st) (length ps - 1))"
proof -
  note T = assms(1) [unfolded tracks_def Let_def, simplified]
  let ?I = "retargeting_interval st" and ?m = "length ps - 1"
  obtain m where m: "length ps = Suc m" using assms(2) by (cases "length ps") auto
  have "m mod ?I < bits_needed st f (Suc m)"
    using assms(3,5-7) m by (auto simp: bits_needed_def Let_def mod_Suc min_def le_imp_less_Suc split: if_splits)
  then have "m mod ?I < length (d_bits d)" using T m by simp
  moreover have "rev (d_bits d) = take (length (d_bits d)) (rev (take (m + 1) (bits_of (ps @ [h]))))"
    using T m takelast_rev [of "length (d_bits d)" "bits_of ps"] by simp
  ultimately show ?thesis
    using search_bits_walk [of m "ps @ [h]" ?I "length (d_bits d)" limit] assms(3,4) T m by simp
qed

text \<open>The bounds that keep the multiplication within 256 bits, with the patch or without it.\<close>

definition scaling_fits :: "settings \<Rightarrow> forks \<Rightarrow> nat \<Rightarrow> bool" where
  "scaling_fits st f target \<longleftrightarrow>
     (if fork_ltc_retarget_overflow_patch f \<and>
         bit_width target - 1 \<ge> bit_width (expand (unat (set_proof_of_work_limit st))) - 1
      then 2 \<le> unat (set_retargeting_interval_seconds st) \<and> target div 2 * unat (maximum_timespan st) < 2 ^ 256
      else target * unat (maximum_timespan st) < 2 ^ 256)"

lemma expand_less: "expand (unat b) < 2 ^ 256" for b :: u32
proof -
  have "unat b < 2 ^ LENGTH(32)" by (rule unsigned_less)
  then show ?thesis using expand_bound [of "unat b"] by simp
qed

lemma expand_bits_unat: "unat (expand_bits b) = expand (unat b)"
  using expand_less [of b] by (simp add: expand_bits_def unat_of_nat)

lemma floored_log2_expand: "floored_log2 (expand_bits b) = bit_width (expand (unat b)) - 1"
  by (simp add: floored_log2_def expand_bits_unat word_less_nat_alt)

lemma period_time_max:
  assumes "minimum_timespan st \<le> maximum_timespan st"
  shows "period_time st a b \<le> unat (maximum_timespan st)"
  using assms by (auto simp: period_time_def limit_u32_def word_le_nat_alt not_less)

lemma scaled_word:
  fixes t :: u256 and s :: u32 and m :: u32
  assumes "unat t div 2 ^ k * unat m < 2 ^ 256" "unat t div 2 ^ k * unat m div unat s * 2 ^ k < 2 ^ 256"
  shows "unat (push_bit k (drop_bit k t * ucast m div (ucast s :: u256))) = unat t div 2 ^ k * unat m div unat s * 2 ^ k"
proof -
  have m: "unat (ucast m :: u256) = unat m" "unat (ucast s :: u256) = unat s"
    by (simp_all add: unsigned_ucast_eq take_bit_nat_eq_self less_le_trans [OF unsigned_less])
  have "unat (drop_bit k t * ucast m) = unat t div 2 ^ k * unat m"
    using assms(1) m by (simp add: unat_word_ariths unat_drop_bit_eq drop_bit_nat_def)
  then have "unat (drop_bit k t * ucast m div ucast s) = unat t div 2 ^ k * unat m div unat s"
    using m by (simp add: unat_div)
  then show ?thesis using assms(2) by (simp add: unsigned_push_bit_eq take_bit_nat_eq_self push_bit_nat_def)
qed

lemma storm_difficult:
  assumes "tracks bitcoin_hash st f (ps @ [h]) d" "ps \<noteq> []" "0 < retargeting_interval st" "length ps < 2 ^ 64"
    and "fork_retarget f" "length ps mod retargeting_interval st = 0"
  shows "work_required_retarget_bits d f (set_proof_of_work_limit st) (retargeting_interval st) = period_bits st f (ps @ [h])"
proof -
  let ?I = "retargeting_interval st" and ?L = "set_proof_of_work_limit st"
  note T = assms(1) [unfolded tracks_def Let_def, simplified] and high = tracks_high [OF assms(1-3)]
  consider "fork_block_storm_patch f" "\<not> fork_difficult f" | "\<not> fork_block_storm_patch f"
    | "fork_block_storm_patch f" "fork_difficult f" "length (d_bits d) \<le> 1" using T by fastforce
  then show ?thesis
  proof cases
    case 1
    then show ?thesis using tracks_search [OF assms(1-5), of ?L]
      by (simp add: work_required_retarget_bits_def period_bits_def)
  next
    case 3
    then have "search_bits n (rev (d_bits d)) ?I ?L = None \<or> search_bits n (rev (d_bits d)) ?I ?L = Some (bits_high d)" for n
      by (cases "d_bits d") (auto simp: bits_high_def Let_def)
    then show ?thesis using 3 high
      by (auto simp: work_required_retarget_bits_def period_bits_def split: option.splits) (metis option.distinct(1) option.inject)
  qed (simp add: work_required_retarget_bits_def period_bits_def high butlast_append)
qed

lemma retarget_scaled:
  assumes "work_required_retarget_bits d f (set_proof_of_work_limit st) (retargeting_interval st) = b"
    and "minimum_timespan st \<le> maximum_timespan st" "scaling_fits st f (expand (unat b))"
  shows "work_required_retarget d f (set_proof_of_work_limit st) (minimum_timespan st) (maximum_timespan st)
      (retargeting_interval st) (set_retargeting_interval_seconds st) =
    (let target = scaled_target st f (expand (unat b)) (period_time st (d_timestamp_retarget d) (timestamp_high d))
     in if target > expand (unat (set_proof_of_work_limit st)) then set_proof_of_work_limit st
        else word_of_nat (compress target))"
proof -
  let ?t = "retarget_timespan d (minimum_timespan st) (maximum_timespan st)" and ?s = "set_retargeting_interval_seconds st"
  let ?L = "set_proof_of_work_limit st"
  define k :: nat where "k = (if patch_timewarp f (expand_bits ?L) (expand_bits b) then 1 else 0)"
  have t: "unat ?t = period_time st (d_timestamp_retarget d) (timestamp_high d)"
    by (simp add: retarget_timespan_def period_time_def Let_def)
  have le: "unat ?t \<le> unat (maximum_timespan st)" unfolding t by (rule period_time_max [OF assms(2)])
  have patch: "patch_timewarp f (expand_bits ?L) (expand_bits b) \<longleftrightarrow> fork_ltc_retarget_overflow_patch f \<and>
      bit_width (expand (unat b)) - 1 \<ge> bit_width (expand (unat ?L)) - 1"
    by (simp add: patch_timewarp_def floored_log2_expand)
  have fit1: "unat (expand_bits b) div 2 ^ k * unat ?t < 2 ^ 256"
  proof (rule le_less_trans [OF mult_le_mono2 [OF le]])
    show "unat (expand_bits b) div 2 ^ k * unat (maximum_timespan st) < 2 ^ 256"
      using assms(3) by (auto simp: scaling_fits_def expand_bits_unat k_def patch split: if_splits)
  qed
  have "x div unat ?s * 2 ^ k \<le> x" for x :: nat
  proof (cases "k = 0")
    case False
    then have "2 \<le> unat ?s" "k = 1" using assms(3) by (auto simp: scaling_fits_def k_def patch split: if_splits)
    then have "x div unat ?s * 2 \<le> x div unat ?s * unat ?s" by (intro mult_le_mono2)
    also have "\<dots> \<le> x" by simp
    finally show ?thesis using \<open>k = 1\<close> by simp
  qed simp
  then have fit2: "unat (expand_bits b) div 2 ^ k * unat ?t div unat ?s * 2 ^ k < 2 ^ 256"
    using fit1 le_less_trans by blast
  have "unat (push_bit k (drop_bit k (expand_bits b) * ucast ?t div (ucast ?s :: u256))) =
      scaled_target st f (expand (unat b)) (unat ?t)"
    using scaled_word [OF fit1 fit2] by (auto simp: scaled_target_def expand_bits_unat k_def patch)
  then show ?thesis
    unfolding work_required_retarget_def assms(1) t [symmetric] Let_def k_def [symmetric]
    by (simp add: word_less_nat_alt expand_bits_unat)
qed

lemma required_bits_state:
  assumes t: "tracks bitcoin_hash st f hs d" and i: "0 < retargeting_interval st" and l: "length hs < 2 ^ 64"
    and m: "minimum_timespan st \<le> maximum_timespan st"
    and fits: "fork_retarget f \<Longrightarrow> scaling_fits st f (expand (unat (period_bits st f hs)))"
  shows "work_required d f st = required_bits st f hs"
proof -
  obtain ps h where hs: "hs = ps @ [h]" using t by (metis tracks_def append_butlast_last_id)
  note T = t [unfolded tracks_def Let_def hs, simplified]
  show ?thesis
  proof (cases "ps = []")
    case False
    note a = t [unfolded hs] False i
    have l': "length ps < 2 ^ 64" using l hs by simp
    note high = tracks_high [OF a]
    have r: "work_required_retarget_bits d f (set_proof_of_work_limit st) (retargeting_interval st) = period_bits st f hs"
      if "fork_retarget f" "length ps mod retargeting_interval st = 0"
      using storm_difficult [OF a l' that] by (simp add: hs)
    show ?thesis
      using T high False retarget_scaled [OF r m fits] tracks_search [OF a l', of "set_proof_of_work_limit st"]
      by (auto simp: work_required_def required_bits_def hs butlast_append Let_def min_def easy_work_required_def
          is_retarget_height_def retarget_distance_def)
  qed (use T in \<open>simp add: work_required_def required_bits_def hs\<close>)
qed

section \<open>Accepted chains\<close>

text \<open>
  Settings under which the arithmetic of a retarget stays in its 256 bits for every target up to
  the limit. With the patch only the bits below the highest of the limit are multiplied.
\<close>

definition settings_ok :: "settings \<Rightarrow> bool" where
  "settings_ok st \<longleftrightarrow> 0 < retargeting_interval st \<and> minimum_timespan st \<le> maximum_timespan st \<and>
     (fork_retarget (set_forks st) \<longrightarrow>
      (let limit = expand (unat (set_proof_of_work_limit st)); time = unat (maximum_timespan st) in
      if fork_ltc_retarget_overflow_patch (set_forks st)
      then 2 \<le> unat (set_retargeting_interval_seconds st) \<and> 2 ^ (bit_width limit - 1) * time < 2 ^ 256
      else limit * time < 2 ^ 256))"

text \<open>A header is accepted in the context of its own state, which is its parent's promoted.\<close>

inductive accepted_chain :: "(data_chunk \<Rightarrow> hash_digest) \<Rightarrow> settings \<Rightarrow> header \<Rightarrow> header list \<Rightarrow> bool"
  for bitcoin_hash st g where
  start: "accepted_chain bitcoin_hash st g []"
| extend: "accepted_chain bitcoin_hash st g hs \<Longrightarrow>
    \<not> failed (header_accept h (state_context (headers_state bitcoin_hash st g (hs @ [h]))) (retargeting_interval st)) \<Longrightarrow>
    accepted_chain bitcoin_hash st g (hs @ [h])"

inductive_cases accepted_snoc: "accepted_chain bitcoin_hash st g (hs @ [h])"

lemma header_accept_context:
  "\<not> failed (header_accept h ctx interval) \<Longrightarrow> hdr_bits h = ctx_work_required ctx \<and> ctx_median_time_past ctx < hdr_timestamp h"
  by (auto simp: header_accept_def is_invalid_work_def is_anachronistic_timestamp_def split: if_splits)

lemma bit_width_less: "v < 2 ^ bit_width v"
  using bit_width_le_iff [of v "bit_width v"] by simp

lemma bit_width_half: "v div 2 < 2 ^ (bit_width v - 1)"
  using bit_width_less [of v] by (cases "v = 0") (simp_all add: bit_width_pos)

lemma bit_width_mono: "v \<le> w \<Longrightarrow> bit_width v \<le> bit_width w"
  using bit_width_less [of w] by (simp add: bit_width_le_iff)

lemma fits_of_limit:
  assumes "settings_ok st" "target \<le> expand (unat (set_proof_of_work_limit st))" "fork_retarget (set_forks st)"
  shows "scaling_fits st (set_forks st) target"
proof -
  let ?L = "expand (unat (set_proof_of_work_limit st))" and ?M = "unat (maximum_timespan st)"
  show ?thesis
  proof (cases "fork_ltc_retarget_overflow_patch (set_forks st)")
    case True
    then have s: "2 \<le> unat (set_retargeting_interval_seconds st)" "2 ^ (bit_width ?L - 1) * ?M < 2 ^ 256"
      using assms(1,3) by (simp_all add: settings_ok_def Let_def)
    have "target div 2 \<le> 2 ^ (bit_width ?L - 1)"
      using div_le_mono [OF assms(2), of 2] bit_width_half [of ?L] by linarith
    then have "target div 2 * ?M < 2 ^ 256" using s(2) le_less_trans [OF mult_le_mono1] by blast
    moreover have "target * ?M < 2 ^ 256" if "bit_width target - 1 < bit_width ?L - 1"
    proof -
      have "target \<le> 2 ^ bit_width target" using bit_width_less [of target] by simp
      also have "\<dots> \<le> 2 ^ (bit_width ?L - 1)" using that by (intro power_increasing) linarith+
      finally show ?thesis using s(2) le_less_trans [OF mult_le_mono1] by blast
    qed
    ultimately show ?thesis using s(1) True by (auto simp: scaling_fits_def)
  next
    case False
    then have "?L * ?M < 2 ^ 256" using assms(1,3) by (simp add: settings_ok_def Let_def)
    then show ?thesis using False le_less_trans [OF mult_le_mono1 [OF assms(2)]] by (auto simp: scaling_fits_def)
  qed
qed

lemma compress_zero: "expand (unat (word_of_nat (compress 0) :: u32)) = 0"
  by (simp add: compress_def base256e_compress_def to_compact_def from_compact_def expand_def
      base256e_expand_def compact_constants raise_def)

lemma compress_bound: "0 < n \<Longrightarrow> n < 2 ^ 256 \<Longrightarrow> compress n < 2 ^ 32"
  using compress_of [of n] byte_width_bound [of n] top3_bounds(2) [of n] by auto

lemma expand_compress_le: "n < 2 ^ 256 \<Longrightarrow> expand (unat (word_of_nat (compress n) :: u32)) \<le> n"
proof (cases "n = 0")
  case False
  moreover assume "n < 2 ^ 256"
  ultimately have "unat (word_of_nat (compress n) :: u32) = compress n" "expand (compress n) \<le> n"
    using compress_bound [of n] expand_compress_kept [of n] by (simp_all add: unat_of_nat)
  then show ?thesis by simp
qed (simp add: compress_zero)

lemma walk_bits_in: "k < length hs \<Longrightarrow> walk_bits hs limit interval k \<in> set (bits_of hs)"
  by (induction k) auto

lemma walk_bits_prefix: "k < length ps \<Longrightarrow> walk_bits (ps @ qs) limit interval k = walk_bits ps limit interval k"
  by (induction k) (auto simp: nth_append)

lemma period_bits_in:
  assumes "ps \<noteq> []"
  shows "period_bits st f (ps @ [h]) \<in> set (bits_of ps)"
  using assms walk_bits_in [of "length ps - 1" ps] walk_bits_prefix [of "length ps - 1" ps "[h]"]
  by (simp add: period_bits_def butlast_append)

lemma required_bits_limit:
  assumes "\<And>b. b \<in> set (bits_of ps) \<Longrightarrow> expand (unat b) \<le> expand (unat (set_proof_of_work_limit st))" "ps \<noteq> []"
  shows "expand (unat (required_bits st f (ps @ [h]))) \<le> expand (unat (set_proof_of_work_limit st))"
proof -
  let ?L = "set_proof_of_work_limit st"
  have p: "expand (unat (hdr_bits (last ps))) \<le> expand (unat ?L)" using assms by simp
  have w: "expand (unat (walk_bits (ps @ [h]) l i (length ps - 1))) \<le> expand (unat ?L)" for l i
    using assms walk_bits_in [of "length ps - 1" ps] walk_bits_prefix [of "length ps - 1" ps "[h]"] by simp
  have z: "expand 0 = 0" by (simp add: expand_def to_compact_def from_compact_def base256e_expand_def compact_constants raise_def)
  have c: "expand (unat (if t > expand (unat ?L) then ?L else word_of_nat (compress t))) \<le> expand (unat ?L)" for t
  proof (cases "t > expand (unat ?L)")
    case False
    then show ?thesis using expand_less [of ?L] expand_compress_le [of t] by simp
  qed simp
  show ?thesis using p w z c assms(2) by (simp add: required_bits_def Let_def butlast_append)
qed

lemma headers_state_work:
  assumes ok: "settings_ok st" and l: "length hs + 1 < 2 ^ 64"
    and p: "\<And>b. b \<in> set (bits_of (butlast (g # hs))) \<Longrightarrow> expand (unat b) \<le> expand (unat (set_proof_of_work_limit st))"
  shows "state_work_required (headers_state bitcoin_hash st g hs) = required_bits st (set_forks st) (g # hs)"
proof -
  have i: "0 < retargeting_interval st" "minimum_timespan st \<le> maximum_timespan st"
    using ok by (simp_all add: settings_ok_def)
  obtain d where d: "headers_state bitcoin_hash st g hs = make_state d (set_forks st) st"
      "tracks bitcoin_hash st (set_forks st) (g # hs) d"
    using headers_state_tracks [OF i(1), of hs bitcoin_hash g] l by auto
  show ?thesis
  proof (cases hs rule: rev_cases)
    case Nil
    then show ?thesis using d by (simp add: make_state_def work_required_def required_bits_def tracks_def)
  next
    case (snoc ks h)
    have "period_bits st (set_forks st) ((g # ks) @ [h]) \<in> set (bits_of (g # ks))" by (intro period_bits_in) simp
    then have "expand (unat (period_bits st (set_forks st) (g # hs))) \<le> expand (unat (set_proof_of_work_limit st))"
      using p snoc by simp
    from required_bits_state [OF d(2) i(1) _ i(2) fits_of_limit [OF ok this]] l
    show ?thesis by (simp add: d(1) make_state_def)
  qed
qed

lemma accepted_chain_limit:
  assumes "accepted_chain bitcoin_hash st g hs" "settings_ok st" "length hs + 1 < 2 ^ 64"
    and "expand (unat (hdr_bits g)) \<le> expand (unat (set_proof_of_work_limit st))"
  shows "\<forall>b\<in>set (bits_of (g # hs)). expand (unat b) \<le> expand (unat (set_proof_of_work_limit st))"
    and "\<forall>k<length hs. hdr_bits (hs ! k) = required_bits st (set_forks st) (g # take (k + 1) hs)"
proof (atomize(full), use assms(1,3) in induction)
  case start
  then show ?case using assms(4) by simp
next
  case (extend hs h)
  then have IH: "\<forall>b\<in>set (bits_of (g # hs)). expand (unat b) \<le> expand (unat (set_proof_of_work_limit st))"
      "\<forall>k<length hs. hdr_bits (hs ! k) = required_bits st (set_forks st) (g # take (k + 1) hs)" by simp_all
  have "hdr_bits h = state_work_required (headers_state bitcoin_hash st g (hs @ [h]))"
    using header_accept_context [OF extend.hyps(2)] by (simp add: state_context_def)
  also have "\<dots> = required_bits st (set_forks st) (g # hs @ [h])"
    using IH(1) extend.prems by (intro headers_state_work [OF assms(2)]) auto
  finally have b: "hdr_bits h = required_bits st (set_forks st) (g # hs @ [h])" .
  moreover have "expand (unat (required_bits st (set_forks st) ((g # hs) @ [h]))) \<le> expand (unat (set_proof_of_work_limit st))"
    using IH(1) by (intro required_bits_limit) auto
  ultimately show ?case using IH by (auto simp: nth_append less_Suc_eq)
qed

section \<open>Theorems\<close>

definition median :: "u32 list \<Rightarrow> u32" where
  "median ts = (if ts = [] then 0 else sort ts ! (length ts div 2))"

lemma sort_Nil_iff [simp]: "sort xs = [] \<longleftrightarrow> xs = []"
  by (metis length_0_conv length_sort)

lemma headers_state_median:
  assumes "settings_ok st" "length hs < 2 ^ 64"
  shows "state_median_time_past (headers_state bitcoin_hash st g hs) = median (takelast 11 (times_of (butlast (g # hs))))"
proof -
  obtain d where d: "headers_state bitcoin_hash st g hs = make_state d (set_forks st) st"
      "tracks bitcoin_hash st (set_forks st) (g # hs) d"
    using headers_state_tracks [of st hs bitcoin_hash g] assms by (auto simp: settings_ok_def)
  then have "d_timestamps d = takelast (min (length hs) 11) (times_of (butlast (g # hs)))"
    by (simp add: tracks_def Let_def timestamp_count_def median_time_past_interval_def)
  also have "\<dots> = takelast 11 (times_of (butlast (g # hs)))" by (simp add: takelast_def min_def)
  finally show ?thesis using d(1)
    by (simp add: make_state_def median_time_past_def median_def Let_def)
qed

text \<open>
  C7. The state that is promoted from header to header is the state of the whole chain: after any
  accepted headers above a genesis header whose target does not exceed the limit, and under settings
  that keep a retarget within its bits, the height, the accumulated work, the median of the past
  times and the required bits are those computed from the list of all headers, without queues and
  in whole numbers.
\<close>

theorem chain_state_refines:
  assumes "settings_ok st" "accepted_chain bitcoin_hash st g hs" "length hs + 2 < 2 ^ 64"
    and "expand (unat (hdr_bits g)) \<le> expand (unat (set_proof_of_work_limit st))"
  shows "d_height (state_data (headers_state bitcoin_hash st g (hs @ [h]))) = length hs + 1 \<and>
    d_cumulative_work (state_data (headers_state bitcoin_hash st g (hs @ [h]))) = sum_list (map header_proof (g # hs @ [h])) \<and>
    state_median_time_past (headers_state bitcoin_hash st g (hs @ [h])) = median (takelast 11 (times_of (g # hs))) \<and>
    state_work_required (headers_state bitcoin_hash st g (hs @ [h])) = required_bits st (set_forks st) (g # hs @ [h])"
proof (intro conjI)
  have l: "length (hs @ [h]) < 2 ^ 64" using assms(3) by simp
  obtain d where d: "headers_state bitcoin_hash st g (hs @ [h]) = make_state d (set_forks st) st"
      "tracks bitcoin_hash st (set_forks st) (g # hs @ [h]) d"
    using headers_state_tracks [OF _ l, of st bitcoin_hash g] assms(1) by (auto simp: settings_ok_def)
  then show "d_height (state_data (headers_state bitcoin_hash st g (hs @ [h]))) = length hs + 1"
      "d_cumulative_work (state_data (headers_state bitcoin_hash st g (hs @ [h]))) = sum_list (map header_proof (g # hs @ [h]))"
    by (simp_all add: make_state_def tracks_def Let_def)
  show "state_median_time_past (headers_state bitcoin_hash st g (hs @ [h])) = median (takelast 11 (times_of (g # hs)))"
    using headers_state_median [OF assms(1) l] by simp
  show "state_work_required (headers_state bitcoin_hash st g (hs @ [h])) = required_bits st (set_forks st) (g # hs @ [h])"
    using accepted_chain_limit(1) [OF assms(2,1) _ assms(4)] assms(3)
    by (intro headers_state_work [OF assms(1)]) auto
qed

lemma mainnet_fields:
  "set_forks mainnet_settings = mainnet_forks" "set_proof_of_work_limit mainnet_settings = 0x1d00ffff"
  "set_bip34_version mainnet_settings = 2" "set_bip66_version mainnet_settings = 3" "set_bip65_version mainnet_settings = 4"
  "retargeting_interval mainnet_settings = 2016" "minimum_timespan mainnet_settings = 302400"
  "maximum_timespan mainnet_settings = 4838400" "set_bip34_enforcement_threshold mainnet_settings = 950"
  "set_bip90_bip34_height mainnet_settings = 227931" "set_bip90_bip65_height mainnet_settings = 388381"
  "set_bip90_bip66_height mainnet_settings = 363725" "set_bip34_activation_sample mainnet_settings = 1000"
  by (simp_all add: mainnet_settings_def default_settings_def retargeting_interval_def minimum_timespan_def
      maximum_timespan_def unat_div)

lemma mainnet_limit: "expand 0x1d00ffff = 0xffff * 256 ^ 26"
  using expand_of [of "0xffff" "0x1d"] by simp

lemma mainnet_settings_ok: "settings_ok mainnet_settings"
  by (simp add: settings_ok_def mainnet_fields mainnet_limit mainnet_forks_def)

text \<open>A header at height one of the main network with the bits and a later time than genesis.\<close>

lemma mainnet_first_accepted:
  assumes "hdr_bits g = 0x1d00ffff" "hdr_bits h = 0x1d00ffff" "hdr_timestamp g < hdr_timestamp h"
  shows "accepted_chain bitcoin_hash mainnet_settings g [h]"
proof -
  let ?s = "headers_state bitcoin_hash mainnet_settings g [h]"
  have l: "length [h] < 2 ^ 64" "length [h] + 1 < 2 ^ 64" by simp_all
  have "state_work_required ?s = required_bits mainnet_settings mainnet_forks [g, h]"
    using headers_state_work [OF mainnet_settings_ok l(2)] assms(1) by (simp add: mainnet_fields)
  then have w: "state_work_required ?s = 0x1d00ffff"
    using assms(1) by (simp add: required_bits_def mainnet_fields mainnet_forks_def mainnet_limit)
  have m: "state_median_time_past ?s = hdr_timestamp g"
    using headers_state_median [OF mainnet_settings_ok l(1)] by (simp add: takelast_def median_def)
  obtain d where d: "?s = make_state d mainnet_forks mainnet_settings" "tracks bitcoin_hash mainnet_settings mainnet_forks [g, h] d"
    using headers_state_tracks [of mainnet_settings "[h]" bitcoin_hash g] by (auto simp: mainnet_fields)
  then have e: "d_height d = 1" "d_versions d = []"
    by (simp_all add: tracks_def version_count_def mainnet_forks_def takelast_def)
  then have "act_minimum_block_version (activation d mainnet_forks mainnet_settings) = 0"
    by (simp add: activation_def mainnet_fields is_enforced_def Let_def)
  then have "\<not> failed (header_accept h (state_context ?s) (retargeting_interval mainnet_settings))"
    using w m assms d(1) e by (simp add: header_accept_def state_context_def is_insufficient_version_def make_state_def
        is_anachronistic_timestamp_def is_invalid_work_def is_early_timestamp_def mainnet_fields)
  then show ?thesis using accepted_chain.extend [OF accepted_chain.start, where h = h and bitcoin_hash = bitcoin_hash and st = mainnet_settings and g = g] by simp
qed

definition header_at :: "u32 \<Rightarrow> header" where
  "header_at t = \<lparr>hdr_version = 1, hdr_previous_block_hash = null_hash, hdr_merkle_root = null_hash,
     hdr_timestamp = t, hdr_bits = 0x1d00ffff, hdr_nonce = 0, hdr_valid = True\<rparr>"

lemma header_at_accepted: "accepted_chain bitcoin_hash mainnet_settings (header_at 1) [header_at 2]"
  by (rule mainnet_first_accepted) (simp_all add: header_at_def)

theorem chain_state_refines_witness:
  "state_work_required (headers_state (\<lambda>_. null_hash) mainnet_settings (header_at 1) [header_at 2, header_at 3]) = 0x1d00ffff"
proof -
  have "state_work_required (headers_state (\<lambda>_. null_hash) mainnet_settings (header_at 1) ([header_at 2] @ [header_at 3])) =
      required_bits mainnet_settings (set_forks mainnet_settings) [header_at 1, header_at 2, header_at 3]"
    using chain_state_refines [OF mainnet_settings_ok header_at_accepted [where bitcoin_hash = "\<lambda>_. null_hash"],
        where h = "header_at 3"] by (simp add: header_at_def mainnet_fields)
  then show ?thesis
    by (simp add: required_bits_def mainnet_fields mainnet_forks_def mainnet_limit header_at_def)
qed

text \<open>
  C8. Every header of an accepted chain has the bits that the headers below it require, and no target
  exceeds the limit, provided that the target of the genesis header does not.
\<close>

theorem accepted_bits:
  assumes "settings_ok st" "accepted_chain bitcoin_hash st g hs" "length hs + 1 < 2 ^ 64"
    and "expand (unat (hdr_bits g)) \<le> expand (unat (set_proof_of_work_limit st))" "k < length hs"
  shows "hdr_bits (hs ! k) = required_bits st (set_forks st) (g # take (k + 1) hs) \<and>
    expand (unat (hdr_bits (hs ! k))) \<le> expand (unat (set_proof_of_work_limit st))"
  using accepted_chain_limit [OF assms(2,1,3,4)] assms(5) by (metis list.set_intros(2) list.simps(9) nth_map nth_mem length_map)

theorem accepted_bits_witness: "expand (unat (hdr_bits (header_at 2))) \<le> expand 0x1d00ffff"
  using accepted_bits [OF mainnet_settings_ok header_at_accepted, where k = 0]
  by (simp add: mainnet_fields header_at_def)

section \<open>Median time past\<close>

lemma sorted_nth_ge: "sorted ys \<Longrightarrow> i < length ys \<Longrightarrow> m \<le> ys ! i \<longleftrightarrow> length (filter (\<lambda>y. y < m) ys) \<le> i"
proof (induction ys arbitrary: i)
  case (Cons y ys)
  show ?case
  proof (cases "y < m")
    case True
    then show ?thesis using Cons by (cases i) auto
  next
    case False
    then have "filter (\<lambda>y. y < m) ys = []" using Cons.prems(1) by (auto simp: filter_empty_conv)
    then show ?thesis using False Cons.prems by (cases i) (auto intro: order_trans simp: not_less)
  qed
qed simp

lemma median_ge:
  "ts \<noteq> [] \<Longrightarrow> m \<le> median ts \<longleftrightarrow> length (filter (\<lambda>t. t < m) ts) \<le> length ts div 2"
  using sorted_nth_ge [of "sort ts" "length ts div 2" m]
  by (simp add: median_def filter_sort)

lemma median_step:
  assumes "ts = [] \<or> median ts < t"
  shows "median ts \<le> median (if length ts < 11 then ts @ [t] else tl ts @ [t])"
proof (cases "ts = []")
  case False
  then have t: "median ts < t" and c: "length (filter (\<lambda>x. x < median ts) ts) \<le> length ts div 2"
    using assms median_ge [of ts "median ts"] by simp_all
  have "length (filter P (tl ts)) \<le> length (filter P ts)" for P by (cases ts) auto
  from this [of "\<lambda>x. x < median ts"] show ?thesis
    using t c False by (auto simp: median_ge intro: order_trans)
qed (simp add: median_def)

text \<open>
  C9. Time advances: along an accepted chain the median of the past times never decreases.
\<close>

theorem median_time_past_monotone:
  assumes "settings_ok st" "accepted_chain bitcoin_hash st g (hs @ [h])" "length hs + 2 < 2 ^ 64"
  shows "state_median_time_past (headers_state bitcoin_hash st g (hs @ [h])) \<le>
    state_median_time_past (headers_state bitcoin_hash st g (hs @ [h, k]))"
proof -
  let ?ts = "takelast 11 (times_of (g # hs))"
  have l: "length (hs @ [h]) < 2 ^ 64" "length (hs @ [h, k]) < 2 ^ 64" using assms(3) by simp_all
  have m: "state_median_time_past (headers_state bitcoin_hash st g (hs @ [h])) = median ?ts"
      "state_median_time_past (headers_state bitcoin_hash st g (hs @ [h, k])) =
        median (takelast 11 (times_of (g # hs @ [h])))"
    using headers_state_median [OF assms(1) l(1)] headers_state_median [OF assms(1) l(2)]
    by (simp_all add: butlast_append)
  have "median ?ts < hdr_timestamp h"
    using assms(2) m(1) header_accept_context by (fastforce simp: state_context_def elim: accepted_snoc)
  moreover have "takelast 11 (times_of (g # hs) @ [hdr_timestamp h]) =
      (if length ?ts < 11 then ?ts @ [hdr_timestamp h] else tl ?ts @ [hdr_timestamp h])"
    by (rule takelast_snoc) simp
  ultimately show ?thesis using median_step [of ?ts "hdr_timestamp h"] m by simp
qed

theorem median_time_past_monotone_witness:
  "state_median_time_past (headers_state (\<lambda>_. null_hash) mainnet_settings (header_at 1) [header_at 2]) \<le>
   state_median_time_past (headers_state (\<lambda>_. null_hash) mainnet_settings (header_at 1) [header_at 2, header_at 1])"
proof -
  have "accepted_chain (\<lambda>_. null_hash) mainnet_settings (header_at 1) ([] @ [header_at 2])"
    using header_at_accepted by simp
  from median_time_past_monotone [OF mainnet_settings_ok this, where k = "header_at 1"] show ?thesis by simp
qed

section \<open>Activation by checkpoint\<close>

lemma and_or_zero: "x AND (a OR b) = 0 \<longleftrightarrow> x AND a = 0 \<and> x AND b = (0 :: u32)"
  by (simp add: bit_eq_iff bit_simps) blast

lemma raised_and:
  "x AND raised cs = 0 \<longleftrightarrow> (\<forall>(c, f)\<in>set cs. c \<longrightarrow> x AND f = 0)"
proof -
  have "x AND foldl (\<lambda>acc c. if fst c then acc OR snd c else acc) a cs = 0 \<longleftrightarrow>
      x AND a = 0 \<and> (\<forall>(c, f)\<in>set cs. c \<longrightarrow> x AND f = 0)" for a
    by (induction cs arbitrary: a) (auto simp: and_or_zero)
  then show ?thesis by (simp add: raised_def no_rules_def)
qed

lemma flag_and: "i < 32 \<Longrightarrow> j < 32 \<Longrightarrow> flag i AND flag j = 0 \<longleftrightarrow> i \<noteq> j"
  by (auto simp: flag_def bit_eq_iff bit_simps)

lemma flag_nonzero: "i < 32 \<Longrightarrow> flag i \<noteq> 0"
  using flag_and [of i i] by simp

lemmas rule_bits = difficult_def retarget_def bip16_rule_def bip30_rule_def bip34_rule_def bip66_rule_def
  bip65_rule_def bip90_rule_def bip68_rule_def bip112_rule_def bip113_rule_def bip141_rule_def
  bip143_rule_def bip147_rule_def bip42_rule_def bip341_rule_def bip342_rule_def time_warp_patch_def
  block_storm_patch_def ltc_time_warp_patch_def ltc_retarget_overflow_patch_def ltc_scrypt_proof_of_work_def

lemma bip9_flags:
  "bip68_rule AND act_flags (activation d f st) \<noteq> 0 \<longleftrightarrow> d_bip9_bit0_hash d = cp_hash (set_bip9_bit0_active_checkpoint st)"
  "bip141_rule AND act_flags (activation d f st) \<noteq> 0 \<longleftrightarrow> d_bip9_bit1_hash d = cp_hash (set_bip9_bit1_active_checkpoint st)"
  "bip341_rule AND act_flags (activation d f st) \<noteq> 0 \<longleftrightarrow> d_bip9_bit2_hash d = cp_hash (set_bip9_bit2_active_checkpoint st)"
  by (simp_all add: activation_def raised_and Let_def) (simp_all add: rule_bits flag_and flag_nonzero)

text \<open>
  C10. Segregated witness and taproot are active in the state of a chain exactly when the chain has
  reached the height of the checkpoint with the block of the checkpoint at that height.
\<close>

theorem bip9_activation:
  assumes "0 < retargeting_interval st" "length hs < 2 ^ 64"
    and "cp_hash (set_bip9_bit1_active_checkpoint st) \<noteq> null_hash" "cp_hash (set_bip9_bit2_active_checkpoint st) \<noteq> null_hash"
  shows "(ctx_enabled (state_context (headers_state bitcoin_hash st g hs)) bip141_rule \<longleftrightarrow>
      cp_height (set_bip9_bit1_active_checkpoint st) \<le> length hs \<and>
      header_hash bitcoin_hash ((g # hs) ! cp_height (set_bip9_bit1_active_checkpoint st)) =
        cp_hash (set_bip9_bit1_active_checkpoint st)) \<and>
    (ctx_enabled (state_context (headers_state bitcoin_hash st g hs)) bip341_rule \<longleftrightarrow>
      cp_height (set_bip9_bit2_active_checkpoint st) \<le> length hs \<and>
      header_hash bitcoin_hash ((g # hs) ! cp_height (set_bip9_bit2_active_checkpoint st)) =
        cp_hash (set_bip9_bit2_active_checkpoint st))"
proof -
  obtain d where d: "headers_state bitcoin_hash st g hs = make_state d (set_forks st) st"
      "tracks bitcoin_hash st (set_forks st) (g # hs) d"
    using headers_state_tracks [OF assms(1,2)] by blast
  then have "d_bip9_bit1_hash d = cached_at bitcoin_hash (g # hs) (set_bip9_bit1_active_checkpoint st)"
      "d_bip9_bit2_hash d = cached_at bitcoin_hash (g # hs) (set_bip9_bit2_active_checkpoint st)"
    by (simp_all add: tracks_def Let_def)
  then show ?thesis using assms(3,4)
    by (auto simp: ctx_enabled_def state_context_def d(1) make_state_def bip9_flags cached_at_def)
qed

lemma checkpoint_hash_null: "0 < n \<Longrightarrow> n < 2 ^ 256 \<Longrightarrow> cp_hash (make_checkpoint n height) \<noteq> null_hash"
proof
  assume n: "0 < n" "n < 2 ^ 256" and "cp_hash (make_checkpoint n height) = null_hash"
  then have "le_value (le_bytes 32 n) = le_value null_hash" by (simp add: make_checkpoint_def)
  moreover have "le_value (replicate k 0) = 0" for k by (induction k) simp_all
  ultimately show False using n by (simp add: le_value_le_bytes_id null_hash_def)
qed

lemma mainnet_checkpoints:
  "cp_hash (set_bip9_bit1_active_checkpoint mainnet_settings) \<noteq> null_hash"
  "cp_hash (set_bip9_bit2_active_checkpoint mainnet_settings) \<noteq> null_hash"
  "cp_height (set_bip9_bit1_active_checkpoint mainnet_settings) = 481824"
  "cp_height (set_bip9_bit2_active_checkpoint mainnet_settings) = 709632"
  by (simp_all add: mainnet_settings_def checkpoint_hash_null) (simp_all add: make_checkpoint_def)

theorem bip9_activation_witness:
  "\<not> ctx_enabled (state_context (headers_state (\<lambda>_. null_hash) mainnet_settings (header_at 1) [header_at 2])) bip141_rule"
  using bip9_activation [OF _ _ mainnet_checkpoints(1,2), where hs = "[header_at 2]"]
  by (simp add: mainnet_fields mainnet_checkpoints)

text \<open>
  The state made from a pool state and a block at the height of a checkpoint does not activate the
  rules of the checkpoint, even for the block of the checkpoint: the hash it caches is null.
\<close>

theorem block_state_forgets:
  assumes "d_height (state_data pool) = cp_height (set_bip9_bit1_active_checkpoint st)"
    and "cp_hash (set_bip9_bit1_active_checkpoint st) \<noteq> null_hash"
  shows "\<not> ctx_enabled (state_context (block_state pool b st)) bip141_rule"
  using assms by (auto simp: ctx_enabled_def state_context_def block_state_def make_state_def bip9_flags
      to_block_def cache_hashes_def enter_header_def Let_def)

theorem block_state_forgets_witness:
  "\<not> ctx_enabled (state_context (block_state (scratch_state
      ((genesis_data (\<lambda>_. null_hash) mainnet_settings (header_at 1))\<lparr>d_height := 481824\<rparr>) mainnet_settings)
      coinbase_block mainnet_settings)) bip141_rule"
  by (rule block_state_forgets [OF _ mainnet_checkpoints(1)])
    (simp add: mainnet_checkpoints scratch_state_def make_state_def)

end
