(* ===== verification/Sighash.thy ===== *)
theory Sighash
  imports Block
begin

text \<open>
  Signature hashing: \<open>src/chain/transaction_sighash.cpp\<close>, \<open>transaction_sighash_v0.cpp\<close>,
  \<open>transaction_sighash_v1.cpp\<close>, the caches they read in \<open>transaction_cache.cpp\<close>, and the choice
  between them in \<open>transaction.cpp\<close>. An input iterator is the position of the input. The hash
  functions are arguments: \<open>sha256\<close>, its double \<open>sha256x2\<close> and the tagged hash. The caches
  hold what the transaction itself determines, so they are computed here.
\<close>

section \<open>Coverage\<close>

definition coverage_mask :: byte where "coverage_mask = 0x1f"
definition hash_default :: byte where "hash_default = 0"
definition hash_all :: byte where "hash_all = 1"
definition hash_none :: byte where "hash_none = 2"
definition hash_single :: byte where "hash_single = 3"
definition anyone_can_pay :: byte where "anyone_can_pay = 0x80"
definition all_anyone_can_pay :: byte where "all_anyone_can_pay = hash_all OR anyone_can_pay"
definition none_anyone_can_pay :: byte where "none_anyone_can_pay = hash_none OR anyone_can_pay"
definition single_anyone_can_pay :: byte where "single_anyone_can_pay = hash_single OR anyone_can_pay"
definition coverage_invalid :: byte where "coverage_invalid = single_anyone_can_pay + 1"

lemmas coverage_defs = coverage_mask_def hash_default_def hash_all_def hash_none_def hash_single_def
  anyone_can_pay_def all_anyone_can_pay_def none_anyone_can_pay_def single_anyone_can_pay_def
  coverage_invalid_def

definition mask_sighash :: "byte \<Rightarrow> byte" where
  "mask_sighash sighash_flags = (let masked = sighash_flags AND coverage_mask in
     if masked = hash_single then hash_single else if masked = hash_none then hash_none else hash_all)"

definition is_anyone_can_pay :: "byte \<Rightarrow> bool" where
  "is_anyone_can_pay sighash_flags \<longleftrightarrow> bit sighash_flags 7"

definition output_overflow :: "transaction \<Rightarrow> nat \<Rightarrow> bool" where
  "output_overflow t input \<longleftrightarrow> input \<ge> length (tx_outputs t)"

section \<open>Unversioned\<close>

definition not_found :: u64 where "not_found = word_of_nat max_uint64"

definition null_output :: data_chunk where
  "null_output = output_to_data (make_output not_found default_script False)"

definition empty_script :: data_chunk where
  "empty_script = script_to_data default_script True"

definition zero_sequence :: data_chunk where
  "zero_sequence = write_little_endian 4 0"

text \<open>
  The inputs of a preimage: those before and after the signed one lose their scripts, and write
  \<open>other\<close> for their sequence; if anyone can pay they are left out.
\<close>

definition write_other :: "(chain_input \<Rightarrow> data_chunk) \<Rightarrow> chain_input \<Rightarrow> data_chunk" where
  "write_other other i = point_to_data (in_point i) @ empty_script @ other i"

definition write_inputs ::
  "(chain_input \<Rightarrow> data_chunk) \<Rightarrow> transaction \<Rightarrow> nat \<Rightarrow> script \<Rightarrow> byte \<Rightarrow> data_chunk" where
  "write_inputs other t input subscript sighash_flags =
     (let anyone = is_anyone_can_pay sighash_flags; i = tx_inputs t ! input in
      write_variable (if anyone then 1 else length (tx_inputs t)) @
      (if anyone then [] else concat (map (write_other other) (take input (tx_inputs t)))) @
      point_to_data (in_point i) @ script_to_data subscript True @
      write_little_endian 4 (unat (in_sequence i)) @
      (if anyone then [] else concat (map (write_other other) (drop (input + 1) (tx_inputs t)))))"

definition signature_hash_single :: "transaction \<Rightarrow> nat \<Rightarrow> script \<Rightarrow> byte \<Rightarrow> data_chunk" where
  "signature_hash_single t input subscript sighash_flags =
     write_little_endian 4 (unat (tx_version t)) @
     write_inputs (\<lambda>_. zero_sequence) t input subscript sighash_flags @
     write_variable (input + 1) @ concat (replicate input null_output) @
     output_to_data (tx_outputs t ! input) @
     write_little_endian 4 (unat (tx_locktime t)) @ write_little_endian 4 (unat sighash_flags)"

definition signature_hash_none :: "transaction \<Rightarrow> nat \<Rightarrow> script \<Rightarrow> byte \<Rightarrow> data_chunk" where
  "signature_hash_none t input subscript sighash_flags =
     write_little_endian 4 (unat (tx_version t)) @
     write_inputs (\<lambda>_. zero_sequence) t input subscript sighash_flags @
     write_variable 0 @
     write_little_endian 4 (unat (tx_locktime t)) @ write_little_endian 4 (unat sighash_flags)"

definition signature_hash_all :: "transaction \<Rightarrow> nat \<Rightarrow> script \<Rightarrow> byte \<Rightarrow> data_chunk" where
  "signature_hash_all t input subscript sighash_flags =
     write_little_endian 4 (unat (tx_version t)) @
     write_inputs (\<lambda>i. write_little_endian 4 (unat (in_sequence i))) t input subscript sighash_flags @
     write_variable (length (tx_outputs t)) @ concat (map output_to_data (tx_outputs t)) @
     write_little_endian 4 (unat (tx_locktime t)) @ write_little_endian 4 (unat sighash_flags)"

definition one_hash :: hash_digest where "one_hash = le_bytes 32 1"

definition unversioned_sighash ::
  "(data_chunk \<Rightarrow> hash_digest) \<Rightarrow> transaction \<Rightarrow> nat \<Rightarrow> script \<Rightarrow> byte \<Rightarrow> hash_digest" where
  "unversioned_sighash sha256x2 t input subscript sighash_flags =
     (let flag = mask_sighash sighash_flags in
      if flag = hash_single \<and> output_overflow t input then one_hash
      else sha256x2
       (if flag = hash_single then signature_hash_single t input subscript sighash_flags
        else if flag = hash_none then signature_hash_none t input subscript sighash_flags
        else signature_hash_all t input subscript sighash_flags))"

section \<open>Cached hashes\<close>

definition x1_base_hash_points :: "(data_chunk \<Rightarrow> hash_digest) \<Rightarrow> transaction \<Rightarrow> hash_digest" where
  "x1_base_hash_points sha256 t = sha256 (concat (map (\<lambda>i. point_to_data (in_point i)) (tx_inputs t)))"

definition x1_base_hash_sequences :: "(data_chunk \<Rightarrow> hash_digest) \<Rightarrow> transaction \<Rightarrow> hash_digest" where
  "x1_base_hash_sequences sha256 t =
     sha256 (concat (map (\<lambda>i. write_little_endian 4 (unat (in_sequence i))) (tx_inputs t)))"

definition x1_base_hash_outputs :: "(data_chunk \<Rightarrow> hash_digest) \<Rightarrow> transaction \<Rightarrow> hash_digest" where
  "x1_base_hash_outputs sha256 t = sha256 (concat (map output_to_data (tx_outputs t)))"

text \<open>These read every previous output, which the source requires to be populated.\<close>

definition v1_only_hash_amounts :: "(data_chunk \<Rightarrow> hash_digest) \<Rightarrow> transaction \<Rightarrow> hash_digest" where
  "v1_only_hash_amounts sha256 t =
     sha256 (concat (map (\<lambda>i. write_little_endian 8 (unat (out_value (the (in_prevout i))))) (tx_inputs t)))"

definition v1_only_hash_scripts :: "(data_chunk \<Rightarrow> hash_digest) \<Rightarrow> transaction \<Rightarrow> hash_digest" where
  "v1_only_hash_scripts sha256 t =
     sha256 (concat (map (\<lambda>i. script_to_data (out_script (the (in_prevout i))) True) (tx_inputs t)))"

definition double_hash_points :: "(data_chunk \<Rightarrow> hash_digest) \<Rightarrow> transaction \<Rightarrow> hash_digest" where
  "double_hash_points sha256 t = sha256 (x1_base_hash_points sha256 t)"

definition double_hash_sequences :: "(data_chunk \<Rightarrow> hash_digest) \<Rightarrow> transaction \<Rightarrow> hash_digest" where
  "double_hash_sequences sha256 t = sha256 (x1_base_hash_sequences sha256 t)"

definition double_hash_outputs :: "(data_chunk \<Rightarrow> hash_digest) \<Rightarrow> transaction \<Rightarrow> hash_digest" where
  "double_hash_outputs sha256 t = sha256 (x1_base_hash_outputs sha256 t)"

section \<open>Version 0\<close>

definition output_hash_v0 :: "(data_chunk \<Rightarrow> hash_digest) \<Rightarrow> transaction \<Rightarrow> nat \<Rightarrow> hash_digest" where
  "output_hash_v0 sha256x2 t input =
     (if output_overflow t input then null_hash else sha256x2 (output_to_data (tx_outputs t ! input)))"

definition version0_preimage ::
  "(data_chunk \<Rightarrow> hash_digest) \<Rightarrow> (data_chunk \<Rightarrow> hash_digest) \<Rightarrow> transaction \<Rightarrow> nat \<Rightarrow> script \<Rightarrow> u64 \<Rightarrow>
    byte \<Rightarrow> data_chunk" where
  "version0_preimage sha256 sha256x2 t input subscript v sighash_flags =
     (let flag = mask_sighash sighash_flags; anyone = is_anyone_can_pay sighash_flags;
          single = (flag = hash_single); all = (flag = hash_all); i = tx_inputs t ! input in
      write_little_endian 4 (unat (tx_version t)) @
      (if \<not> anyone then double_hash_points sha256 t else null_hash) @
      (if \<not> anyone \<and> all then double_hash_sequences sha256 t else null_hash) @
      point_to_data (in_point i) @ script_to_data subscript True @ write_little_endian 8 (unat v) @
      write_little_endian 4 (unat (in_sequence i)) @
      (if single then output_hash_v0 sha256x2 t input
       else if all then double_hash_outputs sha256 t else null_hash) @
      write_little_endian 4 (unat (tx_locktime t)) @ write_little_endian 4 (unat sighash_flags))"

definition version0_sighash ::
  "(data_chunk \<Rightarrow> hash_digest) \<Rightarrow> (data_chunk \<Rightarrow> hash_digest) \<Rightarrow> transaction \<Rightarrow> nat \<Rightarrow> script \<Rightarrow> u64 \<Rightarrow>
    byte \<Rightarrow> hash_digest" where
  "version0_sighash sha256 sha256x2 t input subscript v sighash_flags =
     sha256x2 (version0_preimage sha256 sha256x2 t input subscript v sighash_flags)"

section \<open>Version 1\<close>

definition default_separators :: u32 where "default_separators = word_of_nat max_uint32"

definition subscript_v1 :: "script \<Rightarrow> u32" where
  "subscript_v1 s = (if script_ops s = [] then default_separators
     else let next = script_offset s in
       if next = 0 then default_separators else word_of_nat (next - 1))"

definition spend_type_v1 :: "bool \<Rightarrow> bool \<Rightarrow> byte" where
  "spend_type_v1 annex tapscript = (let ext_flag = (if tapscript then 1 else 0 :: byte) in
     push_bit 1 ext_flag OR (if annex then 1 else 0))"

definition annex_hash :: "(data_chunk \<Rightarrow> hash_digest) \<Rightarrow> data_chunk \<Rightarrow> hash_digest" where
  "annex_hash sha256 annex = sha256 (write_variable (length annex) @ annex)"

definition version1_preimage ::
  "(data_chunk \<Rightarrow> hash_digest) \<Rightarrow> transaction \<Rightarrow> nat \<Rightarrow> script \<Rightarrow> u64 \<Rightarrow> hash_digest option \<Rightarrow> byte \<Rightarrow> data_chunk" where
  "version1_preimage sha256 t input s v tapleaf sighash_flags =
     (let i = tx_inputs t ! input; annex = wit_annex (in_witness i); flag = mask_sighash sighash_flags;
          anyone = is_anyone_can_pay sighash_flags; single = (flag = hash_single); all = (flag = hash_all) in
      write_byte 0 @ write_byte sighash_flags @
      write_little_endian 4 (unat (tx_version t)) @ write_little_endian 4 (unat (tx_locktime t)) @
      (if \<not> anyone then x1_base_hash_points sha256 t @ v1_only_hash_amounts sha256 t @
         v1_only_hash_scripts sha256 t @ x1_base_hash_sequences sha256 t else []) @
      (if all then x1_base_hash_outputs sha256 t else []) @
      write_byte (spend_type_v1 (annex \<noteq> None) (tapleaf \<noteq> None)) @
      (if anyone then point_to_data (in_point i) @ write_little_endian 8 (unat v) @
         script_to_data (out_script (the (in_prevout i))) True @
         write_little_endian 4 (unat (in_sequence i))
       else write_little_endian 4 input) @
      (case annex of None \<Rightarrow> [] | Some a \<Rightarrow> annex_hash sha256 a) @
      (if single then sha256 (output_to_data (tx_outputs t ! input)) else []) @
      (case tapleaf of None \<Rightarrow> []
        | Some leaf \<Rightarrow> leaf @ write_byte 0 @ write_little_endian 4 (unat (subscript_v1 s))))"

definition version1_sighash ::
  "(data_chunk \<Rightarrow> hash_digest) \<Rightarrow> tagged_hash \<Rightarrow> transaction \<Rightarrow> nat \<Rightarrow> script \<Rightarrow> u64 \<Rightarrow> hash_digest option \<Rightarrow>
    byte \<Rightarrow> hash_digest option" where
  "version1_sighash sha256 tagged t input s v tapleaf sighash_flags =
     (let i = tx_inputs t ! input; flag = mask_sighash sighash_flags;
          anyone = is_anyone_can_pay sighash_flags in
      if anyone \<and> in_prevout i = None then None
      else if flag = hash_single \<and> output_overflow t input then None
      else Some (tagged ''TapSighash'' (version1_preimage sha256 t input s v tapleaf sighash_flags)))"

section \<open>Choice of version\<close>

record sighash_hashes =
  sh_sha256 :: "data_chunk \<Rightarrow> hash_digest"
  sh_sha256x2 :: "data_chunk \<Rightarrow> hash_digest"
  sh_tagged :: tagged_hash

definition signature_hash ::
  "sighash_hashes \<Rightarrow> transaction \<Rightarrow> nat \<Rightarrow> script \<Rightarrow> u64 \<Rightarrow> hash_digest option \<Rightarrow> script_version \<Rightarrow> byte \<Rightarrow>
    flags \<Rightarrow> hash_digest option" where
  "signature_hash H t input subscript v tapleaf version sighash_flags active =
     (let bip143 = is_enabled active bip143_rule; bip342 = is_enabled active bip342_rule in
      if bip143 \<and> version = segwit
      then Some (version0_sighash (sh_sha256 H) (sh_sha256x2 H) t input subscript v sighash_flags)
      else if bip342 \<and> version = taproot
      then version1_sighash (sh_sha256 H) (sh_tagged H) t input subscript v tapleaf sighash_flags
      else Some (unversioned_sighash (sh_sha256x2 H) t input subscript sighash_flags))"

text \<open>
  The public checks of a signature and of an endorsement against the signature hash; the curve is
  an argument.
\<close>

definition check_signature ::
  "sighash_hashes \<Rightarrow> (data_chunk \<Rightarrow> hash_digest \<Rightarrow> data_chunk \<Rightarrow> bool) \<Rightarrow> transaction \<Rightarrow> data_chunk \<Rightarrow>
    data_chunk \<Rightarrow> script \<Rightarrow> nat \<Rightarrow> u64 \<Rightarrow> byte \<Rightarrow> script_version \<Rightarrow> flags \<Rightarrow> bool" where
  "check_signature H verify t signature key subscript index v sighash_flags version active =
     (if index \<ge> length (tx_inputs t) \<or> key = [] then False
      else case signature_hash H t index subscript v None version sighash_flags active of
        None \<Rightarrow> False
      | Some sighash \<Rightarrow> verify key sighash signature)"

definition create_endorsement ::
  "sighash_hashes \<Rightarrow> ('secret \<Rightarrow> hash_digest \<Rightarrow> data_chunk option) \<Rightarrow> (data_chunk \<Rightarrow> data_chunk option) \<Rightarrow>
    transaction \<Rightarrow> 'secret \<Rightarrow> script \<Rightarrow> nat \<Rightarrow> u64 \<Rightarrow> byte \<Rightarrow> script_version \<Rightarrow> flags \<Rightarrow> data_chunk option" where
  "create_endorsement H sign encode t secret subscript index v sighash_flags version active =
     (if index \<ge> length (tx_inputs t) then None
      else case signature_hash H t index subscript v None version sighash_flags active of
        None \<Rightarrow> None
      | Some sighash \<Rightarrow> (case sign secret sighash of
          None \<Rightarrow> None
        | Some signature \<Rightarrow> (case encode signature of
            None \<Rightarrow> None
          | Some der \<Rightarrow> Some (der @ [sighash_flags]))))"

section \<open>The signed copy\<close>

text \<open>
  The original rule: a signature signs a copy of the transaction, changed as the coverage says,
  followed by the coverage itself.
\<close>

definition copy_inputs :: "(chain_input \<Rightarrow> u32) \<Rightarrow> transaction \<Rightarrow> nat \<Rightarrow> script \<Rightarrow> byte \<Rightarrow> chain_input list" where
  "copy_inputs sequence t input subscript sighash_flags =
     (let i = tx_inputs t ! input;
          blank = (\<lambda>i. make_input (in_point i) (from_operations []) default_witness (sequence i) True);
          signed = make_input (in_point i) subscript default_witness (in_sequence i) True
      in if is_anyone_can_pay sighash_flags then [signed]
         else map blank (take input (tx_inputs t)) @ [signed] @ map blank (drop (input + 1) (tx_inputs t)))"

definition copy_outputs :: "transaction \<Rightarrow> nat \<Rightarrow> byte \<Rightarrow> chain_output list" where
  "copy_outputs t input coverage =
     (if coverage = hash_single
      then replicate input (make_output not_found (from_operations []) True) @ [tx_outputs t ! input]
      else if coverage = hash_none then [] else tx_outputs t)"

definition sighash_copy :: "transaction \<Rightarrow> nat \<Rightarrow> script \<Rightarrow> byte \<Rightarrow> transaction" where
  "sighash_copy t input subscript sighash_flags =
     (let coverage = mask_sighash sighash_flags;
          sequence = (\<lambda>i. if coverage = hash_all then in_sequence i else 0)
      in make_transaction (tx_version t) (copy_inputs sequence t input subscript sighash_flags)
           (copy_outputs t input coverage) (tx_locktime t) False True)"

lemma mask_sighash_cases: "mask_sighash f \<in> {hash_all, hash_none, hash_single}"
  by (simp add: mask_sighash_def Let_def)

lemma coverage_distinct: "hash_all \<noteq> hash_none" "hash_all \<noteq> hash_single" "hash_none \<noteq> hash_single"
  by (simp_all add: coverage_defs)

lemma empty_script_data: "script_to_data (from_operations []) True = empty_script"
  by (simp add: empty_script_def script_to_data_def script_serialized_size_def from_operations_def
      make_script_def default_script_def ops_serialized_size_def)

lemma null_output_data: "output_to_data (make_output not_found (from_operations []) True) = null_output"
  by (simp add: null_output_def output_to_data_def make_output_def empty_script_data flip: empty_script_def)

lemma transaction_to_data_copy:
  "transaction_to_data (make_transaction v ins outs l False True) False =
     write_little_endian 4 (unat v) @ write_variable (length ins) @ concat (map input_to_data ins) @
     write_variable (length outs) @ concat (map output_to_data outs) @ write_little_endian 4 (unat l)"
  by (simp add: transaction_to_data_def make_transaction_def)

lemma length_copy_inputs:
  "input < length (tx_inputs t) \<Longrightarrow> length (copy_inputs sequence t input subscript sighash_flags) =
    (if is_anyone_can_pay sighash_flags then 1 else length (tx_inputs t))"
  by (auto simp: copy_inputs_def Let_def)

lemma write_inputs_copy:
  assumes "input < length (tx_inputs t)"
  shows "write_inputs (\<lambda>i. write_little_endian 4 (unat (sequence i))) t input subscript sighash_flags =
    write_variable (length (copy_inputs sequence t input subscript sighash_flags)) @
    concat (map input_to_data (copy_inputs sequence t input subscript sighash_flags))"
proof -
  have "input_to_data (make_input (in_point i) (from_operations []) default_witness (sequence i) True) =
      write_other (\<lambda>i. write_little_endian 4 (unat (sequence i))) i" for i
    by (simp add: write_other_def input_to_data_def make_input_def empty_script_data)
  moreover have "input_to_data (make_input p subscript default_witness q True) =
      point_to_data p @ script_to_data subscript True @ write_little_endian 4 (unat q)" for p q
    by (simp add: input_to_data_def make_input_def)
  ultimately show ?thesis using assms
    by (simp only: length_copy_inputs) (simp add: write_inputs_def copy_inputs_def Let_def comp_def)
qed

lemma write_inputs_zero:
  assumes "input < length (tx_inputs t)"
  shows "write_inputs (\<lambda>_. zero_sequence) t input subscript sighash_flags =
    write_variable (length (copy_inputs (\<lambda>_. 0) t input subscript sighash_flags)) @
    concat (map input_to_data (copy_inputs (\<lambda>_. 0) t input subscript sighash_flags))"
  using write_inputs_copy [OF assms, of "\<lambda>_. 0"] by (simp add: zero_sequence_def)

lemma unversioned_copy:
  assumes "input < length (tx_inputs t)" "mask_sighash sighash_flags = hash_single \<Longrightarrow> input < length (tx_outputs t)"
  shows "unversioned_sighash sha256x2 t input subscript sighash_flags =
    sha256x2 (transaction_to_data (sighash_copy t input subscript sighash_flags) False @
      write_little_endian 4 (unat sighash_flags))"
proof -
  note unfold = unversioned_sighash_def sighash_copy_def transaction_to_data_copy Let_def copy_outputs_def
    coverage_distinct coverage_distinct [symmetric]
  consider "mask_sighash sighash_flags = hash_all" | "mask_sighash sighash_flags = hash_none"
    | "mask_sighash sighash_flags = hash_single" using mask_sighash_cases by blast
  then show ?thesis
  proof cases
    case 1
    then show ?thesis
      by (simp add: unfold signature_hash_all_def write_inputs_copy [OF assms(1)])
  next
    case 2
    then show ?thesis
      by (simp add: unfold signature_hash_none_def write_inputs_zero [OF assms(1)])
  next
    case 3
    then show ?thesis using assms(2)
      by (simp add: unfold signature_hash_single_def write_inputs_zero [OF assms(1)] output_overflow_def null_output_data)
  qed
qed

text \<open>
  The unversioned signature hash is the hash of the copy: for an input of the transaction, and for a
  single coverage one that has an output at its position, the bytes hashed are the serialization of
  the changed copy and the coverage.
\<close>

theorem sighash_of_copy:
  assumes "input < length (tx_inputs t)" "mask_sighash sighash_flags = hash_single \<Longrightarrow> input < length (tx_outputs t)"
  shows "unversioned_sighash sha256x2 t input subscript sighash_flags =
    sha256x2 (transaction_to_data (sighash_copy t input subscript sighash_flags) False @
      write_little_endian 4 (unat sighash_flags))"
  using assms by (rule unversioned_copy)

theorem sighash_of_copy_witness:
  "0 < length (tx_inputs example_transaction) \<and>
   unversioned_sighash id example_transaction 0 default_script hash_all =
    transaction_to_data (sighash_copy example_transaction 0 default_script hash_all) False @
      write_little_endian 4 (unat hash_all)"
proof -
  have inputs: "0 < length (tx_inputs example_transaction)" by (simp add: example_transaction_def make_transaction_def)
  have "mask_sighash hash_all = hash_single \<Longrightarrow> 0 < length (tx_outputs example_transaction)"
    by (simp add: mask_sighash_def coverage_defs)
  from sighash_of_copy [OF inputs this] inputs show ?thesis by simp
qed

section \<open>What a signature commits to\<close>

text \<open>The copy under full coverage is a well formed transaction, so its bytes decide it.\<close>

lemma copy_input_ok:
  "point_ok p \<Longrightarrow> script_wf s \<Longrightarrow> input_ok (make_input p s default_witness q True)"
  by (simp add: input_ok_def make_input_def)

lemma empty_script_wf: "script_wf (from_operations [])"
  by code_simp

lemma tx_inputs_point_ok: "transaction_ok t \<Longrightarrow> i \<in> set (tx_inputs t) \<Longrightarrow> point_ok (in_point i)"
  by (auto simp: transaction_ok_def list_all_iff tx_input_ok_def)

lemma copy_inputs_ok:
  assumes "transaction_ok t" "script_wf subscript" "input < length (tx_inputs t)"
    and "i \<in> set (copy_inputs sequence t input subscript sighash_flags)"
  shows "input_ok i"
proof -
  have "j \<in> set (tx_inputs t) \<Longrightarrow> point_ok (in_point j)" for j
    using assms(1) tx_inputs_point_ok by blast
  with assms(2-4) show ?thesis
    by (auto simp: copy_inputs_def Let_def empty_script_wf copy_input_ok split: if_splits
        dest: in_set_takeD in_set_dropD intro!: copy_input_ok)
qed

lemma copy_ok:
  assumes "transaction_ok t" "script_wf subscript" "input < length (tx_inputs t)"
    and "mask_sighash sighash_flags = hash_all"
  shows "transaction_ok (sighash_copy t input subscript sighash_flags)"
proof -
  let ?ins = "copy_inputs (\<lambda>i. in_sequence i) t input subscript sighash_flags"
  have copy: "sighash_copy t input subscript sighash_flags =
      make_transaction (tx_version t) ?ins (tx_outputs t) (tx_locktime t) False True"
    using assms(4) coverage_distinct by (simp add: sighash_copy_def copy_outputs_def Let_def)
  have ins: "\<forall>i \<in> set ?ins. input_ok i" using copy_inputs_ok [OF assms(1-3)] by blast
  then have "\<forall>i \<in> set ?ins. in_witness i = default_witness"
    using tx_input_unsegregated by (auto simp: tx_input_ok_def)
  then have "\<not> inputs_segregated ?ins"
    by (auto simp: inputs_segregated_def list_ex_iff default_witness_def make_witness_def)
  moreover have "length ?ins = (if is_anyone_can_pay sighash_flags then 1 else length (tx_inputs t))"
    using length_copy_inputs [OF assms(3)] by blast
  then have "length ?ins \<le> max_count" "?ins \<noteq> []"
    using assms(1,3) by (auto simp: transaction_ok_def split: if_splits)
  ultimately show ?thesis using assms(1) ins
    by (simp add: copy transaction_ok_def make_transaction_def tx_input_unsegregated list_all_iff)
qed

lemma unversioned_all:
  "mask_sighash f = hash_all \<Longrightarrow> unversioned_sighash sha256x2 t i s f = sha256x2 (signature_hash_all t i s f)"
  using coverage_distinct by (simp add: unversioned_sighash_def)

lemma signature_hash_all_copy:
  assumes "input < length (tx_inputs t)" "mask_sighash sighash_flags = hash_all"
  shows "unversioned_sighash id t input subscript sighash_flags =
    transaction_to_data (sighash_copy t input subscript sighash_flags) False @
      write_little_endian 4 (unat sighash_flags)"
  using unversioned_copy [of input t sighash_flags id subscript] assms coverage_distinct by simp

lemma copy_inputs_fields:
  assumes "input < length (tx_inputs t)" "\<not> is_anyone_can_pay sighash_flags"
  shows "map in_point (copy_inputs in_sequence t input subscript sighash_flags) = map in_point (tx_inputs t)"
    "map in_sequence (copy_inputs in_sequence t input subscript sighash_flags) = map in_sequence (tx_inputs t)"
    "map in_script (copy_inputs in_sequence t input subscript sighash_flags) =
      (replicate (length (tx_inputs t)) (from_operations []))[input := subscript]"
proof -
  let ?c = "copy_inputs in_sequence t input subscript sighash_flags"
  have nth: "?c ! k = make_input (in_point (tx_inputs t ! k)) (if k = input then subscript else from_operations [])
      default_witness (in_sequence (tx_inputs t ! k)) True" if "k < length (tx_inputs t)" for k
    using that assms by (auto simp: copy_inputs_def Let_def nth_append nth_Cons' min_def)
  have len: "length ?c = length (tx_inputs t)" using length_copy_inputs [OF assms(1)] assms(2) by simp
  show "map in_point ?c = map in_point (tx_inputs t)" "map in_sequence ?c = map in_sequence (tx_inputs t)"
    "map in_script ?c = (replicate (length (tx_inputs t)) (from_operations []))[input := subscript]"
    by (auto intro!: nth_equalityI simp: len nth make_input_def nth_list_update)
qed

lemma copy_unsegregated: "\<not> tx_segregated (sighash_copy t i s f)"
  by (simp add: sighash_copy_def make_transaction_def Let_def)

lemma suffix_word_inject:
  fixes f g :: byte
  assumes "xs @ write_little_endian 4 (unat f) = ys @ write_little_endian 4 (unat g)"
  shows "xs = ys \<and> f = g"
proof -
  have "unat f < 256 ^ 4" "unat g < 256 ^ 4" by (rule order.strict_trans2 [OF unsigned_less], simp)+
  with assms show ?thesis by (simp add: write_little_endian_def le_bytes_inject word_unat_eq_iff)
qed

text \<open>
  C24. A signature of full coverage commits to the transaction: when two well formed transactions have
  the same signature hash under coverage of all inputs and outputs, and the hash does not collide on
  the two preimages, then the coverages, versions, lock times, points spent, sequences and outputs
  are the same, and so are the scripts signed at each input position.
\<close>

theorem sighash_all_commits:
  assumes "transaction_ok t" "transaction_ok u" "script_wf s" "script_wf p"
    and "i < length (tx_inputs t)" "j < length (tx_inputs u)"
    and "mask_sighash f = hash_all" "mask_sighash g = hash_all"
    and "\<not> is_anyone_can_pay f" "\<not> is_anyone_can_pay g"
    and "length (signature_hash_all t i s f) \<le> max_size_t"
    and "inj_on sha256x2 {signature_hash_all t i s f, signature_hash_all u j p g}"
    and "unversioned_sighash sha256x2 t i s f = unversioned_sighash sha256x2 u j p g"
  shows "f = g \<and> tx_version t = tx_version u \<and> tx_locktime t = tx_locktime u \<and>
    map in_point (tx_inputs t) = map in_point (tx_inputs u) \<and>
    map in_sequence (tx_inputs t) = map in_sequence (tx_inputs u) \<and> tx_outputs t = tx_outputs u \<and>
    (replicate (length (tx_inputs t)) (from_operations []))[i := s] =
    (replicate (length (tx_inputs u)) (from_operations []))[j := p]"
proof -
  let ?a = "sighash_copy t i s f" and ?b = "sighash_copy u j p g"
  have pre: "signature_hash_all t i s f = transaction_to_data ?a False @ write_little_endian 4 (unat f)"
    "signature_hash_all u j p g = transaction_to_data ?b False @ write_little_endian 4 (unat g)"
    using signature_hash_all_copy [OF assms(5,7), of s] signature_hash_all_copy [OF assms(6,8), of p]
    by (simp_all add: unversioned_all assms(7,8))
  have "signature_hash_all t i s f = signature_hash_all u j p g"
    using assms(12,13) by (auto simp: unversioned_all assms(7,8) dest: inj_onD)
  with pre have same: "transaction_to_data ?a False = transaction_to_data ?b False" "f = g"
    using suffix_word_inject by metis+
  have ok: "transaction_ok ?a" "transaction_ok ?b" using copy_ok assms(1-8) by blast+
  have "length (transaction_to_data ?a False) \<le> max_size_t" using assms(11) pre by simp
  from plain_data_inject [OF ok same(1) this]
  have copies: "?a = ?b" using stripped_id [OF ok(1)] stripped_id [OF ok(2)] by (simp add: copy_unsegregated)
  have ins: "copy_inputs in_sequence t i s f = copy_inputs in_sequence u j p g" and
    rest: "tx_version t = tx_version u" "tx_locktime t = tx_locktime u" "tx_outputs t = tx_outputs u"
    using copies assms(7,8) coverage_distinct
    by (simp_all add: sighash_copy_def copy_outputs_def make_transaction_def Let_def)
  from ins rest same(2) show ?thesis
    using copy_inputs_fields [OF assms(5) assms(9), of s] copy_inputs_fields [OF assms(6) assms(10), of p] by metis
qed

lemma example_signature_hash:
  "length (signature_hash_all example_transaction 0 (from_operations []) hash_all) \<le> max_size_t"
  "signature_hash_all example_transaction 0 (from_operations []) hash_all =
   signature_hash_all (stripped example_transaction) 0 (from_operations []) hash_all"
  by (simp_all add: signature_hash_all_def write_inputs_def example_transaction_def make_transaction_def size_simps
      stripped_def plain_def output_to_data_def point_to_data_def make_input_def make_output_def make_point_def
      script_to_data_def script_serialized_size_def from_operations_def make_script_def
      ops_serialized_size_def write_little_endian_def write_byte_def variable_size_def limits
      Let_def varint_two_bytes_def)

theorem sighash_all_commits_witness:
  "map in_sequence (tx_inputs example_transaction) = map in_sequence (tx_inputs (stripped example_transaction))"
proof -
  have ok: "transaction_ok (stripped example_transaction)"
    using example_transaction_ok
    by (auto simp: transaction_ok_def stripped_def make_transaction_def list_all_iff tx_input_unsegregated
        inputs_segregated_def plain_def make_input_def tx_input_ok_def default_witness_def make_witness_def
        list_ex_iff)
  have inputs: "0 < length (tx_inputs example_transaction)" "0 < length (tx_inputs (stripped example_transaction))"
    by (simp_all add: example_transaction_def make_transaction_def stripped_def)
  have flag: "mask_sighash hash_all = hash_all" "\<not> is_anyone_can_pay hash_all"
    by (simp_all add: mask_sighash_def is_anyone_can_pay_def coverage_defs)
  from sighash_all_commits [OF example_transaction_ok ok empty_script_wf empty_script_wf
      inputs flag(1) flag(1) flag(2) flag(2) example_signature_hash(1), of id]
  show ?thesis by (simp add: example_signature_hash(2) unversioned_all flag)
qed

end
