(* ===== verification/Machine.thy ===== *)
theory Machine
  imports Sighash
begin

text \<open>
  The state of a script program: the variant stack (\<open>impl/machine/stack.ipp\<close>,
  \<open>stack_variant.ipp\<close>) and the program that owns it with its constructors, stacks, accumulators
  and signature helpers (\<open>impl/machine/program.ipp\<close>, \<open>program_construct.ipp\<close>,
  \<open>program_verify.ipp\<close>, and the unbatched verification of \<open>program_batch.ipp\<close>).

  A stack is a list with its top first, so that the index of the source, which counts from the
  back of its container, is the list index. The script is held by value, with the offset that a
  code separator moves. Weak pointers and tethers only manage storage: a chunk element is its
  bytes. Hash functions and the curve are one record argument.
\<close>

section \<open>The variant stack\<close>

datatype stack_variant = Vbool bool | Vint int | Vchunk data_chunk

definition to_int :: "bool \<Rightarrow> int" where
  "to_int b = (if b then 1 else 0)"

fun variant_bool :: "stack_variant \<Rightarrow> bool" where
  "variant_bool (Vbool vary) = vary"
| "variant_bool (Vint vary) = boolean_from_integer vary"
| "variant_bool (Vchunk vary) = boolean_from_chunk vary"

fun variant_strict_bool :: "stack_variant \<Rightarrow> bool" where
  "variant_strict_bool (Vbool vary) = vary"
| "variant_strict_bool (Vint vary) = boolean_from_integer vary"
| "variant_strict_bool (Vchunk vary) = boolean_from_chunk_strict vary"

text \<open>A failed conversion has no value.\<close>

definition converted :: "bool \<times> 'a \<Rightarrow> 'a option" where
  "converted r = (if fst r then Some (snd r) else None)"

fun variant_minimal_bool :: "stack_variant \<Rightarrow> bool option" where
  "variant_minimal_bool (Vbool vary) = Some vary"
| "variant_minimal_bool (Vint vary) = converted (boolean_from_integer_minimal vary)"
| "variant_minimal_bool (Vchunk vary) = converted (boolean_from_chunk_minimal vary)"

fun variant_chunk :: "stack_variant \<Rightarrow> data_chunk" where
  "variant_chunk (Vbool vary) = chunk_from_bool vary"
| "variant_chunk (Vint vary) = chunk_from_integer vary"
| "variant_chunk (Vchunk vary) = vary"

fun variant_size :: "stack_variant \<Rightarrow> nat" where
  "variant_size (Vbool vary) = length (chunk_from_bool vary)"
| "variant_size (Vint vary) = length (chunk_from_integer vary)"
| "variant_size (Vchunk vary) = length vary"

text \<open>The integer conversion at a width in bytes: integers on the stack have 64 bits.\<close>

fun variant_signed :: "nat \<Rightarrow> stack_variant \<Rightarrow> int option" where
  "variant_signed n (Vbool vary) = Some (to_int vary)"
| "variant_signed n (Vint vary) = (if integer_is_overflow n vary then None else Some vary)"
| "variant_signed n (Vchunk vary) = converted (integer_from_chunk n vary)"

fun equal_chunks :: "stack_variant \<Rightarrow> stack_variant \<Rightarrow> bool" where
  "equal_chunks (Vbool vary) (Vbool right) = (right = vary)"
| "equal_chunks (Vbool vary) (Vint right) = (right = to_int vary)"
| "equal_chunks (Vbool vary) (Vchunk right) = (right = chunk_from_bool vary)"
| "equal_chunks (Vint vary) (Vbool right) = (to_int right = vary)"
| "equal_chunks (Vint vary) (Vint right) = (right = vary)"
| "equal_chunks (Vint vary) (Vchunk right) = (right = chunk_from_integer vary)"
| "equal_chunks (Vchunk vary) (Vbool right) = (chunk_from_bool right = vary)"
| "equal_chunks (Vchunk vary) (Vint right) = (chunk_from_integer right = vary)"
| "equal_chunks (Vchunk vary) (Vchunk right) = (right = vary)"

definition stack_swap :: "nat \<Rightarrow> nat \<Rightarrow> 'a list \<Rightarrow> 'a list" where
  "stack_swap left right xs = xs[left := xs ! right, right := xs ! left]"

definition stack_erase :: "nat \<Rightarrow> 'a list \<Rightarrow> 'a list" where
  "stack_erase index xs = take index xs @ drop (index + 1) xs"

section \<open>Programs\<close>

record multisig_cache =
  cache_set :: bool
  cache_flags :: byte
  cache_hash :: hash_digest

record crypto =
  rmd160_chunk :: "data_chunk \<Rightarrow> data_chunk"
  sha1_chunk :: "data_chunk \<Rightarrow> data_chunk"
  sha256_chunk :: "data_chunk \<Rightarrow> data_chunk"
  bitcoin_short_chunk :: "data_chunk \<Rightarrow> data_chunk"
  bitcoin_chunk :: "data_chunk \<Rightarrow> data_chunk"
  tagged_chunk :: tagged_hash
  ecdsa_decode :: "data_chunk \<Rightarrow> bool \<Rightarrow> data_chunk option"
  ecdsa_verify :: "data_chunk \<Rightarrow> hash_digest \<Rightarrow> data_chunk \<Rightarrow> bool"
  schnorr_verify :: "data_chunk \<Rightarrow> hash_digest \<Rightarrow> data_chunk \<Rightarrow> bool"
  verify_commitment :: commitment_check

definition sighashes :: "crypto \<Rightarrow> sighash_hashes" where
  "sighashes C = \<lparr>sh_sha256 = sha256_chunk C, sh_sha256x2 = bitcoin_chunk C, sh_tagged = tagged_chunk C\<rparr>"

record program =
  prg_tx :: transaction
  prg_input :: nat
  prg_script :: script
  prg_flags :: flags
  prg_value :: u64
  prg_version :: script_version
  prg_witness :: "data_chunk list option"
  prg_tapleaf :: "hash_digest option"
  prg_multisig :: multisig_cache
  prg_primary :: "stack_variant list"
  prg_alternate :: "stack_variant list"
  prg_condition :: "bool list"
  prg_budget :: nat
  prg_operations :: nat
  prg_negative :: nat

definition program_input :: "program \<Rightarrow> chain_input" where
  "program_input p = tx_inputs (prg_tx p) ! prg_input p"

definition enabled :: "program \<Rightarrow> flags \<Rightarrow> bool" where
  "enabled p f \<longleftrightarrow> prg_flags p AND f \<noteq> 0"

subsection \<open>Constructors\<close>

definition bip342_mask :: flags where "bip342_mask = NOT bip342_rule"

definition no_cache :: multisig_cache where
  "no_cache = \<lparr>cache_set = False, cache_flags = 0, cache_hash = null_hash\<rparr>"

text \<open>Members that no constructor initializes: no conditions, no alternates, zero accumulators.\<close>

definition new_program ::
  "transaction \<Rightarrow> nat \<Rightarrow> script \<Rightarrow> flags \<Rightarrow> u64 \<Rightarrow> script_version \<Rightarrow> data_chunk list option \<Rightarrow>
    hash_digest option \<Rightarrow> stack_variant list \<Rightarrow> nat \<Rightarrow> program" where
  "new_program t input s active v version witness tapleaf stack budget =
     \<lparr>prg_tx = t, prg_input = input, prg_script = clear_offset s, prg_flags = active, prg_value = v,
      prg_version = version, prg_witness = witness, prg_tapleaf = tapleaf, prg_multisig = no_cache,
      prg_primary = stack, prg_alternate = [], prg_condition = [], prg_budget = budget,
      prg_operations = 0, prg_negative = 0\<rparr>"

definition input_program :: "transaction \<Rightarrow> nat \<Rightarrow> flags \<Rightarrow> program" where
  "input_program t input active =
     new_program t input (in_script (tx_inputs t ! input)) (active AND bip342_mask)
       (word_of_nat max_uint64) unversioned None None [] 0"

definition successor_program :: "program \<Rightarrow> script \<Rightarrow> program" where
  "successor_program other s =
     new_program (prg_tx other) (prg_input other) s (prg_flags other) (prg_value other)
       (prg_version other) None None (prg_primary other) 0"

text \<open>A witness stack is serialized bottom first.\<close>

definition projection :: "data_chunk list \<Rightarrow> stack_variant list" where
  "projection witness = rev (map Vchunk witness)"

definition prevout_value :: "transaction \<Rightarrow> nat \<Rightarrow> u64" where
  "prevout_value t input = out_value (the (in_prevout (tx_inputs t ! input)))"

definition segwit_program ::
  "transaction \<Rightarrow> nat \<Rightarrow> script \<Rightarrow> flags \<Rightarrow> script_version \<Rightarrow> data_chunk list \<Rightarrow> program" where
  "segwit_program t input s active version witness =
     new_program t input s (active AND bip342_mask) (prevout_value t input) version (Some witness) None
       (projection witness) 0"

definition signature_cost :: nat where "signature_cost = 50"

definition taproot_program ::
  "transaction \<Rightarrow> nat \<Rightarrow> script \<Rightarrow> flags \<Rightarrow> script_version \<Rightarrow> data_chunk list \<Rightarrow> hash_digest option \<Rightarrow> program" where
  "taproot_program t input s active version witness tapleaf =
     new_program t input s active (prevout_value t input) version (Some witness) tapleaf
       (projection witness)
       (ceilinged_add (signature_cost + 1)
         (witness_serialized_size (in_witness (tx_inputs t ! input)) True))"

subsection \<open>Primary stack\<close>

text \<open>
  Operations whose names end with an underscore in the source are not guarded against an empty
  stack; here their names end with \<open>top\<close>.
\<close>

definition push_variant :: "stack_variant \<Rightarrow> program \<Rightarrow> program" where
  "push_variant vary p = p\<lparr>prg_primary := vary # prg_primary p\<rparr>"

definition push_chunk :: "data_chunk \<Rightarrow> program \<Rightarrow> program" where
  "push_chunk datum = push_variant (Vchunk datum)"

definition push_bool :: "bool \<Rightarrow> program \<Rightarrow> program" where
  "push_bool v = push_variant (Vbool v)"

definition push_signed64 :: "int \<Rightarrow> program \<Rightarrow> program" where
  "push_signed64 v = push_variant (Vint v)"

definition push_length :: "nat \<Rightarrow> program \<Rightarrow> program" where
  "push_length n = push_signed64 (int n)"

definition stack_size :: "program \<Rightarrow> nat" where
  "stack_size p = length (prg_primary p)"

definition is_stack_empty :: "program \<Rightarrow> bool" where
  "is_stack_empty p \<longleftrightarrow> prg_primary p = []"

definition peek_top :: "program \<Rightarrow> stack_variant" where
  "peek_top p = hd (prg_primary p)"

definition peek_at :: "nat \<Rightarrow> program \<Rightarrow> stack_variant" where
  "peek_at index p = prg_primary p ! index"

definition drop_top :: "program \<Rightarrow> program" where
  "drop_top p = p\<lparr>prg_primary := tl (prg_primary p)\<rparr>"

definition pop_top :: "program \<Rightarrow> stack_variant \<times> program" where
  "pop_top p = (peek_top p, drop_top p)"

definition swap_at :: "nat \<Rightarrow> nat \<Rightarrow> program \<Rightarrow> program" where
  "swap_at left right p = p\<lparr>prg_primary := stack_swap left right (prg_primary p)\<rparr>"

definition erase_at :: "nat \<Rightarrow> program \<Rightarrow> program" where
  "erase_at index p = p\<lparr>prg_primary := stack_erase index (prg_primary p)\<rparr>"

definition peek_bool_top :: "program \<Rightarrow> bool" where
  "peek_bool_top p = variant_bool (peek_top p)"

definition pop_chunk_top :: "program \<Rightarrow> data_chunk \<times> program" where
  "pop_chunk_top p = (variant_chunk (peek_top p), drop_top p)"

fun pop_each_chunk :: "nat \<Rightarrow> program \<Rightarrow> data_chunk list \<times> program" where
  "pop_each_chunk 0 p = ([], p)"
| "pop_each_chunk (Suc count) p = (let (c, q) = pop_chunk_top p; (cs, r) = pop_each_chunk count q in (c # cs, r))"

definition pop_chunks :: "nat \<Rightarrow> program \<Rightarrow> bool \<times> data_chunk list \<times> program" where
  "pop_chunks count p = (if stack_size p < count then (False, [], p) else (True, pop_each_chunk count p))"

definition pop_strict_bool_top :: "program \<Rightarrow> bool \<times> program" where
  "pop_strict_bool_top p = (variant_strict_bool (peek_top p), drop_top p)"

definition pop_bool_top :: "bool \<Rightarrow> program \<Rightarrow> bool option \<times> program" where
  "pop_bool_top minimal p =
     (if \<not> minimal then (Some (peek_bool_top p), drop_top p)
      else case variant_minimal_bool (peek_top p) of None \<Rightarrow> (None, p) | Some v \<Rightarrow> (Some v, drop_top p))"

definition pop_signed32_top :: "program \<Rightarrow> int option \<times> program" where
  "pop_signed32_top p = (variant_signed 4 (peek_top p), drop_top p)"

definition pop_signed32 :: "program \<Rightarrow> int option \<times> program" where
  "pop_signed32 p = (if is_stack_empty p then (None, p) else pop_signed32_top p)"

text \<open>The right operand is at the top of the stack.\<close>

definition pop_binary32 :: "program \<Rightarrow> (int \<times> int) option \<times> program" where
  "pop_binary32 p =
     (if stack_size p < 2 then (None, p)
      else case pop_signed32_top p of
        (None, q) \<Rightarrow> (None, q)
      | (Some right, q) \<Rightarrow> (case pop_signed32_top q of
          (None, r) \<Rightarrow> (None, r)
        | (Some left, r) \<Rightarrow> (Some (left, right), r)))"

definition pop_ternary32 :: "program \<Rightarrow> (int \<times> int \<times> int) option \<times> program" where
  "pop_ternary32 p =
     (if stack_size p < 3 then (None, p)
      else case pop_signed32_top p of
        (None, q) \<Rightarrow> (None, q)
      | (Some high, q) \<Rightarrow> (case pop_signed32_top q of
          (None, r) \<Rightarrow> (None, r)
        | (Some low, r) \<Rightarrow> (case pop_signed32_top r of
            (None, s) \<Rightarrow> (None, s)
          | (Some v, s) \<Rightarrow> (Some (high, low, v), s))))"

definition pop_index32 :: "program \<Rightarrow> nat option \<times> program" where
  "pop_index32 p = (case pop_signed32 p of
       (None, q) \<Rightarrow> (None, q)
     | (Some v, q) \<Rightarrow> (if v < 0 then (None, q) else if nat v < stack_size q then (Some (nat v), q) else (None, q)))"

definition peek_unsigned32 :: "program \<Rightarrow> u32 option" where
  "peek_unsigned32 p =
     (if is_stack_empty p then None
      else case variant_signed 5 (peek_top p) of
        None \<Rightarrow> None
      | Some v \<Rightarrow> (if v < 0 then None else Some (word_of_int v)))"

definition peek_unsigned40 :: "program \<Rightarrow> u64 option" where
  "peek_unsigned40 p =
     (if is_stack_empty p then None
      else case variant_signed 5 (peek_top p) of
        None \<Rightarrow> None
      | Some v \<Rightarrow> (if v < 0 then None else Some (word_of_int v)))"

definition max_unified_stack_size :: nat where "max_unified_stack_size = 1000"

definition is_stack_overflow :: "program \<Rightarrow> bool" where
  "is_stack_overflow p \<longleftrightarrow> stack_size p + length (prg_alternate p) > max_unified_stack_size"

definition is_stack_clean :: "program \<Rightarrow> bool" where
  "is_stack_clean p \<longleftrightarrow> stack_size p = 1"

definition is_true :: "bool \<Rightarrow> program \<Rightarrow> bool" where
  "is_true clean_stack p \<longleftrightarrow> (\<not> clean_stack \<or> is_stack_clean p) \<and> \<not> is_stack_empty p \<and> peek_bool_top p"

definition program_pop :: "program \<Rightarrow> data_chunk \<times> program" where
  "program_pop p = pop_chunk_top p"

subsection \<open>Alternate stack\<close>

definition is_alternate_empty :: "program \<Rightarrow> bool" where
  "is_alternate_empty p \<longleftrightarrow> prg_alternate p = []"

definition push_alternate :: "stack_variant \<Rightarrow> program \<Rightarrow> program" where
  "push_alternate vary p = p\<lparr>prg_alternate := vary # prg_alternate p\<rparr>"

definition pop_alternate_top :: "program \<Rightarrow> stack_variant \<times> program" where
  "pop_alternate_top p = (hd (prg_alternate p), p\<lparr>prg_alternate := tl (prg_alternate p)\<rparr>)"

subsection \<open>Conditions\<close>

text \<open>
  The count of negative conditions is kept beside the condition stack, to avoid a search of the
  stack for every operation.
\<close>

definition begin_if :: "bool \<Rightarrow> program \<Rightarrow> program" where
  "begin_if v p = p\<lparr>prg_negative := prg_negative p + (if v then 0 else 1), prg_condition := v # prg_condition p\<rparr>"

definition else_if_top :: "program \<Rightarrow> program" where
  "else_if_top p = (let back = hd (prg_condition p) in
     p\<lparr>prg_negative := (if back then prg_negative p + 1 else prg_negative p - 1),
       prg_condition := (\<not> back) # tl (prg_condition p)\<rparr>)"

definition end_if_top :: "program \<Rightarrow> program" where
  "end_if_top p = (let back = hd (prg_condition p) in
     p\<lparr>prg_negative := (if back then prg_negative p else prg_negative p - 1),
       prg_condition := tl (prg_condition p)\<rparr>)"

definition is_balanced :: "program \<Rightarrow> bool" where
  "is_balanced p \<longleftrightarrow> prg_condition p = []"

definition is_succeeding :: "program \<Rightarrow> bool" where
  "is_succeeding p \<longleftrightarrow> prg_negative p = 0"

definition if_op :: "operation \<Rightarrow> program \<Rightarrow> bool" where
  "if_op op p \<longleftrightarrow> is_conditional (op_code op) \<or> is_succeeding p"

subsection \<open>Accumulators\<close>

definition max_counted_ops :: nat where "max_counted_ops = 201"

definition operation_count_exceeded :: "nat \<Rightarrow> bool" where
  "operation_count_exceeded count \<longleftrightarrow> count > max_counted_ops"

text \<open>The natural subtraction is the floored one of the source.\<close>

definition sigops_increment :: "program \<Rightarrow> bool \<times> program" where
  "sigops_increment p = (let budget = prg_budget p - signature_cost in
     (budget \<noteq> 0, p\<lparr>prg_budget := budget\<rparr>))"

definition ops_increment :: "operation \<Rightarrow> program \<Rightarrow> bool \<times> program" where
  "ops_increment op p =
     (if enabled p bip342_rule then (True, p)
      else let n = (if is_counted (op_code op) then prg_operations p + 1 else prg_operations p) in
        (n \<le> max_counted_ops, p\<lparr>prg_operations := n\<rparr>))"

definition ops_increment_keys :: "nat \<Rightarrow> program \<Rightarrow> bool \<times> program" where
  "ops_increment_keys public_keys p =
     (if enabled p bip342_rule then (True, p)
      else let n = prg_operations p + public_keys in
        (\<not> operation_count_exceeded n, p\<lparr>prg_operations := n\<rparr>))"

subsection \<open>Endorsements\<close>

definition ec_signature_size :: nat where "ec_signature_size = 64"

definition is_schnorr_sighash :: "byte \<Rightarrow> bool" where
  "is_schnorr_sighash sighash_flags \<longleftrightarrow> sighash_flags \<in> {hash_all, hash_none, hash_single,
     all_anyone_can_pay, none_anyone_can_pay, single_anyone_can_pay}"

definition schnorr_split :: "data_chunk \<Rightarrow> byte \<times> data_chunk" where
  "schnorr_split endorsement =
     (if length endorsement = ec_signature_size then (hash_default, endorsement)
      else if length endorsement = ec_signature_size + 1
      then (if is_schnorr_sighash (last endorsement) then last endorsement else coverage_invalid,
        take ec_signature_size endorsement)
      else (coverage_invalid, replicate ec_signature_size 0))"

definition ecdsa_split :: "data_chunk \<Rightarrow> byte \<times> data_chunk" where
  "ecdsa_split endorsement = (last endorsement, butlast endorsement)"

subsection \<open>Subscripts\<close>

definition uncache :: "program \<Rightarrow> program" where
  "uncache p = p\<lparr>prg_multisig := (prg_multisig p)\<lparr>cache_set := False\<rparr>\<rparr>"

definition set_subscript :: "nat \<Rightarrow> program \<Rightarrow> program" where
  "set_subscript index p = uncache (p\<lparr>prg_script := (prg_script p)\<lparr>script_offset := index + 1\<rparr>\<rparr>)"

text \<open>A stripper is the nominal push of an endorsement, or the code separator without data.\<close>

type_synonym stripper = "opcode \<times> data_chunk"

definition create_strip_ops :: "data_chunk list \<Rightarrow> stripper list" where
  "create_strip_ops sigs =
     map (\<lambda>e. (nominal_opcode_from_data e, e)) sigs @ [(opcode_codeseparator, [])]"

definition op_stripped :: "stripper list \<Rightarrow> operation \<Rightarrow> bool" where
  "op_stripped strip op \<longleftrightarrow> list_ex (\<lambda>(code, data). op_code op = code \<and> get_data op = data) strip"

definition subscript :: "data_chunk list \<Rightarrow> program \<Rightarrow> script" where
  "subscript sigs p =
     (if enabled p bip143_rule \<and> prg_version p = segwit then prg_script p
      else let strip = create_strip_ops sigs;
               ops = drop (script_offset (prg_script p)) (script_ops (prg_script p)) in
        if \<not> list_ex (op_stripped strip) ops then prg_script p
        else from_operations (filter (\<lambda>op. \<not> op_stripped strip op) ops))"

subsection \<open>Signature hashes and their cache\<close>

definition program_signature_hash :: "crypto \<Rightarrow> script \<Rightarrow> byte \<Rightarrow> program \<Rightarrow> hash_digest option" where
  "program_signature_hash C sub sighash_flags p =
     signature_hash (sighashes C) (prg_tx p) (prg_input p) sub (prg_value p) (prg_tapleaf p)
       (prg_version p) sighash_flags (prg_flags p)"

definition is_cached :: "byte \<Rightarrow> program \<Rightarrow> bool" where
  "is_cached sighash_flags p \<longleftrightarrow> cache_set (prg_multisig p) \<and> cache_flags (prg_multisig p) = sighash_flags"

text \<open>The out parameter keeps its previous value when the signature hash fails.\<close>

definition set_hash_v1 :: "crypto \<Rightarrow> byte \<Rightarrow> program \<Rightarrow> bool \<times> program" where
  "set_hash_v1 C sighash_flags p = (case program_signature_hash C (prg_script p) sighash_flags p of
       None \<Rightarrow> (False, p\<lparr>prg_multisig := \<lparr>cache_set = False, cache_flags = sighash_flags,
         cache_hash = cache_hash (prg_multisig p)\<rparr>\<rparr>)
     | Some hash \<Rightarrow> (True, p\<lparr>prg_multisig := \<lparr>cache_set = True, cache_flags = sighash_flags,
         cache_hash = hash\<rparr>\<rparr>))"

definition set_hash :: "crypto \<Rightarrow> script \<Rightarrow> byte \<Rightarrow> program \<Rightarrow> program" where
  "set_hash C sub sighash_flags p =
     p\<lparr>prg_multisig := \<lparr>cache_set = True, cache_flags = sighash_flags,
       cache_hash = (case program_signature_hash C sub sighash_flags p of
           None \<Rightarrow> cache_hash (prg_multisig p)
         | Some hash \<Rightarrow> hash)\<rparr>\<rparr>"

definition cached_hash :: "program \<Rightarrow> hash_digest" where
  "cached_hash p = cache_hash (prg_multisig p)"

section \<open>Start of a run\<close>

definition initialize :: "program \<Rightarrow> script_error_t" where
  "initialize p =
     (let bip141 = enabled p bip141_rule; bip342 = enabled p bip342_rule; s = prg_script p in
      if bip342 \<and> script_easier s then error_prevalid_script
      else if script_is_underflow s then error_invalid_script
      else if bip342 \<and> is_stack_overflow p then error_invalid_stack_size
      else if (bip342 \<or> bip141) \<and> (case prg_witness p of None \<Rightarrow> False | Some w \<Rightarrow> \<not> is_push_size w)
      then error_invalid_witness_stack
      else if \<not> bip342 \<and> script_is_oversized s then error_invalid_script_size
      else if script_failer s then error_prefail_script
      else error_script_success)"

end
