(* ===== verification/Interpreter.thy ===== *)
theory Interpreter
  imports Machine
begin

text \<open>
  The interpreter: a definition for each operation handler of \<open>impl/machine/interpreter.ipp\<close>, the
  dispatch and the run loop of \<open>interpreter_run.ipp\<close>. A handler returns its error and the program
  it leaves, which is also defined when it fails. The signature capture is not enabled, so every
  signature is verified in place.
\<close>

section \<open>Handlers\<close>

type_synonym op_result = "op_error_t \<times> program"

abbreviation continue :: "program \<Rightarrow> op_result" where
  "continue p \<equiv> (error_op_success, p)"

definition op_unevaluated :: "opcode \<Rightarrow> program \<Rightarrow> op_result" where
  "op_unevaluated code p = (if is_invalid code then error_op_invalid else error_op_reserved, p)"

definition op_nop_code :: "opcode \<Rightarrow> program \<Rightarrow> op_result" where
  "op_nop_code code p = (if enabled p nops_rule then continue p else continue p)"

subsection \<open>Pushes\<close>

definition op_push_number :: "int \<Rightarrow> program \<Rightarrow> op_result" where
  "op_push_number v p = continue (push_signed64 v p)"

definition op_push_size :: "operation \<Rightarrow> program \<Rightarrow> op_result" where
  "op_push_size op p = (if is_underclaimed op then (error_op_push_size, p) else continue (push_chunk (get_data op) p))"

definition op_push_one_size :: "operation \<Rightarrow> program \<Rightarrow> op_result" where
  "op_push_one_size op p = (if is_underclaimed op then (error_op_push_one_size, p) else continue (push_chunk (get_data op) p))"

definition op_push_two_size :: "operation \<Rightarrow> program \<Rightarrow> op_result" where
  "op_push_two_size op p = (if is_underclaimed op then (error_op_push_two_size, p) else continue (push_chunk (get_data op) p))"

definition op_push_four_size :: "operation \<Rightarrow> program \<Rightarrow> op_result" where
  "op_push_four_size op p = (if is_underclaimed op then (error_op_push_four_size, p) else continue (push_chunk (get_data op) p))"

subsection \<open>Control\<close>

definition op_nop :: "program \<Rightarrow> op_result" where
  "op_nop p = continue p"

definition op_ver :: "program \<Rightarrow> op_result" where
  "op_ver p = (if enabled p nops_rule then op_unevaluated opcode_op_ver p else (error_op_not_implemented, p))"

definition op_if :: "program \<Rightarrow> op_result" where
  "op_if p =
     (if is_succeeding p
      then if is_stack_empty p then (error_op_if1, p)
        else case pop_bool_top (enabled p bip342_rule) p of
          (None, q) \<Rightarrow> (error_op_if2, q)
        | (Some v, q) \<Rightarrow> continue (begin_if v q)
      else continue (begin_if False p))"

definition op_notif :: "program \<Rightarrow> op_result" where
  "op_notif p =
     (if is_succeeding p
      then if is_stack_empty p then (error_op_notif1, p)
        else case pop_bool_top (enabled p bip342_rule) p of
          (None, q) \<Rightarrow> (error_op_notif2, q)
        | (Some v, q) \<Rightarrow> continue (begin_if (\<not> v) q)
      else continue (begin_if True p))"

definition op_verif :: "program \<Rightarrow> op_result" where
  "op_verif p = (if enabled p nops_rule then op_unevaluated opcode_op_verif p else (error_op_not_implemented, p))"

definition op_vernotif :: "program \<Rightarrow> op_result" where
  "op_vernotif p = (if enabled p nops_rule then op_unevaluated opcode_op_vernotif p else (error_op_not_implemented, p))"

definition op_else :: "program \<Rightarrow> op_result" where
  "op_else p = (if is_balanced p then (error_op_else, p) else continue (else_if_top p))"

definition op_endif :: "program \<Rightarrow> op_result" where
  "op_endif p = (if is_balanced p then (error_op_endif, p) else continue (end_if_top p))"

definition op_verify :: "program \<Rightarrow> op_result" where
  "op_verify p = (if is_stack_empty p then (error_op_verify1, p)
     else if \<not> peek_bool_top p then (error_op_verify2, p) else continue (drop_top p))"

definition op_return :: "program \<Rightarrow> op_result" where
  "op_return p = (if enabled p nops_rule then op_unevaluated opcode_op_return p else (error_op_not_implemented, p))"

subsection \<open>Stack\<close>

definition op_to_alt_stack :: "program \<Rightarrow> op_result" where
  "op_to_alt_stack p = (if is_stack_empty p then (error_op_to_alt_stack, p)
     else let (vary, q) = pop_top p in continue (push_alternate vary q))"

definition op_from_alt_stack :: "program \<Rightarrow> op_result" where
  "op_from_alt_stack p = (if is_alternate_empty p then (error_op_from_alt_stack, p)
     else let (vary, q) = pop_alternate_top p in continue (push_variant vary q))"

definition op_drop2 :: "program \<Rightarrow> op_result" where
  "op_drop2 p = (if stack_size p < 2 then (error_op_drop2, p)
     else continue (drop_top (drop_top p)))"

definition op_dup2 :: "program \<Rightarrow> op_result" where
  "op_dup2 p = (if stack_size p < 2 then (error_op_dup2, p)
     else let q = push_variant (peek_at 1 p) p in continue (push_variant (peek_at 1 q) q))"

definition op_dup3 :: "program \<Rightarrow> op_result" where
  "op_dup3 p = (if stack_size p < 3 then (error_op_dup3, p)
     else let q = push_variant (peek_at 2 p) p; r = push_variant (peek_at 2 q) q
       in continue (push_variant (peek_at 2 r) r))"

definition op_over2 :: "program \<Rightarrow> op_result" where
  "op_over2 p = (if stack_size p < 4 then (error_op_over2, p)
     else let q = push_variant (peek_at 3 p) p in continue (push_variant (peek_at 3 q) q))"

definition op_rot2 :: "program \<Rightarrow> op_result" where
  "op_rot2 p = (if stack_size p < 6 then (error_op_rot2, p)
     else continue (swap_at 3 5 (swap_at 2 4 (swap_at 1 5 (swap_at 0 4 p)))))"

definition op_swap2 :: "program \<Rightarrow> op_result" where
  "op_swap2 p = (if stack_size p < 4 then (error_op_swap2, p)
     else continue (swap_at 0 2 (swap_at 1 3 p)))"

definition op_if_dup :: "program \<Rightarrow> op_result" where
  "op_if_dup p = (if is_stack_empty p then (error_op_if_dup, p) else if peek_bool_top p then continue (push_variant (peek_top p) p) else continue p)"

definition op_depth :: "program \<Rightarrow> op_result" where
  "op_depth p = continue (push_length (stack_size p) p)"

definition op_drop :: "program \<Rightarrow> op_result" where
  "op_drop p = (if is_stack_empty p then (error_op_drop, p) else continue (drop_top p))"

definition op_dup :: "program \<Rightarrow> op_result" where
  "op_dup p = (if is_stack_empty p then (error_op_dup, p) else continue (push_variant (peek_top p) p))"

definition op_nip :: "program \<Rightarrow> op_result" where
  "op_nip p = (if stack_size p < 2 then (error_op_nip, p)
     else continue (drop_top (swap_at 0 1 p)))"

definition op_over :: "program \<Rightarrow> op_result" where
  "op_over p = (if stack_size p < 2 then (error_op_over, p)
     else continue (push_variant (peek_at 1 p) p))"

definition op_pick :: "program \<Rightarrow> op_result" where
  "op_pick p = (case pop_index32 p of
       (None, q) \<Rightarrow> (error_op_pick, q)
     | (Some index, q) \<Rightarrow> continue (push_variant (peek_at index q) q))"

definition op_roll :: "program \<Rightarrow> op_result" where
  "op_roll p = (case pop_index32 p of
       (None, q) \<Rightarrow> (error_op_roll, q)
     | (Some index, q) \<Rightarrow> let temporary = peek_at index q in continue (push_variant temporary (erase_at index q)))"

definition op_rot :: "program \<Rightarrow> op_result" where
  "op_rot p = (if stack_size p < 3 then (error_op_rot, p)
     else continue (swap_at 0 1 (swap_at 1 2 p)))"

definition op_swap :: "program \<Rightarrow> op_result" where
  "op_swap p = (if stack_size p < 2 then (error_op_swap, p)
     else continue (swap_at 0 1 p))"

definition op_tuck :: "program \<Rightarrow> op_result" where
  "op_tuck p = (if stack_size p < 2 then (error_op_tuck, p)
     else let q = swap_at 0 1 p in continue (push_variant (peek_at 1 q) q))"

subsection \<open>Splice and logic\<close>

definition op_cat :: "program \<Rightarrow> op_result" where
  "op_cat p = (if enabled p cats_rule then op_unevaluated opcode_op_cat p else (error_op_not_implemented, p))"

definition op_substr :: "program \<Rightarrow> op_result" where
  "op_substr p = (if enabled p cats_rule then op_unevaluated opcode_op_substr p else (error_op_not_implemented, p))"

definition op_left :: "program \<Rightarrow> op_result" where
  "op_left p = (if enabled p cats_rule then op_unevaluated opcode_op_left p else (error_op_not_implemented, p))"

definition op_right :: "program \<Rightarrow> op_result" where
  "op_right p = (if enabled p cats_rule then op_unevaluated opcode_op_right p else (error_op_not_implemented, p))"

definition op_sizeof :: "program \<Rightarrow> op_result" where
  "op_sizeof p = (if is_stack_empty p then (error_op_size, p)
     else continue (push_length (variant_size (peek_top p)) p))"

definition op_invert :: "program \<Rightarrow> op_result" where
  "op_invert p = (if enabled p cats_rule then op_unevaluated opcode_op_invert p else (error_op_not_implemented, p))"

definition op_and :: "program \<Rightarrow> op_result" where
  "op_and p = (if enabled p cats_rule then op_unevaluated opcode_op_and p else (error_op_not_implemented, p))"

definition op_or :: "program \<Rightarrow> op_result" where
  "op_or p = (if enabled p cats_rule then op_unevaluated opcode_op_or p else (error_op_not_implemented, p))"

definition op_xor :: "program \<Rightarrow> op_result" where
  "op_xor p = (if enabled p cats_rule then op_unevaluated opcode_op_xor p else (error_op_not_implemented, p))"

definition op_equal :: "program \<Rightarrow> op_result" where
  "op_equal p = (if stack_size p < 2 then (error_op_equal, p)
     else let (a, q) = pop_top p; (b, r) = pop_top q in continue (push_bool (equal_chunks a b) r))"

definition op_equal_verify :: "program \<Rightarrow> op_result" where
  "op_equal_verify p = (if stack_size p < 2 then (error_op_equal_verify1, p)
     else let (a, q) = pop_top p; (b, r) = pop_top q in
       (if equal_chunks a b then error_op_success else error_op_equal_verify2, r))"

subsection \<open>Arithmetic\<close>

definition op_add1 :: "program \<Rightarrow> op_result" where
  "op_add1 p = (case pop_signed32 p of
       (None, q) \<Rightarrow> (error_op_add1, q)
     | (Some number, q) \<Rightarrow> continue (push_signed64 (number + 1) q))"

definition op_sub1 :: "program \<Rightarrow> op_result" where
  "op_sub1 p = (case pop_signed32 p of
       (None, q) \<Rightarrow> (error_op_sub1, q)
     | (Some number, q) \<Rightarrow> continue (push_signed64 (number - 1) q))"

definition op_mul2 :: "program \<Rightarrow> op_result" where
  "op_mul2 p = (if enabled p cats_rule then op_unevaluated opcode_op_mul2 p else (error_op_not_implemented, p))"

definition op_div2 :: "program \<Rightarrow> op_result" where
  "op_div2 p = (if enabled p cats_rule then op_unevaluated opcode_op_div2 p else (error_op_not_implemented, p))"

definition op_negate :: "program \<Rightarrow> op_result" where
  "op_negate p = (case pop_signed32 p of
       (None, q) \<Rightarrow> (error_op_negate, q)
     | (Some number, q) \<Rightarrow> continue (push_signed64 (- number) q))"

definition op_abs :: "program \<Rightarrow> op_result" where
  "op_abs p = (case pop_signed32 p of
       (None, q) \<Rightarrow> (error_op_abs, q)
     | (Some number, q) \<Rightarrow> continue (push_signed64 \<bar>number\<bar> q))"

definition op_not :: "program \<Rightarrow> op_result" where
  "op_not p = (case pop_signed32 p of
       (None, q) \<Rightarrow> (error_op_not, q)
     | (Some number, q) \<Rightarrow> continue (push_bool (number = 0) q))"

definition op_nonzero :: "program \<Rightarrow> op_result" where
  "op_nonzero p = (case pop_signed32 p of
       (None, q) \<Rightarrow> (error_op_nonzero, q)
     | (Some number, q) \<Rightarrow> continue (push_bool (number \<noteq> 0) q))"

definition op_add :: "program \<Rightarrow> op_result" where
  "op_add p = (case pop_binary32 p of
       (None, q) \<Rightarrow> (error_op_add, q)
     | (Some (left, right), q) \<Rightarrow> continue (push_signed64 (left + right) q))"

definition op_sub :: "program \<Rightarrow> op_result" where
  "op_sub p = (case pop_binary32 p of
       (None, q) \<Rightarrow> (error_op_sub, q)
     | (Some (left, right), q) \<Rightarrow> continue (push_signed64 (left - right) q))"

definition op_mul :: "program \<Rightarrow> op_result" where
  "op_mul p = (if enabled p cats_rule then op_unevaluated opcode_op_mul p else (error_op_not_implemented, p))"

definition op_div :: "program \<Rightarrow> op_result" where
  "op_div p = (if enabled p cats_rule then op_unevaluated opcode_op_div p else (error_op_not_implemented, p))"

definition op_mod :: "program \<Rightarrow> op_result" where
  "op_mod p = (if enabled p cats_rule then op_unevaluated opcode_op_mod p else (error_op_not_implemented, p))"

definition op_lshift :: "program \<Rightarrow> op_result" where
  "op_lshift p = (if enabled p cats_rule then op_unevaluated opcode_op_lshift p else (error_op_not_implemented, p))"

definition op_rshift :: "program \<Rightarrow> op_result" where
  "op_rshift p = (if enabled p cats_rule then op_unevaluated opcode_op_rshift p else (error_op_not_implemented, p))"

definition op_bool_and :: "program \<Rightarrow> op_result" where
  "op_bool_and p = (case pop_binary32 p of
       (None, q) \<Rightarrow> (error_op_bool_and, q)
     | (Some (left, right), q) \<Rightarrow> continue (push_bool (left \<noteq> 0 \<and> right \<noteq> 0) q))"

definition op_bool_or :: "program \<Rightarrow> op_result" where
  "op_bool_or p = (case pop_binary32 p of
       (None, q) \<Rightarrow> (error_op_bool_or, q)
     | (Some (left, right), q) \<Rightarrow> continue (push_bool (left \<noteq> 0 \<or> right \<noteq> 0) q))"

definition op_num_equal :: "program \<Rightarrow> op_result" where
  "op_num_equal p = (case pop_binary32 p of
       (None, q) \<Rightarrow> (error_op_num_equal, q)
     | (Some (left, right), q) \<Rightarrow> continue (push_bool (left = right) q))"

definition op_num_equal_verify :: "program \<Rightarrow> op_result" where
  "op_num_equal_verify p = (case pop_binary32 p of
       (None, q) \<Rightarrow> (error_op_num_equal_verify1, q)
     | (Some (left, right), q) \<Rightarrow> (if left = right then error_op_success else error_op_num_equal_verify2, q))"

definition op_num_not_equal :: "program \<Rightarrow> op_result" where
  "op_num_not_equal p = (case pop_binary32 p of
       (None, q) \<Rightarrow> (error_op_num_not_equal, q)
     | (Some (left, right), q) \<Rightarrow> continue (push_bool (left \<noteq> right) q))"

definition op_less_than :: "program \<Rightarrow> op_result" where
  "op_less_than p = (case pop_binary32 p of
       (None, q) \<Rightarrow> (error_op_less_than, q)
     | (Some (left, right), q) \<Rightarrow> continue (push_bool (left < right) q))"

definition op_greater_than :: "program \<Rightarrow> op_result" where
  "op_greater_than p = (case pop_binary32 p of
       (None, q) \<Rightarrow> (error_op_greater_than, q)
     | (Some (left, right), q) \<Rightarrow> continue (push_bool (left > right) q))"

definition op_less_than_or_equal :: "program \<Rightarrow> op_result" where
  "op_less_than_or_equal p = (case pop_binary32 p of
       (None, q) \<Rightarrow> (error_op_less_than_or_equal, q)
     | (Some (left, right), q) \<Rightarrow> continue (push_bool (\<not> left > right) q))"

definition op_greater_than_or_equal :: "program \<Rightarrow> op_result" where
  "op_greater_than_or_equal p = (case pop_binary32 p of
       (None, q) \<Rightarrow> (error_op_greater_than_or_equal, q)
     | (Some (left, right), q) \<Rightarrow> continue (push_bool (\<not> left < right) q))"

definition op_min :: "program \<Rightarrow> op_result" where
  "op_min p = (case pop_binary32 p of
       (None, q) \<Rightarrow> (error_op_min, q)
     | (Some (left, right), q) \<Rightarrow> continue (push_signed64 (min left right) q))"

definition op_max :: "program \<Rightarrow> op_result" where
  "op_max p = (case pop_binary32 p of
       (None, q) \<Rightarrow> (error_op_max, q)
     | (Some (left, right), q) \<Rightarrow> continue (push_signed64 (max left right) q))"

definition op_within :: "program \<Rightarrow> op_result" where
  "op_within p = (case pop_ternary32 p of
       (None, q) \<Rightarrow> (error_op_within, q)
     | (Some (high, low, v), q) \<Rightarrow> continue (push_bool (\<not> v < low \<and> v < high) q))"

subsection \<open>Hashes\<close>

definition op_ripemd160 :: "crypto \<Rightarrow> program \<Rightarrow> op_result" where
  "op_ripemd160 C p = (if is_stack_empty p then (error_op_ripemd160, p)
     else let (c, q) = pop_chunk_top p in continue (push_chunk (rmd160_chunk C c) q))"

definition op_sha1 :: "crypto \<Rightarrow> program \<Rightarrow> op_result" where
  "op_sha1 C p = (if is_stack_empty p then (error_op_sha1, p)
     else let (c, q) = pop_chunk_top p in continue (push_chunk (sha1_chunk C c) q))"

definition op_sha256 :: "crypto \<Rightarrow> program \<Rightarrow> op_result" where
  "op_sha256 C p = (if is_stack_empty p then (error_op_sha256, p)
     else let (c, q) = pop_chunk_top p in continue (push_chunk (sha256_chunk C c) q))"

definition op_hash160 :: "crypto \<Rightarrow> program \<Rightarrow> op_result" where
  "op_hash160 C p = (if is_stack_empty p then (error_op_hash160, p)
     else let (c, q) = pop_chunk_top p in continue (push_chunk (bitcoin_short_chunk C c) q))"

definition op_hash256 :: "crypto \<Rightarrow> program \<Rightarrow> op_result" where
  "op_hash256 C p = (if is_stack_empty p then (error_op_hash256, p)
     else let (c, q) = pop_chunk_top p in continue (push_chunk (bitcoin_chunk C c) q))"

subsection \<open>Signatures\<close>

definition op_codeseparator :: "nat \<Rightarrow> program \<Rightarrow> op_result" where
  "op_codeseparator index p = continue (set_subscript index p)"

text \<open>A 32 byte key is a schnorr key, a key of another size is of an unknown type and passes.\<close>

definition check_schnorr :: "crypto \<Rightarrow> data_chunk \<Rightarrow> data_chunk \<Rightarrow> program \<Rightarrow> op_error_t" where
  "check_schnorr C key endorsement p =
     (if length key = ec_xonly_size
      then let (sighash_flags, sig) = schnorr_split endorsement in
        if sighash_flags = coverage_invalid then error_op_check_sig_schnorr1
        else case program_signature_hash C (prg_script p) sighash_flags p of
          None \<Rightarrow> error_op_check_sig_schnorr2
        | Some hash \<Rightarrow>
            (if \<not> schnorr_verify C key hash sig then error_op_check_sig_schnorr3 else error_op_success)
      else error_op_success)"

definition check_ecdsa :: "crypto \<Rightarrow> data_chunk \<Rightarrow> data_chunk \<Rightarrow> program \<Rightarrow> op_error_t" where
  "check_ecdsa C key endorsement p =
     (let (sighash_flags, der) = ecdsa_split endorsement in
      case ecdsa_decode C der (enabled p bip66_rule) of
        None \<Rightarrow> error_op_check_sig_decode_signature
      | Some sig \<Rightarrow>
          (case program_signature_hash C (subscript [endorsement] p) sighash_flags p of
            None \<Rightarrow> error_op_check_sig_verify3
          | Some hash \<Rightarrow>
              (if \<not> ecdsa_verify C key hash sig then error_op_check_sig_verify4 else error_op_success)))"

definition op_check_sig_verify :: "crypto \<Rightarrow> program \<Rightarrow> op_result" where
  "op_check_sig_verify C p =
     (if stack_size p < 2 then (error_op_check_sig_low_stack, p)
      else let (key, q) = pop_chunk_top p; (endorsement, r) = pop_chunk_top q in
        if enabled r bip342_rule
        then if key = [] then (error_op_check_sig_empty_key, r)
          else if endorsement = [] then (error_op_check_sig_verify1, r)
          else let ec = check_schnorr C key endorsement r in
            if ec \<noteq> error_op_success then (ec, r)
            else let (ok, s) = sigops_increment r in
              (if \<not> ok then error_op_check_sig_budget else error_op_success, s)
        else if endorsement = [] then (error_op_check_sig_verify2, r)
        else (check_ecdsa C key endorsement r, r))"

definition op_check_sig :: "crypto \<Rightarrow> program \<Rightarrow> op_result" where
  "op_check_sig C p =
     (let (ec, q) = op_check_sig_verify C p in
      if ec = error_op_check_sig_low_stack then (ec, q)
      else if enabled q bip66_rule \<and> ec = error_op_check_sig_decode_signature then (ec, q)
      else if enabled q bip342_rule \<and> (ec = error_op_check_sig_empty_key \<or> ec = error_op_check_sig_schnorr1 \<or>
        ec = error_op_check_sig_schnorr2 \<or> ec = error_op_check_sig_schnorr3 \<or> ec = error_op_check_sig_budget)
      then (ec, q)
      else continue (push_bool (ec = error_op_success) q))"

text \<open>
  The loop over the keys, with the endorsements that are not verified yet. An empty endorsement
  consumes the key and stays.
\<close>

fun multisig_loop :: "crypto \<Rightarrow> script \<Rightarrow> bool \<Rightarrow> data_chunk list \<Rightarrow> data_chunk list \<Rightarrow> program \<Rightarrow> op_result" where
  "multisig_loop C sub bip66 [] sigs p =
     (if sigs \<noteq> [] then (error_op_check_multisig_mismatch, p) else continue p)"
| "multisig_loop C sub bip66 (key # keys) [] p = continue p"
| "multisig_loop C sub bip66 (key # keys) (endorsement # sigs) p =
     (if endorsement = [] then multisig_loop C sub bip66 keys (endorsement # sigs) p
      else let (sighash_flags, der) = ecdsa_split endorsement in
        case ecdsa_decode C der bip66 of
          None \<Rightarrow> (error_op_check_multisig_decode_signature, p)
        | Some sig \<Rightarrow>
            let q = (if \<not> is_cached sighash_flags p then set_hash C sub sighash_flags p else p) in
            if ecdsa_verify C key (cached_hash q) sig then multisig_loop C sub bip66 keys sigs q
            else multisig_loop C sub bip66 keys (endorsement # sigs) q)"

definition check_endorsements :: "crypto \<Rightarrow> data_chunk list \<Rightarrow> nat \<Rightarrow> program \<Rightarrow> op_result" where
  "check_endorsements C keys count p =
     (let (_, sigs, q) = pop_chunks count p; (dummy, r) = pop_strict_bool_top q in
      if dummy \<and> enabled r bip147_rule then (error_op_check_multisig_verify9, r)
      else multisig_loop C (subscript sigs r) (enabled r bip66_rule) keys sigs (uncache r))"

definition op_check_multisig_verify :: "crypto \<Rightarrow> program \<Rightarrow> op_result" where
  "op_check_multisig_verify C p =
     (if enabled p bip342_rule then op_unevaluated opcode_checkmultisigverify p
      else case pop_index32 p of
        (None, q) \<Rightarrow> (error_op_check_multisig_verify1, q)
      | (Some count, q) \<Rightarrow>
          if count > max_multisig_public_keys then (error_op_check_multisig_verify2, q)
          else let (ok, r) = ops_increment_keys count q in
          if \<not> ok then (error_op_check_multisig_verify3, r)
          else let (_, keys, s) = pop_chunks count r in
          (case pop_index32 s of
            (None, t) \<Rightarrow> (error_op_check_multisig_verify5, t)
          | (Some n, t) \<Rightarrow>
              if n > length keys then (error_op_check_multisig_verify6, t)
              else check_endorsements C keys n t))"

definition op_check_multisig :: "crypto \<Rightarrow> program \<Rightarrow> op_result" where
  "op_check_multisig C p =
     (if enabled p bip342_rule then op_unevaluated opcode_checkmultisig p
      else let (ec, q) = op_check_multisig_verify C p in
        if ec = error_op_check_multisig_verify1 \<or> ec = error_op_check_multisig_verify2 \<or>
          ec = error_op_check_multisig_verify3 \<or> ec = error_op_check_multisig_verify5 \<or>
          ec = error_op_check_multisig_verify6 \<or> ec = error_op_check_multisig_verify9
        then (ec, q)
        else if enabled q bip66_rule \<and> ec = error_op_check_multisig_decode_signature then (ec, q)
        else continue (push_bool (ec = error_op_success) q))"

subsection \<open>Lock times\<close>

definition op_check_locktime_verify :: "program \<Rightarrow> op_result" where
  "op_check_locktime_verify p =
     (if \<not> enabled p bip65_rule then op_nop_code opcode_nop2 p
      else if input_is_final (program_input p) then (error_op_check_locktime_verify1, p)
      else case peek_unsigned40 p of
        None \<Rightarrow> (error_op_check_locktime_verify2, p)
      | Some stack_locktime40 \<Rightarrow>
          let trans_locktime32 = tx_locktime (prg_tx p) in
          if (unat stack_locktime40 < locktime_threshold) \<noteq> (unat trans_locktime32 < locktime_threshold)
          then (error_op_check_locktime_verify3, p)
          else if unat stack_locktime40 > unat trans_locktime32 then (error_op_check_locktime_verify4, p)
          else continue p)"

definition op_check_sequence_verify :: "program \<Rightarrow> op_result" where
  "op_check_sequence_verify p =
     (if \<not> enabled p bip112_rule then op_nop_code opcode_nop3 p
      else case peek_unsigned32 p of
        None \<Rightarrow> (error_op_check_sequence_verify1, p)
      | Some stack_sequence32 \<Rightarrow>
          let input_sequence32 = in_sequence (program_input p);
              unmasked = take_bit (32 - relative_locktime_mask_left) in
          if bit stack_sequence32 relative_locktime_disabled_bit then op_nop_code opcode_nop3 p
          else if unat (tx_version (prg_tx p)) < relative_locktime_min_version
          then (error_op_check_sequence_verify2, p)
          else if bit input_sequence32 relative_locktime_disabled_bit then (error_op_check_sequence_verify3, p)
          else if bit stack_sequence32 relative_locktime_time_locked_bit \<noteq>
            bit input_sequence32 relative_locktime_time_locked_bit then (error_op_check_sequence_verify4, p)
          else if unmasked stack_sequence32 > unmasked input_sequence32
          then (error_op_check_sequence_verify5, p)
          else continue p)"

subsection \<open>Accumulated signatures\<close>

definition check_cached_schnorr :: "crypto \<Rightarrow> data_chunk \<Rightarrow> data_chunk \<Rightarrow> program \<Rightarrow> op_result" where
  "check_cached_schnorr C key endorsement p =
     (if length key = ec_xonly_size
      then let (sighash_flags, sig) = schnorr_split endorsement in
        if sighash_flags = coverage_invalid then (error_op_check_sig_add4, p)
        else let (ok, q) = (if \<not> is_cached sighash_flags p then set_hash_v1 C sighash_flags p else (True, p)) in
          if \<not> ok then (error_op_check_sig_add5, q)
          else if \<not> schnorr_verify C key (cached_hash q) sig then (error_op_check_sig_add6, q)
          else continue q
      else continue p)"

definition op_check_sig_add :: "crypto \<Rightarrow> program \<Rightarrow> op_result" where
  "op_check_sig_add C p =
     (if \<not> enabled p bip342_rule then op_unevaluated opcode_reserved_186 p
      else if stack_size p < 3 then (error_op_check_sig_add1, p)
      else let (key, q) = pop_chunk_top p in
        if key = [] then (error_op_check_sig_add2, q)
        else case pop_signed32_top q of
          (None, r) \<Rightarrow> (error_op_check_sig_add3, r)
        | (Some number, r) \<Rightarrow>
            let (endorsement, s) = pop_chunk_top r in
            if endorsement = [] then continue (push_signed64 number s)
            else let (ec, t) = check_cached_schnorr C key endorsement s in
              if ec \<noteq> error_op_success then (ec, t)
              else let (ok, u) = sigops_increment t in
                if \<not> ok then (error_op_check_sig_add7, u)
                else continue (push_signed64 (number + 1) u))"

section \<open>Dispatch\<close>

text \<open>The position of the operation in its script stands for the iterator.\<close>

definition run_op :: "crypto \<Rightarrow> nat \<Rightarrow> operation \<Rightarrow> program \<Rightarrow> op_result" where
  "run_op C index op p = (let code = op_code op in
     if code = opcode_push_size_0 then op_push_number 0 p
     else if code \<ge> opcode_push_size_1 \<and> code \<le> opcode_push_size_75 then op_push_size op p
     else if code = opcode_push_one_size then op_push_one_size op p
     else if code = opcode_push_two_size then op_push_two_size op p
     else if code = opcode_push_four_size then op_push_four_size op p
     else if code = opcode_push_negative_1 then op_push_number (- 1) p
     else if code = opcode_reserved_80 then op_unevaluated code p
     else if code \<ge> opcode_push_positive_1 \<and> code \<le> opcode_push_positive_16 then op_push_number (int (unat (code - opcode_push_positive_1)) + 1) p
     else if code = opcode_nop then op_nop p
     else if code = opcode_op_ver then op_ver p
     else if code = opcode_if then op_if p
     else if code = opcode_notif then op_notif p
     else if code = opcode_op_verif then op_verif p
     else if code = opcode_op_vernotif then op_vernotif p
     else if code = opcode_else then op_else p
     else if code = opcode_endif then op_endif p
     else if code = opcode_verify then op_verify p
     else if code = opcode_op_return then op_return p
     else if code = opcode_toaltstack then op_to_alt_stack p
     else if code = opcode_fromaltstack then op_from_alt_stack p
     else if code = opcode_drop2 then op_drop2 p
     else if code = opcode_dup2 then op_dup2 p
     else if code = opcode_dup3 then op_dup3 p
     else if code = opcode_over2 then op_over2 p
     else if code = opcode_rot2 then op_rot2 p
     else if code = opcode_swap2 then op_swap2 p
     else if code = opcode_ifdup then op_if_dup p
     else if code = opcode_depth then op_depth p
     else if code = opcode_drop then op_drop p
     else if code = opcode_dup then op_dup p
     else if code = opcode_nip then op_nip p
     else if code = opcode_over then op_over p
     else if code = opcode_pick then op_pick p
     else if code = opcode_roll then op_roll p
     else if code = opcode_rot then op_rot p
     else if code = opcode_swap then op_swap p
     else if code = opcode_tuck then op_tuck p
     else if code = opcode_op_cat then op_cat p
     else if code = opcode_op_substr then op_substr p
     else if code = opcode_op_left then op_left p
     else if code = opcode_op_right then op_right p
     else if code = opcode_size then op_sizeof p
     else if code = opcode_op_invert then op_invert p
     else if code = opcode_op_and then op_and p
     else if code = opcode_op_or then op_or p
     else if code = opcode_op_xor then op_xor p
     else if code = opcode_equal then op_equal p
     else if code = opcode_equalverify then op_equal_verify p
     else if code = opcode_reserved_137 then op_unevaluated code p
     else if code = opcode_reserved_138 then op_unevaluated code p
     else if code = opcode_add1 then op_add1 p
     else if code = opcode_sub1 then op_sub1 p
     else if code = opcode_op_mul2 then op_mul2 p
     else if code = opcode_op_div2 then op_div2 p
     else if code = opcode_negate then op_negate p
     else if code = opcode_abs then op_abs p
     else if code = opcode_not then op_not p
     else if code = opcode_nonzero then op_nonzero p
     else if code = opcode_add then op_add p
     else if code = opcode_sub then op_sub p
     else if code = opcode_op_mul then op_mul p
     else if code = opcode_op_div then op_div p
     else if code = opcode_op_mod then op_mod p
     else if code = opcode_op_lshift then op_lshift p
     else if code = opcode_op_rshift then op_rshift p
     else if code = opcode_booland then op_bool_and p
     else if code = opcode_boolor then op_bool_or p
     else if code = opcode_numequal then op_num_equal p
     else if code = opcode_numequalverify then op_num_equal_verify p
     else if code = opcode_numnotequal then op_num_not_equal p
     else if code = opcode_lessthan then op_less_than p
     else if code = opcode_greaterthan then op_greater_than p
     else if code = opcode_lessthanorequal then op_less_than_or_equal p
     else if code = opcode_greaterthanorequal then op_greater_than_or_equal p
     else if code = opcode_min then op_min p
     else if code = opcode_max then op_max p
     else if code = opcode_within then op_within p
     else if code = opcode_ripemd160 then op_ripemd160 C p
     else if code = opcode_sha1 then op_sha1 C p
     else if code = opcode_sha256 then op_sha256 C p
     else if code = opcode_hash160 then op_hash160 C p
     else if code = opcode_hash256 then op_hash256 C p
     else if code = opcode_codeseparator then op_codeseparator index p
     else if code = opcode_checksig then op_check_sig C p
     else if code = opcode_checksigverify then op_check_sig_verify C p
     else if code = opcode_checkmultisig then op_check_multisig C p
     else if code = opcode_checkmultisigverify then op_check_multisig_verify C p
     else if code = opcode_nop1 then op_nop_code code p
     else if code = opcode_checklocktimeverify then op_check_locktime_verify p
     else if code = opcode_checksequenceverify then op_check_sequence_verify p
     else if code \<ge> opcode_nop4 \<and> code \<le> opcode_nop10 then op_nop_code code p
     else if code = opcode_checksigadd then op_check_sig_add C p
     else op_unevaluated code p)"

section \<open>Running\<close>

text \<open>
  The loop over the operations from a position of the script; \<open>run\<close> starts it. A failed
  operation ends the run with its error.
\<close>

fun run_ops :: "crypto \<Rightarrow> nat \<Rightarrow> operation list \<Rightarrow> program \<Rightarrow> code \<times> program" where
  "run_ops C index [] p =
     (if \<not> is_balanced p then (script_code error_invalid_stack_scope, p) else (script_code error_script_success, p))"
| "run_ops C index (op # ops) p =
     (if operation_is_oversized op then (script_code error_invalid_push_data_size, p)
      else let (ok, q) = ops_increment op p in
        if \<not> ok then (script_code error_invalid_operation_count, q)
        else if if_op op q
        then let (ec, r) = run_op C index op q in
          if ec \<noteq> error_op_success then (op_error_code ec, r)
          else if is_stack_overflow r then (script_code error_invalid_stack_size, r)
          else run_ops C (index + 1) ops r
        else run_ops C (index + 1) ops q)"

definition run :: "crypto \<Rightarrow> program \<Rightarrow> code \<times> program" where
  "run C p = (let ec = initialize p in
     if ec \<noteq> error_script_success then (script_code ec, p) else run_ops C 0 (script_ops (prg_script p)) p)"

end
