(* ===== verification/Representation.thy ===== *)
theory Representation
  imports Interpreter
begin

text \<open>
  The stack of the program holds booleans and integers where the protocol has only byte strings.
  This theory shows that the choice cannot be observed: every operation treats an element as the
  byte string it stands for, so a run does the same on the stack of byte strings.
\<close>

named_theorems normal_simps "how the program primitives act on a stack of byte strings"
named_theorems normal_ops "operations that do not observe the representation"

section \<open>Elements\<close>

definition norm :: "stack_variant \<Rightarrow> stack_variant" where
  "norm v = Vchunk (variant_chunk v)"

lemma chunk_from_bool_integer: "chunk_from_bool b = chunk_from_integer (to_int b)"
proof -
  have "chunk_from_integer 1 = [1]" by code_simp
  then show ?thesis by (simp add: chunk_from_bool_def to_int_def chunk_from_integer_def)
qed

lemma chunk_from_integer_inject: "chunk_from_integer a = chunk_from_integer b \<longleftrightarrow> a = b"
proof
  assume eq: "chunk_from_integer a = chunk_from_integer b"
  define n where "n = Suc (length (chunk_from_integer a))"
  have "\<not> integer_is_overflow n a" "\<not> integer_is_overflow n b"
    using length_chunk_from_integer [of n a] length_chunk_from_integer [of n b] eq by (auto simp: n_def)
  with eq show "a = b" using chunk_roundtrip [of n a] chunk_roundtrip [of n b] by (simp add: n_def)
qed simp

lemma to_int_inject: "to_int a = to_int b \<longleftrightarrow> a = b"
  by (simp add: to_int_def)

lemma chunk_from_integer_empty: "chunk_from_integer i = [] \<longleftrightarrow> i = 0"
  using chunk_from_integer_inject [of i 0] by (simp add: chunk_from_integer_def)

lemma boolean_from_chunk_integer: "boolean_from_chunk (chunk_from_integer i) \<longleftrightarrow> i \<noteq> 0"
proof (cases "i = 0")
  case True
  then show ?thesis by (simp add: chunk_from_integer_def boolean_from_chunk_def)
next
  case False
  define n where "n = length (chunk_from_integer i)"
  have "0 < n" using False by (simp add: n_def chunk_from_integer_empty)
  then have "\<not> integer_is_overflow n i" using length_chunk_from_integer [of n i] by (simp add: n_def)
  with \<open>0 < n\<close> show ?thesis
    using chunk_roundtrip [of n i] boolean_from_chunk_iff [of "chunk_from_integer i"] False by (simp add: n_def)
qed

lemma variant_chunk_norm [normal_simps]: "variant_chunk (norm v) = variant_chunk v"
  by (simp add: norm_def)

lemma norm_norm [normal_simps]: "norm (norm v) = norm v"
  by (simp add: norm_def)

lemma variant_bool_norm [normal_simps]: "variant_bool (norm v) = variant_bool v"
  by (cases v) (simp_all add: norm_def chunk_from_bool_integer boolean_from_chunk_integer boolean_from_integer_def
      to_int_def)

lemma variant_strict_bool_norm [normal_simps]: "variant_strict_bool (norm v) = variant_strict_bool v"
  by (cases v) (simp_all add: norm_def chunk_from_bool_def boolean_from_chunk_strict_def
      boolean_from_integer_def chunk_from_integer_empty)

lemma boolean_minimal_integer: "converted (boolean_from_chunk_minimal (chunk_from_integer i)) =
  converted (boolean_from_integer_minimal i)"
proof -
  have one: "chunk_from_integer 1 = [1]" by code_simp
  have "length c = 1 \<and> hd c = 1 \<longleftrightarrow> c = [1]" for c :: data_chunk by (cases c) auto
  then have "length (chunk_from_integer i) = 1 \<and> hd (chunk_from_integer i) = 1 \<longleftrightarrow> i = 1"
    using chunk_from_integer_inject [of i 1] by (simp add: one)
  then show ?thesis
    by (auto simp: converted_def boolean_from_chunk_minimal_def boolean_from_integer_minimal_def
        chunk_from_integer_empty boolean_from_chunk_integer)
qed

lemma variant_minimal_bool_norm [normal_simps]: "variant_minimal_bool (norm v) = variant_minimal_bool v"
proof (cases v)
  case (Vbool b)
  then show ?thesis using boolean_minimal_integer [of "to_int b"]
    by (simp add: norm_def chunk_from_bool_integer) (simp add: converted_def boolean_from_integer_minimal_def to_int_def)
qed (simp_all add: norm_def boolean_minimal_integer)

lemma variant_size_norm [normal_simps]: "variant_size (norm v) = variant_size v"
  by (cases v) (simp_all add: norm_def)

lemma converted_integer:
  assumes "0 < n"
  shows "converted (integer_from_chunk n (chunk_from_integer i)) =
    (if integer_is_overflow n i then None else Some i)"
proof (cases "integer_is_overflow n i")
  case True
  then have "length (chunk_from_integer i) > n" using length_chunk_from_integer [OF assms, of i] by linarith
  then show ?thesis using True by (auto simp: converted_def integer_from_chunk_def)
qed (simp add: converted_def chunk_roundtrip assms)

lemma small_no_overflow: "1 < n \<Longrightarrow> \<not> integer_is_overflow n (to_int b)"
  by (simp add: not_overflow_iff to_int_def)

lemma variant_signed_norm [normal_simps]: "1 < n \<Longrightarrow> variant_signed n (norm v) = variant_signed n v"
  by (cases v) (simp_all add: norm_def chunk_from_bool_integer converted_integer small_no_overflow)

lemma equal_chunks_iff: "equal_chunks a b \<longleftrightarrow> variant_chunk a = variant_chunk b"
  by (cases a; cases b)
    (auto simp: chunk_from_bool_integer chunk_from_integer_inject to_int_inject)

lemma equal_chunks_norm [normal_simps]: "equal_chunks (norm a) (norm b) = equal_chunks a b"
  by (simp add: equal_chunks_iff variant_chunk_norm)

section \<open>Programs\<close>

definition normal :: "program \<Rightarrow> program" where
  "normal p = p\<lparr>prg_primary := map norm (prg_primary p), prg_alternate := map norm (prg_alternate p)\<rparr>"

definition normal_result :: "'a \<times> program \<Rightarrow> 'a \<times> program" where
  "normal_result r = (fst r, normal (snd r))"

lemma normal_result_pair [normal_simps]: "normal_result (a, p) = (a, normal p)"
  by (simp add: normal_result_def)

lemma normal_fields [normal_simps]:
  "prg_primary (normal p) = map norm (prg_primary p)" "prg_alternate (normal p) = map norm (prg_alternate p)"
  "prg_tx (normal p) = prg_tx p" "prg_input (normal p) = prg_input p" "prg_script (normal p) = prg_script p"
  "prg_flags (normal p) = prg_flags p" "prg_value (normal p) = prg_value p" "prg_version (normal p) = prg_version p"
  "prg_witness (normal p) = prg_witness p" "prg_tapleaf (normal p) = prg_tapleaf p"
  "prg_multisig (normal p) = prg_multisig p" "prg_condition (normal p) = prg_condition p"
  "prg_budget (normal p) = prg_budget p" "prg_operations (normal p) = prg_operations p"
  "prg_negative (normal p) = prg_negative p"
  by (simp_all add: normal_def)

lemma normal_normal [normal_simps]: "normal (normal p) = normal p"
  by (simp add: normal_def comp_def norm_norm)

lemma normal_queries [normal_simps]:
  "enabled (normal p) f = enabled p f" "stack_size (normal p) = stack_size p"
  "is_stack_empty (normal p) = is_stack_empty p" "is_stack_overflow (normal p) = is_stack_overflow p"
  "is_stack_clean (normal p) = is_stack_clean p" "is_alternate_empty (normal p) = is_alternate_empty p"
  "is_balanced (normal p) = is_balanced p" "is_succeeding (normal p) = is_succeeding p"
  "if_op op (normal p) = if_op op p" "subscript sigs (normal p) = subscript sigs p"
  "program_signature_hash C sub b (normal p) = program_signature_hash C sub b p"
  "is_cached b (normal p) = is_cached b p" "cached_hash (normal p) = cached_hash p"
  "program_input (normal p) = program_input p" "initialize (normal p) = initialize p"
  by (simp_all add: enabled_def stack_size_def is_stack_empty_def is_stack_overflow_def is_stack_clean_def
      is_alternate_empty_def is_balanced_def is_succeeding_def if_op_def subscript_def program_signature_hash_def
      is_cached_def cached_hash_def program_input_def initialize_def normal_fields Let_def)

text \<open>Guarded reads give the byte string of the element; the primitives keep the rest.\<close>

lemma normal_peek [normal_simps]:
  "\<not> is_stack_empty p \<Longrightarrow> peek_top (normal p) = norm (peek_top p)"
  "index < stack_size p \<Longrightarrow> peek_at index (normal p) = norm (peek_at index p)"
  by (simp_all add: peek_top_def peek_at_def is_stack_empty_def stack_size_def normal_fields hd_map)

lemma normal_updates [normal_simps]:
  "drop_top (normal p) = normal (drop_top p)" "push_variant (norm v) (normal p) = normal (push_variant v p)"
  "begin_if b (normal p) = normal (begin_if b p)" "else_if_top (normal p) = normal (else_if_top p)"
  "end_if_top (normal p) = normal (end_if_top p)" "uncache (normal p) = normal (uncache p)"
  "set_subscript index (normal p) = normal (set_subscript index p)"
  "set_hash C sub f (normal p) = normal (set_hash C sub f p)"
  "push_alternate (norm v) (normal p) = normal (push_alternate v p)"
  by (simp_all add: drop_top_def push_variant_def begin_if_def else_if_top_def end_if_top_def uncache_def
      set_subscript_def set_hash_def push_alternate_def normal_def Let_def map_tl program_signature_hash_def
      split: option.split)

lemma normal_pushes [normal_simps]:
  "normal (push_variant v (normal p)) = normal (push_variant v p)"
  "normal (push_chunk c (normal p)) = normal (push_chunk c p)" "normal (push_bool b (normal p)) = normal (push_bool b p)"
  "normal (push_signed64 i (normal p)) = normal (push_signed64 i p)"
  "normal (push_length n (normal p)) = normal (push_length n p)"
  by (simp_all add: push_chunk_def push_bool_def push_signed64_def push_length_def push_variant_def normal_def
      comp_def norm_norm)

lemma normal_swap_erase [normal_simps]:
  "left < stack_size p \<Longrightarrow> right < stack_size p \<Longrightarrow> swap_at left right (normal p) = normal (swap_at left right p)"
  "erase_at index (normal p) = normal (erase_at index p)"
  by (simp_all add: swap_at_def erase_at_def stack_swap_def stack_erase_def normal_def stack_size_def map_update
      take_map drop_map)

lemma sigops_normal [normal_simps]:
  "sigops_increment (normal p) = normal_result (sigops_increment p)"
  "ops_increment op (normal p) = normal_result (ops_increment op p)"
  "ops_increment_keys n (normal p) = normal_result (ops_increment_keys n p)"
  "set_hash_v1 C f (normal p) = normal_result (set_hash_v1 C f p)"
  by (simp_all add: sigops_increment_def ops_increment_def ops_increment_keys_def set_hash_v1_def normal_def
      normal_result_def enabled_def Let_def program_signature_hash_def split: option.split)

lemma stack_size_swap [normal_simps]: "stack_size (swap_at i j p) = stack_size p"
  by (simp add: swap_at_def stack_swap_def stack_size_def)

lemma stack_size_push [normal_simps]: "stack_size (push_variant v p) = Suc (stack_size p)"
  by (simp add: push_variant_def stack_size_def)

lemma stack_size_drop [normal_simps]: "stack_size (drop_top p) = stack_size p - 1"
  by (simp add: drop_top_def stack_size_def)

lemma is_stack_empty_size: "is_stack_empty p \<longleftrightarrow> stack_size p = 0"
  by (simp add: is_stack_empty_def stack_size_def)

section \<open>Pops\<close>

lemma pop_top_normal [normal_simps]:
  "\<not> is_stack_empty p \<Longrightarrow> pop_top (normal p) = (norm (peek_top p), normal (drop_top p))"
  "\<not> is_stack_empty p \<Longrightarrow> pop_chunk_top (normal p) = normal_result (pop_chunk_top p)"
  "\<not> is_stack_empty p \<Longrightarrow> pop_strict_bool_top (normal p) = normal_result (pop_strict_bool_top p)"
  "\<not> is_stack_empty p \<Longrightarrow> pop_bool_top m (normal p) = normal_result (pop_bool_top m p)"
  "\<not> is_stack_empty p \<Longrightarrow> pop_signed32_top (normal p) = normal_result (pop_signed32_top p)"
  by (simp_all add: pop_top_def pop_chunk_top_def pop_strict_bool_top_def pop_bool_top_def pop_signed32_top_def
      peek_bool_top_def normal_simps split: option.split)

lemma pop_alternate_normal [normal_simps]:
  "\<not> is_alternate_empty p \<Longrightarrow> pop_alternate_top (normal p) =
    (norm (fst (pop_alternate_top p)), normal (snd (pop_alternate_top p)))"
  by (simp add: pop_alternate_top_def is_alternate_empty_def normal_def hd_map map_tl)

lemma pop_signed32_normal [normal_simps]: "pop_signed32 (normal p) = normal_result (pop_signed32 p)"
  by (simp add: pop_signed32_def normal_simps)

lemma stack_size_pop_signed: "stack_size (snd (pop_signed32_top p)) = stack_size p - 1"
  by (simp add: pop_signed32_top_def stack_size_drop)

lemma pop_binary32_normal [normal_simps]: "pop_binary32 (normal p) = normal_result (pop_binary32 p)"
  by (simp add: pop_binary32_def pop_signed32_top_def normal_simps is_stack_empty_size split: option.split)

lemma pop_ternary32_normal [normal_simps]: "pop_ternary32 (normal p) = normal_result (pop_ternary32 p)"
  by (simp add: pop_ternary32_def pop_signed32_top_def normal_simps is_stack_empty_size split: option.split)

lemma pop_index32_normal [normal_simps]: "pop_index32 (normal p) = normal_result (pop_index32 p)"
  by (simp add: pop_index32_def normal_simps normal_result_def split: prod.split option.split)

lemma peek_unsigned_normal [normal_simps]:
  "peek_unsigned32 (normal p) = peek_unsigned32 p" "peek_unsigned40 (normal p) = peek_unsigned40 p"
  by (simp_all add: peek_unsigned32_def peek_unsigned40_def normal_simps)

lemma pop_each_chunk_normal:
  "count \<le> stack_size p \<Longrightarrow> pop_each_chunk count (normal p) =
    (fst (pop_each_chunk count p), normal (snd (pop_each_chunk count p)))"
proof (induction count arbitrary: p)
  case (Suc count)
  then have "\<not> is_stack_empty p" "count \<le> stack_size (drop_top p)"
    by (simp_all add: is_stack_empty_size stack_size_drop)
  with Suc.IH [of "drop_top p"] show ?case
    by (simp add: pop_chunk_top_def normal_simps split: prod.split)
qed simp

lemma pop_each_chunk_eq:
  "count \<le> stack_size p \<Longrightarrow> pop_each_chunk count p =
    (map variant_chunk (take count (prg_primary p)), p\<lparr>prg_primary := drop count (prg_primary p)\<rparr>)"
proof (induction count arbitrary: p)
  case (Suc count)
  then obtain v vs where p: "prg_primary p = v # vs" by (cases "prg_primary p") (auto simp: stack_size_def)
  with Suc.prems Suc.IH [of "drop_top p"] show ?case
    by (simp add: pop_chunk_top_def peek_top_def drop_top_def stack_size_def)
qed simp

lemma pop_chunks_eq:
  "count \<le> stack_size p \<Longrightarrow> pop_chunks count p =
    (True, map variant_chunk (take count (prg_primary p)), p\<lparr>prg_primary := drop count (prg_primary p)\<rparr>)"
  by (simp add: pop_chunks_def pop_each_chunk_eq)

lemma pop_chunks_normal [normal_simps]:
  "pop_chunks count (normal p) = (fst (pop_chunks count p), fst (snd (pop_chunks count p)),
    normal (snd (snd (pop_chunks count p))))"
  by (simp add: pop_chunks_def normal_simps pop_each_chunk_normal)

section \<open>Operations\<close>

lemma unevaluated_normal [normal_ops]:
  "normal_result (op_unevaluated code (normal p)) = normal_result (op_unevaluated code p)"
  "normal_result (op_nop_code code (normal p)) = normal_result (op_nop_code code p)"
  "normal_result (op_nop (normal p)) = normal_result (op_nop p)"
  by (simp_all add: op_unevaluated_def op_nop_code_def op_nop_def normal_simps)

lemmas disabled_defs = op_ver_def op_verif_def op_vernotif_def op_return_def op_cat_def op_substr_def op_left_def
  op_right_def op_invert_def op_and_def op_or_def op_xor_def op_mul2_def op_div2_def op_mul_def op_div_def
  op_mod_def op_lshift_def op_rshift_def

lemma disabled_normal [normal_ops]:
  "normal_result (op_ver (normal p)) = normal_result (op_ver p)"
  "normal_result (op_verif (normal p)) = normal_result (op_verif p)"
  "normal_result (op_vernotif (normal p)) = normal_result (op_vernotif p)"
  "normal_result (op_return (normal p)) = normal_result (op_return p)"
  "normal_result (op_cat (normal p)) = normal_result (op_cat p)"
  "normal_result (op_substr (normal p)) = normal_result (op_substr p)"
  "normal_result (op_left (normal p)) = normal_result (op_left p)"
  "normal_result (op_right (normal p)) = normal_result (op_right p)"
  "normal_result (op_invert (normal p)) = normal_result (op_invert p)"
  "normal_result (op_and (normal p)) = normal_result (op_and p)"
  "normal_result (op_or (normal p)) = normal_result (op_or p)"
  "normal_result (op_xor (normal p)) = normal_result (op_xor p)"
  "normal_result (op_mul2 (normal p)) = normal_result (op_mul2 p)"
  "normal_result (op_div2 (normal p)) = normal_result (op_div2 p)"
  "normal_result (op_mul (normal p)) = normal_result (op_mul p)"
  "normal_result (op_div (normal p)) = normal_result (op_div p)"
  "normal_result (op_mod (normal p)) = normal_result (op_mod p)"
  "normal_result (op_lshift (normal p)) = normal_result (op_lshift p)"
  "normal_result (op_rshift (normal p)) = normal_result (op_rshift p)"
  by (simp_all add: disabled_defs op_unevaluated_def normal_simps)

lemma push_normal [normal_ops]:
  "normal_result (op_push_number v (normal p)) = normal_result (op_push_number v p)"
  "normal_result (op_push_size op (normal p)) = normal_result (op_push_size op p)"
  "normal_result (op_push_one_size op (normal p)) = normal_result (op_push_one_size op p)"
  "normal_result (op_push_two_size op (normal p)) = normal_result (op_push_two_size op p)"
  "normal_result (op_push_four_size op (normal p)) = normal_result (op_push_four_size op p)"
  by (simp_all add: op_push_number_def op_push_size_def op_push_one_size_def op_push_two_size_def
      op_push_four_size_def normal_simps)

lemma if_normal [normal_ops]:
  "normal_result (op_if (normal p)) = normal_result (op_if p)"
  "normal_result (op_notif (normal p)) = normal_result (op_notif p)"
  by (simp_all add: op_if_def op_notif_def normal_simps normal_result_def split: prod.split option.split)

lemma control_normal [normal_ops]:
  "normal_result (op_else (normal p)) = normal_result (op_else p)"
  "normal_result (op_endif (normal p)) = normal_result (op_endif p)"
  "normal_result (op_verify (normal p)) = normal_result (op_verify p)"
  by (simp_all add: op_else_def op_endif_def op_verify_def peek_bool_top_def normal_simps)

lemma alt_stack_normal [normal_ops]:
  "normal_result (op_to_alt_stack (normal p)) = normal_result (op_to_alt_stack p)"
  "normal_result (op_from_alt_stack (normal p)) = normal_result (op_from_alt_stack p)"
  by (simp_all add: op_to_alt_stack_def op_from_alt_stack_def normal_simps)
    (simp_all add: pop_top_def pop_alternate_top_def normal_simps)

lemmas stack_op_defs = op_drop2_def op_dup2_def op_dup3_def op_over2_def op_rot2_def op_swap2_def op_if_dup_def
  op_depth_def op_drop_def op_dup_def op_nip_def op_over_def op_rot_def op_swap_def op_tuck_def op_sizeof_def

lemma stack_op_normal [normal_ops]:
  "normal_result (op_drop2 (normal p)) = normal_result (op_drop2 p)"
  "normal_result (op_dup2 (normal p)) = normal_result (op_dup2 p)"
  "normal_result (op_dup3 (normal p)) = normal_result (op_dup3 p)"
  "normal_result (op_over2 (normal p)) = normal_result (op_over2 p)"
  "normal_result (op_rot2 (normal p)) = normal_result (op_rot2 p)"
  "normal_result (op_swap2 (normal p)) = normal_result (op_swap2 p)"
  "normal_result (op_if_dup (normal p)) = normal_result (op_if_dup p)"
  "normal_result (op_depth (normal p)) = normal_result (op_depth p)"
  "normal_result (op_drop (normal p)) = normal_result (op_drop p)"
  "normal_result (op_dup (normal p)) = normal_result (op_dup p)"
  "normal_result (op_nip (normal p)) = normal_result (op_nip p)"
  "normal_result (op_over (normal p)) = normal_result (op_over p)"
  "normal_result (op_rot (normal p)) = normal_result (op_rot p)"
  "normal_result (op_swap (normal p)) = normal_result (op_swap p)"
  "normal_result (op_tuck (normal p)) = normal_result (op_tuck p)"
  "normal_result (op_sizeof (normal p)) = normal_result (op_sizeof p)"
  by (simp_all add: stack_op_defs peek_bool_top_def normal_simps Let_def)

lemma pop_index32_bound: "pop_index32 p = (Some index, q) \<Longrightarrow> index < stack_size q"
  by (auto simp: pop_index32_def split: prod.splits option.splits if_splits)

lemma push_norm: "normal (push_variant (norm v) p) = normal (push_variant v p)"
  by (simp add: push_variant_def normal_def norm_norm)

lemma index_op_normal [normal_ops]:
  "normal_result (op_pick (normal p)) = normal_result (op_pick p)"
  "normal_result (op_roll (normal p)) = normal_result (op_roll p)"
proof -
  have peek: "peek_at index (normal q) = norm (peek_at index q)" if "pop_index32 p = (Some index, q)" for index q
    using normal_peek(2) [OF pop_index32_bound [OF that]] .
  show "normal_result (op_pick (normal p)) = normal_result (op_pick p)"
    "normal_result (op_roll (normal p)) = normal_result (op_roll p)"
    by (auto simp: op_pick_def op_roll_def normal_simps normal_result_def Let_def peek push_norm
        split: prod.split option.split)
qed

lemma equal_normal [normal_ops]:
  "normal_result (op_equal (normal p)) = normal_result (op_equal p)"
  "normal_result (op_equal_verify (normal p)) = normal_result (op_equal_verify p)"
  by (simp_all add: op_equal_def op_equal_verify_def pop_top_def normal_simps is_stack_empty_size)

lemmas unary_defs = op_add1_def op_sub1_def op_negate_def op_abs_def op_not_def op_nonzero_def

lemma unary_normal [normal_ops]:
  "normal_result (op_add1 (normal p)) = normal_result (op_add1 p)"
  "normal_result (op_sub1 (normal p)) = normal_result (op_sub1 p)"
  "normal_result (op_negate (normal p)) = normal_result (op_negate p)"
  "normal_result (op_abs (normal p)) = normal_result (op_abs p)"
  "normal_result (op_not (normal p)) = normal_result (op_not p)"
  "normal_result (op_nonzero (normal p)) = normal_result (op_nonzero p)"
  by (simp_all add: unary_defs normal_simps normal_result_def split: prod.split option.split)

lemmas binary_defs = op_add_def op_sub_def op_bool_and_def op_bool_or_def op_num_equal_def op_num_equal_verify_def
  op_num_not_equal_def op_less_than_def op_greater_than_def op_less_than_or_equal_def
  op_greater_than_or_equal_def op_min_def op_max_def op_within_def

lemma binary_normal [normal_ops]:
  "normal_result (op_add (normal p)) = normal_result (op_add p)"
  "normal_result (op_sub (normal p)) = normal_result (op_sub p)"
  "normal_result (op_bool_and (normal p)) = normal_result (op_bool_and p)"
  "normal_result (op_bool_or (normal p)) = normal_result (op_bool_or p)"
  "normal_result (op_num_equal (normal p)) = normal_result (op_num_equal p)"
  "normal_result (op_num_equal_verify (normal p)) = normal_result (op_num_equal_verify p)"
  "normal_result (op_num_not_equal (normal p)) = normal_result (op_num_not_equal p)"
  "normal_result (op_less_than (normal p)) = normal_result (op_less_than p)"
  "normal_result (op_greater_than (normal p)) = normal_result (op_greater_than p)"
  "normal_result (op_less_than_or_equal (normal p)) = normal_result (op_less_than_or_equal p)"
  "normal_result (op_greater_than_or_equal (normal p)) = normal_result (op_greater_than_or_equal p)"
  "normal_result (op_min (normal p)) = normal_result (op_min p)"
  "normal_result (op_max (normal p)) = normal_result (op_max p)"
  "normal_result (op_within (normal p)) = normal_result (op_within p)"
  by (simp_all add: binary_defs normal_simps normal_result_def split: prod.split option.split)

lemmas hash_defs = op_ripemd160_def op_sha1_def op_sha256_def op_hash160_def op_hash256_def

lemma hash_normal [normal_ops]:
  "normal_result (op_ripemd160 C (normal p)) = normal_result (op_ripemd160 C p)"
  "normal_result (op_sha1 C (normal p)) = normal_result (op_sha1 C p)"
  "normal_result (op_sha256 C (normal p)) = normal_result (op_sha256 C p)"
  "normal_result (op_hash160 C (normal p)) = normal_result (op_hash160 C p)"
  "normal_result (op_hash256 C (normal p)) = normal_result (op_hash256 C p)"
  by (simp_all add: hash_defs pop_chunk_top_def normal_simps)

lemma locktime_normal [normal_ops]:
  "normal_result (op_check_locktime_verify (normal p)) = normal_result (op_check_locktime_verify p)"
  "normal_result (op_check_sequence_verify (normal p)) = normal_result (op_check_sequence_verify p)"
  "normal_result (op_codeseparator index (normal p)) = normal_result (op_codeseparator index p)"
  by (simp_all add: op_check_locktime_verify_def op_check_sequence_verify_def op_codeseparator_def op_nop_code_def
      normal_simps Let_def split: option.split)

subsection \<open>Signatures\<close>

lemma check_sig_helpers_normal [normal_simps]:
  "check_schnorr C key e (normal p) = check_schnorr C key e p"
  "check_ecdsa C key e (normal p) = check_ecdsa C key e p"
  by (simp_all add: check_schnorr_def check_ecdsa_def normal_simps split: prod.split option.split)

lemma check_sig_verify_normal:
  "op_check_sig_verify C (normal p) = normal_result (op_check_sig_verify C p)"
  by (simp add: op_check_sig_verify_def pop_chunk_top_def normal_simps is_stack_empty_size Let_def
      normal_result_def split: prod.split)

lemma check_sig_normal [normal_ops]:
  "normal_result (op_check_sig_verify C (normal p)) = normal_result (op_check_sig_verify C p)"
  "normal_result (op_check_sig C (normal p)) = normal_result (op_check_sig C p)"
  by (auto simp: check_sig_verify_normal op_check_sig_def normal_result_def normal_simps Let_def split: prod.split)

lemma hash_step_normal:
  "(if \<not> is_cached f (normal p) then set_hash C sub f (normal p) else normal p) =
    normal (if \<not> is_cached f p then set_hash C sub f p else p)"
  by (simp add: normal_simps)

lemma multisig_loop_normal:
  "multisig_loop C sub bip66 keys sigs (normal p) = normal_result (multisig_loop C sub bip66 keys sigs p)"
proof (induction C sub bip66 keys sigs p rule: multisig_loop.induct)
  case (3 C sub bip66 key keys endorsement sigs p)
  obtain f der where split: "ecdsa_split endorsement = (f, der)" by (cases "ecdsa_split endorsement")
  show ?case
  proof (cases "ecdsa_decode C der bip66")
    case (Some sig)
    with 3 split show ?thesis by (simp del: normal_simps add: Let_def hash_step_normal) (simp add: normal_simps)
  qed (use 3 split in \<open>simp add: normal_simps\<close>)
qed (simp_all add: normal_simps)

lemma check_endorsements_normal:
  assumes "count < stack_size p"
  shows "check_endorsements C keys count (normal p) = normal_result (check_endorsements C keys count p)"
proof -
  obtain ok sigs q where pops: "pop_chunks count p = (ok, sigs, q)" by (metis prod_cases3)
  then have "\<not> is_stack_empty q"
    using assms pop_chunks_eq [of count p] by (auto simp: is_stack_empty_def stack_size_def)
  then show ?thesis
    by (simp add: check_endorsements_def pops normal_simps multisig_loop_normal pop_strict_bool_top_def)
qed

lemma multisig_verify_normal:
  "op_check_multisig_verify C (normal p) = normal_result (op_check_multisig_verify C p)"
  by (auto simp: op_check_multisig_verify_def op_unevaluated_def normal_simps normal_result_def Let_def
      check_endorsements_normal [unfolded normal_result_def] dest: pop_index32_bound split: prod.split option.split)

lemma multisig_normal [normal_ops]:
  "normal_result (op_check_multisig_verify C (normal p)) = normal_result (op_check_multisig_verify C p)"
  "normal_result (op_check_multisig C (normal p)) = normal_result (op_check_multisig C p)"
  by (auto simp: multisig_verify_normal op_check_multisig_def op_unevaluated_def normal_result_def normal_simps Let_def
      split: prod.split)

lemma cached_schnorr_normal:
  "check_cached_schnorr C key e (normal p) = normal_result (check_cached_schnorr C key e p)"
  by (simp add: check_cached_schnorr_def normal_simps Let_def normal_result_def split: prod.split)

lemma check_sig_add_normal [normal_ops]:
  "normal_result (op_check_sig_add C (normal p)) = normal_result (op_check_sig_add C p)"
  by (simp add: op_check_sig_add_def op_unevaluated_def pop_chunk_top_def pop_signed32_top_def normal_simps
      is_stack_empty_size cached_schnorr_normal normal_result_def Let_def split: prod.split option.split)

section \<open>Runs\<close>

lemma run_op_normal:
  "normal_result (run_op C index op (normal p)) = normal_result (run_op C index op p)"
  unfolding run_op_def Let_def by (simp only: if_distrib [of normal_result] normal_ops)

text \<open>
  A function on programs that gives the same on the byte strings is a function of the byte
  strings: it maps programs that stand for the same to results that stand for the same.
\<close>

locale unobservable =
  fixes f :: "program \<Rightarrow> 'a \<times> program"
  assumes f_normal: "normal_result (f (normal p)) = normal_result (f p)"
begin

lemma same:
  assumes "normal p = normal q"
  shows "fst (f p) = fst (f q)" "normal (snd (f p)) = normal (snd (f q))"
proof -
  have "normal_result (f p) = normal_result (f q)"
    using f_normal [of p] f_normal [of q] assms by simp
  then show "fst (f p) = fst (f q)" "normal (snd (f p)) = normal (snd (f q))"
    by (simp_all add: normal_result_def)
qed

end

interpretation op: unobservable "run_op C index operation"
  by unfold_locales (rule run_op_normal)

interpretation counted: unobservable "ops_increment operation"
  by unfold_locales (simp add: normal_simps normal_result_def)

lemma run_ops_same:
  "normal p = normal q \<Longrightarrow>
    normal_result (run_ops C index ops p) = normal_result (run_ops C index ops q)"
proof (induction ops arbitrary: index p q)
  case Nil
  then have "is_balanced p = is_balanced q" by (metis normal_queries(7))
  with Nil show ?case by (simp add: normal_simps)
next
  case (Cons operation ops)
  obtain ok p1 where p1: "ops_increment operation p = (ok, p1)" by fastforce
  obtain q1 where q1: "ops_increment operation q = (ok, q1)" and n1: "normal p1 = normal q1"
    using counted.same [OF Cons.prems, of operation] p1 by (cases "ops_increment operation q") auto
  obtain ec p2 where p2: "run_op C index operation p1 = (ec, p2)" by fastforce
  obtain q2 where q2: "run_op C index operation q1 = (ec, q2)" and n2: "normal p2 = normal q2"
    using op.same [OF n1, of C index operation] p2 by (cases "run_op C index operation q1") auto
  have "if_op operation p1 = if_op operation q1" using n1 by (metis normal_queries(9))
  moreover have "is_stack_overflow p2 = is_stack_overflow q2" using n2 by (metis normal_queries(4))
  ultimately show ?case
    using p1 q1 n1 p2 q2 n2 Cons.prems Cons.IH [OF n1, of "index + 1"] Cons.IH [OF n2, of "index + 1"]
    by (simp add: normal_result_def)
qed

lemma run_normal: "normal_result (run C (normal p)) = normal_result (run C p)"
  using run_ops_same [OF normal_normal [of p], of C 0 "script_ops (prg_script p)"]
  by (simp add: run_def normal_simps Let_def)

interpretation runs: unobservable "run C"
  by unfold_locales (rule run_normal)

lemma is_true_normal: "is_true clean (normal p) = is_true clean p"
  by (auto simp: is_true_def normal_simps peek_bool_top_def)

text \<open>
  C17. The variant stack implements the stack of byte strings: on programs whose stacks hold the same
  byte strings, however they are represented, a run ends with the same code, its final stacks again
  hold the same byte strings, and they are judged alike.
\<close>

theorem stack_representation_unobservable:
  assumes "normal p = normal q"
  shows "fst (run C p) = fst (run C q) \<and> normal (snd (run C p)) = normal (snd (run C q)) \<and>
    is_true clean (snd (run C p)) = is_true clean (snd (run C q))"
  using runs.same [OF assms] is_true_normal by metis

text \<open>A program and a stand-in for the hashes and the curve, for the examples.\<close>

definition example_program :: program where
  "example_program = input_program example_transaction 0 0"

definition example_crypto :: crypto where
  "example_crypto = \<lparr>rmd160_chunk = \<lambda>_. replicate 20 0, sha1_chunk = \<lambda>_. replicate 20 0,
     sha256_chunk = \<lambda>_. replicate 32 0, bitcoin_short_chunk = \<lambda>_. replicate 20 0,
     bitcoin_chunk = \<lambda>_. replicate 32 0, tagged_chunk = \<lambda>_ _. replicate 32 0,
     ecdsa_decode = \<lambda>der strict. Some der, ecdsa_verify = \<lambda>key hash sig. sig = key,
     schnorr_verify = \<lambda>key hash sig. take 32 sig = key,
     verify_commitment = \<lambda>_ _ _ _. True\<rparr>"

theorem stack_representation_unobservable_witness:
  "normal (push_bool True example_program) = normal (push_chunk [1] example_program) \<and>
   fst (run example_crypto (push_bool True example_program)) =
   fst (run example_crypto (push_chunk [1] example_program))"
proof -
  have "normal (push_bool True example_program) = normal (push_chunk [1] example_program)"
    by (simp add: push_bool_def push_chunk_def push_variant_def normal_def norm_def chunk_from_bool_def)
  then show ?thesis using stack_representation_unobservable by blast
qed

end
