(* ===== verification/Invariant.thy ===== *)
theory Invariant
  imports Representation
begin

text \<open>
  The invariant of a running script, over the states that the loop of \<open>run\<close> passes through: the
  counter of negative conditions is that of the condition stack, stack elements and their number
  are within their limits, counted operations are within theirs, and a cached signature hash is the
  one that would be computed.
\<close>

named_theorems safe_simps "how the program primitives keep the invariant"
named_theorems safe_ops "operations that keep the invariant"

section \<open>The invariant\<close>

fun element_ok :: "stack_variant \<Rightarrow> bool" where
  "element_ok (Vbool b) \<longleftrightarrow> True"
| "element_ok (Vint i) \<longleftrightarrow> \<bar>i\<bar> < 2 ^ 32"
| "element_ok (Vchunk c) \<longleftrightarrow> length c \<le> max_push_data_size"

definition conditions_ok :: "program \<Rightarrow> bool" where
  "conditions_ok p \<longleftrightarrow> prg_negative p = length (filter Not (prg_condition p))"

definition elements_ok :: "program \<Rightarrow> bool" where
  "elements_ok p \<longleftrightarrow> list_all element_ok (prg_primary p) \<and> list_all element_ok (prg_alternate p)"

definition operations_ok :: "program \<Rightarrow> bool" where
  "operations_ok p \<longleftrightarrow> enabled p bip342_rule \<or> prg_operations p \<le> max_counted_ops"

definition cache_ok :: "crypto \<Rightarrow> program \<Rightarrow> bool" where
  "cache_ok C p \<longleftrightarrow> (enabled p bip342_rule \<and> cache_set (prg_multisig p) \<longrightarrow>
     program_signature_hash C (prg_script p) (cache_flags (prg_multisig p)) p = Some (cache_hash (prg_multisig p)))"

definition safe :: "crypto \<Rightarrow> program \<Rightarrow> bool" where
  "safe C p \<longleftrightarrow> conditions_ok p \<and> elements_ok p \<and> operations_ok p \<and> cache_ok C p"

text \<open>The digests that the hash operations push are short.\<close>

definition digests_ok :: "crypto \<Rightarrow> bool" where
  "digests_ok C \<longleftrightarrow> (\<forall>c. length (rmd160_chunk C c) \<le> hash_size \<and> length (sha1_chunk C c) \<le> hash_size \<and>
     length (sha256_chunk C c) \<le> hash_size \<and> length (bitcoin_short_chunk C c) \<le> hash_size \<and>
     length (bitcoin_chunk C c) \<le> hash_size)"

text \<open>An operation keeps the invariant when its success does.\<close>

definition good :: "crypto \<Rightarrow> op_result \<Rightarrow> bool" where
  "good C r \<longleftrightarrow> (fst r = error_op_success \<longrightarrow> safe C (snd r))"

lemma good_pair [safe_simps]: "good C (ec, p) \<longleftrightarrow> (ec = error_op_success \<longrightarrow> safe C p)"
  by (simp add: good_def)

lemma good_if: "good C a \<Longrightarrow> good C b \<Longrightarrow> good C (if c then a else b)"
  by simp

section \<open>Primitives\<close>

lemmas safe_defs = safe_def conditions_ok_def elements_ok_def operations_ok_def cache_ok_def enabled_def
  program_signature_hash_def

lemma safe_push [safe_simps]: "safe C (push_variant v p) \<longleftrightarrow> element_ok v \<and> safe C p"
  by (auto simp: push_variant_def safe_defs)

lemma safe_push_chunk [safe_simps]: "safe C (push_chunk c p) \<longleftrightarrow> length c \<le> max_push_data_size \<and> safe C p"
  by (simp add: push_chunk_def safe_push)

lemma safe_push_bool [safe_simps]: "safe C (push_bool b p) \<longleftrightarrow> safe C p"
  by (simp add: push_bool_def safe_push)

lemma safe_push_signed64 [safe_simps]: "safe C (push_signed64 i p) \<longleftrightarrow> \<bar>i\<bar> < 2 ^ 32 \<and> safe C p"
  by (simp add: push_signed64_def safe_push)

lemma safe_push_length [safe_simps]: "safe C (push_length n p) \<longleftrightarrow> n < 2 ^ 32 \<and> safe C p"
  by (simp add: push_length_def safe_push_signed64)

lemma safe_drop [safe_simps]: "safe C p \<Longrightarrow> safe C (drop_top p)"
  by (cases "prg_primary p") (auto simp: drop_top_def safe_defs)

lemma safe_swap [safe_simps]:
  "safe C p \<Longrightarrow> i < stack_size p \<Longrightarrow> j < stack_size p \<Longrightarrow> safe C (swap_at i j p)"
  by (auto simp: swap_at_def stack_swap_def safe_defs stack_size_def list_all_length nth_list_update)

lemma safe_erase [safe_simps]: "safe C p \<Longrightarrow> safe C (erase_at i p)"
  by (auto simp: erase_at_def stack_erase_def safe_defs list_all_iff dest: in_set_takeD in_set_dropD)

lemma safe_peek [safe_simps]:
  "safe C p \<Longrightarrow> 0 < stack_size p \<Longrightarrow> element_ok (peek_top p)"
  "safe C p \<Longrightarrow> i < stack_size p \<Longrightarrow> element_ok (peek_at i p)"
  by (auto simp: peek_top_def peek_at_def safe_defs stack_size_def list_all_iff)

lemma safe_push_alternate [safe_simps]: "safe C (push_alternate v p) \<longleftrightarrow> element_ok v \<and> safe C p"
  by (auto simp: push_alternate_def safe_defs)

lemma safe_pop_alternate [safe_simps]:
  "safe C p \<Longrightarrow> \<not> is_alternate_empty p \<Longrightarrow>
    element_ok (fst (pop_alternate_top p)) \<and> safe C (snd (pop_alternate_top p))"
  by (cases "prg_alternate p") (auto simp: pop_alternate_top_def is_alternate_empty_def safe_defs)

lemma safe_conditions [safe_simps]:
  "safe C p \<Longrightarrow> safe C (begin_if b p)"
  "safe C p \<Longrightarrow> \<not> is_balanced p \<Longrightarrow> safe C (else_if_top p)"
  "safe C p \<Longrightarrow> \<not> is_balanced p \<Longrightarrow> safe C (end_if_top p)"
  by (cases "prg_condition p"; auto simp: begin_if_def else_if_top_def end_if_top_def is_balanced_def safe_defs Let_def)+

lemma safe_subscript [safe_simps]: "safe C p \<Longrightarrow> safe C (set_subscript i p)" "safe C p \<Longrightarrow> safe C (uncache p)"
  by (auto simp: set_subscript_def uncache_def safe_defs)

lemma safe_set_hash_v1:
  "safe C p \<Longrightarrow> set_hash_v1 C f p = (ok, q) \<Longrightarrow> safe C q"
  by (auto simp: set_hash_v1_def safe_defs split: option.splits)

lemma safe_sigops: "safe C p \<Longrightarrow> sigops_increment p = (ok, q) \<Longrightarrow> safe C q"
  by (auto simp: sigops_increment_def safe_defs Let_def)

lemma safe_ops_increment:
  "safe C p \<Longrightarrow> ops_increment op p = (True, q) \<Longrightarrow> safe C q"
  "safe C p \<Longrightarrow> ops_increment_keys n p = (True, q) \<Longrightarrow> safe C q"
  by (auto simp: ops_increment_def ops_increment_keys_def operation_count_exceeded_def safe_defs Let_def
      split: if_splits)

text \<open>Popped numbers have 31 bits and a sign, so that sums and differences stay within 33 bits.\<close>

lemma integer_from_chunk_bound:
  assumes "integer_from_chunk n c = (True, v)" "0 < n"
  shows "\<bar>v\<bar> < 2 ^ (8 * n - 1)"
proof (cases c rule: rev_cases)
  case Nil
  with assms(1) have "v = 0" by (simp add: integer_from_chunk_def)
  then show ?thesis by simp
next
  case (snoc xs b)
  then have len: "length xs < n" using assms(1) by (auto simp: integer_from_chunk_def split: if_splits)
  define m where "m = (if 128 \<le> unat b then unat b - 128 else unat b)"
  have "unat b < 256" by simp
  then have "m \<le> 127" unfolding m_def by presburger
  then have "256 ^ length xs * m \<le> 256 ^ length xs * 127" by simp
  then have "le_value xs + 256 ^ length xs * m < 256 ^ length xs * 128"
    using le_value_bound [of xs] by linarith
  also have "\<dots> = 2 ^ (8 * Suc (length xs) - 1)" by (simp add: pow_256 power_add)
  also have "\<dots> \<le> 2 ^ (8 * n - 1)" using len by (intro power_increasing) simp_all
  finally have "int (le_value xs + 256 ^ length xs * m) < int (2 ^ (8 * n - 1))" by (simp only: of_nat_less_iff)
  moreover have "\<bar>v\<bar> = int (le_value xs + 256 ^ length xs * m)"
    using assms(1) snoc integer_from_chunk_snoc [OF len, of b]
    by (simp only: m_def prod.inject split: if_splits) (simp_all del: of_nat_add of_nat_mult of_nat_diff)
  ultimately show ?thesis by simp
qed

lemma variant_signed_bound: "variant_signed 4 v = Some i \<Longrightarrow> \<bar>i\<bar> < 2 ^ 31"
proof (cases v)
  case (Vint j)
  moreover assume "variant_signed 4 v = Some i"
  ultimately have "\<not> integer_is_overflow 4 i" by (auto split: if_splits)
  then show ?thesis by (auto simp: integer_is_overflow_def bitcoin_min_def bitcoin_max_def)
next
  case (Vchunk c)
  moreover assume "variant_signed 4 v = Some i"
  ultimately have "integer_from_chunk 4 c = (True, i)"
    by (cases "integer_from_chunk 4 c") (auto simp: converted_def split: if_splits)
  from integer_from_chunk_bound [OF this] show ?thesis by simp
qed (auto simp: to_int_def)

lemma pop_signed32_safe:
  assumes "safe C p" "pop_signed32 p = (Some i, q)"
  shows "safe C q" "\<bar>i\<bar> < 2 ^ 31"
  using assms by (auto simp: pop_signed32_def pop_signed32_top_def safe_drop dest: variant_signed_bound split: if_splits)

lemma pop_binary32_safe:
  assumes "safe C p" "pop_binary32 p = (Some (i, j), q)"
  shows "safe C q" "\<bar>i\<bar> < 2 ^ 31" "\<bar>j\<bar> < 2 ^ 31"
  using assms by (auto simp: pop_binary32_def pop_signed32_top_def safe_drop dest: variant_signed_bound
      split: if_splits option.splits)

lemma pop_ternary32_safe: "safe C p \<Longrightarrow> pop_ternary32 p = (Some r, q) \<Longrightarrow> safe C q"
  by (auto simp: pop_ternary32_def pop_signed32_top_def safe_drop split: if_splits option.splits)

lemma pop_index32_safe: "safe C p \<Longrightarrow> pop_index32 p = (Some n, q) \<Longrightarrow> safe C q"
  by (auto simp: pop_index32_def pop_signed32_safe split: prod.splits option.splits if_splits)

lemma pop_bool_safe: "safe C p \<Longrightarrow> pop_bool_top m p = (Some b, q) \<Longrightarrow> safe C q"
  by (auto simp: pop_bool_top_def safe_drop split: if_splits option.splits)

lemma pop_chunks_safe: "safe C p \<Longrightarrow> n \<le> stack_size p \<Longrightarrow> safe C (snd (snd (pop_chunks n p)))"
  by (auto simp: pop_chunks_eq safe_defs list_all_iff dest: in_set_dropD)

section \<open>Operations\<close>

lemma good_unevaluated [safe_ops]:
  "safe C p \<Longrightarrow> good C (op_unevaluated code p)" "safe C p \<Longrightarrow> good C (op_nop_code code p)" "safe C p \<Longrightarrow> good C (op_nop p)"
  by (simp_all add: op_unevaluated_def op_nop_code_def op_nop_def good_def)

lemma good_disabled [safe_ops]:
  "good C (op_ver p)" "good C (op_verif p)" "good C (op_vernotif p)" "good C (op_return p)" "good C (op_cat p)"
  "good C (op_substr p)" "good C (op_left p)" "good C (op_right p)" "good C (op_invert p)" "good C (op_and p)"
  "good C (op_or p)" "good C (op_xor p)" "good C (op_mul2 p)" "good C (op_div2 p)" "good C (op_mul p)"
  "good C (op_div p)" "good C (op_mod p)" "good C (op_lshift p)" "good C (op_rshift p)"
  by (simp_all add: disabled_defs op_unevaluated_def good_def)

lemma good_push [safe_ops]:
  "safe C p \<Longrightarrow> \<bar>v\<bar> < 2 ^ 32 \<Longrightarrow> good C (op_push_number v p)"
  "safe C p \<Longrightarrow> \<not> operation_is_oversized op \<Longrightarrow> good C (op_push_size op p)"
  "safe C p \<Longrightarrow> \<not> operation_is_oversized op \<Longrightarrow> good C (op_push_one_size op p)"
  "safe C p \<Longrightarrow> \<not> operation_is_oversized op \<Longrightarrow> good C (op_push_two_size op p)"
  "safe C p \<Longrightarrow> \<not> operation_is_oversized op \<Longrightarrow> good C (op_push_four_size op p)"
  by (simp_all add: op_push_number_def op_push_size_def op_push_one_size_def op_push_two_size_def
      op_push_four_size_def safe_simps operation_is_oversized_def data_size_def)

lemma good_control [safe_ops]:
  "safe C p \<Longrightarrow> good C (op_if p)" "safe C p \<Longrightarrow> good C (op_notif p)" "safe C p \<Longrightarrow> good C (op_else p)"
  "safe C p \<Longrightarrow> good C (op_endif p)" "safe C p \<Longrightarrow> good C (op_verify p)"
  by (auto simp: op_if_def op_notif_def op_else_def op_endif_def op_verify_def safe_simps
      dest: pop_bool_safe split: prod.splits option.splits)

lemma good_alternate [safe_ops]:
  "safe C p \<Longrightarrow> good C (op_to_alt_stack p)" "safe C p \<Longrightarrow> good C (op_from_alt_stack p)"
  using safe_pop_alternate [of C p]
  by (simp_all add: op_to_alt_stack_def op_from_alt_stack_def pop_top_def safe_simps is_stack_empty_size
      case_prod_unfold Let_def)

lemma good_stack [safe_ops]:
  "safe C p \<Longrightarrow> good C (op_drop2 p)" "safe C p \<Longrightarrow> good C (op_dup2 p)" "safe C p \<Longrightarrow> good C (op_dup3 p)"
  "safe C p \<Longrightarrow> good C (op_over2 p)" "safe C p \<Longrightarrow> good C (op_rot2 p)" "safe C p \<Longrightarrow> good C (op_swap2 p)"
  "safe C p \<Longrightarrow> good C (op_if_dup p)" "safe C p \<Longrightarrow> good C (op_drop p)"
  "safe C p \<Longrightarrow> good C (op_dup p)" "safe C p \<Longrightarrow> good C (op_nip p)" "safe C p \<Longrightarrow> good C (op_over p)"
  "safe C p \<Longrightarrow> good C (op_rot p)" "safe C p \<Longrightarrow> good C (op_swap p)" "safe C p \<Longrightarrow> good C (op_tuck p)"
  by (simp_all add: stack_op_defs safe_simps is_stack_empty_size Let_def stack_size_swap stack_size_push stack_size_drop
      safe_peek(2) [OF safe_swap])

lemma good_depth [safe_ops]: "safe C p \<Longrightarrow> stack_size p < 2 ^ 32 \<Longrightarrow> good C (op_depth p)"
  by (simp add: op_depth_def safe_simps)

lemma chunk_from_integer_small: "\<bar>i\<bar> < 2 ^ 32 \<Longrightarrow> length (chunk_from_integer i) \<le> 5"
  by (subst length_chunk_from_integer) (auto simp: integer_is_overflow_def bitcoin_min_def bitcoin_max_def)

lemma element_chunk: "element_ok v \<Longrightarrow> length (variant_chunk v) \<le> max_push_data_size"
  using chunk_from_integer_small by (cases v) (force simp: chunk_from_bool_def max_push_data_size_def)+

lemma variant_size_chunk: "variant_size v = length (variant_chunk v)"
  by (cases v) simp_all

lemma good_sizeof [safe_ops]: "safe C p \<Longrightarrow> good C (op_sizeof p)"
  using element_chunk [of "peek_top p"] safe_peek(1) [of C p]
  by (auto simp: op_sizeof_def safe_simps is_stack_empty_size variant_size_chunk max_push_data_size_def)

lemma good_index [safe_ops]: "safe C p \<Longrightarrow> good C (op_pick p)" "safe C p \<Longrightarrow> good C (op_roll p)"
  by (auto simp: op_pick_def op_roll_def safe_simps Let_def dest: pop_index32_safe
      intro: safe_peek(2) pop_index32_bound split: prod.splits option.splits)

lemma good_equal [safe_ops]: "safe C p \<Longrightarrow> good C (op_equal p)" "safe C p \<Longrightarrow> good C (op_equal_verify p)"
  by (simp_all add: op_equal_def op_equal_verify_def pop_top_def safe_simps)

lemma good_unary [safe_ops]:
  "safe C p \<Longrightarrow> good C (op_add1 p)" "safe C p \<Longrightarrow> good C (op_sub1 p)" "safe C p \<Longrightarrow> good C (op_negate p)"
  "safe C p \<Longrightarrow> good C (op_abs p)" "safe C p \<Longrightarrow> good C (op_not p)" "safe C p \<Longrightarrow> good C (op_nonzero p)"
  by (auto simp: unary_defs safe_simps dest: pop_signed32_safe split: prod.splits option.splits)

lemma good_sums [safe_ops]:
  assumes "safe C p"
  shows "good C (op_add p)" "good C (op_sub p)" "good C (op_min p)" "good C (op_max p)"
proof -
  have "\<bar>a + b\<bar> < 2 ^ 32 \<and> \<bar>a - b\<bar> < 2 ^ 32 \<and> \<bar>min a b\<bar> < 2 ^ 32 \<and> \<bar>max a b\<bar> < 2 ^ 32 \<and> safe C q"
    if "pop_binary32 p = (Some (a, b), q)" for a b q
    using pop_binary32_safe [OF assms that] by (auto simp: min_def max_def)
  then show "good C (op_add p)" "good C (op_sub p)" "good C (op_min p)" "good C (op_max p)"
    by (auto simp: binary_defs safe_simps split: prod.split option.split)
qed

lemma good_binary [safe_ops]:
  "safe C p \<Longrightarrow> good C (op_bool_and p)"
  "safe C p \<Longrightarrow> good C (op_bool_or p)" "safe C p \<Longrightarrow> good C (op_num_equal p)" "safe C p \<Longrightarrow> good C (op_num_equal_verify p)"
  "safe C p \<Longrightarrow> good C (op_num_not_equal p)" "safe C p \<Longrightarrow> good C (op_less_than p)"
  "safe C p \<Longrightarrow> good C (op_greater_than p)" "safe C p \<Longrightarrow> good C (op_less_than_or_equal p)"
  "safe C p \<Longrightarrow> good C (op_greater_than_or_equal p)"
  "safe C p \<Longrightarrow> good C (op_within p)"
  by (auto simp: binary_defs safe_simps dest: pop_binary32_safe pop_ternary32_safe split: prod.splits option.splits)

lemma good_hash [safe_ops]:
  assumes "digests_ok C" "safe C p"
  shows "good C (op_ripemd160 C p)" "good C (op_sha1 C p)" "good C (op_sha256 C p)" "good C (op_hash160 C p)"
    "good C (op_hash256 C p)"
  using assms by (auto simp: hash_defs pop_chunk_top_def safe_simps digests_ok_def hash_size_def max_push_data_size_def
      intro: order_trans)

lemma good_locktime [safe_ops]:
  "safe C p \<Longrightarrow> good C (op_check_locktime_verify p)" "safe C p \<Longrightarrow> good C (op_check_sequence_verify p)"
  "safe C p \<Longrightarrow> good C (op_codeseparator index p)"
  by (simp_all add: op_check_locktime_verify_def op_check_sequence_verify_def op_codeseparator_def op_nop_code_def
      safe_simps Let_def split: option.split)

subsection \<open>Signatures\<close>

lemma good_check_sig [safe_ops]:
  assumes "safe C p"
  shows "good C (op_check_sig_verify C p)" "good C (op_check_sig C p)"
proof -
  have sigops: "safe C q" if "sigops_increment (drop_top (drop_top p)) = (ok, q)" for ok q
    using that assms safe_sigops safe_drop by blast
  have "safe C q" if "op_check_sig_verify C p = (ec, q)" for ec q
    using that assms by (auto simp: op_check_sig_verify_def pop_chunk_top_def Let_def safe_simps
        dest: sigops split: if_splits prod.splits)
  then show "good C (op_check_sig_verify C p)" "good C (op_check_sig C p)"
    by (cases "op_check_sig_verify C p", auto simp: good_def op_check_sig_def Let_def safe_simps)+
qed

lemma cached_schnorr_safe:
  "safe C p \<Longrightarrow> check_cached_schnorr C key e p = (ec, q) \<Longrightarrow> safe C q"
  by (auto simp: check_cached_schnorr_def Let_def dest: safe_set_hash_v1 split: if_splits prod.splits)

lemma good_check_sig_add [safe_ops]: "safe C p \<Longrightarrow> good C (op_check_sig_add C p)"
proof -
  assume "safe C p"
  moreover have "\<bar>n + 1\<bar> < 2 ^ 32 \<and> \<bar>n\<bar> < 2 ^ 32" if "variant_signed 4 v = Some n" for v n
    using variant_signed_bound [OF that] by simp
  ultimately show ?thesis
    by (auto simp: op_check_sig_add_def op_unevaluated_def pop_chunk_top_def pop_signed32_top_def Let_def safe_simps
        dest!: cached_schnorr_safe [rotated] safe_sigops [rotated] split: prod.split option.split)
qed

lemma enabled_primitives [safe_simps]:
  "enabled (drop_top p) f = enabled p f" "enabled (uncache p) f = enabled p f"
  "enabled (set_hash C sub b p) f = enabled p f" "enabled (snd (ops_increment_keys n p)) f = enabled p f"
  "enabled (snd (pop_signed32 p)) f = enabled p f" "enabled (snd (pop_index32 p)) f = enabled p f"
  by (auto simp: drop_top_def uncache_def set_hash_def ops_increment_keys_def pop_index32_def pop_signed32_def
      pop_signed32_top_def enabled_def Let_def split: prod.split option.split)

lemma safe_set_hash: "safe C p \<Longrightarrow> \<not> enabled p bip342_rule \<Longrightarrow> safe C (set_hash C sub b p)"
  by (auto simp: set_hash_def safe_defs)

lemma multisig_loop_safe:
  "safe C p \<Longrightarrow> \<not> enabled p bip342_rule \<Longrightarrow> safe C (snd (multisig_loop C sub bip66 keys sigs p))"
  by (induction C sub bip66 keys sigs p rule: multisig_loop.induct)
    (auto simp: Let_def safe_set_hash safe_simps split: prod.split option.split)

lemma check_endorsements_safe:
  assumes "safe C p" "\<not> enabled p bip342_rule" "count < stack_size p"
  shows "safe C (snd (check_endorsements C keys count p))"
proof -
  have "safe C (p\<lparr>prg_primary := drop count (prg_primary p)\<rparr>)" "enabled (p\<lparr>prg_primary := xs\<rparr>) f = enabled p f" for xs f
    using pop_chunks_safe [OF assms(1), of count] assms(3) by (simp_all add: pop_chunks_eq enabled_def)
  with assms(2,3) show ?thesis
    by (simp add: check_endorsements_def pop_chunks_eq pop_strict_bool_top_def multisig_loop_safe safe_simps Let_def)
qed

text \<open>The pops of a multisignature are guarded: the assertions of the source hold.\<close>

lemma multisig_verify_cases:
  assumes "op_check_multisig_verify C p = (ec, q)" "\<not> enabled p bip342_rule"
    and "ec \<notin> {error_op_check_multisig_verify1, error_op_check_multisig_verify2, error_op_check_multisig_verify3,
      error_op_check_multisig_verify5, error_op_check_multisig_verify6}"
  obtains n p1 p2 m p3 where "pop_index32 p = (Some n, p1)" "n < stack_size p1" "n \<le> max_multisig_public_keys"
    "ops_increment_keys n p1 = (True, p2)" "prg_primary p2 = prg_primary p1"
    "pop_index32 (p2\<lparr>prg_primary := drop n (prg_primary p2)\<rparr>) = (Some m, p3)" "m < stack_size p3" "m \<le> n"
    "check_endorsements C (map variant_chunk (take n (prg_primary p2))) m p3 = (ec, q)"
proof -
  obtain n p1 where 1: "pop_index32 p = (Some n, p1)" "n \<le> max_multisig_public_keys"
    using assms by (auto simp: op_check_multisig_verify_def split: prod.splits option.splits if_splits)
  have n: "n < stack_size p1" by (rule pop_index32_bound [OF 1(1)])
  obtain p2 where 2: "ops_increment_keys n p1 = (True, p2)"
    using assms 1 by (auto simp: op_check_multisig_verify_def Let_def split: prod.splits option.splits if_splits)
  then have prim: "prg_primary p2 = prg_primary p1"
    by (auto simp: ops_increment_keys_def Let_def split: if_splits)
  then have pops: "pop_chunks n p2 = (True, map variant_chunk (take n (prg_primary p2)),
      p2\<lparr>prg_primary := drop n (prg_primary p2)\<rparr>)"
    using n by (intro pop_chunks_eq) (simp add: stack_size_def)
  obtain m p3 where 3: "pop_index32 (p2\<lparr>prg_primary := drop n (prg_primary p2)\<rparr>) = (Some m, p3)"
    using assms 1 2 pops by (auto simp: op_check_multisig_verify_def split: prod.splits option.splits if_splits)
  have len: "length (map variant_chunk (take n (prg_primary p2))) = n"
    using n prim by (simp add: stack_size_def)
  have "m \<le> n" "check_endorsements C (map variant_chunk (take n (prg_primary p2))) m p3 = (ec, q)"
    using assms 1 2 3 pops len by (auto simp: op_check_multisig_verify_def split: if_splits)
  then show thesis using that 1 n 2 prim 3 pop_index32_bound [OF 3] by blast
qed

lemma multisig_verify_safe:
  assumes "safe C p" "\<not> enabled p bip342_rule" "op_check_multisig_verify C p = (ec, q)"
    and "ec \<notin> {error_op_check_multisig_verify1, error_op_check_multisig_verify2, error_op_check_multisig_verify3,
      error_op_check_multisig_verify5, error_op_check_multisig_verify6}"
  shows "safe C q"
proof (rule multisig_verify_cases [OF assms(3,2,4)])
  fix n p1 p2 m p3
  assume 1: "pop_index32 p = (Some n, p1)" "n < stack_size p1"
    and 2: "ops_increment_keys n p1 = (True, p2)" "prg_primary p2 = prg_primary p1"
    and 3: "pop_index32 (p2\<lparr>prg_primary := drop n (prg_primary p2)\<rparr>) = (Some m, p3)" "m < stack_size p3"
    and 4: "check_endorsements C (map variant_chunk (take n (prg_primary p2))) m p3 = (ec, q)"
  have "safe C p2" using 1 2 assms(1) pop_index32_safe safe_ops_increment(2) by blast
  then have "safe C (p2\<lparr>prg_primary := drop n (prg_primary p2)\<rparr>)"
    using pop_chunks_safe [of C p2 n] 1(2) 2(2) by (simp add: pop_chunks_eq stack_size_def)
  then have "safe C p3" using 3(1) pop_index32_safe by blast
  moreover have "enabled p3 f = enabled p2 f" "enabled p2 f = enabled p1 f" "enabled p1 f = enabled p f" for f
    using enabled_primitives(6) [of p f] enabled_primitives(4) [of n p1 f]
      enabled_primitives(6) [of "p2\<lparr>prg_primary := drop n (prg_primary p2)\<rparr>" f] 1(1) 2(1) 3(1)
    by (simp_all add: enabled_def)
  ultimately show ?thesis using check_endorsements_safe [of C p3 m] 3(2) 4 assms(2) by (metis snd_conv)
qed

lemma good_multisig [safe_ops]:
  assumes "safe C p"
  shows "good C (op_check_multisig_verify C p)" "good C (op_check_multisig C p)"
proof -
  obtain ec q where r: "op_check_multisig_verify C p = (ec, q)" by fastforce
  show "good C (op_check_multisig_verify C p)"
  proof (cases "enabled p bip342_rule")
    case True
    then show ?thesis by (simp add: op_check_multisig_verify_def op_unevaluated_def safe_simps)
  next
    case False
    with multisig_verify_safe [OF assms False r] show ?thesis by (auto simp: r safe_simps)
  qed
  show "good C (op_check_multisig C p)"
    using multisig_verify_safe [OF assms _ r]
    by (auto simp: op_check_multisig_def op_unevaluated_def Let_def safe_simps r)
qed

section \<open>Reachable states\<close>

lemma run_op_good:
  assumes "safe C p" "digests_ok C" "\<not> operation_is_oversized op" "stack_size p < 2 ^ 32"
  shows "good C (run_op C index op p)"
proof -
  have "\<bar>int n + 1\<bar> < 2 ^ 32" if "n < 256" for n :: nat using that by simp
  moreover have "unat (op_code op - opcode_push_positive_1) < 256" by simp
  ultimately have number: "\<bar>int (unat (op_code op - opcode_push_positive_1)) + 1\<bar> < 2 ^ 32" by blast
  have small: "\<bar>0 :: int\<bar> < 2 ^ 32" "\<bar>- 1 :: int\<bar> < 2 ^ 32" by simp_all
  show ?thesis
    unfolding run_op_def Let_def by (intro good_if safe_ops assms number small)
qed

text \<open>The states at the head of the loop of \<open>run\<close>, with the position of the next operation.\<close>

inductive reaches :: "crypto \<Rightarrow> program \<Rightarrow> nat \<Rightarrow> program \<Rightarrow> bool" for C p where
  start: "initialize p = error_script_success \<Longrightarrow> reaches C p 0 p"
| skip: "reaches C p i q \<Longrightarrow> i < length (script_ops (prg_script p)) \<Longrightarrow> op = script_ops (prg_script p) ! i \<Longrightarrow>
    \<not> operation_is_oversized op \<Longrightarrow> ops_increment op q = (True, r) \<Longrightarrow> \<not> if_op op r \<Longrightarrow> reaches C p (Suc i) r"
| exec: "reaches C p i q \<Longrightarrow> i < length (script_ops (prg_script p)) \<Longrightarrow> op = script_ops (prg_script p) ! i \<Longrightarrow>
    \<not> operation_is_oversized op \<Longrightarrow> ops_increment op q = (True, r) \<Longrightarrow> if_op op r \<Longrightarrow>
    run_op C i op r = (error_op_success, s) \<Longrightarrow> \<not> is_stack_overflow s \<Longrightarrow> reaches C p (Suc i) s"

lemma run_ops_reaches:
  assumes "reaches C p i q" "run_ops C i (drop i (script_ops (prg_script p))) q = (script_code error_script_success, r)"
  shows "reaches C p (length (script_ops (prg_script p))) r \<and> is_balanced r"
  using assms
proof (induction "drop i (script_ops (prg_script p))" arbitrary: i q)
  case Nil
  have "i \<le> length (script_ops (prg_script p))" using Nil.prems(1) by (cases rule: reaches.cases) auto
  with Nil show ?case by (auto split: if_splits)
next
  case (Cons op ops)
  then have i: "i < length (script_ops (prg_script p))" and op: "op = script_ops (prg_script p) ! i"
    and ops: "ops = drop (Suc i) (script_ops (prg_script p))"
    by (metis drop_eq_Nil2 leI list.discI, metis hd_drop_conv_nth drop_eq_Nil2 leI list.discI list.sel(1),
        metis drop_Suc list.sel(3) tl_drop)
  obtain ok q1 where q1: "ops_increment op q = (ok, q1)" by fastforce
  obtain ec q2 where q2: "run_op C i op q1 = (ec, q2)" by fastforce
  have run: "run_ops C i (op # ops) q = (script_code error_script_success, r)"
    using Cons.prems(2) Cons.hyps(2) by simp
  then have big: "\<not> operation_is_oversized op" and ok: "ok" using q1 by (auto split: if_splits)
  show ?case
  proof (cases "if_op op q1")
    case True
    then have "ec = error_op_success" "\<not> is_stack_overflow q2"
        "run_ops C (Suc i) ops q2 = (script_code error_script_success, r)"
      using run big ok q1 q2 by (auto split: if_splits)
    with reaches.exec [OF Cons.prems(1) i op big _ True, of q2] ok q1 q2
    show ?thesis using Cons.hyps(1) [OF ops, of q2] by (simp add: ops)
  next
    case False
    then have "run_ops C (Suc i) ops q1 = (script_code error_script_success, r)"
      using run big ok q1 q2 by (auto split: if_splits)
    with Cons.hyps(1) [OF ops] reaches.skip [OF Cons.prems(1) i op big] False ok q1 ops show ?thesis by simp
  qed
qed

lemma reaches_run_ops:
  assumes "reaches C p i q"
  shows "run C p = run_ops C i (drop i (script_ops (prg_script p))) q"
  using assms
proof induction
  case start
  then show ?case by (simp add: run_def)
next
  case (skip i q op r)
  then have "drop i (script_ops (prg_script p)) = op # drop (Suc i) (script_ops (prg_script p))"
    by (simp add: Cons_nth_drop_Suc)
  with skip show ?case by simp
next
  case (exec i q op r s)
  then have "drop i (script_ops (prg_script p)) = op # drop (Suc i) (script_ops (prg_script p))"
    by (simp add: Cons_nth_drop_Suc)
  with exec show ?case by simp
qed

lemma run_success_iff:
  "run C p = (script_code error_script_success, r) \<longleftrightarrow>
    reaches C p (length (script_ops (prg_script p))) r \<and> is_balanced r"
proof
  assume run: "run C p = (script_code error_script_success, r)"
  then have "initialize p = error_script_success" by (auto simp: run_def Let_def split: if_splits)
  then show "reaches C p (length (script_ops (prg_script p))) r \<and> is_balanced r"
    using run run_ops_reaches [OF reaches.start, of p C r] by (simp add: run_def)
next
  assume "reaches C p (length (script_ops (prg_script p))) r \<and> is_balanced r"
  then show "run C p = (script_code error_script_success, r)" using reaches_run_ops by fastforce
qed

lemma reaches_invariant:
  assumes "reaches C p i q" "safe C p" "\<not> is_stack_overflow p" "digests_ok C"
  shows "safe C q \<and> \<not> is_stack_overflow q"
  using assms
proof induction
  case (skip i q op r)
  moreover have "is_stack_overflow r = is_stack_overflow q"
    using skip by (auto simp: ops_increment_def is_stack_overflow_def stack_size_def Let_def split: if_splits)
  ultimately show ?case using safe_ops_increment(1) by blast
next
  case (exec i q op r s)
  then have r: "safe C r" using safe_ops_increment(1) by blast
  have "\<not> is_stack_overflow r"
    using exec by (auto simp: ops_increment_def is_stack_overflow_def stack_size_def Let_def split: if_splits)
  then have "stack_size r < 2 ^ 32" by (simp add: is_stack_overflow_def max_unified_stack_size_def)
  from run_op_good [OF r exec.prems(3) exec.hyps(4) this, of i] exec show ?case by (simp add: good_def)
qed auto

text \<open>
  C12. The invariant of the script machine: from a program that satisfies it, as every constructed
  program does, every state of the run has its counter of negative conditions equal to the false
  conditions, so that the constant time test of the conditions is the search of the stack; its
  elements are at most 520 bytes or 33 bit numbers, the two stacks together hold at most 1000
  elements, and before tapscript at most 201 operations were counted.
\<close>

theorem script_machine_invariant:
  assumes "reaches C p i q" "safe C p" "\<not> is_stack_overflow p" "digests_ok C"
  shows "(is_succeeding q \<longleftrightarrow> list_all (\<lambda>b. b) (prg_condition q)) \<and>
    (\<forall>v \<in> set (prg_primary q @ prg_alternate q). element_ok v) \<and>
    length (prg_primary q) + length (prg_alternate q) \<le> max_unified_stack_size \<and>
    (enabled q bip342_rule \<or> prg_operations q \<le> max_counted_ops)"
proof -
  note inv = reaches_invariant [OF assms]
  then have "is_succeeding q \<longleftrightarrow> list_all (\<lambda>b. b) (prg_condition q)"
    by (simp add: safe_def conditions_ok_def is_succeeding_def list_all_iff filter_empty_conv)
  with inv show ?thesis
    by (auto simp: safe_def elements_ok_def operations_ok_def list_all_iff is_stack_overflow_def stack_size_def)
qed

text \<open>Constructed programs satisfy the invariant.\<close>

lemma new_program_safe:
  "list_all element_ok stack \<Longrightarrow> safe C (new_program t input s active v version witness tapleaf stack budget)"
  by (auto simp: new_program_def no_cache_def safe_defs max_counted_ops_def)

lemma example_digests: "digests_ok example_crypto"
  by (simp add: digests_ok_def example_crypto_def hash_size_def)

theorem script_machine_invariant_witness:
  "reaches example_crypto example_program 0 example_program \<and>
   (is_succeeding example_program \<longleftrightarrow> list_all (\<lambda>b. b) (prg_condition example_program))"
proof -
  have "initialize example_program = error_script_success"
    by (simp add: initialize_def example_program_def input_program_def new_program_def example_transaction_def
        make_transaction_def make_input_def from_operations_def make_script_def clear_offset_def enabled_def
        script_is_underflow_def script_is_oversized_def script_serialized_size_def ops_serialized_size_def Let_def)
  then have start: "reaches example_crypto example_program 0 example_program" by (rule reaches.start)
  have safe: "safe example_crypto example_program"
    by (simp add: example_program_def input_program_def new_program_safe)
  have "\<not> is_stack_overflow example_program"
    by (simp add: example_program_def input_program_def new_program_def is_stack_overflow_def stack_size_def
        max_unified_stack_size_def)
  from script_machine_invariant [OF start safe this example_digests] start show ?thesis by blast
qed

end
