(* ===== verification/Multisig.thy ===== *)
theory Multisig
  imports Invariant "HOL-Library.Sublist"
begin

text \<open>
  Signature operations against their specifications: the loop of \<open>op_check_multisig_verify\<close>
  accepts exactly when the endorsements match keys in order, and the cached signature hash of
  \<open>op_check_sig_add\<close> cannot be told from a computed one.
\<close>

section \<open>Multisignatures\<close>

text \<open>An endorsement that decodes, and verifies under the signature hash of its own coverage.\<close>

definition endorsed :: "crypto \<Rightarrow> script \<Rightarrow> bool \<Rightarrow> program \<Rightarrow> data_chunk \<Rightarrow> data_chunk \<Rightarrow> bool" where
  "endorsed C sub bip66 p endorsement key \<longleftrightarrow> endorsement \<noteq> [] \<and>
     (case ecdsa_decode C (butlast endorsement) bip66 of
        None \<Rightarrow> False
      | Some sig \<Rightarrow> ecdsa_verify C key (the (program_signature_hash C sub (last endorsement) p)) sig)"

text \<open>Every endorsement is matched by a key of its own, in the order of the keys.\<close>

definition all_endorsed :: "('e \<Rightarrow> 'k \<Rightarrow> bool) \<Rightarrow> 'k list \<Rightarrow> 'e list \<Rightarrow> bool" where
  "all_endorsed E keys sigs \<longleftrightarrow> (\<exists>ks. subseq ks keys \<and> list_all2 E sigs ks)"

lemma all_endorsed_Nil [simp]: "all_endorsed E keys []" "all_endorsed E [] (e # sigs) \<longleftrightarrow> False"
  by (auto simp: all_endorsed_def list_all2_Cons1)

lemma all_endorsed_skip: "all_endorsed E keys sigs \<Longrightarrow> all_endorsed E (k # keys) sigs"
  by (auto simp: all_endorsed_def)

lemma all_endorsed_take: "E e k \<Longrightarrow> all_endorsed E keys sigs \<Longrightarrow> all_endorsed E (k # keys) (e # sigs)"
  unfolding all_endorsed_def using subseq_Cons2 list.rel_intros(2) by metis

lemma all_endorsed_tail: "all_endorsed E (k # keys) (e # sigs) \<Longrightarrow> all_endorsed E keys sigs"
  unfolding all_endorsed_def list_all2_Cons1 by (metis subseq_Cons2_iff subseq_Cons')

lemma all_endorsed_miss: "\<not> E e k \<Longrightarrow> all_endorsed E (k # keys) (e # sigs) \<Longrightarrow> all_endorsed E keys (e # sigs)"
  unfolding all_endorsed_def list_all2_Cons1 by (metis subseq_Cons2_iff)

lemma all_endorsed_Cons:
  "all_endorsed E (k # keys) (e # sigs) \<longleftrightarrow>
    (if E e k then all_endorsed E keys sigs else all_endorsed E keys (e # sigs))"
  using all_endorsed_skip all_endorsed_take all_endorsed_tail all_endorsed_miss by metis

lemma legacy_hash: "\<not> enabled p bip342_rule \<Longrightarrow> program_signature_hash C sub f p \<noteq> None"
  by (simp add: program_signature_hash_def signature_hash_def enabled_def is_enabled_def and.commute Let_def)

text \<open>The cache holds the signature hash of the subscript of the operation.\<close>

definition caches :: "crypto \<Rightarrow> script \<Rightarrow> program \<Rightarrow> program \<Rightarrow> bool" where
  "caches C sub p q \<longleftrightarrow> (\<forall>f. program_signature_hash C sub f q = program_signature_hash C sub f p) \<and>
     (\<forall>f. is_cached f q \<longrightarrow> cached_hash q = the (program_signature_hash C sub f p))"

lemma caches_step:
  fixes f :: byte
  assumes "caches C sub p q" "\<not> enabled p bip342_rule"
  defines "r \<equiv> if \<not> is_cached f q then set_hash C sub f q else q"
  shows "caches C sub p r" "cached_hash r = the (program_signature_hash C sub f p)"
proof -
  have "program_signature_hash C sub g (set_hash C sub f q) = program_signature_hash C sub g q" for g
    by (simp add: set_hash_def program_signature_hash_def)
  moreover obtain h where "program_signature_hash C sub f p = Some h" using legacy_hash [OF assms(2)] by blast
  ultimately show "caches C sub p r" "cached_hash r = the (program_signature_hash C sub f p)"
    using assms(1) by (auto simp: caches_def r_def set_hash_def is_cached_def cached_hash_def)
qed

lemma multisig_loop_matches:
  assumes "caches C sub p q" "\<not> enabled p bip342_rule"
  shows "fst (multisig_loop C sub bip66 keys sigs q) = error_op_success \<longleftrightarrow>
    all_endorsed (endorsed C sub bip66 p) keys sigs"
  using assms
proof (induction C sub bip66 keys sigs q rule: multisig_loop.induct)
  case (3 C sub bip66 key keys endorsement sigs q)
  show ?case
  proof (cases "endorsement = [] \<or> ecdsa_decode C (butlast endorsement) bip66 = None")
    case True
    then have "\<not> endorsed C sub bip66 p endorsement k" for k by (auto simp: endorsed_def)
    then have "\<not> all_endorsed (endorsed C sub bip66 p) ks (endorsement # sigs)" for ks
      by (auto simp: all_endorsed_def list_all2_Cons1)
    then show ?thesis using True 3 by (auto simp: ecdsa_split_def)
  next
    case False
    then obtain sig where sig: "endorsement \<noteq> []" "ecdsa_decode C (butlast endorsement) bip66 = Some sig" by blast
    define r where "r = (if \<not> is_cached (last endorsement) q then set_hash C sub (last endorsement) q else q)"
    note step = caches_step [OF 3(4,5), of "last endorsement", folded r_def]
    have E: "endorsed C sub bip66 p endorsement key \<longleftrightarrow> ecdsa_verify C key (cached_hash r) sig"
      using sig step(2) by (simp add: endorsed_def)
    have loop: "multisig_loop C sub bip66 (key # keys) (endorsement # sigs) q =
        multisig_loop C sub bip66 keys (if ecdsa_verify C key (cached_hash r) sig then sigs else endorsement # sigs) r"
      using sig by (simp add: ecdsa_split_def r_def Let_def)
    show ?thesis
      using 3(2) [OF sig(1) refl, of "last endorsement" "butlast endorsement" sig r] 3(3) [OF sig(1) refl, of "last endorsement" "butlast endorsement" sig r]
        step(1) 3(5) sig E by (auto simp: loop all_endorsed_Cons ecdsa_split_def r_def simp del: multisig_loop.simps)
  qed
next
  case (1 C sub bip66 sigs q)
  then show ?case by (cases sigs) auto
qed auto

lemma subscript_same:
  "prg_script q = prg_script p \<Longrightarrow> prg_flags q = prg_flags p \<Longrightarrow> prg_version q = prg_version p \<Longrightarrow>
    subscript sigs q = subscript sigs p"
  by (simp add: subscript_def enabled_def Let_def)

lemma program_signature_hash_same:
  "prg_tx q = prg_tx p \<Longrightarrow> prg_input q = prg_input p \<Longrightarrow> prg_flags q = prg_flags p \<Longrightarrow>
    prg_version q = prg_version p \<Longrightarrow> prg_value q = prg_value p \<Longrightarrow> prg_tapleaf q = prg_tapleaf p \<Longrightarrow>
    program_signature_hash C sub f q = program_signature_hash C sub f p"
  by (simp add: program_signature_hash_def)

lemma uncache_caches:
  assumes "\<And>f. program_signature_hash C sub f q = program_signature_hash C sub f p"
  shows "caches C sub p (uncache q)"
  using assms by (simp add: caches_def uncache_def is_cached_def program_signature_hash_def)

lemma multisig_loop_primary: "prg_primary (snd (multisig_loop C sub bip66 keys sigs q)) = prg_primary q"
  by (induction C sub bip66 keys sigs q rule: multisig_loop.induct)
    (auto simp: Let_def set_hash_def split: prod.split option.split)

lemma pop_index32_top:
  assumes "prg_primary p = v # xs" "variant_signed 4 v = Some (int n)" "n < length xs"
  shows "pop_index32 p = (Some n, p\<lparr>prg_primary := xs\<rparr>)"
  using assms by (simp add: pop_index32_def pop_signed32_def pop_signed32_top_def is_stack_empty_def peek_top_def
      drop_top_def stack_size_def)

lemma check_endorsements_matches:
  assumes "prg_primary p = ss @ dummy # rest" "\<not> enabled p bip342_rule"
    and "\<not> (variant_strict_bool dummy \<and> enabled p bip147_rule)"
  obtains ec q where "check_endorsements C keys (length ss) p = (ec, q)" "prg_primary q = rest"
    "ec = error_op_success \<longleftrightarrow> all_endorsed (endorsed C (subscript (map variant_chunk ss) p) (enabled p bip66_rule) p)
      keys (map variant_chunk ss)"
proof -
  let ?sub = "subscript (map variant_chunk ss) p" and ?q = "p\<lparr>prg_primary := rest\<rparr>"
  have sub: "subscript (map variant_chunk ss) ?q = ?sub" by (rule subscript_same) simp_all
  obtain ec r where loop: "multisig_loop C ?sub (enabled p bip66_rule) keys (map variant_chunk ss) (uncache ?q) = (ec, r)"
    by fastforce
  have "check_endorsements C keys (length ss) p = (ec, r)"
    using assms loop sub
    by (auto simp: check_endorsements_def pop_chunks_eq stack_size_def pop_strict_bool_top_def peek_top_def drop_top_def
        enabled_def)
  moreover have "prg_primary r = rest"
    using multisig_loop_primary [of C ?sub "enabled p bip66_rule" keys "map variant_chunk ss" "uncache ?q"] loop
    by (simp add: uncache_def)
  moreover have "caches C ?sub p (uncache ?q)"
    by (intro uncache_caches program_signature_hash_same) simp_all
  ultimately show thesis using that multisig_loop_matches [OF _ assms(2)] loop by (metis fst_conv)
qed

text \<open>
  C16. The multisignature operation accepts exactly the ordered signatures: on a stack with a count and
  that many keys, a count and that many endorsements and the extra element, it consumes all of
  them, and it succeeds if and only if every endorsement is matched, in order, by a key that
  verifies it under the signature hash of its own coverage. The greedy loop and its hash cache lose
  nothing.
\<close>

theorem multisig_accepts_ordered_signatures:
  assumes "\<not> enabled p bip342_rule" "prg_primary p = nv # ks @ mv # ss @ dummy # rest"
    and "variant_signed 4 nv = Some (int (length ks))" "variant_signed 4 mv = Some (int (length ss))"
    and "length ks \<le> max_multisig_public_keys" "length ss \<le> length ks"
    and "prg_operations p + length ks \<le> max_counted_ops"
    and "\<not> (variant_strict_bool dummy \<and> enabled p bip147_rule)"
  shows "\<exists>ec q. op_check_multisig_verify C p = (ec, q) \<and> prg_primary q = rest \<and>
    (ec = error_op_success \<longleftrightarrow> (\<exists>matched. subseq matched (map variant_chunk ks) \<and>
      list_all2 (endorsed C (subscript (map variant_chunk ss) p) (enabled p bip66_rule) p)
        (map variant_chunk ss) matched))"
proof -
  let ?n = "length ks"
  define p1 where "p1 = p\<lparr>prg_primary := ks @ mv # ss @ dummy # rest\<rparr>"
  define p2 where "p2 = p1\<lparr>prg_operations := prg_operations p + ?n\<rparr>"
  define p3 where "p3 = p2\<lparr>prg_primary := ss @ dummy # rest\<rparr>"
  have 1: "pop_index32 p = (Some ?n, p1)" unfolding p1_def by (rule pop_index32_top [OF assms(2,3)]) simp
  have 2: "ops_increment_keys ?n p1 = (True, p2)"
    using assms(1,7) by (simp add: ops_increment_keys_def p1_def p2_def enabled_def operation_count_exceeded_def Let_def)
  have 3: "pop_chunks ?n p2 = (True, map variant_chunk ks, p2\<lparr>prg_primary := mv # ss @ dummy # rest\<rparr>)"
    by (simp add: pop_chunks_eq stack_size_def p2_def p1_def)
  have "pop_index32 (p2\<lparr>prg_primary := mv # ss @ dummy # rest\<rparr>) =
      (Some (length ss), p2\<lparr>prg_primary := mv # ss @ dummy # rest, prg_primary := ss @ dummy # rest\<rparr>)"
    by (rule pop_index32_top [OF _ assms(4)]) simp_all
  then have 4: "pop_index32 (p2\<lparr>prg_primary := mv # ss @ dummy # rest\<rparr>) = (Some (length ss), p3)"
    by (simp add: p3_def)
  have same: "enabled p3 f = enabled p f" "subscript sigs p3 = subscript sigs p"
      "program_signature_hash C sub b p3 = program_signature_hash C sub b p" for f sigs sub b
    by (simp add: p3_def p2_def p1_def enabled_def, (rule subscript_same program_signature_hash_same;
        simp add: p3_def p2_def p1_def)+)
  have E: "endorsed C sub b p3 = endorsed C sub b p" for sub b by (simp add: endorsed_def fun_eq_iff same(3) split: option.split)
  obtain ec q where "check_endorsements C (map variant_chunk ks) (length ss) p3 = (ec, q)" "prg_primary q = rest"
    "ec = error_op_success \<longleftrightarrow> all_endorsed (endorsed C (subscript (map variant_chunk ss) p) (enabled p bip66_rule) p)
      (map variant_chunk ks) (map variant_chunk ss)"
    using check_endorsements_matches [of p3 ss dummy rest C "map variant_chunk ks"] assms(1,8)
    unfolding same E by (metis p3_def program.select_convs(10) program.surjective program.update_convs(10))
  moreover from this(1) have "op_check_multisig_verify C p = (ec, q)"
    using assms(1,5,6) 1 2 3 4 by (simp add: op_check_multisig_verify_def)
  ultimately show ?thesis unfolding all_endorsed_def by blast
qed

definition example_multisig :: program where
  "example_multisig = example_program\<lparr>prg_primary :=
     [Vint 2, Vchunk [7], Vchunk [5], Vint 1, Vchunk [5, 1], Vint 0]\<rparr>"

lemma example_multisig_simps:
  "prg_primary example_multisig = Vint 2 # [Vchunk [7], Vchunk [5]] @ Vint 1 # [Vchunk [5, 1]] @ Vint 0 # []"
  "\<not> enabled example_multisig f" "prg_operations example_multisig = 0"
  by (simp_all add: example_multisig_def example_program_def input_program_def new_program_def enabled_def)

theorem multisig_accepts_ordered_signatures_witness:
  "\<exists>ec q. op_check_multisig_verify example_crypto example_multisig = (ec, q) \<and> prg_primary q = [] \<and>
    ec = error_op_success"
proof -
  have key: "list_all2 (endorsed example_crypto sub b p) [[5, 1]] [[5]]" for sub b p
    by (simp add: endorsed_def example_crypto_def)
  have small: "variant_signed 4 (Vint i) = Some i" if "i \<in> {1, 2}" for i
    using that by (auto simp: integer_is_overflow_def bitcoin_min_def bitcoin_max_def)
  have "subseq [[5]] (map variant_chunk [Vchunk [7], Vchunk [5]])" by simp
  with key multisig_accepts_ordered_signatures [OF example_multisig_simps(2,1), of example_crypto] small [of 1] small [of 2]
  show ?thesis
    by (auto simp: example_multisig_simps max_multisig_public_keys_def max_counted_ops_def simp del: variant_signed.simps)
qed

section \<open>The hash cache of accumulated signatures\<close>

text \<open>The same operation without the cache: the signature hash is computed for every signature.\<close>

definition check_uncached_schnorr :: "crypto \<Rightarrow> data_chunk \<Rightarrow> data_chunk \<Rightarrow> program \<Rightarrow> op_error_t" where
  "check_uncached_schnorr C key endorsement p =
     (if length key = ec_xonly_size
      then let (sighash_flags, sig) = schnorr_split endorsement in
        if sighash_flags = coverage_invalid then error_op_check_sig_add4
        else case program_signature_hash C (prg_script p) sighash_flags p of
          None \<Rightarrow> error_op_check_sig_add5
        | Some hash \<Rightarrow> (if \<not> schnorr_verify C key hash sig then error_op_check_sig_add6 else error_op_success)
      else error_op_success)"

text \<open>
  C29. The cache of signature hashes is transparent: in every reachable state of a tapscript run the
  signature check of an accumulated signature gives the result of the check that computes the
  signature hash anew.
\<close>

theorem signature_cache_transparent:
  assumes "reaches C p i q" "safe C p" "\<not> is_stack_overflow p" "digests_ok C" "enabled q bip342_rule"
  shows "fst (check_cached_schnorr C key endorsement q) = check_uncached_schnorr C key endorsement q"
proof -
  have "cache_ok C q" using reaches_invariant [OF assms(1-4)] by (simp add: safe_def)
  then have "program_signature_hash C (prg_script q) f q = Some (cached_hash q)" if "is_cached f q" for f
    using that assms(5) by (auto simp: cache_ok_def is_cached_def cached_hash_def)
  then show ?thesis
    by (auto simp: check_cached_schnorr_def check_uncached_schnorr_def set_hash_v1_def cached_hash_def Let_def
        split: prod.split option.split)
qed

definition example_tapscript :: program where
  "example_tapscript = example_program\<lparr>prg_flags := bip342_rule\<rparr>"

theorem signature_cache_transparent_witness:
  "enabled example_tapscript bip342_rule \<and>
   fst (check_cached_schnorr example_crypto (replicate 32 1) (replicate 64 1) example_tapscript) =
     check_uncached_schnorr example_crypto (replicate 32 1) (replicate 64 1) example_tapscript"
proof -
  have bip342: "enabled example_tapscript bip342_rule"
    by (simp add: example_tapscript_def enabled_def bip342_rule_def flag_def)
  have "initialize example_tapscript = error_script_success" "\<not> is_stack_overflow example_tapscript"
      "safe example_crypto example_tapscript"
    by (simp_all add: initialize_def example_tapscript_def example_program_def input_program_def new_program_def
        example_transaction_def make_transaction_def make_input_def from_operations_def make_script_def
        clear_offset_def script_is_underflow_def is_stack_overflow_def stack_size_def max_unified_stack_size_def
        script_is_oversized_def script_serialized_size_def ops_serialized_size_def Let_def safe_defs no_cache_def
        max_counted_ops_def)
  from signature_cache_transparent [OF reaches.start [OF this(1)] this(3,2) example_digests bip342] bip342
  show ?thesis by blast
qed

end
