(* ===== verification/Connect.thy ===== *)
theory Connect
  imports Interpreter
begin

text \<open>
  Connecting an input to the output it spends (\<open>impl/machine/interpreter_connect.ipp\<close>), with the
  embedded and witness programs, and the loops of \<open>transaction::connect\<close> and \<open>block::connect\<close>
  over the inputs and transactions.
\<close>

definition connect_witness :: "crypto \<Rightarrow> chain_context \<Rightarrow> transaction \<Rightarrow> nat \<Rightarrow> script \<Rightarrow> bool \<Rightarrow> code" where
  "connect_witness C ctx t it prevout embedded =
     (let i = tx_inputs t ! it; active = ctx_flags ctx; version = script_version_of prevout in
      case version of
        segwit \<Rightarrow>
          let ext = extract_segwit (sha256_chunk C) (in_witness i) prevout in
          if failed (ext_code ext) then ext_code ext
          else let (ec, p) = run C (segwit_program t it (the (ext_script ext)) active version (ext_stack ext)) in
            if failed ec then ec
            else if \<not> is_true True p then script_code error_stack_false
            else script_code error_script_success
      | taproot \<Rightarrow>
          if \<not> is_enabled active bip341_rule \<or> embedded then script_code error_script_success
          else let ext = extract_taproot (tagged_chunk C) (verify_commitment C) (in_witness i) prevout in
          if failed (ext_code ext) then ext_code ext
          else let (ec, p) = run C (taproot_program t it (the (ext_script ext)) active version (ext_stack ext)
              (ext_leaf ext)) in
            if failed ec
            then (if ec = script_code error_prevalid_script then script_code error_script_success else ec)
            else if \<not> is_true True p then script_code error_stack_false
            else script_code error_script_success
      | reserved \<Rightarrow> script_code error_script_success
      | unversioned \<Rightarrow> script_code error_unversioned_script)"

definition connect_embedded :: "crypto \<Rightarrow> chain_context \<Rightarrow> transaction \<Rightarrow> nat \<Rightarrow> program \<Rightarrow> code" where
  "connect_embedded C ctx t it in_program =
     (let i = tx_inputs t ! it; ops = script_ops (in_script i) in
      if \<not> is_relaxed_push_pattern ops then script_code error_invalid_script_embed
      else let (bytes, q) = program_pop in_program;
               embedded = script_of_bytes bytes;
               (ec, out_program) = run C (successor_program q embedded) in
        if failed ec then ec
        else if \<not> is_true False out_program then script_code error_stack_false
        else if is_pay_to_witness embedded (ctx_flags ctx)
        then if \<not> is_nominal_push_pattern ops then script_code error_dirty_embed
          else let ec = connect_witness C ctx t it embedded True in
            if failed ec then ec else script_code error_script_success
        else if wit_stack (in_witness i) \<noteq> [] then script_code error_unexpected_witness
        else script_code error_script_success)"

definition interpreter_connect :: "crypto \<Rightarrow> chain_context \<Rightarrow> transaction \<Rightarrow> nat \<Rightarrow> code" where
  "interpreter_connect C ctx t it =
     (let i = tx_inputs t ! it in
      case in_prevout i of
        None \<Rightarrow> tx_code error_missing_previous_output
      | Some prevout_ptr \<Rightarrow>
          let (ec, in_program) = run C (input_program t it (ctx_flags ctx)) in
          if failed ec then ec
          else let prevout = out_script prevout_ptr;
                   (ec, out_program) = run C (successor_program in_program prevout) in
            if failed ec then ec
            else if \<not> is_true False out_program then script_code error_stack_false
            else if is_pay_to_script_hash prevout (ctx_flags ctx)
            then let ec = connect_embedded C ctx t it in_program in
              if failed ec then ec else script_code error_script_success
            else if is_pay_to_witness prevout (ctx_flags ctx)
            then if script_ops (in_script i) \<noteq> [] then script_code error_dirty_witness
              else let ec = connect_witness C ctx t it prevout False in
                if failed ec then ec else script_code error_script_success
            else if wit_stack (in_witness i) \<noteq> [] then script_code error_unexpected_witness
            else script_code error_script_success)"

definition interpreter_connect_index :: "crypto \<Rightarrow> chain_context \<Rightarrow> transaction \<Rightarrow> nat \<Rightarrow> code" where
  "interpreter_connect_index C ctx t index =
     (if index \<ge> length (tx_inputs t) then script_code error_inputs_overflow
      else interpreter_connect C ctx t index)"

text \<open>Rolling scripts run on a linked stack, others on a contiguous one; the code is the same.\<close>

definition connect_input :: "crypto \<Rightarrow> chain_context \<Rightarrow> transaction \<Rightarrow> nat \<Rightarrow> code" where
  "connect_input C ctx t it =
     (if in_prevout (tx_inputs t ! it) = None then tx_code error_missing_previous_output
      else interpreter_connect C ctx t it)"

fun connect_inputs :: "crypto \<Rightarrow> chain_context \<Rightarrow> transaction \<Rightarrow> nat list \<Rightarrow> code" where
  "connect_inputs C ctx t [] = tx_code error_transaction_success"
| "connect_inputs C ctx t (it # its) =
     (let ec = connect_input C ctx t it in if failed ec then ec else connect_inputs C ctx t its)"

definition transaction_connect :: "crypto \<Rightarrow> chain_context \<Rightarrow> transaction \<Rightarrow> code" where
  "transaction_connect C ctx t =
     (if tx_is_coinbase t then tx_code error_transaction_success
      else connect_inputs C ctx t [0..<length (tx_inputs t)])"

fun connect_each :: "crypto \<Rightarrow> chain_context \<Rightarrow> transaction list \<Rightarrow> code" where
  "connect_each C ctx [] = block_code error_block_success"
| "connect_each C ctx (t # txs) =
     (let ec = transaction_connect C ctx t in if failed ec then ec else connect_each C ctx txs)"

definition block_connect :: "crypto \<Rightarrow> chain_context \<Rightarrow> chain_block \<Rightarrow> code" where
  "block_connect C ctx b = connect_each C ctx (tl (blk_txs b))"

end
