(* ===== verification/Frame.thy ===== *)
theory Frame
  imports Invariant
begin

text \<open>
  What a run leaves alone: the transaction, the input, the rules, the value, the version, the
  witness, the leaf and the operations of the script stay those of the program that was
  constructed; only stacks, counters, the cache and the subscript offset change.
\<close>

named_theorems static_ops "operations keep the constants of the program"

definition static :: "program \<Rightarrow> transaction \<times> nat \<times> flags \<times> u64 \<times> script_version \<times> data_chunk list option \<times>
  hash_digest option \<times> operation list" where
  "static p = (prg_tx p, prg_input p, prg_flags p, prg_value p, prg_version p, prg_witness p, prg_tapleaf p,
     script_ops (prg_script p))"

definition keeps :: "program \<Rightarrow> 'a \<times> program \<Rightarrow> bool" where
  "keeps p r \<longleftrightarrow> static (snd r) = static p"

lemma keeps_pair: "keeps p (a, q) \<longleftrightarrow> static q = static p"
  by (simp add: keeps_def)

lemma keeps_if: "keeps p a \<Longrightarrow> keeps p b \<Longrightarrow> keeps p (if c then a else b)"
  by simp

lemmas primitive_defs = push_variant_def push_chunk_def push_bool_def push_signed64_def push_length_def drop_top_def
  pop_top_def swap_at_def erase_at_def pop_chunk_top_def pop_strict_bool_top_def pop_bool_top_def pop_signed32_top_def
  pop_signed32_def pop_binary32_def pop_ternary32_def pop_index32_def push_alternate_def pop_alternate_top_def
  begin_if_def else_if_top_def end_if_top_def sigops_increment_def ops_increment_def ops_increment_keys_def uncache_def
  set_subscript_def set_hash_v1_def set_hash_def Let_def

lemma static_pushes [static_ops]:
  "keeps p (op_unevaluated code p)"
  "keeps p (op_nop_code code p)"
  "keeps p (op_push_number v p)"
  "keeps p (op_push_size op p)"
  "keeps p (op_push_one_size op p)"
  "keeps p (op_push_two_size op p)"
  "keeps p (op_push_four_size op p)"
  "keeps p (op_nop p)"
  "keeps p (op_ver p)"
  "keeps p (op_if p)"
  "keeps p (op_notif p)"
  "keeps p (op_verif p)"
  "keeps p (op_vernotif p)"
  "keeps p (op_else p)"
  by (simp_all add: keeps_def static_def op_unevaluated_def op_nop_code_def primitive_defs op_push_number_def op_push_size_def op_push_one_size_def op_push_two_size_def op_push_four_size_def op_nop_def op_ver_def op_if_def op_notif_def op_verif_def op_vernotif_def op_else_def
      split: prod.split option.split)

lemma static_flow [static_ops]:
  "keeps p (op_endif p)"
  "keeps p (op_verify p)"
  "keeps p (op_return p)"
  "keeps p (op_to_alt_stack p)"
  "keeps p (op_from_alt_stack p)"
  "keeps p (op_drop2 p)"
  "keeps p (op_dup2 p)"
  "keeps p (op_dup3 p)"
  "keeps p (op_over2 p)"
  "keeps p (op_rot2 p)"
  "keeps p (op_swap2 p)"
  "keeps p (op_if_dup p)"
  "keeps p (op_depth p)"
  "keeps p (op_drop p)"
  by (simp_all add: keeps_def static_def op_unevaluated_def op_nop_code_def primitive_defs op_endif_def op_verify_def op_return_def op_to_alt_stack_def op_from_alt_stack_def op_drop2_def op_dup2_def op_dup3_def op_over2_def op_rot2_def op_swap2_def op_if_dup_def op_depth_def op_drop_def
      split: prod.split option.split)

lemma static_stack [static_ops]:
  "keeps p (op_dup p)"
  "keeps p (op_nip p)"
  "keeps p (op_over p)"
  "keeps p (op_pick p)"
  "keeps p (op_roll p)"
  "keeps p (op_rot p)"
  "keeps p (op_swap p)"
  "keeps p (op_tuck p)"
  "keeps p (op_cat p)"
  "keeps p (op_substr p)"
  "keeps p (op_left p)"
  "keeps p (op_right p)"
  "keeps p (op_sizeof p)"
  "keeps p (op_invert p)"
  by (simp_all add: keeps_def static_def op_unevaluated_def op_nop_code_def primitive_defs op_dup_def op_nip_def op_over_def op_pick_def op_roll_def op_rot_def op_swap_def op_tuck_def op_cat_def op_substr_def op_left_def op_right_def op_sizeof_def op_invert_def
      split: prod.split option.split)

lemma static_splice [static_ops]:
  "keeps p (op_and p)"
  "keeps p (op_or p)"
  "keeps p (op_xor p)"
  "keeps p (op_equal p)"
  "keeps p (op_equal_verify p)"
  "keeps p (op_add1 p)"
  "keeps p (op_sub1 p)"
  "keeps p (op_mul2 p)"
  "keeps p (op_div2 p)"
  "keeps p (op_negate p)"
  "keeps p (op_abs p)"
  "keeps p (op_not p)"
  "keeps p (op_nonzero p)"
  "keeps p (op_add p)"
  by (simp_all add: keeps_def static_def op_unevaluated_def op_nop_code_def primitive_defs op_and_def op_or_def op_xor_def op_equal_def op_equal_verify_def op_add1_def op_sub1_def op_mul2_def op_div2_def op_negate_def op_abs_def op_not_def op_nonzero_def op_add_def
      split: prod.split option.split)

lemma static_comparison [static_ops]:
  "keeps p (op_sub p)"
  "keeps p (op_mul p)"
  "keeps p (op_div p)"
  "keeps p (op_mod p)"
  "keeps p (op_lshift p)"
  "keeps p (op_rshift p)"
  "keeps p (op_bool_and p)"
  "keeps p (op_bool_or p)"
  "keeps p (op_num_equal p)"
  "keeps p (op_num_equal_verify p)"
  "keeps p (op_num_not_equal p)"
  "keeps p (op_less_than p)"
  "keeps p (op_greater_than p)"
  "keeps p (op_less_than_or_equal p)"
  by (simp_all add: keeps_def static_def op_unevaluated_def op_nop_code_def primitive_defs op_sub_def op_mul_def op_div_def op_mod_def op_lshift_def op_rshift_def op_bool_and_def op_bool_or_def op_num_equal_def op_num_equal_verify_def op_num_not_equal_def op_less_than_def op_greater_than_def op_less_than_or_equal_def
      split: prod.split option.split)

lemma static_arithmetic [static_ops]:
  "keeps p (op_greater_than_or_equal p)"
  "keeps p (op_min p)"
  "keeps p (op_max p)"
  "keeps p (op_within p)"
  "keeps p (op_ripemd160 C p)"
  "keeps p (op_sha1 C p)"
  "keeps p (op_sha256 C p)"
  "keeps p (op_hash160 C p)"
  "keeps p (op_hash256 C p)"
  "keeps p (op_codeseparator index p)"
  "keeps p (op_check_sig_verify C p)"
  "keeps p (op_check_locktime_verify p)"
  "keeps p (op_check_sequence_verify p)"
  by (simp_all add: keeps_def static_def op_unevaluated_def op_nop_code_def primitive_defs op_greater_than_or_equal_def op_min_def op_max_def op_within_def op_ripemd160_def op_sha1_def op_sha256_def op_hash160_def op_hash256_def op_codeseparator_def op_check_sig_verify_def op_check_locktime_verify_def op_check_sequence_verify_def
      split: prod.split option.split)

lemma static_check_sig [static_ops]: "keeps p (op_check_sig C p)"
proof -
  have "keeps p (op_check_sig_verify C p)" by (rule static_ops)
  then show ?thesis by (auto simp: op_check_sig_def keeps_def static_def primitive_defs split: prod.split)
qed

lemma static_multisig_loop: "static (snd (multisig_loop C sub bip66 keys sigs p)) = static p"
  by (induction C sub bip66 keys sigs p rule: multisig_loop.induct)
    (auto simp: set_hash_def static_def Let_def split: prod.split option.split)

lemma static_pop_chunks: "static (snd (snd (pop_chunks n p))) = static p"
proof -
  have drop: "static (drop_top p) = static p" for p by (simp add: static_def drop_top_def)
  have "static (snd (pop_each_chunk n p)) = static p" for p
    by (induction n arbitrary: p) (simp_all add: pop_chunk_top_def case_prod_unfold Let_def drop)
  then show ?thesis by (simp add: pop_chunks_def)
qed

lemma static_check_endorsements: "static (snd (check_endorsements C keys n p)) = static p"
proof -
  obtain ok sigs q where "pop_chunks n p = (ok, sigs, q)" by (metis prod_cases3)
  moreover from this have "static q = static p" using static_pop_chunks [of n p] by simp
  moreover have "static (drop_top q) = static q" "static (uncache (drop_top q)) = static q"
    by (simp_all add: static_def primitive_defs)
  ultimately show ?thesis
    by (simp add: check_endorsements_def pop_strict_bool_top_def static_multisig_loop)
qed

lemma static_multisig_verify [static_ops]: "keeps p (op_check_multisig_verify C p)"
proof -
  have index: "static q = static p" if "pop_index32 p = (n, q)" for n p q
    using that by (auto simp: static_def primitive_defs split: prod.splits option.splits if_splits)
  have keys: "static q = static p" if "ops_increment_keys n p = (ok, q)" for n p ok q
    using that by (auto simp: static_def primitive_defs split: if_splits)
  have chunks: "static q = static p" if "pop_chunks n p = (ok, cs, q)" for n p ok cs q
    using static_pop_chunks [of n p] that by simp
  show ?thesis
    by (auto simp: op_check_multisig_verify_def op_unevaluated_def keeps_def static_check_endorsements Let_def
        dest!: index keys chunks split: prod.split option.split)
qed

lemma static_multisig [static_ops]: "keeps p (op_check_multisig C p)"
  using static_multisig_verify [of p C]
  by (auto simp: op_check_multisig_def op_unevaluated_def keeps_def static_def primitive_defs split: prod.split)

lemma static_cached_schnorr: "static (snd (check_cached_schnorr C key e p)) = static p"
proof -
  have hash: "static (snd (set_hash_v1 C f p)) = static p" for f
    by (simp add: set_hash_v1_def static_def split: option.split)
  then show ?thesis by (simp add: check_cached_schnorr_def case_prod_unfold Let_def)
qed

lemma static_check_sig_add [static_ops]: "keeps p (op_check_sig_add C p)"
proof -
  have cached: "static q = static p" if "check_cached_schnorr C key e p = (ec, q)" for key e p ec q
    using static_cached_schnorr [of C key e p] that by simp
  have drops: "static (drop_top (drop_top (drop_top p))) = static p" "static (drop_top (drop_top p)) = static p"
    "static (drop_top p) = static p" "static (push_signed64 n q) = static q" "static (snd (sigops_increment q)) = static q" for n q
    by (simp_all add: static_def primitive_defs)
  have sigops: "static r = static q" if "sigops_increment q = (ok, r)" for q ok r using drops(5) [of q] that by simp
  show ?thesis
    by (auto simp: op_check_sig_add_def op_unevaluated_def keeps_def pop_chunk_top_def pop_signed32_top_def drops Let_def
        dest!: cached sigops split: prod.split option.split)
qed

lemma run_op_static: "static (snd (run_op C index op p)) = static p"
proof -
  have "keeps p (run_op C index op p)" unfolding run_op_def Let_def by (intro keeps_if static_ops)
  then show ?thesis by (simp add: keeps_def)
qed

lemma run_ops_static: "static (snd (run_ops C index ops p)) = static p"
proof (induction ops arbitrary: index p)
  case (Cons op ops)
  obtain ok q where q: "ops_increment op p = (ok, q)" by fastforce
  then have "static q = static p" by (auto simp: static_def primitive_defs split: if_splits)
  moreover obtain ec r where r: "run_op C index op q = (ec, r)" by fastforce
  then have "static r = static q" using run_op_static [of C index op q] by simp
  ultimately show ?case using Cons.IH [of "index + 1" q] Cons.IH [of "index + 1" r] q r by simp
qed simp

lemma run_static: "static (snd (run C p)) = static p"
  by (simp add: run_def run_ops_static Let_def)

end
