(* ===== verification/Payments.thy ===== *)
theory Payments
  imports Multisig Connect Frame
begin

text \<open>
  What connecting an input guarantees about the output it spends: who can spend an output that
  pays to a key hash, directly or as a witness program, and that the script machine meets its
  unguarded pops with a stack that is not empty.
\<close>

section \<open>Steps of a run\<close>

lemma run_ops_step:
  assumes "\<not> operation_is_oversized op" "ops_increment op p = (True, q)" "if_op op q"
  shows "run_ops C index (op # ops) p = (case run_op C index op q of (ec, r) \<Rightarrow>
    if ec \<noteq> error_op_success then (op_error_code ec, r)
    else if is_stack_overflow r then (script_code error_invalid_stack_size, r)
    else run_ops C (index + 1) ops r)"
  using assms by (simp add: Let_def split: prod.split)

declare run_ops.simps(2) [simp del]

text \<open>A program about to run an operation outside of conditions, with operations left to count.\<close>

definition ready_for :: "nat \<Rightarrow> program \<Rightarrow> bool" where
  "ready_for n p \<longleftrightarrow> \<not> enabled p bip342_rule \<and> prg_condition p = [] \<and> prg_negative p = 0 \<and>
     prg_operations p + n \<le> max_counted_ops"

definition counted :: "operation \<Rightarrow> program \<Rightarrow> program" where
  "counted op p = (if is_counted (op_code op) then p\<lparr>prg_operations := prg_operations p + 1\<rparr> else p)"

lemma ready_step:
  assumes "ready_for (Suc n) p" "\<not> operation_is_oversized op"
  shows "run_ops C index (op # ops) p = (case run_op C index op (counted op p) of (ec, r) \<Rightarrow>
      if ec \<noteq> error_op_success then (op_error_code ec, r)
      else if is_stack_overflow r then (script_code error_invalid_stack_size, r)
      else run_ops C (index + 1) ops r)"
    "ready_for n (counted op p)"
proof -
  have "ops_increment op p = (True, counted op p)" "if_op op (counted op p)"
    using assms(1) by (auto simp: ops_increment_def ready_for_def counted_def if_op_def is_succeeding_def Let_def)
  from run_ops_step [OF assms(2) this] show "run_ops C index (op # ops) p = (case run_op C index op (counted op p) of (ec, r) \<Rightarrow>
      if ec \<noteq> error_op_success then (op_error_code ec, r)
      else if is_stack_overflow r then (script_code error_invalid_stack_size, r)
      else run_ops C (index + 1) ops r)" .
  show "ready_for n (counted op p)" using assms(1) by (auto simp: ready_for_def counted_def enabled_def)
qed

lemma ready_primary [simp]: "ready_for n (p\<lparr>prg_primary := xs\<rparr>) = ready_for n p"
  by (simp add: ready_for_def enabled_def)

lemma counted_fields [simp]:
  "prg_primary (counted op p) = prg_primary p" "prg_alternate (counted op p) = prg_alternate p"
  "prg_script (counted op p) = prg_script p" "enabled (counted op p) f = enabled p f"
  "subscript sigs (counted op p) = subscript sigs p"
  "program_signature_hash C sub b (counted op p) = program_signature_hash C sub b p"
  by (simp_all add: counted_def enabled_def subscript_def program_signature_hash_def Let_def)

lemma op_of_code_size [simp]: "\<not> operation_is_oversized (op_of_code code)"
  by (simp add: operation_is_oversized_def data_size_def)

lemma run_op_codes:
  "run_op C index (op_of_code opcode_dup) p = op_dup p"
  "run_op C index (op_of_code opcode_hash160) p = op_hash160 C p"
  "run_op C index (op_of_code opcode_equalverify) p = op_equal_verify p"
  "run_op C index (op_of_code opcode_equal) p = op_equal p"
  "run_op C index (op_of_code opcode_checksig) p = op_check_sig C p"
  by (simp_all add: run_op_def)

lemma run_op_push:
  assumes "0 < length d" "length d \<le> 75"
  shows "run_op C index (from_push_data d False) p = (error_op_success, p\<lparr>prg_primary := Vchunk d # prg_primary p\<rparr>)"
    "\<not> operation_is_oversized (from_push_data d False)"
proof -
  have d: "d \<noteq> []" using assms by auto
  have code: "op_code (from_push_data d False) = word_of_nat (length d)"
    using d assms(2) by (simp add: opcode_from_size_def)
  have unat: "unat (word_of_nat (length d) :: byte) = length d"
    using assms(2) by (simp add: unat_of_nat)
  have range: "(word_of_nat (length d) :: byte) \<noteq> 0" "(word_of_nat (length d) :: byte) \<ge> 1"
      "(word_of_nat (length d) :: byte) \<le> 75"
    using assms unat d by (simp_all add: word_unat_eq_iff word_le_nat_alt Suc_le_eq)
  have "\<not> is_underclaimed (from_push_data d False)"
    using range unat d by (auto simp: is_underclaimed_def nominal_push_size opcode_to_maximum_size_def code
        word_unat_eq_iff limits split: if_splits)
  then show "run_op C index (from_push_data d False) p = (error_op_success, p\<lparr>prg_primary := Vchunk d # prg_primary p\<rparr>)"
    using range d by (simp add: run_op_def code op_push_size_def push_chunk_def push_variant_def Let_def)
  show "\<not> operation_is_oversized (from_push_data d False)"
    using assms(2) by (simp add: operation_is_oversized_def nominal_push_size max_push_data_size_def)
qed

lemma step_success:
  assumes "ready_for (Suc n) p" "\<not> operation_is_oversized op"
  shows "run_ops C index (op # ops) p = (script_code error_script_success, r) \<longleftrightarrow>
    (\<exists>q. run_op C index op (counted op p) = (error_op_success, q) \<and> \<not> is_stack_overflow q \<and>
      run_ops C (index + 1) ops q = (script_code error_script_success, r))"
  by (auto simp: ready_step(1) [OF assms] split: prod.split)

section \<open>Operations of the templates\<close>

lemma op_dup_success:
  "op_dup p = (error_op_success, q) \<longleftrightarrow> (\<exists>x xs. prg_primary p = x # xs \<and> q = p\<lparr>prg_primary := x # x # xs\<rparr>)"
  by (cases "prg_primary p") (auto simp: op_dup_def is_stack_empty_def push_variant_def peek_top_def)

lemma op_hash160_success:
  "op_hash160 C p = (error_op_success, q) \<longleftrightarrow> (\<exists>x xs. prg_primary p = x # xs \<and>
    q = p\<lparr>prg_primary := Vchunk (bitcoin_short_chunk C (variant_chunk x)) # xs\<rparr>)"
  by (cases "prg_primary p")
    (auto simp: op_hash160_def is_stack_empty_def pop_chunk_top_def push_chunk_def push_variant_def peek_top_def drop_top_def)

lemma stack_two: "\<not> stack_size p < 2 \<longleftrightarrow> (\<exists>a b xs. prg_primary p = a # b # xs)"
  by (cases "prg_primary p"; cases "tl (prg_primary p)") (auto simp: stack_size_def)

lemma op_equal_verify_success:
  "op_equal_verify p = (error_op_success, q) \<longleftrightarrow> (\<exists>a b xs. prg_primary p = a # b # xs \<and>
    variant_chunk a = variant_chunk b \<and> q = p\<lparr>prg_primary := xs\<rparr>)"
proof (cases "stack_size p < 2")
  case True
  then have "\<nexists>a b xs. prg_primary p = a # b # xs" using stack_two by blast
  then show ?thesis using True by (auto simp: op_equal_verify_def)
next
  case False
  then obtain a b xs where "prg_primary p = a # b # xs" using stack_two by blast
  then show ?thesis using False
    by (auto simp: op_equal_verify_def pop_top_def peek_top_def drop_top_def equal_chunks_iff)
qed

lemma check_ecdsa_bounds: "check_ecdsa C key e p \<noteq> error_op_check_sig_low_stack"
  by (simp add: check_ecdsa_def split: prod.split option.split)

text \<open>The check of a signature leaves its result on the stack, unless the encoding rule ends the script.\<close>

lemma op_check_sig_success:
  assumes "\<not> enabled p bip342_rule" "op_check_sig C p = (error_op_success, q)"
  shows "\<exists>k s xs. prg_primary p = k # s # xs \<and> q = p\<lparr>prg_primary := Vbool (variant_chunk s \<noteq> [] \<and>
    check_ecdsa C (variant_chunk k) (variant_chunk s) (p\<lparr>prg_primary := xs\<rparr>) = error_op_success) # xs\<rparr>"
proof (cases "stack_size p < 2")
  case True
  then show ?thesis using assms(2) by (simp add: op_check_sig_def op_check_sig_verify_def)
next
  case False
  then obtain k s xs where "prg_primary p = k # s # xs" using stack_two by blast
  with False assms check_ecdsa_bounds show ?thesis
    by (auto simp: op_check_sig_def op_check_sig_verify_def pop_chunk_top_def peek_top_def drop_top_def push_bool_def
        push_variant_def Let_def enabled_def split: if_splits)
qed

lemma op_check_sig_passes:
  assumes "\<not> enabled p bip342_rule" "prg_primary p = k # s # xs" "variant_chunk s \<noteq> []"
    and "check_ecdsa C (variant_chunk k) (variant_chunk s) (p\<lparr>prg_primary := xs\<rparr>) = error_op_success"
  shows "op_check_sig C p = (error_op_success, p\<lparr>prg_primary := Vbool True # xs\<rparr>)"
  using assms by (simp add: op_check_sig_def op_check_sig_verify_def pop_chunk_top_def peek_top_def drop_top_def
      push_bool_def push_variant_def Let_def enabled_def stack_size_def)

lemma check_ecdsa_same:
  assumes "prg_script q = prg_script p" "prg_flags q = prg_flags p" "prg_version q = prg_version p"
    "prg_tx q = prg_tx p" "prg_input q = prg_input p" "prg_value q = prg_value p" "prg_tapleaf q = prg_tapleaf p"
  shows "check_ecdsa C key e q = check_ecdsa C key e p"
  using subscript_same [OF assms(1,2,3)] assms
  by (simp add: check_ecdsa_def enabled_def program_signature_hash_def split: prod.split option.split)

section \<open>Pay to key hash\<close>

lemma counted_same [simp]:
  "prg_flags (counted op p) = prg_flags p" "prg_version (counted op p) = prg_version p" "prg_tx (counted op p) = prg_tx p"
  "prg_input (counted op p) = prg_input p" "prg_value (counted op p) = prg_value p"
  "prg_tapleaf (counted op p) = prg_tapleaf p" "prg_condition (counted op p) = prg_condition p"
  by (simp_all add: counted_def)

lemma key_hash_success:
  assumes "ready_for 5 p" "length h = short_hash_size"
    and "run_ops C 0 (to_pay_key_hash_pattern h) p = (script_code error_script_success, r)" "is_true False r"
  shows "\<exists>k s rest. prg_primary p = k # s # rest \<and> prg_primary r = Vbool True # rest \<and>
    bitcoin_short_chunk C (variant_chunk k) = h \<and> variant_chunk s \<noteq> [] \<and>
    check_ecdsa C (variant_chunk k) (variant_chunk s) p = error_op_success"
proof -
  let ?dup = "op_of_code opcode_dup" and ?hash = "op_of_code opcode_hash160" and ?push = "from_push_data h False"
    and ?eq = "op_of_code opcode_equalverify" and ?sig = "op_of_code opcode_checksig"
  have push: "0 < length h" "length h \<le> 75" using assms(2) by (simp_all add: short_hash_size_def)
  note suc = eval_nat_numeral
  have r5: "ready_for (Suc 4) p" using assms(1) by (simp add: suc)
  obtain p1 where p1: "op_dup (counted ?dup p) = (error_op_success, p1)"
      "run_ops C (Suc 0) [?hash, ?push, ?eq, ?sig] p1 = (script_code error_script_success, r)"
    using assms(3) step_success [OF r5, of ?dup] by (auto simp: to_pay_key_hash_pattern_def run_op_codes)
  obtain k xs where k: "prg_primary p = k # xs" and e1: "p1 = (counted ?dup p)\<lparr>prg_primary := k # k # xs\<rparr>"
    using p1(1) by (auto simp: op_dup_success)
  have r4: "ready_for (Suc 3) p1" using ready_step(2) [OF r5, of ?dup] by (simp add: e1)
  obtain p2 where p2: "op_hash160 C (counted ?hash p1) = (error_op_success, p2)"
      "run_ops C (Suc (Suc 0)) [?push, ?eq, ?sig] p2 = (script_code error_script_success, r)"
    using p1(2) step_success [OF r4, of ?hash] by (auto simp: run_op_codes)
  have e2: "p2 = (counted ?hash p1)\<lparr>prg_primary := Vchunk (bitcoin_short_chunk C (variant_chunk k)) # k # xs\<rparr>"
    using p2(1) by (auto simp: op_hash160_success e1)
  have r3: "ready_for (Suc 2) p2" using ready_step(2) [OF r4, of ?hash] by (simp add: e2)
  obtain p3 where p3: "p3 = (counted ?push p2)\<lparr>prg_primary := Vchunk h # prg_primary p2\<rparr>"
      "run_ops C (Suc (Suc (Suc 0))) [?eq, ?sig] p3 = (script_code error_script_success, r)"
    using p2(2) step_success [OF r3 run_op_push(2) [OF push], of C] by (auto simp: run_op_push(1) [OF push])
  have r2: "ready_for (Suc 1) p3" using ready_step(2) [OF r3 run_op_push(2) [OF push]] by (simp add: p3(1) numeral_2_eq_2)
  obtain p4 where p4: "op_equal_verify (counted ?eq p3) = (error_op_success, p4)"
      "run_ops C (Suc (Suc (Suc (Suc 0)))) [?sig] p4 = (script_code error_script_success, r)"
    using p3(2) step_success [OF r2, of ?eq] by (auto simp: run_op_codes)
  have hash: "bitcoin_short_chunk C (variant_chunk k) = h" and e4: "p4 = (counted ?eq p3)\<lparr>prg_primary := k # xs\<rparr>"
    using p4(1) by (auto simp: op_equal_verify_success p3(1) e2)
  have r1: "ready_for (Suc 0) p4" using ready_step(2) [OF r2, of ?eq] by (simp add: e4)
  obtain p5 where p5: "op_check_sig C (counted ?sig p4) = (error_op_success, p5)"
      "run_ops C (Suc (Suc (Suc (Suc (Suc 0))))) [] p5 = (script_code error_script_success, r)"
    using p4(2) step_success [OF r1, of ?sig] by (auto simp: run_op_codes)
  have "\<not> enabled (counted ?sig p4) bip342_rule" using r1 by (simp add: ready_for_def)
  from op_check_sig_success [OF this p5(1)]
  obtain s rest where s: "xs = s # rest" "p5 = (counted ?sig p4)\<lparr>prg_primary := Vbool (variant_chunk s \<noteq> [] \<and>
      check_ecdsa C (variant_chunk k) (variant_chunk s) ((counted ?sig p4)\<lparr>prg_primary := rest\<rparr>) = error_op_success) # rest\<rparr>"
    by (auto simp: e4)
  have same: "check_ecdsa C (variant_chunk k) (variant_chunk s) ((counted ?sig p4)\<lparr>prg_primary := rest\<rparr>) =
      check_ecdsa C (variant_chunk k) (variant_chunk s) p"
    by (rule check_ecdsa_same) (simp_all add: e4 p3(1) e2 e1)
  have "r = p5" using p5(2) by (auto split: if_splits)
  with s same assms(4) show ?thesis using k hash by (auto simp: is_true_def peek_bool_top_def peek_top_def)
qed

section \<open>Runs and their codes\<close>

lemma run_ops_not_failed: "\<not> failed (fst (run_ops C index ops p)) \<longleftrightarrow> fst (run_ops C index ops p) = script_code error_script_success"
proof (induction ops arbitrary: index p)
  case (Cons op ops)
  obtain ok q where q: "ops_increment op p = (ok, q)" by fastforce
  obtain ec r where r: "run_op C index op q = (ec, r)" by fastforce
  show ?case using Cons.IH [of "index + 1" q] Cons.IH [of "index + 1" r] q r by (simp add: run_ops.simps(2))
qed simp

lemma run_not_failed:
  assumes "run C p = (ec, r)" "\<not> failed ec"
  shows "initialize p = error_script_success"
    "run_ops C 0 (script_ops (prg_script p)) p = (script_code error_script_success, r)"
  using assms run_ops_not_failed [of C 0 "script_ops (prg_script p)" p]
  by (auto simp: run_def Let_def split: if_splits)

lemma run_success_code:
  assumes "run C p = (ec, r)" "\<not> failed ec"
  shows "ec = script_code error_script_success"
proof -
  have "run C p = (script_code error_script_success, r)"
    unfolding run_def Let_def using run_not_failed [OF assms] by presburger
  with assms(1) show ?thesis by (metis prod.inject)
qed

text \<open>The rules of a program constructed from an input, and those of a program before tapscript.\<close>

lemma masked_rules:
  "(active AND bip342_mask) AND bip342_rule = 0"
  "(active AND bip342_mask) AND bip66_rule = active AND bip66_rule"
  "(active AND bip342_mask) AND bip143_rule = active AND bip143_rule"
  by (simp_all add: bip342_mask_def flag_defs and.assoc)

lemma input_run_fields:
  assumes "run C (input_program t it active) = (ec, p)"
  shows "prg_tx p = t" "prg_input p = it" "prg_flags p = active AND bip342_mask" "prg_version p = unversioned"
proof -
  have "static p = static (input_program t it active)" using run_static [of C "input_program t it active"] assms by simp
  then show "prg_tx p = t" "prg_input p = it" "prg_flags p = active AND bip342_mask" "prg_version p = unversioned"
    by (simp_all add: static_def input_program_def new_program_def)
qed

section \<open>Signed spends\<close>

text \<open>The operations that are hashed for a signature: those of the script, less the endorsement itself.\<close>

definition unsigned_ops :: "data_chunk list \<Rightarrow> operation list \<Rightarrow> operation list" where
  "unsigned_ops sigs = filter (\<lambda>op. \<not> op_stripped (create_strip_ops sigs) op)"

text \<open>
  The owner of a key with the given hash signed the input of the transaction: the endorsement
  decodes under the active rules to a signature that verifies over the signature hash.
\<close>

definition key_hash_signed :: "crypto \<Rightarrow> flags \<Rightarrow> (data_chunk \<Rightarrow> hash_digest) \<Rightarrow> data_chunk \<Rightarrow> data_chunk \<Rightarrow> data_chunk \<Rightarrow> bool" where
  "key_hash_signed C active sighash h key e \<longleftrightarrow> bitcoin_short_chunk C key = h \<and> e \<noteq> [] \<and>
     (\<exists>sig. ecdsa_decode C (butlast e) (is_enabled active bip66_rule) = Some sig \<and> ecdsa_verify C key (sighash e) sig)"

definition key_hash_sighash :: "crypto \<Rightarrow> transaction \<Rightarrow> nat \<Rightarrow> data_chunk \<Rightarrow> data_chunk \<Rightarrow> hash_digest" where
  "key_hash_sighash C t it h e =
     unversioned_sighash (bitcoin_chunk C) t it (from_operations (unsigned_ops [e] (to_pay_key_hash_pattern h))) (last e)"

text \<open>
  What the input itself provides: its own script runs without failure and leaves the key at the top
  of the stack and the endorsement next to it.
\<close>

definition input_provides :: "crypto \<Rightarrow> flags \<Rightarrow> transaction \<Rightarrow> nat \<Rightarrow> data_chunk \<Rightarrow> data_chunk \<Rightarrow> bool" where
  "input_provides C active t it key e \<longleftrightarrow> (case run C (input_program t it active) of (ec, p) \<Rightarrow>
     ec = script_code error_script_success \<and>
     (case prg_primary p of k # s # rest \<Rightarrow> variant_chunk k = key \<and> variant_chunk s = e | _ \<Rightarrow> False))"

lemma subscript_unversioned:
  "prg_version p = unversioned \<Longrightarrow> prg_script p = from_operations ops \<Longrightarrow>
    subscript sigs p = from_operations (unsigned_ops sigs ops)"
  by (auto simp: subscript_def unsigned_ops_def Let_def from_operations_def make_script_def list_ex_iff
      intro!: arg_cong [where f = from_operations] filter_True [symmetric])

lemma check_ecdsa_success:
  assumes "program_signature_hash C (subscript [e] p) (last e) p = Some hash"
  shows "check_ecdsa C key e p = error_op_success \<longleftrightarrow>
    (\<exists>sig. ecdsa_decode C (butlast e) (enabled p bip66_rule) = Some sig \<and> ecdsa_verify C key hash sig)"
  using assms by (auto simp: check_ecdsa_def ecdsa_split_def split: option.split)

lemma successor_fields [simp]:
  "prg_tx (successor_program p s) = prg_tx p" "prg_input (successor_program p s) = prg_input p"
  "prg_flags (successor_program p s) = prg_flags p" "prg_version (successor_program p s) = prg_version p"
  "prg_script (successor_program p s) = clear_offset s" "prg_primary (successor_program p s) = prg_primary p"
  "prg_condition (successor_program p s) = []" "prg_negative (successor_program p s) = 0"
  "prg_operations (successor_program p s) = 0" "prg_alternate (successor_program p s) = []"
  "prg_witness (successor_program p s) = None"
  by (simp_all add: successor_program_def new_program_def)

lemma clear_offset_operations [simp]: "clear_offset (from_operations ops) = from_operations ops"
  "script_ops (from_operations ops) = ops"
  by (simp_all add: clear_offset_def from_operations_def make_script_def)

lemma key_hash_check:
  assumes "run C (input_program t it active) = (ec, p)"
  shows "e \<noteq> [] \<and> bitcoin_short_chunk C key = h \<and>
      check_ecdsa C key e (successor_program p (from_operations (to_pay_key_hash_pattern h))) = error_op_success \<longleftrightarrow>
    key_hash_signed C active (key_hash_sighash C t it h) h key e"
proof -
  let ?q = "successor_program p (from_operations (to_pay_key_hash_pattern h))"
  note fields = input_run_fields [OF assms]
  have "program_signature_hash C (subscript [e] ?q) (last e) ?q = Some (key_hash_sighash C t it h e)"
    using subscript_unversioned [of ?q "to_pay_key_hash_pattern h" "[e]"] fields
    by (simp add: program_signature_hash_def signature_hash_def key_hash_sighash_def sighashes_def)
  moreover have "enabled ?q bip66_rule = is_enabled active bip66_rule"
    unfolding enabled_def is_enabled_def successor_fields fields masked_rules by (simp add: and.commute)
  ultimately show ?thesis by (auto simp: check_ecdsa_success key_hash_signed_def)
qed

lemma successor_ready:
  assumes "run C (input_program t it active) = (ec, p)" "n \<le> max_counted_ops"
  shows "ready_for n (successor_program p s)"
  using assms(2) by (simp add: ready_for_def enabled_def input_run_fields [OF assms(1)] masked_rules)

lemma connect_key_hash:
  assumes "in_prevout (tx_inputs t ! it) = Some out" "out_script out = from_operations (to_pay_key_hash_pattern h)"
    and "length h = short_hash_size" "\<not> failed (interpreter_connect C ctx t it)"
  shows "\<exists>key e. input_provides C (ctx_flags ctx) t it key e \<and> key_hash_signed C (ctx_flags ctx) (key_hash_sighash C t it h) h key e"
proof -
  let ?s = "from_operations (to_pay_key_hash_pattern h)"
  obtain ec p where p: "run C (input_program t it (ctx_flags ctx)) = (ec, p)" by fastforce
  obtain ec2 r where r: "run C (successor_program p ?s) = (ec2, r)" by fastforce
  have ok: "\<not> failed ec" "\<not> failed ec2" "is_true False r"
    using assms by (auto simp: interpreter_connect_def p r Let_def split: if_splits)
  have "run_ops C 0 (to_pay_key_hash_pattern h) (successor_program p ?s) = (script_code error_script_success, r)"
    using run_not_failed(2) [OF r ok(2)] by simp
  moreover have "ready_for 5 (successor_program p ?s)" by (rule successor_ready [OF p]) (simp add: max_counted_ops_def)
  ultimately obtain k s rest where top: "prg_primary p = k # s # rest" and
    "bitcoin_short_chunk C (variant_chunk k) = h" "variant_chunk s \<noteq> []"
      "check_ecdsa C (variant_chunk k) (variant_chunk s) (successor_program p ?s) = error_op_success"
    using key_hash_success [OF _ assms(3) _ ok(3), where p = "successor_program p ?s"] unfolding successor_fields by blast
  then have "key_hash_signed C (ctx_flags ctx) (key_hash_sighash C t it h) h (variant_chunk k) (variant_chunk s)"
    using key_hash_check [OF p] by blast
  moreover have "input_provides C (ctx_flags ctx) t it (variant_chunk k) (variant_chunk s)"
    using run_success_code [OF p ok(1)] by (simp add: input_provides_def p top)
  ultimately show ?thesis by blast
qed

section \<open>Connected blocks\<close>

lemma connect_inputs_ok: "\<not> failed (connect_inputs C ctx t its) \<longleftrightarrow> (\<forall>it \<in> set its. \<not> failed (connect_input C ctx t it))"
  by (induction its) (auto simp: Let_def)

lemma connect_each_ok: "\<not> failed (connect_each C ctx txs) \<longleftrightarrow> (\<forall>t \<in> set txs. \<not> failed (transaction_connect C ctx t))"
  by (induction txs) (auto simp: Let_def)

lemma block_connect_ok:
  "\<not> failed (block_connect C ctx b) \<longleftrightarrow> (\<forall>t \<in> set (tl (blk_txs b)). \<not> tx_is_coinbase t \<longrightarrow>
    (\<forall>it < length (tx_inputs t). in_prevout (tx_inputs t ! it) \<noteq> None \<and> \<not> failed (interpreter_connect C ctx t it)))"
  by (auto simp: block_connect_def connect_each_ok transaction_connect_def connect_inputs_ok connect_input_def)

section \<open>Spending\<close>

lemma step_runs:
  assumes "ready_for (Suc n) p" "\<not> operation_is_oversized op" "run_op C index op (counted op p) = (error_op_success, q)"
    and "\<not> is_stack_overflow q"
  shows "run_ops C index (op # ops) p = run_ops C (index + 1) ops q"
  using assms(3,4) by (simp add: ready_step(1) [OF assms(1,2)])

lemma ready_next:
  assumes "ready_for (Suc n) p" "\<not> operation_is_oversized op"
  shows "ready_for n ((counted op p)\<lparr>prg_primary := xs\<rparr>)"
  using ready_step(2) [OF assms] by simp

lemma overflow_counted: "is_stack_overflow ((counted op p)\<lparr>prg_primary := xs\<rparr>) \<longleftrightarrow>
    length xs + length (prg_alternate p) > max_unified_stack_size"
  by (simp add: is_stack_overflow_def stack_size_def)

lemma key_hash_accepts:
  assumes "ready_for 5 p" "length h = short_hash_size" "prg_primary p = k # s # rest"
    and "bitcoin_short_chunk C (variant_chunk k) = h" "variant_chunk s \<noteq> []"
    and "check_ecdsa C (variant_chunk k) (variant_chunk s) p = error_op_success"
    and "length rest + length (prg_alternate p) + 4 \<le> max_unified_stack_size"
  shows "\<exists>r. run_ops C 0 (to_pay_key_hash_pattern h) p = (script_code error_script_success, r) \<and>
    prg_primary r = Vbool True # rest"
proof -
  let ?dup = "op_of_code opcode_dup" and ?hash = "op_of_code opcode_hash160" and ?push = "from_push_data h False"
    and ?eq = "op_of_code opcode_equalverify" and ?sig = "op_of_code opcode_checksig"
  have h: "0 < length h" "length h \<le> 75" using assms(2) by (simp_all add: short_hash_size_def)
  define p1 where "p1 = (counted ?dup p)\<lparr>prg_primary := k # k # s # rest\<rparr>"
  define p2 where "p2 = (counted ?hash p1)\<lparr>prg_primary := Vchunk h # k # s # rest\<rparr>"
  define p3 where "p3 = (counted ?push p2)\<lparr>prg_primary := Vchunk h # Vchunk h # k # s # rest\<rparr>"
  define p4 where "p4 = (counted ?eq p3)\<lparr>prg_primary := k # s # rest\<rparr>"
  define p5 where "p5 = (counted ?sig p4)\<lparr>prg_primary := Vbool True # rest\<rparr>"
  note states = p1_def p2_def p3_def p4_def p5_def
  have r5: "ready_for (Suc 4) p" using assms(1) by (simp add: eval_nat_numeral)
  have r4: "ready_for (Suc 3) p1" unfolding p1_def using ready_next [OF r5 op_of_code_size] by (simp add: eval_nat_numeral)
  have r3: "ready_for (Suc 2) p2" unfolding p2_def using ready_next [OF r4 op_of_code_size] by (simp add: eval_nat_numeral)
  have r2: "ready_for (Suc 1) p3" unfolding p3_def using ready_next [OF r3 run_op_push(2) [OF h]] by (simp add: eval_nat_numeral)
  have r1: "ready_for (Suc 0) p4" unfolding p4_def using ready_next [OF r2 op_of_code_size] by simp
  have small: "\<not> is_stack_overflow p1" "\<not> is_stack_overflow p2" "\<not> is_stack_overflow p3" "\<not> is_stack_overflow p4"
      "\<not> is_stack_overflow p5"
    using assms(7) by (simp_all add: states overflow_counted)
  have o1: "op_dup (counted ?dup p) = (error_op_success, p1)" using assms(3) by (simp add: op_dup_success p1_def)
  have o2: "op_hash160 C (counted ?hash p1) = (error_op_success, p2)"
    using assms(4) by (simp add: op_hash160_success p2_def p1_def)
  have o3: "run_op C 2 ?push (counted ?push p2) = (error_op_success, p3)"
    by (simp add: run_op_push(1) [OF h] p3_def p2_def)
  have o4: "op_equal_verify (counted ?eq p3) = (error_op_success, p4)" by (simp add: op_equal_verify_success p4_def p3_def)
  have same: "check_ecdsa C (variant_chunk k) (variant_chunk s) ((counted ?sig p4)\<lparr>prg_primary := rest\<rparr>) =
      check_ecdsa C (variant_chunk k) (variant_chunk s) p"
    by (rule check_ecdsa_same) (simp_all add: states)
  have o5: "op_check_sig C (counted ?sig p4) = (error_op_success, p5)"
    unfolding p5_def by (rule op_check_sig_passes) (use r1 assms(5,6) same in \<open>simp_all add: p4_def ready_for_def\<close>)
  have "run_ops C 0 (to_pay_key_hash_pattern h) p = run_ops C 5 [] p5"
    using step_runs [OF r5 op_of_code_size _ small(1)] o1 step_runs [OF r4 op_of_code_size _ small(2)] o2
      step_runs [OF r3 run_op_push(2) [OF h] o3 small(3)] step_runs [OF r2 op_of_code_size _ small(4)] o4
      step_runs [OF r1 op_of_code_size _ small(5)] o5
    by (simp add: to_pay_key_hash_pattern_def run_op_codes eval_nat_numeral)
  moreover have "is_balanced p5" using r1 by (simp add: is_balanced_def p5_def ready_for_def)
  ultimately show ?thesis by (simp add: p5_def)
qed

text \<open>A script of valid operations of the usual size starts to run.\<close>

lemma initialize_operations:
  assumes "\<not> enabled p bip342_rule" "prg_witness p = None" "prg_script p = from_operations ops"
    and "\<not> list_ex (\<lambda>op. is_invalid (op_code op)) ops" "length (concat (map operation_to_data ops)) \<le> max_script_size"
  shows "initialize p = error_script_success"
  using assms by (simp add: initialize_def script_is_underflow_def script_is_oversized_def from_operations_def
      ops_serialized_size_length Let_def) (simp add: make_script_def)

lemma push_operation:
  assumes "0 < length d" "length d \<le> 75"
  shows "\<not> is_invalid (op_code (from_push_data d False))" "length (operation_to_data (from_push_data d False)) = length d + 1"
proof -
  have d: "d \<noteq> []" using assms by auto
  have code: "op_code (from_push_data d False) = word_of_nat (length d)"
    using d assms(2) by (simp add: opcode_from_size_def)
  have unat: "unat (word_of_nat (length d) :: byte) = length d"
    using assms(2) by (simp add: unat_of_nat)
  show "\<not> is_invalid (op_code (from_push_data d False))"
    unfolding code is_invalid_def using assms unat by (auto simp: word_unat_eq_iff)
  show "length (operation_to_data (from_push_data d False)) = length d + 1"
    using assms unat by (simp add: length_operation_to_data operation_serialized_size_def nominal_push_size code word_unat_eq_iff)
      (simp add: from_push_data_def Let_def)
qed

lemma code_operation: "opcode_push_four_size < code \<Longrightarrow> length (operation_to_data (op_of_code code)) = 1"
  by (auto simp: length_operation_to_data operation_serialized_size_def op_of_code_def data_size_def get_data_def)

text \<open>Operations that only push a value, in a script of their own.\<close>

definition pushes :: "crypto \<Rightarrow> operation \<Rightarrow> stack_variant \<Rightarrow> bool" where
  "pushes C op v \<longleftrightarrow> \<not> operation_is_oversized op \<and> \<not> is_invalid (op_code op) \<and> length (operation_to_data op) \<le> 76 \<and>
     (\<forall>index p. run_op C index op p = (error_op_success, p\<lparr>prg_primary := v # prg_primary p\<rparr>))"

lemma pushes_data: "0 < length d \<Longrightarrow> length d \<le> 75 \<Longrightarrow> pushes C (from_push_data d False) (Vchunk d)"
  unfolding pushes_def using run_op_push push_operation by force

lemma pushes_zero: "pushes C (op_of_code opcode_push_size_0) (Vint 0)"
  by (simp add: pushes_def length_operation_to_data operation_serialized_size_def data_size_def get_data_def is_invalid_def
      run_op_def op_push_number_def push_signed64_def push_variant_def)
    (simp add: op_of_code_def)

lemma run_pushes:
  assumes "list_all2 (pushes C) ops vs" "ready_for (length ops) p"
    and "length ops + length (prg_primary p) + length (prg_alternate p) \<le> max_unified_stack_size"
  shows "\<exists>r. run_ops C index ops p = (script_code error_script_success, r) \<and> prg_primary r = rev vs @ prg_primary p"
  using assms
proof (induction ops vs arbitrary: index p rule: list_all2_induct)
  case Nil
  then show ?case by (simp add: is_balanced_def ready_for_def)
next
  case (Cons op ops v vs)
  define q where "q = (counted op p)\<lparr>prg_primary := v # prg_primary p\<rparr>"
  have op: "\<not> operation_is_oversized op" "run_op C index op (counted op p) = (error_op_success, q)"
    using Cons.hyps(1) by (simp_all add: pushes_def q_def)
  have "\<not> is_stack_overflow q" using Cons.prems(2) by (simp add: q_def overflow_counted)
  then have "run_ops C index (op # ops) p = run_ops C (index + 1) ops q"
    using step_runs [OF _ op] Cons.prems(1) by simp
  moreover have "ready_for (length ops) q" using ready_next [OF _ op(1)] Cons.prems(1) by (simp add: q_def)
  ultimately show ?case using Cons.IH [of q "index + 1"] Cons.prems(2) by (simp add: q_def)
qed

lemma run_pushes_script:
  assumes "list_all2 (pushes C) ops vs" "ready_for (length ops) p" "prg_primary p = []" "prg_alternate p = []"
    and "prg_witness p = None" "prg_script p = from_operations ops" "length ops \<le> 100"
  shows "\<exists>r. run C p = (script_code error_script_success, r) \<and> prg_primary r = rev vs"
proof -
  have "\<forall>op \<in> set ops. \<not> is_invalid (op_code op) \<and> length (operation_to_data op) \<le> 76"
    using assms(1) by (auto simp: pushes_def list_all2_conv_all_nth in_set_conv_nth)
  moreover from this have "sum_list (map (length \<circ> operation_to_data) ops) \<le> sum_list (map (\<lambda>_. 76) ops)"
    by (intro sum_list_mono) auto
  ultimately have "initialize p = error_script_success"
    using assms(2,7) by (intro initialize_operations [OF _ assms(5,6)])
      (auto simp: list_ex_iff ready_for_def length_concat comp_def max_script_size_def sum_list_triv)
  moreover obtain r where "run_ops C 0 ops p = (script_code error_script_success, r)" "prg_primary r = rev vs"
    using run_pushes [OF assms(1,2)] assms(3,4,7) by (auto simp: max_unified_stack_size_def)
  ultimately show ?thesis using assms(6) by (simp add: run_def)
qed

lemma key_hash_starts:
  assumes "length h = short_hash_size" "\<not> enabled p bip342_rule" "prg_witness p = None"
    and "prg_script p = from_operations (to_pay_key_hash_pattern h)"
  shows "initialize p = error_script_success"
proof -
  have h: "0 < length h" "length h \<le> 75" using assms(1) by (simp_all add: short_hash_size_def)
  have valid: "\<not> list_ex (\<lambda>op. is_invalid (op_code op)) (to_pay_key_hash_pattern h)"
    using push_operation(1) [OF h] by (simp add: to_pay_key_hash_pattern_def) (simp add: is_invalid_def)
  have "length (concat (map operation_to_data (to_pay_key_hash_pattern h))) \<le> max_script_size"
    using push_operation(2) [OF h] h by (simp add: to_pay_key_hash_pattern_def code_operation max_script_size_def)
  from initialize_operations [OF assms(2-4) valid this] show ?thesis .
qed

text \<open>An output that is neither a script hash nor a witness program is judged by its script alone.\<close>

lemma connect_plain:
  assumes "in_prevout (tx_inputs t ! it) = Some out" "wit_stack (in_witness (tx_inputs t ! it)) = []"
    and "\<not> is_pay_script_hash_pattern (script_ops (out_script out)) \<and> \<not> is_pay_witness_pattern (script_ops (out_script out))"
    and "run C (input_program t it (ctx_flags ctx)) = (script_code error_script_success, p)"
    and "run C (successor_program p (out_script out)) = (ec, r)"
  shows "\<not> failed (interpreter_connect C ctx t it) \<longleftrightarrow> \<not> failed ec \<and> is_true False r"
  using assms by (simp add: interpreter_connect_def is_pay_to_script_hash_def is_pay_to_witness_def Let_def)

lemma key_hash_plain: "\<not> is_pay_script_hash_pattern (to_pay_key_hash_pattern h)" "\<not> is_pay_witness_pattern (to_pay_key_hash_pattern h)"
  by (simp_all add: is_pay_script_hash_pattern_def is_pay_witness_pattern_def to_pay_key_hash_pattern_def)

lemma connect_key_hash_exact:
  assumes "in_prevout (tx_inputs t ! it) = Some out" "out_script out = from_operations (to_pay_key_hash_pattern h)"
    and "length h = short_hash_size"
    and "in_script (tx_inputs t ! it) = from_operations [from_push_data e False, from_push_data key False]"
    and "wit_stack (in_witness (tx_inputs t ! it)) = []"
    and "0 < length e" "length e \<le> 75" "0 < length key" "length key \<le> 75"
  shows "\<not> failed (interpreter_connect C ctx t it) \<longleftrightarrow>
    key_hash_signed C (ctx_flags ctx) (key_hash_sighash C t it h) h key e"
proof -
  let ?s = "from_operations (to_pay_key_hash_pattern h)" and ?p = "input_program t it (ctx_flags ctx)"
  have in_prg: "ready_for 2 ?p" "prg_primary ?p = []" "prg_alternate ?p = []" "prg_witness ?p = None"
      "prg_script ?p = from_operations [from_push_data e False, from_push_data key False]"
    using assms(4) by (simp_all add: input_program_def new_program_def ready_for_def enabled_def masked_rules max_counted_ops_def)
  obtain p where p: "run C ?p = (script_code error_script_success, p)" "prg_primary p = [Vchunk key, Vchunk e]"
    using run_pushes_script [where ops = "[from_push_data e False, from_push_data key False]" and vs = "[Vchunk e, Vchunk key]"
        and p = ?p and C = C] in_prg pushes_data [of e] pushes_data [of key] assms(6-9) by (auto simp: numeral_2_eq_2)
  obtain ec r where r: "run C (successor_program p ?s) = (ec, r)" by fastforce
  have ready: "ready_for 5 (successor_program p ?s)" by (rule successor_ready [OF p(1)]) (simp add: max_counted_ops_def)
  have "initialize (successor_program p ?s) = error_script_success"
    by (rule key_hash_starts [OF assms(3)]) (use ready in \<open>simp_all add: ready_for_def\<close>)
  then have run: "run_ops C 0 (to_pay_key_hash_pattern h) (successor_program p ?s) = (ec, r)" using r by (simp add: run_def)
  have connect: "\<not> failed (interpreter_connect C ctx t it) \<longleftrightarrow> \<not> failed ec \<and> is_true False r"
    using connect_plain [OF assms(1,5) _ p(1)] assms(2) r by (simp add: key_hash_plain)
  show ?thesis
  proof
    assume "\<not> failed (interpreter_connect C ctx t it)"
    with connect have ok: "\<not> failed ec" "is_true False r" by blast+
    with run_ops_not_failed [of C 0 "to_pay_key_hash_pattern h" "successor_program p ?s"] run
    have "run_ops C 0 (to_pay_key_hash_pattern h) (successor_program p ?s) = (script_code error_script_success, r)" by simp
    from key_hash_success [OF ready assms(3) this ok(2)] p(2)
    have "bitcoin_short_chunk C key = h" "e \<noteq> []"
        "check_ecdsa C key e (successor_program p ?s) = error_op_success" by auto
    then show "key_hash_signed C (ctx_flags ctx) (key_hash_sighash C t it h) h key e" using key_hash_check [OF p(1)] by blast
  next
    assume "key_hash_signed C (ctx_flags ctx) (key_hash_sighash C t it h) h key e"
    then have "e \<noteq> []" "bitcoin_short_chunk C key = h" "check_ecdsa C key e (successor_program p ?s) = error_op_success"
      using key_hash_check [OF p(1), of e key h] by blast+
    then obtain q where "run_ops C 0 (to_pay_key_hash_pattern h) (successor_program p ?s) = (script_code error_script_success, q)"
        "prg_primary q = [Vbool True]"
      using key_hash_accepts [OF ready assms(3), of "Vchunk key" "Vchunk e" "[]" C] p(2)
      by (auto simp: max_unified_stack_size_def)
    with run connect show "\<not> failed (interpreter_connect C ctx t it)"
      by (auto simp: is_true_def is_stack_empty_def peek_bool_top_def peek_top_def)
  qed
qed

section \<open>Theorems\<close>

text \<open>
  C4. In a block that connects, every input that spends an output to a key hash, whatever its own
  script is, carries a signature of a key with that hash: that script runs without failure and leaves
  at the top of the stack a key with the hash and next to it an endorsement that decodes under the
  active rules and verifies for this key over the signature hash of this transaction and input.
\<close>

theorem block_key_hash_spends_signed:
  assumes "\<not> failed (block_connect C ctx b)" "t \<in> set (tl (blk_txs b))" "\<not> tx_is_coinbase t"
    and "it < length (tx_inputs t)" "in_prevout (tx_inputs t ! it) = Some out"
    and "out_script out = from_operations (to_pay_key_hash_pattern h)" "length h = short_hash_size"
  shows "\<exists>key e. input_provides C (ctx_flags ctx) t it key e \<and>
    key_hash_signed C (ctx_flags ctx) (key_hash_sighash C t it h) h key e"
proof -
  have "\<not> failed (interpreter_connect C ctx t it)" using assms(1-4) block_connect_ok by blast
  then show ?thesis using connect_key_hash [OF assms(5-7)] by blast
qed

text \<open>
  C13. The usual input script, which pushes an endorsement and a key, spends an output to a key hash
  exactly when the endorsement is a signature of that key and the key has that hash: the owner can
  always spend, and nobody else.
\<close>

theorem key_hash_spend_exact:
  assumes "in_prevout (tx_inputs t ! it) = Some out" "out_script out = from_operations (to_pay_key_hash_pattern h)"
    and "length h = short_hash_size"
    and "in_script (tx_inputs t ! it) = from_operations [from_push_data e False, from_push_data key False]"
    and "wit_stack (in_witness (tx_inputs t ! it)) = []"
    and "0 < length e" "length e \<le> 75" "0 < length key" "length key \<le> 75"
  shows "\<not> failed (interpreter_connect C ctx t it) \<longleftrightarrow>
    key_hash_signed C (ctx_flags ctx) (key_hash_sighash C t it h) h key e"
  by (rule connect_key_hash_exact [OF assms])

text \<open>A transaction that spends an output to the key hash of the stand-in hash, and its block.\<close>

definition example_key_hash :: data_chunk where "example_key_hash = replicate 20 0"

definition example_spend :: transaction where
  "example_spend = make_transaction 2
     [(make_input (make_point (replicate 32 1) 7)
        (from_operations [from_push_data [2, 1] False, from_push_data [2] False]) (witness_of_stack []) 9 True)
        \<lparr>in_prevout := Some (make_output 9 (from_operations (to_pay_key_hash_pattern example_key_hash)) True)\<rparr>]
     [make_output 1000 (from_operations []) True] 0 True True"

definition example_context :: chain_context where
  "example_context = \<lparr>ctx_flags = 0, ctx_timestamp = 0, ctx_median_time_past = 0, ctx_height = 0,
     ctx_minimum_block_version = 0, ctx_work_required = 0, ctx_previous_timestamp = 0\<rparr>"

lemma example_spend_input:
  "tx_inputs example_spend = [tx_inputs example_spend ! 0]"
  "in_prevout (tx_inputs example_spend ! 0) = Some (make_output 9 (from_operations (to_pay_key_hash_pattern example_key_hash)) True)"
  "in_script (tx_inputs example_spend ! 0) = from_operations [from_push_data [2, 1] False, from_push_data [2] False]"
  "wit_stack (in_witness (tx_inputs example_spend ! 0)) = []"
  "\<not> tx_is_coinbase example_spend"
  by (simp_all add: example_spend_def make_transaction_def make_input_def make_point_def witness_of_stack_def
      make_witness_def tx_is_coinbase_def is_null_def null_hash_def)

lemma example_spend_signed:
  "key_hash_signed example_crypto (ctx_flags example_context) sighash example_key_hash [2] [2, 1]"
  by (simp add: key_hash_signed_def example_crypto_def example_key_hash_def)

lemma out_script_make [simp]: "out_script (make_output v s valid) = s"
  by (simp add: make_output_def)

theorem key_hash_spend_exact_witness:
  "\<not> failed (interpreter_connect example_crypto example_context example_spend 0)"
  using key_hash_spend_exact [OF example_spend_input(2) out_script_make _ example_spend_input(3,4), of example_crypto example_context]
    example_spend_signed
  by (simp add: example_key_hash_def short_hash_size_def)

theorem block_key_hash_spends_signed_witness:
  "\<not> failed (block_connect example_crypto example_context (make_block example_header [example_transaction, example_spend] True)) \<and>
   (\<exists>key e. input_provides example_crypto 0 example_spend 0 key e \<and>
     key_hash_signed example_crypto 0 (key_hash_sighash example_crypto example_spend 0 example_key_hash)
     example_key_hash key e)"
proof -
  let ?b = "make_block example_header [example_transaction, example_spend] True"
  have size: "length example_key_hash = short_hash_size" by (simp add: example_key_hash_def short_hash_size_def)
  have txs: "tl (blk_txs ?b) = [example_spend]" by (simp add: make_block_def)
  have one: "length (tx_inputs example_spend) = 1" using example_spend_input(1) by (metis length_Cons list.size(3) One_nat_def)
  have "\<not> failed (interpreter_connect example_crypto example_context example_spend 0)"
    using connect_key_hash_exact [OF example_spend_input(2) out_script_make size example_spend_input(3,4)] example_spend_signed by simp
  then have connects: "\<not> failed (block_connect example_crypto example_context ?b)"
    using one example_spend_input(2) by (simp add: block_connect_ok txs)
  have "ctx_flags example_context = 0" by (simp add: example_context_def)
  with block_key_hash_spends_signed [OF connects, of example_spend 0] connects one example_spend_input(2,5) size
  show ?thesis by (simp add: txs)
qed

end
