(* ===== verification/SegwitSpends.thy ===== *)
theory SegwitSpends
  imports Payments
begin

text \<open>
  Spending an output to a witness key hash: the witness alone decides, and the signature commits to
  the value that is spent. The last section shows that the pop of the embedded script, which the
  source does not guard, meets a stack that is not empty.
\<close>

section \<open>Witness programs on the stack\<close>

lemma run_empty_script:
  assumes "\<not> enabled p bip342_rule" "prg_witness p = None" "prg_script p = from_operations []" "prg_condition p = []"
  shows "run C p = (script_code error_script_success, p)"
  using initialize_operations [OF assms(1-3)] assms(3,4) by (simp add: run_def is_balanced_def)

lemma key_hash_program:
  assumes "length h = short_hash_size"
  shows "is_pay_witness_pattern (to_pay_witness_key_hash_pattern h)"
    "\<not> is_pay_script_hash_pattern (to_pay_witness_key_hash_pattern h)"
    "to_pay_witness_key_hash_pattern h = [op_of_code opcode_push_size_0, from_push_data h False]"
    "witness_program (from_operations (to_pay_witness_key_hash_pattern h)) = h"
    "script_version_of (from_operations (to_pay_witness_key_hash_pattern h)) = segwit"
proof -
  show ops: "to_pay_witness_key_hash_pattern h = [op_of_code opcode_push_size_0, from_push_data h False]"
    by (simp add: to_pay_witness_key_hash_pattern_def to_pay_witness_pattern_def opcode_from_nonnegative_def)
  have d: "h \<noteq> []" using assms by (auto simp: short_hash_size_def)
  have code: "op_code (from_push_data h False) = 20" "get_data (from_push_data h False) = h"
    using d assms by (simp_all add: opcode_from_size_def short_hash_size_def)
  have size: "data_size (from_push_data h False) = 20" using assms by (simp add: nominal_push_size short_hash_size_def)
  have "minimal_opcode_from_data h = 20"
    using assms by (simp add: minimal_opcode_from_data_def opcode_from_size_def short_hash_size_def)
  then have minimal: "is_minimal_push (from_push_data h False)" by (simp add: is_minimal_push_def is_payload_def code)
  show pattern: "is_pay_witness_pattern (to_pay_witness_key_hash_pattern h)"
    using minimal size by (simp add: ops is_pay_witness_pattern_def is_nonnegative_def min_witness_program_def
        max_witness_program_def)
  show "\<not> is_pay_script_hash_pattern (to_pay_witness_key_hash_pattern h)"
    by (simp add: ops is_pay_script_hash_pattern_def)
  show "witness_program (from_operations (to_pay_witness_key_hash_pattern h)) = h"
    using pattern by (simp add: witness_program_def) (simp add: ops code(2))
  show "script_version_of (from_operations (to_pay_witness_key_hash_pattern h)) = segwit"
    using pattern by (simp add: script_version_of_def version_value_def) (simp add: ops opcode_to_nonnegative_def)
qed


section \<open>Spending a witness key hash\<close>

definition witness_key_hash_sighash :: "crypto \<Rightarrow> transaction \<Rightarrow> nat \<Rightarrow> u64 \<Rightarrow> data_chunk \<Rightarrow> data_chunk \<Rightarrow> hash_digest" where
  "witness_key_hash_sighash C t it v h e = version0_sighash (sha256_chunk C) (bitcoin_chunk C) t it
     (from_operations (to_pay_key_hash_pattern h)) v (last e)"

lemma masked_bip141: "(active AND bip342_mask) AND bip141_rule = active AND bip141_rule"
  by (simp add: bip342_mask_def flag_defs and.assoc)

lemma segwit_fields:
  fixes t it active w h
  defines "q \<equiv> segwit_program t it (from_operations (to_pay_key_hash_pattern h)) active segwit w"
  shows "prg_script q = from_operations (to_pay_key_hash_pattern h)" "prg_primary q = rev (map Vchunk w)" "prg_witness q = Some w"
    "prg_alternate q = []" "ready_for 5 q" "enabled q bip66_rule = is_enabled active bip66_rule"
    "enabled q bip141_rule = is_enabled active bip141_rule"
proof -
  show "enabled q bip66_rule = is_enabled active bip66_rule" "enabled q bip141_rule = is_enabled active bip141_rule"
    unfolding q_def enabled_def is_enabled_def segwit_program_def new_program_def program.simps masked_rules masked_bip141
    by (simp_all add: and.commute)
qed (simp_all add: q_def segwit_program_def new_program_def projection_def ready_for_def enabled_def masked_rules max_counted_ops_def)

lemma segwit_check:
  fixes t it active w h
  defines "q \<equiv> segwit_program t it (from_operations (to_pay_key_hash_pattern h)) active segwit w"
  assumes "is_enabled active bip143_rule"
  shows "e \<noteq> [] \<and> bitcoin_short_chunk C key = h \<and> check_ecdsa C key e q = error_op_success \<longleftrightarrow>
    key_hash_signed C active (witness_key_hash_sighash C t it (prevout_value t it) h) h key e"
proof -
  have on: "prg_flags q AND bip143_rule \<noteq> 0"
    using assms(2) unfolding q_def segwit_program_def new_program_def program.simps masked_rules is_enabled_def
    by (simp add: and.commute)
  then have sub: "subscript [e] q = from_operations (to_pay_key_hash_pattern h)"
    by (simp add: subscript_def enabled_def) (simp add: q_def segwit_program_def new_program_def)
  have "program_signature_hash C (subscript [e] q) (last e) q =
      Some (witness_key_hash_sighash C t it (prevout_value t it) h e)"
    using on sub by (simp add: program_signature_hash_def signature_hash_def is_enabled_def and.commute)
      (simp add: q_def segwit_program_def new_program_def witness_key_hash_sighash_def sighashes_def)
  then show ?thesis using segwit_fields(6) [of t it h active w]
    by (auto simp: check_ecdsa_success key_hash_signed_def q_def)
qed

lemma segwit_starts:
  assumes "length h = short_hash_size" "\<not> enabled p bip342_rule" "enabled p bip141_rule" "prg_witness p = Some w"
    and "prg_script p = from_operations (to_pay_key_hash_pattern h)"
  shows "initialize p = error_script_success \<longleftrightarrow> is_push_size w"
proof -
  let ?q = "p\<lparr>prg_witness := None\<rparr>"
  have "initialize ?q = error_script_success"
    by (rule key_hash_starts [OF assms(1)]) (use assms in \<open>simp_all add: enabled_def\<close>)
  then show ?thesis using assms(2-5)
    by (auto simp: initialize_def Let_def enabled_def split: if_splits)
qed

lemma segwit_key_hash_run:
  fixes t it active h key e
  defines "q \<equiv> segwit_program t it (from_operations (to_pay_key_hash_pattern h)) active segwit [e, key]"
  assumes "run C q = (ec, r)" "length h = short_hash_size" "is_enabled active bip141_rule" "is_enabled active bip143_rule"
  shows "\<not> failed ec \<and> is_true True r \<longleftrightarrow> is_push_size [e, key] \<and>
    key_hash_signed C active (witness_key_hash_sighash C t it (prevout_value t it) h) h key e"
proof -
  note fields = segwit_fields [of t it h active "[e, key]", folded q_def]
  have primary: "prg_primary q = Vchunk key # Vchunk e # []" using fields(2) by simp
  note check = segwit_check [OF assms(5), of e C key h t it "[e, key]", folded q_def]
  have starts: "initialize q = error_script_success \<longleftrightarrow> is_push_size [e, key]"
    by (rule segwit_starts [OF assms(3)]) (use fields assms(4) in \<open>simp_all add: ready_for_def\<close>)
  show ?thesis
  proof
    assume ok: "\<not> failed ec \<and> is_true True r"
    then have run: "run_ops C 0 (to_pay_key_hash_pattern h) q = (script_code error_script_success, r)"
      using run_not_failed(2) [OF assms(2)] fields(1) by simp
    have "is_true False r" using ok by (simp add: is_true_def)
    from key_hash_success [OF fields(5) assms(3) run this] primary check run_not_failed(1) [OF assms(2)] ok starts
    show "is_push_size [e, key] \<and>
        key_hash_signed C active (witness_key_hash_sighash C t it (prevout_value t it) h) h key e" by auto
  next
    assume signed: "is_push_size [e, key] \<and>
        key_hash_signed C active (witness_key_hash_sighash C t it (prevout_value t it) h) h key e"
    with check obtain s where "run_ops C 0 (to_pay_key_hash_pattern h) q = (script_code error_script_success, s)"
        "prg_primary s = [Vbool True]"
      using key_hash_accepts [OF fields(5) assms(3) primary, of C] fields(4) by (auto simp: max_unified_stack_size_def)
    with signed starts assms(2) fields(1) show "\<not> failed ec \<and> is_true True r"
      by (auto simp: run_def is_true_def is_stack_empty_def is_stack_clean_def stack_size_def peek_bool_top_def peek_top_def)
  qed
qed

lemma connect_witness_key_hash:
  assumes "length h = short_hash_size" "is_enabled (ctx_flags ctx) bip141_rule" "is_enabled (ctx_flags ctx) bip143_rule"
  shows "\<not> failed (connect_witness C ctx t it (from_operations (to_pay_witness_key_hash_pattern h)) embedded) \<longleftrightarrow>
    (\<exists>e key. wit_stack (in_witness (tx_inputs t ! it)) = [e, key] \<and> is_push_size [e, key] \<and>
      key_hash_signed C (ctx_flags ctx) (witness_key_hash_sighash C t it (prevout_value t it) h) h key e)"
proof (cases "length (wit_stack (in_witness (tx_inputs t ! it))) = 2")
  case False
  then show ?thesis using assms(1) by (auto simp: connect_witness_def key_hash_program(4,5) extract_segwit_def Let_def)
next
  case True
  then obtain e key where w: "wit_stack (in_witness (tx_inputs t ! it)) = [e, key]"
    by (auto simp: length_Suc_conv numeral_2_eq_2)
  obtain ec r where r: "run C (segwit_program t it (from_operations (to_pay_key_hash_pattern h)) (ctx_flags ctx) segwit [e, key]) = (ec, r)"
    by fastforce
  then have "\<not> failed (connect_witness C ctx t it (from_operations (to_pay_witness_key_hash_pattern h)) embedded) \<longleftrightarrow>
      \<not> failed ec \<and> is_true True r"
    using assms(1) w by (auto simp: connect_witness_def key_hash_program(4,5) extract_segwit_def Let_def)
  with segwit_key_hash_run [OF r assms] w show ?thesis by simp
qed

lemma connect_witness_key_hash_exact:
  assumes "in_prevout (tx_inputs t ! it) = Some out" "out_script out = from_operations (to_pay_witness_key_hash_pattern h)"
    and "length h = short_hash_size" "boolean_from_chunk h" "in_script (tx_inputs t ! it) = from_operations []"
    and "is_enabled (ctx_flags ctx) bip141_rule" "is_enabled (ctx_flags ctx) bip143_rule"
  shows "\<not> failed (interpreter_connect C ctx t it) \<longleftrightarrow>
    (\<exists>e key. wit_stack (in_witness (tx_inputs t ! it)) = [e, key] \<and> is_push_size [e, key] \<and>
      key_hash_signed C (ctx_flags ctx) (witness_key_hash_sighash C t it (out_value out) h) h key e)"
proof -
  let ?p = "input_program t it (ctx_flags ctx)" and ?s = "from_operations (to_pay_witness_key_hash_pattern h)"
  have h: "0 < length h" "length h \<le> 75" using assms(3) by (simp_all add: short_hash_size_def)
  have p: "run C ?p = (script_code error_script_success, ?p)"
    by (rule run_empty_script) (use assms(5) in \<open>simp_all add: input_program_def new_program_def enabled_def masked_rules\<close>)
  have "prg_primary ?p = []" by (simp add: input_program_def new_program_def)
  then obtain r where r: "run C (successor_program ?p ?s) = (script_code error_script_success, r)" "prg_primary r = [Vchunk h, Vint 0]"
    using run_pushes_script [where ops = "[op_of_code opcode_push_size_0, from_push_data h False]" and vs = "[Vint 0, Vchunk h]"
        and p = "successor_program ?p ?s" and C = C] successor_ready [OF p, of 2] pushes_zero pushes_data [OF h]
    by (auto simp: key_hash_program(3) [OF assms(3)] max_counted_ops_def numeral_2_eq_2)
  then have true: "is_true False r" using assms(4) by (simp add: is_true_def is_stack_empty_def peek_bool_top_def peek_top_def)
  have v: "prevout_value t it = out_value out" using assms(1) by (simp add: prevout_value_def)
  have "\<not> failed (interpreter_connect C ctx t it) \<longleftrightarrow> \<not> failed (connect_witness C ctx t it ?s False)"
    using assms(1,2,5,6) p r(1) true key_hash_program(1,2) [OF assms(3)]
    by (simp add: interpreter_connect_def is_pay_to_script_hash_def is_pay_to_witness_def Let_def)
  with connect_witness_key_hash [OF assms(3,6,7), of C t it False] v show ?thesis by simp
qed

text \<open>
  C14. An input with an empty script spends an output to a witness key hash exactly when its witness is
  an endorsement and a key of that hash, both of at most 520 bytes, and the endorsement signs the
  version 0 signature hash, which commits to the value of the output that is spent. The hash must
  not read as false: the run of the output script leaves it on the stack as the result.
\<close>

theorem witness_key_hash_spend_exact:
  assumes "in_prevout (tx_inputs t ! it) = Some out" "out_script out = from_operations (to_pay_witness_key_hash_pattern h)"
    and "length h = short_hash_size" "boolean_from_chunk h" "in_script (tx_inputs t ! it) = from_operations []"
    and "is_enabled (ctx_flags ctx) bip141_rule" "is_enabled (ctx_flags ctx) bip143_rule"
  shows "\<not> failed (interpreter_connect C ctx t it) \<longleftrightarrow>
    (\<exists>e key. wit_stack (in_witness (tx_inputs t ! it)) = [e, key] \<and> is_push_size [e, key] \<and>
      key_hash_signed C (ctx_flags ctx) (witness_key_hash_sighash C t it (out_value out) h) h key e)"
  by (rule connect_witness_key_hash_exact [OF assms])

definition example_segwit_spend :: transaction where
  "example_segwit_spend = make_transaction 2
     [(make_input (make_point (replicate 32 1) 7) (from_operations []) (witness_of_stack [[2, 1], [2]]) 9 True)
        \<lparr>in_prevout := Some (make_output 9 (from_operations (to_pay_witness_key_hash_pattern (replicate 20 1))) True)\<rparr>]
     [make_output 1000 (from_operations []) True] 0 True True"

lemma example_segwit_input:
  "in_prevout (tx_inputs example_segwit_spend ! 0) =
    Some (make_output 9 (from_operations (to_pay_witness_key_hash_pattern (replicate 20 1))) True)"
  "in_script (tx_inputs example_segwit_spend ! 0) = from_operations []"
  "wit_stack (in_witness (tx_inputs example_segwit_spend ! 0)) = [[2, 1], [2]]"
  by (simp_all add: example_segwit_spend_def make_transaction_def make_input_def witness_of_stack_def make_witness_def)

theorem witness_key_hash_spend_exact_witness:
  "\<not> failed (interpreter_connect (example_crypto\<lparr>bitcoin_short_chunk := \<lambda>_. replicate 20 1\<rparr>)
     (example_context\<lparr>ctx_flags := bip141_rule OR bip143_rule\<rparr>) example_segwit_spend 0)"
proof -
  let ?ctx = "example_context\<lparr>ctx_flags := bip141_rule OR bip143_rule\<rparr>"
  have on: "is_enabled (ctx_flags ?ctx) bip141_rule" "is_enabled (ctx_flags ?ctx) bip143_rule"
    by (simp_all add: is_enabled_def flag_defs)
  have h: "length (replicate 20 1 :: data_chunk) = short_hash_size" "boolean_from_chunk (replicate 20 1)"
    by (simp_all add: short_hash_size_def boolean_from_chunk_def is_sign_byte_def positive_sign_byte_def negative_sign_byte_def)
  show ?thesis
    using witness_key_hash_spend_exact [OF example_segwit_input(1) out_script_make h example_segwit_input(2) on]
    by (simp add: example_segwit_input(3) key_hash_signed_def example_crypto_def is_push_size_def max_push_data_size_def)
qed

section \<open>Embedded scripts\<close>

lemma op_equal_success:
  "op_equal p = (error_op_success, q) \<longleftrightarrow> (\<exists>a b xs. prg_primary p = a # b # xs \<and>
    q = p\<lparr>prg_primary := Vbool (variant_chunk a = variant_chunk b) # xs\<rparr>)"
proof (cases "stack_size p < 2")
  case True
  then have "\<nexists>a b xs. prg_primary p = a # b # xs" using stack_two by blast
  then show ?thesis using True by (auto simp: op_equal_def)
next
  case False
  then obtain a b xs where "prg_primary p = a # b # xs" using stack_two by blast
  then show ?thesis using False
    by (auto simp: op_equal_def pop_top_def peek_top_def drop_top_def equal_chunks_iff push_bool_def push_variant_def)
qed

lemma script_hash_success:
  assumes "ready_for 3 p" "length h = short_hash_size"
    and "run_ops C 0 (to_pay_script_hash_pattern h) p = (script_code error_script_success, r)" "is_true False r"
  shows "\<exists>v rest. prg_primary p = v # rest \<and> bitcoin_short_chunk C (variant_chunk v) = h"
proof -
  let ?hash = "op_of_code opcode_hash160" and ?push = "from_push_data h False" and ?eq = "op_of_code opcode_equal"
  have push: "0 < length h" "length h \<le> 75" using assms(2) by (simp_all add: short_hash_size_def)
  have r3: "ready_for (Suc 2) p" using assms(1) by (simp add: eval_nat_numeral)
  obtain p1 where p1: "op_hash160 C (counted ?hash p) = (error_op_success, p1)"
      "run_ops C (0 + 1) [?push, ?eq] p1 = (script_code error_script_success, r)"
    using assms(3) step_success [OF r3, of ?hash] by (auto simp: to_pay_script_hash_pattern_def run_op_codes)
  obtain v xs where v: "prg_primary p = v # xs"
    and e1: "p1 = (counted ?hash p)\<lparr>prg_primary := Vchunk (bitcoin_short_chunk C (variant_chunk v)) # xs\<rparr>"
    using p1(1) by (auto simp: op_hash160_success)
  have r2: "ready_for (Suc 1) p1" using ready_next [OF r3 op_of_code_size] by (simp add: e1 eval_nat_numeral)
  obtain p2 where p2: "p2 = (counted ?push p1)\<lparr>prg_primary := Vchunk h # prg_primary p1\<rparr>"
      "run_ops C (0 + 1 + 1) [?eq] p2 = (script_code error_script_success, r)"
    using p1(2) step_success [OF r2 run_op_push(2) [OF push], of C] by (auto simp: run_op_push(1) [OF push])
  have r1: "ready_for (Suc 0) p2" using ready_next [OF r2 run_op_push(2) [OF push]] by (simp add: p2(1))
  obtain p3 where p3: "op_equal (counted ?eq p2) = (error_op_success, p3)"
      "run_ops C (0 + 1 + 1 + 1) [] p3 = (script_code error_script_success, r)"
    using p2(2) step_success [OF r1, of ?eq] by (auto simp: run_op_codes)
  have "r = p3" using p3(2) by (auto split: if_splits)
  with p3(1) assms(4) v show ?thesis
    by (auto simp: op_equal_success p2(1) e1 is_true_def peek_bool_top_def peek_top_def)
qed

text \<open>
  C15. An accepted spend of an output to a script hash under the embedding rule reveals the script: the
  input script only pushes, the pop of its top element, which the source does not guard, finds one,
  its bytes have the hash, and the script that they parse to ran to a true result on the rest of
  the stack.
\<close>

theorem script_hash_spend_reveals:
  assumes "in_prevout (tx_inputs t ! it) = Some out" "out_script out = from_operations (to_pay_script_hash_pattern h)"
    and "length h = short_hash_size" "is_enabled (ctx_flags ctx) bip16_rule" "\<not> failed (interpreter_connect C ctx t it)"
  shows "\<exists>p v rest r. run C (input_program t it (ctx_flags ctx)) = (script_code error_script_success, p) \<and>
    is_relaxed_push_pattern (script_ops (in_script (tx_inputs t ! it))) \<and> prg_primary p = v # rest \<and>
    bitcoin_short_chunk C (variant_chunk v) = h \<and>
    run C (successor_program (p\<lparr>prg_primary := rest\<rparr>) (script_of_bytes (variant_chunk v))) = (script_code error_script_success, r) \<and>
    is_true False r"
proof -
  let ?s = "from_operations (to_pay_script_hash_pattern h)"
  obtain ec p where p: "run C (input_program t it (ctx_flags ctx)) = (ec, p)" by fastforce
  obtain ec2 q where q: "run C (successor_program p ?s) = (ec2, q)" by fastforce
  have ne: "h \<noteq> []" using assms(3) by (auto simp: short_hash_size_def)
  have "is_pay_to_script_hash ?s (ctx_flags ctx)"
    using assms(3,4) ne by (simp add: is_pay_to_script_hash_def is_pay_script_hash_pattern_def to_pay_script_hash_pattern_def
        opcode_from_size_def short_hash_size_def)
  with assms(1,2,5) p q have ok: "\<not> failed ec" "\<not> failed ec2" "is_true False q" "\<not> failed (connect_embedded C ctx t it p)"
    by (auto simp: interpreter_connect_def Let_def split: if_splits)
  have "ready_for 3 (successor_program p ?s)" by (rule successor_ready [OF p]) (simp add: max_counted_ops_def)
  moreover have "run_ops C 0 (to_pay_script_hash_pattern h) (successor_program p ?s) = (script_code error_script_success, q)"
    using run_not_failed(2) [OF q ok(2)] by simp
  ultimately obtain v rest where v: "prg_primary p = v # rest" "bitcoin_short_chunk C (variant_chunk v) = h"
    using script_hash_success [OF _ assms(3) _ ok(3)] by fastforce
  obtain ec3 r where r: "run C (successor_program (p\<lparr>prg_primary := rest\<rparr>) (script_of_bytes (variant_chunk v))) = (ec3, r)" by fastforce
  have "is_relaxed_push_pattern (script_ops (in_script (tx_inputs t ! it)))" "\<not> failed ec3" "is_true False r"
    using ok(4) v(1) r
    by (auto simp: connect_embedded_def program_pop_def pop_chunk_top_def peek_top_def drop_top_def Let_def split: if_splits)
  moreover have "ec = script_code error_script_success" "ec3 = script_code error_script_success"
    using run_success_code p ok(1) r calculation(2) by metis+
  ultimately show ?thesis using p v r by blast
qed

text \<open>An input that reveals the empty script, over an element that is true.\<close>

definition example_embedded_spend :: transaction where
  "example_embedded_spend = make_transaction 2
     [(make_input (make_point (replicate 32 1) 7)
        (from_operations [from_push_data [1] False, op_of_code opcode_push_size_0]) (witness_of_stack []) 9 True)
        \<lparr>in_prevout := Some (make_output 9 (from_operations (to_pay_script_hash_pattern example_key_hash)) True)\<rparr>]
     [make_output 1000 (from_operations []) True] 0 True True"

lemma example_embedded_input:
  "in_prevout (tx_inputs example_embedded_spend ! 0) =
    Some (make_output 9 (from_operations (to_pay_script_hash_pattern example_key_hash)) True)"
  "in_script (tx_inputs example_embedded_spend ! 0) = from_operations [from_push_data [1] False, op_of_code opcode_push_size_0]"
  "wit_stack (in_witness (tx_inputs example_embedded_spend ! 0)) = []"
  by (simp_all add: example_embedded_spend_def make_transaction_def make_input_def witness_of_stack_def make_witness_def)
lemma script_hash_accepts:
  assumes "ready_for 3 p" "length h = short_hash_size" "prg_primary p = v # rest" "bitcoin_short_chunk C (variant_chunk v) = h"
    and "length rest + length (prg_alternate p) + 2 \<le> max_unified_stack_size"
  shows "\<exists>r. run_ops C 0 (to_pay_script_hash_pattern h) p = (script_code error_script_success, r) \<and>
    prg_primary r = Vbool True # rest"
proof -
  let ?hash = "op_of_code opcode_hash160" and ?push = "from_push_data h False" and ?eq = "op_of_code opcode_equal"
  have h: "0 < length h" "length h \<le> 75" using assms(2) by (simp_all add: short_hash_size_def)
  define p1 where "p1 = (counted ?hash p)\<lparr>prg_primary := Vchunk h # rest\<rparr>"
  define p2 where "p2 = (counted ?push p1)\<lparr>prg_primary := Vchunk h # Vchunk h # rest\<rparr>"
  define p3 where "p3 = (counted ?eq p2)\<lparr>prg_primary := Vbool True # rest\<rparr>"
  have r3: "ready_for (Suc 2) p" using assms(1) by (simp add: eval_nat_numeral)
  have r2: "ready_for (Suc 1) p1" unfolding p1_def using ready_next [OF r3 op_of_code_size] by (simp add: eval_nat_numeral)
  have r1: "ready_for (Suc 0) p2" unfolding p2_def using ready_next [OF r2 run_op_push(2) [OF h]] by simp
  have small: "\<not> is_stack_overflow p1" "\<not> is_stack_overflow p2" "\<not> is_stack_overflow p3"
    using assms(5) by (simp_all add: p1_def p2_def p3_def overflow_counted)
  have o1: "op_hash160 C (counted ?hash p) = (error_op_success, p1)" using assms(3,4) by (simp add: op_hash160_success p1_def)
  have o2: "run_op C 1 ?push (counted ?push p1) = (error_op_success, p2)" by (simp add: run_op_push(1) [OF h] p2_def p1_def)
  have o3: "op_equal (counted ?eq p2) = (error_op_success, p3)" by (simp add: op_equal_success p3_def p2_def)
  have "run_ops C 0 (to_pay_script_hash_pattern h) p = run_ops C 3 [] p3"
    using step_runs [OF r3 op_of_code_size _ small(1)] o1 step_runs [OF r2 run_op_push(2) [OF h] o2 small(2)]
      step_runs [OF r1 op_of_code_size _ small(3)] o3
    by (simp add: to_pay_script_hash_pattern_def run_op_codes eval_nat_numeral)
  moreover have "is_balanced p3" using r1 by (simp add: is_balanced_def p3_def ready_for_def)
  ultimately show ?thesis by (simp add: p3_def)
qed

lemma script_hash_starts:
  assumes "length h = short_hash_size" "\<not> enabled p bip342_rule" "prg_witness p = None"
    and "prg_script p = from_operations (to_pay_script_hash_pattern h)"
  shows "initialize p = error_script_success"
proof -
  have h: "0 < length h" "length h \<le> 75" using assms(1) by (simp_all add: short_hash_size_def)
  have valid: "\<not> list_ex (\<lambda>op. is_invalid (op_code op)) (to_pay_script_hash_pattern h)"
    using push_operation(1) [OF h] by (simp add: to_pay_script_hash_pattern_def) (simp add: is_invalid_def)
  have "length (concat (map operation_to_data (to_pay_script_hash_pattern h))) \<le> max_script_size"
    using push_operation(2) [OF h] h by (simp add: to_pay_script_hash_pattern_def code_operation max_script_size_def)
  from initialize_operations [OF assms(2-4) valid this] show ?thesis .
qed

lemma example_embedded_connects:
  "\<not> failed (interpreter_connect example_crypto (example_context\<lparr>ctx_flags := bip16_rule\<rparr>) example_embedded_spend 0)"
proof -
  let ?C = example_crypto and ?p = "input_program example_embedded_spend 0 bip16_rule"
    and ?s = "from_operations (to_pay_script_hash_pattern example_key_hash)"
  have size: "length example_key_hash = short_hash_size" by (simp add: example_key_hash_def short_hash_size_def)
  have ready: "ready_for 2 ?p" by (simp add: input_program_def new_program_def ready_for_def enabled_def masked_rules max_counted_ops_def)
  then obtain p where p: "run ?C ?p = (script_code error_script_success, p)" "prg_primary p = [Vint 0, Vchunk [1]]"
    using run_pushes_script [where ops = "[from_push_data [1] False, op_of_code opcode_push_size_0]" and vs = "[Vchunk [1], Vint 0]"
        and p = ?p and C = ?C] pushes_zero pushes_data [of "[1]"] example_embedded_input(2)
    by (auto simp: input_program_def new_program_def numeral_2_eq_2)
  have ready3: "ready_for 3 (successor_program p ?s)" by (rule successor_ready [OF p(1)]) (simp add: max_counted_ops_def)
  then obtain r where r: "run ?C (successor_program p ?s) = (script_code error_script_success, r)" "prg_primary r = [Vbool True, Vchunk [1]]"
    using script_hash_accepts [OF ready3 size, of "Vint 0" "[Vchunk [1]]" ?C] p(2) script_hash_starts [OF size, of "successor_program p ?s"]
    by (auto simp: run_def max_unified_stack_size_def ready_for_def example_crypto_def example_key_hash_def)
  have zero: "chunk_from_integer 0 = []" by (simp add: chunk_from_integer_def)
  have empty: "script_of_bytes [] = from_operations []"
    using script_of_bytes_parse [of "[]"] by (simp add: max_size_t_def parse_ops.simps from_operations_def ops_serialized_size_def)
  have q: "run ?C (successor_program (p\<lparr>prg_primary := [Vchunk [1]]\<rparr>) (from_operations [])) =
      (script_code error_script_success, successor_program (p\<lparr>prg_primary := [Vchunk [1]]\<rparr>) (from_operations []))"
    by (rule run_empty_script) (simp_all add: enabled_def input_run_fields [OF p(1)] masked_rules)
  have pays: "is_pay_to_script_hash ?s bip16_rule" "\<not> is_pay_to_witness (from_operations []) bip16_rule"
    by (simp_all add: is_pay_to_script_hash_def is_pay_script_hash_pattern_def to_pay_script_hash_pattern_def
        example_key_hash_def opcode_from_size_def is_enabled_def flag_defs is_pay_to_witness_def is_pay_witness_pattern_def)
  have "is_relaxed_push_pattern [from_push_data [1] False, op_of_code opcode_push_size_0]"
    by (simp add: is_relaxed_push_pattern_def is_relaxed_push_def opcode_from_size_def)
  then have "\<not> failed (connect_embedded ?C (example_context\<lparr>ctx_flags := bip16_rule\<rparr>) example_embedded_spend 0 p)"
    using q pays(2) p(2) example_embedded_input(2,3)
    by (simp add: connect_embedded_def program_pop_def pop_chunk_top_def peek_top_def drop_top_def zero empty Let_def
        is_true_def is_stack_empty_def peek_bool_top_def boolean_from_chunk_def is_sign_byte_def
        positive_sign_byte_def negative_sign_byte_def)
  then show ?thesis using p(1) r pays(1) example_embedded_input(1)
    by (simp add: interpreter_connect_def Let_def is_true_def is_stack_empty_def peek_bool_top_def peek_top_def)
qed

theorem script_hash_spend_reveals_witness:
  "\<exists>p v rest r. run example_crypto (input_program example_embedded_spend 0 bip16_rule) = (script_code error_script_success, p) \<and>
    prg_primary p = v # rest \<and> bitcoin_short_chunk example_crypto (variant_chunk v) = example_key_hash \<and>
    run example_crypto (successor_program (p\<lparr>prg_primary := rest\<rparr>) (script_of_bytes (variant_chunk v))) =
      (script_code error_script_success, r)"
proof -
  let ?ctx = "example_context\<lparr>ctx_flags := bip16_rule\<rparr>"
  have size: "length example_key_hash = short_hash_size" by (simp add: example_key_hash_def short_hash_size_def)
  have "is_enabled (ctx_flags ?ctx) bip16_rule" by (simp add: is_enabled_def flag_defs)
  from script_hash_spend_reveals [OF example_embedded_input(1) out_script_make size this example_embedded_connects]
  have "\<exists>p v rest r. run example_crypto (input_program example_embedded_spend 0 (ctx_flags ?ctx)) = (script_code error_script_success, p) \<and>
      prg_primary p = v # rest \<and> bitcoin_short_chunk example_crypto (variant_chunk v) = example_key_hash \<and>
      run example_crypto (successor_program (p\<lparr>prg_primary := rest\<rparr>) (script_of_bytes (variant_chunk v))) =
        (script_code error_script_success, r)" by blast
  then show ?thesis by simp
qed

end
