(* ===== verification/Sha.thy ===== *)
theory Sha
  imports Streams
begin

text \<open>
  The SHA algorithm template (\<open>hash/sha\<close>, \<open>impl/hash/sha\<close>) in its portable form: functions, message
  schedule, compression on a state that is rotated by index, padding, parsing, and the single,
  double and streamed hashes. A record holds the parameters of the template, the word type is the
  type variable. An array is a list of its length; a compile time index is an argument. The last
  sections have the vectorized message schedules, with a vector word as the list of its lanes.
\<close>

section \<open>Parameters\<close>

record 'a sha =
  sha_strength :: nat
  sha_rounds :: nat
  sha_digest :: nat
  sha_k :: "'a list"
  sha_h :: "'a list"
  sha_cached :: bool

definition sha_word_bytes :: "('w::len) word sha \<Rightarrow> nat" where
  "sha_word_bytes S = LENGTH('w) div 8"

definition sha_state_words :: "('w::len) word sha \<Rightarrow> nat" where
  "sha_state_words S = (if sha_digest S = 160 then 5 else 8)"

definition sha_block_size :: "('w::len) word sha \<Rightarrow> nat" where
  "sha_block_size S = 16 * sha_word_bytes S"

definition sha_half_size :: "('w::len) word sha \<Rightarrow> nat" where
  "sha_half_size S = 8 * sha_word_bytes S"

definition sha_count_bytes :: "('w::len) word sha \<Rightarrow> nat" where
  "sha_count_bytes S = 2 * sha_word_bytes S"

definition sha_space :: "('w::len) word sha \<Rightarrow> nat" where
  "sha_space S = sha_block_size S - sha_count_bytes S - 1"

definition k160 :: "32 word list" where
  "k160 = replicate 20 0x5a827999 @ replicate 20 0x6ed9eba1 @ replicate 20 0x8f1bbcdc @ replicate 20 0xca62c1d6"

definition h160 :: "32 word list" where
  "h160 = [0x67452301, 0xefcdab89, 0x98badcfe, 0x10325476, 0xc3d2e1f0]"

definition k256 :: "32 word list" where
  "k256 = concat [
     [0x428a2f98, 0x71374491, 0xb5c0fbcf, 0xe9b5dba5],
     [0x3956c25b, 0x59f111f1, 0x923f82a4, 0xab1c5ed5],
     [0xd807aa98, 0x12835b01, 0x243185be, 0x550c7dc3],
     [0x72be5d74, 0x80deb1fe, 0x9bdc06a7, 0xc19bf174],
     [0xe49b69c1, 0xefbe4786, 0x0fc19dc6, 0x240ca1cc],
     [0x2de92c6f, 0x4a7484aa, 0x5cb0a9dc, 0x76f988da],
     [0x983e5152, 0xa831c66d, 0xb00327c8, 0xbf597fc7],
     [0xc6e00bf3, 0xd5a79147, 0x06ca6351, 0x14292967],
     [0x27b70a85, 0x2e1b2138, 0x4d2c6dfc, 0x53380d13],
     [0x650a7354, 0x766a0abb, 0x81c2c92e, 0x92722c85],
     [0xa2bfe8a1, 0xa81a664b, 0xc24b8b70, 0xc76c51a3],
     [0xd192e819, 0xd6990624, 0xf40e3585, 0x106aa070],
     [0x19a4c116, 0x1e376c08, 0x2748774c, 0x34b0bcb5],
     [0x391c0cb3, 0x4ed8aa4a, 0x5b9cca4f, 0x682e6ff3],
     [0x748f82ee, 0x78a5636f, 0x84c87814, 0x8cc70208],
     [0x90befffa, 0xa4506ceb, 0xbef9a3f7, 0xc67178f2]]"

definition h256 :: "32 word list" where
  "h256 = [0x6a09e667, 0xbb67ae85, 0x3c6ef372, 0xa54ff53a, 0x510e527f, 0x9b05688c, 0x1f83d9ab, 0x5be0cd19]"

definition h256_224 :: "32 word list" where
  "h256_224 = [0xc1059ed8, 0x367cd507, 0x3070dd17, 0xf70e5939, 0xffc00b31, 0x68581511, 0x64f98fa7, 0xbefa4fa4]"

definition k512 :: "64 word list" where
  "k512 = concat [
     [0x428a2f98d728ae22, 0x7137449123ef65cd, 0xb5c0fbcfec4d3b2f, 0xe9b5dba58189dbbc],
     [0x3956c25bf348b538, 0x59f111f1b605d019, 0x923f82a4af194f9b, 0xab1c5ed5da6d8118],
     [0xd807aa98a3030242, 0x12835b0145706fbe, 0x243185be4ee4b28c, 0x550c7dc3d5ffb4e2],
     [0x72be5d74f27b896f, 0x80deb1fe3b1696b1, 0x9bdc06a725c71235, 0xc19bf174cf692694],
     [0xe49b69c19ef14ad2, 0xefbe4786384f25e3, 0x0fc19dc68b8cd5b5, 0x240ca1cc77ac9c65],
     [0x2de92c6f592b0275, 0x4a7484aa6ea6e483, 0x5cb0a9dcbd41fbd4, 0x76f988da831153b5],
     [0x983e5152ee66dfab, 0xa831c66d2db43210, 0xb00327c898fb213f, 0xbf597fc7beef0ee4],
     [0xc6e00bf33da88fc2, 0xd5a79147930aa725, 0x06ca6351e003826f, 0x142929670a0e6e70],
     [0x27b70a8546d22ffc, 0x2e1b21385c26c926, 0x4d2c6dfc5ac42aed, 0x53380d139d95b3df],
     [0x650a73548baf63de, 0x766a0abb3c77b2a8, 0x81c2c92e47edaee6, 0x92722c851482353b],
     [0xa2bfe8a14cf10364, 0xa81a664bbc423001, 0xc24b8b70d0f89791, 0xc76c51a30654be30],
     [0xd192e819d6ef5218, 0xd69906245565a910, 0xf40e35855771202a, 0x106aa07032bbd1b8],
     [0x19a4c116b8d2d0c8, 0x1e376c085141ab53, 0x2748774cdf8eeb99, 0x34b0bcb5e19b48a8],
     [0x391c0cb3c5c95a63, 0x4ed8aa4ae3418acb, 0x5b9cca4f7763e373, 0x682e6ff3d6b2b8a3],
     [0x748f82ee5defb2fc, 0x78a5636f43172f60, 0x84c87814a1f0ab72, 0x8cc702081a6439ec],
     [0x90befffa23631e28, 0xa4506cebde82bde9, 0xbef9a3f7b2c67915, 0xc67178f2e372532b],
     [0xca273eceea26619c, 0xd186b8c721c0c207, 0xeada7dd6cde0eb1e, 0xf57d4f7fee6ed178],
     [0x06f067aa72176fba, 0x0a637dc5a2c898a6, 0x113f9804bef90dae, 0x1b710b35131c471b],
     [0x28db77f523047d84, 0x32caab7b40c72493, 0x3c9ebe0a15c9bebc, 0x431d67c49c100d4c],
     [0x4cc5d4becb3e42b6, 0x597f299cfc657e2a, 0x5fcb6fab3ad6faec, 0x6c44198c4a475817]]"

definition h512 :: "64 word list" where
  "h512 = [0x6a09e667f3bcc908, 0xbb67ae8584caa73b, 0x3c6ef372fe94f82b, 0xa54ff53a5f1d36f1,
     0x510e527fade682d1, 0x9b05688c2b3e6c1f, 0x1f83d9abfb41bd6b, 0x5be0cd19137e2179]"

definition h512_384 :: "64 word list" where
  "h512_384 = [0xcbbb9d5dc1059ed8, 0x629a292a367cd507, 0x9159015a3070dd17, 0x152fecd8f70e5939,
     0x67332667ffc00b31, 0x8eb44a8768581511, 0xdb0c2e0d64f98fa7, 0x47b5481dbefa4fa4]"

definition h512_256 :: "64 word list" where
  "h512_256 = [0x22312194fc2bf72c, 0x9f555fa3c84c64c2, 0x2393b86b6f53b151, 0x963877195940eabd,
     0x96283ee2a88effe3, 0xbe5e1e2553863992, 0x2b0199fc2c85b8aa, 0x0eb72ddc81c52ca2]"

definition h512_224 :: "64 word list" where
  "h512_224 = [0x8c3d37c819544da2, 0x73e1996689dcd4d6, 0x1dfab7ae32ff9c82, 0x679dd514582f9fcf,
     0x0f6d2b697bd44da8, 0x77e36f7304c48942, 0x3f9d85a86a1d36c8, 0x1112e6ad91d692a1]"

definition sha160 :: "32 word sha" where
  "sha160 = \<lparr>sha_strength = 160, sha_rounds = 80, sha_digest = 160, sha_k = k160, sha_h = h160, sha_cached = True\<rparr>"

definition sha256 :: "32 word sha" where
  "sha256 = \<lparr>sha_strength = 256, sha_rounds = 64, sha_digest = 256, sha_k = k256, sha_h = h256, sha_cached = True\<rparr>"

definition sha256_224 :: "32 word sha" where
  "sha256_224 = sha256\<lparr>sha_digest := 224, sha_h := h256_224\<rparr>"

definition sha512 :: "64 word sha" where
  "sha512 = \<lparr>sha_strength = 512, sha_rounds = 80, sha_digest = 512, sha_k = k512, sha_h = h512, sha_cached = True\<rparr>"

definition sha512_384 :: "64 word sha" where
  "sha512_384 = sha512\<lparr>sha_digest := 384, sha_h := h512_384\<rparr>"

definition sha512_256 :: "64 word sha" where
  "sha512_256 = sha512\<lparr>sha_digest := 256, sha_h := h512_256\<rparr>"

definition sha512_224 :: "64 word sha" where
  "sha512_224 = sha512\<lparr>sha_digest := 224, sha_h := h512_224\<rparr>"

section \<open>Functions\<close>

definition parity :: "('w::len) word \<Rightarrow> 'w word \<Rightarrow> 'w word \<Rightarrow> 'w word" where
  "parity x y z = (x XOR y) XOR z"

definition choice :: "('w::len) word \<Rightarrow> 'w word \<Rightarrow> 'w word \<Rightarrow> 'w word" where
  "choice x y z = (x AND (y XOR z)) XOR z"

definition majority :: "('w::len) word \<Rightarrow> 'w word \<Rightarrow> 'w word \<Rightarrow> 'w word" where
  "majority x y z = (x AND (y OR z)) OR (y AND z)"

definition sigma :: "nat \<Rightarrow> nat \<Rightarrow> nat \<Rightarrow> ('w::len) word \<Rightarrow> 'w word" where
  "sigma a b c x = (word_rotr a x XOR word_rotr b x) XOR drop_bit c x"

text \<open>The capital sigma of the source, in the form with nested rotations.\<close>

definition big_sigma :: "nat \<Rightarrow> nat \<Rightarrow> nat \<Rightarrow> ('w::len) word \<Rightarrow> 'w word" where
  "big_sigma a b c x = word_rotr a (word_rotr (b - a) (word_rotr (c - b) x XOR x) XOR x)"

definition sigma0 :: "('w::len) word sha \<Rightarrow> 'w word \<Rightarrow> 'w word" where
  "sigma0 S x = (if sha_strength S = 256 then sigma 7 18 3 x else sigma 1 8 7 x)"

definition sigma1 :: "('w::len) word sha \<Rightarrow> 'w word \<Rightarrow> 'w word" where
  "sigma1 S x = (if sha_strength S = 256 then sigma 17 19 10 x else sigma 19 61 6 x)"

definition big_sigma0 :: "('w::len) word sha \<Rightarrow> 'w word \<Rightarrow> 'w word" where
  "big_sigma0 S x = (if sha_strength S = 256 then big_sigma 2 13 22 x else big_sigma 28 34 39 x)"

definition big_sigma1 :: "('w::len) word sha \<Rightarrow> 'w word \<Rightarrow> 'w word" where
  "big_sigma1 S x = (if sha_strength S = 256 then big_sigma 6 11 25 x else big_sigma 14 18 41 x)"

section \<open>Compression\<close>

definition round_function :: "nat \<Rightarrow> ('w::len) word \<Rightarrow> 'w word \<Rightarrow> 'w word \<Rightarrow> 'w word" where
  "round_function r = (let fn = r div 20 in
     if fn = 0 then choice else if fn = 1 then parity else if fn = 2 then majority else parity)"

text \<open>The two registers that a round changes: \<open>b\<close> and \<open>e\<close> of sha160, \<open>d\<close> and \<open>h\<close> of the others.\<close>

definition round_five :: "nat \<Rightarrow> ('w::len) word \<Rightarrow> 'w word \<Rightarrow> 'w word \<Rightarrow> 'w word \<Rightarrow> 'w word \<Rightarrow> 'w word \<Rightarrow> 'w word \<times> 'w word" where
  "round_five r a b c d e wk = (word_rotl 30 b, ((word_rotl 5 a + round_function r b c d) + e) + wk)"

definition round_eight ::
  "('w::len) word sha \<Rightarrow> 'w word \<Rightarrow> 'w word \<Rightarrow> 'w word \<Rightarrow> 'w word \<Rightarrow> 'w word \<Rightarrow> 'w word \<Rightarrow> 'w word \<Rightarrow> 'w word \<Rightarrow> 'w word \<Rightarrow>
    'w word \<times> 'w word" where
  "round_eight S a b c d e f g h wk = (let t = ((big_sigma1 S e + choice e f g) + h) + wk in
     (d + t, (big_sigma0 S a + majority a b c) + t))"

definition sha_round :: "('w::len) word sha \<Rightarrow> nat \<Rightarrow> 'w word \<Rightarrow> 'w word list \<Rightarrow> 'w word list" where
  "sha_round S r w state =
     (let at = (\<lambda>i. (sha_rounds S + i - r) mod sha_state_words S); s = (\<lambda>i. state ! at i) in
      if sha_strength S = 160
      then let (b, e) = round_five r (s 0) (s 1) (s 2) (s 3) (s 4) w in state[at 1 := b, at 4 := e]
      else let (d, h) = round_eight S (s 0) (s 1) (s 2) (s 3) (s 4) (s 5) (s 6) (s 7) w in
        state[at 3 := d, at 7 := h])"

definition summarize :: "('w::len) word list \<Rightarrow> 'w word list \<Rightarrow> 'w word list" where
  "summarize out start = map2 (+) out start"

definition sha_rounds_from :: "('w::len) word sha \<Rightarrow> nat \<Rightarrow> nat \<Rightarrow> 'w word list \<Rightarrow> 'w word list \<Rightarrow> 'w word list" where
  "sha_rounds_from S a b wk = fold (\<lambda>r. sha_round S r (wk ! r)) [a..<b]"

text \<open>With \<open>konstant\<close> the round constants are added here, otherwise they are part of the schedule.\<close>

definition compress_with :: "('w::len) word sha \<Rightarrow> bool \<Rightarrow> 'w word list \<Rightarrow> 'w word list \<Rightarrow> 'w word list" where
  "compress_with S konstant buffer state =
     summarize (fold (\<lambda>r. sha_round S r (if konstant then buffer ! r + sha_k S ! r else buffer ! r))
       [0..<sha_rounds S] state) state"

definition sha_compress :: "('w::len) word sha \<Rightarrow> 'w word list \<Rightarrow> 'w word list \<Rightarrow> 'w word list" where
  "sha_compress S = compress_with S False"

section \<open>Message schedule\<close>

definition prepare :: "('w::len) word sha \<Rightarrow> nat \<Rightarrow> 'w word list \<Rightarrow> 'w word list" where
  "prepare S r buffer =
     (if sha_strength S = 160
      then buffer[r := word_rotl 1 ((buffer ! (r - 16) XOR buffer ! (r - 14)) XOR (buffer ! (r - 8) XOR buffer ! (r - 3)))]
      else buffer[r := (buffer ! (r - 16) + sigma0 S (buffer ! (r - 15))) + (buffer ! (r - 7) + sigma1 S (buffer ! (r - 2)))])"

definition konstant_round :: "('w::len) word sha \<Rightarrow> nat \<Rightarrow> 'w word list \<Rightarrow> 'w word list" where
  "konstant_round S r buffer = buffer[r := buffer ! r + sha_k S ! r]"

definition konstant :: "('w::len) word sha \<Rightarrow> 'w word list \<Rightarrow> 'w word list" where
  "konstant S = fold (konstant_round S) [0..<sha_rounds S]"

definition schedule_with :: "('w::len) word sha \<Rightarrow> bool \<Rightarrow> 'w word list \<Rightarrow> 'w word list" where
  "schedule_with S add buffer = (let prepared = fold (prepare S) [16..<sha_rounds S] buffer in
     if add then konstant S prepared else prepared)"

definition schedule :: "('w::len) word sha \<Rightarrow> 'w word list \<Rightarrow> 'w word list" where
  "schedule S = schedule_with S True"

text \<open>The buffer and the state after the call.\<close>

definition schedule_compress :: "('w::len) word sha \<Rightarrow> 'w word list \<Rightarrow> 'w word list \<Rightarrow> 'w word list \<times> 'w word list" where
  "schedule_compress S state buffer = (let scheduled = schedule S buffer in (sha_compress S scheduled state, scheduled))"
section \<open>Parsing\<close>

text \<open>The word at a byte offset of an array, and the bytes of a word, both big endian.\<close>

definition from_big :: "nat \<Rightarrow> data_chunk \<Rightarrow> ('w::len) word" where
  "from_big offset bs = word_of_nat (be_value (take (LENGTH('w) div 8) (drop offset bs)))"

definition to_big :: "('w::len) word \<Rightarrow> data_chunk" where
  "to_big w = be_bytes (LENGTH('w) div 8) (unat w)"

text \<open>Assignment of words to a part of an array.\<close>

definition put_words :: "nat \<Rightarrow> 'a list \<Rightarrow> 'a list \<Rightarrow> 'a list" where
  "put_words index ws buffer = take index buffer @ ws @ drop (index + length ws) buffer"

definition input_words :: "('w::len) word sha \<Rightarrow> nat \<Rightarrow> nat \<Rightarrow> data_chunk \<Rightarrow> 'w word list \<Rightarrow> 'w word list" where
  "input_words S index count bs = put_words index (map (\<lambda>i. from_big (i * sha_word_bytes S) bs) [0..<count])"

definition input_block :: "('w::len) word sha \<Rightarrow> data_chunk \<Rightarrow> 'w word list \<Rightarrow> 'w word list" where
  "input_block S = input_words S 0 16"

definition input_left :: "('w::len) word sha \<Rightarrow> data_chunk \<Rightarrow> 'w word list \<Rightarrow> 'w word list" where
  "input_left S = input_words S 0 8"

definition input_right :: "('w::len) word sha \<Rightarrow> data_chunk \<Rightarrow> 'w word list \<Rightarrow> 'w word list" where
  "input_right S = input_words S 8 8"

definition input_left_quarter :: "('w::len) word sha \<Rightarrow> data_chunk \<Rightarrow> 'w word list \<Rightarrow> 'w word list" where
  "input_left_quarter S = input_words S 0 4"

definition input_right_quarter :: "('w::len) word sha \<Rightarrow> data_chunk \<Rightarrow> 'w word list \<Rightarrow> 'w word list" where
  "input_right_quarter S = input_words S 4 4"

definition sha_output :: "('w::len) word sha \<Rightarrow> 'w word list \<Rightarrow> data_chunk" where
  "sha_output S state = take (sha_digest S div 8) (concat (map to_big state))"

definition inject_left_half :: "'a list \<Rightarrow> 'a list \<Rightarrow> 'a list" where
  "inject_left_half left = put_words 0 left"

section \<open>Padding\<close>

definition empty_buffer :: "('w::len) word sha \<Rightarrow> 'w word list" where
  "empty_buffer S = replicate (sha_rounds S) 0"

definition bit_hi :: "('w::len) word" where
  "bit_hi = push_bit (LENGTH('w) - 1) 1"

definition sha_stream_pad :: "('w::len) word sha \<Rightarrow> 'w word list" where
  "sha_stream_pad S = bit_hi # replicate 13 0"

definition scheduled_pad :: "('w::len) word sha \<Rightarrow> nat \<Rightarrow> 'w word list" where
  "scheduled_pad S blocks =
     schedule S ((empty_buffer S)[0 := bit_hi, 15 := word_of_nat (blocks * sha_block_size S * 8)])"

text \<open>The count of bits has twice the width of a word.\<close>

definition count_of_bits :: "('w::len) word sha \<Rightarrow> nat \<Rightarrow> nat" where
  "count_of_bits S blocks = (blocks * sha_block_size S * 8) mod 2 ^ (2 * LENGTH('w))"

definition hi_word :: "nat \<Rightarrow> ('w::len) word" where
  "hi_word count = word_of_nat (count div 2 ^ LENGTH('w))"

definition lo_word :: "nat \<Rightarrow> ('w::len) word" where
  "lo_word count = word_of_nat count"

definition pad_n :: "('w::len) word sha \<Rightarrow> nat \<Rightarrow> 'w word list \<Rightarrow> 'w word list" where
  "pad_n S blocks buffer = (let bits = count_of_bits S blocks in
     (put_words 0 (sha_stream_pad S) buffer)[14 := hi_word bits, 15 := lo_word bits])"

definition schedule_n :: "('w::len) word sha \<Rightarrow> nat \<Rightarrow> 'w word list \<Rightarrow> 'w word list" where
  "schedule_n S blocks buffer =
     (if sha_cached S \<and> blocks \<in> {1, 2, 3, 4} then scheduled_pad S blocks
      else schedule S (pad_n S blocks buffer))"

definition schedule_1 :: "('w::len) word sha \<Rightarrow> 'w word list \<Rightarrow> 'w word list" where
  "schedule_1 S buffer = scheduled_pad S 1"

definition chunk_pad :: "('w::len) word sha \<Rightarrow> nat \<Rightarrow> 'w word list" where
  "chunk_pad S blocks = (let bytes = (word_of_nat (blocks * sha_block_size S + sha_half_size S) :: 'w word) in
     (replicate 8 0)[0 := bit_hi, 7 := bytes * 8])"

definition pad_half :: "('w::len) word sha \<Rightarrow> nat \<Rightarrow> 'w word list \<Rightarrow> 'w word list" where
  "pad_half S blocks = put_words 8 (chunk_pad S blocks)"

definition simple_pad :: "('w::len) word sha \<Rightarrow> nat \<Rightarrow> nat \<Rightarrow> data_chunk \<Rightarrow> data_chunk" where
  "simple_pad S bytes prior block =
     (put_words (sha_block_size S - sha_word_bytes S) (be_bytes (sha_word_bytes S) ((prior + bytes) * 8)) block)[bytes := 0x80]"

section \<open>Iteration and finalization\<close>

text \<open>One buffer serves all blocks.\<close>

definition iterate :: "('w::len) word sha \<Rightarrow> 'w word list \<Rightarrow> data_chunk list \<Rightarrow> 'w word list" where
  "iterate S state blocks =
     fst (fold (\<lambda>block (state, buffer). schedule_compress S state (input_block S block buffer)) blocks (state, empty_buffer S))"

definition sha_normalize :: "('w::len) word sha \<Rightarrow> 'w word list \<Rightarrow> data_chunk" where
  "sha_normalize S = sha_output S"

text \<open>The finalizers for a constant number of blocks and for a counted one.\<close>

definition finalize_array :: "('w::len) word sha \<Rightarrow> nat \<Rightarrow> 'w word list \<Rightarrow> data_chunk" where
  "finalize_array S blocks state = sha_output S (sha_compress S (scheduled_pad S blocks) state)"

definition sha_finalize :: "('w::len) word sha \<Rightarrow> 'w word list \<Rightarrow> nat \<Rightarrow> data_chunk" where
  "sha_finalize S state blocks = sha_output S (sha_compress S (schedule_n S blocks (empty_buffer S)) state)"

definition finalize_second :: "('w::len) word sha \<Rightarrow> 'w word list \<Rightarrow> data_chunk" where
  "finalize_second S state =
     sha_output S (fst (schedule_compress S (sha_h S) (pad_half S 0 (inject_left_half state (empty_buffer S)))))"

definition finalize_double :: "('w::len) word sha \<Rightarrow> 'w word list \<Rightarrow> nat \<Rightarrow> data_chunk" where
  "finalize_double S state blocks =
     (let buffer = schedule_n S blocks (empty_buffer S); first = sha_compress S buffer state in
      sha_output S (fst (schedule_compress S (sha_h S) (pad_half S 0 (inject_left_half first buffer)))))"

section \<open>Single hashes\<close>

definition hash_blocks_array :: "('w::len) word sha \<Rightarrow> data_chunk list \<Rightarrow> data_chunk" where
  "hash_blocks_array S blocks = finalize_array S (length blocks) (iterate S (sha_h S) blocks)"

definition hash_blocks :: "('w::len) word sha \<Rightarrow> data_chunk list \<Rightarrow> data_chunk" where
  "hash_blocks S blocks = sha_finalize S (iterate S (sha_h S) blocks) (length blocks)"

definition hash_block :: "('w::len) word sha \<Rightarrow> data_chunk \<Rightarrow> data_chunk" where
  "hash_block S block = hash_blocks_array S [block]"

definition hash_half :: "('w::len) word sha \<Rightarrow> data_chunk \<Rightarrow> data_chunk" where
  "hash_half S half =
     sha_output S (fst (schedule_compress S (sha_h S) (pad_half S 0 (input_left S half (empty_buffer S)))))"

definition hash_halves :: "('w::len) word sha \<Rightarrow> data_chunk \<Rightarrow> data_chunk \<Rightarrow> data_chunk" where
  "hash_halves S left right =
     (let (state, buffer) = schedule_compress S (sha_h S) (input_right S right (input_left S left (empty_buffer S))) in
      sha_output S (sha_compress S (schedule_1 S buffer) state))"

definition midstate :: "('w::len) word sha \<Rightarrow> data_chunk \<Rightarrow> data_chunk \<Rightarrow> 'w word list" where
  "midstate S left right = fst (schedule_compress S (sha_h S) (input_right S right (input_left S left (empty_buffer S))))"

definition hash_midstate_halves :: "('w::len) word sha \<Rightarrow> 'w word list \<Rightarrow> data_chunk \<Rightarrow> data_chunk \<Rightarrow> data_chunk \<Rightarrow> data_chunk" where
  "hash_midstate_halves S mid first second third =
     (let (state, buffer) = schedule_compress S mid (input_right S second (input_left S first (empty_buffer S))) in
      sha_output S (fst (schedule_compress S state (pad_half S 2 (input_left S third buffer)))))"

definition hash_midstate_bytes :: "('w::len) word sha \<Rightarrow> 'w word list \<Rightarrow> data_chunk \<Rightarrow> data_chunk" where
  "hash_midstate_bytes S mid bytes =
     (let block = simple_pad S (length bytes) (sha_block_size S) (put_words 0 bytes (replicate (sha_block_size S) 0)) in
      sha_output S (fst (schedule_compress S mid (input_block S block (empty_buffer S)))))"

definition hash_quarters :: "('w::len) word sha \<Rightarrow> data_chunk \<Rightarrow> data_chunk \<Rightarrow> data_chunk" where
  "hash_quarters S left right =
     sha_output S (fst (schedule_compress S (sha_h S)
       (pad_half S 0 (input_right_quarter S right (input_left_quarter S left (empty_buffer S))))))"

definition simple_hash :: "('w::len) word sha \<Rightarrow> data_chunk \<Rightarrow> data_chunk" where
  "simple_hash S bytes =
     (let block = simple_pad S (length bytes) 0 (put_words 0 bytes (replicate (sha_block_size S) 0)) in
      sha_output S (fst (schedule_compress S (sha_h S) (input_block S block (empty_buffer S)))))"

definition hash_byte :: "('w::len) word sha \<Rightarrow> byte \<Rightarrow> data_chunk" where
  "hash_byte S b = simple_hash S [b]"

section \<open>Double hashes\<close>

definition second_hash :: "('w::len) word sha \<Rightarrow> 'w word list \<Rightarrow> 'w word list \<Rightarrow> data_chunk" where
  "second_hash S state buffer =
     sha_output S (fst (schedule_compress S (sha_h S) (pad_half S 0 (inject_left_half state buffer))))"

definition double_hash_blocks :: "('w::len) word sha \<Rightarrow> data_chunk list \<Rightarrow> data_chunk" where
  "double_hash_blocks S blocks = finalize_double S (iterate S (sha_h S) blocks) (length blocks)"

definition double_hash_block :: "('w::len) word sha \<Rightarrow> data_chunk \<Rightarrow> data_chunk" where
  "double_hash_block S block =
     (let (state, buffer) = schedule_compress S (sha_h S) (input_block S block (empty_buffer S));
          scheduled = schedule_1 S buffer in
      second_hash S (sha_compress S scheduled state) scheduled)"

definition double_hash_half :: "('w::len) word sha \<Rightarrow> data_chunk \<Rightarrow> data_chunk" where
  "double_hash_half S half =
     (let (state, buffer) = schedule_compress S (sha_h S) (pad_half S 0 (input_left S half (empty_buffer S))) in
      second_hash S state buffer)"

definition double_hash_halves :: "('w::len) word sha \<Rightarrow> data_chunk \<Rightarrow> data_chunk \<Rightarrow> data_chunk" where
  "double_hash_halves S left right =
     (let (state, buffer) = schedule_compress S (sha_h S) (input_right S right (input_left S left (empty_buffer S)));
          scheduled = schedule_1 S buffer in
      second_hash S (sha_compress S scheduled state) scheduled)"

section \<open>The standard\<close>

text \<open>
  The loops of FIPS 180-4 over the parameters, constants and small sigmas of a variant above: the
  message schedule as a function of the round, the working variables as a list that shifts, and the
  hash of a message of any length. The algorithms are related to them here; that they are the
  published functions is shown in \<open>StandardHashes\<close> against definitions that share nothing with this file.
\<close>

definition fips_ch :: "('w::len) word \<Rightarrow> 'w word \<Rightarrow> 'w word \<Rightarrow> 'w word" where
  "fips_ch x y z = (x AND y) XOR (NOT x AND z)"

definition fips_maj :: "('w::len) word \<Rightarrow> 'w word \<Rightarrow> 'w word \<Rightarrow> 'w word" where
  "fips_maj x y z = (x AND y) XOR (x AND z) XOR (y AND z)"

definition fips_sum :: "nat \<Rightarrow> nat \<Rightarrow> nat \<Rightarrow> ('w::len) word \<Rightarrow> 'w word" where
  "fips_sum a b c x = word_rotr a x XOR word_rotr b x XOR word_rotr c x"

fun fips_w :: "('w::len) word sha \<Rightarrow> (nat \<Rightarrow> 'w word) \<Rightarrow> nat \<Rightarrow> 'w word" where
  "fips_w S m t = (if t < 16 then m t
     else if sha_strength S = 160
     then word_rotl 1 (fips_w S m (t - 3) XOR fips_w S m (t - 8) XOR fips_w S m (t - 14) XOR fips_w S m (t - 16))
     else sigma1 S (fips_w S m (t - 2)) + fips_w S m (t - 7) + sigma0 S (fips_w S m (t - 15)) + fips_w S m (t - 16))"

declare fips_w.simps [simp del]

definition fips_f :: "nat \<Rightarrow> ('w::len) word \<Rightarrow> 'w word \<Rightarrow> 'w word \<Rightarrow> 'w word" where
  "fips_f t x y z = (if t < 20 then fips_ch x y z else if t < 40 then x XOR y XOR z
     else if t < 60 then fips_maj x y z else x XOR y XOR z)"

fun fips_step :: "('w::len) word sha \<Rightarrow> nat \<Rightarrow> 'w word \<Rightarrow> 'w word list \<Rightarrow> 'w word list" where
  "fips_step S t w [a, b, c, d, e] = [word_rotl 5 a + fips_f t b c d + e + sha_k S ! t + w, a, word_rotl 30 b, c, d]"
| "fips_step S t w [a, b, c, d, e, f, g, h] =
     (let big0 = (if sha_strength S = 256 then fips_sum 2 13 22 else fips_sum 28 34 39);
          big1 = (if sha_strength S = 256 then fips_sum 6 11 25 else fips_sum 14 18 41);
          t1 = h + big1 e + fips_ch e f g + sha_k S ! t + w; t2 = big0 a + fips_maj a b c in
      [t1 + t2, a, b, c, d + t1, e, f, g])"
| "fips_step S t w xs = xs"

definition fips_block :: "('w::len) word sha \<Rightarrow> 'w word list \<Rightarrow> (nat \<Rightarrow> 'w word) \<Rightarrow> 'w word list" where
  "fips_block S h m = map2 (+) (fold (\<lambda>t. fips_step S t (fips_w S m t)) [0..<sha_rounds S] h) h"

definition fips_pad :: "('w::len) word sha \<Rightarrow> nat \<Rightarrow> data_chunk" where
  "fips_pad S n = (let zeros = (2 * sha_block_size S - sha_count_bytes S - 1 - n mod sha_block_size S) mod sha_block_size S in
     0x80 # replicate zeros 0 @ be_bytes (sha_count_bytes S) (8 * n))"

fun chop :: "nat \<Rightarrow> 'a list \<Rightarrow> 'a list list" where
  "chop n xs = (if n = 0 \<or> length xs < n then [] else take n xs # chop n (drop n xs))"

declare chop.simps [simp del]

definition fips_fold :: "('w::len) word sha \<Rightarrow> 'w word list \<Rightarrow> data_chunk list \<Rightarrow> 'w word list" where
  "fips_fold S h blocks = fold (\<lambda>block h. fips_block S h (\<lambda>t. from_big (t * sha_word_bytes S) block)) blocks h"

definition fips_hash :: "('w::len) word sha \<Rightarrow> data_chunk \<Rightarrow> data_chunk" where
  "fips_hash S message = sha_output S
     (fips_fold S (sha_h S) (chop (sha_block_size S) (message @ fips_pad S (length message))))"

end
