(* ===== verification/ShaStandard.thy ===== *)
theory ShaStandard
  imports Sha
begin

text \<open>
  The SHA algorithms of the library compute the functions of the standard: the rewritten round
  functions, the rotated state, the shared buffer with the constants added in advance, the
  precomputed and the reused paddings, and the hashes built from them.
\<close>

section \<open>Round functions\<close>

lemma choice_fips: "choice x y z = fips_ch x y z"
  by (rule bit_word_eqI) (auto simp: choice_def fips_ch_def bit_simps)

lemma majority_fips: "majority x y z = fips_maj x y z"
  by (rule bit_word_eqI) (auto simp: majority_def fips_maj_def bit_simps)

lemma parity_fips: "parity x y z = x XOR y XOR z"
  by (simp add: parity_def xor.assoc)

lemma big_sigma_fips:
  assumes "a \<le> b" "b \<le> c"
  shows "big_sigma a b c x = fips_sum a b c x"
proof (rule bit_word_eqI)
  fix n assume n: "n < LENGTH('a)"
  have "((n + a) mod LENGTH('a) + (b - a)) mod LENGTH('a) = (n + b) mod LENGTH('a)"
    unfolding mod_add_left_eq using assms(1) by simp
  moreover have "((n + b) mod LENGTH('a) + (c - b)) mod LENGTH('a) = (n + c) mod LENGTH('a)"
    unfolding mod_add_left_eq using assms(2) by simp
  ultimately show "bit (big_sigma a b c x) n = bit (fips_sum a b c x) n"
    using n by (auto simp: big_sigma_def fips_sum_def bit_xor_iff bit_word_rotr_iff)
qed

lemma round_function_fips: "t < 80 \<Longrightarrow> round_function t x y z = fips_f t x y z"
  by (auto simp: round_function_def fips_f_def Let_def choice_fips majority_fips parity_fips div_less_iff_less_mult
      less_Suc_eq dest: div_le_mono [where k = 20])

section \<open>The rotated state\<close>

definition registers :: "nat \<Rightarrow> nat \<Rightarrow> nat \<Rightarrow> 'a list \<Rightarrow> 'a list" where
  "registers n rounds r state = map (\<lambda>i. state ! ((rounds + i - r) mod n)) [0..<n]"

lemma registers_ends:
  assumes "length state = n" "rounds mod n = 0"
  shows "registers n rounds 0 state = state" "registers n rounds rounds state = state"
proof -
  have "(rounds + i) mod n = i" if "i < n" for i using that assms(2) by (metis add_0 mod_add_left_eq mod_less)
  then show "registers n rounds 0 state = state" using assms(1) by (intro nth_equalityI) (simp_all add: registers_def)
  show "registers n rounds rounds state = state" using assms(1) by (intro nth_equalityI) (simp_all add: registers_def)
qed

lemma index_shift:
  assumes "r < rounds" "k = (rounds - r) mod n" "0 < n"
  shows "(rounds + i - r) mod n = (k + i) mod n" "(rounds + i - Suc r) mod n = (k + i + (n - 1)) mod n"
proof -
  show "(rounds + i - r) mod n = (k + i) mod n" using assms by (simp add: mod_add_left_eq)
  have "rounds + i - Suc r + n = rounds - r + i + (n - 1)" using assms by linarith
  then have "(rounds + i - Suc r) mod n = (rounds - r + i + (n - 1)) mod n" by (metis mod_add_self2)
  then show "(rounds + i - Suc r) mod n = (k + i + (n - 1)) mod n"
    unfolding assms(2) by (metis add.assoc mod_add_left_eq)
qed

lemma list_of_eight: "length xs = 8 \<Longrightarrow> xs = [xs ! 0, xs ! 1, xs ! 2, xs ! 3, xs ! 4, xs ! 5, xs ! 6, xs ! 7]"
  by (auto simp: length_Suc_conv eval_nat_numeral)

lemma list_of_five: "length xs = 5 \<Longrightarrow> xs = [xs ! 0, xs ! 1, xs ! 2, xs ! 3, xs ! 4]"
  by (auto simp: length_Suc_conv eval_nat_numeral)

lemma round_eight_step:
  assumes "sha_strength S \<noteq> 160" "sha_state_words S = 8" "length state = 8" "r < sha_rounds S"
  shows "registers 8 (sha_rounds S) (Suc r) (sha_round S r (w + sha_k S ! r) state) =
    fips_step S r w (registers 8 (sha_rounds S) r state)"
proof -
  define k where "k = (sha_rounds S - r) mod 8"
  have k: "k < 8" by (simp add: k_def)
  note at = index_shift [OF assms(4) k_def]
  note shift = at [simplified] at [of 0, simplified] at [of 1, simplified] at [of "Suc (Suc 0)", simplified]
  obtain s0 s1 s2 s3 s4 s5 s6 s7 where state: "state = [s0, s1, s2, s3, s4, s5, s6, s7]"
    using list_of_eight [OF assms(3)] by blast
  have big: "big_sigma0 S = (if sha_strength S = 256 then fips_sum 2 13 22 else fips_sum 28 34 39)"
      "big_sigma1 S = (if sha_strength S = 256 then fips_sum 6 11 25 else fips_sum 14 18 41)"
    by (auto simp: big_sigma0_def big_sigma1_def big_sigma_fips)
  have eight: "[0..<8] = [0, 1, 2, 3, 4, 5, 6, 7 :: nat]" by (simp add: upt_rec)
  have "k = 0 \<or> k = 1 \<or> k = 2 \<or> k = 3 \<or> k = 4 \<or> k = 5 \<or> k = 6 \<or> k = 7" using k by auto
  then show ?thesis
    using assms(1,2)
    by (elim disjE) (simp_all add: registers_def sha_round_def shift eight state round_eight_def big choice_fips
        majority_fips Let_def algebra_simps)
qed

lemma round_five_step:
  assumes "sha_strength S = 160" "sha_state_words S = 5" "length state = 5" "r < sha_rounds S" "sha_rounds S \<le> 80"
  shows "registers 5 (sha_rounds S) (Suc r) (sha_round S r (w + sha_k S ! r) state) =
    fips_step S r w (registers 5 (sha_rounds S) r state)"
proof -
  define k where "k = (sha_rounds S - r) mod 5"
  have k: "k < 5" by (simp add: k_def)
  note at = index_shift [OF assms(4) k_def]
  note shift = at [simplified] at [of 0, simplified] at [of 1, simplified] at [of "Suc (Suc 0)", simplified]
  obtain s0 s1 s2 s3 s4 where state: "state = [s0, s1, s2, s3, s4]" using list_of_five [OF assms(3)] by blast
  have five: "[0..<5] = [0, 1, 2, 3, 4 :: nat]" by (simp add: upt_rec)
  have fn: "round_function r x y z = fips_f r x y z" for x y z :: "'a word"
    using assms(4,5) by (intro round_function_fips) simp
  have "k = 0 \<or> k = 1 \<or> k = 2 \<or> k = 3 \<or> k = 4" using k by auto
  then show ?thesis
    using assms(1,2)
    by (elim disjE) (simp_all add: registers_def sha_round_def shift five state round_five_def fn Let_def algebra_simps)
qed

text \<open>The parameters for which the template is instantiated.\<close>

definition sha_ok :: "('w::len) word sha \<Rightarrow> bool" where
  "sha_ok S \<longleftrightarrow> (if sha_strength S = 160 then sha_digest S = 160 \<and> sha_rounds S = 80 else sha_digest S \<noteq> 160 \<and>
     sha_rounds S \<in> {64, 80}) \<and> length (sha_h S) = sha_state_words S \<and> length (sha_k S) = sha_rounds S \<and> 8 dvd LENGTH('w) \<and> 32 \<le> LENGTH('w)"

lemma instances_ok: "sha_ok sha160" "sha_ok sha256" "sha_ok sha256_224" "sha_ok sha512" "sha_ok sha512_384"
  "sha_ok sha512_256" "sha_ok sha512_224"
  by (simp_all add: sha_ok_def sha160_def sha256_def sha256_224_def sha512_def sha512_384_def sha512_256_def
      sha512_224_def sha_state_words_def h160_def h256_def h256_224_def h512_def h512_384_def h512_256_def h512_224_def
      k160_def k256_def k512_def)

lemma sha_okD:
  assumes "sha_ok S"
  shows "sha_state_words S = (if sha_strength S = 160 then 5 else 8)" "sha_rounds S mod sha_state_words S = 0"
    "16 \<le> sha_rounds S" "sha_rounds S \<le> 80"
  using assms by (auto simp: sha_ok_def sha_state_words_def split: if_splits)

lemma round_step:
  assumes "sha_ok S" "length state = sha_state_words S" "r < sha_rounds S"
  shows "registers (sha_state_words S) (sha_rounds S) (Suc r) (sha_round S r (w + sha_k S ! r) state) =
    fips_step S r w (registers (sha_state_words S) (sha_rounds S) r state)"
  using assms sha_okD [OF assms(1)] round_five_step [of S state r w] round_eight_step [of S state r w]
  by (cases "sha_strength S = 160") simp_all

lemma length_sha_round [simp]: "length (sha_round S r w state) = length state"
  by (simp add: sha_round_def Let_def case_prod_unfold)

lemma rounds_registers:
  assumes "sha_ok S" "length state = sha_state_words S" "n \<le> sha_rounds S"
  shows "registers (sha_state_words S) (sha_rounds S) n (fold (\<lambda>r. sha_round S r (w r + sha_k S ! r)) [0..<n] state) =
      fold (\<lambda>t. fips_step S t (w t)) [0..<n] state \<and>
    length (fold (\<lambda>r. sha_round S r (w r + sha_k S ! r)) [0..<n] state) = sha_state_words S"
  using assms(3)
proof (induction n)
  case 0
  then show ?case using registers_ends(1) [OF assms(2)] sha_okD(2) [OF assms(1)] assms(2) by simp
next
  case (Suc n)
  let ?s = "fold (\<lambda>r. sha_round S r (w r + sha_k S ! r)) [0..<n] state"
  have "length ?s = sha_state_words S" using Suc by simp
  from round_step [OF assms(1) this, of n "w n"] Suc show ?case by simp
qed

lemma compress_fips:
  assumes "sha_ok S" "length state = sha_state_words S" "\<And>t. t < sha_rounds S \<Longrightarrow> buffer ! t = fips_w S m t + sha_k S ! t"
  shows "sha_compress S buffer state = fips_block S state m"
proof -
  let ?s = "fold (\<lambda>r. sha_round S r (buffer ! r)) [0..<sha_rounds S] state"
  have eq: "?s = fold (\<lambda>r. sha_round S r (fips_w S m r + sha_k S ! r)) [0..<sha_rounds S] state"
    using assms(3) by (intro fold_cong) auto
  have "registers (sha_state_words S) (sha_rounds S) (sha_rounds S) ?s = ?s"
    using rounds_registers [OF assms(1,2) order_refl, of "fips_w S m"] sha_okD(2) [OF assms(1)]
    by (intro registers_ends(2)) (simp_all add: eq)
  then have "?s = fold (\<lambda>t. fips_step S t (fips_w S m t)) [0..<sha_rounds S] state"
    using rounds_registers [OF assms(1,2) order_refl, of "fips_w S m"] by (simp add: eq)
  then show ?thesis by (simp add: sha_compress_def compress_with_def summarize_def fips_block_def)
qed

section \<open>The message schedule\<close>

lemma prepare_fold:
  assumes "length buffer = sha_rounds S" "n \<le> sha_rounds S" "16 \<le> n"
  shows "length (fold (prepare S) [16..<n] buffer) = sha_rounds S \<and>
    (\<forall>t < n. fold (prepare S) [16..<n] buffer ! t = fips_w S (\<lambda>i. buffer ! i) t)"
  using assms(3,2)
proof (induction n rule: dec_induct)
  case base
  then show ?case using assms(1) by (simp add: fips_w.simps [where t = "_ :: nat"])
next
  case (step n)
  let ?b = "fold (prepare S) [16..<n] buffer"
  have b: "length ?b = sha_rounds S" "\<And>t. t < n \<Longrightarrow> ?b ! t = fips_w S (\<lambda>i. buffer ! i) t" using step by auto
  have fold: "fold (prepare S) [16..<Suc n] buffer = prepare S n ?b" using step.hyps(1) by simp
  have "prepare S n ?b ! t = fips_w S (\<lambda>i. buffer ! i) t" if "t < Suc n" for t
    using that step.hyps step.prems b fips_w.simps [of S "\<lambda>i. buffer ! i" n]
    by (cases "t = n") (auto simp: prepare_def algebra_simps xor.assoc xor.commute xor.left_commute)
  moreover have "length (prepare S n ?b) = sha_rounds S" using b(1) by (simp add: prepare_def)
  ultimately show ?case unfolding fold by blast
qed

lemma konstant_fold:
  "length (fold (konstant_round S) [0..<n] buffer) = length buffer \<and>
   (\<forall>t < length buffer. fold (konstant_round S) [0..<n] buffer ! t = (if t < n then buffer ! t + sha_k S ! t else buffer ! t))"
  by (induction n) (auto simp: konstant_round_def nth_list_update less_Suc_eq)

lemma schedule_fips:
  assumes "sha_ok S" "length buffer = sha_rounds S"
  shows "length (schedule S buffer) = sha_rounds S"
    "t < sha_rounds S \<Longrightarrow> schedule S buffer ! t = fips_w S (\<lambda>i. buffer ! i) t + sha_k S ! t"
  using prepare_fold [OF assms(2) order_refl sha_okD(3) [OF assms(1)]] konstant_fold [of S "sha_rounds S"]
  by (simp_all add: schedule_def schedule_with_def konstant_def Let_def)

lemma fips_w_cong: "(\<And>i. i < 16 \<Longrightarrow> m i = m' i) \<Longrightarrow> fips_w S m t = fips_w S m' t"
proof (induction t rule: less_induct)
  case (less t)
  have "fips_w S m (t - k) = fips_w S m' (t - k)" if "0 < k" "16 \<le> t" for k using less that by simp
  then show ?case using less.prems by (subst (1 2) fips_w.simps) simp
qed

lemma fips_block_cong: "(\<And>i. i < 16 \<Longrightarrow> m i = m' i) \<Longrightarrow> fips_block S h m = fips_block S h m'"
  unfolding fips_block_def using fips_w_cong [of m m' S] by presburger

lemma schedule_compress_fips:
  assumes "sha_ok S" "length state = sha_state_words S" "length buffer = sha_rounds S"
    and "\<And>i. i < 16 \<Longrightarrow> buffer ! i = m i"
  shows "sha_compress S (schedule S buffer) state = fips_block S state m"
    "fst (schedule_compress S state buffer) = fips_block S state m"
    "length (snd (schedule_compress S state buffer)) = sha_rounds S"
proof -
  have "sha_compress S (schedule S buffer) state = fips_block S state (\<lambda>i. buffer ! i)"
    by (rule compress_fips [OF assms(1,2)]) (rule schedule_fips(2) [OF assms(1,3)])
  also have "\<dots> = fips_block S state m" using assms(4) by (intro fips_block_cong)
  finally show "sha_compress S (schedule S buffer) state = fips_block S state m" .
  then show "fst (schedule_compress S state buffer) = fips_block S state m"
    "length (snd (schedule_compress S state buffer)) = sha_rounds S"
    using schedule_fips(1) [OF assms(1,3)] by (simp_all add: schedule_compress_def Let_def)
qed

section \<open>Blocks\<close>

lemma length_put_words [simp]: "index + length ws \<le> length buffer \<Longrightarrow> length (put_words index ws buffer) = length buffer"
  by (simp add: put_words_def)

lemma put_words_nth:
  "index + length ws \<le> length buffer \<Longrightarrow> i < length buffer \<Longrightarrow>
    put_words index ws buffer ! i = (if index \<le> i \<and> i < index + length ws then ws ! (i - index) else buffer ! i)"
  by (auto simp: put_words_def nth_append)

lemma input_words_nth:
  assumes "index + count \<le> length buffer" "i < length buffer"
  shows "input_words S index count bs buffer ! i =
    (if index \<le> i \<and> i < index + count then from_big ((i - index) * sha_word_bytes S) bs else buffer ! i)"
  using assms by (auto simp: input_words_def put_words_nth)

lemma length_input_words [simp]: "index + count \<le> length buffer \<Longrightarrow> length (input_words S index count bs buffer) = length buffer"
  by (simp add: input_words_def)

lemma length_empty_buffer [simp]: "length (empty_buffer S) = sha_rounds S"
  by (simp add: empty_buffer_def)

lemma length_input [simp]:
  assumes "sha_ok S" "length buffer = sha_rounds S"
  shows "length (input_block S bs buffer) = sha_rounds S" "length (input_left S bs buffer) = sha_rounds S"
    "length (input_right S bs buffer) = sha_rounds S" "length (input_left_quarter S bs buffer) = sha_rounds S"
    "length (input_right_quarter S bs buffer) = sha_rounds S"
  using assms(2) sha_okD(3) [OF assms(1)]
  by (simp_all add: input_block_def input_left_def input_right_def input_left_quarter_def input_right_quarter_def
      input_words_def)

abbreviation block_words :: "('w::len) word sha \<Rightarrow> data_chunk \<Rightarrow> nat \<Rightarrow> 'w word" where
  "block_words S bs \<equiv> (\<lambda>t. from_big (t * sha_word_bytes S) bs)"

lemma length_fips_step [simp]: "length (fips_step S t w xs) = length xs"
  by (cases "(S, t, w, xs)" rule: fips_step.cases) (simp_all add: Let_def)

lemma length_fips_block [simp]: "length (fips_block S h m) = length h"
proof -
  have "length (fold (\<lambda>t. fips_step S t (fips_w S m t)) ts h) = length h" for ts
    by (induction ts arbitrary: h) simp_all
  then show ?thesis by (simp add: fips_block_def)
qed

lemma length_fips_fold [simp]: "length (fips_fold S h blocks) = length h"
  by (induction blocks arbitrary: h) (simp_all add: fips_fold_def)

lemma iterate_fips:
  assumes "sha_ok S" "length state = sha_state_words S"
  shows "iterate S state blocks = fips_fold S state blocks"
proof -
  have "fst (fold (\<lambda>block (state, buffer). schedule_compress S state (input_block S block buffer)) blocks (state, buffer)) =
      fips_fold S state blocks" if "length buffer = sha_rounds S" "length state = sha_state_words S" for buffer state
    using that
  proof (induction blocks arbitrary: state buffer)
    case (Cons block blocks)
    have at: "\<And>i. i < 16 \<Longrightarrow> input_block S block buffer ! i = block_words S block i"
      using Cons.prems(1) sha_okD(3) [OF assms(1)] by (simp add: input_block_def input_words_nth)
    obtain st buf where r: "schedule_compress S state (input_block S block buffer) = (st, buf)" by fastforce
    from schedule_compress_fips [OF assms(1) Cons.prems(2) length_input(1) [OF assms(1) Cons.prems(1)] at] r
    have "st = fips_block S state (block_words S block)" "length buf = sha_rounds S" by simp_all
    with Cons.IH [of buf st] Cons.prems(2) r show ?case by (simp add: fips_fold_def)
  qed (simp add: fips_fold_def)
  from this [OF _ assms(2), of "empty_buffer S"] show ?thesis by (simp add: iterate_def)
qed
section \<open>Words and bytes\<close>

lemma word_bytes_length:
  fixes S :: "('w::len) word sha"
  assumes "sha_ok S"
  shows "8 * sha_word_bytes S = LENGTH('w)" "4 \<le> sha_word_bytes S" "256 ^ sha_word_bytes S = (2 :: nat) ^ LENGTH('w)"
proof -
  show eq: "8 * sha_word_bytes S = LENGTH('w)" using assms by (simp add: sha_ok_def sha_word_bytes_def)
  show "4 \<le> sha_word_bytes S" using assms eq by (simp add: sha_ok_def)
  have "(256 :: nat) ^ sha_word_bytes S = (2 ^ 8) ^ sha_word_bytes S" by simp
  also have "\<dots> = 2 ^ LENGTH('w)" by (simp only: power_mult [symmetric] eq)
  finally show "256 ^ sha_word_bytes S = (2 :: nat) ^ LENGTH('w)" .
qed

lemma to_big_bytes: "to_big (w :: ('w::len) word) = be_bytes (sha_word_bytes (S :: 'w word sha)) (unat w)"
  by (simp add: to_big_def sha_word_bytes_def)

lemma length_to_big: "length (to_big (w :: ('w::len) word)) = sha_word_bytes (S :: 'w word sha)"
  by (simp add: to_big_def sha_word_bytes_def)

lemma from_big_to_big:
  fixes S :: "('w::len) word sha" and w :: "'w word"
  assumes "sha_ok S" "drop offset bs = to_big w @ rest"
  shows "from_big offset bs = w"
proof -
  have "take (LENGTH('w) div 8) (drop offset bs) = to_big w" using assms(2) by (simp add: to_big_def)
  moreover have "(256 :: nat) ^ (LENGTH('w) div 8) = 2 ^ LENGTH('w)"
    using word_bytes_length(3) [OF assms(1)] by (simp add: sha_word_bytes_def)
  ultimately show ?thesis by (simp add: from_big_def to_big_def be_value_be_bytes)
qed

lemma drop_concat_to_big:
  fixes S :: "('w::len) word sha" and ws :: "'w word list"
  shows "t \<le> length ws \<Longrightarrow> drop (t * sha_word_bytes S) (concat (map to_big ws) @ ys) = concat (map to_big (drop t ws)) @ ys"
proof (induction ws arbitrary: t)
  case (Cons w ws)
  then show ?case by (cases t) (simp_all add: length_to_big [of w S] add.commute)
qed simp

lemma from_big_concat:
  fixes S :: "('w::len) word sha" and ws :: "'w word list"
  assumes "sha_ok S" "t < length ws"
  shows "from_big (t * sha_word_bytes S) (concat (map to_big ws) @ ys) = ws ! t"
proof -
  have "drop t ws = ws ! t # drop (Suc t) ws" using assms(2) by (simp add: Cons_nth_drop_Suc)
  then have "drop (t * sha_word_bytes S) (concat (map to_big ws) @ ys) = to_big (ws ! t) @ concat (map to_big (drop (Suc t) ws)) @ ys"
    using drop_concat_to_big [of t ws S ys] assms(2) by (simp del: drop_append)
  then show ?thesis by (rule from_big_to_big [OF assms(1)])
qed

lemma le_bytes_append: "le_bytes (m + n) v = le_bytes m v @ le_bytes n (v div 256 ^ m)"
  by (induction m arbitrary: v) (simp_all add: div_mult2_eq)

lemma be_bytes_append: "be_bytes (m + n) v = be_bytes m (v div 256 ^ n) @ be_bytes n v"
  by (simp add: be_bytes_def add.commute [of m n] le_bytes_append)

lemma le_bytes_mod: "le_bytes n (v mod 256 ^ n) = le_bytes n v"
  by (induction n arbitrary: v) (simp_all add: mod_mult2_eq)

lemma be_bytes_mod: "be_bytes n (v mod 256 ^ n) = be_bytes n v"
  by (simp add: be_bytes_def le_bytes_mod)

lemma le_bytes_zero: "le_bytes n 0 = replicate n 0"
  by (induction n) simp_all

lemma be_bytes_zero: "be_bytes n 0 = replicate n 0"
  by (simp add: be_bytes_def le_bytes_zero)

lemma to_big_zero: "to_big (0 :: ('w::len) word) = replicate (sha_word_bytes (S :: 'w word sha)) 0"
  by (simp add: to_big_bytes [of _ S] be_bytes_zero)

lemma to_big_number:
  fixes S :: "('w::len) word sha"
  assumes "sha_ok S"
  shows "to_big (word_of_nat v :: 'w word) = be_bytes (sha_word_bytes S) v"
  using be_bytes_mod [of "sha_word_bytes S" v] word_bytes_length(3) [OF assms]
  by (simp add: to_big_bytes [of _ S] unat_of_nat)

lemma to_big_bit_hi:
  fixes S :: "('w::len) word sha"
  assumes "sha_ok S"
  shows "to_big (bit_hi :: 'w word) = 0x80 # replicate (sha_word_bytes S - 1) 0"
proof -
  let ?n = "sha_word_bytes S"
  have n: "8 * ?n = LENGTH('w)" "0 < ?n" using word_bytes_length [OF assms] by auto
  have "(128 :: nat) * 256 ^ (?n - 1) = 2 ^ 7 * (2 ^ 8) ^ (?n - 1)" by simp
  also have "\<dots> = 2 ^ (7 + 8 * (?n - 1))" by (simp only: power_mult [symmetric] power_add)
  also have "7 + 8 * (?n - 1) = LENGTH('w) - 1" using n by linarith
  finally have hi: "bit_hi = (word_of_nat (128 * 256 ^ (?n - 1)) :: 'w word)" by (simp add: bit_hi_def push_bit_eq_mult)
  have "be_bytes (1 + (?n - 1)) (128 * 256 ^ (?n - 1)) = 0x80 # replicate (?n - 1) 0"
    unfolding be_bytes_append
    using be_bytes_mod [of "?n - 1" "128 * 256 ^ (?n - 1)"] by (simp add: be_bytes_zero) (simp add: be_bytes_def)
  then show ?thesis unfolding hi to_big_number [OF assms] using n by simp
qed

section \<open>Padding\<close>

lemma chop_append:
  assumes "0 < n" "n dvd length xs"
  shows "chop n (xs @ ys) = chop n xs @ chop n ys"
  using assms
proof (induction n xs rule: chop.induct)
  case (1 n xs)
  show ?case
  proof (cases "length xs < n")
    case True
    then have "xs = []" using "1.prems" by (auto dest: dvd_imp_le)
    then show ?thesis using "1.prems"(1) by (simp add: chop.simps [of n "[]"])
  next
    case False
    then have "n dvd length (drop n xs)" using "1.prems" by (simp add: dvd_diff_nat)
    with "1.IH" False "1.prems"(1) have "chop n (drop n xs @ ys) = chop n (drop n xs) @ chop n ys" by simp
    with False "1.prems"(1) show ?thesis by (simp add: chop.simps [of n "xs @ ys"] chop.simps [of n xs])
  qed
qed

lemma chop_one: "0 < n \<Longrightarrow> length xs = n \<Longrightarrow> chop n xs = [xs]"
  by (simp add: chop.simps [of n xs] chop.simps [of n "[]"])

lemma chop_Nil [simp]: "0 < n \<Longrightarrow> chop n [] = []"
  by (simp add: chop.simps)

lemma chop_blocks: "0 < n \<Longrightarrow> \<forall>b \<in> set blocks. length b = n \<Longrightarrow> chop n (concat blocks) = blocks"
  by (induction blocks) (simp_all add: chop_append chop_one)

lemma fips_fold_append: "fips_fold S h (xs @ ys) = fips_fold S (fips_fold S h xs) ys"
  by (simp add: fips_fold_def)

text \<open>The hash of a message whose first blocks have been folded into a state.\<close>

definition fips_finish :: "('w::len) word sha \<Rightarrow> 'w word list \<Rightarrow> nat \<Rightarrow> data_chunk \<Rightarrow> 'w word list" where
  "fips_finish S h n rest = fips_fold S h (chop (sha_block_size S) (rest @ fips_pad S n))"

lemma block_size_pos: "sha_ok S \<Longrightarrow> 0 < sha_block_size S"
  using word_bytes_length(2) [of S] by (simp add: sha_block_size_def)

lemma fips_hash_finish:
  assumes "sha_ok S" "sha_block_size S dvd length pre"
  shows "fips_hash S (pre @ rest) = sha_output S (fips_finish S (fips_fold S (sha_h S) (chop (sha_block_size S) pre))
    (length pre + length rest) rest)"
  using block_size_pos [OF assms(1)] assms(2)
  by (simp add: fips_hash_def fips_finish_def chop_append fips_fold_append)

text \<open>A tail that fits a single padded block, given by its words.\<close>

lemma finish_words:
  fixes S :: "('w::len) word sha" and ws :: "'w word list"
  assumes "sha_ok S" "rest @ fips_pad S n = concat (map to_big ws)" "length ws = 16"
  shows "fips_finish S h n rest = fips_block S h (\<lambda>t. ws ! t)"
proof -
  have "length (concat (map to_big ws)) = sha_block_size S"
    using assms(3) by (simp add: length_concat comp_def length_to_big [of _ S] sum_list_triv sha_block_size_def)
  then have "chop (sha_block_size S) (rest @ fips_pad S n) = [concat (map to_big ws)]"
    using assms(2) block_size_pos [OF assms(1)] by (simp add: chop_one)
  then have "fips_finish S h n rest = fips_block S h (block_words S (concat (map to_big ws)))"
    by (simp add: fips_finish_def fips_fold_def)
  also have "\<dots> = fips_block S h (\<lambda>t. ws ! t)"
    using from_big_concat [OF assms(1), of _ ws "[]"] assms(3) by (intro fips_block_cong) simp
  finally show ?thesis .
qed

lemma concat_zero_words: "concat (replicate k (to_big (0 :: ('w::len) word))) = replicate (k * sha_word_bytes (S :: 'w word sha)) 0"
  by (induction k) (simp_all add: to_big_zero [of S] replicate_add)

lemma count_words:
  fixes S :: "('w::len) word sha"
  assumes "sha_ok S"
  shows "be_bytes (sha_count_bytes S) v = to_big (word_of_nat (v div 2 ^ LENGTH('w)) :: 'w word) @ to_big (word_of_nat v :: 'w word)"
  unfolding to_big_number [OF assms] sha_count_bytes_def mult_2 be_bytes_append word_bytes_length(3) [OF assms] ..

text \<open>The padding as words: the tail ends with a whole word, and leaves room for the count.\<close>

lemma fips_pad_words:
  fixes S :: "('w::len) word sha"
  assumes "sha_ok S" "n mod sha_block_size S = k * sha_word_bytes S" "k \<le> 13"
  shows "fips_pad S n = concat (map to_big (bit_hi # replicate (13 - k) 0 @
    [word_of_nat (8 * n div 2 ^ LENGTH('w)), word_of_nat (8 * n) :: 'w word]))"
proof -
  let ?w = "sha_word_bytes S"
  have w: "4 \<le> ?w" by (rule word_bytes_length(2) [OF assms(1)])
  have "2 * sha_block_size S - sha_count_bytes S - 1 - n mod sha_block_size S = (?w - 1 + (13 - k) * ?w) + sha_block_size S"
    unfolding assms(2) sha_count_bytes_def diff_mult_distrib using w mult_le_mono1 [OF assms(3), of ?w]
    by (simp only: sha_block_size_def)
  moreover have "?w - 1 + (13 - k) * ?w < sha_block_size S"
  proof -
    have "(13 - k) * ?w \<le> 13 * ?w" by (rule mult_le_mono1) simp
    then show ?thesis unfolding sha_block_size_def using w by linarith
  qed
  ultimately have zeros: "(2 * sha_block_size S - sha_count_bytes S - 1 - n mod sha_block_size S) mod sha_block_size S =
      ?w - 1 + (13 - k) * ?w" by simp
  show ?thesis
    unfolding fips_pad_def zeros Let_def count_words [OF assms(1)]
    by (simp add: to_big_bit_hi [OF assms(1)] concat_zero_words [of _ S] replicate_add)
qed

lemma length_pad_n:
  assumes "sha_ok S" "length buffer = sha_rounds S"
  shows "length (pad_n S blocks buffer) = sha_rounds S"
  using assms sha_okD(3) [OF assms(1)] by (simp add: pad_n_def Let_def sha_stream_pad_def)


lemma whole_count: "count_of_bits S blocks = (8 * (blocks * sha_block_size S)) mod 2 ^ (2 * LENGTH('w))"
  for S :: "('w::len) word sha"
  by (simp add: count_of_bits_def mult.commute)

lemma word_of_count:
  "word_of_nat (v mod 2 ^ (2 * LENGTH('w))) = (word_of_nat v :: ('w::len) word)"
  "word_of_nat (v mod 2 ^ (2 * LENGTH('w)) div 2 ^ LENGTH('w)) = (word_of_nat (v div 2 ^ LENGTH('w)) :: ('w::len) word)"
proof -
  have split: "(2 :: nat) ^ (2 * LENGTH('w)) = 2 ^ LENGTH('w) * 2 ^ LENGTH('w)" by (simp add: mult_2 power_add)
  have "v mod 2 ^ (2 * LENGTH('w)) mod 2 ^ LENGTH('w) = v mod 2 ^ LENGTH('w)" unfolding split by (simp add: mod_mult2_eq)
  then show "word_of_nat (v mod 2 ^ (2 * LENGTH('w))) = (word_of_nat v :: 'w word)" by (simp add: word_of_nat_eq_iff take_bit_eq_mod)
  have "v mod 2 ^ (2 * LENGTH('w)) div 2 ^ LENGTH('w) = v div 2 ^ LENGTH('w) mod 2 ^ LENGTH('w)"
    unfolding split by (simp add: mod_mult2_eq)
  then show "word_of_nat (v mod 2 ^ (2 * LENGTH('w)) div 2 ^ LENGTH('w)) = (word_of_nat (v div 2 ^ LENGTH('w)) :: 'w word)"
    by (simp add: word_of_nat_eq_iff take_bit_eq_mod)
qed

lemma nth_pad: "i < 16 \<Longrightarrow> (bit_hi # replicate 13 0 @ [x, y]) ! i = (if i = 0 then bit_hi else if i = 14 then x else if i = 15 then y else 0)"
  by (auto simp: nth_Cons nth_append split: nat.split)

lemma nth_stream_pad: "i < 14 \<Longrightarrow> sha_stream_pad S ! i = (if i = 0 then bit_hi else 0)" "length (sha_stream_pad S) = 14"
  by (auto simp: sha_stream_pad_def nth_Cons split: nat.split)

lemma pad_n_fips:
  fixes S :: "('w::len) word sha"
  assumes "sha_ok S" "length state = sha_state_words S" "length buffer = sha_rounds S"
  shows "sha_compress S (schedule S (pad_n S blocks buffer)) state = fips_finish S state (blocks * sha_block_size S) []"
proof -
  let ?n = "blocks * sha_block_size S"
  let ?ws = "bit_hi # replicate 13 0 @ [word_of_nat (8 * ?n div 2 ^ LENGTH('w)), word_of_nat (8 * ?n) :: 'w word]"
  have "pad_n S blocks buffer ! i = ?ws ! i" if "i < 16" for i
    using that assms(3) sha_okD(3) [OF assms(1)]
    by (auto simp: pad_n_def Let_def nth_pad put_words_nth nth_stream_pad nth_list_update hi_word_def lo_word_def
        whole_count word_of_count)
  from schedule_compress_fips(1) [OF assms(1,2) length_pad_n [OF assms(1,3)] this]
  have "sha_compress S (schedule S (pad_n S blocks buffer)) state = fips_block S state (\<lambda>t. ?ws ! t)" .
  moreover have "[] @ fips_pad S ?n = concat (map to_big ?ws)"
    using fips_pad_words [OF assms(1), of ?n 0] by simp
  ultimately show ?thesis using finish_words [OF assms(1), of "[]" ?n ?ws state] by simp
qed

text \<open>The constants that the compiler computes for whole blocks are the ones of the standard.\<close>

lemma scheduled_pad_fips:
  fixes S :: "('w::len) word sha"
  assumes "sha_ok S" "length state = sha_state_words S" "8 * (blocks * sha_block_size S) < 2 ^ LENGTH('w)"
  shows "sha_compress S (scheduled_pad S blocks) state = fips_finish S state (blocks * sha_block_size S) []"
proof -
  let ?n = "blocks * sha_block_size S"
  let ?ws = "bit_hi # replicate 13 0 @ [word_of_nat (8 * ?n div 2 ^ LENGTH('w)), word_of_nat (8 * ?n) :: 'w word]"
  let ?b = "(empty_buffer S)[0 := bit_hi, 15 := word_of_nat (?n * 8)]"
  have "?b ! i = ?ws ! i" if "i < 16" for i
    using that assms(3) sha_okD(3) [OF assms(1)] by (auto simp: nth_pad nth_list_update empty_buffer_def mult.commute)
  from schedule_compress_fips(1) [OF assms(1,2) _ this]
  have "sha_compress S (scheduled_pad S blocks) state = fips_block S state (\<lambda>t. ?ws ! t)" by (simp add: scheduled_pad_def)
  moreover have "[] @ fips_pad S ?n = concat (map to_big ?ws)"
    using fips_pad_words [OF assms(1), of ?n 0] by simp
  ultimately show ?thesis using finish_words [OF assms(1), of "[]" ?n ?ws state] by simp
qed

lemma small_count:
  fixes S :: "('w::len) word sha"
  assumes "sha_ok S" "x \<le> 1024 * sha_word_bytes S"
  shows "x < 2 ^ LENGTH('w)"
proof -
  have "LENGTH('w) < 2 ^ (LENGTH('w) - 16) * 64"
  proof -
    obtain k where k: "LENGTH('w) = 16 + k" using assms(1) by (auto simp: sha_ok_def nat_le_iff_add)
    have "16 \<le> k" using assms(1) k by (simp add: sha_ok_def)
    with less_exp [of k] have "16 + k < 2 ^ k * 64" by linarith
    then show ?thesis by (simp add: k)
  qed
  then have "128 * LENGTH('w) < 2 ^ (LENGTH('w) - 16) * 2 ^ 16" by simp
  also have "\<dots> = (2 :: nat) ^ (LENGTH('w) - 16 + 16)" by (rule power_add [symmetric])
  also have "LENGTH('w) - 16 + 16 = LENGTH('w)" using assms(1) by (simp add: sha_ok_def)
  finally show ?thesis using assms(2) word_bytes_length(1) [OF assms(1)] by simp
qed

lemma schedule_n_fips:
  fixes S :: "('w::len) word sha"
  assumes "sha_ok S" "length state = sha_state_words S" "length buffer = sha_rounds S"
  shows "sha_compress S (schedule_n S blocks buffer) state = fips_finish S state (blocks * sha_block_size S) []"
    "length (schedule_n S blocks buffer) = sha_rounds S"
proof -
  have "8 * (blocks * sha_block_size S) < 2 ^ LENGTH('w)" if "blocks \<le> 4"
    by (rule small_count [OF assms(1)]) (use that in \<open>simp add: sha_block_size_def\<close>)
  with scheduled_pad_fips [OF assms(1,2), of blocks] pad_n_fips [OF assms, of blocks]
  show "sha_compress S (schedule_n S blocks buffer) state = fips_finish S state (blocks * sha_block_size S) []"
    by (auto simp: schedule_n_def)
  show "length (schedule_n S blocks buffer) = sha_rounds S"
    by (simp add: schedule_n_def scheduled_pad_def schedule_fips(1) [OF assms(1)] length_pad_n [OF assms(1,3)])
qed

text \<open>A half block after some blocks.\<close>

lemma length_chunk_pad [simp]: "length (chunk_pad S blocks) = 8"
  by (simp add: chunk_pad_def Let_def)

lemma nth_chunk_pad:
  "i < 8 \<Longrightarrow> chunk_pad S blocks ! i = (if i = 0 then bit_hi else if i = 7
    then word_of_nat (8 * (blocks * sha_block_size S + sha_half_size S)) else 0)"
  by (auto simp: chunk_pad_def Let_def nth_list_update algebra_simps)

lemma nth_half_pad:
  "i < 16 \<Longrightarrow> length ws = 8 \<Longrightarrow> (ws @ bit_hi # replicate 5 0 @ [x, y]) ! i =
    (if i < 8 then ws ! i else if i = 8 then bit_hi else if i = 14 then x else if i = 15 then y else 0)"
  by (auto simp: nth_append nth_Cons split: nat.split)

lemma pad_half_fips:
  fixes S :: "('w::len) word sha" and ws :: "'w word list"
  assumes "sha_ok S" "length state = sha_state_words S" "length buffer = sha_rounds S" "blocks \<le> 2"
    and "length ws = 8" "\<And>i. i < 8 \<Longrightarrow> buffer ! i = ws ! i"
  shows "fst (schedule_compress S state (pad_half S blocks buffer)) =
      fips_finish S state (blocks * sha_block_size S + sha_half_size S) (concat (map to_big ws))"
    "length (pad_half S blocks buffer) = sha_rounds S"
proof -
  let ?n = "blocks * sha_block_size S + sha_half_size S"
  let ?ws = "ws @ bit_hi # replicate 5 0 @ [word_of_nat (8 * ?n div 2 ^ LENGTH('w)), word_of_nat (8 * ?n) :: 'w word]"
  have l: "8 + length (chunk_pad S blocks) \<le> length buffer" using assms(3) sha_okD(3) [OF assms(1)] by simp
  then show len: "length (pad_half S blocks buffer) = sha_rounds S" using assms(3) by (simp add: pad_half_def)
  have "8 * ?n < 2 ^ LENGTH('w)"
    by (rule small_count [OF assms(1)]) (use assms(4) mult_le_mono1 [OF assms(4), of "128 * sha_word_bytes S"]
      in \<open>simp add: sha_block_size_def sha_half_size_def\<close>)
  then have hi: "8 * ?n div 2 ^ LENGTH('w) = 0" by simp
  have at: "pad_half S blocks buffer ! i = ?ws ! i" if "i < 16" for i
  proof -
    have "i < length buffer" using that l by simp
    then have "pad_half S blocks buffer ! i = (if 8 \<le> i \<and> i < 16 then chunk_pad S blocks ! (i - 8) else buffer ! i)"
      using put_words_nth [OF l, of i] by (simp add: pad_half_def)
    then show ?thesis unfolding nth_half_pad [OF that assms(5)] hi
      using that assms(6) [of i] nth_chunk_pad [of "i - 8" S blocks] by auto
  qed
  have "?n mod sha_block_size S = 8 * sha_word_bytes S"
    using word_bytes_length(2) [OF assms(1)] by (simp add: sha_block_size_def sha_half_size_def)
  from fips_pad_words [OF assms(1) this] have "concat (map to_big ws) @ fips_pad S ?n = concat (map to_big ?ws)" by simp
  from finish_words [OF assms(1) this, of state] assms(5)
  have "fips_finish S state ?n (concat (map to_big ws)) = fips_block S state (\<lambda>t. ?ws ! t)" by simp
  with schedule_compress_fips(2) [OF assms(1,2) len at]
  show "fst (schedule_compress S state (pad_half S blocks buffer)) = fips_finish S state ?n (concat (map to_big ws))" by simp
qed

section \<open>Hashes\<close>

lemma to_big_from_big:
  fixes S :: "('w::len) word sha"
  assumes "sha_ok S" "offset + sha_word_bytes S \<le> length bs"
  shows "to_big (from_big offset bs :: 'w word) = take (sha_word_bytes S) (drop offset bs)"
proof -
  have len: "length (take (sha_word_bytes S) (drop offset bs)) = sha_word_bytes S" using assms(2) by simp
  have "to_big (from_big offset bs :: 'w word) = be_bytes (sha_word_bytes S) (be_value (take (sha_word_bytes S) (drop offset bs)))"
    unfolding from_big_def to_big_number [OF assms(1)] by (simp add: sha_word_bytes_def)
  also have "\<dots> = take (sha_word_bytes S) (drop offset bs)"
    using be_bytes_be_value [of "take (sha_word_bytes S) (drop offset bs)"] unfolding len .
  finally show ?thesis .
qed

lemma concat_slices: "concat (map (\<lambda>i. take w (drop (i * w) bs)) [0..<k]) = take (k * w) bs"
  by (induction k) (simp_all add: add.commute [of w] take_add)

lemma concat_words:
  fixes S :: "('w::len) word sha"
  assumes "sha_ok S" "length bs = k * sha_word_bytes S"
  shows "concat (map to_big (map (\<lambda>i. from_big (i * sha_word_bytes S) bs :: 'w word) [0..<k])) = bs"
proof -
  have "to_big (from_big (i * sha_word_bytes S) bs :: 'w word) = take (sha_word_bytes S) (drop (i * sha_word_bytes S) bs)"
    if "i < k" for i
    using mult_le_mono1 [of "Suc i" k "sha_word_bytes S"] that assms(2)
    by (intro to_big_from_big [OF assms(1)]) (simp add: add.commute)
  then have eq: "map to_big (map (\<lambda>i. from_big (i * sha_word_bytes S) bs :: 'w word) [0..<k]) =
      map (\<lambda>i. take (sha_word_bytes S) (drop (i * sha_word_bytes S) bs)) [0..<k]" by simp
  show ?thesis unfolding eq using concat_slices [of "sha_word_bytes S" bs k] assms(2) by simp
qed

lemma sha_h_length: "sha_ok S \<Longrightarrow> length (sha_h S) = sha_state_words S"
  by (simp add: sha_ok_def)

lemma half_words:
  fixes S :: "('w::len) word sha"
  assumes "sha_ok S" "length half = sha_half_size S" "length state = sha_state_words S" "length buffer = sha_rounds S" "blocks \<le> 2"
  shows "fst (schedule_compress S state (pad_half S blocks (input_left S half buffer))) =
      fips_finish S state (blocks * sha_block_size S + sha_half_size S) half"
    "length (snd (schedule_compress S state (pad_half S blocks (input_left S half buffer)))) = sha_rounds S"
proof -
  let ?ws = "map (\<lambda>i. from_big (i * sha_word_bytes S) half :: 'w word) [0..<8]" and ?b = "input_left S half buffer"
  have at: "?b ! i = ?ws ! i" if "i < 8" for i
    using that sha_okD(3) [OF assms(1)] assms(4) by (simp add: input_left_def input_words_nth)
  have len: "length ?b = sha_rounds S" by (rule length_input(2) [OF assms(1,4)])
  have "concat (map to_big ?ws) = half" using assms(2) by (intro concat_words [OF assms(1)]) (simp add: sha_half_size_def)
  with pad_half_fips(1) [OF assms(1,3) len assms(5) _ at]
  show "fst (schedule_compress S state (pad_half S blocks ?b)) = fips_finish S state (blocks * sha_block_size S + sha_half_size S) half"
    by simp
  have "length (pad_half S blocks ?b) = sha_rounds S" by (rule pad_half_fips(2) [OF assms(1,3) len assms(5) _ at]) simp
  from schedule_compress_fips(3) [OF assms(1,3) this refl]
  show "length (snd (schedule_compress S state (pad_half S blocks ?b))) = sha_rounds S" .
qed

lemma hash_half_fips:
  assumes "sha_ok S" "length half = sha_half_size S"
  shows "hash_half S half = fips_hash S half"
  using half_words(1) [OF assms sha_h_length [OF assms(1)] length_empty_buffer, of 0]
    fips_hash_finish [OF assms(1), of "[]" half] assms(2) block_size_pos [OF assms(1)] by (simp add: hash_half_def fips_fold_def)

lemma from_big_append:
  fixes S :: "('w::len) word sha"
  assumes "length left = k * sha_word_bytes S"
  shows "i < k \<Longrightarrow> (from_big (i * sha_word_bytes S) (left @ right) :: 'w word) = from_big (i * sha_word_bytes S) left"
    "(from_big ((k + i) * sha_word_bytes S) (left @ right) :: 'w word) = from_big (i * sha_word_bytes S) right"
proof -
  show "(from_big (i * sha_word_bytes S) (left @ right) :: 'w word) = from_big (i * sha_word_bytes S) left" if "i < k"
    using mult_le_mono1 [of "Suc i" k "sha_word_bytes S"] that assms
    by (simp add: from_big_def sha_word_bytes_def [symmetric, of S])
  show "(from_big ((k + i) * sha_word_bytes S) (left @ right) :: 'w word) = from_big (i * sha_word_bytes S) right"
    using assms by (simp add: from_big_def distrib_right)
qed

text \<open>Two halves fill the buffer like the block they make.\<close>

lemma two_halves:
  fixes S :: "('w::len) word sha"
  assumes "sha_ok S" "length left = sha_half_size S" "length buffer = sha_rounds S" "i < 16"
  shows "input_right S right (input_left S left buffer) ! i = block_words S (left @ right) i"
proof -
  have l: "length left = 8 * sha_word_bytes S" using assms(2) by (simp add: sha_half_size_def)
  have "16 \<le> length buffer" using assms(1,3) sha_okD(3) by simp
  moreover have "(from_big (i * sha_word_bytes S) (left @ right) :: 'w word) = from_big ((i - 8) * sha_word_bytes S) right" if "8 \<le> i"
    using from_big_append(2) [OF l, of "i - 8" right] that by simp
  ultimately show ?thesis
    using assms(4) from_big_append(1) [OF l, of i right]
    by (auto simp: input_left_def input_right_def input_words_nth)
qed

lemma hash_one_block:
  fixes S :: "('w::len) word sha"
  assumes "sha_ok S" "length block = sha_block_size S" "length buffer = sha_rounds S" "\<And>i. i < 16 \<Longrightarrow> buffer ! i = block_words S block i"
  shows "fst (schedule_compress S (sha_h S) buffer) = fips_fold S (sha_h S) [block]"
  using schedule_compress_fips(2) [OF assms(1) sha_h_length [OF assms(1)] assms(3,4)] by (simp add: fips_fold_def)

lemma fips_hash_blocks:
  assumes "sha_ok S" "\<forall>b \<in> set blocks. length b = sha_block_size S"
  shows "fips_hash S (concat blocks) =
    sha_output S (fips_finish S (fips_fold S (sha_h S) blocks) (length blocks * sha_block_size S) [])"
proof -
  have "length (concat blocks) = length blocks * sha_block_size S"
    using assms(2) by (induction blocks) simp_all
  then show ?thesis
    using fips_hash_finish [OF assms(1), of "concat blocks" "[]"] chop_blocks [OF block_size_pos [OF assms(1)] assms(2)] by simp
qed

lemma schedule_1_fips:
  fixes S :: "('w::len) word sha"
  assumes "sha_ok S" "length state = sha_state_words S"
  shows "sha_compress S (schedule_1 S buffer) state = fips_finish S state (sha_block_size S) []"
    "length (schedule_1 S buffer) = sha_rounds S"
proof -
  have "8 * (1 * sha_block_size S) < 2 ^ LENGTH('w)" by (rule small_count [OF assms(1)]) (simp add: sha_block_size_def)
  from scheduled_pad_fips [OF assms this] show "sha_compress S (schedule_1 S buffer) state = fips_finish S state (sha_block_size S) []"
    by (simp add: schedule_1_def)
  show "length (schedule_1 S buffer) = sha_rounds S" by (simp add: schedule_1_def scheduled_pad_def schedule_fips(1) [OF assms(1)])
qed

lemma hash_blocks_fips:
  assumes "sha_ok S" "\<forall>b \<in> set blocks. length b = sha_block_size S"
  shows "hash_blocks S blocks = fips_hash S (concat blocks)"
  using schedule_n_fips(1) [OF assms(1), of "fips_fold S (sha_h S) blocks" "empty_buffer S" "length blocks"] fips_hash_blocks [OF assms]
  by (simp add: hash_blocks_def sha_finalize_def iterate_fips [OF assms(1)] sha_h_length [OF assms(1)])

lemma hash_blocks_array_fips:
  fixes S :: "('w::len) word sha"
  assumes "sha_ok S" "\<forall>b \<in> set blocks. length b = sha_block_size S" "8 * (length blocks * sha_block_size S) < 2 ^ LENGTH('w)"
  shows "hash_blocks_array S blocks = fips_hash S (concat blocks)"
  using scheduled_pad_fips [OF assms(1) _ assms(3), of "fips_fold S (sha_h S) blocks"] fips_hash_blocks [OF assms(1,2)]
  by (simp add: hash_blocks_array_def finalize_array_def iterate_fips [OF assms(1)] sha_h_length [OF assms(1)])

lemma hash_halves_fips:
  assumes "sha_ok S" "length left = sha_half_size S" "length right = sha_half_size S"
  shows "hash_halves S left right = fips_hash S (left @ right)"
proof -
  let ?b = "input_right S right (input_left S left (empty_buffer S))"
  have block: "length (left @ right) = sha_block_size S" using assms by (simp add: sha_half_size_def sha_block_size_def)
  have len: "length ?b = sha_rounds S" using length_input [OF assms(1)] by simp
  obtain st buf where r: "schedule_compress S (sha_h S) ?b = (st, buf)" by fastforce
  have st: "st = fips_fold S (sha_h S) [left @ right]"
    using hash_one_block [OF assms(1) block len two_halves [OF assms(1,2)]] r by simp
  then have "length st = sha_state_words S" by (simp add: sha_h_length [OF assms(1)])
  from schedule_1_fips(1) [OF assms(1) this] fips_hash_blocks [OF assms(1), of "[left @ right]"] block st
  show ?thesis by (simp add: hash_halves_def r)
qed

text \<open>The second hash reads its message from the state of the first.\<close>

definition full_digest :: "('w::len) word sha \<Rightarrow> bool" where
  "full_digest S \<longleftrightarrow> sha_state_words S = 8 \<and> sha_digest S = 8 * sha_half_size S"

lemma output_full:
  assumes "full_digest S" "length state = sha_state_words S"
  shows "sha_output S state = concat (map to_big state)" "length (sha_output S state) = sha_half_size S"
  using assms by (simp_all add: full_digest_def sha_output_def length_concat comp_def length_to_big [of _ S] sum_list_triv
      sha_half_size_def)

lemma second_hash_fips:
  assumes "sha_ok S" "full_digest S" "length state = sha_state_words S" "length buffer = sha_rounds S"
  shows "second_hash S state buffer = fips_hash S (sha_output S state)"
proof -
  let ?b = "inject_left_half state buffer"
  have l: "0 + length state \<le> length buffer" using assms sha_okD(3) [OF assms(1)] by (simp add: full_digest_def)
  then have at: "?b ! i = state ! i" if "i < 8" for i
    using that put_words_nth [OF l, of i] assms(2,3) by (simp add: inject_left_half_def full_digest_def)
  have "length ?b = sha_rounds S" using l assms(4) by (simp add: inject_left_half_def)
  from pad_half_fips(1) [OF assms(1) sha_h_length [OF assms(1)] this, of 0 state] at assms(2,3)
  have "fst (schedule_compress S (sha_h S) (pad_half S 0 ?b)) = fips_finish S (sha_h S) (sha_half_size S) (sha_output S state)"
    by (simp add: full_digest_def output_full)
  then show ?thesis using fips_hash_finish [OF assms(1), of "[]" "sha_output S state"] output_full(2) [OF assms(2,3)]
    block_size_pos [OF assms(1)] by (simp add: second_hash_def fips_fold_def)
qed
lemma finalize_double_fips:
  assumes "sha_ok S" "full_digest S" "length state = sha_state_words S"
  shows "finalize_double S state blocks = fips_hash S (sha_output S (fips_finish S state (blocks * sha_block_size S) []))"
    "finalize_second S state = fips_hash S (sha_output S state)"
proof -
  let ?b = "schedule_n S blocks (empty_buffer S)"
  have st: "sha_compress S ?b state = fips_finish S state (blocks * sha_block_size S) []" and len: "length ?b = sha_rounds S"
    using schedule_n_fips [OF assms(1,3)] by simp_all
  have "length (sha_compress S ?b state) = sha_state_words S" using assms(3) by (simp add: st fips_finish_def)
  from second_hash_fips [OF assms(1,2) this len] st
  show "finalize_double S state blocks = fips_hash S (sha_output S (fips_finish S state (blocks * sha_block_size S) []))"
    by (simp add: finalize_double_def second_hash_def Let_def)
  show "finalize_second S state = fips_hash S (sha_output S state)"
    using second_hash_fips [OF assms(1-3) length_empty_buffer] by (simp add: finalize_second_def second_hash_def)
qed

lemma double_hash_blocks_fips:
  assumes "sha_ok S" "full_digest S" "\<forall>b \<in> set blocks. length b = sha_block_size S"
  shows "double_hash_blocks S blocks = fips_hash S (fips_hash S (concat blocks))"
  using finalize_double_fips(1) [OF assms(1,2), of "fips_fold S (sha_h S) blocks"] fips_hash_blocks [OF assms(1,3)]
  by (simp add: double_hash_blocks_def iterate_fips [OF assms(1)] sha_h_length [OF assms(1)])

text \<open>One block in the buffer, padded and hashed again in place.\<close>

lemma double_block:
  assumes "sha_ok S" "full_digest S" "length block = sha_block_size S" "length buffer = sha_rounds S"
    and "\<And>i. i < 16 \<Longrightarrow> buffer ! i = block_words S block i"
  shows "(let (state, buffer) = schedule_compress S (sha_h S) buffer; scheduled = schedule_1 S buffer in
      second_hash S (sha_compress S scheduled state) scheduled) = fips_hash S (fips_hash S block)"
proof -
  obtain st buf where r: "schedule_compress S (sha_h S) buffer = (st, buf)" by fastforce
  have st: "st = fips_fold S (sha_h S) [block]" using hash_one_block [OF assms(1,3,4,5)] r by simp
  then have len: "length st = sha_state_words S" by (simp add: sha_h_length [OF assms(1)])
  have second: "sha_compress S (schedule_1 S buf) st = fips_finish S st (sha_block_size S) []" by (rule schedule_1_fips(1) [OF assms(1) len])
  then have "length (sha_compress S (schedule_1 S buf) st) = sha_state_words S" using len by (simp add: fips_finish_def)
  from second_hash_fips [OF assms(1,2) this schedule_1_fips(2) [OF assms(1) len]] second
    fips_hash_blocks [OF assms(1), of "[block]"] assms(3) st
  show ?thesis by (simp add: r)
qed

lemma double_hash_block_fips:
  assumes "sha_ok S" "full_digest S" "length block = sha_block_size S"
  shows "double_hash_block S block = fips_hash S (fips_hash S block)"
  unfolding double_hash_block_def
  by (rule double_block [OF assms]) (use sha_okD(3) [OF assms(1)] in \<open>simp_all add: input_block_def input_words_nth\<close>)

lemma double_hash_halves_fips:
  assumes "sha_ok S" "full_digest S" "length left = sha_half_size S" "length right = sha_half_size S"
  shows "double_hash_halves S left right = fips_hash S (fips_hash S (left @ right))"
  unfolding double_hash_halves_def
  by (rule double_block [OF assms(1,2) _ _ two_halves [OF assms(1,3)]])
    (use assms(3,4) length_input [OF assms(1)] in \<open>simp_all add: sha_half_size_def sha_block_size_def\<close>)

lemma double_hash_half_fips:
  assumes "sha_ok S" "full_digest S" "length half = sha_half_size S"
  shows "double_hash_half S half = fips_hash S (fips_hash S half)"
proof -
  obtain st buf where r: "schedule_compress S (sha_h S) (pad_half S 0 (input_left S half (empty_buffer S))) = (st, buf)" by fastforce
  note h = half_words [OF assms(1,3) sha_h_length [OF assms(1)] length_empty_buffer, of 0]
  have st: "st = fips_finish S (sha_h S) (sha_half_size S) half" and buf: "length buf = sha_rounds S" using h r by simp_all
  have "length st = sha_state_words S" by (simp add: st fips_finish_def sha_h_length [OF assms(1)])
  from second_hash_fips [OF assms(1,2) this buf] fips_hash_finish [OF assms(1), of "[]" half] assms(3) block_size_pos [OF assms(1)]
  show ?thesis by (simp add: double_hash_half_def r st fips_fold_def)
qed

section \<open>Midstates and short messages\<close>

lemma midstate_fips:
  assumes "sha_ok S" "length left = sha_half_size S" "length right = sha_half_size S"
  shows "midstate S left right = fips_fold S (sha_h S) [left @ right]"
  unfolding midstate_def
  by (rule hash_one_block [OF assms(1) _ _ two_halves [OF assms(1,2)]])
    (use assms(2,3) length_input [OF assms(1)] in \<open>simp_all add: sha_half_size_def sha_block_size_def\<close>)

lemma hash_midstate_halves_fips:
  assumes "sha_ok S" "\<And>h. h \<in> set [left, right, first, second, third] \<Longrightarrow> length h = sha_half_size S"
  shows "hash_midstate_halves S (midstate S left right) first second third =
    fips_hash S (left @ right @ first @ second @ third)"
proof -
  let ?b = "input_right S second (input_left S first (empty_buffer S))" and ?m = "midstate S left right"
  have m: "?m = fips_fold S (sha_h S) [left @ right]" using midstate_fips [OF assms(1)] assms(2) by simp
  have len: "length ?m = sha_state_words S" by (simp add: m sha_h_length [OF assms(1)])
  obtain st buf where r: "schedule_compress S ?m ?b = (st, buf)" by fastforce
  have "fst (schedule_compress S ?m ?b) = fips_block S ?m (block_words S (first @ second))" "length (snd (schedule_compress S ?m ?b)) = sha_rounds S"
    using schedule_compress_fips(2,3) [OF assms(1) len, of ?b "block_words S (first @ second)"] two_halves [OF assms(1), of first "empty_buffer S"]
      length_input [OF assms(1)] assms(2) by simp_all
  then have st: "st = fips_fold S ?m [first @ second]" and buf: "length buf = sha_rounds S" by (simp_all add: r fips_fold_def)
  have "length st = sha_state_words S" using len by (simp add: st)
  from half_words(1) [OF assms(1) _ this buf, of third 2] assms(2)
  have "fst (schedule_compress S st (pad_half S 2 (input_left S third buf))) = fips_finish S st (2 * sha_block_size S + sha_half_size S) third"
    by simp
  moreover have "st = fips_fold S (sha_h S) (chop (sha_block_size S) (concat [left @ right, first @ second]))"
  proof -
    have "chop (sha_block_size S) (concat [left @ right, first @ second]) = [left @ right, first @ second]"
      using assms(2) by (intro chop_blocks [OF block_size_pos [OF assms(1)]]) (simp add: sha_half_size_def sha_block_size_def)
    then show ?thesis unfolding st m by (simp add: fips_fold_def)
  qed
  ultimately show ?thesis
    using fips_hash_finish [OF assms(1), of "left @ right @ first @ second" third] assms(2)
    by (simp add: hash_midstate_halves_def r sha_half_size_def sha_block_size_def mult_2)
qed
lemma simple_pad_fips:
  fixes S :: "('w::len) word sha"
  assumes "sha_ok S" "length bytes \<le> sha_space S" "prior = p * sha_block_size S" "p \<le> 1"
  shows "simple_pad S (length bytes) prior (put_words 0 bytes (replicate (sha_block_size S) 0)) =
    bytes @ fips_pad S (prior + length bytes)"
    "length (bytes @ fips_pad S (prior + length bytes)) = sha_block_size S"
proof -
  let ?w = "sha_word_bytes S" and ?B = "sha_block_size S" and ?n = "length bytes"
  have w: "4 \<le> ?w" by (rule word_bytes_length(2) [OF assms(1)])
  have n: "?n \<le> 14 * ?w - 1" using assms(2) by (simp add: sha_space_def sha_block_size_def sha_count_bytes_def)
  have "?n < ?B" using n w by (simp add: sha_block_size_def)
  then have "(prior + ?n) mod ?B = ?n" by (simp add: assms(3))
  moreover have "2 * ?B - sha_count_bytes S - 1 - ?n = (14 * ?w - 1 - ?n) + ?B"
    using n w by (simp add: sha_block_size_def sha_count_bytes_def)
  ultimately have zeros: "(2 * ?B - sha_count_bytes S - 1 - (prior + ?n) mod ?B) mod ?B = 14 * ?w - 1 - ?n"
    using w by (simp add: sha_block_size_def)
  have "prior + ?n \<le> 32 * ?w" using assms(3,4) n by (cases p) (auto simp: sha_block_size_def)
  then have "8 * (prior + ?n) < 2 ^ LENGTH('w)" by (intro small_count [OF assms(1)]) simp
  then have count: "be_bytes (sha_count_bytes S) (8 * (prior + ?n)) = replicate ?w 0 @ be_bytes ?w (8 * (prior + ?n))"
    unfolding sha_count_bytes_def mult_2 be_bytes_append word_bytes_length(3) [OF assms(1)] by (simp add: be_bytes_zero)
  have pad: "fips_pad S (prior + ?n) = 0x80 # replicate (14 * ?w - 1 - ?n) 0 @ replicate ?w 0 @ be_bytes ?w (8 * (prior + ?n))"
    unfolding fips_pad_def zeros count Let_def by simp
  then show "length (bytes @ fips_pad S (prior + ?n)) = ?B" using n w by (simp add: sha_block_size_def)
  have split: "?B - ?w - ?n = Suc (14 * ?w - 1 - ?n + ?w)" using n w by (simp add: sha_block_size_def)
  have "put_words (?B - ?w) (be_bytes ?w ((prior + ?n) * 8)) (put_words 0 bytes (replicate ?B 0)) =
      bytes @ replicate (?B - ?w - ?n) 0 @ be_bytes ?w (8 * (prior + ?n))"
    using n w by (simp add: put_words_def sha_block_size_def mult.commute)
  then show "simple_pad S ?n prior (put_words 0 bytes (replicate ?B 0)) = bytes @ fips_pad S (prior + ?n)"
    unfolding simple_pad_def pad split by (simp add: replicate_add)
qed

lemma simple_hash_fips:
  assumes "sha_ok S" "length bytes \<le> sha_space S"
  shows "simple_hash S bytes = fips_hash S bytes"
proof -
  let ?block = "bytes @ fips_pad S (length bytes)"
  note pad = simple_pad_fips [OF assms, of 0 0, simplified]
  have "\<And>i. i < 16 \<Longrightarrow> input_block S ?block (empty_buffer S) ! i = block_words S ?block i"
    using sha_okD(3) [OF assms(1)] by (simp add: input_block_def input_words_nth)
  from hash_one_block [OF assms(1) _ length_input(1) [OF assms(1) length_empty_buffer] this] pad(2)
  have "fst (schedule_compress S (sha_h S) (input_block S ?block (empty_buffer S))) = fips_fold S (sha_h S) [?block]" by simp
  then show ?thesis
    using pad block_size_pos [OF assms(1)] chop_one [of "sha_block_size S" ?block]
    by (simp add: simple_hash_def fips_hash_def)
qed

lemma hash_midstate_bytes_fips:
  assumes "sha_ok S" "length left = sha_half_size S" "length right = sha_half_size S" "length bytes \<le> sha_space S"
  shows "hash_midstate_bytes S (midstate S left right) bytes = fips_hash S (left @ right @ bytes)"
proof -
  let ?block = "bytes @ fips_pad S (sha_block_size S + length bytes)" and ?m = "midstate S left right"
  note pad = simple_pad_fips [OF assms(1,4), of "sha_block_size S" 1, simplified]
  have lr: "length (left @ right) = sha_block_size S" using assms(2,3) by (simp add: sha_half_size_def sha_block_size_def)
  have m: "?m = fips_fold S (sha_h S) [left @ right]" by (rule midstate_fips [OF assms(1-3)])
  then have len: "length ?m = sha_state_words S" by (simp add: sha_h_length [OF assms(1)])
  have at: "\<And>i. i < 16 \<Longrightarrow> input_block S ?block (empty_buffer S) ! i = block_words S ?block i"
    using sha_okD(3) [OF assms(1)] by (simp add: input_block_def input_words_nth)
  have "hash_midstate_bytes S ?m bytes = sha_output S (fips_fold S ?m [?block])"
    using schedule_compress_fips(2) [OF assms(1) len length_input(1) [OF assms(1) length_empty_buffer] at] pad(1)
    by (simp add: hash_midstate_bytes_def fips_fold_def)
  moreover have "chop (sha_block_size S) (left @ right) = [left @ right]" using chop_one [OF block_size_pos [OF assms(1)] lr] .
  ultimately show ?thesis
    using fips_hash_finish [OF assms(1), of "left @ right" bytes] lr pad(2) chop_one [of "sha_block_size S" ?block] block_size_pos [OF assms(1)]
    by (simp add: fips_finish_def m)
qed

lemma hash_quarters_fips:
  fixes S :: "('w::len) word sha"
  assumes "sha_ok S" "length left = 4 * sha_word_bytes S" "length right = 4 * sha_word_bytes S"
  shows "hash_quarters S left right = fips_hash S (left @ right)"
proof -
  let ?b = "input_right_quarter S right (input_left_quarter S left (empty_buffer S))"
  let ?ws = "map (\<lambda>i. from_big (i * sha_word_bytes S) (left @ right) :: 'w word) [0..<8]"
  have at: "?b ! i = ?ws ! i" if "i < 8" for i
    using that sha_okD(3) [OF assms(1)] from_big_append(1) [OF assms(2), of i right] from_big_append(2) [OF assms(2), of "i - 4" right]
    by (auto simp: input_left_quarter_def input_right_quarter_def input_words_nth)
  have len: "length ?b = sha_rounds S" using length_input [OF assms(1)] by simp
  have "concat (map to_big ?ws) = left @ right" using assms(2,3) by (intro concat_words [OF assms(1)]) simp
  with pad_half_fips(1) [OF assms(1) sha_h_length [OF assms(1)] len, of 0 ?ws, OF _ _ at]
  have "fst (schedule_compress S (sha_h S) (pad_half S 0 ?b)) = fips_finish S (sha_h S) (sha_half_size S) (left @ right)" by simp
  then show ?thesis
    using fips_hash_finish [OF assms(1), of "[]" "left @ right"] assms(2,3) block_size_pos [OF assms(1)]
    by (simp add: hash_quarters_def fips_fold_def sha_half_size_def)
qed

end
