(* ===== verification/ShaVector.thy ===== *)
theory ShaVector
  imports ShaStandard
begin

text \<open>
  The vectorized message schedules (\<open>algorithm_sigma.ipp\<close>, \<open>algorithm_iterate.ipp\<close>): the schedule
  of one block in groups of eight words, interleaved with the rounds, and the schedule of several
  blocks at once in an expanded buffer. A vector word is the list of its lanes. Both agree with
  the portable form.
\<close>

section \<open>Eight words of one block\<close>

definition prepare_1 :: "('w::len) word sha \<Rightarrow> nat \<Rightarrow> 'w word list \<Rightarrow> nat \<Rightarrow> 'w word list \<Rightarrow> 'w word list" where
  "prepare_1 S r sigmas offset buffer = buffer[r + offset :=
     (buffer ! (r - 16 + offset) + sigmas ! offset) + (buffer ! (r - 7 + offset) + sigma1 S (buffer ! (r - 2 + offset)))]"

definition prepare_8 :: "('w::len) word sha \<Rightarrow> nat \<Rightarrow> 'w word list \<Rightarrow> 'w word list" where
  "prepare_8 S r buffer = (let sigmas = map (sigma0 S) (take 8 (drop (r - 15) buffer)) in
     fold (prepare_1 S r sigmas) [0, 1, 2, 3, 4, 5, 6, 7] buffer)"

text \<open>The groups of eight words that a schedule prepares: from 16 to 56, or to 72 for eighty rounds.\<close>

definition groups :: "('w::len) word sha \<Rightarrow> nat list" where
  "groups S = [16, 24, 32, 40, 48, 56] @ (if sha_rounds S = 80 then [64, 72] else [])"

definition schedule_sigma :: "('w::len) word sha \<Rightarrow> 'w word list \<Rightarrow> 'w word list" where
  "schedule_sigma S buffer = konstant S (fold (prepare_8 S) (groups S) buffer)"

definition konstant_8 :: "('w::len) word sha \<Rightarrow> nat \<Rightarrow> 'w word list \<Rightarrow> 'w word list \<Rightarrow> 'w word list" where
  "konstant_8 S r buffer wk = put_words r (map2 (+) (take 8 (drop r buffer)) (take 8 (drop r (sha_k S)))) wk"

definition compress_8 :: "('w::len) word sha \<Rightarrow> nat \<Rightarrow> 'w word list \<Rightarrow> 'w word list \<Rightarrow> 'w word list" where
  "compress_8 S r wk = sha_rounds_from S r (r + 8) wk"

definition konstant_compress_8 :: "('w::len) word sha \<Rightarrow> nat \<Rightarrow> 'w word list \<Rightarrow> 'w word list \<times> 'w word list \<Rightarrow> 'w word list \<times> 'w word list" where
  "konstant_compress_8 S r buffer = (\<lambda>(state, wk). let sums = konstant_8 S r buffer wk in (compress_8 S r sums state, sums))"

text \<open>Each group is prepared one group ahead of its rounds.\<close>

definition sigma_step ::
  "('w::len) word sha \<Rightarrow> nat \<Rightarrow> 'w word list \<times> 'w word list \<times> 'w word list \<Rightarrow> 'w word list \<times> 'w word list \<times> 'w word list" where
  "sigma_step S r = (\<lambda>(state, wk, buffer). let prepared = prepare_8 S r buffer;
     (state, wk) = konstant_compress_8 S (r - 8) prepared (state, wk) in (state, wk, prepared))"

definition schedule_compress_sigma :: "('w::len) word sha \<Rightarrow> 'w word list \<Rightarrow> 'w word list \<Rightarrow> 'w word list" where
  "schedule_compress_sigma S start buffer =
     (let (state, wk) = konstant_compress_8 S 0 buffer (start, empty_buffer S);
          (state, wk, prepared) = fold (sigma_step S) (groups S) (state, wk, buffer);
          (state, wk) = konstant_compress_8 S (sha_rounds S - 8) prepared (state, wk) in
      summarize state start)"

section \<open>Several blocks\<close>

definition xadd :: "('w::len) word list \<Rightarrow> 'w word list \<Rightarrow> 'w word list" where
  "xadd = map2 (+)"

definition xxor :: "('w::len) word list \<Rightarrow> 'w word list \<Rightarrow> 'w word list" where
  "xxor = map2 (XOR)"

definition xprepare :: "('w::len) word sha \<Rightarrow> nat \<Rightarrow> 'w word list list \<Rightarrow> 'w word list list" where
  "xprepare S r xbuffer =
     (if sha_strength S = 160
      then xbuffer[r := map (word_rotl 1) (xxor (xxor (xbuffer ! (r - 16)) (xbuffer ! (r - 14)))
        (xxor (xbuffer ! (r - 8)) (xbuffer ! (r - 3))))]
      else xbuffer[r := xadd (xadd (xbuffer ! (r - 16)) (map (sigma0 S) (xbuffer ! (r - 15))))
        (xadd (xbuffer ! (r - 7)) (map (sigma1 S) (xbuffer ! (r - 2))))])"

text \<open>A round constant is broadcast across the lanes.\<close>

definition xkonstant_round :: "('w::len) word sha \<Rightarrow> nat \<Rightarrow> 'w word list list \<Rightarrow> 'w word list list" where
  "xkonstant_round S r xbuffer = xbuffer[r := map (\<lambda>w. w + sha_k S ! r) (xbuffer ! r)]"

definition xschedule :: "('w::len) word sha \<Rightarrow> 'w word list list \<Rightarrow> 'w word list list" where
  "xschedule S xbuffer = fold (xkonstant_round S) [0..<sha_rounds S] (fold (xprepare S) [16..<sha_rounds S] xbuffer)"

definition pack :: "('w::len) word sha \<Rightarrow> nat \<Rightarrow> data_chunk list \<Rightarrow> 'w word list" where
  "pack S i xblock = map (from_big (i * sha_word_bytes S)) xblock"

definition xinput :: "('w::len) word sha \<Rightarrow> nat \<Rightarrow> data_chunk list \<Rightarrow> 'w word list list \<Rightarrow> 'w word list list" where
  "xinput S lanes blocks = put_words 0 (map (\<lambda>i. pack S i (take lanes blocks)) [0..<16])"

definition extract_lane :: "nat \<Rightarrow> 'a list list \<Rightarrow> 'a list" where
  "extract_lane lane xbuffer = map (\<lambda>xword. xword ! lane) xbuffer"

definition sequential_compress :: "('w::len) word sha \<Rightarrow> nat \<Rightarrow> 'w word list list \<Rightarrow> 'w word list \<Rightarrow> 'w word list" where
  "sequential_compress S lanes xbuffer = fold (\<lambda>lane. compress_with S False (extract_lane lane xbuffer)) [0..<lanes]"

function vector_loop ::
  "('w::len) word sha \<Rightarrow> nat \<Rightarrow> 'w word list list \<Rightarrow> 'w word list \<times> data_chunk list \<Rightarrow> 'w word list \<times> data_chunk list" where
  "vector_loop S lanes xbuffer (state, blocks) =
     (if lanes = 0 \<or> length blocks < lanes then (state, blocks)
      else let scheduled = xschedule S (xinput S lanes blocks xbuffer) in
        vector_loop S lanes scheduled (sequential_compress S lanes scheduled state, drop lanes blocks))"
  by pat_completeness auto
termination
  by (relation "measure (\<lambda>(S, lanes, xbuffer, state, blocks). length blocks)") auto

declare vector_loop.simps [simp del]

definition vector_schedule_sequential_compress ::
  "('w::len) word sha \<Rightarrow> nat \<Rightarrow> 'w word list \<times> data_chunk list \<Rightarrow> 'w word list \<times> data_chunk list" where
  "vector_schedule_sequential_compress S lanes =
     vector_loop S lanes (replicate (sha_rounds S) (replicate lanes 0))"

text \<open>Which extended words the processor has.\<close>

record vectors =
  use_128 :: bool
  use_256 :: bool
  use_512 :: bool

definition lanes_of :: "('w::len) word sha \<Rightarrow> nat \<Rightarrow> nat" where
  "lanes_of S bits = bits div 8 div sha_word_bytes S"

definition min_lanes :: "('w::len) word sha \<Rightarrow> vectors \<Rightarrow> nat" where
  "min_lanes S have = (if use_128 have then 128 div 8 else if use_256 have then 256 div 8
     else if use_512 have then 512 div 8 else 0) div sha_word_bytes S"

definition iterate_vector :: "('w::len) word sha \<Rightarrow> vectors \<Rightarrow> 'w word list \<Rightarrow> data_chunk list \<Rightarrow> 'w word list" where
  "iterate_vector S have state blocks =
     (let (state, blocks) =
        (if length blocks \<ge> min_lanes S have
         then (if use_128 have then vector_schedule_sequential_compress S (lanes_of S 128) else id)
           ((if use_256 have then vector_schedule_sequential_compress S (lanes_of S 256) else id)
             ((if use_512 have then vector_schedule_sequential_compress S (lanes_of S 512) else id) (state, blocks)))
         else (state, blocks)) in
      iterate S state blocks)"

section \<open>Agreement for one block\<close>

lemma upt_eight: "[r..<r + 8] = map ((+) r) [0, 1, 2, 3, 4, 5, 6, 7]"
  by (simp add: upt_rec)

lemma prepare_1_eq:
  assumes "sha_strength S \<noteq> 160" "16 \<le> r" "offset < 8" "sigmas ! offset = sigma0 S (buffer ! (r + offset - 15))"
  shows "prepare_1 S r sigmas offset buffer = prepare S (r + offset) buffer"
  using assms by (simp add: prepare_1_def prepare_def)

lemma prepare_other: "i \<noteq> r \<Longrightarrow> prepare S r buffer ! i = buffer ! i"
  by (simp add: prepare_def)

lemma length_prepare [simp]: "length (prepare S r buffer) = length buffer"
  by (simp add: prepare_def)

lemma prepare_8_eq:
  assumes "sha_strength S \<noteq> 160" "16 \<le> r" "r + 8 \<le> length buffer"
  shows "prepare_8 S r buffer = fold (prepare S) [r..<r + 8] buffer"
proof -
  define sigmas where "sigmas = map (sigma0 S) (take 8 (drop (r - 15) buffer))"
  have sigma: "sigmas ! k = sigma0 S (buffer ! (r + k - 15))" if "k < 8" for k
    using that assms(2,3) by (simp add: sigmas_def)
  have "fold (prepare_1 S r sigmas) [0..<k] buffer = fold (prepare S) [r..<r + k] buffer \<and>
      (\<forall>i < r. fold (prepare S) [r..<r + k] buffer ! i = buffer ! i)" if "k \<le> 8" for k
    using that
  proof (induction k)
    case (Suc k)
    let ?b = "fold (prepare S) [r..<r + k] buffer"
    have "sigmas ! k = sigma0 S (?b ! (r + k - 15))" using Suc assms(2) sigma [of k] by simp
    then have "prepare_1 S r sigmas k ?b = prepare S (r + k) ?b" using Suc.prems assms by (intro prepare_1_eq) simp_all
    then show ?case using Suc by (auto simp: prepare_other)
  qed simp
  note eq = this
  have eight: "[0, 1, 2, 3, 4, 5, 6, 7] = [0..<8 :: nat]" by (simp add: upt_rec)
  show ?thesis unfolding prepare_8_def sigmas_def [symmetric] Let_def eight using eq [of 8] by simp
qed

lemma groups_upt:
  assumes "sha_ok S" "sha_strength S \<noteq> 160"
  shows "groups S = map (\<lambda>i. 16 + 8 * i) [0..<(sha_rounds S - 16) div 8]" "8 dvd sha_rounds S"
proof -
  have "sha_rounds S = 64 \<or> sha_rounds S = 80" using assms by (auto simp: sha_ok_def)
  then show "groups S = map (\<lambda>i. 16 + 8 * i) [0..<(sha_rounds S - 16) div 8]" "8 dvd sha_rounds S"
    by (auto simp: groups_def upt_rec)
qed

lemma prepare_groups:
  assumes "sha_strength S \<noteq> 160" "16 + 8 * k \<le> length buffer"
  shows "fold (prepare_8 S) (map (\<lambda>i. 16 + 8 * i) [0..<k]) buffer = fold (prepare S) [16..<16 + 8 * k] buffer"
  using assms(2)
proof (induction k)
  case (Suc k)
  have len: "length (fold (prepare S) rs buffer) = length buffer" for rs by (induction rs arbitrary: buffer) simp_all
  have "[16..<16 + 8 * Suc k] = [16..<16 + 8 * k] @ [16 + 8 * k..<16 + 8 * k + 8]"
    using upt_add_eq_append [of 16 "16 + 8 * k" 8] by (simp add: add.commute add.left_commute)
  with Suc prepare_8_eq [OF assms(1), of "16 + 8 * k" "fold (prepare S) [16..<16 + 8 * k] buffer"] len show ?case by simp
qed simp

lemma schedule_sigma_eq:
  assumes "sha_ok S" "sha_strength S \<noteq> 160" "length buffer = sha_rounds S"
  shows "schedule_sigma S buffer = schedule S buffer"
proof -
  have "16 + 8 * ((sha_rounds S - 16) div 8) = sha_rounds S"
    using groups_upt(2) [OF assms(1,2)] sha_okD(3) [OF assms(1)] by (auto elim!: dvdE)
  with prepare_groups [OF assms(2), of "(sha_rounds S - 16) div 8" buffer] assms(3)
  show ?thesis by (simp add: schedule_sigma_def groups_upt(1) [OF assms(1,2)] schedule_def schedule_with_def)
qed

lemma konstant_compress_8_eq:
  assumes "sha_ok S" "r + 8 \<le> sha_rounds S" "length buffer = sha_rounds S" "length wk = sha_rounds S"
  shows "fst (konstant_compress_8 S r buffer (state, wk)) = fold (\<lambda>t. sha_round S t (buffer ! t + sha_k S ! t)) [r..<r + 8] state"
    "length (snd (konstant_compress_8 S r buffer (state, wk))) = sha_rounds S"
proof -
  let ?sums = "map2 (+) (take 8 (drop r buffer)) (take 8 (drop r (sha_k S)))"
  have k: "length (sha_k S) = sha_rounds S" using assms(1) by (simp add: sha_ok_def)
  have len: "r + length ?sums \<le> length wk" using assms k by simp
  have "konstant_8 S r buffer wk ! t = buffer ! t + sha_k S ! t" if "r \<le> t" "t < r + 8" for t
    using put_words_nth [OF len, of t] that assms k by (simp add: konstant_8_def)
  then show "fst (konstant_compress_8 S r buffer (state, wk)) = fold (\<lambda>t. sha_round S t (buffer ! t + sha_k S ! t)) [r..<r + 8] state"
    unfolding konstant_compress_8_def compress_8_def sha_rounds_from_def Let_def by (auto intro!: fold_cong)
  show "length (snd (konstant_compress_8 S r buffer (state, wk))) = sha_rounds S"
    using len assms(4) by (simp add: konstant_compress_8_def Let_def konstant_8_def)
qed

lemma rounds_of_words:
  assumes "sha_ok S" "length buffer = sha_rounds S" "length wk = sha_rounds S" "r + 8 \<le> sha_rounds S"
    and "\<And>t. t < r + 8 \<Longrightarrow> buffer ! t + sha_k S ! t = w t" "state = fold (\<lambda>t. sha_round S t (w t)) [0..<r] start"
  shows "\<exists>sums. konstant_compress_8 S r buffer (state, wk) = (fold (\<lambda>t. sha_round S t (w t)) [0..<r + 8] start, sums) \<and>
    length sums = sha_rounds S"
proof -
  obtain st sums where st: "konstant_compress_8 S r buffer (state, wk) = (st, sums)" by fastforce
  have "fold (\<lambda>t. sha_round S t (buffer ! t + sha_k S ! t)) [r..<r + 8] state = fold (\<lambda>t. sha_round S t (w t)) [r..<r + 8] state"
    using assms(5) by (intro fold_cong) auto
  moreover have "[0..<r + 8] = [0..<r] @ [r..<r + 8]" using upt_add_eq_append [of 0 r 8] by simp
  ultimately show ?thesis using konstant_compress_8_eq [OF assms(1,4,2,3), of state] st assms(6) by simp
qed

lemma sigma_groups:
  assumes "sha_ok S" "sha_strength S \<noteq> 160" "length buffer = sha_rounds S" "16 + 8 * k \<le> sha_rounds S"
    and "\<And>t. t < sha_rounds S \<Longrightarrow> w t = fips_w S (\<lambda>i. buffer ! i) t + sha_k S ! t"
    and "konstant_compress_8 S 0 buffer (start, empty_buffer S) = (first, sums)"
  shows "\<exists>wk. fold (sigma_step S) (map (\<lambda>i. 16 + 8 * i) [0..<k]) (first, sums, buffer) =
      (fold (\<lambda>t. sha_round S t (w t)) [0..<8 + 8 * k] start, wk, fold (prepare S) [16..<16 + 8 * k] buffer) \<and>
    length wk = sha_rounds S"
  using assms(4)
proof (induction k)
  case 0
  have "buffer ! t + sha_k S ! t = w t" if "t < 0 + 8" for t
    using that 0 assms(5) [of t] by (simp add: fips_w.simps [of S _ t])
  from rounds_of_words [OF assms(1,3) _ _ this, where r = 0 and wk = "empty_buffer S" and state = start and start = start] assms(6) 0
  show ?case by simp
next
  case (Suc k)
  let ?b = "fold (prepare S) [16..<16 + 8 * k] buffer" and ?n = "fold (prepare S) [16..<16 + 8 * Suc k] buffer"
  let ?st = "fold (\<lambda>t. sha_round S t (w t)) [0..<8 + 8 * k] start"
  obtain wk where wk: "fold (sigma_step S) (map (\<lambda>i. 16 + 8 * i) [0..<k]) (first, sums, buffer) = (?st, wk, ?b)"
      "length wk = sha_rounds S" using Suc by auto
  have len: "length (fold (prepare S) rs buffer) = sha_rounds S" for rs using assms(3) by (induction rs arbitrary: buffer) simp_all
  have "[16..<16 + 8 * Suc k] = [16..<16 + 8 * k] @ [16 + 8 * k..<16 + 8 * k + 8]"
    using upt_add_eq_append [of 16 "16 + 8 * k" 8] by (simp add: ac_simps)
  then have prepared: "prepare_8 S (16 + 8 * k) ?b = ?n"
    using prepare_8_eq [OF assms(2), of "16 + 8 * k" ?b] Suc.prems len by simp
  have "?n ! t + sha_k S ! t = w t" if "t < 8 + 8 * k + 8" for t
    using prepare_fold [OF assms(3) Suc.prems] that Suc.prems assms(5) [of t] by simp
  from rounds_of_words [OF assms(1) len wk(2) _ this, where r = "8 + 8 * k" and state = ?st and start = start] Suc.prems
  obtain out where out: "konstant_compress_8 S (8 + 8 * k) ?n (?st, wk) = (fold (\<lambda>t. sha_round S t (w t)) [0..<8 + 8 * k + 8] start, out)"
      "length out = sha_rounds S" by auto
  then have "sigma_step S (16 + 8 * k) (?st, wk, ?b) = (fold (\<lambda>t. sha_round S t (w t)) [0..<8 + 8 * Suc k] start, out, ?n)"
    using prepared by (simp add: sigma_step_def Let_def)
  then show ?case using wk(1) out(2) by simp
qed

lemma schedule_compress_sigma_eq:
  assumes "sha_ok S" "sha_strength S \<noteq> 160" "length buffer = sha_rounds S"
  shows "schedule_compress_sigma S state buffer = sha_compress S (schedule S buffer) state"
proof -
  let ?R = "sha_rounds S" and ?w = "\<lambda>t. schedule S buffer ! t"
  define k where "k = (?R - 16) div 8"
  have k: "16 + 8 * k = ?R" "8 + 8 * k = ?R - 8"
    using groups_upt(2) [OF assms(1,2)] sha_okD(3) [OF assms(1)] by (auto simp: k_def elim!: dvdE)
  obtain st0 wk0 where r0: "konstant_compress_8 S 0 buffer (state, empty_buffer S) = (st0, wk0)" by fastforce
  obtain wk where wk: "fold (sigma_step S) (groups S) (st0, wk0, buffer) =
      (fold (\<lambda>t. sha_round S t (?w t)) [0..<?R - 8] state, wk, fold (prepare S) [16..<?R] buffer)" "length wk = ?R"
    using sigma_groups [OF assms _ schedule_fips(2) [OF assms(1,3)] r0, of k] groups_upt(1) [OF assms(1,2)] k by (auto simp: k_def)
  have len: "length (fold (prepare S) [16..<?R] buffer) = ?R" using prepare_fold [OF assms(3) order_refl sha_okD(3) [OF assms(1)]] by blast
  have "fold (prepare S) [16..<?R] buffer ! t + sha_k S ! t = ?w t" if "t < ?R - 8 + 8" for t
    using prepare_fold [OF assms(3) order_refl sha_okD(3) [OF assms(1)]] schedule_fips(2) [OF assms(1,3)] that k by simp
  from rounds_of_words [OF assms(1) len wk(2) _ this refl, where r = "?R - 8" and start = state] k sha_okD(3) [OF assms(1)]
  obtain sums where "konstant_compress_8 S (?R - 8) (fold (prepare S) [16..<?R] buffer)
      (fold (\<lambda>t. sha_round S t (?w t)) [0..<?R - 8] state, wk) = (fold (\<lambda>t. sha_round S t (?w t)) [0..<?R] state, sums)" by auto
  then show ?thesis by (simp add: schedule_compress_sigma_def r0 wk(1) sha_compress_def compress_with_def)
qed

section \<open>Agreement for several blocks\<close>

definition lanes_ok :: "nat \<Rightarrow> 'a list list \<Rightarrow> bool" where
  "lanes_ok lanes xbuffer \<longleftrightarrow> (\<forall>xword \<in> set xbuffer. length xword = lanes)"

lemma lanes_okD: "lanes_ok lanes xbuffer \<Longrightarrow> i < length xbuffer \<Longrightarrow> length (xbuffer ! i) = lanes"
  by (simp add: lanes_ok_def)

lemma lanes_ok_update: "lanes_ok lanes xbuffer \<Longrightarrow> length x = lanes \<Longrightarrow> lanes_ok lanes (xbuffer[r := x])"
  unfolding lanes_ok_def using set_update_subset_insert by fastforce

lemma xprepare_lane:
  assumes "lanes_ok lanes xbuffer" "lane < lanes" "16 \<le> r" "r < length xbuffer"
  shows "extract_lane lane (xprepare S r xbuffer) = prepare S r (extract_lane lane xbuffer)" "lanes_ok lanes (xprepare S r xbuffer)"
  using assms lanes_okD [OF assms(1)]
  by (auto simp: xprepare_def prepare_def extract_lane_def map_update xadd_def xxor_def intro!: lanes_ok_update)

lemma length_xprepare [simp]: "length (xprepare S r xbuffer) = length xbuffer" "length (xkonstant_round S r xbuffer) = length xbuffer"
  by (simp_all add: xprepare_def xkonstant_round_def)

lemma xkonstant_lane:
  assumes "lanes_ok lanes xbuffer" "lane < lanes" "r < length xbuffer"
  shows "extract_lane lane (xkonstant_round S r xbuffer) = konstant_round S r (extract_lane lane xbuffer)"
    "lanes_ok lanes (xkonstant_round S r xbuffer)"
  using assms lanes_okD [OF assms(1)]
  by (auto simp: xkonstant_round_def konstant_round_def extract_lane_def map_update intro!: lanes_ok_update)

lemma fold_lanes:
  assumes "\<And>r x. r \<in> set rs \<Longrightarrow> lanes_ok lanes x \<Longrightarrow> length x = n \<Longrightarrow>
      extract_lane lane (f r x) = g r (extract_lane lane x) \<and> lanes_ok lanes (f r x) \<and> length (f r x) = n"
    and "lanes_ok lanes x" "length x = n"
  shows "extract_lane lane (fold f rs x) = fold g rs (extract_lane lane x) \<and> lanes_ok lanes (fold f rs x) \<and> length (fold f rs x) = n"
  using assms by (induction rs arbitrary: x) (auto simp: list.set_intros)

lemma xschedule_lane:
  assumes "lanes_ok lanes xbuffer" "lane < lanes" "length xbuffer = sha_rounds S"
  shows "extract_lane lane (xschedule S xbuffer) = schedule S (extract_lane lane xbuffer) \<and> lanes_ok lanes (xschedule S xbuffer) \<and>
    length (xschedule S xbuffer) = sha_rounds S"
proof -
  let ?p = "fold (xprepare S) [16..<sha_rounds S] xbuffer"
  have p: "extract_lane lane ?p = fold (prepare S) [16..<sha_rounds S] (extract_lane lane xbuffer) \<and> lanes_ok lanes ?p \<and>
      length ?p = sha_rounds S"
    by (rule fold_lanes) (use assms in \<open>auto simp: xprepare_lane\<close>)
  moreover from p have "extract_lane lane (fold (xkonstant_round S) [0..<sha_rounds S] ?p) =
      fold (konstant_round S) [0..<sha_rounds S] (extract_lane lane ?p) \<and>
      lanes_ok lanes (fold (xkonstant_round S) [0..<sha_rounds S] ?p) \<and> length (fold (xkonstant_round S) [0..<sha_rounds S] ?p) = sha_rounds S"
    by (intro fold_lanes) (use assms(2) in \<open>auto simp: xkonstant_lane\<close>)
  ultimately show ?thesis by (simp add: xschedule_def schedule_def schedule_with_def konstant_def Let_def)
qed

lemma xinput_lane:
  assumes "lanes_ok lanes xbuffer" "lane < lanes" "length xbuffer = sha_rounds S" "16 \<le> sha_rounds S" "lanes \<le> length blocks"
  shows "lanes_ok lanes (xinput S lanes blocks xbuffer)" "length (xinput S lanes blocks xbuffer) = sha_rounds S"
    "i < 16 \<Longrightarrow> extract_lane lane (xinput S lanes blocks xbuffer) ! i = block_words S (blocks ! lane) i"
proof -
  show len: "length (xinput S lanes blocks xbuffer) = sha_rounds S" using assms(3,4) by (simp add: xinput_def)
  show "lanes_ok lanes (xinput S lanes blocks xbuffer)"
    using assms(1,5) by (auto simp: lanes_ok_def xinput_def put_words_def pack_def dest: in_set_takeD in_set_dropD)
  show "extract_lane lane (xinput S lanes blocks xbuffer) ! i = block_words S (blocks ! lane) i" if "i < 16"
    using that assms(2-5) len by (simp add: extract_lane_def) (simp add: xinput_def put_words_nth pack_def)
qed

lemma sequential_compress_fips:
  assumes "sha_ok S" "length state = sha_state_words S" "lanes_ok lanes xbuffer" "length xbuffer = sha_rounds S" "lanes \<le> length blocks"
  shows "k \<le> lanes \<Longrightarrow> fold (\<lambda>lane. compress_with S False (extract_lane lane (xschedule S (xinput S lanes blocks xbuffer)))) [0..<k] state =
    fips_fold S state (take k blocks)"
proof (induction k)
  case (Suc k)
  let ?x = "xinput S lanes blocks xbuffer" and ?st = "fips_fold S state (take k blocks)"
  have k: "k < lanes" using Suc.prems by simp
  note x = xinput_lane [OF assms(3) k assms(4) sha_okD(3) [OF assms(1)] assms(5)]
  have len: "length ?st = sha_state_words S" using assms(2) by simp
  have "length (extract_lane k ?x) = sha_rounds S" using x(2) by (simp add: extract_lane_def)
  from schedule_compress_fips(1) [OF assms(1) len this x(3)] xschedule_lane [OF x(1) k x(2)]
  have "compress_with S False (extract_lane k (xschedule S ?x)) ?st = fips_block S ?st (block_words S (blocks ! k))"
    by (simp add: sha_compress_def)
  with Suc assms(5) show ?case by (simp add: take_Suc_conv_app_nth fips_fold_append) (simp add: fips_fold_def)
qed (simp add: fips_fold_def)

lemma vector_loop_fips:
  assumes "sha_ok S" "length state = sha_state_words S" "lanes_ok lanes xbuffer" "length xbuffer = sha_rounds S"
    and "vector_loop S lanes xbuffer (state, blocks) = (st, rest)"
  shows "length st = sha_state_words S \<and> fips_fold S st rest = fips_fold S state blocks"
  using assms(2-5)
proof (induction "length blocks" arbitrary: state blocks xbuffer rule: less_induct)
  case less
  show ?case
  proof (cases "lanes = 0 \<or> length blocks < lanes")
    case True
    with less.prems show ?thesis by (auto simp: vector_loop.simps)
  next
    case False
    let ?x = "xschedule S (xinput S lanes blocks xbuffer)" and ?st = "fips_fold S state (take lanes blocks)"
    have lanes: "0 < lanes" "lanes \<le> length blocks" using False by auto
    have st: "sequential_compress S lanes ?x state = ?st"
      using sequential_compress_fips [OF assms(1) less.prems(1-3) lanes(2) order_refl] by (simp add: sequential_compress_def)
    note x = xinput_lane(1,2) [OF less.prems(2) lanes(1) less.prems(3) sha_okD(3) [OF assms(1)] lanes(2)]
    have "lanes_ok lanes ?x" "length ?x = sha_rounds S" using xschedule_lane [OF x(1) lanes(1) x(2)] by blast+
    moreover have "vector_loop S lanes ?x (?st, drop lanes blocks) = (st, rest)"
      using less.prems(4) False st by (simp add: vector_loop.simps [of S lanes xbuffer] Let_def)
    ultimately have "length st = sha_state_words S \<and> fips_fold S st rest = fips_fold S ?st (drop lanes blocks)"
      using less.hyps [of "drop lanes blocks" ?st ?x] less.prems(1) lanes by simp
    then show ?thesis by (metis append_take_drop_id fips_fold_append)
  qed
qed

lemma iterate_vector_eq:
  assumes "sha_ok S" "length state = sha_state_words S"
  shows "iterate_vector S have state blocks = iterate S state blocks"
proof -
  have step: "length (fst r) = sha_state_words S \<and> fips_fold S (fst r) (snd r) = fips_fold S state blocks"
    if "r = (if use then vector_schedule_sequential_compress S lanes else id) p"
      "length (fst p) = sha_state_words S" "fips_fold S (fst p) (snd p) = fips_fold S state blocks" for r p lanes use
  proof (cases use)
    case True
    have "lanes_ok lanes (replicate (sha_rounds S) (replicate lanes 0))" by (simp add: lanes_ok_def)
    from vector_loop_fips [OF assms(1) that(2) this _, of "snd p" "fst r" "snd r"] that True
    show ?thesis by (simp add: vector_schedule_sequential_compress_def)
  qed (use that in simp)
  define p1 where "p1 = (if use_512 have then vector_schedule_sequential_compress S (lanes_of S 512) else id) (state, blocks)"
  define p2 where "p2 = (if use_256 have then vector_schedule_sequential_compress S (lanes_of S 256) else id) p1"
  define p3 where "p3 = (if use_128 have then vector_schedule_sequential_compress S (lanes_of S 128) else id) p2"
  have 1: "length (fst p1) = sha_state_words S \<and> fips_fold S (fst p1) (snd p1) = fips_fold S state blocks"
    by (rule step [OF p1_def]) (simp_all add: assms(2))
  have 2: "length (fst p2) = sha_state_words S \<and> fips_fold S (fst p2) (snd p2) = fips_fold S state blocks"
    using step [OF p2_def] 1 by blast
  have "length (fst p3) = sha_state_words S \<and> fips_fold S (fst p3) (snd p3) = fips_fold S state blocks"
    using step [OF p3_def] 2 by blast
  then show ?thesis
    by (simp add: iterate_vector_def p1_def [symmetric] p2_def [symmetric] p3_def [symmetric] iterate_fips [OF assms(1)] assms(2)
        case_prod_unfold Let_def)
qed

text \<open>
  C21. Vectorization does not show: whichever vector widths the processor has, scheduling groups of
  blocks across the lanes and compressing them in turn leads to the state of the plain loop, and
  scheduling eight words at a time ahead of their rounds to that of the plain schedule.
\<close>

theorem vector_forms_agree:
  assumes "sha_ok S" "length state = sha_state_words S" "length buffer = sha_rounds S"
  shows "iterate_vector S have state blocks = iterate S state blocks \<and>
    (sha_strength S \<noteq> 160 \<longrightarrow> schedule_compress_sigma S state buffer = sha_compress S (schedule S buffer) state)"
  using iterate_vector_eq [OF assms(1,2)] schedule_compress_sigma_eq [OF assms(1) _ assms(3)] by blast

theorem vector_forms_agree_witness:
  "iterate_vector sha256 \<lparr>use_128 = True, use_256 = True, use_512 = False\<rparr> h256 (replicate 13 (replicate 64 7)) =
    iterate sha256 h256 (replicate 13 (replicate 64 7)) \<and>
   schedule_compress_sigma sha256 h256 (replicate 64 3) = sha_compress sha256 (schedule sha256 (replicate 64 3)) h256"
proof -
  have "length h256 = sha_state_words sha256" "length (replicate 64 (3 :: 32 word)) = sha_rounds sha256" "sha_strength sha256 \<noteq> 160"
    by (simp_all add: h256_def sha256_def sha_state_words_def)
  with vector_forms_agree [OF instances_ok(2), of h256 "replicate 64 3" "\<lparr>use_128 = True, use_256 = True, use_512 = False\<rparr>"
      "replicate 13 (replicate 64 7)"]
  show ?thesis by blast
qed

end
