(* ===== verification/Ripemd.thy ===== *)
theory Ripemd
  imports ShaStandard
begin

text \<open>
  The RIPEMD algorithm template (\<open>hash/rmd\<close>, \<open>impl/hash/rmd/algorithm.ipp\<close>): constants, functions,
  the two lines of rounds on rotated states, parsing, padding and hashes, and their agreement with
  the same rounds on five (or four) registers that shift. That this is the published function is
  shown in \<open>StandardHashes\<close>.
\<close>

section \<open>Parameters\<close>

record rmd =
  rmd_strength :: nat
  rmd_k :: "32 word list"
  rmd_word :: "nat list"
  rmd_rot :: "nat list"
  rmd_h :: "32 word list"

definition rmd_rounds :: "rmd \<Rightarrow> nat" where
  "rmd_rounds R = rmd_strength R"

definition rmd_state_words :: "rmd \<Rightarrow> nat" where
  "rmd_state_words R = (if rmd_strength R = 128 then 4 else 5)"

definition rmd_k128 :: "32 word list" where
  "rmd_k128 = [0x00000000, 0x5a827999, 0x6ed9eba1, 0x8f1bbcdc, 0x50a28be6, 0x5c4dd124, 0x6d703ef3, 0x00000000]"

definition rmd_word128 :: "nat list" where
  "rmd_word128 = [
     0, 1, 2, 3, 4, 5, 6, 7, 8, 9, 10, 11, 12, 13, 14, 15,
     7, 4, 13, 1, 10, 6, 15, 3, 12, 0, 9, 5, 2, 14, 11, 8,
     3, 10, 14, 4, 9, 15, 8, 1, 2, 7, 0, 6, 13, 11, 5, 12,
     1, 9, 11, 10, 0, 8, 12, 4, 13, 3, 7, 15, 14, 5, 6, 2,
     5, 14, 7, 0, 9, 2, 11, 4, 13, 6, 15, 8, 1, 10, 3, 12,
     6, 11, 3, 7, 0, 13, 5, 10, 14, 15, 8, 12, 4, 9, 1, 2,
     15, 5, 1, 3, 7, 14, 6, 9, 11, 8, 12, 2, 10, 0, 4, 13,
     8, 6, 4, 1, 3, 11, 15, 0, 5, 12, 2, 13, 9, 7, 10, 14]"

definition rmd_rot128 :: "nat list" where
  "rmd_rot128 = [
     11, 14, 15, 12, 5, 8, 7, 9, 11, 13, 14, 15, 6, 7, 9, 8,
     7, 6, 8, 13, 11, 9, 7, 15, 7, 12, 15, 9, 11, 7, 13, 12,
     11, 13, 6, 7, 14, 9, 13, 15, 14, 8, 13, 6, 5, 12, 7, 5,
     11, 12, 14, 15, 14, 15, 9, 8, 9, 14, 5, 6, 8, 6, 5, 12,
     8, 9, 9, 11, 13, 15, 15, 5, 7, 7, 8, 11, 14, 14, 12, 6,
     9, 13, 15, 7, 12, 8, 9, 11, 7, 7, 12, 7, 6, 15, 13, 11,
     9, 7, 15, 11, 8, 6, 6, 14, 12, 13, 5, 14, 13, 13, 7, 5,
     15, 5, 8, 11, 14, 14, 6, 14, 6, 9, 12, 9, 12, 5, 15, 8]"

definition rmd_h128 :: "32 word list" where
  "rmd_h128 = [0x67452301, 0xefcdab89, 0x98badcfe, 0x10325476]"

definition rmd_k160 :: "32 word list" where
  "rmd_k160 = [0x00000000, 0x5a827999, 0x6ed9eba1, 0x8f1bbcdc, 0xa953fd4e, 0x50a28be6, 0x5c4dd124, 0x6d703ef3, 0x7a6d76e9, 0x00000000]"

definition rmd_word160 :: "nat list" where
  "rmd_word160 = [
     0, 1, 2, 3, 4, 5, 6, 7, 8, 9, 10, 11, 12, 13, 14, 15,
     7, 4, 13, 1, 10, 6, 15, 3, 12, 0, 9, 5, 2, 14, 11, 8,
     3, 10, 14, 4, 9, 15, 8, 1, 2, 7, 0, 6, 13, 11, 5, 12,
     1, 9, 11, 10, 0, 8, 12, 4, 13, 3, 7, 15, 14, 5, 6, 2,
     4, 0, 5, 9, 7, 12, 2, 10, 14, 1, 3, 8, 11, 6, 15, 13,
     5, 14, 7, 0, 9, 2, 11, 4, 13, 6, 15, 8, 1, 10, 3, 12,
     6, 11, 3, 7, 0, 13, 5, 10, 14, 15, 8, 12, 4, 9, 1, 2,
     15, 5, 1, 3, 7, 14, 6, 9, 11, 8, 12, 2, 10, 0, 4, 13,
     8, 6, 4, 1, 3, 11, 15, 0, 5, 12, 2, 13, 9, 7, 10, 14,
     12, 15, 10, 4, 1, 5, 8, 7, 6, 2, 13, 14, 0, 3, 9, 11]"

definition rmd_rot160 :: "nat list" where
  "rmd_rot160 = [
     11, 14, 15, 12, 5, 8, 7, 9, 11, 13, 14, 15, 6, 7, 9, 8,
     7, 6, 8, 13, 11, 9, 7, 15, 7, 12, 15, 9, 11, 7, 13, 12,
     11, 13, 6, 7, 14, 9, 13, 15, 14, 8, 13, 6, 5, 12, 7, 5,
     11, 12, 14, 15, 14, 15, 9, 8, 9, 14, 5, 6, 8, 6, 5, 12,
     9, 15, 5, 11, 6, 8, 13, 12, 5, 12, 13, 14, 11, 8, 5, 6,
     8, 9, 9, 11, 13, 15, 15, 5, 7, 7, 8, 11, 14, 14, 12, 6,
     9, 13, 15, 7, 12, 8, 9, 11, 7, 7, 12, 7, 6, 15, 13, 11,
     9, 7, 15, 11, 8, 6, 6, 14, 12, 13, 5, 14, 13, 13, 7, 5,
     15, 5, 8, 11, 14, 14, 6, 14, 6, 9, 12, 9, 12, 5, 15, 8,
     8, 5, 12, 9, 12, 5, 14, 6, 8, 13, 6, 5, 15, 13, 11, 11]"

definition rmd_h160 :: "32 word list" where
  "rmd_h160 = [0x67452301, 0xefcdab89, 0x98badcfe, 0x10325476, 0xc3d2e1f0]"

definition rmd128 :: rmd where
  "rmd128 = \<lparr>rmd_strength = 128, rmd_k = rmd_k128, rmd_word = rmd_word128, rmd_rot = rmd_rot128, rmd_h = rmd_h128\<rparr>"

definition rmd160 :: rmd where
  "rmd160 = \<lparr>rmd_strength = 160, rmd_k = rmd_k160, rmd_word = rmd_word160, rmd_rot = rmd_rot160, rmd_h = rmd_h160\<rparr>"

section \<open>Functions\<close>

definition f0 :: "32 word \<Rightarrow> 32 word \<Rightarrow> 32 word \<Rightarrow> 32 word" where "f0 x y z = x XOR (y XOR z)"
definition f1 :: "32 word \<Rightarrow> 32 word \<Rightarrow> 32 word \<Rightarrow> 32 word" where "f1 x y z = (x AND y) OR (NOT x AND z)"
definition f2 :: "32 word \<Rightarrow> 32 word \<Rightarrow> 32 word \<Rightarrow> 32 word" where "f2 x y z = (x OR NOT y) XOR z"
definition f3 :: "32 word \<Rightarrow> 32 word \<Rightarrow> 32 word \<Rightarrow> 32 word" where "f3 x y z = (x AND z) OR (y AND NOT z)"
definition f4 :: "32 word \<Rightarrow> 32 word \<Rightarrow> 32 word \<Rightarrow> 32 word" where "f4 x y z = x XOR (y OR NOT z)"

definition rmd_function :: "rmd \<Rightarrow> nat \<Rightarrow> 32 word \<Rightarrow> 32 word \<Rightarrow> 32 word \<Rightarrow> 32 word" where
  "rmd_function R r = (let fn = r div 16 in
     if rmd_strength R = 128
     then (if fn = 0 \<or> fn = 7 then f0 else if fn = 1 \<or> fn = 6 then f1 else if fn = 2 \<or> fn = 5 then f2 else f3)
     else (if fn = 0 \<or> fn = 9 then f0 else if fn = 1 \<or> fn = 8 then f1 else if fn = 2 \<or> fn = 7 then f2
       else if fn = 3 \<or> fn = 6 then f3 else f4))"

section \<open>Rounds\<close>

text \<open>The register that a round of the four word state changes, and the two of the five word state.\<close>

definition rmd_round_four :: "rmd \<Rightarrow> nat \<Rightarrow> 32 word \<Rightarrow> 32 word \<Rightarrow> 32 word \<Rightarrow> 32 word \<Rightarrow> 32 word \<Rightarrow> 32 word" where
  "rmd_round_four R r a b c d x =
     word_rotl (rmd_rot R ! r) (((a + rmd_function R r b c d) + x) + rmd_k R ! (r div 16))"

definition rmd_round_five ::
  "rmd \<Rightarrow> nat \<Rightarrow> 32 word \<Rightarrow> 32 word \<Rightarrow> 32 word \<Rightarrow> 32 word \<Rightarrow> 32 word \<Rightarrow> 32 word \<Rightarrow> 32 word \<times> 32 word" where
  "rmd_round_five R r a b c d e x =
     (word_rotl (rmd_rot R ! r) (((a + rmd_function R r b c d) + x) + rmd_k R ! (r div 16)) + e, word_rotl 10 c)"

definition rmd_round :: "rmd \<Rightarrow> 32 word list \<Rightarrow> nat \<Rightarrow> 32 word list \<Rightarrow> 32 word list" where
  "rmd_round R ws r state =
     (let at = (\<lambda>i. (rmd_rounds R + i - r) mod rmd_state_words R); s = (\<lambda>i. state ! at i); x = ws ! (rmd_word R ! r) in
      if rmd_strength R = 128
      then state[at 0 := rmd_round_four R r (s 0) (s 1) (s 2) (s 3) x]
      else let (a, c) = rmd_round_five R r (s 0) (s 1) (s 2) (s 3) (s 4) x in state[at 0 := a, at 2 := c])"

definition rmd_summarize :: "rmd \<Rightarrow> 32 word list \<Rightarrow> 32 word list \<Rightarrow> 32 word list \<Rightarrow> 32 word list" where
  "rmd_summarize R state left right =
     (if rmd_strength R = 128
      then [(state ! 1 + left ! 2) + right ! 3, (state ! 2 + left ! 3) + right ! 0, (state ! 3 + left ! 0) + right ! 1,
        (state ! 0 + left ! 1) + right ! 2]
      else [(state ! 1 + left ! 2) + right ! 3, (state ! 2 + left ! 3) + right ! 4, (state ! 3 + left ! 4) + right ! 0,
        (state ! 4 + left ! 0) + right ! 1, (state ! 0 + left ! 1) + right ! 2])"

text \<open>The source writes the rounds of the two lines in pairs; they do not share state.\<close>

definition rmd_compress :: "rmd \<Rightarrow> 32 word list \<Rightarrow> 32 word list \<Rightarrow> 32 word list" where
  "rmd_compress R state ws =
     (let offset = rmd_rounds R div 2;
          (left, right) = fold (\<lambda>r (left, right). (rmd_round R ws r left, rmd_round R ws (r + offset) right))
            [0..<offset] (state, state) in
      rmd_summarize R state left right)"

section \<open>Parsing and padding\<close>

definition from_little :: "nat \<Rightarrow> data_chunk \<Rightarrow> 32 word" where
  "from_little offset bs = word_of_nat (le_value (take 4 (drop offset bs)))"

definition to_little :: "32 word \<Rightarrow> data_chunk" where
  "to_little w = le_bytes 4 (unat w)"

definition rmd_input :: "data_chunk \<Rightarrow> 32 word list" where
  "rmd_input block = map (\<lambda>i. from_little (i * 4) block) [0..<16]"

definition rmd_input_half :: "data_chunk \<Rightarrow> 32 word list \<Rightarrow> 32 word list" where
  "rmd_input_half half = put_words 0 (map (\<lambda>i. from_little (i * 4) half) [0..<8])"

definition rmd_output :: "32 word list \<Rightarrow> data_chunk" where
  "rmd_output state = concat (map to_little state)"

definition rmd_block_pad :: "32 word list" where
  "rmd_block_pad = (replicate 16 0)[0 := 0x80, 14 := 64 * 8]"

definition rmd_chunk_pad :: "32 word list" where
  "rmd_chunk_pad = (replicate 8 0)[0 := 0x80, 6 := 32 * 8]"

definition rmd_stream_pad :: "32 word list" where
  "rmd_stream_pad = 0x80 # replicate 13 0"

definition rmd_pad_half :: "32 word list \<Rightarrow> 32 word list" where
  "rmd_pad_half = put_words 8 rmd_chunk_pad"

definition rmd_pad_n :: "nat \<Rightarrow> 32 word list" where
  "rmd_pad_n blocks = (let bits = (blocks * 64 * 8) mod 2 ^ 64 in rmd_stream_pad @ [lo_word bits, hi_word bits])"

section \<open>Hashes\<close>

definition rmd_accumulate :: "rmd \<Rightarrow> 32 word list \<Rightarrow> data_chunk list \<Rightarrow> 32 word list" where
  "rmd_accumulate R state blocks = fold (\<lambda>block state. rmd_compress R state (rmd_input block)) blocks state"

definition rmd_finalize :: "rmd \<Rightarrow> 32 word list \<Rightarrow> nat \<Rightarrow> data_chunk" where
  "rmd_finalize R state blocks = rmd_output (rmd_compress R state (rmd_pad_n blocks))"

definition rmd_hash_blocks :: "rmd \<Rightarrow> data_chunk list \<Rightarrow> data_chunk" where
  "rmd_hash_blocks R blocks =
     rmd_output (rmd_compress R (fold (\<lambda>block state. rmd_compress R state (rmd_input block)) blocks (rmd_h R))
       (rmd_pad_n (length blocks)))"

definition rmd_hash_block :: "rmd \<Rightarrow> data_chunk \<Rightarrow> data_chunk" where
  "rmd_hash_block R block = rmd_output (rmd_compress R (rmd_compress R (rmd_h R) (rmd_input block)) rmd_block_pad)"

definition rmd_hash_half :: "rmd \<Rightarrow> data_chunk \<Rightarrow> data_chunk" where
  "rmd_hash_half R half =
     rmd_output (rmd_compress R (rmd_h R) (rmd_pad_half (rmd_input_half half (replicate 16 0))))"

section \<open>The registers as a list that shifts\<close>

text \<open>The loops of the published description, over the functions, tables and final sum of the code above.\<close>

fun dbp_step :: "rmd \<Rightarrow> (nat \<Rightarrow> 32 word) \<Rightarrow> nat \<Rightarrow> 32 word list \<Rightarrow> 32 word list" where
  "dbp_step R x j [a, b, c, d] =
     [d, word_rotl (rmd_rot R ! j) (a + rmd_function R j b c d + x (rmd_word R ! j) + rmd_k R ! (j div 16)), b, c]"
| "dbp_step R x j [a, b, c, d, e] =
     [e, word_rotl (rmd_rot R ! j) (a + rmd_function R j b c d + x (rmd_word R ! j) + rmd_k R ! (j div 16)) + e, b, word_rotl 10 c, d]"
| "dbp_step R x j xs = xs"

definition dbp_block :: "rmd \<Rightarrow> 32 word list \<Rightarrow> (nat \<Rightarrow> 32 word) \<Rightarrow> 32 word list" where
  "dbp_block R h x = (let n = rmd_rounds R div 2 in
     rmd_summarize R h (fold (dbp_step R x) [0..<n] h) (fold (dbp_step R x) [n..<2 * n] h))"

definition dbp_pad :: "nat \<Rightarrow> data_chunk" where
  "dbp_pad n = 0x80 # replicate ((119 - n mod 64) mod 64) 0 @ le_bytes 8 (8 * n)"

definition dbp_fold :: "rmd \<Rightarrow> 32 word list \<Rightarrow> data_chunk list \<Rightarrow> 32 word list" where
  "dbp_fold R h blocks = fold (\<lambda>block h. dbp_block R h (\<lambda>i. from_little (i * 4) block)) blocks h"

definition dbp_hash :: "rmd \<Rightarrow> data_chunk \<Rightarrow> data_chunk" where
  "dbp_hash R message = rmd_output (dbp_fold R (rmd_h R) (chop 64 (message @ dbp_pad (length message))))"
section \<open>The rotated state\<close>

definition rmd_ok :: "rmd \<Rightarrow> bool" where
  "rmd_ok R \<longleftrightarrow> (rmd_strength R = 128 \<or> rmd_strength R = 160) \<and> length (rmd_h R) = rmd_state_words R \<and>
     length (rmd_word R) = rmd_rounds R \<and> list_all (\<lambda>i. i < 16) (rmd_word R)"

lemma rmd_instances_ok: "rmd_ok rmd128" "rmd_ok rmd160"
  by (simp_all add: rmd_ok_def rmd128_def rmd160_def rmd_rounds_def rmd_state_words_def rmd_h128_def rmd_h160_def
      rmd_word128_def rmd_word160_def)

lemma registers_aligned:
  assumes "length state = n" "r \<le> rounds" "(rounds - r) mod n = 0"
  shows "registers n rounds r state = state"
proof -
  have "(rounds + i - r) mod n = i" if "i < n" for i
    using that assms(2,3) by (metis Nat.add_diff_assoc2 add_0 mod_add_left_eq mod_less)
  then show ?thesis using assms(1) by (intro nth_equalityI) (simp_all add: registers_def)
qed

lemma rmd_step_four:
  assumes "rmd_strength R = 128" "length state = 4" "r < rmd_rounds R"
  shows "registers 4 (rmd_rounds R) (Suc r) (rmd_round R ws r state) =
    dbp_step R (\<lambda>i. ws ! i) r (registers 4 (rmd_rounds R) r state)"
proof -
  define k where "k = (rmd_rounds R - r) mod 4"
  have k: "k < 4" by (simp add: k_def)
  note at = index_shift [OF assms(3) k_def]
  note shift = at [simplified] at [of 0, simplified] at [of 1, simplified] at [of "Suc (Suc 0)", simplified]
  obtain s0 s1 s2 s3 where state: "state = [s0, s1, s2, s3]" using assms(2) by (auto simp: length_Suc_conv eval_nat_numeral)
  have four: "[0..<4] = [0, 1, 2, 3 :: nat]" by (simp add: upt_rec)
  have "k = 0 \<or> k = 1 \<or> k = 2 \<or> k = 3" using k by auto
  then show ?thesis
    using assms(1)
    by (elim disjE) (simp_all add: registers_def rmd_round_def rmd_state_words_def shift four state rmd_round_four_def Let_def)
qed

lemma rmd_step_five:
  assumes "rmd_strength R = 160" "length state = 5" "r < rmd_rounds R"
  shows "registers 5 (rmd_rounds R) (Suc r) (rmd_round R ws r state) =
    dbp_step R (\<lambda>i. ws ! i) r (registers 5 (rmd_rounds R) r state)"
proof -
  define k where "k = (rmd_rounds R - r) mod 5"
  have k: "k < 5" by (simp add: k_def)
  note at = index_shift [OF assms(3) k_def]
  note shift = at [simplified] at [of 0, simplified] at [of 1, simplified] at [of "Suc (Suc 0)", simplified]
  obtain s0 s1 s2 s3 s4 where state: "state = [s0, s1, s2, s3, s4]" using list_of_five [OF assms(2)] by blast
  have five: "[0..<5] = [0, 1, 2, 3, 4 :: nat]" by (simp add: upt_rec)
  have "k = 0 \<or> k = 1 \<or> k = 2 \<or> k = 3 \<or> k = 4" using k by auto
  then show ?thesis
    using assms(1)
    by (elim disjE) (simp_all add: registers_def rmd_round_def rmd_state_words_def shift five state rmd_round_five_def Let_def)
qed

lemma rmd_step:
  assumes "rmd_ok R" "length state = rmd_state_words R" "r < rmd_rounds R"
  shows "registers (rmd_state_words R) (rmd_rounds R) (Suc r) (rmd_round R ws r state) =
    dbp_step R (\<lambda>i. ws ! i) r (registers (rmd_state_words R) (rmd_rounds R) r state)"
  using assms rmd_step_four [of R state r ws] rmd_step_five [of R state r ws]
  by (auto simp: rmd_ok_def rmd_state_words_def)

lemma length_rmd_round [simp]: "length (rmd_round R ws r state) = length state"
  by (simp add: rmd_round_def Let_def case_prod_unfold)

lemma rmd_line:
  assumes "rmd_ok R" "length state = rmd_state_words R" "a \<le> b" "b \<le> rmd_rounds R"
  shows "registers (rmd_state_words R) (rmd_rounds R) b (fold (rmd_round R ws) [a..<b] state) =
      fold (dbp_step R (\<lambda>i. ws ! i)) [a..<b] (registers (rmd_state_words R) (rmd_rounds R) a state) \<and>
    length (fold (rmd_round R ws) [a..<b] state) = rmd_state_words R"
  using assms(3,4)
proof (induction b rule: dec_induct)
  case base
  then show ?case using assms(2) by simp
next
  case (step b)
  then have "length (fold (rmd_round R ws) [a..<b] state) = rmd_state_words R" by simp
  from rmd_step [OF assms(1) this, of b ws] step show ?case by simp
qed

lemma fold_pair: "fold (\<lambda>r (x, y). (f r x, g r y)) rs (x, y) = (fold f rs x, fold g rs y)"
  by (induction rs arbitrary: x y) simp_all

lemma fold_shift: "fold (\<lambda>r. f (r + k)) [0..<n] = fold f [k..<k + n]"
  by (induction n) (simp_all add: add.commute)

lemma rmd_compress_dbp:
  assumes "rmd_ok R" "length state = rmd_state_words R"
  shows "rmd_compress R state ws = dbp_block R state (\<lambda>i. ws ! i)"
proof -
  let ?n = "rmd_rounds R div 2" and ?w = "rmd_state_words R"
  have double: "2 * ?n = rmd_rounds R" and aligned: "(rmd_rounds R - 0) mod ?w = 0" "(rmd_rounds R - ?n) mod ?w = 0"
    using assms(1) by (auto simp: rmd_ok_def rmd_rounds_def rmd_state_words_def)
  have start: "registers ?w (rmd_rounds R) 0 state = state" "registers ?w (rmd_rounds R) ?n state = state"
    using registers_aligned [OF assms(2) _ aligned(1)] registers_aligned [OF assms(2) _ aligned(2)] by simp_all
  have left: "fold (rmd_round R ws) [0..<?n] state = fold (dbp_step R (\<lambda>i. ws ! i)) [0..<?n] state"
    using rmd_line [OF assms, of 0 ?n ws] start(1) registers_aligned [OF _ _ aligned(2), of "fold (rmd_round R ws) [0..<?n] state"]
    by simp
  have right: "fold (rmd_round R ws) [?n..<2 * ?n] state = fold (dbp_step R (\<lambda>i. ws ! i)) [?n..<2 * ?n] state"
    using rmd_line [OF assms, of ?n "rmd_rounds R" ws] start(2)
      registers_aligned [of "fold (rmd_round R ws) [?n..<rmd_rounds R] state" ?w "rmd_rounds R" "rmd_rounds R"] double by simp
  have "fold (\<lambda>r. rmd_round R ws (r + ?n)) [0..<?n] = fold (rmd_round R ws) [?n..<2 * ?n]"
    using fold_shift [of "rmd_round R ws" ?n ?n] by (simp add: mult_2)
  then show ?thesis
    by (simp add: rmd_compress_def dbp_block_def fold_pair left right Let_def)
qed

lemma length_dbp_block [simp]: "rmd_ok R \<Longrightarrow> length (dbp_block R h x) = rmd_state_words R"
  by (simp add: dbp_block_def rmd_summarize_def rmd_state_words_def Let_def)

lemma dbp_block_cong:
  assumes "rmd_ok R" "\<And>i. i < 16 \<Longrightarrow> x i = y i"
  shows "dbp_block R h x = dbp_block R h y"
proof -
  have "dbp_step R x j s = dbp_step R y j s" if "j < rmd_rounds R" for j s
  proof -
    have "rmd_word R ! j < 16" using assms(1) that by (simp add: rmd_ok_def list_all_length)
    then show ?thesis by (cases "(R, x, j, s)" rule: dbp_step.cases) (simp_all add: assms(2))
  qed
  then have "fold (dbp_step R x) [a..<b] h = fold (dbp_step R y) [a..<b] h" if "b \<le> rmd_rounds R" for a b
    using that by (intro fold_cong) auto
  then show ?thesis by (simp add: dbp_block_def Let_def)
qed

lemma rmd_input_dbp:
  assumes "rmd_ok R" "length state = rmd_state_words R"
  shows "rmd_compress R state (rmd_input block) = dbp_block R state (\<lambda>i. from_little (i * 4) block)"
  unfolding rmd_compress_dbp [OF assms] by (rule dbp_block_cong [OF assms(1)]) (simp add: rmd_input_def)

lemma rmd_accumulate_dbp:
  assumes "rmd_ok R" "length state = rmd_state_words R"
  shows "rmd_accumulate R state blocks = dbp_fold R state blocks \<and> length (dbp_fold R state blocks) = rmd_state_words R"
  using assms(2)
  by (induction blocks arbitrary: state) (simp_all add: rmd_accumulate_def dbp_fold_def rmd_input_dbp [OF assms(1)] assms(1))
section \<open>Padding\<close>

lemma length_to_little [simp]: "length (to_little w) = 4"
  by (simp add: to_little_def)

lemma from_little_to_little: "drop offset bs = to_little w @ rest \<Longrightarrow> from_little offset bs = w"
proof -
  assume "drop offset bs = to_little w @ rest"
  then have "take 4 (drop offset bs) = to_little w" by simp
  moreover have "unat w < 2 ^ 32" using unsigned_less [of w] by simp
  ultimately show ?thesis by (simp add: from_little_def to_little_def le_value_le_bytes)
qed

lemma from_little_concat:
  assumes "t < length ws"
  shows "from_little (t * 4) (concat (map to_little ws) @ ys) = ws ! t"
proof -
  have "drop (t * 4) (concat (map to_little ws) @ ys) = concat (map to_little (drop t ws)) @ ys" if "t \<le> length ws" for t
    using that
  proof (induction ws arbitrary: t)
    case (Cons w ws)
    then show ?case by (cases t) simp_all
  qed simp
  moreover have "drop t ws = ws ! t # drop (Suc t) ws" using assms by (simp add: Cons_nth_drop_Suc)
  ultimately have "drop (t * 4) (concat (map to_little ws) @ ys) = to_little (ws ! t) @ concat (map to_little (drop (Suc t) ws)) @ ys"
    using assms by (simp del: drop_append)
  then show ?thesis by (rule from_little_to_little)
qed

definition dbp_finish :: "rmd \<Rightarrow> 32 word list \<Rightarrow> nat \<Rightarrow> data_chunk \<Rightarrow> 32 word list" where
  "dbp_finish R h n rest = dbp_fold R h (chop 64 (rest @ dbp_pad n))"

lemma dbp_fold_append: "dbp_fold R h (xs @ ys) = dbp_fold R (dbp_fold R h xs) ys"
  by (simp add: dbp_fold_def)

lemma dbp_hash_finish:
  assumes "64 dvd length pre"
  shows "dbp_hash R (pre @ rest) = rmd_output (dbp_finish R (dbp_fold R (rmd_h R) (chop 64 pre)) (length pre + length rest) rest)"
  using assms by (simp add: dbp_hash_def dbp_finish_def chop_append dbp_fold_append)

lemma dbp_finish_words:
  assumes "rmd_ok R" "rest @ dbp_pad n = concat (map to_little ws)" "length ws = 16"
  shows "dbp_finish R h n rest = dbp_block R h (\<lambda>t. ws ! t)"
proof -
  have "length (concat (map to_little ws)) = 64" using assms(3) by (simp add: length_concat comp_def sum_list_triv)
  then have "dbp_finish R h n rest = dbp_block R h (\<lambda>i. from_little (i * 4) (concat (map to_little ws)))"
    using assms(2) by (simp add: dbp_finish_def chop_one dbp_fold_def)
  also have "\<dots> = dbp_block R h (\<lambda>t. ws ! t)"
    using from_little_concat [of _ ws "[]"] assms(3) by (intro dbp_block_cong [OF assms(1)]) simp
  finally show ?thesis .
qed

lemma to_little_number: "to_little (word_of_nat v) = le_bytes 4 v"
  using le_bytes_mod [of 4 v] by (simp add: to_little_def unat_of_nat)

lemma to_little_zero: "to_little 0 = replicate 4 0"
  by (simp add: to_little_def le_bytes_zero)

lemma to_little_pad: "to_little 0x80 = 0x80 # replicate 3 0"
proof -
  have "le_bytes (1 + 3) 0x80 = 0x80 # replicate 3 0" unfolding le_bytes_append by (simp add: le_bytes_zero)
  then show ?thesis by (simp add: to_little_def)
qed

lemma concat_zeros: "concat (replicate k (replicate n (0 :: byte))) = replicate (k * n) 0"
  by (induction k) (simp_all add: replicate_add)

lemma dbp_pad_words:
  assumes "n mod 64 = 4 * k" "k \<le> 13"
  shows "dbp_pad n = concat (map to_little (0x80 # replicate (13 - k) 0 @ [word_of_nat (8 * n), word_of_nat (8 * n div 2 ^ 32)]))"
proof -
  have "119 - 4 * k = (3 + (13 - k) * 4) + 64" using assms(2) by (simp add: diff_mult_distrib)
  moreover have "3 + (13 - k) * 4 < 64" by simp
  ultimately have zeros: "(119 - n mod 64) mod 64 = 3 + (13 - k) * 4" unfolding assms(1) by (metis mod_add_self2 mod_less)
  have count: "le_bytes 8 (8 * n) = le_bytes 4 (8 * n) @ le_bytes 4 (8 * n div 2 ^ 32)"
    using le_bytes_append [of 4 4 "8 * n"] by simp
  show ?thesis
    unfolding dbp_pad_def zeros count list.map concat.simps map_append concat_append to_little_number map_replicate to_little_zero
      to_little_pad concat_zeros replicate_add by simp
qed

lemma nth_rmd_pad: "i < 16 \<Longrightarrow> (0x80 # replicate 13 0 @ [x, y :: 32 word]) ! i =
    (if i = 0 then 0x80 else if i = 14 then x else if i = 15 then y else 0)"
  by (auto simp: nth_Cons nth_append split: nat.split)

lemma rmd_pad_n_dbp:
  assumes "rmd_ok R" "length state = rmd_state_words R"
  shows "rmd_compress R state (rmd_pad_n blocks) = dbp_finish R state (blocks * 64) []"
proof -
  let ?n = "blocks * 64"
  let ?ws = "0x80 # replicate 13 0 @ [word_of_nat (8 * ?n), word_of_nat (8 * ?n div 2 ^ 32)]"
  have "blocks * 64 * 8 = 8 * ?n" by simp
  then have "rmd_pad_n blocks = ?ws"
    using word_of_count [where 'w = 32, of "8 * ?n"] by (simp add: rmd_pad_n_def rmd_stream_pad_def lo_word_def hi_word_def Let_def)
  moreover have "[] @ dbp_pad ?n = concat (map to_little ?ws)" using dbp_pad_words [of ?n 0] by simp
  ultimately show ?thesis
    using dbp_finish_words [OF assms(1), of "[]" ?n ?ws state] rmd_compress_dbp [OF assms, of "rmd_pad_n blocks"] by simp
qed

section \<open>Hashes\<close>

lemma dbp_hash_blocks:
  assumes "\<forall>b \<in> set blocks. length b = 64"
  shows "dbp_hash R (concat blocks) = rmd_output (dbp_finish R (dbp_fold R (rmd_h R) blocks) (length blocks * 64) [])"
proof -
  have "length (concat blocks) = length blocks * 64" using assms by (induction blocks) simp_all
  then show ?thesis using dbp_hash_finish [of "concat blocks" R "[]"] chop_blocks [OF _ assms] by simp
qed

lemma rmd_finalize_dbp:
  assumes "rmd_ok R" "length state = rmd_state_words R"
  shows "rmd_finalize R state blocks = rmd_output (dbp_finish R state (blocks * 64) [])"
  by (simp add: rmd_finalize_def rmd_pad_n_dbp [OF assms])

lemma rmd_h_length: "rmd_ok R \<Longrightarrow> length (rmd_h R) = rmd_state_words R"
  by (simp add: rmd_ok_def)

lemma rmd_hash_blocks_dbp:
  assumes "rmd_ok R" "\<forall>b \<in> set blocks. length b = 64"
  shows "rmd_hash_blocks R blocks = dbp_hash R (concat blocks)"
  using rmd_accumulate_dbp [OF assms(1) rmd_h_length [OF assms(1)], of blocks] rmd_finalize_dbp [OF assms(1)] dbp_hash_blocks [OF assms(2)]
  by (simp add: rmd_hash_blocks_def rmd_accumulate_def rmd_finalize_def)

lemma rmd_hash_block_dbp:
  assumes "rmd_ok R" "length block = 64"
  shows "rmd_hash_block R block = dbp_hash R block"
proof -
  have "rmd_block_pad = rmd_pad_n 1"
    by (intro nth_equalityI) (auto simp: rmd_block_pad_def rmd_pad_n_def rmd_stream_pad_def lo_word_def hi_word_def nth_rmd_pad
        nth_list_update)
  then show ?thesis using rmd_hash_blocks_dbp [OF assms(1), of "[block]"] assms(2)
    by (simp add: rmd_hash_block_def rmd_hash_blocks_def)
qed

lemma to_little_from_little: "offset + 4 \<le> length bs \<Longrightarrow> to_little (from_little offset bs) = take 4 (drop offset bs)"
  using le_bytes_le_value [of "take 4 (drop offset bs)"] by (simp add: from_little_def to_little_number)

lemma rmd_hash_half_dbp:
  assumes "rmd_ok R" "length half = 32"
  shows "rmd_hash_half R half = dbp_hash R half"
proof -
  let ?h = "map (\<lambda>i. from_little (i * 4) half) [0..<8]" and ?ws = "rmd_pad_half (rmd_input_half half (replicate 16 0))"
  have "?ws = ?h @ rmd_chunk_pad" by (simp add: rmd_pad_half_def rmd_input_half_def put_words_def rmd_chunk_pad_def)
  also have "rmd_chunk_pad = 0x80 # replicate 5 0 @ [word_of_nat (8 * 32), word_of_nat (8 * 32 div 2 ^ 32)]"
    by (intro nth_equalityI) (auto simp: rmd_chunk_pad_def nth_list_update nth_Cons nth_append split: nat.split)
  finally have ws: "?ws = ?h @ 0x80 # replicate 5 0 @ [word_of_nat (8 * 32), word_of_nat (8 * 32 div 2 ^ 32)]" .
  have h: "map to_little ?h = map (\<lambda>i. take 4 (drop (i * 4) half)) [0..<8]" using assms(2) by (simp add: to_little_from_little)
  have "concat (map to_little ?h) = half" unfolding h using concat_slices [of 4 half 8] assms(2) by simp
  then have "half @ dbp_pad 32 = concat (map to_little ?ws)" using dbp_pad_words [of 32 8] by (simp add: ws)
  from dbp_finish_words [OF assms(1) this, of "rmd_h R"]
  have "dbp_finish R (rmd_h R) 32 half = dbp_block R (rmd_h R) (\<lambda>t. ?ws ! t)" by (simp add: ws)
  then show ?thesis
    using dbp_hash_finish [of "[]" R half] assms(2) rmd_compress_dbp [OF assms(1) rmd_h_length [OF assms(1)], of ?ws]
    by (simp add: rmd_hash_half_def dbp_fold_def)
qed

end
