(* ===== verification/Accumulator.thy ===== *)
theory Accumulator
  imports ShaVector Ripemd
begin

text \<open>
  The streaming accumulator (\<open>hash/accumulator.hpp\<close>, \<open>impl/hash/accumulator.ipp\<close>). The algorithm it
  is instantiated with is a record of the operations it calls; the locale states what it relies
  on, and is interpreted for the SHA and RIPEMD algorithms. However a message is cut into writes,
  the digest is the hash of the whole message.
\<close>

section \<open>Algorithms\<close>

record 's algorithm =
  alg_block :: nat
  alg_half :: nat
  alg_count :: nat
  alg_big_end :: bool
  alg_h :: 's
  alg_accumulate :: "'s \<Rightarrow> data_chunk list \<Rightarrow> 's"
  alg_normalize :: "'s \<Rightarrow> data_chunk"
  alg_finalize :: "'s \<Rightarrow> nat \<Rightarrow> data_chunk"
  alg_hash_half :: "data_chunk \<Rightarrow> data_chunk"
  alg_hash_block :: "data_chunk \<Rightarrow> data_chunk"
  alg_hash_blocks :: "data_chunk list \<Rightarrow> data_chunk"
  alg_finalize_double :: "'s \<Rightarrow> nat \<Rightarrow> data_chunk"
  alg_finalize_second :: "'s \<Rightarrow> data_chunk"
  alg_double_half :: "data_chunk \<Rightarrow> data_chunk"
  alg_double_block :: "data_chunk \<Rightarrow> data_chunk"
  alg_double_blocks :: "data_chunk list \<Rightarrow> data_chunk"

definition sha_algorithm :: "('w::len) word sha \<Rightarrow> 'w word list algorithm" where
  "sha_algorithm S = \<lparr>alg_block = sha_block_size S, alg_half = sha_half_size S, alg_count = sha_count_bytes S,
     alg_big_end = True, alg_h = sha_h S, alg_accumulate = iterate S, alg_normalize = sha_normalize S,
     alg_finalize = sha_finalize S, alg_hash_half = hash_half S, alg_hash_block = hash_block S,
     alg_hash_blocks = hash_blocks S, alg_finalize_double = finalize_double S, alg_finalize_second = finalize_second S,
     alg_double_half = double_hash_half S, alg_double_block = double_hash_block S, alg_double_blocks = double_hash_blocks S\<rparr>"

text \<open>The RIPEMD template has no double hashes; the accumulator of one is never asked for them.\<close>

definition rmd_algorithm :: "rmd \<Rightarrow> 32 word list algorithm" where
  "rmd_algorithm R = \<lparr>alg_block = 64, alg_half = 32, alg_count = 8, alg_big_end = False, alg_h = rmd_h R,
     alg_accumulate = rmd_accumulate R, alg_normalize = rmd_output, alg_finalize = rmd_finalize R,
     alg_hash_half = rmd_hash_half R, alg_hash_block = rmd_hash_block R, alg_hash_blocks = rmd_hash_blocks R,
     alg_finalize_double = (\<lambda>_ _. []), alg_finalize_second = (\<lambda>_. []), alg_double_half = (\<lambda>_. []),
     alg_double_block = (\<lambda>_. []), alg_double_blocks = (\<lambda>_. [])\<rparr>"

section \<open>The accumulator\<close>

record 's accumulator =
  acc_size :: nat
  acc_state :: 's
  acc_buffer :: data_chunk

definition new_accumulator :: "'s algorithm \<Rightarrow> 's accumulator" where
  "new_accumulator A = \<lparr>acc_size = 0, acc_state = alg_h A, acc_buffer = replicate (alg_block A) 0\<rparr>"

definition acc_next :: "'s algorithm \<Rightarrow> 's accumulator \<Rightarrow> nat" where
  "acc_next A acc = acc_size acc mod alg_block A"

definition acc_gap :: "'s algorithm \<Rightarrow> 's accumulator \<Rightarrow> nat" where
  "acc_gap A acc = alg_block A - acc_next A acc"

definition acc_is_full :: "'s algorithm \<Rightarrow> 's accumulator \<Rightarrow> bool" where
  "acc_is_full A acc \<longleftrightarrow> acc_next A acc = 0"

definition acc_is_empty :: "'s algorithm \<Rightarrow> 's accumulator \<Rightarrow> bool" where
  "acc_is_empty A acc \<longleftrightarrow> acc_is_full A acc"

definition limit_bytes :: "'s algorithm \<Rightarrow> nat" where
  "limit_bytes A = (2 ^ (8 * alg_count A) - 1 - 8 * alg_count A) div 8"

definition is_buffer_overflow :: "'s algorithm \<Rightarrow> bool \<Rightarrow> nat \<Rightarrow> 's accumulator \<Rightarrow> bool" where
  "is_buffer_overflow A checked sz acc \<longleftrightarrow> checked \<and>
     sz > (limit_bytes A + 2 ^ (8 * alg_count A) - acc_size acc) mod 2 ^ (8 * alg_count A)"

definition add_data :: "'s algorithm \<Rightarrow> data_chunk \<Rightarrow> 's accumulator \<Rightarrow> 's accumulator" where
  "add_data A bs acc = acc\<lparr>acc_buffer := put_words (acc_next A acc) bs (acc_buffer acc), acc_size := acc_size acc + length bs\<rparr>"

text \<open>As much of the data as the buffer takes, with the count accepted.\<close>

definition add_accepted :: "'s algorithm \<Rightarrow> bool \<Rightarrow> data_chunk \<Rightarrow> 's accumulator \<Rightarrow> (nat \<times> 's accumulator) option" where
  "add_accepted A checked bs acc =
     (if is_buffer_overflow A checked (length bs) acc then None
      else let accepted = min (acc_gap A acc) (length bs) in Some (accepted, add_data A (take accepted bs) acc))"

definition acc_accumulate :: "'s algorithm \<Rightarrow> data_chunk \<Rightarrow> 's accumulator \<Rightarrow> 's accumulator option" where
  "acc_accumulate A bs acc =
     (if \<not> acc_is_empty A acc \<or> length bs < alg_block A then None
      else let remain = length bs mod alg_block A; bytes = length bs - remain in
        Some (add_data A (drop bytes bs)
          (acc\<lparr>acc_state := alg_accumulate A (acc_state acc) (chop (alg_block A) (take bytes bs)), acc_size := acc_size acc + bytes\<rparr>)))"

definition acc_write :: "'s algorithm \<Rightarrow> bool \<Rightarrow> data_chunk \<Rightarrow> 's accumulator \<Rightarrow> bool \<times> 's accumulator" where
  "acc_write A checked bs acc =
     (if bs = [] then (True, acc)
      else case acc_accumulate A bs acc of Some accumulated \<Rightarrow> (True, accumulated)
      | None \<Rightarrow> (case add_accepted A checked bs acc of None \<Rightarrow> (False, acc)
        | Some (accepted, filled) \<Rightarrow>
            if \<not> acc_is_full A filled then (True, filled)
            else let emptied = filled\<lparr>acc_state := alg_accumulate A (acc_state filled) [acc_buffer filled]\<rparr>;
                     rest = drop accepted bs in
              case acc_accumulate A rest emptied of Some accumulated \<Rightarrow> (True, accumulated)
              | None \<Rightarrow> (True, add_data A rest emptied)))"

definition acc_serialize :: "'s algorithm \<Rightarrow> nat \<Rightarrow> data_chunk" where
  "acc_serialize A sz = (let bits = sz * 8 mod 2 ^ 64 in
     if alg_big_end A then be_bytes (alg_count A) bits else le_bytes (alg_count A) bits)"

definition acc_pad_size :: "'s algorithm \<Rightarrow> 's accumulator \<Rightarrow> nat" where
  "acc_pad_size A acc = (let singled = alg_block A - alg_count A; doubled = alg_block A + singled; used = acc_next A acc in
     if used < singled then singled - used else doubled - used)"

definition acc_stream_pad :: "'s algorithm \<Rightarrow> data_chunk" where
  "acc_stream_pad A = (replicate (alg_block A) 0)[0 := 0x80]"

text \<open>The results of the two writes are not read.\<close>

definition acc_pad :: "'s algorithm \<Rightarrow> bool \<Rightarrow> 's accumulator \<Rightarrow> 's accumulator" where
  "acc_pad A checked acc =
     snd (acc_write A checked (acc_serialize A (acc_size acc))
       (snd (acc_write A checked (take (acc_pad_size A acc) (acc_stream_pad A)) acc)))"

definition acc_flush :: "'s algorithm \<Rightarrow> bool \<Rightarrow> 's accumulator \<Rightarrow> data_chunk" where
  "acc_flush A checked acc =
     (if acc_is_empty A acc then alg_finalize A (acc_state acc) (acc_size acc div alg_block A)
      else alg_normalize A (acc_state (acc_pad A checked acc)))"

definition acc_double_flush :: "'s algorithm \<Rightarrow> bool \<Rightarrow> 's accumulator \<Rightarrow> data_chunk" where
  "acc_double_flush A checked acc =
     (if acc_is_empty A acc then alg_finalize_double A (acc_state acc) (acc_size acc div alg_block A)
      else alg_finalize_second A (acc_state (acc_pad A checked acc)))"

definition acc_reset :: "'s algorithm \<Rightarrow> 's \<Rightarrow> nat \<Rightarrow> 's accumulator \<Rightarrow> 's accumulator" where
  "acc_reset A state blocks acc = acc\<lparr>acc_state := state, acc_size := blocks * alg_block A\<rparr>"

text \<open>What a flush leaves in the accumulator.\<close>

definition acc_flushed :: "'s algorithm \<Rightarrow> bool \<Rightarrow> 's accumulator \<Rightarrow> 's accumulator" where
  "acc_flushed A checked acc = (if acc_is_empty A acc then acc else acc_pad A checked acc)"

text \<open>
  Continuing from the state of a number of blocks. The checked form tests the size it has just set
  against what is left of the limit.
\<close>

definition accumulator_from :: "'s algorithm \<Rightarrow> bool \<Rightarrow> 's \<Rightarrow> nat \<Rightarrow> 's accumulator" where
  "accumulator_from A checked state blocks =
     (let acc = \<lparr>acc_size = blocks * alg_block A, acc_state = state, acc_buffer = replicate (alg_block A) 0\<rparr> in
      if is_buffer_overflow A checked (blocks * alg_block A) acc \<or> (checked \<and> blocks * alg_block A \<ge> 2 ^ 64)
      then acc_reset A (alg_h A) 0 acc else acc)"

section \<open>Finalized hashes\<close>

definition acc_hash :: "'s algorithm \<Rightarrow> bool \<Rightarrow> data_chunk \<Rightarrow> data_chunk" where
  "acc_hash A checked bs =
     (let sz = length bs in
      if sz = 0 then alg_hash_blocks A []
      else if sz = alg_half A then alg_hash_half A bs
      else if sz = alg_block A then alg_hash_block A bs
      else if sz mod alg_block A = 0 then alg_hash_blocks A (chop (alg_block A) bs)
      else acc_flush A checked (snd (acc_write A checked bs (new_accumulator A))))"

definition acc_double_hash :: "'s algorithm \<Rightarrow> bool \<Rightarrow> data_chunk \<Rightarrow> data_chunk" where
  "acc_double_hash A checked bs =
     (let sz = length bs in
      if sz = 0 then alg_double_blocks A []
      else if sz = alg_half A then alg_double_half A bs
      else if sz = alg_block A then alg_double_block A bs
      else if sz mod alg_block A = 0 then alg_double_blocks A (chop (alg_block A) bs)
      else acc_double_flush A checked (snd (acc_write A checked bs (new_accumulator A))))"

section \<open>The hash of a message\<close>

definition md_pad :: "'s algorithm \<Rightarrow> nat \<Rightarrow> data_chunk" where
  "md_pad A n = 0x80 # replicate ((2 * alg_block A - alg_count A - 1 - n mod alg_block A) mod alg_block A) 0 @
     (if alg_big_end A then be_bytes (alg_count A) (8 * n) else le_bytes (alg_count A) (8 * n))"

definition md_state :: "'s algorithm \<Rightarrow> data_chunk \<Rightarrow> 's" where
  "md_state A message = alg_accumulate A (alg_h A) (chop (alg_block A) (message @ md_pad A (length message)))"

definition md_hash :: "'s algorithm \<Rightarrow> data_chunk \<Rightarrow> data_chunk" where
  "md_hash A message = alg_normalize A (md_state A message)"

text \<open>Messages whose count of bits fits, with the padding, into the count of the accumulator.\<close>

definition countable :: "'s algorithm \<Rightarrow> nat \<Rightarrow> bool" where
  "countable A n \<longleftrightarrow> n + 2 * alg_block A \<le> limit_bytes A \<and> 8 * n < 2 ^ 64"

lemma chop_lengths: "b \<in> set (chop n xs) \<Longrightarrow> length b = n"
  by (induction n xs rule: chop.induct) (subst (asm) (2) chop.simps, auto split: if_splits)

lemma chop_concat: "0 < n \<Longrightarrow> n dvd length xs \<Longrightarrow> concat (chop n xs) = xs"
proof (induction n xs rule: chop.induct)
  case (1 n xs)
  show ?case
  proof (cases "xs = []")
    case False
    then have "n \<le> length xs" using "1.prems" by (simp add: dvd_imp_le)
    moreover from this "1.prems"(2) have "n dvd length (drop n xs)" by (simp add: dvd_diff_nat)
    ultimately have "concat (chop n (drop n xs)) = drop n xs" using "1.IH" "1.prems"(1) by simp
    with \<open>n \<le> length xs\<close> "1.prems"(1) show ?thesis by (simp add: chop.simps [of n xs])
  qed (use "1.prems" in simp)
qed

locale block_algorithm =
  fixes A :: "'s algorithm" and ok :: "'s \<Rightarrow> bool"
  assumes sizes: "0 < alg_count A" "alg_count A < alg_block A"
    and start: "ok (alg_h A)"
    and accumulate_ok: "ok s \<Longrightarrow> ok (alg_accumulate A s blocks)"
    and accumulate_Nil: "ok s \<Longrightarrow> alg_accumulate A s [] = s"
    and accumulate_append: "ok s \<Longrightarrow> alg_accumulate A s (xs @ ys) = alg_accumulate A (alg_accumulate A s xs) ys"
    and finalize: "ok s \<Longrightarrow> alg_finalize A s n =
      alg_normalize A (alg_accumulate A s (chop (alg_block A) (md_pad A (n * alg_block A))))"
    and hash_half: "length bs = alg_half A \<Longrightarrow> alg_hash_half A bs = md_hash A bs"
    and hash_block: "length bs = alg_block A \<Longrightarrow> alg_hash_block A bs = md_hash A bs"
    and hash_blocks: "\<forall>b \<in> set blocks. length b = alg_block A \<Longrightarrow> alg_hash_blocks A blocks = md_hash A (concat blocks)"
begin

abbreviation block :: nat where
  "block \<equiv> alg_block A"

lemma block_pos: "0 < block"
  using sizes by simp

text \<open>The blocks of the message are in the state, what is left over is at the front of the buffer.\<close>

definition holds :: "'s accumulator \<Rightarrow> data_chunk \<Rightarrow> data_chunk \<Rightarrow> bool" where
  "holds acc pre tail \<longleftrightarrow> block dvd length pre \<and> length tail < block \<and> acc_size acc = length pre + length tail \<and>
     acc_state acc = alg_accumulate A (alg_h A) (chop block pre) \<and> length (acc_buffer acc) = block \<and>
     take (length tail) (acc_buffer acc) = tail"

definition represents :: "'s accumulator \<Rightarrow> data_chunk \<Rightarrow> bool" where
  "represents acc m \<longleftrightarrow> (\<exists>pre tail. m = pre @ tail \<and> holds acc pre tail)"

lemma new_represents: "represents (new_accumulator A) []"
  using start block_pos by (simp add: represents_def holds_def new_accumulator_def accumulate_Nil)

lemma holds_next [simp]: "holds acc pre tail \<Longrightarrow> acc_next A acc = length tail"
  by (auto simp: holds_def acc_next_def)

lemma holds_add:
  assumes "holds acc pre tail" "length tail + length bs < block"
  shows "holds (add_data A bs acc) pre (tail @ bs)"
  using assms holds_next [OF assms(1)] by (simp add: holds_def add_data_def put_words_def)

lemma holds_fill:
  assumes "holds acc pre tail" "length tail + length bs = block" "f = add_data A bs acc"
  shows "holds (f\<lparr>acc_state := alg_accumulate A (acc_state f) [acc_buffer f]\<rparr>) (pre @ tail @ bs) []"
proof -
  have buffer: "acc_buffer f = tail @ bs" "acc_state f = acc_state acc" "acc_size f = acc_size acc + length bs"
    using assms holds_next [OF assms(1)] by (simp_all add: add_data_def put_words_def holds_def)
  have "chop block (pre @ tail @ bs) = chop block pre @ [tail @ bs]"
    using assms block_pos by (simp add: chop_append chop_one holds_def)
  with buffer assms show ?thesis by (simp add: holds_def accumulate_append start)
qed

lemma holds_accumulate:
  assumes "holds acc pre []" "acc_accumulate A bs acc = Some acc'"
  shows "represents acc' (pre @ bs)"
proof -
  let ?bytes = "length bs - length bs mod block" let ?body = "take ?bytes bs"
  let ?mid = "acc\<lparr>acc_state := alg_accumulate A (acc_state acc) (chop block ?body), acc_size := acc_size acc + ?bytes\<rparr>"
  have body: "length ?body = ?bytes" "block dvd ?bytes" by (simp_all add: dvd_minus_mod)
  have "chop block (pre @ ?body) = chop block pre @ chop block ?body"
    using assms(1) block_pos by (simp add: chop_append holds_def)
  moreover have "block dvd length (pre @ ?body)" using assms(1) body by (simp only: length_append dvd_add holds_def)
  ultimately have "holds ?mid (pre @ ?body) []" using assms(1) body by (simp add: holds_def accumulate_append start)
  from holds_add [OF this, of "drop ?bytes bs"] have "holds (add_data A (drop ?bytes bs) ?mid) (pre @ ?body) (drop ?bytes bs)"
    using block_pos by simp
  moreover have "acc' = add_data A (drop ?bytes bs) ?mid"
    using assms(2) by (auto simp: acc_accumulate_def Let_def split: if_splits)
  ultimately show ?thesis unfolding represents_def by (metis append.assoc append_take_drop_id)
qed

lemma accumulate_short:
  assumes "holds acc pre tail" "acc_accumulate A bs acc = None"
  shows "tail \<noteq> [] \<or> length bs < block"
  using assms(2) holds_next [OF assms(1)]
  by (auto simp: acc_accumulate_def acc_is_empty_def acc_is_full_def Let_def split: if_splits)

lemma accumulate_empty:
  assumes "holds acc pre tail" "acc_accumulate A bs acc = Some acc'"
  shows "tail = []"
  using assms(2) holds_next [OF assms(1)]
  by (auto simp: acc_accumulate_def acc_is_empty_def acc_is_full_def Let_def split: if_splits)

lemma no_overflow:
  assumes "acc_size acc + n \<le> limit_bytes A"
  shows "\<not> is_buffer_overflow A checked n acc"
proof -
  have "limit_bytes A < 2 ^ (8 * alg_count A)" by (simp add: limit_bytes_def div_less_dividend less_mult_imp_div_less less_imp_diff_less)
  then have "(limit_bytes A + 2 ^ (8 * alg_count A) - acc_size acc) mod 2 ^ (8 * alg_count A) = limit_bytes A - acc_size acc"
    using assms by (metis Nat.add_diff_assoc2 add.commute add_leD1 less_imp_diff_less mod_add_self2 mod_less)
  with assms show ?thesis by (simp add: is_buffer_overflow_def) linarith
qed

theorem write_represents:
  assumes rep: "represents acc m" and limit: "length m + length bs \<le> limit_bytes A"
  shows "\<exists>acc'. acc_write A checked bs acc = (True, acc') \<and> represents acc' (m @ bs)"
proof -
  from rep obtain pre tail where m: "m = pre @ tail" and h: "holds acc pre tail" by (auto simp: represents_def)
  show ?thesis
  proof (cases "acc_accumulate A bs acc")
    case (Some acc')
    with accumulate_empty [OF h Some] h holds_accumulate [of acc pre bs acc'] rep m show ?thesis
      by (auto simp: acc_write_def)
  next
    case None
    let ?gap = "block - length tail" let ?acc = "min ?gap (length bs)" let ?f = "add_data A (take ?acc bs) acc"
    have tail: "length tail < block" "acc_size acc = length pre + length tail" "block dvd length pre" using h by (simp_all add: holds_def)
    have added: "add_accepted A checked bs acc = Some (?acc, ?f)"
      using no_overflow [of acc "length bs" checked] limit m tail holds_next [OF h] by (simp add: add_accepted_def acc_gap_def Let_def)
    show ?thesis
    proof (cases "length bs < ?gap")
      case True
      then have f: "holds ?f pre (tail @ bs)" using holds_add [OF h, of bs] by simp
      from rep True have "bs = [] \<Longrightarrow> ?thesis" by (simp add: acc_write_def)
      moreover have "bs \<noteq> [] \<Longrightarrow> \<not> acc_is_full A ?f" using holds_next [OF f] by (simp add: acc_is_full_def)
      ultimately show ?thesis using None added f m by (auto simp: acc_write_def represents_def)
    next
      case False
      then have acc: "?acc = ?gap" by simp
      let ?e = "?f\<lparr>acc_state := alg_accumulate A (acc_state ?f) [acc_buffer ?f]\<rparr>" and ?rest = "drop ?gap bs"
      have e: "holds ?e (pre @ tail @ take ?gap bs) []"
        using holds_fill [OF h _ refl, of "take ?gap bs"] False tail acc by simp
      have full: "acc_is_full A ?f" using holds_next [OF e] by (simp add: acc_is_full_def acc_next_def)
      have bs: "bs \<noteq> []" using False tail by auto
      have whole: "pre @ tail @ bs = (pre @ tail @ take ?gap bs) @ ?rest" by simp
      show ?thesis
      proof (cases "acc_accumulate A ?rest ?e")
        case (Some acc')
        then show ?thesis using holds_accumulate [OF e Some] None added full bs m acc by (auto simp: acc_write_def Let_def)
      next
        case short: None
        then have "length ?rest < block" using accumulate_short [OF e short] by blast
        then have "holds (add_data A ?rest ?e) (pre @ tail @ take ?gap bs) ?rest" using holds_add [OF e, of ?rest] by simp
        then have "represents (add_data A ?rest ?e) (m @ bs)" unfolding represents_def using m whole by (metis append.assoc)
        then show ?thesis using None added full bs short acc by (auto simp: acc_write_def Let_def)
      qed
    qed
  qed
qed

lemma pad_zeros:
  assumes "holds acc pre tail"
  shows "take (acc_pad_size A acc) (acc_stream_pad A) =
    0x80 # replicate ((2 * block - alg_count A - 1 - length tail) mod block) 0"
    and "acc_pad_size A acc \<le> block"
proof -
  let ?z = "(2 * block - alg_count A - 1 - length tail) mod block"
  have tail: "length tail < block" using assms by (simp add: holds_def)
  have size: "acc_pad_size A acc = Suc ?z"
  proof (cases "length tail < block - alg_count A")
    case True
    then have "2 * block - alg_count A - 1 - length tail = block + (block - alg_count A - 1 - length tail)" by linarith
    then have "?z = (block - alg_count A - 1 - length tail) mod block" by (simp only: mod_add_self1)
    also have "\<dots> = block - alg_count A - 1 - length tail" using sizes by (intro mod_less) linarith
    finally have "?z = block - alg_count A - 1 - length tail" .
    with True show ?thesis using holds_next [OF assms] by (simp add: acc_pad_size_def Let_def)
  next
    case False
    then have "2 * block - alg_count A - 1 - length tail < block" using sizes by linarith
    with False tail sizes show ?thesis using holds_next [OF assms] by (simp add: acc_pad_size_def Let_def)
  qed
  moreover obtain b where b: "block = Suc b" using block_pos by (cases block) simp_all
  moreover have "?z \<le> b" using mod_less_divisor [OF block_pos, of "2 * block - alg_count A - 1 - length tail"] b by simp
  ultimately show "take (acc_pad_size A acc) (acc_stream_pad A) = 0x80 # replicate ?z 0" "acc_pad_size A acc \<le> block"
    by (simp_all add: acc_stream_pad_def take_Cons' min_def)
qed

lemma length_md_pad: "block dvd n + length (md_pad A n)"
proof -
  let ?z = "2 * block - alg_count A - 1 - n mod block"
  have le: "alg_count A + 1 + n mod block \<le> 2 * block" using sizes mod_less_divisor [OF block_pos, of n] by linarith
  have "length (md_pad A n) = Suc (?z mod block + alg_count A)" by (simp add: md_pad_def)
  then have "(n + length (md_pad A n)) mod block = (n mod block + (Suc (?z + alg_count A))) mod block"
    by (metis add_Suc mod_add_cong mod_add_left_eq mod_mod_trivial mod_Suc_eq)
  also have "n mod block + Suc (?z + alg_count A) = 2 * block" using le by linarith
  finally show ?thesis by (simp add: mod_eq_0_iff_dvd)
qed

lemma represents_whole:
  assumes "represents acc m" "block dvd length m"
  shows "acc_state acc = alg_accumulate A (alg_h A) (chop block m)"
proof -
  from assms(1) obtain pre tail where m: "m = pre @ tail" and h: "holds acc pre tail" by (auto simp: represents_def)
  then have "block dvd length tail" using assms(2) by (simp add: holds_def dvd_add_right_iff)
  with h have "tail = []" by (auto simp: holds_def dest: nat_dvd_not_less)
  with h m show ?thesis by (simp add: holds_def)
qed

lemma serialize_count:
  assumes "8 * n < 2 ^ 64"
  shows "acc_serialize A n = (if alg_big_end A then be_bytes (alg_count A) (8 * n) else le_bytes (alg_count A) (8 * n))"
  using assms by (simp add: acc_serialize_def Let_def mult.commute)

theorem pad_state:
  assumes rep: "represents acc m" and count: "countable A (length m)"
  shows pad_represents: "represents (acc_pad A checked acc) (m @ md_pad A (length m))"
    and "acc_state (acc_pad A checked acc) = md_state A m"
proof -
  from rep obtain pre tail where m: "m = pre @ tail" and h: "holds acc pre tail" by (auto simp: represents_def)
  have next_m: "length m mod block = length tail" using holds_next [OF h] h m by (simp add: holds_def acc_next_def)
  let ?zeros = "0x80 # replicate ((2 * block - alg_count A - 1 - length tail) mod block) 0 :: data_chunk"
  have "length ?zeros \<le> block"
    using mod_less_divisor [OF block_pos, of "2 * block - alg_count A - 1 - length tail"] by (simp only: length_Cons length_replicate Suc_leI)
  then have limit: "length m + length ?zeros + alg_count A \<le> limit_bytes A" using count sizes unfolding countable_def by linarith
  obtain a where a: "acc_write A checked ?zeros acc = (True, a)" "represents a (m @ ?zeros)"
    using write_represents [OF rep, of ?zeros checked] limit by auto
  let ?count = "acc_serialize A (acc_size acc)"
  have size: "acc_size acc = length m" using h m by (simp add: holds_def)
  have len: "length ?count = alg_count A" by (simp add: acc_serialize_def Let_def)
  obtain b where b: "acc_write A checked ?count a = (True, b)" "represents b ((m @ ?zeros) @ ?count)"
    using write_represents [OF a(2), of ?count checked] limit len by auto
  have "(m @ ?zeros) @ ?count = m @ md_pad A (length m)"
    using serialize_count count size next_m by (simp add: md_pad_def countable_def)
  moreover have "acc_pad A checked acc = b" using a(1) b(1) pad_zeros(1) [OF h] by (simp add: acc_pad_def)
  ultimately show "represents (acc_pad A checked acc) (m @ md_pad A (length m))" using b(2) by simp
  from represents_whole [OF this] show "acc_state (acc_pad A checked acc) = md_state A m"
    using length_md_pad [of "length m"] by (simp add: md_state_def)
qed

lemma full_state:
  assumes rep: "represents acc m" and full: "acc_is_empty A acc"
  shows "md_state A m = alg_accumulate A (acc_state acc) (chop block (md_pad A (length m)))"
    and "length m = (acc_size acc div block) * block" and "ok (acc_state acc)"
proof -
  from rep obtain pre tail where m: "m = pre @ tail" and h: "holds acc pre tail" by (auto simp: represents_def)
  then have "tail = []" using full holds_next [OF h] by (simp add: acc_is_empty_def acc_is_full_def)
  with h m have pre: "m = pre" "block dvd length pre" "acc_size acc = length pre"
      "acc_state acc = alg_accumulate A (alg_h A) (chop block pre)" by (simp_all add: holds_def)
  then show "md_state A m = alg_accumulate A (acc_state acc) (chop block (md_pad A (length m)))"
    using block_pos by (simp add: md_state_def chop_append accumulate_append start)
  show "length m = (acc_size acc div block) * block" using pre by simp
  show "ok (acc_state acc)" using pre by (simp add: accumulate_ok start)
qed

theorem flush_hash:
  assumes "represents acc m" "countable A (length m)"
  shows "acc_flush A checked acc = md_hash A m"
proof (cases "acc_is_empty A acc")
  case True
  then show ?thesis using full_state [OF assms(1) True] finalize [of "acc_state acc" "acc_size acc div block"]
    by (simp add: acc_flush_def md_hash_def)
next
  case False
  then show ?thesis using pad_state [OF assms] by (simp add: acc_flush_def md_hash_def)
qed

theorem hash_message:
  assumes "countable A (length bs)"
  shows "acc_hash A checked bs = md_hash A bs"
proof -
  consider "bs = []" | "length bs = alg_half A" | "length bs = block" | "block dvd length bs" "bs \<noteq> []" | "\<not> block dvd length bs" by blast
  then show ?thesis
  proof cases
    case 4
    have "\<forall>b \<in> set (chop block bs). length b = block" using block_pos chop_lengths by blast
    then show ?thesis using 4 hash_blocks [of "chop block bs"] chop_concat [OF block_pos 4(1)] hash_half [of bs] hash_block [of bs]
      by (simp add: acc_hash_def Let_def mod_eq_0_iff_dvd)
  next
    case 5
    obtain acc where "acc_write A checked bs (new_accumulator A) = (True, acc)" "represents acc bs"
      using write_represents [OF new_represents, of bs checked] assms by (auto simp: countable_def)
    then show ?thesis using flush_hash [of acc bs checked] assms 5 block_pos hash_half [of bs]
      by (auto simp: acc_hash_def Let_def mod_eq_0_iff_dvd)
  qed (use hash_half [of bs] hash_block [of bs] hash_blocks [of "[]"] in \<open>auto simp: acc_hash_def Let_def\<close>)
qed

lemma writes_represent:
  assumes "represents acc m" "length m + length (concat parts) \<le> limit_bytes A"
  shows "represents (fold (\<lambda>part acc. snd (acc_write A checked part acc)) parts acc) (m @ concat parts)"
  using assms
proof (induction parts arbitrary: acc m)
  case (Cons part parts)
  then obtain acc' where acc': "acc_write A checked part acc = (True, acc')" "represents acc' (m @ part)"
    using write_represents [OF Cons.prems(1), of part checked] by auto
  with Cons.IH [OF acc'(2)] Cons.prems(2) show ?case by simp
qed simp

theorem streamed_message:
  assumes "countable A (length (concat parts))"
  shows "acc_flush A checked (fold (\<lambda>part acc. snd (acc_write A checked part acc)) parts (new_accumulator A)) = md_hash A (concat parts)"
  using writes_represent [OF new_represents, of parts checked] flush_hash [OF _ assms] assms by (simp add: countable_def)

theorem midstate_message:
  assumes "block dvd length pre" "state = alg_accumulate A (alg_h A) (chop block pre)"
    and "length (acc_buffer acc) = block"
  shows "represents (acc_reset A state (length pre div block) acc) pre"
  unfolding represents_def using assms block_pos by (intro exI [of _ pre] exI [of _ "[]"]) (simp add: holds_def acc_reset_def)

lemma reset_represents: "length (acc_buffer acc) = block \<Longrightarrow> represents (acc_reset A (alg_h A) 0 acc) []"
  using midstate_message [of "[]" "alg_h A" acc] start block_pos by (simp add: accumulate_Nil)

lemma from_represents:
  assumes "block dvd length pre" "2 * length pre \<le> limit_bytes A" "length pre < 2 ^ 64"
  shows "represents (accumulator_from A checked (alg_accumulate A (alg_h A) (chop block pre)) (length pre div block)) pre"
proof -
  let ?acc = "\<lparr>acc_size = length pre div block * block, acc_state = alg_accumulate A (alg_h A) (chop block pre), acc_buffer = replicate block 0\<rparr>"
  have "\<not> is_buffer_overflow A checked (length pre) ?acc" using assms by (intro no_overflow) simp
  then have "accumulator_from A checked (alg_accumulate A (alg_h A) (chop block pre)) (length pre div block) = ?acc"
    using assms by (simp add: accumulator_from_def Let_def)
  moreover have "holds ?acc pre []" using assms block_pos by (simp add: holds_def)
  ultimately show ?thesis unfolding represents_def by (metis append_Nil2)
qed

text \<open>Any state the accumulator gets into is one the algorithm can be in, so a digest has its size.\<close>

abbreviation sound :: "'s accumulator \<Rightarrow> bool" where
  "sound acc \<equiv> ok (acc_state acc)"

lemma sound_new: "sound (new_accumulator A)"
  by (simp add: new_accumulator_def start)

lemma sound_add: "sound acc \<Longrightarrow> sound (add_data A bs acc)"
  by (simp add: add_data_def)

lemma sound_accumulate: "sound acc \<Longrightarrow> acc_accumulate A bs acc = Some acc' \<Longrightarrow> sound acc'"
  by (auto simp: acc_accumulate_def Let_def accumulate_ok sound_add split: if_splits)

lemma sound_write: "sound acc \<Longrightarrow> sound (snd (acc_write A checked bs acc))"
  by (auto simp: acc_write_def add_accepted_def Let_def accumulate_ok sound_add split: option.splits if_splits
      elim: sound_accumulate [rotated])

lemma sound_pad: "sound acc \<Longrightarrow> sound (acc_pad A checked acc)"
  by (simp add: acc_pad_def sound_write)

lemma sound_flush: "sound acc \<Longrightarrow> \<exists>s. ok s \<and> acc_flush A checked acc = alg_normalize A s"
  using finalize [of "acc_state acc"] accumulate_ok sound_pad [of acc checked] by (auto simp: acc_flush_def)

lemma ok_md_state: "ok (md_state A m)"
  by (simp add: md_state_def accumulate_ok start)

lemma digest_normal: "\<exists>s. ok s \<and> acc_hash A checked bs = alg_normalize A s"
proof -
  have md: "\<exists>s. ok s \<and> md_hash A m = alg_normalize A s" for m using ok_md_state by (auto simp: md_hash_def)
  have "alg_hash_blocks A (chop block bs) = md_hash A (concat (chop block bs))"
    using hash_blocks [of "chop block bs"] chop_lengths by blast
  then show ?thesis
    using md hash_half [of bs] hash_block [of bs] hash_blocks [of "[]"] sound_flush [OF sound_write [OF sound_new]]
    by (auto simp: acc_hash_def Let_def)
qed

end

text \<open>What the double hashes rely on, where the digest is as long as half a block.\<close>

locale double_algorithm = block_algorithm +
  assumes finalize_double: "ok s \<Longrightarrow> alg_finalize_double A s n =
      md_hash A (alg_normalize A (alg_accumulate A s (chop (alg_block A) (md_pad A (n * alg_block A)))))"
    and finalize_second: "ok s \<Longrightarrow> alg_finalize_second A s = md_hash A (alg_normalize A s)"
    and double_half: "length bs = alg_half A \<Longrightarrow> alg_double_half A bs = md_hash A (md_hash A bs)"
    and double_block: "length bs = alg_block A \<Longrightarrow> alg_double_block A bs = md_hash A (md_hash A bs)"
    and double_blocks: "\<forall>b \<in> set blocks. length b = alg_block A \<Longrightarrow> alg_double_blocks A blocks = md_hash A (md_hash A (concat blocks))"
begin

theorem double_flush_hash:
  assumes "represents acc m" "countable A (length m)"
  shows "acc_double_flush A checked acc = md_hash A (md_hash A m)"
proof (cases "acc_is_empty A acc")
  case True
  then show ?thesis using full_state [OF assms(1) True] finalize_double [of "acc_state acc" "acc_size acc div block"]
    by (simp add: acc_double_flush_def md_hash_def)
next
  case False
  moreover have "ok (md_state A m)" by (simp add: md_state_def accumulate_ok start)
  ultimately show ?thesis using pad_state [OF assms] finalize_second by (simp add: acc_double_flush_def md_hash_def [of A m])
qed

theorem double_hash_message:
  assumes "countable A (length bs)"
  shows "acc_double_hash A checked bs = md_hash A (md_hash A bs)"
proof -
  consider "bs = []" | "length bs = alg_half A" | "length bs = block" | "block dvd length bs" "bs \<noteq> []" | "\<not> block dvd length bs" by blast
  then show ?thesis
  proof cases
    case 4
    have "\<forall>b \<in> set (chop block bs). length b = block" using block_pos chop_lengths by blast
    then show ?thesis using 4 double_blocks [of "chop block bs"] chop_concat [OF block_pos 4(1)] double_half [of bs] double_block [of bs]
      by (simp add: acc_double_hash_def Let_def mod_eq_0_iff_dvd)
  next
    case 5
    obtain acc where "acc_write A checked bs (new_accumulator A) = (True, acc)" "represents acc bs"
      using write_represents [OF new_represents, of bs checked] assms by (auto simp: countable_def)
    then show ?thesis using double_flush_hash [of acc bs checked] assms 5 block_pos double_half [of bs]
      by (auto simp: acc_double_hash_def Let_def mod_eq_0_iff_dvd)
  qed (use double_half [of bs] double_block [of bs] double_blocks [of "[]"] in \<open>auto simp: acc_double_hash_def Let_def\<close>)
qed

lemma double_digest_normal: "\<exists>s. ok s \<and> acc_double_hash A checked bs = alg_normalize A s"
proof -
  have md: "\<exists>s. ok s \<and> md_hash A m = alg_normalize A s" for m using ok_md_state by (auto simp: md_hash_def)
  have "alg_double_blocks A (chop block bs) = md_hash A (md_hash A (concat (chop block bs)))"
    using double_blocks [of "chop block bs"] chop_lengths by blast
  moreover have "sound acc \<Longrightarrow> \<exists>m. acc_double_flush A checked acc = md_hash A m" for acc
    using finalize_double [of "acc_state acc"] finalize_second [of "acc_state (acc_pad A checked acc)"] sound_pad [of acc checked]
    by (auto simp: acc_double_flush_def)
  ultimately show ?thesis
    using md double_half [of bs] double_block [of bs] double_blocks [of "[]"] sound_write [OF sound_new]
    by (auto simp: acc_double_hash_def Let_def) (metis md)+
qed

end

section \<open>The algorithms of the library\<close>

lemma sha_md_pad: "md_pad (sha_algorithm S) = fips_pad S"
  by (rule ext) (simp add: md_pad_def fips_pad_def sha_algorithm_def Let_def)

lemma sha_md_hash:
  assumes "sha_ok S"
  shows "md_hash (sha_algorithm S) = fips_hash S"
  using iterate_fips [OF assms sha_h_length [OF assms]]
  by (intro ext) (simp add: md_hash_def md_state_def sha_md_pad fips_hash_def, simp add: sha_algorithm_def sha_normalize_def)

lemma sha_algorithm_sel [simp]:
  "alg_block (sha_algorithm S) = sha_block_size S" "alg_half (sha_algorithm S) = sha_half_size S"
  "alg_count (sha_algorithm S) = sha_count_bytes S" "alg_h (sha_algorithm S) = sha_h S"
  "alg_accumulate (sha_algorithm S) = iterate S" "alg_normalize (sha_algorithm S) = sha_output S"
  "alg_finalize (sha_algorithm S) = sha_finalize S" "alg_hash_half (sha_algorithm S) = hash_half S"
  "alg_hash_block (sha_algorithm S) = hash_block S" "alg_hash_blocks (sha_algorithm S) = hash_blocks S"
  "alg_finalize_double (sha_algorithm S) = finalize_double S" "alg_finalize_second (sha_algorithm S) = finalize_second S"
  "alg_double_half (sha_algorithm S) = double_hash_half S" "alg_double_block (sha_algorithm S) = double_hash_block S"
  "alg_double_blocks (sha_algorithm S) = double_hash_blocks S"
  by (simp_all add: sha_algorithm_def sha_normalize_def)

lemma hash_block_fips:
  fixes S :: "('w::len) word sha"
  assumes "sha_ok S" "length bs = sha_block_size S"
  shows "hash_block S bs = fips_hash S bs"
proof -
  have "8 * (length [bs] * sha_block_size S) < 2 ^ LENGTH('w)" by (rule small_count [OF assms(1)]) (simp add: sha_block_size_def)
  from hash_blocks_array_fips [OF assms(1) _ this] assms(2) show ?thesis by (simp add: hash_block_def)
qed

lemma sha_block_algorithm:
  assumes "sha_ok S"
  shows "block_algorithm (sha_algorithm S) (\<lambda>s. length s = sha_state_words S)"
proof -
  have "0 < sha_count_bytes S" "sha_count_bytes S < sha_block_size S"
    using word_bytes_length(2) [OF assms] by (simp_all add: sha_count_bytes_def sha_block_size_def)
  moreover have "sha_finalize S s n = sha_output S (iterate S s (chop (sha_block_size S) (md_pad (sha_algorithm S) (n * sha_block_size S))))"
    if "length s = sha_state_words S" for s n
    using schedule_n_fips(1) [OF assms that, of "empty_buffer S" n] iterate_fips [OF assms that]
    by (simp add: sha_md_pad sha_finalize_def fips_finish_def)
  moreover have "iterate S s [] = s" "iterate S s (xs @ ys) = iterate S (iterate S s xs) ys" "length (iterate S s xs) = sha_state_words S"
    if "length s = sha_state_words S" for s xs ys
    using that iterate_fips [OF assms] by (simp_all add: fips_fold_append) (simp add: fips_fold_def)
  ultimately show ?thesis
    using sha_h_length [OF assms] hash_half_fips [OF assms] hash_block_fips [OF assms] hash_blocks_fips [OF assms]
    by unfold_locales (simp_all add: sha_md_hash [OF assms])
qed

lemma sha_double_algorithm:
  assumes "sha_ok S" "full_digest S"
  shows "double_algorithm (sha_algorithm S) (\<lambda>s. length s = sha_state_words S)"
proof (intro double_algorithm.intro double_algorithm_axioms.intro)
  show "block_algorithm (sha_algorithm S) (\<lambda>s. length s = sha_state_words S)" by (rule sha_block_algorithm [OF assms(1)])
  show "alg_finalize_double (sha_algorithm S) s n = md_hash (sha_algorithm S) (alg_normalize (sha_algorithm S)
      (alg_accumulate (sha_algorithm S) s (chop (alg_block (sha_algorithm S)) (md_pad (sha_algorithm S) (n * alg_block (sha_algorithm S))))))"
    if "length s = sha_state_words S" for s n
    using finalize_double_fips(1) [OF assms that, of n] iterate_fips [OF assms(1) that]
    by (simp add: sha_md_hash [OF assms(1)] sha_md_pad fips_finish_def)
qed (use finalize_double_fips(2) [OF assms] double_hash_half_fips [OF assms] double_hash_block_fips [OF assms] double_hash_blocks_fips [OF assms]
  in \<open>simp_all add: sha_md_hash [OF assms(1)]\<close>)

lemma rmd_algorithm_sel [simp]:
  "alg_block (rmd_algorithm R) = 64" "alg_half (rmd_algorithm R) = 32" "alg_count (rmd_algorithm R) = 8"
  "alg_h (rmd_algorithm R) = rmd_h R" "alg_accumulate (rmd_algorithm R) = rmd_accumulate R" "alg_normalize (rmd_algorithm R) = rmd_output"
  "alg_finalize (rmd_algorithm R) = rmd_finalize R" "alg_hash_half (rmd_algorithm R) = rmd_hash_half R"
  "alg_hash_block (rmd_algorithm R) = rmd_hash_block R" "alg_hash_blocks (rmd_algorithm R) = rmd_hash_blocks R"
  by (simp_all add: rmd_algorithm_def)

lemma rmd_md_pad: "md_pad (rmd_algorithm R) = dbp_pad"
  by (rule ext) (simp add: md_pad_def dbp_pad_def rmd_algorithm_def)

lemma rmd_md_hash: "rmd_ok R \<Longrightarrow> md_hash (rmd_algorithm R) = dbp_hash R"
  using rmd_accumulate_dbp rmd_h_length by (intro ext) (simp add: md_hash_def md_state_def rmd_md_pad dbp_hash_def)

lemma rmd_block_algorithm:
  assumes "rmd_ok R"
  shows "block_algorithm (rmd_algorithm R) (\<lambda>s. length s = rmd_state_words R)"
proof -
  have "rmd_finalize R s n = rmd_output (rmd_accumulate R s (chop 64 (md_pad (rmd_algorithm R) (n * 64))))"
    if "length s = rmd_state_words R" for s n
    using rmd_finalize_dbp [OF assms that, of n] rmd_accumulate_dbp [OF assms that] by (simp add: rmd_md_pad dbp_finish_def)
  moreover have "rmd_accumulate R s [] = s" "rmd_accumulate R s (xs @ ys) = rmd_accumulate R (rmd_accumulate R s xs) ys"
      "length (rmd_accumulate R s xs) = rmd_state_words R"
    if "length s = rmd_state_words R" for s xs ys
    using that rmd_accumulate_dbp [OF assms] by (simp_all add: dbp_fold_append) (simp add: dbp_fold_def)
  ultimately show ?thesis
    using rmd_h_length [OF assms] rmd_hash_half_dbp [OF assms] rmd_hash_block_dbp [OF assms] rmd_hash_blocks_dbp [OF assms]
    by unfold_locales (simp_all add: rmd_md_hash [OF assms])
qed

lemma full_digests: "full_digest sha256" "full_digest sha512"
  by (simp_all add: full_digest_def sha256_def sha512_def sha_state_words_def sha_half_size_def sha_word_bytes_def)

interpretation sha160_stream: block_algorithm "sha_algorithm sha160" "\<lambda>s. length s = sha_state_words sha160"
  by (rule sha_block_algorithm [OF instances_ok(1)])

interpretation sha256_stream: double_algorithm "sha_algorithm sha256" "\<lambda>s. length s = sha_state_words sha256"
  by (rule sha_double_algorithm [OF instances_ok(2) full_digests(1)])

interpretation sha512_stream: double_algorithm "sha_algorithm sha512" "\<lambda>s. length s = sha_state_words sha512"
  by (rule sha_double_algorithm [OF instances_ok(4) full_digests(2)])

interpretation rmd128_stream: block_algorithm "rmd_algorithm rmd128" "\<lambda>s. length s = rmd_state_words rmd128"
  by (rule rmd_block_algorithm [OF rmd_instances_ok(1)])

interpretation rmd160_stream: block_algorithm "rmd_algorithm rmd160" "\<lambda>s. length s = rmd_state_words rmd160"
  by (rule rmd_block_algorithm [OF rmd_instances_ok(2)])

end
