(* ===== verification/Standards.thy ===== *)
theory Standards
  imports Prelude
begin

text \<open>
  The published hash functions, written from their documents and from nothing of the code: FIPS 180-4
  (SHA-1, SHA-256, SHA-512) and the description of RIPEMD-160 and RIPEMD-128 by Dobbertin, Bosselaers
  and Preneel. The constants are the fractional parts of roots of primes, the message order of RIPEMD
  is the permutations of its description, and words, rotations and padding are defined here.
\<close>

section \<open>Words\<close>

definition rotr :: "nat \<Rightarrow> ('w::len) word \<Rightarrow> 'w word" where
  "rotr n x = drop_bit n x OR push_bit (LENGTH('w) - n) x"

definition rotl :: "nat \<Rightarrow> ('w::len) word \<Rightarrow> 'w word" where
  "rotl n x = push_bit n x OR drop_bit (LENGTH('w) - n) x"

definition big_number :: "data_chunk \<Rightarrow> nat" where
  "big_number = foldl (\<lambda>v b. 256 * v + unat b) 0"

definition little_number :: "data_chunk \<Rightarrow> nat" where
  "little_number bs = big_number (rev bs)"

text \<open>The bytes of a number, the most and the least significant first.\<close>

definition big_bytes :: "nat \<Rightarrow> nat \<Rightarrow> data_chunk" where
  "big_bytes n v = map (\<lambda>i. word_of_nat (v div 256 ^ (n - 1 - i))) [0..<n]"

definition little_bytes :: "nat \<Rightarrow> nat \<Rightarrow> data_chunk" where
  "little_bytes n v = map (\<lambda>i. word_of_nat (v div 256 ^ i)) [0..<n]"

definition chunk_at :: "nat \<Rightarrow> nat \<Rightarrow> 'a list \<Rightarrow> 'a list" where
  "chunk_at n i xs = take n (drop (i * n) xs)"

definition chunks_of :: "nat \<Rightarrow> 'a list \<Rightarrow> 'a list list" where
  "chunks_of n xs = map (\<lambda>i. chunk_at n i xs) [0..<length xs div n]"

definition big_word :: "data_chunk \<Rightarrow> nat \<Rightarrow> ('w::len) word" where
  "big_word block i = word_of_nat (big_number (chunk_at (LENGTH('w) div 8) i block))"

definition little_word :: "data_chunk \<Rightarrow> nat \<Rightarrow> 32 word" where
  "little_word block i = word_of_nat (little_number (chunk_at 4 i block))"

text \<open>
  Padding: the bit 1, zeros up to the count, and the count of bits, in blocks of \<open>block\<close> bytes with a
  count of \<open>count\<close> bytes.
\<close>

definition message_padded :: "nat \<Rightarrow> nat \<Rightarrow> (nat \<Rightarrow> data_chunk) \<Rightarrow> data_chunk \<Rightarrow> data_chunk" where
  "message_padded block count number message = (let n = length message;
     zeros = (2 * block - count - 1 - n mod block) mod block in message @ 0x80 # replicate zeros 0 @ number (8 * n))"

section \<open>Roots\<close>

definition floor_root :: "nat \<Rightarrow> nat \<Rightarrow> nat" where
  "floor_root k n = (LEAST r. n < (r + 1) ^ k)"

text \<open>The first \<open>w\<close> bits of the fractional part of the \<open>k\<close>-th root: a word keeps no higher bits.\<close>

definition root_fraction :: "nat \<Rightarrow> nat \<Rightarrow> ('w::len) word" where
  "root_fraction k n = word_of_nat (floor_root k (n * 2 ^ (k * LENGTH('w))))"

text \<open>The integer part of \<open>2\<^sup>3\<^sup>0\<close> times the \<open>k\<close>-th root.\<close>

definition root_scaled :: "nat \<Rightarrow> nat \<Rightarrow> 32 word" where
  "root_scaled k n = word_of_nat (floor_root k (n * 2 ^ (k * 30)))"

definition first_primes :: "nat list" where
  "first_primes = [
     2, 3, 5, 7, 11, 13, 17, 19, 23, 29, 31, 37, 41, 43, 47, 53, 59, 61, 67, 71,
     73, 79, 83, 89, 97, 101, 103, 107, 109, 113, 127, 131, 137, 139, 149, 151, 157, 163, 167, 173,
     179, 181, 191, 193, 197, 199, 211, 223, 227, 229, 233, 239, 241, 251, 257, 263, 269, 271, 277, 281,
     283, 293, 307, 311, 313, 317, 331, 337, 347, 349, 353, 359, 367, 373, 379, 383, 389, 397, 401, 409]"

section \<open>SHA-2\<close>

definition ch :: "('w::len) word \<Rightarrow> 'w word \<Rightarrow> 'w word \<Rightarrow> 'w word" where
  "ch x y z = (x AND y) XOR (NOT x AND z)"

definition maj :: "('w::len) word \<Rightarrow> 'w word \<Rightarrow> 'w word \<Rightarrow> 'w word" where
  "maj x y z = (x AND y) XOR (x AND z) XOR (y AND z)"

text \<open>The functions of a variant: the small and the capital sigmas, and its number of rounds.\<close>

record 'a sha2 =
  small0 :: "'a \<Rightarrow> 'a"
  small1 :: "'a \<Rightarrow> 'a"
  capital0 :: "'a \<Rightarrow> 'a"
  capital1 :: "'a \<Rightarrow> 'a"
  rounds2 :: nat

definition functions256 :: "32 word sha2" where
  "functions256 = \<lparr>small0 = (\<lambda>x. rotr 7 x XOR rotr 18 x XOR drop_bit 3 x),
     small1 = (\<lambda>x. rotr 17 x XOR rotr 19 x XOR drop_bit 10 x),
     capital0 = (\<lambda>x. rotr 2 x XOR rotr 13 x XOR rotr 22 x),
     capital1 = (\<lambda>x. rotr 6 x XOR rotr 11 x XOR rotr 25 x), rounds2 = 64\<rparr>"

definition functions512 :: "64 word sha2" where
  "functions512 = \<lparr>small0 = (\<lambda>x. rotr 1 x XOR rotr 8 x XOR drop_bit 7 x),
     small1 = (\<lambda>x. rotr 19 x XOR rotr 61 x XOR drop_bit 6 x),
     capital0 = (\<lambda>x. rotr 28 x XOR rotr 34 x XOR rotr 39 x),
     capital1 = (\<lambda>x. rotr 14 x XOR rotr 18 x XOR rotr 41 x), rounds2 = 80\<rparr>"

fun sha2_w :: "('w::len) word sha2 \<Rightarrow> (nat \<Rightarrow> 'w word) \<Rightarrow> nat \<Rightarrow> 'w word" where
  "sha2_w F m t = (if t < 16 then m t
     else small1 F (sha2_w F m (t - 2)) + sha2_w F m (t - 7) + small0 F (sha2_w F m (t - 15)) + sha2_w F m (t - 16))"

declare sha2_w.simps [simp del]

fun sha2_step :: "('w::len) word sha2 \<Rightarrow> 'w word \<Rightarrow> 'w word list \<Rightarrow> 'w word list" where
  "sha2_step F kw [a, b, c, d, e, f, g, h] =
     (let t1 = h + capital1 F e + ch e f g + kw; t2 = capital0 F a + maj a b c in
      [t1 + t2, a, b, c, d + t1, e, f, g])"
| "sha2_step F kw xs = xs"

definition sha2_constant :: "nat \<Rightarrow> ('w::len) word" where
  "sha2_constant t = root_fraction 3 (first_primes ! t)"

definition sha2_start :: "('w::len) word list" where
  "sha2_start = map (root_fraction 2) (take 8 first_primes)"

definition sha2_block :: "('w::len) word sha2 \<Rightarrow> data_chunk \<Rightarrow> 'w word list \<Rightarrow> 'w word list" where
  "sha2_block F block h =
     map2 (+) (fold (\<lambda>t. sha2_step F (sha2_constant t + sha2_w F (big_word block) t)) [0..<rounds2 F] h) h"

definition sha256_standard :: "data_chunk \<Rightarrow> data_chunk" where
  "sha256_standard message =
     concat (map (\<lambda>w. big_bytes 4 (unat w)) (fold (sha2_block functions256) (chunks_of 64 (message_padded 64 8 (big_bytes 8) message)) sha2_start))"

definition sha512_standard :: "data_chunk \<Rightarrow> data_chunk" where
  "sha512_standard message =
     concat (map (\<lambda>w. big_bytes 8 (unat w)) (fold (sha2_block functions512) (chunks_of 128 (message_padded 128 16 (big_bytes 16) message)) sha2_start))"

section \<open>SHA-1\<close>

definition sha1_f :: "nat \<Rightarrow> 32 word \<Rightarrow> 32 word \<Rightarrow> 32 word \<Rightarrow> 32 word" where
  "sha1_f t x y z = (if t < 20 then ch x y z else if t < 40 then x XOR y XOR z
     else if t < 60 then maj x y z else x XOR y XOR z)"

text \<open>The constants of the document are \<open>2\<^sup>3\<^sup>0\<close> times the square roots of 2, 3, 5 and 10.\<close>

definition sha1_k :: "nat \<Rightarrow> 32 word" where
  "sha1_k t = root_scaled 2 (if t < 20 then 2 else if t < 40 then 3 else if t < 60 then 5 else 10)"

text \<open>The first registers of SHA-1 and RIPEMD: the digits up and down, read as little endian words.\<close>

definition counted_start :: "32 word list" where
  "counted_start = map (little_word [0x01, 0x23, 0x45, 0x67, 0x89, 0xab, 0xcd, 0xef, 0xfe, 0xdc, 0xba, 0x98, 0x76, 0x54, 0x32, 0x10,
     0xf0, 0xe1, 0xd2, 0xc3]) [0..<5]"

fun sha1_w :: "(nat \<Rightarrow> 32 word) \<Rightarrow> nat \<Rightarrow> 32 word" where
  "sha1_w m t = (if t < 16 then m t
     else rotl 1 (sha1_w m (t - 3) XOR sha1_w m (t - 8) XOR sha1_w m (t - 14) XOR sha1_w m (t - 16)))"

declare sha1_w.simps [simp del]

fun sha1_step :: "(nat \<Rightarrow> 32 word) \<Rightarrow> nat \<Rightarrow> 32 word list \<Rightarrow> 32 word list" where
  "sha1_step w t [a, b, c, d, e] = [rotl 5 a + sha1_f t b c d + e + sha1_k t + w t, a, rotl 30 b, c, d]"
| "sha1_step w t xs = xs"

definition sha1_block :: "data_chunk \<Rightarrow> 32 word list \<Rightarrow> 32 word list" where
  "sha1_block block h = map2 (+) (fold (sha1_step (sha1_w (big_word block))) [0..<80] h) h"

definition sha1_standard :: "data_chunk \<Rightarrow> data_chunk" where
  "sha1_standard message =
     concat (map (\<lambda>w. big_bytes 4 (unat w)) (fold sha1_block (chunks_of 64 (message_padded 64 8 (big_bytes 8) message)) counted_start))"

section \<open>RIPEMD\<close>

text \<open>The functions of the rounds of the left line, and of the right line in the opposite order.\<close>

definition ripemd_f :: "nat \<Rightarrow> 32 word \<Rightarrow> 32 word \<Rightarrow> 32 word \<Rightarrow> 32 word" where
  "ripemd_f round x y z = (if round = 0 then x XOR y XOR z else if round = 1 then (x AND y) OR (NOT x AND z)
     else if round = 2 then (x OR NOT y) XOR z else if round = 3 then (x AND z) OR (y AND NOT z) else x XOR (y OR NOT z))"

text \<open>The order of the message words: the permutation \<open>rho\<close> once more in each round, behind \<open>9 i + 5\<close> on the right.\<close>

definition rho :: "nat \<Rightarrow> nat" where
  "rho i = [7, 4, 13, 1, 10, 6, 15, 3, 12, 0, 9, 5, 2, 14, 11, 8] ! i"

definition message_word :: "bool \<Rightarrow> nat \<Rightarrow> nat \<Rightarrow> nat" where
  "message_word left round i = (rho ^^ round) (if left then i else (9 * i + 5) mod 16)"

text \<open>The shift that belongs to a message word in a round, the same in both lines.\<close>

definition word_shift :: "nat \<Rightarrow> nat \<Rightarrow> nat" where
  "word_shift round i = [
     [11, 14, 15, 12, 5, 8, 7, 9, 11, 13, 14, 15, 6, 7, 9, 8],
     [12, 13, 11, 15, 6, 9, 9, 7, 12, 15, 11, 13, 7, 8, 7, 7],
     [13, 15, 14, 11, 7, 7, 6, 8, 13, 14, 13, 12, 5, 5, 6, 9],
     [14, 11, 12, 14, 8, 6, 5, 5, 15, 12, 15, 14, 9, 9, 8, 6],
     [15, 12, 13, 13, 9, 5, 8, 6, 14, 11, 12, 11, 8, 6, 5, 5]] ! round ! i"

text \<open>Square roots on the left and cube roots on the right, of 2, 3, 5 and 7; the first and the last round have none.\<close>

definition ripemd_k :: "nat \<Rightarrow> bool \<Rightarrow> nat \<Rightarrow> 32 word" where
  "ripemd_k rounds left round =
     (if left then (if round = 0 then 0 else root_scaled 2 ([2, 3, 5, 7] ! (round - 1)))
      else if round = rounds - 1 then 0 else root_scaled 3 ([2, 3, 5, 7] ! round))"

fun ripemd_step :: "bool \<Rightarrow> nat \<Rightarrow> (nat \<Rightarrow> 32 word) \<Rightarrow> nat \<Rightarrow> 32 word list \<Rightarrow> 32 word list" where
  "ripemd_step left rounds x j [a, b, c, d] =
     (let round = j div 16; i = message_word left round (j mod 16);
          f = ripemd_f (if left then round else rounds - 1 - round) in
      [d, rotl (word_shift round i) (a + f b c d + x i + ripemd_k rounds left round), b, c])"
| "ripemd_step left rounds x j [a, b, c, d, e] =
     (let round = j div 16; i = message_word left round (j mod 16);
          f = ripemd_f (if left then round else rounds - 1 - round) in
      [e, rotl (word_shift round i) (a + f b c d + x i + ripemd_k rounds left round) + e, b, rotl 10 c, d])"
| "ripemd_step left rounds x j xs = xs"

text \<open>The chaining values are rotated against the registers of the two lines when they are added.\<close>

fun ripemd_add :: "32 word list \<Rightarrow> 32 word list \<Rightarrow> 32 word list \<Rightarrow> 32 word list" where
  "ripemd_add [h0, h1, h2, h3] [a, b, c, d] [a', b', c', d'] = [h1 + c + d', h2 + d + a', h3 + a + b', h0 + b + c']"
| "ripemd_add [h0, h1, h2, h3, h4] [a, b, c, d, e] [a', b', c', d', e'] =
     [h1 + c + d', h2 + d + e', h3 + e + a', h4 + a + b', h0 + b + c']"
| "ripemd_add h left right = h"

definition ripemd_block :: "nat \<Rightarrow> data_chunk \<Rightarrow> 32 word list \<Rightarrow> 32 word list" where
  "ripemd_block rounds block h =
     ripemd_add h (fold (ripemd_step True rounds (little_word block)) [0..<16 * rounds] h)
       (fold (ripemd_step False rounds (little_word block)) [0..<16 * rounds] h)"

definition ripemd_standard :: "nat \<Rightarrow> 32 word list \<Rightarrow> data_chunk \<Rightarrow> data_chunk" where
  "ripemd_standard rounds start message =
     concat (map (\<lambda>w. little_bytes 4 (unat w)) (fold (ripemd_block rounds) (chunks_of 64 (message_padded 64 8 (little_bytes 8) message)) start))"

definition ripemd160_standard :: "data_chunk \<Rightarrow> data_chunk" where
  "ripemd160_standard = ripemd_standard 5 counted_start"

definition ripemd128_standard :: "data_chunk \<Rightarrow> data_chunk" where
  "ripemd128_standard = ripemd_standard 4 (take 4 counted_start)"

end
