(* ===== verification/StandardConstants.thy ===== *)
theory StandardConstants
  imports Ripemd Standards
begin

text \<open>
  The words and the constants of the code against those of \<open>Standards\<close>: rotations, byte orders, blocks,
  and every entry of the tables of SHA and RIPEMD as the root of a prime, which two inequalities
  certify.
\<close>

section \<open>Words\<close>

lemma rotr_word:
  assumes "n \<le> LENGTH('w)"
  shows "rotr n (x :: ('w::len) word) = word_rotr n x"
proof (rule bit_eqI)
  fix i
  assume "possible_bit TYPE('w word) i"
  then have i: "i < LENGTH('w)" by simp
  show "bit (rotr n x) i = bit (word_rotr n x) i"
  proof (cases "i + n < LENGTH('w)")
    case True
    then show ?thesis using i by (auto simp: rotr_def bit_simps add.commute)
  next
    case False
    then have "(i + n) mod LENGTH('w) = i + n - LENGTH('w)" "\<not> bit x (n + i)" "i - (LENGTH('w) - n) = i + n - LENGTH('w)"
      using i assms by (auto simp: mod_if bit_imp_le_length dest: bit_imp_le_length)
    then show ?thesis using False i by (auto simp: rotr_def bit_simps add.commute)
  qed
qed

lemma rotl_word:
  assumes "n \<le> LENGTH('w)"
  shows "rotl n (x :: ('w::len) word) = word_rotl n x"
proof -
  have "rotl n x = rotr (LENGTH('w) - n) x" using assms by (simp add: rotl_def rotr_def or.commute)
  also have "\<dots> = word_rotl n x"
    unfolding rotr_word [OF diff_le_self]
    by (rule bit_eqI) (use assms in \<open>auto simp: bit_simps mod_if\<close>)
  finally show ?thesis .
qed

lemma big_number_be: "big_number bs = be_value bs"
  by (induction bs rule: rev_induct) (simp_all add: big_number_def be_value_def)

lemma little_number_le: "little_number bs = le_value bs"
  by (simp add: little_number_def big_number_be be_value_def)

lemma little_bytes_le: "little_bytes n v = le_bytes n v"
proof (induction n arbitrary: v)
  case (Suc n)
  have "word_of_nat (v mod 256) = (word_of_nat v :: byte)" by (simp add: word_of_nat_eq_iff take_bit_eq_mod)
  moreover have "map (\<lambda>i. word_of_nat (v div 256 ^ i)) [1..<Suc n] = map (\<lambda>i. word_of_nat (v div 256 div 256 ^ i) :: byte) [0..<n]"
    unfolding One_nat_def map_Suc_upt [symmetric] by (simp add: div_mult2_eq)
  ultimately show ?case using Suc [of "v div 256"]
    by (simp add: little_bytes_def upt_conv_Cons del: upt_Suc)
qed (simp add: little_bytes_def)

lemma big_bytes_be: "big_bytes n v = be_bytes n v"
  unfolding be_bytes_def little_bytes_le [symmetric]
  by (rule nth_equalityI) (simp_all add: big_bytes_def little_bytes_def rev_nth)

lemma chunks_of_chop: "0 < n \<Longrightarrow> chunks_of n xs = chop n xs"
proof (induction n xs rule: chop.induct)
  case (1 n xs)
  show ?case
  proof (cases "length xs < n")
    case True
    then show ?thesis by (simp add: chunks_of_def chop.simps)
  next
    case False
    then have "length xs div n = Suc (length (drop n xs) div n)" using 1(2) by (simp add: le_div_geq)
    moreover have "chunk_at n (Suc i) xs = chunk_at n i (drop n xs)" for i by (simp add: chunk_at_def add.commute)
    ultimately have "chunks_of n xs = take n xs # chunks_of n (drop n xs)"
      unfolding chunks_of_def by (simp add: upt_conv_Cons map_Suc_upt [symmetric] chunk_at_def [of n 0] del: upt_Suc)
    then show ?thesis using 1 False by (simp add: chop.simps [of n xs])
  qed
qed

section \<open>Constants\<close>

lemma floor_rootI: "r ^ k \<le> n \<Longrightarrow> n < (r + 1) ^ k \<Longrightarrow> floor_root k n = r"
  unfolding floor_root_def
proof (rule Least_equality)
  fix y
  assume r: "r ^ k \<le> n" and y: "n < (y + 1) ^ k"
  show "r \<le> y"
  proof (rule ccontr)
    assume "\<not> r \<le> y"
    then have "(y + 1) ^ k \<le> r ^ k" by (intro power_mono) simp_all
    with r y show False by simp
  qed
qed

text \<open>A constant and the whole part below it are the scaled root when the next number is above it.\<close>

definition is_fraction :: "nat \<Rightarrow> nat \<Rightarrow> ('w::len) word \<Rightarrow> bool" where
  "is_fraction k n c = (let r = length (filter (\<lambda>i. i ^ k \<le> n) [1, 2, 3, 4, 5, 6, 7]) * 2 ^ LENGTH('w) + unat c; m = n * 2 ^ (k * LENGTH('w)) in
     r ^ k \<le> m \<and> m < (r + 1) ^ k)"

lemma is_fraction_root:
  assumes "is_fraction k n (c :: ('w::len) word)"
  shows "root_fraction k n = c"
proof -
  let ?r = "length (filter (\<lambda>i. i ^ k \<le> n) [1, 2, 3, 4, 5, 6, 7]) * 2 ^ LENGTH('w) + unat c"
  have "floor_root k (n * 2 ^ (k * LENGTH('w))) = ?r"
    using assms unfolding is_fraction_def Let_def by (intro floor_rootI) blast+
  moreover have "word_of_nat ?r = c" by (simp add: word_of_nat_eq_iff word_eq_iff_unsigned)
  ultimately show ?thesis by (simp add: root_fraction_def)
qed

lemma fractions_nth:
  assumes "list_all2 (is_fraction k) ns cs" "i < length cs"
  shows "root_fraction k (ns ! i) = cs ! i"
  using assms by (simp add: is_fraction_root list_all2_conv_all_nth)

lemma start_fractions:
  "list_all2 (is_fraction 2) (take 8 first_primes) h256" "list_all2 (is_fraction 2) (take 8 first_primes) h512"
  by (simp_all add: is_fraction_def first_primes_def h256_def h512_def)

text \<open>The tables are checked sixteen entries at a time.\<close>

lemma list_all2_chunks:
  assumes "\<forall>i < n. list_all2 P (chunk_at 16 i xs) (chunk_at 16 i ys)" "length xs = 16 * n" "length ys = 16 * n"
  shows "list_all2 P xs ys"
  unfolding list_all2_conv_all_nth
proof (intro conjI allI impI)
  fix t
  assume less: "t < length xs"
  then have "t mod 16 < 16 * n - t div 16 * 16" using assms(2) div_mult_mod_eq [of t 16] by linarith
  with less have t: "t div 16 < n" "t mod 16 < length (chunk_at 16 (t div 16) xs)"
    using assms(2) by (auto simp: chunk_at_def)
  have "chunk_at 16 (t div 16) zs ! (t mod 16) = zs ! t" if "length zs = 16 * n" for zs :: "'z list"
    using t assms(2) that by (simp add: chunk_at_def)
  with assms t show "P (xs ! t) (ys ! t)" by (metis list_all2_nthD)
qed (simp add: assms)

lemma constants256_0: "list_all2 (is_fraction 3) (chunk_at 16 0 (take 64 first_primes)) (chunk_at 16 0 k256)"
  by (simp add: chunk_at_def is_fraction_def first_primes_def k256_def)

lemma constants256_1: "list_all2 (is_fraction 3) (chunk_at 16 1 (take 64 first_primes)) (chunk_at 16 1 k256)"
  by (simp add: chunk_at_def is_fraction_def first_primes_def k256_def)

lemma constants256_2: "list_all2 (is_fraction 3) (chunk_at 16 2 (take 64 first_primes)) (chunk_at 16 2 k256)"
  by (simp add: chunk_at_def is_fraction_def first_primes_def k256_def)

lemma constants256_3: "list_all2 (is_fraction 3) (chunk_at 16 3 (take 64 first_primes)) (chunk_at 16 3 k256)"
  by (simp add: chunk_at_def is_fraction_def first_primes_def k256_def)

lemma constants512_0: "list_all2 (is_fraction 3) (chunk_at 16 0 first_primes) (chunk_at 16 0 k512)"
  by (simp add: chunk_at_def is_fraction_def first_primes_def k512_def)

lemma constants512_1: "list_all2 (is_fraction 3) (chunk_at 16 1 first_primes) (chunk_at 16 1 k512)"
  by (simp add: chunk_at_def is_fraction_def first_primes_def k512_def)

lemma constants512_2: "list_all2 (is_fraction 3) (chunk_at 16 2 first_primes) (chunk_at 16 2 k512)"
  by (simp add: chunk_at_def is_fraction_def first_primes_def k512_def)

lemma constants512_3: "list_all2 (is_fraction 3) (chunk_at 16 3 first_primes) (chunk_at 16 3 k512)"
  by (simp add: chunk_at_def is_fraction_def first_primes_def k512_def)

lemma constants512_4: "list_all2 (is_fraction 3) (chunk_at 16 4 first_primes) (chunk_at 16 4 k512)"
  by (simp add: chunk_at_def is_fraction_def first_primes_def k512_def)

lemma length_tables: "length first_primes = 80" "length k256 = 64" "length k512 = 80"
  by (simp_all add: first_primes_def k256_def k512_def)

lemma upto_cases: "(\<forall>i < 4. P i) \<longleftrightarrow> P 0 \<and> P 1 \<and> P 2 \<and> P (3 :: nat)"
  "(\<forall>i < 5. P i) \<longleftrightarrow> P 0 \<and> P 1 \<and> P 2 \<and> P 3 \<and> P (4 :: nat)"
  by (auto simp: numeral_eq_Suc less_Suc_eq)

lemma constant_fractions: "list_all2 (is_fraction 3) (take 64 first_primes) k256" "list_all2 (is_fraction 3) first_primes k512"
  by (rule list_all2_chunks [of 4]; simp add: length_tables upto_cases constants256_0 constants256_1 [simplified] constants256_2 constants256_3)
    (rule list_all2_chunks [of 5]; simp add: length_tables upto_cases constants512_0 constants512_1 [simplified] constants512_2
      constants512_3 constants512_4)

lemma fractions_map: "list_all2 (is_fraction k) ns cs \<Longrightarrow> map (root_fraction k) ns = cs"
  by (induction rule: list_all2_induct) (simp_all add: is_fraction_root)

lemma start_standard: "h256 = sha2_start" "h512 = sha2_start"
  using start_fractions [THEN fractions_map] by (simp_all add: sha2_start_def)

lemma constant_standard: "t < 64 \<Longrightarrow> k256 ! t = sha2_constant t" "t < 80 \<Longrightarrow> k512 ! t = sha2_constant t"
  using fractions_nth [OF constant_fractions(1), of t] fractions_nth [OF constant_fractions(2), of t]
    list_all2_lengthD [OF constant_fractions(1)] list_all2_lengthD [OF constant_fractions(2)]
  by (simp_all add: sha2_constant_def length_tables)

lemma scaled_roots:
  "root_scaled 2 2 = 0x5a827999" "root_scaled 2 3 = 0x6ed9eba1" "root_scaled 2 5 = 0x8f1bbcdc" "root_scaled 2 10 = 0xca62c1d6"
  "root_scaled 2 7 = 0xa953fd4e"
  "root_scaled 3 2 = 0x50a28be6" "root_scaled 3 3 = 0x5c4dd124" "root_scaled 3 5 = 0x6d703ef3" "root_scaled 3 7 = 0x7a6d76e9"
proof -
  have root: "root_scaled k n = word_of_nat r" if "r ^ k \<le> n * 2 ^ (k * 30) \<and> n * 2 ^ (k * 30) < (r + 1) ^ k" for r k n
    using that floor_rootI [of r k "n * 2 ^ (k * 30)"] by (simp add: root_scaled_def)
  show "root_scaled 2 2 = 0x5a827999" "root_scaled 2 3 = 0x6ed9eba1" "root_scaled 2 5 = 0x8f1bbcdc" "root_scaled 2 10 = 0xca62c1d6"
    "root_scaled 2 7 = 0xa953fd4e"
    "root_scaled 3 2 = 0x50a28be6" "root_scaled 3 3 = 0x5c4dd124" "root_scaled 3 5 = 0x6d703ef3" "root_scaled 3 7 = 0x7a6d76e9"
    using root [of "0x5a827999" 2 2] root [of "0x6ed9eba1" 2 3] root [of "0x8f1bbcdc" 2 5] root [of "0xca62c1d6" 2 10]
      root [of "0xa953fd4e" 2 7] root [of "0x50a28be6" 3 2] root [of "0x5c4dd124" 3 3] root [of "0x6d703ef3" 3 5]
      root [of "0x7a6d76e9" 3 7] by simp_all
qed

lemma counted_standard: "h160 = counted_start" "rmd_h160 = counted_start" "rmd_h128 = take 4 counted_start"
  by (simp_all add: h160_def rmd_h160_def rmd_h128_def counted_start_def upt_rec little_word_def little_number_def big_number_def chunk_at_def)

end
