(* ===== verification/StandardHashes.thy ===== *)
theory StandardHashes
  imports StandardConstants
begin

text \<open>
  The loops of \<open>fips_hash\<close> and \<open>dbp_hash\<close>, at the parameters of the library's algorithms, are the
  published functions of \<open>Standards\<close>: padding, message schedule, sigmas, round functions, order of
  message words and shifts, final sums and output.
\<close>

section \<open>Blocks of SHA-2\<close>

text \<open>Steps that agree on lists of a length, which they keep, agree when repeated.\<close>

lemma fold_steps:
  assumes "\<And>t xs. t \<in> set ts \<Longrightarrow> length xs = l \<Longrightarrow> f t xs = g t xs" "\<And>t xs. length (f t xs) = length xs" "length h = l"
  shows "fold f ts h = fold g ts h"
  using assms(1,3)
proof (induction ts arbitrary: h)
  case (Cons t ts)
  have step: "f t h = g t h" by (rule Cons.prems(1)) (simp_all add: Cons.prems(2))
  then have "length (g t h) = l" using assms(2) [of t h] Cons.prems(2) by simp
  from Cons.IH [OF _ this] Cons.prems(1) step show ?case by simp
qed simp

lemma padded_fips:
  assumes "0 < sha_block_size S"
  shows "message_padded (sha_block_size S) (sha_count_bytes S) (big_bytes (sha_count_bytes S)) message = message @ fips_pad S (length message)"
  by (simp add: message_padded_def fips_pad_def Let_def big_bytes_be)

lemma big_word_from: "(big_word block t :: ('w::len) word) = from_big (t * sha_word_bytes (S :: 'w word sha)) block"
  by (simp add: big_word_def from_big_def sha_word_bytes_def chunk_at_def big_number_be)

definition agrees :: "('w::len) word sha \<Rightarrow> 'w word sha2 \<Rightarrow> bool" where
  "agrees S F \<longleftrightarrow> sha_strength S \<noteq> 160 \<and> sha_rounds S = rounds2 F \<and> sigma0 S = small0 F \<and> sigma1 S = small1 F \<and>
     (if sha_strength S = 256 then fips_sum 2 13 22 else fips_sum 28 34 39) = capital0 F \<and>
     (if sha_strength S = 256 then fips_sum 6 11 25 else fips_sum 14 18 41) = capital1 F \<and>
     (\<forall>t < sha_rounds S. sha_k S ! t = sha2_constant t)"

lemma agrees_instances: "agrees sha256 functions256" "agrees sha512 functions512"
  by (simp_all add: agrees_def sha256_def sha512_def functions256_def functions512_def fun_eq_iff sigma0_def sigma1_def sigma_def
      fips_sum_def rotr_word constant_standard xor.assoc)

lemma schedule_standard:
  assumes "agrees S F"
  shows "fips_w S m t = sha2_w F m t"
proof (induction t rule: less_induct)
  case (less t)
  then show ?case using assms by (simp add: fips_w.simps [of S m t] sha2_w.simps [of F m t] agrees_def)
qed

lemma step_standard:
  assumes "agrees S F" "length xs = 8" "t < rounds2 F"
  shows "fips_step S t w xs = sha2_step F (sha2_constant t + w) xs"
proof -
  have xs: "xs = [xs ! 0, xs ! 1, xs ! 2, xs ! 3, xs ! 4, xs ! 5, xs ! 6, xs ! 7]" by (rule list_of_eight [OF assms(2)])
  have a: "(if sha_strength S = 256 then fips_sum 2 13 22 else fips_sum 28 34 39) = capital0 F"
    "(if sha_strength S = 256 then fips_sum 6 11 25 else fips_sum 14 18 41) = capital1 F" "sha_k S ! t = sha2_constant t"
    using assms(1,3) by (simp_all add: agrees_def)
  show ?thesis by (subst (1 2) xs) (simp only: fips_step.simps sha2_step.simps a Let_def fips_ch_def ch_def fips_maj_def maj_def ac_simps)
qed

lemma block_standard:
  assumes "agrees (S :: ('w::len) word sha) F" "length h = 8"
  shows "fips_block S h (\<lambda>t. from_big (t * sha_word_bytes S) block) = sha2_block F block h"
proof -
  have m: "(\<lambda>t. from_big (t * sha_word_bytes S) block :: 'w word) = big_word block" by (simp add: big_word_from [where S = S] fun_eq_iff)
  have "fold (\<lambda>t. fips_step S t (fips_w S (big_word block) t)) [0..<rounds2 F] h =
      fold (\<lambda>t. sha2_step F (sha2_constant t + sha2_w F (big_word block) t)) [0..<rounds2 F] h"
    by (rule fold_steps [OF _ length_fips_step assms(2)]) (simp add: step_standard [OF assms(1)] schedule_standard [OF assms(1)])
  then show ?thesis using assms(1) by (simp add: fips_block_def sha2_block_def m agrees_def)
qed

lemma fold_standard:
  assumes "agrees S F" "length h = 8"
  shows "fips_fold S h blocks = fold (sha2_block F) blocks h"
  using assms(2)
proof (induction blocks arbitrary: h)
  case (Cons b blocks)
  have "length (fips_block S h m) = 8" for m using Cons(2) by simp
  from Cons(1) [OF this] show ?case using Cons(2) by (simp add: fips_fold_def block_standard [OF assms(1), symmetric])
qed (simp add: fips_fold_def)

lemma sha256_fips: "fips_hash sha256 message = sha256_standard message"
proof -
  have [simp]: "sha_block_size sha256 = 64" "sha_count_bytes sha256 = 8" "sha_h sha256 = h256" "length h256 = 8"
    by (simp_all add: sha_block_size_def sha_count_bytes_def sha_word_bytes_def sha256_def) (simp add: h256_def)
  have l: "length (fold (sha2_block functions256) bs sha2_start) = 8" for bs
    using length_fips_fold [of sha256 h256 bs] fold_standard [OF agrees_instances(1), of h256 bs] by (simp add: start_standard [symmetric])
  have out: "sha_output sha256 ws = concat (map (\<lambda>w. big_bytes 4 (unat w)) ws)" if "length ws = 8" for ws
    using that by (simp add: sha_output_def sha256_def to_big_def [abs_def] big_bytes_be length_concat comp_def sum_list_triv)
  show ?thesis
    using padded_fips [of sha256 message] l
    by (simp add: fips_hash_def sha256_standard_def fold_standard [OF agrees_instances(1)] chunks_of_chop out start_standard [symmetric])
qed

lemma sha512_fips: "fips_hash sha512 message = sha512_standard message"
proof -
  have [simp]: "sha_block_size sha512 = 128" "sha_count_bytes sha512 = 16" "sha_h sha512 = h512" "length h512 = 8"
    by (simp_all add: sha_block_size_def sha_count_bytes_def sha_word_bytes_def sha512_def) (simp add: h512_def)
  have l: "length (fold (sha2_block functions512) bs sha2_start) = 8" for bs
    using length_fips_fold [of sha512 h512 bs] fold_standard [OF agrees_instances(2), of h512 bs] by (simp add: start_standard [symmetric])
  have out: "sha_output sha512 ws = concat (map (\<lambda>w. big_bytes 8 (unat w)) ws)" if "length ws = 8" for ws
    using that by (simp add: sha_output_def sha512_def to_big_def [abs_def] big_bytes_be length_concat comp_def sum_list_triv)
  show ?thesis
    using padded_fips [of sha512 message] l
    by (simp add: fips_hash_def sha512_standard_def fold_standard [OF agrees_instances(2)] chunks_of_chop out start_standard [symmetric])
qed

section \<open>SHA-1\<close>

lemma strength_160: "sha_strength sha160 = 160"
  by (simp add: sha160_def)

lemma sha1_schedule: "fips_w sha160 m t = sha1_w m t"
proof (induction t rule: less_induct)
  case (less t)
  then show ?case by (simp add: fips_w.simps [of sha160 m t] sha1_w.simps [of m t] rotl_word strength_160)
qed

lemma sha1_constants: "t < 80 \<Longrightarrow> k160 ! t = sha1_k t"
  by (auto simp: k160_def sha1_k_def scaled_roots nth_append)

lemma sha1_step_fips:
  assumes "length xs = 5" "t < 80"
  shows "fips_step sha160 t (sha1_w m t) xs = sha1_step (sha1_w m) t xs"
proof -
  have xs: "xs = [xs ! 0, xs ! 1, xs ! 2, xs ! 3, xs ! 4]" by (rule list_of_five [OF assms(1)])
  have k: "sha_k sha160 ! t = sha1_k t" using sha1_constants [OF assms(2)] by (simp add: sha160_def)
  have f: "fips_f t x y z = sha1_f t x y z" for x y z by (simp add: fips_f_def sha1_f_def fips_ch_def ch_def fips_maj_def maj_def)
  show ?thesis by (subst (1 2) xs) (simp only: fips_step.simps sha1_step.simps k f rotl_word, simp add: rotl_word)
qed

lemma sha1_block_fips:
  assumes "length h = 5"
  shows "fips_block sha160 h (\<lambda>t. from_big (t * sha_word_bytes sha160) block) = sha1_block block h"
proof -
  have m: "(\<lambda>t. from_big (t * sha_word_bytes sha160) block :: 32 word) = big_word block"
    by (simp add: big_word_from [where S = sha160] fun_eq_iff)
  have "fold (\<lambda>t. fips_step sha160 t (fips_w sha160 (big_word block) t)) [0..<80] h = fold (sha1_step (sha1_w (big_word block))) [0..<80] h"
    by (rule fold_steps [OF _ length_fips_step assms]) (simp add: sha1_step_fips sha1_schedule)
  then show ?thesis by (simp add: fips_block_def sha1_block_def m sha160_def [THEN arg_cong [of _ _ sha_rounds]])
qed

lemma sha1_fold:
  assumes "length h = 5"
  shows "fips_fold sha160 h blocks = fold sha1_block blocks h"
  using assms
proof (induction blocks arbitrary: h)
  case (Cons b blocks)
  have "length (fips_block sha160 h m) = 5" for m using Cons(2) by simp
  from Cons(1) [OF this] show ?case using Cons(2) by (simp add: fips_fold_def sha1_block_fips [symmetric])
qed (simp add: fips_fold_def)

lemma sha1_fips: "fips_hash sha160 message = sha1_standard message"
proof -
  have [simp]: "sha_block_size sha160 = 64" "sha_count_bytes sha160 = 8" "sha_h sha160 = h160" "length h160 = 5"
    by (simp_all add: sha_block_size_def sha_count_bytes_def sha_word_bytes_def sha160_def) (simp add: h160_def)
  have l: "length (fold sha1_block bs counted_start) = 5" for bs
    using length_fips_fold [of sha160 h160 bs] sha1_fold [of h160 bs] by (simp add: counted_standard(1) [symmetric])
  have out: "sha_output sha160 ws = concat (map (\<lambda>w. big_bytes 4 (unat w)) ws)" if "length ws = 5" for ws
    using that by (simp add: sha_output_def sha160_def to_big_def [abs_def] big_bytes_be length_concat comp_def sum_list_triv)
  show ?thesis
    using padded_fips [of sha160 message] l
    by (simp add: fips_hash_def sha1_standard_def sha1_fold chunks_of_chop out counted_standard(1) [symmetric])
qed

section \<open>RIPEMD\<close>

text \<open>A table of the code: the rounds of the left line, then those of the right.\<close>

definition table :: "nat \<Rightarrow> (bool \<Rightarrow> nat \<Rightarrow> nat \<Rightarrow> 'a) \<Rightarrow> 'a list" where
  "table n f = map (\<lambda>j. f True (j div 16) (j mod 16)) [0..<n] @ map (\<lambda>j. f False (j div 16) (j mod 16)) [0..<n]"

definition shift_at :: "bool \<Rightarrow> nat \<Rightarrow> nat \<Rightarrow> nat" where
  "shift_at left round i = word_shift round (message_word left round i)"

lemma words160: "rmd_word160 = table 80 message_word"
  by code_simp

lemma words128: "rmd_word128 = table 64 message_word"
  by code_simp

lemma shifts160: "rmd_rot160 = table 80 shift_at"
  by code_simp

lemma shifts128: "rmd_rot128 = table 64 shift_at"
  by code_simp

lemma table_nth: "j < n \<Longrightarrow> table n f ! ((if left then 0 else n) + j) = f left (j div 16) (j mod 16)"
  by (simp add: table_def nth_append)

lemma small_shifts: "list_all (\<lambda>s. s \<le> 32) rmd_rot160" "list_all (\<lambda>s. s \<le> 32) rmd_rot128"
  by (simp_all add: rmd_rot160_def rmd_rot128_def)

definition line_agrees :: "rmd \<Rightarrow> nat \<Rightarrow> bool \<Rightarrow> nat \<Rightarrow> bool" where
  "line_agrees R rounds left j = (let r = (if left then 0 else 16 * rounds) + j; round = j div 16 in
     rmd_word R ! r = message_word left round (j mod 16) \<and> rmd_rot R ! r = shift_at left round (j mod 16) \<and> rmd_rot R ! r \<le> 32 \<and>
     rmd_k R ! (r div 16) = ripemd_k rounds left round \<and>
     rmd_function R r = ripemd_f (if left then round else rounds - 1 - round))"

lemma rmd160_sel: "rmd_word rmd160 = rmd_word160" "rmd_rot rmd160 = rmd_rot160" "rmd_k rmd160 = rmd_k160"
  by (simp_all add: rmd160_def)

lemma rmd128_sel: "rmd_word rmd128 = rmd_word128" "rmd_rot rmd128 = rmd_rot128" "rmd_k rmd128 = rmd_k128"
  by (simp_all add: rmd128_def)

lemma below_five: "n < 5 \<Longrightarrow> n = 0 \<or> n = 1 \<or> n = 2 \<or> n = 3 \<or> n = (4 :: nat)"
  by auto

lemma line160:
  assumes "j < 80"
  shows "line_agrees rmd160 5 left j"
proof -
  let ?r = "(if left then 0 else 80) + j"
  have "length rmd_rot160 = 160" by (simp add: shifts160 table_def)
  then have small: "rmd_rot160 ! ?r \<le> 32" using small_shifts(1) assms by (auto simp: list_all_length)
  have "j div 16 < 5" using assms by simp
  then have "j div 16 = 0 \<or> j div 16 = 1 \<or> j div 16 = 2 \<or> j div 16 = 3 \<or> j div 16 = 4" by (rule below_five)
  moreover have "(80 + j) div 16 = 5 + j div 16" by simp
  ultimately have "rmd_k160 ! (?r div 16) = ripemd_k 5 left (j div 16)"
    "rmd_function rmd160 ?r = ripemd_f (if left then j div 16 else 4 - j div 16)"
    by (cases left; elim disjE; simp add: rmd_k160_def ripemd_k_def scaled_roots rmd_function_def rmd160_def ripemd_f_def fun_eq_iff
        f0_def f1_def f2_def f3_def f4_def)+
  with small table_nth [OF assms, of message_word left] table_nth [OF assms, of shift_at left] show ?thesis
    unfolding line_agrees_def Let_def
    by (cases left) (simp_all add: words160 [symmetric] shifts160 [symmetric] rmd160_sel)
qed

lemma line128:
  assumes "j < 64"
  shows "line_agrees rmd128 4 left j"
proof -
  let ?r = "(if left then 0 else 64) + j"
  have "length rmd_rot128 = 128" by (simp add: shifts128 table_def)
  then have small: "rmd_rot128 ! ?r \<le> 32" using small_shifts(2) assms by (auto simp: list_all_length)
  have "j div 16 < 4" using assms by simp
  then have "j div 16 = 0 \<or> j div 16 = 1 \<or> j div 16 = 2 \<or> j div 16 = 3" by auto
  moreover have "(64 + j) div 16 = 4 + j div 16" by simp
  ultimately have "rmd_k128 ! (?r div 16) = ripemd_k 4 left (j div 16)"
    "rmd_function rmd128 ?r = ripemd_f (if left then j div 16 else 3 - j div 16)"
    by (cases left; elim disjE; simp add: rmd_k128_def ripemd_k_def scaled_roots rmd_function_def rmd128_def ripemd_f_def fun_eq_iff
        f0_def f1_def f2_def f3_def)+
  with small table_nth [OF assms, of message_word left] table_nth [OF assms, of shift_at left] show ?thesis
    unfolding line_agrees_def Let_def
    by (cases left) (simp_all add: words128 [symmetric] shifts128 [symmetric] rmd128_sel)
qed

lemma step_dbp:
  assumes "line_agrees R rounds left j"
  shows "dbp_step R x ((if left then 0 else 16 * rounds) + j) xs = ripemd_step left rounds x j xs"
  using assms unfolding line_agrees_def Let_def shift_at_def
  by (cases "(left, rounds, x, j, xs)" rule: ripemd_step.cases) (simp_all add: rotl_word Let_def)

lemma length_ripemd_step: "length (ripemd_step left rounds x j xs) = length xs"
  by (cases "(left, rounds, x, j, xs)" rule: ripemd_step.cases) (simp_all add: Let_def)

lemma length_ripemd_line: "length (fold (ripemd_step left rounds x) js h) = length h"
  by (induction js arbitrary: h) (simp_all add: length_ripemd_step)

lemma line_dbp:
  assumes "\<And>j. j < 16 * rounds \<Longrightarrow> line_agrees R rounds left j"
  shows "fold (\<lambda>j. dbp_step R x ((if left then 0 else 16 * rounds) + j)) [0..<16 * rounds] h =
    fold (ripemd_step left rounds x) [0..<16 * rounds] h"
  by (rule fold_cong) (simp_all add: step_dbp assms fun_eq_iff)

lemma list_of_four: "length xs = 4 \<Longrightarrow> xs = [xs ! 0, xs ! 1, xs ! 2, xs ! 3]"
  by (rule nth_equalityI) (auto simp: numeral_eq_Suc less_Suc_eq)

lemma summarize_dbp:
  assumes "length h = rmd_state_words R" "length l = length h" "length r = length h"
  shows "rmd_summarize R h l r = ripemd_add h l r"
proof (cases "rmd_strength R = 128")
  case True
  then have "length h = 4" "length l = 4" "length r = 4" using assms by (simp_all add: rmd_state_words_def)
  note lists = this [THEN list_of_four]
  have "rmd_summarize R h l r = ripemd_add [h ! 0, h ! 1, h ! 2, h ! 3] [l ! 0, l ! 1, l ! 2, l ! 3] [r ! 0, r ! 1, r ! 2, r ! 3]"
    using True by (simp add: rmd_summarize_def)
  then show ?thesis by (simp only: lists [symmetric])
next
  case False
  then have "length h = 5" "length l = 5" "length r = 5" using assms by (simp_all add: rmd_state_words_def)
  note lists = this [THEN list_of_five]
  have "rmd_summarize R h l r = ripemd_add [h ! 0, h ! 1, h ! 2, h ! 3, h ! 4] [l ! 0, l ! 1, l ! 2, l ! 3, l ! 4]
      [r ! 0, r ! 1, r ! 2, r ! 3, r ! 4]"
    using False by (simp add: rmd_summarize_def)
  then show ?thesis by (simp only: lists [symmetric])
qed

lemma from_little_word: "from_little (i * 4) block = little_word block i"
  by (simp add: from_little_def little_word_def chunk_at_def little_number_le)

lemma block_dbp:
  assumes "\<And>left j. j < 16 * rounds \<Longrightarrow> line_agrees R rounds left j" "rmd_rounds R = 2 * (16 * rounds)" "length h = rmd_state_words R"
  shows "dbp_block R h (\<lambda>i. from_little (i * 4) block) = ripemd_block rounds block h"
proof -
  have right: "fold (dbp_step R x) [n..<2 * n] h = fold (\<lambda>j. dbp_step R x (n + j)) [0..<n] h" for x n
    using fold_shift [of "dbp_step R x" n n] by (simp add: add.commute mult_2)
  show ?thesis
    using line_dbp [OF assms(1), where left = True and x = "little_word block" and h = h]
      line_dbp [OF assms(1), where left = False and x = "little_word block" and h = h]
    by (simp add: Let_def dbp_block_def ripemd_block_def assms(2) right from_little_word summarize_dbp assms(3) length_ripemd_line)
qed

lemma ripemd_dbp:
  assumes "rmd_ok R" "\<And>left j. j < 16 * rounds \<Longrightarrow> line_agrees R rounds left j" "rmd_rounds R = 2 * (16 * rounds)"
  shows "dbp_hash R message = ripemd_standard rounds (rmd_h R) message"
proof -
  have "dbp_fold R h blocks = fold (ripemd_block rounds) blocks h" if "length h = rmd_state_words R" for blocks h
    using that
  proof (induction blocks arbitrary: h)
    case (Cons b blocks)
    have "length (dbp_block R h m) = rmd_state_words R" for m using assms(1) by simp
    from Cons(1) [OF this] show ?case using Cons(2) by (simp add: dbp_fold_def block_dbp [OF assms(2,3), symmetric])
  qed (simp add: dbp_fold_def)
  moreover have "length (rmd_h R) = rmd_state_words R" using assms(1) by (simp add: rmd_ok_def)
  moreover have "message_padded 64 8 (little_bytes 8) message = message @ dbp_pad (length message)"
    by (simp add: message_padded_def dbp_pad_def Let_def little_bytes_le)
  ultimately show ?thesis
    by (simp add: dbp_hash_def ripemd_standard_def chunks_of_chop rmd_output_def to_little_def [abs_def] little_bytes_le)
qed

lemma rmd160_dbp: "dbp_hash rmd160 message = ripemd160_standard message"
  using ripemd_dbp [OF rmd_instances_ok(2), of 5 message] line160 counted_standard(2)
  by (simp add: ripemd160_standard_def rmd160_def rmd_rounds_def)

lemma rmd128_dbp: "dbp_hash rmd128 message = ripemd128_standard message"
  using ripemd_dbp [OF rmd_instances_ok(1), of 4 message] line128 counted_standard(3)
  by (simp add: ripemd128_standard_def rmd128_def rmd_rounds_def)

end
