(* ===== verification/HashFunctions.thy ===== *)
theory HashFunctions
  imports Accumulator StandardHashes Invariant Merkle
begin

text \<open>
  The hash functions the rest of the library calls (\<open>impl/hash/functions.ipp\<close>) and the writers that
  hash a stream (\<open>impl/stream/streamers/sha256_writer.ipp\<close>, \<open>sha256x2_writer.ipp\<close>,
  \<open>sha256t_writer.ipp\<close>). Each is the standard's function of its message, and with them the hashes
  that the script machine is given are the ones of the library.
\<close>

section \<open>Definitions\<close>

definition rmd128_hash :: "bool \<Rightarrow> data_chunk \<Rightarrow> data_chunk" where
  "rmd128_hash checked = acc_hash (rmd_algorithm rmd128) checked"

definition rmd160_hash :: "bool \<Rightarrow> data_chunk \<Rightarrow> data_chunk" where
  "rmd160_hash checked = acc_hash (rmd_algorithm rmd160) checked"

definition sha1_hash :: "bool \<Rightarrow> data_chunk \<Rightarrow> data_chunk" where
  "sha1_hash checked = acc_hash (sha_algorithm sha160) checked"

definition sha256_hash :: "bool \<Rightarrow> data_chunk \<Rightarrow> data_chunk" where
  "sha256_hash checked = acc_hash (sha_algorithm sha256) checked"

definition sha256_hash_pair :: "data_chunk \<Rightarrow> data_chunk \<Rightarrow> data_chunk" where
  "sha256_hash_pair = hash_halves sha256"

abbreviation sha256_write :: "bool \<Rightarrow> data_chunk \<Rightarrow> 32 word list accumulator \<Rightarrow> 32 word list accumulator" where
  "sha256_write checked bs acc \<equiv> snd (acc_write (sha_algorithm sha256) checked bs acc)"

definition sha256_hash2 :: "bool \<Rightarrow> data_chunk \<Rightarrow> data_chunk \<Rightarrow> data_chunk" where
  "sha256_hash2 checked left right = acc_flush (sha_algorithm sha256) checked
     (sha256_write checked right (sha256_write checked left (new_accumulator (sha_algorithm sha256))))"

definition sha512_hash :: "bool \<Rightarrow> data_chunk \<Rightarrow> data_chunk" where
  "sha512_hash checked = acc_hash (sha_algorithm sha512) checked"

definition bitcoin_short_hash :: "bool \<Rightarrow> data_chunk \<Rightarrow> data_chunk" where
  "bitcoin_short_hash checked bs = rmd_hash_half rmd160 (acc_hash (sha_algorithm sha256) checked bs)"

definition bitcoin_hash :: "bool \<Rightarrow> data_chunk \<Rightarrow> data_chunk" where
  "bitcoin_hash checked = acc_double_hash (sha_algorithm sha256) checked"

definition bitcoin_hash_pair :: "data_chunk \<Rightarrow> data_chunk \<Rightarrow> data_chunk" where
  "bitcoin_hash_pair = double_hash_halves sha256"

definition bitcoin_hash2 :: "bool \<Rightarrow> data_chunk \<Rightarrow> data_chunk \<Rightarrow> data_chunk" where
  "bitcoin_hash2 checked left right = acc_double_flush (sha_algorithm sha256) checked
     (sha256_write checked right (sha256_write checked left (new_accumulator (sha_algorithm sha256))))"

definition tag_bytes :: "string \<Rightarrow> data_chunk" where
  "tag_bytes = map (\<lambda>c. of_char c)"

definition tagged_hash :: "bool \<Rightarrow> string \<Rightarrow> data_chunk \<Rightarrow> data_chunk" where
  "tagged_hash checked tag message = (let hash = sha256_hash checked (tag_bytes tag) in
     acc_flush (sha_algorithm sha256) checked (sha256_write checked message (sha256_write checked hash
       (sha256_write checked hash (new_accumulator (sha_algorithm sha256))))))"

definition tagged_midstate :: "string \<Rightarrow> 32 word list" where
  "tagged_midstate tag = midstate sha256 (simple_hash sha256 (tag_bytes tag)) (simple_hash sha256 (tag_bytes tag))"

section \<open>Hash writers\<close>

text \<open>
  A writer hashes what is written to it; a flush yields the digest and starts it over. The buffer
  keeps what it holds.
\<close>

definition sha256_writer_flusher :: "bool \<Rightarrow> 32 word list accumulator \<Rightarrow> data_chunk \<times> 32 word list accumulator" where
  "sha256_writer_flusher checked hasher =
     (acc_flush (sha_algorithm sha256) checked hasher,
      acc_reset (sha_algorithm sha256) (sha_h sha256) 0 (acc_flushed (sha_algorithm sha256) checked hasher))"

definition sha256x2_writer_flusher :: "bool \<Rightarrow> 32 word list accumulator \<Rightarrow> data_chunk \<times> 32 word list accumulator" where
  "sha256x2_writer_flusher checked hasher =
     (let (hash, hasher) = sha256_writer_flusher checked hasher in
      sha256_writer_flusher checked (sha256_write checked hash hasher))"

definition sha256t_writer :: "bool \<Rightarrow> string \<Rightarrow> 32 word list accumulator" where
  "sha256t_writer checked tag = accumulator_from (sha_algorithm sha256) checked (tagged_midstate tag) 1"

definition sha256t_writer_flusher :: "bool \<Rightarrow> string \<Rightarrow> 32 word list accumulator \<Rightarrow> data_chunk \<times> 32 word list accumulator" where
  "sha256t_writer_flusher checked tag hasher =
     (acc_flush (sha_algorithm sha256) checked hasher,
      acc_reset (sha_algorithm sha256) (tagged_midstate tag) 1 (acc_flushed (sha_algorithm sha256) checked hasher))"

section \<open>Keys of hash tables\<close>

definition unique_hash :: "data_chunk \<Rightarrow> u64" where
  "unique_hash key = word_of_nat (le_value (take (min (length key) 8) key))"

definition djb2_hash :: "data_chunk \<Rightarrow> u64" where
  "djb2_hash bs = foldl (\<lambda>hash b. (push_bit 5 hash + hash) + ucast b) 5381 bs"

definition hash_combine :: "u64 \<Rightarrow> u64 \<Rightarrow> u64" where
  "hash_combine left right = left XOR push_bit 1 right"

section \<open>The standard functions\<close>

text \<open>The messages of a program are far below the limits of the accumulators.\<close>

definition addressable :: "nat \<Rightarrow> bool" where
  "addressable n \<longleftrightarrow> n < 2 ^ 60"

lemma word_sizes [simp]:
  "sha_word_bytes (S :: 32 word sha) = 4" "sha_word_bytes (T :: 64 word sha) = 8"
  by (simp_all add: sha_word_bytes_def)

lemma addressable_countable:
  assumes "addressable n"
  shows "countable (sha_algorithm (S :: 32 word sha)) n" "countable (sha_algorithm (T :: 64 word sha)) n"
    "countable (rmd_algorithm R) n" "countable (sha_algorithm (S :: 32 word sha)) (n + 64)"
  using assms by (simp_all add: addressable_def countable_def limit_bytes_def sha_count_bytes_def sha_block_size_def)

lemma digest_sizes:
  "length s = sha_state_words sha160 \<Longrightarrow> length (sha_output sha160 s) = 20"
  "length s = sha_state_words sha256 \<Longrightarrow> length (sha_output sha256 s) = 32"
  "length t = sha_state_words sha512 \<Longrightarrow> length (sha_output sha512 t) = 64"
  "length s = rmd_state_words rmd128 \<Longrightarrow> length (rmd_output s) = 16"
  "length s = rmd_state_words rmd160 \<Longrightarrow> length (rmd_output s) = 20"
  by (simp_all add: sha_output_def rmd_output_def length_concat comp_def sum_list_triv length_to_big [of _ sha160]
      length_to_big [of _ sha512] sha_state_words_def rmd_state_words_def sha160_def sha256_def sha512_def rmd128_def rmd160_def)

lemma sha256_size: "length (sha256_hash checked bs) = 32" "length (bitcoin_hash checked bs) = 32"
  "length (fips_hash sha256 bs) = 32"
  using sha256_stream.digest_normal [of checked bs] sha256_stream.double_digest_normal [of checked bs] digest_sizes(2)
    sha256_stream.ok_md_state [of bs] sha_md_hash [OF instances_ok(2)]
  by (auto simp: sha256_hash_def bitcoin_hash_def md_hash_def fun_eq_iff) (metis sha_algorithm_sel(6))

lemma sha1_size: "length (sha1_hash checked bs) = 20"
  using sha160_stream.digest_normal [of checked bs] digest_sizes(1) by (auto simp: sha1_hash_def)

lemma rmd160_size: "length (rmd160_hash checked bs) = 20" "length (dbp_hash rmd160 bs) = 20"
  using rmd160_stream.digest_normal [of checked bs] digest_sizes(5) rmd160_stream.ok_md_state [of bs] rmd_md_hash [OF rmd_instances_ok(2)]
  by (auto simp: rmd160_hash_def md_hash_def fun_eq_iff) (metis rmd_algorithm_sel(6))

lemma bitcoin_short_size: "length (bitcoin_short_hash checked bs) = 20"
  using rmd_hash_half_dbp [OF rmd_instances_ok(2) sha256_size(1)] rmd160_size(2)
  by (simp add: bitcoin_short_hash_def sha256_hash_def)

lemma sha256_parts:
  assumes "addressable (length (concat parts))"
  shows "acc_flush (sha_algorithm sha256) checked (fold (sha256_write checked) parts (new_accumulator (sha_algorithm sha256))) =
    fips_hash sha256 (concat parts)"
  using sha256_stream.streamed_message [OF addressable_countable(1) [OF assms]] sha_md_hash [OF instances_ok(2)] by simp

lemma library_hash:
  assumes "addressable (length bs)"
  shows "sha256_hash checked bs = fips_hash sha256 bs" "sha1_hash checked bs = fips_hash sha160 bs"
    "sha512_hash checked bs = fips_hash sha512 bs" "rmd128_hash checked bs = dbp_hash rmd128 bs"
    "rmd160_hash checked bs = dbp_hash rmd160 bs" "bitcoin_hash checked bs = fips_hash sha256 (fips_hash sha256 bs)"
    "bitcoin_short_hash checked bs = dbp_hash rmd160 (fips_hash sha256 bs)"
proof -
  note c = addressable_countable [OF assms]
  show sha256: "sha256_hash checked bs = fips_hash sha256 bs"
    using sha256_stream.hash_message [OF c(1)] by (simp add: sha256_hash_def sha_md_hash [OF instances_ok(2)])
  show "sha1_hash checked bs = fips_hash sha160 bs"
    using sha160_stream.hash_message [OF c(1)] by (simp add: sha1_hash_def sha_md_hash [OF instances_ok(1)])
  show "sha512_hash checked bs = fips_hash sha512 bs"
    using sha512_stream.hash_message [OF c(2)] by (simp add: sha512_hash_def sha_md_hash [OF instances_ok(4)])
  show "rmd128_hash checked bs = dbp_hash rmd128 bs"
    using rmd128_stream.hash_message [OF c(3)] by (simp add: rmd128_hash_def rmd_md_hash [OF rmd_instances_ok(1)])
  show "rmd160_hash checked bs = dbp_hash rmd160 bs"
    using rmd160_stream.hash_message [OF c(3)] by (simp add: rmd160_hash_def rmd_md_hash [OF rmd_instances_ok(2)])
  show "bitcoin_hash checked bs = fips_hash sha256 (fips_hash sha256 bs)"
    using sha256_stream.double_hash_message [OF c(1)] by (simp add: bitcoin_hash_def sha_md_hash [OF instances_ok(2)])
  show "bitcoin_short_hash checked bs = dbp_hash rmd160 (fips_hash sha256 bs)"
    using rmd_hash_half_dbp [OF rmd_instances_ok(2) sha256_size(1), of checked bs] sha256
    by (simp add: bitcoin_short_hash_def sha256_hash_def)
qed

lemma half_size_256: "sha_half_size sha256 = 32" "sha_block_size sha256 = 64" "sha_space sha256 = 55"
  by (simp_all add: sha_half_size_def sha_block_size_def sha_space_def sha_count_bytes_def)

lemma hash_pairs:
  assumes "length left = 32" "length right = 32"
  shows "sha256_hash_pair left right = fips_hash sha256 (left @ right)"
    "bitcoin_hash_pair left right = fips_hash sha256 (fips_hash sha256 (left @ right))"
  using assms hash_halves_fips [OF instances_ok(2)] double_hash_halves_fips [OF instances_ok(2) full_digests(1)]
  by (simp_all add: sha256_hash_pair_def bitcoin_hash_pair_def half_size_256)

lemma sha256_parts_double:
  assumes "addressable (length (concat parts))"
  shows "acc_double_flush (sha_algorithm sha256) checked (fold (sha256_write checked) parts (new_accumulator (sha_algorithm sha256))) =
    fips_hash sha256 (fips_hash sha256 (concat parts))"
  using sha256_stream.double_flush_hash [OF sha256_stream.writes_represent [OF sha256_stream.new_represents], of parts checked checked]
    addressable_countable(1) [OF assms, of sha256] by (simp add: countable_def sha_md_hash [OF instances_ok(2)])

lemma hash_parts2:
  assumes "addressable (length left + length right)"
  shows "sha256_hash2 checked left right = fips_hash sha256 (left @ right)"
    "bitcoin_hash2 checked left right = fips_hash sha256 (fips_hash sha256 (left @ right))"
  using sha256_parts [of "[left, right]" checked] sha256_parts_double [of "[left, right]" checked] assms
  by (simp_all add: sha256_hash2_def bitcoin_hash2_def)

lemma tag_length [simp]: "length (tag_bytes tag) = length tag"
  by (simp add: tag_bytes_def)

lemma tagged_hash_standard:
  assumes "addressable (length message + 64)" "addressable (length tag)"
  shows "tagged_hash checked tag message = (let hash = fips_hash sha256 (tag_bytes tag) in fips_hash sha256 (hash @ hash @ message))"
  using sha256_parts [of "[sha256_hash checked (tag_bytes tag), sha256_hash checked (tag_bytes tag), message]" checked] assms
  by (simp add: tagged_hash_def Let_def sha256_size library_hash(1) [of "tag_bytes tag"] add.commute)

section \<open>The writers\<close>

abbreviation sha256_holds :: "32 word list accumulator \<Rightarrow> data_chunk \<Rightarrow> bool" where
  "sha256_holds \<equiv> sha256_stream.represents"

lemma sha256_holds_write:
  assumes "sha256_holds hasher m" "addressable (length m + length bs)"
  shows "sha256_holds (sha256_write checked bs hasher) (m @ bs)"
  using sha256_stream.write_represents [OF assms(1), of bs checked] addressable_countable(1) [OF assms(2), of sha256]
  by (auto simp: countable_def)

lemma sha256_holds_flush:
  assumes "sha256_holds hasher m" "addressable (length m)"
  shows "acc_flush (sha_algorithm sha256) checked hasher = fips_hash sha256 m"
  using sha256_stream.flush_hash [OF assms(1)] addressable_countable(1) [OF assms(2)] by (simp add: sha_md_hash [OF instances_ok(2)])

lemma sha256_flushed_buffer:
  assumes "sha256_holds hasher m" "addressable (length m)"
  shows "length (acc_buffer (acc_flushed (sha_algorithm sha256) checked hasher)) = 64"
proof -
  have "length (acc_buffer acc) = 64" if "sha256_holds acc n" for acc n
    using that by (auto simp: sha256_stream.represents_def sha256_stream.holds_def half_size_256)
  with sha256_stream.pad_represents [OF assms(1) addressable_countable(1) [OF assms(2)]] assms(1)
  show ?thesis by (auto simp: acc_flushed_def)
qed

lemma sha256_flusher:
  assumes "sha256_holds hasher m" "addressable (length m)"
  shows "fst (sha256_writer_flusher checked hasher) = fips_hash sha256 m"
    "sha256_holds (snd (sha256_writer_flusher checked hasher)) []"
  using sha256_holds_flush [OF assms] sha256_stream.reset_represents [of "acc_flushed (sha_algorithm sha256) checked hasher"]
    sha256_flushed_buffer [OF assms] by (simp_all add: sha256_writer_flusher_def half_size_256)

lemma sha256x2_flusher:
  assumes "sha256_holds hasher m" "addressable (length m)"
  shows "fst (sha256x2_writer_flusher checked hasher) = fips_hash sha256 (fips_hash sha256 m)"
    "sha256_holds (snd (sha256x2_writer_flusher checked hasher)) []"
proof -
  obtain hash next_hasher where f: "sha256_writer_flusher checked hasher = (hash, next_hasher)" by fastforce
  then have n: "hash = fips_hash sha256 m" "sha256_holds next_hasher []" using sha256_flusher [OF assms, of checked] by simp_all
  from sha256_holds_write [OF n(2), of hash checked] have "sha256_holds (sha256_write checked hash next_hasher) hash"
    by (simp add: n sha256_size addressable_def)
  from sha256_flusher [OF this, of checked] show "fst (sha256x2_writer_flusher checked hasher) = fips_hash sha256 (fips_hash sha256 m)"
    "sha256_holds (snd (sha256x2_writer_flusher checked hasher)) []"
    by (simp_all add: sha256x2_writer_flusher_def f n sha256_size addressable_def)
qed

lemma tagged_midstate_fold:
  assumes "length tag \<le> 55" "hash = fips_hash sha256 (tag_bytes tag)"
  shows "tagged_midstate tag = iterate sha256 (sha_h sha256) (chop 64 (hash @ hash))" "length (hash @ hash) = 64"
proof -
  show l: "length (hash @ hash) = 64" by (simp add: assms(2) sha256_size)
  show "tagged_midstate tag = iterate sha256 (sha_h sha256) (chop 64 (hash @ hash))"
    using assms l simple_hash_fips [OF instances_ok(2), of "tag_bytes tag"] midstate_fips [OF instances_ok(2), of hash hash]
      iterate_fips [OF instances_ok(2) sha_h_length [OF instances_ok(2)]]
    by (simp add: tagged_midstate_def half_size_256 sha256_size chop_one)
qed

lemma sha256t_holds:
  assumes "length tag \<le> 55" "hash = fips_hash sha256 (tag_bytes tag)"
  shows "sha256_holds (sha256t_writer checked tag) (hash @ hash)"
  using sha256_stream.from_represents [of "hash @ hash" checked] tagged_midstate_fold [OF assms]
  by (simp add: sha256t_writer_def half_size_256 limit_bytes_def sha_count_bytes_def)
section \<open>The hashes of the script machine\<close>

text \<open>The functions the machine is given, with the curve's left as they are.\<close>

definition library_crypto :: "bool \<Rightarrow> crypto \<Rightarrow> crypto" where
  "library_crypto checked curve = curve\<lparr>rmd160_chunk := rmd160_hash checked, sha1_chunk := sha1_hash checked,
     sha256_chunk := sha256_hash checked, bitcoin_short_chunk := bitcoin_short_hash checked,
     bitcoin_chunk := bitcoin_hash checked, tagged_chunk := tagged_hash checked\<rparr>"

lemma library_digests: "digests_ok (library_crypto checked curve)"
  by (simp add: digests_ok_def library_crypto_def hash_size_def sha256_size rmd160_size sha1_size bitcoin_short_size)

definition standard_hash :: "opcode \<Rightarrow> (data_chunk \<Rightarrow> data_chunk) option" where
  "standard_hash code =
     (if code = opcode_ripemd160 then Some ripemd160_standard
      else if code = opcode_sha1 then Some sha1_standard
      else if code = opcode_sha256 then Some sha256_standard
      else if code = opcode_hash160 then Some (\<lambda>c. ripemd160_standard (sha256_standard c))
      else if code = opcode_hash256 then Some (\<lambda>c. sha256_standard (sha256_standard c))
      else None)"

lemma run_hash_codes:
  "op_code op = opcode_ripemd160 \<Longrightarrow> run_op C index op p = Interpreter.op_ripemd160 C p"
  "op_code op = opcode_sha1 \<Longrightarrow> run_op C index op p = op_sha1 C p"
  "op_code op = opcode_sha256 \<Longrightarrow> run_op C index op p = op_sha256 C p"
  "op_code op = opcode_hash160 \<Longrightarrow> run_op C index op p = op_hash160 C p"
  "op_code op = opcode_hash256 \<Longrightarrow> run_op C index op p = op_hash256 C p"
  by (simp_all add: run_op_def)

lemma hash_operations_top:
  assumes "prg_primary p = v # rest"
  shows "Interpreter.op_ripemd160 C p = (error_op_success, p\<lparr>prg_primary := Vchunk (rmd160_chunk C (variant_chunk v)) # rest\<rparr>)"
    "op_sha1 C p = (error_op_success, p\<lparr>prg_primary := Vchunk (sha1_chunk C (variant_chunk v)) # rest\<rparr>)"
    "op_sha256 C p = (error_op_success, p\<lparr>prg_primary := Vchunk (sha256_chunk C (variant_chunk v)) # rest\<rparr>)"
    "op_hash160 C p = (error_op_success, p\<lparr>prg_primary := Vchunk (bitcoin_short_chunk C (variant_chunk v)) # rest\<rparr>)"
    "op_hash256 C p = (error_op_success, p\<lparr>prg_primary := Vchunk (bitcoin_chunk C (variant_chunk v)) # rest\<rparr>)"
  using assms by (simp_all add: op_ripemd160_def op_sha1_def op_sha256_def op_hash160_def op_hash256_def
      is_stack_empty_def pop_chunk_top_def peek_top_def drop_top_def push_chunk_def push_variant_def)

lemma library_crypto_sel:
  "rmd160_chunk (library_crypto checked curve) = rmd160_hash checked" "sha1_chunk (library_crypto checked curve) = sha1_hash checked"
  "sha256_chunk (library_crypto checked curve) = sha256_hash checked"
  "bitcoin_short_chunk (library_crypto checked curve) = bitcoin_short_hash checked"
  "bitcoin_chunk (library_crypto checked curve) = bitcoin_hash checked"
  by (simp_all add: library_crypto_def)

lemmas hashes_published = sha256_fips sha1_fips sha512_fips rmd128_dbp rmd160_dbp

text \<open>
  C18. The hash functions are the published ones: of every message below the addressable size, however
  it is sized against the blocks, SHA-1, SHA-256 and SHA-512 return the digests of FIPS 180-4, RIPEMD-128
  and RIPEMD-160 those of their description, and the bitcoin hashes their compositions. The right sides
  are the definitions of \<open>Standards\<close>, which use nothing of the code: constants from roots of primes,
  message order from permutations, rotations, padding, schedules and rounds of their own.
\<close>

theorem library_hashes_standard:
  assumes "addressable (length bs)"
  shows "sha256_hash checked bs = sha256_standard bs \<and> sha1_hash checked bs = sha1_standard bs \<and>
    sha512_hash checked bs = sha512_standard bs \<and> rmd128_hash checked bs = ripemd128_standard bs \<and>
    rmd160_hash checked bs = ripemd160_standard bs \<and>
    bitcoin_hash checked bs = sha256_standard (sha256_standard bs) \<and>
    bitcoin_short_hash checked bs = ripemd160_standard (sha256_standard bs)"
  using library_hash [OF assms] by (simp add: hashes_published)

theorem library_hashes_standard_witness:
  "addressable (length [0x61, 0x62, 0x63 :: byte]) \<and> sha256_hash True [0x61, 0x62, 0x63] = sha256_standard [0x61, 0x62, 0x63]"
proof -
  have "addressable (length [0x61, 0x62, 0x63 :: byte])" by (simp add: addressable_def)
  with library_hashes_standard [OF this, of True] show ?thesis by blast
qed

text \<open>
  C19. Streaming does not show: writes of any sizes, in any number, followed by a flush give the digest
  of the written bytes taken as one message, for every SHA variant and for checked and unchecked
  accumulators.
\<close>

theorem streamed_hash_of_message:
  assumes "sha_ok S" "countable (sha_algorithm S) (length (concat parts))"
  shows "acc_flush (sha_algorithm S) checked
    (fold (\<lambda>part acc. snd (acc_write (sha_algorithm S) checked part acc)) parts (new_accumulator (sha_algorithm S))) =
    fips_hash S (concat parts)"
  using block_algorithm.streamed_message [OF sha_block_algorithm [OF assms(1)] assms(2)] by (simp add: sha_md_hash [OF assms(1)])

theorem streamed_hash_of_message_witness:
  "acc_flush (sha_algorithm sha512) True
    (fold (\<lambda>part acc. snd (acc_write (sha_algorithm sha512) True part acc)) [[0x61], [], [0x62, 0x63]] (new_accumulator (sha_algorithm sha512))) =
    fips_hash sha512 [0x61, 0x62, 0x63]"
proof -
  have "countable (sha_algorithm sha512) (length (concat [[0x61 :: byte], [], [0x62, 0x63]]))"
    by (rule addressable_countable(2)) (simp add: addressable_def)
  from streamed_hash_of_message [OF instances_ok(4) this, of True] show ?thesis by simp
qed

text \<open>
  A tagged hash that starts from the precomputed midstate of its tag is the tagged hash of the
  bytes written to it, which is the digest of the hash of the tag twice and the message.
\<close>

theorem tagged_writer_hash:
  assumes "length tag \<le> 55" "addressable (length message + 64)"
  shows "fst (sha256t_writer_flusher checked tag (sha256_write checked message (sha256t_writer checked tag))) =
      tagged_hash checked tag message \<and>
    tagged_hash checked tag message =
      (let hash = fips_hash sha256 (tag_bytes tag) in fips_hash sha256 (hash @ hash @ message))"
proof -
  let ?hash = "fips_hash sha256 (tag_bytes tag)"
  have "addressable (length tag)" using assms by (simp add: addressable_def)
  then have tagged: "tagged_hash checked tag message = fips_hash sha256 (?hash @ ?hash @ message)"
    using tagged_hash_standard [OF assms(2), of tag checked] by (simp add: Let_def)
  have "addressable (length (?hash @ ?hash) + length message)" using assms(2) by (simp add: sha256_size add.commute)
  note sha256_holds_write [OF sha256t_holds [OF assms(1) refl, of checked] this, of checked]
  from sha256_holds_flush [OF this, of checked] assms(2) tagged show ?thesis
    by (simp add: sha256t_writer_flusher_def Let_def sha256_size add.commute)
qed

theorem tagged_writer_hash_witness:
  "fst (sha256t_writer_flusher True ''TapLeaf'' (sha256_write True [1, 2, 3] (sha256t_writer True ''TapLeaf''))) =
    tagged_hash True ''TapLeaf'' [1, 2, 3]"
proof -
  have "length ''TapLeaf'' \<le> 55" "addressable (length [1, 2, 3 :: byte] + 64)" by (simp_all add: addressable_def)
  from tagged_writer_hash [OF this, of True] show ?thesis by blast
qed

text \<open>
  The hash operations of a script replace the element at the top of the stack with its standard
  digest, and never fail on a stack that has an element.
\<close>

theorem hash_operations_standard:
  assumes "standard_hash (op_code op) = Some f" "prg_primary p = v # rest" "addressable (length (variant_chunk v))"
  shows "run_op (library_crypto checked curve) index op p =
    (error_op_success, p\<lparr>prg_primary := Vchunk (f (variant_chunk v)) # rest\<rparr>)"
proof -
  consider "op_code op = opcode_ripemd160" "f = ripemd160_standard" | "op_code op = opcode_sha1" "f = sha1_standard"
    | "op_code op = opcode_sha256" "f = sha256_standard" | "op_code op = opcode_hash160" "f = (\<lambda>c. ripemd160_standard (sha256_standard c))"
    | "op_code op = opcode_hash256" "f = (\<lambda>c. sha256_standard (sha256_standard c))"
    using assms(1) by (auto simp: standard_hash_def split: if_splits)
  then show ?thesis
    by cases (simp_all only: run_hash_codes hash_operations_top [OF assms(2)] library_crypto_sel library_hash [OF assms(3)] hashes_published)
qed

theorem hash_operations_standard_witness:
  "run_op (library_crypto True example_crypto) 0 (op_of_code opcode_hash256) (example_program\<lparr>prg_primary := [Vchunk [7]]\<rparr>) =
    (error_op_success, example_program\<lparr>prg_primary := [Vchunk (sha256_standard (sha256_standard [7]))]\<rparr>)"
proof -
  have "standard_hash (op_code (op_of_code opcode_hash256)) = Some (\<lambda>c. sha256_standard (sha256_standard c))"
    by (simp add: standard_hash_def op_of_code_def)
  from hash_operations_standard [OF this, of "example_program\<lparr>prg_primary := [Vchunk [7]]\<rparr>" "Vchunk [7]" "[]" True example_crypto 0]
  show ?thesis by (simp add: addressable_def)
qed

section \<open>The merkle root\<close>

definition double_sha256 :: "data_chunk \<Rightarrow> data_chunk \<Rightarrow> data_chunk" where
  "double_sha256 left right = sha256_standard (sha256_standard (left @ right))"

definition hash_sized :: "data_chunk list \<Rightarrow> bool" where
  "hash_sized digests \<longleftrightarrow> (\<forall>d \<in> set digests. length d = 32)"

lemma hash_sized_nth: "hash_sized ds \<Longrightarrow> i < length ds \<Longrightarrow> length (ds ! i) = 32"
  by (simp add: hash_sized_def)

lemma hash_sized_update: "hash_sized ds \<Longrightarrow> length d = 32 \<Longrightarrow> hash_sized (ds[i := d])"
  using set_update_subset_insert by (fastforce simp: hash_sized_def)

lemma merkle_loop_standard:
  assumes "hash_sized ds" "2 * blocks \<le> length ds"
  shows "merkle_hash_loop bitcoin_hash_pair i blocks ds = merkle_hash_loop double_sha256 i blocks ds \<and>
    hash_sized (merkle_hash_loop double_sha256 i blocks ds)"
  using assms
proof (induction "blocks - i" arbitrary: i ds)
  case 0
  then show ?case by (simp add: merkle_hash_loop.simps hash_sized_def) (meson in_set_takeD)
next
  case (Suc n)
  then have i: "i * 2 + 1 < length ds" "i < blocks" by auto
  let ?ds = "ds[i := double_sha256 (ds ! (i * 2)) (ds ! (i * 2 + 1))]"
  have "length (ds ! (i * 2)) = 32" "length (ds ! (i * 2 + 1)) = 32" using hash_sized_nth [OF Suc.prems(1)] i by simp_all
  then have "bitcoin_hash_pair (ds ! (i * 2)) (ds ! (i * 2 + 1)) = double_sha256 (ds ! (i * 2)) (ds ! (i * 2 + 1))"
    by (simp add: hash_pairs double_sha256_def sha256_fips)
  moreover have "hash_sized ?ds" using Suc.prems(1) by (simp add: hash_sized_update double_sha256_def sha256_size sha256_fips [symmetric])
  ultimately show ?case
    using Suc.hyps(1) [of "i + 1" ?ds] Suc.hyps(2) Suc.prems(2) i by (simp add: merkle_hash_loop.simps [of _ i])
qed

lemma hash_sized_push: "hash_sized ds \<Longrightarrow> hash_sized (push_odd ds)"
  by (cases "ds = []") (auto simp: hash_sized_def push_odd_def)

lemma merkle_reduce_standard:
  "hash_sized ds \<Longrightarrow> merkle_reduce bitcoin_hash_pair ds = merkle_reduce double_sha256 ds"
proof (induction ds rule: length_induct)
  case (1 ds)
  show ?case
  proof (cases "length ds \<le> 1")
    case False
    let ?next = "merkle_hash double_sha256 (push_odd ds)"
    have "merkle_hash bitcoin_hash_pair (push_odd ds) = ?next" "hash_sized ?next"
      using merkle_loop_standard [OF hash_sized_push [OF 1(2)], of "length (push_odd ds) div 2" 0] by (simp_all add: merkle_hash_def)
    moreover have "length ?next < length ds" using False by (simp add: length_merkle_hash length_push_odd)
    ultimately show ?thesis using 1(1) False by (simp add: merkle_reduce.simps [of _ ds])
  qed (simp add: merkle_reduce.simps)
qed

text \<open>
  C20. The merkle root over digests, computed in place with the pair hash that works on one buffer and
  reuses the schedule of the padding, is the root over the double SHA-256 of the two digests joined.
\<close>

theorem merkle_root_standard:
  assumes "hash_sized digests"
  shows "Merkle.merkle_root bitcoin_hash_pair null digests = Merkle.merkle_root double_sha256 null digests"
  by (simp add: merkle_root_def merkle_reduce_standard [OF assms])

theorem merkle_root_standard_witness:
  "Merkle.merkle_root bitcoin_hash_pair [] [replicate 32 1, replicate 32 2, replicate 32 3] =
    Merkle.merkle_root double_sha256 [] [replicate 32 1, replicate 32 2, replicate 32 3]"
  using merkle_root_standard [of "[replicate 32 1, replicate 32 2, replicate 32 3]" "[]"] by (simp add: hash_sized_def)

end
