(* ===== verification/KeyDerivation.thy ===== *)
theory KeyDerivation
  imports HashFunctions
begin

text \<open>
  Keyed hashes and key derivation: the HMAC accumulator (\<open>impl/hash/hmac.ipp\<close>), HKDF
  (\<open>impl/hash/hkdf.ipp\<close>) and PBKDF2 (\<open>impl/hash/pbkd.ipp\<close>), against RFC 2104, RFC 5869 and
  RFC 8018. The expansion of HKDF counts blocks in a byte, so for the greatest sizes it accepts its
  loop does not end.
\<close>

section \<open>HMAC\<close>

record 's hmac =
  hm_inner :: "'s accumulator"
  hm_outer :: "'s accumulator"

definition xor_n :: "data_chunk \<Rightarrow> data_chunk \<Rightarrow> data_chunk" where
  "xor_n pad key = map2 (XOR) pad key @ drop (length key) pad"

definition inner_pad :: "'s algorithm \<Rightarrow> data_chunk" where
  "inner_pad A = replicate (alg_block A) 0x36"

definition outer_pad :: "'s algorithm \<Rightarrow> data_chunk" where
  "outer_pad A = replicate (alg_block A) 0x5c"

definition xor_key :: "'s algorithm \<Rightarrow> bool \<Rightarrow> data_chunk \<Rightarrow> 's hmac" where
  "xor_key A checked key = \<lparr>hm_inner = snd (acc_write A checked (xor_n (inner_pad A) key) (new_accumulator A)),
     hm_outer = snd (acc_write A checked (xor_n (outer_pad A) key) (new_accumulator A))\<rparr>"

definition hmac_new :: "'s algorithm \<Rightarrow> bool \<Rightarrow> data_chunk \<Rightarrow> 's hmac" where
  "hmac_new A checked key = (if length key \<le> alg_block A then xor_key A checked key
     else xor_key A checked (acc_hash A checked key))"

definition hmac_write :: "'s algorithm \<Rightarrow> bool \<Rightarrow> data_chunk \<Rightarrow> 's hmac \<Rightarrow> 's hmac" where
  "hmac_write A checked bs mac = mac\<lparr>hm_inner := snd (acc_write A checked bs (hm_inner mac))\<rparr>"

definition hmac_flush :: "'s algorithm \<Rightarrow> bool \<Rightarrow> 's hmac \<Rightarrow> data_chunk \<times> 's hmac" where
  "hmac_flush A checked mac =
     (let outer = snd (acc_write A checked (acc_flush A checked (hm_inner mac)) (hm_outer mac)) in
      (acc_flush A checked outer, \<lparr>hm_inner = acc_flushed A checked (hm_inner mac), hm_outer = acc_flushed A checked outer\<rparr>))"

definition hmac_code :: "'s algorithm \<Rightarrow> bool \<Rightarrow> data_chunk \<Rightarrow> data_chunk \<Rightarrow> data_chunk" where
  "hmac_code A checked bs key = fst (hmac_flush A checked (hmac_write A checked bs (hmac_new A checked key)))"

section \<open>HKDF\<close>

text \<open>The size of the digest is an argument; the counter of blocks is a byte.\<close>

definition hkdf_extract :: "'s algorithm \<Rightarrow> bool \<Rightarrow> data_chunk \<Rightarrow> data_chunk \<Rightarrow> data_chunk" where
  "hkdf_extract A checked material salt = hmac_code A checked material salt"

definition hkdf_block :: "'s algorithm \<Rightarrow> bool \<Rightarrow> data_chunk \<Rightarrow> data_chunk \<Rightarrow> byte \<Rightarrow> data_chunk \<Rightarrow> data_chunk" where
  "hkdf_block A checked key info block t =
     (let mac = hmac_new A checked key; chained = (if block \<noteq> 1 then hmac_write A checked t mac else mac) in
      fst (hmac_flush A checked (hmac_write A checked [block] (hmac_write A checked info chained))))"

definition hkdf_maximum_size :: "nat \<Rightarrow> nat" where
  "hkdf_maximum_size hlen = 255 * hlen"

partial_function (option) hkdf_loop ::
  "'s algorithm \<Rightarrow> bool \<Rightarrow> data_chunk \<Rightarrow> data_chunk \<Rightarrow> nat \<Rightarrow> nat \<Rightarrow> nat \<Rightarrow> byte \<Rightarrow> data_chunk \<Rightarrow> data_chunk \<Rightarrow> data_chunk option" where
  "hkdf_loop A checked key info hlen blocks remain block t out =
     (if unat block \<le> blocks
      then let t' = hkdf_block A checked key info block t in
        hkdf_loop A checked key info hlen blocks remain (block + 1) t' (out @ take (if unat block = blocks then remain else hlen) t')
      else Some out)"

definition hkdf_expand :: "'s algorithm \<Rightarrow> bool \<Rightarrow> nat \<Rightarrow> nat \<Rightarrow> data_chunk \<Rightarrow> data_chunk \<Rightarrow> data_chunk option" where
  "hkdf_expand A checked hlen sz key info =
     (let blocks = ceilinged_divide sz hlen; remain = sz - (blocks - 1) * hlen in
      hkdf_loop A checked key info hlen blocks remain 1 (replicate hlen 0) [])"

definition hkdf_key :: "'s algorithm \<Rightarrow> bool \<Rightarrow> nat \<Rightarrow> nat \<Rightarrow> data_chunk \<Rightarrow> data_chunk \<Rightarrow> data_chunk \<Rightarrow> data_chunk option" where
  "hkdf_key A checked hlen sz material salt info =
     hkdf_expand A checked hlen sz (hkdf_extract A checked material salt) info"

section \<open>PBKDF2\<close>

fun pbkd_iterate :: "'s algorithm \<Rightarrow> bool \<Rightarrow> 's hmac \<Rightarrow> nat \<Rightarrow> data_chunk \<Rightarrow> data_chunk \<Rightarrow> data_chunk" where
  "pbkd_iterate A checked hmac_p 0 u t = t"
| "pbkd_iterate A checked hmac_p (Suc c) u t =
     (let u' = fst (hmac_flush A checked (hmac_write A checked u hmac_p)) in
      pbkd_iterate A checked hmac_p c u' (map2 (XOR) t u'))"

definition pbkd_block :: "'s algorithm \<Rightarrow> bool \<Rightarrow> 's hmac \<Rightarrow> 's hmac \<Rightarrow> nat \<Rightarrow> nat \<Rightarrow> data_chunk" where
  "pbkd_block A checked hmac_p hmac_ps count i =
     (let u = fst (hmac_flush A checked (hmac_write A checked (be_bytes 4 i) hmac_ps)) in
      pbkd_iterate A checked hmac_p (count - 1) u u)"

definition pbkd_key :: "'s algorithm \<Rightarrow> bool \<Rightarrow> nat \<Rightarrow> nat \<Rightarrow> data_chunk \<Rightarrow> data_chunk \<Rightarrow> nat \<Rightarrow> data_chunk" where
  "pbkd_key A checked hlen sz password salt count =
     (let l = ceilinged_divide sz hlen; r = sz - (l - 1) * hlen;
          hmac_p = hmac_new A checked password; hmac_ps = hmac_write A checked salt hmac_p in
      concat (map (\<lambda>i. take (if i = l then r else hlen) (pbkd_block A checked hmac_p hmac_ps count i)) [1..<l + 1]))"

section \<open>The standards\<close>

definition rfc_hmac :: "(data_chunk \<Rightarrow> data_chunk) \<Rightarrow> nat \<Rightarrow> data_chunk \<Rightarrow> data_chunk \<Rightarrow> data_chunk" where
  "rfc_hmac H B key text =
     (let k = (if length key \<le> B then key else H key); k0 = k @ replicate (B - length k) 0 in
      H (map (\<lambda>b. b XOR 0x5c) k0 @ H (map (\<lambda>b. b XOR 0x36) k0 @ text)))"

text \<open>The blocks of HKDF, from the first; and the iterates of PBKDF2.\<close>

fun rfc_hkdf_t :: "(data_chunk \<Rightarrow> data_chunk \<Rightarrow> data_chunk) \<Rightarrow> data_chunk \<Rightarrow> data_chunk \<Rightarrow> nat \<Rightarrow> data_chunk" where
  "rfc_hkdf_t mac key info 0 = []"
| "rfc_hkdf_t mac key info (Suc n) = mac key (rfc_hkdf_t mac key info n @ info @ [word_of_nat (Suc n)])"

definition rfc_hkdf :: "(data_chunk \<Rightarrow> data_chunk \<Rightarrow> data_chunk) \<Rightarrow> nat \<Rightarrow> nat \<Rightarrow> data_chunk \<Rightarrow> data_chunk \<Rightarrow> data_chunk" where
  "rfc_hkdf mac hlen sz key info =
     take sz (concat (map (rfc_hkdf_t mac key info) [1..<ceilinged_divide sz hlen + 1]))"

fun rfc_pbkd_u :: "(data_chunk \<Rightarrow> data_chunk \<Rightarrow> data_chunk) \<Rightarrow> data_chunk \<Rightarrow> data_chunk \<Rightarrow> nat \<Rightarrow> nat \<Rightarrow> data_chunk" where
  "rfc_pbkd_u mac password salt i 0 = mac password (salt @ be_bytes 4 i)"
| "rfc_pbkd_u mac password salt i (Suc c) = mac password (rfc_pbkd_u mac password salt i c)"

definition rfc_pbkd_f :: "(data_chunk \<Rightarrow> data_chunk \<Rightarrow> data_chunk) \<Rightarrow> data_chunk \<Rightarrow> data_chunk \<Rightarrow> nat \<Rightarrow> nat \<Rightarrow> data_chunk" where
  "rfc_pbkd_f mac password salt count i =
     foldl (map2 (XOR)) (rfc_pbkd_u mac password salt i 0) (map (rfc_pbkd_u mac password salt i) [1..<count])"

definition rfc_pbkd :: "(data_chunk \<Rightarrow> data_chunk \<Rightarrow> data_chunk) \<Rightarrow> nat \<Rightarrow> nat \<Rightarrow> data_chunk \<Rightarrow> data_chunk \<Rightarrow> nat \<Rightarrow> data_chunk" where
  "rfc_pbkd mac hlen sz password salt count =
     take sz (concat (map (rfc_pbkd_f mac password salt count) [1..<ceilinged_divide sz hlen + 1]))"

section \<open>Keyed algorithms\<close>

lemma xor_n_replicate:
  "length key \<le> n \<Longrightarrow> xor_n (replicate n c) key = map (\<lambda>b. b XOR c) (key @ replicate (n - length key) 0)"
  by (intro nth_equalityI) (auto simp: xor_n_def nth_append xor.commute)

lemma length_xor_n: "length key \<le> length pad \<Longrightarrow> length (xor_n pad key) = length pad"
  by (simp add: xor_n_def)

locale keyed_algorithm = block_algorithm +
  fixes hlen :: nat
  assumes hlen_pos: "0 < hlen" and hlen_block: "hlen \<le> alg_block A"
    and digest_length: "ok s \<Longrightarrow> length (alg_normalize A s) = hlen"
begin

definition mac_key :: "data_chunk \<Rightarrow> data_chunk" where
  "mac_key key = (let k = (if length key \<le> block then key else md_hash A key) in k @ replicate (block - length k) 0)"

definition mac_holds :: "'a hmac \<Rightarrow> data_chunk \<Rightarrow> data_chunk \<Rightarrow> bool" where
  "mac_holds mac key text \<longleftrightarrow> represents (hm_inner mac) (map (\<lambda>b. b XOR 0x36) (mac_key key) @ text) \<and>
     represents (hm_outer mac) (map (\<lambda>b. b XOR 0x5c) (mac_key key))"

lemma length_md_hash: "length (md_hash A m) = hlen"
  using digest_length ok_md_state by (simp add: md_hash_def)

lemma length_mac_key: "length (mac_key key) = block"
  using hlen_block by (simp add: mac_key_def length_md_hash Let_def)

lemma rfc_hmac_key: "rfc_hmac (md_hash A) block key text =
    md_hash A (map (\<lambda>b. b XOR 0x5c) (mac_key key) @ md_hash A (map (\<lambda>b. b XOR 0x36) (mac_key key) @ text))"
  by (simp add: rfc_hmac_def mac_key_def Let_def)

lemma xor_key_holds:
  assumes "length k \<le> block" "mac_key key = k @ replicate (block - length k) 0" "block \<le> limit_bytes A"
  shows "mac_holds (xor_key A checked k) key []"
proof -
  have "represents (snd (acc_write A checked (xor_n (replicate block c) k) (new_accumulator A))) (map (\<lambda>b. b XOR c) (mac_key key))" for c
  proof -
    have pad: "xor_n (replicate block c) k = map (\<lambda>b. b XOR c) (mac_key key)" using xor_n_replicate [OF assms(1)] assms(2) by simp
    have len: "length (xor_n (replicate block c) k) = block" by (simp add: pad length_mac_key)
    have "\<exists>acc'. acc_write A checked (xor_n (replicate block c) k) (new_accumulator A) = (True, acc') \<and>
        represents acc' ([] @ xor_n (replicate block c) k)"
      using assms(3) len by (intro write_represents new_represents) (simp only: list.size add_0)
    then show ?thesis unfolding pad by auto
  qed
  then show ?thesis by (simp add: mac_holds_def xor_key_def inner_pad_def outer_pad_def)
qed

lemma new_holds:
  assumes "countable A (length key)"
  shows "mac_holds (hmac_new A checked key) key []"
proof (cases "length key \<le> block")
  case True
  then show ?thesis using xor_key_holds [of key key checked] assms by (simp add: hmac_new_def mac_key_def countable_def)
next
  case False
  have "acc_hash A checked key = md_hash A key" by (rule hash_message [OF assms])
  moreover have "mac_key key = md_hash A key @ replicate (block - length (md_hash A key)) 0" using False by (simp add: mac_key_def Let_def)
  ultimately show ?thesis using xor_key_holds [of "md_hash A key" key checked] False assms hlen_block
    by (simp add: hmac_new_def length_md_hash countable_def)
qed

lemma write_holds:
  assumes "mac_holds mac key text" "block + length text + length bs \<le> limit_bytes A"
  shows "mac_holds (hmac_write A checked bs mac) key (text @ bs)"
proof -
  let ?m = "map (\<lambda>b. b XOR 0x36) (mac_key key) @ text"
  have "represents (hm_inner mac) ?m" using assms(1) by (simp add: mac_holds_def)
  from write_represents [OF this, of bs checked] assms(2)
  obtain acc where "acc_write A checked bs (hm_inner mac) = (True, acc)" "represents acc (?m @ bs)" by (auto simp: length_mac_key)
  with assms(1) show ?thesis by (simp add: mac_holds_def hmac_write_def)
qed

lemma flush_mac:
  assumes "mac_holds mac key text" "countable A (block + length text)" "countable A (block + hlen)"
  shows "fst (hmac_flush A checked mac) = rfc_hmac (md_hash A) block key text"
proof -
  let ?i = "map (\<lambda>b. b XOR 0x36) (mac_key key) @ text" and ?o = "map (\<lambda>b. b XOR 0x5c) (mac_key key)"
  have inner: "acc_flush A checked (hm_inner mac) = md_hash A ?i"
    using assms(1,2) by (intro flush_hash) (simp_all add: mac_holds_def length_mac_key)
  obtain acc where "acc_write A checked (md_hash A ?i) (hm_outer mac) = (True, acc)" "represents acc (?o @ md_hash A ?i)"
    using write_represents [of "hm_outer mac" ?o "md_hash A ?i" checked] assms(1,3)
    by (auto simp: mac_holds_def length_mac_key length_md_hash countable_def)
  moreover from this(2) have "acc_flush A checked acc = md_hash A (?o @ md_hash A ?i)"
    using assms(3) by (intro flush_hash) (simp_all add: length_mac_key length_md_hash)
  ultimately show ?thesis by (simp add: hmac_flush_def inner rfc_hmac_key Let_def)
qed

lemma code_mac:
  assumes "countable A (length key + length text + 2 * block)"
  shows "hmac_code A checked text key = rfc_hmac (md_hash A) block key text"
proof -
  have c: "countable A (length key)" "block + length ([] :: data_chunk) + length text \<le> limit_bytes A"
      "countable A (block + length text)" "countable A (block + hlen)"
    using assms hlen_block by (auto simp: countable_def)
  have "mac_holds (hmac_write A checked text (hmac_new A checked key)) key text"
    using write_holds [OF new_holds [OF c(1)] c(2)] by simp
  from flush_mac [OF this c(3,4)] show ?thesis by (simp add: hmac_code_def)
qed

lemma hkdf_block_mac:
  assumes "countable A (length key + length info + 3 * block)" "block' \<noteq> 1 \<longrightarrow> length t = hlen"
  shows "hkdf_block A checked key info block' t =
    rfc_hmac (md_hash A) block key ((if block' \<noteq> 1 then t else []) @ info @ [block'])"
proof -
  let ?t = "if block' \<noteq> 1 then t else []"
  let ?mac = "if block' \<noteq> 1 then hmac_write A checked t (hmac_new A checked key) else hmac_new A checked key"
  have t: "length ?t \<le> block" using assms(2) hlen_block by simp
  have limit: "block + length ?t + length info + 1 \<le> limit_bytes A" and key: "countable A (length key)"
    and message: "countable A (block + length (?t @ info @ [block']))" and digest: "countable A (block + hlen)"
    using assms(1) t hlen_block block_pos by (auto simp: countable_def split: if_splits)
  have "mac_holds ?mac key ?t"
    using new_holds [OF key, of checked] write_holds [OF new_holds [OF key], of t checked checked] limit by auto
  from write_holds [OF this, of info checked] limit
  have "mac_holds (hmac_write A checked info ?mac) key (?t @ info)" by simp
  from write_holds [OF this, of "[block']" checked] limit
  have "mac_holds (hmac_write A checked [block'] (hmac_write A checked info ?mac)) key (?t @ info @ [block'])" by simp
  from flush_mac [OF this message digest, of checked] show ?thesis by (simp add: hkdf_block_def Let_def)
qed

lemma length_rfc_hmac: "length (rfc_hmac (md_hash A) block key text) = hlen"
  by (simp add: rfc_hmac_key length_md_hash)

lemma length_hkdf_t: "length (rfc_hkdf_t (rfc_hmac (md_hash A) block) key info (Suc n)) = hlen"
  by (simp add: length_rfc_hmac)

lemma hkdf_loop_blocks:
  assumes "countable A (length key + length info + 3 * block)" "blocks \<le> 254" "1 \<le> n" "n \<le> blocks + 1"
    and "n \<noteq> 1 \<longrightarrow> t = rfc_hkdf_t (rfc_hmac (md_hash A) block) key info (n - 1)"
  shows "hkdf_loop A checked key info hlen blocks remain (word_of_nat n) t out = Some (out @
    concat (map (\<lambda>i. take (if i = blocks then remain else hlen) (rfc_hkdf_t (rfc_hmac (md_hash A) block) key info i)) [n..<blocks + 1]))"
  using assms(3-5)
proof (induction "blocks + 1 - n" arbitrary: n t out)
  case 0
  then have "n = blocks + 1" by simp
  moreover have "unat (word_of_nat (blocks + 1) :: byte) = blocks + 1" using assms(2) by (simp only: unat_of_nat) simp
  ultimately show ?case by (subst hkdf_loop.simps) simp
next
  case (Suc k)
  let ?T = "rfc_hkdf_t (rfc_hmac (md_hash A) block) key info"
  obtain m where m: "n = Suc m" using Suc.prems(1) by (cases n) auto
  have u: "unat (word_of_nat n :: byte) = n" using Suc.prems(2) assms(2) by (simp add: unat_of_nat take_bit_nat_eq_self)
  then have one: "(word_of_nat n :: byte) = 1 \<longleftrightarrow> m = 0" using m by (metis One_nat_def of_nat_1 Suc_inject unat_1)
  have "length t = hlen" if "m \<noteq> 0" using Suc.prems(3) that m length_hkdf_t [of key info "m - 1"] by simp
  then have t': "hkdf_block A checked key info (word_of_nat n) t = ?T n"
    using hkdf_block_mac [OF assms(1), of "word_of_nat n" t checked] one m Suc.prems(3) by (cases "m = 0") simp_all
  have step: "hkdf_loop A checked key info hlen blocks remain (word_of_nat n) t out =
      hkdf_loop A checked key info hlen blocks remain (word_of_nat (n + 1)) (?T n) (out @ take (if n = blocks then remain else hlen) (?T n))"
  proof -
    have "n \<le> blocks" using Suc.hyps(2) by linarith
    with u show ?thesis by (subst hkdf_loop.simps) (simp add: Let_def t' add.commute)
  qed
  have list: "[n..<blocks + 1] = n # [n + 1..<blocks + 1]" using Suc.hyps(2) upt_conv_Cons [of n "blocks + 1"] by (simp only: Suc_eq_plus1)
  show ?case unfolding step list using Suc.hyps(1) [of "n + 1" "?T n"] Suc.hyps(2) by (simp del: rfc_hkdf_t.simps upt_Suc)
qed

end

lemma concat_take_last:
  assumes "\<And>i. length (T i) = n" "r \<le> n"
  shows "concat (map (\<lambda>i. take (if i = Suc l then r else n) (T i)) [1..<Suc l + 1]) = take (l * n + r) (concat (map T [1..<Suc l + 1]))"
proof -
  have "concat (map (\<lambda>i. take (if i = Suc l then r else n) (T i)) [1..<Suc l]) = concat (map T [1..<Suc l])"
    using assms by (intro arg_cong [of _ _ concat]) simp
  moreover have "length (concat (map T [1..<Suc l])) = l * n" using assms by (simp add: length_concat comp_def sum_list_triv)
  ultimately show ?thesis using assms by simp
qed

lemma ceilinged_blocks:
  assumes "0 < n" "0 < sz"
  shows "\<exists>l r. ceilinged_divide sz n = Suc l \<and> sz - (Suc l - 1) * n = r \<and> r \<le> n \<and> sz = l * n + r"
proof (cases "sz mod n = 0")
  case True
  then have d: "sz = sz div n * n" "sz div n \<noteq> 0" using assms by (auto simp: div_eq_0_iff)
  then obtain l where "sz div n = Suc l" by (cases "sz div n") auto
  with True d(1) show ?thesis by (intro exI [of _ l] exI [of _ n]) (auto simp: ceilinged_divide_def)
next
  case False
  then show ?thesis using assms div_mult_mod_eq [of sz n]
    by (intro exI [of _ "sz div n"] exI [of _ "sz mod n"]) (auto simp: ceilinged_divide_def minus_div_mult_eq_mod mod_le_divisor)
qed

lemma concat_blocks_take:
  assumes "0 < n" "\<And>i. length (T i) = n" "l = ceilinged_divide sz n"
  shows "concat (map (\<lambda>i. take (if i = l then sz - (l - 1) * n else n) (T i)) [1..<l + 1]) = take sz (concat (map T [1..<l + 1]))"
proof (cases "sz = 0")
  case False
  then have "0 < sz" by simp
  from ceilinged_blocks [OF assms(1) this] obtain k r where "l = Suc k" "sz - (Suc k - 1) * n = r" "r \<le> n" "sz = k * n + r"
    unfolding assms(3) by blast
  with concat_take_last [OF assms(2), of r k] show ?thesis by (simp only:)
qed (use assms(3) in \<open>simp add: ceilinged_divide_def\<close>)

context keyed_algorithm begin

abbreviation mac :: "data_chunk \<Rightarrow> data_chunk \<Rightarrow> data_chunk" where
  "mac \<equiv> rfc_hmac (md_hash A) block"

theorem expand_rfc:
  assumes "countable A (length key + length info + 3 * block)" "sz \<le> 254 * hlen"
  shows "hkdf_expand A checked hlen sz key info = Some (rfc_hkdf mac hlen sz key info)"
proof -
  let ?l = "ceilinged_divide sz hlen"
  have l: "?l \<le> 254"
  proof (cases "sz mod hlen = 0")
    case True
    have "sz div hlen < 255" using assms(2) hlen_pos by (intro less_mult_imp_div_less) linarith
    with True show ?thesis by (simp add: ceilinged_divide_def)
  next
    case False
    then have "sz < 254 * hlen" using assms(2) by (metis le_neq_implies_less mod_mult_self2_is_0)
    then have "sz div hlen < 254" by (simp add: less_mult_imp_div_less)
    then show ?thesis by (simp add: ceilinged_divide_def)
  qed
  have "length (rfc_hkdf_t mac key info (Suc n)) = hlen" for n by (rule length_hkdf_t)
  then have eq: "map (\<lambda>i. take (if i = ?l then sz - (?l - 1) * hlen else hlen) (rfc_hkdf_t mac key info i)) [1..<?l + 1] =
      map (\<lambda>i. take (if i = ?l then sz - (?l - 1) * hlen else hlen) (rfc_hkdf_t mac key info (Suc (i - 1)))) [1..<?l + 1]"
      "map (rfc_hkdf_t mac key info) [1..<?l + 1] = map (\<lambda>i. rfc_hkdf_t mac key info (Suc (i - 1))) [1..<?l + 1]"
    by (auto simp del: rfc_hkdf_t.simps)
  have loop: "hkdf_expand A checked hlen sz key info = Some (concat (map (\<lambda>i. take (if i = ?l then sz - (?l - 1) * hlen else hlen)
      (rfc_hkdf_t mac key info i)) [1..<?l + 1]))"
    using hkdf_loop_blocks [OF assms(1) l, of 1 _ checked "sz - (?l - 1) * hlen" "[]"] by (simp only: hkdf_expand_def Let_def) simp
  show ?thesis
    unfolding loop eq(1) rfc_hkdf_def eq(2)
    by (subst concat_blocks_take [OF hlen_pos length_hkdf_t refl]) (rule refl)
qed

lemma pbkd_iterate_rfc:
  assumes "countable A (length password + 3 * block)" "mac_holds hmac_p password []" "length u = hlen" "length t = hlen"
  shows "pbkd_iterate A checked hmac_p n u t = foldl (map2 (XOR)) t (map (\<lambda>k. ((mac password) ^^ k) u) [1..<n + 1])"
  using assms(3,4)
proof (induction n arbitrary: u t)
  case (Suc n)
  have c: "block + length ([] :: data_chunk) + length u \<le> limit_bytes A" "countable A (block + length u)" "countable A (block + hlen)"
    using assms(1) Suc.prems(1) hlen_block by (auto simp: countable_def)
  have "mac_holds (hmac_write A checked u hmac_p) password u" using write_holds [OF assms(2) c(1), of checked] by simp
  from flush_mac [OF this c(2,3)] have flush: "fst (hmac_flush A checked (hmac_write A checked u hmac_p)) = mac password u" .
  have "map (\<lambda>k. ((mac password) ^^ k) u) [1..<Suc n + 1] = mac password u # map (\<lambda>k. ((mac password) ^^ k) (mac password u)) [1..<n + 1]"
    by (intro nth_equalityI) (auto simp: nth_Cons funpow_swap1 simp del: upt_Suc split: nat.split)
  with Suc.IH [of "mac password u" "map2 (XOR) t (mac password u)"] Suc.prems flush
  show ?case by (simp add: length_rfc_hmac Let_def del: upt_Suc)
qed simp

lemma pbkd_u_power: "rfc_pbkd_u mac password salt i k = ((mac password) ^^ k) (rfc_pbkd_u mac password salt i 0)"
  by (induction k) simp_all

lemma length_fold_xor: "\<forall>x \<in> set xs. length x = length t \<Longrightarrow> length (foldl (map2 (XOR)) t xs) = length (t :: data_chunk)"
  by (induction xs arbitrary: t) simp_all

theorem pbkd_rfc:
  assumes "countable A (length password + length salt + 4 * block)" "4 \<le> block"
  shows "pbkd_key A checked hlen sz password salt count = rfc_pbkd mac hlen sz password salt count"
proof -
  let ?p = "hmac_new A checked password" let ?ps = "hmac_write A checked salt ?p" and ?l = "ceilinged_divide sz hlen"
  have c: "countable A (length password)" "countable A (length password + 3 * block)" "block + length ([] :: data_chunk) + length salt \<le> limit_bytes A"
      "block + length salt + 4 \<le> limit_bytes A" "countable A (block + (length salt + 4))" "countable A (block + hlen)"
    using assms hlen_block by (auto simp: countable_def)
  have p: "mac_holds ?p password []" by (rule new_holds [OF c(1)])
  have ps: "mac_holds ?ps password salt" using write_holds [OF p c(3), of checked] by simp
  have block_eq: "pbkd_block A checked ?p ?ps count i = rfc_pbkd_f mac password salt count i" for i
  proof -
    have "mac_holds (hmac_write A checked (be_bytes 4 i) ?ps) password (salt @ be_bytes 4 i)"
      using write_holds [OF ps, of "be_bytes 4 i" checked] c(4) by simp
    from flush_mac [OF this _ c(6), of checked] c(5)
    have first: "fst (hmac_flush A checked (hmac_write A checked (be_bytes 4 i) ?ps)) = rfc_pbkd_u mac password salt i 0" by simp
    have "[1..<count - 1 + 1] = [1..<count]" by (cases count) simp_all
    then show ?thesis
      using pbkd_iterate_rfc [OF c(2) p, of "rfc_pbkd_u mac password salt i 0" "rfc_pbkd_u mac password salt i 0" checked "count - 1"]
        pbkd_u_power [of password salt i, abs_def]
      by (simp add: pbkd_block_def first rfc_pbkd_f_def length_rfc_hmac Let_def fun_eq_iff cong: map_cong)
  qed
  have "length (rfc_pbkd_u mac password salt i k) = hlen" for i k by (cases k) (simp_all add: length_rfc_hmac)
  then have "length (rfc_pbkd_f mac password salt count i) = hlen" for i
    unfolding rfc_pbkd_f_def by (subst length_fold_xor) (auto simp del: rfc_pbkd_u.simps)
  from concat_blocks_take [OF hlen_pos this refl, of sz] show ?thesis
    by (simp only: pbkd_key_def rfc_pbkd_def Let_def block_eq)
qed

end

text \<open>With 255 blocks the byte that counts them is never past the last.\<close>

lemma hkdf_loop_endless: "hkdf_loop A checked key info hlen blocks remain b t out = Some r \<Longrightarrow> blocks < 255"
proof (erule hkdf_loop.raw_induct [rotated, of _ _ _ _ _ _ _ _ _ _ _ "\<lambda>_ _ _ _ _ blocks _ _ _ _ _. blocks < 255"], goal_cases)
  case (1 loop A checked key info hlen blocks remain b t out r)
  show ?case
  proof (cases "unat b \<le> blocks")
    case True
    with 1(2) have "loop A checked key info hlen blocks remain (b + 1) (hkdf_block A checked key info b t)
        (out @ take (if unat b = blocks then remain else hlen) (hkdf_block A checked key info b t)) = Some r"
      by (simp only: if_True Let_def)
    then show ?thesis by (rule 1(1))
  next
    case False
    moreover have "unat b < 256" using unsigned_less [of b] by simp
    ultimately show ?thesis by linarith
  qed
qed

section \<open>The algorithms of the library\<close>

lemma sha_keyed:
  assumes "block_algorithm (sha_algorithm S) (\<lambda>s. length s = sha_state_words S)" "0 < n" "n \<le> sha_block_size S"
    and "\<And>s. length s = sha_state_words S \<Longrightarrow> length (sha_output S s) = n"
  shows "keyed_algorithm (sha_algorithm S) (\<lambda>s. length s = sha_state_words S) n"
  using assms by (intro keyed_algorithm.intro keyed_algorithm_axioms.intro) simp_all

interpretation sha256_keyed: keyed_algorithm "sha_algorithm sha256" "\<lambda>s. length s = sha_state_words sha256" 32
  by (rule sha_keyed [OF sha256_stream.block_algorithm_axioms]) (simp_all add: half_size_256 digest_sizes)

interpretation sha512_keyed: keyed_algorithm "sha_algorithm sha512" "\<lambda>s. length s = sha_state_words sha512" 64
  by (rule sha_keyed [OF sha512_stream.block_algorithm_axioms]) (simp_all add: sha_block_size_def digest_sizes)

definition hmac_sha256 :: "data_chunk \<Rightarrow> data_chunk \<Rightarrow> data_chunk" where
  "hmac_sha256 = rfc_hmac sha256_standard 64"

definition hmac_sha512 :: "data_chunk \<Rightarrow> data_chunk \<Rightarrow> data_chunk" where
  "hmac_sha512 = rfc_hmac sha512_standard 128"

lemma mac_sha256: "sha256_keyed.mac = hmac_sha256"
  by (simp add: hmac_sha256_def sha_md_hash [OF instances_ok(2)] half_size_256 sha256_fips [abs_def])

lemma mac_sha512: "sha512_keyed.mac = hmac_sha512"
  by (simp add: hmac_sha512_def sha_md_hash [OF instances_ok(4)] sha_block_size_def sha512_fips [abs_def])

lemma addressable_room:
  assumes "addressable n" "k \<le> 1024"
  shows "countable (sha_algorithm (S :: 32 word sha)) (n + k)" "countable (sha_algorithm (T :: 64 word sha)) (n + k)"
  using assms by (simp_all add: addressable_def countable_def limit_bytes_def sha_count_bytes_def sha_block_size_def)

text \<open>
  The HMAC accumulator computes the code of RFC 2104, for keys shorter and longer than a block.
\<close>

theorem hmac_standard:
  assumes "addressable (length key + length message)"
  shows "hmac_code (sha_algorithm sha256) checked message key = hmac_sha256 key message \<and>
    hmac_code (sha_algorithm sha512) checked message key = hmac_sha512 key message"
  using sha256_keyed.code_mac [of key message checked] sha512_keyed.code_mac [of key message checked]
    addressable_room [OF assms, of "2 * 64"] addressable_room [OF assms, of "2 * 128"]
  by (simp add: mac_sha256 [symmetric] mac_sha512 [symmetric] half_size_256 sha_block_size_def)

theorem hmac_standard_witness:
  "hmac_code (sha_algorithm sha256) True [1, 2] (replicate 65 7) = hmac_sha256 (replicate 65 7) [1, 2]"
proof -
  have "addressable (length (replicate 65 7 :: data_chunk) + length [1, 2 :: byte])" by (simp add: addressable_def)
  from hmac_standard [OF this, of True] show ?thesis by blast
qed

text \<open>
  C22. The expansion of HKDF-SHA256 returns the output of RFC 5869 for sizes up to 254 digests. For the
  sizes above, which its limit of 255 digests admits, it does not return: the byte that counts the
  blocks wraps around before it is past the last one.
\<close>

theorem hkdf_expand_returns:
  assumes "addressable (length key + length info)" "sz \<le> hkdf_maximum_size 32"
  shows "hkdf_expand (sha_algorithm sha256) checked 32 sz key info =
    (if sz \<le> 254 * 32 then Some (rfc_hkdf hmac_sha256 32 sz key info) else None)"
proof (cases "sz \<le> 254 * 32")
  case True
  then show ?thesis
    using sha256_keyed.expand_rfc [of key info sz checked] addressable_room(1) [OF assms(1), of "3 * 64"]
    by (simp add: half_size_256 mac_sha256 [symmetric] sha_md_hash [OF instances_ok(2)])
next
  case False
  then have "\<not> ceilinged_divide sz 32 < 255" by (auto simp: ceilinged_divide_def)
  then have "hkdf_expand (sha_algorithm sha256) checked 32 sz key info \<noteq> Some r" for r
    by (auto simp: hkdf_expand_def Let_def dest: hkdf_loop_endless)
  with False show ?thesis by (cases "hkdf_expand (sha_algorithm sha256) checked 32 sz key info") auto
qed

theorem hkdf_expand_returns_witness:
  "hkdf_expand (sha_algorithm sha256) True 32 42 (replicate 32 1) [] = Some (rfc_hkdf hmac_sha256 32 42 (replicate 32 1) []) \<and>
   hkdf_expand (sha_algorithm sha256) True 32 (hkdf_maximum_size 32) (replicate 32 1) [] = None"
proof -
  have a: "addressable (length (replicate 32 1 :: data_chunk) + length ([] :: data_chunk))" by (simp add: addressable_def)
  from hkdf_expand_returns [OF a, of 42 True] hkdf_expand_returns [OF a, of "hkdf_maximum_size 32" True] show ?thesis
    by (simp add: hkdf_maximum_size_def)
qed

text \<open>
  C23. PBKDF2 with HMAC-SHA512 derives the key of RFC 8018, for any size and number of iterations, from
  the two authenticators it keeps and copies.
\<close>

theorem pbkd_standard:
  assumes "addressable (length password + length salt)"
  shows "pbkd_key (sha_algorithm sha512) checked 64 sz password salt count = rfc_pbkd hmac_sha512 64 sz password salt count"
  using sha512_keyed.pbkd_rfc [of password salt checked sz count] addressable_room(2) [OF assms, of "4 * 128"]
  by (simp add: mac_sha512 [symmetric] sha_block_size_def sha_md_hash [OF instances_ok(4)])

theorem pbkd_standard_witness:
  "pbkd_key (sha_algorithm sha512) False 64 64 [1, 2, 3] [4] 2048 = rfc_pbkd hmac_sha512 64 64 [1, 2, 3] [4] 2048"
proof -
  have "addressable (length [1, 2, 3 :: byte] + length [4 :: byte])" by (simp add: addressable_def)
  from pbkd_standard [OF this] show ?thesis by blast
qed

end
