(* ===== verification/Bits.thy ===== *)
theory Bits
  imports Streams
begin

text \<open>
  Streams of bits (\<open>impl/stream/streamers/bit_reader.ipp\<close> and \<open>bit_writer.ipp\<close>): a reader and a
  writer that hold the byte they are in and their offset in it, over the streams of bytes. Bits go
  from the highest of a byte to the lowest. A reader stands for the list of bits it has left, a
  writer for the list of bits it was given; past its end a reader yields zeros.
\<close>

section \<open>Lists of bits\<close>

definition word_bits :: "nat \<Rightarrow> ('w::len) word \<Rightarrow> bool list" where
  "word_bits n w = map (\<lambda>i. bit w (n - 1 - i)) [0..<n]"

definition bits_of :: "data_chunk \<Rightarrow> bool list" where
  "bits_of bs = concat (map (word_bits 8) bs)"

lemma length_word_bits [simp]: "length (word_bits n w) = n"
  by (simp add: word_bits_def)

lemma word_bits_nth [simp]: "i < n \<Longrightarrow> word_bits n w ! i = bit w (n - 1 - i)"
  by (simp add: word_bits_def)

lemma word_bits_eq_iff: "word_bits n v = word_bits n w \<longleftrightarrow> (\<forall>i < n. bit v i = bit w i)"
proof
  assume eq: "word_bits n v = word_bits n w"
  show "\<forall>i < n. bit v i = bit w i"
  proof (intro allI impI)
    fix i assume "i < n"
    then have "n - 1 - i < n" "n - 1 - (n - 1 - i) = i" by simp_all
    then show "bit v i = bit w i" using eq by (metis word_bits_nth)
  qed
qed (auto simp: word_bits_def)

lemma word_bits_inject: "word_bits LENGTH('w) (v :: ('w::len) word) = word_bits LENGTH('w) w \<longleftrightarrow> v = w"
  by (metis bit_word_eqI word_bits_eq_iff)

lemma word_bits_0 [simp]: "word_bits 0 w = []"
  by (simp add: word_bits_def)

lemma word_bits_Suc: "word_bits (Suc n) w = bit w n # word_bits n w"
  by (intro nth_equalityI) (auto simp: nth_Cons split: nat.split)

lemma word_bits_append: "word_bits (m + n) w = word_bits m (drop_bit n w) @ word_bits n w"
  by (intro nth_equalityI) (auto simp: nth_append bit_drop_bit_eq algebra_simps)

lemma word_bits_zero [simp]: "word_bits n 0 = replicate n False"
  by (intro nth_equalityI) auto

lemma word_bits_ucast: "n \<le> LENGTH('v) \<Longrightarrow> word_bits n (ucast (w :: ('w::len) word) :: ('v::len) word) = word_bits n w"
  by (auto simp: word_bits_eq_iff bit_simps intro!: nth_equalityI)

lemma bits_of_simps [simp]: "bits_of [] = []" "bits_of (b # bs) = word_bits 8 b @ bits_of bs"
  by (simp_all add: bits_of_def)

lemma bits_of_append [simp]: "bits_of (xs @ ys) = bits_of xs @ bits_of ys"
  by (simp add: bits_of_def)

lemma length_bits_of [simp]: "length (bits_of bs) = 8 * length bs"
  by (induction bs) simp_all

lemma bits_of_inject: "bits_of xs = bits_of ys \<longleftrightarrow> xs = ys"
proof (induction xs arbitrary: ys)
  case Nil
  then show ?case by (cases ys) (auto dest: arg_cong [of _ _ length])
next
  case (Cons x xs)
  then show ?case using word_bits_inject [where 'w = 8, of x] by (cases ys) (auto dest: arg_cong [of _ _ length])
qed

lemma bits_of_zeros: "bits_of (replicate n 0) = replicate (8 * n) False"
  by (induction n) (simp_all add: replicate_add [symmetric] add.commute)

section \<open>The reader\<close>

record bit_reader =
  brd_source :: reader
  brd_byte :: byte
  brd_offset :: nat

definition new_bit_reader :: "reader \<Rightarrow> bit_reader" where
  "new_bit_reader source = \<lparr>brd_source = source, brd_byte = 0, brd_offset = 8\<rparr>"

definition brd_shift :: "bit_reader \<Rightarrow> nat" where
  "brd_shift r = 8 - brd_offset r"

definition brd_load :: "bit_reader \<Rightarrow> bit_reader" where
  "brd_load r = (let (bs, source) = do_read_bytes 1 (brd_source r) in
     \<lparr>brd_source = source, brd_byte = hd bs, brd_offset = 0\<rparr>)"

definition get_left :: "byte \<Rightarrow> nat \<Rightarrow> bool" where
  "get_left b offset = bit b (7 - offset)"

definition read_bit :: "bit_reader \<Rightarrow> bool \<times> bit_reader" where
  "read_bit r = (let r = (if brd_shift r = 0 then brd_load r else r) in
     (get_left (brd_byte r) (brd_offset r), r\<lparr>brd_offset := brd_offset r + 1\<rparr>))"

fun read_bits_loop :: "nat \<Rightarrow> u64 \<Rightarrow> bit_reader \<Rightarrow> u64 \<times> bit_reader" where
  "read_bits_loop 0 out r = (out, r)"
| "read_bits_loop (Suc b) out r =
     (let (v, r) = read_bit r in read_bits_loop b (if v then Bit_Operations.set_bit b out else unset_bit b out) r)"

definition read_bits :: "nat \<Rightarrow> bit_reader \<Rightarrow> u64 \<times> bit_reader" where
  "read_bits bits r = read_bits_loop (min 64 bits) 0 r"

definition skip_bit :: "bit_reader \<Rightarrow> bit_reader" where
  "skip_bit r = (let r = (if brd_shift r = 0 then brd_load r else r) in r\<lparr>brd_offset := brd_offset r + 1\<rparr>)"

fun skip_bits :: "nat \<Rightarrow> bit_reader \<Rightarrow> bit_reader" where
  "skip_bits 0 r = r"
| "skip_bits (Suc n) r = skip_bits n (skip_bit r)"

definition brd_exhausted :: "bit_reader \<Rightarrow> bool" where
  "brd_exhausted r \<longleftrightarrow> (if \<not> rgood (brd_source r) then True else brd_shift r = 0 \<and> get_exhausted (brd_source r))"

section \<open>The writer\<close>

record bit_writer =
  bwr_sink :: data_chunk
  bwr_byte :: byte
  bwr_offset :: nat

definition new_bit_writer :: bit_writer where
  "new_bit_writer = \<lparr>bwr_sink = [], bwr_byte = 0, bwr_offset = 0\<rparr>"

definition bwr_shift :: "bit_writer \<Rightarrow> nat" where
  "bwr_shift w = 8 - bwr_offset w"

definition bwr_unload :: "bit_writer \<Rightarrow> bit_writer" where
  "bwr_unload w = \<lparr>bwr_sink = bwr_sink w @ [bwr_byte w], bwr_byte = 0, bwr_offset = 0\<rparr>"

definition set_left :: "byte \<Rightarrow> nat \<Rightarrow> bool \<Rightarrow> byte" where
  "set_left b offset v = (if v then Bit_Operations.set_bit (7 - offset) b else unset_bit (7 - offset) b)"

definition write_bit :: "bool \<Rightarrow> bit_writer \<Rightarrow> bit_writer" where
  "write_bit v w = (let w = w\<lparr>bwr_byte := set_left (bwr_byte w) (bwr_offset w) v, bwr_offset := bwr_offset w + 1\<rparr> in
     if bwr_shift w = 0 then bwr_unload w else w)"

text \<open>The partial byte is completed, whole bytes go to the sink, and the rest starts the next one.\<close>

fun write_partial :: "nat \<Rightarrow> u64 \<Rightarrow> bit_writer \<Rightarrow> nat \<times> bit_writer" where
  "write_partial 0 v w = (0, w)"
| "write_partial (Suc b) v w = (if bwr_offset w = 0 then (Suc b, w) else write_partial b v (write_bit (bit v b) w))"

function write_whole :: "nat \<Rightarrow> u64 \<Rightarrow> bit_writer \<Rightarrow> nat \<times> bit_writer" where
  "write_whole bits v w = (if bits \<ge> 8
     then write_whole (bits - 8) v (w\<lparr>bwr_sink := bwr_sink w @ [ucast (drop_bit (bits - 8) v)]\<rparr>) else (bits, w))"
  by pat_completeness auto
termination by (relation "measure fst") auto

declare write_whole.simps [simp del]

fun write_rest :: "nat \<Rightarrow> u64 \<Rightarrow> bit_writer \<Rightarrow> bit_writer" where
  "write_rest 0 v w = w"
| "write_rest (Suc b) v w = write_rest b v (write_bit (bit v b) w)"

definition write_bits :: "u64 \<Rightarrow> nat \<Rightarrow> bit_writer \<Rightarrow> bit_writer" where
  "write_bits v bits w = (let (bits, w) = write_partial (min 64 bits) v w; (bits, w) = write_whole bits v w in write_rest bits v w)"

definition bwr_flusher :: "bit_writer \<Rightarrow> bit_writer" where
  "bwr_flusher w = (if bwr_offset w \<noteq> 0 then bwr_unload w else w)"

section \<open>What a reader has left\<close>

definition reader_bits :: "bit_reader \<Rightarrow> bool list" where
  "reader_bits r = drop (brd_offset r) (word_bits 8 (brd_byte r)) @ bits_of (window (brd_source r))"

definition live :: "bit_reader \<Rightarrow> bool" where
  "live r \<longleftrightarrow> ready (brd_source r) \<and> brd_offset r \<le> 8"

definition past_end :: "bit_reader \<Rightarrow> bool" where
  "past_end r \<longleftrightarrow> \<not> rgood (brd_source r) \<and> brd_byte r = 0 \<and> brd_offset r \<le> 8"

lemma new_reader_bits: "reader_bits (new_bit_reader (reader_of bs)) = bits_of bs" if "length bs \<le> max_size_t"
proof -
  have "window (reader_of bs) = bs"
    using that by (simp add: window_def reader_of_def unat_of_nat limits)
  then show ?thesis by (simp add: reader_bits_def new_bit_reader_def)
qed

lemma new_reader_live: "live (new_bit_reader (reader_of bs))"
  by (simp add: live_def new_bit_reader_def ready_def reader_of_def)

lemma drop_word_bits: "k < 8 \<Longrightarrow> drop k (word_bits 8 b) = get_left b k # drop (Suc k) (word_bits 8 (b :: byte))"
  using Cons_nth_drop_Suc [of k "word_bits 8 b"] by (simp add: get_left_def)

lemma load_live:
  assumes "ready source" "window source = x # xs"
  shows "do_read_bytes 1 source = ([x], advance 1 source)" "window (advance 1 source) = xs" "ready (advance 1 source)"
  using assms do_read_bytes_window [of source 1] window_advance [of 1 source] ready_advance [of source 1] by simp_all

lemma load_short:
  assumes "\<not> rgood source \<or> (ready source \<and> window source = [])"
  shows "fst (do_read_bytes 1 source) = [0] \<and> \<not> rgood (snd (do_read_bytes 1 source))"
  using assms by (auto simp: do_read_bytes_def limiter_def istream_read_def ready_def window_def invalidate_def Let_def)

lemma read_bit_live:
  assumes "live r" "reader_bits r = b # rest"
  shows "fst (read_bit r) = b" "live (snd (read_bit r))" "reader_bits (snd (read_bit r)) = rest"
proof -
  have "fst (read_bit r) = b \<and> live (snd (read_bit r)) \<and> reader_bits (snd (read_bit r)) = rest"
  proof (cases "brd_offset r = 8")
    case True
    then have bits: "bits_of (window (brd_source r)) = b # rest" using assms(2) by (simp add: reader_bits_def)
    then obtain x xs where w: "window (brd_source r) = x # xs" by (cases "window (brd_source r)") auto
    with assms(1) load_live [OF _ w] have l: "do_read_bytes 1 (brd_source r) = ([x], advance 1 (brd_source r))"
        "window (advance 1 (brd_source r)) = xs" "ready (advance 1 (brd_source r))" by (simp_all add: live_def)
    have "word_bits 8 x @ bits_of xs = b # rest" using bits w by simp
    moreover have "word_bits 8 x = get_left x 0 # drop 1 (word_bits 8 x)" using drop_word_bits [of 0 x] by simp
    ultimately have "b = get_left x 0" "rest = drop 1 (word_bits 8 x) @ bits_of xs" by (metis append_Cons list.inject)+
    with True l show ?thesis by (simp add: read_bit_def brd_shift_def brd_load_def Let_def live_def reader_bits_def)
  next
    case False
    then have k: "brd_offset r < 8" using assms(1) by (simp add: live_def)
    with drop_word_bits [OF k, of "brd_byte r"] assms show ?thesis
      by (auto simp: read_bit_def brd_shift_def Let_def live_def reader_bits_def)
  qed
  then show "fst (read_bit r) = b" "live (snd (read_bit r))" "reader_bits (snd (read_bit r)) = rest" by auto
qed

lemma read_bit_end:
  assumes "past_end r \<or> (live r \<and> reader_bits r = [])"
  shows "fst (read_bit r) = False" "past_end (snd (read_bit r))"
proof -
  have "fst (read_bit r) = False \<and> past_end (snd (read_bit r))"
  proof (cases "brd_offset r = 8")
    case True
    then have "\<not> rgood (brd_source r) \<or> (ready (brd_source r) \<and> window (brd_source r) = [])"
      using assms by (auto simp: past_end_def live_def reader_bits_def dest: arg_cong [of _ _ length])
    from load_short [OF this] True show ?thesis
      by (auto simp: read_bit_def brd_shift_def brd_load_def Let_def past_end_def get_left_def case_prod_unfold)
  next
    case False
    then have "past_end r" using assms by (auto simp: live_def reader_bits_def past_end_def dest: arg_cong [of _ _ length])
    with False show ?thesis by (auto simp: read_bit_def brd_shift_def Let_def past_end_def get_left_def)
  qed
  then show "fst (read_bit r) = False" "past_end (snd (read_bit r))" by auto
qed

text \<open>Some bits of a list, with zeros past its end.\<close>

definition bits_take :: "nat \<Rightarrow> bool list \<Rightarrow> bool list" where
  "bits_take n bs = take n (bs @ replicate n False)"

lemma bits_take_simps [simp]: "bits_take 0 bs = []" "bits_take (Suc n) [] = False # bits_take n []"
    "bits_take (Suc n) (b # bs) = b # bits_take n bs"
  by (simp_all add: bits_take_def replicate_append_same [symmetric])

lemma length_bits_take [simp]: "length (bits_take n bs) = n"
  by (simp add: bits_take_def)

fun read_list :: "nat \<Rightarrow> bit_reader \<Rightarrow> bool list \<times> bit_reader" where
  "read_list 0 r = ([], r)"
| "read_list (Suc n) r = (let (v, r) = read_bit r; (vs, r) = read_list n r in (v # vs, r))"

lemma length_read_list [simp]: "length (fst (read_list n r)) = n"
  by (induction n arbitrary: r) (simp_all add: case_prod_unfold Let_def)

lemma read_list_past: "past_end r \<Longrightarrow> fst (read_list n r) = bits_take n [] \<and> past_end (snd (read_list n r))"
  using read_bit_end by (induction n arbitrary: r) (simp_all add: case_prod_unfold Let_def)

lemma read_list_live:
  "live r \<Longrightarrow> fst (read_list n r) = bits_take n (reader_bits r) \<and>
     (if n \<le> length (reader_bits r) then live (snd (read_list n r)) \<and> reader_bits (snd (read_list n r)) = drop n (reader_bits r)
      else past_end (snd (read_list n r)))"
proof (induction n arbitrary: r)
  case (Suc n)
  show ?case
  proof (cases "reader_bits r")
    case Nil
    with read_bit_end [of r] read_list_past [of "snd (read_bit r)" n] Suc.prems show ?thesis
      by (simp add: case_prod_unfold Let_def)
  next
    case (Cons b rest)
    with read_bit_live [OF Suc.prems Cons] Suc.IH [of "snd (read_bit r)"] show ?thesis
      by (simp add: case_prod_unfold Let_def)
  qed
qed simp

lemma read_bits_loop_list:
  assumes "n \<le> 64"
  shows "snd (read_bits_loop n out r) = snd (read_list n r) \<and>
    (\<forall>i < 64. bit (fst (read_bits_loop n out r)) i = (if i < n then fst (read_list n r) ! (n - 1 - i) else bit out i))"
  using assms
proof (induction n arbitrary: out r)
  case (Suc n)
  obtain v q where v: "read_bit r = (v, q)" by fastforce
  let ?out = "if v then Bit_Operations.set_bit n out else unset_bit n out"
  have "bit ?out i = (if i = n then v else bit out i)" if "i < 64" for i
    using that Suc.prems by (auto simp: bit_simps)
  with Suc.IH [of ?out q] Suc.prems v show ?case
    by (auto simp: case_prod_unfold Let_def nth_Cons' less_Suc_eq)
qed simp

lemma read_bits_list:
  assumes "n \<le> 64"
  shows "word_bits n (fst (read_bits n r)) = fst (read_list n r)" "snd (read_bits n r) = snd (read_list n r)"
    "\<forall>i. n \<le> i \<longrightarrow> \<not> bit (fst (read_bits n r)) i"
proof -
  note l = read_bits_loop_list [OF assms, of 0 r]
  show "word_bits n (fst (read_bits n r)) = fst (read_list n r)"
    using l assms by (intro nth_equalityI) (auto simp: read_bits_def min_absorb2)
  show "snd (read_bits n r) = snd (read_list n r)" using l assms by (simp add: read_bits_def min_absorb2)
  show "\<forall>i. n \<le> i \<longrightarrow> \<not> bit (fst (read_bits n r)) i"
  proof (intro allI impI)
    fix i assume "n \<le> i"
    then show "\<not> bit (fst (read_bits n r)) i"
      using l assms impossible_bit [of i "fst (read_bits n r)"] by (cases "i < 64") (auto simp: read_bits_def min_absorb2)
  qed
qed

lemma exhausted_iff: "live r \<Longrightarrow> brd_exhausted r \<longleftrightarrow> reader_bits r = []" "past_end r \<Longrightarrow> brd_exhausted r"
  using get_exhausted_window [of "brd_source r"]
  by (auto simp: brd_exhausted_def live_def past_end_def reader_bits_def brd_shift_def ready_def dest: arg_cong [of _ _ length])

section \<open>What a writer was given\<close>

definition writer_bits :: "bit_writer \<Rightarrow> bool list" where
  "writer_bits w = bits_of (bwr_sink w) @ take (bwr_offset w) (word_bits 8 (bwr_byte w))"

definition writer_ok :: "bit_writer \<Rightarrow> bool" where
  "writer_ok w \<longleftrightarrow> bwr_offset w < 8 \<and> drop (bwr_offset w) (word_bits 8 (bwr_byte w)) = replicate (8 - bwr_offset w) False"

lemma new_writer: "writer_bits new_bit_writer = []" "writer_ok new_bit_writer"
  by (simp_all add: writer_bits_def writer_ok_def new_bit_writer_def)

lemma set_left_bits: "k < 8 \<Longrightarrow> word_bits 8 (set_left b k v) = (word_bits 8 b)[k := v]"
  by (intro nth_equalityI) (auto simp: set_left_def nth_list_update bit_simps)

lemma write_bit_bits:
  assumes "writer_ok w"
  shows "writer_bits (write_bit v w) = writer_bits w @ [v]" "writer_ok (write_bit v w)"
proof -
  let ?o = "bwr_offset w" let ?b = "set_left (bwr_byte w) ?o v"
  have k: "?o < 8" using assms by (simp add: writer_ok_def)
  have bits: "take (Suc ?o) (word_bits 8 ?b) = take ?o (word_bits 8 (bwr_byte w)) @ [v]"
    using k by (simp add: set_left_bits take_Suc_conv_app_nth)
  have "drop (Suc ?o) (word_bits 8 ?b) = drop (Suc ?o) (word_bits 8 (bwr_byte w))" using k by (simp add: set_left_bits)
  also have "\<dots> = drop 1 (drop ?o (word_bits 8 (bwr_byte w)))" by simp
  also have "\<dots> = replicate (8 - Suc ?o) False" using assms by (simp add: writer_ok_def)
  finally have rest: "drop (Suc ?o) (word_bits 8 ?b) = replicate (8 - Suc ?o) False" .
  have "writer_bits (write_bit v w) = writer_bits w @ [v] \<and> writer_ok (write_bit v w)"
  proof (cases "?o = 7")
    case True
    then have "word_bits 8 ?b = take 7 (word_bits 8 (bwr_byte w)) @ [v]" using bits by simp
    with True show ?thesis by (simp add: write_bit_def bwr_shift_def bwr_unload_def writer_bits_def writer_ok_def Let_def)
  next
    case False
    then have "Suc ?o < 8" using k by simp
    with bits rest show ?thesis by (simp add: write_bit_def bwr_shift_def writer_bits_def writer_ok_def Let_def)
  qed
  then show "writer_bits (write_bit v w) = writer_bits w @ [v]" "writer_ok (write_bit v w)" by simp_all
qed

lemma write_rest_bits:
  "writer_ok w \<Longrightarrow> writer_bits (write_rest n v w) = writer_bits w @ word_bits n v \<and> writer_ok (write_rest n v w)"
  using write_bit_bits by (induction n arbitrary: w) (simp_all add: word_bits_Suc)

lemma write_partial_bits:
  assumes "writer_ok w"
  shows "\<exists>m u. write_partial n v w = (m, u) \<and> m \<le> n \<and> writer_ok u \<and> (m = 0 \<or> bwr_offset u = 0) \<and>
    writer_bits u @ word_bits m v = writer_bits w @ word_bits n v"
  using assms
proof (induction n arbitrary: w)
  case (Suc n)
  show ?case
  proof (cases "bwr_offset w = 0")
    case False
    from Suc.IH [OF write_bit_bits(2) [OF Suc.prems], of "bit v n"] write_bit_bits(1) [OF Suc.prems, of "bit v n"] False
    show ?thesis by (auto simp: word_bits_Suc)
  qed (use Suc.prems in simp)
qed simp

lemma write_whole_bits:
  assumes "writer_ok w" "n = 0 \<or> bwr_offset w = 0" "n \<le> 64"
  shows "\<exists>m u. write_whole n v w = (m, u) \<and> writer_ok u \<and> writer_bits u @ word_bits m v = writer_bits w @ word_bits n v"
  using assms
proof (induction n arbitrary: w rule: less_induct)
  case (less n)
  show ?case
  proof (cases "n \<ge> 8")
    case True
    let ?u = "w\<lparr>bwr_sink := bwr_sink w @ [ucast (drop_bit (n - 8) v)]\<rparr>"
    have "writer_ok ?u" "bwr_offset ?u = 0" using less.prems True by (simp_all add: writer_ok_def)
    then obtain m u where u: "write_whole (n - 8) v ?u = (m, u)" "writer_ok u" "writer_bits u @ word_bits m v = writer_bits ?u @ word_bits (n - 8) v"
      using less.IH [of "n - 8" ?u] True less.prems(3) by fastforce
    have "word_bits n v = word_bits 8 (drop_bit (n - 8) v) @ word_bits (n - 8) v"
      using word_bits_append [of 8 "n - 8" v] True by simp
    moreover have "word_bits 8 (ucast (drop_bit (n - 8) v) :: byte) = word_bits 8 (drop_bit (n - 8) v)"
      by (rule word_bits_ucast) simp
    ultimately have "writer_bits ?u @ word_bits (n - 8) v = writer_bits w @ word_bits n v"
      using less.prems True by (auto simp: writer_bits_def)
    with u True show ?thesis by (simp add: write_whole.simps [of n])
  next
    case False
    then show ?thesis using less.prems by (simp add: write_whole.simps [of n])
  qed
qed

theorem write_bits_bits:
  assumes "writer_ok w" "n \<le> 64"
  shows "writer_bits (write_bits v n w) = writer_bits w @ word_bits n v" "writer_ok (write_bits v n w)"
proof -
  obtain m u where 1: "write_partial n v w = (m, u)" "m \<le> n" "writer_ok u" "m = 0 \<or> bwr_offset u = 0"
      "writer_bits u @ word_bits m v = writer_bits w @ word_bits n v" using write_partial_bits [OF assms(1), of n v] by auto
  obtain k x where 2: "write_whole m v u = (k, x)" "writer_ok x" "writer_bits x @ word_bits k v = writer_bits u @ word_bits m v"
    using write_whole_bits [OF 1(3,4), of v] 1(2) assms(2) by auto
  from write_rest_bits [OF 2(2), of k v] 1 2 assms(2)
  show "writer_bits (write_bits v n w) = writer_bits w @ word_bits n v" "writer_ok (write_bits v n w)"
    by (simp_all add: write_bits_def min_absorb2)
qed

text \<open>A flush completes the byte with zeros.\<close>

lemma flusher_bits:
  assumes "writer_ok w"
  shows "bits_of (bwr_sink (bwr_flusher w)) = writer_bits w @ replicate ((8 - length (writer_bits w) mod 8) mod 8) False"
proof -
  have len: "length (writer_bits w) mod 8 = bwr_offset w" using assms by (simp add: writer_bits_def writer_ok_def)
  show ?thesis
  proof (cases "bwr_offset w = 0")
    case False
    have "word_bits 8 (bwr_byte w) = take (bwr_offset w) (word_bits 8 (bwr_byte w)) @ replicate (8 - bwr_offset w) False"
      using assms by (metis append_take_drop_id writer_ok_def)
    moreover have "(8 - length (writer_bits w) mod 8) mod 8 = 8 - bwr_offset w" unfolding len using False assms by (simp add: writer_ok_def)
    ultimately show ?thesis using False by (simp add: bwr_flusher_def bwr_unload_def) (simp add: writer_bits_def)
  qed (simp add: bwr_flusher_def writer_bits_def)
qed

lemma write_list_bits:
  assumes "writer_ok w" "n \<le> 64"
  shows "writer_bits (fold (\<lambda>v. write_bits v n) vs w) = writer_bits w @ concat (map (word_bits n) vs)"
    "writer_ok (fold (\<lambda>v. write_bits v n) vs w)"
proof -
  have "writer_bits (fold (\<lambda>v. write_bits v n) vs w) = writer_bits w @ concat (map (word_bits n) vs) \<and>
      writer_ok (fold (\<lambda>v. write_bits v n) vs w)"
    using assms(1) write_bits_bits [OF _ assms(2)] by (induction vs arbitrary: w) simp_all
  then show "writer_bits (fold (\<lambda>v. write_bits v n) vs w) = writer_bits w @ concat (map (word_bits n) vs)"
    "writer_ok (fold (\<lambda>v. write_bits v n) vs w)" by simp_all
qed

section \<open>Reading makes progress\<close>

definition brd_measure :: "bit_reader \<Rightarrow> nat" where
  "brd_measure r = (if rgood (brd_source r)
     then 1 + (8 - brd_offset r) + 8 * (length (rbuf (brd_source r)) - rpos (brd_source r)) else 0)"

lemma read_bit_measure:
  "brd_measure (snd (read_bit r)) < brd_measure r \<or> (brd_measure r = 0 \<and> brd_measure (snd (read_bit r)) = 0)"
  by (auto simp: read_bit_def brd_load_def brd_shift_def brd_measure_def do_read_bytes_def limiter_def istream_read_def invalidate_def
      Let_def)

lemma read_bits_loop_measure:
  "brd_measure (snd (read_bits_loop n out r)) \<le> brd_measure r \<and>
   (0 < n \<longrightarrow> 0 < brd_measure r \<longrightarrow> brd_measure (snd (read_bits_loop n out r)) < brd_measure r)"
proof (induction n arbitrary: out r)
  case (Suc n)
  let ?out = "if fst (read_bit r) then Bit_Operations.set_bit n out else unset_bit n out"
  have "read_bits_loop (Suc n) out r = read_bits_loop n ?out (snd (read_bit r))" by (simp add: case_prod_unfold Let_def)
  then show ?case using Suc.IH [of ?out "snd (read_bit r)"] read_bit_measure [of r] by (auto simp del: read_bits_loop.simps)
qed simp

lemma read_bits_measure: "\<not> brd_exhausted r \<Longrightarrow> 0 < n \<Longrightarrow> brd_measure (snd (read_bits n r)) < brd_measure r"
  using read_bits_loop_measure [of "min 64 n" 0 r] by (simp add: read_bits_def brd_exhausted_def brd_measure_def split: if_splits)

end
