(* ===== verification/Bech32.thy ===== *)
theory Bech32
  imports Bits
begin

text \<open>
  The base 32 of witness addresses (\<open>src/radix/base_32b.cpp\<close>), and the checksum over it
  (\<open>src/hash/checksum.cpp\<close>): bytes regrouped into values of five bits through the streams of bits,
  their characters, and a checksum that is linear over exclusive or.
\<close>

type_synonym base32b_chunk = "5 word list"

section \<open>Packing\<close>

definition base32b_pack :: "base32b_chunk \<Rightarrow> data_chunk" where
  "base32b_pack unpacked =
     (let packed = bwr_sink (bwr_flusher (fold (\<lambda>v. write_bits (ucast v) 5) unpacked new_bit_writer)) in
      if length unpacked * 5 mod 8 \<noteq> 0 then (if last packed = 0 then butlast packed else []) else packed)"

function base32b_loop :: "bit_reader \<Rightarrow> base32b_chunk" where
  "base32b_loop r = (if brd_exhausted r then [] else ucast (fst (read_bits 5 r)) # base32b_loop (snd (read_bits 5 r)))"
  by pat_completeness auto
termination by (relation "measure brd_measure") (auto simp: read_bits_measure)

declare base32b_loop.simps [simp del]

definition base32b_unpack :: "data_chunk \<Rightarrow> base32b_chunk" where
  "base32b_unpack packed = base32b_loop (new_bit_reader (reader_of packed))"

section \<open>Characters\<close>

definition base32b_encode :: string where
  "base32b_encode = ''qpzry9x8gf2tvdw0s3jn54khce6mua7l''"

definition base32b_decode :: "nat list" where
  "base32b_decode = replicate 48 0xff @
     [15, 0xff, 10, 17, 21, 20, 26, 30, 7, 5, 0xff, 0xff, 0xff, 0xff, 0xff, 0xff] @
     (let row = [0xff, 29, 0xff, 24, 13, 25, 9, 8, 23, 0xff, 18, 22, 31, 27, 19, 0xff,
       1, 0, 3, 16, 11, 28, 12, 14, 6, 4, 2, 0xff, 0xff, 0xff, 0xff, 0xff] in row @ row)"

definition encode_base32b :: "base32b_chunk \<Rightarrow> string" where
  "encode_base32b bs = map (\<lambda>v. base32b_encode ! unat v) bs"

definition encode_base32b_bytes :: "data_chunk \<Rightarrow> string" where
  "encode_base32b_bytes bs = encode_base32b (base32b_unpack bs)"

definition char_code :: "char \<Rightarrow> nat" where
  "char_code c = of_char c"

definition is_ascii_upper :: "char \<Rightarrow> bool" where
  "is_ascii_upper c \<longleftrightarrow> 65 \<le> char_code c \<and> char_code c \<le> 90"

definition is_ascii_lower :: "char \<Rightarrow> bool" where
  "is_ascii_lower c \<longleftrightarrow> 97 \<le> char_code c \<and> char_code c \<le> 122"

definition has_mixed_ascii_case :: "string \<Rightarrow> bool" where
  "has_mixed_ascii_case text \<longleftrightarrow> list_ex is_ascii_lower text \<and> list_ex is_ascii_upper text"

definition ascii_to_lower :: "string \<Rightarrow> string" where
  "ascii_to_lower text = map (\<lambda>c. if is_ascii_upper c then char_of (char_code c + 32) else c) text"

text \<open>
  The table of the decoder has 128 entries; a character above them is looked up past its end, which
  the model has as a result of its own.
\<close>

datatype base32b_error = Base32b_rejected | Base32b_out_of_bounds

fun decode_characters :: "string \<Rightarrow> base32b_error + base32b_chunk" where
  "decode_characters [] = Inr []"
| "decode_characters (c # cs) =
     (if char_code c \<ge> length base32b_decode then Inl Base32b_out_of_bounds
      else let v = base32b_decode ! char_code c in
        if v = 0xff then Inl Base32b_rejected
        else case decode_characters cs of Inl e \<Rightarrow> Inl e | Inr vs \<Rightarrow> Inr (word_of_nat v # vs))"

definition decode_base32b :: "string \<Rightarrow> base32b_error + base32b_chunk" where
  "decode_base32b text = (if has_mixed_ascii_case text then Inl Base32b_rejected else decode_characters text)"

definition decode_base32b_bytes :: "string \<Rightarrow> base32b_error + data_chunk" where
  "decode_base32b_bytes text = map_sum id base32b_pack (decode_base32b text)"

section \<open>Checksums\<close>

definition bech32_version_size :: nat where "bech32_version_size = 1"
definition bech32_checksum_size :: nat where "bech32_checksum_size = 6"
definition bech32_checksum_constant :: "32 word" where "bech32_checksum_constant = 0x00000001"
definition bech32m_checksum_constant :: "32 word" where "bech32m_checksum_constant = 0x2bc830a3"

datatype checksum_constant = Bech32 | Bech32m

definition to_bech32_constant :: "checksum_constant \<Rightarrow> 32 word" where
  "to_bech32_constant constant = (if constant = Bech32m then bech32m_checksum_constant else bech32_checksum_constant)"

definition bech32_witness_constant :: "byte \<Rightarrow> checksum_constant" where
  "bech32_witness_constant version = (if version = 0 then Bech32 else Bech32m)"

text \<open>Characters are signed, as on the supported platforms; a prefix is plain ASCII.\<close>

definition bech32_expand_prefix :: "string \<Rightarrow> base32b_chunk" where
  "bech32_expand_prefix prefix = (let characters = map (\<lambda>c. of_char c :: byte) (ascii_to_lower prefix) in
     map (\<lambda>c. ucast (signed_drop_bit 5 c)) characters @ [0] @ map (\<lambda>c. ucast c) characters)"

definition bech32_expand_checksum :: "32 word \<Rightarrow> base32b_chunk" where
  "bech32_expand_checksum checksum = [ucast (drop_bit 25 checksum), ucast (drop_bit 20 checksum), ucast (drop_bit 15 checksum),
     ucast (drop_bit 10 checksum), ucast (drop_bit 5 checksum), ucast (drop_bit 0 checksum)]"

definition bech32_step :: "5 word \<Rightarrow> 32 word \<Rightarrow> 32 word" where
  "bech32_step v checksum =
     (let coeficient = drop_bit 25 checksum;
          checksum = push_bit 5 (checksum AND 0x01ffffff) XOR ucast v;
          checksum = (if coeficient AND 0x01 \<noteq> 0 then checksum XOR 0x3b6a57b2 else checksum);
          checksum = (if coeficient AND 0x02 \<noteq> 0 then checksum XOR 0x26508e6d else checksum);
          checksum = (if coeficient AND 0x04 \<noteq> 0 then checksum XOR 0x1ea119fa else checksum);
          checksum = (if coeficient AND 0x08 \<noteq> 0 then checksum XOR 0x3d4233dd else checksum);
          checksum = (if coeficient AND 0x10 \<noteq> 0 then checksum XOR 0x2a1462b3 else checksum)
      in checksum)"

definition bech32_checksum :: "base32b_chunk \<Rightarrow> 32 word" where
  "bech32_checksum bs = fold bech32_step bs 1"

definition bech32_append_checksum :: "base32b_chunk \<Rightarrow> string \<Rightarrow> 32 word \<Rightarrow> base32b_chunk" where
  "bech32_append_checksum bs prefix constant =
     (let prefixed = (bech32_expand_prefix prefix @ bs) @ replicate bech32_checksum_size 0;
          checksum = bech32_checksum prefixed XOR constant
      in bs @ bech32_expand_checksum checksum)"

definition bech32_verify_checksum :: "base32b_chunk \<Rightarrow> string \<Rightarrow> 32 word \<Rightarrow> bool" where
  "bech32_verify_checksum checked prefix constant \<longleftrightarrow> bech32_checksum (bech32_expand_prefix prefix @ checked) = constant"

definition bech32_build_checked_constant :: "byte \<Rightarrow> data_chunk \<Rightarrow> string \<Rightarrow> checksum_constant \<Rightarrow> base32b_chunk" where
  "bech32_build_checked_constant version program prefix constant =
     (if unat version \<ge> 2 ^ 5 then []
      else bech32_append_checksum (ucast version # base32b_unpack program) prefix (to_bech32_constant constant))"

definition bech32_build_checked :: "byte \<Rightarrow> data_chunk \<Rightarrow> string \<Rightarrow> base32b_chunk" where
  "bech32_build_checked version program prefix =
     bech32_build_checked_constant version program prefix (bech32_witness_constant version)"

definition bech32_extract_checked :: "base32b_chunk \<Rightarrow> (byte \<times> data_chunk) option" where
  "bech32_extract_checked checked =
     (if length checked < bech32_version_size + bech32_checksum_size then None
      else Some (ucast (hd checked),
        base32b_pack (take (length checked - bech32_version_size - bech32_checksum_size) (drop bech32_version_size checked))))"

definition bech32_verify_checked :: "string \<Rightarrow> base32b_chunk \<Rightarrow> (byte \<times> data_chunk) option" where
  "bech32_verify_checked prefix checked = (case bech32_extract_checked checked of None \<Rightarrow> None
     | Some (version, program) \<Rightarrow>
         if bech32_verify_checksum checked prefix (to_bech32_constant (bech32_witness_constant version))
         then Some (version, program) else None)"

definition bech32_verify_checked_constant :: "string \<Rightarrow> base32b_chunk \<Rightarrow> checksum_constant \<Rightarrow> (byte \<times> data_chunk) option" where
  "bech32_verify_checked_constant prefix checked constant = (case bech32_extract_checked checked of None \<Rightarrow> None
     | Some result \<Rightarrow>
         if bech32_verify_checksum checked prefix (to_bech32_constant constant) then Some result else None)"

section \<open>Packing and unpacking\<close>

lemma pack_bits:
  fixes vs :: base32b_chunk
  shows "bits_of (bwr_sink (bwr_flusher (fold (\<lambda>v. write_bits (ucast v) 5) vs new_bit_writer))) =
     concat (map (word_bits 5) vs) @ replicate ((8 - 5 * length vs mod 8) mod 8) False"
proof -
  have w: "word_bits 5 (ucast v :: u64) = word_bits 5 v" for v :: "5 word" by (rule word_bits_ucast) simp
  let ?w = "fold (\<lambda>v. write_bits v 5) (map ucast vs :: u64 list) new_bit_writer"
  have "fold (\<lambda>v. write_bits (ucast v) 5) vs new_bit_writer = ?w" by (simp add: fold_map comp_def)
  moreover have "writer_bits ?w = concat (map (word_bits 5) vs)" "writer_ok ?w"
    using write_list_bits [OF new_writer(2), of 5 "map ucast vs"] by (simp_all add: new_writer comp_def w)
  moreover have "length (concat (map (word_bits 5) vs)) = 5 * length vs"
    by (simp add: length_concat comp_def sum_list_triv)
  ultimately show ?thesis using flusher_bits [of ?w] by simp
qed

lemma loop_bits:
  assumes "live r"
  shows "concat (map (word_bits 5) (base32b_loop r)) = reader_bits r @ replicate ((5 - length (reader_bits r) mod 5) mod 5) False"
  using assms
proof (induction "length (reader_bits r)" arbitrary: r rule: less_induct)
  case less
  show ?case
  proof (cases "reader_bits r = []")
    case True
    with exhausted_iff(1) [OF less.prems] show ?thesis by (simp add: base32b_loop.simps [of r])
  next
    case False
    let ?bs = "reader_bits r" and ?v = "fst (read_bits 5 r)" and ?q = "snd (read_bits 5 r)"
    have loop: "base32b_loop r = ucast ?v # base32b_loop ?q"
      using False exhausted_iff(1) [OF less.prems] by (simp add: base32b_loop.simps [of r])
    have v: "word_bits 5 (ucast ?v :: 5 word) = bits_take 5 ?bs"
      using read_bits_list(1) [of 5 r] read_list_live [OF less.prems, of 5] word_bits_ucast [of 5 ?v, where 'v = 5] by simp
    show ?thesis
    proof (cases "5 \<le> length ?bs")
      case True
      then have q: "live ?q" "reader_bits ?q = drop 5 ?bs"
        using read_bits_list(2) [of 5 r] read_list_live [OF less.prems, of 5] by simp_all
      have "(length ?bs - 5) mod 5 = length ?bs mod 5" using True by (simp add: le_mod_geq [symmetric])
      with less.hyps [of ?q] q True v loop show ?thesis by (simp add: bits_take_def append_assoc [symmetric] del: append_assoc)
    next
      case short: False
      then have "past_end ?q" using read_bits_list(2) [of 5 r] read_list_live [OF less.prems, of 5] by simp
      then have "base32b_loop ?q = []" using exhausted_iff(2) by (simp add: base32b_loop.simps [of ?q])
      moreover have "(5 - length ?bs mod 5) mod 5 = 5 - length ?bs" using short False by simp
      ultimately show ?thesis using v loop short by (simp add: bits_take_def)
    qed
  qed
qed

lemma unpack_bits:
  assumes "length bs \<le> max_size_t"
  shows "concat (map (word_bits 5) (base32b_unpack bs)) = bits_of bs @ replicate ((5 - 8 * length bs mod 5) mod 5) False"
  using loop_bits [OF new_reader_live, of bs] new_reader_bits [OF assms] by (simp add: base32b_unpack_def)

lemma pack_unpack:
  assumes "length bs \<le> max_size_t"
  shows "base32b_pack (base32b_unpack bs) = bs"
proof -
  let ?us = "base32b_unpack bs" and ?n = "length bs"
  let ?k = "(5 - 8 * ?n mod 5) mod 5"
  let ?sink = "bwr_sink (bwr_flusher (fold (\<lambda>v. write_bits (ucast v) 5) ?us new_bit_writer))"
  have "length (concat (map (word_bits 5) ?us)) = 8 * ?n + ?k" by (simp add: unpack_bits [OF assms])
  then have len: "5 * length ?us = 8 * ?n + ?k" by (simp add: length_concat comp_def sum_list_triv mult.commute)
  have "bits_of ?sink = (bits_of bs @ replicate ?k False) @ replicate ((8 - 5 * length ?us mod 8) mod 8) False"
    using pack_bits [of ?us] unpack_bits [OF assms] by simp
  moreover have mod: "5 * length ?us mod 8 = ?k" using len by simp
  ultimately have bits: "bits_of ?sink = bits_of bs @ replicate (?k + (8 - ?k) mod 8) False"
    by (simp add: replicate_add)
  show ?thesis
  proof (cases "?k = 0")
    case True
    then have "bits_of ?sink = bits_of bs" using bits by simp
    with True mod show ?thesis by (simp add: base32b_pack_def bits_of_inject mult.commute)
  next
    case False
    then have "?k + (8 - ?k) mod 8 = 8" by simp
    then have "bits_of ?sink = bits_of (bs @ [0])" using bits by simp
    then have "?sink = bs @ [0]" by (simp only: bits_of_inject)
    with False mod show ?thesis by (simp add: base32b_pack_def mult.commute)
  qed
qed

section \<open>The checksum is linear\<close>

definition bech32_generator :: "32 word \<Rightarrow> 32 word" where
  "bech32_generator c = (if bit c 25 then 0x3b6a57b2 else 0) XOR (if bit c 26 then 0x26508e6d else 0) XOR
     (if bit c 27 then 0x1ea119fa else 0) XOR (if bit c 28 then 0x3d4233dd else 0) XOR (if bit c 29 then 0x2a1462b3 else 0)"

lemma low_bit: "drop_bit n (c :: 32 word) AND 2 ^ k \<noteq> 0 \<longleftrightarrow> bit c (n + k)" if "n + k < 32"
proof -
  have "drop_bit n c AND 2 ^ k = (if bit c (n + k) then 2 ^ k else 0)"
    using that by (intro bit_word_eqI) (auto simp: bit_simps)
  moreover have "(2 :: 32 word) ^ k \<noteq> 0" using that by simp
  ultimately show ?thesis by simp
qed

lemma coefficient_bits:
  "drop_bit 25 (c :: 32 word) AND 0x01 \<noteq> 0 \<longleftrightarrow> bit c 25" "drop_bit 25 c AND 0x02 \<noteq> 0 \<longleftrightarrow> bit c 26"
  "drop_bit 25 c AND 0x04 \<noteq> 0 \<longleftrightarrow> bit c 27" "drop_bit 25 c AND 0x08 \<noteq> 0 \<longleftrightarrow> bit c 28"
  "drop_bit 25 c AND 0x10 \<noteq> 0 \<longleftrightarrow> bit c 29"
  using low_bit [of 25 0 c] low_bit [of 25 1 c] low_bit [of 25 2 c] low_bit [of 25 3 c] low_bit [of 25 4 c] by simp_all

lemma conditional_xor: "(if b then c XOR g else c) = c XOR (if b then g else (0 :: 32 word))"
  by simp

lemma step_generator: "bech32_step v c = (push_bit 5 (c AND 0x01ffffff) XOR ucast v) XOR bech32_generator c"
  unfolding bech32_step_def Let_def coefficient_bits bech32_generator_def conditional_xor xor.assoc ..

lemma generator_xor: "bech32_generator (c XOR d) = bech32_generator c XOR bech32_generator d"
proof -
  have "(if bit (c XOR d) i then g else 0) = (if bit c i then g else 0) XOR (if bit d i then g else 0)" for i and g :: "32 word"
    by (auto simp: bit_simps)
  then show ?thesis unfolding bech32_generator_def by (simp only: xor.assoc xor.commute xor.left_commute)
qed

lemma step_xor: "bech32_step (v XOR w) (c XOR d) = bech32_step v c XOR bech32_step w d"
proof -
  have "push_bit 5 ((c XOR d) AND 0x01ffffff) = push_bit 5 (c AND 0x01ffffff) XOR push_bit 5 (d AND 0x01ffffff)"
    by (intro bit_word_eqI) (auto simp: bit_simps)
  moreover have "ucast (v XOR w) = (ucast v XOR ucast w :: 32 word)" by (intro bit_word_eqI) (auto simp: bit_simps)
  ultimately show ?thesis unfolding step_generator generator_xor by (simp only: xor.assoc xor.commute xor.left_commute)
qed

lemma fold_step_xor: "length vs = length ws \<Longrightarrow>
    fold bech32_step (map2 (XOR) vs ws) (c XOR d) = fold bech32_step vs c XOR fold bech32_step ws d"
  by (induction vs ws arbitrary: c d rule: list_induct2) (simp_all add: step_xor)

text \<open>Below 25 bits a step only shifts.\<close>

lemma step_small:
  assumes "\<And>i. 25 \<le> i \<Longrightarrow> \<not> bit c i"
  shows "bech32_step v c = push_bit 5 c XOR ucast v"
proof -
  have "c AND 0x01ffffff = take_bit 25 c" by (simp add: take_bit_eq_mask mask_eq_exp_minus_1)
  moreover have "take_bit 25 c = c" using assms by (intro bit_word_eqI) (auto simp: bit_simps not_less [symmetric])
  moreover have "bech32_generator c = 0" using assms by (simp add: bech32_generator_def)
  ultimately show ?thesis by (simp add: step_generator)
qed

definition high_bits :: "nat \<Rightarrow> 32 word \<Rightarrow> 32 word" where
  "high_bits k x = drop_bit (30 - 5 * k) x"

lemma step_high:
  assumes "k < 6" "\<And>i. 30 \<le> i \<Longrightarrow> \<not> bit x i"
  shows "bech32_step (ucast (drop_bit (25 - 5 * k) x)) (high_bits k x) = high_bits (Suc k) x"
proof -
  have "\<not> bit (high_bits k x) i" if "25 \<le> i" for i
    using that assms by (simp add: high_bits_def bit_simps)
  then have "bech32_step (ucast (drop_bit (25 - 5 * k) x)) (high_bits k x) =
      push_bit 5 (high_bits k x) XOR ucast (ucast (drop_bit (25 - 5 * k) x) :: 5 word)" by (rule step_small)
  also have "\<dots> = high_bits (Suc k) x"
  proof (intro bit_word_eqI)
    fix i assume i: "i < LENGTH(32)"
    have "30 - 5 * k + (i - 5) = 25 - 5 * k + i" if "5 \<le> i" using that assms(1) by simp
    moreover have "30 - 5 * Suc k = 25 - 5 * k" by simp
    moreover have "\<not> bit x (25 - 5 * k + i)" if "32 \<le> 25 - 5 * k + i" using that by (simp add: impossible_bit)
    ultimately show "bit (push_bit 5 (high_bits k x) XOR ucast (ucast (drop_bit (25 - 5 * k) x) :: 5 word)) i = bit (high_bits (Suc k) x) i"
      using i by (cases "5 \<le> i") (auto simp: high_bits_def bit_simps)
  qed
  finally show ?thesis .
qed

lemma fold_expanded:
  assumes "\<And>i. 30 \<le> i \<Longrightarrow> \<not> bit x i"
  shows "fold bech32_step (bech32_expand_checksum x) 0 = x"
proof -
  have "high_bits 0 x = 0" using assms by (intro bit_word_eqI) (auto simp: high_bits_def bit_simps)
  moreover have "high_bits 6 x = x" by (simp add: high_bits_def)
  ultimately show ?thesis
    using step_high [of 0 x] step_high [of 1 x] step_high [of 2 x] step_high [of 3 x] step_high [of 4 x] step_high [of 5 x] assms
    by (simp add: bech32_expand_checksum_def eval_nat_numeral)
qed

lemma step_bound: "30 \<le> i \<Longrightarrow> \<not> bit (bech32_step v c) i"
proof -
  assume i: "30 \<le> i"
  have const: "\<not> bit (g :: 32 word) i" if "take_bit 30 g = g" for g
    using that i by (metis bit_take_bit_iff linorder_not_less)
  have "\<not> bit (bech32_generator c) i" by (simp add: bech32_generator_def bit_xor_iff const)
  moreover have "\<not> bit (push_bit 5 (c AND 0x01ffffff)) i"
  proof -
    have "c AND 0x01ffffff = take_bit 25 c" by (simp add: take_bit_eq_mask mask_eq_exp_minus_1)
    moreover have "\<not> i - 5 < 25" using i by linarith
    ultimately show ?thesis by (simp add: bit_push_bit_iff bit_take_bit_iff)
  qed
  moreover have "\<not> bit (ucast v :: 32 word) i" using i by (simp add: bit_simps impossible_bit)
  ultimately show ?thesis by (simp add: step_generator bit_xor_iff)
qed

theorem append_verifies:
  assumes "\<And>i. 30 \<le> i \<Longrightarrow> \<not> bit constant i"
  shows "bech32_verify_checksum (bech32_append_checksum bs prefix constant) prefix constant"
proof -
  let ?p = "bech32_expand_prefix prefix @ bs" let ?c = "fold bech32_step ?p 1"
  let ?x = "fold bech32_step (replicate 6 0) ?c XOR constant" let ?es = "bech32_expand_checksum ?x"
  have "fold bech32_step (replicate 6 0) ?c = bech32_step 0 (fold bech32_step (replicate 5 0) ?c)"
    by (simp add: eval_nat_numeral)
  then have x: "\<And>i. 30 \<le> i \<Longrightarrow> \<not> bit ?x i" using step_bound assms by (simp add: bit_xor_iff)
  have len: "length ?es = 6" by (simp add: bech32_expand_checksum_def)
  then have "?es = map2 (XOR) (replicate 6 0) ?es" by (intro nth_equalityI) simp_all
  then have "fold bech32_step ?es ?c = fold bech32_step (map2 (XOR) (replicate 6 0) ?es) (?c XOR 0)" by simp
  also have "\<dots> = fold bech32_step (replicate 6 0) ?c XOR fold bech32_step ?es 0" using len by (intro fold_step_xor) simp
  also have "fold bech32_step ?es 0 = ?x" by (rule fold_expanded [OF x])
  also have "fold bech32_step (replicate 6 0) ?c XOR ?x = constant" by (simp add: xor.assoc [symmetric])
  finally have "fold bech32_step ?es ?c = constant" .
  then show ?thesis
    by (simp add: bech32_verify_checksum_def bech32_append_checksum_def bech32_checksum_def bech32_checksum_size_def Let_def)
qed

text \<open>A constant of thirty bits is met by the characters that were built for it.\<close>

lemma constant_bits: "30 \<le> i \<Longrightarrow> \<not> bit (to_bech32_constant constant) i"
proof -
  assume i: "30 \<le> i"
  have "take_bit 30 (to_bech32_constant constant) = to_bech32_constant constant"
    by (simp add: to_bech32_constant_def bech32_checksum_constant_def bech32m_checksum_constant_def)
  then show ?thesis using i by (metis bit_take_bit_iff linorder_not_less)
qed

text \<open>A built address payload verifies.\<close>
theorem bech32_roundtrip:
  assumes "unat version < 32" "length program \<le> max_size_t"
  shows "bech32_verify_checked prefix (bech32_build_checked version program prefix) = Some (version, program)"
proof -
  let ?k = "to_bech32_constant (bech32_witness_constant version)"
  let ?b = "bech32_append_checksum (ucast version # base32b_unpack program) prefix ?k"
  have version: "ucast (ucast version :: 5 word) = version"
  proof -
    have "unat (take_bit 5 version) = unat version" unfolding unsigned_take_bit_eq
      using assms(1) by (simp add: take_bit_eq_mod)
    then have "take_bit 5 version = version" by (rule unsigned_word_eqI)
    moreover have "ucast (ucast version :: 5 word) = take_bit 5 version" by (intro bit_word_eqI) (auto simp: bit_simps)
    ultimately show ?thesis by simp
  qed
  have sum: "length (bech32_expand_checksum c) = 6" for c by (simp add: bech32_expand_checksum_def)
  have build: "bech32_build_checked version program prefix = ?b"
    using assms(1) by (simp add: bech32_build_checked_def bech32_build_checked_constant_def)
  have "bech32_extract_checked ?b = Some (version, program)"
    by (simp add: bech32_extract_checked_def bech32_append_checksum_def Let_def bech32_version_size_def
        bech32_checksum_size_def sum version pack_unpack [OF assms(2)])
  moreover have "bech32_verify_checksum ?b prefix ?k" by (rule append_verifies) (rule constant_bits)
  ultimately show ?thesis by (simp add: bech32_verify_checked_def build)
qed

section \<open>Errors the checksum detects\<close>

lemma generator_low: "take_bit 5 (bech32_generator c) = 0 \<longleftrightarrow> (\<forall>i\<in>{25..<30}. \<not> bit c i)"
proof -
  have range: "{25..<30} = {25, 26, 27, 28, 29 :: nat}" by auto
  have low: "take_bit 5 (if b then g else 0) = (if b then take_bit 5 g else (0 :: 32 word))" for b g by simp
  have low_constants: "take_bit 5 (0x3b6a57b2 :: 32 word) = 0x12" "take_bit 5 (0x26508e6d :: 32 word) = 0x0d"
    "take_bit 5 (0x1ea119fa :: 32 word) = 0x1a" "take_bit 5 (0x3d4233dd :: 32 word) = 0x1d"
    "take_bit 5 (0x2a1462b3 :: 32 word) = 0x13" by simp_all
  have "take_bit 5 (bech32_generator c) = (if bit c 25 then 0x12 else 0) XOR (if bit c 26 then 0x0d else 0) XOR
      (if bit c 27 then 0x1a else 0) XOR (if bit c 28 then 0x1d else 0) XOR (if bit c 29 then 0x13 else 0)"
    by (simp only: bech32_generator_def take_bit_xor low low_constants)
  also have "(\<dots> = 0) = (\<forall>i\<in>{25, 26, 27, 28, 29}. \<not> bit c i)"
    by (cases "bit c 25"; cases "bit c 26"; cases "bit c 27"; cases "bit c 28"; cases "bit c 29") simp_all
  finally show ?thesis unfolding range .
qed

lemma xor_zero: "x XOR y = 0 \<Longrightarrow> y = (x :: 'a :: len word)"
proof -
  assume "x XOR y = 0"
  then have "x XOR (x XOR y) = x" by simp
  then show "y = x" by (simp add: xor.assoc [symmetric])
qed

lemma step_zero:
  assumes "bech32_step 0 c = 0" "\<And>i. 30 \<le> i \<Longrightarrow> \<not> bit c i"
  shows "c = 0"
proof -
  have step: "push_bit 5 (c AND 0x01ffffff) XOR bech32_generator c = 0" using assms(1) by (simp add: step_generator)
  have "take_bit 5 (push_bit 5 (c AND 0x01ffffff)) = 0" by (simp add: take_bit_push_bit)
  moreover have "bech32_generator c = push_bit 5 (c AND 0x01ffffff)" using step by (rule xor_zero)
  ultimately have "\<forall>i\<in>{25..<30}. \<not> bit c i" using generator_low by metis
  then have high: "\<not> bit c i" if "25 \<le> i" for i using assms(2) [of i] that by (cases "i < 30") auto
  then have "push_bit 5 c = 0" using step_small [of c 0] assms(1) by simp
  show ?thesis
  proof (intro bit_word_eqI)
    fix i assume "i < LENGTH(32)"
    show "bit c i = bit 0 i"
    proof (cases "25 \<le> i")
      case False
      have "bit (push_bit 5 c) (i + 5) = bit c i" using False by (simp add: bit_push_bit_iff)
      then show ?thesis by (simp add: \<open>push_bit 5 c = 0\<close>)
    qed (simp add: high)
  qed
qed

lemma zeros_zero: "fold bech32_step (replicate n 0) c = 0 \<Longrightarrow> (\<And>i. 30 \<le> i \<Longrightarrow> \<not> bit c i) \<Longrightarrow> c = 0"
proof (induction n arbitrary: c)
  case (Suc n)
  then have "bech32_step 0 c = 0" using step_bound by simp
  then show ?case using step_zero Suc.prems(2) by blast
qed simp

text \<open>Six values fill the register without overflowing it.\<close>

lemma fold_six: "length vs \<le> 6 \<Longrightarrow> (\<forall>i \<ge> 5 * length vs. \<not> bit (fold bech32_step vs 0) i) \<and>
    (fold bech32_step vs 0 = 0 \<longrightarrow> vs = replicate (length vs) 0)"
proof (induction vs rule: rev_induct)
  case (snoc v vs)
  let ?c = "fold bech32_step vs 0"
  have bits: "\<not> bit ?c i" if "5 * length vs \<le> i" for i using snoc that by simp
  have step: "bech32_step v ?c = push_bit 5 ?c XOR ucast v"
    using snoc.prems by (intro step_small bits) simp
  have "\<not> bit (push_bit 5 ?c XOR ucast v) i" if "5 * Suc (length vs) \<le> i" for i
    using that bits [of "i - 5"] by (auto simp: bit_simps impossible_bit)
  moreover have "vs @ [v] = replicate (Suc (length vs)) 0" if zero: "push_bit 5 ?c XOR ucast v = 0"
  proof -
    have at: "bit (push_bit 5 ?c XOR ucast v) i = False" for i using zero by simp
    have v: "v = 0"
    proof (intro bit_word_eqI)
      fix i assume "i < LENGTH(5)" then show "bit v i = bit 0 i" using at [of i] by (simp add: bit_simps)
    qed
    have "?c = 0"
    proof (intro bit_word_eqI)
      fix i assume "i < LENGTH(32)"
      show "bit ?c i = bit 0 i"
      proof (cases "i < 25")
        case True then show ?thesis using at [of "i + 5"] by (simp add: bit_simps v)
      next
        case False then show ?thesis using bits [of i] snoc.prems by simp
      qed
    qed
    then show ?thesis using snoc v by (metis append_Cons append_Nil length_append_singleton replicate_Suc replicate_append_same Suc_leD)
  qed
  ultimately show ?case by (simp add: step)
qed simp

lemma map2_xor_self: "map2 (XOR) xs xs = replicate (length xs) (0 :: 5 word)"
  by (induction xs) simp_all

lemma fold_bound: "30 \<le> i \<Longrightarrow> (\<And>j. 30 \<le> j \<Longrightarrow> \<not> bit c j) \<Longrightarrow> \<not> bit (fold bech32_step vs c) i"
  by (induction vs arbitrary: c) (simp_all add: step_bound)

text \<open>C36. An error within six neighbouring characters is always detected.\<close>
theorem bech32_detects_bursts:
  assumes "bech32_verify_checksum (before @ sent @ after) prefix constant"
    "bech32_verify_checksum (before @ received @ after) prefix constant"
    "length sent = length received" "length sent \<le> 6"
  shows "received = sent"
proof -
  let ?c = "fold bech32_step (bech32_expand_prefix prefix @ before) 1"
  let ?d = "map2 (XOR) sent received"
  have len: "length ?d = length sent" using assms(3) by simp
  have same: "fold bech32_step (sent @ after) ?c = fold bech32_step (received @ after) ?c"
    using assms(1,2) by (simp add: bech32_verify_checksum_def bech32_checksum_def)
  have "fold bech32_step (map2 (XOR) (sent @ after) (received @ after)) (?c XOR ?c) = 0"
    using fold_step_xor [of "sent @ after" "received @ after" ?c ?c] same assms(3) by simp
  then have "fold bech32_step (replicate (length after) 0) (fold bech32_step ?d 0) = 0"
    using assms(3) by (simp add: map2_xor_self)
  then have "fold bech32_step ?d 0 = 0" by (rule zeros_zero) (simp add: fold_bound)
  then have zero: "?d = replicate (length sent) 0" using fold_six [of ?d] len assms(4) by simp
  show ?thesis
  proof (intro nth_equalityI)
    fix i assume i: "i < length received"
    then have "?d ! i = sent ! i XOR received ! i" using assms(3) by simp
    then have "sent ! i XOR received ! i = 0" using zero i assms(3) by simp
    then show "received ! i = sent ! i" by (rule xor_zero)
  qed (simp add: assms(3))
qed

section \<open>Characters and back\<close>

lemma base32b_tables: "\<forall>v\<in>{0..<32}. char_code (base32b_encode ! v) < 128 \<and> base32b_decode ! char_code (base32b_encode ! v) = v \<and>
    \<not> is_ascii_upper (base32b_encode ! v)"
  by code_simp

lemma decode_table_length: "length base32b_decode = 128"
  by (simp add: base32b_decode_def)

lemma decode_encoded: "decode_characters (encode_base32b vs) = Inr vs"
proof (induction vs)
  case (Cons v vs)
  have "unat v < 32" using unsigned_less [of v] by simp
  then have "char_code (base32b_encode ! unat v) < 128" "base32b_decode ! char_code (base32b_encode ! unat v) = unat v"
    "unat v \<noteq> 0xff" using base32b_tables by auto
  then show ?case using Cons by (simp add: encode_base32b_def decode_table_length)
qed (simp add: encode_base32b_def)

lemma encoded_lower: "\<not> list_ex is_ascii_upper (encode_base32b vs)"
proof -
  have "unat v < 32" for v :: "5 word" using unsigned_less [of v] by simp
  then show ?thesis using base32b_tables by (auto simp: encode_base32b_def list_ex_iff)
qed

text \<open>Encoded bytes decode.\<close>
theorem base32b_roundtrip:
  assumes "length bs \<le> max_size_t"
  shows "decode_base32b_bytes (encode_base32b_bytes bs) = Inr bs"
  by (simp add: decode_base32b_bytes_def encode_base32b_bytes_def decode_base32b_def has_mixed_ascii_case_def
      encoded_lower decode_encoded pack_unpack [OF assms])

text \<open>A character above the table is read past its end.\<close>
theorem base32b_decode_out_of_bounds:
  assumes "128 \<le> char_code c" "\<not> has_mixed_ascii_case (encode_base32b vs @ c # text)"
  shows "decode_base32b (encode_base32b vs @ c # text) = Inl Base32b_out_of_bounds"
proof -
  have "decode_characters (encode_base32b vs @ c # text) = Inl Base32b_out_of_bounds"
  proof (induction vs)
    case Nil then show ?case using assms(1) by (simp add: encode_base32b_def decode_table_length)
  next
    case (Cons v vs)
    have "unat v < 32" using unsigned_less [of v] by simp
    then have "char_code (base32b_encode ! unat v) < 128" "base32b_decode ! char_code (base32b_encode ! unat v) = unat v"
      "unat v \<noteq> 0xff" using base32b_tables by auto
    then show ?case using Cons by (simp add: encode_base32b_def decode_table_length)
  qed
  then show ?thesis using assms(2) by (simp add: decode_base32b_def)
qed

section \<open>Witnesses\<close>

theorem bech32_roundtrip_witness: "bech32_verify_checked ''bc'' (bech32_build_checked 0 [0x75, 0x1e, 0x76] ''bc'') = Some (0, [0x75, 0x1e, 0x76])"
  by (rule bech32_roundtrip) (simp_all add: max_size_t_def)

theorem bech32_detects_bursts_witness:
  "bech32_verify_checksum (bech32_append_checksum [0, 1, 2] ''bc'' bech32_checksum_constant) ''bc'' bech32_checksum_constant
   \<and> \<not> bech32_verify_checksum ([0, 5, 2] @ drop 3 (bech32_append_checksum [0, 1, 2] ''bc'' bech32_checksum_constant))
       ''bc'' bech32_checksum_constant"
proof -
  let ?b = "bech32_append_checksum [0, 1, 2] ''bc'' bech32_checksum_constant"
  have b: "?b = [0, 1] @ [2] @ drop 3 ?b" "?b = [0] @ [1] @ [2] @ drop 3 ?b"
    by (simp_all add: bech32_append_checksum_def Let_def)
  have ok: "bech32_verify_checksum ?b ''bc'' bech32_checksum_constant"
    using append_verifies [of "to_bech32_constant Bech32"] constant_bits [of _ Bech32] by (simp add: to_bech32_constant_def)
  have "\<not> bech32_verify_checksum ([0] @ [5] @ [2] @ drop 3 ?b) ''bc'' bech32_checksum_constant"
    using bech32_detects_bursts [of "[0]" "[1]" "[2] @ drop 3 ?b" "''bc''" bech32_checksum_constant "[5]"] ok b(2) by auto
  then show ?thesis using ok by simp
qed

theorem base32b_roundtrip_witness: "decode_base32b_bytes (encode_base32b_bytes [0, 255, 7]) = Inr [0, 255, 7]"
  by (rule base32b_roundtrip) (simp add: max_size_t_def)

theorem base32b_decode_out_of_bounds_witness: "decode_base32b (encode_base32b [3, 4] @ [CHR 0xC3, CHR 0xA9]) = Inl Base32b_out_of_bounds"
  by (rule base32b_decode_out_of_bounds) code_simp+


end
