(* ===== verification/WitnessAddress.thy ===== *)
theory WitnessAddress
  imports Bech32 ScriptPatterns HashFunctions
begin

text \<open>
  Witness addresses (\<open>src/wallet/addresses/witness_address.cpp\<close>): a prefix, a separator, and the
  checked base 32 of a version and a program. Parsing is a function to a result of its own for every
  check of the code; an address that a factory returns prints to a text that parses to the same
  address, as long as it keeps the length limit, which the factories do not look at.
\<close>

record witness_address =
  wa_prefix :: string
  wa_version :: byte
  wa_program :: data_chunk

datatype parse_result = Prefix_not_ascii | Prefix_not_lower_case | Prefix_too_short | Prefix_too_long
  | Prefix_invalid_character | Prefix_unknown
  | Address_not_ascii | Address_mixed_case | Address_too_long | Prefix_missing | Payload_too_short
  | Payload_too_long | Payload_not_base32 | Checksum_invalid | Version_invalid | Program_unknown
  | Program_invalid | Parse_valid

datatype program_type = Version0_p2kh | Version0_p2sh | Version1_taproot | Program_type_unknown | Program_type_invalid

definition separator :: char where "separator = CHR ''1''"
definition version_maximum :: byte where "version_maximum = 16"
definition version_invalid :: byte where "version_invalid = 0xff"
definition wa_mainnet :: string where "wa_mainnet = ''bc''"
definition wa_testnet :: string where "wa_testnet = ''tb''"
definition prefix_minimum_character :: char where "prefix_minimum_character = CHR ''!''"
definition prefix_maximum_character :: char where "prefix_maximum_character = CHR ''~''"
definition prefix_minimum_length :: nat where "prefix_minimum_length = 1"
definition address_maximum_length :: nat where "address_maximum_length = 90"
definition program_minimum_length :: nat where "program_minimum_length = 4"
definition program_maximum_length :: nat where "program_maximum_length = 64"
definition program_minimum_size :: nat where "program_minimum_size = 2"
definition program_maximum_size :: nat where "program_maximum_size = 40"
definition version0_p2kh_program_size :: nat where "version0_p2kh_program_size = 20"
definition version0_p2sh_program_size :: nat where "version0_p2sh_program_size = 32"
definition version1_taproot_program_size :: nat where "version1_taproot_program_size = 32"
definition checksum_length :: nat where "checksum_length = 6"

definition invalid_address :: witness_address where
  "invalid_address = \<lparr>wa_prefix = [], wa_version = version_invalid, wa_program = []\<rparr>"

section \<open>Checks\<close>

definition is_ascii_character :: "char \<Rightarrow> bool" where
  "is_ascii_character c \<longleftrightarrow> char_code c < 128"

definition is_ascii :: "string \<Rightarrow> bool" where
  "is_ascii text \<longleftrightarrow> list_all is_ascii_character text"

definition is_valid_program :: "data_chunk \<Rightarrow> bool" where
  "is_valid_program program \<longleftrightarrow> program_minimum_size \<le> length program \<and> length program \<le> program_maximum_size"

definition is_valid_version :: "byte \<Rightarrow> bool" where
  "is_valid_version version \<longleftrightarrow> version \<le> version_maximum"

text \<open>The comparison is of signed characters; those above ASCII are below the minimum.\<close>

definition has_invalid_prefix_character :: "string \<Rightarrow> bool" where
  "has_invalid_prefix_character prefix \<longleftrightarrow> list_ex (\<lambda>c.
     sint (of_char c :: byte) < sint (of_char prefix_minimum_character :: byte) \<or>
     sint (of_char prefix_maximum_character :: byte) < sint (of_char c :: byte)) prefix"

definition parse_prefix :: "string \<Rightarrow> bool \<Rightarrow> parse_result" where
  "parse_prefix prefix strict =
     (if \<not> is_ascii prefix then Prefix_not_ascii
      else if ascii_to_lower prefix \<noteq> prefix then Prefix_not_lower_case
      else if length prefix < prefix_minimum_length then Prefix_too_short
      else if length prefix > address_maximum_length - 2 - program_minimum_length - checksum_length then Prefix_too_long
      else if has_invalid_prefix_character prefix then Prefix_invalid_character
      else if strict \<and> prefix \<noteq> wa_mainnet \<and> prefix \<noteq> wa_testnet then Prefix_unknown
      else Parse_valid)"

definition parse_program :: "byte \<Rightarrow> data_chunk \<Rightarrow> bool \<Rightarrow> program_type" where
  "parse_program version program strict =
     (if \<not> is_valid_version version \<or> \<not> is_valid_program program then Program_type_invalid
      else if version = 0 then
        (if length program = version0_p2kh_program_size then Version0_p2kh
         else if length program = version0_p2sh_program_size then Version0_p2sh
         else Program_type_invalid)
      else if version = 1 then
        (if length program = version1_taproot_program_size then Version1_taproot else Program_type_invalid)
      else if strict then Program_type_invalid else Program_type_unknown)"

fun last_index :: "char \<Rightarrow> string \<Rightarrow> nat option" where
  "last_index c [] = None"
| "last_index c (x # xs) = (case last_index c xs of Some n \<Rightarrow> Some (Suc n) | None \<Rightarrow> if x = c then Some 0 else None)"

text \<open>A lookup past the table of the decoder is a result of its own, which parsing never reaches.\<close>

datatype parse_outcome = Parsed witness_address | Failed parse_result | Parse_out_of_bounds

definition parse_address :: "string \<Rightarrow> bool \<Rightarrow> parse_outcome" where
  "parse_address address strict =
     (if \<not> is_ascii address then Failed Address_not_ascii
      else if has_mixed_ascii_case address then Failed Address_mixed_case
      else if length address > address_maximum_length then Failed Address_too_long
      else let lowered = ascii_to_lower address in
        case last_index separator lowered of None \<Rightarrow> Failed Prefix_missing
        | Some split \<Rightarrow>
            let prefix = take split lowered; payload = drop (split + 1) lowered; parse = parse_prefix prefix strict in
            if parse \<noteq> Parse_valid then Failed parse
            else if length payload < 1 + program_minimum_length + checksum_length then Failed Payload_too_short
            else if length payload > 1 + program_maximum_length + checksum_length then Failed Payload_too_long
            else case decode_base32b payload of
              Inl Base32b_out_of_bounds \<Rightarrow> Parse_out_of_bounds
            | Inl Base32b_rejected \<Rightarrow> Failed Payload_not_base32
            | Inr checked \<Rightarrow>
                (case bech32_verify_checked prefix checked of None \<Rightarrow> Failed Checksum_invalid
                 | Some (version, program) \<Rightarrow>
                     if \<not> is_valid_version version then Failed Version_invalid
                     else if parse_program version program strict = Program_type_invalid then Failed Program_invalid
                     else Parsed \<lparr>wa_prefix = prefix, wa_version = version, wa_program = program\<rparr>))"

section \<open>Factories\<close>

definition from_address :: "string \<Rightarrow> bool \<Rightarrow> witness_address" where
  "from_address address strict = (case parse_address address strict of Parsed a \<Rightarrow> a | _ \<Rightarrow> invalid_address)"

definition from_parameters :: "data_chunk \<Rightarrow> byte \<Rightarrow> string \<Rightarrow> witness_address" where
  "from_parameters program version prefix =
     (if parse_prefix prefix False \<noteq> Parse_valid then invalid_address
      else if parse_program version program False = Program_type_invalid then invalid_address
      else \<lparr>wa_prefix = prefix, wa_version = version, wa_program = program\<rparr>)"

definition from_short :: "data_chunk \<Rightarrow> string \<Rightarrow> witness_address" where
  "from_short hash prefix =
     (if parse_prefix prefix False \<noteq> Parse_valid then invalid_address
      else \<lparr>wa_prefix = prefix, wa_version = 0, wa_program = hash\<rparr>)"

definition from_public :: "data_chunk option \<Rightarrow> string \<Rightarrow> witness_address" where
  "from_public point prefix = (case point of None \<Rightarrow> invalid_address
     | Some compressed \<Rightarrow> from_short (bitcoin_short_hash True compressed) prefix)"

definition from_long :: "data_chunk \<Rightarrow> string \<Rightarrow> witness_address" where
  "from_long hash prefix =
     (if parse_prefix prefix False \<noteq> Parse_valid then invalid_address
      else \<lparr>wa_prefix = prefix, wa_version = 0, wa_program = hash\<rparr>)"

definition from_script :: "script \<Rightarrow> string \<Rightarrow> witness_address" where
  "from_script s prefix =
     (if \<not> script_valid s then invalid_address
      else from_long (sha256_hash True (script_to_data s False)) prefix)"

definition address_valid :: "witness_address \<Rightarrow> bool" where
  "address_valid a \<longleftrightarrow> is_valid_version (wa_version a)"

definition encoded :: "witness_address \<Rightarrow> string" where
  "encoded a = (if \<not> address_valid a then []
     else (wa_prefix a @ [separator]) @ encode_base32b (bech32_build_checked (wa_version a) (wa_program a) (wa_prefix a)))"

definition address_identifier :: "witness_address \<Rightarrow> program_type" where
  "address_identifier a = parse_program (wa_version a) (wa_program a) False"

definition address_script :: "witness_address \<Rightarrow> script" where
  "address_script a = (if \<not> address_valid a then default_script
     else from_operations (to_pay_witness_pattern (wa_version a) (wa_program a)))"

definition address_less :: "witness_address \<Rightarrow> witness_address \<Rightarrow> bool" where
  "address_less left right \<longleftrightarrow> ord.lexordp (\<lambda>a b. char_code a < char_code b) (encoded left) (encoded right)"

definition address_equal :: "witness_address \<Rightarrow> witness_address \<Rightarrow> bool" where
  "address_equal left right \<longleftrightarrow> encoded left = encoded right"

section \<open>Characters of a printed address\<close>

lemma encoding_characters:
  "\<forall>v\<in>{0..<32}. is_ascii_character (base32b_encode ! v) \<and> base32b_encode ! v \<noteq> separator"
  by code_simp

lemma encode_index: "unat (v :: 5 word) < 32"
  using unsigned_less [of v] by simp

lemma encoded_ascii: "is_ascii (encode_base32b vs)"
  using encoding_characters encode_index by (auto simp: encode_base32b_def is_ascii_def list_all_iff)

lemma encoded_separator: "separator \<notin> set (encode_base32b vs)"
proof
  assume "separator \<in> set (encode_base32b vs)"
  then obtain v where "separator = base32b_encode ! unat (v :: 5 word)" by (auto simp: encode_base32b_def)
  then show False using encoding_characters encode_index [of v] by (metis atLeastLessThan_iff le0)
qed

lemma length_encode [simp]: "length (encode_base32b vs) = length vs"
  by (simp add: encode_base32b_def)

lemma lower_self: "ascii_to_lower s = s \<longleftrightarrow> \<not> list_ex is_ascii_upper s"
proof -
  have "char_of (char_code c + 32) \<noteq> c" if "is_ascii_upper c" for c
  proof
    assume "char_of (char_code c + 32) = c"
    then have "of_char (char_of (char_code c + 32) :: char) = char_code c" by (simp add: char_code_def)
    then show False using that by (simp add: is_ascii_upper_def)
  qed
  then have "(if is_ascii_upper c then char_of (char_code c + 32) else c) = c \<longleftrightarrow> \<not> is_ascii_upper c" for c by simp
  then show ?thesis by (induction s) (auto simp: ascii_to_lower_def)
qed

lemma last_index_append: "c \<notin> set s \<Longrightarrow> last_index c (p @ c # s) = Some (length p)"
proof (induction p)
  case Nil
  have "last_index c s = None" if "c \<notin> set s" using that by (induction s) auto
  with Nil show ?case by simp
qed simp

lemma last_index_split: "last_index c s = Some n \<Longrightarrow> s = take n s @ c # drop (Suc n) s"
  by (induction s arbitrary: n) (auto split: option.splits if_splits)

lemma unpack_length:
  assumes "length bs \<le> max_size_t"
  shows "5 * length (base32b_unpack bs) = 8 * length bs + (5 - 8 * length bs mod 5) mod 5"
proof -
  have "length (concat (map (word_bits 5) (base32b_unpack bs))) = 8 * length bs + (5 - 8 * length bs mod 5) mod 5"
    by (simp add: unpack_bits [OF assms])
  then show ?thesis by (simp add: length_concat comp_def sum_list_triv mult.commute)
qed

lemma round_up: "5 * u = n + (5 - n mod 5) mod 5 \<Longrightarrow> u = (n + 4) div (5 :: nat)"
proof -
  assume u: "5 * u = n + (5 - n mod 5) mod 5"
  have n: "n = 5 * (n div 5) + n mod 5" by simp
  consider "n mod 5 = 0" | "n mod 5 \<noteq> 0" "(5 - n mod 5) mod 5 = 5 - n mod 5" by fastforce
  then show ?thesis
  proof cases
    case 1 then show ?thesis using u n by simp
  next
    case 2
    then have "5 * u = 5 * (n div 5) + 5" using u n by (metis add.assoc le_add_diff_inverse mod_less_divisor less_imp_le zero_less_numeral)
    then have "u = n div 5 + 1" by simp
    moreover have "(n + 4) div 5 = n div 5 + 1" using 2(1) by presburger
    ultimately show ?thesis by simp
  qed
qed

lemma build_length:
  "is_valid_version version \<Longrightarrow> length (bech32_build_checked version program prefix) = length (base32b_unpack program) + 7"
  by (simp add: bech32_build_checked_def bech32_build_checked_constant_def bech32_append_checksum_def
      bech32_expand_checksum_def Let_def is_valid_version_def version_maximum_def word_le_nat_alt)

section \<open>Printing and parsing\<close>

lemma parse_encoded:
  assumes prefix: "parse_prefix prefix strict = Parse_valid"
    and len: "length prefix + 1 + length vs \<le> address_maximum_length" "11 \<le> length vs" "length vs \<le> 71"
  shows "parse_address (prefix @ separator # encode_base32b vs) strict =
     (case bech32_verify_checked prefix vs of None \<Rightarrow> Failed Checksum_invalid
      | Some (version, program) \<Rightarrow> if \<not> is_valid_version version then Failed Version_invalid
          else if parse_program version program strict = Program_type_invalid then Failed Program_invalid
          else Parsed \<lparr>wa_prefix = prefix, wa_version = version, wa_program = program\<rparr>)"
proof -
  let ?a = "prefix @ separator # encode_base32b vs"
  have parts: "is_ascii prefix" "ascii_to_lower prefix = prefix"
    using prefix by (auto simp: parse_prefix_def split: if_splits)
  then have lower: "\<not> list_ex is_ascii_upper ?a"
    using encoded_lower [of vs] by (auto simp: lower_self separator_def is_ascii_upper_def char_code_def)
  then have "\<not> has_mixed_ascii_case ?a" "ascii_to_lower ?a = ?a" by (simp_all add: has_mixed_ascii_case_def lower_self)
  moreover have "is_ascii ?a"
    using parts(1) encoded_ascii [of vs] by (simp add: is_ascii_def is_ascii_character_def separator_def char_code_def)
  moreover have "last_index separator ?a = Some (length prefix)" by (rule last_index_append) (rule encoded_separator)
  moreover have "decode_base32b (encode_base32b vs) = Inr vs"
    by (simp add: decode_base32b_def has_mixed_ascii_case_def encoded_lower decode_encoded)
  ultimately show ?thesis
    using prefix len by (simp add: parse_address_def Let_def program_minimum_length_def program_maximum_length_def
        checksum_length_def)
qed

text \<open>C35. The text of an address within the length limit parses back to it.\<close>
theorem witness_address_roundtrip:
  assumes "parse_prefix prefix strict = Parse_valid" "parse_program version program strict \<noteq> Program_type_invalid"
    "length prefix + 1 + (1 + (8 * length program + 4) div 5 + 6) \<le> 90"
  shows "parse_address (encoded \<lparr>wa_prefix = prefix, wa_version = version, wa_program = program\<rparr>) strict =
    Parsed \<lparr>wa_prefix = prefix, wa_version = version, wa_program = program\<rparr>"
proof -
  let ?vs = "bech32_build_checked version program prefix"
  have valid: "is_valid_version version" "is_valid_program program"
    using assms(2) by (auto simp: parse_program_def split: if_splits)
  then have bounds: "unat version < 32" "2 \<le> length program" "length program \<le> 40" "length program \<le> max_size_t"
    by (auto simp: is_valid_version_def version_maximum_def word_le_nat_alt is_valid_program_def
        program_minimum_size_def program_maximum_size_def max_size_t_def)
  have unpacked: "length (base32b_unpack program) = (8 * length program + 4) div 5"
    by (rule round_up) (rule unpack_length [OF bounds(4)])
  have "4 \<le> length (base32b_unpack program)" "length (base32b_unpack program) \<le> 64"
    unfolding unpacked using bounds(2,3) by presburger+
  moreover have "length prefix + 1 + length ?vs \<le> address_maximum_length"
    using assms(3) build_length [OF valid(1)] unpacked by (simp add: address_maximum_length_def)
  ultimately show ?thesis
    using parse_encoded [OF assms(1), of ?vs] bech32_roundtrip [OF bounds(1,4)] valid assms(2) build_length [OF valid(1)]
    by (simp add: encoded_def address_valid_def)
qed
text \<open>The table of the decoder is never left: parsing has refused other characters before.\<close>

lemma ascii_decode: "is_ascii cs \<Longrightarrow> decode_characters cs \<noteq> Inl Base32b_out_of_bounds"
  by (induction cs) (auto simp: is_ascii_def is_ascii_character_def decode_table_length Let_def split: sum.splits)

lemma ascii_lower: "is_ascii s \<Longrightarrow> is_ascii (ascii_to_lower s)"
proof -
  have "char_code (char_of (char_code c + 32)) < 128" if "is_ascii_upper c" for c
    using that by (simp add: is_ascii_upper_def char_code_def)
  then show "is_ascii s \<Longrightarrow> is_ascii (ascii_to_lower s)"
    by (auto simp: is_ascii_def is_ascii_character_def ascii_to_lower_def list_all_iff)
qed

text \<open>C34. No text takes the parser past the table of the decoder.\<close>
theorem parse_address_in_bounds: "parse_address address strict \<noteq> Parse_out_of_bounds"
proof -
  have "is_ascii address \<Longrightarrow> decode_base32b (drop n (ascii_to_lower address)) \<noteq> Inl Base32b_out_of_bounds" for n
    using ascii_decode [of "drop n (ascii_to_lower address)"] ascii_lower [of address]
    by (auto simp: decode_base32b_def is_ascii_def list_all_iff dest: in_set_dropD)
  then show ?thesis
    by (auto simp: parse_address_def Let_def split: option.splits sum.splits base32b_error.splits prod.splits)
qed

lemma parsed_parts:
  assumes "parse_address address strict = Parsed a"
  shows "parse_prefix (wa_prefix a) strict = Parse_valid" "is_valid_version (wa_version a)"
    "parse_program (wa_version a) (wa_program a) strict \<noteq> Program_type_invalid"
    "length address \<le> 90" "\<not> has_mixed_ascii_case address"
    "\<exists>payload checked. ascii_to_lower address = wa_prefix a @ separator # payload \<and> decode_base32b payload = Inr checked \<and>
       bech32_verify_checked (wa_prefix a) checked = Some (wa_version a, wa_program a)"
proof -
  let ?s = "ascii_to_lower address"
  obtain n where n: "last_index separator ?s = Some n"
    using assms by (auto simp: parse_address_def Let_def split: if_splits option.splits)
  obtain checked where "decode_base32b (drop (n + 1) ?s) = Inr checked"
      "bech32_verify_checked (take n ?s) checked = Some (wa_version a, wa_program a)" "wa_prefix a = take n ?s"
      "parse_prefix (wa_prefix a) strict = Parse_valid" "is_valid_version (wa_version a)"
      "parse_program (wa_version a) (wa_program a) strict \<noteq> Program_type_invalid"
      "length address \<le> 90" "\<not> has_mixed_ascii_case address"
    using assms n by (auto simp: parse_address_def Let_def address_maximum_length_def
        split: if_splits option.splits sum.splits base32b_error.splits prod.splits)
  moreover have "?s = take n ?s @ separator # drop (n + 1) ?s" using last_index_split [OF n] by simp
  ultimately show "parse_prefix (wa_prefix a) strict = Parse_valid" "is_valid_version (wa_version a)"
    "parse_program (wa_version a) (wa_program a) strict \<noteq> Program_type_invalid"
    "length address \<le> 90" "\<not> has_mixed_ascii_case address"
    "\<exists>payload checked. ascii_to_lower address = wa_prefix a @ separator # payload \<and> decode_base32b payload = Inr checked \<and>
       bech32_verify_checked (wa_prefix a) checked = Some (wa_version a, wa_program a)"
    by metis+
qed

section \<open>Zero padding of more than four bits\<close>

text \<open>
  A group of five zero bits behind a program whose bits leave at least five to the next byte is packed
  into the padding and dropped.
\<close>

lemma pack_zero_group:
  assumes "5 * length vs mod 8 = 0"
  shows "base32b_pack (vs @ [0]) = base32b_pack vs"
proof -
  let ?w = "\<lambda>us. bwr_sink (bwr_flusher (fold (\<lambda>v. write_bits (ucast v) 5) us new_bit_writer))"
  have five: "(5 + 5 * length vs) mod 8 = 5" using mod_add_right_eq [of 5 "5 * length vs" 8] assms by simp
  have "bits_of (?w (vs @ [0])) = concat (map (word_bits 5) vs) @ word_bits 5 (0 :: 5 word) @ replicate 3 False"
    using pack_bits [of "vs @ [0]"] five by simp
  also have "word_bits 5 (0 :: 5 word) @ replicate 3 False = bits_of [0 :: byte]" by (simp add: bits_of_def word_bits_def eval_nat_numeral)
  also have "concat (map (word_bits 5) vs) = bits_of (?w vs)" using pack_bits [of vs] assms by simp
  also have "bits_of (?w vs) @ bits_of [0] = bits_of (?w vs @ [0])" by (simp add: bits_of_def)
  finally have sink: "?w (vs @ [0]) = ?w vs @ [0]" by (simp only: bits_of_inject)
  have "length (vs @ [0]) * 5 mod 8 \<noteq> 0" using five by (simp add: mult.commute)
  moreover have "length vs * 5 mod 8 = 0" using assms by (simp add: mult.commute)
  ultimately show ?thesis unfolding base32b_pack_def Let_def sink by simp
qed

definition padded_address :: "data_chunk \<Rightarrow> string \<Rightarrow> string" where
  "padded_address program prefix = prefix @ separator #
     encode_base32b (bech32_append_checksum (0 # base32b_unpack program @ [0]) prefix bech32_checksum_constant)"

text \<open>C39. A key hash program has a second text, with five bits of padding, which parses to it.\<close>
theorem padded_address_parses:
  assumes "parse_prefix prefix strict = Parse_valid" "length program = 20" "length prefix \<le> 49"
  shows "parse_address (padded_address program prefix) strict = Parsed \<lparr>wa_prefix = prefix, wa_version = 0, wa_program = program\<rparr> \<and>
    padded_address program prefix \<noteq> encoded \<lparr>wa_prefix = prefix, wa_version = 0, wa_program = program\<rparr>"
proof -
  let ?us = "base32b_unpack program"
  let ?vs = "bech32_append_checksum (0 # ?us @ [0]) prefix bech32_checksum_constant"
  have size: "length program \<le> max_size_t" using assms(2) by (simp add: max_size_t_def)
  then have len: "length ?us = 32" using round_up [OF unpack_length] assms(2) by simp
  have sum: "length (bech32_expand_checksum c) = 6" for c by (simp add: bech32_expand_checksum_def)
  have checked: "length ?vs = 40" by (simp add: bech32_append_checksum_def Let_def sum len)
  have "bech32_verify_checksum ?vs prefix bech32_checksum_constant"
    using append_verifies [of "to_bech32_constant Bech32"] constant_bits [of _ Bech32] by (simp add: to_bech32_constant_def)
  moreover have "bech32_extract_checked ?vs = Some (0, base32b_pack (?us @ [0]))"
    by (simp add: bech32_extract_checked_def bech32_append_checksum_def Let_def bech32_version_size_def
        bech32_checksum_size_def sum len)
  moreover have "base32b_pack (?us @ [0]) = program"
    using pack_zero_group [of ?us] pack_unpack [OF size] len by simp
  ultimately have "bech32_verify_checked prefix ?vs = Some (0, program)"
    by (simp add: bech32_verify_checked_def bech32_witness_constant_def to_bech32_constant_def)
  moreover have "parse_program 0 program strict = Version0_p2kh" using assms(2)
    by (simp add: parse_program_def is_valid_version_def version_maximum_def is_valid_program_def
        program_minimum_size_def program_maximum_size_def version0_p2kh_program_size_def)
  ultimately have parsed: "parse_address (padded_address program prefix) strict = Parsed \<lparr>wa_prefix = prefix, wa_version = 0, wa_program = program\<rparr>"
    using parse_encoded [OF assms(1), of ?vs] assms(3) checked
    by (simp add: padded_address_def address_maximum_length_def is_valid_version_def version_maximum_def)
  have "is_valid_version 0" by (simp add: is_valid_version_def version_maximum_def)
  then have "length (encoded \<lparr>wa_prefix = prefix, wa_version = 0, wa_program = program\<rparr>) = length prefix + 40"
    using build_length [of 0 program prefix] len by (simp add: encoded_def address_valid_def)
  moreover have "length (padded_address program prefix) = length prefix + 41" by (simp add: padded_address_def checked)
  ultimately have "padded_address program prefix \<noteq> encoded \<lparr>wa_prefix = prefix, wa_version = 0, wa_program = program\<rparr>" by auto
  with parsed show ?thesis ..
qed

section \<open>Factories and the length limit\<close>

text \<open>An address that a factory returned prints a text that its own parser refuses, when the prefix is long.\<close>
theorem long_address_unparsed:
  assumes "parse_prefix prefix False = Parse_valid" "parse_program version program False \<noteq> Program_type_invalid"
    "90 < length prefix + 1 + (1 + (8 * length program + 4) div 5 + 6)"
  shows "address_valid (from_parameters program version prefix) \<and>
    parse_address (encoded (from_parameters program version prefix)) False = Failed Address_too_long"
proof -
  have version: "is_valid_version version" "is_valid_program program"
    using assms(2) by (auto simp: parse_program_def split: if_splits)
  have a: "from_parameters program version prefix = \<lparr>wa_prefix = prefix, wa_version = version, wa_program = program\<rparr>"
    using assms(1,2) by (simp add: from_parameters_def)
  then have valid: "address_valid (from_parameters program version prefix)" using version by (simp add: address_valid_def)
  have "length program \<le> max_size_t" using version(2) by (simp add: is_valid_program_def program_maximum_size_def max_size_t_def)
  then have "length (base32b_unpack program) = (8 * length program + 4) div 5" by (rule round_up [OF unpack_length])
  then have long: "90 < length (encoded (from_parameters program version prefix))"
    using assms(3) a version build_length [OF version(1)] by (simp add: encoded_def address_valid_def)
  have prefix: "is_ascii prefix" "\<not> list_ex is_ascii_upper prefix"
    using assms(1) lower_self [of prefix] by (auto simp: parse_prefix_def split: if_splits)
  then have "is_ascii (encoded (from_parameters program version prefix))"
    using encoded_ascii by (simp add: a encoded_def is_ascii_def is_ascii_character_def separator_def char_code_def)
  moreover have "\<not> has_mixed_ascii_case (encoded (from_parameters program version prefix))"
    using prefix(2) encoded_lower
    by (simp add: a encoded_def has_mixed_ascii_case_def separator_def is_ascii_upper_def is_ascii_lower_def char_code_def)
  ultimately have "parse_address (encoded (from_parameters program version prefix)) False = Failed Address_too_long"
    using long by (simp add: parse_address_def address_maximum_length_def)
  with valid show ?thesis ..
qed


section \<open>Witnesses\<close>

lemma example_prefixes: "parse_prefix ''bc'' True = Parse_valid" "parse_prefix (replicate 60 (CHR ''b'')) False = Parse_valid"
  by code_simp+

theorem witness_address_roundtrip_witness:
  "parse_address (encoded \<lparr>wa_prefix = ''bc'', wa_version = 1, wa_program = replicate 32 7\<rparr>) True =
     Parsed \<lparr>wa_prefix = ''bc'', wa_version = 1, wa_program = replicate 32 7\<rparr>"
proof (rule witness_address_roundtrip [OF example_prefixes(1)])
  show "parse_program 1 (replicate 32 7) True \<noteq> Program_type_invalid" by code_simp
qed simp

theorem padded_address_parses_witness:
  "parse_address (padded_address (replicate 20 7) ''bc'') True = Parsed \<lparr>wa_prefix = ''bc'', wa_version = 0, wa_program = replicate 20 7\<rparr> \<and>
   padded_address (replicate 20 7) ''bc'' \<noteq> encoded \<lparr>wa_prefix = ''bc'', wa_version = 0, wa_program = replicate 20 7\<rparr>"
  by (rule padded_address_parses [OF example_prefixes(1)]) simp_all

theorem long_address_unparsed_witness:
  "address_valid (from_parameters (replicate 32 7) 1 (replicate 60 (CHR ''b''))) \<and>
   parse_address (encoded (from_parameters (replicate 32 7) 1 (replicate 60 (CHR ''b'')))) False = Failed Address_too_long"
proof (rule long_address_unparsed [OF example_prefixes(2)])
  show "parse_program 1 (replicate 32 7) False \<noteq> Program_type_invalid" by code_simp
qed simp

end
