(* ===== verification/Radix.thy ===== *)
theory Radix
  imports Bech32
begin

text \<open>
  Base 16, 64 and 85 (\<open>impl/radix/base_16.ipp\<close>, \<open>src/radix/base_64.cpp\<close>, \<open>src/radix/base_85.cpp\<close>).
  Each decodes what it encodes; the decoders of base 64 and base 85 also accept texts that no encoder
  writes, which is stated as the code has it.
\<close>

section \<open>Base 16\<close>

definition is_between :: "nat \<Rightarrow> nat \<Rightarrow> nat \<Rightarrow> bool" where
  "is_between v low high \<longleftrightarrow> low \<le> v \<and> v \<le> high"

definition to_base16_character :: "nat \<Rightarrow> char" where
  "to_base16_character digit = char_of ((if is_between digit 0 9 then 48 else 97 - 10) + digit)"

definition to_base16_hi_character :: "byte \<Rightarrow> char" where
  "to_base16_hi_character octet = to_base16_character (unat (drop_bit 4 octet))"

definition to_base16_lo_character :: "byte \<Rightarrow> char" where
  "to_base16_lo_character octet = to_base16_character (unat (octet AND 0x0f))"

definition from_base16_digit :: "char \<Rightarrow> byte" where
  "from_base16_digit c = (let v = char_code c in
     if is_between v 65 70 then word_of_int (int v - 65 + 10)
     else if is_between v 97 102 then word_of_int (int v - 97 + 10)
     else word_of_int (int v - 48))"

definition from_base16_characters :: "char \<Rightarrow> char \<Rightarrow> byte" where
  "from_base16_characters high low = push_bit 4 (from_base16_digit high) OR from_base16_digit low"

definition is_base16 :: "char \<Rightarrow> bool" where
  "is_base16 c \<longleftrightarrow> is_between (char_code c) 48 57 \<or> is_between (char_code c) 97 102 \<or> is_between (char_code c) 65 70"

definition encode_base16 :: "data_chunk \<Rightarrow> string" where
  "encode_base16 bs = concat (map (\<lambda>octet. [to_base16_hi_character octet, to_base16_lo_character octet]) bs)"

definition encode_hash :: "data_chunk \<Rightarrow> string" where
  "encode_hash hash = concat (map (\<lambda>octet. [to_base16_hi_character octet, to_base16_lo_character octet]) (rev hash))"

fun decode_octets :: "string \<Rightarrow> data_chunk" where
  "decode_octets (hi # lo # rest) = from_base16_characters hi lo # decode_octets rest"
| "decode_octets _ = []"

definition decode_base16 :: "string \<Rightarrow> data_chunk option" where
  "decode_base16 s = (if length s mod 2 \<noteq> 0 then None
     else if \<not> list_all is_base16 s then None else Some (decode_octets s))"

definition decode_base16_array :: "nat \<Rightarrow> string \<Rightarrow> data_chunk option" where
  "decode_base16_array sz s = (if length s \<noteq> 2 * sz then None
     else if \<not> list_all is_base16 s then None else Some (decode_octets s))"

fun decode_octets_reverse :: "string \<Rightarrow> data_chunk" where
  "decode_octets_reverse (lo # hi # rest) = from_base16_characters hi lo # decode_octets_reverse rest"
| "decode_octets_reverse _ = []"

definition decode_hash :: "nat \<Rightarrow> string \<Rightarrow> data_chunk option" where
  "decode_hash sz s = (if length s \<noteq> sz * 2 then None
     else if \<not> list_all is_base16 s then None else Some (decode_octets_reverse (rev s)))"

definition base16_chunk :: "string \<Rightarrow> data_chunk" where
  "base16_chunk s = (case decode_base16 s of None \<Rightarrow> [] | Some bs \<Rightarrow> bs)"

definition base16_array :: "nat \<Rightarrow> string \<Rightarrow> data_chunk" where
  "base16_array sz s = (case decode_base16_array sz s of None \<Rightarrow> replicate sz 0 | Some bs \<Rightarrow> bs)"

definition base16_hash :: "nat \<Rightarrow> string \<Rightarrow> data_chunk" where
  "base16_hash sz s = (case decode_hash sz s of None \<Rightarrow> replicate sz 0 | Some bs \<Rightarrow> bs)"

lemma hex_digits: "d < 16 \<Longrightarrow> is_base16 (to_base16_character d) \<and> from_base16_digit (to_base16_character d) = word_of_nat d"
proof -
  assume d: "d < 16"
  have "char_code (to_base16_character d) = (if d \<le> 9 then 48 + d else 87 + d)"
    using d by (simp add: to_base16_character_def is_between_def char_code_def)
  then show ?thesis using d by (simp add: is_base16_def from_base16_digit_def is_between_def)
qed

lemma octet_characters: "is_base16 (to_base16_hi_character b)" "is_base16 (to_base16_lo_character b)"
  "from_base16_characters (to_base16_hi_character b) (to_base16_lo_character b) = b"
proof -
  have "unat (drop_bit 4 b) < 16" "unat (b AND 0x0f) < 16"
  proof -
    have "b AND 0x0f = take_bit 4 b" by (simp add: take_bit_eq_mask mask_eq_exp_minus_1)
    then have "unat (b AND 0x0f) = take_bit 4 (unat b)" by (simp only: unsigned_take_bit_eq)
    then show "unat (b AND 0x0f) < 16" by (simp add: take_bit_eq_mod)
    have "unat (drop_bit 4 b) = unat b div 16" by (simp add: drop_bit_eq_div unat_div)
    moreover have "unat b < 16 * 16" using unsigned_less [of b] by simp
    then have "unat b div 16 < 16" by (rule less_mult_imp_div_less)
    ultimately show "unat (drop_bit 4 b) < 16" by (simp only:)
  qed
  then have "is_base16 (to_base16_hi_character b)" "from_base16_digit (to_base16_hi_character b) = drop_bit 4 b"
    "is_base16 (to_base16_lo_character b)" "from_base16_digit (to_base16_lo_character b) = b AND 0x0f"
    using hex_digits by (simp_all add: to_base16_hi_character_def to_base16_lo_character_def)
  moreover have "push_bit 4 (drop_bit 4 b) OR (b AND 0x0f) = b"
  proof -
    have "b AND 0x0f = take_bit 4 b" by (simp add: take_bit_eq_mask mask_eq_exp_minus_1)
    then show ?thesis by (intro bit_word_eqI) (auto simp: bit_simps)
  qed
  ultimately show "is_base16 (to_base16_hi_character b)" "is_base16 (to_base16_lo_character b)"
    "from_base16_characters (to_base16_hi_character b) (to_base16_lo_character b) = b"
    by (simp_all add: from_base16_characters_def)
qed

lemma octets_decode: "decode_octets (encode_base16 bs) = bs \<and> list_all is_base16 (encode_base16 bs) \<and> length (encode_base16 bs) = 2 * length bs"
  by (induction bs) (simp_all add: encode_base16_def octet_characters)

lemma octets_reverse: "decode_octets_reverse (rev (encode_base16 bs)) = rev bs"
  by (induction bs rule: rev_induct) (simp_all add: encode_base16_def octet_characters)

text \<open>Bytes and hashes decode from their hexadecimal texts.\<close>
theorem base16_roundtrip:
  "decode_base16 (encode_base16 bs) = Some bs \<and> decode_base16_array (length bs) (encode_base16 bs) = Some bs \<and>
   decode_hash (length bs) (encode_hash bs) = Some bs"
proof -
  have "encode_hash bs = encode_base16 (rev bs)" by (simp add: encode_hash_def encode_base16_def)
  then show ?thesis using octets_decode [of bs] octets_decode [of "rev bs"] octets_reverse [of "rev bs"]
    by (simp add: decode_base16_def decode_base16_array_def decode_hash_def)
qed

section \<open>Base 85\<close>

definition base85_encoder :: string where
  "base85_encoder = ''0123456789'' @ ''abcdefghij'' @ ''klmnopqrst'' @ ''uvwxyzABCD'' @ ''EFGHIJKLMN'' @ ''OPQRSTUVWX'' @
     ''YZ.-:+=^!/'' @ ''*?&<>()[]{'' @ ''}@%$#''"

definition base85_decoder :: "nat list" where
  "base85_decoder = concat [
     [0x00, 0x44, 0x00, 0x54, 0x53, 0x52, 0x48, 0x00], [0x4B, 0x4C, 0x46, 0x41, 0x00, 0x3F, 0x3E, 0x45],
     [0..<10], [0x40, 0x00, 0x49, 0x42, 0x4A, 0x47], [0x51], [0x24..<0x3E], [0x4D, 0x00, 0x4E, 0x43, 0x00],
     [0x00], [0x0A..<0x24], [0x4F, 0x00, 0x50, 0x00, 0x00]]"

fun encode85_group :: "nat \<Rightarrow> nat \<Rightarrow> nat \<Rightarrow> string" where
  "encode85_group 0 x accumulator = []"
| "encode85_group (Suc n) x accumulator = base85_encoder ! (accumulator div x mod 85) # encode85_group n (x div 85) accumulator"

text \<open>The divisor of a group of five characters starts at a power and ends when it has become zero.\<close>

fun encode85_loop :: "nat \<Rightarrow> nat \<Rightarrow> data_chunk \<Rightarrow> string" where
  "encode85_loop accumulator index [] = []"
| "encode85_loop accumulator index (b # bs) =
     (let accumulator = accumulator * 256 + unat b; index = index + 1 in
      if index mod 4 = 0 then encode85_group 5 (85 ^ 4) accumulator @ encode85_loop 0 index bs
      else encode85_loop accumulator index bs)"

definition encode_base85 :: "data_chunk \<Rightarrow> string option" where
  "encode_base85 bs = (if length bs mod 4 \<noteq> 0 then None else Some (encode85_loop 0 0 bs))"

fun decode85_group :: "nat \<Rightarrow> nat \<Rightarrow> nat \<Rightarrow> data_chunk" where
  "decode85_group 0 x accumulator = []"
| "decode85_group (Suc n) x accumulator = word_of_nat (accumulator div x mod 256) # decode85_group n (x div 256) accumulator"

text \<open>Characters are signed; those of the upper half have a negative position.\<close>

fun decode85_loop :: "nat \<Rightarrow> nat \<Rightarrow> string \<Rightarrow> data_chunk option" where
  "decode85_loop accumulator index [] = Some []"
| "decode85_loop accumulator index (c # cs) =
     (let position = sint (of_char c :: byte) - 32 in
      if position < 0 \<or> position > 96 then None
      else let accumulator = accumulator * 85 + base85_decoder ! nat position; index = index + 1 in
        if index mod 5 = 0 then map_option ((@) (decode85_group 4 (256 ^ 3) accumulator)) (decode85_loop 0 index cs)
        else decode85_loop accumulator index cs)"

definition decode_base85 :: "string \<Rightarrow> data_chunk option" where
  "decode_base85 s = (if length s mod 5 \<noteq> 0 then None else decode85_loop 0 0 s)"

lemma base85_tables: "\<forall>d\<in>{0..<85}. let p = sint (of_char (base85_encoder ! d) :: byte) - 32 in
    0 \<le> p \<and> p \<le> 96 \<and> base85_decoder ! nat p = d"
  by code_simp

lemma character85: "d < 85 \<Longrightarrow> decode85_loop accumulator index (base85_encoder ! d # cs) =
     (let accumulator = accumulator * 85 + d; index = index + 1 in
      if index mod 5 = 0 then map_option ((@) (decode85_group 4 (256 ^ 3) accumulator)) (decode85_loop 0 index cs)
      else decode85_loop accumulator index cs)"
  using bspec [OF base85_tables, of d] by (simp add: Let_def not_less)

lemma five_digits: "acc < 85 ^ 5 \<Longrightarrow> (((acc div 85 ^ 4 mod 85 * 85 + acc div 85 ^ 3 mod 85) * 85 + acc div 85 ^ 2 mod 85) * 85 +
    acc div 85 mod 85) * 85 + acc mod 85 = (acc :: nat)"
proof -
  assume acc: "acc < 85 ^ 5"
  let ?a1 = "acc div 85" let ?a2 = "?a1 div 85" let ?a3 = "?a2 div 85" let ?a4 = "?a3 div 85"
  have "acc div 85 ^ 2 = ?a2" "acc div 85 ^ 3 = ?a3" "acc div 85 ^ 4 = ?a4" by (simp_all add: div_mult2_eq [symmetric])
  moreover have "?a4 < 85" using acc by (simp add: div_mult2_eq [symmetric] less_mult_imp_div_less)
  ultimately show ?thesis by (simp only: mod_less div_mult_mod_eq)
qed

lemma decode_group:
  assumes "index mod 5 = 0" "acc < 85 ^ 5"
  shows "decode85_loop 0 index (encode85_group 5 (85 ^ 4) acc @ cs) =
     map_option ((@) (decode85_group 4 (256 ^ 3) acc)) (decode85_loop 0 (index + 5) cs)"
proof -
  obtain k where "index = 5 * k" using assms(1) by auto
  then have mods: "((index + 1) mod 5 = 0) = False" "((index + 1 + 1) mod 5 = 0) = False" "((index + 1 + 1 + 1) mod 5 = 0) = False"
    "((index + 1 + 1 + 1 + 1) mod 5 = 0) = False" "((index + 5) mod 5 = 0) = True" by presburger+
  have five: "5 = Suc (Suc (Suc (Suc (Suc 0))))" by simp
  have group: "encode85_group 5 (85 ^ 4) acc = [base85_encoder ! (acc div 85 ^ 4 mod 85), base85_encoder ! (acc div 85 ^ 3 mod 85),
      base85_encoder ! (acc div 85 ^ 2 mod 85), base85_encoder ! (acc div 85 mod 85), base85_encoder ! (acc mod 85)]"
    by (subst five) simp
  have next_index: "index + 1 + 1 + 1 + 1 + 1 = index + 5" by simp
  have character: "decode85_loop accumulator i (base85_encoder ! (n mod 85) # cs) = (if (i + 1) mod 5 = 0
      then map_option ((@) (decode85_group 4 (256 ^ 3) (accumulator * 85 + n mod 85))) (decode85_loop 0 (i + 1) cs)
      else decode85_loop (accumulator * 85 + n mod 85) (i + 1) cs)" for accumulator i n cs
    using character85 [of "n mod 85"] by (simp add: Let_def)
  show ?thesis
    by (simp only: group append_Cons append_Nil character mods if_False if_True mult_zero_left add_0 five_digits [OF assms(2)] next_index)
qed

lemma encode_quad:
  assumes "index mod 4 = 0"
  shows "encode85_loop 0 index (b0 # b1 # b2 # b3 # bs) =
     encode85_group 5 (85 ^ 4) (((unat b0 * 256 + unat b1) * 256 + unat b2) * 256 + unat b3) @ encode85_loop 0 (index + 4) bs"
proof -
  obtain k where "index = 4 * k" using assms by auto
  then have mods: "((index + 1) mod 4 = 0) = False" "((index + 1 + 1) mod 4 = 0) = False" "((index + 1 + 1 + 1) mod 4 = 0) = False"
    "((index + 4) mod 4 = 0) = True" by presburger+
  have next_index: "index + 1 + 1 + 1 + 1 = index + 4" by simp
  show ?thesis
    by (simp only: encode85_loop.simps Let_def mods if_False if_True mult_zero_left add_0 next_index)
qed

lemma quad_bytes:
  fixes b0 b1 b2 b3 :: byte
  defines "acc \<equiv> ((unat b0 * 256 + unat b1) * 256 + unat b2) * 256 + unat b3"
  shows "acc < 85 ^ 5" "decode85_group 4 (256 ^ 3) acc = [b0, b1, b2, b3]"
proof -
  have b: "unat b < 256" for b :: byte using unsigned_less [of b] by simp
  have four: "4 = Suc (Suc (Suc (Suc 0)))" by simp
  have digit: "x * 256 + unat d < n * 256" if "x < n" for x n and d :: byte
  proof -
    have "x * 256 + unat d < x * 256 + 256" by (rule add_strict_left_mono) (rule b)
    also have "\<dots> = (x + 1) * 256" by simp
    also have "\<dots> \<le> n * 256" using that by (intro mult_le_mono1) simp
    finally show ?thesis .
  qed
  have "acc < ((256 * 256) * 256) * 256" unfolding acc_def by (intro digit b)
  then show "acc < 85 ^ 5" by simp
  have digit_div: "(x * 256 + unat d) div 256 = x" "(x * 256 + unat d) mod 256 = unat d" for x and d :: byte
    using div_mult_self3 [of 256 x "unat d"] mod_mult_self3 [of x 256 "unat d"] b [of d] by (simp_all only: div_less mod_less)
  have one: "acc div 256 = (unat b0 * 256 + unat b1) * 256 + unat b2" unfolding acc_def by (rule digit_div)
  have two: "acc div 256 div 256 = unat b0 * 256 + unat b1" unfolding one by (rule digit_div)
  have three: "acc div 256 div 256 div 256 = unat b0" unfolding two by (rule digit_div)
  have divs: "acc div 65536 = acc div 256 div 256" "acc div 16777216 = acc div 256 div 256 div 256"
    by (simp_all add: div_mult2_eq [symmetric])
  have "decode85_group 4 (256 ^ 3) acc = [word_of_nat (acc div 16777216 mod 256), word_of_nat (acc div 65536 mod 256),
      word_of_nat (acc div 256 mod 256), word_of_nat (acc mod 256)]"
    by (subst four) simp
  moreover have "acc div 16777216 mod 256 = unat b0" unfolding divs three by (rule mod_less [OF b])
  moreover have "acc div 65536 mod 256 = unat b1" unfolding divs two by (rule digit_div)
  moreover have "acc div 256 mod 256 = unat b2" unfolding one by (rule digit_div)
  moreover have "acc mod 256 = unat b3" unfolding acc_def by (rule digit_div)
  ultimately show "decode85_group 4 (256 ^ 3) acc = [b0, b1, b2, b3]" by simp
qed

lemma loops85: "length bs mod 4 = 0 \<Longrightarrow> index mod 4 = 0 \<Longrightarrow> position mod 5 = 0 \<Longrightarrow>
    decode85_loop 0 position (encode85_loop 0 index bs) = Some bs \<and> length (encode85_loop 0 index bs) mod 5 = 0"
proof (induction bs arbitrary: index position rule: length_induct)
  case (1 bs)
  show ?case
  proof (cases "bs = []")
    case False
    with 1(2) have "4 \<le> length bs" by (metis length_greater_0_conv linorder_not_less mod_less not_gr_zero)
    then obtain b0 b1 b2 b3 rest where bs: "bs = b0 # b1 # b2 # b3 # rest"
      by (auto simp: numeral_eq_Suc Suc_le_length_iff)
    let ?acc = "((unat b0 * 256 + unat b1) * 256 + unat b2) * 256 + unat b3"
    have "length rest mod 4 = 0" "(index + 4) mod 4 = 0" "(position + 5) mod 5 = 0" using 1(2-4) bs by simp_all
    moreover have "length rest < length bs" using bs by simp
    ultimately have "decode85_loop 0 (position + 5) (encode85_loop 0 (index + 4) rest) = Some rest \<and>
      length (encode85_loop 0 (index + 4) rest) mod 5 = 0"
      by (intro 1(1) [rule_format])
    then have IH: "decode85_loop 0 (position + 5) (encode85_loop 0 (index + 4) rest) = Some rest"
      "length (encode85_loop 0 (index + 4) rest) mod 5 = 0" by blast+
    have five: "length (encode85_group n x acc) = n" for n x acc by (induction n arbitrary: x) simp_all
    show ?thesis
      unfolding bs encode_quad [OF 1(3)] decode_group [OF 1(4) quad_bytes(1)] IH(1) quad_bytes(2)
      using IH(2) by (simp add: five del: encode85_loop.simps)
  qed simp
qed

text \<open>Chunks of whole groups decode from their base 85.\<close>
theorem base85_roundtrip:
  assumes "length bs mod 4 = 0"
  shows "\<exists>s. encode_base85 bs = Some s \<and> decode_base85 s = Some bs"
  using loops85 [OF assms, of 0 0] assms by (simp add: encode_base85_def decode_base85_def)

text \<open>Characters outside the alphabet are read as the digit zero.\<close>
theorem base85_reads_foreign_characters:
  "decode_base85 (map (\<lambda>c. if c = CHR ''0'' then CHR '' '' else c) s) = decode_base85 s"
proof -
  have step: "decode85_loop accumulator index (CHR '' '' # cs) = decode85_loop accumulator index (CHR ''0'' # cs)" for accumulator index cs
    by (simp add: base85_decoder_def nth_append)
  have "decode85_loop accumulator index (map (\<lambda>c. if c = CHR ''0'' then CHR '' '' else c) s) = decode85_loop accumulator index s" for accumulator index
  proof (induction s arbitrary: accumulator index)
    case (Cons c cs)
    have "decode85_loop accumulator index (d # map (\<lambda>c. if c = CHR ''0'' then CHR '' '' else c) cs) = decode85_loop accumulator index (d # cs)" for d
      using Cons by (simp add: Let_def)
    then show ?case using step by (cases "c = CHR ''0''") (simp_all del: decode85_loop.simps)
  qed simp
  then show ?thesis by (simp add: decode_base85_def)
qed

section \<open>Base 64\<close>

definition base64_pad :: char where "base64_pad = CHR ''=''"

definition base64_table :: string where
  "base64_table = ''ABCDEFGHIJKLMNOPQRSTUVWXYZ'' @ ''abcdefghijklmnopqrstuvwxyz'' @ ''0123456789+/''"

abbreviation six_bits :: "32 word \<Rightarrow> nat \<Rightarrow> char" where
  "six_bits v shift \<equiv> base64_table ! unat (drop_bit shift (v AND push_bit shift 0x3f))"

fun encode_base64 :: "data_chunk \<Rightarrow> string" where
  "encode_base64 [] = []"
| "encode_base64 [a] = (let v = push_bit 16 (ucast a) in [six_bits v 18, six_bits v 12, base64_pad, base64_pad])"
| "encode_base64 [a, b] = (let v = push_bit 16 (ucast a); v = v + push_bit 8 (ucast b) in
     [six_bits v 18, six_bits v 12, six_bits v 6, base64_pad])"
| "encode_base64 (a # b # c # rest) = (let v = push_bit 16 (ucast a); v = v + push_bit 8 (ucast b); v = v + ucast c in
     [six_bits v 18, six_bits v 12, six_bits v 6, six_bits v 0] @ encode_base64 rest)"

definition symbol64 :: "char \<Rightarrow> nat option" where
  "symbol64 c = (let v = of_char c :: int in
     if 0x41 \<le> v \<and> v \<le> 0x5a then Some (nat (v - 0x41))
     else if 0x61 \<le> v \<and> v \<le> 0x7a then Some (nat (v - 0x47))
     else if 0x30 \<le> v \<and> v \<le> 0x39 then Some (nat (v + 0x04))
     else if v = 0x2b then Some 0x3e else if v = 0x2f then Some 0x3f else None)"

definition byte64 :: "32 word \<Rightarrow> nat \<Rightarrow> byte" where
  "byte64 v shift = ucast (drop_bit shift v AND 0xff)"

text \<open>
  The loop over positions in a group, with the value and the decoded bytes. The value is not reset
  between groups; a pad character ends the decoding.
\<close>

fun decode64_loop :: "nat \<Rightarrow> 32 word \<Rightarrow> data_chunk \<Rightarrow> string \<Rightarrow> data_chunk option" where
  "decode64_loop position v decoded [] = Some decoded"
| "decode64_loop position v decoded (c # cs) = (let v = push_bit 6 v in case symbol64 c of
       Some s \<Rightarrow> let v = v OR word_of_nat s in
         if position = 3 then decode64_loop 0 v (decoded @ [byte64 v 16, byte64 v 8, byte64 v 0]) cs
         else decode64_loop (position + 1) v decoded cs
     | None \<Rightarrow> if c \<noteq> base64_pad then None
         else if length cs + 1 = 1 then Some (decoded @ [byte64 v 16, byte64 v 8])
         else if length cs + 1 = 2 then Some (decoded @ [byte64 v 10])
         else None)"

definition decode_base64 :: "string \<Rightarrow> data_chunk option" where
  "decode_base64 s = (if length s mod 4 \<noteq> 0 then None else decode64_loop 0 0 [] s)"

lemma base64_symbols: "\<forall>k\<in>{0..<64}. symbol64 (base64_table ! k) = Some k"
  by code_simp

lemma field: "n + k \<le> 32 \<Longrightarrow> drop_bit n (v AND push_bit n (mask k)) = take_bit k (drop_bit n (v :: 32 word))"
  by (intro bit_word_eqI) (auto simp: bit_simps)

lemma six_symbol: "n \<le> 18 \<Longrightarrow> symbol64 (six_bits v n) = Some (unat (take_bit 6 (drop_bit n v)))"
proof -
  assume n: "n \<le> 18"
  have mask: "(0x3f :: 32 word) = mask 6" by (simp add: mask_eq_exp_minus_1)
  have six: "drop_bit n (v AND push_bit n 0x3f) = take_bit 6 (drop_bit n v)"
    unfolding mask by (rule field) (use n in simp)
  have "unat (take_bit 6 (drop_bit n v)) < 64" unfolding unsigned_take_bit_eq by (simp add: take_bit_eq_mod)
  then show ?thesis unfolding six using base64_symbols by simp
qed

text \<open>Each character brings the next six bits of the value that was encoded.\<close>

lemma shift_in:
  assumes "take_bit m w = take_bit m (drop_bit (n + 6) v)" "m + 6 \<le> 32"
  shows "take_bit (m + 6) (push_bit 6 w OR take_bit 6 (drop_bit n v)) = take_bit (m + 6) (drop_bit n (v :: 32 word))"
proof (intro bit_word_eqI)
  fix i assume i: "i < LENGTH(32)"
  have "bit (take_bit m w) (i - 6) = bit (take_bit m (drop_bit (n + 6) v)) (i - 6)" by (simp only: assms(1))
  then have "bit w (i - 6) = bit v (n + 6 + (i - 6))" if "6 \<le> i" "i < m + 6" using that i by (auto simp: bit_simps)
  moreover have "n + 6 + (i - 6) = n + i" if "6 \<le> i" using that by simp
  ultimately show "bit (take_bit (m + 6) (push_bit 6 w OR take_bit 6 (drop_bit n v))) i = bit (take_bit (m + 6) (drop_bit n v)) i"
    using i by (cases "i < 6"; cases "i < m + 6") (auto simp: bit_simps)
qed

lemma bits_byte64:
  assumes "take_bit m w = take_bit m (drop_bit n v)" "shift + 8 \<le> m" "shift + n = k"
  shows "byte64 w shift = byte64 v k"
proof -
  have "bit (take_bit m w) (shift + i) = bit (take_bit m (drop_bit n v)) (shift + i)" for i by (simp only: assms(1))
  moreover have "shift + i < m" "n + (shift + i) = k + i" if "i < 8" for i using that assms(2,3) by simp_all
  ultimately have "bit w (shift + i) = bit v (k + i)" if "i < 8" for i
    using that by (metis bit_take_bit_iff bit_drop_bit_eq comp_apply)
  then have "take_bit 8 (drop_bit shift w) = take_bit 8 (drop_bit k v)"
    by (intro bit_word_eqI) (auto simp: bit_simps)
  moreover have "drop_bit j u AND 0xff = take_bit 8 (drop_bit j u)" for j and u :: "32 word"
    by (simp add: take_bit_eq_mask mask_eq_exp_minus_1)
  ultimately show ?thesis by (simp only: byte64_def)
qed

lemma join_disjoint:
  "push_bit 16 (ucast (a :: byte)) + push_bit 8 (ucast (b :: byte)) = (push_bit 16 (ucast a) OR push_bit 8 (ucast b) :: 32 word)"
  "push_bit 16 (ucast a) + push_bit 8 (ucast b) + ucast (c :: byte) = (push_bit 16 (ucast a) OR push_bit 8 (ucast b) OR ucast c :: 32 word)"
proof -
  show ab: "push_bit 16 (ucast a) + push_bit 8 (ucast b) = (push_bit 16 (ucast a) OR push_bit 8 (ucast b) :: 32 word)"
    by (rule disjunctive_add) (auto simp: bit_simps dest: bit_imp_le_length)
  show "push_bit 16 (ucast a) + push_bit 8 (ucast b) + ucast c = (push_bit 16 (ucast a) OR push_bit 8 (ucast b) OR ucast c :: 32 word)"
    unfolding ab or.assoc [symmetric] by (rule disjunctive_add) (auto simp: bit_simps dest: bit_imp_le_length)
qed

lemma joined_bytes:
  fixes a b c :: byte
  defines "v \<equiv> push_bit 16 (ucast a) + push_bit 8 (ucast b) + ucast c :: 32 word"
  shows "byte64 v 16 = a" "byte64 v 8 = b" "byte64 v 0 = c"
proof -
  have byte: "byte64 u n = d" if "\<And>i. i < 8 \<Longrightarrow> bit u (n + i) = bit d i" for u n and d :: byte
  proof -
    have "drop_bit n u AND 0xff = take_bit 8 (drop_bit n u)" by (simp add: take_bit_eq_mask mask_eq_exp_minus_1)
    then show ?thesis unfolding byte64_def using that
      by (simp only:) (intro bit_word_eqI, simp add: bit_simps)
  qed
  show "byte64 v 16 = a" "byte64 v 8 = b" "byte64 v 0 = c"
    unfolding v_def join_disjoint(2) by (rule byte, auto simp: bit_simps dest: bit_imp_le_length)+
qed

lemma three_characters:
  fixes v w :: "32 word"
  defines "k \<equiv> \<lambda>n. word_of_nat (unat (take_bit 6 (drop_bit n v))) :: 32 word"
  defines "w2 \<equiv> push_bit 6 (push_bit 6 w OR k 18) OR k 12" and "w3 \<equiv> push_bit 6 (push_bit 6 (push_bit 6 w OR k 18) OR k 12) OR k 6"
    and "w4 \<equiv> push_bit 6 (push_bit 6 (push_bit 6 (push_bit 6 w OR k 18) OR k 12) OR k 6) OR k 0"
  shows "take_bit 12 w2 = take_bit 12 (drop_bit 12 v)" "take_bit 18 w3 = take_bit 18 (drop_bit 6 v)"
    "take_bit 24 w4 = take_bit 24 (drop_bit 0 v)"
proof -
  have k: "k n = take_bit 6 (drop_bit n v)" for n by (simp add: k_def)
  have sums: "0 + 6 = (6 :: nat)" "6 + 6 = (12 :: nat)" "12 + 6 = (18 :: nat)" "18 + 6 = (24 :: nat)" by simp_all
  have in1: "take_bit 0 w = take_bit 0 (drop_bit (18 + 6) v)" by simp
  have one: "take_bit 6 (push_bit 6 w OR k 18) = take_bit 6 (drop_bit 18 v)"
    unfolding k by (rule shift_in [OF in1, unfolded sums]) simp
  have in2: "take_bit 6 (push_bit 6 w OR k 18) = take_bit 6 (drop_bit (12 + 6) v)" unfolding sums by (rule one)
  show two: "take_bit 12 w2 = take_bit 12 (drop_bit 12 v)"
    unfolding w2_def k [of 12] by (rule shift_in [OF in2, unfolded sums]) simp
  have in3: "take_bit 12 w2 = take_bit 12 (drop_bit (6 + 6) v)" unfolding sums by (rule two)
  show three: "take_bit 18 w3 = take_bit 18 (drop_bit 6 v)"
    unfolding w3_def k [of 6] w2_def [symmetric] by (rule shift_in [OF in3, unfolded sums]) simp
  have in4: "take_bit 18 w3 = take_bit 18 (drop_bit (0 + 6) v)" unfolding sums by (rule three)
  show "take_bit 24 w4 = take_bit 24 (drop_bit 0 v)"
    unfolding w4_def k [of 0] w3_def [symmetric] by (rule shift_in [OF in4, unfolded sums]) simp
qed

lemma decode_symbol: "symbol64 c = Some k \<Longrightarrow> position \<noteq> 3 \<Longrightarrow>
    decode64_loop position w decoded (c # cs) = decode64_loop (position + 1) (push_bit 6 w OR word_of_nat k) decoded cs"
  "symbol64 c = Some k \<Longrightarrow> decode64_loop 3 w decoded (c # cs) =
    (let u = push_bit 6 w OR word_of_nat k in decode64_loop 0 u (decoded @ [byte64 u 16, byte64 u 8, byte64 u 0]) cs)"
  by (simp_all add: Let_def)

lemma decode_four: "\<exists>u. decode64_loop 0 w decoded (six_bits v 18 # six_bits v 12 # six_bits v 6 # six_bits v 0 # cs) =
    decode64_loop 0 u (decoded @ [byte64 v 16, byte64 v 8, byte64 v 0]) cs"
proof -
  have less: "18 \<le> (18 :: nat)" "12 \<le> (18 :: nat)" "6 \<le> (18 :: nat)" "0 \<le> (18 :: nat)"
    and steps: "0 + 1 = (1 :: nat)" "1 + 1 = (2 :: nat)" "2 + 1 = (3 :: nat)" "0 \<noteq> (3 :: nat)" "1 \<noteq> (3 :: nat)" "2 \<noteq> (3 :: nat)" by simp_all
  note symbols = less [THEN six_symbol, of v]
  note first = decode_symbol(1) [OF symbols(1) steps(4), unfolded steps(1)]
  note second = decode_symbol(1) [OF symbols(2) steps(5), unfolded steps(2)]
  note third = decode_symbol(1) [OF symbols(3) steps(6), unfolded steps(3)]
  note fourth = decode_symbol(2) [OF symbols(4), unfolded Let_def]
  have shifts: "16 + 8 \<le> (24 :: nat)" "8 + 8 \<le> (24 :: nat)" "0 + 8 \<le> (24 :: nat)"
    "16 + 0 = (16 :: nat)" "8 + 0 = (8 :: nat)" "0 + 0 = (0 :: nat)" by simp_all
  note bytes = bits_byte64 [OF three_characters(3) [of w v]]
  show ?thesis
    unfolding first second third fourth
      bytes [OF shifts(1,4)] bytes [OF shifts(2,5)] bytes [OF shifts(3,6)] by blast
qed

lemma decode_pads:
  "decode64_loop 0 w decoded [six_bits v 18, six_bits v 12, base64_pad, c] = Some (decoded @ [byte64 v 16])"
  "decode64_loop 0 w decoded [six_bits v 18, six_bits v 12, six_bits v 6, base64_pad] = Some (decoded @ [byte64 v 16, byte64 v 8])"
proof -
  have less: "18 \<le> (18 :: nat)" "12 \<le> (18 :: nat)" "6 \<le> (18 :: nat)"
    and steps: "0 + 1 = (1 :: nat)" "1 + 1 = (2 :: nat)" "2 + 1 = (3 :: nat)" "0 \<noteq> (3 :: nat)" "1 \<noteq> (3 :: nat)" "2 \<noteq> (3 :: nat)" by simp_all
  note symbols = less [THEN six_symbol, of v]
  note first = decode_symbol(1) [OF symbols(1) steps(4), unfolded steps(1)]
  note second = decode_symbol(1) [OF symbols(2) steps(5), unfolded steps(2)]
  note third = decode_symbol(1) [OF symbols(3) steps(6), unfolded steps(3)]
  have pad: "symbol64 base64_pad = None" by code_simp
  have shifted: "byte64 (push_bit 6 u) (n + 6) = byte64 u n" if "n \<le> 18" for u n
    unfolding byte64_def by (intro bit_word_eqI) (use that in \<open>auto simp: bit_simps\<close>)
  have bounds: "4 + 8 \<le> (12 :: nat)" "4 + 12 = (16 :: nat)" "10 + 8 \<le> (18 :: nat)" "10 + 6 = (16 :: nat)"
    "2 + 8 \<le> (18 :: nat)" "2 + 6 = (8 :: nat)" by simp_all
  note one = bits_byte64 [OF three_characters(1) [of w v] bounds(1,2)]
  note two = bits_byte64 [OF three_characters(2) [of w v] bounds(3,4)] bits_byte64 [OF three_characters(2) [of w v] bounds(5,6)]
  have ends: "decode64_loop p u ds [base64_pad] = Some (ds @ [byte64 (push_bit 6 u) 16, byte64 (push_bit 6 u) 8])"
    "decode64_loop p u ds [base64_pad, c] = Some (ds @ [byte64 (push_bit 6 u) 10])" for p u ds
    by (simp_all add: pad Let_def)
  have pushed: "byte64 (push_bit 6 u) 16 = byte64 u 10" "byte64 (push_bit 6 u) 8 = byte64 u 2" "byte64 (push_bit 6 u) 10 = byte64 u 4" for u
    using shifted [of 10 u] shifted [of 2 u] shifted [of 4 u] by simp_all
  show "decode64_loop 0 w decoded [six_bits v 18, six_bits v 12, base64_pad, c] = Some (decoded @ [byte64 v 16])"
    unfolding first second ends pushed one ..
  show "decode64_loop 0 w decoded [six_bits v 18, six_bits v 12, six_bits v 6, base64_pad] = Some (decoded @ [byte64 v 16, byte64 v 8])"
    unfolding first second third ends pushed two ..
qed

lemma encode64_group: "encode_base64 (a # b # c # bs) = six_bits (push_bit 16 (ucast a) + push_bit 8 (ucast b) + ucast c) 18 #
    six_bits (push_bit 16 (ucast a) + push_bit 8 (ucast b) + ucast c) 12 #
    six_bits (push_bit 16 (ucast a) + push_bit 8 (ucast b) + ucast c) 6 #
    six_bits (push_bit 16 (ucast a) + push_bit 8 (ucast b) + ucast c) 0 # encode_base64 bs"
  unfolding encode_base64.simps(4) Let_def append_Cons append_Nil ..

lemma encode64_rest: "encode_base64 [a] = [six_bits (push_bit 16 (ucast a)) 18, six_bits (push_bit 16 (ucast a)) 12, base64_pad, base64_pad]"
  "encode_base64 [a, b] = [six_bits (push_bit 16 (ucast a) + push_bit 8 (ucast b)) 18,
     six_bits (push_bit 16 (ucast a) + push_bit 8 (ucast b)) 12, six_bits (push_bit 16 (ucast a) + push_bit 8 (ucast b)) 6, base64_pad]"
  unfolding encode_base64.simps(2,3) Let_def by (rule refl)+

lemma encode64_length: "length (encode_base64 bs) mod 4 = 0"
proof (induction bs rule: encode_base64.induct)
  case (4 a b c rest) then show ?case unfolding encode64_group by simp
qed (simp_all only: encode64_rest encode_base64.simps(1) list.size, simp_all)

lemma rest_bytes: "byte64 (push_bit 16 (ucast a)) 16 = a" "byte64 (push_bit 16 (ucast a) + push_bit 8 (ucast b)) 16 = a"
  "byte64 (push_bit 16 (ucast a) + push_bit 8 (ucast b)) 8 = b"
  using joined_bytes [of a 0 0] joined_bytes [of a b 0] by simp_all

lemma decode64_encoded: "decode64_loop 0 w decoded (encode_base64 bs) = Some (decoded @ bs)"
proof (induction bs arbitrary: w decoded rule: encode_base64.induct)
  case 1 then show ?case by simp
next
  case (2 a) show ?case unfolding encode64_rest decode_pads rest_bytes ..
next
  case (3 a b) show ?case unfolding encode64_rest decode_pads rest_bytes ..
next
  case (4 a b c rest)
  let ?v = "push_bit 16 (ucast a) + push_bit 8 (ucast b) + ucast c :: 32 word"
  obtain u where "decode64_loop 0 w decoded (encode_base64 (a # b # c # rest)) =
      decode64_loop 0 u (decoded @ [byte64 ?v 16, byte64 ?v 8, byte64 ?v 0]) (encode_base64 rest)"
    unfolding encode64_group using decode_four by blast
  moreover have "decode64_loop 0 u' decoded' (encode_base64 rest) = Some (decoded' @ rest)" for u' decoded' by (rule 4 [OF refl refl refl])
  ultimately show ?case unfolding joined_bytes by simp
qed

text \<open>Bytes decode from their base 64.\<close>
theorem base64_roundtrip: "decode_base64 (encode_base64 bs) = Some bs"
  using decode64_encoded [of 0 "[]" bs] encode64_length by (simp add: decode_base64_def)

text \<open>
  Behind the first of two pad characters the decoder does not look: any character ends a text of
  one more byte than whole groups.
\<close>
theorem base64_ignores_last_pad: "decode_base64 (butlast (encode_base64 [a]) @ [c]) = Some [a]"
proof -
  have "butlast (encode_base64 [a]) @ [c] = [six_bits (push_bit 16 (ucast a)) 18, six_bits (push_bit 16 (ucast a)) 12, base64_pad, c]"
    unfolding encode64_rest by simp
  then show ?thesis using decode_pads(1) [of 0 "[]" "push_bit 16 (ucast a)" c] rest_bytes(1) [of a]
    by (simp add: decode_base64_def del: decode64_loop.simps)
qed

theorem base85_roundtrip_witness: "\<exists>s. encode_base85 [0x86, 0x4f, 0xd2, 0x6f] = Some s \<and> decode_base85 s = Some [0x86, 0x4f, 0xd2, 0x6f]"
  by (rule base85_roundtrip) simp

end
