(* ===== verification/Golomb.thy ===== *)
theory Golomb
  imports Bits "HOL-Library.Product_Lexorder"
begin

text \<open>
  Golomb coded sets (\<open>src/filter/golomb.cpp\<close>) over the keyed hash of \<open>src/hash/siphash.cpp\<close>. The items
  of a set are hashed into a range, sorted, and the differences written as a unary quotient and a
  binary remainder; matching decodes the differences again. A match of one item is exact on the range,
  so an item of the set is always found; a match of several items is not.
\<close>

section \<open>The hash\<close>

type_synonym siphash_key = "u64 \<times> u64"
type_synonym sip_state = "u64 \<times> u64 \<times> u64 \<times> u64"

definition siphash_magic_0 :: u64 where "siphash_magic_0 = 0x736f6d6570736575"
definition siphash_magic_1 :: u64 where "siphash_magic_1 = 0x646f72616e646f6d"
definition siphash_magic_2 :: u64 where "siphash_magic_2 = 0x6c7967656e657261"
definition siphash_magic_3 :: u64 where "siphash_magic_3 = 0x7465646279746573"
definition finalization :: u64 where "finalization = 0x00000000000000ff"

definition to_length :: "nat \<Rightarrow> u64" where
  "to_length bytes = push_bit ((8 - 1) * 8) (word_of_nat (bytes mod 256))"

definition sip_initialize :: "siphash_key \<Rightarrow> sip_state" where
  "sip_initialize key = (siphash_magic_0 XOR fst key, siphash_magic_1 XOR snd key,
     siphash_magic_2 XOR fst key, siphash_magic_3 XOR snd key)"

definition rol :: "nat \<Rightarrow> u64 \<Rightarrow> u64" where
  "rol n w = push_bit n w OR drop_bit (64 - n) w"

definition sip_round :: "sip_state \<Rightarrow> sip_state" where
  "sip_round v = (let (v0, v1, v2, v3) = v;
     v0 = v0 + v1; v2 = v2 + v3; v1 = rol 13 v1; v3 = rol 16 v3; v1 = v1 XOR v0; v3 = v3 XOR v2;
     v0 = rol 32 v0;
     v2 = v2 + v1; v0 = v0 + v3; v1 = rol 17 v1; v3 = rol 21 v3; v1 = v1 XOR v2; v3 = v3 XOR v0;
     v2 = rol 32 v2
     in (v0, v1, v2, v3))"

definition compression_round :: "u64 \<Rightarrow> sip_state \<Rightarrow> sip_state" where
  "compression_round w v = (let (v0, v1, v2, v3) = v; v3 = v3 XOR w;
     (v0, v1, v2, v3) = sip_round (sip_round (v0, v1, v2, v3)); v0 = v0 XOR w in (v0, v1, v2, v3))"

definition sip_finalize :: "sip_state \<Rightarrow> u64 \<Rightarrow> u64 \<Rightarrow> u64" where
  "sip_finalize v last_word final = (let (v0, v1, v2, v3) = compression_round last_word v; v2 = v2 XOR final;
     (v0, v1, v2, v3) = sip_round (sip_round (sip_round (sip_round (v0, v1, v2, v3)))) in (v0 XOR v1) XOR (v2 XOR v3))"

fun sip_words :: "nat \<Rightarrow> sip_state \<Rightarrow> reader \<Rightarrow> sip_state \<times> reader" where
  "sip_words 0 v r = (v, r)"
| "sip_words (Suc n) v r = (let (w, r) = read_little_endian 8 r in sip_words n (compression_round (word_of_nat w) v) r)"

definition siphash :: "siphash_key \<Rightarrow> data_chunk \<Rightarrow> u64" where
  "siphash key message = (let bytes = length message; (v, r) = sip_words (bytes div 8) (sip_initialize key) (reader_of message);
     (last_word, r) = read_little_endian 8 r
     in sip_finalize v (word_of_nat last_word XOR to_length bytes) finalization)"

definition siphash_of_words :: "siphash_key \<Rightarrow> u64 list \<Rightarrow> u64" where
  "siphash_of_words key message = sip_finalize (fold compression_round message (sip_initialize key)) (to_length 32) finalization"

definition to_siphash_key :: "data_chunk \<Rightarrow> siphash_key" where
  "to_siphash_key hash = (word_of_nat (le_value (take 8 hash)), word_of_nat (le_value (drop 8 hash)))"

section \<open>Codes\<close>

fun golomb_ones :: "nat \<Rightarrow> bit_writer \<Rightarrow> nat \<times> bit_writer" where
  "golomb_ones q w = (if q \<ge> 64 then golomb_ones (q - 64) (write_bits (- 1) 64 w) else (q, w))"

declare golomb_ones.simps [simp del]

definition golomb_encode :: "bit_writer \<Rightarrow> u64 \<Rightarrow> nat \<Rightarrow> bit_writer" where
  "golomb_encode w v modulo_exponent =
     (let q = unat (drop_bit modulo_exponent v);
          (q, w) = golomb_ones q w;
          ones = mask q;
          w = write_bits (push_bit 1 ones) (q + 1) w
      in write_bits v modulo_exponent w)"

text \<open>The unary part ends at the latest where the stream does, which reads as zeros from there.\<close>

definition bits_left :: "bit_reader \<Rightarrow> nat" where
  "bits_left r = (8 - brd_offset r) + 8 * (length (rbuf (brd_source r)) - rpos (brd_source r))"

lemma one_bit_left: "read_bit r = (True, s) \<Longrightarrow> bits_left s < bits_left r"
  by (auto simp: read_bit_def brd_load_def brd_shift_def bits_left_def do_read_bytes_def limiter_def istream_read_def
      invalidate_def get_left_def Let_def split: if_splits)

function read_ones :: "u64 \<Rightarrow> bit_reader \<Rightarrow> u64 \<times> bit_reader" where
  "read_ones q r = (case read_bit r of (True, r) \<Rightarrow> read_ones (q + 1) r | (False, r) \<Rightarrow> (q, r))"
  by pat_completeness auto
termination by (relation "measure (\<lambda>(q, r). bits_left r)") (auto dest: one_bit_left [OF sym])

declare read_ones.simps [simp del]

definition golomb_decode :: "bit_reader \<Rightarrow> nat \<Rightarrow> u64 \<times> bit_reader" where
  "golomb_decode r modulo_exponent = (let (q, r) = read_ones 0 r; (remainder, r) = read_bits modulo_exponent r in
     (push_bit modulo_exponent q + remainder, r))"

definition to_range :: "u64 \<Rightarrow> u64 \<Rightarrow> u64" where
  "to_range hash bound = word_of_nat (unat hash * unat bound div 2 ^ 64)"

definition hash_to_range :: "data_chunk \<Rightarrow> u64 \<Rightarrow> siphash_key \<Rightarrow> u64" where
  "hash_to_range item bound key = to_range (siphash key item) bound"

definition is_multiply_overflow :: "u64 \<Rightarrow> u64 \<Rightarrow> bool" where
  "is_multiply_overflow left right \<longleftrightarrow> right \<noteq> 0 \<and> left > - 1 div right"

section \<open>Sets\<close>

text \<open>
  Hashes paired with the index of their item are sorted; of a run of equal hashes those of equal items
  are dropped.
\<close>

definition hash_pairs :: "siphash_key \<Rightarrow> data_chunk list \<Rightarrow> (u64 \<times> nat) list" where
  "hash_pairs key items = sort (map (\<lambda>i. (siphash key (items ! i), i)) [0..<length items])"

fun distinct_run :: "data_chunk list \<Rightarrow> (u64 \<times> nat) list \<Rightarrow> (u64 \<times> nat) list \<Rightarrow> u64 list" where
  "distinct_run items run [] = []"
| "distinct_run items run (p # ps) = (let run = (if run \<noteq> [] \<and> fst p \<noteq> fst (hd run) then [] else run) in
     (if list_all (\<lambda>q. items ! snd q \<noteq> items ! snd p) run then [fst p] else []) @ distinct_run items (run @ [p]) ps)"

definition hash_distinct :: "siphash_key \<Rightarrow> data_chunk list \<Rightarrow> u64 list" where
  "hash_distinct key items = distinct_run items [] (hash_pairs key items)"

definition hashed_set_construct :: "data_chunk list \<Rightarrow> u64 \<Rightarrow> u64 \<Rightarrow> siphash_key \<Rightarrow> u64 list" where
  "hashed_set_construct items set_size rate key =
     (if is_multiply_overflow rate set_size then []
      else let bound = rate * set_size in sort (map (\<lambda>item. hash_to_range item bound key) items))"

fun write_differences :: "u64 \<Rightarrow> u64 list \<Rightarrow> nat \<Rightarrow> bit_writer \<Rightarrow> bit_writer" where
  "write_differences previous [] bits w = w"
| "write_differences previous (v # vs) bits w = write_differences v vs bits (golomb_encode w (v - previous) bits)"

definition golomb_construct_hashes :: "bit_writer \<Rightarrow> u64 list \<Rightarrow> nat \<Rightarrow> u64 \<Rightarrow> bit_writer" where
  "golomb_construct_hashes w hashes bits rate =
     (let count = word_of_nat (length hashes) in
      if is_multiply_overflow rate count then w
      else let bound = rate * count in write_differences 0 (map (\<lambda>h. to_range h bound) hashes) bits w)"

definition golomb_construct_items :: "bit_writer \<Rightarrow> data_chunk list \<Rightarrow> nat \<Rightarrow> siphash_key \<Rightarrow> u64 \<Rightarrow> bit_writer" where
  "golomb_construct_items w items bits key rate =
     write_differences 0 (hashed_set_construct items (word_of_nat (length items)) rate key) bits w"

definition golomb_construct :: "data_chunk list \<Rightarrow> nat \<Rightarrow> siphash_key \<Rightarrow> u64 \<Rightarrow> data_chunk" where
  "golomb_construct items bits key rate = bwr_sink (bwr_flusher (golomb_construct_items new_bit_writer items bits key rate))"

definition construct_bound :: "nat \<Rightarrow> nat \<Rightarrow> u64 \<Rightarrow> nat" where
  "construct_bound count bits rate =
     (let remainders = word_of_nat count * (word_of_nat bits + 1) :: u64;
          quotients = drop_bit bits (rate * word_of_nat count);
          sum = unat (remainders + quotients)
      in sum div 8 + (if sum mod 8 \<noteq> 0 then 1 else 0))"

section \<open>Matching\<close>

fun match_loop :: "nat \<Rightarrow> u64 \<Rightarrow> u64 \<Rightarrow> nat \<Rightarrow> bit_reader \<Rightarrow> bool" where
  "match_loop 0 previous limit bits r = False"
| "match_loop (Suc n) previous limit bits r = (let (d, r) = golomb_decode r bits; v = previous + d in
     if v = limit then True else if v > limit then False else match_loop n v limit bits r)"

definition match_single :: "bit_reader \<Rightarrow> data_chunk \<Rightarrow> u64 \<Rightarrow> siphash_key \<Rightarrow> nat \<Rightarrow> u64 \<Rightarrow> bool" where
  "match_single r target set_size key bits rate =
     (let bound = rate * set_size; limit = hash_to_range target bound key in match_loop (unat set_size) 0 limit bits r)"

definition match_single_set :: "data_chunk \<Rightarrow> data_chunk \<Rightarrow> u64 \<Rightarrow> siphash_key \<Rightarrow> nat \<Rightarrow> u64 \<Rightarrow> bool" where
  "match_single_set compressed target set_size key bits rate =
     match_single (new_bit_reader (reader_of compressed)) target set_size key bits rate"

text \<open>
  The loop of the code over the targets, in its order: the value of the loop is the one before the
  increment of the iterator, and the end is tested before the value is compared.
\<close>

function match_targets :: "u64 list \<Rightarrow> u64 \<Rightarrow> u64 \<Rightarrow> nat \<Rightarrow> bool \<times> nat" where
  "match_targets targets limit v it = (if it \<ge> length targets then (False, it)
     else if v = limit then (True, it) else if v > limit then (False, it)
     else match_targets targets limit (targets ! it) (it + 1))"
  by pat_completeness auto
termination by (relation "measure (\<lambda>(ts, limit, v, it). length ts - it)") auto

declare match_targets.simps [simp del]

fun match_stack_loop :: "nat \<Rightarrow> u64 list \<Rightarrow> u64 \<Rightarrow> nat \<Rightarrow> nat \<Rightarrow> bit_reader \<Rightarrow> bool" where
  "match_stack_loop 0 targets limit it bits r = False"
| "match_stack_loop (Suc n) targets limit it bits r = (if it \<ge> length targets then False
     else let (d, r) = golomb_decode r bits; limit = limit + d; (found, it) = match_targets targets limit (targets ! it) it in
       if found then True else match_stack_loop n targets limit it bits r)"

definition match_stack :: "bit_reader \<Rightarrow> data_chunk list \<Rightarrow> u64 \<Rightarrow> siphash_key \<Rightarrow> nat \<Rightarrow> u64 \<Rightarrow> bool" where
  "match_stack r targets set_size key bits rate = (if targets = [] then False
     else match_stack_loop (unat set_size) (hashed_set_construct targets set_size rate key) 0 0 bits r)"

definition match_stack_set :: "data_chunk \<Rightarrow> data_chunk list \<Rightarrow> u64 \<Rightarrow> siphash_key \<Rightarrow> nat \<Rightarrow> u64 \<Rightarrow> bool" where
  "match_stack_set compressed targets set_size key bits rate =
     match_stack (new_bit_reader (reader_of compressed)) targets set_size key bits rate"

section \<open>Codes are read back\<close>

definition golomb_code :: "nat \<Rightarrow> u64 \<Rightarrow> bool list" where
  "golomb_code e v = replicate (unat (drop_bit e v)) True @ False # word_bits e v"

lemma word_bits_ones: "n \<le> 64 \<Longrightarrow> word_bits n (- 1 :: u64) = replicate n True"
  by (intro nth_equalityI) auto

lemma golomb_ones_bits:
  assumes "writer_ok w"
  shows "\<exists>q u. golomb_ones n w = (q, u) \<and> q < 64 \<and> writer_ok u \<and> writer_bits u @ replicate q True = writer_bits w @ replicate n True"
  using assms
proof (induction n w rule: golomb_ones.induct)
  case (1 n w)
  show ?case
  proof (cases "n \<ge> 64")
    case True
    obtain q u where "golomb_ones (n - 64) (write_bits (- 1) 64 w) = (q, u)" "q < 64" "writer_ok u"
        "writer_bits u @ replicate q True = writer_bits (write_bits (- 1) 64 w) @ replicate (n - 64) True"
      using "1.IH" [OF True write_bits_bits(2) [OF 1(2)]] by auto
    moreover have "writer_bits (write_bits (- 1) 64 w) @ replicate (n - 64) True = writer_bits w @ replicate n True"
      using write_bits_bits(1) [OF 1(2), of 64 "- 1"] word_bits_ones [of 64] True by (simp add: replicate_add [symmetric])
    ultimately show ?thesis using True by (simp add: golomb_ones.simps [of n])
  next
    case False
    then show ?thesis using 1(2) by (simp add: golomb_ones.simps [of n])
  qed
qed

lemma ones_bits: "q < 64 \<Longrightarrow> word_bits (q + 1) (push_bit 1 (mask q) :: u64) = replicate q True @ [False]"
proof -
  assume q: "q < 64"
  have bits: "word_bits (q + 1) x = replicate q True @ [False]" if "\<And>i. i < 64 \<Longrightarrow> bit x i = (1 \<le> i \<and> i - 1 < q)" for x :: u64
    using that q by (intro nth_equalityI) (auto simp: nth_append)
  show ?thesis by (rule bits) (simp only: bit_push_bit_iff bit_mask_iff, use q in auto)
qed

lemma golomb_encode_bits:
  assumes "writer_ok w" "e \<le> 64"
  shows "writer_bits (golomb_encode w v e) = writer_bits w @ golomb_code e v" "writer_ok (golomb_encode w v e)"
proof -
  obtain q u where q: "golomb_ones (unat (drop_bit e v)) w = (q, u)" "q < 64" "writer_ok u"
      "writer_bits u @ replicate q True = writer_bits w @ replicate (unat (drop_bit e v)) True"
    using golomb_ones_bits [OF assms(1)] by blast
  let ?x = "write_bits (push_bit 1 (mask q)) (q + 1) u"
  have x: "writer_bits ?x = writer_bits u @ word_bits (q + 1) (push_bit 1 (mask q) :: u64)" "writer_ok ?x"
    using write_bits_bits [OF q(3), of "q + 1"] q(2) by simp_all
  have "golomb_encode w v e = write_bits v e ?x" by (simp add: golomb_encode_def q(1) Let_def)
  then show "writer_bits (golomb_encode w v e) = writer_bits w @ golomb_code e v" "writer_ok (golomb_encode w v e)"
    using write_bits_bits [OF x(2) assms(2), of v] x(1) ones_bits [OF q(2)] q(4)
    by (simp_all add: golomb_code_def)
qed

lemma read_ones_bits:
  "live r \<Longrightarrow> reader_bits r = replicate n True @ False # rest \<Longrightarrow>
    \<exists>s. read_ones q r = (q + word_of_nat n, s) \<and> live s \<and> reader_bits s = rest"
proof (induction n arbitrary: q r)
  case 0
  then show ?case using read_bit_live [of r False rest]
    by (cases "read_bit r") (simp add: read_ones.simps [of q r])
next
  case (Suc n)
  obtain s where s: "read_bit r = (True, s)" "live s" "reader_bits s = replicate n True @ False # rest"
    using read_bit_live [of r True "replicate n True @ False # rest"] Suc.prems by (cases "read_bit r") auto
  then obtain t where "read_ones (q + 1) s = (q + 1 + word_of_nat n, t)" "live t" "reader_bits t = rest"
    using Suc.IH by blast
  with s(1) show ?case by (simp add: read_ones.simps [of q r] add.assoc)
qed

lemma read_bits_word:
  assumes "live r" "reader_bits r = word_bits n (v :: u64) @ rest" "n \<le> 64"
  shows "fst (read_bits n r) = take_bit n v" "live (snd (read_bits n r))" "reader_bits (snd (read_bits n r)) = rest"
proof -
  note l = read_list_live [OF assms(1), of n] and b = read_bits_list [OF assms(3), of r]
  have "fst (read_list n r) = word_bits n v" using l assms(2) by (simp add: bits_take_def)
  then have "word_bits n (fst (read_bits n r)) = word_bits n v" using b(1) by simp
  then have "bit (fst (read_bits n r)) i = bit v i" if "i < n" for i using that by (simp add: word_bits_eq_iff)
  then show "fst (read_bits n r) = take_bit n v" using b(3)
    by (intro bit_word_eqI) (metis bit_take_bit_iff linorder_not_less)
  show "live (snd (read_bits n r))" "reader_bits (snd (read_bits n r)) = rest" using l b(2) assms(2) by simp_all
qed

lemma golomb_decode_bits:
  assumes "live r" "reader_bits r = golomb_code e v @ rest" "e < 64"
  shows "\<exists>s. golomb_decode r e = (v, s) \<and> live s \<and> reader_bits s = rest"
proof -
  obtain s where s: "read_ones 0 r = (0 + word_of_nat (unat (drop_bit e v)), s)" "live s" "reader_bits s = word_bits e v @ rest"
    using read_ones_bits [OF assms(1), of "unat (drop_bit e v)" "word_bits e v @ rest" 0] assms(2) by (auto simp: golomb_code_def)
  have "push_bit e (drop_bit e v) + take_bit e v = v" by (metis bits_ident)
  then show ?thesis using read_bits_word [OF s(2,3)] s(1) assms(3)
    by (cases "read_bits e s") (simp add: golomb_decode_def)
qed

text \<open>A value is decoded from its code, whatever follows.\<close>
theorem golomb_roundtrip:
  assumes "bits_of bs = golomb_code e v @ rest" "e < 64" "length bs \<le> max_size_t"
  shows "fst (golomb_decode (new_bit_reader (reader_of bs)) e) = v"
  using golomb_decode_bits [OF new_reader_live, of bs e v rest] new_reader_bits [OF assms(3)] assms by auto

section \<open>Sets are read back\<close>

fun differences_code :: "u64 \<Rightarrow> u64 list \<Rightarrow> nat \<Rightarrow> bool list" where
  "differences_code previous [] e = []"
| "differences_code previous (v # vs) e = golomb_code e (v - previous) @ differences_code v vs e"

lemma write_differences_bits:
  "writer_ok w \<Longrightarrow> e \<le> 64 \<Longrightarrow> writer_bits (write_differences previous vs e w) = writer_bits w @ differences_code previous vs e \<and>
    writer_ok (write_differences previous vs e w)"
  using golomb_encode_bits by (induction vs arbitrary: previous w) simp_all

lemma match_loop_exact:
  "live r \<Longrightarrow> reader_bits r = differences_code previous vs e @ rest \<Longrightarrow> e < 64 \<Longrightarrow> sorted vs \<Longrightarrow>
    match_loop (length vs) previous limit e r \<longleftrightarrow> limit \<in> set vs"
proof (induction vs arbitrary: previous r)
  case (Cons v vs)
  obtain s where s: "golomb_decode r e = (v - previous, s)" "live s" "reader_bits s = differences_code v vs e @ rest"
    using golomb_decode_bits [of r e "v - previous" "differences_code v vs e @ rest"] Cons.prems by auto
  have "limit \<notin> set vs" if "v > limit" using that Cons.prems(4) by force
  with s Cons.IH [OF s(2,3)] Cons.prems show ?case by auto
qed simp

lemma to_range_mono: "h \<le> k \<Longrightarrow> to_range h bound \<le> to_range k bound"
proof -
  assume "h \<le> k"
  have less: "unat x * unat bound div 2 ^ 64 < 2 ^ 64" for x :: u64
  proof -
    have word: "unat y < 2 ^ 64" for y :: u64 using unsigned_less [of y] by simp
    have "unat x * unat bound < 2 ^ 64 * 2 ^ 64" by (rule mult_strict_mono) (use word in simp_all)
    then show ?thesis by (rule less_mult_imp_div_less)
  qed
  have "unat h * unat bound div 2 ^ 64 \<le> unat k * unat bound div 2 ^ 64"
    using \<open>h \<le> k\<close> by (intro div_le_mono mult_le_mono1) (simp add: word_le_nat_alt)
  then show ?thesis using less [of h] less [of k] by (simp add: to_range_def word_le_nat_alt unat_of_nat)
qed

lemma construct_reader:
  assumes "length bs \<le> max_size_t" "bits_of bs = bits @ rest"
  shows "live (new_bit_reader (reader_of bs))" "reader_bits (new_bit_reader (reader_of bs)) = bits @ rest"
  using new_reader_live new_reader_bits [OF assms(1)] assms(2) by simp_all

text \<open>
  The match of one target against the set that was constructed from items is exact: the target's
  range value is one of the items'. So an item of the set is found.
\<close>
theorem golomb_match_exact:
  assumes "bits < 64" "length (golomb_construct items bits key rate) \<le> max_size_t" "length items < 2 ^ 64"
    "\<not> is_multiply_overflow rate (word_of_nat (length items))"
  shows "match_single_set (golomb_construct items bits key rate) target (word_of_nat (length items)) key bits rate \<longleftrightarrow>
    (\<exists>item \<in> set items. hash_to_range item (rate * word_of_nat (length items)) key = hash_to_range target (rate * word_of_nat (length items)) key)"
proof -
  let ?n = "word_of_nat (length items) :: u64" let ?bound = "rate * ?n"
  let ?vs = "sort (map (\<lambda>item. hash_to_range item ?bound key) items)"
  let ?w = "write_differences 0 ?vs bits new_bit_writer"
  have set: "hashed_set_construct items ?n rate key = ?vs" using assms(4) by (simp add: hashed_set_construct_def)
  have w: "writer_bits ?w = differences_code 0 ?vs bits" "writer_ok ?w"
    using write_differences_bits [OF new_writer(2), of bits 0 ?vs] assms(1) new_writer(1) by simp_all
  have bits: "bits_of (golomb_construct items bits key rate) = differences_code 0 ?vs bits @
      replicate ((8 - length (writer_bits ?w) mod 8) mod 8) False"
    using flusher_bits [OF w(2)] w(1) by (simp add: golomb_construct_def golomb_construct_items_def set)
  have n: "unat ?n = length ?vs" using assms(3) by (simp add: unat_of_nat)
  have "match_single_set (golomb_construct items bits key rate) target ?n key bits rate \<longleftrightarrow> hash_to_range target ?bound key \<in> set ?vs"
    unfolding match_single_set_def match_single_def Let_def n
    using match_loop_exact [OF construct_reader [OF assms(2) bits] assms(1), of "hash_to_range target ?bound key"] by simp
  then show ?thesis by (auto simp: image_iff eq_commute)
qed

section \<open>Several targets\<close>

text \<open>
  With two targets, the smaller of them below the first value of the set and the larger equal to
  it, the loop steps over the larger: the set is not matched, though the larger is in it.
\<close>
theorem match_stack_misses:
  assumes "low < high" "bits_of bs = golomb_code e high @ rest" "e < 64" "length bs \<le> max_size_t"
  shows "\<not> match_stack_loop 1 [low, high] 0 0 e (new_bit_reader (reader_of bs)) \<and>
    match_loop 1 0 high e (new_bit_reader (reader_of bs))"
proof -
  obtain s where s: "golomb_decode (new_bit_reader (reader_of bs)) e = (high, s)"
    using golomb_decode_bits [OF construct_reader [OF assms(4,2)] assms(3)] by blast
  have "match_targets [low, high] high low 0 = (False, 2)"
    using less_not_sym [OF assms(1)] less_imp_neq [OF assms(1)] by (simp add: match_targets.simps [of _ _ _ 0] match_targets.simps [of _ _ _ "Suc 0"] match_targets.simps [of _ _ _ "Suc (Suc 0)"] eval_nat_numeral)
  then show ?thesis using s by (simp add: eval_nat_numeral(2))
qed
section \<open>Distinct hashes\<close>

lemma distinct_run_set: "set (distinct_run items run ps) \<subseteq> fst ` set ps \<and>
    fst ` set ps \<subseteq> set (distinct_run items run ps) \<union> fst ` set run"
proof (induction items run ps rule: distinct_run.induct)
  case (2 items run p ps)
  define run' where "run' = (if run \<noteq> [] \<and> fst p \<noteq> fst (hd run) then [] else run)"
  define kept where "kept = (if list_all (\<lambda>q. items ! snd q \<noteq> items ! snd p) run' then [fst p] else [])"
  define rest where "rest = distinct_run items (run' @ [p]) ps"
  have step: "distinct_run items run (p # ps) = kept @ rest" by (simp add: Let_def kept_def run'_def rest_def)
  have first: "fst p \<in> set kept \<union> fst ` set run" unfolding kept_def run'_def by (cases run) auto
  have "set run' \<subseteq> set run" by (simp add: run'_def)
  then have run: "fst ` set (run' @ [p]) \<subseteq> insert (fst p) (fst ` set run)" by auto
  have kept: "set kept \<subseteq> {fst p}" by (auto simp: kept_def)
  have IH: "set rest \<subseteq> fst ` set ps" "fst ` set ps \<subseteq> set rest \<union> fst ` set (run' @ [p])"
    using "2.IH" [OF run'_def] unfolding rest_def by blast+
  have "set (kept @ rest) \<subseteq> fst ` set (p # ps)" using kept IH(1) by auto
  moreover have "fst ` set (p # ps) \<subseteq> set (kept @ rest) \<union> fst ` set run"
  proof -
    have "fst ` set ps \<subseteq> set rest \<union> insert (fst p) (fst ` set run)" using IH(2) run by blast
    moreover have "insert x T \<subseteq> (K \<union> R) \<union> S" if "T \<subseteq> R \<union> insert x S" "x \<in> K \<union> S" for x :: u64 and S T K R using that by blast
    ultimately show ?thesis using first by (simp only: set_append list.set image_insert)
  qed
  ultimately show ?case unfolding step ..
qed simp

lemma distinct_run_sorted: "sorted (map fst ps) \<Longrightarrow> sorted (distinct_run items run ps)"
proof (induction items run ps rule: distinct_run.induct)
  case (2 items run p ps)
  let ?run = "if run \<noteq> [] \<and> fst p \<noteq> fst (hd run) then [] else run"
  have "set (distinct_run items (?run @ [p]) ps) \<subseteq> fst ` set ps" using distinct_run_set by blast
  moreover have "\<forall>x \<in> fst ` set ps. fst p \<le> x" using "2.prems" by simp
  ultimately have "\<forall>x \<in> set (distinct_run items (?run @ [p]) ps). fst p \<le> x" by blast
  then show ?case using "2.IH" [OF refl] "2.prems" by (simp add: Let_def sorted_append)
qed simp

lemma hash_pairs_sorted: "sorted (map fst (hash_pairs key items))"
proof -
  have "sorted (map fst ps)" if "sorted ps" for ps :: "(u64 \<times> nat) list"
    using that by (induction ps) (auto simp: less_eq_prod_def)
  then show ?thesis by (simp add: hash_pairs_def)
qed

lemma hash_distinct_set: "set (hash_distinct key items) = siphash key ` set items"
proof -
  have "fst ` set (hash_pairs key items) = siphash key ` set items"
    using nth_image [of "length items" items] by (simp add: hash_pairs_def image_image) (simp add: image_image [symmetric])
  moreover have "set (distinct_run items [] (hash_pairs key items)) = fst ` set (hash_pairs key items)"
    using distinct_run_set [of items "[]" "hash_pairs key items"] by (simp add: set_eq_subset)
  ultimately show ?thesis by (simp add: hash_distinct_def)
qed

lemma hash_distinct_sorted: "sorted (hash_distinct key items)"
  unfolding hash_distinct_def by (rule distinct_run_sorted) (rule hash_pairs_sorted)

text \<open>A run holds the pairs of the last hash, so an equal item is in it when there was one.\<close>

lemma distinct_run_card:
  fixes H :: "data_chunk \<Rightarrow> u64"
  assumes "\<forall>q\<in>set (finished @ ps). fst q = H (items ! snd q)" "sorted (map fst (finished @ ps))"
    "run = filter (\<lambda>q. fst q = fst (last finished)) finished"
  shows "card ((\<lambda>q. items ! snd q) ` set finished) + length (distinct_run items run ps) = card ((\<lambda>q. items ! snd q) ` set (finished @ ps))"
  using assms
proof (induction ps arbitrary: finished run)
  case (Cons p ps)
  let ?I = "\<lambda>q. items ! snd q"
  let ?run = "if run \<noteq> [] \<and> fst p \<noteq> fst (hd run) then [] else run"
  have run: "?run = filter (\<lambda>q. fst q = fst p) finished"
  proof (cases "finished = []")
    case False
    then have "last finished \<in> set run" using Cons.prems(3) by simp
    then have "run \<noteq> []" by auto
    then have "hd run \<in> set run" by simp
    then have "fst (hd run) = fst (last finished)" unfolding Cons.prems(3) by simp
    show ?thesis
    proof (cases "fst p = fst (last finished)")
      case True then show ?thesis using Cons.prems(3) \<open>fst (hd run) = _\<close> by simp
    next
      case False
      have "fst q \<le> fst (last finished)" if "q \<in> set finished" for q
        using Cons.prems(2) that by (cases finished rule: rev_cases) (auto simp: sorted_append)
      moreover have "fst (last finished) \<le> fst p" using Cons.prems(2) \<open>finished \<noteq> []\<close> by (auto simp: sorted_append)
      ultimately have "fst q \<noteq> fst p" if "q \<in> set finished" for q using that False by (metis order.antisym)
      then show ?thesis using False \<open>run \<noteq> []\<close> \<open>fst (hd run) = _\<close> by simp
    qed
  qed (use Cons.prems(3) in simp)
  have same: "fst q = fst p" if "q \<in> set finished" "?I q = ?I p" for q
  proof -
    have "fst q = H (?I q)" "fst p = H (?I p)" using Cons.prems(1) that(1) by simp_all
    then show ?thesis using that(2) by simp
  qed
  have "list_all (\<lambda>q. ?I q \<noteq> ?I p) ?run \<longleftrightarrow> (\<forall>q\<in>set finished. fst q = fst p \<longrightarrow> ?I q \<noteq> ?I p)"
    unfolding run list_all_iff set_filter by blast
  also have "\<dots> \<longleftrightarrow> (\<forall>q\<in>set finished. ?I q \<noteq> ?I p)" using same by blast
  also have "\<dots> \<longleftrightarrow> ?I p \<notin> ?I ` set finished" by (auto simp: image_iff)
  finally have "list_all (\<lambda>q. ?I q \<noteq> ?I p) ?run \<longleftrightarrow> ?I p \<notin> ?I ` set finished" .
  then have "card (?I ` set finished) + length (if list_all (\<lambda>q. ?I q \<noteq> ?I p) ?run then [fst p] else []) = card (?I ` set (finished @ [p]))"
    by (auto simp: insert_absorb)
  moreover have "card (?I ` set (finished @ [p])) + length (distinct_run items (?run @ [p]) ps) = card (?I ` set ((finished @ [p]) @ ps))"
  proof (rule Cons.IH)
    show "?run @ [p] = filter (\<lambda>q. fst q = fst (last (finished @ [p]))) (finished @ [p])" unfolding run by simp
  qed (use Cons.prems in simp_all)
  ultimately show ?case by (simp add: Let_def)
qed simp

lemma hash_distinct_count: "length (hash_distinct key items) = card (set items)"
proof -
  let ?ps = "hash_pairs key items"
  have members: "set ?ps = (\<lambda>i. (siphash key (items ! i), i)) ` {0..<length items}" by (simp add: hash_pairs_def)
  have "(\<lambda>q. items ! snd q) ` set ?ps = set items"
    unfolding members using nth_image [of "length items" items] by (simp add: image_image)
  moreover have "card ((\<lambda>q. items ! snd q) ` set []) + length (distinct_run items [] ?ps) = card ((\<lambda>q. items ! snd q) ` set ([] @ ?ps))"
    using distinct_run_card [of "[]" ?ps "siphash key" items "[]"] hash_pairs_sorted members by auto
  ultimately show ?thesis by (simp add: hash_distinct_def)
qed

text \<open>Every distinct item is hashed once, in the order of the hashes.\<close>
theorem hash_distinct_items:
  "length (hash_distinct key items) = card (set items) \<and> set (hash_distinct key items) = siphash key ` set items \<and>
   sorted (hash_distinct key items)"
  by (simp add: hash_distinct_count hash_distinct_set hash_distinct_sorted)

section \<open>The bound of a set\<close>

lemma to_range_bound: "to_range h bound \<le> bound"
proof -
  have h: "unat h < 2 ^ 64" using unsigned_less [of h] by simp
  have "unat h * unat bound div 2 ^ 64 \<le> 2 ^ 64 * unat bound div 2 ^ 64" using h by (intro div_le_mono mult_le_mono1) simp
  then have le: "unat h * unat bound div 2 ^ 64 \<le> unat bound" by simp
  have "unat bound < 2 ^ 64" using unsigned_less [of bound] by simp
  with le show ?thesis by (simp add: to_range_def word_le_nat_alt unat_of_nat)
qed

lemma differences_length:
  assumes "sorted (previous # vs)" "\<forall>v\<in>set vs. v \<le> bound" "previous \<le> bound"
  shows "length (differences_code previous vs e) \<le> length vs * (e + 1) + (unat bound - unat previous) div 2 ^ e"
  using assms
proof (induction vs arbitrary: previous)
  case (Cons v vs)
  have order: "previous \<le> v" "v \<le> bound" "unat previous \<le> unat v" "unat v \<le> unat bound"
    using Cons.prems by (auto simp: word_le_nat_alt)
  have split: "x div k + y div k \<le> (x + y) div k" for x y k :: nat using div_add1_eq [of x y k] by simp
  have "unat (drop_bit e (v - previous)) = (unat v - unat previous) div 2 ^ e"
    unfolding unat_drop_bit_eq unat_sub [OF order(1)] by (rule drop_bit_eq_div)
  then have "length (golomb_code e (v - previous)) = (unat v - unat previous) div 2 ^ e + e + 1" by (simp add: golomb_code_def)
  moreover have "length (differences_code v vs e) \<le> length vs * (e + 1) + (unat bound - unat v) div 2 ^ e"
    using Cons.prems order by (intro Cons.IH) auto
  moreover have "(unat v - unat previous) div 2 ^ e + (unat bound - unat v) div 2 ^ e \<le> (unat bound - unat previous) div 2 ^ e"
    using split [of "unat v - unat previous" "2 ^ e" "unat bound - unat v"] order(3,4) by simp
  ultimately show ?case by simp
qed simp

lemma whole_bytes: "8 * m = n + (8 - n mod 8) mod 8 \<Longrightarrow> m = (n + 7) div (8 :: nat)"
proof -
  have "m = (n + 7) div 8" if "8 * m = n + r" "r < 8" for r
  proof -
    have "8 * m \<le> n + 7" "n + 7 < 8 + 8 * m" using that by linarith+
    then show ?thesis by (intro div_nat_eqI [symmetric]) simp_all
  qed
  then show "8 * m = n + (8 - n mod 8) mod 8 \<Longrightarrow> m = (n + 7) div 8" by (metis mod_less_divisor zero_less_numeral)
qed

lemma construct_bound_from:
  assumes "sorted hashes" "e < 64" "\<not> is_multiply_overflow rate (word_of_nat (length hashes))"
    "length hashes * (e + 1) + unat (drop_bit e (rate * word_of_nat (length hashes))) < 2 ^ 64"
    "writer_ok w" "length (writer_bits w) = 8 * k"
  shows "length (bwr_sink (bwr_flusher (golomb_construct_hashes w hashes e rate))) \<le> k + construct_bound (length hashes) e rate"
proof -
  let ?n = "length hashes" let ?bound = "rate * word_of_nat (length hashes) :: u64"
  let ?vs = "map (\<lambda>h. to_range h ?bound) hashes" let ?w = "write_differences 0 ?vs e w"
  have "sorted (0 # ?vs)" using assms(1) to_range_mono by (auto simp: sorted_map intro: sorted_wrt_mono_rel)
  then have "length (differences_code 0 ?vs e) \<le> ?n * (e + 1) + unat ?bound div 2 ^ e"
    using differences_length [of 0 ?vs ?bound e] to_range_bound by simp
  also have "\<dots> = ?n * (e + 1) + unat (drop_bit e ?bound)" unfolding unat_drop_bit_eq drop_bit_eq_div [where 'a = nat] ..
  also have "\<dots> = unat (word_of_nat ?n * (word_of_nat e + 1) + drop_bit e ?bound)"
  proof -
    have "word_of_nat (?n * (e + 1) + unat (drop_bit e ?bound)) = word_of_nat ?n * (word_of_nat e + 1) + drop_bit e ?bound"
      by (simp add: algebra_simps)
    moreover have "unat (word_of_nat m :: u64) = m" if "m < 2 ^ 64" for m using that by (simp add: unat_of_nat)
    ultimately show ?thesis using assms(4) by metis
  qed
  finally have bits: "length (differences_code 0 ?vs e) \<le> unat (word_of_nat ?n * (word_of_nat e + 1) + drop_bit e ?bound)" .
  have w: "writer_bits ?w = writer_bits w @ differences_code 0 ?vs e" "writer_ok ?w"
    using write_differences_bits [OF assms(5), of e 0 ?vs] assms(2) by simp_all
  have "8 * length (bwr_sink (bwr_flusher ?w)) = length (writer_bits ?w) + (8 - length (writer_bits ?w) mod 8) mod 8"
    using arg_cong [OF flusher_bits [OF w(2)], of length] by simp
  then have "length (bwr_sink (bwr_flusher ?w)) = (length (writer_bits ?w) + 7) div 8" by (rule whole_bytes)
  then have "length (bwr_sink (bwr_flusher ?w)) = k + (length (differences_code 0 ?vs e) + 7) div 8" using w(1) assms(6) by simp
  also have "\<dots> \<le> k + (unat (word_of_nat ?n * (word_of_nat e + 1) + drop_bit e ?bound) + 7) div 8" using bits by (intro add_left_mono div_le_mono) simp
  also have "(m + 7) div 8 = m div 8 + (if m mod 8 \<noteq> 0 then 1 else 0)" for m :: nat by presburger
  finally show ?thesis using assms(3) by (simp add: construct_bound_def golomb_construct_hashes_def Let_def)
qed


text \<open>
  C33. The bound that the library allocates holds every coded set of its count: sorted hashes, as
  \<open>golomb::construct\<close> requires, for rates and counts whose products do not overflow.
\<close>

theorem construct_bound_suffices:
  assumes "sorted hashes" "e < 64" "\<not> is_multiply_overflow rate (word_of_nat (length hashes))"
    "length hashes * (e + 1) + unat (drop_bit e (rate * word_of_nat (length hashes))) < 2 ^ 64"
  shows "length (bwr_sink (bwr_flusher (golomb_construct_hashes new_bit_writer hashes e rate))) \<le> construct_bound (length hashes) e rate"
  using construct_bound_from [OF assms new_writer(2), of 0] new_writer(1) by simp

section \<open>Messages of four words\<close>

lemma sip_words_feeds:
  "feeds r (concat (map (\<lambda>w. le_bytes 8 (unat w)) ws)) \<Longrightarrow>
    sip_words (length ws) v r = (fold compression_round ws v, advance (8 * length ws) r)"
proof (induction ws arbitrary: v r)
  case (Cons w ws)
  have "unat w < 256 ^ 8" using unsigned_less [of w] by simp
  moreover have "feeds r (le_bytes 8 (unat w))" "feeds (advance 8 r) (concat (map (\<lambda>w. le_bytes 8 (unat w)) ws))"
    using Cons.prems by (simp_all add: feeds_append)
  ultimately show ?case using Cons.IH by (simp add: read_little_endian_feeds)
qed simp

lemma read_past_end: "rgood r \<Longrightarrow> rpos r = length (rbuf r) \<Longrightarrow> fst (read_little_endian 8 r) = 0"
  by (auto simp: read_little_endian_def do_read_bytes_def limiter_def istream_read_def case_prod_unfold)

text \<open>The form over four words is the hash of their little endian bytes.\<close>
theorem siphash_of_words_bytes:
  assumes "length ws = 4"
  shows "siphash key (concat (map (\<lambda>w. le_bytes 8 (unat w)) ws)) = siphash_of_words key ws"
proof -
  let ?bs = "concat (map (\<lambda>w. le_bytes 8 (unat w)) ws)"
  have len: "length ?bs = 32" using assms by (simp add: length_concat comp_def sum_list_triv)
  have "feeds (reader_of ?bs) ?bs" by (rule feeds_reader_of) (simp add: len max_size_t_def)
  then have words: "sip_words 4 v (reader_of ?bs) = (fold compression_round ws v, advance 32 (reader_of ?bs))" for v
    using sip_words_feeds [of "reader_of ?bs" ws v] assms by simp
  have "fst (read_little_endian 8 (advance 32 (reader_of ?bs))) = 0"
    by (rule read_past_end) (simp_all add: reader_of_def advance_def len)
  then show ?thesis using words by (simp add: siphash_def siphash_of_words_def len Let_def case_prod_unfold)
qed
section \<open>Witnesses\<close>

lemma construct_items_length:
  assumes "e < 64" "\<not> is_multiply_overflow rate (word_of_nat (length items))"
  shows "length (golomb_construct items e key rate) \<le> (length items * (e + 1) + unat (rate * word_of_nat (length items)) div 2 ^ e + 7) div 8"
proof -
  let ?bound = "rate * word_of_nat (length items)"
  let ?vs = "sort (map (\<lambda>item. hash_to_range item ?bound key) items)" let ?w = "write_differences 0 ?vs e new_bit_writer"
  have set: "hashed_set_construct items (word_of_nat (length items)) rate key = ?vs" using assms(2) by (simp add: hashed_set_construct_def)
  have w: "writer_bits ?w = differences_code 0 ?vs e" "writer_ok ?w"
    using write_differences_bits [OF new_writer(2), of e 0 ?vs] assms(1) new_writer(1) by simp_all
  have "length (differences_code 0 ?vs e) \<le> length items * (e + 1) + unat ?bound div 2 ^ e"
    using differences_length [of 0 ?vs ?bound e] to_range_bound by (auto simp: hash_to_range_def)
  moreover have "8 * length (bwr_sink (bwr_flusher ?w)) = length (writer_bits ?w) + (8 - length (writer_bits ?w) mod 8) mod 8"
    using arg_cong [OF flusher_bits [OF w(2)], of length] by simp
  then have "length (bwr_sink (bwr_flusher ?w)) = (length (writer_bits ?w) + 7) div 8" by (rule whole_bytes)
  ultimately show ?thesis unfolding golomb_construct_def golomb_construct_items_def set w(1)
    by (simp only: div_le_mono add_right_mono)
qed

theorem golomb_roundtrip_witness: "fst (golomb_decode (new_bit_reader (reader_of [0x88])) 3) = 9"
proof (rule golomb_roundtrip)
  show "bits_of [0x88] = golomb_code 3 9 @ [False, False, False]"
    by (simp add: golomb_code_def word_bits_def upt_conv_Cons)
qed (simp_all add: max_size_t_def)

theorem golomb_match_exact_witness:
  "match_single_set (golomb_construct [[1], [2], [3]] 3 (0, 0) 10) [2] 3 (0, 0) 3 10 \<longleftrightarrow>
    (\<exists>item \<in> {[1], [2], [3]}. hash_to_range item 30 (0, 0) = hash_to_range [2] 30 (0, 0))"
proof -
  have no: "\<not> is_multiply_overflow 10 (word_of_nat (length [[1 :: byte], [2], [3]]))"
    by (simp add: is_multiply_overflow_def)
  have "length (golomb_construct [[1], [2], [3]] 3 (0, 0) 10) \<le> 3"
    using construct_items_length [OF _ no, of 3 "(0, 0)"] by simp
  then have "length (golomb_construct [[1], [2], [3]] 3 (0, 0) 10) \<le> max_size_t" by (simp add: max_size_t_def)
  from golomb_match_exact [OF _ this _ no, of "[2]"] show ?thesis by simp
qed

theorem match_stack_misses_witness:
  "\<not> match_stack_loop 1 [2, 9] 0 0 3 (new_bit_reader (reader_of [0x88])) \<and>
   match_loop 1 0 9 3 (new_bit_reader (reader_of [0x88]))"
proof (rule match_stack_misses)
  show "bits_of [0x88] = golomb_code 3 9 @ [False, False, False]"
    by (simp add: golomb_code_def word_bits_def upt_conv_Cons)
qed (simp_all add: max_size_t_def)

theorem construct_bound_suffices_witness:
  "length (bwr_sink (bwr_flusher (golomb_construct_hashes new_bit_writer [3, 5, 2 ^ 63] 19 784931))) \<le> construct_bound 3 19 784931"
proof -
  have "\<not> is_multiply_overflow 784931 (3 :: u64)" by (simp add: is_multiply_overflow_def)
  moreover have "sorted [3, 5, 2 ^ 63 :: u64]" by code_simp
  moreover have "length [3, 5, 2 ^ 63 :: u64] * (19 + 1) + unat (drop_bit 19 (784931 * word_of_nat (length [3, 5, 2 ^ 63 :: u64]))  :: u64) < 2 ^ 64"
    by (simp add: drop_bit_eq_div)
  ultimately show ?thesis using construct_bound_suffices [of "[3, 5, 2 ^ 63]" 19 784931] by (simp add: numeral_3_eq_3)
qed

theorem siphash_of_words_bytes_witness:
  "siphash (1, 2) (concat (map (\<lambda>w. le_bytes 8 (unat w)) [3, 4, 5, 6 :: u64])) = siphash_of_words (1, 2) [3, 4, 5, 6]"
  by (rule siphash_of_words_bytes) simp
lemma sip_round_value: "v0 + v1 = a0 \<Longrightarrow> v2 + v3 = a2 \<Longrightarrow> rol 13 v1 XOR a0 = a1 \<Longrightarrow> rol 16 v3 XOR a2 = a3 \<Longrightarrow>
    a2 + a1 = b2 \<Longrightarrow> rol 32 a0 + a3 = b0 \<Longrightarrow> rol 17 a1 XOR b2 = b1 \<Longrightarrow> rol 21 a3 XOR b0 = b3 \<Longrightarrow> rol 32 b2 = c2 \<Longrightarrow>
    sip_round (v0, v1, v2, v3) = (b0, b1, c2, b3)"
  by (simp add: sip_round_def)

lemma round_one_0:
  "sip_round (0x736f6d6570736575, 0x646f72616e646f6d, 0x6c7967656e657261, 0x7565646279746522) =
     (0x649487965ada82ac, 0xff651ba6cbca3cd7, 0x3b144ff21b71bdd2, 0x32e4d8e2060a353a)"
  by (rule sip_round_value [of "0x736f6d6570736575" "0x646f72616e646f6d" "0xd7dedfc6ded7d4e2" "0x6c7967656e657261" "0x7565646279746522" "0xe1decbc7e7d9d783" "0x3992f20a533a786f" "0x85bcb2b382fba2e6" "0x1b71bdd23b144ff2" "0x649487965ada82ac" "0xff651ba6cbca3cd7" "0x32e4d8e2060a353a" "0x3b144ff21b71bdd2"], simp_all add: rol_def)

lemma round_one_1:
  "sip_round (0x649487965ada82ac, 0xff651ba6cbca3cd7, 0x3b144ff21b71bdd2, 0x32e4d8e2060a353a) =
     (0xdbbfee61783b6525, 0xda0e61640265b261, 0x82ba337b2e86a318, 0x7d6659452dc640)"
  by (rule sip_round_value [of "0x649487965ada82ac" "0xff651ba6cbca3cd7" "0x63f9a33d26a4bf83" "0x3b144ff21b71bdd2" "0x32e4d8e2060a353a" "0x6df928d4217bf30c" "0xc08d7a44613e406f" "0xb51b2ede1441c1e8" "0x2e86a31882ba337b" "0xdbbfee61783b6525" "0xda0e61640265b261" "0x7d6659452dc640" "0x82ba337b2e86a318"], simp_all add: rol_def)

lemma round_one_2:
  "sip_round (0xdabfee61783b6574, 0xda0e61640265b261, 0x82ba337b2e86a3e7, 0x7d6659452dc640) =
     (0x600ff4cf6ac2ba1f, 0x6309f0841989677e, 0x40a196bbfc1a695e, 0xff394a42219e17c4)"
  by (rule sip_round_value [of "0xdabfee61783b6574" "0xda0e61640265b261" "0xb4ce4fc57aa117d5" "0x82ba337b2e86a3e7" "0x7d6659452dc640" "0x833799d473b46a27" "0x78e2cf89cced2c94" "0xe56edcf9b5f46a5a" "0xfc1a695e40a196bb" "0x600ff4cf6ac2ba1f" "0x6309f0841989677e" "0xff394a42219e17c4" "0x40a196bbfc1a695e"], simp_all add: rol_def)

lemma round_one_3:
  "sip_round (0x600ff4cf6ac2ba1f, 0x6309f0841989677e, 0x40a196bbfc1a695e, 0xff394a42219e17c4) =
     (0xf9e4e2fdcd96636e, 0xf02116271da5950c, 0xc65c6f1e3ce44760, 0xd5e5ad720ef8d076)"
  by (rule sip_round_value [of "0x600ff4cf6ac2ba1f" "0x6309f0841989677e" "0xc319e553844c219d" "0x40a196bbfc1a695e" "0xff394a42219e17c4" "0x3fdae0fe1db88122" "0xfd096662a8a3edfc" "0x7598c1600a7c7e1b" "0x3ce44760c65c6f1e" "0xf9e4e2fdcd96636e" "0xf02116271da5950c" "0xd5e5ad720ef8d076" "0xc65c6f1e3ce44760"], simp_all add: rol_def)

lemma round_one_4:
  "sip_round (0xf9e4e2fdcd96636e, 0xf02116271da5950c, 0xc65c6f1e3ce44760, 0xd5e5ad720ef8d076) =
     (0x1c6c0ae385b1bb57, 0x50238414698aefd6, 0xa5777e5465033720, 0x517f7f9bc3d79d55)"
  by (rule sip_round_value [of "0xf9e4e2fdcd96636e" "0xf02116271da5950c" "0xea05f924eb3bf87a" "0xc65c6f1e3ce44760" "0xd5e5ad720ef8d076" "0x9c421c904bdd17d6" "0xc8c11a90599a667e" "0x313012689babc233" "0x65033720a5777e54" "0x1c6c0ae385b1bb57" "0x50238414698aefd6" "0x517f7f9bc3d79d55" "0xa5777e5465033720"], simp_all add: rol_def)

lemma round_one_5:
  "sip_round (0x1c6c0ae385b1bb57, 0x50238414698aefd6, 0xa5777e5465033720, 0x517f7f9bc3d79d55) =
     (0x78a9e955221f1401, 0x1489643a19f30d84, 0xdba1359e130401b6, 0xbc5f58a5834e39a6)"
  by (rule sip_round_value [of "0x1c6c0ae385b1bb57" "0x50238414698aefd6" "0x6c8f8ef7ef3cab2d" "0xa5777e5465033720" "0x517f7f9bc3d79d55" "0xf6f6fdf028dad475" "0x1c0d03c6b2c66129" "0x896d3e27b58f850a" "0x130401b6dba1359e" "0x78a9e955221f1401" "0x1489643a19f30d84" "0xbc5f58a5834e39a6" "0xdba1359e130401b6"], simp_all add: rol_def)

lemma siphash_of_one: "siphash (0, 0) [0x51] = 0xbdee054aba62195"
proof -
  have "fst (read_little_endian 8 (reader_of [0x51])) = 0x51"
    by (simp add: read_little_endian_def do_read_bytes_def limiter_def istream_read_def reader_of_def invalidate_def max_size_t_def)
  then have "siphash (0, 0) [0x51] = sip_finalize (sip_initialize (0, 0)) (0x51 XOR to_length 1) finalization"
    by (simp add: siphash_def case_prod_unfold)
  also have "\<dots> = 0xbdee054aba62195"
    by (simp add: sip_finalize_def compression_round_def sip_initialize_def siphash_magic_0_def siphash_magic_1_def
        siphash_magic_2_def siphash_magic_3_def finalization_def to_length_def round_one_0 round_one_1 round_one_2 round_one_3 round_one_4 round_one_5)
  finally show ?thesis .
qed

lemma round_two_0:
  "sip_round (0x736f6d6570736575, 0x646f72616e646f6d, 0x6c7967656e657261, 0x7565646279746521) =
     (0x649487965ad782ad, 0xff651ba6cbca3cd4, 0x3b144ff11b71bdd2, 0x32e4d8820627353b)"
  by (rule sip_round_value [of "0x736f6d6570736575" "0x646f72616e646f6d" "0xd7dedfc6ded7d4e2" "0x6c7967656e657261" "0x7565646279746521" "0xe1decbc7e7d9d782" "0x3992f20a533a786f" "0x85bcb2b382f8a2e7" "0x1b71bdd23b144ff1" "0x649487965ad782ad" "0xff651ba6cbca3cd4" "0x32e4d8820627353b" "0x3b144ff11b71bdd2"], simp_all add: rol_def)

lemma round_two_1:
  "sip_round (0x649487965ad782ad, 0xff651ba6cbca3cd4, 0x3b144ff11b71bdd2, 0x32e4d8820627353b) =
     (0xdc1cedd5789d6526, 0xda0e60c1c20f9260, 0x82d4137a2e86a2b7, 0x169e79ad45abca43)"
  by (rule sip_round_value [of "0x649487965ad782ad" "0xff651ba6cbca3cd4" "0x63f9a33d26a1bf81" "0x3b144ff11b71bdd2" "0x32e4d8820627353b" "0x6df928732198f30d" "0xc08d7a44613b206d" "0xb57b2e5414a3c1e9" "0x2e86a2b782d4137a" "0xdc1cedd5789d6526" "0xda0e60c1c20f9260" "0x169e79ad45abca43" "0x82d4137a2e86a2b7"], simp_all add: rol_def)

lemma round_two_2:
  "sip_round (0xdd1cedd5789d6574, 0xda0e60c1c20f9260, 0x82d4137a2e86a248, 0x169e79ad45abca43) =
     (0x1b8cc061759cc8ac, 0xf90b923fe439af46, 0x3d13592014a603fe, 0xa1b0e4e3720d355)"
  by (rule sip_round_value [of "0xdd1cedd5789d6574" "0xda0e60c1c20f9260" "0xb72b4e973aacf7d4" "0x82d4137a2e86a248" "0x169e79ad45abca43" "0x99728d2774326c8b" "0x7b3376d6c8e0ec95" "0xe0dfc88cbe717a15" "0x14a603fe3d135920" "0x1b8cc061759cc8ac" "0xf90b923fe439af46" "0xa1b0e4e3720d355" "0x3d13592014a603fe"], simp_all add: rol_def)

lemma round_two_3:
  "sip_round (0x1b8cc061759cc8ac, 0xf90b923fe439af46, 0x3d13592014a603fe, 0xa1b0e4e3720d355) =
     (0xa336c840ad2c2fe9, 0xf242cde9e9a34d99, 0xb8058026ae0e1594, 0xaae5da3b042503e3)"
  by (rule sip_round_value [of "0x1b8cc061759cc8ac" "0xf90b923fe439af46" "0x149852a159d677f2" "0x3d13592014a603fe" "0xa1b0e4e3720d355" "0x472e676e4bc6d753" "0x66dfae266c3ea8d3" "0x4960504e9893dd48" "0xae0e1594b8058026" "0xa336c840ad2c2fe9" "0xf242cde9e9a34d99" "0xaae5da3b042503e3" "0xb8058026ae0e1594"], simp_all add: rol_def)

lemma round_two_4:
  "sip_round (0xa336c840ad2c2fe9, 0xf242cde9e9a34d99, 0xb8058026ae0e1594, 0xaae5da3b042503e3) =
     (0x4f9fdbc7474a49bc, 0x798dfb78363ac4c8, 0xb1af5d412fb00580, 0x8709e1d1351d53b7)"
  by (rule sip_round_value [of "0xa336c840ad2c2fe9" "0xf242cde9e9a34d99" "0x9579962a96cf7d82" "0xb8058026ae0e1594" "0xaae5da3b042503e3" "0x62eb5a61b2331977" "0xccc4ab1eff7c43ca" "0xb8d05e44b1d0b392" "0x2fb00580b1af5d41" "0x4f9fdbc7474a49bc" "0x798dfb78363ac4c8" "0x8709e1d1351d53b7" "0xb1af5d412fb00580"], simp_all add: rol_def)

lemma round_two_5:
  "sip_round (0x4f9fdbc7474a49bc, 0x798dfb78363ac4c8, 0xb1af5d412fb00580, 0x8709e1d1351d53b7) =
     (0x56ed189400a8b57d, 0xd0c5b328a83b669, 0x89e95aecaefc110a, 0x170bf7cfc773987c)"
  by (rule sip_round_value [of "0x4f9fdbc7474a49bc" "0x798dfb78363ac4c8" "0xc92dd73f7d850e84" "0xb1af5d412fb00580" "0x8709e1d1351d53b7" "0x38b93f1264cd5937" "0x7642d1f8251c01b5" "0xd9680a0f377ade3e" "0xaefc110a89e95aec" "0x56ed189400a8b57d" "0xd0c5b328a83b669" "0x170bf7cfc773987c" "0x89e95aecaefc110a"], simp_all add: rol_def)

lemma siphash_of_two: "siphash (0, 0) [0x52] = 0xc503ee85e3a48a62"
proof -
  have "fst (read_little_endian 8 (reader_of [0x52])) = 0x52"
    by (simp add: read_little_endian_def do_read_bytes_def limiter_def istream_read_def reader_of_def invalidate_def max_size_t_def)
  then have "siphash (0, 0) [0x52] = sip_finalize (sip_initialize (0, 0)) (0x52 XOR to_length 1) finalization"
    by (simp add: siphash_def case_prod_unfold)
  also have "\<dots> = 0xc503ee85e3a48a62"
    by (simp add: sip_finalize_def compression_round_def sip_initialize_def siphash_magic_0_def siphash_magic_1_def
        siphash_magic_2_def siphash_magic_3_def finalization_def to_length_def round_two_0 round_two_1 round_two_2 round_two_3 round_two_4 round_two_5)
  finally show ?thesis .
qed


end
