(* ===== verification/Base58.thy ===== *)
theory Base58
  imports Streams
begin

text \<open>
  Base 58 (\<open>src/radix/base_58.cpp\<close>): long multiplication over a fixed number of digits on the way out
  and back. The number of digits is an estimate of a logarithm, which is proved to be enough; encoding
  and decoding are inverse to each other in both directions, so a text is the only one of its bytes.
\<close>

section \<open>Characters\<close>

definition base58_chars :: string where
  "base58_chars = ''123456789ABCDEFGHJKLMNPQRSTUVWXYZabcdefghijkmnopqrstuvwxyz''"

definition is_base58_character :: "char \<Rightarrow> bool" where
  "is_base58_character c \<longleftrightarrow> List.member base58_chars c"

definition is_base58 :: "string \<Rightarrow> bool" where
  "is_base58 s \<longleftrightarrow> list_all is_base58_character s"

fun find_char :: "char \<Rightarrow> string \<Rightarrow> nat option" where
  "find_char c [] = None"
| "find_char c (x # xs) = (if x = c then Some 0 else map_option Suc (find_char c xs))"

section \<open>Encoding and decoding\<close>

definition find_first_nonzero :: "data_chunk \<Rightarrow> data_chunk" where
  "find_first_nonzero bs = dropWhile (\<lambda>b. b = 0) bs"

definition count_leading_zeros :: "data_chunk \<Rightarrow> nat" where
  "count_leading_zeros unencoded = length (takeWhile (\<lambda>b. b = 0) unencoded)"

text \<open>The carry stays below the square of the larger base, far from the width of the code's integers.\<close>

fun pack_digits :: "nat \<Rightarrow> byte list \<Rightarrow> byte list" where
  "pack_digits carry [] = []"
| "pack_digits carry (d # ds) =
     (let carry = carry + 256 * unat d in word_of_nat (carry mod 58) # pack_digits (carry div 58) ds)"

definition pack_value :: "data_chunk \<Rightarrow> nat \<Rightarrow> data_chunk" where
  "pack_value indexes carry = rev (pack_digits carry (rev indexes))"

definition encode_base58 :: "data_chunk \<Rightarrow> string" where
  "encode_base58 unencoded =
     (let leading_zeros = count_leading_zeros unencoded;
          number_nonzero = length unencoded - leading_zeros;
          indexes_size = number_nonzero * 138 div 100 + 1;
          indexes = fold (\<lambda>b ix. pack_value ix (unat b)) (drop leading_zeros unencoded) (replicate indexes_size 0)
      in replicate leading_zeros (CHR ''1'') @ map (\<lambda>i. base58_chars ! unat i) (find_first_nonzero indexes))"

definition count_leading_ones :: "string \<Rightarrow> nat" where
  "count_leading_ones encoded = length (takeWhile (\<lambda>c. c = base58_chars ! 0) encoded)"

fun unpack_digits :: "nat \<Rightarrow> byte list \<Rightarrow> byte list" where
  "unpack_digits carry [] = []"
| "unpack_digits carry (d # ds) =
     (let carry = carry + 58 * unat d in word_of_nat (carry mod 256) # unpack_digits (carry div 256) ds)"

definition unpack_char :: "data_chunk \<Rightarrow> nat \<Rightarrow> data_chunk" where
  "unpack_char bs carry = rev (unpack_digits carry (rev bs))"

fun decode_characters58 :: "string \<Rightarrow> data_chunk \<Rightarrow> data_chunk option" where
  "decode_characters58 [] bs = Some bs"
| "decode_characters58 (c # cs) bs = (case find_char c base58_chars of None \<Rightarrow> None
     | Some carry \<Rightarrow> decode_characters58 cs (unpack_char bs carry))"

definition decode_base58 :: "string \<Rightarrow> data_chunk option" where
  "decode_base58 s =
     (let leading_zeros = count_leading_ones s;
          data_size = length s * 733 div 1000 + 1
      in case decode_characters58 (drop leading_zeros s) (replicate data_size 0) of None \<Rightarrow> None
         | Some bs \<Rightarrow> Some (replicate leading_zeros 0 @ find_first_nonzero bs))"

definition decode_base58_array :: "nat \<Rightarrow> string \<Rightarrow> data_chunk option" where
  "decode_base58_array sz s = (case decode_base58 s of None \<Rightarrow> None
     | Some bs \<Rightarrow> if length bs \<noteq> sz then None else Some bs)"

section \<open>Positional values\<close>

fun digits_value :: "nat \<Rightarrow> nat list \<Rightarrow> nat" where
  "digits_value b [] = 0"
| "digits_value b (d # ds) = d + b * digits_value b ds"

lemma digits_value_bound: "0 < b \<Longrightarrow> list_all (\<lambda>d. d < b) ds \<Longrightarrow> digits_value b ds < b ^ length ds"
proof (induction ds)
  case (Cons d ds)
  then have "d < b" and bound: "digits_value b ds + 1 \<le> b ^ length ds" by simp_all
  then have "d + b * digits_value b ds < b * (digits_value b ds + 1)" by simp
  also have "\<dots> \<le> b * b ^ length ds" using bound by (rule mult_le_mono2)
  finally show ?case by simp
qed simp

lemma digits_value_append: "digits_value b (ds @ es) = digits_value b ds + b ^ length ds * digits_value b es"
  by (induction ds) (simp_all add: algebra_simps)

lemma digits_value_zeros: "digits_value b (replicate n 0) = 0"
  by (induction n) simp_all

text \<open>Without a highest zero the digits of a number are unique.\<close>

lemma digits_unique:
  assumes "0 < b" "list_all (\<lambda>d. d < b) ds" "list_all (\<lambda>d. d < b) es" "digits_value b ds = digits_value b es"
    "ds = [] \<or> last ds \<noteq> 0" "es = [] \<or> last es \<noteq> 0"
  shows "ds = es"
proof -
  have zero: "fs = []" if "digits_value b fs = 0" "fs = [] \<or> last fs \<noteq> 0" for fs
    using that assms(1) by (induction fs) (auto split: if_splits)
  show ?thesis using assms(2-)
  proof (induction ds arbitrary: es)
    case Nil
    then have "digits_value b es = 0" by simp
    with Nil.prems(5) show ?case using zero by blast
  next
    case (Cons d ds)
    show ?case
    proof (cases es)
      case Nil
      then have "digits_value b (d # ds) = 0" using Cons.prems(3) by simp
      with Cons.prems(4) show ?thesis using zero Nil by blast
    next
      case (Cons e es')
      then have eq: "d + b * digits_value b ds = e + b * digits_value b es'" "d < b" "e < b" using Cons.prems by simp_all
      then have "d = e" by (metis mod_less mod_mult_self2)
      moreover have "digits_value b ds = digits_value b es'" using eq \<open>d = e\<close> assms(1) by simp
      ultimately show ?thesis using Cons.IH [of es'] Cons.prems Cons by (auto split: if_splits)
    qed
  qed
qed

abbreviation big_value :: "nat \<Rightarrow> byte list \<Rightarrow> nat" where
  "big_value b bs \<equiv> digits_value b (rev (map unat bs))"

abbreviation digits_ok :: "nat \<Rightarrow> byte list \<Rightarrow> bool" where
  "digits_ok b bs \<equiv> list_all (\<lambda>d. unat d < b) bs"

lemma big_value_Cons: "big_value b (d # ds) = unat d * b ^ length ds + big_value b ds"
  by (simp add: digits_value_append)

lemma big_value_snoc: "big_value b (ds @ [d]) = b * big_value b ds + unat d"
  by simp

lemma big_value_bound: "0 < b \<Longrightarrow> digits_ok b bs \<Longrightarrow> big_value b bs < b ^ length bs"
  using digits_value_bound [of b "rev (map unat bs)"] by (simp add: list_all_rev list.pred_map comp_def)

lemma bytes_ok: "digits_ok 256 bs"
proof -
  have "unat b < 256" for b :: byte using unsigned_less [of b] by simp
  then show ?thesis by (simp add: list_all_iff)
qed

lemma strip_zeros: "big_value b (find_first_nonzero bs) = big_value b bs"
  by (induction bs) (simp_all add: find_first_nonzero_def digits_value_append)

lemma big_value_unique:
  assumes "1 < b" "digits_ok b ds" "digits_ok b es" "big_value b ds = big_value b es"
    "ds = [] \<or> hd ds \<noteq> 0" "es = [] \<or> hd es \<noteq> 0"
  shows "ds = es"
proof -
  have top: "rev (map unat fs) = [] \<or> last (rev (map unat fs)) \<noteq> 0" if "fs = [] \<or> hd fs \<noteq> (0 :: byte)" for fs
    using that by (cases fs) (auto simp: unat_eq_0)
  have "rev (map unat ds) = rev (map unat es)"
    using assms top [OF assms(5)] top [OF assms(6)]
    by (intro digits_unique [of b]) (simp_all add: list_all_rev list.pred_map comp_def)
  then have "map unat ds = map unat es" by simp
  then show ?thesis by (rule map_injective) (auto intro: injI unsigned_word_eqI)
qed

lemma first_nonzero: "find_first_nonzero bs = [] \<or> hd (find_first_nonzero bs) \<noteq> 0"
  using hd_dropWhile [of "\<lambda>b. b = 0" bs] by (auto simp: find_first_nonzero_def)

lemma first_nonzero_self: "bs = [] \<or> hd bs \<noteq> 0 \<Longrightarrow> find_first_nonzero bs = bs"
  by (cases bs) (simp_all add: find_first_nonzero_def)

lemma first_nonzero_ok: "digits_ok b bs \<Longrightarrow> digits_ok b (find_first_nonzero bs)"
  by (auto simp: list_all_iff find_first_nonzero_def dest: set_dropWhileD)

section \<open>The carry loops\<close>

lemma carry_step: "(c + f * d) mod b + b * (((c + f * d) div b + f * v) mod b ^ n) = (c + f * (d + b * v)) mod b ^ Suc n"
  for b :: nat
proof (cases "b = 0")
  case False
  have "c + f * (d + b * v) = c + f * d + b * (f * v)" by (simp add: algebra_simps)
  moreover have "(c + f * d + b * (f * v)) div b = (c + f * d) div b + f * v" using False by simp
  moreover have "(c + f * d + b * (f * v)) mod b = (c + f * d) mod b" by simp
  ultimately show ?thesis unfolding power_Suc mod_mult2_eq by (simp only: add.commute)
qed simp

lemma unat_small: "n < 256 \<Longrightarrow> unat (word_of_nat n :: byte) = n"
  by (simp add: unat_of_nat)

lemma pack_digits_value: "length (pack_digits c ds) = length ds \<and> digits_ok 58 (pack_digits c ds) \<and>
    digits_value 58 (map unat (pack_digits c ds)) = (c + 256 * digits_value 58 (map unat ds)) mod 58 ^ length ds"
proof (induction ds arbitrary: c)
  case (Cons d ds)
  then show ?case
    using carry_step [of c 256 "unat d" 58 "digits_value 58 (map unat ds)" "length ds"]
    by (simp add: Let_def unat_small del: power_Suc)
qed simp

lemma unpack_digits_value: "length (unpack_digits c ds) = length ds \<and>
    digits_value 256 (map unat (unpack_digits c ds)) = (c + 58 * digits_value 256 (map unat ds)) mod 256 ^ length ds"
proof (induction ds arbitrary: c)
  case (Cons d ds)
  then show ?case
    using carry_step [of c 58 "unat d" 256 "digits_value 256 (map unat ds)" "length ds"]
    by (simp add: Let_def unat_small del: power_Suc)
qed simp

lemma pack_value_value: "length (pack_value ix c) = length ix" "digits_ok 58 (pack_value ix c)"
  "big_value 58 (pack_value ix c) = (c + 256 * big_value 58 ix) mod 58 ^ length ix"
  using pack_digits_value [of c "rev ix"] by (simp_all add: pack_value_def list_all_rev rev_map)

lemma unpack_char_value: "length (unpack_char bs c) = length bs"
  "big_value 256 (unpack_char bs c) = (c + 58 * big_value 256 bs) mod 256 ^ length bs"
  using unpack_digits_value [of c "rev bs"] by (simp_all add: unpack_char_def rev_map)

lemma pack_values: "digits_ok 58 ix \<Longrightarrow>
    length (fold (\<lambda>b ix. pack_value ix (unat b)) bs ix) = length ix \<and>
    digits_ok 58 (fold (\<lambda>b ix. pack_value ix (unat b)) bs ix) \<and>
    big_value 58 (fold (\<lambda>b ix. pack_value ix (unat b)) bs ix) = (big_value 58 ix * 256 ^ length bs + big_value 256 bs) mod 58 ^ length ix"
proof (induction bs arbitrary: ix)
  case Nil
  then show ?case using big_value_bound [of 58 ix] by simp
next
  case (Cons b bs)
  let ?m = "58 ^ length ix :: nat"
  have "(v mod ?m * k + w) mod ?m = (v * k + w) mod ?m" for v k w :: nat by (metis mod_add_left_eq mod_mult_left_eq)
  then have "((unat b + 256 * big_value 58 ix) mod ?m * 256 ^ length bs + big_value 256 bs) mod ?m =
      ((unat b + 256 * big_value 58 ix) * 256 ^ length bs + big_value 256 bs) mod ?m" .
  also have "(unat b + 256 * big_value 58 ix) * 256 ^ length bs + big_value 256 bs =
      big_value 58 ix * 256 ^ length (b # bs) + big_value 256 (b # bs)"
    unfolding big_value_Cons by (simp add: algebra_simps)
  finally show ?case
    using Cons.IH [of "pack_value ix (unat b)"] pack_value_value [of ix "unat b"] by simp
qed

section \<open>The estimates are enough\<close>

lemma root_bound: "(x :: nat) ^ k \<le> y ^ k \<Longrightarrow> 0 < k \<Longrightarrow> x \<le> y"
  by (simp add: power_mono_iff)

lemma encode_estimate: "(256 :: nat) ^ n \<le> 58 ^ (n * 138 div 100 + 1)"
proof (rule root_bound [of _ 800])
  have eight: "(256 :: nat) ^ 8 \<le> 58 ^ 11" by simp
  have "((256 :: nat) ^ n) ^ 800 = (256 ^ 8) ^ (100 * n)" by (simp add: power_mult [symmetric] del: power_numeral)
  also have "\<dots> \<le> (58 ^ 11) ^ (100 * n)" by (rule power_mono [OF eight]) simp
  also have "\<dots> = 58 ^ (1100 * n)" by (simp add: power_mult [symmetric] del: power_numeral)
  also have "\<dots> \<le> 58 ^ (800 * (n * 138 div 100 + 1))" by (rule power_increasing) simp_all
  also have "\<dots> = (58 ^ (n * 138 div 100 + 1)) ^ 800" by (simp only: power_mult [symmetric] mult.commute)
  finally show "((256 :: nat) ^ n) ^ 800 \<le> (58 ^ (n * 138 div 100 + 1)) ^ 800" .
qed simp

lemma decode_estimate: "(58 :: nat) ^ n \<le> 256 ^ (n * 733 div 1000 + 1)"
proof (rule root_bound [of _ 71])
  have base: "(58 :: nat) ^ 71 \<le> 256 ^ 52" by simp
  have "((58 :: nat) ^ n) ^ 71 = (58 ^ 71) ^ n" by (simp only: power_mult [symmetric] mult.commute)
  also have "\<dots> \<le> (256 ^ 52) ^ n" by (rule power_mono [OF base]) simp
  also have "\<dots> = 256 ^ (52 * n)" by (simp only: power_mult [symmetric])
  also have "\<dots> \<le> 256 ^ (71 * (n * 733 div 1000 + 1))" by (rule power_increasing) simp_all
  also have "\<dots> = (256 ^ (n * 733 div 1000 + 1)) ^ 71" by (simp only: power_mult [symmetric] mult.commute)
  finally show "((58 :: nat) ^ n) ^ 71 \<le> (256 ^ (n * 733 div 1000 + 1)) ^ 71" .
qed simp

section \<open>Both ways\<close>

lemma base58_table: "\<forall>v\<in>{0..<58}. find_char (base58_chars ! v) base58_chars = Some v"
  by code_simp

lemma base58_char_zero: "v < 58 \<Longrightarrow> base58_chars ! v = base58_chars ! 0 \<longleftrightarrow> v = 0"
  using base58_table by (metis atLeastLessThan_iff le0 option.inject zero_less_numeral)

lemma find_char_nth: "find_char c s = Some n \<Longrightarrow> n < length s \<and> s ! n = c"
  by (induction s arbitrary: n) (auto split: if_splits)

lemma base58_chars_zero: "base58_chars ! 0 = CHR ''1''"
  by (simp add: base58_chars_def)

lemma length_base58_chars: "length base58_chars = 58"
  by (simp add: base58_chars_def)

lemma base58_find: "find_char c base58_chars = Some n \<Longrightarrow> n < 58 \<and> base58_chars ! n = c"
  using find_char_nth [of c base58_chars n] by (simp add: length_base58_chars)

abbreviation characters58 :: "byte list \<Rightarrow> string" where
  "characters58 ds \<equiv> map (\<lambda>d. base58_chars ! unat d) ds"

lemma decode_digits: "digits_ok 58 ds \<Longrightarrow> \<exists>out. decode_characters58 (characters58 ds) bs = Some out \<and> length out = length bs \<and>
    big_value 256 out = (big_value 256 bs * 58 ^ length ds + big_value 58 ds) mod 256 ^ length bs"
proof (induction ds arbitrary: bs)
  case Nil
  then show ?case using big_value_bound [of 256 bs] bytes_ok by simp
next
  case (Cons d ds)
  let ?m = "256 ^ length bs :: nat"
  have "(v mod ?m * k + w) mod ?m = (v * k + w) mod ?m" for v k w :: nat by (metis mod_add_left_eq mod_mult_left_eq)
  then have "((unat d + 58 * big_value 256 bs) mod ?m * 58 ^ length ds + big_value 58 ds) mod ?m =
      ((unat d + 58 * big_value 256 bs) * 58 ^ length ds + big_value 58 ds) mod ?m" .
  also have "(unat d + 58 * big_value 256 bs) * 58 ^ length ds + big_value 58 ds =
      big_value 256 bs * 58 ^ length (d # ds) + big_value 58 (d # ds)"
    unfolding big_value_Cons by (simp add: algebra_simps)
  finally show ?case
    using Cons.IH [of "unpack_char bs (unat d)"] Cons.prems unpack_char_value [of bs "unat d"] base58_table by simp
qed

text \<open>A text of leading ones and characters of the alphabet, the first not a one, is read as its value.\<close>

lemma decode_text:
  assumes "digits_ok 58 ds" "ds = [] \<or> hd ds \<noteq> 0"
  shows "\<exists>out. decode_base58 (replicate z (CHR ''1'') @ characters58 ds) = Some (replicate z 0 @ out) \<and>
    big_value 256 out = big_value 58 ds \<and> (out = [] \<or> hd out \<noteq> 0)"
proof -
  let ?s = "replicate z (CHR ''1'') @ characters58 ds" and ?n = "length (replicate z (CHR ''1'') @ characters58 ds) * 733 div 1000 + 1"
  have "takeWhile (\<lambda>c. c = CHR ''1'') (characters58 ds) = []"
    using assms by (cases ds) (auto simp: base58_char_zero base58_chars_zero [symmetric] unat_eq_0)
  then have ones: "count_leading_ones ?s = z"
    by (simp add: count_leading_ones_def base58_chars_zero takeWhile_append)
  have "big_value 58 ds < 58 ^ length ds" using big_value_bound [of 58 ds] assms(1) by simp
  also have "\<dots> \<le> 58 ^ length ?s" by (rule power_increasing) simp_all
  also have "\<dots> \<le> 256 ^ ?n" by (rule decode_estimate)
  finally have "big_value 58 ds < 256 ^ ?n" .
  moreover obtain out where "decode_characters58 (characters58 ds) (replicate ?n 0) = Some out"
      "big_value 256 out = (big_value 256 (replicate ?n 0) * 58 ^ length ds + big_value 58 ds) mod 256 ^ length (replicate ?n (0 :: byte))"
    using decode_digits [OF assms(1)] by blast
  moreover have "big_value 256 (replicate ?n 0) = 0" by (simp add: digits_value_zeros del: replicate_Suc)
  ultimately have "decode_base58 ?s = Some (replicate z 0 @ find_first_nonzero out)" "big_value 256 out = big_value 58 ds"
    by (simp_all add: decode_base58_def ones Let_def)
  then show ?thesis using first_nonzero [of out] strip_zeros [of 256 out] by auto
qed

lemma encode_text:
  assumes "out = [] \<or> hd out \<noteq> 0"
  shows "\<exists>ds. encode_base58 (replicate z 0 @ out) = replicate z (CHR ''1'') @ characters58 ds \<and> digits_ok 58 ds \<and>
    big_value 58 ds = big_value 256 out \<and> (ds = [] \<or> hd ds \<noteq> 0)"
proof -
  let ?n = "length out * 138 div 100 + 1"
  let ?ix = "fold (\<lambda>b ix. pack_value ix (unat b)) out (replicate ?n 0)"
  have "takeWhile (\<lambda>b. b = 0) out = []" using assms by (cases out) auto
  then have zeros: "count_leading_zeros (replicate z 0 @ out) = z" by (simp add: count_leading_zeros_def takeWhile_append)
  have ok: "digits_ok 58 (replicate ?n 0)" by (simp add: list_all_iff)
  have "big_value 256 out < 256 ^ length out" using big_value_bound [of 256 out] bytes_ok by simp
  also have "\<dots> \<le> 58 ^ ?n" by (rule encode_estimate)
  finally have "big_value 256 out < 58 ^ ?n" .
  moreover have "big_value 58 (replicate ?n 0) = 0" by (simp add: digits_value_zeros del: replicate_Suc)
  ultimately have "digits_ok 58 ?ix" "big_value 58 ?ix = big_value 256 out"
    using pack_values [OF ok, of out] by simp_all
  moreover have "encode_base58 (replicate z 0 @ out) = replicate z (CHR ''1'') @ characters58 (find_first_nonzero ?ix)"
    by (simp add: encode_base58_def zeros Let_def)
  ultimately show ?thesis
    using first_nonzero [of ?ix] first_nonzero_ok [of 58 ?ix] strip_zeros [of 58 ?ix]
    by (intro exI [of _ "find_first_nonzero ?ix"]) simp
qed

lemma split_zeros: "\<exists>z out. bs = replicate z (0 :: byte) @ out \<and> (out = [] \<or> hd out \<noteq> 0)"
proof -
  have "takeWhile (\<lambda>b. b = 0) bs = replicate (length (takeWhile (\<lambda>b. b = 0) bs)) 0"
    by (rule replicate_length_same [symmetric]) (auto dest: set_takeWhileD)
  then have "bs = replicate (length (takeWhile (\<lambda>b. b = 0) bs)) 0 @ find_first_nonzero bs"
    by (metis find_first_nonzero_def takeWhile_dropWhile_id)
  then show ?thesis using first_nonzero by blast
qed

text \<open>Encoded bytes decode to themselves, leading zeros included.\<close>
theorem base58_roundtrip: "decode_base58 (encode_base58 bs) = Some bs"
proof -
  obtain z out where bs: "bs = replicate z 0 @ out" "out = [] \<or> hd out \<noteq> 0" using split_zeros by blast
  obtain ds where ds: "encode_base58 bs = replicate z (CHR ''1'') @ characters58 ds" "digits_ok 58 ds"
      "big_value 58 ds = big_value 256 out" "ds = [] \<or> hd ds \<noteq> 0"
    using encode_text [OF bs(2)] bs(1) by blast
  obtain out' where "decode_base58 (encode_base58 bs) = Some (replicate z 0 @ out')" "big_value 256 out' = big_value 58 ds"
      "out' = [] \<or> hd out' \<noteq> 0"
    using decode_text [OF ds(2,4)] ds(1) by metis
  moreover from this have "out' = out" using ds(3) bs(2) bytes_ok by (intro big_value_unique [of 256]) simp_all
  ultimately show ?thesis by (simp add: bs(1))
qed

lemma decoded_characters: "decode_characters58 cs bs = Some out \<Longrightarrow> \<exists>ds. cs = characters58 ds \<and> digits_ok 58 ds"
proof (induction cs arbitrary: bs)
  case (Cons c cs)
  then obtain n where n: "find_char c base58_chars = Some n" "decode_characters58 cs (unpack_char bs n) = Some out"
    by (auto split: option.splits)
  then obtain ds where "cs = characters58 ds" "digits_ok 58 ds" using Cons.IH by blast
  then show ?case using base58_find [OF n(1)]
    by (intro exI [of _ "word_of_nat n # ds"]) (simp add: unat_small)
qed (auto intro: exI [of _ "[]"])

lemma decoded_text_unique:
  assumes "decode_base58 s = Some bs"
  shows "encode_base58 bs = s"
proof -
  let ?z = "count_leading_ones s" and ?cs = "drop (count_leading_ones s) s"
  obtain ds where ds: "?cs = characters58 ds" "digits_ok 58 ds"
    using assms decoded_characters by (fastforce simp: decode_base58_def Let_def split: option.splits)
  have "?cs = dropWhile (\<lambda>c. c = base58_chars ! 0) s" unfolding count_leading_ones_def by (rule dropWhile_eq_drop [symmetric])
  moreover have "takeWhile (\<lambda>c. c = base58_chars ! 0) s = replicate ?z (base58_chars ! 0)"
    unfolding count_leading_ones_def by (rule replicate_length_same [symmetric]) (auto dest: set_takeWhileD)
  ultimately have s: "s = replicate ?z (CHR ''1'') @ characters58 ds"
    using takeWhile_dropWhile_id [of "\<lambda>c. c = base58_chars ! 0" s] ds(1) by (simp add: base58_chars_zero)
  have "?cs = [] \<or> hd ?cs \<noteq> base58_chars ! 0"
    using hd_dropWhile [of "\<lambda>c. c = base58_chars ! 0" s] \<open>?cs = dropWhile _ s\<close> by auto
  then have top: "ds = [] \<or> hd ds \<noteq> 0" using ds(1) by (cases ds) auto
  obtain out where out: "bs = replicate ?z 0 @ out" "big_value 256 out = big_value 58 ds" "out = [] \<or> hd out \<noteq> 0"
    using decode_text [OF ds(2) top, of ?z] assms s by auto
  obtain es where "encode_base58 bs = replicate ?z (CHR ''1'') @ characters58 es" "digits_ok 58 es"
      "big_value 58 es = big_value 256 out" "es = [] \<or> hd es \<noteq> 0"
    using encode_text [OF out(3), of ?z] out(1) by blast
  moreover from this have "es = ds" using ds(2) out(2) top by (intro big_value_unique [of 58]) simp_all
  ultimately show ?thesis using s by simp
qed

text \<open>A text that decodes is the only text of its bytes.\<close>
theorem base58_canonical:
  assumes "decode_base58 s = Some bs"
  shows "encode_base58 bs = s"
  by (rule decoded_text_unique [OF assms])

theorem base58_canonical_witness: "encode_base58 [0, 0, 1] = ''112''"
  by (rule base58_canonical) code_simp

end
