(* ===== verification/PaymentAddress.thy ===== *)
theory PaymentAddress
  imports Base58 ScriptPatterns HashFunctions
begin

text \<open>
  Payment addresses (\<open>src/wallet/addresses/payment_address.cpp\<close>): a prefix and a hash with the checksum of
  the library's checked values (\<open>impl/wallet/addresses/checked.ipp\<close>, \<open>impl/hash/checksum.ipp\<close>),
  printed in base 58, and their way from scripts and back to scripts.
\<close>

section \<open>Checked values\<close>

text \<open>A payment is the whole value, prefix, payload and checksum; the template's sizes are arguments.\<close>

definition insert_checksum :: "nat \<Rightarrow> data_chunk \<Rightarrow> data_chunk" where
  "insert_checksum checksum slices = slices @ take checksum (bitcoin_hash True slices)"

definition verify_checksum :: "nat \<Rightarrow> data_chunk \<Rightarrow> bool" where
  "verify_checksum checksum bs = (let payload = take (length bs - checksum) bs; payload_hash = bitcoin_hash True payload in
     take checksum payload_hash = drop (length bs - checksum) bs)"

text \<open>The checksum of a chunk of any size, which is a word of its hash.\<close>

definition bitcoin_checksum :: "data_chunk \<Rightarrow> 32 word" where
  "bitcoin_checksum bs = word_of_nat (le_value (take 4 (bitcoin_hash True bs)))"

definition append_checksum :: "data_chunk \<Rightarrow> data_chunk" where
  "append_checksum bs = bs @ le_bytes 4 (unat (bitcoin_checksum bs))"

definition verify_chunk_checksum :: "data_chunk \<Rightarrow> bool" where
  "verify_chunk_checksum bs = (if length bs < 4 then False
     else word_of_nat (le_value (drop (length bs - 4) bs)) = bitcoin_checksum (take (length bs - 4) bs))"

definition payment_prefix_size :: nat where "payment_prefix_size = 1"
definition payment_checksum_size :: nat where "payment_checksum_size = 4"
definition payment_value_size :: nat where
  "payment_value_size = payment_prefix_size + short_hash_size + payment_checksum_size"

type_synonym payment = data_chunk

definition default_payment :: payment where
  "default_payment = replicate payment_value_size 0"

definition new_payment :: "byte \<Rightarrow> data_chunk \<Rightarrow> payment" where
  "new_payment prefix payload = insert_checksum payment_checksum_size (prefix # payload)"

definition payment_valid :: "payment \<Rightarrow> bool" where
  "payment_valid value = verify_checksum payment_checksum_size value"

definition payment_prefix :: "payment \<Rightarrow> data_chunk" where
  "payment_prefix value = take payment_prefix_size value"

definition payment_payload :: "payment \<Rightarrow> data_chunk" where
  "payment_payload value = take short_hash_size (drop payment_prefix_size value)"

definition payment_checksum :: "payment \<Rightarrow> data_chunk" where
  "payment_checksum value = drop (payment_prefix_size + short_hash_size) value"

section \<open>Addresses\<close>

definition pa_from_string :: "string \<Rightarrow> payment" where
  "pa_from_string address = (case decode_base58_array payment_value_size address of None \<Rightarrow> default_payment
     | Some decoded \<Rightarrow> if length decoded \<noteq> payment_value_size then default_payment
         else if \<not> payment_valid decoded then default_payment else decoded)"

text \<open>A public key is the bytes it serializes to, none when it is not valid.\<close>

definition pa_from_public :: "data_chunk option \<Rightarrow> byte \<Rightarrow> payment" where
  "pa_from_public point prefix = (case point of None \<Rightarrow> default_payment
     | Some bs \<Rightarrow> new_payment prefix (bitcoin_short_hash True bs))"

definition pa_from_script :: "script \<Rightarrow> byte \<Rightarrow> payment" where
  "pa_from_script s prefix = (if \<not> script_valid s then default_payment
     else new_payment prefix (bitcoin_short_hash True (script_to_data s False)))"

definition pa_encoded :: "payment \<Rightarrow> string" where
  "pa_encoded payment = encode_base58 payment"

definition pa_prefix :: "payment \<Rightarrow> byte" where
  "pa_prefix payment = hd (payment_prefix payment)"

definition pa_hash :: "payment \<Rightarrow> data_chunk" where
  "pa_hash payment = payment_payload payment"

definition pa_output_script :: "payment \<Rightarrow> byte \<Rightarrow> byte \<Rightarrow> script" where
  "pa_output_script payment p2kh_prefix p2sh_prefix = (let byte = pa_prefix payment in
     if byte = p2kh_prefix then from_operations (to_pay_key_hash_pattern (pa_hash payment))
     else if byte = p2sh_prefix then from_operations (to_pay_script_hash_pattern (pa_hash payment))
     else default_script)"

text \<open>What the bytes of a public key serialize to is a parameter, which stands for the curve.\<close>

definition pa_extract_input :: "(data_chunk \<Rightarrow> data_chunk option) \<Rightarrow> script \<Rightarrow> byte \<Rightarrow> byte \<Rightarrow> payment list" where
  "pa_extract_input ec_public s p2kh_prefix p2sh_prefix = (case input_pattern s of
       sign_key_hash \<Rightarrow> [pa_from_public (ec_public (get_data (last (script_ops s)))) p2kh_prefix]
     | sign_script_hash \<Rightarrow> [new_payment p2sh_prefix (bitcoin_short_hash True (get_data (last (script_ops s))))]
     | _ \<Rightarrow> [])"

definition pa_extract_output :: "script \<Rightarrow> byte \<Rightarrow> byte \<Rightarrow> payment" where
  "pa_extract_output s p2kh_prefix p2sh_prefix = (case output_pattern s of
       pay_key_hash \<Rightarrow> new_payment p2kh_prefix (take short_hash_size (get_data (script_ops s ! 2)))
     | pay_script_hash \<Rightarrow> new_payment p2sh_prefix (take short_hash_size (get_data (script_ops s ! 1)))
     | _ \<Rightarrow> default_payment)"

definition pa_extract :: "(data_chunk \<Rightarrow> data_chunk option) \<Rightarrow> script \<Rightarrow> byte \<Rightarrow> byte \<Rightarrow> payment list" where
  "pa_extract ec_public s p2kh_prefix p2sh_prefix =
     (let input = pa_extract_input ec_public s p2kh_prefix p2sh_prefix in
      if input \<noteq> [] then input else [pa_extract_output s p2kh_prefix p2sh_prefix])"

section \<open>Checksums verify\<close>

lemma insert_verifies: "checksum \<le> 32 \<Longrightarrow> verify_checksum checksum (insert_checksum checksum bs)"
  by (simp add: verify_checksum_def insert_checksum_def Let_def sha256_size)

lemma new_payment_valid: "payment_valid (new_payment prefix payload)"
  by (simp add: payment_valid_def new_payment_def payment_checksum_size_def insert_verifies)

lemma new_payment_parts:
  assumes "length payload = short_hash_size"
  shows "length (new_payment prefix payload) = payment_value_size" "pa_prefix (new_payment prefix payload) = prefix"
    "pa_hash (new_payment prefix payload) = payload"
  using assms by (simp_all add: new_payment_def insert_checksum_def pa_prefix_def pa_hash_def payment_prefix_def
      payment_payload_def payment_value_size_def payment_prefix_size_def payment_checksum_size_def sha256_size)

lemma payment_parses:
  "length payload = short_hash_size \<Longrightarrow> pa_from_string (pa_encoded (new_payment prefix payload)) = new_payment prefix payload"
  using new_payment_parts(1) new_payment_valid
  by (simp add: pa_from_string_def pa_encoded_def decode_base58_array_def base58_roundtrip)

text \<open>The text of an address for a hash parses back to the address.\<close>
theorem payment_address_roundtrip:
  assumes "length payload = short_hash_size"
  shows "pa_from_string (pa_encoded (new_payment prefix payload)) = new_payment prefix payload"
  by (rule payment_parses [OF assms])

text \<open>C37. Every text that parses to a valid address is the one the address prints.\<close>
theorem payment_address_canonical:
  assumes "pa_from_string address \<noteq> default_payment"
  shows "pa_encoded (pa_from_string address) = address \<and> payment_valid (pa_from_string address) \<and>
    length (pa_from_string address) = payment_value_size"
proof -
  obtain bs where "decode_base58 address = Some bs" "length bs = payment_value_size" "payment_valid bs" "pa_from_string address = bs"
    using assms by (auto simp: pa_from_string_def decode_base58_array_def split: option.splits if_splits)
  then show ?thesis using decoded_text_unique by (simp add: pa_encoded_def)
qed

text \<open>The address of a key hash or script hash output leads back to the script that pays it.\<close>
theorem address_of_output:
  assumes "length hash = short_hash_size" "p2kh \<noteq> p2sh"
  shows "pa_output_script (pa_extract_output (from_operations (to_pay_key_hash_pattern hash)) p2kh p2sh) p2kh p2sh =
      from_operations (to_pay_key_hash_pattern hash) \<and>
    pa_output_script (pa_extract_output (from_operations (to_pay_script_hash_pattern hash)) p2kh p2sh) p2kh p2sh =
      from_operations (to_pay_script_hash_pattern hash)"
proof -
  have ne: "hash \<noteq> []" using assms(1) by (auto simp: key_sizes)
  have patterns: "is_pay_key_hash_pattern (to_pay_key_hash_pattern hash)" "is_pay_script_hash_pattern (to_pay_script_hash_pattern hash)"
    using assms ne nominal_push_size [of hash]
    by (simp_all add: to_pay_key_hash_pattern_def is_pay_key_hash_pattern_def
        to_pay_script_hash_pattern_def is_pay_script_hash_pattern_def opcode_from_size_def key_sizes)
  then have "output_pattern (from_operations (to_pay_key_hash_pattern hash)) = pay_key_hash"
    "output_pattern (from_operations (to_pay_script_hash_pattern hash)) = pay_script_hash"
    by (simp_all add: output_pattern_iff)
  moreover have "get_data (to_pay_key_hash_pattern hash ! 2) = hash" "get_data (to_pay_script_hash_pattern hash ! 1) = hash"
    using ne by (simp_all add: to_pay_key_hash_pattern_def to_pay_script_hash_pattern_def)
  ultimately show ?thesis
    using assms new_payment_parts [OF assms(1)] by (simp add: pa_extract_output_def pa_output_script_def Let_def)
qed

lemma append_checksum_verifies: "verify_chunk_checksum (append_checksum bs)"
proof -
  have "unat (bitcoin_checksum bs) < 256 ^ 4" using unsigned_less [of "bitcoin_checksum bs"] by simp
  then show ?thesis by (simp add: verify_chunk_checksum_def append_checksum_def le_value_le_bytes_id)
qed

section \<open>Witnesses\<close>

theorem payment_address_roundtrip_witness:
  "pa_from_string (pa_encoded (new_payment 0x05 (replicate 20 9))) = new_payment 0x05 (replicate 20 9)"
  by (rule payment_address_roundtrip) (simp add: key_sizes)

theorem payment_address_canonical_witness:
  "pa_encoded (pa_from_string (pa_encoded (new_payment 0x05 (replicate 20 9)))) = pa_encoded (new_payment 0x05 (replicate 20 9)) \<and>
   payment_valid (pa_from_string (pa_encoded (new_payment 0x05 (replicate 20 9)))) \<and>
   length (pa_from_string (pa_encoded (new_payment 0x05 (replicate 20 9)))) = payment_value_size"
proof (rule payment_address_canonical)
  have "hd (new_payment 0x05 (replicate 20 9)) \<noteq> hd default_payment"
    by (simp add: new_payment_def insert_checksum_def default_payment_def payment_value_size_def payment_prefix_size_def)
  then show "pa_from_string (pa_encoded (new_payment 0x05 (replicate 20 9))) \<noteq> default_payment"
    by (auto simp: payment_parses key_sizes)
qed

theorem address_of_output_witness:
  "pa_output_script (pa_extract_output (from_operations (to_pay_key_hash_pattern (replicate 20 9))) 0 5) 0 5 =
     from_operations (to_pay_key_hash_pattern (replicate 20 9)) \<and>
   pa_output_script (pa_extract_output (from_operations (to_pay_script_hash_pattern (replicate 20 9))) 0 5) 0 5 =
     from_operations (to_pay_script_hash_pattern (replicate 20 9))"
  by (rule address_of_output) (simp_all add: key_sizes)

end
