(* ===== verification/Neutrino.thy ===== *)
theory Neutrino
  imports Golomb PaymentAddress Block
begin

text \<open>
  The basic block filter (\<open>src/wallet/neutrino.cpp\<close>): the scripts a block spends and creates, as a
  golomb coded set behind its count. The filter of a block is always built within the size that was
  reserved for it, and it matches every script of the block.
\<close>

section \<open>Variable integers in a stream of bits\<close>

fun brd_bytes :: "nat \<Rightarrow> bit_reader \<Rightarrow> data_chunk \<times> bit_reader" where
  "brd_bytes 0 r = ([], r)"
| "brd_bytes (Suc n) r = (let (w, r) = read_bits 8 r; (bs, r) = brd_bytes n r in (ucast w # bs, r))"

definition brd_invalidate :: "bit_reader \<Rightarrow> bit_reader" where
  "brd_invalidate r = r\<lparr>brd_source := invalidate (brd_source r)\<rparr>"

definition brd_little_endian :: "nat \<Rightarrow> bit_reader \<Rightarrow> nat \<times> bit_reader" where
  "brd_little_endian n r = (let (bs, r) = brd_bytes n r in (le_value bs, r))"

definition brd_variable :: "bit_reader \<Rightarrow> nat \<times> bit_reader" where
  "brd_variable r = (let (bs, r) = brd_bytes 1 r; sz = hd bs in
     if sz = varint_eight_bytes then
       (let (v, r) = brd_little_endian 8 r in if v > max_uint32 then (v, r) else (0, brd_invalidate r))
     else if sz = varint_four_bytes then
       (let (v, r) = brd_little_endian 4 r in if v > max_uint16 then (v, r) else (0, brd_invalidate r))
     else if sz = varint_two_bytes then
       (let (v, r) = brd_little_endian 2 r in if v \<ge> unat varint_two_bytes then (v, r) else (0, brd_invalidate r))
     else (unat sz, r))"

definition bwr_bytes :: "data_chunk \<Rightarrow> bit_writer \<Rightarrow> bit_writer" where
  "bwr_bytes bs w = fold (\<lambda>b. write_bits (ucast b) 8) bs w"

definition bwr_variable :: "nat \<Rightarrow> bit_writer \<Rightarrow> bit_writer" where
  "bwr_variable v w = bwr_bytes (write_variable v) w"

section \<open>Filters\<close>

definition golomb_bits :: nat where "golomb_bits = 19"
definition golomb_target_false_positive_rate :: u64 where "golomb_target_false_positive_rate = 784931"

text \<open>A write past the reserved size fails the stream.\<close>

definition construct_filter :: "siphash_key \<Rightarrow> data_chunk list \<Rightarrow> data_chunk option" where
  "construct_filter key scripts =
     (let hashes = hash_distinct key scripts; count = length hashes;
          capacity = variable_size count + construct_bound count golomb_bits golomb_target_false_positive_rate;
          writer = bwr_variable count new_bit_writer;
          writer = golomb_construct_hashes writer hashes golomb_bits golomb_target_false_positive_rate;
          out = bwr_sink (bwr_flusher writer)
      in if length out > capacity then None else Some out)"

fun input_scripts :: "chain_input list \<Rightarrow> data_chunk list option" where
  "input_scripts [] = Some []"
| "input_scripts (i # is) = (case in_prevout i of None \<Rightarrow> None
     | Some p \<Rightarrow> map_option ((@) (if script_ops (out_script p) \<noteq> [] then [script_to_data (out_script p) False] else [])) (input_scripts is))"

definition output_scripts :: "chain_output list \<Rightarrow> data_chunk list" where
  "output_scripts outputs = concat (map (\<lambda>p. let s = out_script p in
     if script_ops s \<noteq> [] \<and> \<not> is_pay_op_return_pattern (script_ops s) then [script_to_data s False] else []) outputs)"

fun filter_scripts :: "transaction list \<Rightarrow> data_chunk list option" where
  "filter_scripts [] = Some []"
| "filter_scripts (t # txs) = (case (if \<not> tx_is_coinbase t then input_scripts (tx_inputs t) else Some []) of None \<Rightarrow> None
     | Some inputs \<Rightarrow> map_option ((@) (inputs @ output_scripts (tx_outputs t))) (filter_scripts txs))"

definition filter_key :: "data_chunk \<Rightarrow> siphash_key" where
  "filter_key hash = to_siphash_key (take 16 hash)"

definition compute_filter :: "chain_block \<Rightarrow> data_chunk option" where
  "compute_filter b = (let key = filter_key (header_hash (bitcoin_hash True) (blk_header b)) in
     case filter_scripts (blk_txs b) of None \<Rightarrow> None | Some scripts \<Rightarrow> construct_filter key scripts)"

definition compute_header :: "data_chunk \<Rightarrow> data_chunk \<Rightarrow> data_chunk" where
  "compute_header previous_header flt = bitcoin_hash2 True (bitcoin_hash True flt) previous_header"

record block_filter =
  filter_hash :: data_chunk
  filter_data :: data_chunk

definition match_filter :: "block_filter \<Rightarrow> script \<Rightarrow> bool" where
  "match_filter f s = (if script_ops s = [] then False
     else let (set_size, r) = brd_variable (new_bit_reader (reader_of (filter_data f))) in
       if \<not> rgood (brd_source r) then False
       else let target = script_to_data s False; key = filter_key (filter_hash f) in
         match_single r target (word_of_nat set_size) key golomb_bits golomb_target_false_positive_rate)"

definition match_filter_scripts :: "block_filter \<Rightarrow> script list \<Rightarrow> bool" where
  "match_filter_scripts f scripts = (if scripts = [] then False
     else let stack = map (\<lambda>s. script_to_data s False) (filter (\<lambda>s. script_ops s \<noteq> []) scripts) in
       if stack = [] then False
       else let (set_size, r) = brd_variable (new_bit_reader (reader_of (filter_data f))) in
         if \<not> rgood (brd_source r) then False
         else let key = filter_key (filter_hash f) in
           match_stack r stack (word_of_nat set_size) key golomb_bits golomb_target_false_positive_rate)"

definition match_filter_address :: "block_filter \<Rightarrow> payment \<Rightarrow> byte \<Rightarrow> byte \<Rightarrow> bool" where
  "match_filter_address f address p2kh_prefix p2sh_prefix = match_filter f (pa_output_script address p2kh_prefix p2sh_prefix)"

definition match_filter_addresses :: "block_filter \<Rightarrow> payment list \<Rightarrow> byte \<Rightarrow> byte \<Rightarrow> bool" where
  "match_filter_addresses f addresses p2kh_prefix p2sh_prefix = (if addresses = [] then False
     else match_filter_scripts f (map (\<lambda>a. pa_output_script a p2kh_prefix p2sh_prefix) addresses))"

section \<open>The count is read back\<close>

lemma brd_bytes_bits:
  "live r \<Longrightarrow> reader_bits r = bits_of bs @ rest \<Longrightarrow>
    \<exists>s. brd_bytes (length bs) r = (bs, s) \<and> live s \<and> reader_bits s = rest"
proof (induction bs arbitrary: r)
  case (Cons b bs)
  have "word_bits 8 (ucast b :: u64) = word_bits 8 b" by (rule word_bits_ucast) simp
  then have bits: "reader_bits r = word_bits 8 (ucast b :: u64) @ bits_of bs @ rest" using Cons.prems(2) by simp
  have "ucast (take_bit 8 (ucast b :: u64)) = b" by (intro bit_word_eqI) (simp add: bit_simps)
  then obtain w s where s: "read_bits 8 r = (w, s)" "ucast w = b" "live s" "reader_bits s = bits_of bs @ rest"
    using read_bits_word [OF Cons.prems(1) bits] by (cases "read_bits 8 r") auto
  then show ?case using Cons.IH [OF s(3,4)] by auto
qed simp

lemma brd_little_endian_bits:
  "live r \<Longrightarrow> reader_bits r = bits_of (le_bytes n v) @ rest \<Longrightarrow> v < 256 ^ n \<Longrightarrow>
    \<exists>s. brd_little_endian n r = (v, s) \<and> live s \<and> reader_bits s = rest"
  using brd_bytes_bits [of r "le_bytes n v" rest] by (auto simp: brd_little_endian_def le_value_le_bytes_id)

lemma brd_variable_bits:
  assumes "live r" "reader_bits r = bits_of (write_variable v) @ rest" "v \<le> max_uint64"
  shows "\<exists>s. brd_variable r = (v, s) \<and> live s \<and> reader_bits s = rest"
proof -
  have head: "\<exists>s. brd_bytes 1 r = ([b], s) \<and> live s \<and> reader_bits s = bits_of bs @ rest"
    if "write_variable v = b # bs" for b bs
    using brd_bytes_bits [OF assms(1), of "[b]" "bits_of bs @ rest"] assms(2) that by simp
  consider "v < 253" | "253 \<le> v" "v \<le> max_uint16" | "max_uint16 < v" "v \<le> max_uint32" | "max_uint32 < v"
    by linarith
  then show ?thesis
  proof cases
    case 1
    then have s: "unat (word_of_nat v :: byte) = v" by (simp add: unat_of_nat)
    then have "(word_of_nat v :: byte) \<noteq> b" if "253 \<le> unat b" for b :: byte using 1 that by auto
    then have "(word_of_nat v :: byte) \<noteq> 0xff" "(word_of_nat v :: byte) \<noteq> 0xfe" "(word_of_nat v :: byte) \<noteq> 0xfd" by simp_all
    moreover have "write_variable v = word_of_nat v # []" using 1 by (simp add: write_variable_def write_byte_def varint_simps)
    ultimately show ?thesis using head [of "word_of_nat v" "[]"] s
      by (auto simp: brd_variable_def varint_simps)
  next
    case 2
    then have w: "write_variable v = 0xfd # le_bytes 2 v" "v < 256 ^ 2"
      by (simp_all add: write_variable_def write_byte_def write_little_endian_def varint_simps limits)
    then obtain s where "brd_bytes 1 r = ([0xfd], s)" "live s" "reader_bits s = bits_of (le_bytes 2 v) @ rest" using head by blast
    then show ?thesis using brd_little_endian_bits [of s 2 v rest] w(2) 2 by (auto simp: brd_variable_def varint_simps)
  next
    case 3
    then have w: "write_variable v = 0xfe # le_bytes 4 v" "v < 256 ^ 4"
      by (simp_all add: write_variable_def write_byte_def write_little_endian_def varint_simps limits)
    then obtain s where "brd_bytes 1 r = ([0xfe], s)" "live s" "reader_bits s = bits_of (le_bytes 4 v) @ rest" using head by blast
    then show ?thesis using brd_little_endian_bits [of s 4 v rest] w(2) 3 by (auto simp: brd_variable_def varint_simps)
  next
    case 4
    then have w: "write_variable v = 0xff # le_bytes 8 v" "v < 256 ^ 8"
      using assms(3) by (simp_all add: write_variable_def write_byte_def write_little_endian_def varint_simps limits)
    then obtain s where "brd_bytes 1 r = ([0xff], s)" "live s" "reader_bits s = bits_of (le_bytes 8 v) @ rest" using head by blast
    then show ?thesis using brd_little_endian_bits [of s 8 v rest] w(2) 4 by (auto simp: brd_variable_def varint_simps)
  qed
qed

lemma bwr_bytes_bits: "writer_ok w \<Longrightarrow> writer_bits (bwr_bytes bs w) = writer_bits w @ bits_of bs \<and> writer_ok (bwr_bytes bs w)"
proof (induction bs arbitrary: w)
  case (Cons b bs)
  have "word_bits 8 (ucast b :: u64) = word_bits 8 b" by (rule word_bits_ucast) simp
  then show ?case using Cons write_bits_bits [OF Cons.prems, of 8 "ucast b"] by (simp add: bwr_bytes_def)
qed (simp add: bwr_bytes_def)
section \<open>A block's filter is built\<close>

abbreviation filter_bound :: "nat \<Rightarrow> u64" where
  "filter_bound count \<equiv> golomb_target_false_positive_rate * word_of_nat count"

lemma filter_arith:
  assumes "count < 2 ^ 40"
  shows "unat (filter_bound count) = 784931 * count" "\<not> is_multiply_overflow golomb_target_false_positive_rate (word_of_nat count)"
    "count * (golomb_bits + 1) + unat (drop_bit golomb_bits (filter_bound count)) < 2 ^ 64" "unat (word_of_nat count :: u64) = count"
    "construct_bound count golomb_bits golomb_target_false_positive_rate \<le> 2 ^ 62"
proof -
  show n: "unat (word_of_nat count :: u64) = count" using assms by (simp add: unat_of_nat)
  have rate: "unat golomb_target_false_positive_rate = 784931" by (simp add: golomb_target_false_positive_rate_def)
  show bound: "unat (filter_bound count) = 784931 * count"
    using assms rate n by (simp add: unat_word_ariths)
  show "\<not> is_multiply_overflow golomb_target_false_positive_rate (word_of_nat count)"
  proof (cases "count = 0")
    case False
    have "unat (- 1 div word_of_nat count :: u64) = (2 ^ 64 - 1) div count" by (simp add: unat_div n unsigned_minus_1_eq_mask mask_eq_exp_minus_1)
    moreover have "784931 \<le> (2 ^ 64 - 1) div count" using assms False by (simp add: less_eq_div_iff_mult_less_eq)
    ultimately show ?thesis by (simp add: is_multiply_overflow_def word_less_nat_alt rate not_less)
  qed (simp add: is_multiply_overflow_def)
  have "unat (drop_bit golomb_bits (filter_bound count)) = 784931 * count div 2 ^ golomb_bits"
    unfolding unat_drop_bit_eq bound by (rule drop_bit_eq_div)
  also have "\<dots> \<le> 784931 * count" by (rule div_le_dividend)
  finally show size: "count * (golomb_bits + 1) + unat (drop_bit golomb_bits (filter_bound count)) < 2 ^ 64"
    using assms by (simp add: golomb_bits_def)
  have "unat (word_of_nat count * (word_of_nat golomb_bits + 1) + drop_bit golomb_bits (filter_bound count)) \<le> 2 ^ 64 - 1"
  proof -
    have "unat x \<le> 2 ^ 64 - 1" for x :: u64
    proof -
      have "unat x < 2 ^ LENGTH(64)" by (rule unsigned_less)
      then have "unat x < 18446744073709551616" by simp
      then have "unat x \<le> 18446744073709551615" by linarith
      then show ?thesis by simp
    qed
    then show ?thesis .
  qed
  then show "construct_bound count golomb_bits golomb_target_false_positive_rate \<le> 2 ^ 62"
    by (auto simp: construct_bound_def Let_def)
qed

lemma distinct_count: "length (hash_distinct key scripts) \<le> length scripts"
proof -
  have "card (set scripts) \<le> length scripts" by (rule card_length)
  then show ?thesis by (simp add: hash_distinct_count)
qed

lemma filter_bits:
  assumes "length scripts < 2 ^ 40"
  shows "\<exists>out pad. construct_filter key scripts = Some out \<and> length out \<le> max_size_t \<and>
    bits_of out = bits_of (write_variable (length (hash_distinct key scripts))) @
      differences_code 0 (map (\<lambda>h. to_range h (filter_bound (length (hash_distinct key scripts)))) (hash_distinct key scripts)) golomb_bits @ pad"
proof -
  let ?hs = "hash_distinct key scripts" let ?n = "length ?hs"
  let ?v = "bwr_variable ?n new_bit_writer" let ?w = "golomb_construct_hashes ?v ?hs golomb_bits golomb_target_false_positive_rate"
  have n: "?n < 2 ^ 40" using assms distinct_count [of key scripts] by simp
  note arith = filter_arith [OF n]
  have v: "writer_bits ?v = bits_of (write_variable ?n)" "writer_ok ?v"
    using bwr_bytes_bits [OF new_writer(2)] new_writer(1) by (simp_all add: bwr_variable_def)
  have size: "length (write_variable ?n) = variable_size ?n" by (simp add: write_variable_def variable_size_def write_byte_def write_little_endian_def)
  have e: "golomb_bits < 64" by (simp add: golomb_bits_def)
  have "length (bwr_sink (bwr_flusher ?w)) \<le> variable_size ?n + construct_bound ?n golomb_bits golomb_target_false_positive_rate"
    using construct_bound_from [OF hash_distinct_sorted e arith(2,3) v(2), of "variable_size ?n"] v(1) size by simp
  then have some: "construct_filter key scripts = Some (bwr_sink (bwr_flusher ?w))"
    and "length (bwr_sink (bwr_flusher ?w)) \<le> variable_size ?n + 2 ^ 62"
    using arith(5) by (simp_all add: construct_filter_def Let_def)
  then have "length (bwr_sink (bwr_flusher ?w)) \<le> max_size_t" by (simp add: variable_size_def max_size_t_def split: if_splits)
  moreover have "writer_bits ?w = bits_of (write_variable ?n) @ differences_code 0 (map (\<lambda>h. to_range h (filter_bound ?n)) ?hs) golomb_bits \<and> writer_ok ?w"
    using write_differences_bits [OF v(2), of golomb_bits 0] v(1) e arith(2) by (simp add: golomb_construct_hashes_def Let_def)
  ultimately show ?thesis using flusher_bits [of ?w] some
    by (intro exI [of _ "bwr_sink (bwr_flusher ?w)"]) auto
qed

lemma filter_exact:
  assumes "length scripts < 2 ^ 40"
  shows "\<exists>out. construct_filter (filter_key hash) scripts = Some out \<and>
    (\<forall>s. match_filter \<lparr>filter_hash = hash, filter_data = out\<rparr> s = (script_ops s \<noteq> [] \<and>
      (\<exists>item \<in> set scripts. hash_to_range item (filter_bound (length (hash_distinct (filter_key hash) scripts))) (filter_key hash) =
        hash_to_range (script_to_data s False) (filter_bound (length (hash_distinct (filter_key hash) scripts))) (filter_key hash))))"
proof -
  let ?key = "filter_key hash" let ?hs = "hash_distinct (filter_key hash) scripts" let ?n = "length ?hs"
  let ?vs = "map (\<lambda>h. to_range h (filter_bound ?n)) ?hs"
  have n: "?n < 2 ^ 40" using assms distinct_count [of ?key scripts] by simp
  obtain out pad where out: "construct_filter ?key scripts = Some out" "length out \<le> max_size_t"
      "bits_of out = bits_of (write_variable ?n) @ differences_code 0 ?vs golomb_bits @ pad"
    using filter_bits [OF assms, of ?key] by (elim exE conjE) (rule that)
  obtain r where r: "brd_variable (new_bit_reader (reader_of out)) = (?n, r)" "live r" "reader_bits r = differences_code 0 ?vs golomb_bits @ pad"
    using brd_variable_bits [OF construct_reader [OF out(2,3)]] n by (auto simp: max_uint64_def)
  have sorted: "sorted ?vs" unfolding sorted_map
    by (rule sorted_wrt_mono_rel [OF _ hash_distinct_sorted]) (rule to_range_mono)
  have good: "rgood (brd_source r)" using r(2) by (simp add: live_def ready_def)
  have match: "match_filter \<lparr>filter_hash = hash, filter_data = out\<rparr> s = (script_ops s \<noteq> [] \<and>
      hash_to_range (script_to_data s False) (filter_bound ?n) ?key \<in> set ?vs)" for s
    using match_loop_exact [OF r(2,3) _ sorted] filter_arith(4) [OF n] good
    by (simp add: match_filter_def r(1) match_single_def Let_def golomb_bits_def)
  have ranges: "set ?vs = (\<lambda>item. hash_to_range item (filter_bound ?n) ?key) ` set scripts"
    by (simp add: hash_distinct_set image_image hash_to_range_def)
  have image: "(x \<in> f ` S) = (\<exists>item\<in>S. f item = x)" for x :: u64 and f :: "data_chunk \<Rightarrow> u64" and S by auto
  show ?thesis by (intro exI [of _ out] conjI allI, rule out(1)) (simp only: match ranges image)
qed

lemma filter_matches:
  assumes "length scripts < 2 ^ 40"
  shows "\<exists>out. construct_filter (filter_key hash) scripts = Some out \<and>
    (\<forall>s. script_ops s \<noteq> [] \<longrightarrow> script_to_data s False \<in> set scripts \<longrightarrow> match_filter \<lparr>filter_hash = hash, filter_data = out\<rparr> s)"
  using filter_exact [OF assms, of hash] by blast

text \<open>C32. The filter of scripts is built and matches exactly the scripts whose range value is one of theirs.\<close>
theorem filter_match_exact:
  assumes "length scripts < 2 ^ 40"
  shows "\<exists>out. construct_filter (filter_key hash) scripts = Some out \<and>
    (\<forall>s. match_filter \<lparr>filter_hash = hash, filter_data = out\<rparr> s = (script_ops s \<noteq> [] \<and>
      (\<exists>item \<in> set scripts. hash_to_range item (filter_bound (length (hash_distinct (filter_key hash) scripts))) (filter_key hash) =
        hash_to_range (script_to_data s False) (filter_bound (length (hash_distinct (filter_key hash) scripts))) (filter_key hash))))"
  by (rule filter_exact [OF assms])

section \<open>No script of a block is missed\<close>

lemma input_scripts_members:
  "input_scripts is = Some scripts \<Longrightarrow> i \<in> set is \<Longrightarrow>
    \<exists>p. in_prevout i = Some p \<and> (script_ops (out_script p) \<noteq> [] \<longrightarrow> script_to_data (out_script p) False \<in> set scripts)"
  by (induction "is" arbitrary: scripts) (auto split: option.splits if_splits)

lemma filter_scripts_members:
  "filter_scripts txs = Some scripts \<Longrightarrow> t \<in> set txs \<Longrightarrow>
    set (output_scripts (tx_outputs t)) \<subseteq> set scripts \<and>
    (\<not> tx_is_coinbase t \<longrightarrow> (\<exists>inputs. input_scripts (tx_inputs t) = Some inputs \<and> set inputs \<subseteq> set scripts))"
  by (induction txs arbitrary: scripts) (fastforce split: option.splits if_splits)+

text \<open>
  C31. The filter of a block whose inputs are populated is built, and it matches the script of every
  output that is not an op return and every script that is spent.
\<close>
theorem block_filter_matches:
  assumes "filter_scripts (blk_txs b) = Some scripts" "length scripts < 2 ^ 40" "t \<in> set (blk_txs b)"
  shows "\<exists>out. compute_filter b = Some out \<and>
    (\<forall>p \<in> set (tx_outputs t). script_ops (out_script p) \<noteq> [] \<and> \<not> is_pay_op_return_pattern (script_ops (out_script p)) \<longrightarrow>
      match_filter \<lparr>filter_hash = header_hash (bitcoin_hash True) (blk_header b), filter_data = out\<rparr> (out_script p)) \<and>
    (\<not> tx_is_coinbase t \<longrightarrow> (\<forall>i \<in> set (tx_inputs t). \<exists>p. in_prevout i = Some p \<and> (script_ops (out_script p) \<noteq> [] \<longrightarrow>
      match_filter \<lparr>filter_hash = header_hash (bitcoin_hash True) (blk_header b), filter_data = out\<rparr> (out_script p))))"
proof -
  let ?hash = "header_hash (bitcoin_hash True) (blk_header b)"
  obtain out where out: "construct_filter (filter_key ?hash) scripts = Some out"
      "\<And>s. script_ops s \<noteq> [] \<Longrightarrow> script_to_data s False \<in> set scripts \<Longrightarrow> match_filter \<lparr>filter_hash = ?hash, filter_data = out\<rparr> s"
    using filter_matches [OF assms(2), of ?hash] by blast
  have "script_to_data (out_script p) False \<in> set scripts"
    if "p \<in> set (tx_outputs t)" "script_ops (out_script p) \<noteq> []" "\<not> is_pay_op_return_pattern (script_ops (out_script p))" for p
    using filter_scripts_members [OF assms(1,3)] that by (auto simp: output_scripts_def Let_def)
  moreover have "\<exists>p. in_prevout i = Some p \<and> (script_ops (out_script p) \<noteq> [] \<longrightarrow> script_to_data (out_script p) False \<in> set scripts)"
    if "\<not> tx_is_coinbase t" "i \<in> set (tx_inputs t)" for i
    using filter_scripts_members [OF assms(1,3)] that input_scripts_members by blast
  moreover have "compute_filter b = Some out" using out(1) assms(1) by (simp add: compute_filter_def)
  ultimately show ?thesis using out(2) by (intro exI [of _ out]) blast
qed

text \<open>
  C38. With several scripts a block can be missed: the scripts \<open>a\<close> and \<open>b\<close> against the filter of a block
  with the script \<open>b\<close> only, when the range value of \<open>a\<close> is below that of \<open>b\<close>.
\<close>
theorem scripts_match_misses:
  assumes "script_ops a \<noteq> []" "script_ops b \<noteq> []"
    "hash_to_range (script_to_data a False) (filter_bound 1) (filter_key hash) < hash_to_range (script_to_data b False) (filter_bound 1) (filter_key hash)"
  shows "\<exists>out. construct_filter (filter_key hash) [script_to_data b False] = Some out \<and>
    match_filter \<lparr>filter_hash = hash, filter_data = out\<rparr> b \<and>
    \<not> match_filter_scripts \<lparr>filter_hash = hash, filter_data = out\<rparr> [a, b]"
proof -
  let ?key = "filter_key hash" let ?r = "\<lambda>s. hash_to_range (script_to_data s False) (filter_bound 1) (filter_key hash)"
  have hashes: "hash_distinct ?key [script_to_data b False] = [siphash ?key (script_to_data b False)]"
    by (simp add: hash_distinct_def hash_pairs_def)
  obtain out pad where out: "construct_filter ?key [script_to_data b False] = Some out" "length out \<le> max_size_t"
      "bits_of out = bits_of (write_variable 1) @ golomb_code golomb_bits (?r b) @ pad"
    using filter_bits [of "[script_to_data b False]" ?key] by (auto simp: hashes hash_to_range_def)
  obtain r where r: "brd_variable (new_bit_reader (reader_of out)) = (1, r)" "live r" "reader_bits r = golomb_code golomb_bits (?r b) @ pad"
    using brd_variable_bits [OF construct_reader [OF out(2,3)]] by (auto simp: max_uint64_def)
  obtain s where s: "golomb_decode r golomb_bits = (?r b, s)"
    using golomb_decode_bits [OF r(2,3)] by (auto simp: golomb_bits_def)
  have good: "rgood (brd_source r)" using r(2) by (simp add: live_def ready_def)
  have no: "\<not> is_multiply_overflow golomb_target_false_positive_rate 1" using filter_arith(2) [of 1] by simp
  have "hashed_set_construct [script_to_data a False, script_to_data b False] 1 golomb_target_false_positive_rate ?key = [?r a, ?r b]"
    using assms(3) less_imp_le [OF assms(3)] no by (simp add: hashed_set_construct_def)
  moreover have "match_targets [?r a, ?r b] (?r b) (?r a) 0 = (False, 2)"
    using less_not_sym [OF assms(3)] less_imp_neq [OF assms(3)]
    by (simp add: match_targets.simps [of _ _ _ 0] match_targets.simps [of _ _ _ "Suc 0"] match_targets.simps [of _ _ _ "Suc (Suc 0)"] eval_nat_numeral)
  ultimately have "\<not> match_filter_scripts \<lparr>filter_hash = hash, filter_data = out\<rparr> [a, b]"
    using assms(1,2) good s by (simp add: match_filter_scripts_def r(1) match_stack_def Let_def)
  moreover have "match_filter \<lparr>filter_hash = hash, filter_data = out\<rparr> b"
    using assms(2) good s by (simp add: match_filter_def r(1) match_single_def Let_def)
  ultimately show ?thesis using out(1) by blast
qed

section \<open>Witnesses\<close>

definition small_script :: "byte \<Rightarrow> script" where
  "small_script code = from_operations [op_of_code code]"

lemma small_scripts: "script_to_data (small_script 0x51) False = [0x51]" "script_to_data (small_script 0x52) False = [0x52]"
  "script_ops (small_script code) \<noteq> []"
  by (simp_all add: small_script_def from_operations_def script_ops_from_operations [unfolded from_operations_def]
      operation_to_data_def op_of_code_def write_byte_def get_data_def)

lemma zero_key: "filter_key (replicate 32 0) = (0, 0)"
  by (simp add: filter_key_def to_siphash_key_def)

theorem filter_match_exact_witness:
  "\<exists>out. construct_filter (filter_key [1]) [[0x51], [0x52]] = Some out \<and>
    (\<forall>s. match_filter \<lparr>filter_hash = [1], filter_data = out\<rparr> s = (script_ops s \<noteq> [] \<and>
      (\<exists>item \<in> set [[0x51], [0x52]]. hash_to_range item (filter_bound (length (hash_distinct (filter_key [1]) [[0x51], [0x52]]))) (filter_key [1]) =
        hash_to_range (script_to_data s False) (filter_bound (length (hash_distinct (filter_key [1]) [[0x51], [0x52]]))) (filter_key [1]))))"
  by (rule filter_match_exact) simp

theorem scripts_match_misses_witness:
  "\<exists>out. construct_filter (filter_key (replicate 32 0)) [script_to_data (small_script 0x52) False] = Some out \<and>
    match_filter \<lparr>filter_hash = replicate 32 0, filter_data = out\<rparr> (small_script 0x52) \<and>
    \<not> match_filter_scripts \<lparr>filter_hash = replicate 32 0, filter_data = out\<rparr> [small_script 0x51, small_script 0x52]"
proof (rule scripts_match_misses)
  show "hash_to_range (script_to_data (small_script 0x51) False) (filter_bound 1) (filter_key (replicate 32 0))
      < hash_to_range (script_to_data (small_script 0x52) False) (filter_bound 1) (filter_key (replicate 32 0))"
    by (simp add: zero_key small_scripts hash_to_range_def to_range_def siphash_of_one siphash_of_two golomb_target_false_positive_rate_def)
qed (rule small_scripts)+

definition paying_block :: chain_block where
  "paying_block = example_block\<lparr>blk_txs := [example_coinbase\<lparr>tx_outputs := [make_output 5000 (small_script 0x51) True]\<rparr>]\<rparr>"

theorem block_filter_matches_witness:
  "\<exists>out. compute_filter paying_block = Some out \<and>
    match_filter \<lparr>filter_hash = header_hash (bitcoin_hash True) (blk_header paying_block), filter_data = out\<rparr> (small_script 0x51)"
proof -
  let ?t = "example_coinbase\<lparr>tx_outputs := [make_output 5000 (small_script 0x51) True]\<rparr>"
  have coinbase: "tx_is_coinbase ?t" using example_coinbase_facts(1) by (simp add: tx_is_coinbase_def)
  have plain: "\<not> is_pay_op_return_pattern (script_ops (small_script 0x51))"
    by (simp add: is_pay_op_return_pattern_def small_script_def op_of_code_def)
  have txs: "blk_txs paying_block = [?t]" by (simp add: paying_block_def)
  have "filter_scripts (blk_txs paying_block) = Some [[0x51]]"
    using coinbase plain by (simp add: txs output_scripts_def make_output_def small_scripts)
  from block_filter_matches [OF this, of ?t] show ?thesis
    using plain by (auto simp: txs make_output_def small_scripts)
qed

end
