(* ===== verification/Views.thy ===== *)
theory Views
  imports Block
begin

text \<open>
  Views of wire data: \<open>src/chain/view/output.cpp\<close>, \<open>src/chain/view/input.cpp\<close> and
  \<open>src/chain/view/transaction.cpp\<close>. A view keeps pointers into the buffer of a block instead of
  objects, and takes properties from the bytes behind them. The last section shows that the
  view of a transaction is found exactly in the bytes that the transaction reader accepts, and that
  it has the sizes and hashes of the transaction.

  A pointer into a buffer is the rest of the buffer from there on. The unguarded reads behind a
  pointer return nothing where the bytes they ask for are not in the buffer.
\<close>

section \<open>Unguarded reads\<close>

definition unsafe_little_endian :: "nat \<Rightarrow> data_chunk \<Rightarrow> nat option" where
  "unsafe_little_endian n data = (if n \<le> length data then Some (le_value (take n data)) else None)"

definition unsafe_variable :: "data_chunk \<Rightarrow> (nat \<times> data_chunk) option" where
  "unsafe_variable data = (case data of [] \<Rightarrow> None | prefix # data \<Rightarrow>
     let fixed = (\<lambda>n. map_option (\<lambda>v. (v, drop n data)) (unsafe_little_endian n data)) in
     if prefix = varint_eight_bytes then fixed 8 else if prefix = varint_four_bytes then fixed 4
     else if prefix = varint_two_bytes then fixed 2 else Some (unat prefix, data))"

section \<open>Outputs\<close>

record output_view =
  ov_data :: data_chunk
  ov_script_ptr :: data_chunk
  ov_size :: nat

definition value_size :: nat where "value_size = 8"

definition output_view_of :: "data_chunk \<Rightarrow> output_view option" where
  "output_view_of data = map_option (\<lambda>(n, position). \<lparr>ov_data = data, ov_script_ptr = position, ov_size = n\<rparr>)
     (unsafe_variable (drop value_size data))"

definition ov_value :: "output_view \<Rightarrow> nat" where
  "ov_value v = le_value (take 8 (ov_data v))"

definition ov_script_data :: "output_view \<Rightarrow> data_chunk" where
  "ov_script_data v = take (ov_size v) (ov_script_ptr v)"

definition ov_serialized_size :: "output_view \<Rightarrow> nat" where
  "ov_serialized_size v = (length (ov_data v) - length (ov_script_ptr v)) + ov_size v"

definition ov_to_data :: "output_view \<Rightarrow> data_chunk" where
  "ov_to_data v = take (ov_serialized_size v) (ov_data v)"

definition ov_script :: "output_view \<Rightarrow> script" where
  "ov_script v = script_of_bytes (ov_script_data v)"

definition ov_hash :: "(data_chunk \<Rightarrow> hash_digest) \<Rightarrow> output_view \<Rightarrow> hash_digest" where
  "ov_hash sha256 v = sha256 (ov_to_data v)"

definition ov_is_pay_op_return_pattern :: "output_view \<Rightarrow> bool" where
  "ov_is_pay_op_return_pattern v \<longleftrightarrow> ov_size v \<noteq> 0 \<and> hd (ov_script_ptr v) = opcode_op_return"

definition ov_signature_operations :: "output_view \<Rightarrow> bool \<Rightarrow> nat" where
  "ov_signature_operations v bip141 =
     (let factor = (if bip141 then heavy_sigops_factor else 1)
      in signature_operations_stream (reader_of (ov_script_data v)) False * factor)"

section \<open>Inputs\<close>

record input_view =
  iv_data :: data_chunk
  iv_script_ptr :: data_chunk
  iv_size :: nat
  iv_witness_ptr :: "data_chunk option"
  iv_witness_size :: nat
  iv_prevout :: "output_view option"

definition input_view_of :: "data_chunk \<Rightarrow> data_chunk option \<Rightarrow> nat \<Rightarrow> input_view option" where
  "input_view_of data witness witness_size = map_option (\<lambda>(n, position).
      \<lparr>iv_data = data, iv_script_ptr = position, iv_size = n, iv_witness_ptr = witness,
       iv_witness_size = witness_size, iv_prevout = None\<rparr>)
     (unsafe_variable (drop point_serialized_size data))"

definition iv_point_hash :: "input_view \<Rightarrow> hash_digest" where
  "iv_point_hash v = take hash_size (iv_data v)"

definition iv_point_index :: "input_view \<Rightarrow> u32" where
  "iv_point_index v = word_of_nat (le_value (take 4 (drop hash_size (iv_data v))))"

definition iv_is_null_point :: "input_view \<Rightarrow> bool" where
  "iv_is_null_point v \<longleftrightarrow> iv_point_hash v = null_hash \<and> iv_point_index v = null_index"

definition iv_script_data :: "input_view \<Rightarrow> data_chunk" where
  "iv_script_data v = take (iv_size v) (iv_script_ptr v)"

definition iv_witness_data :: "input_view \<Rightarrow> data_chunk" where
  "iv_witness_data v = (case iv_witness_ptr v of None \<Rightarrow> [] | Some w \<Rightarrow> take (iv_witness_size v) w)"

definition iv_sequence :: "input_view \<Rightarrow> u32" where
  "iv_sequence v = word_of_nat (le_value (take 4 (drop (iv_size v) (iv_script_ptr v))))"

definition iv_is_final :: "input_view \<Rightarrow> bool" where
  "iv_is_final v \<longleftrightarrow> iv_sequence v = max_input_sequence"

definition iv_script :: "input_view \<Rightarrow> script" where
  "iv_script v = script_of_bytes (iv_script_data v)"

definition iv_witness :: "input_view \<Rightarrow> witness" where
  "iv_witness v = (case iv_witness_ptr v of None \<Rightarrow> default_witness
     | Some _ \<Rightarrow> fst (witness_from_data (reader_of (iv_witness_data v)) True))"

definition iv_is_roller :: "input_view \<Rightarrow> bool" where
  "iv_is_roller v \<longleftrightarrow> script_roller (iv_script v) \<or>
     (case iv_prevout v of None \<Rightarrow> False | Some p \<Rightarrow> script_roller (ov_script p))"

definition iv_signature_operations :: "input_view \<Rightarrow> bool \<Rightarrow> bool \<Rightarrow> nat" where
  "iv_signature_operations v bip16 bip141 =
     (let factor = (if bip141 then heavy_sigops_factor else 1);
          sigops = signature_operations (iv_script v) False * factor in
      case iv_prevout v of None \<Rightarrow> sigops
      | Some prevout \<Rightarrow>
        (case (if bip141 then witness_extract_sigop_script (iv_witness v) (ov_script prevout) else None) of
           Some s \<Rightarrow> ceilinged_add sigops (signature_operations s True)
         | None \<Rightarrow>
           (case (if bip16 then extract_sigop_script (iv_script v) (ov_script prevout) else None) of
              None \<Rightarrow> sigops
            | Some embedded \<Rightarrow>
              (case (if bip141 then witness_extract_sigop_script (iv_witness v) embedded else None) of
                 Some s \<Rightarrow> ceilinged_add sigops (signature_operations s True)
               | None \<Rightarrow> ceilinged_add sigops (signature_operations embedded True * factor)))))"

section \<open>Transactions\<close>

text \<open>The pointer is null when the bytes are not a transaction.\<close>

record tx_view =
  tv_ptr :: "data_chunk option"
  tv_in_offset :: nat
  tv_in_count :: nat
  tv_out_offset :: nat
  tv_out_count :: nat
  tv_size :: nat
  tv_witnesses_size :: nat
  tv_input_table_size :: nat
  tv_output_table_size :: nat
  tv_txid :: hash_digest
  tv_wtxid :: hash_digest
  tv_segregated :: bool
  tv_coinbase :: bool
  tv_inputs :: "input_view list option"

definition version_size :: nat where "version_size = 4"
definition sequence_size :: nat where "sequence_size = 4"
definition locktime_size :: nat where "locktime_size = 4"
definition sentinels_size :: nat where "sentinels_size = 1 + 1"

text \<open>The loops over inputs, outputs and witnesses, with the table sizes they add up.\<close>

fun skip_inputs :: "nat \<Rightarrow> reader \<Rightarrow> nat \<times> reader" where
  "skip_inputs 0 r = (0, r)"
| "skip_inputs (Suc n) r = (let (sz, s) = read_size max_bytes (skip_bytes point_serialized_size r);
     (acc, t) = skip_inputs n (skip_bytes (sz + sequence_size) s) in (variable_size sz + sz + acc, t))"

fun skip_outputs :: "nat \<Rightarrow> reader \<Rightarrow> nat \<times> reader" where
  "skip_outputs 0 r = (0, r)"
| "skip_outputs (Suc n) r = (let (v, s) = read_little_endian 8 r; (sz, s) = read_size max_bytes s;
     (acc, t) = skip_outputs n (skip_bytes sz s) in (variable_size v + variable_size sz + sz + acc, t))"

fun skip_witnesses :: "nat \<Rightarrow> reader \<Rightarrow> bool \<times> reader" where
  "skip_witnesses 0 r = (True, r)"
| "skip_witnesses (Suc n) r = (let (nonempty, s) = witness_skip r True;
     (superfluous, t) = skip_witnesses n s in (\<not> nonempty \<and> superfluous, t))"

definition tv_stripped_size :: "tx_view \<Rightarrow> nat" where
  "tv_stripped_size v = (if tv_witnesses_size v = 0 then tv_size v
     else tv_size v - (tv_witnesses_size v + sentinels_size))"

definition set_identifiers :: "(data_chunk \<Rightarrow> hash_digest) \<Rightarrow> bool \<Rightarrow> bool \<Rightarrow> bool \<Rightarrow> data_chunk \<Rightarrow> tx_view \<Rightarrow> tx_view" where
  "set_identifiers bitcoin_hash has_witness coinbase witness ptr v =
     (if has_witness
      then v\<lparr>tv_txid := desegregated_hash bitcoin_hash (tv_size v) (tv_stripped_size v) ptr,
             tv_wtxid := (if witness \<and> \<not> coinbase then bitcoin_hash (take (tv_size v) ptr) else tv_wtxid v)\<rparr>
      else v\<lparr>tv_txid := bitcoin_hash (take (tv_size v) ptr)\<rparr>)"

text \<open>
  The source stands at a transaction in the block buffer, which is the buffer that it reads.
\<close>

definition view_transaction ::
  "(data_chunk \<Rightarrow> hash_digest) \<Rightarrow> bool \<Rightarrow> bool \<Rightarrow> reader \<Rightarrow> tx_view \<times> reader" where
  "view_transaction bitcoin_hash coinbase witness r =
     (let tx_start = get_read_position r; ptr = drop tx_start (rbuf r);
          (count, r2) = read_size max_count (skip_bytes version_size r);
          (peeked, r3) = (if count = unat witness_marker then peek_byte r2 else (0, r2));
          has_witness = (count = unat witness_marker \<and> peeked = witness_enabled);
          (in_count, r4) = (if has_witness then read_size max_count (skip_bytes 1 r3) else (count, r3));
          in_offset = get_read_position r4 - tx_start;
          (in_table, r5) = skip_inputs in_count r4;
          (out_count, r6) = read_size max_count r5;
          out_offset = get_read_position r6 - tx_start;
          (out_table, r7) = skip_outputs out_count r6;
          wit_offset = get_read_position r7 - tx_start;
          r8 = (if has_witness then (let (superfluous, s) = skip_witnesses in_count r7
              in if superfluous then invalidate s else s) else r7);
          r9 = skip_bytes locktime_size r8;
          sz = get_read_position r9 - tx_start;
          witnesses_size = sz - (wit_offset + locktime_size);
          r10 = (if in_count = 0 \<or> out_count = 0 then invalidate r9 else r9);
          v = \<lparr>tv_ptr = None, tv_in_offset = in_offset, tv_in_count = in_count,
            tv_out_offset = out_offset, tv_out_count = out_count, tv_size = sz,
            tv_witnesses_size = witnesses_size,
            tv_input_table_size = in_table + (if has_witness \<and> witness then witnesses_size else in_count),
            tv_output_table_size = out_table, tv_txid = null_hash, tv_wtxid = null_hash,
            tv_segregated = has_witness \<and> witness, tv_coinbase = coinbase, tv_inputs = None\<rparr>
      in (if \<not> rgood r10 then v
          else set_identifiers bitcoin_hash has_witness coinbase witness ptr (v\<lparr>tv_ptr := Some ptr\<rparr>), r10))"

definition view_transaction_buffer :: "(data_chunk \<Rightarrow> hash_digest) \<Rightarrow> data_chunk \<Rightarrow> bool \<Rightarrow> bool \<Rightarrow> tx_view" where
  "view_transaction_buffer bitcoin_hash buffer coinbase witness =
     fst (view_transaction bitcoin_hash coinbase witness (reader_of buffer))"

subsection \<open>Properties\<close>

abbreviation tv_data :: "tx_view \<Rightarrow> data_chunk" where
  "tv_data v \<equiv> the (tv_ptr v)"

definition tv_is_valid :: "tx_view \<Rightarrow> bool" where
  "tv_is_valid v \<longleftrightarrow> tv_ptr v \<noteq> None"

definition at_inputs :: "tx_view \<Rightarrow> data_chunk" where
  "at_inputs v = drop (tv_in_offset v) (tv_data v)"

definition at_outputs :: "tx_view \<Rightarrow> data_chunk" where
  "at_outputs v = drop (tv_out_offset v) (tv_data v)"

definition at_witnesses :: "tx_view \<Rightarrow> data_chunk" where
  "at_witnesses v = drop (tv_size v - (tv_witnesses_size v + locktime_size)) (tv_data v)"

definition inputs_size :: "tx_view \<Rightarrow> nat" where
  "inputs_size v = tv_size v - tv_in_offset v - (tv_witnesses_size v + locktime_size)"

definition outputs_size :: "tx_view \<Rightarrow> nat" where
  "outputs_size v = tv_size v - tv_out_offset v - (tv_witnesses_size v + locktime_size)"

definition tv_outputs_data :: "tx_view \<Rightarrow> data_chunk" where
  "tv_outputs_data v = take (outputs_size v) (at_outputs v)"

definition tv_witnesses :: "tx_view \<Rightarrow> data_chunk" where
  "tv_witnesses v = take (tv_witnesses_size v) (at_witnesses v)"

definition get_inputs_stream :: "tx_view \<Rightarrow> reader" where
  "get_inputs_stream v = reader_of (take (inputs_size v) (at_inputs v))"

definition get_outputs_stream :: "tx_view \<Rightarrow> reader" where
  "get_outputs_stream v = reader_of (take (outputs_size v) (at_outputs v))"

definition get_witnesses_stream :: "tx_view \<Rightarrow> reader" where
  "get_witnesses_stream v = reader_of (take (tv_witnesses_size v) (at_witnesses v))"

definition tv_is_null_point :: "tx_view \<Rightarrow> bool" where
  "tv_is_null_point v \<longleftrightarrow> take hash_size (at_inputs v) = null_hash \<and>
     word_of_nat (le_value (take 4 (drop hash_size (at_inputs v)))) = null_index"

definition tv_version :: "tx_view \<Rightarrow> u32" where
  "tv_version v = word_of_nat (le_value (take 4 (tv_data v)))"

definition tv_locktime :: "tx_view \<Rightarrow> u32" where
  "tv_locktime v = word_of_nat (le_value (take 4 (drop (tv_size v - locktime_size) (tv_data v))))"

definition tv_serialized_size :: "tx_view \<Rightarrow> bool \<Rightarrow> nat" where
  "tv_serialized_size v witness = (if witness \<and> tv_segregated v then tv_size v else tv_stripped_size v)"

definition tv_to_data :: "tx_view \<Rightarrow> bool \<Rightarrow> data_chunk" where
  "tv_to_data v witness =
     (if witness \<and> tv_segregated v then take (tv_size v) (tv_data v)
      else let sentinels = (if tv_witnesses_size v = 0 then 0 else sentinels_size);
               body = drop (version_size + sentinels) (tv_data v);
               body_size = tv_size v - tv_witnesses_size v - locktime_size - version_size - sentinels
           in take version_size (tv_data v) @ take body_size body @
              take locktime_size (drop (tv_size v - locktime_size) (tv_data v)))"

definition tv_hash :: "tx_view \<Rightarrow> bool \<Rightarrow> hash_digest" where
  "tv_hash v witness = (if witness \<and> tv_segregated v then tv_wtxid v else tv_txid v)"

definition input_table_size :: "tx_view \<Rightarrow> bool \<Rightarrow> nat" where
  "input_table_size v pruned = (if pruned then 2 * tv_in_count v else tv_input_table_size v)"

subsection \<open>Commitments\<close>

definition reserved_pattern_size :: nat where "reserved_pattern_size = 2"
definition commitment_pattern_size :: nat where "commitment_pattern_size = 6"

definition is_commitment_bytes :: "data_chunk \<Rightarrow> nat \<Rightarrow> bool" where
  "is_commitment_bytes script sz \<longleftrightarrow> \<not> commitment_pattern_size + hash_size > sz \<and>
     script ! 0 = opcode_op_return \<and> script ! 1 = 36 \<and>
     take 4 (drop 2 script) = be_bytes 4 witness_head"

definition is_reserved_bytes :: "data_chunk \<Rightarrow> nat \<Rightarrow> bool" where
  "is_reserved_bytes stack sz \<longleftrightarrow> \<not> reserved_pattern_size + hash_size > sz \<and>
     stack ! 0 = 1 \<and> stack ! 1 = word_of_nat hash_size"

fun scan_commitments :: "nat \<Rightarrow> data_chunk \<Rightarrow> reader \<Rightarrow> hash_digest option \<Rightarrow> hash_digest option" where
  "scan_commitments 0 output r found = found"
| "scan_commitments (Suc n) output r found =
     (let (sz, s) = read_size max_size_t (skip_bytes value_size r);
          script = drop (get_read_position s) output
      in scan_commitments n output (skip_bytes sz s)
           (if is_commitment_bytes script sz
            then Some (take hash_size (drop commitment_pattern_size script)) else found))"

definition tv_witness_commitment :: "tx_view \<Rightarrow> hash_digest option" where
  "tv_witness_commitment v = scan_commitments (tv_out_count v) (at_outputs v) (get_outputs_stream v) None"

definition tv_witness_reservation :: "tx_view \<Rightarrow> hash_digest option" where
  "tv_witness_reservation v = (if \<not> is_reserved_bytes (at_witnesses v) (tv_witnesses_size v) then None
     else Some (take hash_size (drop reserved_pattern_size (at_witnesses v))))"

subsection \<open>Populated properties\<close>

fun skip_to_output :: "nat \<Rightarrow> reader \<Rightarrow> reader" where
  "skip_to_output 0 r = r"
| "skip_to_output (Suc n) r = (let (sz, s) = read_size max_size_t (skip_bytes value_size r)
     in skip_to_output n (skip_bytes sz s))"

definition output_at :: "tx_view \<Rightarrow> nat \<Rightarrow> output_view option" where
  "output_at v index = output_view_of (drop (get_read_position (skip_to_output index (get_outputs_stream v))) (at_outputs v))"

fun sum_outputs :: "nat \<Rightarrow> nat \<Rightarrow> reader \<Rightarrow> nat" where
  "sum_outputs 0 acc r = acc"
| "sum_outputs (Suc n) acc r = (let (v, s) = read_little_endian 8 r; (sz, t) = read_size max_size_t s
     in sum_outputs n (ceilinged_add acc v) (skip_bytes sz t))"

definition tv_spend :: "tx_view \<Rightarrow> nat" where
  "tv_spend v = sum_outputs (tv_out_count v) 0 (get_outputs_stream v)"

abbreviation populated_inputs :: "tx_view \<Rightarrow> input_view list" where
  "populated_inputs v \<equiv> (case tv_inputs v of None \<Rightarrow> [] | Some ins \<Rightarrow> ins)"

definition tv_value :: "tx_view \<Rightarrow> nat" where
  "tv_value v = foldl (\<lambda>acc i. ceilinged_add acc (case iv_prevout i of None \<Rightarrow> 0 | Some p \<Rightarrow> ov_value p))
     0 (populated_inputs v)"

definition tv_fee :: "tx_view \<Rightarrow> nat" where
  "tv_fee v = floored_subtract (tv_value v) (tv_spend v)"

text \<open>
  \<open>script::signature_operations\<close> over a reader leaves the reader where the count ended.
\<close>

function sigops_end :: "reader \<Rightarrow> reader" where
  "sigops_end r = (if get_exhausted r then r
     else let (code, r1) = read_byte r; (sz, r2) = read_data_size code r1 in sigops_end (skip_bytes sz r2))"
  by pat_completeness auto
termination
proof (relation "measure (\<lambda>r. length (rbuf r) - rpos r)", simp, clarsimp)
  fix r :: reader and code r1 sz r2
  assume "\<not> get_exhausted r" "(code, r1) = read_byte r" "(sz, r2) = read_data_size code r1"
  then have "count_op r = (True, skip_bytes sz r2)"
    by (simp add: count_op_def) (metis case_prod_conv)
  from count_op_progress [OF this]
  show "length (rbuf (skip_bytes sz r2)) - rpos (skip_bytes sz r2) < length (rbuf r) - rpos r"
    by simp
qed

declare sigops_end.simps [simp del]

fun sum_sigops :: "nat \<Rightarrow> nat \<Rightarrow> nat \<Rightarrow> reader \<Rightarrow> nat" where
  "sum_sigops 0 scale acc r = acc"
| "sum_sigops (Suc n) scale acc r =
     (let (sz, s) = read_size max_size_t (skip_bytes value_size r);
          limited = set_limit sz s;
          sigops = signature_operations_stream limited False;
          t = set_limit max_size_t (sigops_end limited)
      in sum_sigops n scale (ceilinged_add acc (sigops * scale)) t)"

definition tv_signature_operations :: "tx_view \<Rightarrow> bool \<Rightarrow> bool \<Rightarrow> nat" where
  "tv_signature_operations v bip16 bip141 =
     (let factor = (if bip141 then heavy_sigops_factor else 1);
          acc = foldl (\<lambda>acc i. ceilinged_add acc (iv_signature_operations i bip16 bip141)) 0 (populated_inputs v)
      in sum_sigops (tv_out_count v) factor acc (get_outputs_stream v))"

subsection \<open>Validation\<close>

definition tv_is_invalid_coinbase_size :: "tx_view \<Rightarrow> bool" where
  "tv_is_invalid_coinbase_size v = (let script_sz = iv_size (hd (populated_inputs v))
     in script_sz < min_coinbase_size \<or> script_sz > max_coinbase_size)"

definition tv_is_null_non_coinbase :: "tx_view \<Rightarrow> bool" where
  "tv_is_null_non_coinbase v \<longleftrightarrow> list_ex iv_is_null_point (populated_inputs v)"

definition tv_is_absolute_locked :: "tx_view \<Rightarrow> nat \<Rightarrow> u32 \<Rightarrow> u32 \<Rightarrow> bool \<Rightarrow> bool" where
  "tv_is_absolute_locked v height timestamp mtp bip113 =
     (let time = (if bip113 then mtp else timestamp); lock = unat (tv_locktime v);
          height_time = (if lock < locktime_threshold then height else unat time)
      in \<not> (lock = 0 \<or> lock < height_time \<or> list_all iv_is_final (populated_inputs v)))"

definition tv_is_missing_prevouts :: "tx_view \<Rightarrow> bool" where
  "tv_is_missing_prevouts v \<longleftrightarrow> list_ex (\<lambda>i. iv_prevout i = None) (populated_inputs v)"

definition tv_is_overspent :: "tx_view \<Rightarrow> bool" where
  "tv_is_overspent v \<longleftrightarrow> tv_spend v > tv_value v"

definition tv_check :: "tx_view \<Rightarrow> code" where
  "tv_check v = first_error tx_success
     [(tv_in_count v = 0 \<or> tv_out_count v = 0, tx_code error_empty_transaction),
      (tv_coinbase v \<and> tv_is_invalid_coinbase_size v, tx_code error_invalid_coinbase_script_size),
      (\<not> tv_coinbase v \<and> tv_is_null_non_coinbase v, tx_code error_previous_output_null)]"

definition tv_check_context :: "tx_view \<Rightarrow> chain_context \<Rightarrow> code" where
  "tv_check_context v ctx = (let bip113 = ctx_enabled ctx bip113_rule in
     first_error tx_success
       [(tv_is_absolute_locked v (ctx_height ctx) (ctx_timestamp ctx) (ctx_median_time_past ctx) bip113,
         tx_code error_absolute_time_locked)])"

definition tv_accept :: "tx_view \<Rightarrow> code" where
  "tv_accept v = first_error tx_success
     [(tv_coinbase v, tx_success),
      (tv_is_missing_prevouts v, tx_code error_missing_previous_output),
      (tv_is_overspent v, tx_code error_spend_exceeds_value)]"

end
