(* ===== verification/ViewBlock.thy ===== *)
theory ViewBlock
  imports Views
begin

text \<open>
  The view of a block (\<open>src/chain/view/block.cpp\<close>): its construction from the wire, its hashes and
  commitments, the population of input views and previous outputs, and the validation functions.
\<close>

section \<open>Blocks\<close>

record block_view =
  bv_witness :: bool
  bv_buffer :: data_chunk
  bv_txs :: "tx_view list"
  bv_inputs :: "input_view list option"
  bv_prevouts :: "output_view list"

fun view_transactions :: "(data_chunk \<Rightarrow> hash_digest) \<Rightarrow> bool \<Rightarrow> bool \<Rightarrow> nat \<Rightarrow> reader \<Rightarrow> tx_view list \<times> reader" where
  "view_transactions bitcoin_hash coinbase witness 0 r = ([], r)"
| "view_transactions bitcoin_hash coinbase witness (Suc n) r =
     (let (v, s) = view_transaction bitcoin_hash coinbase witness r;
          (vs, t) = view_transactions bitcoin_hash False witness n s in (v # vs, t))"

definition view_block :: "(data_chunk \<Rightarrow> hash_digest) \<Rightarrow> data_chunk \<Rightarrow> bool \<Rightarrow> block_view" where
  "view_block bitcoin_hash buffer witness =
     (let (count, r) = read_size max_count (skip_bytes header_serialized_size (reader_of buffer));
          txs = (if count = 0 then []
            else (case view_transactions bitcoin_hash True witness count r of
              (txs, s) \<Rightarrow> if rgood s then txs else []))
      in \<lparr>bv_witness = witness, bv_buffer = buffer, bv_txs = txs, bv_inputs = None, bv_prevouts = []\<rparr>)"

definition bv_is_valid :: "block_view \<Rightarrow> bool" where
  "bv_is_valid v \<longleftrightarrow> bv_txs v \<noteq> []"

definition bv_to_data :: "block_view \<Rightarrow> bool \<Rightarrow> data_chunk" where
  "bv_to_data v witness = (if witness then bv_buffer v
     else take header_serialized_size (bv_buffer v) @ write_variable (length (bv_txs v)) @
       concat (map (\<lambda>t. tv_to_data t False) (bv_txs v)))"

definition bv_is_segregated :: "block_view \<Rightarrow> bool" where
  "bv_is_segregated v \<longleftrightarrow> bv_witness v \<and> list_ex tv_segregated (bv_txs v)"

definition bv_hash :: "(data_chunk \<Rightarrow> hash_digest) \<Rightarrow> block_view \<Rightarrow> hash_digest" where
  "bv_hash bitcoin_hash v = bitcoin_hash (take header_serialized_size (bv_buffer v))"

definition bv_spends :: "block_view \<Rightarrow> nat" where
  "bv_spends v = foldl (\<lambda>acc t. ceilinged_add acc (tv_in_count t)) 0 (tl (bv_txs v))"

definition bv_serialized_size :: "block_view \<Rightarrow> bool \<Rightarrow> nat" where
  "bv_serialized_size v witness = (if witness then length (bv_buffer v)
     else foldl (\<lambda>acc t. acc + tv_serialized_size t False)
       (header_serialized_size + variable_size (length (bv_txs v))) (bv_txs v))"

section \<open>Commitments and malleation\<close>

definition header_merkle_root :: "block_view \<Rightarrow> hash_digest" where
  "header_merkle_root v = take hash_size (drop (4 + hash_size) (bv_buffer v))"

definition bv_transaction_hashes :: "block_view \<Rightarrow> bool \<Rightarrow> hash_digest list" where
  "bv_transaction_hashes v witness = map (\<lambda>t. tv_hash t witness) (bv_txs v)"

definition bv_generate_merkle_root :: "(data_chunk \<Rightarrow> hash_digest) \<Rightarrow> block_view \<Rightarrow> bool \<Rightarrow> hash_digest" where
  "bv_generate_merkle_root bitcoin_hash v witness =
     merkle_root (double_hash bitcoin_hash) null_hash (bv_transaction_hashes v witness)"

definition bv_is_invalid_merkle_root :: "(data_chunk \<Rightarrow> hash_digest) \<Rightarrow> block_view \<Rightarrow> bool" where
  "bv_is_invalid_merkle_root bitcoin_hash v \<longleftrightarrow> bv_generate_merkle_root bitcoin_hash v False \<noteq> header_merkle_root v"

definition bv_is_malleable64 :: "tx_view list \<Rightarrow> bool" where
  "bv_is_malleable64 txs \<longleftrightarrow> txs \<noteq> [] \<and> list_all (\<lambda>t. tv_serialized_size t False = 2 * hash_size) txs"

definition bv_is_malleated64 :: "block_view \<Rightarrow> bool" where
  "bv_is_malleated64 v \<longleftrightarrow> bv_txs v \<noteq> [] \<and> \<not> tv_is_null_point (hd (bv_txs v)) \<and> bv_is_malleable64 (bv_txs v)"

definition bv_is_malleated32_width :: "block_view \<Rightarrow> nat \<Rightarrow> bool" where
  "bv_is_malleated32_width v width =
     (let malleated = length (bv_txs v); count = ceilinged_divide malleated width in
      if odd count \<or> count \<le> 2 then False
      else let last = (count - 1) * width; prior = last - width; leaves = malleated - last
        in list_all (\<lambda>at. tv_hash (bv_txs v ! (last + merkle_index at leaves width)) False =
             tv_hash (bv_txs v ! (prior + at)) False) [0..<width])"

definition bv_malleated32_size :: "block_view \<Rightarrow> nat" where
  "bv_malleated32_size v = (case find_width (bv_is_malleated32_width v) (length (bv_txs v) div 2) 1 of
     Some width \<Rightarrow> width | None \<Rightarrow> 0)"

definition bv_is_malleated :: "block_view \<Rightarrow> bool" where
  "bv_is_malleated v \<longleftrightarrow> bv_is_malleated64 v \<or> bv_malleated32_size v \<noteq> 0"

definition bv_malleated_or :: "block_view \<Rightarrow> code \<Rightarrow> code" where
  "bv_malleated_or v ec = (if bv_is_malleated v then block_code error_invalid_transaction_commitment else ec)"

definition bv_is_invalid_witness_commitment :: "(data_chunk \<Rightarrow> hash_digest) \<Rightarrow> block_view \<Rightarrow> bool" where
  "bv_is_invalid_witness_commitment bitcoin_hash v =
     (if bv_txs v = [] then False
      else case tv_witness_commitment (hd (bv_txs v)) of
        None \<Rightarrow> bv_is_segregated v
      | Some commit \<Rightarrow> (case tv_witness_reservation (hd (bv_txs v)) of
          None \<Rightarrow> True
        | Some reserve \<Rightarrow> commit \<noteq> double_hash bitcoin_hash (bv_generate_merkle_root bitcoin_hash v True) reserve))"

definition bv_identify :: "(data_chunk \<Rightarrow> hash_digest) \<Rightarrow> block_view \<Rightarrow> code" where
  "bv_identify bitcoin_hash v = (if bv_txs v = [] then block_code error_empty_block
     else if bv_is_malleated v \<or> bv_is_invalid_merkle_root bitcoin_hash v
     then block_code error_invalid_transaction_commitment else block_success)"

definition bv_identify_context :: "(data_chunk \<Rightarrow> hash_digest) \<Rightarrow> block_view \<Rightarrow> chain_context \<Rightarrow> code" where
  "bv_identify_context bitcoin_hash v ctx =
     (let invalid = (if ctx_enabled ctx bip141_rule then bv_is_invalid_witness_commitment bitcoin_hash v
        else bv_is_segregated v)
      in if invalid then block_code error_invalid_witness_commitment else block_success)"

section \<open>Population\<close>

text \<open>
  \<open>populate_inputs\<close> walks the streams of inputs and witnesses of each transaction. Nothing is
  returned where a view reads behind the buffer.
\<close>

fun sum_elements :: "nat \<Rightarrow> nat \<Rightarrow> reader \<Rightarrow> nat \<times> reader" where
  "sum_elements 0 acc r = (acc, r)"
| "sum_elements (Suc n) acc r = (let (sz, s) = read_size max_size_t r
     in sum_elements n (acc + (variable_size sz + sz)) (skip_bytes sz s))"

definition read_witness_size :: "reader \<Rightarrow> nat \<times> reader" where
  "read_witness_size r = (let (stack, s) = read_size max_size_t r in sum_elements stack (variable_size stack) s)"

fun input_views :: "nat \<Rightarrow> data_chunk \<Rightarrow> data_chunk \<Rightarrow> bool \<Rightarrow> reader \<Rightarrow> reader \<Rightarrow> input_view list option" where
  "input_views 0 inputs witnesses segregated r w = Some []"
| "input_views (Suc n) inputs witnesses segregated r w =
     (let position = drop (get_read_position r) inputs;
          (sz, s) = read_size max_size_t (skip_bytes point_serialized_size r);
          (witness, witness_size, x) = (if segregated
            then (case read_witness_size w of (acc, x) \<Rightarrow> (Some (drop (get_read_position w) witnesses), acc, x))
            else (None, 0, w))
      in case input_view_of position witness witness_size of None \<Rightarrow> None
         | Some v \<Rightarrow> map_option (Cons v)
             (input_views n inputs witnesses segregated (skip_bytes (sz + sequence_size) s) x))"

definition set_inputs :: "tx_view \<Rightarrow> tx_view option" where
  "set_inputs v = map_option (\<lambda>ins. v\<lparr>tv_inputs := Some ins\<rparr>)
     (input_views (tv_in_count v) (at_inputs v) (at_witnesses v) (tv_segregated v)
       (get_inputs_stream v) (get_witnesses_stream v))"

fun set_all_inputs :: "tx_view list \<Rightarrow> tx_view list option" where
  "set_all_inputs [] = Some []"
| "set_all_inputs (v # vs) = (case set_inputs v of None \<Rightarrow> None
     | Some v' \<Rightarrow> map_option (Cons v') (set_all_inputs vs))"

definition bv_populate_inputs :: "block_view \<Rightarrow> block_view option" where
  "bv_populate_inputs v = map_option (\<lambda>txs. v\<lparr>bv_txs := txs,
     bv_inputs := Some (concat (map populated_inputs txs))\<rparr>) (set_all_inputs (bv_txs v))"

text \<open>The position is an offset into the buffer of previous outputs.\<close>

fun link_prevouts :: "data_chunk \<Rightarrow> nat \<Rightarrow> input_view list \<Rightarrow> (bool \<times> nat \<times> input_view list) option" where
  "link_prevouts buffer position [] = Some (True, position, [])"
| "link_prevouts buffer position (i # ins) =
     (if position \<ge> length buffer then Some (False, position, i # ins)
      else case output_view_of (drop position buffer) of None \<Rightarrow> None
        | Some p \<Rightarrow> (case link_prevouts buffer (position + ov_serialized_size p) ins of None \<Rightarrow> None
            | Some (ok, end, ins') \<Rightarrow> Some (ok, end, i\<lparr>iv_prevout := Some p\<rparr> # ins')))"

fun link_transactions :: "data_chunk \<Rightarrow> nat \<Rightarrow> (tx_view \<times> bool) list \<Rightarrow> (bool \<times> nat \<times> tx_view list) option" where
  "link_transactions buffer position [] = Some (True, position, [])"
| "link_transactions buffer position ((t, selected) # txs) =
     (if \<not> selected then (case link_transactions buffer position txs of None \<Rightarrow> None
          | Some (ok, end, txs') \<Rightarrow> Some (ok, end, t # txs'))
      else case link_prevouts buffer position (populated_inputs t) of None \<Rightarrow> None
        | Some (ok, end, ins) \<Rightarrow>
            (if \<not> ok then Some (False, end, t\<lparr>tv_inputs := Some ins\<rparr> # map fst txs)
             else case link_transactions buffer end txs of None \<Rightarrow> None
               | Some (ok', end', txs') \<Rightarrow> Some (ok', end', t\<lparr>tv_inputs := Some ins\<rparr> # txs')))"

definition linked_prevouts :: "tx_view list \<Rightarrow> output_view list" where
  "linked_prevouts txs = concat (map (\<lambda>t. List.map_filter iv_prevout (populated_inputs t)) txs)"

definition populate_prevouts :: "block_view \<Rightarrow> data_chunk \<Rightarrow> bool list \<Rightarrow> (bool \<times> block_view) option" where
  "populate_prevouts v prevouts selected =
     map_option (\<lambda>(ok, end, txs). (ok \<and> end = length prevouts,
         v\<lparr>bv_txs := hd (bv_txs v) # txs, bv_prevouts := linked_prevouts txs\<rparr>))
       (link_transactions prevouts 0 (zip (tl (bv_txs v)) (tl selected)))"

text \<open>The hashes of the block are collected at the first input with a relative lock.\<close>

fun internal_inputs :: "hash_digest \<Rightarrow> bool \<Rightarrow> hash_digest list \<Rightarrow> input_view list \<Rightarrow> code" where
  "internal_inputs self relative hashes [] = block_success"
| "internal_inputs self relative hashes (i # ins) =
     (if iv_point_hash i = self then tx_code error_coinbase_maturity
      else if \<not> relative \<or> \<not> is_relative_locktime_applied (iv_sequence i) then internal_inputs self relative hashes ins
      else if iv_point_hash i \<in> set hashes \<and> is_relative_locked_at (iv_sequence i) 0 0 0 0
      then tx_code error_relative_time_locked
      else internal_inputs self relative hashes ins)"

fun internal_transactions :: "hash_digest \<Rightarrow> bool \<Rightarrow> hash_digest list \<Rightarrow> tx_view list \<Rightarrow> code" where
  "internal_transactions self bip68 hashes [] = block_success"
| "internal_transactions self bip68 hashes (t # txs) =
     (let relative = (bip68 \<and> unat (tv_version t) \<ge> relative_locktime_min_version);
          ec = internal_inputs self relative hashes (populated_inputs t)
      in if failed ec then ec else internal_transactions self bip68 hashes txs)"

definition populate_internal :: "block_view \<Rightarrow> chain_context \<Rightarrow> code" where
  "populate_internal v ctx = internal_transactions (tv_hash (hd (bv_txs v)) False) (ctx_enabled ctx bip68_rule)
     (map (\<lambda>t. tv_hash t False) (bv_txs v)) (tl (bv_txs v))"

definition bv_populate :: "block_view \<Rightarrow> chain_context \<Rightarrow> data_chunk \<Rightarrow> (code \<times> block_view) option" where
  "bv_populate v ctx prevouts =
     (if bv_txs v = [] then Some (block_code error_empty_block, v)
      else case bv_populate_inputs v of None \<Rightarrow> None
        | Some v \<Rightarrow> map_option (\<lambda>(ok, v). (if \<not> ok then tx_code error_missing_previous_output
              else populate_internal v ctx, v))
            (populate_prevouts v prevouts (replicate (length (bv_txs v)) True)))"

definition bv_populate_selected :: "block_view \<Rightarrow> data_chunk \<Rightarrow> bool list \<Rightarrow> (bool \<times> block_view) option" where
  "bv_populate_selected v prevouts selected =
     (if bv_txs v = [] \<or> length selected \<noteq> length (bv_txs v) then Some (False, v)
      else case bv_populate_inputs v of None \<Rightarrow> None
        | Some v \<Rightarrow> populate_prevouts v prevouts selected)"

section \<open>Validation\<close>

definition bv_is_coinbase :: "tx_view \<Rightarrow> bool" where
  "bv_is_coinbase t \<longleftrightarrow> tv_in_count t = 1 \<and> tv_is_null_point t"

definition bv_is_oversized :: "block_view \<Rightarrow> bool" where
  "bv_is_oversized v \<longleftrightarrow> bv_serialized_size v False > max_block_size"

definition bv_is_first_non_coinbase :: "block_view \<Rightarrow> bool" where
  "bv_is_first_non_coinbase v \<longleftrightarrow> bv_txs v \<noteq> [] \<and> \<not> bv_is_coinbase (hd (bv_txs v))"

definition bv_is_extra_coinbases :: "block_view \<Rightarrow> bool" where
  "bv_is_extra_coinbases v \<longleftrightarrow> bv_txs v \<noteq> [] \<and> list_ex bv_is_coinbase (tl (bv_txs v))"

fun bv_scan_references :: "hash_digest list \<Rightarrow> tx_view list \<Rightarrow> bool" where
  "bv_scan_references hashes [] = False"
| "bv_scan_references hashes (t # txs) =
     (if list_ex (\<lambda>i. iv_point_hash i \<in> set hashes) (populated_inputs t) then True
      else bv_scan_references (tv_hash t False # hashes) txs)"

definition bv_is_forward_reference :: "block_view \<Rightarrow> bool" where
  "bv_is_forward_reference v \<longleftrightarrow> bv_txs v \<noteq> [] \<and> bv_scan_references [] (rev (tl (bv_txs v)))"

fun bv_scan_points :: "(hash_digest \<times> u32) list \<Rightarrow> input_view list \<Rightarrow> (hash_digest \<times> u32) list option" where
  "bv_scan_points seen [] = Some seen"
| "bv_scan_points seen (i # ins) =
     (if (iv_point_hash i, iv_point_index i) \<in> set seen then None
      else bv_scan_points ((iv_point_hash i, iv_point_index i) # seen) ins)"

fun bv_scan_spends :: "(hash_digest \<times> u32) list \<Rightarrow> tx_view list \<Rightarrow> bool" where
  "bv_scan_spends seen [] = False"
| "bv_scan_spends seen (t # txs) =
     (case bv_scan_points seen (populated_inputs t) of None \<Rightarrow> True | Some seen' \<Rightarrow> bv_scan_spends seen' txs)"

definition bv_is_internal_double_spend :: "block_view \<Rightarrow> bool" where
  "bv_is_internal_double_spend v \<longleftrightarrow> bv_txs v \<noteq> [] \<and> bv_scan_spends [] (tl (bv_txs v))"

definition bv_weight :: "block_view \<Rightarrow> nat" where
  "bv_weight v = ceilinged_add (ceilinged_multiply base_size_contribution (bv_serialized_size v False))
     (ceilinged_multiply total_size_contribution (bv_serialized_size v True))"

definition bv_is_overweight :: "block_view \<Rightarrow> bool" where
  "bv_is_overweight v \<longleftrightarrow> bv_weight v > max_block_weight"

definition bv_is_invalid_coinbase_script :: "block_view \<Rightarrow> nat \<Rightarrow> bool" where
  "bv_is_invalid_coinbase_script v height =
     (if bv_txs v = [] \<or> tv_in_count (hd (bv_txs v)) = 0 then False
      else \<not> is_coinbase_pattern (script_ops (iv_script (hd (populated_inputs (hd (bv_txs v)))))) height)"

definition bv_is_hash_limit_exceeded :: "block_view \<Rightarrow> bool" where
  "bv_is_hash_limit_exceeded v =
     (if bv_txs v = [] then False
      else let hashes = tv_hash (hd (bv_txs v)) False # concat (map (\<lambda>t. tv_hash t False #
             map iv_point_hash (populated_inputs t)) (tl (bv_txs v)))
        in card (set hashes) > hash_limit)"

definition bv_fees :: "block_view \<Rightarrow> nat" where
  "bv_fees v = foldl (\<lambda>acc t. ceilinged_add acc (tv_fee t)) 0 (bv_txs v)"

definition bv_claim :: "block_view \<Rightarrow> nat" where
  "bv_claim v = (if bv_txs v = [] then 0 else tv_spend (hd (bv_txs v)))"

definition bv_reward :: "block_view \<Rightarrow> nat \<Rightarrow> nat \<Rightarrow> u64 \<Rightarrow> bool \<Rightarrow> nat" where
  "bv_reward v height subsidy_interval initial bip42 =
     ceilinged_add (bv_fees v) (unat (subsidy height subsidy_interval initial bip42))"

definition bv_is_overspent :: "block_view \<Rightarrow> nat \<Rightarrow> nat \<Rightarrow> u64 \<Rightarrow> bool \<Rightarrow> bool" where
  "bv_is_overspent v height subsidy_interval initial bip42 \<longleftrightarrow>
     bv_claim v > bv_reward v height subsidy_interval initial bip42"

definition bv_signature_operations :: "block_view \<Rightarrow> bool \<Rightarrow> bool \<Rightarrow> nat" where
  "bv_signature_operations v bip16 bip141 =
     foldl (\<lambda>acc t. ceilinged_add acc (tv_signature_operations t bip16 bip141)) 0 (bv_txs v)"

definition bv_is_signature_operations_limited :: "block_view \<Rightarrow> bool \<Rightarrow> bool \<Rightarrow> bool" where
  "bv_is_signature_operations_limited v bip16 bip141 \<longleftrightarrow>
     bv_signature_operations v bip16 bip141 > (if bip141 then max_fast_sigops else max_block_sigops)"

fun first_view_failure :: "(tx_view \<Rightarrow> code) \<Rightarrow> tx_view list \<Rightarrow> code" where
  "first_view_failure f [] = block_success"
| "first_view_failure f (t # txs) = (if failed (f t) then f t else first_view_failure f txs)"

definition bv_check :: "block_view \<Rightarrow> code" where
  "bv_check v = first_error (first_view_failure tv_check (bv_txs v))
     [(bv_txs v = [], block_code error_empty_block),
      (bv_is_oversized v, block_code error_block_size_limit),
      (bv_is_first_non_coinbase v, bv_malleated_or v (block_code error_first_not_coinbase)),
      (bv_is_extra_coinbases v, block_code error_extra_coinbases),
      (bv_is_forward_reference v, block_code error_forward_reference),
      (bv_is_internal_double_spend v, bv_malleated_or v (block_code error_block_internal_double_spend))]"

definition bv_check_context :: "block_view \<Rightarrow> chain_context \<Rightarrow> code" where
  "bv_check_context v ctx =
     (let bip141 = ctx_enabled ctx bip141_rule; bip34 = ctx_enabled ctx bip34_rule;
          bip50 = ctx_enabled ctx bip50_rule in
      first_error (first_view_failure (\<lambda>t. tv_check_context t ctx) (bv_txs v))
       [(bip141 \<and> bv_is_overweight v, block_code error_block_weight_limit),
        (bip34 \<and> bv_is_invalid_coinbase_script v (ctx_height ctx), block_code error_coinbase_height_mismatch),
        (bip50 \<and> bv_is_hash_limit_exceeded v, block_code error_temporary_hash_limit)])"

definition bv_accept :: "block_view \<Rightarrow> chain_context \<Rightarrow> nat \<Rightarrow> u64 \<Rightarrow> code" where
  "bv_accept v ctx subsidy_interval initial_subsidy =
     (let bip16 = ctx_enabled ctx bip16_rule; bip42 = ctx_enabled ctx bip42_rule;
          bip141 = ctx_enabled ctx bip141_rule in
      first_error (first_view_failure tv_accept (tl (bv_txs v)))
       [(bv_is_overspent v (ctx_height ctx) subsidy_interval initial_subsidy bip42,
           block_code error_coinbase_value_limit),
        (bv_is_signature_operations_limited v bip16 bip141, block_code error_block_sigop_limit)])"

end
