(* ===== verification/ViewExact.thy ===== *)
theory ViewExact
  imports ViewBlock
begin

text \<open>
  The view of a transaction against the transaction: the bytes that the constructor of the view
  accepts are those that the transaction reader accepts, and offsets, sizes and hashes are those
  of the transaction. The contract between the skips of the view and the codecs of the objects is
  the locale \<open>skipping\<close>.
\<close>

section \<open>Skips\<close>

lemma skip_bytes_good:
  assumes "ready r" "rgood (skip_bytes n r)"
  shows "consumed r (take n (drop (rpos r) (rbuf r))) (skip_bytes n r)" "length (take n (drop (rpos r) (rbuf r))) = n"
proof -
  have n: "n \<le> length (rbuf r) - rpos r"
    using assms by (auto simp: skip_bytes_def limiter_def seek_forward_def invalidate_def ready_def split: if_splits)
  then show "length (take n (drop (rpos r) (rbuf r))) = n" by simp
  have "rbuf (skip_bytes n r) = rbuf r" "rpos (skip_bytes n r) = rpos r + n"
    using assms n by (auto simp: skip_bytes_def limiter_def seek_forward_def invalidate_def ready_def split: if_splits)
  moreover have "rpos r + n \<le> length (rbuf r)" using n assms(1) unfolding ready_def by linarith
  ultimately show "consumed r (take n (drop (rpos r) (rbuf r))) (skip_bytes n r)"
    using n by (simp add: consumed_def)
qed

lemma skip_bytes_moved:
  assumes "feeds r bs" "length bs = n"
  shows "moved r n (skip_bytes n r)"
  using skip_bytes_feeds [OF assms] moved_advance [OF assms(1)] assms(2) by simp

lemma skip_bytes_then:
  assumes "feeds r (a @ b)" "length a = n"
  shows "moved r n (skip_bytes n r)" "feeds (skip_bytes n r) b"
  using skip_bytes_moved [OF feeds_appendD [OF assms(1)] assms(2)] feeds_moved [OF assms(1)] assms(2) by auto

lemma read_size_then:
  assumes "feeds r (write_variable v @ b)" "v \<le> limit" "v \<le> max_uint64"
  obtains s where "read_size limit r = (v, s)" "moved r (variable_size v) s" "feeds s b"
  using read_size_moved [OF feeds_appendD [OF assms(1)] assms(2,3)] feeds_moved [OF assms(1)]
  by (auto simp: size_simps)

locale skipping = canonical_codec +
  fixes skip :: "reader \<Rightarrow> 'b \<times> reader"
    and seen :: "'a \<Rightarrow> 'b"
    and small :: "'a \<Rightarrow> bool"
  assumes skips: "ok x \<Longrightarrow> small x \<Longrightarrow> feeds r (enc x) \<Longrightarrow> \<exists>s. skip r = (seen x, s) \<and> moved r (length (enc x)) s"
    and skip_sticky: "rgood (snd (skip r)) \<Longrightarrow> rgood r"
    and skipped: "ready r \<Longrightarrow> skip r = (y, s) \<Longrightarrow> rgood s \<Longrightarrow>
      \<exists>x. ok x \<and> small x \<and> y = seen x \<and> consumed r (enc x) s"
begin

lemma skip_all:
  "list_all (\<lambda>x. ok x \<and> small x) xs \<Longrightarrow> feeds r (concat (map enc xs)) \<Longrightarrow>
   \<exists>s. read_each skip (length xs) r = (map seen xs, s) \<and> moved r (length (concat (map enc xs))) s"
proof (induction xs arbitrary: r)
  case Nil
  then show ?case by (auto simp: moved_refl feeds_def)
next
  case (Cons x xs)
  have f: "feeds r (enc x @ concat (map enc xs))" using Cons.prems(2) by simp
  obtain s where s: "skip r = (seen x, s)" "moved r (length (enc x)) s"
    using skips [of x r] Cons.prems(1) feeds_appendD [OF f] by auto
  obtain t where "read_each skip (length xs) s = (map seen xs, t)" "moved s (length (concat (map enc xs))) t"
    using Cons.IH [OF _ feeds_moved [OF f s(2)]] Cons.prems(1) by auto
  with s moved_trans [OF s(2)] show ?case by (intro exI [of _ t]) simp
qed

lemma skip_all_sticky: "rgood (snd (read_each skip n r)) \<Longrightarrow> rgood r"
  by (induction n arbitrary: r) (auto simp: case_prod_beta dest: skip_sticky)

lemma skipped_all:
  "ready r \<Longrightarrow> read_each skip n r = (ys, s) \<Longrightarrow> rgood s \<Longrightarrow>
   \<exists>xs. length xs = n \<and> list_all (\<lambda>x. ok x \<and> small x) xs \<and> ys = map seen xs \<and> consumed r (concat (map enc xs)) s"
proof (induction n arbitrary: r ys)
  case 0
  then show ?case by (auto simp: consumed_refl)
next
  case (Suc n)
  obtain y t where y: "skip r = (y, t)" by fastforce
  obtain zs where zs: "read_each skip n t = (zs, s)" "ys = y # zs" using Suc.prems(2) y by (auto split: prod.splits)
  have t: "rgood t" using skip_all_sticky [of n t] zs(1) Suc.prems(3) by simp
  obtain x where x: "ok x" "small x" "consumed r (enc x) t" "y = seen x" using skipped [OF Suc.prems(1) y t] by blast
  obtain xs where "length xs = n" "list_all (\<lambda>x. ok x \<and> small x) xs" "zs = map seen xs" "consumed t (concat (map enc xs)) s"
    using Suc.IH [OF consumed_ready [OF x(3) t] zs(1) Suc.prems(3)] by blast
  with x zs(2) consumed_trans [OF x(3)] show ?case by (intro exI [of _ "x # xs"]) simp
qed

end

section \<open>Scripts of bytes\<close>

definition view_small_script :: "script \<Rightarrow> bool" where
  "view_small_script s \<longleftrightarrow> length (script_to_data s False) \<le> max_bytes"

lemma max_bytes_room: "n \<le> max_bytes \<Longrightarrow> n + 2 ^ 33 \<le> max_size_t"
  by (simp add: max_bytes_def max_block_weight_def max_block_size_def limits)

lemma script_of_bytes_wf:
  assumes "length bs \<le> max_bytes"
  shows "script_wf (script_of_bytes bs)" "script_to_data (script_of_bytes bs) False = bs"
    "script_to_data (script_of_bytes bs) True = write_variable (length bs) @ bs" "view_small_script (script_of_bytes bs)"
proof -
  note b = script_of_bytes_parse [OF max_bytes_room [OF assms]]
  show d: "script_to_data (script_of_bytes bs) False = bs" using parse_ops_to_data [of bs] by (simp add: b)
  have "ops_serialized_size (parse_ops bs) = length bs"
    using ops_serialized_size_length [of "parse_ops bs"] parse_ops_to_data [of bs] max_bytes_room [OF assms] by simp
  then show "script_wf (script_of_bytes bs)"
    using ops_wf_parse by (simp add: b script_wf_def from_operations_def make_script_def)
  show "script_to_data (script_of_bytes bs) True = write_variable (length bs) @ bs"
    using d by (simp add: script_to_data_prefix) (simp add: b)
  show "view_small_script (script_of_bytes bs)" using d assms by (simp add: view_small_script_def)
qed

lemma script_of_bytes_id:
  assumes "script_wf s" "view_small_script s"
  shows "script_of_bytes (script_to_data s False) = s" "script_serialized_size s False = length (script_to_data s False)"
    "script_to_data s True = write_variable (length (script_to_data s False)) @ script_to_data s False"
proof -
  have l: "length (script_to_data s False) \<le> max_bytes" using assms(2) by (simp add: view_small_script_def)
  then show n: "script_serialized_size s False = length (script_to_data s False)"
    using script_wf_size [OF assms(1)] max_bytes_room by fastforce
  show "script_to_data s True = write_variable (length (script_to_data s False)) @ script_to_data s False"
    using n by (simp add: script_to_data_prefix)
  obtain ops where ops: "s = make_script ops True (ops_serialized_size ops)" "ops_wf ops"
    using assms(1) by (rule script_wfE)
  have "parse_ops (script_to_data s False) = ops" using ops parse_ops_concat by simp
  then show "script_of_bytes (script_to_data s False) = s"
    using script_of_bytes_parse [OF max_bytes_room [OF l]] ops(1) n by simp
qed

section \<open>Inputs, outputs and witnesses\<close>

definition skip_input :: "reader \<Rightarrow> nat \<times> reader" where
  "skip_input r = (let (sz, s) = read_size max_bytes (skip_bytes point_serialized_size r)
     in (variable_size sz + sz, skip_bytes (sz + sequence_size) s))"

definition skip_output :: "reader \<Rightarrow> nat \<times> reader" where
  "skip_output r = (let (v, s) = read_little_endian 8 r; (sz, s) = read_size max_bytes s
     in (variable_size v + variable_size sz + sz, skip_bytes sz s))"

lemma skip_inputs_each: "skip_inputs n r = (case read_each skip_input n r of (xs, s) \<Rightarrow> (sum_list xs, s))"
  by (induction n arbitrary: r) (simp_all add: skip_input_def case_prod_beta Let_def)

lemma skip_outputs_each: "skip_outputs n r = (case read_each skip_output n r of (xs, s) \<Rightarrow> (sum_list xs, s))"
  by (induction n arbitrary: r) (simp_all add: skip_output_def case_prod_beta Let_def)

lemma skip_witnesses_each: "skip_witnesses n r = (case read_each (\<lambda>r. witness_skip r True) n r of (xs, s) \<Rightarrow> (list_all Not xs, s))"
  by (induction n arbitrary: r) (auto simp: case_prod_beta Let_def)

lemma script_body_length: "script_wf s \<Longrightarrow> view_small_script s \<Longrightarrow>
  length (script_to_data s True) = variable_size (length (script_to_data s False)) + length (script_to_data s False)"
  by (simp add: script_of_bytes_id(3) size_simps)

lemma max_bytes_uint64: "n \<le> max_bytes \<Longrightarrow> n \<le> max_uint64"
  using max_bytes_less by simp

lemma input_steps:
  assumes "input_ok i" "view_small_script (in_script i)" "feeds r (input_to_data i)" "max_bytes \<le> limit"
  shows "\<exists>s. read_size limit (skip_bytes point_serialized_size r) = (length (script_to_data (in_script i) False), s) \<and>
    moved r (length (input_to_data i)) (skip_bytes (length (script_to_data (in_script i) False) + sequence_size) s)"
proof -
  let ?b = "script_to_data (in_script i) False" and ?q = "write_little_endian 4 (unat (in_sequence i))"
  have wf: "script_wf (in_script i)" and p: "length (point_to_data (in_point i)) = point_serialized_size"
    using assms(1) by (simp_all add: input_ok_def point_ok_def point_to_data_def point_serialized_size_def write_little_endian_def)
  have l: "length ?b \<le> max_bytes" "length ?b \<le> limit" using assms(2,4) by (simp_all add: view_small_script_def)
  have "feeds r (point_to_data (in_point i) @ write_variable (length ?b) @ ?b @ ?q)"
    using assms(3) script_of_bytes_id(3) [OF wf assms(2)] by (simp add: input_to_data_def)
  note a = skip_bytes_then [OF this p]
  obtain s where s: "read_size limit (skip_bytes point_serialized_size r) = (length ?b, s)"
      "moved (skip_bytes point_serialized_size r) (variable_size (length ?b)) s" "feeds s (?b @ ?q)"
    using read_size_then [OF a(2) l(2) max_bytes_uint64 [OF l(1)]] .
  have m: "moved s (length ?b + sequence_size) (skip_bytes (length ?b + sequence_size) s)"
    using skip_bytes_moved [OF s(3)] by (simp add: write_little_endian_def sequence_size_def)
  have "moved r (length (input_to_data i)) (skip_bytes (length ?b + sequence_size) s)"
    using moved_trans [OF a(1) moved_trans [OF s(2) m]] p
    by (simp add: input_to_data_def script_body_length [OF wf assms(2)] sequence_size_def write_little_endian_def add.assoc)
  then show ?thesis using s(1) by blast
qed

lemma skip_input_forward:
  assumes "input_ok i" "view_small_script (in_script i)" "feeds r (input_to_data i)"
  shows "\<exists>s. skip_input r = (length (script_to_data (in_script i) True), s) \<and> moved r (length (input_to_data i)) s"
proof -
  have "script_wf (in_script i)" using assms(1) by (simp add: input_ok_def)
  then show ?thesis
    using input_steps [OF assms order.refl] script_body_length [OF _ assms(2)] by (auto simp: skip_input_def)
qed

lemma skip_input_sticky: "rgood (snd (skip_input r)) \<Longrightarrow> rgood r"
  by (auto simp: skip_input_def case_prod_beta dest!: skip_bytes_sticky read_size_sticky)

lemma point_of_bytes:
  assumes "length bs = point_serialized_size"
  obtains p where "point_ok p" "point_to_data p = bs"
proof
  let ?p = "make_point (take 32 bs) (word_of_nat (le_value (drop 32 bs)))"
  have l: "length (drop 32 bs) = 4" using assms by (simp add: point_serialized_size_def hash_size_def)
  have "le_value (drop 32 bs) < 2 ^ 32" using le_value_bound [of "drop 32 bs"] l by (simp add: power_mult)
  then have "unat (word_of_nat (le_value (drop 32 bs)) :: u32) = le_value (drop 32 bs)" by (simp add: unat_of_nat)
  then show "point_to_data ?p = bs"
    using l le_bytes_le_value [of "drop 32 bs"] by (simp add: point_to_data_def make_point_def write_little_endian_def)
  show "point_ok ?p" using assms by (simp add: point_ok_def make_point_def point_serialized_size_def hash_size_def)
qed

lemma word_of_bytes:
  assumes "length bs = n" "LENGTH('a::len) = 8 * n"
  shows "write_little_endian n (unat (word_of_nat (le_value bs) :: 'a word)) = bs"
proof -
  have "le_value bs < 2 ^ LENGTH('a)" using le_value_bound [of bs] assms by (simp add: power_mult)
  then have "unat (word_of_nat (le_value bs) :: 'a word) = le_value bs" by (simp add: unat_of_nat)
  then show ?thesis using le_bytes_le_value [of bs] assms(1) by (simp add: write_little_endian_def)
qed

lemma skip_input_backward:
  assumes "ready r" "skip_input r = (n, s)" "rgood s"
  shows "\<exists>i. input_ok i \<and> view_small_script (in_script i) \<and> n = length (script_to_data (in_script i) True) \<and>
    consumed r (input_to_data i) s"
proof -
  let ?r = "skip_bytes point_serialized_size r"
  obtain sz t where t: "read_size max_bytes ?r = (sz, t)" by fastforce
  have s: "s = skip_bytes (sz + sequence_size) t" "n = variable_size sz + sz" using assms(2) t by (simp_all add: skip_input_def)
  have g: "rgood t" using assms(3) s(1) skip_bytes_sticky by blast
  have g1: "rgood ?r" using read_size_sticky [of max_bytes ?r] t g by simp
  note p = skip_bytes_good [OF assms(1) g1]
  note v = read_size_good [OF consumed_ready [OF p(1) g1] t g]
  have "rgood (skip_bytes (sz + sequence_size) t)" using assms(3) s(1) by simp
  note b = skip_bytes_good [OF consumed_ready [OF v(1) g] this]
  define bs where "bs = take (sz + sequence_size) (drop (rpos t) (rbuf t))"
  obtain x where x: "point_ok x" "point_to_data x = take point_serialized_size (drop (rpos r) (rbuf r))"
    using point_of_bytes [OF p(2)] .
  have l: "length (take sz bs) = sz" "length (drop sz bs) = 4" using b(2) by (simp_all add: bs_def sequence_size_def)
  let ?i = "make_input x (script_of_bytes (take sz bs)) default_witness (word_of_nat (le_value (drop sz bs))) True"
  have m: "length (take sz bs) \<le> max_bytes" using l(1) v(3) by simp
  note w = script_of_bytes_wf [OF m]
  have q: "write_little_endian 4 (unat (word_of_nat (le_value (drop sz bs)) :: u32)) = drop sz bs"
    by (rule word_of_bytes) (use l(2) in simp_all)
  have "input_to_data ?i = point_to_data x @ write_variable sz @ bs"
    using w(3) l(1) q by (simp add: input_to_data_def make_input_def)
  moreover have "consumed r (point_to_data x @ write_variable sz @ bs) s"
    using consumed_trans [OF p(1) consumed_trans [OF v(1) b(1)]] x(2) s(1) by (simp add: bs_def)
  moreover have "n = length (script_to_data (in_script ?i) True)" using s(2) w(3) l(1) by (simp add: make_input_def size_simps)
  ultimately show ?thesis using x(1) w(1,4) by (intro exI [of _ ?i]) (simp add: input_ok_def make_input_def)
qed

lemma skip_output_forward:
  assumes "output_ok p" "view_small_script (out_script p)" "feeds r (output_to_data p)"
  shows "\<exists>s. skip_output r = (variable_size (unat (out_value p)) + length (script_to_data (out_script p) True), s) \<and>
    moved r (length (output_to_data p)) s"
proof -
  let ?b = "script_to_data (out_script p) False"
  have wf: "script_wf (out_script p)" using assms(1) by (simp add: output_ok_def)
  have l: "length ?b \<le> max_bytes" using assms(2) by (simp add: view_small_script_def)
  have f: "feeds r (write_little_endian 8 (unat (out_value p)) @ write_variable (length ?b) @ ?b)"
    using assms(3) script_of_bytes_id(3) [OF wf assms(2)] by (simp add: output_to_data_def)
  note v = read_word_moved [OF feeds_appendD [OF f], simplified]
  have m1: "moved r (length (write_little_endian 8 (unat (out_value p)))) (advance 8 r)"
    using v(2) by (simp add: write_little_endian_def)
  obtain s where s: "read_size max_bytes (advance 8 r) = (length ?b, s)"
      "moved (advance 8 r) (variable_size (length ?b)) s" "feeds s ?b"
    using read_size_then [OF feeds_moved [OF f m1] l max_bytes_uint64 [OF l]] .
  have "moved r (length (output_to_data p)) (skip_bytes (length ?b) s)"
    using moved_trans [OF m1 moved_trans [OF s(2) skip_bytes_moved [OF s(3) refl]]]
    by (simp add: output_to_data_def script_body_length [OF wf assms(2)])
  then show ?thesis using s(1) v(1) by (simp add: skip_output_def script_body_length [OF wf assms(2)])
qed

lemma skip_output_sticky: "rgood (snd (skip_output r)) \<Longrightarrow> rgood r"
  by (auto simp: skip_output_def case_prod_beta dest!: skip_bytes_sticky read_size_sticky read_little_endian_sticky)

lemma skip_output_backward:
  assumes "ready r" "skip_output r = (n, s)" "rgood s"
  shows "\<exists>p. output_ok p \<and> view_small_script (out_script p) \<and>
    n = variable_size (unat (out_value p)) + length (script_to_data (out_script p) True) \<and> consumed r (output_to_data p) s"
proof -
  obtain v r1 where v: "read_little_endian 8 r = (v, r1)" by fastforce
  obtain sz t where t: "read_size max_bytes r1 = (sz, t)" by fastforce
  have s: "s = skip_bytes sz t" "n = variable_size v + variable_size sz + sz" using assms(2) v t by (simp_all add: skip_output_def)
  have g: "rgood t" using assms(3) s(1) skip_bytes_sticky by blast
  have g1: "rgood r1" using read_size_sticky [of max_bytes r1] t g by simp
  have c1: "consumed r (write_little_endian 8 (unat (word_of_nat v :: u64))) r1"
    by (rule read_word_good [OF assms(1) v g1]) simp
  note z = read_size_good [OF consumed_ready [OF c1 g1] t g]
  have "rgood (skip_bytes sz t)" using assms(3) s(1) by simp
  note b = skip_bytes_good [OF consumed_ready [OF z(1) g] this]
  define bs where "bs = take sz (drop (rpos t) (rbuf t))"
  have l: "length bs = sz" "length bs \<le> max_bytes" using b(2) z(3) by (simp_all add: bs_def)
  note w = script_of_bytes_wf [OF l(2)]
  let ?p = "make_output (word_of_nat v) (script_of_bytes bs) True"
  have "output_to_data ?p = write_little_endian 8 (unat (word_of_nat v :: u64)) @ write_variable sz @ bs"
    using w(3) l(1) by (simp add: output_to_data_def make_output_def)
  moreover have "consumed r (write_little_endian 8 (unat (word_of_nat v :: u64)) @ write_variable sz @ bs) s"
    using consumed_trans [OF c1 consumed_trans [OF z(1) b(1)]] s(1) by (simp add: bs_def)
  moreover have "v < 2 ^ 64" using read_little_endian_good(2) [OF assms(1) v g1] by simp
  then have "unat (word_of_nat v :: u64) = v" by (simp add: unat_of_nat)
  then have "n = variable_size (unat (out_value ?p)) + length (script_to_data (out_script ?p) True)"
    using s(2) w(3) l(1) by (simp add: make_output_def size_simps)
  ultimately show ?thesis using w(1,4) by (intro exI [of _ ?p]) (simp add: output_ok_def make_output_def)
qed

interpretation input_skip: skipping input_to_data input_from_data input_ok skip_input
  "\<lambda>i. length (script_to_data (in_script i) True)" "\<lambda>i. view_small_script (in_script i)"
  by unfold_locales (rule skip_input_forward skip_input_sticky skip_input_backward; assumption)+

interpretation output_skip: skipping output_to_data output_from_data output_ok skip_output
  "\<lambda>p. variable_size (unat (out_value p)) + length (script_to_data (out_script p) True)" "\<lambda>p. view_small_script (out_script p)"
  by unfold_locales (rule skip_output_forward skip_output_sticky skip_output_backward; assumption)+
lemma skip_element_sticky: "rgood (skip_element r) \<Longrightarrow> rgood r"
  by (auto simp: skip_element_def case_prod_beta dest!: skip_bytes_sticky read_size_sticky)

lemma skip_element_forward:
  assumes "length e \<le> max_bytes" "feeds r (write_element e)"
  shows "\<exists>s. ((), skip_element r) = ((), s) \<and> moved r (length (write_element e)) s"
proof -
  obtain s where s: "read_element r = (e, s)" "moved r (length (write_element e)) s"
    using element_codec.dec_enc [OF assms] by blast
  have "ready r" using assms(2) by (auto simp: feeds_iff_window)
  from read_element_good(2) [OF this s(1) moved_good [OF s(2)]] s(2) show ?thesis by simp
qed

lemma skip_element_backward:
  assumes "ready r" "rgood (skip_element r)"
  shows "\<exists>e. length e \<le> max_bytes \<and> consumed r (write_element e) (skip_element r)"
proof -
  obtain sz t where t: "read_size max_bytes r = (sz, t)" by fastforce
  then have s: "skip_element r = skip_bytes sz t" by (simp add: skip_element_def)
  have g: "rgood t" using assms(2) s skip_bytes_sticky by simp
  note z = read_size_good [OF assms(1) t g]
  have "rgood (skip_bytes sz t)" using assms(2) s by simp
  note b = skip_bytes_good [OF consumed_ready [OF z(1) g] this]
  show ?thesis
  proof (intro exI conjI)
    show "length (take sz (drop (rpos t) (rbuf t))) \<le> max_bytes" using b(2) z(3) by simp
    show "consumed r (write_element (take sz (drop (rpos t) (rbuf t)))) (skip_element r)"
      using consumed_trans [OF z(1) b(1)] b(2) s by (simp add: write_element_def)
  qed
qed

interpretation element_skip: skipping write_element read_element "\<lambda>e. length e \<le> max_bytes"
  "\<lambda>r. ((), skip_element r)" "\<lambda>_. ()" "\<lambda>_. True"
  by unfold_locales (use skip_element_forward skip_element_sticky skip_element_backward in auto)

lemma skip_each_elements: "skip_each n r = snd (read_each (\<lambda>r. ((), skip_element r)) n r)"
  by (induction n arbitrary: r) (simp_all add: case_prod_beta Let_def)

lemma witness_skip_forward:
  assumes "witness_ok w" "feeds r (witness_to_data w True)"
  shows "\<exists>s. witness_skip r True = (wit_stack w \<noteq> [], s) \<and> moved r (length (witness_to_data w True)) s"
proof -
  obtain s where s: "witness_from_data r True = (w, s)" "moved r (length (witness_to_data w True)) s"
    using witness_codec.dec_enc [OF assms] by blast
  have "ready r" using assms(2) by (auto simp: feeds_iff_window)
  from witness_from_data_good(2) [OF this s(1) moved_good [OF s(2)]] s(2) show ?thesis by simp
qed

lemma witness_skip_sticky: "rgood (snd (witness_skip r True)) \<Longrightarrow> rgood r"
  by (auto simp: witness_skip_def case_prod_beta skip_each_elements dest!: element_skip.skip_all_sticky read_size_sticky)

lemma witness_skip_backward:
  assumes "ready r" "witness_skip r True = (b, s)" "rgood s"
  shows "\<exists>w. witness_ok w \<and> b = (wit_stack w \<noteq> []) \<and> consumed r (witness_to_data w True) s"
proof -
  obtain n t where t: "read_size max_bytes r = (n, t)" by fastforce
  let ?e = "read_each (\<lambda>r. ((), skip_element r)) n t"
  have "snd ?e = s" and b: "b \<longleftrightarrow> n \<noteq> 0" using assms(2) t by (auto simp: witness_skip_def skip_each_elements)
  then obtain us where s: "?e = (us, s)" by (metis prod.collapse)
  have g: "rgood t" using element_skip.skip_all_sticky [of n t] s assms(3) by simp
  note z = read_size_good [OF assms(1) t g]
  obtain es where es: "length es = n" "list_all (\<lambda>e. length e \<le> max_bytes \<and> True) es" "consumed t (concat (map write_element es)) s"
    using element_skip.skipped_all [OF consumed_ready [OF z(1) g] s assms(3)] by blast
  let ?w = "witness_of_stack es"
  have st: "wit_stack ?w = es" by (simp add: witness_of_stack_def make_witness_def)
  have "witness_ok ?w" using es z(3) by (simp add: witness_ok_def st)
  moreover have "consumed r (witness_to_data ?w True) s"
    using consumed_trans [OF z(1) es(3)] es(1) by (simp add: witness_to_data_def st)
  moreover have "b = (wit_stack ?w \<noteq> [])" using b es(1) by (auto simp: st)
  ultimately show ?thesis by blast
qed

interpretation witness_skip: skipping "\<lambda>w. witness_to_data w True" "\<lambda>r. witness_from_data r True" witness_ok
  "\<lambda>r. witness_skip r True" "\<lambda>w. wit_stack w \<noteq> []" "\<lambda>_. True"
  by unfold_locales (use witness_skip_forward witness_skip_sticky witness_skip_backward in auto)

section \<open>Transactions\<close>

text \<open>Transactions with inputs and outputs, and with scripts that fit a block.\<close>

definition viewable :: "transaction \<Rightarrow> bool" where
  "viewable t \<longleftrightarrow> transaction_ok t \<and> tx_inputs t \<noteq> [] \<and> tx_outputs t \<noteq> [] \<and>
     list_all (\<lambda>i. view_small_script (in_script i)) (tx_inputs t) \<and> list_all (\<lambda>p. view_small_script (out_script p)) (tx_outputs t)"

abbreviation inputs_data :: "transaction \<Rightarrow> data_chunk" where
  "inputs_data t \<equiv> concat (map input_to_data (tx_inputs t))"

abbreviation outputs_data :: "transaction \<Rightarrow> data_chunk" where
  "outputs_data t \<equiv> concat (map output_to_data (tx_outputs t))"

definition witness_part :: "transaction \<Rightarrow> data_chunk" where
  "witness_part t = (if tx_segregated t then witnesses_data (tx_inputs t) else [])"

definition sentinels :: "transaction \<Rightarrow> data_chunk" where
  "sentinels t = (if tx_segregated t then [0, 1] else [])"

lemma transaction_parts:
  "transaction_to_data t True = write_little_endian 4 (unat (tx_version t)) @ sentinels t @
     write_variable (length (tx_inputs t)) @ inputs_data t @ write_variable (length (tx_outputs t)) @
     outputs_data t @ witness_part t @ write_little_endian 4 (unat (tx_locktime t))"
  "transaction_to_data t False = write_little_endian 4 (unat (tx_version t)) @
     write_variable (length (tx_inputs t)) @ inputs_data t @ write_variable (length (tx_outputs t)) @
     outputs_data t @ write_little_endian 4 (unat (tx_locktime t))"
  by (simp_all add: transaction_to_data_def sentinels_def witness_part_def write_byte_def witness_marker_def
      witness_enabled_def Let_def)

definition view_in_offset :: "transaction \<Rightarrow> nat" where
  "view_in_offset t = 4 + length (sentinels t) + variable_size (length (tx_inputs t))"

definition view_out_offset :: "transaction \<Rightarrow> nat" where
  "view_out_offset t = view_in_offset t + length (inputs_data t) + variable_size (length (tx_outputs t))"

definition tx_view_of :: "(data_chunk \<Rightarrow> hash_digest) \<Rightarrow> bool \<Rightarrow> transaction \<Rightarrow> data_chunk \<Rightarrow> tx_view" where
  "tx_view_of bitcoin_hash coinbase t data =
     \<lparr>tv_ptr = Some data, tv_in_offset = view_in_offset t, tv_in_count = length (tx_inputs t),
      tv_out_offset = view_out_offset t, tv_out_count = length (tx_outputs t),
      tv_size = length (transaction_to_data t True), tv_witnesses_size = length (witness_part t),
      tv_input_table_size = sum_list (map (\<lambda>i. length (script_to_data (in_script i) True)) (tx_inputs t)) +
        (if tx_segregated t then length (witness_part t) else length (tx_inputs t)),
      tv_output_table_size = sum_list (map (\<lambda>p. variable_size (unat (out_value p)) +
        length (script_to_data (out_script p) True)) (tx_outputs t)),
      tv_txid = bitcoin_hash (transaction_to_data t False),
      tv_wtxid = (if tx_segregated t \<and> \<not> coinbase then bitcoin_hash (transaction_to_data t True) else null_hash),
      tv_segregated = tx_segregated t, tv_coinbase = coinbase, tv_inputs = None\<rparr>"

lemma witness_part_nonempty: "tx_segregated t \<Longrightarrow> tx_inputs t \<noteq> [] \<Longrightarrow> witness_part t \<noteq> []"
proof -
  have "witness_to_data w True \<noteq> []" for w
    using length_write_variable [of "length (wit_stack w)"] by (auto simp: witness_to_data_def variable_size_def split: if_splits)
  then show "tx_segregated t \<Longrightarrow> tx_inputs t \<noteq> [] \<Longrightarrow> witness_part t \<noteq> []"
    by (auto simp: witness_part_def neq_Nil_conv)
qed

lemma identifiers_exact:
  assumes "tx_inputs t \<noteq> []" "ptr = transaction_to_data t True @ rest" "tv_size v = length (transaction_to_data t True)"
    "tv_witnesses_size v = length (witness_part t)" "tv_wtxid v = null_hash"
  shows "set_identifiers H (tx_segregated t) coinbase True ptr v = v\<lparr>tv_txid := H (transaction_to_data t False),
    tv_wtxid := (if tx_segregated t \<and> \<not> coinbase then H (transaction_to_data t True) else null_hash)\<rparr>"
proof (cases "tx_segregated t")
  case True
  have "tv_stripped_size v = length (transaction_to_data t False)"
    using assms(3,4) witness_part_nonempty [OF True assms(1)] True
    by (simp add: tv_stripped_size_def transaction_parts sentinels_def sentinels_size_def)
  then show ?thesis using True assms desegregated_to_data [OF True, of rest]
    by (simp add: set_identifiers_def desegregated_hash_def)
next
  case False
  then have "transaction_to_data t True = transaction_to_data t False" by (simp add: transaction_to_data_def)
  then show ?thesis using False assms by (simp add: set_identifiers_def)
qed

lemma get_read_position_moved: "moved r n s \<Longrightarrow> get_read_position s = get_read_position r + n"
  by (simp add: moved_def get_read_position_def)
lemma plain_script [simp]: "in_script (plain i) = in_script i"
  by (simp add: plain_def make_input_def)

lemma plain_inputs:
  assumes "viewable t"
  shows "list_all (\<lambda>i. input_ok i \<and> view_small_script (in_script i)) (map plain (tx_inputs t))"
    "list_all (\<lambda>p. output_ok p \<and> view_small_script (out_script p)) (tx_outputs t)"
    "length (tx_inputs t) \<le> max_count" "length (tx_outputs t) \<le> max_count"
proof -
  have ok: "list_all (tx_input_ok (tx_segregated t)) (tx_inputs t)" "puts_ok output_ok (tx_outputs t)"
      "length (tx_inputs t) \<le> max_count"
    using assms unfolding viewable_def transaction_ok_def by blast+
  then show "list_all (\<lambda>i. input_ok i \<and> view_small_script (in_script i)) (map plain (tx_inputs t))"
    using assms plain_ok by (auto simp: viewable_def list_all_iff)
  show "list_all (\<lambda>p. output_ok p \<and> view_small_script (out_script p)) (tx_outputs t)"
      "length (tx_inputs t) \<le> max_count" "length (tx_outputs t) \<le> max_count"
    using assms ok by (auto simp: viewable_def list_all_iff puts_ok_def)
qed

lemma inputs_part_skips:
  assumes "viewable t" "feeds r (inputs_data t)"
  shows "\<exists>s. skip_inputs (length (tx_inputs t)) r =
      (sum_list (map (\<lambda>i. length (script_to_data (in_script i) True)) (tx_inputs t)), s) \<and>
    moved r (length (inputs_data t)) s"
proof -
  have "feeds r (concat (map input_to_data (map plain (tx_inputs t))))" using assms(2) by (simp add: comp_def)
  from input_skip.skip_all [OF plain_inputs(1) [OF assms(1)] this]
  obtain s where "read_each skip_input (length (tx_inputs t)) r =
      (map (\<lambda>i. length (script_to_data (in_script i) True)) (map plain (tx_inputs t)), s)"
      "moved r (length (inputs_data t)) s" by (auto simp: comp_def)
  then show ?thesis by (simp add: skip_inputs_each comp_def)
qed

lemma witness_part_skips:
  assumes "viewable t" "tx_segregated t" "feeds r (witness_part t)"
  shows "\<exists>s. skip_witnesses (length (tx_inputs t)) r = (False, s) \<and> moved r (length (witness_part t)) s"
proof -
  let ?ws = "map in_witness (tx_inputs t)"
  have "list_all (\<lambda>w. witness_ok w \<and> True) ?ws"
    using assms(1,2) by (auto simp: viewable_def transaction_ok_def tx_input_ok_def list_all_iff)
  moreover have p: "witness_part t = concat (map (\<lambda>w. witness_to_data w True) ?ws)"
    using assms(2) by (simp add: witness_part_def comp_def)
  ultimately obtain s where s: "read_each (\<lambda>r. witness_skip r True) (length ?ws) r = (map (\<lambda>w. wit_stack w \<noteq> []) ?ws, s)"
      "moved r (length (witness_part t)) s"
    using witness_skip.skip_all [of ?ws r] assms(3) by auto
  have "inputs_segregated (tx_inputs t)" using assms(1,2) by (simp add: viewable_def transaction_ok_def)
  then have "\<not> list_all Not (map (\<lambda>w. wit_stack w \<noteq> []) ?ws)"
    by (auto simp: inputs_segregated_def list_all_iff list_ex_iff)
  then show ?thesis using s by (simp add: skip_witnesses_each)
qed

text \<open>The constructor over the bytes of a transaction.\<close>

lemma read_count_then:
  assumes "feeds r (write_variable n @ b)" "n \<le> max_count"
  obtains s where "read_size max_count r = (n, s)" "moved r (variable_size n) s" "feeds s b"
  using read_size_then [OF assms(1,2)] assms(2) max_count_less by (metis le_trans)

lemma view_transaction_forward:
  assumes "viewable t" "feeds r (transaction_to_data t True)"
  shows "\<exists>s. view_transaction H coinbase True r = (tx_view_of H coinbase t (drop (rpos r) (rbuf r)), s) \<and>
    moved r (length (transaction_to_data t True)) s"
proof -
  let ?n = "length (tx_inputs t)" and ?m = "length (tx_outputs t)"
  let ?V = "write_little_endian 4 (unat (tx_version t))" and ?L = "write_little_endian 4 (unat (tx_locktime t))"
  note ok = plain_inputs [OF assms(1)]
  have ne: "?n \<noteq> 0" "?m \<noteq> 0" using assms(1) by (simp_all add: viewable_def)
  have len: "length ?V = 4" "length ?L = 4" by (simp_all add: write_little_endian_def)
  have f0: "feeds r (?V @ sentinels t @ write_variable ?n @ inputs_data t @ write_variable ?m @
      outputs_data t @ witness_part t @ ?L)"
    using assms(2) by (simp add: transaction_parts)
  note a = skip_bytes_then [OF f0 len(1)]
  let ?r1 = "skip_bytes version_size r"
  have a1: "moved r 4 ?r1" using a(1) by (simp add: version_size_def)
  \<comment> \<open>the count, behind the sentinels if there are any\<close>
  have "\<exists>c r2 p r3 r4. read_size max_count ?r1 = (c, r2) \<and>
      (if c = unat witness_marker then peek_byte r2 else (0, r2)) = (p, r3) \<and>
      (c = unat witness_marker \<and> p = witness_enabled) = tx_segregated t \<and>
      (if tx_segregated t then read_size max_count (skip_bytes 1 r3) else (c, r3)) = (?n, r4) \<and>
      moved ?r1 (length (sentinels t) + variable_size ?n) r4 \<and>
      feeds r4 (inputs_data t @ write_variable ?m @ outputs_data t @ witness_part t @ ?L)"
  proof (cases "tx_segregated t")
    case True
    let ?rest = "write_variable ?n @ inputs_data t @ write_variable ?m @ outputs_data t @ witness_part t @ ?L"
    have f: "feeds ?r1 (write_variable 0 @ [1] @ ?rest)"
      using a(2) True by (simp add: sentinels_def write_variable_zero version_size_def)
    obtain r2 where r2: "read_size max_count ?r1 = (0, r2)" "moved ?r1 (variable_size 0) r2" "feeds r2 ([1] @ ?rest)"
      using read_count_then [OF f] by auto
    note p = peek_byte_feeds [of r2 1 ?rest]
    note k = skip_bytes_then [OF r2(3), of 1]
    obtain r4 where r4: "read_size max_count (skip_bytes 1 r2) = (?n, r4)" "moved (skip_bytes 1 r2) (variable_size ?n) r4"
        "feeds r4 (inputs_data t @ write_variable ?m @ outputs_data t @ witness_part t @ ?L)"
      using read_count_then [OF k(2)] ok(3) by auto
    have "moved ?r1 (length (sentinels t) + variable_size ?n) r4"
      using moved_trans [OF r2(2) moved_trans [OF k(1) r4(2)]] True
      by (simp add: sentinels_def variable_size_def varint_simps)
    then show ?thesis using r2 p r4 True by (auto simp: witness_marker_def witness_enabled_def)
  next
    case False
    have f: "feeds ?r1 (write_variable ?n @ inputs_data t @ write_variable ?m @ outputs_data t @ witness_part t @ ?L)"
      using a(2) False by (simp add: sentinels_def version_size_def)
    obtain r4 where r4: "read_size max_count ?r1 = (?n, r4)" "moved ?r1 (variable_size ?n) r4"
        "feeds r4 (inputs_data t @ write_variable ?m @ outputs_data t @ witness_part t @ ?L)"
      using read_count_then [OF f ok(3)] .
    then show ?thesis using False ne(1) by (auto simp: sentinels_def witness_marker_def)
  qed
  then obtain c r2 p r3 r4 where r4: "read_size max_count ?r1 = (c, r2)"
      "(if c = unat witness_marker then peek_byte r2 else (0, r2)) = (p, r3)"
      "(c = unat witness_marker \<and> p = witness_enabled) = tx_segregated t"
      "(if tx_segregated t then read_size max_count (skip_bytes 1 r3) else (c, r3)) = (?n, r4)"
      "moved ?r1 (length (sentinels t) + variable_size ?n) r4"
      "feeds r4 (inputs_data t @ write_variable ?m @ outputs_data t @ witness_part t @ ?L)" by blast
  have m4: "moved r (view_in_offset t) r4"
    using moved_trans [OF a1 r4(5)] by (simp add: view_in_offset_def add.assoc)
  \<comment> \<open>inputs and outputs\<close>
  obtain r5 where r5: "skip_inputs ?n r4 = (sum_list (map (\<lambda>i. length (script_to_data (in_script i) True)) (tx_inputs t)), r5)"
      "moved r4 (length (inputs_data t)) r5"
    using inputs_part_skips [OF assms(1) feeds_appendD [OF r4(6)]] by blast
  obtain r6 where r6: "read_size max_count r5 = (?m, r6)" "moved r5 (variable_size ?m) r6"
      "feeds r6 (outputs_data t @ witness_part t @ ?L)"
    using read_count_then [OF feeds_moved [OF r4(6) r5(2)] ok(4)] .
  have m6: "moved r (view_out_offset t) r6"
    using moved_trans [OF m4 moved_trans [OF r5(2) r6(2)]] by (simp add: view_out_offset_def add.assoc)
  obtain r7 where r7: "skip_outputs ?m r6 = (sum_list (map (\<lambda>p. variable_size (unat (out_value p)) +
        length (script_to_data (out_script p) True)) (tx_outputs t)), r7)" "moved r6 (length (outputs_data t)) r7"
    using output_skip.skip_all [OF ok(2), of r6] feeds_appendD [OF r6(3)] by (auto simp: skip_outputs_each)
  have f7: "feeds r7 (witness_part t @ ?L)" by (rule feeds_moved [OF r6(3) r7(2)])
  note m7 = moved_trans [OF m6 r7(2)]
  \<comment> \<open>witnesses and lock time\<close>
  define r8 where "r8 = (if tx_segregated t then (let (superfluous, s) = skip_witnesses ?n r7
              in if superfluous then invalidate s else s) else r7)"
  have m8: "moved r7 (length (witness_part t)) r8"
  proof (cases "tx_segregated t")
    case True
    obtain s where s: "skip_witnesses ?n r7 = (False, s)" "moved r7 (length (witness_part t)) s"
      using witness_part_skips [OF assms(1) True feeds_appendD [OF f7]] by blast
    then have "r8 = s" using True by (simp add: r8_def)
    then show ?thesis using s by simp
  next
    case False
    then show ?thesis using moved_good [OF r7(2)] by (simp add: r8_def witness_part_def moved_refl)
  qed
  have m9: "moved r8 4 (skip_bytes locktime_size r8)"
    using skip_bytes_moved [OF feeds_moved [OF f7 m8] len(2)] by (simp add: locktime_size_def)
  have all: "view_out_offset t + length (outputs_data t) + (length (witness_part t) + 4) = length (transaction_to_data t True)"
    by (simp add: transaction_parts view_out_offset_def view_in_offset_def size_simps write_little_endian_def)
  let ?s = "skip_bytes locktime_size r8"
  have m: "moved r (length (transaction_to_data t True)) ?s"
    using moved_trans [OF m7 moved_trans [OF m8 m9]] all by simp
  obtain rest where rest: "drop (rpos r) (rbuf r) = transaction_to_data t True @ rest"
    using assms(2) by (metis append_take_drop_id feeds_def)
  have seg: "\<not> tx_segregated t \<Longrightarrow> witness_part t = []" by (simp add: witness_part_def)
  let ?ptr = "drop (rpos r) (rbuf r)"
  let ?v = "\<lparr>tv_ptr = Some ?ptr, tv_in_offset = view_in_offset t, tv_in_count = ?n,
      tv_out_offset = view_out_offset t, tv_out_count = ?m,
      tv_size = length (transaction_to_data t True), tv_witnesses_size = length (witness_part t),
      tv_input_table_size = sum_list (map (\<lambda>i. length (script_to_data (in_script i) True)) (tx_inputs t)) +
        (if tx_segregated t then length (witness_part t) else ?n),
      tv_output_table_size = sum_list (map (\<lambda>p. variable_size (unat (out_value p)) +
        length (script_to_data (out_script p) True)) (tx_outputs t)),
      tv_txid = null_hash, tv_wtxid = null_hash,
      tv_segregated = tx_segregated t, tv_coinbase = coinbase, tv_inputs = None\<rparr>"
  have id: "set_identifiers H (tx_segregated t) coinbase True ?ptr ?v = tx_view_of H coinbase t ?ptr"
    using identifiers_exact [of t ?ptr rest ?v H coinbase] rest ne by (simp add: tx_view_of_def)
  have pos: "get_read_position r4 - get_read_position r = view_in_offset t"
    "get_read_position r6 - get_read_position r = view_out_offset t"
    "get_read_position r7 - get_read_position r = view_out_offset t + length (outputs_data t)"
    "get_read_position ?s - get_read_position r = length (transaction_to_data t True)"
    using get_read_position_moved [OF m4] get_read_position_moved [OF m6] get_read_position_moved [OF m7]
      get_read_position_moved [OF m] by simp_all
  have wit: "length (transaction_to_data t True) - (view_out_offset t + length (outputs_data t) + locktime_size) =
      length (witness_part t)" using all by (simp add: locktime_size_def)
  have g: "rgood ?s" using m by (rule moved_good)
  have "view_transaction H coinbase True r = (set_identifiers H (tx_segregated t) coinbase True ?ptr ?v, ?s)"
    unfolding view_transaction_def Let_def r4(1) prod.case r4(2) r4(3) r4(4) r5(1) r6(1) r7(1) pos wit
      r8_def [symmetric, unfolded Let_def] pos(4)
    using ne g by (simp add: get_read_position_def)
  then show ?thesis using id m by auto
qed
text \<open>The bytes behind a valid view are those of a transaction.\<close>

lemma with_witness:
  assumes "input_ok i" "witness_ok w"
  shows "tx_input_ok True (make_input (in_point i) (in_script i) w (in_sequence i) True)"
    "input_to_data (make_input (in_point i) (in_script i) w (in_sequence i) True) = input_to_data i"
  using assms by (simp_all add: input_ok_def tx_input_ok_def make_input_def input_to_data_def)

lemma skip_inputs_good:
  assumes "ready r" "skip_inputs n r = (k, s)" "rgood s"
  shows "\<exists>ins. length ins = n \<and> list_all (\<lambda>i. input_ok i \<and> view_small_script (in_script i)) ins \<and>
    consumed r (concat (map input_to_data ins)) s"
proof -
  obtain xs where "read_each skip_input n r = (xs, s)"
    using assms(2) by (auto simp: skip_inputs_each split: prod.splits)
  from input_skip.skipped_all [OF assms(1) this assms(3)] show ?thesis by blast
qed

lemma skip_outputs_good:
  assumes "ready r" "skip_outputs n r = (k, s)" "rgood s"
  shows "\<exists>outs. length outs = n \<and> list_all (\<lambda>p. output_ok p \<and> view_small_script (out_script p)) outs \<and>
    consumed r (concat (map output_to_data outs)) s"
proof -
  obtain xs where "read_each skip_output n r = (xs, s)"
    using assms(2) by (auto simp: skip_outputs_each split: prod.splits)
  from output_skip.skipped_all [OF assms(1) this assms(3)] show ?thesis by blast
qed

lemma skip_sticky_all:
  "rgood (snd (skip_inputs n r)) \<Longrightarrow> rgood r" "rgood (snd (skip_outputs n r)) \<Longrightarrow> rgood r"
  "rgood (snd (skip_witnesses n r)) \<Longrightarrow> rgood r"
  by (auto simp: skip_inputs_each skip_outputs_each skip_witnesses_each case_prod_beta
      dest!: input_skip.skip_all_sticky output_skip.skip_all_sticky witness_skip.skip_all_sticky)

lemma consumed_same:
  assumes "consumed r a s" "consumed r b s"
  shows "a = b"
  using assms by (auto simp: consumed_def)

lemma skip_witnesses_good:
  assumes "ready r" "skip_witnesses n r = (superfluous, s)" "rgood s"
  shows "\<exists>ws. length ws = n \<and> list_all witness_ok ws \<and> consumed r (concat (map (\<lambda>w. witness_to_data w True) ws)) s \<and>
    (superfluous \<longleftrightarrow> list_all (\<lambda>w. wit_stack w = []) ws)"
proof -
  obtain xs where xs: "read_each (\<lambda>r. witness_skip r True) n r = (xs, s)" "superfluous = list_all Not xs"
    using assms(2) by (auto simp: skip_witnesses_each split: prod.splits)
  from witness_skip.skipped_all [OF assms(1) xs(1) assms(3)] xs(2) show ?thesis
    by (auto simp: list_all_iff)
qed

definition make_witnessed :: "chain_input \<times> witness \<Rightarrow> chain_input" where
  "make_witnessed p = make_input (in_point (fst p)) (in_script (fst p)) (snd p) (in_sequence (fst p)) True"

lemma make_witnessed_all:
  assumes "length ws = length ins" "list_all (\<lambda>i. input_ok i \<and> view_small_script (in_script i)) ins" "list_all witness_ok ws"
  shows "list_all (tx_input_ok True) (map make_witnessed (zip ins ws))"
    "list_all (\<lambda>i. view_small_script (in_script i)) (map make_witnessed (zip ins ws))"
    "concat (map input_to_data (map make_witnessed (zip ins ws))) = concat (map input_to_data ins)"
    "witnesses_data (map make_witnessed (zip ins ws)) = concat (map (\<lambda>w. witness_to_data w True) ws)"
    "inputs_segregated (map make_witnessed (zip ins ws)) \<longleftrightarrow> \<not> list_all (\<lambda>w. wit_stack w = []) ws"
  using assms
proof (induction ws ins rule: list_induct2)
  case (Cons w ws i ins)
  note c = with_witness [of i w]
  {
    case 1
    then show ?case using Cons.IH(1) c(1) by (simp add: make_witnessed_def)
  next
    case 2
    then show ?case using Cons.IH(2) by (simp add: make_witnessed_def make_input_def)
  next
    case 3
    then show ?case using Cons.IH(3) c(2) by (simp add: make_witnessed_def)
  next
    case 4
    then show ?case using Cons.IH(4) by (simp add: make_witnessed_def make_input_def)
  next
    case 5
    then show ?case using Cons.IH(5) by (simp add: make_witnessed_def make_input_def inputs_segregated_def)
  }
qed (simp_all add: inputs_segregated_def)
lemma view_transaction_steps:
  assumes "view_transaction H coinbase True r = (v, s)" "rgood s"
  obtains c r2 p r3 n r4 a r5 m r6 b r7 r8 where "read_size max_count (skip_bytes version_size r) = (c, r2)"
    "(if c = unat witness_marker then peek_byte r2 else (0, r2)) = (p, r3)"
    "(if c = unat witness_marker \<and> p = witness_enabled then read_size max_count (skip_bytes 1 r3) else (c, r3)) = (n, r4)"
    "skip_inputs n r4 = (a, r5)" "read_size max_count r5 = (m, r6)" "skip_outputs m r6 = (b, r7)"
    "(if c = unat witness_marker \<and> p = witness_enabled then (let (superfluous, s) = skip_witnesses n r7
              in if superfluous then invalidate s else s) else r7) = r8"
    "s = skip_bytes locktime_size r8" "n \<noteq> 0" "m \<noteq> 0"
    "rgood (skip_bytes version_size r)" "rgood r2" "rgood r3" "rgood r4" "rgood r5" "rgood r6" "rgood r7" "rgood r8"
proof -
  obtain c r2 where 1: "read_size max_count (skip_bytes version_size r) = (c, r2)" by fastforce
  obtain p r3 where 2: "(if c = unat witness_marker then peek_byte r2 else (0, r2)) = (p, r3)" by fastforce
  obtain n r4 where 3: "(if c = unat witness_marker \<and> p = witness_enabled then read_size max_count (skip_bytes 1 r3) else (c, r3)) = (n, r4)" by fastforce
  obtain a r5 where 4: "skip_inputs n r4 = (a, r5)" by fastforce
  obtain m r6 where 5: "read_size max_count r5 = (m, r6)" by fastforce
  obtain b r7 where 6: "skip_outputs m r6 = (b, r7)" by fastforce
  obtain r8 where 7: "(if c = unat witness_marker \<and> p = witness_enabled then (let (superfluous, s) = skip_witnesses n r7
              in if superfluous then invalidate s else s) else r7) = r8" by blast
  have "s = (if n = 0 \<or> m = 0 then invalidate (skip_bytes locktime_size r8) else skip_bytes locktime_size r8)"
    using assms(1) unfolding view_transaction_def Let_def 1 prod.case 2 3 4 5 6
      7 [unfolded Let_def] by simp
  with assms(2) have s: "s = skip_bytes locktime_size r8" "n \<noteq> 0" "m \<noteq> 0" by (auto split: if_splits)
  have g8: "rgood r8" using assms(2) s(1) skip_bytes_sticky by blast
  have g7: "rgood r7" using g8 7 skip_sticky_all(3) [of n r7] by (auto simp: case_prod_beta split: if_splits)
  have g6: "rgood r6" using skip_sticky_all(2) [of m r6] 6 g7 by simp
  have g5: "rgood r5" using read_size_sticky [of max_count r5] 5 g6 by simp
  have g4: "rgood r4" using skip_sticky_all(1) [of n r4] 4 g5 by simp
  have g3: "rgood r3"
    using 3 g4 read_size_sticky [of max_count "skip_bytes 1 r3"] skip_bytes_sticky by (auto split: if_splits)
  have g2: "rgood r2" using 2 g3 by (auto simp: peek_byte_def invalidate_def split: if_splits)
  have "rgood (skip_bytes version_size r)" using read_size_sticky 1 g2 by (metis snd_conv)
  with 1 2 3 4 5 6 7 s show thesis using g2 g3 g4 g5 g6 g7 g8 by (rule that)
qed

lemma skip_peeked:
  assumes "peek_byte r = (p, s)" "rgood s" "ready r" "rgood (skip_bytes 1 s)"
  shows "consumed r [p] (skip_bytes 1 s)"
proof -
  note p = peek_byte_good [OF assms(1,2)]
  have "take 1 (drop (rpos r) (rbuf r)) = [p]" using p(3,4) by (simp add: take_Suc_conv_app_nth [of 0, simplified])
  then show ?thesis using skip_bytes_good(1) [of r 1] assms(3,4) p(1) by simp
qed

lemma viewableI:
  assumes "list_all (tx_input_ok seg) ins" "list_all (\<lambda>i. view_small_script (in_script i)) ins"
    "list_all (\<lambda>p. output_ok p \<and> view_small_script (out_script p)) outs" "seg = inputs_segregated ins"
    "length ins \<le> max_count" "length outs \<le> max_count" "ins \<noteq> []" "outs \<noteq> []"
  shows "viewable (make_transaction version ins outs locktime seg True)"
proof -
  let ?t = "make_transaction version ins outs locktime seg True"
  have sel: "tx_version ?t = version" "tx_inputs ?t = ins" "tx_outputs ?t = outs" "tx_locktime ?t = locktime"
      "tx_segregated ?t = seg"
    by (simp_all add: make_transaction_def)
  have "list_all output_ok outs" "list_all (\<lambda>p. view_small_script (out_script p)) outs"
    using assms(3) by (auto simp: list_all_iff)
  then show ?thesis using assms unfolding viewable_def transaction_ok_def sel puts_ok_def by simp
qed

lemma input_ok_unwitnessed: "input_ok i \<Longrightarrow> wit_stack (in_witness i) = []"
  using tx_input_unsegregated [of i] by (simp add: tx_input_ok_def default_witness_def make_witness_def)

lemma view_transaction_backward:
  assumes "ready r" "view_transaction H coinbase True r = (v, s)" "rgood s"
  shows "\<exists>t. viewable t \<and> consumed r (transaction_to_data t True) s"
proof (rule view_transaction_steps [OF assms(2,3)])
  fix c r2 p r3 n r4 a r5 m r6 b r7 r8
  assume st: "read_size max_count (skip_bytes version_size r) = (c, r2)"
      "(if c = unat witness_marker then peek_byte r2 else (0, r2)) = (p, r3)"
      "(if c = unat witness_marker \<and> p = witness_enabled then read_size max_count (skip_bytes 1 r3) else (c, r3)) = (n, r4)"
      "skip_inputs n r4 = (a, r5)" "read_size max_count r5 = (m, r6)" "skip_outputs m r6 = (b, r7)"
      "(if c = unat witness_marker \<and> p = witness_enabled then (let (superfluous, s) = skip_witnesses n r7
              in if superfluous then invalidate s else s) else r7) = r8"
      "s = skip_bytes locktime_size r8" "n \<noteq> 0" "m \<noteq> 0"
    and g1: "rgood (skip_bytes version_size r)" and g2: "rgood r2" and g3: "rgood r3" and g4: "rgood r4"
    and g5: "rgood r5" and g6: "rgood r6" and g7: "rgood r7" and g8: "rgood r8"
  define seg where "seg \<longleftrightarrow> c = unat witness_marker \<and> p = witness_enabled"
  note c1 = skip_bytes_good [OF assms(1) g1]
  note c2 = read_size_good [OF consumed_ready [OF c1(1) g1] st(1) g2]
  note rd2 = consumed_ready [OF c2(1) g2]
  define V where "V = take version_size (drop (rpos r) (rbuf r))"
  have V: "write_little_endian 4 (unat (word_of_nat (le_value V) :: u32)) = V"
    by (rule word_of_bytes) (use c1(2) in \<open>simp_all add: V_def version_size_def\<close>)
  have rd: "consumed r (V @ (if seg then [0, 1] else []) @ write_variable n) r4 \<and> n \<le> max_count"
  proof (cases seg)
    case True
    have k: "peek_byte r2 = (1, r3)" "c = 0" using st(2) True by (simp_all add: seg_def witness_enabled_def witness_marker_def)
    have rs: "read_size max_count (skip_bytes 1 r3) = (n, r4)" using st(3) True by (simp add: seg_def [symmetric])
    have gs: "rgood (skip_bytes 1 r3)" using read_size_sticky [of max_count "skip_bytes 1 r3"] rs g4 by simp
    have one: "consumed r2 [1] (skip_bytes 1 r3)" by (rule skip_peeked [OF k(1) g3 rd2 gs])
    note n = read_size_good [OF consumed_ready [OF one gs] rs g4]
    show ?thesis
      using consumed_trans [OF c1(1) consumed_trans [OF c2(1) consumed_trans [OF one n(1)]]] n(3) True k(2)
      by (simp add: V_def write_variable_zero)
  next
    case False
    then have "n = c" "r4 = r3" using st(3) by (simp_all add: seg_def [symmetric])
    moreover from this have "c \<noteq> unat witness_marker" using st(9) by (simp add: witness_marker_def)
    then have "r3 = r2" using st(2) by simp
    ultimately show ?thesis using consumed_trans [OF c1(1) c2(1)] c2(3) False by (simp add: V_def)
  qed
  obtain ins where ins: "length ins = n" "list_all (\<lambda>i. input_ok i \<and> view_small_script (in_script i)) ins"
      "consumed r4 (concat (map input_to_data ins)) r5"
    using skip_inputs_good [OF consumed_ready [OF conjunct1 [OF rd] g4] st(4) g5] by blast
  note z = read_size_good [OF consumed_ready [OF ins(3) g5] st(5) g6]
  obtain outs where outs: "length outs = m" "list_all (\<lambda>p. output_ok p \<and> view_small_script (out_script p)) outs"
      "consumed r6 (concat (map output_to_data outs)) r7"
    using skip_outputs_good [OF consumed_ready [OF z(1) g6] st(6) g7] by blast
  note rd7 = consumed_ready [OF outs(3) g7]
  have "\<exists>jns. length jns = n \<and> list_all (tx_input_ok seg) jns \<and> list_all (\<lambda>i. view_small_script (in_script i)) jns \<and>
      concat (map input_to_data jns) = concat (map input_to_data ins) \<and> seg = inputs_segregated jns \<and>
      consumed r7 (if seg then witnesses_data jns else []) r8"
  proof (cases seg)
    case True
    obtain superfluous t where t: "skip_witnesses n r7 = (superfluous, t)" by fastforce
    then have "r8 = (if superfluous then invalidate t else t)" using st(7) True by (simp add: seg_def [symmetric])
    then have t8: "\<not> superfluous" "t = r8" using g8 by (auto split: if_splits)
    then have sk: "skip_witnesses n r7 = (False, r8)" using t by simp
    obtain ws where ws: "length ws = n" "list_all witness_ok ws"
        "consumed r7 (concat (map (\<lambda>w. witness_to_data w True) ws)) r8" "\<not> list_all (\<lambda>w. wit_stack w = []) ws"
      using skip_witnesses_good [OF rd7 sk g8] by blast
    have "length ws = length ins" using ws(1) ins(1) by simp
    note w = make_witnessed_all [OF this ins(2) ws(2)]
    show ?thesis
      using w ws ins(1) True by (intro exI [of _ "map make_witnessed (zip ins ws)"]) simp
  next
    case False
    then have "r8 = r7" using st(7) by (simp add: seg_def [symmetric])
    moreover have "\<not> inputs_segregated ins"
      using ins(2) input_ok_unwitnessed by (auto simp: inputs_segregated_def list_all_iff list_ex_iff)
    moreover have "list_all (tx_input_ok False) ins" "list_all (\<lambda>i. view_small_script (in_script i)) ins"
      using ins(2) tx_input_unsegregated by (auto simp: list_all_iff)
    ultimately show ?thesis using False ins(1) rd7 by (intro exI [of _ ins]) (simp add: consumed_refl)
  qed
  then obtain jns where jns: "length jns = n" "list_all (tx_input_ok seg) jns" "list_all (\<lambda>i. view_small_script (in_script i)) jns"
      "concat (map input_to_data jns) = concat (map input_to_data ins)" "seg = inputs_segregated jns"
      "consumed r7 (if seg then witnesses_data jns else []) r8" by blast
  have "rgood (skip_bytes locktime_size r8)" using assms(3) st(8) by simp
  note l = skip_bytes_good [OF consumed_ready [OF jns(6) g8] this]
  define L where "L = take locktime_size (drop (rpos r8) (rbuf r8))"
  have L: "write_little_endian 4 (unat (word_of_nat (le_value L) :: u32)) = L"
    by (rule word_of_bytes) (use l(2) in \<open>simp_all add: L_def locktime_size_def\<close>)
  let ?t = "make_transaction (word_of_nat (le_value V)) jns outs (word_of_nat (le_value L)) seg True"
  have "viewable ?t"
    by (rule viewableI) (use jns outs rd z(3) st(9,10) in auto)
  moreover have "transaction_to_data ?t True = V @ (if seg then [0, 1] else []) @ write_variable n @
      concat (map input_to_data ins) @ write_variable m @ concat (map output_to_data outs) @
      (if seg then witnesses_data jns else []) @ L"
    using V L jns(1,4) outs(1) unfolding transaction_parts(1)
    by (simp add: make_transaction_def sentinels_def witness_part_def)
  moreover have "consumed r \<dots> s"
    using consumed_trans [OF conjunct1 [OF rd] consumed_trans [OF ins(3) consumed_trans [OF z(1)
        consumed_trans [OF outs(3) consumed_trans [OF jns(6) l(1)]]]]] st(8) by (simp add: L_def)
  ultimately show "\<exists>t. viewable t \<and> consumed r (transaction_to_data t True) s" by (intro exI [of _ ?t]) simp
qed

section \<open>Where the view stands\<close>

text \<open>A reader whose limit does not end before its buffer.\<close>

definition roomy :: "reader \<Rightarrow> bool" where
  "roomy r \<longleftrightarrow> ready r \<and> length (rbuf r) \<le> rpos r + remaining r"

lemma roomy_moved: "roomy r \<Longrightarrow> moved r n s \<Longrightarrow> rpos s \<le> length (rbuf s) \<Longrightarrow> roomy s"
  by (auto simp: roomy_def moved_def ready_def)

lemma roomy_reader_of: "length bs \<le> max_size_t \<Longrightarrow> roomy (reader_of bs)"
  by (simp add: roomy_def ready_def reader_of_def unat_of_nat_u64)

lemma feeds_of_consumed:
  assumes "roomy r" "consumed r bs s"
  shows "feeds r bs"
  using assms by (auto simp: roomy_def ready_def consumed_def feeds_def)

lemma view_transaction_valid: "tv_is_valid (fst (view_transaction H coinbase w r)) \<longleftrightarrow> rgood (snd (view_transaction H coinbase w r))"
  by (simp add: view_transaction_def case_prod_beta Let_def tv_is_valid_def set_identifiers_def)

lemma view_transaction_sticky: "rgood (snd (view_transaction H coinbase True r)) \<Longrightarrow> rgood r"
proof -
  obtain v s where v: "view_transaction H coinbase True r = (v, s)" by fastforce
  assume "rgood (snd (view_transaction H coinbase True r))"
  then have "rgood s" using v by simp
  from view_transaction_steps [OF v this] have "rgood (skip_bytes version_size r)" .
  then show "rgood r" by (rule skip_bytes_sticky)
qed

fun tx_views :: "(data_chunk \<Rightarrow> hash_digest) \<Rightarrow> bool \<Rightarrow> data_chunk \<Rightarrow> transaction list \<Rightarrow> tx_view list" where
  "tx_views H coinbase data [] = []"
| "tx_views H coinbase data (t # txs) = tx_view_of H coinbase t data #
     tx_views H False (drop (length (transaction_to_data t True)) data) txs"

abbreviation transactions_data :: "transaction list \<Rightarrow> data_chunk" where
  "transactions_data txs \<equiv> concat (map (\<lambda>t. transaction_to_data t True) txs)"

lemma view_transactions_forward:
  "list_all viewable txs \<Longrightarrow> feeds r (transactions_data txs) \<Longrightarrow>
   \<exists>s. view_transactions H coinbase True (length txs) r = (tx_views H coinbase (drop (rpos r) (rbuf r)) txs, s) \<and>
     moved r (length (transactions_data txs)) s"
proof (induction txs arbitrary: r coinbase)
  case Nil
  then show ?case by (auto simp: moved_refl feeds_def)
next
  case (Cons t txs)
  have f: "feeds r (transaction_to_data t True @ transactions_data txs)" using Cons.prems(2) by simp
  obtain s where s: "view_transaction H coinbase True r = (tx_view_of H coinbase t (drop (rpos r) (rbuf r)), s)"
      "moved r (length (transaction_to_data t True)) s"
    using view_transaction_forward [OF _ feeds_appendD [OF f]] Cons.prems(1) by auto
  obtain u where u: "view_transactions H False True (length txs) s = (tx_views H False (drop (rpos s) (rbuf s)) txs, u)"
      "moved s (length (transactions_data txs)) u"
    using Cons.IH [OF _ feeds_moved [OF f s(2)]] Cons.prems(1) by auto
  have "drop (rpos s) (rbuf s) = drop (length (transaction_to_data t True)) (drop (rpos r) (rbuf r))"
    using s(2) by (simp add: moved_def add.commute)
  then show ?case using s u moved_trans [OF s(2) u(2)] by simp
qed

lemma view_transactions_sticky: "rgood (snd (view_transactions H coinbase True n r)) \<Longrightarrow> rgood r"
proof (induction n arbitrary: r coinbase)
  case (Suc n)
  then show ?case using view_transaction_sticky [of H coinbase r] by (simp add: case_prod_beta)
qed simp

lemma view_transactions_backward:
  "ready r \<Longrightarrow> view_transactions H coinbase True n r = (vs, s) \<Longrightarrow> rgood s \<Longrightarrow>
   \<exists>txs. length txs = n \<and> list_all viewable txs \<and> consumed r (transactions_data txs) s"
proof (induction n arbitrary: r coinbase vs)
  case 0
  then show ?case by (auto simp: consumed_refl)
next
  case (Suc n)
  obtain v u where v: "view_transaction H coinbase True r = (v, u)" by fastforce
  obtain ws where ws: "view_transactions H False True n u = (ws, s)"
    using Suc.prems(2) v by (auto split: prod.splits)
  have g: "rgood u" using view_transactions_sticky [of H False n u] ws Suc.prems(3) by simp
  obtain t where t: "viewable t" "consumed r (transaction_to_data t True) u"
    using view_transaction_backward [OF Suc.prems(1) v g] by blast
  obtain txs where "length txs = n" "list_all viewable txs" "consumed u (transactions_data txs) s"
    using Suc.IH [OF consumed_ready [OF t(2) g] ws Suc.prems(3)] by blast
  with t consumed_trans [OF t(2)] show ?case by (intro exI [of _ "t # txs"]) simp
qed

text \<open>Transactions in a buffer that fits a block have small scripts.\<close>

lemma small_parts:
  assumes "length (transaction_to_data t True) \<le> max_bytes"
  shows "list_all (\<lambda>i. view_small_script (in_script i)) (tx_inputs t)" "list_all (\<lambda>p. view_small_script (out_script p)) (tx_outputs t)"
proof -
  have part: "length (f x) \<le> length (concat (map f xs))" if "x \<in> set xs" for f :: "'c \<Rightarrow> data_chunk" and x xs
    using that by (induction xs) auto
  have b: "length (inputs_data t) \<le> max_bytes" "length (outputs_data t) \<le> max_bytes"
    using assms by (simp_all add: transaction_parts)
  have i: "length (script_to_data (in_script i) False) \<le> length (input_to_data i)" for i
    by (simp add: input_to_data_def script_to_data_prefix)
  have p: "length (script_to_data (out_script p) False) \<le> length (output_to_data p)" for p
    by (simp add: output_to_data_def script_to_data_prefix)
  have "view_small_script (in_script i)" if "i \<in> set (tx_inputs t)" for i
    using i [of i] part [OF that, of input_to_data] b(1) by (simp add: view_small_script_def)
  then show "list_all (\<lambda>i. view_small_script (in_script i)) (tx_inputs t)" by (simp add: list_all_iff)
  have "view_small_script (out_script q)" if "q \<in> set (tx_outputs t)" for q
    using p [of q] part [OF that, of output_to_data] b(2) by (simp add: view_small_script_def)
  then show "list_all (\<lambda>p. view_small_script (out_script p)) (tx_outputs t)" by (simp add: list_all_iff)
qed

lemma viewable_fits:
  assumes "length (transaction_to_data t True) \<le> max_bytes"
  shows "viewable t \<longleftrightarrow> transaction_ok t \<and> \<not> is_empty t"
  using small_parts [OF assms] by (auto simp: viewable_def is_empty_def)

lemma viewable_fit_all:
  assumes "length (transactions_data txs) \<le> max_bytes"
  shows "list_all viewable txs \<longleftrightarrow> list_all transaction_ok txs \<and> list_all (\<lambda>t. \<not> is_empty t) txs"
proof -
  have "length (transaction_to_data t True) \<le> max_bytes" if "t \<in> set txs" for t
    using assms that by (induction txs) auto
  then show ?thesis using viewable_fits by (auto simp: list_all_iff)
qed

section \<open>Blocks\<close>

text \<open>The view of the bytes of a block.\<close>

lemma view_block_forward:
  assumes "block_ok b" "list_all viewable (blk_txs b)" "length (block_to_data b True @ rest) \<le> max_size_t"
  shows "view_block H (block_to_data b True @ rest) True = \<lparr>bv_witness = True, bv_buffer = block_to_data b True @ rest,
    bv_txs = tx_views H True (transactions_data (blk_txs b) @ rest) (blk_txs b), bv_inputs = None, bv_prevouts = []\<rparr>"
proof -
  let ?r = "reader_of (block_to_data b True @ rest)" and ?n = "length (blk_txs b)"
  have ok: "header_ok (blk_header b)" "?n \<le> max_count" using assms(1) by (simp_all add: block_ok_def puts_ok_def)
  have "feeds ?r (header_to_data (blk_header b) @ write_variable ?n @ transactions_data (blk_txs b))"
    using feeds_prefix [OF feeds_reader_of [OF assms(3)]] by (simp add: block_to_data_def)
  note h = skip_bytes_then [OF this header_to_data_size [OF ok(1)]]
  obtain s where s: "read_size max_count (skip_bytes header_serialized_size ?r) = (?n, s)"
      "moved (skip_bytes header_serialized_size ?r) (variable_size ?n) s" "feeds s (transactions_data (blk_txs b))"
    using read_count_then [OF h(2) ok(2)] .
  obtain u where u: "view_transactions H True True ?n s = (tx_views H True (drop (rpos s) (rbuf s)) (blk_txs b), u)"
      "moved s (length (transactions_data (blk_txs b))) u"
    using view_transactions_forward [OF assms(2) s(3)] by blast
  have m: "moved ?r (header_serialized_size + variable_size ?n) s" by (rule moved_trans [OF h(1) s(2)])
  have "drop (rpos s) (rbuf s) = transactions_data (blk_txs b) @ rest"
    using m header_to_data_size [OF ok(1)]
    by (simp add: moved_def reader_of_def block_to_data_def size_simps)
  then show ?thesis using s(1) u moved_good [OF u(2)]
    by (cases "blk_txs b") (simp_all add: view_block_def)
qed

lemma tx_views_nonempty [simp]: "tx_views H coinbase data txs = [] \<longleftrightarrow> txs = []"
  by (cases txs) simp_all

lemma view_block_backward:
  assumes "bv_is_valid (view_block H bs True)" "length bs \<le> max_size_t"
  obtains b rest where "bs = block_to_data b True @ rest" "block_ok b" "blk_txs b \<noteq> []" "list_all viewable (blk_txs b)"
proof -
  let ?r = "reader_of bs"
  obtain n s where n: "read_size max_count (skip_bytes header_serialized_size ?r) = (n, s)" by fastforce
  obtain vs u where vs: "view_transactions H True True n s = (vs, u)" by fastforce
  have g: "n \<noteq> 0" "rgood u" using assms(1) n vs by (auto simp: bv_is_valid_def view_block_def split: if_splits)
  have gs: "rgood s" using view_transactions_sticky [of H True n s] vs g(2) by simp
  have gh: "rgood (skip_bytes header_serialized_size ?r)" using read_size_sticky n gs by (metis snd_conv)
  have rd: "ready ?r" by (simp add: ready_def reader_of_def)
  note h = skip_bytes_good [OF rd gh]
  note c = read_size_good [OF consumed_ready [OF h(1) gh] n gs]
  obtain txs where txs: "length txs = n" "list_all viewable txs" "consumed s (transactions_data txs) u"
    using view_transactions_backward [OF consumed_ready [OF c(1) gs] vs g(2)] by blast
  define hd where "hd = take header_serialized_size bs"
  have hs: "consumed ?r hd (skip_bytes header_serialized_size ?r)" "length hd = header_serialized_size"
    using h by (simp_all add: hd_def reader_of_def)
  obtain x where x: "header_ok x" "header_to_data x = hd"
  proof -
    let ?x = "\<lparr>hdr_version = word_of_nat (le_value (take 4 hd)), hdr_previous_block_hash = take 32 (drop 4 hd),
      hdr_merkle_root = take 32 (drop 36 hd), hdr_timestamp = word_of_nat (le_value (take 4 (drop 68 hd))),
      hdr_bits = word_of_nat (le_value (take 4 (drop 72 hd))), hdr_nonce = word_of_nat (le_value (take 4 (drop 76 hd))),
      hdr_valid = True\<rparr>"
    have l: "length hd = 80" using hs(2) by (simp add: header_serialized_size_def hash_size_def)
    have w: "write_little_endian 4 (unat (word_of_nat (le_value (take 4 (drop k hd))) :: u32)) = take 4 (drop k hd)" if "k \<le> 76" for k
      by (rule word_of_bytes) (use l that in simp_all)
    have "take 4 hd @ take 32 (drop 4 hd) @ take 32 (drop 36 hd) @ take 4 (drop 68 hd) @ take 4 (drop 72 hd) @ take 4 (drop 76 hd) = hd"
      using l take_add [of 4 32 hd] take_add [of 36 32 hd] take_add [of 68 4 hd] take_add [of 72 4 hd] take_add [of 76 4 hd]
      by simp
    then have "header_to_data ?x = hd" using w [of 0] w [of 68] w [of 72] w [of 76] by (simp add: header_to_data_def)
    moreover have "header_ok ?x" using l by (simp add: header_ok_def hash_size_def)
    ultimately show thesis using that by blast
  qed
  let ?b = "make_block x txs True"
  have "consumed ?r (block_to_data ?b True) u"
    using consumed_trans [OF hs(1) consumed_trans [OF c(1) txs(3)]] x(2) txs(1) by (simp add: block_to_data_def)
  then have "take (length (block_to_data ?b True)) bs = block_to_data ?b True" by (simp add: consumed_def reader_of_def)
  then have "bs = block_to_data ?b True @ drop (length (block_to_data ?b True)) bs" by (metis append_take_drop_id)
  moreover have "block_ok ?b" using x(1) txs c(3) by (auto simp: block_ok_def puts_ok_def list_all_iff viewable_def)
  ultimately show thesis using that txs g(1) by auto
qed
text \<open>
  C26. The view of a block is valid for exactly the buffers that \<open>block::from_data\<close> reads to a block of
  transactions, each with inputs and outputs: the skips of the view accept what the parser of the
  objects accepts, and nothing else.
\<close>

theorem view_block_valid_iff:
  assumes "length bs \<le> max_bytes"
  shows "bv_is_valid (view_block bitcoin_hash bs True) \<longleftrightarrow>
    (\<exists>b s. block_from_data (reader_of bs) True = (b, s) \<and> rgood s \<and> blk_txs b \<noteq> [] \<and>
       list_all (\<lambda>t. \<not> is_empty t) (blk_txs b))"
proof
  have room: "length bs \<le> max_size_t" using max_bytes_room [OF assms] by simp
  assume "bv_is_valid (view_block bitcoin_hash bs True)"
  then obtain b rest where b: "bs = block_to_data b True @ rest" "block_ok b" "blk_txs b \<noteq> []" "list_all viewable (blk_txs b)"
    using view_block_backward [OF _ room] by blast
  have "feeds (reader_of bs) (block_to_data b True)" using feeds_prefix feeds_reader_of [OF room] b(1) by metis
  from block_codec.dec_enc [OF b(2) this] obtain s where "block_from_data (reader_of bs) True = (b, s)" "rgood s"
    by (auto simp: moved_def)
  moreover have "list_all (\<lambda>t. \<not> is_empty t) (blk_txs b)" using b(4) by (auto simp: list_all_iff viewable_def is_empty_def)
  ultimately show "\<exists>b s. block_from_data (reader_of bs) True = (b, s) \<and> rgood s \<and> blk_txs b \<noteq> [] \<and>
       list_all (\<lambda>t. \<not> is_empty t) (blk_txs b)" using b(3) by blast
next
  assume "\<exists>b s. block_from_data (reader_of bs) True = (b, s) \<and> rgood s \<and> blk_txs b \<noteq> [] \<and>
       list_all (\<lambda>t. \<not> is_empty t) (blk_txs b)"
  then obtain b s where b: "block_from_data (reader_of bs) True = (b, s)" "rgood s" "blk_txs b \<noteq> []"
      "list_all (\<lambda>t. \<not> is_empty t) (blk_txs b)" by blast
  have "ready (reader_of bs)" by (simp add: ready_def reader_of_def)
  from block_codec.canonical [OF this b(1,2)] have ok: "block_ok b" "consumed (reader_of bs) (block_to_data b True) s" by simp_all
  then obtain rest where bs: "bs = block_to_data b True @ rest"
    by (metis append_take_drop_id consumed_def drop0 reader.select_convs(1,2) reader_of_def)
  then have "length (transactions_data (blk_txs b)) \<le> max_bytes" using assms by (simp add: block_to_data_def)
  then have "list_all viewable (blk_txs b)"
    using viewable_fit_all b(4) ok(1) by (simp add: block_ok_def puts_ok_def)
  from view_block_forward [OF ok(1) this, of rest bitcoin_hash] b(3) max_bytes_room [OF assms] bs
  show "bv_is_valid (view_block bitcoin_hash bs True)" by (simp add: bv_is_valid_def)
qed

section \<open>A block with a view\<close>

lemma coinbase_block_data: "block_to_data coinbase_block True = block_to_data coinbase_block False"
  by (simp add: block_to_data_def coinbase_block_def make_block_def tx_data_unsegregated example_coinbase_def make_transaction_def)

lemma coinbase_block_fits: "length (block_to_data coinbase_block True) \<le> max_bytes"
proof -
  have "length (block_to_data coinbase_block False) \<le> max_block_size"
    using coinbase_block_size coinbase_block_length block_size_length [OF coinbase_block_ok, of False] by simp
  then show ?thesis unfolding coinbase_block_data by (simp add: max_bytes_def max_block_weight_def max_block_size_def)
qed

lemma coinbase_block_viewable: "list_all viewable (blk_txs coinbase_block)" "blk_txs coinbase_block = [example_coinbase]"
proof -
  show b: "blk_txs coinbase_block = [example_coinbase]" by (simp add: coinbase_block_def make_block_def)
  then have "length (transactions_data (blk_txs coinbase_block)) \<le> max_bytes"
    using coinbase_block_fits by (simp add: block_to_data_def)
  from viewable_fit_all [OF this] show "list_all viewable (blk_txs coinbase_block)"
    using example_coinbase_ok by (simp add: b is_empty_def) (simp add: example_coinbase_def make_transaction_def)
qed

lemma coinbase_block_view: "bv_is_valid (view_block H (block_to_data coinbase_block True) True)"
  using view_block_forward [OF coinbase_block_ok coinbase_block_viewable(1), of "[]" H] max_bytes_room [OF coinbase_block_fits]
  by (simp add: bv_is_valid_def coinbase_block_viewable(2))

lemma coinbase_block_read:
  obtains s where "block_from_data (reader_of (block_to_data coinbase_block True)) True = (coinbase_block, s)" "rgood s"
    "rpos s = length (block_to_data coinbase_block True)"
proof -
  have "feeds (reader_of (block_to_data coinbase_block True)) (block_to_data coinbase_block True)"
    using max_bytes_room [OF coinbase_block_fits] by (intro feeds_reader_of) simp
  from block_codec.dec_enc [OF coinbase_block_ok this] that show thesis by (auto simp: moved_def reader_of_def)
qed

theorem view_block_valid_iff_witness:
  "\<exists>b s. block_from_data (reader_of (block_to_data coinbase_block True)) True = (b, s) \<and> rgood s \<and> blk_txs b \<noteq> []"
  using coinbase_block_view view_block_valid_iff [OF coinbase_block_fits, of "\<lambda>_. null_hash"] by blast

end
