(* ===== verification/ViewCheck.thy ===== *)
theory ViewCheck
  imports ViewExact
begin

text \<open>
  The properties of views against those of the objects that the same bytes hold: sizes, hashes,
  identity, and the checks of a block.
\<close>

section \<open>Properties of the view of a transaction\<close>

lemma word_of_le_bytes [simp]: "word_of_nat (le_value (le_bytes 4 (unat x))) = (x :: u32)"
proof -
  have "unat x < 256 ^ 4" using unsigned_less [of x] by simp
  then have "le_value (le_bytes 4 (unat x)) = unat x" by (rule le_value_le_bytes_id)
  then show ?thesis by simp
qed

text \<open>A view of a transaction, with or without its inputs.\<close>

definition viewed :: "(data_chunk \<Rightarrow> hash_digest) \<Rightarrow> bool \<Rightarrow> transaction \<Rightarrow> tx_view \<Rightarrow> bool" where
  "viewed H coinbase t v \<longleftrightarrow> viewable t \<and>
     (\<exists>rest ins. v = (tx_view_of H coinbase t (transaction_to_data t True @ rest))\<lparr>tv_inputs := ins\<rparr>)"

lemma viewedE:
  assumes "viewed H coinbase t v"
  obtains rest where "viewable t" "tx_inputs t \<noteq> []" "tv_data v = transaction_to_data t True @ rest"
    "tv_in_offset v = view_in_offset t" "tv_in_count v = length (tx_inputs t)"
    "tv_out_offset v = view_out_offset t" "tv_out_count v = length (tx_outputs t)"
    "tv_size v = length (transaction_to_data t True)" "tv_witnesses_size v = length (witness_part t)"
    "tv_segregated v = tx_segregated t" "tv_coinbase v = coinbase" "tv_txid v = H (transaction_to_data t False)"
    "tv_wtxid v = (if tx_segregated t \<and> \<not> coinbase then H (transaction_to_data t True) else null_hash)"
  using assms unfolding viewed_def viewable_def by (auto simp: tx_view_of_def)

lemma sentinels_length: "tx_inputs t \<noteq> [] \<Longrightarrow>
  length (sentinels t) = (if length (witness_part t) = 0 then 0 else sentinels_size)"
  using witness_part_nonempty [of t] by (auto simp: sentinels_def sentinels_size_def witness_part_def)

lemma view_sizes:
  assumes "viewed H coinbase t v"
  shows "tv_stripped_size v = length (transaction_to_data t False)"
    "tv_serialized_size v w = length (transaction_to_data t w)"
proof -
  obtain rest where v: "tx_inputs t \<noteq> []" "tv_size v = length (transaction_to_data t True)"
      "tv_witnesses_size v = length (witness_part t)" "tv_segregated v = tx_segregated t"
    using assms by (rule viewedE)
  show s: "tv_stripped_size v = length (transaction_to_data t False)"
    using v(2,3) sentinels_length [OF v(1)] by (auto simp: tv_stripped_size_def transaction_parts)
  show "tv_serialized_size v w = length (transaction_to_data t w)"
    using s v(2,4) tx_data_unsegregated [of t] by (cases w) (auto simp: tv_serialized_size_def)
qed

lemma view_to_data:
  assumes "viewed H coinbase t v"
  shows "tv_to_data v w = transaction_to_data t w"
proof -
  obtain rest where v: "tx_inputs t \<noteq> []" "tv_data v = transaction_to_data t True @ rest"
      "tv_size v = length (transaction_to_data t True)"
      "tv_witnesses_size v = length (witness_part t)" "tv_segregated v = tx_segregated t"
    using assms by (rule viewedE)
  have l: "length (write_little_endian 4 (unat (tx_version t))) = 4" "length (write_little_endian 4 (unat (tx_locktime t))) = 4"
    by (simp_all add: write_little_endian_def)
  have "tv_to_data v False = transaction_to_data t False"
    using v(2-4) l sentinels_length [OF v(1)]
    by (simp add: tv_to_data_def version_size_def locktime_size_def transaction_parts Let_def)
  then show ?thesis using v tx_data_unsegregated [of t] by (cases w) (auto simp: tv_to_data_def)
qed

lemma view_hash:
  assumes "viewed H coinbase t v"
  shows "tv_hash v False = transaction_hash H t False"
    "coinbase = tx_is_coinbase t \<Longrightarrow> tv_hash v True = transaction_hash H t True"
  using assms tx_data_unsegregated [of t] by (auto elim!: viewedE simp: tv_hash_def transaction_hash_def)

lemma view_parts:
  assumes "viewed H coinbase t v"
  obtains rest where "at_inputs v = inputs_data t @ write_variable (length (tx_outputs t)) @ outputs_data t @
      witness_part t @ rest"
    "at_outputs v = outputs_data t @ witness_part t @ rest" "at_witnesses v = witness_part t @ rest"
    "get_inputs_stream v = reader_of (inputs_data t @ write_variable (length (tx_outputs t)) @ outputs_data t)"
    "get_outputs_stream v = reader_of (outputs_data t)" "get_witnesses_stream v = reader_of (witness_part t)"
    "tv_version v = tx_version t" "tv_locktime v = tx_locktime t"
proof -
  obtain rest where v: "tv_data v = transaction_to_data t True @ rest"
      "tv_in_offset v = view_in_offset t" "tv_out_offset v = view_out_offset t"
      "tv_size v = length (transaction_to_data t True)" "tv_witnesses_size v = length (witness_part t)"
    using assms by (rule viewedE)
  let ?V = "write_little_endian 4 (unat (tx_version t))" and ?L = "write_little_endian 4 (unat (tx_locktime t))"
  have l: "length ?V = 4" "length ?L = 4" by (simp_all add: write_little_endian_def)
  have o: "view_in_offset t = length (?V @ sentinels t @ write_variable (length (tx_inputs t)))"
    "view_out_offset t = length (?V @ sentinels t @ write_variable (length (tx_inputs t)) @ inputs_data t @
       write_variable (length (tx_outputs t)))"
    using l by (simp_all add: view_in_offset_def view_out_offset_def size_simps)
  have i: "at_inputs v = inputs_data t @ write_variable (length (tx_outputs t)) @ outputs_data t @ witness_part t @ ?L @ rest"
    unfolding at_inputs_def v(1,2) o transaction_parts by simp
  have p: "at_outputs v = outputs_data t @ witness_part t @ ?L @ rest"
    unfolding at_outputs_def v(1,3) o transaction_parts by simp
  have w: "at_witnesses v = witness_part t @ ?L @ rest"
    unfolding at_witnesses_def v(1,4,5) transaction_parts locktime_size_def using l by simp
  have n: "inputs_size v = length (inputs_data t @ write_variable (length (tx_outputs t)) @ outputs_data t)"
    "outputs_size v = length (outputs_data t)"
    unfolding inputs_size_def outputs_size_def v(2-5) o transaction_parts locktime_size_def using l by simp_all
  have "tv_version v = tx_version t" "tv_locktime v = tx_locktime t"
    unfolding tv_version_def tv_locktime_def v(1,4) transaction_parts locktime_size_def
    using l by (simp_all add: write_little_endian_def)
  with i p w n v(5) show thesis
    by (intro that [of "?L @ rest"]) (simp_all add: get_inputs_stream_def get_outputs_stream_def get_witnesses_stream_def)
qed

lemma point_bytes:
  assumes "point_ok p"
  shows "take hash_size (point_to_data p @ bs) = point_hash p"
    "word_of_nat (le_value (take 4 (drop hash_size (point_to_data p @ bs)))) = point_index p"
  using assms by (simp_all add: point_ok_def point_to_data_def write_little_endian_def)

lemma view_null_point:
  assumes "viewed H coinbase t v"
  shows "tv_is_null_point v \<longleftrightarrow> is_null (in_point (hd (tx_inputs t)))"
proof -
  obtain rest where a: "at_inputs v = inputs_data t @ write_variable (length (tx_outputs t)) @ outputs_data t @
      witness_part t @ rest"
    using assms by (rule view_parts)
  obtain i ins where i: "tx_inputs t = i # ins" using assms by (metis viewedE list.exhaust)
  have ok: "point_ok (in_point i)" using assms i by (auto simp: viewed_def viewable_def transaction_ok_def tx_input_ok_def)
  obtain bs where b: "at_inputs v = point_to_data (in_point i) @ bs" using a i by (simp add: input_to_data_def)
  show ?thesis unfolding tv_is_null_point_def b point_bytes [OF ok] is_null_def i by auto
qed

lemma view_is_coinbase:
  assumes "viewed H coinbase t v"
  shows "bv_is_coinbase v \<longleftrightarrow> tx_is_coinbase t"
  using view_null_point [OF assms] assms by (auto elim: viewedE simp: bv_is_coinbase_def tx_is_coinbase_def)

section \<open>Properties of the view of a block\<close>

definition block_viewed :: "(data_chunk \<Rightarrow> hash_digest) \<Rightarrow> chain_block \<Rightarrow> block_view \<Rightarrow> bool" where
  "block_viewed H b v \<longleftrightarrow> block_ok b \<and> (\<exists>rest. bv_buffer v = block_to_data b True @ rest) \<and> bv_witness v \<and>
     (\<exists>t ts x xs. blk_txs b = t # ts \<and> bv_txs v = x # xs \<and> viewed H True t x \<and> list_all2 (viewed H False) ts xs)"

lemma tx_views_viewed:
  "list_all viewable txs \<Longrightarrow> list_all2 (viewed H False) txs (tx_views H False (transactions_data txs @ rest) txs)"
proof (induction txs)
  case (Cons t txs)
  have "viewed H False t (tx_view_of H False t (transaction_to_data t True @ transactions_data txs @ rest))"
    using Cons.prems unfolding viewed_def by (auto intro!: exI [of _ "transactions_data txs @ rest"] exI [of _ None] simp: tx_view_of_def)
  then show ?case using Cons by simp
qed simp

lemma view_block_viewed:
  assumes "block_ok b" "list_all viewable (blk_txs b)" "blk_txs b \<noteq> []" "length (block_to_data b True @ rest) \<le> max_size_t"
  shows "block_viewed H b (view_block H (block_to_data b True @ rest) True)"
proof -
  obtain t ts where t: "blk_txs b = t # ts" using assms(3) by (cases "blk_txs b") auto
  have "viewed H True t (tx_view_of H True t (transaction_to_data t True @ transactions_data ts @ rest))"
    using assms(2) t unfolding viewed_def
    by (auto intro!: exI [of _ "transactions_data ts @ rest"] exI [of _ None] simp: tx_view_of_def)
  then show ?thesis
    using view_block_forward [OF assms(1,2,4)] tx_views_viewed [of ts H rest] assms(1,2) t
    by (simp add: block_viewed_def)
qed

lemma viewed_all:
  assumes "block_viewed H b v"
  shows "list_all2 (\<lambda>t x. \<exists>coinbase. viewed H coinbase t x) (blk_txs b) (bv_txs v)"
  using assms by (auto simp: block_viewed_def elim!: list_all2_mono)

lemma view_hashes:
  assumes "block_viewed H b v"
  shows "bv_transaction_hashes v False = transaction_hashes H b False"
  using viewed_all [OF assms] unfolding bv_transaction_hashes_def transaction_hashes_def
  by (induction rule: list_all2_induct) (auto simp: view_hash(1))

lemma view_header:
  assumes "block_viewed H b v"
  shows "take header_serialized_size (bv_buffer v) = header_to_data (blk_header b)"
    "header_merkle_root v = hdr_merkle_root (blk_header b)"
proof -
  obtain rest where r: "bv_buffer v = header_to_data (blk_header b) @ rest" and ok: "header_ok (blk_header b)"
    using assms by (auto simp: block_viewed_def block_to_data_def block_ok_def)
  show "take header_serialized_size (bv_buffer v) = header_to_data (blk_header b)"
    using header_to_data_size [OF ok] r by simp
  show "header_merkle_root v = hdr_merkle_root (blk_header b)"
    using ok r by (simp add: header_merkle_root_def header_to_data_def header_ok_def write_little_endian_def hash_size_def)
qed

lemma view_block_of_bytes:
  assumes "bv_is_valid (view_block H bs True)" "length bs \<le> max_bytes"
  obtains b s where "block_from_data (reader_of bs) True = (b, s)" "rgood s" "block_viewed H b (view_block H bs True)"
    "\<exists>rest. bs = block_to_data b True @ rest"
proof -
  have room: "length bs \<le> max_size_t" using max_bytes_room [OF assms(2)] by simp
  obtain b rest where b: "bs = block_to_data b True @ rest" "block_ok b" "blk_txs b \<noteq> []" "list_all viewable (blk_txs b)"
    using view_block_backward [OF assms(1) room] .
  have "feeds (reader_of bs) (block_to_data b True)" using feeds_prefix feeds_reader_of [OF room] b(1) by metis
  from block_codec.dec_enc [OF b(2) this] obtain s where "block_from_data (reader_of bs) True = (b, s)" "rgood s"
    by (auto simp: moved_def)
  with view_block_viewed [OF b(2,4,3), of rest H] b(1) room that show thesis by blast
qed

subsection \<open>Malleation\<close>

lemma find_width_cong:
  "(\<And>k. 2 ^ k \<le> limit \<Longrightarrow> f (2 ^ k) = g (2 ^ k)) \<Longrightarrow> find_width f limit (2 ^ j) = find_width g limit (2 ^ j)"
proof (induction "Suc limit - 2 ^ j" arbitrary: j rule: less_induct)
  case less
  show ?case
  proof (cases "limit < 2 ^ j")
    case True
    then show ?thesis by (simp add: find_width.simps)
  next
    case False
    then have "2 ^ j < Suc limit" "(2 ^ j :: nat) < 2 ^ Suc j" by simp_all
    then have "Suc limit - 2 ^ Suc j < Suc limit - 2 ^ j" by (rule diff_less_mono2 [rotated])
    from less.hyps [OF this less.prems] have "find_width f limit (2 ^ j * 2) = find_width g limit (2 ^ j * 2)"
      by (simp add: mult.commute)
    then show ?thesis using False less.prems [of j] by (subst (1 2) find_width.simps) simp
  qed
qed

lemma view_malleated32:
  assumes "block_viewed H b v"
  shows "bv_malleated32_size v = malleated32_size (transaction_hashes H b False)"
proof -
  have h: "transaction_hashes H b False = map (\<lambda>t. tv_hash t False) (bv_txs v)"
    using view_hashes [OF assms] by (simp add: bv_transaction_hashes_def)
  have "bv_is_malleated32_width v (2 ^ k) = is_malleated32_width (transaction_hashes H b False) (2 ^ k)"
    if k: "2 ^ k \<le> length (bv_txs v) div 2" for k
  proof -
    let ?w = "2 ^ k :: nat" and ?n = "length (bv_txs v)"
    let ?last = "(ceilinged_divide ?n ?w - 1) * ?w"
    have p: "is_power2 ?w" by simp
    have "?last + merkle_index at (?n - ?last) ?w < ?n \<and> ?last - ?w + at < ?n" if a: "at < ?w" "ceilinged_divide ?n ?w > 2" for at
    proof -
      have d: "ceilinged_divide ?n ?w = nodes ?n ?w" by (rule ceilinged_divide_nodes) simp
      obtain c where c: "nodes ?n ?w = Suc c" "2 \<le> c" using a(2) d by (cases "nodes ?n ?w") auto
      have "0 < ?n" using c nodes_pos [of ?w ?n] by simp
      then have n: "?last < ?n" "?n \<le> ?last + ?w"
        using nodes_bounds [of ?w ?n] by (simp_all add: d c(1) add.commute)
      moreover have "?w \<le> ?last" using c(2) by (simp add: d c(1))
      moreover have "merkle_index at (?n - ?last) ?w < ?n - ?last"
        by (rule merkle_index_less [OF a(1)]) (use n in linarith)+
      ultimately show ?thesis using a(1) by linarith
    qed
    then have "list_all (\<lambda>at. tv_hash (bv_txs v ! (?last + merkle_index at (?n - ?last) ?w)) False =
          tv_hash (bv_txs v ! (?last - ?w + at)) False) [0..<?w] \<longleftrightarrow>
        list_all (\<lambda>at. map (\<lambda>t. tv_hash t False) (bv_txs v) ! (?last + merkle_index at (?n - ?last) ?w) =
          map (\<lambda>t. tv_hash t False) (bv_txs v) ! (?last - ?w + at)) [0..<?w]"
      if "ceilinged_divide ?n ?w > 2"
      using that by (intro list.pred_cong) (auto simp del: power_strict_increasing_iff)
    then show ?thesis
      using k p by (auto simp only: bv_is_malleated32_width_def is_malleated32_width_def h Let_def length_map not_le if_True if_False split: if_split)
  qed
  then have "find_width (bv_is_malleated32_width v) (length (bv_txs v) div 2) (2 ^ 0) =
      find_width (is_malleated32_width (transaction_hashes H b False)) (length (bv_txs v) div 2) (2 ^ 0)"
    by (rule find_width_cong)
  then show ?thesis by (simp add: bv_malleated32_size_def malleated32_size_def h)
qed

lemma size_of_two_inputs:
  assumes "viewable t" "length (transaction_to_data t False) = 2 * hash_size"
  shows "length (tx_inputs t) = 1"
proof -
  have i: "41 \<le> length (input_to_data i)" if "i \<in> set (tx_inputs t)" for i
  proof -
    have "point_ok (in_point i)" using assms(1) that by (auto simp: viewable_def transaction_ok_def tx_input_ok_def list_all_iff)
    then show ?thesis
      by (simp add: input_to_data_def point_to_data_def point_ok_def hash_size_def write_little_endian_def script_to_data_prefix size_simps variable_size_def)
  qed
  have "length (inputs_data t) \<le> 56"
    using assms(2) by (simp add: transaction_parts hash_size_def write_little_endian_def)
  moreover have "tx_inputs t \<noteq> []" using assms(1) by (simp add: viewable_def)
  moreover have "length (inputs_data t) \<ge> 82" if "tx_inputs t = x # y # ins" for x y ins
    using i [of x] i [of y] that by simp
  ultimately show ?thesis by (cases "tx_inputs t" rule: remdups_adj.cases) fastforce+
qed

lemma view_size64:
  assumes "viewed H coinbase t x"
  shows "tv_serialized_size x False = 2 * hash_size \<longleftrightarrow> transaction_serialized_size t False = 2 * hash_size"
proof -
  have "transaction_ok t" using assms by (auto elim: viewedE simp: viewable_def)
  from transaction_size_length [OF this, of False] view_sizes(2) [OF assms, of False] show ?thesis
    by (auto simp: min_def hash_size_def limits)
qed

lemma view_malleated64:
  assumes "block_viewed H b v"
  shows "bv_is_malleated64 v \<longleftrightarrow> is_malleated64 b"
proof -
  obtain t ts x xs where s: "blk_txs b = t # ts" "bv_txs v = x # xs" "viewed H True t x" "list_all2 (viewed H False) ts xs"
    using assms by (auto simp: block_viewed_def)
  have "list_all (\<lambda>x. tv_serialized_size x False = 2 * hash_size) xs \<longleftrightarrow>
      list_all (\<lambda>t. transaction_serialized_size t False = 2 * hash_size) ts"
    using s(4) by (induction rule: list_all2_induct) (simp_all add: view_size64)
  moreover have "tv_is_null_point x \<longleftrightarrow> tx_is_coinbase t" if "tv_serialized_size x False = 2 * hash_size"
  proof -
    have "length (transaction_to_data t False) = 2 * hash_size" "viewable t"
      using that view_sizes(2) [OF s(3)] s(3) by (auto elim: viewedE)
    then show ?thesis using size_of_two_inputs view_null_point [OF s(3)] by (simp add: tx_is_coinbase_def)
  qed
  ultimately show ?thesis
    using s(1,2) view_size64 [OF s(3)] by (auto simp: bv_is_malleated64_def is_malleated64_def bv_is_malleable64_def is_malleable64_def)
qed

lemma view_malleated:
  assumes "block_viewed H b v"
  shows "bv_is_malleated v \<longleftrightarrow> is_malleated H b" "bv_malleated_or v ec = malleated_or H b ec"
  using view_malleated32 [OF assms] view_malleated64 [OF assms]
  by (simp_all add: bv_is_malleated_def is_malleated_def bv_malleated_or_def malleated_or_def)

text \<open>
  The identity of a block view is that of the block: for every buffer that fits a block and whose
  view is valid, \<open>identify\<close> of the view returns the code of \<open>identify\<close> of the block that the parser
  of the objects reads from the same bytes, and the transaction hashes are the same.
\<close>

lemma view_identify_exact:
  assumes "bv_is_valid (view_block bitcoin_hash bs True)" "length bs \<le> max_bytes"
    and "block_from_data (reader_of bs) True = (b, s)"
  shows "bv_identify bitcoin_hash (view_block bitcoin_hash bs True) = identify bitcoin_hash b \<and>
    bv_transaction_hashes (view_block bitcoin_hash bs True) False = transaction_hashes bitcoin_hash b False"
proof (rule conjI)
  have v: "block_viewed bitcoin_hash b (view_block bitcoin_hash bs True)"
    using view_block_of_bytes [OF assms(1,2)] assms(3) by (metis fst_conv)
  show h: "bv_transaction_hashes (view_block bitcoin_hash bs True) False = transaction_hashes bitcoin_hash b False"
    by (rule view_hashes [OF v])
  have m: "malleated32_size (transaction_hashes bitcoin_hash b False) \<noteq> 0 \<longleftrightarrow>
      is_malleated32 (transaction_hashes bitcoin_hash b False)"
    using find_width_Some by (fastforce simp: malleated32_size_def is_malleated32_def split: option.splits)
  show "bv_identify bitcoin_hash (view_block bitcoin_hash bs True) = identify bitcoin_hash b"
    using view_malleated(1) [OF v] view_header(2) [OF v] h m assms(1)
    by (auto simp: bv_identify_def identify_def bv_is_valid_def is_malleated_def
        bv_is_invalid_merkle_root_def bv_generate_merkle_root_def)
qed

end
