(* ===== verification/ViewInputs.thy ===== *)
theory ViewInputs
  imports ViewCheck
begin

text \<open>
  Input views: what \<open>populate_inputs\<close> finds in a transaction, and the checks of a populated block
  against the checks of the block.
\<close>

section \<open>The view of an input\<close>

lemma max_bytes_max_size: "max_bytes \<le> max_size_t"
  using max_bytes_room [of max_bytes] by simp

lemma unsafe_variable_write [simp]:
  assumes "n \<le> max_uint64"
  shows "unsafe_variable (write_variable n @ bs) = Some (n, bs)"
proof -
  consider "n < 253" | "253 \<le> n" "n \<le> max_uint16" | "max_uint16 < n" "n \<le> max_uint32" | "max_uint32 < n"
    by linarith
  then show ?thesis
  proof cases
    case 1
    then have s: "unat (word_of_nat n :: byte) = n" by (simp add: unat_of_nat)
    have big: "(word_of_nat n :: byte) \<noteq> b" if "253 \<le> unat b" for b :: byte
      using 1 s that by auto
    have "(word_of_nat n :: byte) \<noteq> 0xff" "(word_of_nat n :: byte) \<noteq> 0xfe" "(word_of_nat n :: byte) \<noteq> 0xfd"
      by (rule big, simp)+
    then show ?thesis using 1 s by (simp add: unsafe_variable_def write_variable_def write_byte_def varint_simps)
  qed (use assms in \<open>simp_all add: unsafe_variable_def write_variable_def unsafe_little_endian_def varint_simps
      write_little_endian_def write_byte_def le_value_le_bytes_id limits\<close>)
qed

definition input_viewed :: "bool \<Rightarrow> chain_input \<Rightarrow> input_view \<Rightarrow> bool" where
  "input_viewed seg i v \<longleftrightarrow> tx_input_ok seg i \<and> view_small_script (in_script i) \<and>
     (\<exists>x. iv_data v = input_to_data i @ x \<and>
        iv_script_ptr v = script_to_data (in_script i) False @ write_little_endian 4 (unat (in_sequence i)) @ x) \<and>
     iv_size v = length (script_to_data (in_script i) False) \<and>
     (if seg then (\<exists>y. iv_witness_ptr v = Some (witness_to_data (in_witness i) True @ y)) \<and>
        iv_witness_size v = length (witness_to_data (in_witness i) True)
      else iv_witness_ptr v = None) \<and> iv_prevout v = None"

lemma input_view_of_data:
  assumes "tx_input_ok seg i" "view_small_script (in_script i)"
  shows "input_view_of (input_to_data i @ x) w n = Some \<lparr>iv_data = input_to_data i @ x,
    iv_script_ptr = script_to_data (in_script i) False @ write_little_endian 4 (unat (in_sequence i)) @ x,
    iv_size = length (script_to_data (in_script i) False), iv_witness_ptr = w, iv_witness_size = n, iv_prevout = None\<rparr>"
proof -
  have p: "length (point_to_data (in_point i)) = point_serialized_size" and wf: "script_wf (in_script i)"
    using assms(1) by (simp_all add: tx_input_ok_def point_ok_def point_to_data_def point_serialized_size_def write_little_endian_def)
  have l: "length (script_to_data (in_script i) False) \<le> max_uint64"
    using assms(2) max_bytes_uint64 by (simp add: view_small_script_def)
  have "drop point_serialized_size (input_to_data i @ x) = write_variable (length (script_to_data (in_script i) False)) @
      script_to_data (in_script i) False @ write_little_endian 4 (unat (in_sequence i)) @ x"
    using p script_of_bytes_id(3) [OF wf assms(2)] by (simp add: input_to_data_def)
  then show ?thesis using l by (simp add: input_view_of_def)
qed

lemma input_view_reads:
  assumes "input_viewed seg i v"
  shows "iv_point_hash v = point_hash (in_point i)" "iv_point_index v = point_index (in_point i)"
    "iv_is_null_point v \<longleftrightarrow> is_null (in_point i)" "iv_sequence v = in_sequence i" "iv_is_final v \<longleftrightarrow> input_is_final i"
    "iv_script v = in_script i" "iv_size v = script_serialized_size (in_script i) False"
proof -
  have ok: "point_ok (in_point i)" "script_wf (in_script i)" "view_small_script (in_script i)"
    using assms by (simp_all add: input_viewed_def tx_input_ok_def)
  obtain x where x: "iv_data v = point_to_data (in_point i) @ x"
    using assms by (auto simp: input_viewed_def input_to_data_def)
  show h: "iv_point_hash v = point_hash (in_point i)" and n: "iv_point_index v = point_index (in_point i)"
    using point_bytes [OF ok(1)] x by (simp_all add: iv_point_hash_def iv_point_index_def del: drop_append take_append)
  then show "iv_is_null_point v \<longleftrightarrow> is_null (in_point i)" by (auto simp: iv_is_null_point_def is_null_def)
  show q: "iv_sequence v = in_sequence i"
    using assms by (auto simp: input_viewed_def iv_sequence_def write_little_endian_def)
  then show "iv_is_final v \<longleftrightarrow> input_is_final i" by (simp add: iv_is_final_def input_is_final_def)
  show "iv_script v = in_script i"
    using assms script_of_bytes_id(1) [OF ok(2,3)] by (auto simp: input_viewed_def iv_script_def iv_script_data_def)
  show "iv_size v = script_serialized_size (in_script i) False"
    using assms script_of_bytes_id(2) [OF ok(2,3)] by (simp add: input_viewed_def)
qed

section \<open>Population\<close>

lemma sum_elements_exact:
  "list_all (\<lambda>e. length e \<le> max_bytes) es \<Longrightarrow> feeds r (concat (map write_element es)) \<Longrightarrow>
   \<exists>s. sum_elements (length es) acc r = (acc + length (concat (map write_element es)), s) \<and>
     moved r (length (concat (map write_element es))) s"
proof (induction es arbitrary: r acc)
  case Nil
  then show ?case by (auto simp: moved_refl feeds_def)
next
  case (Cons e es)
  let ?n = "length e"
  have l: "?n \<le> max_size_t" "?n \<le> max_uint64"
    using Cons.prems(1) max_bytes_max_size max_bytes_uint64 by (auto intro: order.trans)
  have f: "feeds r (write_variable ?n @ e @ concat (map write_element es))"
    using Cons.prems(2) by (simp add: write_element_def [of e])
  obtain s where s: "read_size max_size_t r = (?n, s)" "moved r (variable_size ?n) s" "feeds s (e @ concat (map write_element es))"
    using read_size_then [OF f l] .
  note k = skip_bytes_then [OF s(3) refl]
  have "list_all (\<lambda>e. length e \<le> max_bytes) es" using Cons.prems(1) by simp
  from Cons.IH [OF this k(2), of "acc + (variable_size ?n + ?n)"]
  obtain t where t: "sum_elements (length es) (acc + (variable_size ?n + ?n)) (skip_bytes ?n s) =
      (acc + (variable_size ?n + ?n) + length (concat (map write_element es)), t)"
      "moved (skip_bytes ?n s) (length (concat (map write_element es))) t" by blast
  have "moved r (length (concat (map write_element (e # es)))) t"
    using moved_trans [OF s(2) moved_trans [OF k(1) t(2)]] by (simp add: write_element_def [of e] size_simps add.assoc)
  with s(1) t(1) show ?case by (simp add: write_element_def [of e] size_simps add.assoc)
qed

lemma read_witness_size_exact:
  assumes "witness_ok w" "feeds r (witness_to_data w True @ rest)"
  shows "\<exists>s. read_witness_size r = (length (witness_to_data w True), s) \<and> moved r (length (witness_to_data w True)) s"
proof -
  let ?n = "length (wit_stack w)"
  have l: "?n \<le> max_size_t" "?n \<le> max_uint64" and e: "list_all (\<lambda>e. length e \<le> max_bytes) (wit_stack w)"
    using assms(1) max_bytes_max_size max_bytes_uint64 by (auto simp: witness_ok_def intro: order.trans)
  have "feeds r (write_variable ?n @ concat (map write_element (wit_stack w)))"
    using feeds_appendD [OF assms(2)] by (simp add: witness_to_data_def)
  from read_size_then [OF this l] obtain s where s: "read_size max_size_t r = (?n, s)" "moved r (variable_size ?n) s"
      "feeds s (concat (map write_element (wit_stack w)))" .
  from sum_elements_exact [OF e s(3), of "variable_size ?n"] obtain t where
    "sum_elements ?n (variable_size ?n) s = (variable_size ?n + length (concat (map write_element (wit_stack w))), t)"
    "moved s (length (concat (map write_element (wit_stack w)))) t" by blast
  with moved_trans [OF s(2)] s(1) show ?thesis
    by (auto simp: read_witness_size_def witness_to_data_def size_simps)
qed

lemma drop_moved:
  assumes "drop (rpos r) bs = a @ b" "moved r (length a) s"
  shows "drop (rpos s) bs = b"
proof -
  have "drop (rpos s) bs = drop (length a) (drop (rpos r) bs)" using assms(2) by (simp add: moved_def add.commute)
  then show ?thesis using assms(1) by simp
qed

text \<open>The walk over the inputs, with the position of the witnesses beside it.\<close>

lemma input_views_exact:
  "list_all (\<lambda>i. tx_input_ok seg i \<and> view_small_script (in_script i)) ins \<Longrightarrow> feeds r (concat (map input_to_data ins)) \<Longrightarrow>
   drop (rpos r) inputs = concat (map input_to_data ins) @ x \<Longrightarrow>
   (seg \<Longrightarrow> feeds w (witnesses_data ins) \<and> drop (rpos w) witnesses = witnesses_data ins @ y) \<Longrightarrow>
   \<exists>vs. input_views (length ins) inputs witnesses seg r w = Some vs \<and> list_all2 (input_viewed seg) ins vs"
proof (induction ins arbitrary: r w)
  case (Cons i ins)
  let ?b = "length (script_to_data (in_script i) False)" and ?W = "witness_to_data (in_witness i) True"
  have ok: "tx_input_ok seg i" "view_small_script (in_script i)" and oks: "list_all (\<lambda>i. tx_input_ok seg i \<and> view_small_script (in_script i)) ins"
    using Cons.prems(1) by simp_all
  have f: "feeds r (input_to_data i @ concat (map input_to_data ins))" using Cons.prems(2) by simp
  have "feeds r (input_to_data (plain i))" using feeds_appendD [OF f] by simp
  then obtain s where s: "read_size max_size_t (skip_bytes point_serialized_size r) = (?b, s)"
      "moved r (length (input_to_data i)) (skip_bytes (?b + sequence_size) s)"
    using input_steps [OF plain_ok [OF ok(1)], of r max_size_t] ok(2) max_bytes_max_size by auto
  let ?r = "skip_bytes (?b + sequence_size) s"
  have r: "feeds ?r (concat (map input_to_data ins))" by (rule feeds_moved [OF f s(2)])
  have dr: "drop (rpos ?r) inputs = concat (map input_to_data ins) @ x"
    by (rule drop_moved [OF _ s(2)]) (use Cons.prems(3) in simp)
  have d: "drop (rpos r) inputs = input_to_data i @ concat (map input_to_data ins) @ x" using Cons.prems(3) by simp
  note v = input_view_of_data [OF ok]
  show ?case
  proof (cases seg)
    case True
    have fw: "feeds w (?W @ witnesses_data ins)" and dw: "drop (rpos w) witnesses = ?W @ witnesses_data ins @ y"
      using Cons.prems(4) True by simp_all
    have "witness_ok (in_witness i)" using ok(1) True by (simp add: tx_input_ok_def)
    from read_witness_size_exact [OF this fw] obtain u where u: "read_witness_size w = (length ?W, u)" "moved w (length ?W) u" by blast
    have "drop (rpos u) witnesses = witnesses_data ins @ y"
      by (rule drop_moved [OF dw u(2)])
    with Cons.IH [OF oks r dr, of u] feeds_moved [OF fw u(2)] obtain vs where
      "input_views (length ins) inputs witnesses seg ?r u = Some vs" "list_all2 (input_viewed seg) ins vs" by blast
    then show ?thesis
      using True s(1) u(1) ok by (simp add: get_read_position_def d dw v input_viewed_def [of _ i])
  next
    case False
    with Cons.IH [OF oks r dr, of w] obtain vs where
      "input_views (length ins) inputs witnesses seg ?r w = Some vs" "list_all2 (input_viewed seg) ins vs" by blast
    then show ?thesis using False s(1) ok by (simp add: get_read_position_def d v input_viewed_def [of _ i])
  qed
qed simp

definition view_populated :: "(data_chunk \<Rightarrow> hash_digest) \<Rightarrow> bool \<Rightarrow> transaction \<Rightarrow> tx_view \<Rightarrow> bool" where
  "view_populated H coinbase t v \<longleftrightarrow> viewed H coinbase t v \<and> list_all2 (input_viewed (tx_segregated t)) (tx_inputs t) (populated_inputs v)"

lemma viewed_inputs: "viewed H coinbase t v \<Longrightarrow> viewed H coinbase t (v\<lparr>tv_inputs := Some vs\<rparr>)"
  unfolding viewed_def by (elim conjE exE, intro conjI exI, assumption) simp

lemma set_inputs_exact:
  assumes "viewed H coinbase t v" "length (transaction_to_data t True) \<le> max_size_t"
  shows "\<exists>v'. set_inputs v = Some v' \<and> view_populated H coinbase t v'"
proof -
  obtain rest where p: "at_inputs v = inputs_data t @ write_variable (length (tx_outputs t)) @ outputs_data t @ witness_part t @ rest"
      "at_witnesses v = witness_part t @ rest"
      "get_inputs_stream v = reader_of (inputs_data t @ write_variable (length (tx_outputs t)) @ outputs_data t)"
      "get_witnesses_stream v = reader_of (witness_part t)"
    using assms(1) by (rule view_parts)
  have c: "tv_in_count v = length (tx_inputs t)" "tv_segregated v = tx_segregated t" and ok: "viewable t"
    using assms(1) by (auto elim: viewedE)
  have ins: "list_all (\<lambda>i. tx_input_ok (tx_segregated t) i \<and> view_small_script (in_script i)) (tx_inputs t)"
    using ok by (auto simp: viewable_def transaction_ok_def list_all_iff)
  have "length (inputs_data t @ write_variable (length (tx_outputs t)) @ outputs_data t) \<le> max_size_t"
      "length (witness_part t) \<le> max_size_t"
    using assms(2) by (simp_all add: transaction_parts)
  then have f: "feeds (get_inputs_stream v) (inputs_data t)" and g: "feeds (get_witnesses_stream v) (witness_part t)"
    unfolding p(3,4) by (blast intro: feeds_prefix feeds_reader_of)+
  have d: "drop (rpos (get_inputs_stream v)) (at_inputs v) = inputs_data t @ write_variable (length (tx_outputs t)) @
      outputs_data t @ witness_part t @ rest"
    by (simp add: p reader_of_def)
  have w: "tx_segregated t \<Longrightarrow> feeds (get_witnesses_stream v) (witnesses_data (tx_inputs t)) \<and>
      drop (rpos (get_witnesses_stream v)) (at_witnesses v) = witnesses_data (tx_inputs t) @ rest"
    using g by (simp add: p(2,4) witness_part_def reader_of_def)
  obtain vs where "input_views (length (tx_inputs t)) (at_inputs v) (at_witnesses v) (tx_segregated t)
      (get_inputs_stream v) (get_witnesses_stream v) = Some vs" "list_all2 (input_viewed (tx_segregated t)) (tx_inputs t) vs"
    using input_views_exact [OF ins f d w] by blast
  moreover have "viewed H coinbase t (v\<lparr>tv_inputs := Some vs\<rparr>)" using assms(1) by (rule viewed_inputs)
  ultimately show ?thesis by (simp add: set_inputs_def c view_populated_def)
qed

lemma set_all_inputs_exact:
  "list_all2 (viewed H False) ts xs \<Longrightarrow> list_all (\<lambda>t. length (transaction_to_data t True) \<le> max_size_t) ts \<Longrightarrow>
   \<exists>ys. set_all_inputs xs = Some ys \<and> list_all2 (view_populated H False) ts ys"
proof (induction rule: list_all2_induct)
  case (Cons t ts x xs)
  then obtain y ys where "set_inputs x = Some y" "view_populated H False t y" "set_all_inputs xs = Some ys" "list_all2 (view_populated H False) ts ys"
    using set_inputs_exact [OF Cons.hyps(1)] by auto
  then show ?case by simp
qed simp

definition block_populated :: "(data_chunk \<Rightarrow> hash_digest) \<Rightarrow> chain_block \<Rightarrow> block_view \<Rightarrow> bool" where
  "block_populated H b v \<longleftrightarrow> block_viewed H b v \<and>
     (\<exists>t ts x xs. blk_txs b = t # ts \<and> bv_txs v = x # xs \<and> view_populated H True t x \<and> list_all2 (view_populated H False) ts xs)"

lemma transactions_data_part: "u \<in> set us \<Longrightarrow> length (transaction_to_data u True) \<le> length (transactions_data us)"
  by (induction us) auto

lemma populate_inputs_exact:
  assumes "block_viewed H b v" "length (block_to_data b True) \<le> max_size_t"
  shows "\<exists>v'. bv_populate_inputs v = Some v' \<and> block_populated H b v'"
proof -
  obtain t ts x xs where s: "blk_txs b = t # ts" "bv_txs v = x # xs" "viewed H True t x" "list_all2 (viewed H False) ts xs"
    using assms(1) by (auto simp: block_viewed_def)
  have fits: "length (transaction_to_data u True) \<le> max_size_t" if "u \<in> set (t # ts)" for u
  proof -
    have "length (transaction_to_data u True) \<le> length (transactions_data (t # ts))"
      using that by (rule transactions_data_part)
    then show ?thesis using assms(2) s(1) by (simp add: block_to_data_def)
  qed
  obtain y where y: "set_inputs x = Some y" "view_populated H True t y" using set_inputs_exact [OF s(3)] fits by auto
  obtain ys where ys: "set_all_inputs xs = Some ys" "list_all2 (view_populated H False) ts ys"
    using set_all_inputs_exact [OF s(4)] fits by (auto simp: list_all_iff)
  let ?v = "v\<lparr>bv_txs := y # ys, bv_inputs := Some (concat (map populated_inputs (y # ys)))\<rparr>"
  have "list_all2 (viewed H False) ts ys" using ys(2) by (rule list_all2_mono) (simp add: view_populated_def)
  then have "block_viewed H b ?v" using assms(1) s(1) y(2) by (auto simp: block_viewed_def view_populated_def)
  then have "block_populated H b ?v" using s(1) y(2) ys(2) by (simp add: block_populated_def)
  then show ?thesis using y(1) ys(1) s(2) by (simp add: bv_populate_inputs_def)
qed

section \<open>The checks of a transaction\<close>

lemma populated_reads:
  assumes "view_populated H coinbase t v"
  shows "map iv_point_hash (populated_inputs v) = map (\<lambda>i. point_hash (in_point i)) (tx_inputs t)"
    "list_ex iv_is_null_point (populated_inputs v) \<longleftrightarrow> is_null_non_coinbase t"
    "list_all iv_is_final (populated_inputs v) \<longleftrightarrow> list_all input_is_final (tx_inputs t)"
    "populated_inputs v \<noteq> []" "iv_size (hd (populated_inputs v)) = script_serialized_size (in_script (hd (tx_inputs t))) False"
    "iv_script (hd (populated_inputs v)) = in_script (hd (tx_inputs t))"
proof -
  have l: "list_all2 (input_viewed (tx_segregated t)) (tx_inputs t) (populated_inputs v)" and n: "tx_inputs t \<noteq> []"
    using assms by (auto simp: view_populated_def elim: viewedE)
  show "map iv_point_hash (populated_inputs v) = map (\<lambda>i. point_hash (in_point i)) (tx_inputs t)"
    using l by (induction rule: list_all2_induct) (auto simp: input_view_reads)
  show "list_ex iv_is_null_point (populated_inputs v) \<longleftrightarrow> is_null_non_coinbase t"
    using l unfolding is_null_non_coinbase_def by (induction rule: list_all2_induct) (auto simp: input_view_reads)
  show "list_all iv_is_final (populated_inputs v) \<longleftrightarrow> list_all input_is_final (tx_inputs t)"
    using l by (induction rule: list_all2_induct) (auto simp: input_view_reads)
  show "populated_inputs v \<noteq> []" using l n by (cases "tx_inputs t") (auto simp: list_all2_Cons1)
  show "iv_size (hd (populated_inputs v)) = script_serialized_size (in_script (hd (tx_inputs t))) False"
    "iv_script (hd (populated_inputs v)) = in_script (hd (tx_inputs t))"
    using l n by (cases "tx_inputs t"; auto simp: list_all2_Cons1 input_view_reads)+
qed

lemma view_tx_check:
  assumes "view_populated H coinbase t v" "coinbase = tx_is_coinbase t"
  shows "tv_check v = tx_check t"
proof -
  note r = populated_reads [OF assms(1)]
  have v: "tv_in_count v = length (tx_inputs t)" "tv_out_count v = length (tx_outputs t)" "tv_coinbase v = tx_is_coinbase t"
    using assms by (auto simp: view_populated_def elim: viewedE)
  show ?thesis
    by (simp add: tv_check_def tx_check_def v is_empty_def tv_is_invalid_coinbase_size_def is_invalid_coinbase_size_def
        tv_is_null_non_coinbase_def r Let_def)
qed

lemma view_tx_check_context:
  assumes "view_populated H coinbase t v"
  shows "tv_check_context v ctx = tx_check_context t ctx"
proof -
  have "tv_locktime v = tx_locktime t" using assms by (auto simp: view_populated_def elim: view_parts)
  then show ?thesis
    by (simp add: tv_check_context_def tx_check_context_def tv_is_absolute_locked_def is_absolute_locked_def
        populated_reads [OF assms])
qed

section \<open>The checks of a block\<close>

lemma view_scan_references:
  "list_all2 (view_populated H False) ts xs \<Longrightarrow> bv_scan_references hashes xs = scan_references H hashes ts"
proof (induction arbitrary: hashes rule: list_all2_induct)
  case (Cons t ts x xs)
  have "list_ex (\<lambda>i. iv_point_hash i \<in> set hashes) (populated_inputs x) \<longleftrightarrow>
      list_ex (\<lambda>h. h \<in> set hashes) (map iv_point_hash (populated_inputs x))"
    by (simp add: list_ex_iff)
  also have "\<dots> \<longleftrightarrow> list_ex (\<lambda>i. point_hash (in_point i) \<in> set hashes) (tx_inputs t)"
    by (simp add: populated_reads(1) [OF Cons.hyps(1)] list_ex_iff)
  finally have "list_ex (\<lambda>i. iv_point_hash i \<in> set hashes) (populated_inputs x) \<longleftrightarrow> \<dots>" .
  moreover have "tv_hash x False = transaction_hash H t False"
    using Cons.hyps(1) view_hash(1) by (auto simp: view_populated_def)
  ultimately show ?case using Cons.IH by simp
qed simp

abbreviation key_of :: "hash_digest \<times> u32 \<Rightarrow> point_key" where
  "key_of p \<equiv> Point_key (snd p) (fst p)"

lemma inj_key_of: "inj key_of"
  by (rule injI) (simp add: prod_eq_iff)

lemma view_scan_points:
  "list_all2 (input_viewed seg) ins vs \<Longrightarrow> map_option (map key_of) (bv_scan_points seen vs) = scan_points (map key_of seen) ins"
proof (induction arbitrary: seen rule: list_all2_induct)
  case (Cons i ins v vs)
  let ?k = "(iv_point_hash v, iv_point_index v)"
  have k: "key_of ?k = point_key (in_point i)"
    using input_view_reads(1,2) [OF Cons.hyps(1)] by (simp add: point_key_def)
  have m: "?k \<in> set seen \<longleftrightarrow> point_key (in_point i) \<in> set (map key_of seen)"
    using inj_image_mem_iff [OF inj_key_of, of ?k "set seen"] k by simp
  show ?case
  proof (cases "?k \<in> set seen")
    case True
    then show ?thesis using m by simp
  next
    case False
    then show ?thesis using m Cons.IH [of "?k # seen"] k by simp
  qed
qed simp

lemma view_scan_spends:
  "list_all2 (view_populated H False) ts xs \<Longrightarrow> bv_scan_spends seen xs = scan_spends (map key_of seen) ts"
proof (induction arbitrary: seen rule: list_all2_induct)
  case (Cons t ts x xs)
  have "list_all2 (input_viewed (tx_segregated t)) (tx_inputs t) (populated_inputs x)"
    using Cons.hyps(1) by (simp add: view_populated_def)
  note p = view_scan_points [OF this, of seen, symmetric]
  show ?case
  proof (cases "bv_scan_points seen (populated_inputs x)")
    case None
    then show ?thesis by (simp add: p)
  next
    case (Some seen')
    then show ?thesis using Cons.IH [of seen'] by (simp add: p)
  qed
qed simp

lemma view_block_sizes:
  assumes "block_viewed H b v"
  shows "bv_serialized_size v False = length (block_to_data b False)"
    "bv_serialized_size v True = length (bv_buffer v)"
proof -
  have sum: "foldl (\<lambda>acc x. acc + tv_serialized_size x False) n xs = n + length (concat (map (\<lambda>t. transaction_to_data t False) ts))"
    if "list_all2 (\<lambda>t x. \<exists>coinbase. viewed H coinbase t x) ts xs" for n ts xs
    using that by (induction arbitrary: n rule: list_all2_induct) (auto simp: view_sizes)
  note l = viewed_all [OF assms]
  have "header_ok (blk_header b)" using assms by (simp add: block_viewed_def block_ok_def)
  then show "bv_serialized_size v False = length (block_to_data b False)"
    using sum [OF l] list_all2_lengthD [OF l] header_to_data_size
    by (simp add: bv_serialized_size_def block_to_data_def size_simps)
  show "bv_serialized_size v True = length (bv_buffer v)" by (simp add: bv_serialized_size_def)
qed

lemma view_check_transactions:
  assumes "list_all2 (view_populated H False) ts xs" "\<not> list_ex tx_is_coinbase ts"
  shows "first_view_failure tv_check xs = first_failure tx_check ts"
  using assms by (induction rule: list_all2_induct) (simp_all add: view_tx_check)

lemma view_check_transactions_context:
  "list_all2 (view_populated H False) ts xs \<Longrightarrow>
   first_view_failure (\<lambda>x. tv_check_context x ctx) xs = first_failure (\<lambda>t. tx_check_context t ctx) ts"
  by (induction rule: list_all2_induct) (simp_all add: view_tx_check_context)

lemma block_fits:
  assumes "block_viewed H b v" "length (bv_buffer v) \<le> max_bytes"
  shows "block_serialized_size b w = length (block_to_data b w)"
proof -
  have "block_ok b" and l: "length (block_to_data b True) \<le> max_size_t"
    using assms max_bytes_max_size by (auto simp: block_viewed_def)
  have "length (transaction_to_data t False) \<le> length (transaction_to_data t True)" for t
    by (simp add: transaction_parts)
  then have "length (concat (map (\<lambda>t. transaction_to_data t False) ts)) \<le> length (transactions_data ts)" for ts
    by (induction ts) (auto simp: add_mono)
  then have "length (block_to_data b False) \<le> length (block_to_data b True)" by (simp add: block_to_data_def)
  then show ?thesis using l block_size_length [OF \<open>block_ok b\<close>, of w] by (cases w) simp_all
qed

lemma view_block_check:
  assumes "block_populated H b v" "length (bv_buffer v) \<le> max_bytes"
  shows "bv_check v = block_check H b False"
proof -
  have v: "block_viewed H b v" using assms(1) by (simp add: block_populated_def)
  obtain t ts x xs where s: "blk_txs b = t # ts" "bv_txs v = x # xs" "view_populated H True t x" "list_all2 (view_populated H False) ts xs"
    using assms(1) by (auto simp: block_populated_def)
  have over: "bv_is_oversized v \<longleftrightarrow> block_is_oversized b"
    using view_block_sizes(1) [OF v] block_fits [OF v assms(2), of False] by (simp add: bv_is_oversized_def block_is_oversized_def)
  have c: "bv_is_coinbase x \<longleftrightarrow> tx_is_coinbase t" using s(3) view_is_coinbase by (auto simp: view_populated_def)
  then have first: "bv_is_first_non_coinbase v \<longleftrightarrow> is_first_non_coinbase b"
    using s(1,2) by (simp add: bv_is_first_non_coinbase_def is_first_non_coinbase_def)
  have cs: "list_ex bv_is_coinbase xs \<longleftrightarrow> list_ex tx_is_coinbase ts"
    using s(4) by (induction rule: list_all2_induct) (auto simp: view_populated_def view_is_coinbase)
  then have extra: "bv_is_extra_coinbases v \<longleftrightarrow> is_extra_coinbases b"
    using s(1,2) by (simp add: bv_is_extra_coinbases_def is_extra_coinbases_def)
  have "list_all2 (view_populated H False) (rev ts) (rev xs)" using s(4) by simp
  from view_scan_references [OF this] have forward: "bv_is_forward_reference v \<longleftrightarrow> is_forward_reference H (blk_txs b) True"
    using s(1,2) by (simp add: bv_is_forward_reference_def is_forward_reference_def)
  have double: "bv_is_internal_double_spend v \<longleftrightarrow> block_internal_double_spend (blk_txs b) True"
    using view_scan_spends [OF s(4), of "[]"] s(1,2) by (simp add: bv_is_internal_double_spend_def block_internal_double_spend_def)
  have txs: "first_view_failure tv_check (bv_txs v) = check_transactions b"
    if "tx_is_coinbase t" "\<not> list_ex tx_is_coinbase ts"
    using view_tx_check [OF s(3)] view_check_transactions [OF s(4) that(2)] that(1) s(1,2) by (simp add: check_transactions_def)
  have "is_first_non_coinbase b \<longleftrightarrow> \<not> tx_is_coinbase t" "is_extra_coinbases b \<longleftrightarrow> list_ex tx_is_coinbase ts"
    using s(1) by (simp_all add: is_first_non_coinbase_def is_extra_coinbases_def)
  then show ?thesis
    using txs s(1,2) unfolding bv_check_def block_check_def over first extra forward double view_malleated(2) [OF v]
    by (simp add: block_is_empty_def)
qed

lemma view_block_check_context:
  assumes "block_populated H b v" "bv_buffer v = block_to_data b True" "length (bv_buffer v) \<le> max_bytes"
  shows "bv_check_context v ctx = block_check_context H b ctx False"
proof -
  have v: "block_viewed H b v" using assms(1) by (simp add: block_populated_def)
  obtain t ts x xs where s: "blk_txs b = t # ts" "bv_txs v = x # xs" "view_populated H True t x" "list_all2 (view_populated H False) ts xs"
    using assms(1) by (auto simp: block_populated_def)
  have weight: "bv_is_overweight v \<longleftrightarrow> block_is_overweight b"
    using view_block_sizes [OF v] block_fits [OF v assms(3)] assms(2)
    by (simp add: bv_is_overweight_def block_is_overweight_def bv_weight_def block_weight_def)
  have n: "tv_in_count x \<noteq> 0" "tx_inputs t \<noteq> []" using s(3) by (auto simp: view_populated_def elim: viewedE)
  have script: "bv_is_invalid_coinbase_script v h \<longleftrightarrow> is_invalid_coinbase_script b h" for h
    using populated_reads(6) [OF s(3)] n s(1,2) by (simp add: bv_is_invalid_coinbase_script_def is_invalid_coinbase_script_def)
  have h: "tv_hash x False = transaction_hash H t False" using s(3) view_hash(1) by (auto simp: view_populated_def)
  have "concat (map (\<lambda>x. tv_hash x False # map iv_point_hash (populated_inputs x)) xs) =
      concat (map (\<lambda>t. transaction_hash H t False # map (\<lambda>i. point_hash (in_point i)) (tx_inputs t)) ts)"
    using s(4)
  proof (induction rule: list_all2_induct)
    case (Cons t ts x xs)
    then show ?case using populated_reads(1) [OF Cons.hyps(1)] view_hash(1) [of H False t x] by (simp add: view_populated_def)
  qed simp
  then have limit: "bv_is_hash_limit_exceeded v \<longleftrightarrow> is_hash_limit_exceeded H b"
    unfolding bv_is_hash_limit_exceeded_def is_hash_limit_exceeded_def s(1,2) by (simp add: h)
  have "first_view_failure (\<lambda>x. tv_check_context x ctx) (bv_txs v) = check_transactions_context b ctx"
    using view_tx_check_context [OF s(3)] view_check_transactions_context [OF s(4)] s(1,2) by (simp add: check_transactions_context_def)
  then show ?thesis
    by (simp add: bv_check_context_def block_check_context_def weight script limit Let_def)
qed



end
