(* ===== verification/ViewCommit.thy ===== *)
theory ViewCommit
  imports ViewInputs
begin

text \<open>
  The witness commitment of a block view: the bytes that the view compares against the patterns
  over operations and witness stacks of the objects.
\<close>

section \<open>Commitments\<close>

lemma op_return_parses:
  assumes "op_code (hd (parse_ops bs)) = opcode_op_return" "bs \<noteq> []"
  obtains rest where "bs = opcode_op_return # rest" "parse_ops bs = \<lparr>op_code = opcode_op_return, op_data = None, op_underflow = False\<rparr> # parse_ops rest"
proof -
  obtain c t where c: "bs = c # t" using assms(2) by (cases bs) auto
  show thesis
  proof (cases "parse_op bs")
    case None
    then show thesis using assms parse_ops_None [OF None] by (simp add: underflow_op_def any_invalid_def)
  next
    case (Some p)
    obtain op rest where p: "p = (op, rest)" by fastforce
    then have "op_code op = c" using Some c by (auto simp: Let_def split: if_splits)
    then have r: "c = opcode_op_return" using assms(1) parse_ops_Some [of bs op rest] Some p by simp
    then show thesis using Some p c that parse_ops_Some [of bs op rest]
      by (auto simp: Let_def claimed_size_def header_size_def split: if_splits)
  qed
qed

lemma push_36_parses:
  assumes "op_code (hd (parse_ops bs)) = 36" "bs \<noteq> []"
  obtains rest where "bs = 36 # rest" "36 \<le> length rest" "get_data (hd (parse_ops bs)) = take 36 rest"
proof -
  obtain c t where c: "bs = c # t" using assms(2) by (cases bs) auto
  show thesis
  proof (cases "parse_op bs")
    case None
    then show thesis using assms parse_ops_None [OF None] by (simp add: underflow_op_def any_invalid_def)
  next
    case (Some p)
    obtain op rest where p: "p = (op, rest)" by fastforce
    then have "op_code op = c" using Some c by (auto simp: Let_def split: if_splits)
    then have r: "c = 36" using assms(1) parse_ops_Some [of bs op rest] Some p by simp
    then show thesis using Some p c that parse_ops_Some [of bs op rest]
      by (auto simp: Let_def claimed_size_def header_size_def get_data_def split: if_splits)
  qed
qed

lemma commitment_pattern_bytes:
  assumes "is_commitment_pattern (parse_ops bs)"
  obtains rest where "bs = opcode_op_return # 36 # rest" "36 \<le> length rest" "take 4 rest = be_bytes 4 witness_head"
    "get_data (parse_ops bs ! 1) = take 36 rest"
proof -
  have p: "op_code (hd (parse_ops bs)) = opcode_op_return" "length (parse_ops bs) > 1" "op_code (parse_ops bs ! 1) = 36"
      "take 4 (get_data (parse_ops bs ! 1)) = be_bytes 4 witness_head"
    using assms by (cases "parse_ops bs"; auto simp: is_commitment_pattern_def)+
  have "bs \<noteq> []" using p(2) by (auto simp: parse_ops.simps)
  then obtain t where t: "bs = opcode_op_return # t" "parse_ops bs ! 1 = hd (parse_ops t)" "parse_ops t \<noteq> []"
    using p(1,2) op_return_parses [of bs] by (metis One_nat_def hd_conv_nth length_Cons less_not_refl list.size(3) nth_Cons_Suc)
  then have "t \<noteq> []" by (auto simp: parse_ops.simps)
  then obtain rest where "t = 36 # rest" "36 \<le> length rest" "get_data (hd (parse_ops t)) = take 36 rest"
    using push_36_parses [of t] p(3) t(2) by metis
  then show thesis using that t p(4) by simp
qed

lemma commitment_bytes_pattern:
  assumes "36 \<le> length rest" "take 4 rest = be_bytes 4 witness_head"
  shows "is_commitment_pattern (parse_ops (opcode_op_return # 36 # rest))"
proof -
  have a: "parse_op (opcode_op_return # 36 # rest) = Some (\<lparr>op_code = opcode_op_return, op_data = None, op_underflow = False\<rparr>, 36 # rest)"
    by (simp add: claimed_size_def header_size_def)
  have b: "parse_op (36 # rest) = Some (\<lparr>op_code = 36, op_data = Some (take 36 rest), op_underflow = False\<rparr>, drop 36 rest)"
    using assms(1) by (simp add: claimed_size_def header_size_def max_bytes_def max_block_weight_def max_block_size_def)
  show ?thesis using assms
    by (simp add: is_commitment_pattern_def parse_ops_Some [OF a] parse_ops_Some [OF b] get_data_def data_size_def)
qed

lemma is_commitment_exact:
  "is_commitment_bytes (bs @ x) (length bs) \<longleftrightarrow> is_commitment_pattern (parse_ops bs)"
  "is_commitment_pattern (parse_ops bs) \<Longrightarrow>
    take hash_size (drop commitment_pattern_size (bs @ x)) = take hash_size (drop 4 (get_data (parse_ops bs ! 1)))"
proof -
  show "is_commitment_bytes (bs @ x) (length bs) \<longleftrightarrow> is_commitment_pattern (parse_ops bs)"
  proof
    assume c: "is_commitment_bytes (bs @ x) (length bs)"
    then have "38 \<le> length bs" by (simp add: is_commitment_bytes_def commitment_pattern_size_def hash_size_def)
    then obtain a b rest where r: "bs = a # b # rest" "36 \<le> length rest" by (cases bs; cases "tl bs") auto
    then show "is_commitment_pattern (parse_ops bs)"
      using c commitment_bytes_pattern [of rest] by (simp add: is_commitment_bytes_def)
  next
    assume "is_commitment_pattern (parse_ops bs)"
    then obtain rest where "bs = opcode_op_return # 36 # rest" "36 \<le> length rest" "take 4 rest = be_bytes 4 witness_head"
      by (rule commitment_pattern_bytes)
    then show "is_commitment_bytes (bs @ x) (length bs)"
      by (simp add: is_commitment_bytes_def commitment_pattern_size_def hash_size_def)
  qed
  assume "is_commitment_pattern (parse_ops bs)"
  then obtain rest where "bs = opcode_op_return # 36 # rest" "36 \<le> length rest" "get_data (parse_ops bs ! 1) = take 36 rest"
    by (rule commitment_pattern_bytes)
  then show "take hash_size (drop commitment_pattern_size (bs @ x)) = take hash_size (drop 4 (get_data (parse_ops bs ! 1)))"
    by (simp add: commitment_pattern_size_def hash_size_def drop_take)
qed

lemma output_script_parse:
  assumes "output_ok p" "view_small_script (out_script p)"
  shows "script_ops (out_script p) = parse_ops (script_to_data (out_script p) False)"
proof -
  have "script_wf (out_script p)" using assms(1) by (simp add: output_ok_def)
  then obtain ops where ops: "out_script p = make_script ops True (ops_serialized_size ops)" "ops_wf ops"
    by (rule script_wfE)
  then show ?thesis using parse_ops_concat [OF ops(2)] by (simp add: make_script_def script_to_data_def)
qed

lemma find_commitment_snoc:
  "find_commitment (ps @ [p]) = (case find_commitment ps of None \<Rightarrow> committed_hash p | Some h \<Rightarrow> Some h)"
  by (induction ps) (auto split: option.splits)

lemma scan_commitments_exact:
  "list_all (\<lambda>p. output_ok p \<and> view_small_script (out_script p)) ps \<Longrightarrow> feeds r (concat (map output_to_data ps)) \<Longrightarrow>
   drop (rpos r) output = concat (map output_to_data ps) @ x \<Longrightarrow>
   scan_commitments (length ps) output r found = (case find_commitment (rev ps) of None \<Rightarrow> found | Some h \<Rightarrow> Some h)"
proof (induction ps arbitrary: r found)
  case (Cons p ps)
  let ?b = "script_to_data (out_script p) False" and ?v = "write_little_endian 8 (unat (out_value p))"
  have ok: "output_ok p" "view_small_script (out_script p)" and oks: "list_all (\<lambda>p. output_ok p \<and> view_small_script (out_script p)) ps"
    using Cons.prems(1) by simp_all
  have wf: "script_wf (out_script p)" using ok(1) by (simp add: output_ok_def)
  have d: "output_to_data p = ?v @ write_variable (length ?b) @ ?b"
    using script_of_bytes_id(3) [OF wf ok(2)] by (simp add: output_to_data_def)
  have l: "length ?b \<le> max_size_t" "length ?b \<le> max_uint64"
    using ok(2) max_bytes_max_size max_bytes_uint64 by (auto simp: view_small_script_def)
  have f: "feeds r (?v @ write_variable (length ?b) @ ?b @ concat (map output_to_data ps))"
    using Cons.prems(2) d by simp
  have dr: "drop (rpos r) output = ?v @ write_variable (length ?b) @ ?b @ concat (map output_to_data ps) @ x"
    using Cons.prems(3) d by simp
  have v: "length ?v = value_size" by (simp add: write_little_endian_def value_size_def)
  note k = skip_bytes_then [OF f v]
  obtain s where s: "read_size max_size_t (skip_bytes value_size r) = (length ?b, s)"
      "moved (skip_bytes value_size r) (variable_size (length ?b)) s" "feeds s (?b @ concat (map output_to_data ps))"
    using read_size_then [OF k(2) l] .
  note m = skip_bytes_then [OF s(3) refl]
  have d1: "drop (rpos (skip_bytes value_size r)) output = write_variable (length ?b) @ ?b @ concat (map output_to_data ps) @ x"
    by (rule drop_moved [OF dr]) (use k(1) v in simp)
  have d2: "drop (rpos s) output = ?b @ concat (map output_to_data ps) @ x"
    by (rule drop_moved [OF d1]) (use s(2) in \<open>simp add: size_simps\<close>)
  have d3: "drop (rpos (skip_bytes (length ?b) s)) output = concat (map output_to_data ps) @ x"
    by (rule drop_moved [OF d2 m(1)])
  have c: "committed_hash p = (if is_commitment_bytes (drop (rpos s) output) (length ?b)
      then Some (take hash_size (drop commitment_pattern_size (drop (rpos s) output))) else None)"
    unfolding d2 committed_hash_def output_script_parse [OF ok] is_commitment_exact(1)
    by (simp add: Let_def is_commitment_exact(2) del: take_append drop_append)
  show ?case
    using Cons.IH [OF oks m(2) d3] s(1) c by (auto simp: get_read_position_def find_commitment_snoc split: option.splits)
qed simp

lemma view_commitment:
  assumes "viewed H coinbase t v" "length (transaction_to_data t True) \<le> max_size_t"
  shows "tv_witness_commitment v = get_witness_commitment t"
proof -
  obtain rest where p: "at_outputs v = outputs_data t @ witness_part t @ rest" "get_outputs_stream v = reader_of (outputs_data t)"
    using assms(1) by (rule view_parts)
  have c: "tv_out_count v = length (tx_outputs t)" "viewable t" using assms(1) by (auto elim: viewedE)
  have "length (outputs_data t) \<le> max_size_t" using assms(2) by (simp add: transaction_parts)
  then have f: "feeds (get_outputs_stream v) (outputs_data t)" unfolding p(2) by (rule feeds_reader_of)
  have d: "drop (rpos (get_outputs_stream v)) (at_outputs v) = outputs_data t @ witness_part t @ rest"
    by (simp add: p reader_of_def)
  show ?thesis
    using scan_commitments_exact [OF plain_inputs(2) [OF c(2)] f d, of None] c(1)
    by (auto simp: tv_witness_commitment_def get_witness_commitment_def split: option.splits)
qed

section \<open>Reservations\<close>

lemma write_variable_small: "n < 253 \<Longrightarrow> write_variable n = [word_of_nat n]"
  by (simp add: write_variable_def write_byte_def varint_simps)

lemma write_variable_hash: "hd (write_variable n) = word_of_nat hash_size \<longleftrightarrow> n = hash_size"
proof (cases "n < 253")
  case True
  then have "unat (word_of_nat n :: byte) = n" by (simp add: unat_of_nat)
  then have "(word_of_nat n :: byte) = 32 \<longleftrightarrow> n = 32" by auto
  then show ?thesis using True by (simp add: write_variable_small hash_size_def)
next
  case False
  then show ?thesis by (auto simp: write_variable_def write_byte_def varint_simps hash_size_def)
qed

lemma view_reservation:
  assumes "viewed H coinbase t v"
  shows "tv_witness_reservation v = get_witness_reservation t"
proof -
  obtain rest where a: "at_witnesses v = witness_part t @ rest" using assms by (rule view_parts)
  have n: "tv_witnesses_size v = length (witness_part t)" and ok: "viewable t" "tx_inputs t \<noteq> []" using assms by (auto elim: viewedE)
  obtain i ins where i: "tx_inputs t = i # ins" using ok(2) by (cases "tx_inputs t") auto
  have g: "get_witness_reservation t = reserved_hash i" by (simp add: get_witness_reservation_def i)
  show ?thesis
  proof (cases "tx_segregated t")
    case False
    then have "in_witness i = default_witness"
      using ok(1) i by (auto simp: viewable_def transaction_ok_def tx_input_ok_def)
    then show ?thesis using False n
      by (simp add: tv_witness_reservation_def is_reserved_bytes_def witness_part_def g reserved_hash_def is_reserved_pattern_def
          default_witness_def make_witness_def reserved_pattern_size_def)
  next
    case True
    let ?st = "wit_stack (in_witness i)"
    obtain y where W: "witness_part t = write_variable (length ?st) @ concat (map write_element ?st) @ y"
      using True i by (auto simp: witness_part_def witness_to_data_def)
    obtain b bs where b: "write_variable (length ?st) = b # bs" "b = 1 \<longleftrightarrow> length ?st = 1"
      using write_variable_marker [of "length ?st"] by (auto simp: witness_enabled_def)
    show ?thesis
    proof (cases "length ?st = 1")
      case False
      then show ?thesis using a b W
        by (simp add: tv_witness_reservation_def is_reserved_bytes_def g reserved_hash_def is_reserved_pattern_def)
    next
      case one: True
      then obtain e where e: "?st = [e]" by (auto simp: length_Suc_conv)
      have W1: "witness_part t = 1 # write_variable (length e) @ e @ y" using W e by (simp add: write_variable_small write_element_def)
      obtain c cs where c: "write_variable (length e) = c # cs" using write_variable_marker by blast
      have h: "c = word_of_nat hash_size \<longleftrightarrow> length e = hash_size" using write_variable_hash [of "length e"] c by simp
      show ?thesis
      proof (cases "length e = hash_size")
        case False
        then show ?thesis using a W1 c h e
          by (simp add: tv_witness_reservation_def is_reserved_bytes_def g reserved_hash_def is_reserved_pattern_def)
      next
        case True
        then have "write_variable (length e) = [word_of_nat hash_size]" by (simp add: write_variable_small hash_size_def)
        then show ?thesis using a W1 e True n
          by (simp add: tv_witness_reservation_def is_reserved_bytes_def g reserved_hash_def is_reserved_pattern_def reserved_pattern_size_def)
      qed
    qed
  qed
qed

section \<open>The identity of a block in its context\<close>

lemma view_witness_hashes:
  assumes "block_viewed H b v" "tx_is_coinbase (hd (blk_txs b))" "\<not> list_ex tx_is_coinbase (tl (blk_txs b))"
  shows "bv_transaction_hashes v True = transaction_hashes H b True"
proof -
  obtain t ts x xs where s: "blk_txs b = t # ts" "bv_txs v = x # xs" "viewed H True t x" "list_all2 (viewed H False) ts xs"
    using assms(1) by (auto simp: block_viewed_def)
  have "\<not> list_ex tx_is_coinbase ts" using assms(3) s(1) by simp
  with s(4) have "map (\<lambda>x. tv_hash x True) xs = map (\<lambda>t. transaction_hash H t True) ts"
    by (induction rule: list_all2_induct) (simp_all add: view_hash(2))
  then show ?thesis using view_hash(2) [OF s(3)] assms(2) s(1,2) by (simp add: bv_transaction_hashes_def transaction_hashes_def)
qed

lemma view_segregated:
  assumes "block_viewed H b v"
  shows "bv_is_segregated v \<longleftrightarrow> block_is_segregated b"
proof -
  have "list_ex tv_segregated (bv_txs v) \<longleftrightarrow> list_ex tx_segregated (blk_txs b)"
    using viewed_all [OF assms] by (induction rule: list_all2_induct) (auto elim: viewedE)
  then show ?thesis using assms by (simp add: bv_is_segregated_def block_is_segregated_def block_viewed_def)
qed

text \<open>
  The witness commitment of a block view is that of the block: for every buffer that fits a block
  and whose view is valid, and whose first transaction is the only coinbase, \<open>identify\<close> of the view
  against a context returns the code of \<open>identify\<close> of the block. The view finds the commitment and
  the reserved value in the bytes, the block in the operations and the witness stack.
\<close>

lemma view_identify_context_exact:
  assumes "bv_is_valid (view_block bitcoin_hash bs True)" "length bs \<le> max_bytes"
    and "block_from_data (reader_of bs) True = (b, s)"
    and "tx_is_coinbase (hd (blk_txs b))" "\<not> list_ex tx_is_coinbase (tl (blk_txs b))"
  shows "bv_identify_context bitcoin_hash (view_block bitcoin_hash bs True) ctx = identify_context bitcoin_hash b ctx"
proof -
  let ?v = "view_block bitcoin_hash bs True"
  obtain rest where v: "block_viewed bitcoin_hash b ?v" and r: "bs = block_to_data b True @ rest"
    using view_block_of_bytes [OF assms(1,2)] assms(3) by (metis fst_conv)
  obtain t ts x xs where s: "blk_txs b = t # ts" "bv_txs ?v = x # xs" "viewed bitcoin_hash True t x"
    using v by (auto simp: block_viewed_def)
  have "length (transaction_to_data t True) \<le> max_size_t"
    using r s(1) assms(2) max_bytes_max_size by (simp add: block_to_data_def)
  note c = view_commitment [OF s(3) this] view_reservation [OF s(3)]
  have "bv_generate_merkle_root bitcoin_hash ?v True = generate_merkle_root bitcoin_hash b True"
    using view_witness_hashes [OF v assms(4,5)] by (simp add: bv_generate_merkle_root_def generate_merkle_root_def)
  then have "bv_is_invalid_witness_commitment bitcoin_hash ?v \<longleftrightarrow>
      invalid_witness_commitment bitcoin_hash t (generate_merkle_root bitcoin_hash b True) (block_is_segregated b)"
    using c s(2) view_segregated [OF v] by (simp add: bv_is_invalid_witness_commitment_def invalid_witness_commitment_def
        split: option.splits)
  then show ?thesis using view_segregated [OF v] s(1) by (simp add: bv_identify_context_def identify_context_def)
qed

text \<open>
  C28. A block view identifies what the block identifies: for every buffer that fits a block and whose view
  is valid, \<open>identify\<close> of the view returns the code of \<open>identify\<close> of the block that the parser of the
  objects reads from the same bytes, from the same transaction hashes, and against a context too when
  the first transaction is the only coinbase. The view finds the hashes, the commitment and the
  reserved value in the bytes, the block in its objects.
\<close>

theorem view_identity_exact:
  assumes "bv_is_valid (view_block bitcoin_hash bs True)" "length bs \<le> max_bytes"
    and "block_from_data (reader_of bs) True = (b, s)"
  shows "bv_identify bitcoin_hash (view_block bitcoin_hash bs True) = identify bitcoin_hash b \<and>
    bv_transaction_hashes (view_block bitcoin_hash bs True) False = transaction_hashes bitcoin_hash b False \<and>
    (tx_is_coinbase (hd (blk_txs b)) \<and> \<not> list_ex tx_is_coinbase (tl (blk_txs b)) \<longrightarrow>
      (\<forall>ctx. bv_identify_context bitcoin_hash (view_block bitcoin_hash bs True) ctx = identify_context bitcoin_hash b ctx))"
  using view_identify_exact [OF assms] view_identify_context_exact [OF assms] by blast

theorem view_identity_exact_witness:
  "bv_identify (\<lambda>_. null_hash) (view_block (\<lambda>_. null_hash) (block_to_data coinbase_block True) True) =
     identify (\<lambda>_. null_hash) coinbase_block \<and>
   (\<forall>ctx. bv_identify_context (\<lambda>_. null_hash) (view_block (\<lambda>_. null_hash) (block_to_data coinbase_block True) True) ctx =
     identify_context (\<lambda>_. null_hash) coinbase_block ctx)"
proof -
  obtain s where "block_from_data (reader_of (block_to_data coinbase_block True)) True = (coinbase_block, s)"
    using coinbase_block_read .
  from view_identity_exact [OF coinbase_block_view coinbase_block_fits this] show ?thesis
    by (simp add: coinbase_block_viewable(2) example_coinbase_facts(1))
qed

end
