(* ===== verification/ViewSigops.thy ===== *)
theory ViewSigops
  imports ViewCommit
begin

text \<open>
  The signature operations of a transaction view. The view counts the scripts of the outputs on one
  stream, with a limit on the stream for each script; a push that reaches past its script exceeds the
  limit and invalidates the stream for all outputs behind it.
\<close>

section \<open>The stream behind a count\<close>

lemma sigops_end_step:
  assumes "ready r" "window r = c # t" "count_op r = (True, s)"
  shows "sigops_end r = sigops_end s"
proof -
  have ne: "\<not> get_exhausted r" using assms get_exhausted_window by auto
  obtain sz r2 where d: "read_data_size c (advance 1 r) = (sz, r2)" by fastforce
  have "s = skip_bytes sz r2"
    using assms(3) ne d read_byte_window [OF assms(1,2)] by (simp add: count_op_def)
  then show ?thesis using ne d read_byte_window [OF assms(1,2)] by (simp add: sigops_end.simps [of r])
qed

lemma sigops_end_exhausted: "get_exhausted r \<Longrightarrow> sigops_end r = r"
  by (simp add: sigops_end.simps [of r])

lemma sigops_end_refines:
  "ready r \<Longrightarrow> bounded r \<Longrightarrow> length (window r) \<le> max_bytes \<Longrightarrow>
   (if list_ex op_underflow (parse_ops (window r)) then \<not> rgood (sigops_end r)
    else sigops_end r = advance (length (window r)) r)"
proof (induction "length (window r)" arbitrary: r rule: less_induct)
  case less
  show ?case
  proof (cases "window r")
    case Nil
    then show ?thesis using less.prems
      by (simp add: sigops_end_exhausted get_exhausted_window parse_ops.simps)
  next
    case (Cons c t)
    from less.prems(1,2) Cons show ?thesis
    proof (cases rule: count_op_cases)
      case (pass k)
      let ?n = "claimed_size c t" and ?h = "header_size c"
      have fit: "?n \<le> length (drop ?h t)" "?h \<le> length t" using pass(2,3,4) Cons by simp_all
      then have p: "parse_op (window r) = Some (\<lparr>op_code = c,
          op_data = (if ?n = 0 then None else Some (take ?n (drop ?h t))), op_underflow = False\<rparr>,
          drop ?n (drop ?h t))"
        using Cons less.prems(3) by (simp add: Let_def)
      have w: "window (advance k r) = drop ?n (drop ?h t)"
        using pass(2,3) Cons by (simp add: window_advance add.commute)
      have l: "length (window r) = k + length (window (advance k r))"
        using pass(2) window_advance [of k r] by simp
      have "if list_ex op_underflow (parse_ops (window (advance k r))) then \<not> rgood (sigops_end (advance k r))
          else sigops_end (advance k r) = advance (length (window (advance k r))) (advance k r)"
        by (rule less.hyps) (use less.prems pass(2) w Cons in \<open>auto simp: ready_advance bounded_advance\<close>)
      then show ?thesis
        using sigops_end_step [OF less.prems(1) Cons pass(1)] l w parse_ops_Some [OF p] by (simp split: if_splits)
    next
      case (fail s)
      then have "parse_op (window r) = None" using Cons by (auto simp: Let_def)
      then have "parse_ops (window r) = [underflow_op (window r)]" using Cons by (intro parse_ops_None) simp_all
      moreover have "sigops_end r = s"
        using sigops_end_step [OF less.prems(1) Cons fail(1)] fail(2)
        by (simp add: sigops_end_exhausted get_exhausted_def)
      ultimately show ?thesis using fail(2) by (simp add: underflow_op_def)
    qed
  qed
qed

section \<open>The count over outputs\<close>

text \<open>The outputs up to the first whose script ends in an incomplete operation.\<close>

fun counted_outputs :: "chain_output list \<Rightarrow> chain_output list" where
  "counted_outputs [] = []"
| "counted_outputs (p # ps) = p # (if list_ex op_underflow (script_ops (out_script p)) then [] else counted_outputs ps)"

lemma read_size_bad: "\<not> rgood r \<Longrightarrow> fst (read_size max_size_t r) = 0 \<and> \<not> rgood (snd (read_size max_size_t r))"
  by (auto simp: read_size_def read_variable_def read_byte_def do_read_bytes_def istream_read_def limiter_def
      invalidate_def varint_simps)

lemma sum_sigops_bad:
  "\<not> rgood r \<Longrightarrow> acc \<le> max_size_t \<Longrightarrow> sum_sigops n scale acc r = acc"
proof (induction n arbitrary: r)
  case (Suc n)
  obtain sz s where s: "read_size max_size_t (skip_bytes value_size r) = (sz, s)" by fastforce
  have "\<not> rgood (skip_bytes value_size r)" using Suc.prems(1) skip_bytes_sticky by blast
  with s read_size_bad have b: "\<not> rgood s" by (metis snd_conv)
  then have e: "get_exhausted (set_limit sz s)" by (simp add: get_exhausted_def set_limit_def)
  have "signature_operations_stream (set_limit sz s) False = 0"
    using stream_sigops_exhausted [OF e] by (simp add: signature_operations_stream_def)
  moreover have "\<not> rgood (set_limit max_size_t (sigops_end (set_limit sz s)))"
    using b sigops_end_exhausted [OF e] by (simp add: set_limit_def)
  ultimately show ?case using Suc s by (simp add: ceilinged_add_def)
qed simp

lemma sum_sigops_exact:
  "list_all (\<lambda>p. output_ok p \<and> view_small_script (out_script p)) ps \<Longrightarrow> feeds r (concat (map output_to_data ps)) \<Longrightarrow>
   acc \<le> max_size_t \<Longrightarrow>
   sum_sigops (length ps) (if bip141 then heavy_sigops_factor else 1) acc r =
   foldl (\<lambda>acc p. ceilinged_add acc (output_signature_operations p bip141)) acc (counted_outputs ps)"
proof (induction ps arbitrary: r acc)
  case (Cons p ps)
  let ?b = "script_to_data (out_script p) False" and ?v = "write_little_endian 8 (unat (out_value p))"
    and ?f = "if bip141 then heavy_sigops_factor else 1"
  have ok: "output_ok p" "view_small_script (out_script p)" and oks: "list_all (\<lambda>p. output_ok p \<and> view_small_script (out_script p)) ps"
    using Cons.prems(1) by simp_all
  have wf: "script_wf (out_script p)" using ok(1) by (simp add: output_ok_def)
  have l: "length ?b \<le> max_bytes" "length ?b \<le> max_size_t" "length ?b \<le> max_uint64"
    using ok(2) max_bytes_max_size max_bytes_uint64 by (auto simp: view_small_script_def)
  have f: "feeds r (?v @ write_variable (length ?b) @ ?b @ concat (map output_to_data ps))"
    using Cons.prems(2) script_of_bytes_id(3) [OF wf ok(2)] by (simp add: output_to_data_def [of p])
  have v: "length ?v = value_size" by (simp add: write_little_endian_def value_size_def)
  obtain s where s: "read_size max_size_t (skip_bytes value_size r) = (length ?b, s)"
      "feeds s (?b @ concat (map output_to_data ps))"
    using read_size_then [OF skip_bytes_then(2) [OF f v] l(2,3)] .
  let ?l = "set_limit (length ?b) s"
  have r: "remaining ?l = length ?b" using l(2) by (simp add: set_limit_def unat_of_nat_u64)
  have pos: "take (length ?b + length (concat (map output_to_data ps))) (drop (rpos s) (rbuf s)) =
      ?b @ concat (map output_to_data ps)" "rpos s \<le> length (rbuf s)" "rgood s"
    using s(2) by (simp_all add: feeds_def)
  have tk: "take (length ?b) (drop (rpos s) (rbuf s)) = ?b" using feeds_prefix [OF s(2)] by (simp add: feeds_def)
  have w: "window ?l = ?b" using tk r by (simp add: window_def set_limit_def)
  have rd: "ready ?l" using pos by (simp add: ready_def set_limit_def)
  have fit: "rpos s + length ?b \<le> length (rbuf s)"
    using arg_cong [OF tk, of length] pos(2) by simp
  then have bd: "bounded ?l" using r by (simp add: bounded_def set_limit_def)
  have n: "signature_operations_stream ?l False = signature_operations (out_script p) False"
    using stream_sigops_refines [OF rd bd] w l(1) output_script_parse [OF ok]
    by (simp add: signature_operations_stream_def signature_operations_def)
  note e = sigops_end_refines [OF rd bd, unfolded w, OF l(1), folded output_script_parse [OF ok]]
  let ?acc = "ceilinged_add acc (output_signature_operations p bip141)"
  have step: "sum_sigops (length (p # ps)) ?f acc r = sum_sigops (length ps) ?f ?acc (set_limit max_size_t (sigops_end ?l))"
    using s(1) n by (simp add: output_signature_operations_def Let_def)
  have a: "?acc \<le> max_size_t" by (simp add: ceilinged_add_def)
  show ?case
  proof (cases "list_ex op_underflow (script_ops (out_script p))")
    case True
    then have "\<not> rgood (set_limit max_size_t (sigops_end ?l))" using e by (simp add: set_limit_def)
    from sum_sigops_bad [OF this a] step True show ?thesis by simp
  next
    case False
    have "take (length (concat (map output_to_data ps))) (drop (rpos s + length ?b) (rbuf s)) = concat (map output_to_data ps)"
      using feeds_moved [OF s(2) moved_advance [OF feeds_prefix [OF s(2)]]] by (simp add: feeds_def)
    moreover have "length (concat (map output_to_data ps)) \<le> max_size_t"
      using s(2) unsigned_less [where w = "rlimit s" and 'a = nat] by (simp add: feeds_def max_size_t_def)
    ultimately have "feeds (set_limit max_size_t (sigops_end ?l)) (concat (map output_to_data ps))"
      using e False fit pos(3) by (simp add: feeds_def set_limit_def unat_of_nat_u64)
    from Cons.IH [OF oks this a] step False show ?thesis by simp
  qed
qed simp

lemma view_sum_sigops:
  assumes "viewed H coinbase t v" "length (transaction_to_data t True) \<le> max_size_t"
  shows "tv_signature_operations v bip16 bip141 =
    foldl (\<lambda>acc p. ceilinged_add acc (output_signature_operations p bip141))
      (foldl (\<lambda>acc i. ceilinged_add acc (iv_signature_operations i bip16 bip141)) 0 (populated_inputs v))
      (counted_outputs (tx_outputs t))"
proof -
  obtain rest where p: "get_outputs_stream v = reader_of (outputs_data t)" using assms(1) by (rule view_parts)
  have c: "tv_out_count v = length (tx_outputs t)" "viewable t" using assms(1) by (auto elim: viewedE)
  have "length (outputs_data t) \<le> max_size_t" using assms(2) by (simp add: transaction_parts)
  then have f: "feeds (get_outputs_stream v) (outputs_data t)" unfolding p by (rule feeds_reader_of)
  let ?acc = "foldl (\<lambda>acc i. ceilinged_add acc (iv_signature_operations i bip16 bip141)) 0 (populated_inputs v)"
  have "?acc \<le> max_size_t" by (simp add: foldl_ceilinged)
  from sum_sigops_exact [OF plain_inputs(2) [OF c(2)] f this, of bip141] c(1) show ?thesis
    by (simp add: tv_signature_operations_def)
qed

lemma counted_all: "\<not> list_ex (\<lambda>p. list_ex op_underflow (script_ops (out_script p))) ps \<Longrightarrow> counted_outputs ps = ps"
  by (induction ps) auto

lemma input_sigops_exact:
  assumes "list_all2 (input_viewed seg) ins vs"
  shows "foldl (\<lambda>acc i. ceilinged_add acc (iv_signature_operations i bip16 bip141)) acc vs =
    foldl (\<lambda>acc i. ceilinged_add acc (input_signature_operations i bip16 bip141)) acc ins"
  using assms
proof (induction arbitrary: acc rule: list_all2_induct)
  case (Cons i ins v vs)
  have "in_prevout i = None"
    using Cons.hyps(1) unfolding input_viewed_def tx_input_ok_def by (metis make_input_def chain_input.select_convs)
  moreover have "iv_prevout v = None" using Cons.hyps(1) by (simp add: input_viewed_def)
  ultimately have "iv_signature_operations v bip16 bip141 = input_signature_operations i bip16 bip141"
    using input_view_reads(6) [OF Cons.hyps(1)] by (simp add: iv_signature_operations_def input_signature_operations_def)
  then show ?case using Cons.IH by simp
qed simp

text \<open>
  C40. The signature operations of a transaction view: of the outputs, the view counts only those up to
  the first whose script ends in an incomplete operation, that one included. It has the count of the
  transaction when every output script is complete; otherwise it may be short of it.
\<close>

theorem view_sigops_counted:
  assumes "viewable t" "length (transaction_to_data t True) \<le> max_size_t"
  shows "\<exists>v. set_inputs (view_transaction_buffer bitcoin_hash (transaction_to_data t True) coinbase True) = Some v \<and>
    tv_signature_operations v bip16 bip141 =
      tx_signature_operations (t\<lparr>tx_outputs := counted_outputs (tx_outputs t)\<rparr>) bip16 bip141"
proof -
  have f: "feeds (reader_of (transaction_to_data t True)) (transaction_to_data t True)"
    by (rule feeds_reader_of [OF assms(2)])
  have "viewed bitcoin_hash coinbase t (tx_view_of bitcoin_hash coinbase t (transaction_to_data t True))"
    using assms(1) unfolding viewed_def by (auto intro!: exI [of _ "[]"] exI [of _ None] simp: tx_view_of_def)
  moreover have "view_transaction_buffer bitcoin_hash (transaction_to_data t True) coinbase True =
      tx_view_of bitcoin_hash coinbase t (transaction_to_data t True)"
    using view_transaction_forward [OF assms(1) f, of bitcoin_hash coinbase] by (auto simp: view_transaction_buffer_def reader_of_def)
  ultimately obtain v where v: "set_inputs (view_transaction_buffer bitcoin_hash (transaction_to_data t True) coinbase True) = Some v"
      "view_populated bitcoin_hash coinbase t v"
    using set_inputs_exact [OF _ assms(2)] by metis
  let ?ins = "foldl (\<lambda>acc i. ceilinged_add acc (input_signature_operations i bip16 bip141)) 0 (tx_inputs t)"
  have "tv_signature_operations v bip16 bip141 =
      foldl (\<lambda>acc p. ceilinged_add acc (output_signature_operations p bip141)) ?ins (counted_outputs (tx_outputs t))"
    using view_sum_sigops [OF _ assms(2)] input_sigops_exact v(2) unfolding view_populated_def by metis
  also have "\<dots> = ceilinged_add ?ins
      (foldl (\<lambda>acc p. ceilinged_add acc (output_signature_operations p bip141)) 0 (counted_outputs (tx_outputs t)))"
    by (simp add: foldl_ceilinged) (simp add: ceilinged_add_min min_absorb_add)
  finally show ?thesis using v(1) by (simp add: tx_signature_operations_def)
qed

text \<open>A transaction with a truncated push in its first output and a signature check in its second.\<close>

definition truncated_outputs :: transaction where
  "truncated_outputs = make_transaction 1
     [make_input (make_point null_hash 0) (script_of_bytes []) default_witness max_input_sequence True]
     [make_output 0 (script_of_bytes [opcode_push_one_size]) True, make_output 0 (script_of_bytes [opcode_checksig]) True]
     0 False True"

lemma truncated_outputs_viewable: "viewable truncated_outputs"
proof -
  have "script_wf (script_of_bytes bs) \<and> view_small_script (script_of_bytes bs)" if "length bs \<le> 1" for bs
    using that script_of_bytes_wf [of bs] by (simp add: max_bytes_def max_block_weight_def max_block_size_def)
  then show ?thesis
    by (simp add: viewable_def transaction_ok_def truncated_outputs_def make_transaction_def inputs_segregated_def
        make_input_def tx_input_ok_def point_ok_def make_point_def hash_size_def null_hash_def
        default_witness_def make_witness_def puts_ok_def output_ok_def make_output_def max_count_def max_block_size_def)
qed

lemma truncated_outputs_length: "length (transaction_to_data truncated_outputs True) \<le> max_size_t"
  using script_of_bytes_wf(3) [of "[]"] script_of_bytes_wf(3) [of "[opcode_push_one_size]"] script_of_bytes_wf(3) [of "[opcode_checksig]"]
  by (simp add: transaction_parts truncated_outputs_def make_transaction_def sentinels_def witness_part_def input_to_data_def
      output_to_data_def make_input_def make_output_def point_to_data_def make_point_def null_hash_def hash_size_def
      write_little_endian_def size_simps variable_size_def varint_simps limits max_bytes_def max_block_weight_def max_block_size_def)

lemma truncated_scripts:
  "script_ops (script_of_bytes []) = []"
  "script_ops (script_of_bytes [opcode_push_one_size]) = [underflow_op [opcode_push_one_size]]"
  "script_ops (script_of_bytes [opcode_checksig]) = [\<lparr>op_code = opcode_checksig, op_data = None, op_underflow = False\<rparr>]"
  by (simp_all add: script_of_bytes_parse limits make_script_def parse_ops.simps header_size_def claimed_size_def)

theorem view_sigops_counted_witness:
  "\<exists>v. set_inputs (view_transaction_buffer (\<lambda>_. null_hash) (transaction_to_data truncated_outputs True) False True) = Some v \<and>
     tv_signature_operations v False False = 0 \<and> tx_signature_operations truncated_outputs False False = 1"
proof -
  have o: "signature_operations (script_of_bytes [opcode_checksig]) False = 1"
    "signature_operations (script_of_bytes [opcode_push_one_size]) False = 0" "signature_operations (script_of_bytes []) False = 0"
    unfolding signature_operations_def truncated_scripts
    by (simp_all add: underflow_op_def sigop_step_def is_single_sigop_def is_multiple_sigop_def any_invalid_def ceilinged_add_def limits)
  have "tx_signature_operations truncated_outputs False False = 1"
    "tx_signature_operations (truncated_outputs\<lparr>tx_outputs := counted_outputs (tx_outputs truncated_outputs)\<rparr>) False False = 0"
    by (simp_all add: tx_signature_operations_def truncated_outputs_def make_transaction_def make_input_def make_output_def
        input_signature_operations_def output_signature_operations_def o truncated_scripts underflow_op_def ceilinged_add_def limits)
  with view_sigops_counted [OF truncated_outputs_viewable truncated_outputs_length, of "\<lambda>_. null_hash" False False False]
  show ?thesis by auto
qed

end
